(* ===== verification/FB_Prelude.thy ===== *)
theory FB_Prelude
  imports Main "HOL-Library.Word" "HOL-Library.Monad_Syntax"
begin

text \<open>
  Shared vocabulary of the development.

  The machine integers \<open>u8\<close>, \<open>u32\<close>, \<open>u64\<close> of the C and Rust sources are the words of the
  same width. An operation that may read or write outside an array, dereference a null
  pointer or block for ever returns an \<open>option\<close>: \<open>None\<close> stands for undefined behaviour or
  blocking, so a theorem that an operation returns \<open>Some\<close> is a memory-safety theorem.
  C error codes are ordinary integer results inside \<open>Some\<close>.

  A \<open>for\<close> loop is \<open>foldM\<close> over the list of its index values, \<open>for_ret\<close> when its body can
  leave the enclosing function with an early \<open>return\<close>.
\<close>

named_theorems fb_defs \<open>definitions of the model that proofs unfold\<close>

type_synonym u8 = "8 word"
type_synonym u32 = "32 word"
type_synonym u64 = "64 word"

section \<open>Index lists of counting loops\<close>

definition words_below :: "'a::len word \<Rightarrow> 'a word list" where
  "words_below n = map of_nat [0..<unat n]"

lemma unat_of_nat_below: "k < unat (n :: 'a::len word) \<Longrightarrow> unat (of_nat k :: 'a word) = k"
  by (rule of_nat_inverse [OF refl]) (rule order_less_trans [OF _ unsigned_less])

lemma set_words_below [simp]: "set (words_below n) = {w. w < n}"
proof -
  have "w \<in> of_nat ` {0..<unat n}" if "w < n" for w :: "'a word"
    using that by (intro image_eqI [where x = "unat w"]) (auto simp: word_less_nat_alt)
  moreover have "of_nat k < n" if "k < unat n" for k
    using that by (simp add: word_less_nat_alt unat_of_nat_below)
  ultimately show ?thesis by (auto simp: words_below_def)
qed

lemma distinct_words_below [simp]: "distinct (words_below n)"
proof -
  have "inj_on (of_nat :: nat \<Rightarrow> 'a word) {0..<unat n}"
    by (rule inj_onI) (metis atLeastLessThan_iff unat_of_nat_below)
  then show ?thesis by (simp add: words_below_def distinct_map)
qed

lemma length_words_below [simp]: "length (words_below n) = unat n"
  by (simp add: words_below_def)

lemma nth_words_below: "k < unat n \<Longrightarrow> words_below n ! k = of_nat k"
  by (simp add: words_below_def)

section \<open>Loops in the option monad\<close>

primrec foldM :: "('x \<Rightarrow> 's \<Rightarrow> 's option) \<Rightarrow> 'x list \<Rightarrow> 's \<Rightarrow> 's option" where
  "foldM f [] s = Some s"
| "foldM f (x # xs) s = do { s' \<leftarrow> f x s; foldM f xs s' }"

lemma foldM_append: "foldM f (xs @ ys) s = do { s' \<leftarrow> foldM f xs s; foldM f ys s' }"
  by (induction xs arbitrary: s) (auto split: Option.bind_split)

text \<open>
  The loop rule: an invariant indexed by the values already processed, with the body
  shown to return at each of them.
\<close>

lemma foldM_rule:
  assumes "I [] s"
    and "\<And>done x rest s. xs = done @ x # rest \<Longrightarrow> I done s \<Longrightarrow> \<exists>s'. f x s = Some s' \<and> I (done @ [x]) s'"
  shows "\<exists>s'. foldM f xs s = Some s' \<and> I xs s'"
proof -
  have "\<exists>s'. foldM f ys s = Some s' \<and> I (zs @ ys) s'" if "xs = zs @ ys" "I zs s" for zs ys s
    using that
  proof (induction ys arbitrary: zs s)
    case Nil
    then show ?case by simp
  next
    case (Cons y ys)
    from assms(2) [OF Cons.prems] obtain s' where s': "f y s = Some s'" "I (zs @ [y]) s'"
      by blast
    from Cons.IH [of "zs @ [y]" s'] Cons.prems(1) s'(2)
    obtain s'' where "foldM f ys s' = Some s'' \<and> I (zs @ y # ys) s''" by auto
    with s'(1) show ?case by auto
  qed
  from this [of "[]" xs s] assms(1) show ?thesis by simp
qed

lemma foldM_inv:
  assumes "P s" and "\<And>x s. x \<in> set xs \<Longrightarrow> P s \<Longrightarrow> \<exists>s'. f x s = Some s' \<and> P s'"
  shows "\<exists>s'. foldM f xs s = Some s' \<and> P s'"
  by (rule foldM_rule [where I = "\<lambda>_. P"]) (use assms in auto)

primrec for_ret ::
  "('x \<Rightarrow> 's \<Rightarrow> (int option \<times> 's) option) \<Rightarrow> 'x list \<Rightarrow> 's \<Rightarrow> (int option \<times> 's) option" where
  "for_ret f [] s = Some (None, s)"
| "for_ret f (x # xs) s = do {
     (r, s') \<leftarrow> f x s;
     case r of Some e \<Rightarrow> Some (Some e, s') | None \<Rightarrow> for_ret f xs s' }"

lemma for_ret_rule:
  assumes "I [] s"
    and "\<And>done x rest s. xs = done @ x # rest \<Longrightarrow> I done s \<Longrightarrow>
      \<exists>r s'. f x s = Some (r, s') \<and> (case r of None \<Rightarrow> I (done @ [x]) s' | Some e \<Rightarrow> Q e s')"
  shows "\<exists>r s'. for_ret f xs s = Some (r, s') \<and> (case r of None \<Rightarrow> I xs s' | Some e \<Rightarrow> Q e s')"
proof -
  have "\<exists>r s'. for_ret f ys s = Some (r, s') \<and>
      (case r of None \<Rightarrow> I (zs @ ys) s' | Some e \<Rightarrow> Q e s')"
    if "xs = zs @ ys" "I zs s" for zs ys s
    using that
  proof (induction ys arbitrary: zs s)
    case Nil
    then show ?case by simp
  next
    case (Cons y ys)
    from assms(2) [OF Cons.prems] obtain r s' where
      s': "f y s = Some (r, s')" "case r of None \<Rightarrow> I (zs @ [y]) s' | Some e \<Rightarrow> Q e s'"
      by blast
    show ?case
    proof (cases r)
      case None
      with s'(2) have "I (zs @ [y]) s'" by simp
      moreover have "xs = (zs @ [y]) @ ys" using Cons.prems(1) by simp
      ultimately have "\<exists>r s2. for_ret f ys s' = Some (r, s2) \<and>
          (case r of None \<Rightarrow> I (zs @ y # ys) s2 | Some e \<Rightarrow> Q e s2)"
        using Cons.IH [of "zs @ [y]" s', unfolded append_assoc append_Cons append_Nil]
        unfolding append_assoc append_Cons append_Nil by blast
      with s'(1) None show ?thesis by simp
    next
      case (Some e)
      with s' show ?thesis by auto
    qed
  qed
  from this [of "[]" xs s, unfolded append_Nil] assms(1) show ?thesis by blast
qed

lemma for_ret_inv:
  assumes "P s"
    and "\<And>x s. x \<in> set xs \<Longrightarrow> P s \<Longrightarrow> \<exists>r s'. f x s = Some (r, s') \<and> P s'"
  shows "\<exists>r s'. for_ret f xs s = Some (r, s') \<and> P s'"
proof -
  have "\<exists>r s'. for_ret f xs s = Some (r, s') \<and> (case r of None \<Rightarrow> P s' | Some e \<Rightarrow> P s')"
    by (rule for_ret_rule [where I = "\<lambda>_. P" and Q = "\<lambda>_. P"])
      (use assms in \<open>auto split: option.splits, metis option.exhaust\<close>)
  then show ?thesis by (auto split: option.splits)
qed

section \<open>Checked arrays\<close>

definition ld_nth :: "'a list \<Rightarrow> nat \<Rightarrow> 'a option" where
  "ld_nth xs i = (if i < length xs then Some (xs ! i) else None)"

definition st_nth :: "'a list \<Rightarrow> nat \<Rightarrow> 'a \<Rightarrow> 'a list option" where
  "st_nth xs i x = (if i < length xs then Some (xs[i := x]) else None)"

section \<open>Words\<close>

lemma unat_of_nat_u32: "n < 2 ^ 32 \<Longrightarrow> unat (of_nat n :: u32) = n"
  by (rule of_nat_inverse [OF refl]) simp

lemma of_nat_u32_eq_iff:
  "m < 2 ^ 32 \<Longrightarrow> n < 2 ^ 32 \<Longrightarrow> (of_nat m = (of_nat n :: u32)) = (m = n)"
  using unat_of_nat_u32 by metis

lemma u8_less_4: "(i :: u8) < 4 \<longleftrightarrow> i = 0 \<or> i = 1 \<or> i = 2 \<or> i = 3"
proof
  assume "i < 4"
  then have "unat i < 4" by (simp add: word_less_nat_alt)
  then have "unat i = 0 \<or> unat i = 1 \<or> unat i = 2 \<or> unat i = 3" by arith
  then show "i = 0 \<or> i = 1 \<or> i = 2 \<or> i = 3"
    by (auto simp: word_unat_eq_iff)
qed auto

end
