(* ===== verification/FB_Config.thy ===== *)
theory FB_Config
  imports FB_Prelude
begin

text \<open>
  The hardware configuration: the enumeration constants of \<open>option.h\<close> and
  \<open>rust/libflashbench.h\<close> (mirrored in \<open>rust/src/constants.rs\<close>). Each constant is
  polymorphic over the number types it is used at, because the sources use one constant as
  an \<open>int\<close>, a \<open>u32\<close>, a \<open>u8\<close> and a \<open>usize\<close>.
\<close>

definition NUM_BUSES :: "'a::comm_semiring_1" where
  "NUM_BUSES = 1"

definition NUM_CHIPS_PER_BUS :: "'a::comm_semiring_1" where
  "NUM_CHIPS_PER_BUS = 2"

definition NUM_BLOCKS_PER_CHIP :: "'a::comm_semiring_1" where
  "NUM_BLOCKS_PER_CHIP = 171"

definition NUM_PAGES_PER_BLOCK :: "'a::comm_semiring_1" where
  "NUM_PAGES_PER_BLOCK = 16 * 4 * 3"

definition NR_LP_IN_PP :: "'a::comm_semiring_1" where
  "NR_LP_IN_PP = 4"

definition LP_PAGE_MASK :: "'a::comm_semiring_1" where
  "LP_PAGE_MASK = 3"

definition LP_PAGE_SHIFT :: "'a::comm_semiring_1" where
  "LP_PAGE_SHIFT = 2"

definition NUM_CHIPS :: "'a::comm_semiring_1" where
  "NUM_CHIPS = NUM_BUSES * NUM_CHIPS_PER_BUS"

definition NUM_PAGES_IN_WRITE_BUFFER :: "'a::comm_semiring_1" where
  "NUM_PAGES_IN_WRITE_BUFFER = NR_LP_IN_PP * NUM_CHIPS"

definition LOGICAL_PAGE_SIZE :: "'a::comm_semiring_1" where
  "LOGICAL_PAGE_SIZE = 4096"

definition PHYSICAL_PAGE_SIZE :: "'a::comm_semiring_1" where
  "PHYSICAL_PAGE_SIZE = LOGICAL_PAGE_SIZE * NR_LP_IN_PP"

definition CFACTOR_PERCENT :: "'a::comm_semiring_1" where
  "CFACTOR_PERCENT = 90"

definition SECTOR_SIZE :: "'a::comm_semiring_1" where
  "SECTOR_SIZE = 512"

definition BGC_TH_INTV :: "'a::comm_semiring_1" where
  "BGC_TH_INTV = 5000"

definition BGC_TH_NR_BLKS :: u32 where
  "BGC_TH_NR_BLKS = 14"

definition NUM_PAGES :: nat where
  "NUM_PAGES = NUM_CHIPS * NUM_BLOCKS_PER_CHIP * NUM_PAGES_PER_BLOCK"

definition NUM_LOG_PAGES :: nat where
  "NUM_LOG_PAGES = NUM_PAGES * NR_LP_IN_PP * CFACTOR_PERCENT div 100"

text \<open>\<open>PAGE_UNMAPPED\<close> is the enumeration constant \<open>-1\<close>; every use casts it to \<open>u32\<close>.\<close>

definition PAGE_UNMAPPED :: u32 where
  "PAGE_UNMAPPED = -1"

lemmas geometry_simps =
  NUM_BUSES_def NUM_CHIPS_PER_BUS_def NUM_BLOCKS_PER_CHIP_def NUM_PAGES_PER_BLOCK_def
  NR_LP_IN_PP_def LP_PAGE_MASK_def LP_PAGE_SHIFT_def NUM_CHIPS_def

lemma NUM_PAGES_value: "NUM_PAGES = 65664"
  by (simp add: NUM_PAGES_def geometry_simps)

lemma NUM_LOG_PAGES_value: "NUM_LOG_PAGES = 236390"
  by (simp add: NUM_LOG_PAGES_def NUM_PAGES_value geometry_simps CFACTOR_PERCENT_def)

section \<open>Page contents\<close>

text \<open>
  The contents of one logical page (\<open>LOGICAL_PAGE_SIZE\<close> bytes). Every buffer of the FTL is copied
  in multiples of a logical page at offsets that are multiples of it, so a buffer is the list
  of the logical pages it holds.
\<close>

type_synonym lpdata = "u8 list"

section \<open>Operation codes\<close>

datatype fb_dev_op_t = OP_READ | OP_PROG | OP_PLOCK | OP_BLOCK | OP_BERS

fun operation_time :: "fb_dev_op_t \<Rightarrow> u32" where
  "operation_time OP_READ = 80"
| "operation_time OP_PROG = 800"
| "operation_time OP_PLOCK = 5000"
| "operation_time OP_BLOCK = 100"
| "operation_time OP_BERS = 100"

lemma operation_time_pos: "0 < operation_time op"
  by (cases op) auto

lemma operation_time_bound: "operation_time op \<le> 5000"
  by (cases op) auto

end
