(* ===== verification/FB_Address.thy ===== *)
theory FB_Address
  imports FB_Config
begin

unbundle bit_operations_syntax

text \<open>
  The physical address format of \<open>rust/src/vdevice.rs\<close>: a \<open>u32\<close> with four bits of bus,
  four of chip, twelve of block and twelve of logical page within the block (the wordline
  shifted by \<open>LP_PAGE_SHIFT\<close>, or-ed with the slot). Packing and unpacking are inverse on
  coordinates that fit their fields, and the configured geometry fits.
\<close>

text \<open>Pointers to blocks and wordlines are named by the coordinates of what they point to.\<close>

datatype blkptr = Blk (blk_bus: u32) (blk_chip: u32) (blk_no: u32)

datatype pgptr = Pg (pg_blk: blkptr) (pg_no: u32)

definition is_valid_address_range :: "u32 \<Rightarrow> bool" where
  "is_valid_address_range logical_page_address \<longleftrightarrow> logical_page_address < of_nat NUM_LOG_PAGES"

definition convert_to_physical_address :: "u32 \<Rightarrow> u32 \<Rightarrow> u32 \<Rightarrow> u32 \<Rightarrow> u32" where
  "convert_to_physical_address bus chip block page =
     ((push_bit 28 bus OR push_bit 24 chip) OR push_bit 12 block) OR page"

definition convert_to_ssd_layout :: "u32 \<Rightarrow> u32 \<times> u32 \<times> u32 \<times> u32" where
  "convert_to_ssd_layout a =
     (0xf AND drop_bit 28 a, 0xf AND drop_bit 24 a, 0xfff AND drop_bit 12 a, 0xfff AND a)"

definition valid_chip :: "u32 \<Rightarrow> u32 \<Rightarrow> bool" where
  "valid_chip bus chip \<longleftrightarrow> bus < NUM_BUSES \<and> chip < NUM_CHIPS_PER_BUS"

fun valid_blk :: "blkptr \<Rightarrow> bool" where
  "valid_blk (Blk bus chip block) \<longleftrightarrow> valid_chip bus chip \<and> block < NUM_BLOCKS_PER_CHIP"

text \<open>The physical address of slot \<open>ofs\<close> of wordline \<open>pg\<close>, as the mapping code forms it.\<close>

definition slot_ppa :: "blkptr \<Rightarrow> u32 \<Rightarrow> u8 \<Rightarrow> u32" where
  "slot_ppa p pg ofs = convert_to_physical_address (blk_bus p) (blk_chip p) (blk_no p)
     (push_bit LP_PAGE_SHIFT pg OR ucast ofs)"

lemma less_pow_bit:
  fixes w :: u32
  assumes "w < 2 ^ k" "k \<le> n"
  shows "\<not> bit w n"
proof -
  have "w AND mask k = w" using assms(1) by (rule less_mask_eq)
  then show ?thesis using assms(2) by (metis bit_and_iff bit_mask_iff not_less)
qed

lemma masks_of_layout: "(0xf :: u32) = mask 4" "(0xfff :: u32) = mask 12"
  by (simp_all add: mask_eq_exp_minus_1)

lemma layout_of_physical:
  assumes "bus < 2 ^ 4" "chip < 2 ^ 4" "block < 2 ^ 12" "page < 2 ^ 12"
  shows "convert_to_ssd_layout (convert_to_physical_address bus chip block page)
    = (bus, chip, block, page)"
proof -
  note b = less_pow_bit [OF assms(1)] less_pow_bit [OF assms(2)] less_pow_bit [OF assms(3)]
    less_pow_bit [OF assms(4)]
  let ?a = "convert_to_physical_address bus chip block page"
  have "mask 4 AND drop_bit 28 ?a = bus"
    by (rule bit_word_eqI, case_tac "n < 4")
      (simp_all add: convert_to_physical_address_def bit_simps b)
  moreover have "mask 4 AND drop_bit 24 ?a = chip"
    by (rule bit_word_eqI, case_tac "n < 4")
      (simp_all add: convert_to_physical_address_def bit_simps b)
  moreover have "mask 12 AND drop_bit 12 ?a = block"
    by (rule bit_word_eqI, case_tac "n < 12")
      (simp_all add: convert_to_physical_address_def bit_simps b)
  moreover have "mask 12 AND ?a = page"
    by (rule bit_word_eqI, case_tac "n < 12")
      (simp_all add: convert_to_physical_address_def bit_simps b)
  ultimately show ?thesis by (simp add: convert_to_ssd_layout_def masks_of_layout)
qed

lemma physical_of_layout:
  "(case convert_to_ssd_layout a of (bus, chip, block, page) \<Rightarrow>
     convert_to_physical_address bus chip block page) = a"
proof -
  have "bit (case convert_to_ssd_layout a of (bus, chip, block, page) \<Rightarrow>
      convert_to_physical_address bus chip block page) n = bit a n" if "n < 32" for n
  proof -
    consider "n < 12" | "12 \<le> n" "n < 24" | "24 \<le> n" "n < 28" | "28 \<le> n" by linarith
    then show ?thesis
      using that unfolding convert_to_ssd_layout_def convert_to_physical_address_def masks_of_layout
      by cases (auto simp: bit_simps)
  qed
  then show ?thesis by (intro bit_word_eqI) simp
qed

section \<open>Slots and their physical addresses\<close>

text \<open>
  The decoding every reader of a physical address performs: \<open>convert_to_ssd_layout\<close>, then the
  page field split into wordline (\<open>pg >> LP_PAGE_SHIFT\<close>) and slot (\<open>pg & LP_PAGE_MASK\<close>).
\<close>

definition ppa_slot :: "u32 \<Rightarrow> blkptr \<times> u32 \<times> u8" where
  "ppa_slot a = (case convert_to_ssd_layout a of (bus, chip, block, page) \<Rightarrow>
     (Blk bus chip block, drop_bit LP_PAGE_SHIFT page, ucast (page AND LP_PAGE_MASK)))"

lemma lp_mask: "(LP_PAGE_MASK :: u32) = mask 2"
  by (simp add: LP_PAGE_MASK_def mask_eq_exp_minus_1)

lemma less_4_bit: "(i :: u8) < 4 \<Longrightarrow> 2 \<le> n \<Longrightarrow> \<not> bit i n"
  using less_mask_eq [of i 2] by (metis bit_and_iff bit_mask_iff not_less numeral_eq_Suc
      power2_eq_square mult_2 numeral_Bit0 one_add_one)

lemma slot_page_split:
  fixes pg :: u32 and i :: u8
  assumes "pg < 2 ^ 10" "i < 4"
  shows "drop_bit 2 (push_bit 2 pg OR ucast i) = pg"
    and "ucast ((push_bit 2 pg OR ucast i) AND mask 2) = i"
    and "push_bit 2 pg OR (ucast i :: u32) < 2 ^ 12"
proof -
  note b = less_pow_bit [OF assms(1)] and c = less_4_bit [OF assms(2)]
  show "drop_bit 2 (push_bit 2 pg OR ucast i) = pg"
    by (rule bit_word_eqI, case_tac "n < 10") (simp_all add: bit_simps b c)
  show "ucast ((push_bit 2 pg OR ucast i) AND mask 2) = i"
    by (rule bit_word_eqI, case_tac "n < 2") (simp_all add: bit_simps c)
  have "(push_bit 2 pg OR ucast i) AND mask 12 = push_bit 2 pg OR (ucast i :: u32)"
    by (rule bit_word_eqI, case_tac "n < 12") (simp_all add: bit_simps b c)
  then show "push_bit 2 pg OR (ucast i :: u32) < 2 ^ 12"
    using and_mask_less_size [of 12 "push_bit 2 pg OR (ucast i :: u32)"] by (simp add: word_size)
qed

lemma valid_blk_fields:
  assumes "valid_blk p"
  shows "blk_bus p < 2 ^ 4" "blk_chip p < 2 ^ 4" "blk_no p < 2 ^ 12" "blk_bus p = 0"
  using assms
  by (cases p; auto simp: valid_chip_def geometry_simps word_less_nat_alt unat_0_iff)+

lemma ppa_slot_slot_ppa:
  assumes "valid_blk p" "pg < NUM_PAGES_PER_BLOCK" "i < NR_LP_IN_PP"
  shows "ppa_slot (slot_ppa p pg i) = (p, pg, i)"
proof -
  have pg: "pg < 2 ^ 10" and i: "i < 4"
    using assms(2,3) by (auto simp: geometry_simps word_less_nat_alt)
  show ?thesis
    using layout_of_physical [OF valid_blk_fields(1-3) [OF assms(1)] slot_page_split(3) [OF pg i]]
      slot_page_split(1,2) [OF pg i]
    by (simp add: ppa_slot_def slot_ppa_def lp_mask LP_PAGE_SHIFT_def)
qed

lemma slot_ppa_mapped:
  assumes "valid_blk p" "pg < NUM_PAGES_PER_BLOCK" "i < NR_LP_IN_PP"
  shows "slot_ppa p pg i \<noteq> PAGE_UNMAPPED"
proof
  assume "slot_ppa p pg i = PAGE_UNMAPPED"
  then have "fst (ppa_slot PAGE_UNMAPPED) = p"
    using ppa_slot_slot_ppa [OF assms] by simp
  moreover have "blk_bus (fst (ppa_slot PAGE_UNMAPPED)) = 15"
    by (simp add: ppa_slot_def PAGE_UNMAPPED_def convert_to_ssd_layout_def
        mask_eq_exp_minus_1)
  ultimately have "blk_bus p = 15" by simp
  then show False using valid_blk_fields(4) [OF assms(1)] by simp
qed

lemma slot_ppa_inj:
  assumes "valid_blk p" "pg < NUM_PAGES_PER_BLOCK" "i < NR_LP_IN_PP"
    and "valid_blk p'" "pg' < NUM_PAGES_PER_BLOCK" "i' < NR_LP_IN_PP"
    and "slot_ppa p pg i = slot_ppa p' pg' i'"
  shows "p = p' \<and> pg = pg' \<and> i = i'"
  using ppa_slot_slot_ppa [OF assms(1-3)] ppa_slot_slot_ppa [OF assms(4-6)]
  unfolding assms(7) by simp

section \<open>Properties\<close>

text \<open>
  C40. The physical address layout: packing bus, chip, block and page and unpacking the result gives
  the coordinates back when each fits its field (4, 4, 12 and 12 bits), and packing what an address unpacks
  to gives the address back.
\<close>

theorem physical_address_roundtrip:
  assumes "bus < 2 ^ 4" "chip < 2 ^ 4" "block < 2 ^ 12" "page < 2 ^ 12"
  shows "convert_to_ssd_layout (convert_to_physical_address bus chip block page) = (bus, chip, block, page) \<and>
    (\<forall>a. (case convert_to_ssd_layout a of (bus, chip, block, page) \<Rightarrow>
      convert_to_physical_address bus chip block page) = a)"
  using layout_of_physical [OF assms] physical_of_layout by blast

theorem physical_address_roundtrip_witness:
  "convert_to_ssd_layout (convert_to_physical_address 0 1 170 767) = (0, 1, 170, 767)"
  using physical_address_roundtrip [of 0 1 170 767] by (simp add: word_less_nat_alt)

text \<open>
  Slots of the configured geometry have pairwise distinct physical addresses, none of them
  \<open>PAGE_UNMAPPED\<close>, and decoding one the way every reader of the table does returns its block,
  wordline and slot.
\<close>

theorem slot_addresses_distinct:
  assumes "valid_blk p" "pg < NUM_PAGES_PER_BLOCK" "i < NR_LP_IN_PP"
    and "valid_blk p'" "pg' < NUM_PAGES_PER_BLOCK" "i' < NR_LP_IN_PP"
  shows "ppa_slot (slot_ppa p pg i) = (p, pg, i) \<and> slot_ppa p pg i \<noteq> PAGE_UNMAPPED \<and>
    (slot_ppa p pg i = slot_ppa p' pg' i' \<longleftrightarrow> p = p' \<and> pg = pg' \<and> i = i')"
  using ppa_slot_slot_ppa [OF assms(1-3)] slot_ppa_mapped [OF assms(1-3)] slot_ppa_inj [OF assms]
  by blast

theorem slot_addresses_distinct_witness:
  "slot_ppa (Blk 0 1 170) 191 3 \<noteq> slot_ppa (Blk 0 1 170) 191 2"
  using slot_addresses_distinct [of "Blk 0 1 170" 191 3 "Blk 0 1 170" 191 2]
  by (simp add: valid_chip_def geometry_simps)

end
