(* ===== verification/FB_Utlist.thy ===== *)
theory FB_Utlist
  imports FB_Prelude
begin

text \<open>
  The doubly linked lists of \<open>uthash/utlist.h\<close> as the driver uses them (\<open>FB_Utlist_Ops\<close>,
  \<open>FB_Utlist_Double\<close> and \<open>FB_Utlist_Sort\<close> have the rest of the file). \<open>DL_APPEND\<close> and \<open>DL_DELETE\<close> are
  modelled on
  the \<open>prev\<close>/\<open>next\<close> fields of the nodes, pointer assignment by pointer assignment; the head's
  \<open>prev\<close> points to the tail. The interface \<open>intrusive_list\<close> states what their callers rely on
  in terms of the list of nodes a state represents, and is interpreted by the pointer
  structure and by the plain list \<open>FB_Ssd_Info\<close> and \<open>FB_Write_Buffer\<close> keep in their states.
\<close>

section \<open>The pointer structure\<close>

record 'n dlist =
  dl_head :: "'n option"
  dl_prev :: "'n \<Rightarrow> 'n option"
  dl_next :: "'n \<Rightarrow> 'n option"

definition DL_APPEND :: "'n dlist \<Rightarrow> 'n \<Rightarrow> 'n dlist option" where
  "DL_APPEND d add =
     (case dl_head d of
        Some h \<Rightarrow> do {
          let d = d\<lparr>dl_prev := (dl_prev d)(add := dl_prev d h)\<rparr>;
          tail \<leftarrow> dl_prev d h;
          let d = d\<lparr>dl_next := (dl_next d)(tail := Some add)\<rparr>;
          let d = d\<lparr>dl_prev := (dl_prev d)(h := Some add)\<rparr>;
          Some (d\<lparr>dl_next := (dl_next d)(add := None)\<rparr>) }
      | None \<Rightarrow>
          Some (d\<lparr>dl_head := Some add, dl_prev := (dl_prev d)(add := Some add),
            dl_next := (dl_next d)(add := None)\<rparr>))"

definition DL_DELETE :: "'n dlist \<Rightarrow> 'n \<Rightarrow> 'n dlist option" where
  "DL_DELETE d del =
     (if dl_prev d del = Some del then Some (d\<lparr>dl_head := None\<rparr>)
      else if dl_head d = Some del then do {
        nx \<leftarrow> dl_next d del;
        let d = d\<lparr>dl_prev := (dl_prev d)(nx := dl_prev d del)\<rparr>;
        Some (d\<lparr>dl_head := dl_next d del\<rparr>) }
      else do {
        pv \<leftarrow> dl_prev d del;
        let d = d\<lparr>dl_next := (dl_next d)(pv := dl_next d del)\<rparr>;
        case dl_next d del of
          Some nx \<Rightarrow> Some (d\<lparr>dl_prev := (dl_prev d)(nx := dl_prev d del)\<rparr>)
        | None \<Rightarrow> do {
            h \<leftarrow> dl_head d;
            Some (d\<lparr>dl_prev := (dl_prev d)(h := dl_prev d del)\<rparr>) } })"

text \<open>Consecutive nodes are linked both ways.\<close>

fun chain :: "'n dlist \<Rightarrow> 'n list \<Rightarrow> bool" where
  "chain d [] \<longleftrightarrow> True"
| "chain d [x] \<longleftrightarrow> True"
| "chain d (x # y # zs) \<longleftrightarrow> dl_next d x = Some y \<and> dl_prev d y = Some x \<and> chain d (y # zs)"

definition dl_rep :: "'n dlist \<Rightarrow> 'n list \<Rightarrow> bool" where
  "dl_rep d xs \<longleftrightarrow> distinct xs \<and> chain d xs \<and>
     (if xs = [] then dl_head d = None
      else dl_head d = Some (hd xs) \<and> dl_prev d (hd xs) = Some (last xs) \<and>
        dl_next d (last xs) = None)"

lemma chain_Cons:
  "chain d (x # ys) \<longleftrightarrow> chain d ys \<and>
     (ys \<noteq> [] \<longrightarrow> dl_next d x = Some (hd ys) \<and> dl_prev d (hd ys) = Some x)"
  by (cases ys) auto

lemma chain_append:
  "chain d (xs @ ys) \<longleftrightarrow> chain d xs \<and> chain d ys \<and>
     (xs \<noteq> [] \<longrightarrow> ys \<noteq> [] \<longrightarrow>
        dl_next d (last xs) = Some (hd ys) \<and> dl_prev d (hd ys) = Some (last xs))"
  by (induction xs) (auto simp: chain_Cons neq_Nil_conv)

text \<open>A chain depends on the \<open>next\<close> of all but its last and the \<open>prev\<close> of all but its first.\<close>

lemma chain_cong:
  assumes "chain d xs"
    and "\<And>x. x \<in> set (butlast xs) \<Longrightarrow> dl_next d' x = dl_next d x"
    and "\<And>x. x \<in> set (tl xs) \<Longrightarrow> dl_prev d' x = dl_prev d x"
  shows "chain d' xs"
  using assms by (induction d xs rule: chain.induct) (auto split: if_splits)

lemma DL_APPEND_rep:
  assumes "dl_rep d xs" "x \<notin> set xs"
  shows "\<exists>d'. DL_APPEND d x = Some d' \<and> dl_rep d' (xs @ [x]) \<and>
    (\<forall>y. y \<notin> set xs \<and> y \<noteq> x \<longrightarrow> dl_prev d' y = dl_prev d y \<and> dl_next d' y = dl_next d y)"
proof (cases xs)
  case Nil
  with assms show ?thesis by (auto simp: dl_rep_def DL_APPEND_def)
next
  case (Cons h ys)
  let ?t = "last xs"
  let ?d' = "d\<lparr>dl_prev := (dl_prev d)(x := Some ?t, h := Some x),
    dl_next := (dl_next d)(?t := Some x, x := None)\<rparr>"
  have t: "?t \<in> set xs" "?t \<noteq> x" "h \<noteq> x" "h \<in> set xs"
    using assms(2) Cons by (auto split: if_splits)
  have eq: "DL_APPEND d x = Some ?d'"
    using assms Cons t by (simp add: DL_APPEND_def dl_rep_def fun_upd_twist)
  have nb: "?t \<notin> set (butlast xs)"
    using assms(1) Cons by (metis append_butlast_last_id distinct_butlast dl_rep_def
        list.distinct(1) not_distinct_conv_prefix)
  have "chain ?d' xs"
    by (rule chain_cong [of d])
      (use assms Cons t nb in \<open>auto simp: dl_rep_def dest: in_set_butlastD list.set_sel(2)\<close>)
  then have "chain ?d' (xs @ [x])"
    by (subst chain_append) (use Cons t in simp)
  then have "dl_rep ?d' (xs @ [x])"
    using assms Cons t by (simp add: dl_rep_def)
  with eq t Cons show ?thesis by auto
qed

text \<open>
  Deleting a node. The three branches of the macro are the three positions of the node: the
  only one, the first one, and one with a predecessor.
\<close>

lemma DL_DELETE_only:
  "dl_rep d [x] \<Longrightarrow> DL_DELETE d x = Some (d\<lparr>dl_head := None\<rparr>)"
  by (simp add: dl_rep_def DL_DELETE_def)

lemma DL_DELETE_first:
  assumes "dl_rep d (x # y # zs)"
  shows "DL_DELETE d x =
    Some (d\<lparr>dl_head := Some y, dl_prev := (dl_prev d)(y := Some (last (y # zs)))\<rparr>)"
  using assms by (auto simp: dl_rep_def DL_DELETE_def)

lemma DL_DELETE_inner:
  assumes "dl_rep d (ys @ [w, x] @ zs)"
  shows "DL_DELETE d x =
    Some (d\<lparr>dl_next := (dl_next d)(w := if zs = [] then None else Some (hd zs)),
      dl_prev := (dl_prev d)((if zs = [] then hd (ys @ [w]) else hd zs) := Some w)\<rparr>)"
proof -
  from assms have d: "distinct (ys @ [w, x] @ zs)" and c: "chain d (ys @ [w, x] @ zs)"
    and h: "dl_head d = Some (hd (ys @ [w]))" and n: "dl_next d (last (x # zs)) = None"
    by (auto simp: dl_rep_def hd_append)
  from c have l: "dl_prev d x = Some w" "dl_next d w = Some x"
    and nz: "zs \<noteq> [] \<Longrightarrow> dl_next d x = Some (hd zs)"
    by (auto simp: chain_append chain_Cons)
  have "hd (ys @ [w]) \<noteq> x" "w \<noteq> x" using d by (cases ys; auto)+
  then show ?thesis
    using h n l nz by (cases "zs = []") (simp_all add: DL_DELETE_def)
qed

lemma DL_DELETE_rep:
  assumes "dl_rep d xs" "x \<in> set xs"
  shows "\<exists>d'. DL_DELETE d x = Some d' \<and> dl_rep d' (remove1 x xs)"
proof -
  obtain ys zs where xs: "xs = ys @ x # zs" and nx: "x \<notin> set ys"
    using assms(2) by (metis split_list_first)
  have dist: "distinct xs" using assms(1) by (simp add: dl_rep_def)
  show ?thesis
  proof (cases ys rule: rev_cases)
    case Nil
    show ?thesis
    proof (cases zs)
      case Nil
      with \<open>ys = []\<close> xs assms show ?thesis
        using DL_DELETE_only [of d x] by (simp add: dl_rep_def)
    next
      case (Cons z zs')
      let ?d' = "d\<lparr>dl_head := Some z, dl_prev := (dl_prev d)(z := Some (last (z # zs')))\<rparr>"
      have "chain ?d' (z # zs')"
        by (rule chain_cong [of d]) (use assms dist \<open>ys = []\<close> xs Cons in \<open>auto simp: dl_rep_def\<close>)
      with \<open>ys = []\<close> xs Cons assms show ?thesis
        using DL_DELETE_first [of d x z zs'] by (auto simp: dl_rep_def)
    qed
  next
    case (snoc us w)
    let ?d' = "d\<lparr>dl_next := (dl_next d)(w := if zs = [] then None else Some (hd zs)),
      dl_prev := (dl_prev d)((if zs = [] then hd (us @ [w]) else hd zs) := Some w)\<rparr>"
    have del: "DL_DELETE d x = Some ?d'"
      using DL_DELETE_inner [of d us w x zs] assms(1) xs snoc by simp
    have old: "chain d (us @ [w])" "chain d zs"
      using assms(1) xs snoc by (auto simp: dl_rep_def chain_append chain_Cons)
    have fresh: "hd (us @ [w]) \<notin> set (tl (us @ [w]))" "zs \<noteq> [] \<Longrightarrow> hd zs \<notin> set (us @ [w])"
      "hd (us @ [w]) \<notin> set zs" "zs \<noteq> [] \<Longrightarrow> hd zs \<notin> set (tl zs)" "w \<notin> set us" "w \<notin> set zs"
      using dist xs snoc by (cases us; cases zs; auto)+
    have "chain ?d' (us @ [w])"
      by (rule chain_cong [OF old(1)])
        (use fresh in \<open>auto dest: list.set_sel(2) [rotated]\<close>)
    moreover have "chain ?d' zs"
      by (rule chain_cong [OF old(2)])
        (use fresh in \<open>auto dest: in_set_butlastD list.set_sel(2) [rotated]\<close>)
    ultimately have "chain ?d' ((us @ [w]) @ zs)"
      by (subst chain_append) simp
    moreover have "remove1 x xs = (us @ [w]) @ zs"
      using xs snoc nx by (simp add: remove1_append)
    ultimately show ?thesis
      using del assms(1) dist xs snoc
      by (cases zs; cases us) (auto simp: dl_rep_def)
  qed
qed

section \<open>The interface of an intrusive list\<close>

locale intrusive_list =
  fixes rep :: "'s \<Rightarrow> 'n list \<Rightarrow> bool"
    and append :: "'s \<Rightarrow> 'n \<Rightarrow> 's option"
    and delete :: "'s \<Rightarrow> 'n \<Rightarrow> 's option"
    and head :: "'s \<Rightarrow> 'n option"
    and succ :: "'s \<Rightarrow> 'n \<Rightarrow> 'n option"
  assumes rep_distinct: "rep s xs \<Longrightarrow> distinct xs"
    and append_rep: "rep s xs \<Longrightarrow> x \<notin> set xs \<Longrightarrow> \<exists>s'. append s x = Some s' \<and> rep s' (xs @ [x])"
    and delete_rep: "rep s xs \<Longrightarrow> x \<in> set xs \<Longrightarrow> \<exists>s'. delete s x = Some s' \<and> rep s' (remove1 x xs)"
    and head_rep: "rep s xs \<Longrightarrow> head s = (case xs of [] \<Rightarrow> None | x # _ \<Rightarrow> Some x)"
    and succ_rep: "rep s (ys @ x # zs) \<Longrightarrow> succ s x = (case zs of [] \<Rightarrow> None | z # _ \<Rightarrow> Some z)"
begin

lemma move_to_tail:
  assumes "rep s xs" "x \<in> set xs"
  shows "\<exists>s1 s2. delete s x = Some s1 \<and> append s1 x = Some s2 \<and> rep s2 (remove1 x xs @ [x])"
proof -
  from delete_rep [OF assms] obtain s1 where s1: "delete s x = Some s1" "rep s1 (remove1 x xs)"
    by blast
  moreover have "x \<notin> set (remove1 x xs)"
    using rep_distinct [OF assms(1)] by (simp add: distinct_remove1_removeAll)
  ultimately show ?thesis using append_rep by blast
qed

end

interpretation utl: intrusive_list dl_rep DL_APPEND DL_DELETE dl_head dl_next
proof unfold_locales
  show "distinct xs" if "dl_rep d xs" for d :: "'n dlist" and xs
    using that by (simp add: dl_rep_def)
  show "\<exists>d'. DL_APPEND d x = Some d' \<and> dl_rep d' (xs @ [x])"
    if "dl_rep d xs" "x \<notin> set xs" for d :: "'n dlist" and xs x
    using DL_APPEND_rep [OF that] by blast
  show "\<exists>d'. DL_DELETE d x = Some d' \<and> dl_rep d' (remove1 x xs)"
    if "dl_rep d xs" "x \<in> set xs" for d :: "'n dlist" and xs x
    using DL_DELETE_rep [OF that] .
  show "dl_head d = (case xs of [] \<Rightarrow> None | x # _ \<Rightarrow> Some x)"
    if "dl_rep d xs" for d :: "'n dlist" and xs
    using that by (auto simp: dl_rep_def split: list.splits if_splits)
  show "dl_next d x = (case zs of [] \<Rightarrow> None | z # _ \<Rightarrow> Some z)"
    if "dl_rep d (ys @ x # zs)" for d :: "'n dlist" and ys x zs
    using that by (auto simp: dl_rep_def chain_append split: list.splits if_splits)
qed

section \<open>The plain list\<close>

text \<open>
  The other components keep the list of nodes itself. Appending a node that is already linked,
  or deleting one that is not, corrupts the pointer structure; here it is undefined.
\<close>

definition list_append :: "'n list \<Rightarrow> 'n \<Rightarrow> 'n list option" where
  "list_append xs x = (if x \<in> set xs then None else Some (xs @ [x]))"

definition list_delete :: "'n list \<Rightarrow> 'n \<Rightarrow> 'n list option" where
  "list_delete xs x = (if x \<in> set xs then Some (remove1 x xs) else None)"

definition list_head :: "'n list \<Rightarrow> 'n option" where
  "list_head xs = (case xs of [] \<Rightarrow> None | x # _ \<Rightarrow> Some x)"

fun list_next :: "'n list \<Rightarrow> 'n \<Rightarrow> 'n option" where
  "list_next [] x = None"
| "list_next (y # ys) x = (if y = x then list_head ys else list_next ys x)"

lemma list_next_at: "distinct (ys @ x # zs) \<Longrightarrow> list_next (ys @ x # zs) x = list_head zs"
  by (induction ys) auto

interpretation plain: intrusive_list "\<lambda>s xs. s = xs \<and> distinct xs"
  list_append list_delete list_head list_next
  by unfold_locales
    (auto simp: list_append_def list_delete_def list_head_def list_next_at
      split: list.splits)

lemma list_head_simps [simp]: "list_head [] = None" "list_head (x # xs) = Some x"
  by (simp_all add: list_head_def)

lemma list_head_Some: "list_head xs = Some x \<Longrightarrow> x \<in> set xs"
  by (cases xs) auto

text \<open>
  The simulation that justifies keeping plain lists: on a state that represents a list, the
  macros and the list operations fail together never and succeed to corresponding states.
\<close>

lemma DL_APPEND_refines:
  "dl_rep d xs \<Longrightarrow> list_append xs x = Some xs' \<Longrightarrow> \<exists>d'. DL_APPEND d x = Some d' \<and> dl_rep d' xs'"
  using utl.append_rep by (auto simp: list_append_def split: if_splits)

lemma DL_DELETE_refines:
  "dl_rep d xs \<Longrightarrow> list_delete xs x = Some xs' \<Longrightarrow> \<exists>d'. DL_DELETE d x = Some d' \<and> dl_rep d' xs'"
  using utl.delete_rep by (auto simp: list_delete_def split: if_splits)

end
