(* ===== verification/FB_Ssd_Info.thy ===== *)
theory FB_Ssd_Info
  imports FB_Address FB_Utlist
begin

text \<open>
  The bookkeeping of the emulated flash, \<open>ssd_info.c\<close> and \<open>ssd_info.h\<close>: per wordline the
  status and logical address of its four slots, per block the page counters, per chip the
  lists of free, used and dirty blocks.

  A C array is a function from its index; every access goes through \<open>ld_chip\<close>, \<open>ld_blk\<close>,
  \<open>ld_page\<close> or a slot accessor, which checks the index against the allocated size and is
  \<open>None\<close> outside. The blocks of all chips are kept in one function of their pointer. The
  intrusive lists are plain lists of block pointers (\<open>FB_Utlist\<close> shows the macros simulate
  the list operations used here).
\<close>

section \<open>Data\<close>

datatype fb_pg_status_t =
  PAGE_STATUS_FREE | PAGE_STATUS_VALID | PAGE_STATUS_INVALID | PAGE_STATUS_DEL

record flash_page =
  page_status :: "u8 \<Rightarrow> fb_pg_status_t"
  no_logical_page_addr :: "u8 \<Rightarrow> u32"
  pg_nr_invalid_log_pages :: u32
  pg_del_flag :: int

record flash_block =
  no_block :: u32
  no_chip :: u32
  no_bus :: u32
  nr_valid_pages :: u32
  nr_invalid_pages :: u32
  nr_free_pages :: u32
  nr_valid_log_pages :: u32
  nr_invalid_log_pages :: u32
  nr_erase_cnt :: u32
  is_bad_block :: int
  last_modified_time :: u32
  is_reserved_block :: int
  is_active_block :: int
  list_pages :: "u32 \<Rightarrow> flash_page"
  blk_del_flag :: int

record flash_chip =
  chip_status :: int
  nr_free_blocks :: u32
  nr_used_blks :: u32
  nr_dirt_blks :: u32
  free_blks :: "blkptr list"
  used_blks :: "blkptr list"
  dirt_blks :: "blkptr list"
  nr_dirty_blocks :: u32

record ssd_info =
  nr_buses :: u32
  nr_chips_per_bus :: u32
  nr_blocks_per_chip :: u32
  nr_pages_per_block :: u32
  chips :: "u32 \<Rightarrow> u32 \<Rightarrow> flash_chip"
  blocks :: "blkptr \<Rightarrow> flash_block"

section \<open>Checked access\<close>

definition ld_chip :: "ssd_info \<Rightarrow> u32 \<Rightarrow> u32 \<Rightarrow> flash_chip option" where
  "ld_chip s bus chip = (if valid_chip bus chip then Some (chips s bus chip) else None)"

definition st_chip :: "ssd_info \<Rightarrow> u32 \<Rightarrow> u32 \<Rightarrow> (flash_chip \<Rightarrow> flash_chip) \<Rightarrow> ssd_info option" where
  "st_chip s bus chip f =
     (if valid_chip bus chip
      then Some (s\<lparr>chips := (chips s)(bus := (chips s bus)(chip := f (chips s bus chip)))\<rparr>)
      else None)"

definition ld_blk :: "ssd_info \<Rightarrow> blkptr \<Rightarrow> flash_block option" where
  "ld_blk s p = (if valid_blk p then Some (blocks s p) else None)"

definition st_blk :: "ssd_info \<Rightarrow> blkptr \<Rightarrow> (flash_block \<Rightarrow> flash_block) \<Rightarrow> ssd_info option" where
  "st_blk s p f =
     (if valid_blk p then Some (s\<lparr>blocks := (blocks s)(p := f (blocks s p))\<rparr>) else None)"

fun valid_page :: "pgptr \<Rightarrow> bool" where
  "valid_page (Pg p pg) \<longleftrightarrow> valid_blk p \<and> pg < NUM_PAGES_PER_BLOCK"

fun ld_page :: "ssd_info \<Rightarrow> pgptr \<Rightarrow> flash_page option" where
  "ld_page s (Pg p pg) =
     (if valid_page (Pg p pg) then Some (list_pages (blocks s p) pg) else None)"

fun st_page :: "ssd_info \<Rightarrow> pgptr \<Rightarrow> (flash_page \<Rightarrow> flash_page) \<Rightarrow> ssd_info option" where
  "st_page s (Pg p pg) f =
     (if valid_page (Pg p pg)
      then st_blk s p (\<lambda>b. b\<lparr>list_pages := (list_pages b)(pg := f (list_pages b pg))\<rparr>)
      else None)"

section \<open>Pointers\<close>

definition get_chip_info :: "u32 \<Rightarrow> u32 \<Rightarrow> u32 \<times> u32" where
  "get_chip_info bus chip = (bus, chip)"

definition get_block_info :: "u32 \<Rightarrow> u32 \<Rightarrow> u32 \<Rightarrow> blkptr" where
  "get_block_info bus chip block = Blk bus chip block"

definition get_page_info :: "u32 \<Rightarrow> u32 \<Rightarrow> u32 \<Rightarrow> u32 \<Rightarrow> pgptr" where
  "get_page_info bus chip block page = Pg (Blk bus chip block) page"

definition get_pgi_from_blki :: "blkptr \<Rightarrow> u32 \<Rightarrow> pgptr" where
  "get_pgi_from_blki blki pg = Pg blki pg"

section \<open>Page interface\<close>

definition get_mapped_lpa :: "ssd_info \<Rightarrow> pgptr \<Rightarrow> u8 \<Rightarrow> u32 option" where
  "get_mapped_lpa s pgi ofs = do {
     p \<leftarrow> ld_page s pgi;
     if ofs < NR_LP_IN_PP then Some (no_logical_page_addr p ofs) else None }"

definition set_mapped_lpa :: "ssd_info \<Rightarrow> pgptr \<Rightarrow> u8 \<Rightarrow> u32 \<Rightarrow> ssd_info option" where
  "set_mapped_lpa s pgi ofs lpa =
     (if ofs < NR_LP_IN_PP
      then st_page s pgi (\<lambda>p. p\<lparr>no_logical_page_addr := (no_logical_page_addr p)(ofs := lpa)\<rparr>)
      else None)"

definition get_pg_status :: "ssd_info \<Rightarrow> pgptr \<Rightarrow> u8 \<Rightarrow> fb_pg_status_t option" where
  "get_pg_status s pgi ofs = do {
     p \<leftarrow> ld_page s pgi;
     if ofs < NR_LP_IN_PP then Some (page_status p ofs) else None }"

definition set_pg_status :: "ssd_info \<Rightarrow> pgptr \<Rightarrow> u8 \<Rightarrow> fb_pg_status_t \<Rightarrow> ssd_info option" where
  "set_pg_status s pgi ofs status =
     (if ofs < NR_LP_IN_PP
      then st_page s pgi (\<lambda>p. p\<lparr>page_status := (page_status p)(ofs := status)\<rparr>)
      else None)"

definition get_nr_invalid_lps :: "ssd_info \<Rightarrow> pgptr \<Rightarrow> u32 option" where
  "get_nr_invalid_lps s pgi = map_option pg_nr_invalid_log_pages (ld_page s pgi)"

definition inc_nr_invalid_lps :: "ssd_info \<Rightarrow> pgptr \<Rightarrow> (u32 \<times> ssd_info) option" where
  "inc_nr_invalid_lps s pgi = do {
     s \<leftarrow> st_page s pgi (\<lambda>p. p\<lparr>pg_nr_invalid_log_pages := pg_nr_invalid_log_pages p + 1\<rparr>);
     p \<leftarrow> ld_page s pgi;
     Some (pg_nr_invalid_log_pages p, s) }"

section \<open>Block interface\<close>

definition get_nr_free_pgs :: "ssd_info \<Rightarrow> blkptr \<Rightarrow> u32 option" where
  "get_nr_free_pgs s blki = map_option nr_free_pages (ld_blk s blki)"

definition inc_nr_valid_pgs :: "ssd_info \<Rightarrow> blkptr \<Rightarrow> (u32 \<times> ssd_info) option" where
  "inc_nr_valid_pgs s blki = do {
     s \<leftarrow> st_blk s blki (\<lambda>b. b\<lparr>nr_valid_pages := nr_valid_pages b + 1\<rparr>);
     b \<leftarrow> ld_blk s blki; Some (nr_valid_pages b, s) }"

definition inc_nr_invalid_pgs :: "ssd_info \<Rightarrow> blkptr \<Rightarrow> (u32 \<times> ssd_info) option" where
  "inc_nr_invalid_pgs s blki = do {
     s \<leftarrow> st_blk s blki (\<lambda>b. b\<lparr>nr_invalid_pages := nr_invalid_pages b + 1\<rparr>);
     b \<leftarrow> ld_blk s blki; Some (nr_invalid_pages b, s) }"

definition dec_nr_valid_pgs :: "ssd_info \<Rightarrow> blkptr \<Rightarrow> (u32 \<times> ssd_info) option" where
  "dec_nr_valid_pgs s blki = do {
     s \<leftarrow> st_blk s blki (\<lambda>b. b\<lparr>nr_valid_pages := nr_valid_pages b - 1\<rparr>);
     b \<leftarrow> ld_blk s blki; Some (nr_valid_pages b, s) }"

definition dec_nr_free_pgs :: "ssd_info \<Rightarrow> blkptr \<Rightarrow> (u32 \<times> ssd_info) option" where
  "dec_nr_free_pgs s blki = do {
     s \<leftarrow> st_blk s blki (\<lambda>b. b\<lparr>nr_free_pages := nr_free_pages b - 1\<rparr>);
     b \<leftarrow> ld_blk s blki; Some (nr_free_pages b, s) }"

definition get_nr_valid_lps_in_blk :: "ssd_info \<Rightarrow> blkptr \<Rightarrow> u32 option" where
  "get_nr_valid_lps_in_blk s blki = map_option nr_valid_log_pages (ld_blk s blki)"

definition get_nr_invalid_lps_in_blk :: "ssd_info \<Rightarrow> blkptr \<Rightarrow> u32 option" where
  "get_nr_invalid_lps_in_blk s blki = map_option nr_invalid_log_pages (ld_blk s blki)"

definition inc_nr_valid_lps_in_blk :: "ssd_info \<Rightarrow> blkptr \<Rightarrow> (u32 \<times> ssd_info) option" where
  "inc_nr_valid_lps_in_blk s blki = do {
     s \<leftarrow> st_blk s blki (\<lambda>b. b\<lparr>nr_valid_log_pages := nr_valid_log_pages b + 1\<rparr>);
     b \<leftarrow> ld_blk s blki; Some (nr_valid_log_pages b, s) }"

definition inc_nr_invalid_lps_in_blk :: "ssd_info \<Rightarrow> blkptr \<Rightarrow> (u32 \<times> ssd_info) option" where
  "inc_nr_invalid_lps_in_blk s blki = do {
     s \<leftarrow> st_blk s blki (\<lambda>b. b\<lparr>nr_invalid_log_pages := nr_invalid_log_pages b + 1\<rparr>);
     b \<leftarrow> ld_blk s blki; Some (nr_invalid_log_pages b, s) }"

definition dec_nr_valid_lps_in_blk :: "ssd_info \<Rightarrow> blkptr \<Rightarrow> (u32 \<times> ssd_info) option" where
  "dec_nr_valid_lps_in_blk s blki = do {
     s \<leftarrow> st_blk s blki (\<lambda>b. b\<lparr>nr_valid_log_pages := nr_valid_log_pages b - 1\<rparr>);
     b \<leftarrow> ld_blk s blki; Some (nr_valid_log_pages b, s) }"

definition inc_bers_cnt :: "ssd_info \<Rightarrow> blkptr \<Rightarrow> (u32 \<times> ssd_info) option" where
  "inc_bers_cnt s blki = do {
     s \<leftarrow> st_blk s blki (\<lambda>b. b\<lparr>nr_erase_cnt := nr_erase_cnt b + 1\<rparr>);
     b \<leftarrow> ld_blk s blki; Some (nr_erase_cnt b, s) }"

definition set_rsv_blk_flag :: "ssd_info \<Rightarrow> blkptr \<Rightarrow> int \<Rightarrow> ssd_info option" where
  "set_rsv_blk_flag s blki flag = st_blk s blki (\<lambda>b. b\<lparr>is_reserved_block := flag\<rparr>)"

definition set_act_blk_flag :: "ssd_info \<Rightarrow> blkptr \<Rightarrow> int \<Rightarrow> ssd_info option" where
  "set_act_blk_flag s blki flag = st_blk s blki (\<lambda>b. b\<lparr>is_active_block := flag\<rparr>)"

text \<open>\<open>init_page\<close> is the body of the wordline loop of \<open>init_blk_inf\<close>.\<close>

definition init_page :: "blkptr \<Rightarrow> u32 \<Rightarrow> ssd_info \<Rightarrow> ssd_info option" where
  "init_page blki pg s = do {
     let pgi = get_pgi_from_blki blki pg;
     s \<leftarrow> st_page s pgi (\<lambda>p. p\<lparr>pg_nr_invalid_log_pages := 0\<rparr>);
     s \<leftarrow> st_page s pgi (\<lambda>p. p\<lparr>pg_del_flag := 0\<rparr>);
     foldM (\<lambda>lp s. do {
         s \<leftarrow> set_mapped_lpa s pgi lp PAGE_UNMAPPED;
         set_pg_status s pgi lp PAGE_STATUS_FREE }) (words_below NR_LP_IN_PP) s }"

definition init_blk_inf :: "ssd_info \<Rightarrow> blkptr \<Rightarrow> ssd_info option" where
  "init_blk_inf s blki = do {
     s \<leftarrow> set_act_blk_flag s blki 0;
     s \<leftarrow> set_rsv_blk_flag s blki 0;
     s \<leftarrow> st_blk s blki (\<lambda>b. b\<lparr>nr_free_pages := NUM_PAGES_PER_BLOCK, nr_valid_pages := 0,
            nr_invalid_pages := 0, nr_valid_log_pages := 0, nr_invalid_log_pages := 0,
            blk_del_flag := 0\<rparr>);
     foldM (init_page blki) (words_below NUM_PAGES_PER_BLOCK) s }"

section \<open>Chip interface\<close>

definition set_free_blk :: "ssd_info \<Rightarrow> blkptr \<Rightarrow> ssd_info option" where
  "set_free_blk s bi = do {
     b \<leftarrow> ld_blk s bi;
     let (bus, chip) = get_chip_info (no_bus b) (no_chip b);
     ci \<leftarrow> ld_chip s bus chip;
     xs \<leftarrow> list_append (free_blks ci) bi;
     st_chip s bus chip (\<lambda>c. c\<lparr>free_blks := xs, nr_free_blocks := nr_free_blocks c + 1\<rparr>) }"

definition reset_free_blk :: "ssd_info \<Rightarrow> blkptr \<Rightarrow> ssd_info option" where
  "reset_free_blk s bi = do {
     b \<leftarrow> ld_blk s bi;
     let (bus, chip) = get_chip_info (no_bus b) (no_chip b);
     ci \<leftarrow> ld_chip s bus chip;
     xs \<leftarrow> list_delete (free_blks ci) bi;
     st_chip s bus chip (\<lambda>c. c\<lparr>free_blks := xs, nr_free_blocks := nr_free_blocks c - 1\<rparr>) }"

definition get_free_block :: "ssd_info \<Rightarrow> u32 \<Rightarrow> u32 \<Rightarrow> blkptr option option" where
  "get_free_block s bus chip =
     (case get_chip_info bus chip of (bus, chip) \<Rightarrow>
        map_option (\<lambda>ci. list_head (free_blks ci)) (ld_chip s bus chip))"

definition get_nr_free_blks_in_chip :: "ssd_info \<Rightarrow> u32 \<times> u32 \<Rightarrow> u32 option" where
  "get_nr_free_blks_in_chip s ci = map_option nr_free_blocks (ld_chip s (fst ci) (snd ci))"

definition set_used_blk :: "ssd_info \<Rightarrow> blkptr \<Rightarrow> ssd_info option" where
  "set_used_blk s bi = do {
     b \<leftarrow> ld_blk s bi;
     let (bus, chip) = get_chip_info (no_bus b) (no_chip b);
     ci \<leftarrow> ld_chip s bus chip;
     xs \<leftarrow> list_append (used_blks ci) bi;
     st_chip s bus chip (\<lambda>c. c\<lparr>used_blks := xs, nr_used_blks := nr_used_blks c + 1\<rparr>) }"

definition reset_used_blk :: "ssd_info \<Rightarrow> blkptr \<Rightarrow> ssd_info option" where
  "reset_used_blk s bi = do {
     b \<leftarrow> ld_blk s bi;
     let (bus, chip) = get_chip_info (no_bus b) (no_chip b);
     ci \<leftarrow> ld_chip s bus chip;
     xs \<leftarrow> list_delete (used_blks ci) bi;
     st_chip s bus chip (\<lambda>c. c\<lparr>used_blks := xs, nr_used_blks := nr_used_blks c - 1\<rparr>) }"

definition get_used_block :: "ssd_info \<Rightarrow> u32 \<Rightarrow> u32 \<Rightarrow> blkptr option option" where
  "get_used_block s bus chip =
     (case get_chip_info bus chip of (bus, chip) \<Rightarrow>
        map_option (\<lambda>ci. list_head (used_blks ci)) (ld_chip s bus chip))"

definition get_nr_used_blks_in_chip :: "ssd_info \<Rightarrow> u32 \<times> u32 \<Rightarrow> u32 option" where
  "get_nr_used_blks_in_chip s ci = map_option nr_used_blks (ld_chip s (fst ci) (snd ci))"

definition set_dirt_blk :: "ssd_info \<Rightarrow> blkptr \<Rightarrow> ssd_info option" where
  "set_dirt_blk s bi = do {
     b \<leftarrow> ld_blk s bi;
     let (bus, chip) = get_chip_info (no_bus b) (no_chip b);
     ci \<leftarrow> ld_chip s bus chip;
     xs \<leftarrow> list_append (dirt_blks ci) bi;
     st_chip s bus chip (\<lambda>c. c\<lparr>dirt_blks := xs, nr_dirt_blks := nr_dirt_blks c + 1\<rparr>) }"

definition reset_dirt_blk :: "ssd_info \<Rightarrow> blkptr \<Rightarrow> ssd_info option" where
  "reset_dirt_blk s bi = do {
     b \<leftarrow> ld_blk s bi;
     let (bus, chip) = get_chip_info (no_bus b) (no_chip b);
     ci \<leftarrow> ld_chip s bus chip;
     xs \<leftarrow> list_delete (dirt_blks ci) bi;
     st_chip s bus chip (\<lambda>c. c\<lparr>dirt_blks := xs, nr_dirt_blks := nr_dirt_blks c - 1\<rparr>) }"

definition get_dirt_block :: "ssd_info \<Rightarrow> u32 \<Rightarrow> u32 \<Rightarrow> blkptr option option" where
  "get_dirt_block s bus chip =
     (case get_chip_info bus chip of (bus, chip) \<Rightarrow>
        map_option (\<lambda>ci. list_head (dirt_blks ci)) (ld_chip s bus chip))"

definition get_nr_dirt_blks_in_chip :: "ssd_info \<Rightarrow> u32 \<times> u32 \<Rightarrow> u32 option" where
  "get_nr_dirt_blks_in_chip s ci = map_option nr_dirt_blks (ld_chip s (fst ci) (snd ci))"

section \<open>Creation\<close>

text \<open>
  \<open>create_ssd_info\<close> when every allocation succeeds, applied to the previous contents of the
  allocated memory. \<open>create_page\<close>, \<open>create_block\<close> and \<open>create_chip\<close> are the bodies of its
  inner loops.
\<close>

definition create_page :: "blkptr \<Rightarrow> u32 \<Rightarrow> ssd_info \<Rightarrow> ssd_info option" where
  "create_page p loop_page s = do {
     s \<leftarrow> st_page s (Pg p loop_page) (\<lambda>q. q\<lparr>pg_nr_invalid_log_pages := 0\<rparr>);
     s \<leftarrow> foldM (\<lambda>lp_loop s. do {
         s \<leftarrow> set_mapped_lpa s (Pg p loop_page) lp_loop (-1);
         set_pg_status s (Pg p loop_page) lp_loop PAGE_STATUS_FREE }) (words_below NR_LP_IN_PP) s;
     st_page s (Pg p loop_page) (\<lambda>q. q\<lparr>pg_del_flag := 0\<rparr>) }"

definition create_block :: "u32 \<Rightarrow> u32 \<Rightarrow> u32 \<Rightarrow> ssd_info \<Rightarrow> ssd_info option" where
  "create_block loop_bus loop_chip loop_block s = do {
     let p = Blk loop_bus loop_chip loop_block;
     s \<leftarrow> st_blk s p (\<lambda>b. b\<lparr>no_block := loop_block, no_chip := loop_chip, no_bus := loop_bus,
            nr_valid_log_pages := 0, nr_invalid_log_pages := 0, nr_valid_pages := 0,
            nr_invalid_pages := 0, nr_free_pages := NUM_PAGES_PER_BLOCK, nr_erase_cnt := 0,
            is_bad_block := 0, is_reserved_block := 0, is_active_block := 0,
            last_modified_time := 0, blk_del_flag := 0\<rparr>);
     s \<leftarrow> foldM (create_page p) (words_below NUM_PAGES_PER_BLOCK) s;
     set_free_blk s p }"

definition create_chip :: "u32 \<Rightarrow> u32 \<Rightarrow> ssd_info \<Rightarrow> ssd_info option" where
  "create_chip loop_bus loop_chip s = do {
     s \<leftarrow> st_chip s loop_bus loop_chip (\<lambda>c. c\<lparr>chip_status := 0, nr_free_blocks := 0,
            nr_used_blks := 0, nr_dirt_blks := 0, nr_dirty_blocks := 0,
            free_blks := [], used_blks := [], dirt_blks := []\<rparr>);
     foldM (create_block loop_bus loop_chip) (words_below NUM_BLOCKS_PER_CHIP) s }"

definition create_ssd_info :: "ssd_info \<Rightarrow> ssd_info option" where
  "create_ssd_info s = do {
     let s = s\<lparr>nr_buses := NUM_BUSES, nr_chips_per_bus := NUM_CHIPS_PER_BUS,
       nr_blocks_per_chip := NUM_BLOCKS_PER_CHIP, nr_pages_per_block := NUM_PAGES_PER_BLOCK\<rparr>;
     foldM (\<lambda>loop_bus. foldM (create_chip loop_bus) (words_below NUM_CHIPS_PER_BUS))
       (words_below NUM_BUSES) s }"

end
