(* ===== verification/FB_Vdevice.thy ===== *)
theory FB_Vdevice
  imports FB_Address
begin

text \<open>
  The emulated flash array, \<open>rust/src/vdevice.rs\<close>. A wordline holds \<open>NR_LP_IN_PP\<close> logical pages;
  \<open>vdata\<close> is the memory the \<open>ptr_data\<close> pointers address, wordline by wordline. The indices of the
  Rust arrays are checked, so an access outside the geometry is \<open>None\<close> (a panic).

  Every operation ends by handing itself to the bus controller of its bus, a thread of its own
  (\<open>FB_Bus\<close>): \<open>issued\<close> is the sequence of those calls.
\<close>

section \<open>Data\<close>

type_synonym bioptr = nat

record vdevice_t =
  device_capacity :: u64
  logical_capacity :: u64
  vdata :: "blkptr \<Rightarrow> u32 \<Rightarrow> lpdata list"
  issued :: "(u8 \<times> u32 \<times> fb_dev_op_t \<times> bioptr option) list"

definition valid_wordline :: "u8 \<Rightarrow> u8 \<Rightarrow> u32 \<Rightarrow> u32 \<Rightarrow> bool" where
  "valid_wordline bus chip block page \<longleftrightarrow>
     valid_blk (Blk (ucast bus) (ucast chip) block) \<and> page < NUM_PAGES_PER_BLOCK"

definition issue :: "vdevice_t \<Rightarrow> u8 \<Rightarrow> u32 \<Rightarrow> fb_dev_op_t \<Rightarrow> bioptr option \<Rightarrow> vdevice_t" where
  "issue v bus chip op bio = v\<lparr>issued := issued v @ [(bus, chip, op, bio)]\<rparr>"

section \<open>Operations\<close>

text \<open>
  \<open>page_bitmap\<close> selects the logical pages of the wordline; the selected ones are copied one after
  the other to \<open>dest\<close>, from position \<open>pos\<close> on.
\<close>

definition vdevice_read ::
  "vdevice_t \<Rightarrow> u8 \<Rightarrow> u8 \<Rightarrow> u32 \<Rightarrow> u32 \<Rightarrow> u8 list \<Rightarrow> lpdata list \<Rightarrow> nat \<Rightarrow> bioptr option
    \<Rightarrow> (lpdata list \<times> vdevice_t) option" where
  "vdevice_read v bus chip block page page_bitmap dest pos bio =
     (if valid_wordline bus chip block page
      then do {
        let src = vdata v (Blk (ucast bus) (ucast chip) block) page;
        (curr, dest) \<leftarrow> foldM (\<lambda>lp_loop (curr, dest).
            if unat lp_loop < length page_bitmap then
              if page_bitmap ! unat lp_loop = 1 then
                if unat lp_loop < length src \<and> curr < length dest
                then Some (curr + 1, dest[curr := src ! unat lp_loop])
                else None
              else Some (curr, dest)
            else None) (words_below (NR_LP_IN_PP :: u8)) (pos, dest);
        Some (dest, issue v bus (ucast chip) OP_READ bio) }
      else None)"

text \<open>The physical page written is the \<open>NR_LP_IN_PP\<close> logical pages of \<open>src\<close> from \<open>pos\<close> on.\<close>

definition vdevice_write ::
  "vdevice_t \<Rightarrow> u8 \<Rightarrow> u8 \<Rightarrow> u32 \<Rightarrow> u32 \<Rightarrow> lpdata list \<Rightarrow> nat \<Rightarrow> bioptr option \<Rightarrow> vdevice_t option" where
  "vdevice_write v bus chip block page src pos bio =
     (if valid_wordline bus chip block page \<and> pos + NR_LP_IN_PP \<le> length src
      then let p = Blk (ucast bus) (ucast chip) block in
        Some (issue (v\<lparr>vdata := (vdata v)(p := (vdata v p)(page := take NR_LP_IN_PP (drop pos src)))\<rparr>)
          bus (ucast chip) OP_PROG bio)
      else None)"

definition erased_page :: lpdata where
  "erased_page = replicate LOGICAL_PAGE_SIZE 0xff"

definition vdevice_erase :: "vdevice_t \<Rightarrow> u8 \<Rightarrow> u8 \<Rightarrow> u32 \<Rightarrow> bioptr option \<Rightarrow> vdevice_t option" where
  "vdevice_erase v bus chip block bio =
     (if valid_wordline bus chip block 0
      then let p = Blk (ucast bus) (ucast chip) block in
        Some (issue (v\<lparr>vdata := (vdata v)(p := (\<lambda>page. if page < NUM_PAGES_PER_BLOCK
              then replicate NR_LP_IN_PP erased_page else vdata v p page))\<rparr>)
          bus (ucast chip) OP_BERS bio)
      else None)"

section \<open>The operations handed over\<close>

text \<open>An operation for request \<open>b\<close> on a chip that exists. A device is \<open>silent\<close> when what it hands over belongs to no request.\<close>

definition op_for :: "bioptr option \<Rightarrow> u8 \<times> u32 \<times> fb_dev_op_t \<times> bioptr option \<Rightarrow> bool" where
  "op_for b q \<longleftrightarrow> (case q of (bus, chip, op, b') \<Rightarrow> bus = 0 \<and> unat chip < NUM_CHIPS_PER_BUS \<and> b' = b)"

definition silent :: "vdevice_t \<Rightarrow> vdevice_t \<Rightarrow> bool" where
  "silent v v' \<longleftrightarrow> (\<exists>ops. issued v' = issued v @ ops \<and> (\<forall>q \<in> set ops. op_for None q))"

lemma silent_refl [simp]: "silent v v"
  by (simp add: silent_def)

lemma silent_trans [trans]: "silent v v' \<Longrightarrow> silent v' v'' \<Longrightarrow> silent v v''"
  unfolding silent_def by (elim exE conjE) (auto intro!: exI [of _ "_ @ _"])

lemma valid_wordline_op:
  assumes "valid_wordline bus chip block page"
  shows "op_for b (bus, ucast chip, op, b)"
proof -
  have u: "unat (ucast x :: u32) = unat x" for x :: u8
    using unsigned_less [of x, where ?'a = nat] by (simp add: unsigned_ucast_eq take_bit_nat_eq_self)
  have "unat bus < 1" "unat chip < 2"
    using assms by (simp_all add: valid_wordline_def valid_chip_def geometry_simps word_less_nat_alt u)
  then show ?thesis by (simp add: op_for_def geometry_simps u unat_eq_zero)
qed


lemma silent_issue:
  assumes "valid_wordline bus chip block page" "issued w = issued v"
  shows "silent v (issue w bus (ucast chip) op None)"
  using assms valid_wordline_op [OF assms(1)] by (auto simp: silent_def issue_def)

section \<open>Layout\<close>

text \<open>
  \<open>create_vdevice\<close> gives wordline \<open>page\<close> of block \<open>block\<close> of chip \<open>chip\<close> the bytes from
  \<open>page_offset chip block page\<close> on of the disk of its bus, \<open>CAPACITY_PER_BUS\<close> bytes long.
\<close>

definition CAPACITY_PER_BUS :: nat where
  "CAPACITY_PER_BUS = NUM_CHIPS_PER_BUS * NUM_BLOCKS_PER_CHIP * NUM_PAGES_PER_BLOCK * PHYSICAL_PAGE_SIZE"

definition page_offset :: "nat \<Rightarrow> nat \<Rightarrow> nat \<Rightarrow> nat" where
  "page_offset chip_loop block_loop page_loop =
     (chip_loop * NUM_BLOCKS_PER_CHIP * NUM_PAGES_PER_BLOCK + block_loop * NUM_PAGES_PER_BLOCK
       + page_loop) * PHYSICAL_PAGE_SIZE"

definition create_vdevice :: "vdevice_t \<Rightarrow> vdevice_t" where
  "create_vdevice junk = junk\<lparr>
     device_capacity := of_nat (NUM_BUSES * CAPACITY_PER_BUS),
     logical_capacity := of_nat (NUM_PAGES * CFACTOR_PERCENT div 100 * PHYSICAL_PAGE_SIZE),
     issued := []\<rparr>"

lemma mixed_radix_inj:
  fixes x y n :: nat
  assumes "x * n + p = y * n + q" "p < n" "q < n"
  shows "x = y \<and> p = q"
proof -
  have "(x * n + p) div n = x" "(x * n + p) mod n = p" "(y * n + q) div n = y" "(y * n + q) mod n = q"
    using assms(2,3) by simp_all
  with assms(1) show ?thesis by metis
qed

lemma page_offset_inj:
  assumes "b < NUM_BLOCKS_PER_CHIP" "b' < NUM_BLOCKS_PER_CHIP"
    and "p < NUM_PAGES_PER_BLOCK" "p' < NUM_PAGES_PER_BLOCK"
    and "page_offset c b p = page_offset c' b' p'"
  shows "c = c' \<and> b = b' \<and> p = p'"
proof -
  have "(c * 171 + b) * 192 + p = (c' * 171 + b') * 192 + p'"
    using assms(5) by (simp add: page_offset_def geometry_simps PHYSICAL_PAGE_SIZE_def
        LOGICAL_PAGE_SIZE_def algebra_simps)
  then have p: "c * 171 + b = c' * 171 + b' \<and> p = p'"
    by (rule mixed_radix_inj) (use assms(3,4) in \<open>simp_all add: geometry_simps\<close>)
  then have "c = c' \<and> b = b'"
    by (intro mixed_radix_inj [of c 171 b c' b']) (use assms(1,2) in \<open>simp_all add: geometry_simps\<close>)
  with p show ?thesis by simp
qed

lemma page_offset_apart:
  assumes "page_offset c b p < page_offset c' b' p'"
  shows "page_offset c b p + PHYSICAL_PAGE_SIZE \<le> page_offset c' b' p'"
proof -
  have "x * n + n \<le> y * n" if "x * n < y * n" for x y n :: nat
    using that mult_le_mono1 [of "Suc x" y n] by simp
  then show ?thesis using assms unfolding page_offset_def by blast
qed

lemma page_offset_end:
  assumes "c < NUM_CHIPS_PER_BUS" "b < NUM_BLOCKS_PER_CHIP" "p < NUM_PAGES_PER_BLOCK"
  shows "page_offset c b p + PHYSICAL_PAGE_SIZE \<le> CAPACITY_PER_BUS"
  using assms by (simp add: page_offset_def CAPACITY_PER_BUS_def geometry_simps
      PHYSICAL_PAGE_SIZE_def LOGICAL_PAGE_SIZE_def)

section \<open>What the operations do\<close>

lemma vdevice_write_other:
  assumes "vdevice_write v bus chip block page src pos bio = Some v'"
  shows "vdata v' = (vdata v)(Blk (ucast bus) (ucast chip) block :=
    (vdata v (Blk (ucast bus) (ucast chip) block))(page := take NR_LP_IN_PP (drop pos src)))"
  using assms by (auto simp: vdevice_write_def issue_def Let_def split: if_splits)

text \<open>The slots a bitmap selects, in order, and the copy loop of \<open>vdevice_read\<close> over them.\<close>

definition selected :: "u8 list \<Rightarrow> nat list" where
  "selected bm = filter (\<lambda>j. bm ! j = 1) [0..<NR_LP_IN_PP]"

lemma list_update_at_gap:
  "k < length dest \<Longrightarrow> take (Suc k) (dest[k := x]) = take k dest @ [x]"
  by (simp add: take_Suc_conv_app_nth take_update_cancel)

lemma copy_loop:
  assumes "\<forall>x \<in> set xs. unat x < length bm \<and> unat x < length src"
    and "k + length (filter (\<lambda>j. bm ! j = 1) (map unat xs)) \<le> length dest"
  shows "foldM (\<lambda>lp_loop (curr, dest).
            if unat lp_loop < length bm then
              if bm ! unat lp_loop = 1 then
                if unat lp_loop < length src \<and> curr < length dest
                then Some (curr + 1, dest[curr := src ! unat lp_loop])
                else None
              else Some (curr, dest)
            else None) xs (k, dest) =
    Some (k + length (filter (\<lambda>j. bm ! j = 1) (map unat xs)),
      take k dest @ map ((!) src) (filter (\<lambda>j. bm ! j = 1) (map unat xs)) @
      drop (k + length (filter (\<lambda>j. bm ! j = 1) (map unat xs))) dest)"
  using assms
proof (induction xs arbitrary: k dest)
  case Nil
  then show ?case by simp
next
  case (Cons x xs)
  show ?case
  proof (cases "bm ! unat x = 1")
    case True
    with Cons.prems have c: "k < length dest" "unat x < length bm" "unat x < length src" by auto
    then show ?thesis
      using True Cons.prems Cons.IH [of "Suc k" "dest[k := src ! unat x]"]
      by (simp add: list_update_at_gap)
  next
    case False
    with Cons show ?thesis by simp
  qed
qed

lemma map_unat_slots: "map unat (words_below (NR_LP_IN_PP :: u8)) = [0..<NR_LP_IN_PP]"
  by (simp add: words_below_def NR_LP_IN_PP_def upt_rec)

lemma vdevice_read_spec:
  assumes v: "valid_wordline bus chip block page" and bm: "length bm = NR_LP_IN_PP"
    and len: "length (vdata v (Blk (ucast bus) (ucast chip) block) page) = NR_LP_IN_PP"
    and pos: "pos + length (selected bm) \<le> length dest"
  shows "vdevice_read v bus chip block page bm dest pos bio =
    Some (take pos dest @ map ((!) (vdata v (Blk (ucast bus) (ucast chip) block) page)) (selected bm)
        @ drop (pos + length (selected bm)) dest,
      issue v bus (ucast chip) OP_READ bio)"
proof -
  have "\<forall>x \<in> set (words_below (NR_LP_IN_PP :: u8)). unat x < length bm \<and>
      unat x < length (vdata v (Blk (ucast bus) (ucast chip) block) page)"
    using bm len by (simp add: word_less_nat_alt NR_LP_IN_PP_def)
  from copy_loop [OF this, of pos dest] show ?thesis
    using v pos unfolding vdevice_read_def map_unat_slots selected_def by (simp add: Let_def)
qed

text \<open>A read of a single slot into a page buffer, as a read request does it.\<close>

lemma selected_single:
  assumes "i < 4"
  shows "selected ((replicate NR_LP_IN_PP 0)[i := 1]) = [i]"
proof -
  have "i = 0 \<or> i = 1 \<or> i = 2 \<or> i = 3" using assms by arith
  then show ?thesis
    by (elim disjE) (simp_all add: selected_def NR_LP_IN_PP_def upt_rec numeral_nat)
qed

section \<open>Properties\<close>

text \<open>
  Wordlines do not share memory: distinct wordlines of a bus start at distinct offsets
  at least a physical page apart, and the last one ends within the disk of the bus.
\<close>

theorem wordlines_disjoint:
  assumes "c < NUM_CHIPS_PER_BUS" "b < NUM_BLOCKS_PER_CHIP" "p < NUM_PAGES_PER_BLOCK"
    and "b' < NUM_BLOCKS_PER_CHIP" "p' < NUM_PAGES_PER_BLOCK" "(c, b, p) \<noteq> (c', b', p')"
  shows "page_offset c b p + PHYSICAL_PAGE_SIZE \<le> CAPACITY_PER_BUS \<and>
    (page_offset c b p + PHYSICAL_PAGE_SIZE \<le> page_offset c' b' p' \<or>
     page_offset c' b' p' + PHYSICAL_PAGE_SIZE \<le> page_offset c b p)"
proof -
  have "page_offset c b p \<noteq> page_offset c' b' p'"
    using page_offset_inj [OF assms(2,4,3,5), of c c'] assms(6) by blast
  then show ?thesis
    using page_offset_end [OF assms(1-3)] page_offset_apart [of c b p c' b' p']
      page_offset_apart [of c' b' p' c b p] by (metis linorder_neqE_nat)
qed

theorem wordlines_disjoint_witness:
  "page_offset 1 170 191 + PHYSICAL_PAGE_SIZE \<le> CAPACITY_PER_BUS \<and>
   page_offset 0 170 191 + PHYSICAL_PAGE_SIZE \<le> page_offset 1 0 0"
  using wordlines_disjoint [of 1 170 191 170 191 0] wordlines_disjoint [of 0 170 191 0 0 1]
  by (simp add: geometry_simps page_offset_def PHYSICAL_PAGE_SIZE_def LOGICAL_PAGE_SIZE_def)

text \<open>
  A wordline that was written reads back: after \<open>vdevice_write\<close> a \<open>vdevice_read\<close> of the
  same wordline with a bitmap delivers exactly the selected logical pages of the source, in order, from the given position
  on and leaves the rest of the destination alone; both requests are handed to the bus controller in that order.
\<close>

theorem vdevice_read_after_write:
  assumes "vdevice_write v bus chip block page src pos bio = Some v'"
    and "length bm = NR_LP_IN_PP" "dpos + length (selected bm) \<le> length dest"
  shows "\<exists>v''. vdevice_read v' bus chip block page bm dest dpos bio' =
      Some (take dpos dest @ map (\<lambda>j. src ! (pos + j)) (selected bm) @ drop (dpos + length (selected bm)) dest, v'') \<and>
    issued v'' = issued v @ [(bus, ucast chip, OP_PROG, bio), (bus, ucast chip, OP_READ, bio')]"
proof -
  have v: "valid_wordline bus chip block page" "pos + NR_LP_IN_PP \<le> length src"
    using assms(1) by (auto simp: vdevice_write_def Let_def split: if_splits)
  have d: "vdata v' (Blk (ucast bus) (ucast chip) block) page = take NR_LP_IN_PP (drop pos src)"
    using vdevice_write_other [OF assms(1)] by simp
  have "map ((!) (take NR_LP_IN_PP (drop pos src))) (selected bm) = map (\<lambda>j. src ! (pos + j)) (selected bm)"
    using v(2) by (intro map_cong [OF refl]) (auto simp: selected_def)
  moreover have "issued v' = issued v @ [(bus, ucast chip, OP_PROG, bio)]"
    using assms(1) by (auto simp: vdevice_write_def issue_def Let_def split: if_splits)
  ultimately show ?thesis
    using vdevice_read_spec [OF v(1) assms(2), of v' dpos dest bio'] v(2) assms(3) d
    by (simp add: issue_def)
qed

theorem vdevice_read_after_write_witness:
  "\<forall>v. \<exists>v' v''. vdevice_write v 0 1 170 191 [[1], [2], [3], [4]] 0 None = Some v' \<and>
    vdevice_read v' 0 1 170 191 [0, 1, 0, 1] [[9], [9], [9]] 0 None = Some ([[2], [4], [9]], v'')"
proof
  fix v
  obtain v' where w: "vdevice_write v 0 1 170 191 [[1], [2], [3], [4]] 0 None = Some v'"
    by (simp add: vdevice_write_def valid_wordline_def valid_chip_def geometry_simps Let_def)
  have s: "selected [0, 1, 0, 1] = [1, 3]" by (simp add: selected_def NR_LP_IN_PP_def upt_rec numeral_nat)
  show "\<exists>v' v''. vdevice_write v 0 1 170 191 [[1], [2], [3], [4]] 0 None = Some v' \<and>
    vdevice_read v' 0 1 170 191 [0, 1, 0, 1] [[9], [9], [9]] 0 None = Some ([[2], [4], [9]], v'')"
    using w vdevice_read_after_write [OF w, of "[0, 1, 0, 1]" 0 "[[9], [9], [9]]" None] s
    by (auto simp: NR_LP_IN_PP_def)
qed

end
