(* ===== verification/FB_Hash.thy ===== *)
theory FB_Hash
  imports FB_Prelude
begin

text \<open>
  The hash table of \<open>uthash/uthash.h\<close> as the write buffer uses it: keyed by a \<open>u32\<close>, holding
  pointers to the entries. Two entries with equal keys land in the same bucket chain, so a
  lookup depends only on the order of the chain; the table is the list of its nodes, newest
  first, which is the order \<open>HASH_ADD_TO_BKT\<close> builds. The bucket array itself is left out.

  The interface \<open>key_index\<close> states what the write buffer relies on, in terms of the finite map
  a table represents.
\<close>

type_synonym 'p hash_table = "(u32 \<times> 'p) list"

definition HASH_FIND :: "'p hash_table \<Rightarrow> u32 \<Rightarrow> 'p option" where
  "HASH_FIND t key = map_of t key"

definition HASH_ADD :: "'p hash_table \<Rightarrow> u32 \<Rightarrow> 'p \<Rightarrow> 'p hash_table" where
  "HASH_ADD t key p = (key, p) # t"

definition HASH_DEL :: "'p hash_table \<Rightarrow> 'p \<Rightarrow> 'p hash_table option" where
  "HASH_DEL t p = (if p \<in> snd ` set t then Some (filter (\<lambda>e. snd e \<noteq> p) t) else None)"

definition table_ok :: "'p hash_table \<Rightarrow> bool" where
  "table_ok t \<longleftrightarrow> distinct (map fst t) \<and> distinct (map snd t)"

locale key_index =
  fixes find :: "'t \<Rightarrow> 'k \<Rightarrow> 'p option"
    and add :: "'t \<Rightarrow> 'k \<Rightarrow> 'p \<Rightarrow> 't"
    and del :: "'t \<Rightarrow> 'p \<Rightarrow> 't option"
    and ok :: "'t \<Rightarrow> bool"
  assumes find_add: "ok t \<Longrightarrow> find t k = None \<Longrightarrow> find (add t k p) = (find t)(k \<mapsto> p)"
    and ok_add: "ok t \<Longrightarrow> find t k = None \<Longrightarrow> p \<notin> ran (find t) \<Longrightarrow> ok (add t k p)"
    and find_del: "ok t \<Longrightarrow> find t k = Some p \<Longrightarrow>
      \<exists>t'. del t p = Some t' \<and> ok t' \<and> find t' = (find t)(k := None)"
    and find_inj: "ok t \<Longrightarrow> find t k = Some p \<Longrightarrow> find t k' = Some p \<Longrightarrow> k = k'"
begin

lemma del_keeps:
  assumes "ok t" "find t k = Some p" "del t p = Some t'" "k' \<noteq> k"
  shows "find t' k' = find t k'"
  using find_del [OF assms(1,2)] assms(3,4) by auto

lemma del_ran:
  assumes "ok t" "find t k = Some p" "del t p = Some t'"
  shows "ran (find t') = ran (find t) - {p}"
proof -
  have f: "find t' = (find t)(k := None)" using find_del [OF assms(1,2)] assms(3) by auto
  show ?thesis
  proof (intro equalityI subsetI)
    fix q assume "q \<in> ran (find t')"
    then obtain k' where k': "k' \<noteq> k" "find t k' = Some q"
      by (auto simp: f ran_def split: if_splits)
    then have "q \<noteq> p" using find_inj [OF assms(1) _ assms(2), of k'] by auto
    with k' show "q \<in> ran (find t) - {p}" by (auto simp: ran_def)
  next
    fix q assume "q \<in> ran (find t) - {p}"
    then obtain k' where "find t k' = Some q" "q \<noteq> p" by (auto simp: ran_def)
    then have "find t' k' = Some q" using assms(2) by (auto simp: f)
    then show "q \<in> ran (find t')" by (auto simp: ran_def)
  qed
qed

lemma replace_pointer:
  assumes "ok t" "find t k = Some p" "q \<notin> ran (find t)"
  shows "\<exists>t'. del t p = Some t' \<and> ok (add t' k q) \<and> find (add t' k q) = (find t)(k \<mapsto> q)"
proof -
  obtain t' where t': "del t p = Some t'" "ok t'" "find t' = (find t)(k := None)"
    using find_del [OF assms(1,2)] by blast
  moreover have "q \<notin> ran (find t')" using assms(3) t'(3) by (auto simp: ran_def)
  ultimately show ?thesis using ok_add [of t' k q] find_add [of t' k q] by simp
qed

end

lemma map_of_filter_snd:
  assumes "table_ok t" "map_of t k = Some p"
  shows "map_of (filter (\<lambda>e. snd e \<noteq> p) t) = (map_of t)(k := None)"
  using assms
proof (induction t)
  case Nil
  then show ?case by simp
next
  case (Cons e t)
  obtain k' p' where e: "e = (k', p')" by (cases e)
  show ?case
  proof (cases "p' = p")
    case True
    then have "k' = k"
      using Cons.prems e by (force simp: table_ok_def split: if_splits dest!: map_of_SomeD)
    moreover have "filter (\<lambda>e. snd e \<noteq> p) t = t"
      using Cons.prems(1) e True by (auto simp: table_ok_def filter_id_conv)
    moreover have "map_of t k = None"
      using Cons.prems(1) e \<open>k' = k\<close> by (auto simp: table_ok_def map_of_eq_None_iff)
    ultimately show ?thesis using e True by (auto simp: fun_eq_iff)
  next
    case False
    then have "k' \<noteq> k" using Cons.prems(2) e by auto
    with False Cons e show ?thesis by (auto simp: table_ok_def fun_eq_iff)
  qed
qed

lemma table_inj: "table_ok t \<Longrightarrow> (k, p) \<in> set t \<Longrightarrow> (k', p) \<in> set t \<Longrightarrow> k = k'"
  by (force simp: table_ok_def distinct_map inj_on_def)

interpretation uth: key_index HASH_FIND HASH_ADD HASH_DEL table_ok
proof unfold_locales
  fix t :: "'p hash_table" and k k' p
  show "HASH_FIND t k = None \<Longrightarrow> HASH_FIND (HASH_ADD t k p) = (HASH_FIND t)(k \<mapsto> p)"
    by (simp add: HASH_FIND_def HASH_ADD_def fun_eq_iff)
  show "table_ok t \<Longrightarrow> HASH_FIND t k = None \<Longrightarrow> p \<notin> ran (HASH_FIND t) \<Longrightarrow> table_ok (HASH_ADD t k p)"
    by (auto simp: HASH_FIND_def HASH_ADD_def table_ok_def map_of_eq_None_iff ran_def)
  show "\<exists>t'. HASH_DEL t p = Some t' \<and> table_ok t' \<and> HASH_FIND t' = (HASH_FIND t)(k := None)"
    if "table_ok t" "HASH_FIND t k = Some p"
  proof -
    have "p \<in> snd ` set t"
      using that(2) by (force simp: HASH_FIND_def dest: map_of_SomeD)
    moreover have "table_ok (filter (\<lambda>e. snd e \<noteq> p) t)"
      using that(1) by (auto simp: table_ok_def distinct_map_filter)
    moreover have "HASH_FIND (filter (\<lambda>e. snd e \<noteq> p) t) = (HASH_FIND t)(k := None)"
      using map_of_filter_snd [OF that(1)] that(2) by (auto simp: HASH_FIND_def fun_eq_iff)
    ultimately show ?thesis by (simp add: HASH_DEL_def)
  qed
  show "k = k'" if "table_ok t" "HASH_FIND t k = Some p" "HASH_FIND t k' = Some p"
    using that table_inj [OF that(1)] by (auto simp: HASH_FIND_def dest!: map_of_SomeD)
qed

end
