(* ===== verification/FB_Completion.thy ===== *)
theory FB_Completion
  imports FB_Prelude
begin

text \<open>
  The locks of the driver. The sources lock with the kernel's \<open>struct completion\<close>:
  \<open>wait_for_completion\<close> then \<open>reinit_completion\<close> to acquire, \<open>complete\<close> to release. A completion
  is its \<open>done\<close> counter: waiting consumes one \<open>complete\<close> and blocks (here \<open>None\<close>) while there is
  none, \<open>reinit_completion\<close> resets the counter.
\<close>

type_synonym completion = nat

definition wait_for_completion :: "completion \<Rightarrow> completion option" where
  "wait_for_completion c = (if c = 0 then None else Some (c - 1))"

definition reinit_completion :: "completion \<Rightarrow> completion" where
  "reinit_completion c = 0"

definition complete :: "completion \<Rightarrow> completion" where
  "complete c = c + 1"

definition acquire :: "completion \<Rightarrow> completion option" where
  "acquire c = map_option reinit_completion (wait_for_completion c)"

lemma acquire_free [simp]: "acquire (Suc 0) = Some 0"
  by (simp add: acquire_def wait_for_completion_def reinit_completion_def)

lemma acquire_held [simp]: "acquire 0 = None"
  by (simp add: acquire_def wait_for_completion_def)

lemma complete_held [simp]: "complete 0 = Suc 0"
  by (simp add: complete_def)

end
