(* ===== verification/FB_Write_Buffer.thy ===== *)
theory FB_Write_Buffer
  imports FB_Config FB_Utlist FB_Hash FB_Completion
begin

text \<open>
  The write buffer, \<open>write_buffer.c\<close>: a fixed set of page entries, each on exactly one of the
  lists \<open>free_pgs\<close>, \<open>buf_pgs\<close> and \<open>writing_pgs\<close>, and a hash table from logical addresses to
  the entries that hold them. An entry is named by its number; its \<open>prev\<close>/\<open>next\<close> links are the
  lists themselves. Every operation refines a finite map from logical addresses to page
  contents, \<open>wb_view\<close>.
\<close>

section \<open>Data and list helpers\<close>

type_synonym wbptr = nat

record fb_wb_pg =
  wbp_lpa :: u32
  wbp_data :: lpdata
  wflag :: int

record fb_wb =
  pg_size :: u32
  wb_nr_entries :: u32
  free_pgs :: "wbptr list"
  writing_pgs :: "wbptr list"
  buf_pgs :: "wbptr list"
  hash_pgs :: "wbptr hash_table"
  wb_pgs :: "wbptr \<Rightarrow> fb_wb_pg"
  pg_buf :: "lpdata list"
  wb_lock :: completion

definition fb_wb_set_free_pg :: "fb_wb \<Rightarrow> wbptr \<Rightarrow> fb_wb option" where
  "fb_wb_set_free_pg wb wb_pg = do {
     xs \<leftarrow> list_append (free_pgs wb) wb_pg; Some (wb\<lparr>free_pgs := xs\<rparr>) }"

definition fb_wb_reset_free_pg :: "fb_wb \<Rightarrow> wbptr \<Rightarrow> fb_wb option" where
  "fb_wb_reset_free_pg wb wb_pg = do {
     xs \<leftarrow> list_delete (free_pgs wb) wb_pg; Some (wb\<lparr>free_pgs := xs\<rparr>) }"

definition fb_wb_set_writing_pg :: "fb_wb \<Rightarrow> wbptr \<Rightarrow> fb_wb option" where
  "fb_wb_set_writing_pg wb wb_pg = do {
     xs \<leftarrow> list_append (writing_pgs wb) wb_pg;
     Some (wb\<lparr>writing_pgs := xs,
       wb_pgs := (wb_pgs wb)(wb_pg := (wb_pgs wb wb_pg)\<lparr>wflag := 1\<rparr>)\<rparr>) }"

definition fb_wb_reset_writing_pg :: "fb_wb \<Rightarrow> wbptr \<Rightarrow> fb_wb option" where
  "fb_wb_reset_writing_pg wb wb_pg = do {
     xs \<leftarrow> list_delete (writing_pgs wb) wb_pg;
     Some (wb\<lparr>writing_pgs := xs,
       wb_pgs := (wb_pgs wb)(wb_pg := (wb_pgs wb wb_pg)\<lparr>wflag := 0\<rparr>)\<rparr>) }"

definition fb_wb_set_buf_pg :: "fb_wb \<Rightarrow> wbptr \<Rightarrow> (u32 \<times> fb_wb) option" where
  "fb_wb_set_buf_pg wb wb_pg = do {
     xs \<leftarrow> list_append (buf_pgs wb) wb_pg;
     let n = wb_nr_entries wb + 1;
     Some (n, wb\<lparr>buf_pgs := xs, wb_nr_entries := n\<rparr>) }"

definition fb_wb_get_buf_pg :: "fb_wb \<Rightarrow> u32 \<Rightarrow> wbptr option" where
  "fb_wb_get_buf_pg wb lpa = HASH_FIND (hash_pgs wb) lpa"

definition fb_wb_reset_buf_pg :: "fb_wb \<Rightarrow> wbptr \<Rightarrow> (u32 \<times> fb_wb) option" where
  "fb_wb_reset_buf_pg wb wb_pg = do {
     xs \<leftarrow> list_delete (buf_pgs wb) wb_pg;
     let n = wb_nr_entries wb - 1;
     Some (n, wb\<lparr>buf_pgs := xs, wb_nr_entries := n\<rparr>) }"

section \<open>Creation\<close>

text \<open>
  \<open>fb_create_write_buffer\<close> when every allocation succeeds; \<open>junk\<close> and \<open>junk_buf\<close>
  are the previous contents of the allocated memory. The entry allocated in round \<open>i\<close> is entry \<open>i\<close>.
\<close>

definition fb_create_wb_entry :: "fb_wb_pg \<Rightarrow> fb_wb_pg" where
  "fb_create_wb_entry junk = junk\<lparr>wbp_lpa := -1, wflag := 0\<rparr>"

definition fb_create_write_buffer ::
  "fb_wb \<Rightarrow> (nat \<Rightarrow> lpdata) \<Rightarrow> u32 \<Rightarrow> u32 \<Rightarrow> fb_wb option" where
  "fb_create_write_buffer junk junk_buf nr_max_entries pg_sz = do {
     let wb = junk\<lparr>pg_size := pg_sz, wb_nr_entries := 0, free_pgs := [], writing_pgs := [],
       buf_pgs := [], hash_pgs := []\<rparr>;
     wb \<leftarrow> foldM (\<lambda>i wb.
         fb_wb_set_free_pg
           (wb\<lparr>wb_pgs := (wb_pgs wb)(unat i := fb_create_wb_entry (wb_pgs wb (unat i)))\<rparr>) (unat i))
       (words_below nr_max_entries) wb;
     Some (wb\<lparr>pg_buf := map junk_buf [0..<NR_LP_IN_PP], wb_lock := complete 0\<rparr>) }"

section \<open>Operations\<close>

definition fb_get_nr_pgs_in_wb :: "fb_wb \<Rightarrow> bool \<Rightarrow> (u32 \<times> fb_wb) option" where
  "fb_get_nr_pgs_in_wb wb lock = do {
     wb \<leftarrow> (if lock then map_option (\<lambda>c. wb\<lparr>wb_lock := c\<rparr>) (acquire (wb_lock wb)) else Some wb);
     let ret = wb_nr_entries wb;
     Some (ret, if lock then wb\<lparr>wb_lock := complete (wb_lock wb)\<rparr> else wb) }"

text \<open>\<open>dest\<close> is the page \<open>fb_get_pg_data\<close> may overwrite; its contents are part of the result.\<close>

definition fb_get_pg_data :: "fb_wb \<Rightarrow> u32 \<Rightarrow> lpdata \<Rightarrow> (int \<times> lpdata \<times> fb_wb) option" where
  "fb_get_pg_data wb lpa dest = do {
     c \<leftarrow> acquire (wb_lock wb);
     let wb = wb\<lparr>wb_lock := c\<rparr>;
     let (ret, dest) = (case fb_wb_get_buf_pg wb lpa of
         Some wb_pg \<Rightarrow> (0, wbp_data (wb_pgs wb wb_pg))
       | None \<Rightarrow> (-1, dest));
     Some (ret, dest, wb\<lparr>wb_lock := complete (wb_lock wb)\<rparr>) }"

text \<open>Round \<open>i\<close> of the loop of \<open>fb_get_pgs_to_write\<close>, on the output arrays and the buffer.\<close>

definition take_one_pg ::
  "u32 \<Rightarrow> u32 list \<times> lpdata list \<times> fb_wb \<Rightarrow> (u32 list \<times> lpdata list \<times> fb_wb) option" where
  "take_one_pg i st = (case st of (lpas, dest, wb) \<Rightarrow> do {
     wb_pg \<leftarrow> list_head (buf_pgs wb);
     (_, wb) \<leftarrow> fb_wb_reset_buf_pg wb wb_pg;
     wb \<leftarrow> fb_wb_set_writing_pg wb wb_pg;
     if unat i < length dest \<and> unat i < length lpas
     then Some (lpas[unat i := wbp_lpa (wb_pgs wb wb_pg)],
       dest[unat i := wbp_data (wb_pgs wb wb_pg)], wb)
     else None })"

definition fb_get_pgs_to_write ::
  "fb_wb \<Rightarrow> u32 \<Rightarrow> u32 list \<Rightarrow> lpdata list \<Rightarrow> (int \<times> u32 list \<times> lpdata list \<times> fb_wb) option" where
  "fb_get_pgs_to_write wb nr_pgs lpas dest = do {
     c \<leftarrow> acquire (wb_lock wb);
     let wb = wb\<lparr>wb_lock := c\<rparr>;
     (n, wb) \<leftarrow> fb_get_nr_pgs_in_wb wb False;
     (ret, lpas, dest, wb) \<leftarrow>
       (if nr_pgs \<le> n
        then map_option (\<lambda>st. (0, st)) (foldM take_one_pg (words_below nr_pgs) (lpas, dest, wb))
        else Some (-1, lpas, dest, wb));
     Some (ret, lpas, dest, wb\<lparr>wb_lock := complete (wb_lock wb)\<rparr>) }"

definition fb_put_pg :: "fb_wb \<Rightarrow> u32 \<Rightarrow> lpdata \<Rightarrow> (int \<times> fb_wb) option" where
  "fb_put_pg wb lpa src =
     (case (case fb_wb_get_buf_pg wb lpa of
         None \<Rightarrow>
           (case list_head (free_pgs wb) of
              None \<Rightarrow> Inl (-1)
            | Some wb_pg \<Rightarrow> Inr (do {
                wb \<leftarrow> fb_wb_reset_free_pg wb wb_pg;
                let wb = wb\<lparr>wb_pgs := (wb_pgs wb)(wb_pg := (wb_pgs wb wb_pg)\<lparr>wbp_lpa := lpa\<rparr>)\<rparr>;
                Some (wb_pg, wb\<lparr>hash_pgs := HASH_ADD (hash_pgs wb) lpa wb_pg\<rparr>) }))
       | Some wb_pg \<Rightarrow>
           if wflag (wb_pgs wb wb_pg) \<noteq> 0
           then Inr (map_option (\<lambda>wb. (wb_pg, wb)) (fb_wb_reset_writing_pg wb wb_pg))
           else Inr (map_option (\<lambda>(_, wb). (wb_pg, wb)) (fb_wb_reset_buf_pg wb wb_pg)))
      of Inl e \<Rightarrow> Some (e, wb)
       | Inr found \<Rightarrow> do {
           (wb_pg, wb) \<leftarrow> found;
           let wb = wb\<lparr>wb_pgs := (wb_pgs wb)(wb_pg := (wb_pgs wb wb_pg)\<lparr>wbp_data := src\<rparr>)\<rparr>;
           (_, wb) \<leftarrow> fb_wb_set_buf_pg wb wb_pg;
           Some (0, wb) })"

text \<open>The endless loop that empties the writing list; \<open>None\<close> is a fault or no end.\<close>

partial_function (option) fb_rm_written_pgs :: "fb_wb \<Rightarrow> fb_wb option" where
  "fb_rm_written_pgs wb =
     (case list_head (writing_pgs wb) of
        None \<Rightarrow> Some wb
      | Some wb_pg \<Rightarrow> do {
          wb \<leftarrow> fb_wb_reset_writing_pg wb wb_pg;
          t \<leftarrow> HASH_DEL (hash_pgs wb) wb_pg;
          wb \<leftarrow> fb_wb_set_free_pg (wb\<lparr>hash_pgs := t\<rparr>) wb_pg;
          fb_rm_written_pgs wb })"

declare fb_rm_written_pgs.simps [code]

definition fb_rm_buf_pg :: "fb_wb \<Rightarrow> u32 \<Rightarrow> fb_wb option" where
  "fb_rm_buf_pg wb lpa =
     (case fb_wb_get_buf_pg wb lpa of
        None \<Rightarrow> Some wb
      | Some wb_pg \<Rightarrow> do {
          wb \<leftarrow> (if wflag (wb_pgs wb wb_pg) \<noteq> 0 then fb_wb_reset_writing_pg wb wb_pg
                 else map_option snd (fb_wb_reset_buf_pg wb wb_pg));
          t \<leftarrow> HASH_DEL (hash_pgs wb) wb_pg;
          fb_wb_set_free_pg (wb\<lparr>hash_pgs := t\<rparr>) wb_pg })"

section \<open>Invariant and abstraction\<close>

definition wb_wf :: "nat \<Rightarrow> fb_wb \<Rightarrow> bool" where
  "wb_wf n wb \<longleftrightarrow> n < 2 ^ 32 \<and>
     distinct (free_pgs wb @ writing_pgs wb @ buf_pgs wb) \<and>
     set (free_pgs wb) \<union> set (writing_pgs wb) \<union> set (buf_pgs wb) = {..<n} \<and>
     wb_nr_entries wb = of_nat (length (buf_pgs wb)) \<and>
     table_ok (hash_pgs wb) \<and>
     (\<forall>k p. HASH_FIND (hash_pgs wb) k = Some p \<longleftrightarrow>
        p \<in> set (writing_pgs wb) \<union> set (buf_pgs wb) \<and> wbp_lpa (wb_pgs wb p) = k) \<and>
     (\<forall>p \<in> set (writing_pgs wb). wflag (wb_pgs wb p) \<noteq> 0) \<and>
     (\<forall>p \<in> set (buf_pgs wb) \<union> set (free_pgs wb). wflag (wb_pgs wb p) = 0) \<and>
     wb_lock wb = 1 \<and> length (pg_buf wb) = NR_LP_IN_PP"

definition wb_view :: "fb_wb \<Rightarrow> u32 \<rightharpoonup> lpdata" where
  "wb_view wb lpa = map_option (\<lambda>p. wbp_data (wb_pgs wb p)) (HASH_FIND (hash_pgs wb) lpa)"

text \<open>The logical addresses waiting to be written, oldest first.\<close>

definition buf_lpas :: "fb_wb \<Rightarrow> u32 list" where
  "buf_lpas wb = map (\<lambda>p. wbp_lpa (wb_pgs wb p)) (buf_pgs wb)"

definition writing_lpas :: "fb_wb \<Rightarrow> u32 list" where
  "writing_lpas wb = map (\<lambda>p. wbp_lpa (wb_pgs wb p)) (writing_pgs wb)"

lemma wb_wfD:
  assumes "wb_wf n wb"
  shows "n < 2 ^ 32" "distinct (free_pgs wb)" "distinct (writing_pgs wb)" "distinct (buf_pgs wb)"
    "set (free_pgs wb) \<inter> set (writing_pgs wb) = {}" "set (free_pgs wb) \<inter> set (buf_pgs wb) = {}"
    "set (writing_pgs wb) \<inter> set (buf_pgs wb) = {}"
    "set (free_pgs wb) \<union> set (writing_pgs wb) \<union> set (buf_pgs wb) = {..<n}"
    "wb_nr_entries wb = of_nat (length (buf_pgs wb))" "table_ok (hash_pgs wb)"
    "HASH_FIND (hash_pgs wb) k = Some p \<longleftrightarrow>
        p \<in> set (writing_pgs wb) \<union> set (buf_pgs wb) \<and> wbp_lpa (wb_pgs wb p) = k"
    "p \<in> set (writing_pgs wb) \<Longrightarrow> wflag (wb_pgs wb p) \<noteq> 0"
    "p \<in> set (buf_pgs wb) \<Longrightarrow> wflag (wb_pgs wb p) = 0"
    "p \<in> set (free_pgs wb) \<Longrightarrow> wflag (wb_pgs wb p) = 0"
    "wb_lock wb = 1" "length (pg_buf wb) = NR_LP_IN_PP"
  using assms by (auto simp: wb_wf_def)

lemma wb_ran:
  assumes "wb_wf n wb"
  shows "ran (HASH_FIND (hash_pgs wb)) = set (writing_pgs wb) \<union> set (buf_pgs wb)"
  using wb_wfD(11) [OF assms] by (auto simp: ran_def)

lemma wb_buf_le:
  assumes "wb_wf n wb"
  shows "length (buf_pgs wb) \<le> n" "unat (wb_nr_entries wb) = length (buf_pgs wb)"
proof -
  have "card (set (buf_pgs wb)) \<le> card {..<n}"
    by (rule card_mono) (use wb_wfD(8) [OF assms] in auto)
  then show l: "length (buf_pgs wb) \<le> n"
    using wb_wfD(4) [OF assms] by (simp add: distinct_card)
  then show "unat (wb_nr_entries wb) = length (buf_pgs wb)"
    using wb_wfD(1,9) [OF assms] by (simp add: unat_of_nat_u32)
qed

lemma wb_view_store:
  assumes "HASH_FIND (hash_pgs wb') = (HASH_FIND (hash_pgs wb))(lpa \<mapsto> p)"
    and "wbp_data (wb_pgs wb' p) = src"
    and "\<And>k q. k \<noteq> lpa \<Longrightarrow> HASH_FIND (hash_pgs wb) k = Some q \<Longrightarrow>
      wbp_data (wb_pgs wb' q) = wbp_data (wb_pgs wb q)"
  shows "wb_view wb' = (wb_view wb)(lpa \<mapsto> src)"
proof
  fix k
  show "wb_view wb' k = ((wb_view wb)(lpa \<mapsto> src)) k"
    using assms by (cases "HASH_FIND (hash_pgs wb) k") (auto simp: wb_view_def)
qed

section \<open>Creating the buffer\<close>

lemma HASH_FIND_Nil [simp]: "HASH_FIND [] k = None"
  by (simp add: HASH_FIND_def)

lemma wb_create_wf:
  "\<exists>wb. fb_create_write_buffer junk junk_buf m sz = Some wb \<and> wb_wf (unat m) wb \<and>
     wb_view wb = Map.empty \<and> writing_pgs wb = [] \<and> buf_pgs wb = []"
proof -
  let ?I = "\<lambda>done wb. free_pgs wb = map unat done \<and> writing_pgs wb = [] \<and> buf_pgs wb = [] \<and>
    hash_pgs wb = [] \<and> wb_nr_entries wb = 0 \<and> (\<forall>i \<in> set done. wflag (wb_pgs wb (unat i)) = 0)"
  let ?f = "\<lambda>i wb. fb_wb_set_free_pg
      (wb\<lparr>wb_pgs := (wb_pgs wb)(unat i := fb_create_wb_entry (wb_pgs wb (unat i)))\<rparr>) (unat i)"
  let ?wb = "junk\<lparr>pg_size := sz, wb_nr_entries := 0, free_pgs := [], writing_pgs := [],
       buf_pgs := [], hash_pgs := []\<rparr>"
  have "\<exists>wb. foldM ?f (words_below m) ?wb = Some wb \<and> ?I (words_below m) wb"
  proof (rule foldM_rule [where I = ?I])
    show "?I [] ?wb" by simp
    fix "done" x rest and wb :: fb_wb
    assume l: "words_below m = done @ x # rest" and I: "?I done wb"
    have "x \<notin> set done" using distinct_words_below [of m] unfolding l by simp
    then show "\<exists>wb'. ?f x wb = Some wb' \<and> ?I (done @ [x]) wb'"
      using I by (auto simp: fb_wb_set_free_pg_def list_append_def fb_create_wb_entry_def
          simp flip: word_unat_eq_iff)
  qed
  then obtain wb where wb: "foldM ?f (words_below m) ?wb = Some wb" "?I (words_below m) wb"
    by blast
  have "unat ` {w. w < m} = {..<unat m}"
    by (auto simp: word_less_nat_alt image_iff) (metis unat_of_nat_below)
  moreover have "distinct (map unat (words_below m))"
    by (simp add: distinct_map inj_on_def flip: word_unat_eq_iff)
  moreover have "unat m < 2 ^ 32" using unsigned_less [of m, where ?'a = nat] by simp
  moreover have "wflag (wb_pgs wb p) = 0" if "p < unat m" for p
    using wb(2) unat_of_nat_below [OF that] that
    by (metis (no_types, lifting) mem_Collect_eq set_words_below word_less_nat_alt)
  ultimately show ?thesis
    using wb by (auto simp: fb_create_write_buffer_def wb_wf_def table_ok_def wb_view_def
        NR_LP_IN_PP_def)
qed

section \<open>Reading\<close>

lemma wb_get_pg_data:
  assumes "wb_wf n wb"
  shows "fb_get_pg_data wb lpa dest =
    Some (case wb_view wb lpa of Some d \<Rightarrow> (0, d, wb) | None \<Rightarrow> (-1, dest, wb))"
  using wb_wfD(15) [OF assms]
  by (auto simp: fb_get_pg_data_def wb_view_def fb_wb_get_buf_pg_def split: option.splits)

section \<open>Storing a page\<close>

text \<open>
  The entry chosen for the page ends at the tail of \<open>buf_pgs\<close>, whatever list it came from; the
  lemma covers the three ways \<open>fb_put_pg\<close> finds it.
\<close>

lemma put_new:
  assumes wf: "wb_wf n wb" and none: "wb_view wb lpa = None" and free: "free_pgs wb = p # rest"
  shows "\<exists>wb'. fb_put_pg wb lpa src = Some (0, wb') \<and> wb_wf n wb' \<and>
    wb_view wb' = (wb_view wb)(lpa \<mapsto> src) \<and> buf_lpas wb' = buf_lpas wb @ [lpa] \<and>
    writing_pgs wb' = writing_pgs wb \<and> free_pgs wb' = rest"
proof -
  note D = wb_wfD [OF wf]
  let ?wb = "wb\<lparr>free_pgs := rest,
      wb_pgs := (wb_pgs wb)(p := (wb_pgs wb p)\<lparr>wbp_lpa := lpa, wbp_data := src\<rparr>),
      hash_pgs := HASH_ADD (hash_pgs wb) lpa p, buf_pgs := buf_pgs wb @ [p],
      wb_nr_entries := wb_nr_entries wb + 1\<rparr>"
  have nf: "HASH_FIND (hash_pgs wb) lpa = None" using none by (simp add: wb_view_def)
  have p: "p \<notin> set (writing_pgs wb)" "p \<notin> set (buf_pgs wb)" "p \<notin> set rest" "distinct rest"
    using D(2,5,6) free by auto
  have pr: "p \<notin> ran (HASH_FIND (hash_pgs wb))" using p wb_ran [OF wf] by simp
  have eq: "fb_put_pg wb lpa src = Some (0, ?wb)"
    using nf free p by (cases wb) (simp add: fb_put_pg_def fb_wb_get_buf_pg_def
        fb_wb_reset_free_pg_def list_delete_def list_append_def fb_wb_set_buf_pg_def Let_def)
  note find = uth.find_add [OF D(10) nf, of p]
  have "wb_wf n ?wb"
    unfolding wb_wf_def
  proof (intro conjI)
    show "table_ok (hash_pgs ?wb)" using uth.ok_add [OF D(10) nf pr] by simp
    show "\<forall>k q. HASH_FIND (hash_pgs ?wb) k = Some q \<longleftrightarrow>
        q \<in> set (writing_pgs ?wb) \<union> set (buf_pgs ?wb) \<and> wbp_lpa (wb_pgs ?wb q) = k"
    proof (intro allI)
      fix k q
      have "wbp_lpa (wb_pgs wb q) \<noteq> lpa" if "q \<in> set (writing_pgs wb) \<union> set (buf_pgs wb)"
        using that D(11) [of lpa q] nf by auto
      then show "HASH_FIND (hash_pgs ?wb) k = Some q \<longleftrightarrow>
          q \<in> set (writing_pgs ?wb) \<union> set (buf_pgs ?wb) \<and> wbp_lpa (wb_pgs ?wb q) = k"
        using p nf D(11) [of k q] by (auto simp: find)
    qed
    show "set (free_pgs ?wb) \<union> set (writing_pgs ?wb) \<union> set (buf_pgs ?wb) = {..<n}"
      using D(8) free by auto
  qed (use D free p in auto)
  moreover have "wb_view ?wb = (wb_view wb)(lpa \<mapsto> src)"
  proof (rule wb_view_store)
    show "HASH_FIND (hash_pgs ?wb) = (HASH_FIND (hash_pgs wb))(lpa \<mapsto> p)" by (simp add: find)
    fix k q assume "HASH_FIND (hash_pgs wb) k = Some q"
    then have "q \<noteq> p" using pr by (auto simp: ran_def)
    then show "wbp_data (wb_pgs ?wb q) = wbp_data (wb_pgs wb q)" by simp
  qed simp
  moreover have "buf_lpas ?wb = buf_lpas wb @ [lpa]"
    using p by (auto simp: buf_lpas_def)
  ultimately show ?thesis using eq by auto
qed

lemma map_lpas_remove1:
  assumes "p \<in> set ps" "inj_on f (set ps)" "distinct ps"
  shows "map f (remove1 p ps) = remove1 (f p) (map f ps)"
  using assms by (induction ps) (auto simp: inj_on_def)

lemma wb_lpa_inj:
  assumes "wb_wf n wb"
  shows "inj_on (\<lambda>p. wbp_lpa (wb_pgs wb p)) (set (writing_pgs wb) \<union> set (buf_pgs wb))"
proof (rule inj_onI)
  fix p q
  assume a: "p \<in> set (writing_pgs wb) \<union> set (buf_pgs wb)"
    "q \<in> set (writing_pgs wb) \<union> set (buf_pgs wb)" "wbp_lpa (wb_pgs wb p) = wbp_lpa (wb_pgs wb q)"
  then have "HASH_FIND (hash_pgs wb) (wbp_lpa (wb_pgs wb p)) = Some p"
    "HASH_FIND (hash_pgs wb) (wbp_lpa (wb_pgs wb p)) = Some q"
    using wb_wfD(11) [OF assms] by auto
  then show "p = q" by simp
qed

lemma put_again:
  assumes wf: "wb_wf n wb" and old: "wb_view wb lpa = Some d"
  shows "\<exists>wb'. fb_put_pg wb lpa src = Some (0, wb') \<and> wb_wf n wb' \<and>
    wb_view wb' = (wb_view wb)(lpa \<mapsto> src) \<and> buf_lpas wb' = remove1 lpa (buf_lpas wb) @ [lpa] \<and>
    set (writing_pgs wb') \<subseteq> set (writing_pgs wb) \<and> free_pgs wb' = free_pgs wb"
proof -
  note D = wb_wfD [OF wf]
  obtain p where p: "HASH_FIND (hash_pgs wb) lpa = Some p"
    using old by (auto simp: wb_view_def)
  then have pin: "p \<in> set (writing_pgs wb) \<union> set (buf_pgs wb)" and lpa: "wbp_lpa (wb_pgs wb p) = lpa"
    using D(11) by auto
  have data: "wb_view wb' = (wb_view wb)(lpa \<mapsto> src)"
    if "hash_pgs wb' = hash_pgs wb" "wbp_data (wb_pgs wb' p) = src"
      "\<And>q. q \<noteq> p \<Longrightarrow> wb_pgs wb' q = wb_pgs wb q" for wb' :: fb_wb
  proof (rule wb_view_store)
    show "HASH_FIND (hash_pgs wb') = (HASH_FIND (hash_pgs wb))(lpa \<mapsto> p)"
      using p that(1) by (auto simp: fun_eq_iff)
    fix k q assume "k \<noteq> lpa" "HASH_FIND (hash_pgs wb) k = Some q"
    then have "q \<noteq> p" using D(11) [of k q] lpa by auto
    then show "wbp_data (wb_pgs wb' q) = wbp_data (wb_pgs wb q)" using that(3) by simp
  qed (rule that(2))
  show ?thesis
  proof (cases "p \<in> set (writing_pgs wb)")
    case True
    then have nb: "p \<notin> set (buf_pgs wb)" and fl: "wflag (wb_pgs wb p) \<noteq> 0" "p \<notin> set (free_pgs wb)"
      using D(5,7,12) by auto
    let ?wb1 = "wb\<lparr>writing_pgs := remove1 p (writing_pgs wb),
        wb_pgs := (wb_pgs wb)(p := (wb_pgs wb p)\<lparr>wflag := 0\<rparr>)\<rparr>"
    let ?wb = "?wb1\<lparr>wb_pgs := (wb_pgs ?wb1)(p := (wb_pgs ?wb1 p)\<lparr>wbp_data := src\<rparr>),
        buf_pgs := buf_pgs wb @ [p], wb_nr_entries := wb_nr_entries wb + 1\<rparr>"
    have eq: "fb_put_pg wb lpa src = Some (0, ?wb)"
      using p True nb fl by (cases wb) (simp add: fb_put_pg_def fb_wb_get_buf_pg_def
          fb_wb_reset_writing_pg_def list_delete_def list_append_def fb_wb_set_buf_pg_def Let_def)
    have "wb_wf n ?wb"
      unfolding wb_wf_def
    proof (intro conjI)
      show "\<forall>k q. HASH_FIND (hash_pgs ?wb) k = Some q \<longleftrightarrow>
          q \<in> set (writing_pgs ?wb) \<union> set (buf_pgs ?wb) \<and> wbp_lpa (wb_pgs ?wb q) = k"
        using D(3,11) True by auto
      show "set (free_pgs ?wb) \<union> set (writing_pgs ?wb) \<union> set (buf_pgs ?wb) = {..<n}"
        using D(3,8) True by auto
    qed (use D nb fl in \<open>auto dest: notin_set_remove1\<close>)
    moreover have "wb_view ?wb = (wb_view wb)(lpa \<mapsto> src)"
      by (rule data) simp_all
    moreover have "lpa \<notin> set (buf_lpas wb)"
      using wb_lpa_inj [OF wf] True nb lpa by (force simp: buf_lpas_def inj_on_def)
    then have "buf_lpas ?wb = remove1 lpa (buf_lpas wb) @ [lpa]"
      using nb lpa by (auto simp: buf_lpas_def remove1_idem)
    ultimately show ?thesis using eq by (auto dest: set_remove1_subset [THEN subsetD])
  next
    case False
    then have nb: "p \<in> set (buf_pgs wb)" and fl: "wflag (wb_pgs wb p) = 0"
      using pin D(13) by auto
    let ?wb1 = "wb\<lparr>buf_pgs := remove1 p (buf_pgs wb), wb_nr_entries := wb_nr_entries wb - 1\<rparr>"
    let ?wb = "?wb1\<lparr>wb_pgs := (wb_pgs ?wb1)(p := (wb_pgs ?wb1 p)\<lparr>wbp_data := src\<rparr>),
        buf_pgs := remove1 p (buf_pgs wb) @ [p], wb_nr_entries := wb_nr_entries wb - 1 + 1\<rparr>"
    have np: "p \<notin> set (remove1 p (buf_pgs wb))" using D(4) by simp
    have eq: "fb_put_pg wb lpa src = Some (0, ?wb)"
      using p False nb fl np by (cases wb) (simp add: fb_put_pg_def fb_wb_get_buf_pg_def
          fb_wb_reset_buf_pg_def list_delete_def list_append_def fb_wb_set_buf_pg_def Let_def)
    have "wb_wf n ?wb"
      unfolding wb_wf_def
    proof (intro conjI)
      show "wb_nr_entries ?wb = of_nat (length (buf_pgs ?wb))"
        using D(9) length_pos_if_in_set [OF nb] by (simp add: length_remove1 nb of_nat_diff)
    qed (use D nb fl False in auto)
    moreover have "wb_view ?wb = (wb_view wb)(lpa \<mapsto> src)"
      by (rule data) simp_all
    moreover have "buf_lpas ?wb = remove1 lpa (buf_lpas wb) @ [lpa]"
    proof -
      have "map (\<lambda>q. wbp_lpa (wb_pgs ?wb q)) (remove1 p (buf_pgs wb)) =
          map (\<lambda>q. wbp_lpa (wb_pgs wb q)) (remove1 p (buf_pgs wb))"
        by (rule map_cong) simp_all
      also have "\<dots> = remove1 lpa (buf_lpas wb)"
        using map_lpas_remove1 [OF nb, of "\<lambda>p. wbp_lpa (wb_pgs wb p)"] wb_lpa_inj [OF wf] D(4) lpa
        by (simp add: buf_lpas_def inj_on_Un)
      finally show ?thesis using lpa by (simp add: buf_lpas_def)
    qed
    ultimately show ?thesis using eq by auto
  qed
qed

lemma put_full:
  assumes "wb_view wb lpa = None" "free_pgs wb = []"
  shows "fb_put_pg wb lpa src = Some (-1, wb)"
  using assms by (simp add: fb_put_pg_def fb_wb_get_buf_pg_def wb_view_def)

section \<open>Taking pages to write\<close>

text \<open>
  The lock is held in the loop of \<open>fb_get_pgs_to_write\<close>, so its lemmas speak of the buffer with
  the lock put back.
\<close>

definition taken :: "nat \<Rightarrow> nat \<Rightarrow> fb_wb \<Rightarrow> fb_wb \<Rightarrow> bool" where
  "taken n k wb wb' \<longleftrightarrow> wb_wf n (wb'\<lparr>wb_lock := 1\<rparr>) \<and> wb_lock wb' = wb_lock wb \<and>
     wb_view wb' = wb_view wb \<and> buf_lpas wb' = drop k (buf_lpas wb) \<and>
     writing_lpas wb' = writing_lpas wb @ take k (buf_lpas wb)"

lemma take_one:
  assumes wf: "wb_wf n (wb\<lparr>wb_lock := 1\<rparr>)" and buf: "buf_lpas wb \<noteq> []"
    and i: "unat i < length lpas" "unat i < length dest"
  shows "\<exists>wb'. take_one_pg i (lpas, dest, wb) = Some (lpas[unat i := hd (buf_lpas wb)],
      dest[unat i := the (wb_view wb (hd (buf_lpas wb)))], wb') \<and> taken n 1 wb wb'"
proof -
  note D = wb_wfD [OF wf, simplified]
  obtain p ps where p: "buf_pgs wb = p # ps" using buf by (cases "buf_pgs wb") (auto simp: buf_lpas_def)
  have np: "p \<notin> set (writing_pgs wb)" "p \<notin> set ps" "p \<notin> set (free_pgs wb)" using D(4,6,7) p by auto
  let ?wb = "wb\<lparr>buf_pgs := ps, wb_nr_entries := wb_nr_entries wb - 1,
      writing_pgs := writing_pgs wb @ [p],
      wb_pgs := (wb_pgs wb)(p := (wb_pgs wb p)\<lparr>wflag := 1\<rparr>)\<rparr>"
  have find: "HASH_FIND (hash_pgs wb) (wbp_lpa (wb_pgs wb p)) = Some p"
    using D(11) p by auto
  have "take_one_pg i (lpas, dest, wb) = Some (lpas[unat i := wbp_lpa (wb_pgs wb p)],
      dest[unat i := wbp_data (wb_pgs wb p)], ?wb)"
    using p np i by (cases wb) (simp add: take_one_pg_def list_head_def fb_wb_reset_buf_pg_def
        fb_wb_set_writing_pg_def list_delete_def list_append_def Let_def)
  moreover have "wb_wf n (?wb\<lparr>wb_lock := 1\<rparr>)"
    unfolding wb_wf_def using D p np by (auto simp: wb_wf_def)
  moreover have "wb_view ?wb = wb_view wb"
    by (auto simp: wb_view_def fun_eq_iff map_option_case split: option.splits)
  moreover have "buf_lpas ?wb = drop 1 (buf_lpas wb)" "hd (buf_lpas wb) = wbp_lpa (wb_pgs wb p)"
    using p np by (auto simp: buf_lpas_def)
  moreover have "writing_lpas ?wb = writing_lpas wb @ take 1 (buf_lpas wb)"
    using p np by (auto simp: buf_lpas_def writing_lpas_def)
  ultimately show ?thesis using find by (auto simp: taken_def wb_view_def)
qed

lemma taken_trans: "taken n j wb wb' \<Longrightarrow> taken n k wb' wb'' \<Longrightarrow> taken n (j + k) wb wb''"
  by (auto simp: taken_def take_add add.commute)

lemma take_loop:
  assumes wf: "wb_wf n (wb\<lparr>wb_lock := 1\<rparr>)"
    and m: "unat m \<le> length (buf_lpas wb)" "unat m \<le> length lpas" "unat m \<le> length dest"
  shows "\<exists>wb'. foldM take_one_pg (words_below m) (lpas, dest, wb) =
      Some (take (unat m) (buf_lpas wb) @ drop (unat m) lpas,
        map (\<lambda>l. the (wb_view wb l)) (take (unat m) (buf_lpas wb)) @ drop (unat m) dest, wb') \<and>
    taken n (unat m) wb wb'"
proof -
  let ?ls = "\<lambda>k. take k (buf_lpas wb) @ drop k lpas"
  let ?ds = "\<lambda>k. map (\<lambda>l. the (wb_view wb l)) (take k (buf_lpas wb)) @ drop k dest"
  let ?I = "\<lambda>done st. \<exists>wb'. st = (?ls (length done), ?ds (length done), wb') \<and>
    taken n (length done) wb wb'"
  have "\<exists>st. foldM take_one_pg (words_below m) (lpas, dest, wb) = Some st \<and> ?I (words_below m) st"
  proof (rule foldM_rule [where I = ?I])
    show "?I [] (lpas, dest, wb)" using wf by (simp add: taken_def)
  next
    fix "done" x rest st
    assume l: "words_below m = done @ x # rest" and I: "?I done st"
    define k where "k = length done"
    have k: "k < unat m" using arg_cong [OF l, of length] by (simp add: k_def)
    have x: "unat x = k"
      using arg_cong [OF l, of "\<lambda>l. unat (l ! k)"] k
      by (simp add: nth_words_below unat_of_nat_below k_def)
    from I obtain wb' where st: "st = (?ls k, ?ds k, wb')" and t: "taken n k wb wb'"
      by (auto simp: k_def)
    have b: "buf_lpas wb' = drop k (buf_lpas wb)" "wb_view wb' = wb_view wb"
      "wb_wf n (wb'\<lparr>wb_lock := 1\<rparr>)" using t by (simp_all add: taken_def)
    have hd: "hd (buf_lpas wb') = buf_lpas wb ! k" using b(1) k m by (simp add: hd_drop_conv_nth)
    have "\<exists>wb''. take_one_pg x (?ls k, ?ds k, wb') = Some ((?ls k)[k := hd (buf_lpas wb')],
        (?ds k)[k := the (wb_view wb' (hd (buf_lpas wb')))], wb'') \<and> taken n 1 wb' wb''"
      using take_one [OF b(3), of x "?ls k" "?ds k"] b(1) k m by (simp add: x)
    then obtain wb'' where wb'': "take_one_pg x st = Some ((?ls k)[k := buf_lpas wb ! k],
        (?ds k)[k := the (wb_view wb (buf_lpas wb ! k))], wb'')" "taken n 1 wb' wb''"
      using st hd b(2) by auto
    have "(?ls k)[k := buf_lpas wb ! k] = ?ls (Suc k)"
      "(?ds k)[k := the (wb_view wb (buf_lpas wb ! k))] = ?ds (Suc k)"
      using k m by (auto simp: list_update_append take_Suc_conv_app_nth
          Cons_nth_drop_Suc [symmetric])
    then show "\<exists>st'. take_one_pg x st = Some st' \<and> ?I (done @ [x]) st'"
      using wb'' taken_trans [OF t wb''(2)] by (auto simp: k_def)
  qed
  then show ?thesis by simp
qed

lemma wb_get_pgs:
  assumes wf: "wb_wf n wb"
    and m: "unat m \<le> length (buf_lpas wb)" "unat m \<le> length lpas" "unat m \<le> length dest"
  shows "\<exists>wb'. fb_get_pgs_to_write wb m lpas dest =
      Some (0, take (unat m) (buf_lpas wb) @ drop (unat m) lpas,
        map (\<lambda>l. the (wb_view wb l)) (take (unat m) (buf_lpas wb)) @ drop (unat m) dest, wb') \<and>
    taken n (unat m) wb wb' \<and> wb_wf n wb'"
proof -
  note D = wb_wfD [OF wf]
  let ?wb = "wb\<lparr>wb_lock := 0\<rparr>"
  have same: "buf_lpas ?wb = buf_lpas wb" "wb_view ?wb = wb_view wb" "?wb\<lparr>wb_lock := 1\<rparr> = wb"
    "writing_lpas ?wb = writing_lpas wb"
    using D(15) by (auto simp: buf_lpas_def wb_view_def fun_eq_iff writing_lpas_def)
  have "m \<le> wb_nr_entries wb"
    using m(1) wb_buf_le(2) [OF wf] by (simp add: word_le_nat_alt buf_lpas_def)
  moreover obtain wb' where wb': "foldM take_one_pg (words_below m) (lpas, dest, ?wb) =
      Some (take (unat m) (buf_lpas wb) @ drop (unat m) lpas,
        map (\<lambda>l. the (wb_view wb l)) (take (unat m) (buf_lpas wb)) @ drop (unat m) dest, wb')"
    "taken n (unat m) ?wb wb'"
    using take_loop [of n ?wb m lpas dest] wf m same by auto
  ultimately have "fb_get_pgs_to_write wb m lpas dest =
      Some (0, take (unat m) (buf_lpas wb) @ drop (unat m) lpas,
        map (\<lambda>l. the (wb_view wb l)) (take (unat m) (buf_lpas wb)) @ drop (unat m) dest,
        wb'\<lparr>wb_lock := 1\<rparr>)"
    using D(15) by (simp add: fb_get_pgs_to_write_def fb_get_nr_pgs_in_wb_def acquire_def
        wait_for_completion_def reinit_completion_def complete_def taken_def Let_def)
  then show ?thesis
    using wb'(2) same D(15) by (auto simp: taken_def buf_lpas_def wb_view_def writing_lpas_def fun_eq_iff)
qed

lemma wb_get_pgs_short:
  assumes "wb_wf n wb" "length (buf_lpas wb) < unat m"
  shows "fb_get_pgs_to_write wb m lpas dest = Some (-1, lpas, dest, wb)"
  using assms wb_wfD(15) [OF assms(1)] wb_buf_le(2) [OF assms(1)]
  by (simp add: fb_get_pgs_to_write_def fb_get_nr_pgs_in_wb_def acquire_def
        wait_for_completion_def reinit_completion_def complete_def word_le_nat_alt buf_lpas_def)

section \<open>Releasing pages\<close>

text \<open>An entry leaves its list and the hash table and goes to the tail of the free list.\<close>

definition release_pg :: "fb_wb \<Rightarrow> wbptr \<Rightarrow> fb_wb option" where
  "release_pg wb wb_pg = do {
     wb \<leftarrow> (if wflag (wb_pgs wb wb_pg) \<noteq> 0 then fb_wb_reset_writing_pg wb wb_pg
            else map_option snd (fb_wb_reset_buf_pg wb wb_pg));
     t \<leftarrow> HASH_DEL (hash_pgs wb) wb_pg;
     fb_wb_set_free_pg (wb\<lparr>hash_pgs := t\<rparr>) wb_pg }"

lemma of_nat_pred: "p \<in> set xs \<Longrightarrow> of_nat (length xs - Suc 0) = (of_nat (length xs) - 1 :: u32)"
  by (cases xs) auto

lemma wb_view_release:
  assumes "HASH_FIND (hash_pgs wb') = (HASH_FIND (hash_pgs wb))(lpa := None)"
    and "\<And>q. wbp_data (wb_pgs wb' q) = wbp_data (wb_pgs wb q)"
  shows "wb_view wb' = (wb_view wb)(lpa := None)"
  using assms by (auto simp: wb_view_def fun_eq_iff)

lemma release_pg:
  assumes wf: "wb_wf n wb" and find: "HASH_FIND (hash_pgs wb) lpa = Some p"
  shows "\<exists>wb'. release_pg wb p = Some wb' \<and> wb_wf n wb' \<and> wb_view wb' = (wb_view wb)(lpa := None) \<and>
    writing_pgs wb' = remove1 p (writing_pgs wb) \<and> buf_pgs wb' = remove1 p (buf_pgs wb) \<and>
    buf_lpas wb' = remove1 lpa (buf_lpas wb)"
proof -
  note D = wb_wfD [OF wf]
  have pin: "p \<in> set (writing_pgs wb) \<union> set (buf_pgs wb)" and lpa: "wbp_lpa (wb_pgs wb p) = lpa"
    using find D(11) by auto
  have pf: "p \<notin> set (free_pgs wb)" using pin D(5,6) by auto
  obtain t where t: "HASH_DEL (hash_pgs wb) p = Some t" "table_ok t"
    "HASH_FIND t = (HASH_FIND (hash_pgs wb))(lpa := None)"
    using uth.find_del [OF D(10) find] by blast
  have other: "HASH_FIND t k = Some q \<longleftrightarrow>
      q \<in> set (writing_pgs wb) \<union> set (buf_pgs wb) - {p} \<and> wbp_lpa (wb_pgs wb q) = k" for k q
    using D(11) [of k q] D(11) [of lpa q] find lpa by (auto simp: t(3))
  let ?p = "\<lambda>f. (wb_pgs wb)(p := (wb_pgs wb p)\<lparr>wflag := f\<rparr>)"
  let ?wb = "wb\<lparr>wb_nr_entries := wb_nr_entries wb - (if p \<in> set (buf_pgs wb) then 1 else 0),
      free_pgs := free_pgs wb @ [p], writing_pgs := remove1 p (writing_pgs wb),
      buf_pgs := remove1 p (buf_pgs wb), hash_pgs := t, wb_pgs := ?p 0\<rparr>"
  have fl0: "wbp_lpa (?p 0 q) = wbp_lpa (wb_pgs wb q)" "wbp_data (?p 0 q) = wbp_data (wb_pgs wb q)"
    for q by simp_all
  have "release_pg wb p = Some ?wb"
  proof (cases "p \<in> set (writing_pgs wb)")
    case True
    then have "p \<notin> set (buf_pgs wb)" "wflag (wb_pgs wb p) \<noteq> 0" using D(7,12) by auto
    then show ?thesis
      using True pf t(1) by (cases wb) (simp add: release_pg_def fb_wb_reset_writing_pg_def
          fb_wb_set_free_pg_def list_delete_def list_append_def remove1_idem)
  next
    case False
    then have b: "p \<in> set (buf_pgs wb)" "wflag (wb_pgs wb p) = 0" using pin D(13) by auto
    then have "?p 0 = wb_pgs wb" by (auto intro: fb_wb_pg.equality)
    then show ?thesis
      using False b pf t(1) by (cases wb) (simp add: release_pg_def fb_wb_reset_buf_pg_def
          fb_wb_set_free_pg_def list_delete_def list_append_def remove1_idem Let_def)
  qed
  moreover have "wb_wf n ?wb"
    unfolding wb_wf_def
  proof (intro conjI)
    show "wb_nr_entries ?wb = of_nat (length (buf_pgs ?wb))"
      by (auto simp: D(9) length_remove1 of_nat_pred)
    show "\<forall>k q. HASH_FIND (hash_pgs ?wb) k = Some q \<longleftrightarrow>
        q \<in> set (writing_pgs ?wb) \<union> set (buf_pgs ?wb) \<and> wbp_lpa (wb_pgs ?wb q) = k"
      using other D(3,4) by (auto simp: fl0 simp del: fun_upd_apply)
    show "set (free_pgs ?wb) \<union> set (writing_pgs ?wb) \<union> set (buf_pgs ?wb) = {..<n}"
      using D(3,4,8) pin by auto
    show "distinct (free_pgs ?wb @ writing_pgs ?wb @ buf_pgs ?wb)"
      using D(2-7) pf by (auto dest: set_remove1_subset [THEN subsetD])
  qed (use D(1,3,4,12-16) t(2) in \<open>auto dest: set_remove1_subset [THEN subsetD]\<close>)
  moreover have "wb_view ?wb = (wb_view wb)(lpa := None)"
    by (rule wb_view_release) (simp_all add: t(3))
  moreover have "buf_lpas ?wb = remove1 lpa (buf_lpas wb)"
  proof (cases "p \<in> set (buf_pgs wb)")
    case True
    then show ?thesis
      using map_lpas_remove1 [OF True, of "\<lambda>p. wbp_lpa (wb_pgs wb p)"] wb_lpa_inj [OF wf] D(4) lpa
      by (simp add: buf_lpas_def inj_on_Un fl0 del: fun_upd_apply)
  next
    case False
    then have "lpa \<notin> set (buf_lpas wb)"
      using wb_lpa_inj [OF wf] pin lpa by (force simp: buf_lpas_def inj_on_def)
    then show ?thesis using False by (simp add: buf_lpas_def fl0 remove1_idem del: fun_upd_apply)
  qed
  ultimately show ?thesis by simp
qed

lemma fb_rm_buf_pg_release:
  "fb_rm_buf_pg wb lpa =
    (case HASH_FIND (hash_pgs wb) lpa of None \<Rightarrow> Some wb | Some p \<Rightarrow> release_pg wb p)"
  by (simp add: fb_rm_buf_pg_def release_pg_def fb_wb_get_buf_pg_def split: option.splits)

lemma wb_rm_buf_pg:
  assumes "wb_wf n wb"
  shows "\<exists>wb'. fb_rm_buf_pg wb lpa = Some wb' \<and> wb_wf n wb' \<and>
    wb_view wb' = (wb_view wb)(lpa := None) \<and> buf_lpas wb' = remove1 lpa (buf_lpas wb) \<and>
    (writing_pgs wb = [] \<longrightarrow> writing_pgs wb' = [])"
proof (cases "HASH_FIND (hash_pgs wb) lpa")
  case None
  moreover have "lpa \<notin> set (buf_lpas wb)"
    using None wb_wfD(11) [OF assms, of lpa] by (auto simp: buf_lpas_def)
  ultimately show ?thesis
    using assms by (auto simp: fb_rm_buf_pg_release wb_view_def remove1_idem)
next
  case (Some p)
  then show ?thesis
    using release_pg [OF assms Some] by (auto simp: fb_rm_buf_pg_release)
qed

lemma rm_written_step:
  assumes wf: "wb_wf n wb" and w: "writing_pgs wb = p # ps"
  shows "\<exists>wb'. fb_rm_written_pgs wb = fb_rm_written_pgs wb' \<and> wb_wf n wb' \<and> writing_pgs wb' = ps \<and>
    wb_view wb' = (wb_view wb)(wbp_lpa (wb_pgs wb p) := None) \<and> buf_lpas wb' = buf_lpas wb \<and>
    writing_lpas wb' = tl (writing_lpas wb)"
proof -
  note D = wb_wfD [OF wf]
  have fl: "wflag (wb_pgs wb p) \<noteq> 0" and find: "HASH_FIND (hash_pgs wb) (wbp_lpa (wb_pgs wb p)) = Some p"
    and nb: "p \<notin> set (buf_pgs wb)" "p \<notin> set ps"
    using D(3,7,11,12) w by auto
  obtain wb' where wb': "release_pg wb p = Some wb'" "wb_wf n wb'"
    "wb_view wb' = (wb_view wb)(wbp_lpa (wb_pgs wb p) := None)"
    "writing_pgs wb' = ps" "buf_pgs wb' = buf_pgs wb"
    using release_pg [OF wf find] w nb by (auto simp: remove1_idem)
  have rel: "release_pg wb p = do {
          wb \<leftarrow> fb_wb_reset_writing_pg wb p;
          t \<leftarrow> HASH_DEL (hash_pgs wb) p;
          fb_wb_set_free_pg (wb\<lparr>hash_pgs := t\<rparr>) p }"
    using fl by (simp add: release_pg_def)
  have lpas: "wbp_lpa (wb_pgs wb' q) = wbp_lpa (wb_pgs wb q)" for q
    using wb'(1) unfolding rel
    by (auto simp: fb_wb_reset_writing_pg_def fb_wb_set_free_pg_def bind_eq_Some_conv)
  have "fb_rm_written_pgs wb = do { wb \<leftarrow> release_pg wb p; fb_rm_written_pgs wb }"
    unfolding rel by (subst fb_rm_written_pgs.simps) (simp add: w list_head_def)
  then show ?thesis
    using wb' w by (auto simp: buf_lpas_def writing_lpas_def lpas)
qed

lemma wb_rm_written:
  assumes "wb_wf n wb"
  shows "\<exists>wb'. fb_rm_written_pgs wb = Some wb' \<and> wb_wf n wb' \<and> writing_pgs wb' = [] \<and>
    buf_lpas wb' = buf_lpas wb \<and> wb_view wb' = wb_view wb |` (- set (writing_lpas wb))"
  using assms
proof (induction "writing_pgs wb" arbitrary: wb)
  case Nil
  then have "fb_rm_written_pgs wb = Some wb" "writing_lpas wb = []"
    using Nil.hyps [symmetric]
    by (subst fb_rm_written_pgs.simps, simp_all add: list_head_def writing_lpas_def)
  with Nil show ?case by (simp add: restrict_map_def)
next
  case (Cons p ps)
  let ?l = "wbp_lpa (wb_pgs wb p)"
  obtain wb' where wb': "fb_rm_written_pgs wb = fb_rm_written_pgs wb'" "wb_wf n wb'"
    "writing_pgs wb' = ps" "wb_view wb' = (wb_view wb)(?l := None)" "buf_lpas wb' = buf_lpas wb"
    "writing_lpas wb' = tl (writing_lpas wb)"
    using rm_written_step [OF Cons.prems, of p ps] Cons.hyps(2) by auto
  have "writing_lpas wb = ?l # writing_lpas wb'"
    using Cons.hyps(2) [symmetric] wb'(6) by (simp add: writing_lpas_def)
  moreover obtain wb2 where "fb_rm_written_pgs wb' = Some wb2" "wb_wf n wb2" "writing_pgs wb2 = []"
    "buf_lpas wb2 = buf_lpas wb'" "wb_view wb2 = wb_view wb' |` (- set (writing_lpas wb'))"
    using Cons.hyps(1) [of wb'] wb' by auto
  ultimately show ?case
    using wb'(1,4,5) by (auto simp: restrict_map_def fun_eq_iff)
qed

section \<open>Properties\<close>

text \<open>
  A new write buffer is well-formed (every entry on exactly one list, the hash table
  exactly the entries that hold a page) and empty.
\<close>

theorem write_buffer_created:
  "\<exists>wb. fb_create_write_buffer junk junk_buf m sz = Some wb \<and> wb_wf (unat m) wb \<and>
     wb_view wb = Map.empty \<and> buf_lpas wb = []"
  using wb_create_wf [of junk junk_buf m sz] by (auto simp: buf_lpas_def)

lemma wb_created_free:
  "\<exists>wb. fb_create_write_buffer junk junk_buf 8 4096 = Some wb \<and> wb_wf 8 wb \<and>
     wb_view wb = Map.empty \<and> buf_lpas wb = [] \<and> free_pgs wb \<noteq> []"
proof -
  obtain wb where wb: "fb_create_write_buffer junk junk_buf 8 4096 = Some wb" "wb_wf 8 wb"
     "wb_view wb = Map.empty" "writing_pgs wb = []" "buf_pgs wb = []"
    using wb_create_wf [of junk junk_buf 8 4096] by auto
  have "set (free_pgs wb) = {..<8}" using wb_wfD(8) [OF wb(2)] wb(4,5) by simp
  then have "0 \<in> set (free_pgs wb)" by simp
  then have "free_pgs wb \<noteq> []" by (cases "free_pgs wb") simp_all
  then show ?thesis using wb by (intro exI [of _ wb]) (simp add: buf_lpas_def)
qed

text \<open>
  C32. \<open>fb_put_pg\<close>: an address that is not buffered while no entry is free is refused and
  the buffer stays as it was; in every other case the buffer holds the new contents for the address, all other contents are
  as before, and the address is the youngest of those waiting to be written, even if it
  was already waiting or being written.
\<close>

theorem write_buffer_put:
  assumes "wb_wf n wb"
  shows "\<exists>r wb'. fb_put_pg wb lpa src = Some (r, wb') \<and> wb_wf n wb' \<and>
    (if wb_view wb lpa = None \<and> free_pgs wb = [] then r = -1 \<and> wb' = wb
     else r = 0 \<and> wb_view wb' = (wb_view wb)(lpa \<mapsto> src) \<and> buf_lpas wb' = remove1 lpa (buf_lpas wb) @ [lpa])"
proof (cases "wb_view wb lpa")
  case (Some d)
  then show ?thesis using put_again [OF assms Some] by auto
next
  case None
  then have "HASH_FIND (hash_pgs wb) lpa = None" by (simp add: wb_view_def)
  then have "lpa \<notin> set (buf_lpas wb)" using wb_wfD(11) [OF assms, of lpa] by (auto simp: buf_lpas_def)
  then show ?thesis
    using None put_full [OF None] put_new [OF assms None, where src = src] assms
    by (cases "free_pgs wb") (simp_all add: remove1_idem, blast)
qed

theorem write_buffer_put_witness:
  "\<forall>junk. \<exists>wb wb'. fb_create_write_buffer junk (\<lambda>_. []) 8 4096 = Some wb \<and>
    fb_put_pg wb 7 [1, 2] = Some (0, wb') \<and> wb_view wb' 7 = Some [1, 2]" (is "\<forall>junk. ?P junk")
proof
  fix junk
  obtain wb where wb: "fb_create_write_buffer junk (\<lambda>_. []) 8 4096 = Some wb" "wb_wf 8 wb"
     "free_pgs wb \<noteq> []" using wb_created_free by blast
  then show "?P junk" using write_buffer_put [OF wb(2), of 7 "[1, 2]"] by auto
qed

text \<open>
  \<open>fb_get_pgs_to_write\<close>: with fewer pages waiting than asked for it returns -1 and
  changes nothing; otherwise it returns the addresses that wait longest, in order, with their contents, and
  moves them to the pages being written, where a reader still finds them.
\<close>

theorem write_buffer_take:
  assumes "wb_wf n wb" "unat m \<le> length lpas" "unat m \<le> length dest"
  shows "if length (buf_lpas wb) < unat m then fb_get_pgs_to_write wb m lpas dest = Some (-1, lpas, dest, wb)
    else \<exists>wb'. fb_get_pgs_to_write wb m lpas dest =
        Some (0, take (unat m) (buf_lpas wb) @ drop (unat m) lpas,
          map (\<lambda>l. the (wb_view wb l)) (take (unat m) (buf_lpas wb)) @ drop (unat m) dest, wb') \<and>
      wb_wf n wb' \<and> wb_view wb' = wb_view wb \<and> buf_lpas wb' = drop (unat m) (buf_lpas wb) \<and>
      writing_lpas wb' = writing_lpas wb @ take (unat m) (buf_lpas wb)"
  using wb_get_pgs_short [OF assms(1)] wb_get_pgs [OF assms(1) _ assms(2,3)]
  by (fastforce simp: taken_def)

theorem write_buffer_take_witness:
  "\<forall>junk. \<exists>wb wb' wb''. fb_create_write_buffer junk (\<lambda>_. []) 8 4096 = Some wb \<and>
    fb_put_pg wb 7 [1, 2] = Some (0, wb') \<and>
    fb_get_pgs_to_write wb' 1 [0, 0] [[], []] = Some (0, [7, 0], [[1, 2], []], wb'')" (is "\<forall>junk. ?P junk")
proof
  fix junk
  obtain wb where wb: "fb_create_write_buffer junk (\<lambda>_. []) 8 4096 = Some wb" "wb_wf 8 wb"
     "wb_view wb = Map.empty" "free_pgs wb \<noteq> []" "buf_lpas wb = []" using wb_created_free by blast
  then obtain p ps where p: "free_pgs wb = p # ps" by (cases "free_pgs wb") auto
  have n: "wb_view wb 7 = None" using wb(3) by simp
  obtain wb' where wb': "fb_put_pg wb 7 [1, 2] = Some (0, wb')" "wb_wf 8 wb'"
    "wb_view wb' = (wb_view wb)(7 \<mapsto> [1, 2])" "buf_lpas wb' = [7]"
    using put_new [OF wb(2) n p, of "[1, 2]"] wb(5) by auto
  then show "?P junk" using wb write_buffer_take [OF wb'(2), of 1 "[0, 0]" "[[], []]"] by auto
qed

text \<open>
  C33. \<open>fb_rm_written_pgs\<close> ends, and forgets exactly the pages being written: their addresses
  are no longer buffered, every other address keeps its contents and its place in the queue.
\<close>

theorem write_buffer_rm_written:
  assumes "wb_wf n wb"
  shows "\<exists>wb'. fb_rm_written_pgs wb = Some wb' \<and> wb_wf n wb' \<and> writing_lpas wb' = [] \<and>
    buf_lpas wb' = buf_lpas wb \<and> wb_view wb' = wb_view wb |` (- set (writing_lpas wb))"
  using wb_rm_written [OF assms] by (auto simp: writing_lpas_def)

theorem write_buffer_rm_written_witness:
  "\<forall>junk. \<exists>wb wb'. fb_create_write_buffer junk (\<lambda>_. []) 8 4096 = Some wb \<and>
    fb_rm_written_pgs wb = Some wb' \<and> writing_lpas wb' = []" (is "\<forall>junk. ?P junk")
proof
  fix junk
  obtain wb where wb: "fb_create_write_buffer junk (\<lambda>_. []) 8 4096 = Some wb" "wb_wf 8 wb"
    using wb_created_free by blast
  then show "?P junk" using write_buffer_rm_written [OF wb(2)] by auto
qed

text \<open>
  \<open>fb_rm_buf_pg\<close> (a discard) forgets the page of one address, whether it waits or is
  being written, and nothing else.
\<close>

theorem write_buffer_rm_page:
  assumes "wb_wf n wb"
  shows "\<exists>wb'. fb_rm_buf_pg wb lpa = Some wb' \<and> wb_wf n wb' \<and>
    wb_view wb' = (wb_view wb)(lpa := None) \<and> buf_lpas wb' = remove1 lpa (buf_lpas wb)"
  using wb_rm_buf_pg [OF assms, of lpa] by auto

theorem write_buffer_rm_page_witness:
  "\<forall>junk. \<exists>wb wb' wb''. fb_create_write_buffer junk (\<lambda>_. []) 8 4096 = Some wb \<and>
    fb_put_pg wb 7 [1, 2] = Some (0, wb') \<and> fb_rm_buf_pg wb' 7 = Some wb'' \<and> wb_view wb'' 7 = None \<and>
    buf_lpas wb'' = []" (is "\<forall>junk. ?P junk")
proof
  fix junk
  obtain wb where wb: "fb_create_write_buffer junk (\<lambda>_. []) 8 4096 = Some wb" "wb_wf 8 wb"
     "wb_view wb = Map.empty" "free_pgs wb \<noteq> []" "buf_lpas wb = []" using wb_created_free by blast
  then obtain p ps where p: "free_pgs wb = p # ps" by (cases "free_pgs wb") auto
  have n: "wb_view wb 7 = None" using wb(3) by simp
  obtain wb' where wb': "fb_put_pg wb 7 [1, 2] = Some (0, wb')" "wb_wf 8 wb'" "buf_lpas wb' = [7]"
    using put_new [OF wb(2) n p, of "[1, 2]"] wb(5) by auto
  then show "?P junk" using wb write_buffer_rm_page [OF wb'(2), of 7] by auto
qed

end
