(* ===== verification/FB_Perf.thy ===== *)
theory FB_Perf
  imports FB_Prelude
begin

text \<open>
  The statistics counters of \<open>util.c\<close>: eight global \<open>u32\<close> variables, here the fields of one
  record, each with its increment function, and the text that \<open>/proc/flashbench\<close> shows of them.
\<close>

record perf =
  perf_nr_incomming_write :: u32
  perf_nr_wordline_prog_fg :: u32
  perf_nr_wordline_prog_bg :: u32
  perf_nr_page_reads :: u32
  perf_nr_blk_erasures :: u32
  perf_nr_gc_trigger_bg :: u32
  perf_nr_discard_reqs :: u32
  perf_nr_discarded_lpgs :: u32

definition perf_zero :: perf where
  "perf_zero = \<lparr>perf_nr_incomming_write = 0, perf_nr_wordline_prog_fg = 0,
     perf_nr_wordline_prog_bg = 0, perf_nr_page_reads = 0, perf_nr_blk_erasures = 0,
     perf_nr_gc_trigger_bg = 0, perf_nr_discard_reqs = 0, perf_nr_discarded_lpgs = 0\<rparr>"

definition perf_inc_nr_incomming_write :: "perf \<Rightarrow> perf" where
  "perf_inc_nr_incomming_write q = q\<lparr>perf_nr_incomming_write := perf_nr_incomming_write q + 1\<rparr>"

definition perf_inc_nr_wordline_prog_fg :: "perf \<Rightarrow> perf" where
  "perf_inc_nr_wordline_prog_fg q = q\<lparr>perf_nr_wordline_prog_fg := perf_nr_wordline_prog_fg q + 1\<rparr>"

definition perf_inc_nr_wordline_prog_bg :: "perf \<Rightarrow> perf" where
  "perf_inc_nr_wordline_prog_bg q = q\<lparr>perf_nr_wordline_prog_bg := perf_nr_wordline_prog_bg q + 1\<rparr>"

definition perf_inc_nr_page_reads :: "perf \<Rightarrow> perf" where
  "perf_inc_nr_page_reads q = q\<lparr>perf_nr_page_reads := perf_nr_page_reads q + 1\<rparr>"

definition perf_inc_nr_blk_erasures :: "perf \<Rightarrow> perf" where
  "perf_inc_nr_blk_erasures q = q\<lparr>perf_nr_blk_erasures := perf_nr_blk_erasures q + 1\<rparr>"

definition perf_inc_nr_gc_trigger_bg :: "perf \<Rightarrow> perf" where
  "perf_inc_nr_gc_trigger_bg q = q\<lparr>perf_nr_gc_trigger_bg := perf_nr_gc_trigger_bg q + 1\<rparr>"

definition perf_inc_nr_discard_reqs :: "perf \<Rightarrow> perf" where
  "perf_inc_nr_discard_reqs q = q\<lparr>perf_nr_discard_reqs := perf_nr_discard_reqs q + 1\<rparr>"

definition perf_inc_nr_discard_lpgs :: "u32 \<Rightarrow> perf \<Rightarrow> perf" where
  "perf_inc_nr_discard_lpgs nr_lpgs q = q\<lparr>perf_nr_discarded_lpgs := perf_nr_discarded_lpgs q + nr_lpgs\<rparr>"

section \<open>The statistics as text\<close>

text \<open>The conversion \<open>%u\<close>.\<close>

definition digit_char :: "nat \<Rightarrow> char" where
  "digit_char d = ''0123456789'' ! d"

fun decimal :: "nat \<Rightarrow> string" where
  "decimal n = (if n < 10 then [digit_char n] else decimal (n div 10) @ [digit_char (n mod 10)])"

declare decimal.simps [simp del]

abbreviation newline :: char where
  "newline \<equiv> CHR 10"

definition perf_text :: "string \<Rightarrow> perf \<Rightarrow> string" where
  "perf_text pre q =
     pre @ ''# of total write from OS: '' @ decimal (unat (perf_nr_incomming_write q)) @ [newline] @
     pre @ ''# of read pages: '' @ decimal (unat (perf_nr_page_reads q)) @ [newline] @
     pre @ ''# of write pages in FG procedures: '' @ decimal (unat (perf_nr_wordline_prog_fg q)) @ [newline] @
     pre @ ''# of write pages in BG procedures: '' @ decimal (unat (perf_nr_wordline_prog_bg q)) @ [newline] @
     pre @ ''# of erase blocks: '' @ decimal (unat (perf_nr_blk_erasures q)) @ [newline] @
     pre @ ''# of BG GC: '' @ decimal (unat (perf_nr_gc_trigger_bg q)) @ [newline] @
     pre @ ''# of discard reqs: '' @ decimal (unat (perf_nr_discard_reqs q)) @
       '' ('' @ decimal (unat (perf_nr_discarded_lpgs q)) @ '')'' @ [newline]"

definition fb_proc_show :: "perf \<Rightarrow> string" where
  "fb_proc_show q = ''Statistics of Flashbench module:'' @ [newline] @ perf_text [] q"

definition perf_display_result :: "perf \<Rightarrow> string" where
  "perf_display_result q =
     ''flashbench: Statistics of Flashbench module:'' @ [newline] @ perf_text ''flashbench: '' q"

text \<open>A number can be read off the front of a text, so nothing is lost in printing.\<close>

lemma digit_char_inj: "d < 10 \<Longrightarrow> e < 10 \<Longrightarrow> digit_char d = digit_char e \<Longrightarrow> d = e"
proof -
  have d: "distinct ''0123456789''" by simp
  show "d < 10 \<Longrightarrow> e < 10 \<Longrightarrow> digit_char d = digit_char e \<Longrightarrow> d = e"
    using nth_eq_iff_index_eq [OF d] by (simp add: digit_char_def)
qed

lemma decimal_digits: "c \<in> set (decimal n) \<Longrightarrow> c \<in> set ''0123456789''"
proof (induction n rule: decimal.induct)
  case (1 n)
  have dg: "digit_char d \<in> set ''0123456789''" if "d < 10" for d
    unfolding digit_char_def by (rule nth_mem) (use that in simp)
  show ?case
  proof (cases "n < 10")
    case True
    then show ?thesis using "1.prems" dg [of n] by (auto simp: decimal.simps [of n])
  next
    case False
    then have "c \<in> set (decimal (n div 10)) \<or> c = digit_char (n mod 10)"
      using "1.prems" by (auto simp: decimal.simps [of n])
    then show ?thesis using "1.IH" [OF False] dg [of "n mod 10"] by auto
  qed
qed

lemma decimal_not_Nil: "decimal n \<noteq> []"
  by (simp add: decimal.simps [of n])

lemma decimal_inj: "decimal m = decimal n \<Longrightarrow> m = n"
proof (induction m arbitrary: n rule: decimal.induct)
  case (1 m)
  show ?case
  proof (cases "m < 10"; cases "n < 10")
    assume "m < 10" "n < 10"
    then show ?thesis using "1.prems" digit_char_inj by (simp add: decimal.simps [of m] decimal.simps [of n])
  next
    assume a: "m < 10" "\<not> n < 10"
    then show ?thesis using "1.prems" decimal_not_Nil [of "n div 10"]
      by (simp add: decimal.simps [of m] decimal.simps [of n] append_eq_Cons_conv)
  next
    assume a: "\<not> m < 10" "n < 10"
    then show ?thesis using "1.prems" decimal_not_Nil [of "m div 10"]
      by (simp add: decimal.simps [of m] decimal.simps [of n] append_eq_Cons_conv)
  next
    assume a: "\<not> m < 10" "\<not> n < 10"
    then have "decimal (m div 10) = decimal (n div 10)" "digit_char (m mod 10) = digit_char (n mod 10)"
      using "1.prems" by (simp_all add: decimal.simps [of m] decimal.simps [of n])
    then have "m div 10 = n div 10" "m mod 10 = n mod 10" using "1.IH" [OF a(1)] digit_char_inj by simp_all
    then show ?thesis by (metis div_mult_mod_eq)
  qed
qed

lemma decimal_append:
  assumes "decimal m @ c # u = decimal n @ c # v" "c \<notin> set ''0123456789''"
  shows "m = n \<and> u = v"
proof -
  have n: "x \<noteq> c" if "x \<in> set (decimal k)" for x k using assms(2) decimal_digits [OF that] by auto
  have t: "takeWhile (\<lambda>x. x \<noteq> c) (decimal k @ c # w) = decimal k" "dropWhile (\<lambda>x. x \<noteq> c) (decimal k @ c # w) = c # w" for k w
    using n [of _ k] by (simp_all add: takeWhile_append2 dropWhile_append2)
  have "decimal m = decimal n" using arg_cong [OF assms(1), of "takeWhile (\<lambda>x. x \<noteq> c)"] unfolding t .
  moreover have "c # u = c # v" using arg_cong [OF assms(1), of "dropWhile (\<lambda>x. x \<noteq> c)"] unfolding t .
  ultimately show ?thesis using decimal_inj by simp
qed

lemma decimal_line:
  "decimal m @ newline # u = decimal n @ newline # v \<longleftrightarrow> m = n \<and> u = v"
  "decimal m @ CHR '' '' # u = decimal n @ CHR '' '' # v \<longleftrightarrow> m = n \<and> u = v"
  "decimal m @ CHR '')'' # u = decimal n @ CHR '')'' # v \<longleftrightarrow> m = n \<and> u = v"
  using decimal_append [of m newline u n v] decimal_append [of m "CHR '' ''" u n v] decimal_append [of m "CHR '')''" u n v] by auto

lemma decimal_eq: "decimal m = decimal n \<longleftrightarrow> m = n"
  using decimal_inj by auto

lemma unat_u32_eq: "unat a = unat b \<longleftrightarrow> a = b" for a b :: u32
  by (simp only: word_unat_eq_iff)

lemma perf_text_inj:
  assumes "perf_text pre q = perf_text pre q'"
  shows "q = q'"
proof -
  have "perf_nr_incomming_write q = perf_nr_incomming_write q' \<and> perf_nr_page_reads q = perf_nr_page_reads q' \<and>
    perf_nr_wordline_prog_fg q = perf_nr_wordline_prog_fg q' \<and> perf_nr_wordline_prog_bg q = perf_nr_wordline_prog_bg q' \<and>
    perf_nr_blk_erasures q = perf_nr_blk_erasures q' \<and> perf_nr_gc_trigger_bg q = perf_nr_gc_trigger_bg q' \<and>
    perf_nr_discard_reqs q = perf_nr_discard_reqs q' \<and> perf_nr_discarded_lpgs q = perf_nr_discarded_lpgs q'"
    using assms unfolding perf_text_def by (simp add: decimal_line decimal_eq unat_u32_eq)
  then show ?thesis by (cases q; cases q') simp
qed

text \<open>
  Whoever reads \<open>/proc/flashbench\<close> can tell every counter, and all of them are there.
\<close>

theorem proc_text_faithful: "fb_proc_show q = fb_proc_show q' \<longleftrightarrow> q = q'" "perf_display_result q = perf_display_result q' \<longleftrightarrow> q = q'"
  using perf_text_inj [of "[]" q q'] perf_text_inj [of "''flashbench: ''" q q']
  by (auto simp: fb_proc_show_def perf_display_result_def)

end
