(* ===== verification/FB_Context.thy ===== *)
theory FB_Context
  imports FB_Ssd_Info FB_Vdevice FB_Write_Buffer FB_Perf
begin

text \<open>
  The state of the driver: \<open>struct fb_context_t\<close> (\<open>main.h\<close>) and the page-mapping FTL state it
  points to (\<open>ftl_algorithm_page_mapping.h\<close> and \<open>.c\<close>). The fields that hold kernel objects (the disk, the
  request queue, the tasks) are left out; the counters of \<open>util.c\<close> are a field.

  The mapping table is a function with its number of entries; \<open>ld_map\<close> and \<open>st_map\<close> check the
  index, as \<open>ld_nth\<close> and \<open>st_nth\<close> do for the small arrays.
\<close>

section \<open>The FTL state\<close>

record page_mapping_table_t =
  nr_entries :: u32
  mappings :: "u32 \<Rightarrow> u32"

record fb_act_blk_mngr_t =
  act_blks :: "blkptr option list"
  mru_bus :: u32
  mru_chip :: u32

record fb_gc_mngr_t =
  gc_blks :: "blkptr option list"
  vic_blks :: "blkptr option list"
  first_valid_pg :: "u32 list"
  lpas_to_copy :: "u32 list"
  data_to_copy :: "lpdata list"
  nr_pgs_to_copy :: u32

record fb_wtod_t =
  wl_idx :: u32
  wtod_bus :: u32
  wtod_chip :: u32

record fb_del_mngr_t =
  ppas :: "u32 list"
  nr_btod :: u32
  btod :: "blkptr option list"
  hash_btod :: "nat hash_table"
  nr_wtod :: u32
  wtod :: "fb_wtod_t list"
  hash_wtod :: "nat hash_table"
  del_nr_pgs_to_copy :: u32
  del_lpas_to_copy :: "u32 list"
  del_data_to_copy :: "lpdata list"

record page_mapping_context_t =
  mapping_context_lock :: completion
  ptr_mapping_table :: page_mapping_table_t
  ftl_abm :: fb_act_blk_mngr_t
  ftl_gcm :: fb_gc_mngr_t
  ftl_delm :: fb_del_mngr_t
  lpas_to_discard :: "u32 list"

record fb_context_t =
  fb_err :: int
  ptr_mapping_context :: page_mapping_context_t
  ptr_ssd_info :: ssd_info
  ptr_vdevice :: vdevice_t
  dev_lock :: completion
  fb_wbuf :: fb_wb
  background_gc_time_stamp :: u64
  fb_perf :: perf

definition get_ftl :: "fb_context_t \<Rightarrow> page_mapping_context_t" where
  "get_ftl fb = ptr_mapping_context fb"

definition get_ssd_inf :: "fb_context_t \<Rightarrow> ssd_info" where
  "get_ssd_inf fb = ptr_ssd_info fb"

definition get_vdev :: "fb_context_t \<Rightarrow> vdevice_t" where
  "get_vdev fb = ptr_vdevice fb"

definition get_gcm :: "page_mapping_context_t \<Rightarrow> fb_gc_mngr_t" where
  "get_gcm ftl = ftl_gcm ftl"

definition get_abm :: "page_mapping_context_t \<Rightarrow> fb_act_blk_mngr_t" where
  "get_abm ftl = ftl_abm ftl"

section \<open>Updates of a part of the state\<close>

definition set_ftl :: "fb_context_t \<Rightarrow> page_mapping_context_t \<Rightarrow> fb_context_t" where
  "set_ftl fb ftl = fb\<lparr>ptr_mapping_context := ftl\<rparr>"

definition upd_abm :: "fb_context_t \<Rightarrow> (fb_act_blk_mngr_t \<Rightarrow> fb_act_blk_mngr_t) \<Rightarrow> fb_context_t" where
  "upd_abm fb f = set_ftl fb ((get_ftl fb)\<lparr>ftl_abm := f (get_abm (get_ftl fb))\<rparr>)"

definition upd_gcm :: "fb_context_t \<Rightarrow> (fb_gc_mngr_t \<Rightarrow> fb_gc_mngr_t) \<Rightarrow> fb_context_t" where
  "upd_gcm fb f = set_ftl fb ((get_ftl fb)\<lparr>ftl_gcm := f (get_gcm (get_ftl fb))\<rparr>)"

definition upd_delm :: "fb_context_t \<Rightarrow> (fb_del_mngr_t \<Rightarrow> fb_del_mngr_t) \<Rightarrow> fb_context_t" where
  "upd_delm fb f = set_ftl fb ((get_ftl fb)\<lparr>ftl_delm := f (ftl_delm (get_ftl fb))\<rparr>)"

definition upd_perf :: "fb_context_t \<Rightarrow> (perf \<Rightarrow> perf) \<Rightarrow> fb_context_t" where
  "upd_perf fb f = fb\<lparr>fb_perf := f (fb_perf fb)\<rparr>"

text \<open>\<open>ssd_do\<close> runs an operation of \<open>ssd_info.c\<close> for its effect, \<open>ssd_upd\<close> for its result too.\<close>

definition ssd_do :: "fb_context_t \<Rightarrow> (ssd_info \<Rightarrow> ssd_info option) \<Rightarrow> fb_context_t option" where
  "ssd_do fb f = map_option (\<lambda>s. fb\<lparr>ptr_ssd_info := s\<rparr>) (f (get_ssd_inf fb))"

definition ssd_upd :: "fb_context_t \<Rightarrow> (ssd_info \<Rightarrow> ('r \<times> ssd_info) option) \<Rightarrow> ('r \<times> fb_context_t) option" where
  "ssd_upd fb f = map_option (\<lambda>(r, s). (r, fb\<lparr>ptr_ssd_info := s\<rparr>)) (f (get_ssd_inf fb))"

text \<open>The mapping context lock.\<close>

definition lock_ftl :: "fb_context_t \<Rightarrow> fb_context_t option" where
  "lock_ftl fb = map_option (\<lambda>c. set_ftl fb ((get_ftl fb)\<lparr>mapping_context_lock := c\<rparr>))
     (acquire (mapping_context_lock (get_ftl fb)))"

definition unlock_ftl :: "fb_context_t \<Rightarrow> fb_context_t" where
  "unlock_ftl fb = set_ftl fb ((get_ftl fb)\<lparr>
     mapping_context_lock := complete (mapping_context_lock (get_ftl fb))\<rparr>)"

end
