(* ===== verification/FB_Block.thy ===== *)
theory FB_Block
  imports FB_Ssd_Info
begin

text \<open>
  What the counters of a \<open>struct flash_block\<close> mean. \<open>blk_wf k b\<close> says that every counter of
  the block and of its wordlines is the number of slots or wordlines it claims to count, and
  that the wordlines are programmed in order: exactly those before the write frontier
  \<open>NUM_PAGES_PER_BLOCK - nr_free_pages\<close> are written, and of the wordline at the frontier the
  first \<open>k\<close> slots (\<open>k = 0\<close> except inside \<open>map_logical_to_physical\<close>).

  The two slot transitions of the FTL, invalidating a valid slot and programming the next one,
  are stated as functions on the block and shown to keep the counters right.
\<close>

abbreviation bst :: "flash_block \<Rightarrow> u32 \<Rightarrow> u8 \<Rightarrow> fb_pg_status_t" where
  "bst b pg i \<equiv> page_status (list_pages b pg) i"

abbreviation blpa :: "flash_block \<Rightarrow> u32 \<Rightarrow> u8 \<Rightarrow> u32" where
  "blpa b pg i \<equiv> no_logical_page_addr (list_pages b pg) i"

definition slots_with :: "fb_pg_status_t \<Rightarrow> flash_block \<Rightarrow> (u32 \<times> u8) set" where
  "slots_with st b = {(pg, i). pg < NUM_PAGES_PER_BLOCK \<and> i < NR_LP_IN_PP \<and> bst b pg i = st}"

definition page_invalid_slots :: "flash_block \<Rightarrow> u32 \<Rightarrow> u8 set" where
  "page_invalid_slots b pg = {i. i < NR_LP_IN_PP \<and> bst b pg i = PAGE_STATUS_INVALID}"

definition dead_pages :: "flash_block \<Rightarrow> u32 set" where
  "dead_pages b = {pg. pg < NUM_PAGES_PER_BLOCK \<and>
     (\<forall>i < NR_LP_IN_PP. bst b pg i = PAGE_STATUS_INVALID)}"

definition frontier :: "flash_block \<Rightarrow> nat" where
  "frontier b = 192 - unat (nr_free_pages b)"

definition blk_wf :: "nat \<Rightarrow> flash_block \<Rightarrow> bool" where
  "blk_wf k b \<longleftrightarrow>
     nr_valid_log_pages b = of_nat (card (slots_with PAGE_STATUS_VALID b)) \<and>
     nr_invalid_log_pages b = of_nat (card (slots_with PAGE_STATUS_INVALID b)) \<and>
     (\<forall>pg < NUM_PAGES_PER_BLOCK.
        pg_nr_invalid_log_pages (list_pages b pg) = of_nat (card (page_invalid_slots b pg))) \<and>
     nr_invalid_pages b = of_nat (card (dead_pages b)) \<and>
     unat (nr_free_pages b) \<le> 192 \<and>
     nr_valid_pages b + nr_invalid_pages b + nr_free_pages b = NUM_PAGES_PER_BLOCK \<and>
     (\<forall>pg < NUM_PAGES_PER_BLOCK. \<forall>i < NR_LP_IN_PP.
        (bst b pg i = PAGE_STATUS_FREE \<longleftrightarrow>
           frontier b < unat pg \<or> frontier b = unat pg \<and> k \<le> unat i) \<and>
        bst b pg i \<noteq> PAGE_STATUS_DEL)"

section \<open>Counting\<close>

lemma slot_universe: "card {(pg :: u32, i :: u8). pg < NUM_PAGES_PER_BLOCK \<and> i < NR_LP_IN_PP} = 768"
proof -
  have "card (set (words_below (NUM_PAGES_PER_BLOCK :: u32)) \<times> set (words_below (NR_LP_IN_PP :: u8))) = 768"
    by (simp only: card_cartesian_product distinct_card [OF distinct_words_below] length_words_below)
      (simp add: geometry_simps)
  then show ?thesis by (simp add: Collect_case_prod_Sigma)
qed

lemma card_slots_le: "card (slots_with st b) \<le> 768"
  by (subst slot_universe [symmetric], rule card_mono) (auto simp: slots_with_def)

lemma card_page_invalid_le: "card (page_invalid_slots b pg) \<le> 4"
proof -
  have "card (page_invalid_slots b pg) \<le> card {0, 1, 2, 3 :: u8}"
    by (rule card_mono) (auto simp: page_invalid_slots_def u8_less_4 NR_LP_IN_PP_def)
  then show ?thesis by simp
qed

lemma card_page_invalid_4:
  "card (page_invalid_slots b pg) = 4 \<longleftrightarrow> (\<forall>i < NR_LP_IN_PP. bst b pg i = PAGE_STATUS_INVALID)"
proof
  assume c: "card (page_invalid_slots b pg) = 4"
  have "page_invalid_slots b pg = {0, 1, 2, 3}"
    by (rule card_seteq) (use c in \<open>auto simp: page_invalid_slots_def u8_less_4 NR_LP_IN_PP_def\<close>)
  then have "i \<in> page_invalid_slots b pg" if "i < NR_LP_IN_PP" for i
    using that by (auto simp: u8_less_4 NR_LP_IN_PP_def)
  then show "\<forall>i < NR_LP_IN_PP. bst b pg i = PAGE_STATUS_INVALID"
    by (simp add: page_invalid_slots_def)
next
  assume "\<forall>i < NR_LP_IN_PP. bst b pg i = PAGE_STATUS_INVALID"
  then have "page_invalid_slots b pg = {0, 1, 2, 3}"
    by (auto simp: page_invalid_slots_def u8_less_4 NR_LP_IN_PP_def)
  then show "card (page_invalid_slots b pg) = 4" by simp
qed

lemma card_dead_le: "card (dead_pages b) \<le> 192"
proof -
  have "card (dead_pages b) \<le> card (set (words_below (NUM_PAGES_PER_BLOCK :: u32)))"
    by (rule card_mono) (auto simp: dead_pages_def)
  then show ?thesis
    by (simp only: distinct_card [OF distinct_words_below] length_words_below)
      (simp add: geometry_simps)
qed

lemma card_dead_192:
  "card (dead_pages b) = 192 \<longleftrightarrow>
     (\<forall>pg < NUM_PAGES_PER_BLOCK. \<forall>i < NR_LP_IN_PP. bst b pg i = PAGE_STATUS_INVALID)"
proof
  assume c: "card (dead_pages b) = 192"
  have "dead_pages b = set (words_below NUM_PAGES_PER_BLOCK)"
    by (rule card_seteq)
      (use c in \<open>auto simp: dead_pages_def distinct_card [OF distinct_words_below]
        simp del: set_words_below, auto simp: geometry_simps\<close>)
  then show "\<forall>pg < NUM_PAGES_PER_BLOCK. \<forall>i < NR_LP_IN_PP. bst b pg i = PAGE_STATUS_INVALID"
    by (auto simp: dead_pages_def)
next
  assume "\<forall>pg < NUM_PAGES_PER_BLOCK. \<forall>i < NR_LP_IN_PP. bst b pg i = PAGE_STATUS_INVALID"
  then have "dead_pages b = set (words_below NUM_PAGES_PER_BLOCK)"
    by (auto simp: dead_pages_def)
  then have "card (dead_pages b) = unat (NUM_PAGES_PER_BLOCK :: u32)"
    by (simp only: distinct_card [OF distinct_words_below] length_words_below)
  then show "card (dead_pages b) = 192" by (simp add: geometry_simps)
qed

section \<open>Consequences of well-formedness\<close>

lemma blk_wfD:
  assumes "blk_wf k b"
  shows "nr_valid_log_pages b = of_nat (card (slots_with PAGE_STATUS_VALID b))"
    and "nr_invalid_log_pages b = of_nat (card (slots_with PAGE_STATUS_INVALID b))"
    and "pg < NUM_PAGES_PER_BLOCK \<Longrightarrow>
      pg_nr_invalid_log_pages (list_pages b pg) = of_nat (card (page_invalid_slots b pg))"
    and "nr_invalid_pages b = of_nat (card (dead_pages b))"
    and "unat (nr_free_pages b) \<le> 192"
    and "nr_valid_pages b + nr_invalid_pages b + nr_free_pages b = NUM_PAGES_PER_BLOCK"
    and "pg < NUM_PAGES_PER_BLOCK \<Longrightarrow> i < NR_LP_IN_PP \<Longrightarrow>
      bst b pg i = PAGE_STATUS_FREE \<longleftrightarrow>
        frontier b < unat pg \<or> frontier b = unat pg \<and> k \<le> unat i"
    and "pg < NUM_PAGES_PER_BLOCK \<Longrightarrow> i < NR_LP_IN_PP \<Longrightarrow> bst b pg i \<noteq> PAGE_STATUS_DEL"
  using assms by (auto simp: blk_wf_def)

lemma page_full_count:
  assumes "blk_wf k b" "pg < NUM_PAGES_PER_BLOCK"
  shows "pg_nr_invalid_log_pages (list_pages b pg) = NR_LP_IN_PP \<longleftrightarrow> pg \<in> dead_pages b"
proof -
  have "pg_nr_invalid_log_pages (list_pages b pg) = of_nat (4 :: nat) \<longleftrightarrow>
      card (page_invalid_slots b pg) = 4"
    unfolding blk_wfD(3) [OF assms]
    by (rule of_nat_u32_eq_iff) (use card_page_invalid_le [of b pg] in auto)
  then show ?thesis
    using assms(2) card_page_invalid_4 [of b pg] by (auto simp: dead_pages_def NR_LP_IN_PP_def)
qed

lemma page_count_less_4:
  assumes "blk_wf k b" "pg < NUM_PAGES_PER_BLOCK"
  shows "pg_nr_invalid_log_pages (list_pages b pg) < NR_LP_IN_PP \<longleftrightarrow> pg \<notin> dead_pages b"
proof -
  let ?n = "card (page_invalid_slots b pg)"
  have "?n < 2 ^ 32" using card_page_invalid_le [of b pg] by simp
  then have "unat (pg_nr_invalid_log_pages (list_pages b pg)) = ?n"
    unfolding blk_wfD(3) [OF assms] by (rule unat_of_nat_u32)
  then have "pg_nr_invalid_log_pages (list_pages b pg) < NR_LP_IN_PP \<longleftrightarrow> ?n < 4"
    by (simp add: word_less_nat_alt NR_LP_IN_PP_def)
  then show ?thesis
    using assms(2) card_page_invalid_4 [of b pg] card_page_invalid_le [of b pg]
    by (auto simp: dead_pages_def)
qed

lemma block_full_count:
  assumes "blk_wf k b"
  shows "nr_invalid_pages b = NUM_PAGES_PER_BLOCK \<longleftrightarrow>
    (\<forall>pg < NUM_PAGES_PER_BLOCK. \<forall>i < NR_LP_IN_PP. bst b pg i = PAGE_STATUS_INVALID)"
proof -
  have "nr_invalid_pages b = of_nat (192 :: nat) \<longleftrightarrow> card (dead_pages b) = 192"
    unfolding blk_wfD(4) [OF assms]
    by (rule of_nat_u32_eq_iff) (use card_dead_le [of b] in auto)
  then show ?thesis using card_dead_192 [of b] by (simp add: geometry_simps)
qed

lemma no_valid_count:
  assumes "blk_wf k b"
  shows "nr_valid_log_pages b = 0 \<longleftrightarrow> slots_with PAGE_STATUS_VALID b = {}"
proof -
  have "nr_valid_log_pages b = of_nat (0 :: nat) \<longleftrightarrow> card (slots_with PAGE_STATUS_VALID b) = 0"
    unfolding blk_wfD(1) [OF assms]
    by (rule of_nat_u32_eq_iff) (use card_slots_le [of PAGE_STATUS_VALID b] in auto)
  then show ?thesis by simp
qed

section \<open>Invalidating a slot\<close>

definition invalidate_slot :: "flash_block \<Rightarrow> u32 \<Rightarrow> u8 \<Rightarrow> flash_block" where
  "invalidate_slot b pg i =
     (let b1 = b\<lparr>
        list_pages := (list_pages b)(pg := (list_pages b pg)\<lparr>
          page_status := (page_status (list_pages b pg))(i := PAGE_STATUS_INVALID),
          pg_nr_invalid_log_pages := pg_nr_invalid_log_pages (list_pages b pg) + 1\<rparr>),
        nr_invalid_log_pages := nr_invalid_log_pages b + 1,
        nr_valid_log_pages := nr_valid_log_pages b - 1\<rparr>
      in if pg_nr_invalid_log_pages (list_pages b1 pg) = NR_LP_IN_PP
         then b1\<lparr>nr_valid_pages := nr_valid_pages b1 - 1, nr_invalid_pages := nr_invalid_pages b1 + 1\<rparr>
         else b1)"

lemma invalidate_slot_pages:
  "list_pages (invalidate_slot b pg i) = (list_pages b)(pg := (list_pages b pg)\<lparr>
     page_status := (page_status (list_pages b pg))(i := PAGE_STATUS_INVALID),
     pg_nr_invalid_log_pages := pg_nr_invalid_log_pages (list_pages b pg) + 1\<rparr>)"
  by (simp add: invalidate_slot_def Let_def)

lemma invalidate_slot_fields [simp]:
  "nr_free_pages (invalidate_slot b pg i) = nr_free_pages b"
  "frontier (invalidate_slot b pg i) = frontier b"
  "nr_valid_log_pages (invalidate_slot b pg i) = nr_valid_log_pages b - 1"
  "nr_invalid_log_pages (invalidate_slot b pg i) = nr_invalid_log_pages b + 1"
  "no_bus (invalidate_slot b pg i) = no_bus b"
  "no_chip (invalidate_slot b pg i) = no_chip b"
  "no_block (invalidate_slot b pg i) = no_block b"
  by (simp_all add: invalidate_slot_def Let_def frontier_def)

lemma invalidate_slot_bst:
  "bst (invalidate_slot b pg i) pg' i' =
     (if pg' = pg \<and> i' = i then PAGE_STATUS_INVALID else bst b pg' i')"
  "blpa (invalidate_slot b pg i) pg' i' = blpa b pg' i'"
  by (simp_all add: invalidate_slot_pages)

lemma card_of_nat_insert:
  "x \<notin> A \<Longrightarrow> finite A \<Longrightarrow> of_nat (card (insert x A)) = (of_nat (card A) :: u32) + 1"
  by simp

lemma card_of_nat_delete:
  "x \<in> A \<Longrightarrow> finite A \<Longrightarrow> of_nat (card (A - {x})) = (of_nat (card A) :: u32) - 1"
  by (metis add_diff_cancel_right' card_Suc_Diff1 of_nat_Suc semiring_1_class.of_nat_simps(2)
      add.commute)

lemma blk_wf_invalidate:
  assumes wf: "blk_wf k b" and pg: "pg < NUM_PAGES_PER_BLOCK" and i: "i < NR_LP_IN_PP"
    and v: "bst b pg i = PAGE_STATUS_VALID"
  shows "blk_wf k (invalidate_slot b pg i)"
proof -
  let ?b = "invalidate_slot b pg i"
  have V: "slots_with PAGE_STATUS_VALID ?b = slots_with PAGE_STATUS_VALID b - {(pg, i)}"
    by (auto simp: slots_with_def invalidate_slot_bst)
  have I: "slots_with PAGE_STATUS_INVALID ?b = insert (pg, i) (slots_with PAGE_STATUS_INVALID b)"
    using pg i by (auto simp: slots_with_def invalidate_slot_bst)
  have P: "page_invalid_slots ?b pg' =
      (if pg' = pg then insert i (page_invalid_slots b pg) else page_invalid_slots b pg')" for pg'
    using i by (auto simp: page_invalid_slots_def invalidate_slot_bst)
  have n: "(pg, i) \<in> slots_with PAGE_STATUS_VALID b" "(pg, i) \<notin> slots_with PAGE_STATUS_INVALID b"
    "i \<notin> page_invalid_slots b pg" "pg \<notin> dead_pages b"
    using pg i v by (auto simp: slots_with_def page_invalid_slots_def dead_pages_def)
  have pgcount: "pg_nr_invalid_log_pages (list_pages ?b pg') =
      of_nat (card (page_invalid_slots ?b pg'))" if "pg' < NUM_PAGES_PER_BLOCK" for pg'
    using blk_wfD(3) [OF wf that] n(3) by (auto simp: P invalidate_slot_pages)
  have dead: "pg_nr_invalid_log_pages (list_pages b pg) + 1 = NR_LP_IN_PP \<longleftrightarrow> pg \<in> dead_pages ?b"
  proof -
    have "pg_nr_invalid_log_pages (list_pages ?b pg) = of_nat (4 :: nat) \<longleftrightarrow>
        card (page_invalid_slots ?b pg) = 4"
      unfolding pgcount [OF pg]
      by (rule of_nat_u32_eq_iff) (use card_page_invalid_le [of ?b pg] in auto)
    then show ?thesis
      using pg card_page_invalid_4 [of ?b pg]
      by (auto simp: dead_pages_def NR_LP_IN_PP_def invalidate_slot_pages)
  qed
  have "pg' \<in> dead_pages ?b \<longleftrightarrow> pg' \<in> dead_pages b" if "pg' \<noteq> pg" for pg'
    using that by (simp add: dead_pages_def invalidate_slot_bst)
  then have D: "dead_pages ?b =
      (if pg \<in> dead_pages ?b then insert pg (dead_pages b) else dead_pages b)"
    using n(4) by (metis (no_types, lifting) insert_iff subsetI subset_antisym)
  have inv: "nr_invalid_pages ?b = of_nat (card (dead_pages ?b)) \<and>
      nr_valid_pages ?b + nr_invalid_pages ?b + nr_free_pages ?b = NUM_PAGES_PER_BLOCK"
  proof (cases "pg \<in> dead_pages ?b")
    case True
    with dead have f: "nr_invalid_pages ?b = nr_invalid_pages b + 1"
        "nr_valid_pages ?b = nr_valid_pages b - 1"
      by (simp_all add: invalidate_slot_def Let_def)
    have "x - 1 + (y + 1) + z = x + y + z" for x y z :: u32 by simp
    moreover have "dead_pages ?b = insert pg (dead_pages b)" using True D by simp
    ultimately show ?thesis
      using f n(4) blk_wfD(4,6) [OF wf] by simp
  next
    case False
    with dead have "nr_invalid_pages ?b = nr_invalid_pages b" "nr_valid_pages ?b = nr_valid_pages b"
      by (simp_all add: invalidate_slot_def Let_def)
    moreover have "dead_pages ?b = dead_pages b" using False D by simp
    ultimately show ?thesis using blk_wfD(4,6) [OF wf] by simp
  qed
  have "nr_valid_log_pages ?b = of_nat (card (slots_with PAGE_STATUS_VALID ?b))"
    unfolding V card_of_nat_delete [OF n(1) finite] using blk_wfD(1) [OF wf] by simp
  moreover have "nr_invalid_log_pages ?b = of_nat (card (slots_with PAGE_STATUS_INVALID ?b))"
    using blk_wfD(2) [OF wf] n(2) by (simp add: I)
  moreover have "(bst ?b pg' i' = PAGE_STATUS_FREE \<longleftrightarrow>
        frontier ?b < unat pg' \<or> frontier ?b = unat pg' \<and> k \<le> unat i') \<and> bst ?b pg' i' \<noteq> PAGE_STATUS_DEL"
    if "pg' < NUM_PAGES_PER_BLOCK" "i' < NR_LP_IN_PP" for pg' i'
    using blk_wfD(7,8) [OF wf that] v by (auto simp: invalidate_slot_bst)
  ultimately show ?thesis
    using pgcount inv [THEN conjunct1] inv [THEN conjunct2] blk_wfD(5) [OF wf]
    by (simp add: blk_wf_def)
qed

section \<open>Programming a slot\<close>

text \<open>
  A slot is programmed with a logical page, or padded when there is none to write
  (\<open>PAGE_UNMAPPED\<close>). The last slot of a wordline moves the frontier.
\<close>

definition program_slot :: "flash_block \<Rightarrow> u32 \<Rightarrow> u8 \<Rightarrow> u32 \<Rightarrow> flash_block" where
  "program_slot b pg i lpa =
     (let q = list_pages b pg;
          b1 = (if lpa \<noteq> PAGE_UNMAPPED
            then b\<lparr>nr_valid_log_pages := nr_valid_log_pages b + 1,
              list_pages := (list_pages b)(pg := q\<lparr>
                page_status := (page_status q)(i := PAGE_STATUS_VALID),
                no_logical_page_addr := (no_logical_page_addr q)(i := lpa)\<rparr>)\<rparr>
            else b\<lparr>nr_invalid_log_pages := nr_invalid_log_pages b + 1,
              list_pages := (list_pages b)(pg := q\<lparr>
                page_status := (page_status q)(i := PAGE_STATUS_INVALID),
                no_logical_page_addr := (no_logical_page_addr q)(i := lpa),
                pg_nr_invalid_log_pages := pg_nr_invalid_log_pages q + 1\<rparr>)\<rparr>)
      in if i = NR_LP_IN_PP - 1
         then b1\<lparr>nr_valid_pages := nr_valid_pages b1 + 1, nr_free_pages := nr_free_pages b1 - 1\<rparr>
         else b1)"

definition programmed_status :: "u32 \<Rightarrow> fb_pg_status_t" where
  "programmed_status lpa = (if lpa \<noteq> PAGE_UNMAPPED then PAGE_STATUS_VALID else PAGE_STATUS_INVALID)"

lemma program_slot_bst:
  "bst (program_slot b pg i lpa) pg' i' =
     (if pg' = pg \<and> i' = i then programmed_status lpa else bst b pg' i')"
  "blpa (program_slot b pg i lpa) pg' i' = (if pg' = pg \<and> i' = i then lpa else blpa b pg' i')"
  by (simp_all add: program_slot_def Let_def programmed_status_def)

lemma program_slot_pgcount:
  "pg_nr_invalid_log_pages (list_pages (program_slot b pg i lpa) pg') =
     (if pg' = pg \<and> lpa = PAGE_UNMAPPED then pg_nr_invalid_log_pages (list_pages b pg) + 1
      else pg_nr_invalid_log_pages (list_pages b pg'))"
  by (simp add: program_slot_def Let_def)

lemma program_slot_fields [simp]:
  "nr_free_pages (program_slot b pg i lpa) =
     (if i = NR_LP_IN_PP - 1 then nr_free_pages b - 1 else nr_free_pages b)"
  "nr_valid_pages (program_slot b pg i lpa) =
     (if i = NR_LP_IN_PP - 1 then nr_valid_pages b + 1 else nr_valid_pages b)"
  "nr_invalid_pages (program_slot b pg i lpa) = nr_invalid_pages b"
  "nr_valid_log_pages (program_slot b pg i lpa) =
     (if lpa \<noteq> PAGE_UNMAPPED then nr_valid_log_pages b + 1 else nr_valid_log_pages b)"
  "nr_invalid_log_pages (program_slot b pg i lpa) =
     (if lpa \<noteq> PAGE_UNMAPPED then nr_invalid_log_pages b else nr_invalid_log_pages b + 1)"
  "no_bus (program_slot b pg i lpa) = no_bus b"
  "no_chip (program_slot b pg i lpa) = no_chip b"
  "no_block (program_slot b pg i lpa) = no_block b"
  by (simp_all add: program_slot_def Let_def)

lemma frontier_program:
  assumes "0 < nr_free_pages b" "unat (nr_free_pages b) \<le> 192"
  shows "frontier (program_slot b pg i lpa) = (if i = NR_LP_IN_PP - 1 then Suc (frontier b) else frontier b)"
proof -
  have "0 < unat (nr_free_pages b)" "nr_free_pages b \<noteq> 0"
    using assms(1) by (auto simp: word_less_nat_alt)
  then show ?thesis using assms(2)
    by (simp add: frontier_def unat_minus_one Suc_diff_le [symmetric])
qed

lemma frontier_less:
  assumes "0 < nr_free_pages b"
  shows "frontier b < 192" "unat (of_nat (frontier b) :: u32) = frontier b"
    "(of_nat (frontier b) :: u32) < NUM_PAGES_PER_BLOCK"
proof -
  show f: "frontier b < 192" using assms by (simp add: frontier_def word_less_nat_alt)
  then show u: "unat (of_nat (frontier b) :: u32) = frontier b"
    by (intro unat_of_nat_u32) simp
  show "(of_nat (frontier b) :: u32) < NUM_PAGES_PER_BLOCK"
    using f u by (simp add: word_less_nat_alt geometry_simps)
qed

lemma blk_wf_program:
  assumes wf: "blk_wf k b" and free: "0 < nr_free_pages b"
    and pg: "pg = of_nat (frontier b)" and i: "unat i = k" and k: "k < 4"
    and last: "i = NR_LP_IN_PP - 1 \<Longrightarrow> lpa = PAGE_UNMAPPED \<Longrightarrow>
      \<exists>j < NR_LP_IN_PP. bst b pg j = PAGE_STATUS_VALID"
  shows "blk_wf (if i = NR_LP_IN_PP - 1 then 0 else Suc k) (program_slot b pg i lpa)"
proof -
  let ?b = "program_slot b pg i lpa"
  have bnd: "pg < NUM_PAGES_PER_BLOCK" "unat pg = frontier b" "i < NR_LP_IN_PP"
    using frontier_less [OF free] pg i k by (auto simp: word_less_nat_alt NR_LP_IN_PP_def)
  have fr: "bst b pg i = PAGE_STATUS_FREE"
    using blk_wfD(7) [OF wf bnd(1,3)] bnd(2) i by simp
  have i3: "i = NR_LP_IN_PP - 1 \<longleftrightarrow> k = 3"
    using i by (auto simp: NR_LP_IN_PP_def word_unat_eq_iff)
  have P: "page_invalid_slots ?b pg' =
      (if pg' = pg \<and> lpa = PAGE_UNMAPPED then insert i (page_invalid_slots b pg)
       else page_invalid_slots b pg')" for pg'
    using fr bnd(3) by (auto simp: page_invalid_slots_def program_slot_bst programmed_status_def)
  have n: "i \<notin> page_invalid_slots b pg" "(pg, i) \<notin> slots_with st b" if "st \<noteq> PAGE_STATUS_FREE" for st
    using fr that by (auto simp: page_invalid_slots_def slots_with_def)
  have V: "slots_with PAGE_STATUS_VALID ?b =
      (if lpa \<noteq> PAGE_UNMAPPED then insert (pg, i) (slots_with PAGE_STATUS_VALID b)
       else slots_with PAGE_STATUS_VALID b)"
    using bnd fr by (auto simp: slots_with_def program_slot_bst programmed_status_def)
  have I: "slots_with PAGE_STATUS_INVALID ?b =
      (if lpa \<noteq> PAGE_UNMAPPED then slots_with PAGE_STATUS_INVALID b
       else insert (pg, i) (slots_with PAGE_STATUS_INVALID b))"
    using bnd fr by (auto simp: slots_with_def program_slot_bst programmed_status_def)
  have notdead: "pg \<notin> dead_pages b" "pg \<notin> dead_pages ?b"
  proof -
    show "pg \<notin> dead_pages b" using fr bnd by (auto simp: dead_pages_def)
    have "\<exists>j < NR_LP_IN_PP. bst ?b pg j \<noteq> PAGE_STATUS_INVALID"
    proof (cases "k = 3")
      case True
      show ?thesis
      proof (cases "lpa = PAGE_UNMAPPED")
        case True
        with last i3 \<open>k = 3\<close> obtain j where
          j: "j < NR_LP_IN_PP" "bst b pg j = PAGE_STATUS_VALID" by blast
        then have "j \<noteq> i" using fr by auto
        with j show ?thesis by (intro exI [of _ j]) (simp add: program_slot_bst)
      next
        case False
        with bnd(3) show ?thesis
          by (intro exI [of _ i]) (simp add: program_slot_bst programmed_status_def)
      qed
    next
      case False
      have "(3 :: u8) < NR_LP_IN_PP" "unat (3 :: u8) = 3" "i \<noteq> 3"
        using False i by (auto simp: NR_LP_IN_PP_def)
      moreover have "bst b pg 3 = PAGE_STATUS_FREE"
        using blk_wfD(7) [OF wf bnd(1) calculation(1)] bnd(2) k calculation(2) by simp
      ultimately show ?thesis by (intro exI [of _ 3]) (simp add: program_slot_bst)
    qed
    then show "pg \<notin> dead_pages ?b" by (auto simp: dead_pages_def)
  qed
  have "pg' \<in> dead_pages ?b \<longleftrightarrow> pg' \<in> dead_pages b" for pg'
  proof (cases "pg' = pg")
    case True
    then show ?thesis using notdead by simp
  next
    case False
    then show ?thesis by (simp add: dead_pages_def program_slot_bst)
  qed
  then have D: "dead_pages ?b = dead_pages b" by blast
  have v: "nr_valid_log_pages ?b = of_nat (card (slots_with PAGE_STATUS_VALID ?b))"
    using blk_wfD(1) [OF wf] n(2) [of PAGE_STATUS_VALID] by (simp add: V)
  have iv: "nr_invalid_log_pages ?b = of_nat (card (slots_with PAGE_STATUS_INVALID ?b))"
    using blk_wfD(2) [OF wf] n(2) [of PAGE_STATUS_INVALID] by (simp add: I)
  have pc: "pg_nr_invalid_log_pages (list_pages ?b pg') = of_nat (card (page_invalid_slots ?b pg'))"
    if "pg' < NUM_PAGES_PER_BLOCK" for pg'
    using blk_wfD(3) [OF wf that] n(1) [of PAGE_STATUS_VALID]
    by (auto simp: P program_slot_pgcount)
  have sum: "nr_valid_pages ?b + nr_invalid_pages ?b + nr_free_pages ?b = NUM_PAGES_PER_BLOCK"
  proof -
    have "x + 1 + y + (z - 1) = x + y + z" for x y z :: u32 by simp
    then show ?thesis by (simp only: program_slot_fields blk_wfD(6) [OF wf] split: if_split) simp
  qed
  have fb: "unat (nr_free_pages ?b) \<le> 192"
    using blk_wfD(5) [OF wf] free by (auto simp: unat_minus_one word_less_nat_alt unat_gt_0)
  have "(bst ?b pg' i' = PAGE_STATUS_FREE \<longleftrightarrow> frontier ?b < unat pg' \<or>
        frontier ?b = unat pg' \<and> (if i = NR_LP_IN_PP - 1 then 0 else Suc k) \<le> unat i') \<and>
      bst ?b pg' i' \<noteq> PAGE_STATUS_DEL"
    if a: "pg' < NUM_PAGES_PER_BLOCK" "i' < NR_LP_IN_PP" for pg' i'
  proof -
    have f: "frontier ?b = (if k = 3 then Suc (frontier b) else frontier b)"
      using frontier_program [OF free blk_wfD(5) [OF wf]] i3 by simp
    have e: "pg' = pg \<longleftrightarrow> unat pg' = frontier b" "i' = i \<longleftrightarrow> unat i' = k"
      using bnd(2) i by (auto simp: word_unat_eq_iff)
    have "unat i' < 4" using a(2) by (simp add: word_less_nat_alt NR_LP_IN_PP_def)
    note i'4 = this
    show ?thesis
    proof (cases "unat pg' = frontier b \<and> unat i' = k")
      case True
      then have "bst ?b pg' i' = programmed_status lpa" using e by (simp add: program_slot_bst)
      moreover have "programmed_status lpa \<notin> {PAGE_STATUS_FREE, PAGE_STATUS_DEL}"
        by (simp add: programmed_status_def)
      ultimately show ?thesis using True f i3 by auto
    next
      case False
      then have "bst ?b pg' i' = bst b pg' i'" using e by (auto simp: program_slot_bst)
      moreover have "(frontier b < unat pg' \<or> frontier b = unat pg' \<and> k \<le> unat i') \<longleftrightarrow>
          frontier ?b < unat pg' \<or>
          frontier ?b = unat pg' \<and> (if i = NR_LP_IN_PP - 1 then 0 else Suc k) \<le> unat i'"
      proof (cases "k = 3")
        case k3: True
        then have "(if i = NR_LP_IN_PP - 1 then 0 else Suc k) = 0" "frontier ?b = Suc (frontier b)"
          using i3 f by simp_all
        moreover have "(x < y \<or> x = y \<and> 3 \<le> z) \<longleftrightarrow> (Suc x < y \<or> Suc x = y \<and> 0 \<le> z)"
          if "\<not> (y = x \<and> z = 3)" "z < 4" for x y z :: nat
          using that by arith
        ultimately show ?thesis using False i'4 k3 by (simp only:)
      next
        case k3: False
        then have "(if i = NR_LP_IN_PP - 1 then 0 else Suc k) = Suc k" "frontier ?b = frontier b"
          using i3 f by simp_all
        moreover have "(x < y \<or> x = y \<and> k \<le> z) \<longleftrightarrow> (x < y \<or> x = y \<and> Suc k \<le> z)"
          if "\<not> (y = x \<and> z = k)" for x y z :: nat
          using that by arith
        ultimately show ?thesis using False by (simp only:)
      qed
      ultimately show ?thesis using blk_wfD(7,8) [OF wf a] by (simp only:) blast
    qed
  qed
  with v iv pc sum fb D blk_wfD(4) [OF wf] show ?thesis by (simp add: blk_wf_def)
qed

section \<open>Erased blocks\<close>

definition blank_page :: "flash_page \<Rightarrow> bool" where
  "blank_page q \<longleftrightarrow> pg_nr_invalid_log_pages q = 0 \<and>
     (\<forall>i < NR_LP_IN_PP. page_status q i = PAGE_STATUS_FREE \<and> no_logical_page_addr q i = PAGE_UNMAPPED)"

definition blank_block :: "flash_block \<Rightarrow> bool" where
  "blank_block b \<longleftrightarrow> nr_free_pages b = NUM_PAGES_PER_BLOCK \<and> nr_valid_pages b = 0 \<and>
     nr_invalid_pages b = 0 \<and> nr_valid_log_pages b = 0 \<and> nr_invalid_log_pages b = 0 \<and>
     (\<forall>pg < NUM_PAGES_PER_BLOCK. blank_page (list_pages b pg))"

lemma blk_wf_blank:
  assumes "blank_block b"
  shows "blk_wf 0 b"
proof -
  have z: "slots_with PAGE_STATUS_VALID b = {}" "slots_with PAGE_STATUS_INVALID b = {}"
    "pg < NUM_PAGES_PER_BLOCK \<Longrightarrow> page_invalid_slots b pg = {}" for pg
    using assms by (auto simp: slots_with_def page_invalid_slots_def blank_block_def blank_page_def)
  have "(0 :: u8) < NR_LP_IN_PP" by (simp add: NR_LP_IN_PP_def)
  then have "dead_pages b = {}"
    using assms by (fastforce simp: dead_pages_def blank_block_def blank_page_def)
  moreover have "frontier b = 0"
    using assms by (simp add: frontier_def blank_block_def geometry_simps)
  ultimately show ?thesis
    using assms z by (simp add: blk_wf_def blank_block_def blank_page_def) (auto simp: geometry_simps)
qed

lemma st_valid:
  "valid_blk p \<Longrightarrow> st_blk s p f = Some (s\<lparr>blocks := (blocks s)(p := f (blocks s p))\<rparr>)"
  "valid_blk p \<Longrightarrow> ld_blk s p = Some (blocks s p)"
  "valid_blk p \<Longrightarrow> pg < NUM_PAGES_PER_BLOCK \<Longrightarrow> ld_page s (Pg p pg) = Some (list_pages (blocks s p) pg)"
  "valid_blk p \<Longrightarrow> pg < NUM_PAGES_PER_BLOCK \<Longrightarrow> st_page s (Pg p pg) g =
     Some (s\<lparr>blocks := (blocks s)(p := (blocks s p)\<lparr>list_pages :=
       (list_pages (blocks s p))(pg := g (list_pages (blocks s p) pg))\<rparr>)\<rparr>)"
  "valid_chip bus chip \<Longrightarrow> ld_chip s bus chip = Some (chips s bus chip)"
  "valid_chip bus chip \<Longrightarrow> st_chip s bus chip h =
     Some (s\<lparr>chips := (chips s)(bus := (chips s bus)(chip := h (chips s bus chip)))\<rparr>)"
  by (simp_all add: st_blk_def ld_blk_def ld_chip_def st_chip_def)

lemma words_below_NR_LP: "words_below (NR_LP_IN_PP :: u8) = [0, 1, 2, 3]"
  by (simp add: words_below_def NR_LP_IN_PP_def upt_rec)

text \<open>The slot loop both initialisers run on a wordline.\<close>

definition blank_slots :: "flash_page \<Rightarrow> flash_page" where
  "blank_slots q = q\<lparr>
     no_logical_page_addr := (no_logical_page_addr q)(0 := PAGE_UNMAPPED, 1 := PAGE_UNMAPPED,
       2 := PAGE_UNMAPPED, 3 := PAGE_UNMAPPED),
     page_status := (page_status q)(0 := PAGE_STATUS_FREE, 1 := PAGE_STATUS_FREE,
       2 := PAGE_STATUS_FREE, 3 := PAGE_STATUS_FREE)\<rparr>"

lemma slot_loop:
  assumes "valid_blk p" "pg < NUM_PAGES_PER_BLOCK"
  shows "foldM (\<lambda>lp s. do {
           s \<leftarrow> set_mapped_lpa s (Pg p pg) lp PAGE_UNMAPPED;
           set_pg_status s (Pg p pg) lp PAGE_STATUS_FREE }) (words_below NR_LP_IN_PP) s =
    st_page s (Pg p pg) blank_slots"
  using assms
  by (simp add: words_below_NR_LP [unfolded NR_LP_IN_PP_def] set_mapped_lpa_def set_pg_status_def st_valid blank_slots_def
      NR_LP_IN_PP_def del: st_page.simps)

lemma blank_slots_blank:
  "pg_nr_invalid_log_pages q = 0 \<Longrightarrow> blank_page (blank_slots q)"
  by (auto simp: blank_page_def blank_slots_def u8_less_4 NR_LP_IN_PP_def)

lemma st_page_twice:
  "valid_blk p \<Longrightarrow> pg < NUM_PAGES_PER_BLOCK \<Longrightarrow>
   do { s \<leftarrow> st_page s (Pg p pg) f; st_page s (Pg p pg) g } = st_page s (Pg p pg) (g \<circ> f)"
  by (simp add: st_valid del: st_page.simps)

lemma page_loop:
  assumes p: "valid_blk p"
    and body: "\<And>pg s. pg < NUM_PAGES_PER_BLOCK \<Longrightarrow> f pg s = st_page s (Pg p pg) g"
  shows "foldM f (words_below NUM_PAGES_PER_BLOCK) s =
    Some (s\<lparr>blocks := (blocks s)(p := (blocks s p)\<lparr>list_pages :=
      (\<lambda>pg. if pg < NUM_PAGES_PER_BLOCK then g (list_pages (blocks s p) pg)
            else list_pages (blocks s p) pg)\<rparr>)\<rparr>)"
proof -
  let ?after = "\<lambda>D. s\<lparr>blocks := (blocks s)(p := (blocks s p)\<lparr>list_pages :=
      (\<lambda>pg. if pg \<in> D then g (list_pages (blocks s p) pg) else list_pages (blocks s p) pg)\<rparr>)\<rparr>"
  have "\<exists>s'. foldM f (words_below NUM_PAGES_PER_BLOCK) s = Some s' \<and>
      s' = ?after (set (words_below NUM_PAGES_PER_BLOCK))"
  proof (rule foldM_rule [where I = "\<lambda>done s'. s' = ?after (set done)"])
    show "s = ?after (set [])" by simp
    fix "done" x rest s'
    assume l: "words_below NUM_PAGES_PER_BLOCK = done @ x # rest" and s': "s' = ?after (set done)"
    have "x \<in> set (words_below NUM_PAGES_PER_BLOCK)" by (simp only: l) simp
    then have x: "x < NUM_PAGES_PER_BLOCK" by simp
    have "x \<notin> set done"
      using distinct_words_below [of "NUM_PAGES_PER_BLOCK :: u32"] unfolding l by simp
    then have "f x s' = Some (?after (set (done @ [x])))"
      using p x s' by (auto simp: body st_valid fun_eq_iff simp del: st_page.simps
          intro!: arg_cong [where f = "\<lambda>h. s\<lparr>blocks := h\<rparr>"]
          arg_cong [where f = "\<lambda>h. b\<lparr>list_pages := h\<rparr>" for b])
    then show "\<exists>s''. f x s' = Some s'' \<and> s'' = ?after (set (done @ [x]))" by blast
  qed
  then show ?thesis by simp
qed

end
