(* ===== verification/FB_Init.thy ===== *)
theory FB_Init
  imports FB_Block
begin

text \<open>
  What the two initialisers of \<open>ssd_info.c\<close> leave behind: \<open>init_blk_inf\<close>, run after every
  erase, makes a block blank and touches nothing else; \<open>create_ssd_info\<close> makes every block of
  the device blank and puts all blocks of a chip on its free list, in block order.
\<close>

section \<open>Erasing a block's bookkeeping\<close>

definition wipe_page :: "flash_page \<Rightarrow> flash_page" where
  "wipe_page = blank_slots \<circ> (\<lambda>p. p\<lparr>pg_del_flag := 0\<rparr>) \<circ> (\<lambda>p. p\<lparr>pg_nr_invalid_log_pages := 0\<rparr>)"

definition wipe_block :: "flash_block \<Rightarrow> flash_block" where
  "wipe_block b = b\<lparr>is_active_block := 0, is_reserved_block := 0,
     nr_free_pages := NUM_PAGES_PER_BLOCK, nr_valid_pages := 0, nr_invalid_pages := 0,
     nr_valid_log_pages := 0, nr_invalid_log_pages := 0, blk_del_flag := 0,
     list_pages := (\<lambda>pg. if pg < NUM_PAGES_PER_BLOCK then wipe_page (list_pages b pg)
       else list_pages b pg)\<rparr>"

lemma wipe_block_fields [simp]:
  "no_bus (wipe_block b) = no_bus b" "no_chip (wipe_block b) = no_chip b"
  "no_block (wipe_block b) = no_block b" "nr_erase_cnt (wipe_block b) = nr_erase_cnt b"
  by (simp_all add: wipe_block_def)

lemma wipe_page_blank: "blank_page (wipe_page q)"
  unfolding wipe_page_def comp_def by (rule blank_slots_blank) simp

lemma wipe_block_blank: "blank_block (wipe_block b)"
  by (simp add: blank_block_def wipe_block_def wipe_page_blank)

lemma init_page_eq:
  assumes "valid_blk p" "pg < NUM_PAGES_PER_BLOCK"
  shows "init_page p pg s = st_page s (Pg p pg) wipe_page"
  using assms
  by (simp add: init_page_def get_pgi_from_blki_def slot_loop [OF assms] st_valid wipe_page_def
      del: st_page.simps)

lemma init_blk_inf_eq:
  assumes "valid_blk p"
  shows "init_blk_inf s p = Some (s\<lparr>blocks := (blocks s)(p := wipe_block (blocks s p))\<rparr>)"
  using assms
  by (simp add: init_blk_inf_def set_act_blk_flag_def set_rsv_blk_flag_def st_valid
      page_loop [OF assms init_page_eq [OF assms]] wipe_block_def cong: if_cong)

section \<open>Creating the device\<close>

definition fresh_block :: "u32 \<Rightarrow> u32 \<Rightarrow> u32 \<Rightarrow> flash_block \<Rightarrow> bool" where
  "fresh_block bus chip block b \<longleftrightarrow> blank_block b \<and> no_bus b = bus \<and> no_chip b = chip \<and>
     no_block b = block \<and> nr_erase_cnt b = 0 \<and> is_active_block b = 0 \<and> is_reserved_block b = 0"

lemma create_page_eq:
  assumes "valid_blk p" "pg < NUM_PAGES_PER_BLOCK"
  shows "create_page p pg s = st_page s (Pg p pg)
    ((\<lambda>q. q\<lparr>pg_del_flag := 0\<rparr>) \<circ> blank_slots \<circ> (\<lambda>q. q\<lparr>pg_nr_invalid_log_pages := 0\<rparr>))"
  using assms slot_loop [OF assms, unfolded PAGE_UNMAPPED_def]
  by (simp add: create_page_def st_valid del: st_page.simps)

lemma create_page_blank:
  "blank_page (blank_slots (q\<lparr>pg_nr_invalid_log_pages := 0\<rparr>)\<lparr>pg_del_flag := 0\<rparr>)"
  using blank_slots_blank [of "q\<lparr>pg_nr_invalid_log_pages := 0\<rparr>"] by (simp add: blank_page_def)

lemma create_block_spec:
  assumes v: "valid_blk (Blk bus chip block)"
    and fresh: "Blk bus chip block \<notin> set (free_blks (chips s bus chip))"
  shows "\<exists>b. create_block bus chip block s = Some (s\<lparr>
      blocks := (blocks s)(Blk bus chip block := b),
      chips := (chips s)(bus := (chips s bus)(chip := (chips s bus chip)\<lparr>
        free_blks := free_blks (chips s bus chip) @ [Blk bus chip block],
        nr_free_blocks := nr_free_blocks (chips s bus chip) + 1\<rparr>))\<rparr>) \<and>
    fresh_block bus chip block b"
proof -
  let ?p = "Blk bus chip block"
  have vc: "valid_chip bus chip" using v by simp
  let ?g = "(\<lambda>q. q\<lparr>pg_del_flag := 0\<rparr>) \<circ> blank_slots \<circ> (\<lambda>q. q\<lparr>pg_nr_invalid_log_pages := 0\<rparr>)"
  let ?b = "(blocks s ?p)\<lparr>no_block := block, no_chip := chip, no_bus := bus,
    nr_valid_log_pages := 0, nr_invalid_log_pages := 0, nr_valid_pages := 0,
    nr_invalid_pages := 0, nr_free_pages := NUM_PAGES_PER_BLOCK, nr_erase_cnt := 0,
    is_bad_block := 0, is_reserved_block := 0, is_active_block := 0,
    last_modified_time := 0, blk_del_flag := 0,
    list_pages := (\<lambda>pg. if pg < NUM_PAGES_PER_BLOCK then ?g (list_pages (blocks s ?p) pg)
      else list_pages (blocks s ?p) pg)\<rparr>"
  have "create_block bus chip block s = Some (s\<lparr>
      blocks := (blocks s)(?p := ?b),
      chips := (chips s)(bus := (chips s bus)(chip := (chips s bus chip)\<lparr>
        free_blks := free_blks (chips s bus chip) @ [?p],
        nr_free_blocks := nr_free_blocks (chips s bus chip) + 1\<rparr>))\<rparr>)"
    by (simp add: create_block_def Let_def st_valid v vc page_loop [OF v create_page_eq [OF v]]
        set_free_blk_def get_chip_info_def list_append_def fresh del: valid_blk.simps cong: if_cong)
  moreover have "fresh_block bus chip block ?b"
    by (simp add: fresh_block_def blank_block_def create_page_blank)
  ultimately show ?thesis by blast
qed

definition fresh_chip :: "u32 \<Rightarrow> u32 \<Rightarrow> ssd_info \<Rightarrow> bool" where
  "fresh_chip bus chip s \<longleftrightarrow>
     free_blks (chips s bus chip) = map (Blk bus chip) (words_below NUM_BLOCKS_PER_CHIP) \<and>
     used_blks (chips s bus chip) = [] \<and> dirt_blks (chips s bus chip) = [] \<and>
     nr_free_blocks (chips s bus chip) = NUM_BLOCKS_PER_CHIP \<and>
     nr_used_blks (chips s bus chip) = 0 \<and> nr_dirt_blks (chips s bus chip) = 0 \<and>
     (\<forall>block < NUM_BLOCKS_PER_CHIP. fresh_block bus chip block (blocks s (Blk bus chip block)))"

text \<open>Creating a chip leaves the blocks and lists of every other chip alone.\<close>

definition same_elsewhere :: "u32 \<Rightarrow> u32 \<Rightarrow> ssd_info \<Rightarrow> ssd_info \<Rightarrow> bool" where
  "same_elsewhere bus chip s s' \<longleftrightarrow>
     (\<forall>b c. (b, c) \<noteq> (bus, chip) \<longrightarrow> chips s' b c = chips s b c \<and>
        (\<forall>k. blocks s' (Blk b c k) = blocks s (Blk b c k)))"

lemma create_chip_spec:
  assumes v: "valid_chip bus chip"
  shows "\<exists>s'. create_chip bus chip s = Some s' \<and> fresh_chip bus chip s' \<and> same_elsewhere bus chip s s'"
proof -
  let ?s0 = "s\<lparr>chips := (chips s)(bus := (chips s bus)(chip := (chips s bus chip)\<lparr>chip_status := 0,
    nr_free_blocks := 0, nr_used_blks := 0, nr_dirt_blks := 0, nr_dirty_blocks := 0,
    free_blks := [], used_blks := [], dirt_blks := []\<rparr>))\<rparr>"
  let ?I = "\<lambda>done t. free_blks (chips t bus chip) = map (Blk bus chip) done \<and>
     used_blks (chips t bus chip) = [] \<and> dirt_blks (chips t bus chip) = [] \<and>
     nr_free_blocks (chips t bus chip) = of_nat (length done) \<and>
     nr_used_blks (chips t bus chip) = 0 \<and> nr_dirt_blks (chips t bus chip) = 0 \<and>
     (\<forall>block \<in> set done. fresh_block bus chip block (blocks t (Blk bus chip block))) \<and>
     same_elsewhere bus chip s t"
  have "\<exists>s'. foldM (create_block bus chip) (words_below NUM_BLOCKS_PER_CHIP) ?s0 = Some s' \<and>
      ?I (words_below NUM_BLOCKS_PER_CHIP) s'"
  proof (rule foldM_rule [where I = ?I])
    show "?I [] ?s0" by (auto simp: same_elsewhere_def)
    fix "done" x rest t
    assume l: "words_below NUM_BLOCKS_PER_CHIP = done @ x # rest" and I: "?I done t"
    have "x \<in> set (words_below NUM_BLOCKS_PER_CHIP)" by (simp only: l) simp
    then have vb: "valid_blk (Blk bus chip x)" using v by simp
    have "x \<notin> set done"
      using distinct_words_below [of "NUM_BLOCKS_PER_CHIP :: u32"] unfolding l by simp
    then have "Blk bus chip x \<notin> set (free_blks (chips t bus chip))" using I by auto
    from create_block_spec [OF vb this] obtain b where
      "create_block bus chip x t = Some (t\<lparr>blocks := (blocks t)(Blk bus chip x := b),
        chips := (chips t)(bus := (chips t bus)(chip := (chips t bus chip)\<lparr>
          free_blks := free_blks (chips t bus chip) @ [Blk bus chip x],
          nr_free_blocks := nr_free_blocks (chips t bus chip) + 1\<rparr>))\<rparr>)"
      "fresh_block bus chip x b" by blast
    then show "\<exists>s'. create_block bus chip x t = Some s' \<and> ?I (done @ [x]) s'"
      using I \<open>x \<notin> set done\<close> by (auto simp: same_elsewhere_def)
  qed
  then show ?thesis
    by (auto simp: create_chip_def st_valid v fresh_chip_def geometry_simps simp flip: One_nat_def)
qed

lemma words_below_CHIPS:
  "words_below (NUM_CHIPS_PER_BUS :: u32) = [0, 1]" "words_below (NUM_BUSES :: u32) = [0]"
  "words_below (NUM_CHIPS_PER_BUS :: u8) = [0, 1]" "words_below (NUM_BUSES :: u8) = [0]"
  by (simp_all add: words_below_def geometry_simps upt_rec)

lemma valid_chip_cases: "valid_chip bus chip \<longleftrightarrow> bus = 0 \<and> (chip = 0 \<or> chip = 1)"
proof -
  have "chip < NUM_CHIPS_PER_BUS \<longleftrightarrow> chip \<in> set (words_below NUM_CHIPS_PER_BUS)"
    "bus < NUM_BUSES \<longleftrightarrow> bus \<in> set (words_below NUM_BUSES)" by simp_all
  then show ?thesis unfolding valid_chip_def words_below_CHIPS by auto
qed

lemma fresh_chip_elsewhere:
  "fresh_chip b c s \<Longrightarrow> same_elsewhere bus chip s s' \<Longrightarrow> (b, c) \<noteq> (bus, chip) \<Longrightarrow> fresh_chip b c s'"
  by (simp add: fresh_chip_def same_elsewhere_def)

lemma create_ssd_info_spec:
  "\<exists>s'. create_ssd_info s = Some s' \<and> (\<forall>bus chip. valid_chip bus chip \<longrightarrow> fresh_chip bus chip s')"
proof -
  let ?s = "s\<lparr>nr_buses := NUM_BUSES, nr_chips_per_bus := NUM_CHIPS_PER_BUS,
       nr_blocks_per_chip := NUM_BLOCKS_PER_CHIP, nr_pages_per_block := NUM_PAGES_PER_BLOCK\<rparr>"
  have v: "valid_chip 0 0" "valid_chip 0 1" by (simp_all add: valid_chip_cases)
  obtain s1 where s1: "create_chip 0 0 ?s = Some s1" "fresh_chip 0 0 s1"
    using create_chip_spec [OF v(1)] by blast
  obtain s2 where s2: "create_chip 0 1 s1 = Some s2" "fresh_chip 0 1 s2" "same_elsewhere 0 1 s1 s2"
    using create_chip_spec [OF v(2)] by blast
  have "fresh_chip 0 0 s2" using fresh_chip_elsewhere [OF s1(2) s2(3)] by simp
  then show ?thesis
    using s1 s2 by (auto simp: create_ssd_info_def words_below_CHIPS valid_chip_cases)
qed

section \<open>Properties\<close>

text \<open>
  \<open>init_blk_inf\<close> on a block of the device returns, makes all its slots free and unmapped and
  all its counters those of an empty block, clears its active and reserved flags, and touches no other block and no list.
\<close>

theorem init_blk_inf_empties:
  assumes "valid_blk p"
  shows "\<exists>s'. init_blk_inf s p = Some s' \<and> blank_block (blocks s' p) \<and> blk_wf 0 (blocks s' p) \<and>
    is_active_block (blocks s' p) = 0 \<and> is_reserved_block (blocks s' p) = 0 \<and>
    nr_erase_cnt (blocks s' p) = nr_erase_cnt (blocks s p) \<and>
    chips s' = chips s \<and> (\<forall>q. q \<noteq> p \<longrightarrow> blocks s' q = blocks s q)"
  using wipe_block_blank [of "blocks s p"]
  by (simp add: init_blk_inf_eq [OF assms] blk_wf_blank) (simp add: wipe_block_def)

theorem init_blk_inf_empties_witness:
  "\<forall>s. \<exists>s'. init_blk_inf s (Blk 0 1 170) = Some s' \<and> blank_block (blocks s' (Blk 0 1 170))"
  using init_blk_inf_empties [of "Blk 0 1 170"] by (auto simp: valid_chip_def geometry_simps)

text \<open>
  \<open>create_ssd_info\<close>, when its allocations succeed, returns a device in which every
  block of every chip is empty, carries its own coordinates, has never been erased and is on the free list of
  its chip exactly once; the counters of the lists are right.
\<close>

theorem create_ssd_info_fresh:
  "\<exists>s. create_ssd_info junk = Some s \<and> (\<forall>bus chip. valid_chip bus chip \<longrightarrow>
     fresh_chip bus chip s \<and> distinct (free_blks (chips s bus chip)) \<and>
     nr_free_blocks (chips s bus chip) = of_nat (length (free_blks (chips s bus chip))))"
proof -
  obtain s where s: "create_ssd_info junk = Some s" "\<And>bus chip. valid_chip bus chip \<Longrightarrow> fresh_chip bus chip s"
    using create_ssd_info_spec [of junk] by blast
  have d: "distinct (map (Blk bus chip) (words_below NUM_BLOCKS_PER_CHIP))" for bus chip
    by (simp add: distinct_map inj_on_def)
  have l: "of_nat (length (map (Blk bus chip) (words_below NUM_BLOCKS_PER_CHIP))) = (NUM_BLOCKS_PER_CHIP :: u32)" for bus chip
    by simp
  have "fresh_chip bus chip s \<and> distinct (free_blks (chips s bus chip)) \<and>
      nr_free_blocks (chips s bus chip) = of_nat (length (free_blks (chips s bus chip)))"
    if "valid_chip bus chip" for bus chip
  proof -
    have f: "free_blks (chips s bus chip) = map (Blk bus chip) (words_below NUM_BLOCKS_PER_CHIP)"
      "nr_free_blocks (chips s bus chip) = NUM_BLOCKS_PER_CHIP"
      using s(2) [OF that] unfolding fresh_chip_def by blast+
    show ?thesis
    proof (intro conjI)
      show "fresh_chip bus chip s" by (rule s(2) [OF that])
      show "distinct (free_blks (chips s bus chip))" unfolding f(1) by (rule d)
      show "nr_free_blocks (chips s bus chip) = of_nat (length (free_blks (chips s bus chip)))"
        unfolding f(1) l by (rule f(2))
    qed
  qed
  then show ?thesis using s(1) by blast
qed

theorem create_ssd_info_fresh_witness:
  "\<forall>junk. \<exists>s. create_ssd_info junk = Some s \<and> distinct (free_blks (chips s 0 1))"
  using create_ssd_info_fresh by (metis valid_chip_cases)

end
