(* ===== verification/FB_Mapping.thy ===== *)
theory FB_Mapping
  imports FB_Context FB_Init
begin

text \<open>
  The mapping operations of the FTL: \<open>page_mapping_function.c\<close> and \<open>rust/src/page_mapping_function.rs\<close>.
  An integer result is the C result code; an output parameter that is written on one path only
  is an \<open>option\<close> of its own.
\<close>

section \<open>Bus and chip rotation\<close>

definition set_prev_bus_chip :: "fb_context_t \<Rightarrow> u8 \<Rightarrow> u8 \<Rightarrow> fb_context_t" where
  "set_prev_bus_chip fb bus chip = upd_abm fb (\<lambda>abm. abm\<lparr>mru_bus := ucast bus, mru_chip := ucast chip\<rparr>)"

definition get_prev_bus_chip :: "fb_context_t \<Rightarrow> u8 \<times> u8" where
  "get_prev_bus_chip fb = (let abm = get_abm (get_ftl fb) in (ucast (mru_bus abm), ucast (mru_chip abm)))"

definition get_next_bus_chip :: "fb_context_t \<Rightarrow> u8 \<times> u8" where
  "get_next_bus_chip fb = (let abm = get_abm (get_ftl fb) in
     if mru_bus abm = NUM_BUSES - 1
     then (0, if mru_chip abm = NUM_CHIPS_PER_BUS - 1 then 0 else ucast (mru_chip abm + 1))
     else (ucast (mru_bus abm + 1), ucast (mru_chip abm)))"

section \<open>The mapping table\<close>

definition get_mapped_ppa :: "page_mapping_context_t \<Rightarrow> u32 \<Rightarrow> u32 option" where
  "get_mapped_ppa ftl lpa = (let mt = ptr_mapping_table ftl in
     if lpa < nr_entries mt then Some (mappings mt lpa) else None)"

definition set_mapped_ppa :: "page_mapping_context_t \<Rightarrow> u32 \<Rightarrow> u32 \<Rightarrow> page_mapping_context_t option" where
  "set_mapped_ppa ftl lpa ppa = (let mt = ptr_mapping_table ftl in
     if lpa < nr_entries mt
     then Some (ftl\<lparr>ptr_mapping_table := mt\<lparr>mappings := (mappings mt)(lpa := ppa)\<rparr>\<rparr>)
     else None)"

definition get_mapped_physical_address ::
  "fb_context_t \<Rightarrow> u32 \<Rightarrow> (u32 \<times> (u32 \<times> u32 \<times> u32 \<times> u32) option) option" where
  "get_mapped_physical_address fb lpa =
     (if \<not> is_valid_address_range lpa then Some (PAGE_UNMAPPED, None)
      else do {
        ppa \<leftarrow> get_mapped_ppa (ptr_mapping_context fb) lpa;
        if ppa = PAGE_UNMAPPED then Some (PAGE_UNMAPPED, None)
        else Some (ppa, Some (convert_to_ssd_layout ppa)) })"

section \<open>The active and GC block of a chip\<close>

definition chip_idx :: "u32 \<Rightarrow> u32 \<Rightarrow> nat" where
  "chip_idx bus chip = unat (bus * NUM_CHIPS_PER_BUS + chip)"

definition get_curr_gc_block :: "fb_context_t \<Rightarrow> u32 \<Rightarrow> u32 \<Rightarrow> blkptr option option" where
  "get_curr_gc_block fb bus chip = ld_nth (gc_blks (get_gcm (get_ftl fb))) (chip_idx bus chip)"

definition set_curr_gc_block ::
  "fb_context_t \<Rightarrow> u32 \<Rightarrow> u32 \<Rightarrow> blkptr option \<Rightarrow> fb_context_t option" where
  "set_curr_gc_block fb bus chip blki = do {
     xs \<leftarrow> st_nth (gc_blks (get_gcm (get_ftl fb))) (chip_idx bus chip) blki;
     let fb = upd_gcm fb (\<lambda>g. g\<lparr>gc_blks := xs\<rparr>);
     case blki of None \<Rightarrow> Some fb | Some p \<Rightarrow> ssd_do fb (\<lambda>s. set_rsv_blk_flag s p 1) }"

definition get_curr_active_block :: "fb_context_t \<Rightarrow> u32 \<Rightarrow> u32 \<Rightarrow> blkptr option option" where
  "get_curr_active_block fb bus chip = ld_nth (act_blks (get_abm (get_ftl fb))) (chip_idx bus chip)"

definition set_curr_active_block ::
  "fb_context_t \<Rightarrow> u32 \<Rightarrow> u32 \<Rightarrow> blkptr option \<Rightarrow> fb_context_t option" where
  "set_curr_active_block fb bus chip blki = do {
     xs \<leftarrow> st_nth (act_blks (get_abm (get_ftl fb))) (chip_idx bus chip) blki;
     let fb = upd_abm fb (\<lambda>a. a\<lparr>act_blks := xs\<rparr>);
     case blki of None \<Rightarrow> Some fb | Some p \<Rightarrow> ssd_do fb (\<lambda>s. set_act_blk_flag s p 1) }"

section \<open>Allocating a wordline\<close>

definition alloc_new_page ::
  "fb_context_t \<Rightarrow> u8 \<Rightarrow> u8 \<Rightarrow> (int \<times> (u32 \<times> u32) option \<times> fb_context_t) option" where
  "alloc_new_page fb bus chip = do {
     act \<leftarrow> get_curr_active_block fb (ucast bus) (ucast chip);
     (blki, fb) \<leftarrow> (case act of
         Some blki \<Rightarrow> Some (Some blki, fb)
       | None \<Rightarrow> do {
           free \<leftarrow> get_free_block (get_ssd_inf fb) (ucast bus) (ucast chip);
           case free of
             None \<Rightarrow> Some (None, fb)
           | Some blki \<Rightarrow> do {
               fb \<leftarrow> ssd_do fb (\<lambda>s. reset_free_blk s blki);
               fb \<leftarrow> set_curr_active_block fb (ucast bus) (ucast chip) (Some blki);
               Some (Some blki, fb) } });
     case blki of
       None \<Rightarrow> Some (-1, None, fb)
     | Some blki \<Rightarrow> do {
         b \<leftarrow> ld_blk (get_ssd_inf fb) blki;
         n \<leftarrow> get_nr_free_pgs (get_ssd_inf fb) blki;
         Some (0, Some (no_block b, NUM_PAGES_PER_BLOCK - n), fb) } }"

definition update_act_blk :: "fb_context_t \<Rightarrow> u8 \<Rightarrow> u8 \<Rightarrow> fb_context_t option" where
  "update_act_blk fb bus chip = do {
     act \<leftarrow> get_curr_active_block fb (ucast bus) (ucast chip);
     case act of
       None \<Rightarrow> None
     | Some blki \<Rightarrow> do {
         n \<leftarrow> get_nr_free_pgs (get_ssd_inf fb) blki;
         if n = 0 then do {
           fb \<leftarrow> ssd_do fb (\<lambda>s. set_act_blk_flag s blki 0);
           fb \<leftarrow> ssd_do fb (\<lambda>s. set_used_blk s blki);
           blki \<leftarrow> get_free_block (get_ssd_inf fb) (ucast bus) (ucast chip);
           fb \<leftarrow> (case blki of None \<Rightarrow> Some fb | Some p \<Rightarrow> ssd_do fb (\<lambda>s. reset_free_blk s p));
           set_curr_active_block fb (ucast bus) (ucast chip) blki }
         else Some fb } }"

section \<open>Mapping and unmapping a logical page\<close>

definition invalidate_lpg :: "fb_context_t \<Rightarrow> u32 \<Rightarrow> (u32 \<times> fb_context_t) option" where
  "invalidate_lpg fb lpa = do {
     ppa \<leftarrow> get_mapped_ppa (get_ftl fb) lpa;
     if ppa \<noteq> PAGE_UNMAPPED then do {
       let (bus, chip, blk, pg) = convert_to_ssd_layout ppa;
       let blki = get_block_info bus chip blk;
       let pgi = get_page_info bus chip blk (drop_bit LP_PAGE_SHIFT pg);
       fb \<leftarrow> ssd_do fb (\<lambda>s. set_pg_status s pgi (ucast (pg AND LP_PAGE_MASK)) PAGE_STATUS_INVALID);
       (_, fb) \<leftarrow> ssd_upd fb (\<lambda>s. inc_nr_invalid_lps_in_blk s blki);
       (_, fb) \<leftarrow> ssd_upd fb (\<lambda>s. dec_nr_valid_lps_in_blk s blki);
       (n, fb) \<leftarrow> ssd_upd fb (\<lambda>s. inc_nr_invalid_lps s pgi);
       fb \<leftarrow> (if n = NR_LP_IN_PP then do {
           (_, fb) \<leftarrow> ssd_upd fb (\<lambda>s. dec_nr_valid_pgs s blki);
           (m, fb) \<leftarrow> ssd_upd fb (\<lambda>s. inc_nr_invalid_pgs s blki);
           if m = NUM_PAGES_PER_BLOCK then do {
             fb \<leftarrow> ssd_do fb (\<lambda>s. reset_used_blk s blki);
             gc \<leftarrow> get_curr_gc_block fb bus chip;
             case gc of
               None \<Rightarrow> set_curr_gc_block fb bus chip (Some blki)
             | Some _ \<Rightarrow> ssd_do fb (\<lambda>s. set_dirt_blk s blki) }
           else Some fb }
         else Some fb);
       ftl \<leftarrow> set_mapped_ppa (get_ftl fb) lpa PAGE_UNMAPPED;
       Some (ppa, set_ftl fb ftl) }
     else Some (ppa, fb) }"

definition map_one_logical_to_physical ::
  "fb_context_t \<Rightarrow> u32 \<Rightarrow> u32 \<Rightarrow> u32 \<Rightarrow> u32 \<Rightarrow> u32 \<Rightarrow> u8 \<Rightarrow> (int \<times> fb_context_t) option" where
  "map_one_logical_to_physical fb lpa bus chip blk pg lp_ofs = do {
     let blki = get_block_info bus chip blk;
     let pgi = get_page_info bus chip blk pg;
     fb \<leftarrow> (if lpa \<noteq> PAGE_UNMAPPED then do {
         (_, fb) \<leftarrow> invalidate_lpg fb lpa;
         (_, fb) \<leftarrow> ssd_upd fb (\<lambda>s. inc_nr_valid_lps_in_blk s blki);
         fb \<leftarrow> ssd_do fb (\<lambda>s. set_pg_status s pgi lp_ofs PAGE_STATUS_VALID);
         ftl \<leftarrow> set_mapped_ppa (get_ftl fb) lpa
           (convert_to_physical_address bus chip blk (push_bit LP_PAGE_SHIFT pg OR ucast lp_ofs));
         Some (set_ftl fb ftl) }
       else do {
         (_, fb) \<leftarrow> ssd_upd fb (\<lambda>s. inc_nr_invalid_lps_in_blk s blki);
         (_, fb) \<leftarrow> ssd_upd fb (\<lambda>s. inc_nr_invalid_lps s pgi);
         ssd_do fb (\<lambda>s. set_pg_status s pgi lp_ofs PAGE_STATUS_INVALID) });
     fb \<leftarrow> ssd_do fb (\<lambda>s. set_mapped_lpa s pgi lp_ofs lpa);
     if lp_ofs = NR_LP_IN_PP - 1 then do {
       (_, fb) \<leftarrow> ssd_upd fb (\<lambda>s. inc_nr_valid_pgs s blki);
       (_, fb) \<leftarrow> ssd_upd fb (\<lambda>s. dec_nr_free_pgs s blki);
       Some (0, fb) }
     else Some (0, fb) }"

text \<open>The logical addresses of the wordline start at position \<open>pos\<close> of the array \<open>lpas\<close>.\<close>

definition map_logical_to_physical ::
  "fb_context_t \<Rightarrow> u32 list \<Rightarrow> nat \<Rightarrow> u32 \<Rightarrow> u32 \<Rightarrow> u32 \<Rightarrow> u32 \<Rightarrow> (int \<times> fb_context_t) option" where
  "map_logical_to_physical fb lpas pos bus chip block page = do {
     (r, ret, fb) \<leftarrow> for_ret (\<lambda>lp_loop (_, fb). do {
         lpa \<leftarrow> ld_nth lpas (pos + unat lp_loop);
         (ret, fb) \<leftarrow> map_one_logical_to_physical fb lpa bus chip block page lp_loop;
         Some (if ret = -1 then Some ret else None, ret, fb) })
       (words_below (NR_LP_IN_PP :: u8)) (-1, fb);
     Some (ret, fb) }"

end
