(* ===== verification/FB_Ftl_Inv.thy ===== *)
theory FB_Ftl_Inv
  imports FB_Mapping "HOL-Library.Multiset"
begin

text \<open>
  The invariant of the page-mapping FTL. Every block of a chip has exactly one role: it is on
  the free, used or dirty list, or it is the active or the GC block of its chip. Blocks that do not hold
  data a read may need (free, dirty, GC) have no valid slot. The mapping table and the valid
  slots describe each other. \<open>ftl_inv pt ex\<close> is the invariant while \<open>pt p\<close> slots of the
  wordline at the frontier of \<open>p\<close> are programmed, and the active blocks in \<open>ex\<close> may be full
  (between mapping a wordline and \<open>update_act_blk\<close>).
\<close>

section \<open>Reading the state\<close>

definition act_of :: "fb_context_t \<Rightarrow> u32 \<Rightarrow> u32 \<Rightarrow> blkptr option" where
  "act_of fb bus chip = (if valid_chip bus chip
     then act_blks (ftl_abm (ptr_mapping_context fb)) ! chip_idx bus chip else None)"

definition gc_of :: "fb_context_t \<Rightarrow> u32 \<Rightarrow> u32 \<Rightarrow> blkptr option" where
  "gc_of fb bus chip = (if valid_chip bus chip
     then gc_blks (ftl_gcm (ptr_mapping_context fb)) ! chip_idx bus chip else None)"

abbreviation l2p :: "fb_context_t \<Rightarrow> u32 \<Rightarrow> u32" where
  "l2p fb \<equiv> mappings (ptr_mapping_table (ptr_mapping_context fb))"

abbreviation blk_of :: "fb_context_t \<Rightarrow> blkptr \<Rightarrow> flash_block" where
  "blk_of fb \<equiv> blocks (ptr_ssd_info fb)"

abbreviation chip_of :: "fb_context_t \<Rightarrow> u32 \<Rightarrow> u32 \<Rightarrow> flash_chip" where
  "chip_of fb \<equiv> chips (ptr_ssd_info fb)"

text \<open>The contents a read of a logical page has to return.\<close>

definition ftl_data :: "fb_context_t \<Rightarrow> u32 \<rightharpoonup> lpdata" where
  "ftl_data fb lpa =
     (if is_valid_address_range lpa \<and> l2p fb lpa \<noteq> PAGE_UNMAPPED
      then case ppa_slot (l2p fb lpa) of (p, pg, i) \<Rightarrow> Some (vdata (ptr_vdevice fb) p pg ! unat i)
      else None)"

section \<open>The invariant\<close>

definition all_dead :: "flash_block \<Rightarrow> bool" where
  "all_dead b \<longleftrightarrow> (\<forall>pg < NUM_PAGES_PER_BLOCK. \<forall>i < NR_LP_IN_PP. bst b pg i = PAGE_STATUS_INVALID)"

definition olist :: "'a option \<Rightarrow> 'a list" where
  "olist x = (case x of None \<Rightarrow> [] | Some y \<Rightarrow> [y])"

definition roles :: "flash_chip \<Rightarrow> blkptr option \<Rightarrow> blkptr option \<Rightarrow> blkptr list" where
  "roles ci a g = free_blks ci @ used_blks ci @ dirt_blks ci @ olist a @ olist g"

definition chip_part :: "u32 \<Rightarrow> u32 \<Rightarrow> flash_chip \<Rightarrow> blkptr option \<Rightarrow> blkptr option \<Rightarrow> bool" where
  "chip_part bus chip ci a g \<longleftrightarrow>
     mset (roles ci a g) = mset (map (Blk bus chip) (words_below NUM_BLOCKS_PER_CHIP)) \<and>
     nr_free_blocks ci = of_nat (length (free_blks ci)) \<and>
     nr_used_blks ci = of_nat (length (used_blks ci)) \<and>
     nr_dirt_blks ci = of_nat (length (dirt_blks ci))"

definition roles_ok ::
  "(blkptr \<Rightarrow> flash_block) \<Rightarrow> blkptr set \<Rightarrow> flash_chip \<Rightarrow> blkptr option \<Rightarrow> blkptr option \<Rightarrow> bool" where
  "roles_ok B ex ci a g \<longleftrightarrow>
     (\<forall>p \<in> set (free_blks ci). nr_free_pages (B p) = NUM_PAGES_PER_BLOCK) \<and>
     (\<forall>p \<in> set (used_blks ci). nr_free_pages (B p) = 0 \<and> \<not> all_dead (B p)) \<and>
     (\<forall>p \<in> set (dirt_blks ci). all_dead (B p)) \<and>
     (\<forall>p. g = Some p \<longrightarrow> nr_free_pages (B p) = NUM_PAGES_PER_BLOCK \<or> all_dead (B p)) \<and>
     (\<forall>p. a = Some p \<longrightarrow> p \<in> ex \<or> 0 < nr_free_pages (B p))"

definition ids_ok :: "(blkptr \<Rightarrow> flash_block) \<Rightarrow> bool" where
  "ids_ok B \<longleftrightarrow> (\<forall>p. valid_blk p \<longrightarrow>
     no_bus (B p) = blk_bus p \<and> no_chip (B p) = blk_chip p \<and> no_block (B p) = blk_no p)"

definition map_ok :: "(blkptr \<Rightarrow> flash_block) \<Rightarrow> (u32 \<Rightarrow> u32) \<Rightarrow> bool" where
  "map_ok B m \<longleftrightarrow>
     (\<forall>lpa. is_valid_address_range lpa \<longrightarrow> m lpa = PAGE_UNMAPPED \<or>
        (\<exists>p pg i. valid_blk p \<and> pg < NUM_PAGES_PER_BLOCK \<and> i < NR_LP_IN_PP \<and>
           m lpa = slot_ppa p pg i \<and> bst (B p) pg i = PAGE_STATUS_VALID \<and> blpa (B p) pg i = lpa)) \<and>
     (\<forall>p pg i. valid_blk p \<longrightarrow> pg < NUM_PAGES_PER_BLOCK \<longrightarrow> i < NR_LP_IN_PP \<longrightarrow>
        bst (B p) pg i = PAGE_STATUS_VALID \<longrightarrow>
        is_valid_address_range (blpa (B p) pg i) \<and> m (blpa (B p) pg i) = slot_ppa p pg i)"

definition sizes_ok :: "fb_context_t \<Rightarrow> bool" where
  "sizes_ok fb \<longleftrightarrow>
     nr_entries (ptr_mapping_table (ptr_mapping_context fb)) = of_nat NUM_LOG_PAGES \<and>
     length (act_blks (ftl_abm (ptr_mapping_context fb))) = NUM_CHIPS \<and>
     mru_bus (ftl_abm (ptr_mapping_context fb)) < NUM_BUSES \<and>
     mru_chip (ftl_abm (ptr_mapping_context fb)) < NUM_CHIPS_PER_BUS \<and>
     length (gc_blks (ftl_gcm (ptr_mapping_context fb))) = NUM_CHIPS \<and>
     length (vic_blks (ftl_gcm (ptr_mapping_context fb))) = NUM_CHIPS \<and>
     length (first_valid_pg (ftl_gcm (ptr_mapping_context fb))) = NUM_CHIPS \<and>
     length (lpas_to_copy (ftl_gcm (ptr_mapping_context fb))) = NUM_CHIPS * NUM_PAGES_PER_BLOCK * NR_LP_IN_PP \<and>
     NUM_CHIPS * NUM_PAGES_PER_BLOCK * NR_LP_IN_PP \<le> length (data_to_copy (ftl_gcm (ptr_mapping_context fb))) \<and>
     (\<forall>p pg. valid_blk p \<longrightarrow> pg < NUM_PAGES_PER_BLOCK \<longrightarrow>
        length (vdata (ptr_vdevice fb) p pg) = NR_LP_IN_PP)"

definition ftl_inv :: "(blkptr \<Rightarrow> nat) \<Rightarrow> blkptr set \<Rightarrow> fb_context_t \<Rightarrow> bool" where
  "ftl_inv pt ex fb \<longleftrightarrow> sizes_ok fb \<and> ids_ok (blk_of fb) \<and>
     (\<forall>p. valid_blk p \<longrightarrow> blk_wf (pt p) (blk_of fb p) \<and> pt p < 4 \<and>
        (pt p \<noteq> 0 \<longrightarrow> act_of fb (blk_bus p) (blk_chip p) = Some p)) \<and>
     (\<forall>bus chip. valid_chip bus chip \<longrightarrow>
        chip_part bus chip (chip_of fb bus chip) (act_of fb bus chip) (gc_of fb bus chip) \<and>
        roles_ok (blk_of fb) ex (chip_of fb bus chip) (act_of fb bus chip) (gc_of fb bus chip)) \<and>
     map_ok (blk_of fb) (l2p fb)"

abbreviation ftl_ok :: "fb_context_t \<Rightarrow> bool" where
  "ftl_ok \<equiv> ftl_inv (\<lambda>_. 0) {}"

text \<open>What the mapping operations leave alone.\<close>

definition frame :: "fb_context_t \<Rightarrow> fb_context_t \<Rightarrow> bool" where
  "frame fb fb' \<longleftrightarrow> (let c = ptr_mapping_context fb; c' = ptr_mapping_context fb' in
     ptr_vdevice fb' = ptr_vdevice fb \<and> fb_wbuf fb' = fb_wbuf fb \<and> fb_perf fb' = fb_perf fb \<and>
     dev_lock fb' = dev_lock fb \<and> fb_err fb' = fb_err fb \<and>
     background_gc_time_stamp fb' = background_gc_time_stamp fb \<and>
     mapping_context_lock c' = mapping_context_lock c \<and> ftl_delm c' = ftl_delm c \<and>
     lpas_to_discard c' = lpas_to_discard c \<and>
     nr_entries (ptr_mapping_table c') = nr_entries (ptr_mapping_table c) \<and>
     length (act_blks (ftl_abm c')) = length (act_blks (ftl_abm c)) \<and>
     mru_bus (ftl_abm c') = mru_bus (ftl_abm c) \<and> mru_chip (ftl_abm c') = mru_chip (ftl_abm c) \<and>
     length (gc_blks (ftl_gcm c')) = length (gc_blks (ftl_gcm c)) \<and>
     vic_blks (ftl_gcm c') = vic_blks (ftl_gcm c) \<and>
     first_valid_pg (ftl_gcm c') = first_valid_pg (ftl_gcm c) \<and>
     lpas_to_copy (ftl_gcm c') = lpas_to_copy (ftl_gcm c) \<and>
     data_to_copy (ftl_gcm c') = data_to_copy (ftl_gcm c) \<and>
     nr_pgs_to_copy (ftl_gcm c') = nr_pgs_to_copy (ftl_gcm c))"

lemma frame_refl [simp]: "frame fb fb"
  by (simp add: frame_def Let_def)

lemma frame_trans [trans]: "frame fb fb' \<Longrightarrow> frame fb' fb'' \<Longrightarrow> frame fb fb''"
  by (simp add: frame_def Let_def)

lemma frame_sizes: "frame fb fb' \<Longrightarrow> sizes_ok fb \<Longrightarrow> sizes_ok fb'"
  by (simp add: frame_def Let_def sizes_ok_def)

section \<open>Access to the arrays indexed by chip\<close>

lemma chip_idx_less: "valid_chip bus chip \<Longrightarrow> chip_idx bus chip < NUM_CHIPS"
  by (auto simp: valid_chip_cases chip_idx_def geometry_simps)

lemma chip_idx_inj:
  "valid_chip b c \<Longrightarrow> valid_chip b' c' \<Longrightarrow> chip_idx b c = chip_idx b' c' \<longleftrightarrow> b = b' \<and> c = c'"
  by (auto simp: valid_chip_cases chip_idx_def geometry_simps)

lemma get_curr_gc_block_eq:
  assumes "sizes_ok fb" "valid_chip bus chip"
  shows "get_curr_gc_block fb bus chip = Some (gc_of fb bus chip)"
  using assms chip_idx_less [OF assms(2)]
  by (simp add: get_curr_gc_block_def ld_nth_def gc_of_def sizes_ok_def get_gcm_def get_ftl_def)

lemma get_curr_active_block_eq:
  assumes "sizes_ok fb" "valid_chip bus chip"
  shows "get_curr_active_block fb bus chip = Some (act_of fb bus chip)"
  using assms chip_idx_less [OF assms(2)]
  by (simp add: get_curr_active_block_def ld_nth_def act_of_def sizes_ok_def get_abm_def get_ftl_def)

definition put_gc :: "fb_context_t \<Rightarrow> u32 \<Rightarrow> u32 \<Rightarrow> blkptr option \<Rightarrow> fb_context_t" where
  "put_gc fb bus chip x = upd_gcm fb (\<lambda>g. g\<lparr>gc_blks := (gc_blks g)[chip_idx bus chip := x]\<rparr>)"

definition put_act :: "fb_context_t \<Rightarrow> u32 \<Rightarrow> u32 \<Rightarrow> blkptr option \<Rightarrow> fb_context_t" where
  "put_act fb bus chip x = upd_abm fb (\<lambda>a. a\<lparr>act_blks := (act_blks a)[chip_idx bus chip := x]\<rparr>)"

definition put_ssd :: "fb_context_t \<Rightarrow> ssd_info \<Rightarrow> fb_context_t" where
  "put_ssd fb s = fb\<lparr>ptr_ssd_info := s\<rparr>"

definition put_l2p :: "fb_context_t \<Rightarrow> (u32 \<Rightarrow> u32) \<Rightarrow> fb_context_t" where
  "put_l2p fb m = set_ftl fb ((get_ftl fb)\<lparr>
     ptr_mapping_table := (ptr_mapping_table (get_ftl fb))\<lparr>mappings := m\<rparr>\<rparr>)"

lemmas put_defs = put_gc_def put_act_def put_ssd_def put_l2p_def upd_gcm_def upd_abm_def
  set_ftl_def get_ftl_def get_gcm_def get_abm_def get_ssd_inf_def

lemma frame_put [simp]:
  "frame fb (put_gc fb' bus chip x) = frame fb fb'" "frame fb (put_act fb' bus chip x) = frame fb fb'"
  "frame fb (put_ssd fb' s) = frame fb fb'" "frame fb (put_l2p fb' m) = frame fb fb'"
  by (simp_all add: frame_def Let_def put_defs)

lemma put_gc_fields [simp]:
  "ptr_ssd_info (put_gc fb bus chip x) = ptr_ssd_info fb" "l2p (put_gc fb bus chip x) = l2p fb"
  "act_of (put_gc fb bus chip x) = act_of fb"
  by (simp_all add: put_defs act_of_def fun_eq_iff)

lemma put_act_fields [simp]:
  "ptr_ssd_info (put_act fb bus chip x) = ptr_ssd_info fb" "l2p (put_act fb bus chip x) = l2p fb"
  "gc_of (put_act fb bus chip x) = gc_of fb"
  by (simp_all add: put_defs gc_of_def fun_eq_iff)

lemma put_ssd_fields [simp]:
  "ptr_ssd_info (put_ssd fb s) = s" "l2p (put_ssd fb s) = l2p fb"
  "gc_of (put_ssd fb s) = gc_of fb" "act_of (put_ssd fb s) = act_of fb"
  "put_ssd (put_ssd fb s) s' = put_ssd fb s'"
  by (simp_all add: put_defs gc_of_def act_of_def fun_eq_iff)

lemma put_l2p_fields [simp]:
  "ptr_ssd_info (put_l2p fb m) = ptr_ssd_info fb" "l2p (put_l2p fb m) = m"
  "gc_of (put_l2p fb m) = gc_of fb" "act_of (put_l2p fb m) = act_of fb"
  by (simp_all add: put_defs gc_of_def act_of_def fun_eq_iff)

lemma gc_of_put_gc:
  assumes "sizes_ok fb" "valid_chip bus chip"
  shows "gc_of (put_gc fb bus chip x) b c = (if b = bus \<and> c = chip then x else gc_of fb b c)"
  using assms chip_idx_less [OF assms(2)] chip_idx_inj [OF assms(2), of b c]
  by (auto simp: gc_of_def put_defs sizes_ok_def nth_list_update)

lemma act_of_put_act:
  assumes "sizes_ok fb" "valid_chip bus chip"
  shows "act_of (put_act fb bus chip x) b c = (if b = bus \<and> c = chip then x else act_of fb b c)"
  using assms chip_idx_less [OF assms(2)] chip_idx_inj [OF assms(2), of b c]
  by (auto simp: act_of_def put_defs sizes_ok_def nth_list_update)

text \<open>The operations of the model in terms of these updates.\<close>

lemma ssd_do_eq: "ssd_do fb f = map_option (put_ssd fb) (f (ptr_ssd_info fb))"
  by (simp add: ssd_do_def put_defs cong: map_option_cong)

lemma ssd_upd_eq: "ssd_upd fb f = map_option (\<lambda>(r, s). (r, put_ssd fb s)) (f (ptr_ssd_info fb))"
  by (simp add: ssd_upd_def put_defs cong: map_option_cong)

definition set_blk :: "ssd_info \<Rightarrow> blkptr \<Rightarrow> flash_block \<Rightarrow> ssd_info" where
  "set_blk s p b = s\<lparr>blocks := (blocks s)(p := b)\<rparr>"

lemma set_blk_simps [simp]:
  "blocks (set_blk s p b) = (blocks s)(p := b)" "chips (set_blk s p b) = chips s"
  "set_blk (set_blk s p b) p b' = set_blk s p b'"
  by (simp_all add: set_blk_def)

definition set_chip :: "ssd_info \<Rightarrow> blkptr \<Rightarrow> flash_chip \<Rightarrow> ssd_info" where
  "set_chip s p ci = s\<lparr>chips := (chips s)(blk_bus p := (chips s (blk_bus p))(blk_chip p := ci))\<rparr>"

abbreviation chip_at :: "ssd_info \<Rightarrow> blkptr \<Rightarrow> flash_chip" where
  "chip_at s p \<equiv> chips s (blk_bus p) (blk_chip p)"

lemma set_chip_simps [simp]:
  "blocks (set_chip s p ci) = blocks s"
  "chips (set_chip s p ci) b c = (if b = blk_bus p \<and> c = blk_chip p then ci else chips s b c)"
  "set_chip (set_chip s p ci) p ci' = set_chip s p ci'"
  by (simp_all add: set_chip_def)

lemma valid_blk_chip: "valid_blk p \<Longrightarrow> valid_chip (blk_bus p) (blk_chip p)"
  by (cases p) simp

lemma set_curr_gc_block_None:
  assumes "sizes_ok fb" "valid_chip bus chip"
  shows "set_curr_gc_block fb bus chip None = Some (put_gc fb bus chip None)"
  using assms chip_idx_less [OF assms(2)]
  by (simp add: set_curr_gc_block_def st_nth_def put_defs sizes_ok_def Let_def)

lemma set_curr_gc_block_Some:
  assumes "sizes_ok fb" "valid_chip bus chip" "valid_blk p"
  shows "set_curr_gc_block fb bus chip (Some p) = Some (put_gc (put_ssd fb
    (set_blk (ptr_ssd_info fb) p ((blk_of fb p)\<lparr>is_reserved_block := 1\<rparr>))) bus chip (Some p))"
  using assms chip_idx_less [OF assms(2)]
  by (simp add: set_curr_gc_block_def st_nth_def put_defs sizes_ok_def Let_def ssd_do_def
      set_rsv_blk_flag_def st_valid set_blk_def)

lemma set_curr_active_block_None:
  assumes "sizes_ok fb" "valid_chip bus chip"
  shows "set_curr_active_block fb bus chip None = Some (put_act fb bus chip None)"
  using assms chip_idx_less [OF assms(2)]
  by (simp add: set_curr_active_block_def st_nth_def put_defs sizes_ok_def Let_def)

lemma set_curr_active_block_Some:
  assumes "sizes_ok fb" "valid_chip bus chip" "valid_blk p"
  shows "set_curr_active_block fb bus chip (Some p) = Some (put_act (put_ssd fb
    (set_blk (ptr_ssd_info fb) p ((blk_of fb p)\<lparr>is_active_block := 1\<rparr>))) bus chip (Some p))"
  using assms chip_idx_less [OF assms(2)]
  by (simp add: set_curr_active_block_def st_nth_def put_defs sizes_ok_def Let_def ssd_do_def
      set_act_blk_flag_def st_valid set_blk_def)

section \<open>List operations of a chip\<close>

lemma chip_list_ops:
  assumes "valid_blk p" "no_bus (blocks s p) = blk_bus p" "no_chip (blocks s p) = blk_chip p"
  shows "p \<in> set (used_blks (chip_at s p)) \<Longrightarrow> reset_used_blk s p = Some (set_chip s p
      ((chip_at s p)\<lparr>used_blks := remove1 p (used_blks (chip_at s p)),
        nr_used_blks := nr_used_blks (chip_at s p) - 1\<rparr>))"
    and "p \<in> set (free_blks (chip_at s p)) \<Longrightarrow> reset_free_blk s p = Some (set_chip s p
      ((chip_at s p)\<lparr>free_blks := remove1 p (free_blks (chip_at s p)),
        nr_free_blocks := nr_free_blocks (chip_at s p) - 1\<rparr>))"
    and "p \<in> set (dirt_blks (chip_at s p)) \<Longrightarrow> reset_dirt_blk s p = Some (set_chip s p
      ((chip_at s p)\<lparr>dirt_blks := remove1 p (dirt_blks (chip_at s p)),
        nr_dirt_blks := nr_dirt_blks (chip_at s p) - 1\<rparr>))"
    and "p \<notin> set (used_blks (chip_at s p)) \<Longrightarrow> set_used_blk s p = Some (set_chip s p
      ((chip_at s p)\<lparr>used_blks := used_blks (chip_at s p) @ [p],
        nr_used_blks := nr_used_blks (chip_at s p) + 1\<rparr>))"
    and "p \<notin> set (free_blks (chip_at s p)) \<Longrightarrow> set_free_blk s p = Some (set_chip s p
      ((chip_at s p)\<lparr>free_blks := free_blks (chip_at s p) @ [p],
        nr_free_blocks := nr_free_blocks (chip_at s p) + 1\<rparr>))"
    and "p \<notin> set (dirt_blks (chip_at s p)) \<Longrightarrow> set_dirt_blk s p = Some (set_chip s p
      ((chip_at s p)\<lparr>dirt_blks := dirt_blks (chip_at s p) @ [p],
        nr_dirt_blks := nr_dirt_blks (chip_at s p) + 1\<rparr>))"
  using assms valid_blk_chip [OF assms(1)]
  by (simp_all add: reset_used_blk_def reset_free_blk_def reset_dirt_blk_def set_used_blk_def
      set_free_blk_def set_dirt_blk_def st_valid get_chip_info_def list_delete_def list_append_def
      set_chip_def)

end
