(* ===== verification/FB_Mapping_Inv.thy ===== *)
theory FB_Mapping_Inv
  imports FB_Ftl_Inv
begin

text \<open>
  The mapping operations keep the FTL invariant, and what each of them does to the logical
  contents.
\<close>

section \<open>Consequences of the invariant\<close>

lemma ftl_invD:
  assumes "ftl_inv pt ex fb"
  shows "sizes_ok fb" "ids_ok (blk_of fb)" "map_ok (blk_of fb) (l2p fb)"
    and "valid_blk p \<Longrightarrow> blk_wf (pt p) (blk_of fb p)" "valid_blk p \<Longrightarrow> pt p < 4"
    and "valid_blk p \<Longrightarrow> pt p \<noteq> 0 \<Longrightarrow> act_of fb (blk_bus p) (blk_chip p) = Some p"
    and "valid_chip bus chip \<Longrightarrow>
      chip_part bus chip (chip_of fb bus chip) (act_of fb bus chip) (gc_of fb bus chip)"
    and "valid_chip bus chip \<Longrightarrow>
      roles_ok (blk_of fb) ex (chip_of fb bus chip) (act_of fb bus chip) (gc_of fb bus chip)"
  using assms by (auto simp: ftl_inv_def)

lemma ids_okD:
  assumes "ids_ok B" "valid_blk p"
  shows "no_bus (B p) = blk_bus p" "no_chip (B p) = blk_chip p" "no_block (B p) = blk_no p"
  using assms by (auto simp: ids_ok_def)

lemma chip_blocks: "valid_chip bus chip \<Longrightarrow>
  set (map (Blk bus chip) (words_below NUM_BLOCKS_PER_CHIP)) =
    {p. valid_blk p \<and> blk_bus p = bus \<and> blk_chip p = chip}"
proof -
  assume v: "valid_chip bus chip"
  have "p \<in> Blk bus chip ` {k. k < NUM_BLOCKS_PER_CHIP} \<longleftrightarrow>
      valid_blk p \<and> blk_bus p = bus \<and> blk_chip p = chip" for p
    using v by (cases p) auto
  then show ?thesis by auto
qed

lemma chip_part_roles:
  assumes "chip_part bus chip ci a g"
  shows "distinct (roles ci a g)"
    and "valid_chip bus chip \<Longrightarrow> set (roles ci a g) =
      {p. valid_blk p \<and> blk_bus p = bus \<and> blk_chip p = chip}"
proof -
  have m: "mset (roles ci a g) = mset (map (Blk bus chip) (words_below NUM_BLOCKS_PER_CHIP))"
    using assms by (simp add: chip_part_def)
  have "distinct (map (Blk bus chip) (words_below (NUM_BLOCKS_PER_CHIP :: u32)))"
    by (simp add: distinct_map inj_on_def)
  then show "distinct (roles ci a g)" using mset_eq_imp_distinct_iff [OF m] by simp
  assume "valid_chip bus chip"
  then show "set (roles ci a g) = {p. valid_blk p \<and> blk_bus p = bus \<and> blk_chip p = chip}"
    using mset_eq_setD [OF m] chip_blocks by simp
qed

lemma set_olist [simp]: "set (olist x) = set_option x"
  by (cases x) (auto simp: olist_def)

lemma distinct_olist [simp]: "distinct (olist x)"
  by (cases x) (auto simp: olist_def)

lemma olist_simps [simp]: "olist None = []" "olist (Some x) = [x]"
  by (simp_all add: olist_def)

lemma roles_distinct:
  assumes "distinct (roles ci a g)"
  shows "distinct (free_blks ci)" "distinct (used_blks ci)" "distinct (dirt_blks ci)"
    and "p \<in> set (free_blks ci) \<Longrightarrow> p \<notin> set (used_blks ci) \<and> p \<notin> set (dirt_blks ci) \<and> a \<noteq> Some p \<and> g \<noteq> Some p"
    and "p \<in> set (used_blks ci) \<Longrightarrow> p \<notin> set (dirt_blks ci) \<and> a \<noteq> Some p \<and> g \<noteq> Some p"
    and "p \<in> set (dirt_blks ci) \<Longrightarrow> a \<noteq> Some p \<and> g \<noteq> Some p"
    and "a = Some p \<Longrightarrow> g \<noteq> Some p"
  using assms by (auto simp: roles_def)

lemma blank_no_valid:
  assumes "blk_wf 0 b" "nr_free_pages b = NUM_PAGES_PER_BLOCK" "pg < NUM_PAGES_PER_BLOCK" "i < NR_LP_IN_PP"
  shows "bst b pg i = PAGE_STATUS_FREE"
  using blk_wfD(7) [OF assms(1,3,4)] assms(2) by (auto simp: frontier_def NUM_PAGES_PER_BLOCK_def)

lemma open_not_dead:
  assumes "blk_wf k b" "k < 4" "0 < nr_free_pages b"
  shows "\<not> all_dead b"
proof -
  have "(3 :: u8) < NR_LP_IN_PP" "unat (3 :: u8) = 3" by (simp_all add: NR_LP_IN_PP_def)
  then have "bst b (of_nat (frontier b)) 3 = PAGE_STATUS_FREE"
    using blk_wfD(7) [OF assms(1) frontier_less(3) [OF assms(3)], of 3] assms(2)
      frontier_less(2) [OF assms(3)] by auto
  then show ?thesis
    using frontier_less(3) [OF assms(3)] \<open>(3 :: u8) < NR_LP_IN_PP\<close> by (force simp: all_dead_def)
qed

text \<open>A block with a valid slot is used or active.\<close>

lemma valid_slot_role:
  assumes inv: "ftl_inv pt ex fb" and p: "valid_blk p" "pg < NUM_PAGES_PER_BLOCK" "i < NR_LP_IN_PP"
    and v: "bst (blk_of fb p) pg i = PAGE_STATUS_VALID"
  shows "p \<in> set (used_blks (chip_of fb (blk_bus p) (blk_chip p))) \<or>
    act_of fb (blk_bus p) (blk_chip p) = Some p"
proof -
  let ?c = "chip_of fb (blk_bus p) (blk_chip p)"
  let ?a = "act_of fb (blk_bus p) (blk_chip p)" and ?g = "gc_of fb (blk_bus p) (blk_chip p)"
  note D = ftl_invD [OF inv]
  have vc: "valid_chip (blk_bus p) (blk_chip p)" using p(1) by (rule valid_blk_chip)
  have part: "chip_part (blk_bus p) (blk_chip p) ?c ?a ?g" and ok: "roles_ok (blk_of fb) ex ?c ?a ?g"
    using D(7,8) [OF vc] by simp_all
  have "p \<in> set (roles ?c ?a ?g)" using chip_part_roles(2) [OF part vc] p(1) by simp
  moreover have "\<not> all_dead (blk_of fb p)" using p v unfolding all_dead_def by fastforce
  moreover have "?a = Some p" if "nr_free_pages (blk_of fb p) = NUM_PAGES_PER_BLOCK"
  proof (rule ccontr)
    assume "?a \<noteq> Some p"
    then have "pt p = 0" using D(6) [OF p(1)] by auto
    then show False using blank_no_valid [OF _ that p(2,3)] D(4) [OF p(1)] v by simp
  qed
  ultimately show ?thesis using ok by (auto simp: roles_def roles_ok_def)
qed

section \<open>Invalidating a logical page\<close>

lemma blk_wf_flags [simp]:
  "blk_wf k (b\<lparr>is_reserved_block := x\<rparr>) = blk_wf k b"
  "blk_wf k (b\<lparr>is_active_block := x\<rparr>) = blk_wf k b"
  "blk_wf k (b\<lparr>nr_erase_cnt := n\<rparr>) = blk_wf k b"
  by (simp_all add: blk_wf_def slots_with_def page_invalid_slots_def dead_pages_def frontier_def)

lemma all_dead_flags [simp]:
  "all_dead (b\<lparr>is_reserved_block := x\<rparr>) = all_dead b"
  "all_dead (b\<lparr>is_active_block := x\<rparr>) = all_dead b"
  "all_dead (b\<lparr>nr_erase_cnt := n\<rparr>) = all_dead b"
  by (simp_all add: all_dead_def)

lemma slot_ppa_layout:
  assumes "valid_blk p" "pg < NUM_PAGES_PER_BLOCK" "i < NR_LP_IN_PP"
  obtains w where "convert_to_ssd_layout (slot_ppa p pg i) = (blk_bus p, blk_chip p, blk_no p, w)"
    "drop_bit LP_PAGE_SHIFT w = pg" "ucast (w AND LP_PAGE_MASK) = i"
proof -
  obtain bus chip blk w where c: "convert_to_ssd_layout (slot_ppa p pg i) = (bus, chip, blk, w)"
    by (metis prod_cases4)
  have "(Blk bus chip blk, drop_bit LP_PAGE_SHIFT w, ucast (w AND LP_PAGE_MASK) :: u8) = (p, pg, i)"
    using ppa_slot_slot_ppa [OF assms] by (simp add: ppa_slot_def c)
  then show thesis using c that [of w] by auto
qed

text \<open>The block operations of \<open>ssd_info.c\<close> on a state whose block \<open>p\<close> is known.\<close>

lemma blk_ops:
  assumes "valid_blk p"
  shows "pg < NUM_PAGES_PER_BLOCK \<Longrightarrow> i < NR_LP_IN_PP \<Longrightarrow>
      set_pg_status (set_blk s p b) (Pg p pg) i st = Some (set_blk s p (b\<lparr>list_pages :=
        (list_pages b)(pg := (list_pages b pg)\<lparr>page_status := (bst b pg)(i := st)\<rparr>)\<rparr>))"
    and "pg < NUM_PAGES_PER_BLOCK \<Longrightarrow> i < NR_LP_IN_PP \<Longrightarrow>
      set_mapped_lpa (set_blk s p b) (Pg p pg) i lpa = Some (set_blk s p (b\<lparr>list_pages :=
        (list_pages b)(pg := (list_pages b pg)\<lparr>no_logical_page_addr := (blpa b pg)(i := lpa)\<rparr>)\<rparr>))"
    and "pg < NUM_PAGES_PER_BLOCK \<Longrightarrow> inc_nr_invalid_lps (set_blk s p b) (Pg p pg) =
      Some (pg_nr_invalid_log_pages (list_pages b pg) + 1, set_blk s p (b\<lparr>list_pages :=
        (list_pages b)(pg := (list_pages b pg)\<lparr>pg_nr_invalid_log_pages :=
          pg_nr_invalid_log_pages (list_pages b pg) + 1\<rparr>)\<rparr>))"
    and "inc_nr_invalid_lps_in_blk (set_blk s p b) p = Some (nr_invalid_log_pages b + 1,
      set_blk s p (b\<lparr>nr_invalid_log_pages := nr_invalid_log_pages b + 1\<rparr>))"
    and "inc_nr_valid_lps_in_blk (set_blk s p b) p = Some (nr_valid_log_pages b + 1,
      set_blk s p (b\<lparr>nr_valid_log_pages := nr_valid_log_pages b + 1\<rparr>))"
    and "dec_nr_valid_lps_in_blk (set_blk s p b) p = Some (nr_valid_log_pages b - 1,
      set_blk s p (b\<lparr>nr_valid_log_pages := nr_valid_log_pages b - 1\<rparr>))"
    and "dec_nr_valid_pgs (set_blk s p b) p = Some (nr_valid_pages b - 1,
      set_blk s p (b\<lparr>nr_valid_pages := nr_valid_pages b - 1\<rparr>))"
    and "inc_nr_valid_pgs (set_blk s p b) p = Some (nr_valid_pages b + 1,
      set_blk s p (b\<lparr>nr_valid_pages := nr_valid_pages b + 1\<rparr>))"
    and "inc_nr_invalid_pgs (set_blk s p b) p = Some (nr_invalid_pages b + 1,
      set_blk s p (b\<lparr>nr_invalid_pages := nr_invalid_pages b + 1\<rparr>))"
    and "dec_nr_free_pgs (set_blk s p b) p = Some (nr_free_pages b - 1,
      set_blk s p (b\<lparr>nr_free_pages := nr_free_pages b - 1\<rparr>))"
    and "set_act_blk_flag (set_blk s p b) p x = Some (set_blk s p (b\<lparr>is_active_block := x\<rparr>))"
    and "inc_bers_cnt (set_blk s p b) p = Some (nr_erase_cnt b + 1,
      set_blk s p (b\<lparr>nr_erase_cnt := nr_erase_cnt b + 1\<rparr>))"
  using assms
  by (simp_all add: set_pg_status_def set_mapped_lpa_def inc_nr_invalid_lps_def
      inc_nr_invalid_lps_in_blk_def inc_nr_valid_lps_in_blk_def dec_nr_valid_lps_in_blk_def
      dec_nr_valid_pgs_def inc_nr_valid_pgs_def inc_nr_invalid_pgs_def dec_nr_free_pgs_def
      set_act_blk_flag_def inc_bers_cnt_def st_valid set_blk_def del: st_page.simps ld_page.simps)

lemma set_blk_same: "set_blk s p (blocks s p) = s"
  by (simp add: set_blk_def)

lemmas blk_ops_plain = blk_ops [where p = p and s = s and b = "blocks s p" for s p, unfolded set_blk_same]

text \<open>The counter updates of \<open>invalidate_lpg\<close> amount to \<open>invalidate_slot\<close>.\<close>

definition mark_invalid :: "flash_block \<Rightarrow> u32 \<Rightarrow> u8 \<Rightarrow> flash_block" where
  "mark_invalid b pg i = b\<lparr>
        nr_invalid_log_pages := nr_invalid_log_pages b + 1,
        nr_valid_log_pages := nr_valid_log_pages b - 1,
        list_pages := (list_pages b)(pg := (list_pages b pg)\<lparr>
          page_status := (page_status (list_pages b pg))(i := PAGE_STATUS_INVALID),
          pg_nr_invalid_log_pages := pg_nr_invalid_log_pages (list_pages b pg) + 1\<rparr>)\<rparr>"

lemma mark_invalid_steps:
  assumes "valid_blk p" "pg < NUM_PAGES_PER_BLOCK" "i < NR_LP_IN_PP"
  shows "do {
      fb \<leftarrow> ssd_do fb (\<lambda>s. set_pg_status s (Pg p pg) i PAGE_STATUS_INVALID);
      (_, fb) \<leftarrow> ssd_upd fb (\<lambda>s. inc_nr_invalid_lps_in_blk s p);
      (_, fb) \<leftarrow> ssd_upd fb (\<lambda>s. dec_nr_valid_lps_in_blk s p);
      (n, fb) \<leftarrow> ssd_upd fb (\<lambda>s. inc_nr_invalid_lps s (Pg p pg));
      k n fb } =
    k (pg_nr_invalid_log_pages (list_pages (blk_of fb p) pg) + 1)
      (put_ssd fb (set_blk (ptr_ssd_info fb) p (mark_invalid (blk_of fb p) pg i)))"
proof -
  note ops = blk_ops [OF assms(1)]
  show ?thesis
    unfolding ssd_do_eq ssd_upd_eq
    by (subst set_blk_same [of "ptr_ssd_info fb" p, symmetric])
      (simp add: ops assms(2,3) mark_invalid_def)
qed

lemma invalidate_slot_mark:
  "invalidate_slot b pg i = (let c = mark_invalid b pg i in
     if pg_nr_invalid_log_pages (list_pages b pg) + 1 = NR_LP_IN_PP
     then c\<lparr>nr_valid_pages := nr_valid_pages b - 1, nr_invalid_pages := nr_invalid_pages b + 1\<rparr>
     else c)"
  by (rule flash_block.equality) (simp_all add: invalidate_slot_def mark_invalid_def Let_def)

lemma mark_invalid_fields [simp]:
  "nr_valid_pages (mark_invalid b pg i) = nr_valid_pages b"
  "nr_invalid_pages (mark_invalid b pg i) = nr_invalid_pages b"
  "pg_nr_invalid_log_pages (list_pages (mark_invalid b pg i) pg) = pg_nr_invalid_log_pages (list_pages b pg) + 1"
  by (simp_all add: mark_invalid_def)

definition retire :: "fb_context_t \<Rightarrow> blkptr \<Rightarrow> fb_context_t option" where
  "retire fb p = do {
     fb \<leftarrow> ssd_do fb (\<lambda>s. reset_used_blk s p);
     gc \<leftarrow> get_curr_gc_block fb (blk_bus p) (blk_chip p);
     case gc of
       None \<Rightarrow> set_curr_gc_block fb (blk_bus p) (blk_chip p) (Some p)
     | Some _ \<Rightarrow> ssd_do fb (\<lambda>s. set_dirt_blk s p) }"

lemma lpa_in_table:
  "sizes_ok fb \<Longrightarrow> is_valid_address_range lpa \<Longrightarrow>
    lpa < nr_entries (ptr_mapping_table (ptr_mapping_context fb))"
  by (simp add: sizes_ok_def is_valid_address_range_def)

lemma lpa_mapped: "is_valid_address_range lpa \<Longrightarrow> lpa \<noteq> PAGE_UNMAPPED"
  by (auto simp: is_valid_address_range_def PAGE_UNMAPPED_def NUM_LOG_PAGES_value word_less_nat_alt
      unsigned_minus_1_eq_mask mask_eq_exp_minus_1)

lemma invalidate_lpg_eq:
  assumes "sizes_ok fb" "is_valid_address_range lpa"
    and p: "valid_blk p" "pg < NUM_PAGES_PER_BLOCK" "i < NR_LP_IN_PP" and m: "l2p fb lpa = slot_ppa p pg i"
  shows "invalidate_lpg fb lpa = (let b = invalidate_slot (blk_of fb p) pg i in do {
     fb' \<leftarrow> (if pg_nr_invalid_log_pages (list_pages b pg) = NR_LP_IN_PP \<and> nr_invalid_pages b = NUM_PAGES_PER_BLOCK
        then retire (put_ssd fb (set_blk (ptr_ssd_info fb) p b)) p
        else Some (put_ssd fb (set_blk (ptr_ssd_info fb) p b)));
     ftl \<leftarrow> set_mapped_ppa (get_ftl fb') lpa PAGE_UNMAPPED;
     Some (slot_ppa p pg i, set_ftl fb' ftl) })"
proof -
  obtain w where w: "convert_to_ssd_layout (slot_ppa p pg i) = (blk_bus p, blk_chip p, blk_no p, w)"
    "drop_bit LP_PAGE_SHIFT w = pg" "ucast (w AND LP_PAGE_MASK) = i"
    using slot_ppa_layout [OF p] .
  have blk: "Blk (blk_bus p) (blk_chip p) (blk_no p) = p" by (cases p) simp
  have g: "get_mapped_ppa (get_ftl fb) lpa = Some (slot_ppa p pg i)"
    using lpa_in_table [OF assms(1,2)] m by (simp add: get_mapped_ppa_def get_ftl_def)
  note ops = blk_ops [OF p(1)]
  let ?full = "pg_nr_invalid_log_pages (list_pages (blk_of fb p) pg) + 1 = NR_LP_IN_PP"
  have steps: "invalidate_lpg fb lpa = (let c = mark_invalid (blk_of fb p) pg i;
       fb' = put_ssd fb (set_blk (ptr_ssd_info fb) p c) in do {
     fb' \<leftarrow> (if ?full then do {
           (_, fb') \<leftarrow> ssd_upd fb' (\<lambda>s. dec_nr_valid_pgs s p);
           (m, fb') \<leftarrow> ssd_upd fb' (\<lambda>s. inc_nr_invalid_pgs s p);
           if m = NUM_PAGES_PER_BLOCK then retire fb' p else Some fb' }
         else Some fb');
     ftl \<leftarrow> set_mapped_ppa (get_ftl fb') lpa PAGE_UNMAPPED;
     Some (slot_ppa p pg i, set_ftl fb' ftl) })"
    unfolding invalidate_lpg_def g
    by (simp add: w blk get_block_info_def get_page_info_def slot_ppa_mapped [OF p]
        mark_invalid_steps [OF p] Let_def retire_def cong: if_cong)
  show ?thesis
    unfolding steps
    by (cases ?full) (simp_all add: ssd_upd_eq ops invalidate_slot_pages invalidate_slot_mark Let_def)
qed

section \<open>Blocks changing roles\<close>

lemma of_nat_remove1:
  "p \<in> set xs \<Longrightarrow> of_nat (length (remove1 p xs)) = (of_nat (length xs) - 1 :: u32)"
  by (simp add: length_remove1 of_nat_pred)

lemma chip_moves:
  shows "chip_part b c ci a None \<Longrightarrow> p \<in> set (used_blks ci) \<Longrightarrow>
      chip_part b c (ci\<lparr>used_blks := remove1 p (used_blks ci), nr_used_blks := nr_used_blks ci - 1\<rparr>) a (Some p)"
    and "chip_part b c ci a g \<Longrightarrow> p \<in> set (used_blks ci) \<Longrightarrow>
      chip_part b c (ci\<lparr>used_blks := remove1 p (used_blks ci), nr_used_blks := nr_used_blks ci - 1,
        dirt_blks := dirt_blks ci @ [p], nr_dirt_blks := nr_dirt_blks ci + 1\<rparr>) a g"
    and "chip_part b c ci (Some p) g \<Longrightarrow>
      chip_part b c (ci\<lparr>used_blks := used_blks ci @ [p], nr_used_blks := nr_used_blks ci + 1\<rparr>) None g"
    and "chip_part b c ci None g \<Longrightarrow> p \<in> set (free_blks ci) \<Longrightarrow>
      chip_part b c (ci\<lparr>free_blks := remove1 p (free_blks ci), nr_free_blocks := nr_free_blocks ci - 1\<rparr>)
        (Some p) g"
    and "chip_part b c ci a None \<Longrightarrow> p \<in> set (dirt_blks ci) \<Longrightarrow>
      chip_part b c (ci\<lparr>dirt_blks := remove1 p (dirt_blks ci), nr_dirt_blks := nr_dirt_blks ci - 1\<rparr>)
        a (Some p)"
    and "chip_part b c ci None (Some p) \<Longrightarrow> chip_part b c ci (Some p) None"
    and "chip_part b c ci a (Some p) \<Longrightarrow>
      chip_part b c (ci\<lparr>free_blks := free_blks ci @ [p], nr_free_blocks := nr_free_blocks ci + 1\<rparr>) a None"
proof -
  have e: "mset xs = add_mset p (mset (remove1 p xs))" if "p \<in> set xs" for xs :: "blkptr list"
    using that by simp
  note d = chip_part_def roles_def of_nat_remove1
  show "chip_part b c ci a None \<Longrightarrow> p \<in> set (used_blks ci) \<Longrightarrow>
      chip_part b c (ci\<lparr>used_blks := remove1 p (used_blks ci), nr_used_blks := nr_used_blks ci - 1\<rparr>) a (Some p)"
    using e [of "used_blks ci"] by (simp add: d del: mset_remove1)
  show "chip_part b c ci a g \<Longrightarrow> p \<in> set (used_blks ci) \<Longrightarrow>
      chip_part b c (ci\<lparr>used_blks := remove1 p (used_blks ci), nr_used_blks := nr_used_blks ci - 1,
        dirt_blks := dirt_blks ci @ [p], nr_dirt_blks := nr_dirt_blks ci + 1\<rparr>) a g"
    using e [of "used_blks ci"] by (simp add: d del: mset_remove1)
  show "chip_part b c ci (Some p) g \<Longrightarrow>
      chip_part b c (ci\<lparr>used_blks := used_blks ci @ [p], nr_used_blks := nr_used_blks ci + 1\<rparr>) None g"
    by (simp add: d)
  show "chip_part b c ci None g \<Longrightarrow> p \<in> set (free_blks ci) \<Longrightarrow>
      chip_part b c (ci\<lparr>free_blks := remove1 p (free_blks ci), nr_free_blocks := nr_free_blocks ci - 1\<rparr>)
        (Some p) g"
    using e [of "free_blks ci"] by (simp add: d del: mset_remove1)
  show "chip_part b c ci a None \<Longrightarrow> p \<in> set (dirt_blks ci) \<Longrightarrow>
      chip_part b c (ci\<lparr>dirt_blks := remove1 p (dirt_blks ci), nr_dirt_blks := nr_dirt_blks ci - 1\<rparr>)
        a (Some p)"
    using e [of "dirt_blks ci"] by (simp add: d del: mset_remove1)
  show "chip_part b c ci None (Some p) \<Longrightarrow> chip_part b c ci (Some p) None"
    by (simp add: d)
  show "chip_part b c ci a (Some p) \<Longrightarrow>
      chip_part b c (ci\<lparr>free_blks := free_blks ci @ [p], nr_free_blocks := nr_free_blocks ci + 1\<rparr>) a None"
    by (simp add: d)
qed

lemma roles_ok_cong:
  assumes "roles_ok B ex ci a g"
    and "\<And>q. q \<in> set (roles ci a g) \<Longrightarrow> nr_free_pages (B' q) = nr_free_pages (B q) \<and> all_dead (B' q) = all_dead (B q)"
  shows "roles_ok B' ex ci a g"
  using assms by (auto simp: roles_ok_def roles_def)

section \<open>Invalidation keeps the invariant\<close>

lemma map_okD:
  assumes "map_ok B m"
  shows "is_valid_address_range lpa \<Longrightarrow> m lpa \<noteq> PAGE_UNMAPPED \<Longrightarrow>
      \<exists>p pg i. valid_blk p \<and> pg < NUM_PAGES_PER_BLOCK \<and> i < NR_LP_IN_PP \<and>
        m lpa = slot_ppa p pg i \<and> bst (B p) pg i = PAGE_STATUS_VALID \<and> blpa (B p) pg i = lpa"
    and "valid_blk p \<Longrightarrow> pg < NUM_PAGES_PER_BLOCK \<Longrightarrow> i < NR_LP_IN_PP \<Longrightarrow>
      bst (B p) pg i = PAGE_STATUS_VALID \<Longrightarrow>
      is_valid_address_range (blpa (B p) pg i) \<and> m (blpa (B p) pg i) = slot_ppa p pg i"
  using assms by (auto simp: map_ok_def)

lemma map_ok_unmap:
  assumes ok: "map_ok B m" and p: "valid_blk p" "pg < NUM_PAGES_PER_BLOCK" "i < NR_LP_IN_PP"
    and m: "m lpa = slot_ppa p pg i" and lpa: "blpa (B p) pg i = lpa"
    and bst: "\<And>q w j. bst (B' q) w j = (if q = p \<and> w = pg \<and> j = i then PAGE_STATUS_INVALID else bst (B q) w j)"
    and blpa: "\<And>q w j. blpa (B' q) w j = blpa (B q) w j"
  shows "map_ok B' (m(lpa := PAGE_UNMAPPED))"
  unfolding map_ok_def
proof (intro conjI allI impI)
  fix l assume l: "is_valid_address_range l"
  show "(m(lpa := PAGE_UNMAPPED)) l = PAGE_UNMAPPED \<or>
    (\<exists>q w j. valid_blk q \<and> w < NUM_PAGES_PER_BLOCK \<and> j < NR_LP_IN_PP \<and>
      (m(lpa := PAGE_UNMAPPED)) l = slot_ppa q w j \<and> bst (B' q) w j = PAGE_STATUS_VALID \<and> blpa (B' q) w j = l)"
  proof (cases "l = lpa \<or> m l = PAGE_UNMAPPED")
    case False
    with map_okD(1) [OF ok l] obtain q w j where q: "valid_blk q" "w < NUM_PAGES_PER_BLOCK"
      "j < NR_LP_IN_PP" "m l = slot_ppa q w j" "bst (B q) w j = PAGE_STATUS_VALID" "blpa (B q) w j = l"
      by blast
    moreover have "\<not> (q = p \<and> w = pg \<and> j = i)" using q(6) lpa False by auto
    ultimately have "bst (B' q) w j = PAGE_STATUS_VALID" "blpa (B' q) w j = l"
      "(m(lpa := PAGE_UNMAPPED)) l = slot_ppa q w j"
      using False by (simp_all add: bst blpa)
    with q show ?thesis by blast
  qed auto
next
  fix q w j
  assume q: "valid_blk q" "w < NUM_PAGES_PER_BLOCK" "j < NR_LP_IN_PP" and v: "bst (B' q) w j = PAGE_STATUS_VALID"
  have ne: "\<not> (q = p \<and> w = pg \<and> j = i)" using v by (auto simp: bst)
  then have "bst (B q) w j = PAGE_STATUS_VALID" using v by (simp add: bst split: if_splits)
  note old = map_okD(2) [OF ok q this]
  then show "is_valid_address_range (blpa (B' q) w j)" by (simp add: blpa)
  have "blpa (B q) w j \<noteq> lpa" using old m slot_ppa_inj [OF p q] ne by auto
  then show "(m(lpa := PAGE_UNMAPPED)) (blpa (B' q) w j) = slot_ppa q w j" using old by (simp add: blpa)
qed

lemma all_dead_iff_count:
  assumes "blk_wf k b"
  shows "nr_invalid_pages b = NUM_PAGES_PER_BLOCK \<longleftrightarrow> all_dead b"
  using block_full_count [OF assms] by (simp add: all_dead_def)

text \<open>The effect of retiring a used block all of whose slots have become invalid.\<close>

definition retired :: "fb_context_t \<Rightarrow> blkptr \<Rightarrow> fb_context_t" where
  "retired fb p = (let s = ptr_ssd_info fb; ci = chip_at s p;
       ci' = ci\<lparr>used_blks := remove1 p (used_blks ci), nr_used_blks := nr_used_blks ci - 1\<rparr> in
     if gc_of fb (blk_bus p) (blk_chip p) = None
     then put_gc (put_ssd fb (set_blk (set_chip s p ci') p ((blocks s p)\<lparr>is_reserved_block := 1\<rparr>)))
       (blk_bus p) (blk_chip p) (Some p)
     else put_ssd fb (set_chip s p (ci'\<lparr>dirt_blks := dirt_blks ci @ [p], nr_dirt_blks := nr_dirt_blks ci + 1\<rparr>)))"

lemma retire_eq:
  assumes "sizes_ok fb" "ids_ok (blk_of fb)" "valid_blk p"
    and "p \<in> set (used_blks (chip_of fb (blk_bus p) (blk_chip p)))"
    and "p \<notin> set (dirt_blks (chip_of fb (blk_bus p) (blk_chip p)))"
  shows "retire fb p = Some (retired fb p)"
proof -
  have vc: "valid_chip (blk_bus p) (blk_chip p)" using assms(3) by (rule valid_blk_chip)
  have sz: "sizes_ok (put_ssd fb s)" for s by (rule frame_sizes [OF _ assms(1)]) simp
  have ids: "no_bus (blocks (set_chip s q ci) p) = blk_bus p" "no_chip (blocks (set_chip s q ci) p) = blk_chip p"
    if "s = ptr_ssd_info fb" for s q ci
    using ids_okD [OF assms(2,3)] that by simp_all
  show ?thesis
  proof (cases "gc_of fb (blk_bus p) (blk_chip p)")
    case None
    then show ?thesis
      using assms(4) ids_okD [OF assms(2,3)]
      by (simp add: retire_def ssd_do_eq chip_list_ops(1) assms(3) get_curr_gc_block_eq sz vc
          set_curr_gc_block_Some retired_def Let_def)
  next
    case (Some q)
    then show ?thesis
      using assms(4,5) ids_okD [OF assms(2,3)]
      by (simp add: retire_def ssd_do_eq chip_list_ops(1) chip_list_ops(6) assms(3) get_curr_gc_block_eq
          sz vc retired_def Let_def)
  qed
qed

lemma set_mapped_ppa_eq:
  assumes "sizes_ok fb" "is_valid_address_range lpa"
  shows "do { ftl \<leftarrow> set_mapped_ppa (get_ftl fb) lpa x; k (set_ftl fb ftl) } =
    k (put_l2p fb ((l2p fb)(lpa := x)))"
  using lpa_in_table [OF assms] by (simp add: set_mapped_ppa_def get_ftl_def put_l2p_def Let_def)

definition l2p_upd :: "fb_context_t \<Rightarrow> u32 \<Rightarrow> u32 \<Rightarrow> page_mapping_context_t" where
  "l2p_upd fb lpa x = get_ftl (put_l2p fb ((l2p fb)(lpa := x)))"

lemma set_ftl_l2p_upd [simp]: "set_ftl fb (l2p_upd fb lpa x) = put_l2p fb ((l2p fb)(lpa := x))"
  by (simp add: l2p_upd_def put_defs)

lemma set_mapped_ppa_upd:
  assumes "sizes_ok fb" "is_valid_address_range lpa"
  shows "set_mapped_ppa (get_ftl fb) lpa x = Some (l2p_upd fb lpa x)"
  using lpa_in_table [OF assms] by (simp add: set_mapped_ppa_def put_defs l2p_upd_def Let_def)

lemma retired_fields:
  "frame fb (retired fb p)" "l2p (retired fb p) = l2p fb" "act_of (retired fb p) = act_of fb"
  "q \<noteq> p \<Longrightarrow> blk_of (retired fb p) q = blk_of fb q"
  "blk_of (retired fb p) p = (if gc_of fb (blk_bus p) (blk_chip p) = None
     then (blk_of fb p)\<lparr>is_reserved_block := 1\<rparr> else blk_of fb p)"
  by (simp_all add: retired_def Let_def)

lemma retired_gc:
  assumes "sizes_ok fb" "valid_blk p"
  shows "gc_of (retired fb p) b c =
    (if b = blk_bus p \<and> c = blk_chip p \<and> gc_of fb b c = None then Some p else gc_of fb b c)"
proof -
  have "sizes_ok (put_ssd fb s)" for s by (rule frame_sizes [OF _ assms(1)]) simp
  from gc_of_put_gc [OF this valid_blk_chip [OF assms(2)]] show ?thesis by (auto simp: retired_def Let_def)
qed

lemma retired_chips:
  assumes "sizes_ok fb" "valid_blk p" and vc: "valid_chip bus chip"
    and part: "chip_part bus chip (chip_of fb bus chip) (act_of fb bus chip) (gc_of fb bus chip)"
    and ok: "roles_ok B ex (chip_of fb bus chip) (act_of fb bus chip) (gc_of fb bus chip)"
    and used: "p \<in> set (used_blks (chip_of fb (blk_bus p) (blk_chip p)))"
    and B: "\<And>q. q \<noteq> p \<Longrightarrow> nr_free_pages (B' q) = nr_free_pages (B q) \<and> all_dead (B' q) = all_dead (B q)"
    and dead: "all_dead (B' p)"
  shows "chip_part bus chip (chip_of (retired fb p) bus chip) (act_of (retired fb p) bus chip)
      (gc_of (retired fb p) bus chip)"
    and "roles_ok B' ex (chip_of (retired fb p) bus chip) (act_of (retired fb p) bus chip)
      (gc_of (retired fb p) bus chip)"
proof -
  have vp: "valid_chip (blk_bus p) (blk_chip p)" using assms(2) by (rule valid_blk_chip)
  have sz: "sizes_ok (put_ssd fb s)" for s by (rule frame_sizes [OF _ assms(1)]) simp
  note R = roles_distinct [OF chip_part_roles(1) [OF part]] chip_part_roles(2) [OF part vc]
  have "chip_part bus chip (chip_of (retired fb p) bus chip) (act_of (retired fb p) bus chip)
      (gc_of (retired fb p) bus chip) \<and>
    roles_ok B' ex (chip_of (retired fb p) bus chip) (act_of (retired fb p) bus chip)
      (gc_of (retired fb p) bus chip)"
  proof (cases "bus = blk_bus p \<and> chip = blk_chip p")
    case False
    then have "p \<notin> set (roles (chip_of fb bus chip) (act_of fb bus chip) (gc_of fb bus chip))"
      using R(8) by auto
    then have "roles_ok B' ex (chip_of fb bus chip) (act_of fb bus chip) (gc_of fb bus chip)"
      using roles_ok_cong [OF ok, of B'] B by metis
    moreover have "chip_of (retired fb p) bus chip = chip_of fb bus chip"
      "gc_of (retired fb p) bus chip = gc_of fb bus chip"
      using False by (auto simp: retired_def Let_def gc_of_put_gc [OF sz vp])
    ultimately show ?thesis using part by (simp add: retired_fields)
  next
    case here: True
    then have p: "p \<in> set (used_blks (chip_of fb bus chip))" using used by simp
    note np = R(5) [OF p] R(2)
    have nep: "q \<in> set (free_blks (chip_of fb bus chip)) \<Longrightarrow> q \<noteq> p"
      "q \<in> set (dirt_blks (chip_of fb bus chip)) \<Longrightarrow> q \<noteq> p"
      "act_of fb bus chip = Some q \<Longrightarrow> q \<noteq> p" "gc_of fb bus chip = Some q \<Longrightarrow> q \<noteq> p" for q
      using R(4) [of p] np p by auto
    show ?thesis
    proof (cases "gc_of fb bus chip")
      case None
      then have "chip_of (retired fb p) bus chip = (chip_of fb bus chip)\<lparr>
          used_blks := remove1 p (used_blks (chip_of fb bus chip)),
          nr_used_blks := nr_used_blks (chip_of fb bus chip) - 1\<rparr>"
        "gc_of (retired fb p) bus chip = Some p"
        using here by (simp_all add: retired_def Let_def gc_of_put_gc [OF sz vp])
      moreover have "roles_ok B' ex ((chip_of fb bus chip)\<lparr>
          used_blks := remove1 p (used_blks (chip_of fb bus chip)),
          nr_used_blks := nr_used_blks (chip_of fb bus chip) - 1\<rparr>) (act_of fb bus chip) (Some p)"
        unfolding roles_ok_def using ok np(2) nep B dead by (auto simp: roles_ok_def)
      ultimately show ?thesis
        using chip_moves(1) [OF part [unfolded None] p] by (simp add: retired_fields)
    next
      case (Some q)
      then have "chip_of (retired fb p) bus chip = (chip_of fb bus chip)\<lparr>
          used_blks := remove1 p (used_blks (chip_of fb bus chip)),
          nr_used_blks := nr_used_blks (chip_of fb bus chip) - 1,
          dirt_blks := dirt_blks (chip_of fb bus chip) @ [p],
          nr_dirt_blks := nr_dirt_blks (chip_of fb bus chip) + 1\<rparr>"
        "gc_of (retired fb p) bus chip = gc_of fb bus chip"
        using here by (simp_all add: retired_def Let_def)
      moreover have "roles_ok B' ex ((chip_of fb bus chip)\<lparr>
          used_blks := remove1 p (used_blks (chip_of fb bus chip)),
          nr_used_blks := nr_used_blks (chip_of fb bus chip) - 1,
          dirt_blks := dirt_blks (chip_of fb bus chip) @ [p],
          nr_dirt_blks := nr_dirt_blks (chip_of fb bus chip) + 1\<rparr>) (act_of fb bus chip) (gc_of fb bus chip)"
        unfolding roles_ok_def using ok np(2) nep B dead by (auto simp: roles_ok_def)
      ultimately show ?thesis
        using chip_moves(2) [OF part p] by (simp add: retired_fields)
    qed
  qed
  then show "chip_part bus chip (chip_of (retired fb p) bus chip) (act_of (retired fb p) bus chip)
      (gc_of (retired fb p) bus chip)"
    and "roles_ok B' ex (chip_of (retired fb p) bus chip) (act_of (retired fb p) bus chip)
      (gc_of (retired fb p) bus chip)" by auto
qed

lemma invalidated_dead:
  assumes "blk_wf k b" "pg < NUM_PAGES_PER_BLOCK" "i < NR_LP_IN_PP"
  shows "pg_nr_invalid_log_pages (list_pages b pg) = NR_LP_IN_PP \<and> nr_invalid_pages b = NUM_PAGES_PER_BLOCK
    \<longleftrightarrow> all_dead b"
  using page_full_count [OF assms(1,2)] all_dead_iff_count [OF assms(1)] assms(2)
  by (auto simp: dead_pages_def all_dead_def)

text \<open>What a step of the mapping code may do to the blocks it does not program.\<close>

definition same_frontiers :: "fb_context_t \<Rightarrow> fb_context_t \<Rightarrow> bool" where
  "same_frontiers fb fb' \<longleftrightarrow> (\<forall>q. nr_free_pages (blk_of fb' q) = nr_free_pages (blk_of fb q))"

definition gc_kept :: "fb_context_t \<Rightarrow> fb_context_t \<Rightarrow> bool" where
  "gc_kept fb fb' \<longleftrightarrow> (\<forall>b c. gc_of fb b c \<noteq> None \<longrightarrow> gc_of fb' b c = gc_of fb b c)"

lemma gc_kept_same [simp]: "gc_of fb' = gc_of fb \<Longrightarrow> gc_kept fb fb'"
  by (simp add: gc_kept_def)

lemma gc_kept_trans [trans]: "gc_kept fb fb' \<Longrightarrow> gc_kept fb' fb'' \<Longrightarrow> gc_kept fb fb''"
  by (auto simp: gc_kept_def)

lemma invalidate_lpg_spec:
  assumes inv: "ftl_inv pt {} fb" and lpa: "is_valid_address_range lpa"
  shows "\<exists>fb'. invalidate_lpg fb lpa = Some (l2p fb lpa, fb') \<and> ftl_inv pt {} fb' \<and> frame fb fb' \<and>
    l2p fb' = (l2p fb)(lpa := PAGE_UNMAPPED) \<and> act_of fb' = act_of fb \<and> same_frontiers fb fb' \<and>
    gc_kept fb fb'"
proof (cases "l2p fb lpa = PAGE_UNMAPPED")
  case True
  then have "invalidate_lpg fb lpa = Some (l2p fb lpa, fb)"
    using lpa_in_table [OF ftl_invD(1) [OF inv] lpa]
    by (simp add: invalidate_lpg_def get_mapped_ppa_def get_ftl_def)
  with True inv show ?thesis by (auto simp: same_frontiers_def)
next
  case False
  note D = ftl_invD [OF inv]
  obtain p pg i where p: "valid_blk p" "pg < NUM_PAGES_PER_BLOCK" "i < NR_LP_IN_PP"
    and m: "l2p fb lpa = slot_ppa p pg i" and v: "bst (blk_of fb p) pg i = PAGE_STATUS_VALID"
    and l: "blpa (blk_of fb p) pg i = lpa"
    using map_okD(1) [OF D(3) lpa False] by blast
  have vp: "valid_chip (blk_bus p) (blk_chip p)" using p(1) by (rule valid_blk_chip)
  let ?b = "invalidate_slot (blk_of fb p) pg i"
  let ?fb1 = "put_ssd fb (set_blk (ptr_ssd_info fb) p ?b)"
  let ?fb2 = "if all_dead ?b then retired ?fb1 p else ?fb1"
  let ?fb = "put_l2p ?fb2 ((l2p fb)(lpa := PAGE_UNMAPPED))"
  have wf: "blk_wf (pt p) ?b" by (rule blk_wf_invalidate [OF D(4) [OF p(1)] p(2,3) v])
  have sz: "sizes_ok ?fb1" by (rule frame_sizes [OF _ D(1)]) simp
  then have sz2: "sizes_ok ?fb2" using frame_sizes [OF retired_fields(1) [of ?fb1 p]] by simp
  have ids: "ids_ok (blk_of ?fb1)" using D(2) by (auto simp: ids_ok_def)
  note ok = D(8) [OF vp] and part = D(7) [OF vp]
  note R = roles_distinct [OF chip_part_roles(1) [OF part]]
  have used: "p \<in> set (used_blks (chip_of fb (blk_bus p) (blk_chip p)))" if "all_dead ?b"
  proof -
    have "\<not> 0 < nr_free_pages (blk_of fb p)"
      using open_not_dead [OF wf D(5) [OF p(1)]] that by auto
    then have "act_of fb (blk_bus p) (blk_chip p) \<noteq> Some p" using ok by (auto simp: roles_ok_def)
    then show ?thesis using valid_slot_role [OF inv p v] by simp
  qed
  have eq: "invalidate_lpg fb lpa = Some (l2p fb lpa, ?fb)"
  proof -
    have "(if all_dead ?b then retire ?fb1 p else Some ?fb1) = Some ?fb2"
      using retire_eq [OF sz ids p(1)] used R(5) by auto
    then show ?thesis
      unfolding invalidate_lpg_eq [OF D(1) lpa p m] Let_def invalidated_dead [OF wf p(2,3)]
      using set_mapped_ppa_eq [OF sz2 lpa, of PAGE_UNMAPPED "\<lambda>fb. Some (slot_ppa p pg i, fb)"] m
      by (simp add: retired_fields)
  qed
  have fr: "frame fb ?fb" using frame_trans [OF _ retired_fields(1) [of ?fb1 p], of fb] by simp
  have bq: "blk_of ?fb q = blk_of fb q" if "q \<noteq> p" for q using that by (simp add: retired_fields)
  have bp: "blk_of ?fb p = ?b \<or> blk_of ?fb p = ?b\<lparr>is_reserved_block := 1\<rparr>" by (simp add: retired_fields)
  have bst: "bst (blk_of ?fb q) w j =
      (if q = p \<and> w = pg \<and> j = i then PAGE_STATUS_INVALID else bst (blk_of fb q) w j)"
    and blpa: "blpa (blk_of ?fb q) w j = blpa (blk_of fb q) w j"
    and free: "nr_free_pages (blk_of ?fb q) = nr_free_pages (blk_of fb q)"
    and ids': "no_bus (blk_of ?fb q) = no_bus (blk_of fb q)"
      "no_chip (blk_of ?fb q) = no_chip (blk_of fb q)" "no_block (blk_of ?fb q) = no_block (blk_of fb q)"
    for q w j
    using bp bq [of q] by (cases "q = p"; auto simp: invalidate_slot_bst)+
  have "ftl_inv pt {} ?fb"
    unfolding ftl_inv_def
  proof (intro conjI allI impI)
    show "sizes_ok ?fb" by (rule frame_sizes [OF fr D(1)])
    show "ids_ok (blk_of ?fb)" using D(2) unfolding ids_ok_def ids' .
    show "map_ok (blk_of ?fb) (l2p ?fb)"
      using map_ok_unmap [OF D(3) p m l, of "blk_of ?fb"] bst blpa by simp
  next
    fix q assume q: "valid_blk q"
    show "blk_wf (pt q) (blk_of ?fb q)" using bp bq [of q] wf D(4) [OF q] by (cases "q = p") auto
    show "pt q < 4" by (rule D(5) [OF q])
    show "act_of ?fb (blk_bus q) (blk_chip q) = Some q" if "pt q \<noteq> 0"
      using D(6) [OF q that] by (simp add: retired_fields)
  next
    fix bus chip assume vc: "valid_chip bus chip"
    note part = D(7) [OF vc] and ok = D(8) [OF vc]
    have other: "nr_free_pages (blk_of ?fb q) = nr_free_pages (blk_of fb q) \<and>
        all_dead (blk_of ?fb q) = all_dead (blk_of fb q)" if "q \<noteq> p" for q
      using bq [OF that] by simp
    have "chip_part bus chip (chip_of ?fb bus chip) (act_of ?fb bus chip) (gc_of ?fb bus chip) \<and>
      roles_ok (blk_of ?fb) {} (chip_of ?fb bus chip) (act_of ?fb bus chip) (gc_of ?fb bus chip)"
    proof (cases "all_dead ?b")
      case True
      have "all_dead (blk_of ?fb p)" using bp True by auto
      note r = retired_chips [of ?fb1 p bus chip "blk_of fb" "{}" "blk_of ?fb"]
      have "chip_part bus chip (chip_of (retired ?fb1 p) bus chip) (act_of (retired ?fb1 p) bus chip)
          (gc_of (retired ?fb1 p) bus chip)"
        by (rule r(1)) (use sz p(1) vc part ok used True other \<open>all_dead (blk_of ?fb p)\<close> in simp_all)
      moreover have "roles_ok (blk_of ?fb) {} (chip_of (retired ?fb1 p) bus chip)
          (act_of (retired ?fb1 p) bus chip) (gc_of (retired ?fb1 p) bus chip)"
        by (rule r(2)) (use sz p(1) vc part ok used True other \<open>all_dead (blk_of ?fb p)\<close> in simp_all)
      ultimately show ?thesis using True by simp
    next
      case False
      have "\<not> all_dead (blk_of fb p)" using p v unfolding all_dead_def by fastforce
      then have "all_dead (blk_of ?fb q) = all_dead (blk_of fb q)" for q
        using False other [of q] by (cases "q = p") simp_all
      then have "roles_ok (blk_of ?fb) {} (chip_of fb bus chip) (act_of fb bus chip) (gc_of fb bus chip)"
        using roles_ok_cong [OF ok] free by blast
      with False part show ?thesis by simp
    qed
    then show "chip_part bus chip (chip_of ?fb bus chip) (act_of ?fb bus chip) (gc_of ?fb bus chip)"
      and "roles_ok (blk_of ?fb) {} (chip_of ?fb bus chip) (act_of ?fb bus chip) (gc_of ?fb bus chip)"
      by auto
  qed
  moreover have "l2p ?fb = (l2p fb)(lpa := PAGE_UNMAPPED)" "act_of ?fb = act_of fb"
    by (simp_all add: retired_fields)
  moreover have "gc_kept fb ?fb"
    using retired_gc [OF sz p(1)] by (simp add: gc_kept_def)
  ultimately show ?thesis using eq fr free unfolding same_frontiers_def by blast
qed

end
