(* ===== verification/FB_Map_Page.thy ===== *)
theory FB_Map_Page
  imports FB_Mapping_Inv
begin

text \<open>
  Mapping a wordline: \<open>__map_logical_to_physical\<close> programs one slot at the write frontier of the
  active block, \<open>map_logical_to_physical\<close> its \<open>NR_LP_IN_PP\<close> slots, and \<open>update_act_blk\<close> replaces an active block
  that has become full. Together they move the mapping of the logical pages to the wordline
  and keep the FTL invariant.
\<close>

section \<open>One slot\<close>

lemma put_commute:
  "put_ssd (put_l2p fb m) s = put_l2p (put_ssd fb s) m"
  by (simp add: put_defs)

lemma program_valid_steps:
  assumes "valid_blk p" "pg < NUM_PAGES_PER_BLOCK" "i < NR_LP_IN_PP" "lpa \<noteq> PAGE_UNMAPPED"
  shows "do {
       (_, s) \<leftarrow> inc_nr_valid_lps_in_blk s p;
       s \<leftarrow> set_pg_status s (Pg p pg) i PAGE_STATUS_VALID;
       s \<leftarrow> set_mapped_lpa s (Pg p pg) i lpa;
       if i = NR_LP_IN_PP - 1 then do {
         (_, s) \<leftarrow> inc_nr_valid_pgs s p; (_, s) \<leftarrow> dec_nr_free_pgs s p; Some s }
       else Some s } = Some (set_blk s p (program_slot (blocks s p) pg i lpa))"
proof -
  note ops = blk_ops [OF assms(1)]
  show ?thesis
    by (subst set_blk_same [of s p, symmetric])
      (simp add: ops assms(2-4) program_slot_def Let_def)
qed

lemma page_update_order:
  "q\<lparr>page_status := a, no_logical_page_addr := l, pg_nr_invalid_log_pages := n\<rparr> =
   q\<lparr>pg_nr_invalid_log_pages := n, page_status := a, no_logical_page_addr := l\<rparr>"
  by (rule flash_page.equality) simp_all

lemma program_pad_steps:
  assumes "valid_blk p" "pg < NUM_PAGES_PER_BLOCK" "i < NR_LP_IN_PP"
  shows "do {
       (_, s) \<leftarrow> inc_nr_invalid_lps_in_blk s p;
       (_, s) \<leftarrow> inc_nr_invalid_lps s (Pg p pg);
       s \<leftarrow> set_pg_status s (Pg p pg) i PAGE_STATUS_INVALID;
       s \<leftarrow> set_mapped_lpa s (Pg p pg) i PAGE_UNMAPPED;
       if i = NR_LP_IN_PP - 1 then do {
         (_, s) \<leftarrow> inc_nr_valid_pgs s p; (_, s) \<leftarrow> dec_nr_free_pgs s p; Some s }
       else Some s } = Some (set_blk s p (program_slot (blocks s p) pg i PAGE_UNMAPPED))"
proof -
  note ops = blk_ops [OF assms(1)]
  show ?thesis
    by (subst set_blk_same [of s p, symmetric])
      (simp add: ops assms(2,3) program_slot_def Let_def page_update_order)
qed

lemma ssd_steps:
  "ssd_do fb f = do { s \<leftarrow> f (ptr_ssd_info fb); Some (put_ssd fb s) }"
  "ssd_upd fb h = do { (r, s) \<leftarrow> h (ptr_ssd_info fb); Some (r, put_ssd fb s) }"
  by (simp_all add: ssd_do_eq ssd_upd_eq map_option_case Option.bind_def split: option.splits)

text \<open>The three phases of \<open>__map_logical_to_physical\<close> as one update.\<close>

lemma map_one_valid_eq:
  assumes p: "valid_blk (Blk bus chip blk)" "pg < NUM_PAGES_PER_BLOCK" "i < NR_LP_IN_PP"
    and lpa: "is_valid_address_range lpa"
    and i: "invalidate_lpg fb lpa = Some (x, fb1)" and sz: "sizes_ok fb1"
  shows "map_one_logical_to_physical fb lpa bus chip blk pg i = Some (0,
    put_l2p (put_ssd fb1 (set_blk (ptr_ssd_info fb1) (Blk bus chip blk)
        (program_slot (blk_of fb1 (Blk bus chip blk)) pg i lpa)))
      ((l2p fb1)(lpa := slot_ppa (Blk bus chip blk) pg i)))"
proof -
  have "sizes_ok (put_ssd fb1 s)" for s by (rule frame_sizes [OF _ sz]) simp
  note st = set_mapped_ppa_upd [OF this lpa]
  show ?thesis
    unfolding map_one_logical_to_physical_def ssd_steps
    by (simp add: i lpa_mapped [OF lpa] blk_ops_plain p program_slot_def Let_def get_block_info_def
        get_page_info_def st put_commute slot_ppa_def del: valid_blk.simps)
qed

lemma map_one_pad_eq:
  assumes p: "valid_blk (Blk bus chip blk)" "pg < NUM_PAGES_PER_BLOCK" "i < NR_LP_IN_PP"
  shows "map_one_logical_to_physical fb PAGE_UNMAPPED bus chip blk pg i = Some (0,
    put_ssd fb (set_blk (ptr_ssd_info fb) (Blk bus chip blk)
        (program_slot (blk_of fb (Blk bus chip blk)) pg i PAGE_UNMAPPED)))"
  unfolding map_one_logical_to_physical_def ssd_steps
  by (simp add: blk_ops_plain p program_slot_def Let_def get_block_info_def
        get_page_info_def page_update_order del: valid_blk.simps)

lemma map_ok_program:
  assumes ok: "map_ok B m" and p: "valid_blk p" "pg < NUM_PAGES_PER_BLOCK" "i < NR_LP_IN_PP"
    and fresh: "bst (B p) pg i = PAGE_STATUS_FREE"
    and bst: "\<And>q w j. bst (B' q) w j = (if q = p \<and> w = pg \<and> j = i then programmed_status lpa else bst (B q) w j)"
    and blpa: "\<And>q w j. blpa (B' q) w j = (if q = p \<and> w = pg \<and> j = i then lpa else blpa (B q) w j)"
    and lpa: "lpa = PAGE_UNMAPPED \<and> m' = m \<or>
      is_valid_address_range lpa \<and> m lpa = PAGE_UNMAPPED \<and> m' = m(lpa := slot_ppa p pg i)"
  shows "map_ok B' m'"
  unfolding map_ok_def
proof (intro conjI allI impI)
  fix l assume l: "is_valid_address_range l"
  show "m' l = PAGE_UNMAPPED \<or> (\<exists>q w j. valid_blk q \<and> w < NUM_PAGES_PER_BLOCK \<and> j < NR_LP_IN_PP \<and>
      m' l = slot_ppa q w j \<and> bst (B' q) w j = PAGE_STATUS_VALID \<and> blpa (B' q) w j = l)"
  proof (cases "l = lpa")
    case True
    then have "m' l = slot_ppa p pg i" "bst (B' p) pg i = PAGE_STATUS_VALID" "blpa (B' p) pg i = l"
      using lpa lpa_mapped [OF l] by (auto simp: bst blpa programmed_status_def)
    with p show ?thesis by blast
  next
    case False
    then have ml: "m' l = m l" using lpa by auto
    show ?thesis
    proof (cases "m l = PAGE_UNMAPPED")
      case mapped: False
      with map_okD(1) [OF ok l] obtain q w j where q: "valid_blk q" "w < NUM_PAGES_PER_BLOCK"
        "j < NR_LP_IN_PP" "m l = slot_ppa q w j" "bst (B q) w j = PAGE_STATUS_VALID" "blpa (B q) w j = l"
        by blast
      then have "\<not> (q = p \<and> w = pg \<and> j = i)" using fresh by auto
      then have "bst (B' q) w j = PAGE_STATUS_VALID" "blpa (B' q) w j = l" "m' l = slot_ppa q w j"
        using q(4-6) ml by (auto simp: bst blpa)
      with q show ?thesis by blast
    qed (simp add: ml)
  qed
next
  fix q w j
  assume q: "valid_blk q" "w < NUM_PAGES_PER_BLOCK" "j < NR_LP_IN_PP" and v: "bst (B' q) w j = PAGE_STATUS_VALID"
  have "is_valid_address_range (blpa (B' q) w j) \<and> m' (blpa (B' q) w j) = slot_ppa q w j"
  proof (cases "q = p \<and> w = pg \<and> j = i")
    case True
    then have "lpa \<noteq> PAGE_UNMAPPED" using v by (auto simp: bst programmed_status_def split: if_splits)
    with True lpa show ?thesis by (auto simp: blpa)
  next
    case False
    then have "bst (B q) w j = PAGE_STATUS_VALID" "blpa (B' q) w j = blpa (B q) w j"
      using v by (auto simp: bst blpa split: if_splits)
    with map_okD(2) [OF ok q] have old: "is_valid_address_range (blpa (B' q) w j)"
      "m (blpa (B' q) w j) = slot_ppa q w j" by simp_all
    then have "blpa (B' q) w j \<noteq> lpa \<or> lpa = PAGE_UNMAPPED"
      using lpa slot_ppa_mapped [OF q] by auto
    then have "m' (blpa (B' q) w j) = m (blpa (B' q) w j)" using lpa lpa_mapped by auto
    with old show ?thesis by simp
  qed
  then show "is_valid_address_range (blpa (B' q) w j)" "m' (blpa (B' q) w j) = slot_ppa q w j" by auto
qed

lemma roles_ok_act:
  assumes "roles_ok B ex ci a g" "distinct (roles ci a g)"
    and "\<And>q. q \<noteq> p \<Longrightarrow> B' q = B q" and "a = Some p \<or> p \<notin> set (roles ci a g)"
    and "p \<in> ex' \<or> 0 < nr_free_pages (B' p)" "ex = {}"
  shows "roles_ok B' ex' ci a g"
proof -
  have ne: "q \<in> set (free_blks ci) \<Longrightarrow> q \<noteq> p" "q \<in> set (used_blks ci) \<Longrightarrow> q \<noteq> p"
    "q \<in> set (dirt_blks ci) \<Longrightarrow> q \<noteq> p" "g = Some q \<Longrightarrow> q \<noteq> p" for q
    using assms(2,4) by (auto simp: roles_def)
  have "q \<in> ex' \<or> 0 < nr_free_pages (B' q)" if "a = Some q" for q
    using assms(1,3,5,6) that by (cases "q = p") (auto simp: roles_ok_def)
  then show ?thesis using assms(1) ne by (simp add: roles_ok_def assms(3))
qed

text \<open>The state after the slot is programmed, from the invariant before it.\<close>

lemma ftl_inv_program:
  fixes fb :: fb_context_t
  defines "fb' p pg i lpa \<equiv> put_ssd fb (set_blk (ptr_ssd_info fb) p (program_slot (blk_of fb p) pg i lpa))"
  assumes inv: "ftl_inv pt {} fb" and act: "act_of fb (blk_bus p) (blk_chip p) = Some p"
    and p: "valid_blk p" and i: "unat i = pt p" and pg: "pg = of_nat (frontier (blk_of fb p))"
    and lpa: "lpa = PAGE_UNMAPPED \<and> m' = l2p fb \<or>
      is_valid_address_range lpa \<and> l2p fb lpa = PAGE_UNMAPPED \<and> m' = (l2p fb)(lpa := slot_ppa p pg i)"
    and last: "i = NR_LP_IN_PP - 1 \<Longrightarrow> lpa = PAGE_UNMAPPED \<Longrightarrow>
      \<exists>j < NR_LP_IN_PP. bst (blk_of fb p) pg j = PAGE_STATUS_VALID"
  shows "ftl_inv (pt(p := if i = NR_LP_IN_PP - 1 then 0 else Suc (pt p)))
      (if i = NR_LP_IN_PP - 1 then {p} else {}) (put_l2p (fb' p pg i lpa) m')"
proof -
  note D = ftl_invD [OF inv]
  have vp: "valid_chip (blk_bus p) (blk_chip p)" using p by (rule valid_blk_chip)
  have free: "0 < nr_free_pages (blk_of fb p)" using D(8) [OF vp] act by (auto simp: roles_ok_def)
  let ?b = "program_slot (blk_of fb p) pg i lpa"
  let ?pt = "pt(p := if i = NR_LP_IN_PP - 1 then 0 else Suc (pt p))"
  let ?ex = "if i = NR_LP_IN_PP - 1 then {p} else {}"
  let ?fb = "put_l2p (fb' p pg i lpa) m'"
  have i4: "i < NR_LP_IN_PP" and i3: "i = NR_LP_IN_PP - 1 \<longleftrightarrow> pt p = 3"
    using i D(5) [OF p] by (auto simp: NR_LP_IN_PP_def word_less_nat_alt word_unat_eq_iff)
  have pgb: "pg < NUM_PAGES_PER_BLOCK" using frontier_less(3) [OF free] pg by simp
  have fresh: "bst (blk_of fb p) pg i = PAGE_STATUS_FREE"
    using blk_wfD(7) [OF D(4) [OF p] pgb i4] frontier_less(2) [OF free] i pg by simp
  have wf: "blk_wf (if i = NR_LP_IN_PP - 1 then 0 else Suc (pt p)) ?b"
    by (rule blk_wf_program [OF D(4) [OF p] free pg i D(5) [OF p] last])
  have B: "blk_of (fb' p pg i lpa) = (blk_of fb)(p := ?b)" by (simp add: fb'_def)
  have bst: "bst (blk_of ?fb q) w j = (if q = p \<and> w = pg \<and> j = i then programmed_status lpa
      else bst (blk_of fb q) w j)"
    "blpa (blk_of ?fb q) w j = (if q = p \<and> w = pg \<and> j = i then lpa else blpa (blk_of fb q) w j)" for q w j
    by (auto simp: B program_slot_bst)
  show ?thesis
    unfolding ftl_inv_def
  proof (intro conjI allI impI)
    show "sizes_ok ?fb" by (rule frame_sizes [OF _ D(1)]) (simp add: fb'_def)
    show "ids_ok (blk_of ?fb)" using D(2) by (simp add: ids_ok_def B)
    show "map_ok (blk_of ?fb) (l2p ?fb)"
      using map_ok_program [OF D(3) p pgb i4 fresh, of "blk_of ?fb", OF bst lpa] by simp
  next
    fix q assume q: "valid_blk q"
    show "blk_wf (?pt q) (blk_of ?fb q)" using wf D(4) [OF q] by (simp add: B)
    show "?pt q < 4" using D(5) [OF q] i3 D(5) [OF p] by auto
    show "act_of ?fb (blk_bus q) (blk_chip q) = Some q" if "?pt q \<noteq> 0"
      using D(6) [OF q] that act by (cases "q = p") (auto simp: fb'_def)
  next
    fix bus chip assume vc: "valid_chip bus chip"
    note part = D(7) [OF vc] and ok = D(8) [OF vc]
    show "chip_part bus chip (chip_of ?fb bus chip) (act_of ?fb bus chip) (gc_of ?fb bus chip)"
      using part by (simp add: fb'_def)
    have "p \<in> ?ex \<or> 0 < nr_free_pages (blk_of ?fb p)" using free by (simp add: B)
    moreover have "act_of fb bus chip = Some p \<or>
        p \<notin> set (roles (chip_of fb bus chip) (act_of fb bus chip) (gc_of fb bus chip))"
      using chip_part_roles(2) [OF part vc] act by auto
    ultimately have "roles_ok (blk_of ?fb) ?ex (chip_of fb bus chip) (act_of fb bus chip) (gc_of fb bus chip)"
      by (intro roles_ok_act [OF ok chip_part_roles(1) [OF part]]) (auto simp: B)
    then show "roles_ok (blk_of ?fb) ?ex (chip_of ?fb bus chip) (act_of ?fb bus chip) (gc_of ?fb bus chip)"
      by (simp add: fb'_def)
  qed
qed

text \<open>One call of \<open>__map_logical_to_physical\<close> at the frontier.\<close>

lemma map_one_spec:
  assumes inv: "ftl_inv pt {} fb" and p: "p = Blk bus chip blk" and act: "act_of fb bus chip = Some p"
    and i: "unat i = pt p" and pg: "pg = of_nat (frontier (blk_of fb p))"
    and lpa: "lpa = PAGE_UNMAPPED \<or> is_valid_address_range lpa"
    and last: "i = NR_LP_IN_PP - 1 \<Longrightarrow> lpa = PAGE_UNMAPPED \<Longrightarrow>
      \<exists>j < NR_LP_IN_PP. bst (blk_of fb p) pg j = PAGE_STATUS_VALID"
  shows "\<exists>fb'. map_one_logical_to_physical fb lpa bus chip blk pg i = Some (0, fb') \<and>
    ftl_inv (pt(p := if i = NR_LP_IN_PP - 1 then 0 else Suc (pt p)))
      (if i = NR_LP_IN_PP - 1 then {p} else {}) fb' \<and> frame fb fb' \<and> act_of fb' = act_of fb \<and>
    l2p fb' = (if lpa = PAGE_UNMAPPED then l2p fb else (l2p fb)(lpa := slot_ppa p pg i)) \<and>
    (i \<noteq> NR_LP_IN_PP - 1 \<longrightarrow> same_frontiers fb fb') \<and> gc_kept fb fb' \<and>
    (i = NR_LP_IN_PP - 1 \<longrightarrow> nr_free_pages \<circ> blk_of fb' =
      (nr_free_pages \<circ> blk_of fb)(p := nr_free_pages (blk_of fb p) - 1))"
proof -
  note D = ftl_invD [OF inv]
  have vc: "valid_chip bus chip" using act by (auto simp: act_of_def split: if_splits)
  have pin: "p \<in> set (roles (chip_of fb bus chip) (act_of fb bus chip) (gc_of fb bus chip))"
    using act by (simp add: roles_def)
  then have vp: "valid_blk p" using chip_part_roles(2) [OF D(7) [OF vc] vc] by auto
  have free: "0 < nr_free_pages (blk_of fb p)" using D(8) [OF vc] act by (auto simp: roles_ok_def)
  have pgb: "pg < NUM_PAGES_PER_BLOCK" using frontier_less(3) [OF free] pg by simp
  have i4: "i < NR_LP_IN_PP" using i D(5) [OF vp] by (auto simp: NR_LP_IN_PP_def word_less_nat_alt)
  show ?thesis
  proof (cases "lpa = PAGE_UNMAPPED")
    case True
    let ?fb = "put_ssd fb (set_blk (ptr_ssd_info fb) p (program_slot (blk_of fb p) pg i lpa))"
    have e: "put_l2p ?fb (l2p fb) = ?fb" by (simp add: put_defs)
    have "ftl_inv (pt(p := if i = NR_LP_IN_PP - 1 then 0 else Suc (pt p)))
        (if i = NR_LP_IN_PP - 1 then {p} else {}) ?fb"
      using ftl_inv_program [OF inv _ vp i pg, of lpa "l2p fb"] act p True last e by simp
    then show ?thesis
      using map_one_pad_eq [of bus chip blk pg i fb] vp pgb i4 p True
      by (auto simp: same_frontiers_def fun_eq_iff)
  next
    case False
    then have lv: "is_valid_address_range lpa" using lpa by simp
    obtain fb1 where inv1: "invalidate_lpg fb lpa = Some (l2p fb lpa, fb1)" "ftl_inv pt {} fb1"
      and f1: "frame fb fb1" "l2p fb1 = (l2p fb)(lpa := PAGE_UNMAPPED)" "act_of fb1 = act_of fb"
        "same_frontiers fb fb1" "gc_kept fb fb1"
      using invalidate_lpg_spec [OF inv lv] by blast
    have pg1: "pg = of_nat (frontier (blk_of fb1 p))"
      using f1(4) pg by (simp add: same_frontiers_def frontier_def)
    let ?fb = "put_l2p (put_ssd fb1 (set_blk (ptr_ssd_info fb1) p (program_slot (blk_of fb1 p) pg i lpa)))
        ((l2p fb1)(lpa := slot_ppa p pg i))"
    have "ftl_inv (pt(p := if i = NR_LP_IN_PP - 1 then 0 else Suc (pt p)))
        (if i = NR_LP_IN_PP - 1 then {p} else {}) ?fb"
      using ftl_inv_program [OF inv1(2) _ vp i pg1, of lpa "(l2p fb1)(lpa := slot_ppa p pg i)"]
        act p False f1 lv by simp
    moreover have "map_one_logical_to_physical fb lpa bus chip blk pg i = Some (0, ?fb)"
      using map_one_valid_eq [of bus chip blk pg i lpa fb "l2p fb lpa" fb1] vp pgb i4 p lv inv1(1)
        ftl_invD(1) [OF inv1(2)] by simp
    moreover have "gc_kept fb ?fb" using f1(5) by (simp add: gc_kept_def)
    moreover have "nr_free_pages \<circ> blk_of ?fb = (nr_free_pages \<circ> blk_of fb)(p := nr_free_pages (blk_of fb p) - 1)"
      if "i = NR_LP_IN_PP - 1"
      using f1(4) that by (auto simp: same_frontiers_def fun_eq_iff)
    ultimately show ?thesis using f1 False by (auto simp: same_frontiers_def)
  qed
qed

section \<open>A wordline\<close>

definition slot_map :: "blkptr \<Rightarrow> u32 \<Rightarrow> u8 \<Rightarrow> u32 \<Rightarrow> (u32 \<Rightarrow> u32) \<Rightarrow> u32 \<Rightarrow> u32" where
  "slot_map p pg i lpa m = (if lpa = PAGE_UNMAPPED then m else m(lpa := slot_ppa p pg i))"

lemma slot_map_apply:
  "slot_map p pg i lpa m x = (if x = lpa \<and> lpa \<noteq> PAGE_UNMAPPED then slot_ppa p pg i else m x)"
  by (simp add: slot_map_def)

definition wordline_map :: "blkptr \<Rightarrow> u32 \<Rightarrow> (nat \<Rightarrow> u32) \<Rightarrow> (u32 \<Rightarrow> u32) \<Rightarrow> u32 \<Rightarrow> u32" where
  "wordline_map p pg ls m = slot_map p pg 3 (ls 3) (slot_map p pg 2 (ls 2)
     (slot_map p pg 1 (ls 1) (slot_map p pg 0 (ls 0) m)))"

lemma slots4 [simp]:
  "(0 :: u8) < NR_LP_IN_PP" "(1 :: u8) < NR_LP_IN_PP" "(2 :: u8) < NR_LP_IN_PP" "(3 :: u8) < NR_LP_IN_PP"
  "(0 :: u8) \<noteq> NR_LP_IN_PP - 1" "(1 :: u8) \<noteq> NR_LP_IN_PP - 1" "(2 :: u8) \<noteq> NR_LP_IN_PP - 1"
  by (simp_all add: NR_LP_IN_PP_def)

lemma last_slot: "NR_LP_IN_PP - 1 = (3 :: u8)"
  by (simp add: NR_LP_IN_PP_def)

lemma mapped_slot_valid:
  assumes inv: "ftl_inv pt ex fb" and lpa: "is_valid_address_range lpa"
    and m: "l2p fb lpa = slot_ppa p pg i"
    and p: "valid_blk p" "pg < NUM_PAGES_PER_BLOCK" "i < NR_LP_IN_PP"
  shows "bst (blk_of fb p) pg i = PAGE_STATUS_VALID" "blpa (blk_of fb p) pg i = lpa"
proof -
  have "l2p fb lpa \<noteq> PAGE_UNMAPPED" using m slot_ppa_mapped [OF p] by simp
  then obtain q w j where q: "valid_blk q" "w < NUM_PAGES_PER_BLOCK" "j < NR_LP_IN_PP"
    "l2p fb lpa = slot_ppa q w j" "bst (blk_of fb q) w j = PAGE_STATUS_VALID" "blpa (blk_of fb q) w j = lpa"
    using map_okD(1) [OF ftl_invD(3) [OF inv] lpa] by blast
  then show "bst (blk_of fb p) pg i = PAGE_STATUS_VALID" "blpa (blk_of fb p) pg i = lpa"
    using slot_ppa_inj [OF p q(1-3)] m by auto
qed

lemma act_block_valid:
  assumes inv: "ftl_inv pt ex fb" and act: "act_of fb bus chip = Some p"
  shows "valid_chip bus chip" "valid_blk p" "blk_bus p = bus" "blk_chip p = chip"
    "p = Blk bus chip (blk_no p)"
proof -
  show vc: "valid_chip bus chip" using act by (auto simp: act_of_def split: if_splits)
  have "p \<in> set (roles (chip_of fb bus chip) (act_of fb bus chip) (gc_of fb bus chip))"
    using act by (simp add: roles_def)
  then show v: "valid_blk p" "blk_bus p = bus" "blk_chip p = chip"
    using chip_part_roles(2) [OF ftl_invD(7) [OF inv vc] vc] by auto
  then show "p = Blk bus chip (blk_no p)" by (cases p) simp
qed

lemma map_logical_to_physical_spec:
  assumes inv: "ftl_ok fb" and act: "act_of fb bus chip = Some p" and blk: "blk = blk_no p"
    and pg: "pg = of_nat (frontier (blk_of fb p))" and len: "pos + 4 \<le> length lpas"
    and lpa: "\<And>j. j < 4 \<Longrightarrow> lpas ! (pos + j) = PAGE_UNMAPPED \<or> is_valid_address_range (lpas ! (pos + j))"
    and some: "j0 < 4" "lpas ! (pos + j0) \<noteq> PAGE_UNMAPPED"
  shows "\<exists>fb'. map_logical_to_physical fb lpas pos bus chip blk pg = Some (0, fb') \<and>
    ftl_inv (\<lambda>_. 0) {p} fb' \<and> frame fb fb' \<and> act_of fb' = act_of fb \<and>
    l2p fb' = wordline_map p pg (\<lambda>j. lpas ! (pos + j)) (l2p fb) \<and> \<not> all_dead (blk_of fb' p) \<and>
    gc_kept fb fb' \<and> nr_free_pages \<circ> blk_of fb' = (nr_free_pages \<circ> blk_of fb)(p := nr_free_pages (blk_of fb p) - 1)"
proof -
  have p: "p = Blk bus chip blk" and vp: "valid_blk p" using act_block_valid [OF inv act] blk by auto
  have free: "0 < nr_free_pages (blk_of fb p)"
    using ftl_invD(8) [OF inv act_block_valid(1) [OF inv act]] act by (auto simp: roles_ok_def)
  have pgb: "pg < NUM_PAGES_PER_BLOCK" using frontier_less(3) [OF free] pg by simp
  let ?l = "\<lambda>j. lpas ! (pos + j)"
  let ?pt = "\<lambda>k. (\<lambda>_. 0 :: nat)(p := k)"
  have pt0: "(\<lambda>_. 0 :: nat)(p := 0) = (\<lambda>_. 0)" by auto
  have fr: "pg = of_nat (frontier (blk_of g p))" if "same_frontiers fb g" for g
    using that pg by (simp add: same_frontiers_def frontier_def)
  define l0 l1 l2 l3 where l: "l0 = ?l 0" "l1 = ?l 1" "l2 = ?l 2" "l3 = ?l 3"
  have lv: "l0 = PAGE_UNMAPPED \<or> is_valid_address_range l0" "l1 = PAGE_UNMAPPED \<or> is_valid_address_range l1"
    "l2 = PAGE_UNMAPPED \<or> is_valid_address_range l2" "l3 = PAGE_UNMAPPED \<or> is_valid_address_range l3"
    using lpa [of 0] lpa [of 1] lpa [of 2] lpa [of 3] unfolding l by simp_all
  have u: "unat (0 :: u8) = 0" "unat (1 :: u8) = Suc 0" "unat (2 :: u8) = Suc (Suc 0)"
    "unat (3 :: u8) = Suc (Suc (Suc 0))" by simp_all
  obtain fb1 where m1: "map_one_logical_to_physical fb l0 bus chip blk pg 0 = Some (0, fb1)"
    "ftl_inv (?pt (Suc 0)) {} fb1" "frame fb fb1" "act_of fb1 = act_of fb"
    "l2p fb1 = slot_map p pg 0 l0 (l2p fb)" "same_frontiers fb fb1" "gc_kept fb fb1"
    using map_one_spec [OF inv p act _ pg, of 0 l0] lv(1) by (auto simp: slot_map_def)
  obtain fb2 where m2: "map_one_logical_to_physical fb1 l1 bus chip blk pg 1 = Some (0, fb2)"
    "ftl_inv (?pt (Suc (Suc 0))) {} fb2" "frame fb1 fb2" "act_of fb2 = act_of fb"
    "l2p fb2 = slot_map p pg 1 l1 (l2p fb1)" "same_frontiers fb1 fb2" "gc_kept fb1 fb2"
    using map_one_spec [OF m1(2) p, of 1 pg l1] lv(2) act m1(4) fr [OF m1(6)] u by (auto simp: slot_map_def)
  have f2: "same_frontiers fb fb2" using m1(6) m2(6) by (simp add: same_frontiers_def)
  obtain fb3 where m3: "map_one_logical_to_physical fb2 l2 bus chip blk pg 2 = Some (0, fb3)"
    "ftl_inv (?pt (Suc (Suc (Suc 0)))) {} fb3" "frame fb2 fb3" "act_of fb3 = act_of fb"
    "l2p fb3 = slot_map p pg 2 l2 (l2p fb2)" "same_frontiers fb2 fb3" "gc_kept fb2 fb3"
    using map_one_spec [OF m2(2) p, of 2 pg l2] lv(3) act m2(4) fr [OF f2] u by (auto simp: slot_map_def)
  have f3: "same_frontiers fb fb3" using f2 m3(6) by (simp add: same_frontiers_def)
  have someone: "l0 \<noteq> PAGE_UNMAPPED \<or> l1 \<noteq> PAGE_UNMAPPED \<or> l2 \<noteq> PAGE_UNMAPPED \<or> l3 \<noteq> PAGE_UNMAPPED"
  proof -
    have "j0 = 0 \<or> j0 = 1 \<or> j0 = 2 \<or> j0 = 3" using some(1) by arith
    then show ?thesis using some(2) unfolding l by auto
  qed
  have last: "\<exists>j < NR_LP_IN_PP. bst (blk_of fb3 p) pg j = PAGE_STATUS_VALID" if l3: "l3 = PAGE_UNMAPPED"
  proof -
    have "l2p fb3 x \<in> {slot_ppa p pg 0, slot_ppa p pg 1, slot_ppa p pg 2}"
      if "x = l0 \<or> x = l1 \<or> x = l2" "x \<noteq> PAGE_UNMAPPED" for x
      unfolding m3(5) m2(5) m1(5) slot_map_apply using that by simp blast
    moreover obtain x where x: "x = l0 \<or> x = l1 \<or> x = l2" "x \<noteq> PAGE_UNMAPPED"
      using someone l3 by blast
    moreover have "is_valid_address_range x" using x lv by blast
    ultimately obtain i where "i < NR_LP_IN_PP" "is_valid_address_range x" "l2p fb3 x = slot_ppa p pg i"
      using slots4 by blast
    then show ?thesis using mapped_slot_valid(1) [OF m3(2) _ _ vp pgb] by blast
  qed
  obtain fb4 where m4: "map_one_logical_to_physical fb3 l3 bus chip blk pg 3 = Some (0, fb4)"
    "ftl_inv (\<lambda>_. 0) {p} fb4" "frame fb3 fb4" "act_of fb4 = act_of fb"
    "l2p fb4 = slot_map p pg 3 l3 (l2p fb3)" "gc_kept fb3 fb4"
    "nr_free_pages \<circ> blk_of fb4 = (nr_free_pages \<circ> blk_of fb3)(p := nr_free_pages (blk_of fb3 p) - 1)"
  proof -
    have "act_of fb3 bus chip = Some p" using act m3(4) by simp
    moreover have "unat (3 :: u8) = ?pt (Suc (Suc (Suc 0))) p" by simp
    ultimately have "\<exists>fb'. map_one_logical_to_physical fb3 l3 bus chip blk pg 3 = Some (0, fb') \<and>
      ftl_inv ((?pt (Suc (Suc (Suc 0))))(p := 0)) {p} fb' \<and> frame fb3 fb' \<and> act_of fb' = act_of fb3 \<and>
      l2p fb' = (if l3 = PAGE_UNMAPPED then l2p fb3 else (l2p fb3)(l3 := slot_ppa p pg 3)) \<and> gc_kept fb3 fb' \<and>
      nr_free_pages \<circ> blk_of fb' = (nr_free_pages \<circ> blk_of fb3)(p := nr_free_pages (blk_of fb3 p) - 1)"
      using map_one_spec [OF m3(2) p _ _ fr [OF f3] lv(4) last, of 3] last_slot by auto
    then show thesis using that m3(4) unfolding fun_upd_upd pt0 slot_map_def by auto
  qed
  have m: "l2p fb4 = wordline_map p pg ?l (l2p fb)"
    unfolding wordline_map_def m4(5) m3(5) m2(5) m1(5) l ..
  have "l2p fb4 x \<in> {slot_ppa p pg 0, slot_ppa p pg 1, slot_ppa p pg 2, slot_ppa p pg 3}"
    if "x = l0 \<or> x = l1 \<or> x = l2 \<or> x = l3" "x \<noteq> PAGE_UNMAPPED" for x
    unfolding m4(5) m3(5) m2(5) m1(5) slot_map_apply using that by simp blast
  moreover obtain x where x: "x = l0 \<or> x = l1 \<or> x = l2 \<or> x = l3" "x \<noteq> PAGE_UNMAPPED"
    using someone by blast
  moreover have "is_valid_address_range x" using x lv by blast
  ultimately obtain i where "i < NR_LP_IN_PP" "is_valid_address_range x" "l2p fb4 x = slot_ppa p pg i"
    using slots4(1-4) by blast
  then have "\<exists>i < NR_LP_IN_PP. bst (blk_of fb4 p) pg i = PAGE_STATUS_VALID"
    using mapped_slot_valid(1) [OF m4(2) _ _ vp pgb] by blast
  then have "\<not> all_dead (blk_of fb4 p)" using pgb unfolding all_dead_def by fastforce
  moreover have "map_logical_to_physical fb lpas pos bus chip blk pg = Some (0, fb4)"
    using m1(1) m2(1) m3(1) m4(1) len unfolding l
    by (simp add: map_logical_to_physical_def words_below_NR_LP ld_nth_def)
  moreover have "frame fb fb4" using m1(3) m2(3) m3(3) m4(3) frame_trans by blast
  moreover have "gc_kept fb fb4" using m1(7) m2(7) m3(7) m4(6) gc_kept_trans by blast
  moreover have "nr_free_pages \<circ> blk_of fb4 = (nr_free_pages \<circ> blk_of fb)(p := nr_free_pages (blk_of fb p) - 1)"
    using m4(7) f3 by (simp add: same_frontiers_def fun_eq_iff)
  ultimately show ?thesis using m4(2,4) m by blast
qed

end
