(* ===== verification/FB_Alloc.thy ===== *)
theory FB_Alloc
  imports FB_Map_Page
begin

text \<open>
  Allocating the wordline to write (\<open>alloc_new_page\<close>), replacing a full active block
  (\<open>update_act_blk\<close>), and the effect of the flash operations on the logical contents.
\<close>

section \<open>Steps inside one chip\<close>

text \<open>
  A step that moves blocks of one chip between roles, or changes blocks without touching valid
  slots, keeps the invariant when it keeps it for that chip.
\<close>

lemma map_ok_same_valid:
  assumes "map_ok B m"
    and "\<And>q w j. valid_blk q \<Longrightarrow> w < NUM_PAGES_PER_BLOCK \<Longrightarrow> j < NR_LP_IN_PP \<Longrightarrow>
      (bst (B' q) w j = PAGE_STATUS_VALID) = (bst (B q) w j = PAGE_STATUS_VALID)"
    and "\<And>q w j. valid_blk q \<Longrightarrow> w < NUM_PAGES_PER_BLOCK \<Longrightarrow> j < NR_LP_IN_PP \<Longrightarrow>
      bst (B q) w j = PAGE_STATUS_VALID \<Longrightarrow> blpa (B' q) w j = blpa (B q) w j"
  shows "map_ok B' m"
  unfolding map_ok_def
proof (intro conjI allI impI)
  fix l assume l: "is_valid_address_range l"
  show "m l = PAGE_UNMAPPED \<or> (\<exists>q w j. valid_blk q \<and> w < NUM_PAGES_PER_BLOCK \<and> j < NR_LP_IN_PP \<and>
      m l = slot_ppa q w j \<and> bst (B' q) w j = PAGE_STATUS_VALID \<and> blpa (B' q) w j = l)"
    using map_okD(1) [OF assms(1) l] assms(2,3) by blast
next
  fix q w j
  assume q: "valid_blk q" "w < NUM_PAGES_PER_BLOCK" "j < NR_LP_IN_PP" and v: "bst (B' q) w j = PAGE_STATUS_VALID"
  have b: "bst (B q) w j = PAGE_STATUS_VALID" using assms(2) [OF q] v by simp
  with assms(3) [OF q b] map_okD(2) [OF assms(1) q b]
  show "is_valid_address_range (blpa (B' q) w j)" "m (blpa (B' q) w j) = slot_ppa q w j" by simp_all
qed

definition flags_only :: "flash_block \<Rightarrow> flash_block \<Rightarrow> bool" where
  "flags_only b b' \<longleftrightarrow> (\<exists>r a e. b' = b\<lparr>is_reserved_block := r, is_active_block := a, nr_erase_cnt := e\<rparr>)"

lemma flags_onlyI:
  "flags_only b b"
  "flags_only b b' \<Longrightarrow> flags_only b (b'\<lparr>is_reserved_block := x\<rparr>)"
  "flags_only b b' \<Longrightarrow> flags_only b (b'\<lparr>is_active_block := x\<rparr>)"
  "flags_only b b' \<Longrightarrow> flags_only b (b'\<lparr>nr_erase_cnt := n\<rparr>)"
proof -
  show "flags_only b b"
    unfolding flags_only_def
    by (intro exI [of _ "is_reserved_block b"] exI [of _ "is_active_block b"] exI [of _ "nr_erase_cnt b"]) simp
  assume "flags_only b b'"
  then obtain r a e where b': "b' = b\<lparr>is_reserved_block := r, is_active_block := a, nr_erase_cnt := e\<rparr>"
    by (auto simp: flags_only_def)
  have "b'\<lparr>is_reserved_block := x\<rparr> = b\<lparr>is_reserved_block := x, is_active_block := a, nr_erase_cnt := e\<rparr>"
    "b'\<lparr>is_active_block := x\<rparr> = b\<lparr>is_reserved_block := r, is_active_block := x, nr_erase_cnt := e\<rparr>"
    "b'\<lparr>nr_erase_cnt := n\<rparr> = b\<lparr>is_reserved_block := r, is_active_block := a, nr_erase_cnt := n\<rparr>"
    by (rule flash_block.equality, simp_all add: b')+
  then show "flags_only b (b'\<lparr>is_reserved_block := x\<rparr>)" "flags_only b (b'\<lparr>is_active_block := x\<rparr>)"
    "flags_only b (b'\<lparr>nr_erase_cnt := n\<rparr>)" unfolding flags_only_def by blast+
qed

lemma flags_onlyD:
  assumes "flags_only b b'"
  shows "blk_wf k b' = blk_wf k b" "all_dead b' = all_dead b" "nr_free_pages b' = nr_free_pages b"
    "list_pages b' = list_pages b" "no_bus b' = no_bus b" "no_chip b' = no_chip b" "no_block b' = no_block b"
    "frontier b' = frontier b"
  using assms by (auto simp: flags_only_def frontier_def)

lemma ftl_inv_local:
  assumes inv: "ftl_inv (\<lambda>_. 0) ex fb" and vc: "valid_chip bus chip"
    and fr: "frame fb fb'" and m: "l2p fb' = l2p fb"
    and ids: "ids_ok (blk_of fb')" and wf: "\<And>q. valid_blk q \<Longrightarrow> blk_wf 0 (blk_of fb' q)"
    and map: "map_ok (blk_of fb') (l2p fb)"
    and else_blk: "\<And>q. \<not> (blk_bus q = bus \<and> blk_chip q = chip) \<Longrightarrow> valid_blk q \<Longrightarrow>
      nr_free_pages (blk_of fb' q) = nr_free_pages (blk_of fb q) \<and> all_dead (blk_of fb' q) = all_dead (blk_of fb q)"
    and else_chip: "\<And>b c. \<not> (b = bus \<and> c = chip) \<Longrightarrow>
      chip_of fb' b c = chip_of fb b c \<and> act_of fb' b c = act_of fb b c \<and> gc_of fb' b c = gc_of fb b c"
    and part: "chip_part bus chip (chip_of fb' bus chip) (act_of fb' bus chip) (gc_of fb' bus chip)"
    and ok: "roles_ok (blk_of fb') ex' (chip_of fb' bus chip) (act_of fb' bus chip) (gc_of fb' bus chip)"
    and ex: "\<And>q. q \<in> ex \<Longrightarrow> blk_bus q = bus \<and> blk_chip q = chip"
  shows "ftl_inv (\<lambda>_. 0) ex' fb'"
  unfolding ftl_inv_def
proof (intro conjI allI impI)
  note D = ftl_invD [OF inv]
  show "sizes_ok fb'" by (rule frame_sizes [OF fr D(1)])
  show "ids_ok (blk_of fb')" by (rule ids)
  show "map_ok (blk_of fb') (l2p fb')" using map m by simp
  fix b c assume v: "valid_chip b c"
  have "chip_part b c (chip_of fb' b c) (act_of fb' b c) (gc_of fb' b c) \<and>
      roles_ok (blk_of fb') ex' (chip_of fb' b c) (act_of fb' b c) (gc_of fb' b c)"
  proof (cases "b = bus \<and> c = chip")
    case True
    then show ?thesis using part ok by simp
  next
    case False
    have R: "set (roles (chip_of fb b c) (act_of fb b c) (gc_of fb b c)) =
        {p. valid_blk p \<and> blk_bus p = b \<and> blk_chip p = c}"
      by (rule chip_part_roles(2) [OF D(7) [OF v] v])
    have "roles_ok (blk_of fb') ex (chip_of fb b c) (act_of fb b c) (gc_of fb b c)"
      by (rule roles_ok_cong [OF D(8) [OF v]]) (use R else_blk False in auto)
    moreover have "q \<notin> ex" if "act_of fb b c = Some q" for q
      using act_block_valid(3,4) [OF inv that] ex False by auto
    ultimately have "roles_ok (blk_of fb') ex' (chip_of fb b c) (act_of fb b c) (gc_of fb b c)"
      by (auto simp: roles_ok_def)
    then show ?thesis using D(7) [OF v] else_chip [OF False] by simp
  qed
  then show "chip_part b c (chip_of fb' b c) (act_of fb' b c) (gc_of fb' b c)"
    "roles_ok (blk_of fb') ex' (chip_of fb' b c) (act_of fb' b c) (gc_of fb' b c)" by auto
qed (use wf in auto)

text \<open>The case where only flags of blocks change.\<close>

lemma ftl_inv_flags:
  assumes inv: "ftl_inv (\<lambda>_. 0) ex fb" and vc: "valid_chip bus chip"
    and fr: "frame fb fb'" and m: "l2p fb' = l2p fb"
    and B: "\<And>q. flags_only (blk_of fb q) (blk_of fb' q)"
    and else_chip: "\<And>b c. \<not> (b = bus \<and> c = chip) \<Longrightarrow>
      chip_of fb' b c = chip_of fb b c \<and> act_of fb' b c = act_of fb b c \<and> gc_of fb' b c = gc_of fb b c"
    and part: "chip_part bus chip (chip_of fb' bus chip) (act_of fb' bus chip) (gc_of fb' bus chip)"
    and ok: "roles_ok (blk_of fb) ex' (chip_of fb' bus chip) (act_of fb' bus chip) (gc_of fb' bus chip)"
    and ex: "\<And>q. q \<in> ex \<Longrightarrow> blk_bus q = bus \<and> blk_chip q = chip"
  shows "ftl_inv (\<lambda>_. 0) ex' fb'"
proof (rule ftl_inv_local [OF inv vc fr m _ _ _ _ else_chip part _ ex])
  note D = ftl_invD [OF inv] and F = flags_onlyD [OF B]
  show "ids_ok (blk_of fb')" using D(2) by (simp add: ids_ok_def F)
  show "blk_wf 0 (blk_of fb' q)" if "valid_blk q" for q using D(4) [OF that] by (simp add: F)
  show "map_ok (blk_of fb') (l2p fb)" by (rule map_ok_same_valid [OF D(3)]) (simp_all add: F)
  show "roles_ok (blk_of fb') ex' (chip_of fb' bus chip) (act_of fb' bus chip) (gc_of fb' bus chip)"
    by (rule roles_ok_cong [OF ok]) (simp add: F)
qed (simp_all add: flags_onlyD [OF B])

section \<open>Allocating a wordline\<close>

lemma frontier_of_free:
  assumes "blk_wf k b"
  shows "NUM_PAGES_PER_BLOCK - nr_free_pages b = of_nat (frontier b)"
  using blk_wfD(5) [OF assms] by (simp add: frontier_def of_nat_diff NUM_PAGES_PER_BLOCK_def)

lemma free_block_valid:
  assumes "ftl_inv pt ex fb" "valid_chip bus chip" "p \<in> set (free_blks (chip_of fb bus chip))"
  shows "valid_blk p" "blk_bus p = bus" "blk_chip p = chip"
  using chip_part_roles(2) [OF ftl_invD(7) [OF assms(1,2)] assms(2)] assms(3) by (auto simp: roles_def)

lemma get_free_block_eq:
  "valid_chip bus chip \<Longrightarrow> get_free_block s bus chip = Some (list_head (free_blks (chips s bus chip)))"
  by (simp add: get_free_block_def get_chip_info_def st_valid)

text \<open>The block \<open>alloc_new_page\<close> writes to: the active block or, when there is none, a free block.\<close>

definition alloc_block :: "fb_context_t \<Rightarrow> u32 \<Rightarrow> u32 \<Rightarrow> (blkptr option \<times> fb_context_t) option" where
  "alloc_block fb b c = do {
     act \<leftarrow> get_curr_active_block fb b c;
     case act of Some blki \<Rightarrow> Some (Some blki, fb) | None \<Rightarrow> do {
       free \<leftarrow> get_free_block (get_ssd_inf fb) b c;
       case free of None \<Rightarrow> Some (None, fb) | Some blki \<Rightarrow> do {
         fb \<leftarrow> ssd_do fb (\<lambda>s. reset_free_blk s blki);
         fb \<leftarrow> set_curr_active_block fb b c (Some blki);
         Some (Some blki, fb) } } }"

lemma alloc_new_page_alt:
  "alloc_new_page fb bus chip = do {
     (blki, fb) \<leftarrow> alloc_block fb (ucast bus) (ucast chip);
     case blki of
       None \<Rightarrow> Some (-1, None, fb)
     | Some blki \<Rightarrow> do {
         b \<leftarrow> ld_blk (get_ssd_inf fb) blki;
         n \<leftarrow> get_nr_free_pgs (get_ssd_inf fb) blki;
         Some (0, Some (no_block b, NUM_PAGES_PER_BLOCK - n), fb) } }"
  unfolding alloc_new_page_def alloc_block_def Option.bind_assoc ..

lemma alloc_new_page_spec:
  fixes bus chip :: u8
  defines "b \<equiv> ucast bus" and "c \<equiv> ucast chip"
  assumes inv: "ftl_ok fb" and vc: "valid_chip b c"
  shows "(act_of fb b c = None \<and> free_blks (chip_of fb b c) = [] \<and>
      alloc_new_page fb bus chip = Some (-1, None, fb)) \<or>
    (\<exists>p fb'. alloc_new_page fb bus chip = Some (0, Some (blk_no p, of_nat (frontier (blk_of fb' p))), fb') \<and>
      ftl_ok fb' \<and> frame fb fb' \<and> l2p fb' = l2p fb \<and> act_of fb' b c = Some p \<and> gc_of fb' = gc_of fb \<and>
      same_frontiers fb fb' \<and> (act_of fb b c \<noteq> None \<longrightarrow> fb' = fb) \<and> (act_of fb b c \<noteq> None \<or> free_blks (chip_of fb b c) \<noteq> []))"
proof -
  note D = ftl_invD [OF inv]
  have out: "alloc_new_page fb bus chip = Some (0, Some (blk_no p, of_nat (frontier (blk_of fb' p))), fb')"
    if "alloc_block fb b c = Some (Some p, fb')" and "ftl_ok fb'" "valid_blk p" for p fb'
  proof -
    note E = ftl_invD [OF that(2)]
    show ?thesis
      unfolding alloc_new_page_alt b_def [symmetric] c_def [symmetric] that(1)
      using ids_okD(3) [OF E(2) that(3)] frontier_of_free [OF E(4) [OF that(3)]] that(3)
      by (simp add: st_valid get_nr_free_pgs_def get_ssd_inf_def)
  qed
  show ?thesis
  proof (cases "act_of fb b c")
    case (Some p)
    then have "alloc_new_page fb bus chip = Some (0, Some (blk_no p, of_nat (frontier (blk_of fb p))), fb)"
      using out [of p fb] inv act_block_valid(2) [OF inv Some] get_curr_active_block_eq [OF D(1) vc]
      by (simp add: alloc_block_def)
    with Some inv show ?thesis by (auto simp: same_frontiers_def)
  next
    case None
    show ?thesis
    proof (cases "free_blks (chip_of fb b c)")
      case Nil
      then have "alloc_new_page fb bus chip = Some (-1, None, fb)"
        using None get_curr_active_block_eq [OF D(1) vc] get_free_block_eq [OF vc, of "ptr_ssd_info fb"]
        by (simp add: alloc_new_page_alt alloc_block_def b_def c_def get_ssd_inf_def list_head_def)
      with None Nil show ?thesis by simp
    next
      case (Cons p ps)
      then have pin: "p \<in> set (free_blks (chip_of fb b c))" by simp
      note vp = free_block_valid [OF inv vc pin]
      let ?ci = "chip_of fb b c"
      let ?s = "set_chip (ptr_ssd_info fb) p (?ci\<lparr>free_blks := remove1 p (free_blks ?ci),
          nr_free_blocks := nr_free_blocks ?ci - 1\<rparr>)"
      let ?fb = "put_act (put_ssd fb (set_blk ?s p ((blk_of fb p)\<lparr>is_active_block := 1\<rparr>))) b c (Some p)"
      have sz: "sizes_ok (put_ssd fb s)" for s by (rule frame_sizes [OF _ D(1)]) simp
      have steps: "ssd_do fb (\<lambda>s. reset_free_blk s p) = Some (put_ssd fb ?s)"
        using chip_list_ops(2) [OF vp(1), of "ptr_ssd_info fb"] ids_okD [OF D(2) vp(1)] pin vp
        by (simp add: ssd_do_eq)
      have set: "set_curr_active_block (put_ssd fb ?s) b c (Some p) = Some ?fb"
        using set_curr_active_block_Some [OF sz vc vp(1)] by (simp add: put_defs)
      have "ftl_ok ?fb"
      proof (rule ftl_inv_flags [OF inv vc])
        show "flags_only (blk_of fb q) (blk_of ?fb q)" for q by (simp add: flags_onlyI)
        show "chip_part b c (chip_of ?fb b c) (act_of ?fb b c) (gc_of ?fb b c)"
          using chip_moves(4) [OF D(7) [OF vc, unfolded None] pin] vp
          by (simp add: act_of_put_act [OF sz vc])
        have "0 < nr_free_pages (blk_of fb p)"
          using D(8) [OF vc] pin by (auto simp: roles_ok_def NUM_PAGES_PER_BLOCK_def)
        then show "roles_ok (blk_of fb) {} (chip_of ?fb b c) (act_of ?fb b c) (gc_of ?fb b c)"
          using D(8) [OF vc] vp
          by (auto simp: roles_ok_def act_of_put_act [OF sz vc] dest: set_remove1_subset [THEN subsetD])
      qed (use vp in \<open>auto simp: act_of_put_act [OF sz vc]\<close>)
      moreover have "alloc_new_page fb bus chip =
          Some (0, Some (blk_no p, of_nat (frontier (blk_of ?fb p))), ?fb)"
        by (rule out) (use calculation vp(1) None Cons steps set get_curr_active_block_eq [OF D(1) vc]
            get_free_block_eq [OF vc, of "ptr_ssd_info fb"] in \<open>simp_all add: alloc_block_def get_ssd_inf_def list_head_def\<close>)
      ultimately show ?thesis
        using None Cons by (intro disjI2 exI [of _ p] exI [of _ ?fb]) (simp add: act_of_put_act [OF sz vc] same_frontiers_def)
    qed
  qed
qed

section \<open>Replacing a full active block\<close>

lemma update_act_blk_spec:
  fixes bus chip :: u8
  defines "b \<equiv> ucast bus" and "c \<equiv> ucast chip"
  assumes inv: "ftl_inv (\<lambda>_. 0) {p} fb" and act: "act_of fb b c = Some p" and live: "\<not> all_dead (blk_of fb p)"
  shows "\<exists>fb'. update_act_blk fb bus chip = Some fb' \<and> ftl_ok fb' \<and> frame fb fb' \<and> l2p fb' = l2p fb \<and>
    gc_of fb' = gc_of fb \<and> same_frontiers fb fb'"
proof -
  note D = ftl_invD [OF inv]
  note vp = act_block_valid [OF inv act]
  have vc: "valid_chip b c" by (rule vp(1))
  note part = D(7) [OF vc] and ok = D(8) [OF vc]
  note R = roles_distinct [OF chip_part_roles(1) [OF part]]
  let ?n = "nr_free_pages (blk_of fb p)"
  have get: "get_curr_active_block fb b c = Some (Some p)"
    using get_curr_active_block_eq [OF D(1) vc] act by simp
  show ?thesis
  proof (cases "?n = 0")
    case False
    have "ftl_ok fb"
    proof (rule ftl_inv_flags [OF inv vc])
      show "roles_ok (blk_of fb) {} (chip_of fb b c) (act_of fb b c) (gc_of fb b c)"
        using ok act False by (auto simp: roles_ok_def word_gt_0)
    qed (use vp part in \<open>auto simp: flags_onlyI\<close>)
    moreover have "update_act_blk fb bus chip = Some fb"
      using get False vp(2) by (simp add: update_act_blk_def b_def c_def get_nr_free_pgs_def
          get_ssd_inf_def st_valid)
    ultimately show ?thesis by (auto simp: same_frontiers_def)
  next
    case True
    let ?ci = "chip_of fb b c"
    let ?ci1 = "?ci\<lparr>used_blks := used_blks ?ci @ [p], nr_used_blks := nr_used_blks ?ci + 1\<rparr>"
    let ?s1 = "set_chip (set_blk (ptr_ssd_info fb) p ((blk_of fb p)\<lparr>is_active_block := 0\<rparr>)) p ?ci1"
    have sz: "sizes_ok (put_ssd fb s)" for s by (rule frame_sizes [OF _ D(1)]) simp
    have pu: "p \<notin> set (used_blks ?ci)" "p \<notin> set (free_blks ?ci)" "p \<notin> set (dirt_blks ?ci)" "gc_of fb b c \<noteq> Some p"
      using R(4-7) [of p] act by auto
    have s1: "set_act_blk_flag (ptr_ssd_info fb) p 0 =
        Some (set_blk (ptr_ssd_info fb) p ((blk_of fb p)\<lparr>is_active_block := 0\<rparr>))"
      "set_used_blk (set_blk (ptr_ssd_info fb) p ((blk_of fb p)\<lparr>is_active_block := 0\<rparr>)) p = Some ?s1"
      using blk_ops_plain(11) [OF vp(2)] pu(1) vp
        chip_list_ops(4) [OF vp(2), of "set_blk (ptr_ssd_info fb) p ((blk_of fb p)\<lparr>is_active_block := 0\<rparr>)"]
        ids_okD [OF D(2) vp(2)] by (simp_all add: fun_upd_def)
    have part1: "chip_part b c ?ci1 None (gc_of fb b c)"
      by (rule chip_moves(3)) (use part act in simp)
    have upd: "update_act_blk fb bus chip = do {
        let fb = put_ssd fb ?s1;
        blki \<leftarrow> get_free_block (get_ssd_inf fb) b c;
        fb \<leftarrow> (case blki of None \<Rightarrow> Some fb | Some p \<Rightarrow> ssd_do fb (\<lambda>s. reset_free_blk s p));
        set_curr_active_block fb b c blki }"
      using get True vp(2) s1 by (simp add: update_act_blk_def b_def c_def get_nr_free_pgs_def
          get_ssd_inf_def st_valid ssd_do_eq Let_def)
    show ?thesis
    proof (cases "free_blks ?ci")
      case Nil
      let ?fb = "put_act (put_ssd fb ?s1) b c None"
      have "update_act_blk fb bus chip = Some ?fb"
        unfolding upd using Nil vp set_curr_active_block_None [OF sz vc]
        by (simp add: Let_def get_ssd_inf_def get_free_block_eq [OF vc] list_head_def)
      moreover have "ftl_ok ?fb"
      proof (rule ftl_inv_flags [OF inv vc])
        show "flags_only (blk_of fb q) (blk_of ?fb q)" for q by (simp add: flags_onlyI)
        show "chip_part b c (chip_of ?fb b c) (act_of ?fb b c) (gc_of ?fb b c)"
          using part1 vp by (simp add: act_of_put_act [OF sz vc])
        show "roles_ok (blk_of fb) {} (chip_of ?fb b c) (act_of ?fb b c) (gc_of ?fb b c)"
          using ok vp True live by (auto simp: roles_ok_def act_of_put_act [OF sz vc])
      qed (use vp in \<open>auto simp: act_of_put_act [OF sz vc]\<close>)
      ultimately show ?thesis by (auto simp: same_frontiers_def)
    next
      case (Cons q qs)
      then have qf: "q \<in> set (free_blks ?ci)" by simp
      note vq = free_block_valid [OF inv vc qf]
      have qp: "q \<noteq> p" using qf pu by auto
      let ?ci2 = "?ci1\<lparr>free_blks := remove1 q (free_blks ?ci1), nr_free_blocks := nr_free_blocks ?ci1 - 1\<rparr>"
      let ?s2 = "set_chip ?s1 q ?ci2"
      let ?fb = "put_act (put_ssd fb (set_blk ?s2 q ((blocks ?s2 q)\<lparr>is_active_block := 1\<rparr>))) b c (Some q)"
      have reset: "reset_free_blk ?s1 q = Some ?s2"
        using chip_list_ops(2) [OF vq(1), of ?s1] ids_okD [OF D(2) vq(1)] qf vq vp qp by simp
      have "update_act_blk fb bus chip = Some ?fb"
        unfolding upd using Cons vp reset set_curr_active_block_Some [OF sz vc vq(1), of ?s2]
        by (simp add: Let_def get_ssd_inf_def get_free_block_eq [OF vc] list_head_def ssd_do_eq)
      moreover have "ftl_ok ?fb"
      proof (rule ftl_inv_flags [OF inv vc])
        show "flags_only (blk_of fb r) (blk_of ?fb r)" for r by (simp add: flags_onlyI)
        show "chip_part b c (chip_of ?fb b c) (act_of ?fb b c) (gc_of ?fb b c)"
          using chip_moves(4) [OF part1, of q] qf vp vq by (simp add: act_of_put_act [OF sz vc])
        have "0 < nr_free_pages (blk_of fb q)"
          using ok qf by (auto simp: roles_ok_def NUM_PAGES_PER_BLOCK_def)
        then show "roles_ok (blk_of fb) {} (chip_of ?fb b c) (act_of ?fb b c) (gc_of ?fb b c)"
          using ok vp vq True live
          by (auto simp: roles_ok_def act_of_put_act [OF sz vc] dest: set_remove1_subset [THEN subsetD])
      qed (use vp vq in \<open>auto simp: act_of_put_act [OF sz vc]\<close>)
      ultimately show ?thesis by (auto simp: same_frontiers_def)
    qed
  qed
qed

section \<open>Logical contents\<close>

definition data_at :: "vdevice_t \<Rightarrow> u32 \<Rightarrow> lpdata" where
  "data_at v a = (case ppa_slot a of (p, pg, i) \<Rightarrow> vdata v p pg ! unat i)"

lemma ftl_data_at:
  "ftl_data fb lpa = (if is_valid_address_range lpa \<and> l2p fb lpa \<noteq> PAGE_UNMAPPED
     then Some (data_at (ptr_vdevice fb) (l2p fb lpa)) else None)"
  by (simp add: ftl_data_def data_at_def split: prod.splits)

lemma data_at_slot:
  "valid_blk p \<Longrightarrow> pg < NUM_PAGES_PER_BLOCK \<Longrightarrow> i < NR_LP_IN_PP \<Longrightarrow>
    data_at v (slot_ppa p pg i) = vdata v p pg ! unat i"
  by (simp add: data_at_def ppa_slot_slot_ppa)

text \<open>Only valid slots are read, so a change of other wordlines is not seen.\<close>

lemma ftl_data_cong:
  assumes inv: "ftl_inv pt ex fb" and m: "l2p fb' = l2p fb"
    and same: "\<And>p pg i. valid_blk p \<Longrightarrow> pg < NUM_PAGES_PER_BLOCK \<Longrightarrow> i < NR_LP_IN_PP \<Longrightarrow>
      bst (blk_of fb p) pg i = PAGE_STATUS_VALID \<Longrightarrow>
      vdata (ptr_vdevice fb') p pg = vdata (ptr_vdevice fb) p pg"
  shows "ftl_data fb' = ftl_data fb"
proof
  fix lpa
  show "ftl_data fb' lpa = ftl_data fb lpa"
  proof (cases "is_valid_address_range lpa \<and> l2p fb lpa \<noteq> PAGE_UNMAPPED")
    case True
    then obtain p pg i where "valid_blk p" "pg < NUM_PAGES_PER_BLOCK" "i < NR_LP_IN_PP"
      "l2p fb lpa = slot_ppa p pg i" "bst (blk_of fb p) pg i = PAGE_STATUS_VALID"
      using map_okD(1) [OF ftl_invD(3) [OF inv]] by blast
    then show ?thesis using same m by (simp add: ftl_data_at data_at_slot)
  qed (auto simp: ftl_data_at m)
qed

definition slot_store :: "u32 \<Rightarrow> lpdata \<Rightarrow> (u32 \<rightharpoonup> lpdata) \<Rightarrow> (u32 \<rightharpoonup> lpdata)" where
  "slot_store lpa d m = (if lpa = PAGE_UNMAPPED then m else m(lpa \<mapsto> d))"

definition wordline_store :: "(nat \<Rightarrow> u32) \<Rightarrow> (nat \<Rightarrow> lpdata) \<Rightarrow> (u32 \<rightharpoonup> lpdata) \<Rightarrow> (u32 \<rightharpoonup> lpdata)" where
  "wordline_store ls ds m = slot_store (ls 3) (ds 3) (slot_store (ls 2) (ds 2)
     (slot_store (ls 1) (ds 1) (slot_store (ls 0) (ds 0) m)))"

lemma slot_store_apply:
  "slot_store lpa d m x = (if x = lpa \<and> lpa \<noteq> PAGE_UNMAPPED then Some d else m x)"
  by (simp add: slot_store_def)

lemma slot_store_data:
  assumes m: "l2p fb2 = slot_map p pg i lpa (l2p fb1)" and v: "ptr_vdevice fb2 = ptr_vdevice fb1"
    and p: "valid_blk p" "pg < NUM_PAGES_PER_BLOCK" "i < NR_LP_IN_PP"
    and lpa: "lpa = PAGE_UNMAPPED \<or> is_valid_address_range lpa"
  shows "ftl_data fb2 = slot_store lpa (vdata (ptr_vdevice fb1) p pg ! unat i) (ftl_data fb1)"
  using lpa slot_ppa_mapped [OF p]
  by (auto simp: fun_eq_iff ftl_data_at m v slot_map_apply slot_store_apply data_at_slot [OF p])

lemma wordline_store_data:
  assumes m: "l2p fb' = wordline_map p pg ls (l2p fb)" and v: "ptr_vdevice fb' = ptr_vdevice fb"
    and p: "valid_blk p" "pg < NUM_PAGES_PER_BLOCK"
    and lpa: "\<And>j. j < 4 \<Longrightarrow> ls j = PAGE_UNMAPPED \<or> is_valid_address_range (ls j)"
  shows "ftl_data fb' = wordline_store ls (\<lambda>j. vdata (ptr_vdevice fb) p pg ! j) (ftl_data fb)"
proof -
  let ?f = "\<lambda>m. put_l2p fb m"
  let ?m0 = "slot_map p pg 0 (ls 0) (l2p fb)"
  let ?m1 = "slot_map p pg 1 (ls 1) ?m0"
  let ?m2 = "slot_map p pg 2 (ls 2) ?m1"
  have vd: "ptr_vdevice (?f m) = ptr_vdevice fb" for m by (simp add: put_defs)
  have "ftl_data (?f ?m0) = slot_store (ls 0) (vdata (ptr_vdevice fb) p pg ! 0) (ftl_data fb)"
    using slot_store_data [of "?f ?m0" p pg 0 "ls 0" fb] p lpa [of 0] vd by simp
  moreover have "ftl_data (?f ?m1) = slot_store (ls 1) (vdata (ptr_vdevice fb) p pg ! 1) (ftl_data (?f ?m0))"
    using slot_store_data [of "?f ?m1" p pg 1 "ls 1" "?f ?m0"] p lpa [of 1] vd by simp
  moreover have "ftl_data (?f ?m2) = slot_store (ls 2) (vdata (ptr_vdevice fb) p pg ! 2) (ftl_data (?f ?m1))"
    using slot_store_data [of "?f ?m2" p pg 2 "ls 2" "?f ?m1"] p lpa [of 2] vd by simp
  moreover have "ftl_data fb' = slot_store (ls 3) (vdata (ptr_vdevice fb) p pg ! 3) (ftl_data (?f ?m2))"
    using slot_store_data [of fb' p pg 3 "ls 3" "?f ?m2"] p lpa [of 3] vd v m
    by (simp add: wordline_map_def)
  ultimately show ?thesis by (simp add: wordline_store_def)
qed

end
