(* ===== verification/FB_Gc.thy ===== *)
theory FB_Gc
  imports FB_Alloc
begin

text \<open>
  Foreground garbage collection, \<open>rust/src/gc_page_mapping.rs\<close>.
  The pointers \<open>ptr_lpa\<close> and \<open>ptr_data\<close> that walk the copy buffers are positions in them, the data
  position counting logical pages. A wrapping product of a page count with \<open>LOGICAL_PAGE_SIZE\<close> is taken as the code
  takes it, in 32 bits.
\<close>

section \<open>The GC manager\<close>

definition init_gcm :: "fb_context_t \<Rightarrow> fb_context_t" where
  "init_gcm fb = upd_gcm fb (\<lambda>g. g\<lparr>nr_pgs_to_copy := 0\<rparr>)"

definition get_vic_blk :: "fb_context_t \<Rightarrow> u32 \<Rightarrow> u32 \<Rightarrow> blkptr option option" where
  "get_vic_blk fb bus chip = ld_nth (vic_blks (get_gcm (get_ftl fb))) (chip_idx bus chip)"

definition set_vic_blk :: "fb_context_t \<Rightarrow> u32 \<Rightarrow> u32 \<Rightarrow> blkptr option \<Rightarrow> fb_context_t option" where
  "set_vic_blk fb bus chip blki = do {
     xs \<leftarrow> st_nth (vic_blks (get_gcm (get_ftl fb))) (chip_idx bus chip) blki;
     Some (upd_gcm fb (\<lambda>g. g\<lparr>vic_blks := xs\<rparr>)) }"

definition set_first_valid_pg :: "fb_context_t \<Rightarrow> u32 \<Rightarrow> u32 \<Rightarrow> u32 \<Rightarrow> fb_context_t option" where
  "set_first_valid_pg fb bus chip pg = do {
     xs \<leftarrow> st_nth (first_valid_pg (get_gcm (get_ftl fb))) (chip_idx bus chip) pg;
     Some (upd_gcm fb (\<lambda>g. g\<lparr>first_valid_pg := xs\<rparr>)) }"

definition get_first_valid_pg :: "fb_context_t \<Rightarrow> u32 \<Rightarrow> u32 \<Rightarrow> u32 option" where
  "get_first_valid_pg fb bus chip = ld_nth (first_valid_pg (get_gcm (get_ftl fb))) (chip_idx bus chip)"

text \<open>The loop of \<open>find_first_valid_pg\<close> from page \<open>pg\<close> on; the pages before the bound are counted down.\<close>

function find_first_valid_pg :: "ssd_info \<Rightarrow> blkptr \<Rightarrow> u32 \<Rightarrow> u32 option" where
  "find_first_valid_pg s blki pg =
     (if pg < NUM_PAGES_PER_BLOCK then do {
        n \<leftarrow> get_nr_invalid_lps s (get_pgi_from_blki blki pg);
        if n < NR_LP_IN_PP then Some pg else find_first_valid_pg s blki (pg + 1) }
      else Some pg)"
  by pat_completeness auto

termination
proof (relation "measure (\<lambda>(s, blki, pg). 192 - unat pg)")
  fix s blki n and pg :: u32
  assume "pg < NUM_PAGES_PER_BLOCK"
  then have pg: "unat pg < 192" by (simp add: word_less_nat_alt NUM_PAGES_PER_BLOCK_def)
  then have "unat (pg + 1) = unat pg + 1"
    by (simp add: unat_word_ariths(1))
  with pg show "((s, blki, pg + 1), s, blki, pg) \<in> measure (\<lambda>(s, blki, pg). 192 - unat pg)" by simp
qed simp

declare find_first_valid_pg.simps [simp del]

text \<open>The walk along the used list that picks the block with the most invalid pages.\<close>

definition most_invalid ::
  "ssd_info \<Rightarrow> blkptr list \<Rightarrow> blkptr option \<times> u32 \<Rightarrow> (blkptr option \<times> u32) option" where
  "most_invalid s = foldM (\<lambda>blki (vic_blki, nr_max_invalid_lpgs). do {
     nr_invalid_lpgs \<leftarrow> get_nr_invalid_lps_in_blk s blki;
     Some (if nr_invalid_lpgs > nr_max_invalid_lpgs then (Some blki, nr_invalid_lpgs)
           else (vic_blki, nr_max_invalid_lpgs)) })"

definition select_vic_blk_from_used :: "ssd_info \<Rightarrow> u32 \<Rightarrow> u32 \<Rightarrow> blkptr option option" where
  "select_vic_blk_from_used s bus chip = do {
     ci \<leftarrow> ld_chip s bus chip;
     (vic_blki, _) \<leftarrow> most_invalid s (used_blks ci) (None, 0);
     Some vic_blki }"

definition select_vic_blk_greedy :: "ssd_info \<Rightarrow> u32 \<Rightarrow> u32 \<Rightarrow> blkptr option option" where
  "select_vic_blk_greedy s bus chip = do {
     vic_blki \<leftarrow> get_dirt_block s bus chip;
     case vic_blki of
       Some _ \<Rightarrow> Some vic_blki
     | None \<Rightarrow> do {
         ci \<leftarrow> ld_chip s bus chip;
         (vic_blki, _) \<leftarrow> most_invalid s (used_blks ci) (vic_blki, 0);
         Some vic_blki } }"

section \<open>Choosing victims for foreground GC\<close>

definition set_vic_blks_chip :: "u32 \<Rightarrow> u32 \<Rightarrow> fb_context_t \<Rightarrow> (int option \<times> fb_context_t) option" where
  "set_vic_blks_chip bus chip fb = do {
     gc \<leftarrow> get_curr_gc_block fb bus chip;
     act \<leftarrow> get_curr_active_block fb bus chip;
     if gc \<noteq> None \<and> act \<noteq> None then do {
       fb \<leftarrow> set_vic_blk fb bus chip None;
       Some (None, fb) }
     else do {
       blki \<leftarrow> select_vic_blk_greedy (get_ssd_inf fb) bus chip;
       case blki of
         None \<Rightarrow> Some (Some (-1), fb)
       | Some p \<Rightarrow> do {
           n \<leftarrow> get_nr_valid_lps_in_blk (get_ssd_inf fb) p;
           (blki, fb) \<leftarrow> (if n = 0 then Some (None, fb) else do {
               let fb = upd_gcm fb (\<lambda>g. g\<lparr>nr_pgs_to_copy := nr_pgs_to_copy g + n\<rparr>);
               pg \<leftarrow> find_first_valid_pg (get_ssd_inf fb) p 0;
               fb \<leftarrow> set_first_valid_pg fb bus chip pg;
               Some (Some p, fb) });
           fb \<leftarrow> set_vic_blk fb bus chip blki;
           Some (None, fb) } } }"

definition int_of_ret :: "int option \<Rightarrow> int" where
  "int_of_ret r = (case r of None \<Rightarrow> 0 | Some e \<Rightarrow> e)"

definition set_vic_blks :: "fb_context_t \<Rightarrow> (int \<times> fb_context_t) option" where
  "set_vic_blks fb = do {
     (r, fb) \<leftarrow> for_ret (\<lambda>bus. for_ret (set_vic_blks_chip bus) (words_below NUM_CHIPS_PER_BUS))
       (words_below NUM_BUSES) fb;
     Some (int_of_ret r, fb) }"

section \<open>Reading the victims\<close>

text \<open>The local variables of \<open>get_valid_pgs_in_vic_blks\<close> and \<open>fb_bgc_read_valid_pgs\<close>.\<close>

record read_st =
  rd_lpa :: nat
  rd_data :: nat
  rd_bitmap :: "u8 list"
  rd_count :: u32

definition st_lpas_to_copy :: "fb_context_t \<Rightarrow> nat \<Rightarrow> u32 \<Rightarrow> fb_context_t option" where
  "st_lpas_to_copy fb i lpa = do {
     xs \<leftarrow> st_nth (lpas_to_copy (get_gcm (get_ftl fb))) i lpa;
     Some (upd_gcm fb (\<lambda>g. g\<lparr>lpas_to_copy := xs\<rparr>)) }"

text \<open>The loop over the slots of a wordline: note the valid ones in the bitmap and their addresses in the buffer.\<close>

definition collect_lpas ::
  "pgptr \<Rightarrow> read_st \<times> fb_context_t \<Rightarrow> (read_st \<times> fb_context_t) option" where
  "collect_lpas pgi = foldM (\<lambda>lp (l, fb). do {
       st \<leftarrow> get_pg_status (get_ssd_inf fb) pgi lp;
       if st = PAGE_STATUS_VALID then do {
         lpa \<leftarrow> get_mapped_lpa (get_ssd_inf fb) pgi lp;
         fb \<leftarrow> st_lpas_to_copy fb (rd_lpa l) lpa;
         bm \<leftarrow> st_nth (rd_bitmap l) (unat lp) 1;
         Some (l\<lparr>rd_bitmap := bm, rd_lpa := rd_lpa l + 1\<rparr>, fb) }
       else do {
         bm \<leftarrow> st_nth (rd_bitmap l) (unat lp) 0;
         Some (l\<lparr>rd_bitmap := bm\<rparr>, fb) } }) (words_below (NR_LP_IN_PP :: u8))"

definition gc_vdevice_read ::
  "u8 \<Rightarrow> u8 \<Rightarrow> blkptr \<Rightarrow> u32 \<Rightarrow> read_st \<times> fb_context_t \<Rightarrow> (read_st \<times> fb_context_t) option" where
  "gc_vdevice_read bus chip blki pg st = (case st of (l, fb) \<Rightarrow> do {
     b \<leftarrow> ld_blk (get_ssd_inf fb) blki;
     (dest, v) \<leftarrow> vdevice_read (get_vdev fb) bus chip (no_block b) pg (rd_bitmap l)
       (data_to_copy (get_gcm (get_ftl fb))) (rd_data l) None;
     Some (l, upd_gcm (fb\<lparr>ptr_vdevice := v\<rparr>) (\<lambda>g. g\<lparr>data_to_copy := dest\<rparr>)) })"

definition page_span :: "u32 \<Rightarrow> nat" where
  "page_span nr = unat (nr * LOGICAL_PAGE_SIZE) div LOGICAL_PAGE_SIZE"

definition read_vic_page ::
  "u32 \<Rightarrow> u8 \<Rightarrow> u8 \<Rightarrow> read_st \<times> fb_context_t \<Rightarrow> (read_st \<times> fb_context_t) option" where
  "read_vic_page pg chip bus st = (case st of (l, fb) \<Rightarrow> do {
     blki \<leftarrow> get_vic_blk fb (ucast bus) (ucast chip);
     case blki of
       None \<Rightarrow> Some (l, fb)
     | Some p \<Rightarrow> do {
         let pgi = get_pgi_from_blki p pg;
         n \<leftarrow> get_nr_invalid_lps (get_ssd_inf fb) pgi;
         let nr_pgs_to_read = NR_LP_IN_PP - n;
         if nr_pgs_to_read > 0 then do {
           (l, fb) \<leftarrow> collect_lpas pgi (l, fb);
           let fb = upd_perf fb perf_inc_nr_page_reads;
           (l, fb) \<leftarrow> gc_vdevice_read bus chip p pg (l, fb);
           Some (l\<lparr>rd_data := rd_data l + page_span nr_pgs_to_read,
             rd_count := rd_count l + nr_pgs_to_read\<rparr>, fb) }
         else Some (l, fb) } })"

definition read_vic_pages :: "read_st \<times> fb_context_t \<Rightarrow> (read_st \<times> fb_context_t) option" where
  "read_vic_pages = foldM (\<lambda>pg. foldM (\<lambda>chip. foldM (read_vic_page pg chip) (words_below NUM_BUSES))
     (words_below NUM_CHIPS_PER_BUS)) (words_below NUM_PAGES_PER_BLOCK)"

partial_function (option) read_vic_loop :: "read_st \<times> fb_context_t \<Rightarrow> (read_st \<times> fb_context_t) option" where
  "read_vic_loop st = (case st of (l, fb) \<Rightarrow>
     if nr_pgs_to_copy (get_gcm (get_ftl fb)) > rd_count l
     then do { st \<leftarrow> read_vic_pages (l, fb); read_vic_loop st }
     else Some (l, fb))"

declare read_vic_loop.simps [code]

definition read_start :: read_st where
  "read_start = \<lparr>rd_lpa = 0, rd_data = 0, rd_bitmap = [0, 0, 0, 0], rd_count = 0\<rparr>"

definition get_valid_pgs_in_vic_blks :: "fb_context_t \<Rightarrow> fb_context_t option" where
  "get_valid_pgs_in_vic_blks fb = map_option snd (read_vic_loop (read_start, fb))"

section \<open>Writing the copied pages\<close>

definition pad_lpas :: "int \<Rightarrow> nat \<Rightarrow> fb_context_t \<Rightarrow> fb_context_t option" where
  "pad_lpas nr_pgs_to_prog ptr_lpa fb =
     (if nr_pgs_to_prog < int NR_LP_IN_PP
      then foldM (\<lambda>lp fb. st_lpas_to_copy fb (ptr_lpa + lp) PAGE_UNMAPPED)
        [nat nr_pgs_to_prog ..< NR_LP_IN_PP] fb
      else Some fb)"

definition prog_one_wordline ::
  "int \<Rightarrow> nat \<Rightarrow> nat \<Rightarrow> fb_context_t \<Rightarrow> (int \<times> fb_context_t) option" where
  "prog_one_wordline nr_pgs_to_prog ptr_lpa ptr_data fb = do {
     let (bus, chip) = get_next_bus_chip fb;
     (ret, page, fb) \<leftarrow> alloc_new_page fb bus chip;
     if ret = -1 then Some (-1, fb)
     else do {
       (blk, pg) \<leftarrow> page;
       fb \<leftarrow> pad_lpas nr_pgs_to_prog ptr_lpa fb;
       let fb = upd_perf fb perf_inc_nr_wordline_prog_bg;
       v \<leftarrow> vdevice_write (get_vdev fb) bus chip blk pg (data_to_copy (get_gcm (get_ftl fb))) ptr_data None;
       let fb = fb\<lparr>ptr_vdevice := v\<rparr>;
       (ret, fb) \<leftarrow> map_logical_to_physical fb (lpas_to_copy (get_gcm (get_ftl fb))) ptr_lpa
         (ucast bus) (ucast chip) blk pg;
       if ret = -1 then Some (-1, fb)
       else do {
         let fb = set_prev_bus_chip fb bus chip;
         fb \<leftarrow> update_act_blk fb bus chip;
         Some (0, fb) } } }"

function prog_loop :: "int \<Rightarrow> nat \<Rightarrow> nat \<Rightarrow> fb_context_t \<Rightarrow> (int \<times> fb_context_t) option" where
  "prog_loop nr_pgs_to_prog ptr_lpa ptr_data fb =
     (if nr_pgs_to_prog > 0 then do {
        (ret, fb) \<leftarrow> prog_one_wordline nr_pgs_to_prog ptr_lpa ptr_data fb;
        if ret = -1 then Some (-1, fb)
        else prog_loop (nr_pgs_to_prog - int NR_LP_IN_PP) (ptr_lpa + NR_LP_IN_PP)
          (ptr_data + NR_LP_IN_PP) fb }
      else Some (0, fb))"
  by pat_completeness auto

termination
  by (relation "measure (\<lambda>(n, _). nat n)") (auto simp: NR_LP_IN_PP_def)

declare prog_loop.simps [simp del]

definition prog_valid_pgs_to_gc_blks :: "fb_context_t \<Rightarrow> (int \<times> fb_context_t) option" where
  "prog_valid_pgs_to_gc_blks fb = prog_loop (sint (nr_pgs_to_copy (get_gcm (get_ftl fb)))) 0 0 fb"

section \<open>Erasing GC blocks\<close>

definition erase_blk :: "fb_context_t \<Rightarrow> u8 \<Rightarrow> u8 \<Rightarrow> blkptr \<Rightarrow> fb_context_t option" where
  "erase_blk fb bus chip blki = do {
     b \<leftarrow> ld_blk (get_ssd_inf fb) blki;
     v \<leftarrow> vdevice_erase (get_vdev fb) bus chip (no_block b) None;
     let fb = upd_perf (fb\<lparr>ptr_vdevice := v\<rparr>) perf_inc_nr_blk_erasures;
     fb \<leftarrow> ssd_do fb (\<lambda>s. init_blk_inf s blki);
     (_, fb) \<leftarrow> ssd_upd fb (\<lambda>s. inc_bers_cnt s blki);
     Some fb }"

definition prepare_act_blk :: "u8 \<Rightarrow> u8 \<Rightarrow> fb_context_t \<Rightarrow> (int option \<times> fb_context_t) option" where
  "prepare_act_blk chip bus fb = do {
     act \<leftarrow> get_curr_active_block fb (ucast bus) (ucast chip);
     case act of
       Some _ \<Rightarrow> Some (None, fb)
     | None \<Rightarrow> do {
         blki \<leftarrow> get_curr_gc_block fb (ucast bus) (ucast chip);
         case blki of
           None \<Rightarrow> Some (Some (-1), fb)
         | Some p \<Rightarrow> do {
             fb \<leftarrow> erase_blk fb bus chip p;
             fb \<leftarrow> set_curr_active_block fb (ucast bus) (ucast chip) (Some p);
             fb \<leftarrow> set_curr_gc_block fb (ucast bus) (ucast chip) None;
             Some (None, fb) } } }"

definition prepare_act_blks :: "fb_context_t \<Rightarrow> (int \<times> fb_context_t) option" where
  "prepare_act_blks fb = do {
     (r, fb) \<leftarrow> for_ret (\<lambda>chip. for_ret (prepare_act_blk chip) (words_below NUM_BUSES))
       (words_below NUM_CHIPS_PER_BUS) fb;
     Some (int_of_ret r, fb) }"

definition update_gc_blk :: "u32 \<Rightarrow> u32 \<Rightarrow> fb_context_t \<Rightarrow> (int option \<times> fb_context_t) option" where
  "update_gc_blk bus chip fb = do {
     gc \<leftarrow> get_curr_gc_block fb bus chip;
     case gc of
       Some _ \<Rightarrow> Some (None, fb)
     | None \<Rightarrow> do {
         gc_blki \<leftarrow> get_dirt_block (get_ssd_inf fb) bus chip;
         case gc_blki of
           None \<Rightarrow> do {
             act \<leftarrow> get_curr_active_block fb bus chip;
             Some (if act = None then Some (-1) else None, fb) }
         | Some p \<Rightarrow> do {
             fb \<leftarrow> ssd_do fb (\<lambda>s. reset_dirt_blk s p);
             fb \<leftarrow> set_curr_gc_block fb bus chip (Some p);
             Some (None, fb) } } }"

definition update_gc_blks :: "fb_context_t \<Rightarrow> (int \<times> fb_context_t) option" where
  "update_gc_blks fb = do {
     (r, fb) \<leftarrow> for_ret (\<lambda>bus. for_ret (update_gc_blk bus) (words_below NUM_CHIPS_PER_BUS))
       (words_below NUM_BUSES) fb;
     Some (int_of_ret r, fb) }"

section \<open>Foreground GC\<close>

definition trigger_gc_page_mapping :: "fb_context_t \<Rightarrow> (int \<times> fb_context_t) option" where
  "trigger_gc_page_mapping fb = do {
     let fb = init_gcm fb;
     (ret, fb) \<leftarrow> prepare_act_blks fb;
     if ret \<noteq> 0 then Some (-1, fb) else do {
     (ret, fb) \<leftarrow> set_vic_blks fb;
     if ret \<noteq> 0 then Some (-1, fb) else do {
     fb \<leftarrow> get_valid_pgs_in_vic_blks fb;
     (ret, fb) \<leftarrow> prog_valid_pgs_to_gc_blks fb;
     if ret \<noteq> 0 then Some (-1, fb) else do {
     (ret, fb) \<leftarrow> update_gc_blks fb;
     if ret \<noteq> 0 then Some (-1, fb) else Some (0, fb) }}}}"

end
