(* ===== verification/FB_Ftl.thy ===== *)
theory FB_Ftl
  imports FB_Gc
begin

text \<open>
  The request handlers of the page-mapping FTL, \<open>ftl_algorithm_page_mapping.c\<close>: creation, read, write,
  discard and write-buffer flush. Every handler that touches the mapping takes the mapping context
  lock and gives it back.
\<close>

section \<open>The delete manager\<close>

definition NR_MAX_LPAS_DISCARD :: "'a::comm_semiring_1" where
  "NR_MAX_LPAS_DISCARD = 2048"

definition NR_MAX_LPGS_COPY :: "'a::comm_semiring_1" where
  "NR_MAX_LPGS_COPY = NR_MAX_LPAS_DISCARD * 3"

definition init_delm :: "fb_del_mngr_t \<Rightarrow> fb_del_mngr_t" where
  "init_delm delm = delm\<lparr>nr_btod := 0, hash_btod := [], nr_wtod := 0, hash_wtod := [],
     del_nr_pgs_to_copy := 0\<rparr>"

definition st_ppas :: "fb_context_t \<Rightarrow> nat \<Rightarrow> u32 \<Rightarrow> fb_context_t option" where
  "st_ppas fb i ppa = do {
     xs \<leftarrow> st_nth (ppas (ftl_delm (get_ftl fb))) i ppa;
     Some (upd_delm fb (\<lambda>d. d\<lparr>ppas := xs\<rparr>)) }"

definition del_invalidate_pgs :: "fb_context_t \<Rightarrow> u32 \<Rightarrow> u32 list \<Rightarrow> fb_context_t option" where
  "del_invalidate_pgs fb nr_reqs req_lpas = do {
     let fb = upd_delm fb init_delm;
     fb \<leftarrow> lock_ftl fb;
     fb \<leftarrow> foldM (\<lambda>loop fb. do {
         lpa \<leftarrow> ld_nth req_lpas (unat loop);
         (ppa, fb) \<leftarrow> invalidate_lpg fb lpa;
         st_ppas fb (unat loop) ppa }) (words_below nr_reqs) fb;
     Some (unlock_ftl fb) }"

section \<open>Reading\<close>

text \<open>\<open>ptr_page_buffer\<close> is the page the data goes to; its contents are part of the result.\<close>

definition make_read_request_page_mapping ::
  "fb_context_t \<Rightarrow> u32 \<Rightarrow> lpdata \<Rightarrow> bioptr option \<Rightarrow> (int \<times> lpdata \<times> fb_context_t) option" where
  "make_read_request_page_mapping fb lpa ptr_page_buffer ptr_fb_bio = do {
     fb \<leftarrow> lock_ftl fb;
     (ppa, layout) \<leftarrow> get_mapped_physical_address fb lpa;
     if ppa = PAGE_UNMAPPED then Some (-1, ptr_page_buffer, unlock_ftl fb)
     else do {
       let fb = upd_perf fb perf_inc_nr_page_reads;
       (bus, chip, block, page) \<leftarrow> layout;
       let page_offset = LP_PAGE_MASK AND page;
       let page = drop_bit LP_PAGE_SHIFT page;
       page_bitmap \<leftarrow> st_nth (replicate NR_LP_IN_PP 0) (unat page_offset) 1;
       (dest, v) \<leftarrow> vdevice_read (ptr_vdevice fb) (ucast bus) (ucast chip) block page page_bitmap
         [ptr_page_buffer] 0 ptr_fb_bio;
       data \<leftarrow> ld_nth dest 0;
       Some (0, data, unlock_ftl (fb\<lparr>ptr_vdevice := v\<rparr>)) } }"

section \<open>Writing\<close>

text \<open>The two loops of \<open>is_fgc_needed\<close> count \<open>chip_idx\<close> and \<open>bus_idx\<close>; their body looks at \<open>bus\<close> and \<open>chip\<close>.\<close>

definition is_fgc_needed :: "fb_context_t \<Rightarrow> u8 \<Rightarrow> u8 \<Rightarrow> bool option" where
  "is_fgc_needed fb bus chip = do {
     (r, _) \<leftarrow> for_ret (\<lambda>chip_idx. for_ret (\<lambda>bus_idx u. do {
         gc \<leftarrow> get_curr_gc_block fb (ucast bus) (ucast chip);
         free \<leftarrow> (if gc = None then get_free_block (get_ssd_inf fb) (ucast bus) (ucast chip) else Some None);
         Some (if gc = None \<and> free = None then Some 1 else None, u) })
       (filter (\<lambda>w. bus \<le> w) (words_below NUM_BUSES)))
       (filter (\<lambda>w. chip \<le> w) (words_below NUM_CHIPS_PER_BUS)) ();
     Some (r \<noteq> None) }"

text \<open>The second part of \<open>make_write_request_page_mapping\<close>, from the allocated wordline on.\<close>

definition write_allocated ::
  "fb_context_t \<Rightarrow> u32 list \<Rightarrow> lpdata list \<Rightarrow> u8 \<Rightarrow> u8 \<Rightarrow> u32 \<times> u32 \<Rightarrow> (int \<times> fb_context_t) option" where
  "write_allocated fb lpa src bus chip page = (case page of (blk, pg) \<Rightarrow> do {
     let fb = upd_perf fb perf_inc_nr_wordline_prog_fg;
     v \<leftarrow> vdevice_write (get_vdev fb) bus chip blk pg src 0 None;
     let fb = fb\<lparr>ptr_vdevice := v\<rparr>;
     (ret, fb) \<leftarrow> map_logical_to_physical fb lpa 0 (ucast bus) (ucast chip) blk pg;
     if ret = -1 then Some (-1, unlock_ftl fb)
     else do {
       let fb = set_prev_bus_chip fb bus chip;
       fb \<leftarrow> update_act_blk fb bus chip;
       Some (0, unlock_ftl fb) } })"

definition make_write_request_page_mapping ::
  "fb_context_t \<Rightarrow> u32 list \<Rightarrow> lpdata list \<Rightarrow> (int \<times> fb_context_t) option" where
  "make_write_request_page_mapping fb lpa src = do {
     fb \<leftarrow> lock_ftl fb;
     let (bus, chip) = get_next_bus_chip fb;
     need \<leftarrow> is_fgc_needed fb bus chip;
     (ret, fb) \<leftarrow> (if need then trigger_gc_page_mapping fb else Some (0, fb));
     if ret = -1 then Some (-1, unlock_ftl fb)
     else do {
       let (bus, chip) = get_next_bus_chip fb;
       (ret, page, fb) \<leftarrow> alloc_new_page fb bus chip;
       if ret = -1 then do {
         (ret, fb) \<leftarrow> trigger_gc_page_mapping fb;
         if ret = -1 then Some (-1, unlock_ftl fb)
         else do {
           let (bus, chip) = get_next_bus_chip fb;
           (ret, page, fb) \<leftarrow> alloc_new_page fb bus chip;
           if ret = -1 then Some (-1, unlock_ftl fb)
           else do { page \<leftarrow> page; write_allocated fb lpa src bus chip page } } }
       else do { page \<leftarrow> page; write_allocated fb lpa src bus chip page } } }"

section \<open>Flushing the write buffer\<close>

text \<open>The loop of \<open>fb_wb_flush\<close>; \<open>lpas\<close> is its local array, \<open>pg_buf\<close> the buffer's page. \<open>None\<close> is a fault or no end.\<close>

partial_function (option) wb_flush_loop ::
  "u32 list \<Rightarrow> fb_context_t \<Rightarrow> (int \<times> fb_context_t) option" where
  "wb_flush_loop lpas fb = do {
     (ret, lpas, dest, wb) \<leftarrow> fb_get_pgs_to_write (fb_wbuf fb) NR_LP_IN_PP lpas (pg_buf (fb_wbuf fb));
     let fb = fb\<lparr>fb_wbuf := wb\<lparr>pg_buf := dest\<rparr>\<rparr>;
     if ret = -1 then Some (0, fb)
     else do {
       (ret, fb) \<leftarrow> make_write_request_page_mapping fb lpas (pg_buf (fb_wbuf fb));
       if ret = -1 then Some (-1, fb)
       else do {
         wb \<leftarrow> fb_rm_written_pgs (fb_wbuf fb);
         wb_flush_loop lpas (fb\<lparr>fb_wbuf := wb\<rparr>) } } }"

declare wb_flush_loop.simps [code]

text \<open>\<open>lpas\<close> is the contents of the uninitialised local array of \<open>NR_LP_IN_PP\<close> addresses.\<close>

definition fb_wb_flush :: "u32 list \<Rightarrow> fb_context_t \<Rightarrow> (int \<times> fb_context_t) option" where
  "fb_wb_flush lpas fb = wb_flush_loop lpas fb"

definition make_flush_request_page_mapping :: int where
  "make_flush_request_page_mapping = 0"

section \<open>Discarding\<close>

definition discard_start :: "u64 \<Rightarrow> u64" where
  "discard_start bi_sector = (bi_sector + 7) AND NOT 7"

definition discard_end :: "u64 \<Rightarrow> u32 \<Rightarrow> u64" where
  "discard_end bi_sector bi_size = (bi_sector + ucast (drop_bit 9 bi_size)) AND NOT 7"

definition discard_count :: "u64 \<Rightarrow> u32 \<Rightarrow> u64" where
  "discard_count bi_sector bi_size =
     (let s = discard_start bi_sector; e = discard_end bi_sector bi_size in
      if s < e then drop_bit 3 (e - s) else 0)"

definition st_lpas_to_discard :: "fb_context_t \<Rightarrow> nat \<Rightarrow> u32 \<Rightarrow> fb_context_t option" where
  "st_lpas_to_discard fb i lpa = do {
     xs \<leftarrow> st_nth (lpas_to_discard (get_ftl fb)) i lpa;
     Some (set_ftl fb ((get_ftl fb)\<lparr>lpas_to_discard := xs\<rparr>)) }"

definition discard_batch :: "u64 \<Rightarrow> u32 \<Rightarrow> u32 \<times> fb_context_t \<Rightarrow> (u32 \<times> fb_context_t) option" where
  "discard_batch lpa_start lp_loop st = (case st of (bio_loop, fb) \<Rightarrow> do {
     fb \<leftarrow> st_lpas_to_discard fb (unat bio_loop) (ucast (lpa_start + ucast lp_loop));
     if bio_loop = NR_MAX_LPAS_DISCARD - 1 then do {
       fb \<leftarrow> del_invalidate_pgs fb NR_MAX_LPAS_DISCARD (lpas_to_discard (get_ftl fb));
       Some (0, fb) }
     else Some (bio_loop + 1, fb) })"

text \<open>
  The loop counter is a \<open>u32\<close> compared with the 64-bit count; \<open>nr_lpgs\<close> below \<open>2 ^ 32\<close> is what a 32-bit
  \<open>bi_size\<close> gives.
\<close>

definition make_discard_request_page_mapping :: "fb_context_t \<Rightarrow> u64 \<Rightarrow> u32 \<Rightarrow> (int \<times> fb_context_t) option" where
  "make_discard_request_page_mapping fb bi_sector bi_size = do {
     let lpa_start = drop_bit 3 (discard_start bi_sector);
     let nr_lpgs = discard_count bi_sector bi_size;
     let fb = upd_perf fb perf_inc_nr_discard_reqs;
     let fb = upd_perf fb (perf_inc_nr_discard_lpgs (ucast nr_lpgs));
     let loops = words_below (ucast nr_lpgs :: u32);
     fb \<leftarrow> foldM (\<lambda>lp_loop fb. do {
         wb \<leftarrow> fb_rm_buf_pg (fb_wbuf fb) (ucast (lpa_start + ucast lp_loop));
         Some (fb\<lparr>fb_wbuf := wb\<rparr>) }) loops fb;
     (bio_loop, fb) \<leftarrow> foldM (discard_batch lpa_start) loops (0, fb);
     fb \<leftarrow> (if bio_loop \<noteq> 0 then del_invalidate_pgs fb bio_loop (lpas_to_discard (get_ftl fb)) else Some fb);
     Some (0, fb) }"

end
