(* ===== verification/FB_Gc_Prog.thy ===== *)
theory FB_Gc_Prog
  imports FB_Gc
begin

text \<open>
  Writing a wordline, and the copy-back loop of garbage collection: rewriting pages with the
  contents they have leaves the logical contents of the device unchanged.
\<close>

section \<open>Updates the invariant does not see\<close>

lemma ftl_inv_cong:
  assumes "ftl_inv pt ex fb" "sizes_ok fb'" "ptr_ssd_info fb' = ptr_ssd_info fb" "l2p fb' = l2p fb"
    and "act_blks (ftl_abm (ptr_mapping_context fb')) = act_blks (ftl_abm (ptr_mapping_context fb))"
    and "gc_blks (ftl_gcm (ptr_mapping_context fb')) = gc_blks (ftl_gcm (ptr_mapping_context fb))"
  shows "ftl_inv pt ex fb'"
proof -
  have "act_of fb' = act_of fb" "gc_of fb' = gc_of fb"
    using assms(5,6) by (simp_all add: act_of_def gc_of_def fun_eq_iff)
  then show ?thesis using assms(1-4) by (simp add: ftl_inv_def)
qed

lemma ftl_data_eqI:
  "l2p fb' = l2p fb \<Longrightarrow> vdata (ptr_vdevice fb') = vdata (ptr_vdevice fb) \<Longrightarrow> ftl_data fb' = ftl_data fb"
  by (simp add: ftl_data_def fun_eq_iff split: prod.splits)

lemma next_bus_chip:
  assumes "sizes_ok fb" "get_next_bus_chip fb = (bus, chip)"
  shows "bus = 0" "chip = 0 \<or> chip = 1" "valid_chip (ucast bus) (ucast chip)"
proof -
  have "mru_bus (ftl_abm (ptr_mapping_context fb)) = 0"
    using assms(1) by (auto simp: sizes_ok_def geometry_simps word_less_nat_alt unat_eq_0)
  moreover have "mru_chip (ftl_abm (ptr_mapping_context fb)) = 0 \<or> mru_chip (ftl_abm (ptr_mapping_context fb)) = 1"
    using assms(1) valid_chip_cases [of 0 "mru_chip (ftl_abm (ptr_mapping_context fb))"]
    by (auto simp: sizes_ok_def valid_chip_def NUM_BUSES_def)
  ultimately show "bus = 0" "chip = 0 \<or> chip = 1"
    using assms(2) by (auto simp: get_next_bus_chip_def get_abm_def get_ftl_def geometry_simps Let_def
        split: if_splits)
  then show "valid_chip (ucast bus) (ucast chip)" by (auto simp: valid_chip_cases)
qed

text \<open>What garbage collection and writes leave alone.\<close>

definition gframe :: "fb_context_t \<Rightarrow> fb_context_t \<Rightarrow> bool" where
  "gframe fb fb' \<longleftrightarrow> fb_wbuf fb' = fb_wbuf fb \<and> dev_lock fb' = dev_lock fb \<and> fb_err fb' = fb_err fb \<and>
     background_gc_time_stamp fb' = background_gc_time_stamp fb \<and>
     mapping_context_lock (ptr_mapping_context fb') = mapping_context_lock (ptr_mapping_context fb) \<and>
     ftl_delm (ptr_mapping_context fb') = ftl_delm (ptr_mapping_context fb) \<and>
     lpas_to_discard (ptr_mapping_context fb') = lpas_to_discard (ptr_mapping_context fb) \<and>
     silent (ptr_vdevice fb) (ptr_vdevice fb')"

definition same_bufs :: "fb_context_t \<Rightarrow> fb_context_t \<Rightarrow> bool" where
  "same_bufs fb fb' \<longleftrightarrow>
     lpas_to_copy (ftl_gcm (ptr_mapping_context fb')) = lpas_to_copy (ftl_gcm (ptr_mapping_context fb)) \<and>
     data_to_copy (ftl_gcm (ptr_mapping_context fb')) = data_to_copy (ftl_gcm (ptr_mapping_context fb)) \<and>
     nr_pgs_to_copy (ftl_gcm (ptr_mapping_context fb')) = nr_pgs_to_copy (ftl_gcm (ptr_mapping_context fb))"

lemma gframe_refl [simp]: "gframe fb fb" and same_bufs_refl [simp]: "same_bufs fb fb"
  by (simp_all add: gframe_def same_bufs_def)

lemma gframe_trans [trans]: "gframe fb fb' \<Longrightarrow> gframe fb' fb'' \<Longrightarrow> gframe fb fb''"
  by (auto simp: gframe_def intro: silent_trans)

lemma same_bufs_trans [trans]: "same_bufs fb fb' \<Longrightarrow> same_bufs fb' fb'' \<Longrightarrow> same_bufs fb fb''"
  by (simp add: same_bufs_def)

lemma frame_gframe: "frame fb fb' \<Longrightarrow> gframe fb fb'" and frame_same_bufs: "frame fb fb' \<Longrightarrow> same_bufs fb fb'"
  by (simp_all add: frame_def gframe_def same_bufs_def Let_def)

section \<open>Writing a wordline\<close>

lemma ucast_chip8:
  "(ucast (ucast (x :: u8) :: u32) :: u8) = x"
  by (rule bit_word_eqI) (simp add: bit_simps)

lemma write_wordline_spec:
  fixes bus chip :: u8
  assumes inv: "ftl_ok fb" and act: "act_of fb (ucast bus) (ucast chip) = Some p"
    and src: "spos + 4 \<le> length src" and len: "pos + 4 \<le> length lpas"
    and lpa: "\<And>j. j < 4 \<Longrightarrow> lpas ! (pos + j) = PAGE_UNMAPPED \<or> is_valid_address_range (lpas ! (pos + j))"
    and some: "j0 < 4" "lpas ! (pos + j0) \<noteq> PAGE_UNMAPPED"
  shows "\<exists>v fb2 fb4.
    vdevice_write (ptr_vdevice fb) bus chip (blk_no p) (of_nat (frontier (blk_of fb p))) src spos None = Some v \<and>
    map_logical_to_physical (fb\<lparr>ptr_vdevice := v\<rparr>) lpas pos (ucast bus) (ucast chip) (blk_no p)
      (of_nat (frontier (blk_of fb p))) = Some (0, fb2) \<and>
    update_act_blk (set_prev_bus_chip fb2 bus chip) bus chip = Some fb4 \<and> ftl_ok fb4 \<and>
    ftl_data fb4 = wordline_store (\<lambda>j. lpas ! (pos + j)) (\<lambda>j. src ! (spos + j)) (ftl_data fb) \<and>
    gframe fb fb4 \<and> same_bufs fb fb4 \<and>
    mru_chip (ftl_abm (ptr_mapping_context fb4)) = ucast chip \<and> gc_kept fb fb4 \<and>
    l2p fb4 = wordline_map p (of_nat (frontier (blk_of fb p))) (\<lambda>j. lpas ! (pos + j)) (l2p fb) \<and>
    nr_free_pages \<circ> blk_of fb4 = (nr_free_pages \<circ> blk_of fb)(p := nr_free_pages (blk_of fb p) - 1)"
proof -
  note D = ftl_invD [OF inv] and P = act_block_valid [OF inv act]
  let ?pg = "of_nat (frontier (blk_of fb p)) :: u32"
  have free: "0 < nr_free_pages (blk_of fb p)" using D(8) [OF P(1)] act by (auto simp: roles_ok_def)
  note F = frontier_less [OF free]
  have p: "Blk (ucast bus) (ucast chip) (blk_no p) = p" using P(5) by simp
  let ?v = "issue ((ptr_vdevice fb)\<lparr>vdata := (vdata (ptr_vdevice fb))(p := (vdata (ptr_vdevice fb) p)
      (?pg := take NR_LP_IN_PP (drop spos src)))\<rparr>) bus (ucast chip) OP_PROG None"
  have v: "vdevice_write (ptr_vdevice fb) bus chip (blk_no p) ?pg src spos None = Some ?v"
    using src P(2) F(3) by (simp add: vdevice_write_def valid_wordline_def p NR_LP_IN_PP_def Let_def)
  have sl: "silent (ptr_vdevice fb) ?v"
    by (rule silent_issue [where block = "blk_no p" and page = ?pg]) (use P(2) F(3) in \<open>simp_all add: valid_wordline_def p\<close>)
  have vd: "vdata ?v q w = (if q = p \<and> w = ?pg then take NR_LP_IN_PP (drop spos src)
      else vdata (ptr_vdevice fb) q w)" for q w by (simp add: issue_def)
  let ?fb1 = "fb\<lparr>ptr_vdevice := ?v\<rparr>"
  have "spos + NR_LP_IN_PP \<le> length src" using src by (simp add: NR_LP_IN_PP_def)
  then have "sizes_ok ?fb1" using D(1) by (auto simp: sizes_ok_def vd)
  then have inv1: "ftl_ok ?fb1" by (intro ftl_inv_cong [OF inv]) simp_all
  have d1: "ftl_data ?fb1 = ftl_data fb"
  proof (rule ftl_data_cong [OF inv])
    fix q w i
    assume q: "valid_blk q" "w < NUM_PAGES_PER_BLOCK" "i < NR_LP_IN_PP" "bst (blk_of fb q) w i = PAGE_STATUS_VALID"
    have "\<not> (q = p \<and> w = ?pg)"
    proof
      assume e: "q = p \<and> w = ?pg"
      have "bst (blk_of fb p) ?pg i = PAGE_STATUS_FREE"
        using blk_wfD(7) [OF D(4) [OF P(2)] F(3) q(3)] F(2) by simp
      with e q(4) show False by simp
    qed
    then show "vdata (ptr_vdevice ?fb1) q w = vdata (ptr_vdevice fb) q w" by (auto simp: vd)
  qed simp
  have "act_of ?fb1 = act_of fb" by (simp add: act_of_def fun_eq_iff)
  then have act1: "act_of ?fb1 (ucast bus) (ucast chip) = Some p" using act by simp
  obtain fb2 where m: "map_logical_to_physical ?fb1 lpas pos (ucast bus) (ucast chip) (blk_no p) ?pg = Some (0, fb2)"
    "ftl_inv (\<lambda>_. 0) {p} fb2" "frame ?fb1 fb2" "act_of fb2 = act_of ?fb1"
    "l2p fb2 = wordline_map p ?pg (\<lambda>j. lpas ! (pos + j)) (l2p ?fb1)" "\<not> all_dead (blk_of fb2 p)"
    "gc_kept ?fb1 fb2" "nr_free_pages \<circ> blk_of fb2 = (nr_free_pages \<circ> blk_of ?fb1)(p := nr_free_pages (blk_of ?fb1 p) - 1)"
    using map_logical_to_physical_spec [OF inv1 act1 refl _ len lpa some, of ?pg] by auto
  have v2: "ptr_vdevice fb2 = ptr_vdevice ?fb1" using m(3) by (simp add: frame_def Let_def)
  have "ftl_data fb2 = wordline_store (\<lambda>j. lpas ! (pos + j)) (\<lambda>j. vdata ?v p ?pg ! j) (ftl_data ?fb1)"
    using wordline_store_data [OF m(5) v2 P(2) F(3) lpa] by simp
  moreover have "vdata ?v p ?pg ! j = src ! (spos + j)" if "j < 4" for j
    using that src by (simp add: vd) (simp add: NR_LP_IN_PP_def)
  ultimately have d2: "ftl_data fb2 = wordline_store (\<lambda>j. lpas ! (pos + j)) (\<lambda>j. src ! (spos + j)) (ftl_data fb)"
    using d1 by (simp add: wordline_store_def)
  let ?fb3 = "set_prev_bus_chip fb2 bus chip"
  have f3: "ptr_ssd_info ?fb3 = ptr_ssd_info fb2" "l2p ?fb3 = l2p fb2" "ptr_vdevice ?fb3 = ptr_vdevice fb2"
    "act_of ?fb3 = act_of fb2" "gframe fb2 ?fb3" "same_bufs fb2 ?fb3" "gc_of ?fb3 = gc_of fb2"
    "mru_chip (ftl_abm (ptr_mapping_context ?fb3)) = ucast chip"
    by (simp_all add: set_prev_bus_chip_def put_defs act_of_def gc_of_def fun_eq_iff gframe_def same_bufs_def)
  have "sizes_ok ?fb3"
    using ftl_invD(1) [OF m(2)] P(1)
    by (simp add: set_prev_bus_chip_def put_defs sizes_ok_def valid_chip_def)
  then have inv3: "ftl_inv (\<lambda>_. 0) {p} ?fb3"
    by (intro ftl_inv_cong [OF m(2)]) (simp_all add: set_prev_bus_chip_def put_defs)
  obtain fb4 where u: "update_act_blk ?fb3 bus chip = Some fb4" "ftl_ok fb4" "frame ?fb3 fb4" "l2p fb4 = l2p ?fb3"
    "gc_of fb4 = gc_of ?fb3" "same_frontiers ?fb3 fb4"
    using update_act_blk_spec [OF inv3] m(4,6) f3 act1 by auto
  have v4: "ptr_vdevice fb4 = ptr_vdevice fb2" using u(3) f3 by (simp add: frame_def Let_def)
  have "ftl_data fb4 = ftl_data fb2" by (rule ftl_data_eqI) (simp_all add: u f3 v4)
  moreover have "gframe fb fb4"
  proof -
    have "gframe fb ?fb1" using sl by (simp add: gframe_def)
    also have "gframe ?fb1 fb2" using m(3) by (rule frame_gframe)
    also note f3(5)
    also have "gframe ?fb3 fb4" using u(3) by (rule frame_gframe)
    finally show ?thesis .
  qed
  moreover have "same_bufs fb fb4"
  proof -
    have "same_bufs fb ?fb1" by (simp add: same_bufs_def)
    also have "same_bufs ?fb1 fb2" using m(3) by (rule frame_same_bufs)
    also note f3(6)
    also have "same_bufs ?fb3 fb4" using u(3) by (rule frame_same_bufs)
    finally show ?thesis .
  qed
  moreover have "mru_chip (ftl_abm (ptr_mapping_context fb4)) = ucast chip"
    using u(3) f3(8) by (simp add: frame_def Let_def)
  moreover have "gc_kept fb fb4"
  proof -
    have "gc_of ?fb1 = gc_of fb" by (simp add: gc_of_def fun_eq_iff)
    then show ?thesis using m(7) u(5) f3(7) by (simp add: gc_kept_def)
  qed
  moreover have "l2p fb4 = wordline_map p ?pg (\<lambda>j. lpas ! (pos + j)) (l2p fb)" using u(4) f3(2) m(5) by simp
  moreover have "nr_free_pages \<circ> blk_of fb4 = (nr_free_pages \<circ> blk_of fb)(p := nr_free_pages (blk_of fb p) - 1)"
    using m(8) u(6) f3(1) by (simp add: same_frontiers_def fun_eq_iff)
  ultimately show ?thesis using v m(1) u(1,2) d2 by auto
qed

section \<open>The copy-back loop\<close>

text \<open>
  The first \<open>N\<close> entries of the copy buffers hold logical pages with their contents in \<open>M\<close>.
\<close>

definition copies :: "nat \<Rightarrow> (u32 \<rightharpoonup> lpdata) \<Rightarrow> fb_context_t \<Rightarrow> bool" where
  "copies N M fb \<longleftrightarrow> (let g = ftl_gcm (ptr_mapping_context fb) in
     N \<le> NUM_CHIPS * NUM_PAGES_PER_BLOCK * NR_LP_IN_PP \<and>
     (\<forall>j < N. is_valid_address_range (lpas_to_copy g ! j) \<and> M (lpas_to_copy g ! j) = Some (data_to_copy g ! j)))"

lemma wordline_store_same:
  assumes "\<And>j. j < 4 \<Longrightarrow> ls j = PAGE_UNMAPPED \<or> M (ls j) = Some (ds j)"
  shows "wordline_store ls ds M = M"
proof -
  have "slot_store (ls j) (ds j) M = M" if "j < 4" for j
    using assms [OF that] by (auto simp: slot_store_def)
  then show ?thesis by (simp add: wordline_store_def)
qed

lemma st_lpas_eq:
  assumes "i < length (lpas_to_copy (ftl_gcm (ptr_mapping_context fb)))"
  shows "st_lpas_to_copy fb i x = Some (upd_gcm fb (\<lambda>g. g\<lparr>lpas_to_copy := (lpas_to_copy g)[i := x]\<rparr>))"
  using assms by (simp add: st_lpas_to_copy_def st_nth_def put_defs)

text \<open>Padding writes \<open>PAGE_UNMAPPED\<close> behind the last page to copy.\<close>

lemma pad_lpas_spec:
  assumes n: "0 < n" and k: "k + 4 \<le> length (lpas_to_copy (ftl_gcm (ptr_mapping_context fb)))"
  shows "\<exists>xs. pad_lpas n k fb = Some (upd_gcm fb (\<lambda>g. g\<lparr>lpas_to_copy := xs\<rparr>)) \<and>
    length xs = length (lpas_to_copy (ftl_gcm (ptr_mapping_context fb))) \<and>
    (\<forall>j. (j < k \<or> j - k < nat n) \<longrightarrow> xs ! j = lpas_to_copy (ftl_gcm (ptr_mapping_context fb)) ! j) \<and>
    (\<forall>j < 4. nat n \<le> j \<longrightarrow> xs ! (k + j) = PAGE_UNMAPPED)"
proof (cases "n < int NR_LP_IN_PP")
  case False
  moreover have "upd_gcm fb (\<lambda>g. g\<lparr>lpas_to_copy := lpas_to_copy (ftl_gcm (ptr_mapping_context fb))\<rparr>) = fb"
    by (simp add: put_defs)
  ultimately show ?thesis
    by (intro exI [of _ "lpas_to_copy (ftl_gcm (ptr_mapping_context fb))"])
      (auto simp: pad_lpas_def NR_LP_IN_PP_def)
next
  case True
  let ?L = "lpas_to_copy (ftl_gcm (ptr_mapping_context fb))"
  let ?I = "\<lambda>done f. \<exists>xs. f = upd_gcm fb (\<lambda>g. g\<lparr>lpas_to_copy := xs\<rparr>) \<and> length xs = length ?L \<and>
    (\<forall>j. (j < k \<or> j - k < nat n) \<longrightarrow> xs ! j = ?L ! j) \<and> (\<forall>j \<in> set done. xs ! (k + j) = PAGE_UNMAPPED)"
  let ?f = "\<lambda>lp fb. st_lpas_to_copy fb (k + lp) PAGE_UNMAPPED"
  have "\<exists>f. foldM ?f [nat n ..< NR_LP_IN_PP] fb = Some f \<and> ?I [nat n ..< NR_LP_IN_PP] f"
  proof (rule foldM_rule [where I = ?I])
    have "upd_gcm fb (\<lambda>g. g\<lparr>lpas_to_copy := ?L\<rparr>) = fb" by (simp add: put_defs)
    then show "?I [] fb" by (intro exI [of _ ?L]) simp
  next
    fix "done" x rest f
    assume l: "[nat n ..< NR_LP_IN_PP] = done @ x # rest" and I: "?I done f"
    have "x \<in> set [nat n ..< NR_LP_IN_PP]" unfolding l by simp
    then have x: "nat n \<le> x" "x < 4" by (simp_all add: NR_LP_IN_PP_def)
    from I obtain xs where xs: "f = upd_gcm fb (\<lambda>g. g\<lparr>lpas_to_copy := xs\<rparr>)" "length xs = length ?L"
      "\<forall>j. (j < k \<or> j - k < nat n) \<longrightarrow> xs ! j = ?L ! j" "\<forall>j \<in> set done. xs ! (k + j) = PAGE_UNMAPPED" by blast
    have "?f x f = Some (upd_gcm fb (\<lambda>g. g\<lparr>lpas_to_copy := xs[k + x := PAGE_UNMAPPED]\<rparr>))"
      using xs(1,2) x k by (subst st_lpas_eq) (simp_all add: put_defs)
    moreover have "\<forall>j. (j < k \<or> j - k < nat n) \<longrightarrow> xs[k + x := PAGE_UNMAPPED] ! j = ?L ! j"
      using xs(3) x n by (auto simp: nth_list_update_neq)
    moreover have "\<forall>j \<in> set (done @ [x]). xs[k + x := PAGE_UNMAPPED] ! (k + j) = PAGE_UNMAPPED"
      using xs(2,4) x k by (auto simp: nth_list_update)
    ultimately show "\<exists>f'. ?f x f = Some f' \<and> ?I (done @ [x]) f'"
      using xs(2) by (intro exI [of _ "upd_gcm fb (\<lambda>g. g\<lparr>lpas_to_copy := xs[k + x := PAGE_UNMAPPED]\<rparr>)"]
          conjI exI [of _ "xs[k + x := PAGE_UNMAPPED]"]) simp_all
  qed
  then obtain xs where "foldM ?f [nat n ..< NR_LP_IN_PP] fb = Some (upd_gcm fb (\<lambda>g. g\<lparr>lpas_to_copy := xs\<rparr>))"
    "length xs = length ?L" "\<forall>j. (j < k \<or> j - k < nat n) \<longrightarrow> xs ! j = ?L ! j"
    "\<forall>j \<in> set [nat n ..< NR_LP_IN_PP]. xs ! (k + j) = PAGE_UNMAPPED" by blast
  then show ?thesis using True by (intro exI [of _ xs]) (auto simp: pad_lpas_def NR_LP_IN_PP_def)
qed

lemma sizes_lens:
  assumes "sizes_ok fb"
  shows "length (lpas_to_copy (ftl_gcm (ptr_mapping_context fb))) = 1536"
    "1536 \<le> length (data_to_copy (ftl_gcm (ptr_mapping_context fb)))"
  using assms by (simp_all add: sizes_ok_def geometry_simps)

lemma gcm_upd_sizes:
  assumes "sizes_ok fb" "length xs = length (lpas_to_copy (ftl_gcm (ptr_mapping_context fb)))"
  shows "sizes_ok (upd_perf (upd_gcm fb (\<lambda>g. g\<lparr>lpas_to_copy := xs\<rparr>)) f)"
  using assms by (simp add: sizes_ok_def put_defs upd_perf_def)

lemma prog_one_wordline_spec:
  assumes inv: "ftl_ok fb" and cp: "copies N (ftl_data fb) fb" and k: "4 dvd k" "k < N"
  shows "\<exists>r fb'. prog_one_wordline (int N - int k) k k fb = Some (r, fb') \<and> (r = 0 \<or> r = -1) \<and>
    ftl_ok fb' \<and> ftl_data fb' = ftl_data fb \<and> gframe fb fb' \<and> copies N (ftl_data fb) fb'"
proof -
  note D = ftl_invD [OF inv]
  obtain bus chip where bc: "get_next_bus_chip fb = (bus, chip)" by (cases "get_next_bus_chip fb")
  note nb = next_bus_chip [OF D(1) bc]
  have N: "N \<le> 1536" using cp by (simp add: copies_def Let_def geometry_simps)
  have k4: "k + 4 \<le> 1536" using k N by (auto elim!: dvdE)
  show ?thesis
  proof (cases "act_of fb (ucast bus) (ucast chip) = None \<and> free_blks (chip_of fb (ucast bus) (ucast chip)) = []")
    case True
    then have "alloc_new_page fb bus chip = Some (-1, None, fb)"
      using alloc_new_page_spec [OF inv nb(3)] by auto
    then have "prog_one_wordline (int N - int k) k k fb = Some (-1, fb)"
      by (simp add: prog_one_wordline_def bc)
    with inv cp show ?thesis by auto
  next
    case False
    then obtain p fb1 where a: "alloc_new_page fb bus chip = Some (0, Some (blk_no p, of_nat (frontier (blk_of fb1 p))), fb1)"
      "ftl_ok fb1" "frame fb fb1" "l2p fb1 = l2p fb" "act_of fb1 (ucast bus) (ucast chip) = Some p"
      using alloc_new_page_spec [OF inv nb(3)] by blast
    let ?L = "lpas_to_copy (ftl_gcm (ptr_mapping_context fb))"
    let ?X = "data_to_copy (ftl_gcm (ptr_mapping_context fb))"
    have b1: "same_bufs fb fb1" using a(3) by (rule frame_same_bufs)
    then have L1: "lpas_to_copy (ftl_gcm (ptr_mapping_context fb1)) = ?L"
      "data_to_copy (ftl_gcm (ptr_mapping_context fb1)) = ?X" by (simp_all add: same_bufs_def)
    note len = sizes_lens [OF D(1)]
    obtain xs where xs: "pad_lpas (int N - int k) k fb1 = Some (upd_gcm fb1 (\<lambda>g. g\<lparr>lpas_to_copy := xs\<rparr>))"
      "length xs = length ?L" "\<And>j. j < k \<or> j - k < nat (int N - int k) \<Longrightarrow> xs ! j = ?L ! j"
      "\<And>j. j < 4 \<Longrightarrow> nat (int N - int k) \<le> j \<Longrightarrow> xs ! (k + j) = PAGE_UNMAPPED"
      using pad_lpas_spec [of "int N - int k" k fb1] k k4 len(1) unfolding L1 by auto
    let ?fb3 = "upd_perf (upd_gcm fb1 (\<lambda>g. g\<lparr>lpas_to_copy := xs\<rparr>)) perf_inc_nr_wordline_prog_bg"
    have f3: "ptr_ssd_info ?fb3 = ptr_ssd_info fb1" "l2p ?fb3 = l2p fb1" "ptr_vdevice ?fb3 = ptr_vdevice fb1"
      "act_of ?fb3 = act_of fb1" "gframe fb1 ?fb3" "lpas_to_copy (ftl_gcm (ptr_mapping_context ?fb3)) = xs"
      "data_to_copy (ftl_gcm (ptr_mapping_context ?fb3)) = ?X"
      by (simp_all add: put_defs upd_perf_def act_of_def gframe_def fun_eq_iff L1(2) [symmetric])
    have inv3: "ftl_ok ?fb3"
      by (rule ftl_inv_cong [OF a(2)])
        (use gcm_upd_sizes [OF ftl_invD(1) [OF a(2)], of xs] xs(2) L1 in
          \<open>simp_all add: put_defs upd_perf_def\<close>)
    have v1: "ptr_vdevice fb1 = ptr_vdevice fb" using a(3) by (simp add: frame_def Let_def)
    have d3: "ftl_data ?fb3 = ftl_data fb" by (rule ftl_data_eqI) (simp_all add: f3 a(4) v1)
    have cpj: "is_valid_address_range (?L ! j)" "ftl_data fb (?L ! j) = Some (?X ! j)" if "j < N" for j
      using cp that by (auto simp: copies_def Let_def)
    have x: "xs ! (k + j) = PAGE_UNMAPPED \<or> is_valid_address_range (xs ! (k + j)) \<and>
        ftl_data fb (xs ! (k + j)) = Some (?X ! (k + j))" if "j < 4" for j
    proof (cases "k + j < N")
      case True
      then have "j < nat (int N - int k)" by simp
      then have "xs ! (k + j) = ?L ! (k + j)" using xs(3) [of "k + j"] by simp
      then show ?thesis using cpj [OF True] by simp
    next
      case False
      then show ?thesis using xs(4) [OF that] by simp
    qed
    have x0: "xs ! (k + 0) \<noteq> PAGE_UNMAPPED"
      using xs(3) [of k] cpj(1) [OF k(2)] k(2) lpa_mapped by auto
    obtain v fb4 fb5 where w: "vdevice_write (ptr_vdevice ?fb3) bus chip (blk_no p)
        (of_nat (frontier (blk_of ?fb3 p))) ?X k None = Some v"
      "map_logical_to_physical (?fb3\<lparr>ptr_vdevice := v\<rparr>) xs k (ucast bus) (ucast chip) (blk_no p)
        (of_nat (frontier (blk_of ?fb3 p))) = Some (0, fb4)"
      "update_act_blk (set_prev_bus_chip fb4 bus chip) bus chip = Some fb5" "ftl_ok fb5"
      "ftl_data fb5 = wordline_store (\<lambda>j. xs ! (k + j)) (\<lambda>j. ?X ! (k + j)) (ftl_data ?fb3)"
      "gframe ?fb3 fb5" "same_bufs ?fb3 fb5"
      using write_wordline_spec [OF inv3, of bus chip p k ?X k xs 0] a(5) k4 len xs(2) x x0 f3(4) by auto
    have "ftl_data fb5 = ftl_data fb"
      unfolding w(5) d3 by (rule wordline_store_same) (use x in blast)
    moreover have "gframe fb fb5"
      using frame_gframe [OF a(3)] f3(5) w(6) gframe_trans by blast
    moreover have "copies N (ftl_data fb) fb5"
    proof -
      have "xs ! j = ?L ! j" if "j < N" for j by (rule xs(3)) (use that in auto)
      then show ?thesis
        using N cpj w(7) by (simp add: copies_def Let_def same_bufs_def f3 geometry_simps)
    qed
    moreover have "prog_one_wordline (int N - int k) k k fb = Some (0, fb5)"
      unfolding prog_one_wordline_def
      using a(1) xs(1) w(1-3) f3(1,3,6,7)
      by (simp add: bc Let_def get_vdev_def get_gcm_def get_ftl_def)
    ultimately show ?thesis using w(4) by auto
  qed
qed

lemma prog_loop_spec:
  assumes "ftl_ok fb" "copies N (ftl_data fb) fb" "4 dvd k"
  shows "\<exists>r fb'. prog_loop (int N - int k) k k fb = Some (r, fb') \<and> (r = 0 \<or> r = -1) \<and>
    ftl_ok fb' \<and> ftl_data fb' = ftl_data fb \<and> gframe fb fb'"
  using assms
proof (induction "nat (int N - int k)" arbitrary: k fb rule: less_induct)
  case less
  show ?case
  proof (cases "k < N")
    case False
    then show ?thesis using less.prems by (auto simp: prog_loop.simps [of "int N - int k"])
  next
    case True
    obtain r fb1 where one: "prog_one_wordline (int N - int k) k k fb = Some (r, fb1)" "r = 0 \<or> r = -1"
      "ftl_ok fb1" "ftl_data fb1 = ftl_data fb" "gframe fb fb1" "copies N (ftl_data fb) fb1"
      using prog_one_wordline_spec [OF less.prems True] by blast
    have step: "prog_loop (int N - int k) k k fb =
        (if r = -1 then Some (-1, fb1) else prog_loop (int N - int (k + 4)) (k + 4) (k + 4) fb1)"
      using True one(1) by (subst prog_loop.simps) (simp add: NR_LP_IN_PP_def algebra_simps)
    show ?thesis
    proof (cases "r = -1")
      case True
      then show ?thesis using step one by auto
    next
      case False
      have "\<exists>r fb'. prog_loop (int N - int (k + 4)) (k + 4) (k + 4) fb1 = Some (r, fb') \<and> (r = 0 \<or> r = -1) \<and>
          ftl_ok fb' \<and> ftl_data fb' = ftl_data fb1 \<and> gframe fb1 fb'"
        by (rule less.hyps) (use True one less.prems(3) in auto)
      then show ?thesis using step False one gframe_trans by metis
    qed
  qed
qed

end
