(* ===== verification/FB_Gc_Read.thy ===== *)
theory FB_Gc_Read
  imports FB_Gc_Prog
begin

text \<open>
  Reading the victim blocks of foreground garbage collection: the loop of \<open>get_valid_pgs_in_vic_blks\<close>
  ends after one pass over the pages, and leaves in the copy buffers the logical pages of all
  valid slots of the victims, with their contents.
\<close>

section \<open>One wordline\<close>

definition valid_in :: "flash_block \<Rightarrow> u32 \<Rightarrow> u8 list \<Rightarrow> u8 list" where
  "valid_in b pg is = filter (\<lambda>i. bst b pg i = PAGE_STATUS_VALID) is"

abbreviation valid_slots :: "flash_block \<Rightarrow> u32 \<Rightarrow> u8 list" where
  "valid_slots b pg \<equiv> valid_in b pg (words_below NR_LP_IN_PP)"

definition put_lpas :: "fb_context_t \<Rightarrow> u32 list \<Rightarrow> fb_context_t" where
  "put_lpas fb xs = upd_gcm fb (\<lambda>g. g\<lparr>lpas_to_copy := xs\<rparr>)"

abbreviation cp_lpas :: "fb_context_t \<Rightarrow> u32 list" where
  "cp_lpas fb \<equiv> lpas_to_copy (ftl_gcm (ptr_mapping_context fb))"

abbreviation cp_data :: "fb_context_t \<Rightarrow> lpdata list" where
  "cp_data fb \<equiv> data_to_copy (ftl_gcm (ptr_mapping_context fb))"

lemma put_lpas_fields [simp]:
  "ptr_ssd_info (put_lpas fb xs) = ptr_ssd_info fb" "cp_lpas (put_lpas fb xs) = xs"
  "cp_data (put_lpas fb xs) = cp_data fb" "put_lpas (put_lpas fb xs) ys = put_lpas fb ys"
  "put_lpas fb (cp_lpas fb) = fb" "ptr_vdevice (put_lpas fb xs) = ptr_vdevice fb"
  by (simp_all add: put_lpas_def put_defs)

definition bitmap_of :: "flash_block \<Rightarrow> u32 \<Rightarrow> u8 list \<Rightarrow> u8 list \<Rightarrow> u8 list" where
  "bitmap_of b pg is bm = fold (\<lambda>i bm. bm[unat i := if bst b pg i = PAGE_STATUS_VALID then 1 else 0]) is bm"

lemma collect_loop:
  assumes p: "valid_blk p" "pg < NUM_PAGES_PER_BLOCK"
    and "\<forall>i \<in> set is. i < NR_LP_IN_PP" "length (rd_bitmap l) = NR_LP_IN_PP"
    and "rd_lpa l + length (valid_in (blk_of fb p) pg is) \<le> length (cp_lpas fb)"
  shows "foldM (\<lambda>lp (l, fb). do {
       st \<leftarrow> get_pg_status (get_ssd_inf fb) (Pg p pg) lp;
       if st = PAGE_STATUS_VALID then do {
         lpa \<leftarrow> get_mapped_lpa (get_ssd_inf fb) (Pg p pg) lp;
         fb \<leftarrow> st_lpas_to_copy fb (rd_lpa l) lpa;
         bm \<leftarrow> st_nth (rd_bitmap l) (unat lp) 1;
         Some (l\<lparr>rd_bitmap := bm, rd_lpa := rd_lpa l + 1\<rparr>, fb) }
       else do {
         bm \<leftarrow> st_nth (rd_bitmap l) (unat lp) 0;
         Some (l\<lparr>rd_bitmap := bm\<rparr>, fb) } }) is (l, fb) =
    Some (l\<lparr>rd_bitmap := bitmap_of (blk_of fb p) pg is (rd_bitmap l),
        rd_lpa := rd_lpa l + length (valid_in (blk_of fb p) pg is)\<rparr>,
      put_lpas fb (take (rd_lpa l) (cp_lpas fb) @ map (blpa (blk_of fb p) pg) (valid_in (blk_of fb p) pg is)
        @ drop (rd_lpa l + length (valid_in (blk_of fb p) pg is)) (cp_lpas fb)))"
  using assms(3-)
proof (induction "is" arbitrary: l fb)
  case Nil
  then show ?case by (simp add: valid_in_def bitmap_of_def)
next
  case (Cons i "is")
  have i: "i < NR_LP_IN_PP" "unat i < NR_LP_IN_PP"
    using Cons.prems(1) by (auto simp: NR_LP_IN_PP_def word_less_nat_alt)
  show ?case
  proof (cases "bst (blk_of fb p) pg i = PAGE_STATUS_VALID")
    case True
    have c: "rd_lpa l < length (cp_lpas fb)" using Cons.prems(3) True by (simp add: valid_in_def)
    let ?L = "(cp_lpas fb)[rd_lpa l := blpa (blk_of fb p) pg i]"
    have "st_lpas_to_copy fb (rd_lpa l) (blpa (blk_of fb p) pg i) = Some (put_lpas fb ?L)"
      unfolding st_lpas_eq [OF c] by (simp add: put_lpas_def put_defs)
    then show ?thesis
      using True Cons.prems i p Cons.IH [of "l\<lparr>rd_bitmap := (rd_bitmap l)[unat i := 1], rd_lpa := rd_lpa l + 1\<rparr>" "put_lpas fb ?L"]
      by (simp add: get_pg_status_def get_mapped_lpa_def get_ssd_inf_def st_valid st_nth_def
          valid_in_def bitmap_of_def list_update_at_gap [OF c] del: ld_page.simps)
  next
    case False
    then show ?thesis
      using Cons.prems i p Cons.IH [of "l\<lparr>rd_bitmap := (rd_bitmap l)[unat i := 0]\<rparr>" fb]
      by (simp add: get_pg_status_def get_ssd_inf_def st_valid st_nth_def
          valid_in_def bitmap_of_def del: ld_page.simps)
  qed
qed

lemma bitmap_selected:
  assumes "length bm = NR_LP_IN_PP"
  shows "length (bitmap_of b pg (words_below NR_LP_IN_PP) bm) = NR_LP_IN_PP"
    and "selected (bitmap_of b pg (words_below NR_LP_IN_PP) bm) = map unat (valid_slots b pg)"
proof -
  obtain x0 x1 x2 x3 where "bm = [x0, x1, x2, x3]"
    using assms by (auto simp: NR_LP_IN_PP_def length_Suc_conv numeral_eq_Suc)
  then have e: "bitmap_of b pg (words_below NR_LP_IN_PP) bm =
      map (\<lambda>i. if bst b pg i = PAGE_STATUS_VALID then 1 else 0) [0, 1, 2, 3]"
    unfolding bitmap_of_def words_below_NR_LP by simp
  then show "length (bitmap_of b pg (words_below NR_LP_IN_PP) bm) = NR_LP_IN_PP"
    by (simp add: NR_LP_IN_PP_def)
  have n4: "[0..<NR_LP_IN_PP] = [0, 1, 2, 3]" by (simp add: NR_LP_IN_PP_def upt_rec)
  show "selected (bitmap_of b pg (words_below NR_LP_IN_PP) bm) = map unat (valid_slots b pg)"
    unfolding e selected_def n4 by (simp add: valid_in_def words_below_NR_LP)
qed

text \<open>The number of valid slots of a wordline without free slots is what its invalid count leaves.\<close>

lemma valid_slots_count:
  assumes wf: "blk_wf 0 b" and full: "nr_free_pages b = 0" and pg: "pg < NUM_PAGES_PER_BLOCK"
  shows "NR_LP_IN_PP - pg_nr_invalid_log_pages (list_pages b pg) = (of_nat (length (valid_slots b pg)) :: u32)"
    and "length (valid_slots b pg) \<le> 4"
proof -
  have st: "bst b pg i = PAGE_STATUS_VALID \<or> bst b pg i = PAGE_STATUS_INVALID" if "i < NR_LP_IN_PP" for i
  proof -
    have "bst b pg i \<noteq> PAGE_STATUS_FREE"
      using blk_wfD(7) [OF wf pg that] full pg
      by (auto simp: frontier_def NUM_PAGES_PER_BLOCK_def word_less_nat_alt)
    then show ?thesis using blk_wfD(8) [OF wf pg that] by (cases "bst b pg i") auto
  qed
  have inv: "page_invalid_slots b pg = set (filter (\<lambda>i. bst b pg i = PAGE_STATUS_INVALID) (words_below NR_LP_IN_PP))"
    by (auto simp: page_invalid_slots_def)
  have "card (page_invalid_slots b pg) = length (filter (\<lambda>i. bst b pg i = PAGE_STATUS_INVALID) (words_below NR_LP_IN_PP))"
    unfolding inv by (rule distinct_card) simp
  also have "filter (\<lambda>i. bst b pg i = PAGE_STATUS_INVALID) (words_below NR_LP_IN_PP) =
      filter (\<lambda>i. \<not> bst b pg i = PAGE_STATUS_VALID) (words_below NR_LP_IN_PP)"
    by (rule filter_cong [OF refl]) (use st in auto)
  finally have c: "card (page_invalid_slots b pg) + length (valid_slots b pg) = 4"
    using sum_length_filter_compl [of "\<lambda>i. bst b pg i = PAGE_STATUS_VALID" "words_below (NR_LP_IN_PP :: u8)"]
    by (simp add: valid_in_def NR_LP_IN_PP_def)
  then show "length (valid_slots b pg) \<le> 4" by simp
  have "(of_nat (length (valid_slots b pg)) :: u32) = of_nat (4 - card (page_invalid_slots b pg))"
    using c by (intro arg_cong [where f = of_nat]) simp
  also have "\<dots> = NR_LP_IN_PP - of_nat (card (page_invalid_slots b pg))"
    using c by (subst of_nat_diff) (simp_all add: NR_LP_IN_PP_def)
  finally show "NR_LP_IN_PP - pg_nr_invalid_log_pages (list_pages b pg) = (of_nat (length (valid_slots b pg)) :: u32)"
    by (simp add: blk_wfD(3) [OF wf pg])
qed

lemma page_span_small: "n \<le> 4 \<Longrightarrow> page_span (of_nat n) = n"
proof -
  assume n: "n \<le> 4"
  have e: "(of_nat n * LOGICAL_PAGE_SIZE :: u32) = of_nat (n * 4096)"
    by (simp add: LOGICAL_PAGE_SIZE_def)
  have "unat (of_nat n * LOGICAL_PAGE_SIZE :: u32) = n * 4096"
    unfolding e by (rule unat_of_nat_u32) (use n in simp)
  then show ?thesis by (simp add: page_span_def LOGICAL_PAGE_SIZE_def)
qed

text \<open>What reading the victims leaves alone, and what it has put into the copy buffers.\<close>

definition reads_only :: "fb_context_t \<Rightarrow> fb_context_t \<Rightarrow> bool" where
  "reads_only fb fb' \<longleftrightarrow> (let c = ptr_mapping_context fb; c' = ptr_mapping_context fb' in
     ptr_ssd_info fb' = ptr_ssd_info fb \<and> vdata (ptr_vdevice fb') = vdata (ptr_vdevice fb) \<and>
     ptr_mapping_table c' = ptr_mapping_table c \<and> ftl_abm c' = ftl_abm c \<and>
     gc_blks (ftl_gcm c') = gc_blks (ftl_gcm c) \<and> vic_blks (ftl_gcm c') = vic_blks (ftl_gcm c) \<and>
     first_valid_pg (ftl_gcm c') = first_valid_pg (ftl_gcm c) \<and>
     nr_pgs_to_copy (ftl_gcm c') = nr_pgs_to_copy (ftl_gcm c) \<and>
     length (cp_lpas fb') = length (cp_lpas fb) \<and> length (cp_data fb') = length (cp_data fb) \<and>
     gframe fb fb')"

lemma reads_only_refl [simp]: "reads_only fb fb"
  by (simp add: reads_only_def)

lemma reads_only_trans [trans]: "reads_only fb fb' \<Longrightarrow> reads_only fb' fb'' \<Longrightarrow> reads_only fb fb''"
  unfolding reads_only_def Let_def by (auto intro: gframe_trans)

lemma reads_only_inv:
  assumes "reads_only fb fb'"
  shows "ftl_inv pt ex fb \<Longrightarrow> ftl_inv pt ex fb'" "ftl_data fb' = ftl_data fb"
proof -
  show "ftl_data fb' = ftl_data fb"
    using assms by (intro ftl_data_eqI) (simp_all add: reads_only_def Let_def)
  assume i: "ftl_inv pt ex fb"
  then have "sizes_ok fb'" using assms ftl_invD(1) [OF i] by (simp add: reads_only_def Let_def sizes_ok_def)
  then show "ftl_inv pt ex fb'"
    using assms by (intro ftl_inv_cong [OF i]) (simp_all add: reads_only_def Let_def)
qed

definition read_so_far :: "(u32 \<times> lpdata) list \<Rightarrow> read_st \<times> fb_context_t \<Rightarrow> bool" where
  "read_so_far L st \<longleftrightarrow> (case st of (l, fb) \<Rightarrow>
     rd_lpa l = length L \<and> rd_data l = length L \<and> rd_count l = of_nat (length L) \<and>
     length (rd_bitmap l) = NR_LP_IN_PP \<and> length L \<le> length (cp_lpas fb) \<and> length L \<le> length (cp_data fb) \<and>
     take (length L) (cp_lpas fb) = map fst L \<and> take (length L) (cp_data fb) = map snd L)"

definition slot_pairs :: "fb_context_t \<Rightarrow> blkptr \<Rightarrow> u32 \<Rightarrow> (u32 \<times> lpdata) list" where
  "slot_pairs fb p pg = map (\<lambda>i. (blpa (blk_of fb p) pg i, vdata (ptr_vdevice fb) p pg ! unat i))
     (valid_slots (blk_of fb p) pg)"

definition vic_pairs :: "fb_context_t \<Rightarrow> blkptr option \<Rightarrow> u32 \<Rightarrow> (u32 \<times> lpdata) list" where
  "vic_pairs fb v pg = (case v of None \<Rightarrow> [] | Some p \<Rightarrow> slot_pairs fb p pg)"

lemma vic_pairs_cong: "reads_only fb fb' \<Longrightarrow> vic_pairs fb' = vic_pairs fb"
  by (simp add: fun_eq_iff vic_pairs_def slot_pairs_def reads_only_def Let_def split: option.splits)

definition full_vic :: "fb_context_t \<Rightarrow> u32 \<Rightarrow> u32 \<Rightarrow> blkptr option \<Rightarrow> bool" where
  "full_vic fb bus chip v \<longleftrightarrow> (\<forall>p. v = Some p \<longrightarrow>
     valid_blk p \<and> blk_bus p = bus \<and> blk_chip p = chip \<and> nr_free_pages (blk_of fb p) = 0)"

definition copied :: "(u32 \<times> lpdata) list \<Rightarrow> read_st \<times> fb_context_t \<Rightarrow> bool" where
  "copied L st \<longleftrightarrow> (case st of (l, fb) \<Rightarrow>
     rd_lpa l = length L \<and> rd_data l = length L \<and>
     length (rd_bitmap l) = NR_LP_IN_PP \<and> length L \<le> length (cp_lpas fb) \<and> length L \<le> length (cp_data fb) \<and>
     take (length L) (cp_lpas fb) = map fst L \<and> take (length L) (cp_data fb) = map snd L)"

lemma read_so_far_iff: "read_so_far L (l, fb) \<longleftrightarrow> rd_count l = of_nat (length L) \<and> copied L (l, fb)"
  by (auto simp: read_so_far_def copied_def)

lemma copied_count [simp]: "copied L (l\<lparr>rd_count := n\<rparr>, fb) = copied L (l, fb)"
  by (simp add: copied_def)

lemma valid_slots_short: "length (valid_slots b pg) \<le> 4"
  unfolding valid_in_def words_below_NR_LP by (rule order_trans [OF length_filter_le]) simp

lemma invalid_count_at:
  assumes "valid_blk p" "pg < NUM_PAGES_PER_BLOCK"
  shows "get_nr_invalid_lps (get_ssd_inf fb) (get_pgi_from_blki p pg) =
    Some (pg_nr_invalid_log_pages (list_pages (blk_of fb p) pg))"
  using assms by (simp add: get_nr_invalid_lps_def get_pgi_from_blki_def get_ssd_inf_def st_valid del: ld_page.simps)

text \<open>Collecting and reading the valid slots of one wordline.\<close>

lemma copy_wordline:
  fixes bus chip :: u8
  assumes inv: "ftl_ok fb" and p: "valid_blk p" "blk_bus p = ucast bus" "blk_chip p = ucast chip"
    and pg: "pg < NUM_PAGES_PER_BLOCK" and so: "copied L (l, fb)" and room: "length L + 4 \<le> 1536"
  shows "\<exists>l' fb1 fb3. collect_lpas (get_pgi_from_blki p pg) (l, fb) = Some (l', fb1) \<and>
    gc_vdevice_read bus chip p pg (l', upd_perf fb1 perf_inc_nr_page_reads) = Some (l', fb3) \<and>
    reads_only fb fb3 \<and> rd_count l' = rd_count l \<and> rd_data l' = rd_data l \<and>
    copied (L @ slot_pairs fb p pg) (l'\<lparr>rd_data := rd_data l + length (valid_slots (blk_of fb p) pg)\<rparr>, fb3) \<and>
    (valid_slots (blk_of fb p) pg = [] \<longrightarrow> cp_lpas fb3 = cp_lpas fb \<and> cp_data fb3 = cp_data fb)"
proof -
  note D = ftl_invD [OF inv]
  let ?b = "blk_of fb p" and ?vs = "valid_slots (blk_of fb p) pg"
  note cnt = valid_slots_short [of ?b pg]
  have l: "rd_lpa l = length L" "rd_data l = length L"
    "length (rd_bitmap l) = NR_LP_IN_PP" "take (length L) (cp_lpas fb) = map fst L"
    "take (length L) (cp_data fb) = map snd L" using so by (simp_all add: copied_def)
  note len = sizes_lens [OF D(1)]
  let ?bm = "bitmap_of ?b pg (words_below NR_LP_IN_PP) (rd_bitmap l)"
  let ?xs = "take (length L) (cp_lpas fb) @ map (blpa ?b pg) ?vs @ drop (length L + length ?vs) (cp_lpas fb)"
  let ?fb1 = "put_lpas fb ?xs"
  let ?l1 = "l\<lparr>rd_bitmap := ?bm, rd_lpa := length L + length ?vs\<rparr>"
  have c: "collect_lpas (get_pgi_from_blki p pg) (l, fb) = Some (?l1, ?fb1)"
    unfolding collect_lpas_def get_pgi_from_blki_def
    using collect_loop [OF p(1) pg, of "words_below NR_LP_IN_PP" l fb] l(1,3) len(1) cnt room by simp
  note bm = bitmap_selected [OF l(3), of ?b pg]
  let ?fb2 = "upd_perf ?fb1 perf_inc_nr_page_reads"
  have f2: "ptr_ssd_info ?fb2 = ptr_ssd_info fb" "ptr_vdevice ?fb2 = ptr_vdevice fb" "cp_data ?fb2 = cp_data fb"
    "cp_lpas ?fb2 = ?xs" by (simp_all add: upd_perf_def)
  have no: "no_block ?b = blk_no p" using ids_okD(3) [OF D(2) p(1)] .
  have pe: "Blk (ucast bus) (ucast chip) (blk_no p) = p" using p(2,3) by (cases p) simp
  have vw: "valid_wordline bus chip (blk_no p) pg" using p(1) pg by (simp add: valid_wordline_def pe)
  have dl: "length (vdata (ptr_vdevice fb) p pg) = NR_LP_IN_PP" using D(1) p(1) pg by (simp add: sizes_ok_def)
  let ?ds = "map ((!) (vdata (ptr_vdevice fb) p pg)) (map unat ?vs)"
  let ?dest = "take (length L) (cp_data fb) @ ?ds @ drop (length L + length ?vs) (cp_data fb)"
  let ?v = "issue (ptr_vdevice fb) bus (ucast chip) OP_READ None"
  have r: "vdevice_read (ptr_vdevice fb) bus chip (blk_no p) pg ?bm (cp_data fb) (length L) None = Some (?dest, ?v)"
    using vdevice_read_spec [OF vw bm(1), of "ptr_vdevice fb" "length L" "cp_data fb" None] dl bm(2) len(2) cnt room
    by (simp add: pe)
  define fb3 where "fb3 = upd_gcm (?fb2\<lparr>ptr_vdevice := ?v\<rparr>) (\<lambda>g. g\<lparr>data_to_copy := ?dest\<rparr>)"
  have g: "gc_vdevice_read bus chip p pg (?l1, ?fb2) = Some (?l1, fb3)"
    using r p(1) no l(2) f2
    by (simp add: gc_vdevice_read_def get_ssd_inf_def get_vdev_def get_gcm_def get_ftl_def st_valid fb3_def)
  have c3: "cp_lpas fb3 = ?xs" "cp_data fb3 = ?dest"
    using f2 unfolding fb3_def by (simp_all add: put_defs)
  have lens: "length (cp_lpas fb3) = length (cp_lpas fb)" "length (cp_data fb3) = length (cp_data fb)"
    unfolding c3 using len cnt room by simp_all
  have "reads_only fb fb3"
    using lens by (simp add: reads_only_def Let_def)
      (use silent_issue [OF vw refl] in \<open>simp add: fb3_def put_defs put_lpas_def upd_perf_def issue_def gframe_def\<close>)
  moreover have "copied (L @ slot_pairs fb p pg) (?l1\<lparr>rd_data := rd_data l + length ?vs\<rparr>, fb3)"
    using l len cnt room by (simp add: copied_def slot_pairs_def bm(1) c3)
  ultimately show ?thesis
    using c g c3 by (intro exI [of _ ?l1] exI [of _ ?fb1] exI [of _ fb3]) simp
qed

lemma read_vic_page_some:
  fixes bus chip :: u8
  assumes inv: "ftl_ok fb" and p: "valid_blk p" "blk_bus p = ucast bus" "blk_chip p = ucast chip"
    and full: "nr_free_pages (blk_of fb p) = 0" and pg: "pg < NUM_PAGES_PER_BLOCK"
    and vic: "get_vic_blk fb (ucast bus) (ucast chip) = Some (Some p)"
    and so: "read_so_far L (l, fb)" and room: "length L + 4 \<le> 1536"
  shows "\<exists>l' fb'. read_vic_page pg chip bus (l, fb) = Some (l', fb') \<and> reads_only fb fb' \<and>
    read_so_far (L @ slot_pairs fb p pg) (l', fb')"
proof -
  let ?b = "blk_of fb p" and ?vs = "valid_slots (blk_of fb p) pg"
  note cnt = valid_slots_count [OF ftl_invD(4) [OF inv p(1)] full pg]
  note n = invalid_count_at [OF p(1) pg, of fb]
  show ?thesis
  proof (cases "?vs = []")
    case True
    then have "NR_LP_IN_PP - pg_nr_invalid_log_pages (list_pages ?b pg) = (0 :: u32)" using cnt(1) by simp
    then have "read_vic_page pg chip bus (l, fb) = Some (l, fb)"
      using vic n by (simp add: read_vic_page_def Let_def)
    then show ?thesis using so True by (simp add: slot_pairs_def)
  next
    case False
    then have pos: "0 < (of_nat (length ?vs) :: u32)"
      using cnt(2) by (simp add: word_less_nat_alt unat_of_nat_u32)
    obtain l' fb1 fb3 where r: "collect_lpas (get_pgi_from_blki p pg) (l, fb) = Some (l', fb1)"
      "gc_vdevice_read bus chip p pg (l', upd_perf fb1 perf_inc_nr_page_reads) = Some (l', fb3)" "reads_only fb fb3"
      "rd_count l' = rd_count l" "rd_data l' = rd_data l"
      "copied (L @ slot_pairs fb p pg) (l'\<lparr>rd_data := rd_data l + length ?vs\<rparr>, fb3)"
      using copy_wordline [OF inv p pg _ room, of l] so by (auto simp: read_so_far_iff)
    let ?l3 = "l'\<lparr>rd_data := rd_data l' + page_span (of_nat (length ?vs)), rd_count := rd_count l' + of_nat (length ?vs)\<rparr>"
    have eq: "read_vic_page pg chip bus (l, fb) = Some (?l3, fb3)"
      using vic n r(1,2) pos by (simp add: read_vic_page_def cnt(1) Let_def)
    moreover have "read_so_far (L @ slot_pairs fb p pg) (?l3, fb3)"
      using r(4-6) so by (simp add: read_so_far_iff page_span_small [OF cnt(2)] slot_pairs_def)
    ultimately show ?thesis using r(3) by blast
  qed
qed

lemma read_vic_page_spec:
  fixes bus chip :: u8
  assumes inv: "ftl_ok fb" and vc: "valid_chip (ucast bus) (ucast chip)" and pg: "pg < NUM_PAGES_PER_BLOCK"
    and vic: "get_vic_blk fb (ucast bus) (ucast chip) = Some v" "full_vic fb (ucast bus) (ucast chip) v"
    and so: "read_so_far L (l, fb)" and room: "length L + 4 \<le> 1536"
  shows "\<exists>l' fb'. read_vic_page pg chip bus (l, fb) = Some (l', fb') \<and> reads_only fb fb' \<and>
    read_so_far (L @ vic_pairs fb v pg) (l', fb')"
proof (cases v)
  case None
  then have "read_vic_page pg chip bus (l, fb) = Some (l, fb)"
    using vic(1) by (simp add: read_vic_page_def)
  then show ?thesis using so None by (simp add: vic_pairs_def)
next
  case (Some p)
  then show ?thesis
    using read_vic_page_some [OF inv _ _ _ _ pg _ so room, of p] vic by (simp add: full_vic_def vic_pairs_def)
qed

section \<open>One pass over the victims\<close>

abbreviation vic_of :: "fb_context_t \<Rightarrow> nat \<Rightarrow> blkptr option" where
  "vic_of fb k \<equiv> vic_blks (ftl_gcm (ptr_mapping_context fb)) ! k"

definition vics_full :: "fb_context_t \<Rightarrow> bool" where
  "vics_full fb \<longleftrightarrow> full_vic fb 0 0 (vic_of fb 0) \<and> full_vic fb 0 1 (vic_of fb 1)"

definition row_pairs :: "fb_context_t \<Rightarrow> u32 \<Rightarrow> (u32 \<times> lpdata) list" where
  "row_pairs fb pg = vic_pairs fb (vic_of fb 0) pg @ vic_pairs fb (vic_of fb 1) pg"

lemma get_vic_blk_01:
  assumes "sizes_ok fb"
  shows "get_vic_blk fb 0 0 = Some (vic_of fb 0)" "get_vic_blk fb 0 1 = Some (vic_of fb 1)"
  using assms by (simp_all add: get_vic_blk_def chip_idx_def ld_nth_def sizes_ok_def geometry_simps
      get_gcm_def get_ftl_def)

lemma reads_only_vics:
  assumes "reads_only fb fb'"
  shows "vic_of fb' k = vic_of fb k" "vics_full fb' = vics_full fb" "row_pairs fb' = row_pairs fb"
  using assms vic_pairs_cong [OF assms]
  by (simp_all add: reads_only_def vics_full_def full_vic_def row_pairs_def fun_eq_iff Let_def)

lemma vic_pairs_short:
  assumes "ftl_ok fb" "full_vic fb bus chip v" "pg < NUM_PAGES_PER_BLOCK"
  shows "length (vic_pairs fb v pg) \<le> 4"
proof (cases v)
  case (Some p)
  then have "valid_blk p" "nr_free_pages (blk_of fb p) = 0" using assms(2) by (simp_all add: full_vic_def)
  then show ?thesis
    using valid_slots_count(2) [OF ftl_invD(4) [OF assms(1)] _ assms(3), of p] Some
    by (simp add: vic_pairs_def slot_pairs_def)
qed (simp add: vic_pairs_def)

lemma read_vic_row:
  assumes inv: "ftl_ok fb" and vics: "vics_full fb" and pg: "pg < NUM_PAGES_PER_BLOCK"
    and so: "read_so_far L (l, fb)" and room: "length L + 8 \<le> 1536"
  shows "\<exists>l' fb'. foldM (\<lambda>chip. foldM (read_vic_page pg chip) (words_below NUM_BUSES))
      (words_below NUM_CHIPS_PER_BUS) (l, fb) = Some (l', fb') \<and> reads_only fb fb' \<and>
    read_so_far (L @ row_pairs fb pg) (l', fb')"
proof -
  note fv = vics [unfolded vics_full_def]
  note D = ftl_invD [OF inv]
  have v: "valid_chip 0 0" "valid_chip 0 1" by (simp_all add: valid_chip_cases)
  obtain l1 fb1 where 1: "read_vic_page pg 0 0 (l, fb) = Some (l1, fb1)" "reads_only fb fb1"
    "read_so_far (L @ vic_pairs fb (vic_of fb 0) pg) (l1, fb1)"
    using read_vic_page_spec [OF inv _ pg _ _ so, of 0 0 "vic_of fb 0"] get_vic_blk_01 [OF D(1)] fv v room
    by auto
  note inv1 = reads_only_inv(1) [OF 1(2) inv]
  have len: "length (L @ vic_pairs fb (vic_of fb 0) pg) + 4 \<le> 1536"
    using vic_pairs_short [OF inv _ pg, of 0 0 "vic_of fb 0"] fv room by simp
  have f1: "full_vic fb1 0 1 (vic_of fb 1)"
    using fv reads_only_vics(1,2) [OF 1(2)] vics by (simp add: vics_full_def)
  obtain l2 fb2 where 2: "read_vic_page pg 1 0 (l1, fb1) = Some (l2, fb2)" "reads_only fb1 fb2"
    "read_so_far ((L @ vic_pairs fb (vic_of fb 0) pg) @ vic_pairs fb1 (vic_of fb 1) pg) (l2, fb2)"
    using read_vic_page_spec [OF inv1 _ pg _ _ 1(3), of 0 1 "vic_of fb 1"] get_vic_blk_01 [OF ftl_invD(1) [OF inv1]]
      f1 v len reads_only_vics(1) [OF 1(2)] by auto
  have "foldM (\<lambda>chip. foldM (read_vic_page pg chip) (words_below NUM_BUSES))
      (words_below NUM_CHIPS_PER_BUS) (l, fb) = Some (l2, fb2)"
    using 1(1) 2(1) by (simp add: words_below_CHIPS)
  then show ?thesis
    using reads_only_trans [OF 1(2) 2(2)] 2(3) vic_pairs_cong [OF 1(2)] by (auto simp: row_pairs_def)
qed

abbreviation all_pairs :: "fb_context_t \<Rightarrow> u32 list \<Rightarrow> (u32 \<times> lpdata) list" where
  "all_pairs fb pgs \<equiv> concat (map (row_pairs fb) pgs)"

lemma all_pairs_short:
  assumes "ftl_ok fb" "vics_full fb" "\<forall>pg \<in> set pgs. pg < NUM_PAGES_PER_BLOCK"
  shows "length (all_pairs fb pgs) \<le> 8 * length pgs"
  using assms(3)
proof (induction pgs)
  case (Cons pg pgs)
  have "length (row_pairs fb pg) \<le> 8"
    using vic_pairs_short [OF assms(1), of 0 0 "vic_of fb 0" pg] vic_pairs_short [OF assms(1), of 0 1 "vic_of fb 1" pg]
      assms(2) Cons.prems by (simp add: row_pairs_def vics_full_def)
  then show ?case using Cons by simp
qed simp

lemma read_vic_pages_spec:
  assumes inv: "ftl_ok fb" and vics: "vics_full fb" and so: "read_so_far [] (l, fb)"
  shows "\<exists>l' fb'. read_vic_pages (l, fb) = Some (l', fb') \<and> reads_only fb fb' \<and>
    read_so_far (all_pairs fb (words_below NUM_PAGES_PER_BLOCK)) (l', fb')"
proof -
  let ?f = "\<lambda>pg. foldM (\<lambda>chip. foldM (read_vic_page pg chip) (words_below NUM_BUSES)) (words_below NUM_CHIPS_PER_BUS)"
  let ?I = "\<lambda>done (l', fb'). reads_only fb fb' \<and> read_so_far (all_pairs fb done) (l', fb')"
  have "\<exists>st. foldM ?f (words_below NUM_PAGES_PER_BLOCK) (l, fb) = Some st \<and> ?I (words_below NUM_PAGES_PER_BLOCK) st"
  proof (rule foldM_rule [where I = ?I])
    show "?I [] (l, fb)" using so by simp
    fix "done" pg rest st
    assume w: "words_below NUM_PAGES_PER_BLOCK = done @ pg # rest" and I: "?I done st"
    obtain l1 fb1 where st: "st = (l1, fb1)" by (cases st)
    have "length (done @ pg # rest) = 192" unfolding w [symmetric] by (simp add: NUM_PAGES_PER_BLOCK_def)
    then have d: "length done < 192" by simp
    have "\<forall>x \<in> set (done @ pg # rest). x < NUM_PAGES_PER_BLOCK" unfolding w [symmetric] by simp
    then have b: "\<forall>x \<in> set done. x < NUM_PAGES_PER_BLOCK" "pg < NUM_PAGES_PER_BLOCK" by auto
    have r: "reads_only fb fb1" "read_so_far (all_pairs fb done) (l1, fb1)" using I st by auto
    have "length (all_pairs fb done) + 8 \<le> 1536" using all_pairs_short [OF inv vics b(1)] d by linarith
    then obtain l2 fb2 where "?f pg (l1, fb1) = Some (l2, fb2)" "reads_only fb1 fb2"
      "read_so_far (all_pairs fb done @ row_pairs fb1 pg) (l2, fb2)"
      using read_vic_row [OF reads_only_inv(1) [OF r(1) inv] _ b(2) r(2)] reads_only_vics(2) [OF r(1)] vics by blast
    then show "\<exists>st'. ?f pg st = Some st' \<and> ?I (done @ [pg]) st'"
      using reads_only_trans [OF r(1)] reads_only_vics(3) [OF r(1)] st by auto
  qed
  then show ?thesis by (auto simp: read_vic_pages_def)
qed

section \<open>The whole loop\<close>

lemma valid_slots_total:
  "(\<Sum>pg\<leftarrow>words_below NUM_PAGES_PER_BLOCK. length (valid_slots b pg)) = card (slots_with PAGE_STATUS_VALID b)"
proof -
  let ?A = "{pg :: u32. pg < NUM_PAGES_PER_BLOCK}"
  let ?B = "\<lambda>pg. {i :: u8. i < NR_LP_IN_PP \<and> bst b pg i = PAGE_STATUS_VALID}"
  have l: "length (valid_slots b pg) = card (?B pg)" for pg
  proof -
    have "distinct (valid_slots b pg)" by (simp add: valid_in_def)
    then have "length (valid_slots b pg) = card (set (valid_slots b pg))" by (rule distinct_card [symmetric])
    then show ?thesis by (simp add: valid_in_def)
  qed
  have "(\<Sum>pg\<leftarrow>words_below NUM_PAGES_PER_BLOCK. card (?B pg)) = (\<Sum>pg\<in>?A. card (?B pg))"
    by (subst sum_list_distinct_conv_sum_set) simp_all
  also have "\<dots> = card (SIGMA pg:?A. ?B pg)" by simp
  also have "(SIGMA pg:?A. ?B pg) = slots_with PAGE_STATUS_VALID b" by (auto simp: slots_with_def)
  finally show ?thesis unfolding l .
qed

definition vcount :: "fb_context_t \<Rightarrow> blkptr option \<Rightarrow> nat" where
  "vcount fb v = (case v of None \<Rightarrow> 0 | Some p \<Rightarrow> card (slots_with PAGE_STATUS_VALID (blk_of fb p)))"

definition to_copy :: "fb_context_t \<Rightarrow> nat" where
  "to_copy fb = vcount fb (vic_of fb 0) + vcount fb (vic_of fb 1)"

lemma to_copy_le: "to_copy fb \<le> 1536"
proof -
  have "vcount fb v \<le> 768" for v
    using card_slots_le by (cases v) (simp_all add: vcount_def)
  from this [of "vic_of fb 0"] this [of "vic_of fb 1"] show ?thesis unfolding to_copy_def by linarith
qed

lemma all_pairs_length: "length (all_pairs fb (words_below NUM_PAGES_PER_BLOCK)) = to_copy fb"
proof -
  have v: "(\<Sum>pg\<leftarrow>words_below NUM_PAGES_PER_BLOCK. length (vic_pairs fb v pg)) = vcount fb v" for v
  proof (cases v)
    case (Some p)
    then show ?thesis
      using valid_slots_total [of "blk_of fb p"] by (simp add: vic_pairs_def slot_pairs_def vcount_def)
  qed (simp add: vic_pairs_def vcount_def)
  have "length (all_pairs fb pgs) = (\<Sum>pg\<leftarrow>pgs. length (vic_pairs fb (vic_of fb 0) pg)) +
      (\<Sum>pg\<leftarrow>pgs. length (vic_pairs fb (vic_of fb 1) pg))" for pgs
    by (induction pgs) (simp_all add: row_pairs_def)
  then show ?thesis using v by (simp add: to_copy_def)
qed

lemma slot_pairs_data:
  assumes inv: "ftl_ok fb" and p: "valid_blk p" "pg < NUM_PAGES_PER_BLOCK" and x: "x \<in> set (slot_pairs fb p pg)"
  shows "is_valid_address_range (fst x) \<and> ftl_data fb (fst x) = Some (snd x)"
proof -
  obtain i where i: "i < NR_LP_IN_PP" "bst (blk_of fb p) pg i = PAGE_STATUS_VALID"
    "x = (blpa (blk_of fb p) pg i, vdata (ptr_vdevice fb) p pg ! unat i)"
    using x by (auto simp: slot_pairs_def valid_in_def)
  note m = map_okD(2) [OF ftl_invD(3) [OF inv] p i(1,2)]
  then show ?thesis
    using i(3) slot_ppa_mapped [OF p i(1)] ppa_slot_slot_ppa [OF p i(1)] by (simp add: ftl_data_def)
qed

lemma all_pairs_data:
  assumes inv: "ftl_ok fb" and vics: "vics_full fb" and x: "x \<in> set (all_pairs fb (words_below NUM_PAGES_PER_BLOCK))"
  shows "is_valid_address_range (fst x) \<and> ftl_data fb (fst x) = Some (snd x)"
proof -
  obtain pg v where pg: "pg < NUM_PAGES_PER_BLOCK" and v: "v = vic_of fb 0 \<or> v = vic_of fb 1"
    "x \<in> set (vic_pairs fb v pg)" using x by (auto simp: row_pairs_def)
  then obtain p where p: "v = Some p" by (cases v) (auto simp: vic_pairs_def)
  have "valid_blk p" using vics v(1) p by (auto simp: vics_full_def full_vic_def)
  then show ?thesis using slot_pairs_data [OF inv _ pg] v(2) p by (simp add: vic_pairs_def)
qed

text \<open>Buffers filled with pages and their contents are ready to be written.\<close>

lemma copied_copies:
  assumes c: "copied L (l, fb)" and M: "\<And>x. x \<in> set L \<Longrightarrow> is_valid_address_range (fst x) \<and> M (fst x) = Some (snd x)"
    and room: "length L \<le> 1536"
  shows "copies (length L) M fb"
proof -
  have t: "take (length L) (cp_lpas fb) = map fst L" "take (length L) (cp_data fb) = map snd L"
    using c by (simp_all add: copied_def)
  have "is_valid_address_range (cp_lpas fb ! j) \<and> M (cp_lpas fb ! j) = Some (cp_data fb ! j)" if j: "j < length L" for j
  proof -
    have "cp_lpas fb ! j = take (length L) (cp_lpas fb) ! j" "cp_data fb ! j = take (length L) (cp_data fb) ! j"
      using j by simp_all
    then have "cp_lpas fb ! j = fst (L ! j)" "cp_data fb ! j = snd (L ! j)"
      unfolding t using j by simp_all
    then show ?thesis using M [of "L ! j"] j by simp
  qed
  then show ?thesis using room by (simp add: copies_def Let_def geometry_simps NR_LP_IN_PP_def)
qed

lemma read_vic_loop_end:
  assumes "nr_pgs_to_copy (ftl_gcm (ptr_mapping_context fb)) \<le> rd_count l"
  shows "read_vic_loop (l, fb) = Some (l, fb)"
proof -
  have "\<not> rd_count l < nr_pgs_to_copy (ftl_gcm (ptr_mapping_context fb))" using assms by (simp add: not_less)
  then show ?thesis by (subst read_vic_loop.simps) (simp add: get_gcm_def get_ftl_def)
qed

lemma get_valid_pgs_spec:
  assumes inv: "ftl_ok fb" and vics: "vics_full fb"
    and n: "nr_pgs_to_copy (ftl_gcm (ptr_mapping_context fb)) = of_nat (to_copy fb)"
  shows "\<exists>fb'. get_valid_pgs_in_vic_blks fb = Some fb' \<and> reads_only fb fb' \<and>
    copies (to_copy fb) (ftl_data fb) fb'"
proof -
  let ?L = "all_pairs fb (words_below NUM_PAGES_PER_BLOCK)"
  have N: "to_copy fb < 2 ^ 32" using to_copy_le [of fb] by simp
  have so: "read_so_far [] (read_start, fb)" by (simp add: read_so_far_def read_start_def NR_LP_IN_PP_def)
  have "\<exists>l' fb'. read_vic_loop (read_start, fb) = Some (l', fb') \<and> reads_only fb fb' \<and>
    read_so_far ?L (l', fb')"
  proof (cases "to_copy fb = 0")
    case True
    then have "?L = []" using all_pairs_length [of fb] by simp
    moreover have "read_vic_loop (read_start, fb) = Some (read_start, fb)"
      by (rule read_vic_loop_end) (simp add: n True)
    ultimately show ?thesis using so by (auto simp del: concat_eq_Nil_conv)
  next
    case False
    obtain l' fb' where r: "read_vic_pages (read_start, fb) = Some (l', fb')" "reads_only fb fb'"
      "read_so_far ?L (l', fb')" using read_vic_pages_spec [OF inv vics so] by blast
    have "0 < (of_nat (to_copy fb) :: u32)"
      using False N by (simp add: word_less_nat_alt unat_of_nat_u32)
    then have "read_vic_loop (read_start, fb) = read_vic_loop (l', fb')"
      using r(1) n by (subst read_vic_loop.simps) (simp add: get_gcm_def get_ftl_def read_start_def)
    also have "\<dots> = Some (l', fb')"
      using r(2,3) n all_pairs_length [of fb]
      by (intro read_vic_loop_end) (simp add: read_so_far_def reads_only_def Let_def del: concat_eq_Nil_conv)
    finally show ?thesis using r by blast
  qed
  then obtain l' fb' where r: "read_vic_loop (read_start, fb) = Some (l', fb')" "reads_only fb fb'"
    "read_so_far ?L (l', fb')" by blast
  have len: "length ?L = to_copy fb" by (rule all_pairs_length)
  have "copies (length ?L) (ftl_data fb) fb'"
    by (rule copied_copies [of _ l']) (use r(3) all_pairs_data [OF inv vics] to_copy_le [of fb] in \<open>simp_all only: read_so_far_iff len simp_thms\<close>)
  then show ?thesis using r(1,2) unfolding len by (auto simp: get_valid_pgs_in_vic_blks_def)
qed

end
