(* ===== verification/FB_Gc_Victims.thy ===== *)
theory FB_Gc_Victims
  imports FB_Gc_Read
begin

text \<open>
  The selection of victim blocks for foreground garbage collection: a victim is a full block of the
  used list of its chip, the number of pages to copy is the number of valid slots of the victims,
  and no chip with both an active and a GC block gets one.
\<close>

section \<open>Searching a block and a list\<close>

text \<open>The first page from \<open>pg\<close> on with a slot that is not invalid, or the number of pages.\<close>

lemma find_first_valid_pg_spec:
  "valid_blk p \<Longrightarrow> \<exists>pg'. find_first_valid_pg s p pg = Some pg' \<and> pg \<le> pg' \<and>
     (pg \<le> NUM_PAGES_PER_BLOCK \<longrightarrow> pg' \<le> NUM_PAGES_PER_BLOCK) \<and>
     (pg' < NUM_PAGES_PER_BLOCK \<longrightarrow> pg_nr_invalid_log_pages (list_pages (blocks s p) pg') < NR_LP_IN_PP) \<and>
     (\<forall>q. pg \<le> q \<longrightarrow> q < pg' \<longrightarrow> NR_LP_IN_PP \<le> pg_nr_invalid_log_pages (list_pages (blocks s p) q))"
proof (induction s p pg rule: find_first_valid_pg.induct)
  case (1 s p pg)
  show ?case
  proof (cases "pg < NUM_PAGES_PER_BLOCK")
    case False
    then show ?thesis by (subst find_first_valid_pg.simps) auto
  next
    case True
    have n: "get_nr_invalid_lps s (get_pgi_from_blki p pg) =
        Some (pg_nr_invalid_log_pages (list_pages (blocks s p) pg))"
      using 1(2) True by (simp add: get_nr_invalid_lps_def get_pgi_from_blki_def st_valid del: ld_page.simps)
    show ?thesis
    proof (cases "pg_nr_invalid_log_pages (list_pages (blocks s p) pg) < NR_LP_IN_PP")
      case found: True
      have "find_first_valid_pg s p pg = Some pg"
        using True found n by (subst find_first_valid_pg.simps) simp
      then show ?thesis using True found by auto
    next
      case False
      obtain pg' where r: "find_first_valid_pg s p (pg + 1) = Some pg'" "pg + 1 \<le> pg'"
        "pg + 1 \<le> NUM_PAGES_PER_BLOCK \<longrightarrow> pg' \<le> NUM_PAGES_PER_BLOCK"
        "pg' < NUM_PAGES_PER_BLOCK \<longrightarrow> pg_nr_invalid_log_pages (list_pages (blocks s p) pg') < NR_LP_IN_PP"
        "\<forall>q. pg + 1 \<le> q \<longrightarrow> q < pg' \<longrightarrow> NR_LP_IN_PP \<le> pg_nr_invalid_log_pages (list_pages (blocks s p) q)"
        using 1 True n False by blast
      have lt: "pg < pg + 1" "pg + 1 \<le> NUM_PAGES_PER_BLOCK"
        using True by (simp_all add: word_less_nat_alt word_le_nat_alt NUM_PAGES_PER_BLOCK_def unat_word_ariths(1))
      have "find_first_valid_pg s p pg = Some pg'"
        using True False n r(1) by (subst find_first_valid_pg.simps) simp
      moreover have "NR_LP_IN_PP \<le> pg_nr_invalid_log_pages (list_pages (blocks s p) q)" if "pg \<le> q" "q < pg'" for q
      proof (cases "q = pg")
        case True
        then show ?thesis using False by simp
      next
        case False
        then have "pg + 1 \<le> q" using that(1) by (simp add: inc_le)
        then show ?thesis using r(5) that(2) by simp
      qed
      moreover have "pg \<le> pg'" using lt r(2) by (auto intro: order_trans less_imp_le)
      ultimately show ?thesis using r(3,4) lt by auto
    qed
  qed
qed

lemma most_invalid_spec:
  assumes "\<forall>p \<in> set xs. valid_blk p"
  shows "\<exists>v n. most_invalid s xs (v0, n0) = Some (v, n) \<and> n0 \<le> n \<and>
    (\<forall>p \<in> set xs. nr_invalid_log_pages (blocks s p) \<le> n) \<and> (n = n0 \<longrightarrow> v = v0) \<and>
    (n0 < n \<longrightarrow> (\<exists>p \<in> set xs. v = Some p \<and> nr_invalid_log_pages (blocks s p) = n))"
  using assms
proof (induction xs arbitrary: v0 n0)
  case Nil
  then show ?case by (simp add: most_invalid_def)
next
  case (Cons q qs)
  let ?k = "\<lambda>p. nr_invalid_log_pages (blocks s p)"
  define v1 n1 where 1: "v1 = (if ?k q > n0 then Some q else v0)" "n1 = (if ?k q > n0 then ?k q else n0)"
  have step: "most_invalid s (q # qs) (v0, n0) = most_invalid s qs (v1, n1)"
    using Cons.prems by (simp add: most_invalid_def get_nr_invalid_lps_in_blk_def st_valid 1)
  obtain v n where r: "most_invalid s qs (v1, n1) = Some (v, n)" "n1 \<le> n" "\<forall>p \<in> set qs. ?k p \<le> n"
    "n = n1 \<longrightarrow> v = v1" "n1 < n \<longrightarrow> (\<exists>p \<in> set qs. v = Some p \<and> ?k p = n)"
    using Cons.IH [of v1 n1] Cons.prems by auto
  have n1: "n0 \<le> n1" "?k q \<le> n1" unfolding 1 by auto
  have "n = n0 \<longrightarrow> v = v0"
  proof
    assume e: "n = n0"
    then have "n1 = n0" using n1(1) r(2) by simp
    then show "v = v0" using r(4) e by (auto simp: 1 split: if_splits)
  qed
  moreover have "\<exists>p \<in> set (q # qs). v = Some p \<and> ?k p = n" if "n0 < n"
  proof (cases "n1 < n")
    case True
    then show ?thesis using r(5) by auto
  next
    case False
    then have e: "n = n1" using r(2) by simp
    then have "?k q > n0" using that by (auto simp: 1 split: if_splits)
    then show ?thesis using r(4) e by (simp add: 1)
  qed
  moreover have "n0 \<le> n" "?k q \<le> n" using n1 r(2) by (blast intro: order_trans)+
  ultimately show ?case using r(1,3) step by auto
qed

text \<open>What victim selection changes: the victims, where to start reading them, and the number of pages to copy.\<close>

definition vic_frame :: "fb_context_t \<Rightarrow> fb_context_t \<Rightarrow> bool" where
  "vic_frame fb fb' \<longleftrightarrow> (\<exists>vs fs n. length vs = length (vic_blks (ftl_gcm (ptr_mapping_context fb))) \<and>
     length fs = length (first_valid_pg (ftl_gcm (ptr_mapping_context fb))) \<and>
     fb' = upd_gcm fb (\<lambda>g. g\<lparr>vic_blks := vs, first_valid_pg := fs, nr_pgs_to_copy := n\<rparr>))"

lemma vic_frame_refl [simp]: "vic_frame fb fb"
  unfolding vic_frame_def
  by (rule exI [of _ "vic_blks (ftl_gcm (ptr_mapping_context fb))"],
      rule exI [of _ "first_valid_pg (ftl_gcm (ptr_mapping_context fb))"],
      rule exI [of _ "nr_pgs_to_copy (ftl_gcm (ptr_mapping_context fb))"]) (simp add: put_defs)

lemma vic_frame_trans [trans]: "vic_frame fb fb' \<Longrightarrow> vic_frame fb' fb'' \<Longrightarrow> vic_frame fb fb''"
  unfolding vic_frame_def by (elim exE conjE, intro exI conjI) (auto simp: put_defs)

lemma vic_frame_fields:
  assumes "vic_frame fb fb'"
  shows "ftl_inv pt ex fb \<Longrightarrow> ftl_inv pt ex fb'" "ftl_data fb' = ftl_data fb" "gframe fb fb'"
    "ptr_ssd_info fb' = ptr_ssd_info fb" "act_of fb' = act_of fb" "gc_of fb' = gc_of fb"
    "ptr_vdevice fb' = ptr_vdevice fb"
proof -
  obtain vs fs n where f: "length vs = length (vic_blks (ftl_gcm (ptr_mapping_context fb)))"
     "length fs = length (first_valid_pg (ftl_gcm (ptr_mapping_context fb)))"
     "fb' = upd_gcm fb (\<lambda>g. g\<lparr>vic_blks := vs, first_valid_pg := fs, nr_pgs_to_copy := n\<rparr>)"
    using assms by (auto simp: vic_frame_def)
  show "ftl_inv pt ex fb'" if i: "ftl_inv pt ex fb"
    using ftl_invD(1) [OF i] f by (intro ftl_inv_cong [OF i]) (simp_all add: put_defs sizes_ok_def)
  show "ftl_data fb' = ftl_data fb" using f by (intro ftl_data_eqI) (simp_all add: put_defs)
  show "gframe fb fb'" "ptr_ssd_info fb' = ptr_ssd_info fb" "act_of fb' = act_of fb" "gc_of fb' = gc_of fb"
    "ptr_vdevice fb' = ptr_vdevice fb"
    using f by (simp_all add: put_defs gframe_def act_of_def gc_of_def fun_eq_iff)
qed

section \<open>One chip\<close>

abbreviation nr_copy :: "fb_context_t \<Rightarrow> u32" where
  "nr_copy fb \<equiv> nr_pgs_to_copy (ftl_gcm (ptr_mapping_context fb))"

lemma set_vic_blk_eq:
  assumes "sizes_ok fb" "valid_chip bus chip"
  shows "set_vic_blk fb bus chip v = Some (upd_gcm fb (\<lambda>g. g\<lparr>vic_blks := (vic_blks g)[chip_idx bus chip := v]\<rparr>))"
    "set_first_valid_pg fb bus chip pg =
      Some (upd_gcm fb (\<lambda>g. g\<lparr>first_valid_pg := (first_valid_pg g)[chip_idx bus chip := pg]\<rparr>))"
  using assms chip_idx_less [OF assms(2)]
  by (simp_all add: set_vic_blk_def set_first_valid_pg_def st_nth_def sizes_ok_def put_defs)

lemma all_dead_no_valid: "all_dead b \<Longrightarrow> slots_with PAGE_STATUS_VALID b = {}"
  by (auto simp: all_dead_def slots_with_def)

lemma select_vic_blk_greedy_spec:
  assumes inv: "ftl_ok fb" and vc: "valid_chip bus chip"
  shows "\<exists>v. select_vic_blk_greedy (ptr_ssd_info fb) bus chip = Some v \<and>
    (v = None \<longleftrightarrow> dirt_blks (chip_of fb bus chip) = [] \<and>
      (\<forall>p \<in> set (used_blks (chip_of fb bus chip)). nr_invalid_log_pages (blk_of fb p) = 0)) \<and>
    (\<forall>p. v = Some p \<longrightarrow> valid_blk p \<and> blk_bus p = bus \<and> blk_chip p = chip \<and>
      (p \<in> set (dirt_blks (chip_of fb bus chip)) \<or> p \<in> set (used_blks (chip_of fb bus chip)) \<and>
        dirt_blks (chip_of fb bus chip) = [] \<and> (\<forall>q \<in> set (used_blks (chip_of fb bus chip)).
          nr_invalid_log_pages (blk_of fb q) \<le> nr_invalid_log_pages (blk_of fb p))))"
proof -
  note D = ftl_invD [OF inv]
  have R: "set (roles (chip_of fb bus chip) (act_of fb bus chip) (gc_of fb bus chip)) =
      {p. valid_blk p \<and> blk_bus p = bus \<and> blk_chip p = chip}"
    by (rule chip_part_roles(2) [OF D(7) [OF vc] vc])
  have d: "get_dirt_block (ptr_ssd_info fb) bus chip = Some (list_head (dirt_blks (chip_of fb bus chip)))"
    using vc by (simp add: get_dirt_block_def get_chip_info_def st_valid)
  show ?thesis
  proof (cases "dirt_blks (chip_of fb bus chip)")
    case (Cons p ps)
    then have "p \<in> set (roles (chip_of fb bus chip) (act_of fb bus chip) (gc_of fb bus chip))"
      by (simp add: roles_def)
    then show ?thesis using d Cons R by (simp add: select_vic_blk_greedy_def)
  next
    case Nil
    let ?u = "used_blks (chip_of fb bus chip)"
    have vb: "\<forall>p \<in> set ?u. valid_blk p \<and> blk_bus p = bus \<and> blk_chip p = chip"
      using R by (auto simp: roles_def)
    obtain v n where r: "most_invalid (ptr_ssd_info fb) ?u (None, 0) = Some (v, n)"
      "\<forall>p \<in> set ?u. nr_invalid_log_pages (blk_of fb p) \<le> n" "n = 0 \<longrightarrow> v = None"
      "0 < n \<longrightarrow> (\<exists>p \<in> set ?u. v = Some p \<and> nr_invalid_log_pages (blk_of fb p) = n)"
      using most_invalid_spec [of ?u "ptr_ssd_info fb" None 0] vb by auto
    have "select_vic_blk_greedy (ptr_ssd_info fb) bus chip = Some v"
      using d Nil r(1) vc by (simp add: select_vic_blk_greedy_def st_valid)
    then show ?thesis
      using r(2-4) Nil vb by (cases "n = 0") (auto simp: word_gt_0)
  qed
qed

lemma full_vic_none [simp]: "full_vic fb bus chip None"
  by (simp add: full_vic_def)

lemma vcount_none [simp]: "vcount fb None = 0"
  by (simp add: vcount_def)

lemma set_vic_blks_chip_spec:
  assumes inv: "ftl_ok fb" and vc: "valid_chip bus chip"
  shows "\<exists>r fb'. set_vic_blks_chip bus chip fb = Some (r, fb') \<and> vic_frame fb fb' \<and> (r = None \<or> r = Some (-1)) \<and>
    (\<forall>k. k \<noteq> chip_idx bus chip \<longrightarrow> vic_of fb' k = vic_of fb k) \<and>
    (r = None \<longrightarrow> full_vic fb bus chip (vic_of fb' (chip_idx bus chip)) \<and>
      nr_copy fb' = nr_copy fb + of_nat (vcount fb (vic_of fb' (chip_idx bus chip))))"
proof -
  note D = ftl_invD [OF inv]
  let ?k = "chip_idx bus chip"
  have k: "?k < length (vic_blks (ftl_gcm (ptr_mapping_context fb)))"
    using D(1) chip_idx_less [OF vc] by (simp add: sizes_ok_def)
  note get = get_curr_gc_block_eq [OF D(1) vc] get_curr_active_block_eq [OF D(1) vc]
  let ?skip = "upd_gcm fb (\<lambda>g. g\<lparr>vic_blks := (vic_blks g)[?k := None]\<rparr>)"
  have skip: "vic_frame fb ?skip" "vic_of ?skip ?k = None" "nr_copy ?skip = nr_copy fb"
    "\<And>j. j \<noteq> ?k \<Longrightarrow> vic_of ?skip j = vic_of fb j"
    unfolding vic_frame_def using k
    by (auto simp: put_defs intro!: exI [of _ "(vic_blks (ftl_gcm (ptr_mapping_context fb)))[?k := None]"]
        exI [of _ "first_valid_pg (ftl_gcm (ptr_mapping_context fb))"] exI [of _ "nr_copy fb"])
  show ?thesis
  proof (cases "gc_of fb bus chip \<noteq> None \<and> act_of fb bus chip \<noteq> None")
    case True
    then have "set_vic_blks_chip bus chip fb = Some (None, ?skip)"
      using get set_vic_blk_eq(1) [OF D(1) vc] by (simp add: set_vic_blks_chip_def)
    then show ?thesis using skip by auto
  next
    case False
    obtain v where v: "select_vic_blk_greedy (ptr_ssd_info fb) bus chip = Some v"
      "\<And>p. v = Some p \<Longrightarrow> valid_blk p \<and> blk_bus p = bus \<and> blk_chip p = chip \<and>
        (p \<in> set (dirt_blks (chip_of fb bus chip)) \<or> p \<in> set (used_blks (chip_of fb bus chip)))"
      using select_vic_blk_greedy_spec [OF inv vc] by blast
    have alt: "set_vic_blks_chip bus chip fb = (case v of
         None \<Rightarrow> Some (Some (-1), fb)
       | Some p \<Rightarrow> do {
           n \<leftarrow> get_nr_valid_lps_in_blk (ptr_ssd_info fb) p;
           (blki, fb) \<leftarrow> (if n = 0 then Some (None, fb) else do {
               let fb = upd_gcm fb (\<lambda>g. g\<lparr>nr_pgs_to_copy := nr_pgs_to_copy g + n\<rparr>);
               pg \<leftarrow> find_first_valid_pg (get_ssd_inf fb) p 0;
               fb \<leftarrow> set_first_valid_pg fb bus chip pg;
               Some (Some p, fb) });
           fb \<leftarrow> set_vic_blk fb bus chip blki;
           Some (None, fb) })"
      using get False v(1) unfolding set_vic_blks_chip_def by (auto simp: get_ssd_inf_def)
    show ?thesis
    proof (cases v)
      case None
      then show ?thesis using alt by auto
    next
      case (Some p)
      note p = v(2) [OF Some]
      let ?n = "nr_valid_log_pages (blk_of fb p)"
      have n: "get_nr_valid_lps_in_blk (ptr_ssd_info fb) p = Some ?n"
        using p by (simp add: get_nr_valid_lps_in_blk_def st_valid)
      show ?thesis
      proof (cases "?n = 0")
        case True
        then have "set_vic_blks_chip bus chip fb = Some (None, ?skip)"
          unfolding alt using Some n set_vic_blk_eq(1) [OF D(1) vc] by simp
        then show ?thesis using skip by auto
      next
        case False
        have wf: "blk_wf 0 (blk_of fb p)" using D(4) p by blast
        then have "slots_with PAGE_STATUS_VALID (blk_of fb p) \<noteq> {}" using no_valid_count [OF wf] False by simp
        then have "\<not> all_dead (blk_of fb p)" using all_dead_no_valid by blast
        then have "p \<in> set (used_blks (chip_of fb bus chip))" using D(8) [OF vc] p by (auto simp: roles_ok_def)
        then have fp: "nr_free_pages (blk_of fb p) = 0" using D(8) [OF vc] by (auto simp: roles_ok_def)
        obtain pg where pg: "find_first_valid_pg (ptr_ssd_info fb) p 0 = Some pg"
          using find_first_valid_pg_spec p by blast
        let ?fb1 = "upd_gcm fb (\<lambda>g. g\<lparr>nr_pgs_to_copy := nr_pgs_to_copy g + ?n\<rparr>)"
        have s1: "sizes_ok ?fb1" using D(1) by (simp add: sizes_ok_def put_defs)
        let ?fb2 = "upd_gcm ?fb1 (\<lambda>g. g\<lparr>first_valid_pg := (first_valid_pg g)[?k := pg]\<rparr>)"
        have s2: "sizes_ok ?fb2" using s1 by (simp add: sizes_ok_def put_defs)
        let ?fb3 = "upd_gcm ?fb2 (\<lambda>g. g\<lparr>vic_blks := (vic_blks g)[?k := Some p]\<rparr>)"
        have s: "ptr_ssd_info ?fb1 = ptr_ssd_info fb" by (simp add: put_defs)
        have "set_vic_blks_chip bus chip fb = Some (None, ?fb3)"
          unfolding alt using Some n False pg s set_vic_blk_eq(1) [OF s2 vc] set_vic_blk_eq(2) [OF s1 vc]
          by (simp add: get_ssd_inf_def Let_def)
        moreover have "vic_frame fb ?fb3"
          unfolding vic_frame_def
          by (rule exI [of _ "(vic_blks (ftl_gcm (ptr_mapping_context fb)))[?k := Some p]"],
              rule exI [of _ "(first_valid_pg (ftl_gcm (ptr_mapping_context fb)))[?k := pg]"],
              rule exI [of _ "nr_copy fb + ?n"]) (simp add: put_defs)
        moreover have "vic_of ?fb3 ?k = Some p" "nr_copy ?fb3 = nr_copy fb + ?n" "\<And>j. j \<noteq> ?k \<Longrightarrow> vic_of ?fb3 j = vic_of fb j"
          using k by (simp_all add: put_defs)
        ultimately show ?thesis
          using p fp blk_wfD(1) [OF wf] by (simp add: full_vic_def vcount_def)
      qed
    qed
  qed
qed

section \<open>Both chips\<close>

lemma idx01 [simp]: "chip_idx 0 0 = 0" "chip_idx 0 1 = 1"
  by (simp_all add: chip_idx_def geometry_simps)

lemma chips01 [simp]: "valid_chip 0 0" "valid_chip 0 1"
  by (simp_all add: valid_chip_cases)

lemma vcount_frame: "vic_frame fb fb' \<Longrightarrow> vcount fb' = vcount fb"
  by (simp add: vcount_def fun_eq_iff vic_frame_fields(4) split: option.split)

lemma full_vic_frame: "vic_frame fb fb' \<Longrightarrow> full_vic fb' = full_vic fb"
  by (simp add: full_vic_def fun_eq_iff vic_frame_fields(4))

lemma set_vic_blks_spec:
  assumes inv: "ftl_ok fb" and z: "nr_copy fb = 0"
  shows "\<exists>r fb'. set_vic_blks fb = Some (r, fb') \<and> vic_frame fb fb' \<and> (r = 0 \<or> r = -1) \<and>
    (r = 0 \<longrightarrow> vics_full fb' \<and> nr_copy fb' = of_nat (to_copy fb'))"
proof -
  obtain r1 fb1 where 1: "set_vic_blks_chip 0 0 fb = Some (r1, fb1)" "vic_frame fb fb1" "r1 = None \<or> r1 = Some (-1)"
    "r1 = None \<longrightarrow> full_vic fb 0 0 (vic_of fb1 0) \<and> nr_copy fb1 = of_nat (vcount fb (vic_of fb1 0))"
    using set_vic_blks_chip_spec [OF inv, of 0 0] z by auto
  note inv1 = vic_frame_fields(1) [OF 1(2) inv]
  obtain r2 fb2 where 2: "set_vic_blks_chip 0 1 fb1 = Some (r2, fb2)" "vic_frame fb1 fb2" "r2 = None \<or> r2 = Some (-1)"
    "vic_of fb2 0 = vic_of fb1 0"
    "r2 = None \<longrightarrow> full_vic fb1 0 1 (vic_of fb2 1) \<and> nr_copy fb2 = nr_copy fb1 + of_nat (vcount fb1 (vic_of fb2 1))"
    using set_vic_blks_chip_spec [OF inv1, of 0 1] by auto
  show ?thesis
  proof (cases r1)
    case (Some e)
    then have "set_vic_blks fb = Some (-1, fb1)"
      using 1(1,3) by (simp add: set_vic_blks_def words_below_CHIPS int_of_ret_def)
    then show ?thesis using 1(2) by auto
  next
    case None
    then have eq: "set_vic_blks fb = Some (int_of_ret r2, fb2)"
      using 1(1) 2(1) by (cases r2) (simp_all add: set_vic_blks_def words_below_CHIPS)
    note fr = vic_frame_trans [OF 1(2) 2(2)]
    show ?thesis
    proof (cases r2)
      case None
      have "vics_full fb2" using 1(4) 2(4,5) \<open>r1 = None\<close> None full_vic_frame [OF 1(2)] full_vic_frame [OF fr]
        by (simp add: vics_full_def)
      moreover have "nr_copy fb2 = of_nat (to_copy fb2)"
        using 1(4) 2(4,5) \<open>r1 = None\<close> None vcount_frame [OF 1(2)] vcount_frame [OF fr] by (simp add: to_copy_def)
      ultimately show ?thesis using eq None fr by (auto simp: int_of_ret_def)
    next
      case (Some e)
      then show ?thesis using eq 2(3) fr by (auto simp: int_of_ret_def)
    qed
  qed
qed

end
