(* ===== verification/FB_Gc_Spec.thy ===== *)
theory FB_Gc_Spec
  imports FB_Gc_Victims
begin

text \<open>
  Foreground garbage collection as a whole: turning GC blocks into active blocks, refilling the GC
  blocks from the dirty lists, and \<open>trigger_gc_page_mapping\<close>.
\<close>

section \<open>Steps that keep the data\<close>

text \<open>A state that garbage collection may reach without losing data.\<close>

definition gc_step :: "fb_context_t \<Rightarrow> fb_context_t \<Rightarrow> bool" where
  "gc_step fb fb' \<longleftrightarrow> ftl_ok fb' \<and> ftl_data fb' = ftl_data fb \<and> gframe fb fb'"

lemma gc_step_refl: "ftl_ok fb \<Longrightarrow> gc_step fb fb"
  by (simp add: gc_step_def)

lemma gc_step_trans [trans]: "gc_step fb fb' \<Longrightarrow> gc_step fb' fb'' \<Longrightarrow> gc_step fb fb''"
  by (auto simp: gc_step_def intro: gframe_trans)

section \<open>Erasing the GC block of a chip\<close>

text \<open>The state after a GC block was erased and made the active block of its chip.\<close>

definition opened_blk :: "flash_block \<Rightarrow> flash_block" where
  "opened_blk b = (wipe_block b)\<lparr>nr_erase_cnt := nr_erase_cnt b + 1, is_active_block := 1\<rparr>"

lemma opened_blk_fields:
  "blank_block (opened_blk b)" "no_bus (opened_blk b) = no_bus b" "no_chip (opened_blk b) = no_chip b"
  "no_block (opened_blk b) = no_block b" "nr_free_pages (opened_blk b) = NUM_PAGES_PER_BLOCK"
  using wipe_block_blank [of b]
  by (simp_all add: opened_blk_def blank_block_def)

lemma gc_block_valid:
  assumes inv: "ftl_inv pt ex fb" and vc: "valid_chip bus chip" and gc: "gc_of fb bus chip = Some p"
  shows "valid_blk p" "blk_bus p = bus" "blk_chip p = chip" "p = Blk bus chip (blk_no p)"
proof -
  have "p \<in> set (roles (chip_of fb bus chip) (act_of fb bus chip) (gc_of fb bus chip))"
    using gc by (simp add: roles_def)
  then show v: "valid_blk p" "blk_bus p = bus" "blk_chip p = chip"
    using chip_part_roles(2) [OF ftl_invD(7) [OF inv vc] vc] by auto
  then show "p = Blk bus chip (blk_no p)" by (cases p) simp
qed

lemma gc_block_no_valid:
  assumes inv: "ftl_ok fb" and vc: "valid_chip bus chip" and gc: "gc_of fb bus chip = Some p"
    and pg: "pg < NUM_PAGES_PER_BLOCK" "i < NR_LP_IN_PP"
  shows "bst (blk_of fb p) pg i \<noteq> PAGE_STATUS_VALID"
proof
  assume v: "bst (blk_of fb p) pg i = PAGE_STATUS_VALID"
  note g = gc_block_valid [OF inv vc gc]
  show False
    using valid_slot_role [OF inv g(1) pg v] g gc
      roles_distinct(5,7) [OF chip_part_roles(1) [OF ftl_invD(7) [OF inv vc]], of p] by auto
qed

lemma erase_blk_eq:
  fixes bus chip :: u8
  assumes p: "valid_blk p" "blk_bus p = ucast bus" "blk_chip p = ucast chip" and no: "no_block (blk_of fb p) = blk_no p"
  shows "\<exists>v. erase_blk fb bus chip p = Some (upd_perf (put_ssd (fb\<lparr>ptr_vdevice := v\<rparr>)
      (set_blk (ptr_ssd_info fb) p ((wipe_block (blk_of fb p))\<lparr>nr_erase_cnt := nr_erase_cnt (blk_of fb p) + 1\<rparr>)))
        perf_inc_nr_blk_erasures) \<and>
    (\<forall>q pg. q \<noteq> p \<longrightarrow> vdata v q pg = vdata (ptr_vdevice fb) q pg) \<and>
    (\<forall>pg < NUM_PAGES_PER_BLOCK. length (vdata v p pg) = NR_LP_IN_PP) \<and> silent (ptr_vdevice fb) v"
proof -
  have pe: "Blk (ucast bus) (ucast chip) (blk_no p) = p" using p(2,3) by (cases p) simp
  have vw: "valid_wordline bus chip (blk_no p) 0"
    using p(1) by (simp add: valid_wordline_def pe NUM_PAGES_PER_BLOCK_def)
  let ?v = "issue ((ptr_vdevice fb)\<lparr>vdata := (vdata (ptr_vdevice fb))(p := (\<lambda>page. if page < NUM_PAGES_PER_BLOCK
      then replicate NR_LP_IN_PP erased_page else vdata (ptr_vdevice fb) p page))\<rparr>) bus (ucast chip) OP_BERS None"
  have v: "vdevice_erase (ptr_vdevice fb) bus chip (blk_no p) None = Some ?v"
    using vw by (simp add: vdevice_erase_def pe Let_def)
  have "erase_blk fb bus chip p = Some (upd_perf (put_ssd (fb\<lparr>ptr_vdevice := ?v\<rparr>)
      (set_blk (ptr_ssd_info fb) p ((wipe_block (blk_of fb p))\<lparr>nr_erase_cnt := nr_erase_cnt (blk_of fb p) + 1\<rparr>)))
        perf_inc_nr_blk_erasures)"
    using v p(1) no init_blk_inf_eq [OF p(1)]
    by (simp add: erase_blk_def get_ssd_inf_def get_vdev_def st_valid ssd_do_def ssd_upd_def
        inc_bers_cnt_def set_blk_def put_ssd_def upd_perf_def Let_def)
  moreover have "silent (ptr_vdevice fb) ?v" by (rule silent_issue [OF vw]) simp
  ultimately show ?thesis by (intro exI [of _ ?v]) (simp add: issue_def)
qed

text \<open>
  Replacing a GC block, which holds no valid slot, by a blank one keeps the invariant and the contents, wherever
  the block goes.
\<close>

lemma erased_keeps:
  fixes f :: "perf \<Rightarrow> perf"
  assumes inv: "ftl_ok fb" and vc: "valid_chip b c" and gc: "gc_of fb b c = Some p"
    and other: "\<And>q pg. q \<noteq> p \<Longrightarrow> vdata v q pg = vdata (ptr_vdevice fb) q pg"
    and len: "\<And>pg. pg < NUM_PAGES_PER_BLOCK \<Longrightarrow> length (vdata v p pg) = NR_LP_IN_PP"
    and sl: "silent (ptr_vdevice fb) v"
    and blank: "blank_block B'" "no_bus B' = no_bus (blk_of fb p)" "no_chip B' = no_chip (blk_of fb p)"
      "no_block B' = no_block (blk_of fb p)"
    and fr: "frame (upd_perf (fb\<lparr>ptr_vdevice := v\<rparr>) f) fb'" and B: "blk_of fb' = (blk_of fb)(p := B')" and L: "l2p fb' = l2p fb"
    and away: "\<And>b' c'. \<not> (b' = b \<and> c' = c) \<Longrightarrow> chip_of fb' b' c' = chip_of fb b' c' \<and> act_of fb' b' c' = act_of fb b' c' \<and>
      gc_of fb' b' c' = gc_of fb b' c'"
    and part: "chip_part b c (chip_of fb' b c) (act_of fb' b c) (gc_of fb' b c)"
    and roles: "roles_ok (blk_of fb') {} (chip_of fb' b c) (act_of fb' b c) (gc_of fb' b c)"
  shows "gc_step fb fb'"
proof -
  note g = gc_block_valid [OF inv vc gc] and nv = gc_block_no_valid [OF inv vc gc]
  let ?fb1 = "upd_perf (fb\<lparr>ptr_vdevice := v\<rparr>) f"
  have len1: "length (vdata v q w) = NR_LP_IN_PP" if "valid_blk q" "w < NUM_PAGES_PER_BLOCK" for q w
    using that other [of q w] len [of w] ftl_invD(1) [OF inv] by (cases "q = p") (simp_all add: sizes_ok_def)
  have s1: "sizes_ok ?fb1" using ftl_invD(1) [OF inv] len1 by (simp add: sizes_ok_def upd_perf_def)
  have inv1: "ftl_ok ?fb1" by (rule ftl_inv_cong [OF inv s1]) (simp_all add: upd_perf_def)
  have d1: "ftl_data ?fb1 = ftl_data fb"
  proof (rule ftl_data_cong [OF inv])
    fix q w i
    assume "w < NUM_PAGES_PER_BLOCK" "i < NR_LP_IN_PP" "bst (blk_of fb q) w i = PAGE_STATUS_VALID"
    then have "q \<noteq> p" using nv by blast
    then show "vdata (ptr_vdevice ?fb1) q w = vdata (ptr_vdevice fb) q w" using other by (simp add: upd_perf_def)
  qed (simp add: upd_perf_def)
  have E: "blk_of ?fb1 = blk_of fb" "l2p ?fb1 = l2p fb" "chip_of ?fb1 = chip_of fb" "act_of ?fb1 = act_of fb" "gc_of ?fb1 = gc_of fb"
    by (simp_all add: upd_perf_def act_of_def gc_of_def fun_eq_iff)
  note D0 = ftl_invD [OF inv]
  have free: "bst B' w i = PAGE_STATUS_FREE" if "w < NUM_PAGES_PER_BLOCK" "i < NR_LP_IN_PP" for w i
    using blank(1) that by (simp add: blank_block_def blank_page_def)
  have "ftl_ok fb'"
  proof (rule ftl_inv_local [OF inv1 vc fr])
    show "l2p fb' = l2p ?fb1" using L E by simp
    show "ids_ok (blk_of fb')" using D0(2) blank by (simp add: B ids_ok_def)
    show "blk_wf 0 (blk_of fb' q)" if "valid_blk q" for q
      using D0(4) [OF that] blk_wf_blank [OF blank(1)] by (simp add: B)
    show "map_ok (blk_of fb') (l2p ?fb1)"
      unfolding E(2) by (rule map_ok_same_valid [OF D0(3)]) (use nv free in \<open>auto simp: B\<close>)
    show "nr_free_pages (blk_of fb' q) = nr_free_pages (blk_of ?fb1 q) \<and> all_dead (blk_of fb' q) = all_dead (blk_of ?fb1 q)"
      if "\<not> (blk_bus q = b \<and> blk_chip q = c)" for q
      using that g by (auto simp: B E)
    show "chip_of fb' b' c' = chip_of ?fb1 b' c' \<and> act_of fb' b' c' = act_of ?fb1 b' c' \<and> gc_of fb' b' c' = gc_of ?fb1 b' c'"
      if "\<not> (b' = b \<and> c' = c)" for b' c' using away [OF that] by (simp add: E)
  qed (use part roles in simp_all)
  moreover have "vdata (ptr_vdevice fb') = vdata (ptr_vdevice ?fb1)" using fr by (simp add: frame_def Let_def)
  then have "ftl_data fb' = ftl_data fb" using ftl_data_eqI [of fb' ?fb1] L E d1 by simp
  moreover have "gframe fb fb'" using frame_gframe [OF fr] sl by (auto simp: gframe_def upd_perf_def intro: silent_trans)
  ultimately show ?thesis by (simp add: gc_step_def)
qed

text \<open>The two places it goes to: the active block of a chip that has none, or the end of the free list.\<close>

lemma erased_state:
  fixes f :: "perf \<Rightarrow> perf"
  assumes inv: "ftl_ok fb" and vc: "valid_chip b c" and act: "act_of fb b c = None" and gc: "gc_of fb b c = Some p"
    and other: "\<And>q pg. q \<noteq> p \<Longrightarrow> vdata v q pg = vdata (ptr_vdevice fb) q pg"
    and len: "\<And>pg. pg < NUM_PAGES_PER_BLOCK \<Longrightarrow> length (vdata v p pg) = NR_LP_IN_PP"
    and sl: "silent (ptr_vdevice fb) v"
  defines "fb' \<equiv> put_gc (put_act (upd_perf (put_ssd (fb\<lparr>ptr_vdevice := v\<rparr>)
      (set_blk (ptr_ssd_info fb) p (opened_blk (blk_of fb p)))) f) b c (Some p)) b c None"
  shows "gc_step fb fb'" "blk_of fb' = (blk_of fb)(p := opened_blk (blk_of fb p))"
    "act_of fb' = (\<lambda>b' c'. if b' = b \<and> c' = c then Some p else act_of fb b' c')"
    "gc_of fb' = (\<lambda>b' c'. if b' = b \<and> c' = c then None else gc_of fb b' c')"
proof -
  let ?fb1 = "upd_perf (fb\<lparr>ptr_vdevice := v\<rparr>) f"
  let ?b = "opened_blk (blk_of fb p)"
  have alt: "fb' = put_gc (put_act (put_ssd ?fb1 (set_blk (ptr_ssd_info ?fb1) p ?b)) b c (Some p)) b c None"
    by (simp add: fb'_def upd_perf_def put_defs)
  note D0 = ftl_invD [OF inv]
  have len1: "length (vdata v q w) = NR_LP_IN_PP" if "valid_blk q" "w < NUM_PAGES_PER_BLOCK" for q w
    using that other [of q w] len [of w] D0(1) by (cases "q = p") (simp_all add: sizes_ok_def)
  have s1: "sizes_ok ?fb1" using D0(1) len1 by (simp add: sizes_ok_def upd_perf_def)
  have sz: "sizes_ok (put_ssd ?fb1 s)" "sizes_ok (put_act (put_ssd ?fb1 s) b c x)" for s x
    by (rule frame_sizes [OF _ s1], simp)+
  show B: "blk_of fb' = (blk_of fb)(p := ?b)" unfolding alt by (simp add: upd_perf_def)
  have C: "chip_of fb' = chip_of fb" unfolding alt by (simp add: upd_perf_def)
  show A: "act_of fb' = (\<lambda>b' c'. if b' = b \<and> c' = c then Some p else act_of fb b' c')"
    unfolding alt by (simp add: fun_eq_iff act_of_put_act [OF sz(1) vc]) (simp add: act_of_def upd_perf_def)
  show G: "gc_of fb' = (\<lambda>b' c'. if b' = b \<and> c' = c then None else gc_of fb b' c')"
    unfolding alt by (simp add: fun_eq_iff gc_of_put_gc [OF sz(2) vc]) (simp add: gc_of_def upd_perf_def)
  have L: "l2p fb' = l2p fb" unfolding alt by (simp add: upd_perf_def)
  have part: "chip_part b c (chip_of fb b c) None (Some p)" using D0(7) [OF vc] act gc by simp
  note R = roles_distinct [OF chip_part_roles(1) [OF part]]
  have np: "p \<notin> set (free_blks (chip_of fb b c))" "p \<notin> set (used_blks (chip_of fb b c))" "p \<notin> set (dirt_blks (chip_of fb b c))"
    using R(4-6) [of p] by auto
  show "gc_step fb fb'"
  proof (rule erased_keeps [OF inv vc gc other len sl opened_blk_fields(1-4) _ B])
    show "frame ?fb1 fb'" unfolding alt by simp
    show "chip_part b c (chip_of fb' b c) (act_of fb' b c) (gc_of fb' b c)"
      using chip_moves(6) [OF part] by (simp add: A G C)
    show "roles_ok (blk_of fb') {} (chip_of fb' b c) (act_of fb' b c) (gc_of fb' b c)"
      using D0(8) [OF vc] act gc opened_blk_fields(5) [of "blk_of fb p"] np
      by (auto simp: roles_ok_def A G C B NUM_PAGES_PER_BLOCK_def)
  qed (use L in \<open>auto simp: A G C\<close>)
qed

definition freed_blk :: "flash_block \<Rightarrow> flash_block" where
  "freed_blk b = (wipe_block b)\<lparr>nr_erase_cnt := nr_erase_cnt b + 1\<rparr>"

lemma freed_blk_fields:
  "blank_block (freed_blk b)" "no_bus (freed_blk b) = no_bus b" "no_chip (freed_blk b) = no_chip b"
  "no_block (freed_blk b) = no_block b" "nr_free_pages (freed_blk b) = NUM_PAGES_PER_BLOCK"
  using wipe_block_blank [of b] by (simp_all add: freed_blk_def blank_block_def)

lemma freed_state:
  fixes f :: "perf \<Rightarrow> perf"
  assumes inv: "ftl_ok fb" and vc: "valid_chip b c" and gc: "gc_of fb b c = Some p"
    and other: "\<And>q pg. q \<noteq> p \<Longrightarrow> vdata v q pg = vdata (ptr_vdevice fb) q pg"
    and len: "\<And>pg. pg < NUM_PAGES_PER_BLOCK \<Longrightarrow> length (vdata v p pg) = NR_LP_IN_PP"
    and sl: "silent (ptr_vdevice fb) v"
  defines "fb' \<equiv> put_gc (upd_perf (put_ssd (fb\<lparr>ptr_vdevice := v\<rparr>) (set_chip (set_blk (ptr_ssd_info fb) p
      (freed_blk (blk_of fb p))) p ((chip_of fb b c)\<lparr>free_blks := free_blks (chip_of fb b c) @ [p],
        nr_free_blocks := nr_free_blocks (chip_of fb b c) + 1\<rparr>))) f) b c None"
  shows "gc_step fb fb'" "blk_of fb' = (blk_of fb)(p := freed_blk (blk_of fb p))" "act_of fb' = act_of fb"
    "gc_of fb' = (\<lambda>b' c'. if b' = b \<and> c' = c then None else gc_of fb b' c')"
proof -
  note g = gc_block_valid [OF inv vc gc]
  let ?fb1 = "upd_perf (fb\<lparr>ptr_vdevice := v\<rparr>) f"
  let ?b = "freed_blk (blk_of fb p)"
  let ?ci = "(chip_of fb b c)\<lparr>free_blks := free_blks (chip_of fb b c) @ [p], nr_free_blocks := nr_free_blocks (chip_of fb b c) + 1\<rparr>"
  have alt: "fb' = put_gc (put_ssd ?fb1 (set_chip (set_blk (ptr_ssd_info ?fb1) p ?b) p ?ci)) b c None"
    by (simp add: fb'_def upd_perf_def put_defs)
  note D0 = ftl_invD [OF inv]
  have len1: "length (vdata v q w) = NR_LP_IN_PP" if "valid_blk q" "w < NUM_PAGES_PER_BLOCK" for q w
    using that other [of q w] len [of w] D0(1) by (cases "q = p") (simp_all add: sizes_ok_def)
  have s1: "sizes_ok ?fb1" using D0(1) len1 by (simp add: sizes_ok_def upd_perf_def)
  have sz: "sizes_ok (put_ssd ?fb1 s)" for s by (rule frame_sizes [OF _ s1]) simp
  show B: "blk_of fb' = (blk_of fb)(p := ?b)" unfolding alt by (simp add: upd_perf_def)
  have C: "chip_of fb' b' c' = (if b' = b \<and> c' = c then ?ci else chip_of fb b' c')" for b' c'
    unfolding alt using g by (simp add: upd_perf_def)
  show A: "act_of fb' = act_of fb" unfolding alt by (simp add: fun_eq_iff) (simp add: act_of_def upd_perf_def)
  show G: "gc_of fb' = (\<lambda>b' c'. if b' = b \<and> c' = c then None else gc_of fb b' c')"
    unfolding alt by (simp add: fun_eq_iff gc_of_put_gc [OF sz vc]) (simp add: gc_of_def upd_perf_def)
  have L: "l2p fb' = l2p fb" unfolding alt by (simp add: upd_perf_def)
  have part: "chip_part b c (chip_of fb b c) (act_of fb b c) (Some p)" using D0(7) [OF vc] gc by simp
  note R = roles_distinct [OF chip_part_roles(1) [OF part]]
  have np: "p \<notin> set (free_blks (chip_of fb b c))" "p \<notin> set (used_blks (chip_of fb b c))" "p \<notin> set (dirt_blks (chip_of fb b c))"
    "act_of fb b c \<noteq> Some p" using R(4-7) [of p] by auto
  show "gc_step fb fb'"
  proof (rule erased_keeps [OF inv vc gc other len sl freed_blk_fields(1-4) _ B])
    show "frame ?fb1 fb'" unfolding alt by simp
    show "chip_part b c (chip_of fb' b c) (act_of fb' b c) (gc_of fb' b c)"
      using chip_moves(7) [OF part] by (simp add: A G C)
    show "roles_ok (blk_of fb') {} (chip_of fb' b c) (act_of fb' b c) (gc_of fb' b c)"
      using D0(8) [OF vc] gc freed_blk_fields(5) [of "blk_of fb p"] np
      by (auto simp: roles_ok_def A G C B)
  qed (use L in \<open>auto simp: A G C\<close>)
qed

lemma prepare_act_blk_spec:
  fixes bus chip :: u8
  defines "b \<equiv> ucast bus" and "c \<equiv> ucast chip"
  assumes inv: "ftl_ok fb" and vc: "valid_chip b c"
  shows "\<exists>r fb'. prepare_act_blk chip bus fb = Some (r, fb') \<and> ftl_ok fb' \<and> ftl_data fb' = ftl_data fb \<and>
    gframe fb fb' \<and> nr_copy fb' = nr_copy fb \<and> (r = None \<or> r = Some (-1)) \<and> (r = None \<longrightarrow> act_of fb' b c \<noteq> None) \<and>
    (\<forall>b' c'. \<not> (b' = b \<and> c' = c) \<longrightarrow> act_of fb' b' c' = act_of fb b' c' \<and> gc_of fb' b' c' = gc_of fb b' c') \<and>
    l2p fb' = l2p fb \<and> (\<forall>q. gc_of fb b c \<noteq> Some q \<longrightarrow> blk_of fb' q = blk_of fb q) \<and>
    (\<forall>p. act_of fb b c = None \<and> gc_of fb b c = Some p \<longrightarrow> r = None \<and> act_of fb' b c = Some p \<and>
      gc_of fb' b c = None \<and> nr_free_pages (blk_of fb' p) = NUM_PAGES_PER_BLOCK)"
proof -
  note D = ftl_invD [OF inv]
  note get = get_curr_active_block_eq [OF D(1) vc] get_curr_gc_block_eq [OF D(1) vc]
  consider "act_of fb b c \<noteq> None" | "act_of fb b c = None" "gc_of fb b c = None"
    | p where "act_of fb b c = None" "gc_of fb b c = Some p" by blast
  then show ?thesis
  proof cases
    case 1
    then have "prepare_act_blk chip bus fb = Some (None, fb)"
      using get by (auto simp: prepare_act_blk_def b_def c_def)
    with 1 inv show ?thesis by auto
  next
    case 2
    then have "prepare_act_blk chip bus fb = Some (Some (-1), fb)"
      using get by (simp add: prepare_act_blk_def b_def c_def)
    with 2 inv show ?thesis by auto
  next
    case (3 p)
    note g = gc_block_valid [OF inv vc 3(2)]
    obtain v where v: "erase_blk fb bus chip p = Some (upd_perf (put_ssd (fb\<lparr>ptr_vdevice := v\<rparr>)
      (set_blk (ptr_ssd_info fb) p ((wipe_block (blk_of fb p))\<lparr>nr_erase_cnt := nr_erase_cnt (blk_of fb p) + 1\<rparr>)))
        perf_inc_nr_blk_erasures)"
      "\<And>q pg. q \<noteq> p \<Longrightarrow> vdata v q pg = vdata (ptr_vdevice fb) q pg"
      "\<And>pg. pg < NUM_PAGES_PER_BLOCK \<Longrightarrow> length (vdata v p pg) = NR_LP_IN_PP" "silent (ptr_vdevice fb) v"
      using erase_blk_eq [of p bus chip fb] g ids_okD(3) [OF D(2) g(1)] by (auto simp: b_def c_def)
    let ?fb1 = "upd_perf (put_ssd (fb\<lparr>ptr_vdevice := v\<rparr>)
      (set_blk (ptr_ssd_info fb) p ((wipe_block (blk_of fb p))\<lparr>nr_erase_cnt := nr_erase_cnt (blk_of fb p) + 1\<rparr>)))
        perf_inc_nr_blk_erasures"
    have len1: "length (vdata v q w) = NR_LP_IN_PP" if "valid_blk q" "w < NUM_PAGES_PER_BLOCK" for q w
      using that v(2) [of q w] v(3) [of w] D(1) by (cases "q = p") (simp_all add: sizes_ok_def)
    then have s1: "sizes_ok ?fb1" using D(1) by (simp add: sizes_ok_def upd_perf_def put_defs)
    let ?fb2 = "put_act (put_ssd ?fb1 (set_blk (ptr_ssd_info ?fb1) p ((blk_of ?fb1 p)\<lparr>is_active_block := 1\<rparr>))) b c (Some p)"
    let ?fb' = "put_gc (put_act (upd_perf (put_ssd (fb\<lparr>ptr_vdevice := v\<rparr>)
      (set_blk (ptr_ssd_info fb) p (opened_blk (blk_of fb p)))) perf_inc_nr_blk_erasures) b c (Some p)) b c None"
    have s2: "sizes_ok ?fb2" by (rule frame_sizes [OF _ s1]) simp
    have "prepare_act_blk chip bus fb = Some (None, put_gc ?fb2 b c None)"
      using get 3 v(1) set_curr_active_block_Some [OF s1 vc g(1)] set_curr_gc_block_None [OF s2 vc]
      by (simp add: prepare_act_blk_def b_def c_def)
    moreover have "put_gc ?fb2 b c None = ?fb'"
      by (simp add: put_defs upd_perf_def set_blk_def opened_blk_def)
    ultimately have eq: "prepare_act_blk chip bus fb = Some (None, ?fb')" by simp
    have E: "gc_step fb ?fb'" "blk_of ?fb' = (blk_of fb)(p := opened_blk (blk_of fb p))"
      "act_of ?fb' = (\<lambda>b' c'. if b' = b \<and> c' = c then Some p else act_of fb b' c')"
      "gc_of ?fb' = (\<lambda>b' c'. if b' = b \<and> c' = c then None else gc_of fb b' c')"
      by (rule erased_state [OF inv vc 3 v(2-4)]; assumption)+
    have "nr_copy ?fb' = nr_copy fb" "l2p ?fb' = l2p fb" by (simp_all add: put_defs upd_perf_def)
    moreover have "nr_free_pages (blk_of ?fb' p) = NUM_PAGES_PER_BLOCK" by (simp only: E(2) fun_upd_same opened_blk_fields(5))
    moreover have "\<forall>q. gc_of fb b c \<noteq> Some q \<longrightarrow> blk_of ?fb' q = blk_of fb q" unfolding E(2) using 3(2) by simp
    ultimately show ?thesis
      using eq E(1,3,4) 3 by (intro exI [of _ None] exI [of _ ?fb']) (simp add: gc_step_def)
  qed
qed

lemma prepare_act_blks_spec:
  assumes inv: "ftl_ok fb"
  shows "\<exists>r fb'. prepare_act_blks fb = Some (r, fb') \<and> gc_step fb fb' \<and> nr_copy fb' = nr_copy fb \<and>
    (r = 0 \<or> r = -1) \<and> (r = 0 \<longrightarrow> act_of fb' 0 0 \<noteq> None \<and> act_of fb' 0 1 \<noteq> None)"
proof -
  obtain r1 fb1 where 1: "prepare_act_blk 0 0 fb = Some (r1, fb1)" "gc_step fb fb1" "nr_copy fb1 = nr_copy fb"
    "r1 = None \<or> r1 = Some (-1)" "r1 = None \<longrightarrow> act_of fb1 0 0 \<noteq> None"
    using prepare_act_blk_spec [OF inv, of 0 0] by (auto simp: gc_step_def)
  obtain r2 fb2 where 2: "prepare_act_blk 1 0 fb1 = Some (r2, fb2)" "gc_step fb1 fb2" "nr_copy fb2 = nr_copy fb1"
    "r2 = None \<or> r2 = Some (-1)" "r2 = None \<longrightarrow> act_of fb2 0 1 \<noteq> None" "act_of fb2 0 0 = act_of fb1 0 0"
    using prepare_act_blk_spec [of fb1 0 1] 1(2) by (auto simp: gc_step_def)
  have eq: "prepare_act_blks fb = Some (case r1 of Some e \<Rightarrow> (e, fb1) | None \<Rightarrow> (int_of_ret r2, fb2))"
    using 1(1) 2(1) by (cases r1; cases r2)
      (simp_all add: prepare_act_blks_def words_below_CHIPS int_of_ret_def)
  note tr = gc_step_trans [OF 1(2) 2(2)]
  show ?thesis
    using eq 1 2 tr by (cases r1; cases r2) (auto simp: int_of_ret_def)
qed

section \<open>Refilling the GC blocks\<close>

text \<open>A chip without a GC block takes the first block of its dirty list.\<close>

lemma dirt_to_gc:
  assumes inv: "ftl_ok fb" and vc: "valid_chip b c" and gc: "gc_of fb b c = None"
    and dirt: "dirt_blks (chip_of fb b c) = p # ps"
  shows "\<exists>s fb'. reset_dirt_blk (ptr_ssd_info fb) p = Some s \<and> set_curr_gc_block (put_ssd fb s) b c (Some p) = Some fb' \<and>
    gc_step fb fb' \<and> frame fb fb' \<and> act_of fb' = act_of fb \<and>
    gc_of fb' = (\<lambda>b' c'. if b' = b \<and> c' = c then Some p else gc_of fb b' c') \<and>
    blk_of fb' = (blk_of fb)(p := (blk_of fb p)\<lparr>is_reserved_block := 1\<rparr>) \<and>
    valid_blk p \<and> blk_bus p = b \<and> blk_chip p = c"
proof -
  note D = ftl_invD [OF inv]
  let ?ci = "chip_of fb b c"
  have pin: "p \<in> set (dirt_blks ?ci)" using dirt by simp
  then have "p \<in> set (roles ?ci (act_of fb b c) (gc_of fb b c))" by (simp add: roles_def)
  then have vp: "valid_blk p" "blk_bus p = b" "blk_chip p = c"
    using chip_part_roles(2) [OF D(7) [OF vc] vc] by auto
  have dead: "all_dead (blk_of fb p)" using D(8) [OF vc] pin by (auto simp: roles_ok_def)
  let ?s = "set_chip (ptr_ssd_info fb) p (?ci\<lparr>dirt_blks := remove1 p (dirt_blks ?ci), nr_dirt_blks := nr_dirt_blks ?ci - 1\<rparr>)"
  let ?fb = "put_gc (put_ssd fb (set_blk ?s p ((blk_of fb p)\<lparr>is_reserved_block := 1\<rparr>))) b c (Some p)"
  have sz: "sizes_ok (put_ssd fb s)" for s by (rule frame_sizes [OF _ D(1)]) simp
  have steps: "reset_dirt_blk (ptr_ssd_info fb) p = Some ?s"
    using chip_list_ops(3) [OF vp(1), of "ptr_ssd_info fb"] ids_okD [OF D(2) vp(1)] pin vp by simp
  have set: "set_curr_gc_block (put_ssd fb ?s) b c (Some p) = Some ?fb"
    using set_curr_gc_block_Some [OF sz vc vp(1)] by (simp add: put_defs)
  have G: "gc_of ?fb = (\<lambda>b' c'. if b' = b \<and> c' = c then Some p else gc_of fb b' c')"
    by (simp add: fun_eq_iff gc_of_put_gc [OF sz vc])
  have "ftl_ok ?fb"
  proof (rule ftl_inv_flags [OF inv vc])
    show "flags_only (blk_of fb q) (blk_of ?fb q)" for q by (simp add: flags_onlyI)
    show "chip_part b c (chip_of ?fb b c) (act_of ?fb b c) (gc_of ?fb b c)"
      using chip_moves(5) [OF D(7) [OF vc, unfolded gc] pin] vp by (simp add: G)
    show "roles_ok (blk_of fb) {} (chip_of ?fb b c) (act_of ?fb b c) (gc_of ?fb b c)"
      using D(8) [OF vc] vp dead by (auto simp: roles_ok_def G dest: set_remove1_subset [THEN subsetD])
  qed (use vp in \<open>auto simp: G\<close>)
  moreover have "ftl_data ?fb = ftl_data fb" "gframe fb ?fb"
    by (intro ftl_data_eqI) (simp_all add: gframe_def put_defs)
  ultimately have "gc_step fb ?fb" by (simp add: gc_step_def)
  then show ?thesis using steps set G vp by auto
qed

lemma get_dirt_block_eq:
  "valid_chip b c \<Longrightarrow> get_dirt_block (ptr_ssd_info fb) b c = Some (list_head (dirt_blks (chip_of fb b c)))"
  by (simp add: get_dirt_block_def get_chip_info_def st_valid)

lemma update_gc_blk_spec:
  assumes inv: "ftl_ok fb" and vc: "valid_chip b c"
  shows "\<exists>r fb'. update_gc_blk b c fb = Some (r, fb') \<and> gc_step fb fb' \<and> (r = None \<or> r = Some (-1)) \<and>
    act_of fb' = act_of fb \<and> (r = None \<longrightarrow> gc_of fb' b c \<noteq> None \<or> act_of fb b c \<noteq> None) \<and>
    (\<forall>b' c'. gc_of fb b' c' \<noteq> None \<longrightarrow> gc_of fb' b' c' = gc_of fb b' c')"
proof -
  note D = ftl_invD [OF inv]
  note get = get_curr_active_block_eq [OF D(1) vc] get_curr_gc_block_eq [OF D(1) vc] get_dirt_block_eq [OF vc, of fb]
  consider "gc_of fb b c \<noteq> None" | "gc_of fb b c = None" "dirt_blks (chip_of fb b c) = []"
    | p ps where "gc_of fb b c = None" "dirt_blks (chip_of fb b c) = p # ps"
    by (meson list_head_def neq_Nil_conv)
  then show ?thesis
  proof cases
    case 1
    then have "update_gc_blk b c fb = Some (None, fb)" using get by (auto simp: update_gc_blk_def)
    with 1 inv show ?thesis by (auto simp: gc_step_refl)
  next
    case 2
    then have "update_gc_blk b c fb = Some (if act_of fb b c = None then Some (-1) else None, fb)"
      using get by (simp add: update_gc_blk_def get_ssd_inf_def)
    with inv show ?thesis by (auto simp: gc_step_refl)
  next
    case (3 p ps)
    obtain s fb' where m: "reset_dirt_blk (ptr_ssd_info fb) p = Some s" "set_curr_gc_block (put_ssd fb s) b c (Some p) = Some fb'"
      "gc_step fb fb'" "act_of fb' = act_of fb"
      "gc_of fb' = (\<lambda>b' c'. if b' = b \<and> c' = c then Some p else gc_of fb b' c')"
      using dirt_to_gc [OF inv vc 3] by blast
    then have "update_gc_blk b c fb = Some (None, fb')"
      using get 3 by (simp add: update_gc_blk_def get_ssd_inf_def list_head_def ssd_do_eq)
    with m 3 show ?thesis by auto
  qed
qed

lemma update_gc_blks_spec:
  assumes inv: "ftl_ok fb"
  shows "\<exists>r fb'. update_gc_blks fb = Some (r, fb') \<and> gc_step fb fb' \<and> (r = 0 \<or> r = -1) \<and>
    act_of fb' = act_of fb \<and> (r = 0 \<longrightarrow> (\<forall>c. valid_chip 0 c \<longrightarrow> gc_of fb' 0 c \<noteq> None \<or> act_of fb' 0 c \<noteq> None))"
proof -
  obtain r1 fb1 where 1: "update_gc_blk 0 0 fb = Some (r1, fb1)" "gc_step fb fb1" "r1 = None \<or> r1 = Some (-1)"
    "act_of fb1 = act_of fb" "r1 = None \<longrightarrow> gc_of fb1 0 0 \<noteq> None \<or> act_of fb 0 0 \<noteq> None"
    using update_gc_blk_spec [OF inv, of 0 0] by auto
  obtain r2 fb2 where 2: "update_gc_blk 0 1 fb1 = Some (r2, fb2)" "gc_step fb1 fb2" "r2 = None \<or> r2 = Some (-1)"
    "act_of fb2 = act_of fb1" "r2 = None \<longrightarrow> gc_of fb2 0 1 \<noteq> None \<or> act_of fb1 0 1 \<noteq> None"
    "gc_of fb1 0 0 \<noteq> None \<longrightarrow> gc_of fb2 0 0 = gc_of fb1 0 0"
    using update_gc_blk_spec [of fb1 0 1] 1(2) unfolding gc_step_def by auto
  have eq: "update_gc_blks fb = Some (case r1 of Some e \<Rightarrow> (e, fb1) | None \<Rightarrow> (int_of_ret r2, fb2))"
    using 1(1) 2(1) by (cases r1; cases r2)
      (simp_all add: update_gc_blks_def words_below_CHIPS int_of_ret_def)
  note tr = gc_step_trans [OF 1(2) 2(2)]
  show ?thesis
    using eq 1 2 tr by (cases r1; cases r2) (auto simp: int_of_ret_def valid_chip_cases)
qed

section \<open>The whole collection\<close>

lemma sint_of_nat_u32: "n < 2 ^ 31 \<Longrightarrow> sint (of_nat n :: u32) = int n"
  by (simp add: signed_of_nat signed_take_bit_int_eq_self)

theorem trigger_gc_spec:
  assumes inv: "ftl_ok fb"
  shows "\<exists>r fb'. trigger_gc_page_mapping fb = Some (r, fb') \<and> (r = 0 \<or> r = -1) \<and> gc_step fb fb'"
proof -
  let ?fb0 = "init_gcm fb"
  have i0: "ftl_ok ?fb0" and g0: "gc_step fb ?fb0" and z0: "nr_copy ?fb0 = 0"
  proof -
    show i: "ftl_ok ?fb0"
      by (rule ftl_inv_cong [OF inv]) (use ftl_invD(1) [OF inv] in \<open>simp_all add: init_gcm_def put_defs sizes_ok_def\<close>)
    have "ftl_data ?fb0 = ftl_data fb" by (intro ftl_data_eqI) (simp_all add: init_gcm_def put_defs)
    then show "gc_step fb ?fb0" using i by (simp add: gc_step_def gframe_def init_gcm_def put_defs)
    show "nr_copy ?fb0 = 0" by (simp add: init_gcm_def put_defs)
  qed
  obtain r1 fb1 where 1: "prepare_act_blks ?fb0 = Some (r1, fb1)" "gc_step ?fb0 fb1" "nr_copy fb1 = 0" "r1 = 0 \<or> r1 = -1"
    using prepare_act_blks_spec [OF i0] z0 by auto
  have i1: "ftl_ok fb1" using 1(2) by (simp add: gc_step_def)
  note s1 = gc_step_trans [OF g0 1(2)]
  obtain r2 fb2 where 2: "set_vic_blks fb1 = Some (r2, fb2)" "vic_frame fb1 fb2" "r2 = 0 \<or> r2 = -1"
    "r2 = 0 \<longrightarrow> vics_full fb2 \<and> nr_copy fb2 = of_nat (to_copy fb2)"
    using set_vic_blks_spec [OF i1 1(3)] by auto
  note f2 = vic_frame_fields(1-3) [OF 2(2)]
  have "gc_step fb1 fb2" using f2(1) [OF i1] f2(2,3) by (simp add: gc_step_def)
  then have s2: "gc_step fb fb2" by (rule gc_step_trans [OF s1])
  have i2: "ftl_ok fb2" using s2 by (simp add: gc_step_def)
  show ?thesis
  proof (cases "r1 = 0 \<and> r2 = 0")
    case False
    then have "trigger_gc_page_mapping fb = Some (-1, if r1 \<noteq> 0 then fb1 else fb2)"
      using 1(1) 2(1) by (simp add: trigger_gc_page_mapping_def)
    then show ?thesis using s1 s2 by (auto split: if_splits)
  next
    case True
    then obtain fb3 where 3: "get_valid_pgs_in_vic_blks fb2 = Some fb3" "reads_only fb2 fb3"
      "copies (to_copy fb2) (ftl_data fb2) fb3"
      using get_valid_pgs_spec [OF i2] 2(4) by blast
    have i3: "ftl_ok fb3" and d3: "ftl_data fb3 = ftl_data fb2" and g3: "gframe fb2 fb3"
      using reads_only_inv [OF 3(2)] i2 3(2) by (auto simp: reads_only_def Let_def)
    then have "gc_step fb2 fb3" by (simp add: gc_step_def)
    then have s3: "gc_step fb fb3" by (rule gc_step_trans [OF s2])
    have n3: "sint (nr_copy fb3) = int (to_copy fb2)"
    proof -
      have "nr_copy fb3 = of_nat (to_copy fb2)" using 3(2) 2(4) True by (simp add: reads_only_def Let_def)
      moreover have "to_copy fb2 < 2 ^ 31" using to_copy_le [of fb2] by simp
      ultimately show ?thesis by (simp add: sint_of_nat_u32)
    qed
    obtain r4 fb4 where 4: "prog_loop (int (to_copy fb2) - int 0) 0 0 fb3 = Some (r4, fb4)" "r4 = 0 \<or> r4 = -1"
      "ftl_ok fb4" "ftl_data fb4 = ftl_data fb3" "gframe fb3 fb4"
      using prog_loop_spec [OF i3, of "to_copy fb2" 0] 3(3) d3 by auto
    then have p4: "prog_valid_pgs_to_gc_blks fb3 = Some (r4, fb4)"
      by (simp add: prog_valid_pgs_to_gc_blks_def get_gcm_def get_ftl_def n3)
    have "gc_step fb3 fb4" using 4 by (simp add: gc_step_def)
    then have s4: "gc_step fb fb4" by (rule gc_step_trans [OF s3])
    obtain r5 fb5 where 5: "update_gc_blks fb4 = Some (r5, fb5)" "gc_step fb4 fb5" "r5 = 0 \<or> r5 = -1"
      using update_gc_blks_spec [OF 4(3)] by auto
    have "trigger_gc_page_mapping fb = Some (if r4 = 0 then (r5, fb5) else (-1, fb4))"
      using 1(1) 2(1) 3(1) p4 5(1,3) True 4(2) by (auto simp: trigger_gc_page_mapping_def)
    then show ?thesis using s4 gc_step_trans [OF s4 5(2)] 5(3) by auto
  qed
qed

end
