(* ===== verification/FB_Ftl_Spec.thy ===== *)
theory FB_Ftl_Spec
  imports FB_Ftl FB_Gc_Spec
begin

text \<open>
  The request handlers of the FTL against the map from logical addresses to page contents:
  a read returns what the map holds, a write of a wordline stores its pages or fails without
  changing anything, a discard removes pages, and a flush moves pages from the write buffer to the
  flash without changing what a reader sees. Every handler gives the mapping lock back.
\<close>

section \<open>The mapping lock\<close>

abbreviation ftl_lock :: "fb_context_t \<Rightarrow> completion" where
  "ftl_lock fb \<equiv> mapping_context_lock (ptr_mapping_context fb)"

definition relock :: "nat \<Rightarrow> fb_context_t \<Rightarrow> fb_context_t" where
  "relock k fb = set_ftl fb ((get_ftl fb)\<lparr>mapping_context_lock := k\<rparr>)"

lemma lock_ops:
  "ftl_lock fb = Suc 0 \<Longrightarrow> lock_ftl fb = Some (relock 0 fb)"
  "ftl_lock fb = 0 \<Longrightarrow> unlock_ftl fb = relock (Suc 0) fb"
  by (simp_all add: lock_ftl_def unlock_ftl_def relock_def get_ftl_def)

lemma relock_fields [simp]:
  "ptr_ssd_info (relock k fb) = ptr_ssd_info fb" "ptr_vdevice (relock k fb) = ptr_vdevice fb"
  "fb_wbuf (relock k fb) = fb_wbuf fb" "l2p (relock k fb) = l2p fb" "fb_perf (relock k fb) = fb_perf fb"
  "ftl_lock (relock k fb) = k" "relock j (relock k fb) = relock j fb" "relock (ftl_lock fb) fb = fb"
  "act_of (relock k fb) = act_of fb" "gc_of (relock k fb) = gc_of fb" "nr_copy (relock k fb) = nr_copy fb"
  "ftl_delm (ptr_mapping_context (relock k fb)) = ftl_delm (ptr_mapping_context fb)"
  by (simp_all add: relock_def put_defs act_of_def gc_of_def fun_eq_iff)

lemma relock_inv [simp]: "ftl_inv pt ex (relock k fb) = ftl_inv pt ex fb"
proof -
  have "ftl_inv pt ex (relock k fb)" if "ftl_inv pt ex fb" for k fb
    using ftl_invD(1) [OF that] by (intro ftl_inv_cong [OF that]) (simp_all add: relock_def put_defs sizes_ok_def)
  from this [of fb k] this [of "relock k fb" "ftl_lock fb"] show ?thesis by auto
qed

lemma relock_data [simp]: "ftl_data (relock k fb) = ftl_data fb"
  by (rule ftl_data_eqI) simp_all

lemma relock_gframe:
  assumes "gframe (relock 0 fb) fb'" "ftl_lock fb = Suc 0"
  shows "ftl_lock fb' = 0" "gframe fb (relock (Suc 0) fb')"
  using assms by (simp_all add: gframe_def relock_def put_defs)

section \<open>Reading\<close>

lemma slot_page_offset:
  fixes w :: u32 and i :: u8
  assumes "ucast (w AND LP_PAGE_MASK) = i"
  shows "unat (LP_PAGE_MASK AND w) = unat i"
proof -
  have "w AND mask 2 < 2 ^ 2" by (rule and_mask_less_size) (simp add: word_size)
  then have l: "unat (w AND mask 2) < 4" by (simp add: word_less_nat_alt)
  have "unat i = take_bit 8 (unat (w AND mask 2))"
    using assms by (auto simp: lp_mask unsigned_ucast_eq)
  then have "unat i = unat (w AND mask 2)" using l by (simp add: take_bit_nat_eq_self)
  then show ?thesis by (simp add: lp_mask and.commute)
qed

lemma make_read_spec:
  assumes inv: "ftl_ok fb" and lock: "ftl_lock fb = 1"
  shows "case ftl_data fb lpa of
      None \<Rightarrow> make_read_request_page_mapping fb lpa buf bio = Some (-1, buf, fb)
    | Some d \<Rightarrow> \<exists>bus chip. op_for bio (bus, chip, OP_READ, bio) \<and> make_read_request_page_mapping fb lpa buf bio =
        Some (0, d, fb\<lparr>fb_perf := perf_inc_nr_page_reads (fb_perf fb), ptr_vdevice := issue (ptr_vdevice fb) bus chip OP_READ bio\<rparr>)"
proof -
  note D = ftl_invD [OF inv]
  have lk: "lock_ftl fb = Some (relock 0 fb)" and ul: "unlock_ftl (relock 0 fb) = fb"
    using lock lock_ops(1) [of fb] lock_ops(2) [of "relock 0 fb"] relock_fields(8) [of fb] by simp_all
  have ppa: "get_mapped_ppa (ptr_mapping_context (relock 0 fb)) lpa = Some (l2p fb lpa)" if "is_valid_address_range lpa"
    using lpa_in_table [OF D(1) that] by (simp add: get_mapped_ppa_def relock_def put_defs)
  show ?thesis
  proof (cases "is_valid_address_range lpa \<and> l2p fb lpa \<noteq> PAGE_UNMAPPED")
    case False
    then have "get_mapped_physical_address (relock 0 fb) lpa = Some (PAGE_UNMAPPED, None)"
      using ppa by (auto simp: get_mapped_physical_address_def)
    moreover have "ftl_data fb lpa = None" using False by (auto simp: ftl_data_def)
    ultimately show ?thesis using lk ul by (simp add: make_read_request_page_mapping_def)
  next
    case True
    then obtain p pg i where p: "valid_blk p" "pg < NUM_PAGES_PER_BLOCK" "i < NR_LP_IN_PP"
      "l2p fb lpa = slot_ppa p pg i" using map_okD(1) [OF D(3)] by blast
    obtain w where lay: "convert_to_ssd_layout (l2p fb lpa) = (blk_bus p, blk_chip p, blk_no p, w)"
      and w: "drop_bit LP_PAGE_SHIFT w = pg" "ucast (w AND LP_PAGE_MASK) = i"
      using slot_ppa_layout [OF p(1-3)] p(4) by metis
    have gm: "get_mapped_physical_address (relock 0 fb) lpa =
        Some (l2p fb lpa, Some (blk_bus p, blk_chip p, blk_no p, w))"
      using True ppa lay by (simp add: get_mapped_physical_address_def)
    have d: "ftl_data fb lpa = Some (vdata (ptr_vdevice fb) p pg ! unat i)"
      using True p ppa_slot_slot_ppa [OF p(1-3)] by (simp add: ftl_data_def)
    note off = slot_page_offset [OF w(2)] w(1)
    have i4: "unat i < 4" using p(3) by (simp add: word_less_nat_alt NR_LP_IN_PP_def)
    have bm: "st_nth (replicate NR_LP_IN_PP 0) (unat i) 1 = Some ((replicate NR_LP_IN_PP (0 :: u8))[unat i := 1])"
      using i4 by (simp add: st_nth_def NR_LP_IN_PP_def)
    have uc: "ucast (ucast (blk_bus p) :: u8) = blk_bus p" "ucast (ucast (blk_chip p) :: u8) = blk_chip p"
      using valid_blk_chip [OF p(1)] by (auto simp: valid_chip_cases)
    have pe: "Blk (blk_bus p) (blk_chip p) (blk_no p) = p" by (cases p) simp
    have vw: "valid_wordline (ucast (blk_bus p)) (ucast (blk_chip p)) (blk_no p) pg"
      using p(1,2) by (simp add: valid_wordline_def uc pe)
    have len: "length (vdata (ptr_vdevice fb) p pg) = NR_LP_IN_PP"
      using D(1) p(1,2) by (simp add: sizes_ok_def)
    let ?fb1 = "upd_perf (relock 0 fb) perf_inc_nr_page_reads"
    let ?v = "issue (ptr_vdevice fb) (ucast (blk_bus p)) (blk_chip p) OP_READ bio"
    have r: "vdevice_read (ptr_vdevice fb) (ucast (blk_bus p)) (ucast (blk_chip p)) (blk_no p) pg
        ((replicate NR_LP_IN_PP 0)[unat i := 1]) [buf] 0 bio = Some ([vdata (ptr_vdevice fb) p pg ! unat i], ?v)"
      using vdevice_read_spec [OF vw, of "(replicate NR_LP_IN_PP 0)[unat i := 1]" "ptr_vdevice fb" 0 "[buf]" bio]
        selected_single [OF i4] len by (simp add: uc pe)
    have fin: "unlock_ftl (?fb1\<lparr>ptr_vdevice := ?v\<rparr>) =
        fb\<lparr>fb_perf := perf_inc_nr_page_reads (fb_perf fb), ptr_vdevice := ?v\<rparr>"
      using lock by (cases fb) (simp add: unlock_ftl_def upd_perf_def relock_def put_defs)
    have "make_read_request_page_mapping fb lpa buf bio = Some (0, vdata (ptr_vdevice fb) p pg ! unat i,
        fb\<lparr>fb_perf := perf_inc_nr_page_reads (fb_perf fb), ptr_vdevice := ?v\<rparr>)"
      using True lk gm off bm r fin
      by (simp add: make_read_request_page_mapping_def upd_perf_def ld_nth_def Let_def)
    moreover have "op_for bio (ucast (blk_bus p), blk_chip p, OP_READ, bio)"
      using valid_wordline_op [OF vw, of bio OP_READ] by (simp add: uc)
    ultimately show ?thesis using d by auto
  qed
qed

section \<open>Writing a wordline\<close>

text \<open>Its two loops decide nothing: the answer is about the chip asked for alone.\<close>

lemma is_fgc_needed_eq:
  assumes inv: "ftl_ok fb" and bus: "bus = 0" and chip: "chip = 0 \<or> chip = 1"
  shows "is_fgc_needed fb bus chip =
    Some (gc_of fb (ucast bus) (ucast chip) = None \<and> free_blks (chip_of fb (ucast bus) (ucast chip)) = [])"
proof -
  have vc: "valid_chip (ucast bus) (ucast chip)" using bus chip by (auto simp: valid_chip_cases)
  have gc: "get_curr_gc_block fb (ucast bus) (ucast chip) = Some (gc_of fb (ucast bus) (ucast chip))"
    by (rule get_curr_gc_block_eq [OF ftl_invD(1) [OF inv] vc])
  note fr = get_free_block_eq [OF vc, of "ptr_ssd_info fb"]
  have f: "filter (\<lambda>w. bus \<le> w) (words_below NUM_BUSES) = [0]"
    "filter (\<lambda>w. chip \<le> w) (words_below NUM_CHIPS_PER_BUS) = (if chip = 0 then [0, 1] else [1])"
    using bus chip by (auto simp: words_below_CHIPS)
  show ?thesis
    using gc fr unfolding is_fgc_needed_def f get_ssd_inf_def
    by (cases "gc_of fb (ucast bus) (ucast chip)"; cases "free_blks (chip_of fb (ucast bus) (ucast chip))") simp_all
qed

definition written :: "u32 list \<Rightarrow> lpdata list \<Rightarrow> fb_context_t \<Rightarrow> int \<times> fb_context_t \<Rightarrow> bool" where
  "written lpas src fb res \<longleftrightarrow> (case res of (r, fb') \<Rightarrow> ftl_ok fb' \<and> gframe fb fb' \<and>
     (r = 0 \<and> ftl_data fb' = wordline_store (\<lambda>j. lpas ! j) (\<lambda>j. src ! j) (ftl_data fb) \<or>
      r = -1 \<and> ftl_data fb' = ftl_data fb))"

lemma written_after:
  "gc_step fb fb1 \<Longrightarrow> written lpas src fb1 (r, fb2) \<Longrightarrow> written lpas src fb (r, fb2)"
  by (auto simp: written_def gc_step_def intro: gframe_trans)

lemma write_allocated_spec:
  fixes bus chip :: u8
  assumes inv: "ftl_ok fb" and act: "act_of fb (ucast bus) (ucast chip) = Some p"
    and lock: "ftl_lock fb = 0" and src: "4 \<le> length src" and len: "4 \<le> length lpas"
    and lpa: "\<And>j. j < 4 \<Longrightarrow> lpas ! j = PAGE_UNMAPPED \<or> is_valid_address_range (lpas ! j)"
    and some: "j0 < 4" "lpas ! j0 \<noteq> PAGE_UNMAPPED"
  shows "\<exists>fb'. write_allocated fb lpas src bus chip (blk_no p, of_nat (frontier (blk_of fb p))) =
      Some (0, relock (Suc 0) fb') \<and> written lpas src fb (0, fb')"
proof -
  let ?fb = "upd_perf fb perf_inc_nr_wordline_prog_fg"
  have e: "ptr_ssd_info ?fb = ptr_ssd_info fb" "ptr_vdevice ?fb = ptr_vdevice fb" "act_of ?fb = act_of fb"
    "ftl_data ?fb = ftl_data fb" "gframe fb ?fb"
    by (simp_all add: upd_perf_def act_of_def fun_eq_iff ftl_data_def gframe_def)
  have inv1: "ftl_ok ?fb"
    using ftl_invD(1) [OF inv] by (intro ftl_inv_cong [OF inv]) (simp_all add: upd_perf_def sizes_ok_def)
  have act1: "act_of ?fb (ucast bus) (ucast chip) = Some p" using act e by simp
  obtain v fb2 fb4 where w:
    "vdevice_write (ptr_vdevice ?fb) bus chip (blk_no p) (of_nat (frontier (blk_of ?fb p))) src 0 None = Some v"
    "map_logical_to_physical (?fb\<lparr>ptr_vdevice := v\<rparr>) lpas 0 (ucast bus) (ucast chip) (blk_no p)
      (of_nat (frontier (blk_of ?fb p))) = Some (0, fb2)"
    "update_act_blk (set_prev_bus_chip fb2 bus chip) bus chip = Some fb4" "ftl_ok fb4"
    "ftl_data fb4 = wordline_store (\<lambda>j. lpas ! j) (\<lambda>j. src ! j) (ftl_data ?fb)" "gframe ?fb fb4"
    using write_wordline_spec [OF inv1 act1, of 0 src 0 lpas, OF _ _ _ some(1)] src len lpa some by auto
  have g: "gframe fb fb4" using gframe_trans [OF e(5) w(6)] .
  then have l: "ftl_lock fb4 = 0" using lock by (simp add: gframe_def)
  have "write_allocated fb lpas src bus chip (blk_no p, of_nat (frontier (blk_of fb p))) = Some (0, relock (Suc 0) fb4)"
    using w(1-3) lock_ops(2) [OF l] e by (simp add: write_allocated_def get_vdev_def Let_def)
  then show ?thesis using w(4,5) e g by (auto simp: written_def)
qed

lemma alloc_write_spec:
  fixes bus chip :: u8
  assumes inv: "ftl_ok fb" and vc: "valid_chip (ucast bus) (ucast chip)"
    and lock: "ftl_lock fb = 0" and src: "4 \<le> length src" and len: "4 \<le> length lpas"
    and lpa: "\<And>j. j < 4 \<Longrightarrow> lpas ! j = PAGE_UNMAPPED \<or> is_valid_address_range (lpas ! j)"
    and some: "j0 < 4" "lpas ! j0 \<noteq> PAGE_UNMAPPED"
  shows "alloc_new_page fb bus chip = Some (-1, None, fb) \<or>
    (\<exists>page fb1 fb'. alloc_new_page fb bus chip = Some (0, Some page, fb1) \<and>
      write_allocated fb1 lpas src bus chip page = Some (0, relock (Suc 0) fb') \<and> written lpas src fb (0, fb'))"
proof -
  consider "alloc_new_page fb bus chip = Some (-1, None, fb)"
    | p fb1 where "alloc_new_page fb bus chip = Some (0, Some (blk_no p, of_nat (frontier (blk_of fb1 p))), fb1)"
      "ftl_ok fb1" "frame fb fb1" "l2p fb1 = l2p fb" "act_of fb1 (ucast bus) (ucast chip) = Some p"
    using alloc_new_page_spec [OF inv vc] by blast
  then show ?thesis
  proof cases
    case (2 p fb1)
    have "ptr_vdevice fb1 = ptr_vdevice fb" and l: "ftl_lock fb1 = 0"
      using 2(3) lock by (simp_all add: frame_def Let_def)
    then have "ftl_data fb1 = ftl_data fb" using 2(4) by (intro ftl_data_eqI) simp_all
    then have s: "gc_step fb fb1" using 2(2) frame_gframe [OF 2(3)] by (simp add: gc_step_def)
    obtain fb' where "write_allocated fb1 lpas src bus chip (blk_no p, of_nat (frontier (blk_of fb1 p))) =
      Some (0, relock (Suc 0) fb')" "written lpas src fb1 (0, fb')"
      using write_allocated_spec [OF 2(2,5) l src len lpa some] by blast
    then show ?thesis using 2(1) written_after [OF s] by blast
  qed simp
qed

lemma make_write_spec:
  assumes inv: "ftl_ok fb" and lock: "ftl_lock fb = 1"
    and src: "4 \<le> length src" and len: "4 \<le> length lpas"
    and lpa: "\<And>j. j < 4 \<Longrightarrow> lpas ! j = PAGE_UNMAPPED \<or> is_valid_address_range (lpas ! j)"
    and some: "j0 < 4" "lpas ! j0 \<noteq> PAGE_UNMAPPED"
  shows "\<exists>res. make_write_request_page_mapping fb lpas src = Some res \<and> written lpas src fb res"
proof -
  let ?fb = "relock 0 fb"
  have i0: "ftl_ok ?fb" using inv by simp
  have lk: "lock_ftl fb = Some ?fb" using lock lock_ops(1) by simp
  have fin: "\<exists>res. Some (r, relock (Suc 0) fb2) = Some res \<and> written lpas src fb res"
    if "written lpas src ?fb (r, fb2)" for r fb2
  proof -
    have "gframe fb (relock (Suc 0) fb2)" using that relock_gframe [of fb fb2] lock by (simp add: written_def)
    then show ?thesis using that by (auto simp: written_def)
  qed
  have fail: "\<exists>res. Some (-1, unlock_ftl fb2) = Some res \<and> written lpas src fb res" if "gc_step ?fb fb2" for fb2
  proof -
    have "ftl_lock fb2 = 0" using that by (simp add: gc_step_def gframe_def)
    then show ?thesis using fin [of "-1" fb2] that lock_ops(2) [of fb2] by (auto simp: written_def gc_step_def)
  qed
  obtain bus chip where bc: "get_next_bus_chip ?fb = (bus, chip)" by (cases "get_next_bus_chip ?fb")
  note nb = next_bus_chip [OF ftl_invD(1) [OF i0] bc]
  obtain need where need: "is_fgc_needed ?fb bus chip = Some need" using is_fgc_needed_eq [OF i0 nb(1,2)] by blast
  obtain r1 fb1 where 1: "(if need then trigger_gc_page_mapping ?fb else Some (0, ?fb)) = Some (r1, fb1)"
    "r1 = 0 \<or> r1 = -1" "gc_step ?fb fb1"
    using trigger_gc_spec [OF i0] gc_step_refl [OF i0] by (cases need) auto
  show ?thesis
  proof (cases "r1 = -1")
    case True
    then have "make_write_request_page_mapping fb lpas src = Some (-1, unlock_ftl fb1)"
      using lk bc need 1(1) by (simp add: make_write_request_page_mapping_def)
    then show ?thesis using fail [OF 1(3)] by simp
  next
    case False
    have i1: "ftl_ok fb1" and l1: "ftl_lock fb1 = 0" using 1(3) by (simp_all add: gc_step_def gframe_def)
    obtain bus1 chip1 where bc1: "get_next_bus_chip fb1 = (bus1, chip1)" by (cases "get_next_bus_chip fb1")
    note nb1 = next_bus_chip [OF ftl_invD(1) [OF i1] bc1]
    consider "alloc_new_page fb1 bus1 chip1 = Some (-1, None, fb1)"
      | page fb2 fb' where "alloc_new_page fb1 bus1 chip1 = Some (0, Some page, fb2)"
        "write_allocated fb2 lpas src bus1 chip1 page = Some (0, relock (Suc 0) fb')" "written lpas src fb1 (0, fb')"
      using alloc_write_spec [OF i1 nb1(3) l1 src len lpa some] by blast
    then show ?thesis
    proof cases
      case (2 page fb2 fb')
      then have "make_write_request_page_mapping fb lpas src = Some (0, relock (Suc 0) fb')"
        using lk bc need 1(1) False bc1 by (simp add: make_write_request_page_mapping_def)
      then show ?thesis using fin [OF written_after [OF 1(3) 2(3)]] by simp
    next
      case a1: 1
      obtain r2 fb2 where 2: "trigger_gc_page_mapping fb1 = Some (r2, fb2)" "r2 = 0 \<or> r2 = -1" "gc_step fb1 fb2"
        using trigger_gc_spec [OF i1] by auto
      have s2: "gc_step ?fb fb2" by (rule gc_step_trans [OF 1(3) 2(3)])
      show ?thesis
      proof (cases "r2 = -1")
        case True
        then have "make_write_request_page_mapping fb lpas src = Some (-1, unlock_ftl fb2)"
          using lk bc need 1(1) False bc1 a1 2(1) by (simp add: make_write_request_page_mapping_def)
        then show ?thesis using fail [OF s2] by simp
      next
        case r2: False
        have i2: "ftl_ok fb2" and l2: "ftl_lock fb2 = 0" using s2 by (simp_all add: gc_step_def gframe_def)
        obtain bus2 chip2 where bc2: "get_next_bus_chip fb2 = (bus2, chip2)" by (cases "get_next_bus_chip fb2")
        note nb2 = next_bus_chip [OF ftl_invD(1) [OF i2] bc2]
        consider "alloc_new_page fb2 bus2 chip2 = Some (-1, None, fb2)"
          | page fb3 fb' where "alloc_new_page fb2 bus2 chip2 = Some (0, Some page, fb3)"
            "write_allocated fb3 lpas src bus2 chip2 page = Some (0, relock (Suc 0) fb')" "written lpas src fb2 (0, fb')"
          using alloc_write_spec [OF i2 nb2(3) l2 src len lpa some] by blast
        then show ?thesis
        proof cases
          case a2: 1
          then have "make_write_request_page_mapping fb lpas src = Some (-1, unlock_ftl fb2)"
            using lk bc need 1(1) False bc1 a1 2(1) r2 bc2 by (simp add: make_write_request_page_mapping_def)
          then show ?thesis using fail [OF s2] by simp
        next
          case a2: (2 page fb3 fb')
          then have "make_write_request_page_mapping fb lpas src = Some (0, relock (Suc 0) fb')"
            using lk bc need 1(1) False bc1 a1 2(1) r2 bc2 by (simp add: make_write_request_page_mapping_def)
          then show ?thesis using fin [OF written_after [OF s2 a2(3)]] by simp
        qed
      qed
    qed
  qed
qed

section \<open>Flushing the write buffer\<close>

text \<open>What a reader of the device sees: the write buffer in front of the flash.\<close>

definition device_view :: "fb_context_t \<Rightarrow> u32 \<rightharpoonup> lpdata" where
  "device_view fb = ftl_data fb ++ wb_view (fb_wbuf fb)"

text \<open>Everything the request handlers leave alone.\<close>

definition rframe :: "fb_context_t \<Rightarrow> fb_context_t \<Rightarrow> bool" where
  "rframe fb fb' \<longleftrightarrow> dev_lock fb' = dev_lock fb \<and> fb_err fb' = fb_err fb \<and>
     background_gc_time_stamp fb' = background_gc_time_stamp fb \<and> ftl_lock fb' = ftl_lock fb \<and>
     length (ppas (ftl_delm (ptr_mapping_context fb'))) = length (ppas (ftl_delm (ptr_mapping_context fb))) \<and>
     length (lpas_to_discard (ptr_mapping_context fb')) = length (lpas_to_discard (ptr_mapping_context fb))"

lemma rframe_refl [simp]: "rframe fb fb"
  by (simp add: rframe_def)

lemma rframe_trans [trans]: "rframe fb fb' \<Longrightarrow> rframe fb' fb'' \<Longrightarrow> rframe fb fb''"
  by (simp add: rframe_def)

text \<open>The handlers other than the read also hand no operation over that belongs to a request.\<close>

definition hframe :: "fb_context_t \<Rightarrow> fb_context_t \<Rightarrow> bool" where
  "hframe fb fb' \<longleftrightarrow> dev_lock fb' = dev_lock fb \<and> fb_err fb' = fb_err fb \<and>
     background_gc_time_stamp fb' = background_gc_time_stamp fb \<and> ftl_lock fb' = ftl_lock fb \<and>
     length (ppas (ftl_delm (ptr_mapping_context fb'))) = length (ppas (ftl_delm (ptr_mapping_context fb))) \<and>
     length (lpas_to_discard (ptr_mapping_context fb')) = length (lpas_to_discard (ptr_mapping_context fb)) \<and>
     silent (ptr_vdevice fb) (ptr_vdevice fb')"

lemma hframe_refl [simp]: "hframe fb fb"
  by (simp add: hframe_def)

lemma hframe_trans [trans]: "hframe fb fb' \<Longrightarrow> hframe fb' fb'' \<Longrightarrow> hframe fb fb''"
  by (auto simp: hframe_def intro: silent_trans)

lemma gframe_hframe: "gframe fb fb' \<Longrightarrow> hframe fb fb'"
  by (simp add: gframe_def hframe_def)

lemma wbuf_fields [simp]:
  "ptr_ssd_info (fb\<lparr>fb_wbuf := w\<rparr>) = ptr_ssd_info fb" "l2p (fb\<lparr>fb_wbuf := w\<rparr>) = l2p fb"
  "ftl_data (fb\<lparr>fb_wbuf := w\<rparr>) = ftl_data fb" "hframe fb (fb'\<lparr>fb_wbuf := w\<rparr>) = hframe fb fb'"
  "ftl_inv pt ex (fb\<lparr>fb_wbuf := w\<rparr>) = ftl_inv pt ex fb"
proof -
  show "ftl_data (fb\<lparr>fb_wbuf := w\<rparr>) = ftl_data fb" by (rule ftl_data_eqI) simp_all
  show "ftl_inv pt ex (fb\<lparr>fb_wbuf := w\<rparr>) = ftl_inv pt ex fb"
    by (simp add: ftl_inv_def sizes_ok_def act_of_def [abs_def] gc_of_def [abs_def])
qed (simp_all add: hframe_def)

lemma wordline_store_apply:
  assumes inj: "inj_on ls {..<4}" and mapped: "\<And>j. j < 4 \<Longrightarrow> ls j \<noteq> PAGE_UNMAPPED"
  shows "j < 4 \<Longrightarrow> wordline_store ls ds m (ls j) = Some (ds j)"
    and "x \<notin> ls ` {..<4} \<Longrightarrow> wordline_store ls ds m x = m x"
proof -
  have d: "ls j \<noteq> ls k" if "j < 4" "k < 4" "j \<noteq> k" for j k using inj that by (auto simp: inj_on_def)
  have j4: "j = 0 \<or> j = 1 \<or> j = 2 \<or> j = 3" if "j < (4 :: nat)" for j using that by arith
  show "wordline_store ls ds m (ls j) = Some (ds j)" if "j < 4"
    using j4 [OF that] d [of 0 1] d [of 0 2] d [of 0 3] d [of 1 2] d [of 1 3] d [of 2 3]
      mapped [of 0] mapped [of 1] mapped [of 2] mapped [of 3]
    by (elim disjE) (simp_all add: wordline_store_def slot_store_apply)
  show "wordline_store ls ds m x = m x" if "x \<notin> ls ` {..<4}"
    using that by (auto simp: wordline_store_def slot_store_apply image_iff)
qed

text \<open>The buffer as the handlers use it: nothing is being written between requests.\<close>

definition wb_ready :: "nat \<Rightarrow> fb_context_t \<Rightarrow> bool" where
  "wb_ready n fb \<longleftrightarrow> wb_wf n (fb_wbuf fb) \<and> writing_pgs (fb_wbuf fb) = [] \<and>
     (\<forall>l \<in> set (buf_lpas (fb_wbuf fb)). is_valid_address_range l)"

lemma buf_lpas_distinct:
  assumes "wb_wf n wb"
  shows "distinct (buf_lpas wb)"
  using wb_lpa_inj [OF assms] wb_wfD(4) [OF assms]
  by (auto simp: buf_lpas_def distinct_map inj_on_def)

lemma wb_view_buf:
  assumes "wb_wf n wb" "l \<in> set (buf_lpas wb)"
  shows "\<exists>d. wb_view wb l = Some d"
proof -
  obtain p where "p \<in> set (buf_pgs wb)" "wbp_lpa (wb_pgs wb p) = l" using assms(2) by (auto simp: buf_lpas_def)
  then have "HASH_FIND (hash_pgs wb) l = Some p" using wb_wfD(11) [OF assms(1)] by auto
  then show ?thesis by (simp add: wb_view_def)
qed

text \<open>One round of the flush: the four oldest pages go to a wordline and leave the buffer.\<close>

lemma flush_view:
  assumes dist: "distinct xs" and len: "length xs = 4" and valid: "\<forall>l \<in> set xs. is_valid_address_range l"
    and view: "\<And>l. l \<in> set xs \<Longrightarrow> \<exists>d. V l = Some d"
  shows "wordline_store ((!) xs) ((!) (map (\<lambda>l. the (V l)) xs)) m ++ V |` (- set xs) = m ++ V"
proof
  fix x
  have inj: "inj_on ((!) xs) {..<4}" using dist len by (auto simp: inj_on_def nth_eq_iff_index_eq)
  have mapped: "xs ! j \<noteq> PAGE_UNMAPPED" if "j < 4" for j
    using that len valid lpa_mapped nth_mem by metis
  have im: "(!) xs ` {..<4} = set xs" using len by (auto simp: in_set_conv_nth)
  show "(wordline_store ((!) xs) ((!) (map (\<lambda>l. the (V l)) xs)) m ++ V |` (- set xs)) x = (m ++ V) x"
  proof (cases "x \<in> set xs")
    case True
    then obtain j where j: "j < 4" "x = xs ! j" using len by (auto simp: in_set_conv_nth)
    obtain d where "V x = Some d" using view [OF True] by blast
    then show ?thesis
      using True j len wordline_store_apply(1) [OF inj mapped j(1), of "(!) (map (\<lambda>l. the (V l)) xs)" m]
      by (simp add: map_add_def)
  next
    case False
    then show ?thesis
      using wordline_store_apply(2) [OF inj mapped, of x] im by (cases "V x") (simp_all add: map_add_def)
  qed
qed

lemma wb_flush_loop_spec:
  assumes "ftl_ok fb" "ftl_lock fb = 1" "wb_ready n fb" "length lpas = 4"
  shows "\<exists>r fb'. wb_flush_loop lpas fb = Some (r, fb') \<and> ftl_ok fb' \<and> hframe fb fb' \<and> wb_wf n (fb_wbuf fb') \<and>
    device_view fb' = device_view fb \<and>
    (r = 0 \<and> wb_ready n fb' \<and> length (buf_lpas (fb_wbuf fb')) < 4 \<and>
       (\<exists>k. buf_lpas (fb_wbuf fb') = drop k (buf_lpas (fb_wbuf fb))) \<or> r = -1)"
  using assms
proof (induction "length (buf_lpas (fb_wbuf fb))" arbitrary: fb lpas rule: less_induct)
  case less
  let ?wb = "fb_wbuf fb"
  have wf: "wb_wf n ?wb" and w0: "writing_pgs ?wb = []" and valid: "\<forall>l \<in> set (buf_lpas ?wb). is_valid_address_range l"
    using less.prems(3) by (simp_all add: wb_ready_def)
  have u: "unat (NR_LP_IN_PP :: u32) = 4" by (simp add: NR_LP_IN_PP_def)
  have lb: "length (pg_buf ?wb) = 4" using wb_wfD(16) [OF wf] by (simp add: NR_LP_IN_PP_def)
  show ?case
  proof (cases "length (buf_lpas ?wb) < 4")
    case True
    then have "fb_get_pgs_to_write ?wb NR_LP_IN_PP lpas (pg_buf ?wb) = Some (-1, lpas, pg_buf ?wb, ?wb)"
      by (intro wb_get_pgs_short [OF wf]) (simp add: u)
    then have "wb_flush_loop lpas fb = Some (0, fb)"
      by (subst wb_flush_loop.simps) simp
    then show ?thesis using less.prems True wf by (auto intro: exI [of _ 0])
  next
    case False
    let ?xs = "take 4 (buf_lpas ?wb)"
    let ?ds = "map (\<lambda>l. the (wb_view ?wb l)) ?xs"
    obtain wb1 where g: "fb_get_pgs_to_write ?wb NR_LP_IN_PP lpas (pg_buf ?wb) = Some (0, ?xs, ?ds, wb1)"
      "taken n 4 ?wb wb1" "wb_wf n wb1"
      using wb_get_pgs [OF wf, of NR_LP_IN_PP lpas "pg_buf ?wb"] False less.prems(4) lb u by auto
    let ?wb2 = "wb1\<lparr>pg_buf := ?ds\<rparr>"
    have xs: "length ?xs = 4" "distinct ?xs" "\<forall>l \<in> set ?xs. is_valid_address_range l" "set ?xs \<subseteq> set (buf_lpas ?wb)"
      using False buf_lpas_distinct [OF wf] valid by (auto dest: in_set_takeD)
    have wf2: "wb_wf n ?wb2" using g(3) xs(1) by (simp add: wb_wf_def NR_LP_IN_PP_def)
    have v2: "wb_view ?wb2 = wb_view ?wb" "buf_lpas ?wb2 = drop 4 (buf_lpas ?wb)" "writing_lpas ?wb2 = ?xs"
      using g(2) w0 by (auto simp: taken_def wb_view_def buf_lpas_def writing_lpas_def fun_eq_iff)
    let ?fb2 = "fb\<lparr>fb_wbuf := ?wb2\<rparr>"
    have i2: "ftl_ok ?fb2" using less.prems(1) by simp
    have lp: "?xs ! j = PAGE_UNMAPPED \<or> is_valid_address_range (?xs ! j)" if "j < 4" for j
      using xs(1,3) that by (metis nth_mem)
    have s0: "?xs ! 0 \<noteq> PAGE_UNMAPPED" using lpa_mapped xs(1,3) nth_mem [of 0 ?xs] by auto
    have l2: "ftl_lock ?fb2 = 1" using less.prems(2) by simp
    have len1: "4 \<le> length ?xs" and len2: "4 \<le> length ?ds" using xs(1) by simp_all
    obtain r fb3 where w: "make_write_request_page_mapping ?fb2 ?xs ?ds = Some (r, fb3)" "written ?xs ?ds ?fb2 (r, fb3)"
      using make_write_spec [OF i2 l2 len2 len1 lp _ s0] by (auto simp: split_paired_Ex)
    have i3: "ftl_ok fb3" and f3: "hframe fb fb3" and wb3: "fb_wbuf fb3 = ?wb2"
      using w(2) gframe_hframe [of ?fb2 fb3] by (auto simp: written_def gframe_def hframe_def)
    have dv0: "device_view ?fb2 = device_view fb" using v2(1) by (simp add: device_view_def)
    show ?thesis
    proof (cases "r = -1")
      case True
      then have "wb_flush_loop lpas fb = Some (-1, fb3)"
        using g(1) w(1) by (subst wb_flush_loop.simps) simp
      moreover have "device_view fb3 = device_view fb"
        using w(2) True wb3 v2(1) by (simp add: written_def device_view_def)
      ultimately show ?thesis using i3 f3 wf2 wb3 by auto
    next
      case False
      then have r0: "r = 0" and d3: "ftl_data fb3 = wordline_store ((!) ?xs) ((!) ?ds) (ftl_data fb)"
        using w(2) by (auto simp: written_def)
      obtain wb4 where 4: "fb_rm_written_pgs ?wb2 = Some wb4" "wb_wf n wb4" "writing_pgs wb4 = []"
        "buf_lpas wb4 = drop 4 (buf_lpas ?wb)" "wb_view wb4 = wb_view ?wb |` (- set ?xs)"
        using wb_rm_written [OF wf2] v2 by auto
      let ?fb4 = "fb3\<lparr>fb_wbuf := wb4\<rparr>"
      have dv: "device_view ?fb4 = device_view fb"
        using flush_view [OF xs(2,1,3), of "wb_view ?wb" "ftl_data fb"] wb_view_buf [OF wf] xs(4) d3 4(5)
        by (auto simp: device_view_def)
      have step: "wb_flush_loop lpas fb = wb_flush_loop ?xs ?fb4"
        using g(1) w(1) r0 4(1) wb3 by (subst wb_flush_loop.simps) simp
      have ready: "wb_ready n ?fb4"
        using 4 valid by (auto simp: wb_ready_def dest: in_set_dropD)
      have "\<exists>r fb'. wb_flush_loop ?xs ?fb4 = Some (r, fb') \<and> ftl_ok fb' \<and> hframe ?fb4 fb' \<and> wb_wf n (fb_wbuf fb') \<and>
        device_view fb' = device_view ?fb4 \<and>
        (r = 0 \<and> wb_ready n fb' \<and> length (buf_lpas (fb_wbuf fb')) < 4 \<and>
           (\<exists>k. buf_lpas (fb_wbuf fb') = drop k (buf_lpas (fb_wbuf ?fb4))) \<or> r = -1)"
      proof (rule less.hyps)
        show "length (buf_lpas (fb_wbuf ?fb4)) < length (buf_lpas ?wb)" using 4(4) \<open>\<not> length (buf_lpas ?wb) < 4\<close> by simp
        show "ftl_ok ?fb4" "wb_ready n ?fb4" "length ?xs = 4" using i3 ready xs(1) by simp_all
        show "ftl_lock ?fb4 = 1" using f3 less.prems(2) by (simp add: hframe_def)
      qed
      then obtain r' fb' where R: "wb_flush_loop ?xs ?fb4 = Some (r', fb')" "ftl_ok fb'" "hframe ?fb4 fb'"
        "wb_wf n (fb_wbuf fb')" "device_view fb' = device_view ?fb4" and
        e: "r' = 0 \<and> wb_ready n fb' \<and> length (buf_lpas (fb_wbuf fb')) < 4 \<and>
           (\<exists>k. buf_lpas (fb_wbuf fb') = drop k (buf_lpas (fb_wbuf ?fb4))) \<or> r' = -1" by blast
      have h: "hframe fb fb'" by (rule hframe_trans [OF _ R(3)]) (use f3 in simp)
      have "\<exists>k. buf_lpas (fb_wbuf fb') = drop k (buf_lpas ?wb)"
        if "\<exists>k. buf_lpas (fb_wbuf fb') = drop k (buf_lpas (fb_wbuf ?fb4))"
        using that 4(4) by auto
      then show ?thesis
        using R(2,4) h e by (intro exI [of _ r'] exI [of _ fb'] conjI) (simp_all only: step R(1,5) dv, blast)
    qed
  qed
qed

section \<open>Invalidating a list of pages\<close>

text \<open>What a discard leaves alone.\<close>

definition dframe :: "fb_context_t \<Rightarrow> fb_context_t \<Rightarrow> bool" where
  "dframe fb fb' \<longleftrightarrow> hframe fb fb' \<and> fb_wbuf fb' = fb_wbuf fb \<and> ptr_vdevice fb' = ptr_vdevice fb \<and>
     lpas_to_discard (ptr_mapping_context fb') = lpas_to_discard (ptr_mapping_context fb)"

lemma dframe_refl [simp]: "dframe fb fb"
  by (simp add: dframe_def)

lemma dframe_trans [trans]: "dframe fb fb' \<Longrightarrow> dframe fb' fb'' \<Longrightarrow> dframe fb fb''"
  by (auto simp: dframe_def intro: hframe_trans)

lemma frame_dframe: "frame fb fb' \<Longrightarrow> dframe fb fb'"
  by (simp add: frame_def dframe_def hframe_def Let_def)

lemma relock_dframe:
  assumes "dframe (relock 0 fb) fb'" "ftl_lock fb = Suc 0"
  shows "ftl_lock fb' = 0" "dframe fb (relock (Suc 0) fb')"
  using assms by (simp_all add: dframe_def hframe_def relock_def put_defs)

lemma unmap_data:
  assumes "l2p fb' = (l2p fb)(lpa := PAGE_UNMAPPED)" "ptr_vdevice fb' = ptr_vdevice fb"
  shows "ftl_data fb' = (ftl_data fb)(lpa := None)"
  using assms by (auto simp: ftl_data_def fun_eq_iff)

abbreviation nr_ppas :: "fb_context_t \<Rightarrow> nat" where
  "nr_ppas fb \<equiv> length (ppas (ftl_delm (ptr_mapping_context fb)))"

lemma st_ppas_spec:
  assumes "i < nr_ppas fb" "ftl_inv pt ex fb"
  shows "\<exists>fb'. st_ppas fb i a = Some fb' \<and> ftl_inv pt ex fb' \<and> ftl_data fb' = ftl_data fb \<and> dframe fb fb'"
proof -
  let ?fb = "upd_delm fb (\<lambda>d. d\<lparr>ppas := (ppas d)[i := a]\<rparr>)"
  have "st_ppas fb i a = Some ?fb"
    using assms(1) by (simp add: st_ppas_def st_nth_def upd_delm_def get_ftl_def set_ftl_def)
  moreover have "ftl_inv pt ex ?fb"
    using ftl_invD(1) [OF assms(2)]
    by (intro ftl_inv_cong [OF assms(2)]) (simp_all add: upd_delm_def get_ftl_def set_ftl_def sizes_ok_def)
  moreover have "ftl_data ?fb = ftl_data fb"
    by (rule ftl_data_eqI) (simp_all add: upd_delm_def get_ftl_def set_ftl_def)
  moreover have "dframe fb ?fb"
    by (simp add: dframe_def hframe_def upd_delm_def get_ftl_def set_ftl_def)
  ultimately show ?thesis by blast
qed

lemma words_below_take:
  assumes "unat (n :: u32) \<le> length xs"
  shows "map (\<lambda>k. xs ! unat k) (words_below n) = take (unat n) xs"
proof (rule nth_equalityI)
  show "length (map (\<lambda>k. xs ! unat k) (words_below n)) = length (take (unat n) xs)" using assms by simp
  fix i assume "i < length (map (\<lambda>k. xs ! unat k) (words_below n))"
  then have i: "i < unat n" by simp
  then show "map (\<lambda>k. xs ! unat k) (words_below n) ! i = take (unat n) xs ! i"
    by (simp add: nth_words_below unat_of_nat_below)
qed

lemma del_invalidate_pgs_spec:
  assumes inv: "ftl_ok fb" and lock: "ftl_lock fb = 1"
    and n: "unat n \<le> nr_ppas fb" "unat n \<le> length lpas"
    and valid: "\<forall>l \<in> set (take (unat n) lpas). is_valid_address_range l"
  shows "\<exists>fb'. del_invalidate_pgs fb n lpas = Some fb' \<and> ftl_ok fb' \<and> dframe fb fb' \<and>
    ftl_data fb' = ftl_data fb |` (- set (take (unat n) lpas))"
proof -
  let ?fb1 = "upd_delm fb init_delm"
  let ?fb2 = "relock 0 ?fb1"
  have i1: "ftl_ok ?fb1"
    using ftl_invD(1) [OF inv]
    by (intro ftl_inv_cong [OF inv]) (simp_all add: upd_delm_def get_ftl_def set_ftl_def sizes_ok_def)
  have d1: "ftl_data ?fb1 = ftl_data fb" by (rule ftl_data_eqI) (simp_all add: upd_delm_def get_ftl_def set_ftl_def)
  have f1: "dframe fb ?fb1" and l1: "ftl_lock ?fb1 = Suc 0"
    using lock by (simp_all add: dframe_def hframe_def upd_delm_def get_ftl_def set_ftl_def init_delm_def)
  let ?I = "\<lambda>done f. ftl_ok f \<and> dframe ?fb2 f \<and> ftl_data f = ftl_data fb |` (- (\<lambda>k. lpas ! unat k) ` set done)"
  let ?f = "\<lambda>loop fb. do {
         lpa \<leftarrow> ld_nth lpas (unat loop);
         (ppa, fb) \<leftarrow> invalidate_lpg fb lpa;
         st_ppas fb (unat loop) ppa }"
  have "\<exists>f. foldM ?f (words_below n) ?fb2 = Some f \<and> ?I (words_below n) f"
  proof (rule foldM_rule [where I = ?I])
    show "?I [] ?fb2" using i1 d1 by (simp add: restrict_map_def)
    fix "done" x rest f
    assume w: "words_below n = done @ x # rest" and I: "?I done f"
    have "x \<in> set (words_below n)" by (simp only: w) simp
    then have x: "unat x < unat n" by (simp add: word_less_nat_alt)
    have "lpas ! unat x \<in> set (take (unat n) lpas)" using x n(2) by (auto simp: in_set_conv_nth)
    then have lv: "is_valid_address_range (lpas ! unat x)" using valid by blast
    obtain f1 where a: "invalidate_lpg f (lpas ! unat x) = Some (l2p f (lpas ! unat x), f1)" "ftl_ok f1" "frame f f1"
      "l2p f1 = (l2p f)(lpas ! unat x := PAGE_UNMAPPED)"
      using invalidate_lpg_spec [of "\<lambda>_. 0" f "lpas ! unat x"] I lv by auto
    have df: "dframe ?fb2 f1" by (rule dframe_trans [OF _ frame_dframe [OF a(3)]]) (use I in simp)
    then have "nr_ppas f1 = nr_ppas fb"
      using f1 by (simp add: dframe_def hframe_def)
    then obtain f2 where b: "st_ppas f1 (unat x) (l2p f (lpas ! unat x)) = Some f2" "ftl_ok f2"
      "ftl_data f2 = ftl_data f1" "dframe f1 f2"
      using st_ppas_spec [OF _ a(2), of "unat x"] x n(1) by auto
    have "ftl_data f1 = (ftl_data f)(lpas ! unat x := None)"
      using unmap_data [OF a(4)] frame_dframe [OF a(3)] by (simp add: dframe_def)
    then have "ftl_data f2 = ftl_data fb |` (- (\<lambda>k. lpas ! unat k) ` set (done @ [x]))"
      using I b(3) by (auto simp: fun_eq_iff restrict_map_def)
    moreover have "?f x f = Some f2"
      using a(1) b(1) x n(2) by (simp add: ld_nth_def)
    ultimately show "\<exists>f'. ?f x f = Some f' \<and> ?I (done @ [x]) f'"
      using b(2) dframe_trans [OF df b(4)] by blast
  qed
  then obtain f where f: "foldM ?f (words_below n) ?fb2 = Some f" "?I (words_below n) f" by blast
  have "(\<lambda>k. lpas ! unat k) ` set (words_below n) = set (take (unat n) lpas)"
    using words_below_take [OF n(2)] by (metis set_map)
  moreover have "ftl_lock f = 0" "dframe ?fb1 (relock (Suc 0) f)"
    using relock_dframe [of ?fb1 f] f(2) l1 by blast+
  moreover have "del_invalidate_pgs fb n lpas = Some (unlock_ftl f)"
    using lock_ops(1) [OF l1] f(1) by (simp add: del_invalidate_pgs_def)
  ultimately show ?thesis
    using f(2) lock_ops(2) [of f] dframe_trans [OF f1] by simp
qed

section \<open>Discarding\<close>

text \<open>The logical pages a discard of \<open>n\<close> pages from page \<open>s\<close> on removes.\<close>

definition lpa_range :: "nat \<Rightarrow> nat \<Rightarrow> u32 set" where
  "lpa_range s n = {lpa. s \<le> unat lpa \<and> unat lpa < s + n}"

lemma lpa_range_nth:
  assumes "s + n \<le> 2 ^ 32"
  shows "set (map (\<lambda>k. of_nat (s + k)) [0..<n]) = lpa_range s n"
proof -
  have "lpa \<in> (\<lambda>k. of_nat (s + k)) ` {0..<n}" if "s \<le> unat lpa" "unat lpa < s + n" for lpa :: u32
    using that by (intro image_eqI [where x = "unat lpa - s"]) auto
  moreover have "unat (of_nat (s + k) :: u32) = s + k" if "k < n" for k
    using that assms by (intro unat_of_nat_u32) simp
  ultimately show ?thesis by (auto simp: lpa_range_def simp del: of_nat_add)
qed

lemma lpa_range_zero [simp]: "lpa_range s 0 = {}"
  by (auto simp: lpa_range_def)

lemma lpa_range_split: "lpa_range s (a + b) = lpa_range s a \<union> lpa_range (s + a) b"
  by (auto simp: lpa_range_def)

lemma lpa_range_valid:
  assumes "s + n \<le> NUM_LOG_PAGES" "l \<in> lpa_range s n"
  shows "is_valid_address_range l"
  using assms by (simp add: lpa_range_def is_valid_address_range_def word_less_nat_alt NUM_LOG_PAGES_value)

lemma restrict_restrict_compl: "(m |` (- A)) |` (- B) = m |` (- (A \<union> B))"
  by (auto simp: restrict_map_def fun_eq_iff)

lemma st_discard_spec:
  assumes "i < length (lpas_to_discard (ptr_mapping_context fb))"
  shows "st_lpas_to_discard fb i x = Some (set_ftl fb ((get_ftl fb)\<lparr>lpas_to_discard :=
    (lpas_to_discard (ptr_mapping_context fb))[i := x]\<rparr>))"
  using assms by (simp add: st_lpas_to_discard_def st_nth_def get_ftl_def)

abbreviation discards :: "fb_context_t \<Rightarrow> u32 list" where
  "discards fb \<equiv> lpas_to_discard (ptr_mapping_context fb)"

definition discard_state :: "fb_context_t \<Rightarrow> nat \<Rightarrow> nat \<Rightarrow> nat \<Rightarrow> u32 \<times> fb_context_t \<Rightarrow> bool" where
  "discard_state fb0 s m k st \<longleftrightarrow> (case st of (bio_loop, fb) \<Rightarrow>
     ftl_ok fb \<and> hframe fb0 fb \<and> fb_wbuf fb = fb_wbuf fb0 \<and> unat bio_loop = k \<and> k < 2048 \<and>
     ftl_data fb = ftl_data fb0 |` (- lpa_range s m) \<and>
     take k (discards fb) = map (\<lambda>j. of_nat (s + m + j)) [0..<k])"

lemma discard_batch_spec:
  assumes st: "discard_state fb0 s m k (bio_loop, fb)" and lock: "ftl_lock fb0 = 1"
    and lens: "length (discards fb0) = 2048" "nr_ppas fb0 = 2048"
    and room: "s + m + Suc k \<le> NUM_LOG_PAGES" and lpa: "ucast (lpa_start + ucast lp_loop) = (of_nat (s + m + k) :: u32)"
  shows "\<exists>st'. discard_batch lpa_start lp_loop (bio_loop, fb) = Some st' \<and>
    (if k = 2047 then discard_state fb0 s (m + 2048) 0 st' else discard_state fb0 s m (Suc k) st')"
proof -
  have S: "ftl_ok fb" "hframe fb0 fb" "fb_wbuf fb = fb_wbuf fb0" "unat bio_loop = k" "k < 2048"
    "ftl_data fb = ftl_data fb0 |` (- lpa_range s m)" "take k (discards fb) = map (\<lambda>j. of_nat (s + m + j)) [0..<k]"
    using st by (simp_all add: discard_state_def)
  have len: "length (discards fb) = 2048" "nr_ppas fb = 2048" "ftl_lock fb = 1"
    using S(2) lens lock by (simp_all add: hframe_def)
  let ?D = "(discards fb)[k := of_nat (s + m + k)]"
  let ?fb1 = "set_ftl fb ((get_ftl fb)\<lparr>lpas_to_discard := ?D\<rparr>)"
  have k: "k < length (discards fb)" using S(5) len(1) by simp
  have st1: "st_lpas_to_discard fb (unat bio_loop) (ucast (lpa_start + ucast lp_loop)) = Some ?fb1"
    using st_discard_spec [OF k] S(4) lpa by simp
  have f1: "discards ?fb1 = ?D" "hframe fb ?fb1" "fb_wbuf ?fb1 = fb_wbuf fb" "ftl_lock ?fb1 = 1" "nr_ppas ?fb1 = 2048"
    "ftl_data ?fb1 = ftl_data fb"
    using len by (simp_all add: set_ftl_def get_ftl_def hframe_def) (rule ftl_data_eqI, simp_all)
  have i1: "ftl_ok ?fb1"
    using ftl_invD(1) [OF S(1)]
    by (intro ftl_inv_cong [OF S(1)]) (simp_all add: set_ftl_def get_ftl_def sizes_ok_def)
  have D: "take (Suc k) ?D = map (\<lambda>j. of_nat (s + m + j)) [0..<Suc k]"
    using S(7) by (simp add: list_update_at_gap [OF k])
  have last: "bio_loop = NR_MAX_LPAS_DISCARD - 1 \<longleftrightarrow> k = 2047"
    using S(4) by (auto simp: NR_MAX_LPAS_DISCARD_def word_unat_eq_iff)
  show ?thesis
  proof (cases "k = 2047")
    case False
    then have "discard_batch lpa_start lp_loop (bio_loop, fb) = Some (bio_loop + 1, ?fb1)"
      using st1 last by (simp add: discard_batch_def)
    moreover have "unat (bio_loop + 1) = Suc k"
      using S(4,5) by (simp add: unat_word_ariths(1))
    then have "discard_state fb0 s m (Suc k) (bio_loop + 1, ?fb1)"
      using S f1 i1 D False hframe_trans [OF S(2) f1(2)] by (simp add: discard_state_def del: upt_Suc)
    ultimately show ?thesis using False by simp
  next
    case True
    have u: "unat (NR_MAX_LPAS_DISCARD :: u32) = 2048" by (simp add: NR_MAX_LPAS_DISCARD_def)
    have set: "set (take 2048 ?D) = lpa_range (s + m) 2048"
      using D True lpa_range_nth [of "s + m" 2048] room by (simp add: NUM_LOG_PAGES_value del: upt_Suc)
    have valid: "\<forall>l \<in> set (take (unat (NR_MAX_LPAS_DISCARD :: u32)) ?D). is_valid_address_range l"
      unfolding u set using lpa_range_valid [of "s + m" 2048] room True by simp
    obtain fb2 where 2: "del_invalidate_pgs ?fb1 NR_MAX_LPAS_DISCARD ?D = Some fb2" "ftl_ok fb2" "dframe ?fb1 fb2"
      "ftl_data fb2 = ftl_data ?fb1 |` (- set (take 2048 ?D))"
      using del_invalidate_pgs_spec [OF i1 f1(4) _ _ valid] f1(5) len(1) u by auto
    have "discard_batch lpa_start lp_loop (bio_loop, fb) = Some (0, fb2)"
      using st1 last True 2(1) f1(1) by (simp add: discard_batch_def get_ftl_def)
    moreover have "ftl_data fb2 = ftl_data fb0 |` (- lpa_range s (m + 2048))"
      using 2(4) f1(6) S(6) by (simp only: set lpa_range_split restrict_restrict_compl)
    moreover have "hframe fb0 fb2" "fb_wbuf fb2 = fb_wbuf fb0"
      using 2(3) hframe_trans [OF hframe_trans [OF S(2) f1(2)], of fb2] f1(3) S(3) by (simp_all add: dframe_def)
    ultimately show ?thesis using True 2(2) by (auto simp: discard_state_def)
  qed
qed

lemma words_below_at:
  fixes n :: u32
  assumes "words_below n = done @ x # rest"
  shows "length done < unat n" "x = of_nat (length done)" "unat x = length done"
proof -
  have l: "length (done @ x # rest) = unat n" unfolding assms [symmetric] by simp
  then show k: "length done < unat n" by simp
  have "x = words_below n ! length done" unfolding assms by simp
  then show "x = of_nat (length done)" using nth_words_below [OF k] by simp
  then show "unat x = length done" using unat_of_nat_below [OF k] by simp
qed

lemma discard_lpa:
  fixes lpa_start :: u64 and x :: u32
  assumes "unat lpa_start + unat x < 2 ^ 32"
  shows "ucast (lpa_start + ucast x) = (of_nat (unat lpa_start + unat x) :: u32)"
proof -
  have "unat (ucast x :: u64) = unat x"
    using unsigned_less [of x, where ?'a = nat] by (simp add: unsigned_ucast_eq take_bit_nat_eq_self)
  then have "unat (lpa_start + ucast x) = unat lpa_start + unat x"
    using assms by (simp add: unat_word_ariths(1))
  then show ?thesis by (metis of_nat_unat)
qed

lemma wb_drop_loop:
  assumes ready: "wb_ready n fb" and room: "unat lpa_start + unat c \<le> 2 ^ 32"
  shows "\<exists>w. foldM (\<lambda>lp_loop fb. do {
         wb \<leftarrow> fb_rm_buf_pg (fb_wbuf fb) (ucast ((lpa_start :: u64) + ucast lp_loop));
         Some (fb\<lparr>fb_wbuf := wb\<rparr>) }) (words_below (c :: u32)) fb = Some (fb\<lparr>fb_wbuf := w\<rparr>) \<and>
    wb_ready n (fb\<lparr>fb_wbuf := w\<rparr>) \<and> wb_view w = wb_view (fb_wbuf fb) |` (- lpa_range (unat lpa_start) (unat c))"
proof -
  let ?f = "\<lambda>lp_loop fb. do {
         wb \<leftarrow> fb_rm_buf_pg (fb_wbuf fb) (ucast (lpa_start + ucast lp_loop));
         Some (fb\<lparr>fb_wbuf := wb\<rparr>) }"
  let ?s = "unat lpa_start"
  let ?I = "\<lambda>done f. \<exists>w. f = fb\<lparr>fb_wbuf := w\<rparr> \<and> wb_ready n f \<and>
      wb_view w = wb_view (fb_wbuf fb) |` (- lpa_range ?s (length done))"
  have "\<exists>f. foldM ?f (words_below c) fb = Some f \<and> ?I (words_below c) f"
  proof (rule foldM_rule [where I = ?I])
    show "?I [] fb" using ready by (intro exI [of _ "fb_wbuf fb"]) (simp add: restrict_map_def)
    fix "done" x rest f
    assume w: "words_below c = done @ x # rest" and I: "?I done f"
    note at = words_below_at [OF w]
    obtain wb where wb: "f = fb\<lparr>fb_wbuf := wb\<rparr>" "wb_ready n f"
      "wb_view wb = wb_view (fb_wbuf fb) |` (- lpa_range ?s (length done))" using I by blast
    let ?l = "ucast (lpa_start + ucast x) :: u32"
    have l: "?l = of_nat (?s + length done)" using discard_lpa [of lpa_start x] at room by simp
    obtain wb' where r: "fb_rm_buf_pg wb ?l = Some wb'" "wb_wf n wb'" "wb_view wb' = (wb_view wb)(?l := None)"
      "buf_lpas wb' = remove1 ?l (buf_lpas wb)" "writing_pgs wb' = []"
      using wb_rm_buf_pg [of n wb ?l] wb by (auto simp: wb_ready_def)
    have "lpa_range ?s (Suc (length done)) = insert ?l (lpa_range ?s (length done))"
    proof -
      have "lpa_range (?s + length done) 1 = {?l}"
        using lpa_range_nth [of "?s + length done" 1] at(1) room unfolding l by simp
      then show ?thesis using lpa_range_split [of ?s "length done" 1] by simp
    qed
    then have "wb_view wb' = wb_view (fb_wbuf fb) |` (- lpa_range ?s (length (done @ [x])))"
      using r(3) wb(3) by (auto simp: restrict_map_def fun_eq_iff)
    moreover have "wb_ready n (fb\<lparr>fb_wbuf := wb'\<rparr>)"
      using r wb by (auto simp: wb_ready_def dest: set_remove1_subset [THEN subsetD])
    moreover have "?f x f = Some (fb\<lparr>fb_wbuf := wb'\<rparr>)" using r(1) wb(1) by simp
    ultimately show "\<exists>f'. ?f x f = Some f' \<and> ?I (done @ [x]) f'" by auto
  qed
  then show ?thesis by auto
qed

lemma make_discard_spec:
  fixes bi_sector :: u64 and bi_size :: u32
  defines "s \<equiv> unat (drop_bit 3 (discard_start bi_sector))" and "m \<equiv> unat (discard_count bi_sector bi_size)"
  assumes inv: "ftl_ok fb" and lock: "ftl_lock fb = 1" and ready: "wb_ready n fb"
    and lens: "length (discards fb) = 2048" "nr_ppas fb = 2048" and room: "s + m \<le> NUM_LOG_PAGES"
  shows "\<exists>fb'. make_discard_request_page_mapping fb bi_sector bi_size = Some (0, fb') \<and> ftl_ok fb' \<and> hframe fb fb' \<and>
    wb_ready n fb' \<and> device_view fb' = device_view fb |` (- lpa_range s m)"
proof -
  let ?lpa = "drop_bit 3 (discard_start bi_sector)" and ?nr = "discard_count bi_sector bi_size"
  let ?c = "ucast ?nr :: u32"
  have m32: "m < 2 ^ 32" and s32: "s + m < 2 ^ 32" using room by (simp_all add: NUM_LOG_PAGES_value)
  have c: "unat ?c = m" using m32 by (simp add: unsigned_ucast_eq take_bit_nat_eq_self m_def)
  let ?fb1 = "upd_perf (upd_perf fb perf_inc_nr_discard_reqs) (perf_inc_nr_discard_lpgs ?c)"
  have i1: "ftl_ok ?fb1"
    using ftl_invD(1) [OF inv] by (intro ftl_inv_cong [OF inv]) (simp_all add: upd_perf_def sizes_ok_def)
  have f1: "hframe fb ?fb1" "wb_ready n ?fb1" "fb_wbuf ?fb1 = fb_wbuf fb" "ftl_data ?fb1 = ftl_data fb"
    using ready by (simp_all add: upd_perf_def hframe_def wb_ready_def) (rule ftl_data_eqI, simp_all)
  have room1: "unat ?lpa + unat ?c \<le> 2 ^ 32" using s32 unfolding c s_def by simp
  obtain w where w: "foldM (\<lambda>lp_loop fb. do {
         wb \<leftarrow> fb_rm_buf_pg (fb_wbuf fb) (ucast (?lpa + ucast lp_loop));
         Some (fb\<lparr>fb_wbuf := wb\<rparr>) }) (words_below ?c) ?fb1 = Some (?fb1\<lparr>fb_wbuf := w\<rparr>)"
    "wb_ready n (?fb1\<lparr>fb_wbuf := w\<rparr>)" "wb_view w = wb_view (fb_wbuf fb) |` (- lpa_range s m)"
    using wb_drop_loop [OF f1(2) room1] f1(3) c by (auto simp: s_def)
  let ?fb2 = "?fb1\<lparr>fb_wbuf := w\<rparr>"
  have f2: "hframe fb ?fb2" "ftl_data ?fb2 = ftl_data fb" using f1 by simp_all
  have l2: "ftl_lock ?fb2 = 1" "length (discards ?fb2) = 2048" "nr_ppas ?fb2 = 2048"
    using f2(1) lock lens by (simp_all add: hframe_def)
  let ?I = "\<lambda>done st. \<exists>j k. j + k = length done \<and> discard_state ?fb2 s j k st"
  have "\<exists>st. foldM (discard_batch ?lpa) (words_below ?c) (0, ?fb2) = Some st \<and> ?I (words_below ?c) st"
  proof (rule foldM_rule [where I = ?I])
    have "discard_state ?fb2 s 0 0 (0, ?fb2)"
      using i1 by (auto simp: discard_state_def restrict_map_def)
    then show "?I [] (0, ?fb2)" by (intro exI [of _ 0]) simp
    fix "done" x rest st
    assume wb: "words_below ?c = done @ x # rest" and I: "?I done st"
    note at = words_below_at [OF wb]
    obtain j k where jk: "j + k = length done" "discard_state ?fb2 s j k st" using I by blast
    obtain bl f where st: "st = (bl, f)" by (cases st)
    have lpa: "ucast (?lpa + ucast x) = (of_nat (s + j + k) :: u32)"
      using discard_lpa [of ?lpa x] at jk(1) c s32 by (simp add: s_def add.assoc)
    have r: "s + j + Suc k \<le> NUM_LOG_PAGES" using at(1) jk(1) c room by simp
    obtain st' where b: "discard_batch ?lpa x (bl, f) = Some st'"
      "if k = 2047 then discard_state ?fb2 s (j + 2048) 0 st' else discard_state ?fb2 s j (Suc k) st'"
      using discard_batch_spec [OF jk(2) [unfolded st] l2 r lpa] by blast
    have "?I (done @ [x]) st'"
    proof (cases "k = 2047")
      case True
      then show ?thesis using b(2) jk(1) by (intro exI [of _ "j + 2048"] exI [of _ 0]) simp
    next
      case False
      then show ?thesis using b(2) jk(1) by (intro exI [of _ j] exI [of _ "Suc k"]) simp
    qed
    then show "\<exists>st'. discard_batch ?lpa x st = Some st' \<and> ?I (done @ [x]) st'" using b(1) st by auto
  qed
  then obtain bl f j k where f: "foldM (discard_batch ?lpa) (words_below ?c) (0, ?fb2) = Some (bl, f)"
    "j + k = m" "discard_state ?fb2 s j k (bl, f)" using c by (auto simp: split_paired_Ex)
  have S: "ftl_ok f" "hframe ?fb2 f" "fb_wbuf f = w" "unat bl = k" "k < 2048"
    "ftl_data f = ftl_data fb |` (- lpa_range s j)" "take k (discards f) = map (\<lambda>i. of_nat (s + j + i)) [0..<k]"
    using f(3) f2(2) by (simp_all add: discard_state_def)
  have "\<exists>f'. (if bl \<noteq> 0 then del_invalidate_pgs f bl (lpas_to_discard (get_ftl f)) else Some f) = Some f' \<and>
      ftl_ok f' \<and> hframe ?fb2 f' \<and> fb_wbuf f' = w \<and> ftl_data f' = ftl_data fb |` (- lpa_range s m)"
  proof (cases "bl = 0")
    case True
    then show ?thesis using S f(2) by simp
  next
    case False
    have set: "set (take k (discards f)) = lpa_range (s + j) k"
      using S(7) lpa_range_nth [of "s + j" k] f(2) s32 by simp
    have valid: "\<forall>l \<in> set (take (unat bl) (discards f)). is_valid_address_range l"
      unfolding S(4) set using lpa_range_valid [of "s + j" k] room f(2) by simp
    have l: "ftl_lock f = 1" "unat bl \<le> nr_ppas f" "unat bl \<le> length (discards f)"
      using S(2,4,5) l2 by (simp_all add: hframe_def)
    obtain f' where f': "del_invalidate_pgs f bl (discards f) = Some f'" "ftl_ok f'" "dframe f f'"
      "ftl_data f' = ftl_data f |` (- set (take (unat bl) (discards f)))"
      using del_invalidate_pgs_spec [OF S(1) l valid] by blast
    have "ftl_data f' = ftl_data fb |` (- lpa_range s m)"
      using f'(4) by (simp only: S(4,6) set f(2) [symmetric] lpa_range_split restrict_restrict_compl)
    then show ?thesis
      using False f'(1-3) S(3) hframe_trans [OF S(2), of f'] by (simp add: dframe_def get_ftl_def)
  qed
  then obtain f' where f': "(if bl \<noteq> 0 then del_invalidate_pgs f bl (lpas_to_discard (get_ftl f)) else Some f) = Some f'"
    "ftl_ok f'" "hframe ?fb2 f'" "fb_wbuf f' = w" "ftl_data f' = ftl_data fb |` (- lpa_range s m)" by blast
  have "make_discard_request_page_mapping fb bi_sector bi_size = Some (0, f')"
    using w(1) f(1) f'(1) by (simp add: make_discard_request_page_mapping_def Let_def)
  moreover have "hframe fb f'" by (rule hframe_trans [OF f2(1) f'(3)])
  moreover have "wb_ready n f'" using w(2) f'(4) by (simp add: wb_ready_def)
  moreover have "device_view f' = device_view fb |` (- lpa_range s m)"
    using f'(4,5) w(3) by (auto simp: device_view_def map_add_def restrict_map_def fun_eq_iff split: option.splits)
  ultimately show ?thesis using f'(2) by blast
qed

end
