(* ===== verification/FB_Queue.thy ===== *)
theory FB_Queue
  imports FB_Config FB_Completion FB_Context
begin

text \<open>
  The operation queue of a chip in \<open>bus_controller.c\<close>: a circular array of
  \<open>num_max_entries\<close> operations with head, tail and count. It implements a bounded first-in
  first-out queue; the interface \<open>bounded_fifo\<close> states what the bus controller relies on.
  Entries are pairs of an operation and the bio it belongs to, if any.
\<close>

section \<open>The circular queue\<close>

type_synonym fb_operation_t = "fb_dev_op_t \<times> nat option"

record fb_opr_queue_t =
  num_max_entries :: u32
  num_entries :: u32
  queue_head :: u32
  queue_tail :: u32
  opr_list :: "fb_operation_t list"
  queue_lock :: completion

text \<open>\<open>junk\<close> is the previous contents of the allocated entry array.\<close>

definition create_opr_queue :: "(nat \<Rightarrow> fb_operation_t) \<Rightarrow> u32 \<Rightarrow> fb_opr_queue_t" where
  "create_opr_queue junk n = \<lparr>num_max_entries = n, num_entries = 0, queue_head = 0, queue_tail = 0,
     opr_list = map junk [0..<unat n], queue_lock = complete 0\<rparr>"

definition lock_queue :: "fb_opr_queue_t \<Rightarrow> fb_opr_queue_t option" where
  "lock_queue q = map_option (\<lambda>c. q\<lparr>queue_lock := c\<rparr>) (acquire (queue_lock q))"

definition unlock_queue :: "fb_opr_queue_t \<Rightarrow> fb_opr_queue_t" where
  "unlock_queue q = q\<lparr>queue_lock := complete (queue_lock q)\<rparr>"

definition opr_queue_put_entry :: "fb_opr_queue_t \<Rightarrow> fb_operation_t \<Rightarrow> (int \<times> fb_opr_queue_t) option" where
  "opr_queue_put_entry q entry = do {
     q \<leftarrow> lock_queue q;
     if num_entries q = num_max_entries q then Some (-1, unlock_queue q)
     else do {
       xs \<leftarrow> st_nth (opr_list q) (unat (queue_head q)) entry;
       let q = q\<lparr>opr_list := xs, queue_head := queue_head q + 1\<rparr>;
       let q = (if queue_head q = num_max_entries q then q\<lparr>queue_head := 0\<rparr> else q);
       Some (0, unlock_queue (q\<lparr>num_entries := num_entries q + 1\<rparr>)) } }"

text \<open>The entry delivered is \<open>None\<close> when the call leaves its output parameters alone.\<close>

definition opr_queue_get_first :: "fb_opr_queue_t \<Rightarrow> (int \<times> fb_operation_t option \<times> fb_opr_queue_t) option" where
  "opr_queue_get_first q = do {
     q \<leftarrow> lock_queue q;
     if num_entries q = 0 then Some (-1, None, unlock_queue q)
     else do {
       e \<leftarrow> ld_nth (opr_list q) (unat (queue_tail q));
       Some (0, Some e, unlock_queue q) } }"

definition opr_queue_remove_first :: "fb_opr_queue_t \<Rightarrow> (int \<times> fb_opr_queue_t) option" where
  "opr_queue_remove_first q = do {
     q \<leftarrow> lock_queue q;
     if num_entries q = 0 then Some (-1, unlock_queue q)
     else do {
       let q = q\<lparr>queue_tail := queue_tail q + 1\<rparr>;
       let q = (if queue_tail q = num_max_entries q then q\<lparr>queue_tail := 0\<rparr> else q);
       Some (0, unlock_queue (q\<lparr>num_entries := num_entries q - 1\<rparr>)) } }"

section \<open>The interface\<close>

locale bounded_fifo =
  fixes rep :: "'s \<Rightarrow> 'a list \<Rightarrow> bool"
    and cap :: nat
    and put :: "'s \<Rightarrow> 'a \<Rightarrow> (int \<times> 's) option"
    and first :: "'s \<Rightarrow> (int \<times> 'a option \<times> 's) option"
    and drop1 :: "'s \<Rightarrow> (int \<times> 's) option"
    and count :: "'s \<Rightarrow> nat"
  assumes rep_count: "rep s xs \<Longrightarrow> count s = length xs \<and> length xs \<le> cap"
    and put_room: "rep s xs \<Longrightarrow> length xs < cap \<Longrightarrow> \<exists>s'. put s x = Some (0, s') \<and> rep s' (xs @ [x])"
    and put_full: "rep s xs \<Longrightarrow> length xs = cap \<Longrightarrow> put s x = Some (-1, s)"
    and first_rep: "rep s xs \<Longrightarrow> first s = Some (case xs of [] \<Rightarrow> (-1, None, s) | x # _ \<Rightarrow> (0, Some x, s))"
    and drop_rep: "rep s xs \<Longrightarrow> \<exists>s'. drop1 s = Some (if xs = [] then (-1, s') else (0, s')) \<and> rep s' (tl xs)"
begin

text \<open>Taking entries out one by one delivers them in the order they went in.\<close>

primrec take_out :: "nat \<Rightarrow> 's \<Rightarrow> ('a list \<times> 's) option" where
  "take_out 0 s = Some ([], s)"
| "take_out (Suc k) s = do {
     (r, e, s) \<leftarrow> first s;
     (_, s) \<leftarrow> drop1 s;
     (es, s) \<leftarrow> take_out k s;
     Some ((case e of None \<Rightarrow> es | Some x \<Rightarrow> x # es), s) }"

lemma take_out_order:
  "rep s xs \<Longrightarrow> k \<le> length xs \<Longrightarrow> \<exists>s'. take_out k s = Some (take k xs, s') \<and> rep s' (drop k xs)"
proof (induction k arbitrary: s xs)
  case (Suc k)
  then obtain x ys where xs: "xs = x # ys" by (cases xs) auto
  obtain s1 where 1: "drop1 s = Some (0, s1)" "rep s1 ys" using drop_rep [OF Suc.prems(1)] xs by auto
  obtain s2 where 2: "take_out k s1 = Some (take k ys, s2)" "rep s2 (drop k ys)"
    using Suc.IH [OF 1(2)] Suc.prems(2) xs by auto
  then show ?case using first_rep [OF Suc.prems(1)] 1(1) xs by auto
qed simp

primrec put_all :: "'a list \<Rightarrow> 's \<Rightarrow> 's option" where
  "put_all [] s = Some s"
| "put_all (x # xs) s = do { (r, s) \<leftarrow> put s x; if r = 0 then put_all xs s else None }"

lemma put_all_rep:
  "rep s xs \<Longrightarrow> length xs + length ys \<le> cap \<Longrightarrow> \<exists>s'. put_all ys s = Some s' \<and> rep s' (xs @ ys)"
proof (induction ys arbitrary: s xs)
  case (Cons y ys)
  obtain s1 where 1: "put s y = Some (0, s1)" "rep s1 (xs @ [y])" using put_room [OF Cons.prems(1)] Cons.prems(2) by auto
  then show ?case using Cons.IH [OF 1(2)] Cons.prems(2) by auto
qed simp

end

section \<open>The circular queue implements it\<close>

definition opr_rep :: "u32 \<Rightarrow> fb_opr_queue_t \<Rightarrow> fb_operation_t list \<Rightarrow> bool" where
  "opr_rep n q xs \<longleftrightarrow> 0 < n \<and> num_max_entries q = n \<and> length (opr_list q) = unat n \<and>
     length xs \<le> unat n \<and> num_entries q = of_nat (length xs) \<and> queue_tail q < n \<and>
     unat (queue_head q) = (unat (queue_tail q) + length xs) mod unat n \<and>
     (\<forall>k < length xs. opr_list q ! ((unat (queue_tail q) + k) mod unat n) = xs ! k) \<and> queue_lock q = 1"

lemma next_slot:
  fixes i n :: u32
  assumes "i < n"
  shows "unat (if i + 1 = n then 0 else i + 1) = Suc (unat i) mod unat n"
proof -
  have l: "unat i < unat n" "unat n < 2 ^ 32"
    using assms unsigned_less [of n, where ?'a = nat] by (simp_all add: word_less_nat_alt)
  then have u: "unat (i + 1) = Suc (unat i)" by (simp add: unat_word_ariths(1))
  show ?thesis
  proof (cases "i + 1 = n")
    case True
    then show ?thesis using u by auto
  next
    case False
    then have "Suc (unat i) < unat n" using l(1) u by (metis Suc_lessI word_unat_eq_iff)
    then show ?thesis using False u by simp
  qed
qed

lemma mod_add_inj:
  fixes t k m n :: nat
  assumes "k < n" "m < n" "(t + k) mod n = (t + m) mod n"
  shows "k = m"
proof -
  have le: "x = y" if "x \<le> y" "y < n" "(t + x) mod n = (t + y) mod n" for x y
  proof -
    have "n dvd (t + y) - (t + x)"
      using mod_eq_dvd_iff_nat [of "t + x" "t + y" n] that(1,3) by simp
    then have "n dvd y - x" by simp
    then show "x = y" using that(1,2) by (metis diff_is_0_eq' dvd_imp_le le_antisym less_imp_diff_less
          linorder_not_less zero_less_diff)
  qed
  show ?thesis using le [of k m] le [of m k] assms by (cases "k \<le> m") simp_all
qed

lemma queue_unlock [simp]:
  "queue_lock q = Suc 0 \<Longrightarrow> lock_queue q = Some (q\<lparr>queue_lock := 0\<rparr>)"
  "queue_lock q = 0 \<Longrightarrow> unlock_queue q = q\<lparr>queue_lock := Suc 0\<rparr>"
  by (simp_all add: lock_queue_def unlock_queue_def)

lemma opr_repD:
  assumes "opr_rep n q xs"
  shows "0 < n" "num_max_entries q = n" "length (opr_list q) = unat n" "length xs \<le> unat n"
    "num_entries q = of_nat (length xs)" "queue_tail q < n" "unat (queue_tail q) < unat n" "0 < unat n"
    "unat (queue_head q) = (unat (queue_tail q) + length xs) mod unat n"
    "k < length xs \<Longrightarrow> opr_list q ! ((unat (queue_tail q) + k) mod unat n) = xs ! k" "queue_lock q = Suc 0"
    "num_entries q = n \<longleftrightarrow> length xs = unat n" "num_entries q = 0 \<longleftrightarrow> xs = []" "queue_head q < n"
proof -
  have l: "length xs < 2 ^ 32"
    using assms unsigned_less [of n, where ?'a = nat] by (auto simp: opr_rep_def)
  show "num_entries q = n \<longleftrightarrow> length xs = unat n" "num_entries q = 0 \<longleftrightarrow> xs = []"
    using assms l by (auto simp: opr_rep_def word_unat_eq_iff unat_of_nat_u32)
  have "0 < unat n" using assms by (simp add: opr_rep_def word_less_nat_alt)
  then show "0 < unat n" "queue_head q < n" using assms by (auto simp: opr_rep_def word_less_nat_alt)
qed (use assms in \<open>auto simp: opr_rep_def word_less_nat_alt\<close>)

lemma queue_same: "queue_lock q = Suc 0 \<Longrightarrow> q\<lparr>queue_lock := Suc 0\<rparr> = q"
  by (cases q) simp

lemma put_entry_room:
  assumes rep: "opr_rep n q xs" and room: "length xs < unat n"
  shows "\<exists>q'. opr_queue_put_entry q e = Some (0, q') \<and> opr_rep n q' (xs @ [e])"
proof -
  note D = opr_repD [OF rep]
  let ?h = "unat (queue_head q)"
  have h: "?h < unat n" using D(14) by (simp add: word_less_nat_alt)
  let ?h' = "if queue_head q + 1 = n then 0 else queue_head q + 1"
  let ?q = "q\<lparr>num_entries := num_entries q + 1, queue_head := ?h',
      opr_list := (opr_list q)[?h := e]\<rparr>"
  have "opr_queue_put_entry q e = Some (0, ?q)"
    using D room h by (cases q) (auto simp: opr_queue_put_entry_def st_nth_def Let_def)
  moreover have "opr_rep n ?q (xs @ [e])"
    unfolding opr_rep_def
  proof (intro conjI allI impI)
    show "unat (queue_head ?q) = (unat (queue_tail ?q) + length (xs @ [e])) mod unat n"
      using next_slot [OF D(14)] D(9) by (simp add: mod_Suc_eq)
    fix k assume k: "k < length (xs @ [e])"
    show "opr_list ?q ! ((unat (queue_tail ?q) + k) mod unat n) = (xs @ [e]) ! k"
    proof (cases "k = length xs")
      case True
      then show ?thesis using D(3,9) h by simp
    next
      case False
      then have k': "k < length xs" using k by simp
      have "(unat (queue_tail q) + k) mod unat n \<noteq> ?h"
        using mod_add_inj [of k "unat n" "length xs" "unat (queue_tail q)"] k' room D(9) by auto
      then show ?thesis using D(10) [OF k'] k' by (simp add: nth_append)
    qed
  qed (use D room in auto)
  ultimately show ?thesis by blast
qed

lemma remove_first_rep:
  assumes rep: "opr_rep n q (x # xs)"
  shows "\<exists>q'. opr_queue_remove_first q = Some (0, q') \<and> opr_rep n q' xs"
proof -
  note D = opr_repD [OF rep]
  let ?t' = "if queue_tail q + 1 = n then 0 else queue_tail q + 1"
  let ?q = "q\<lparr>num_entries := num_entries q - 1, queue_tail := ?t'\<rparr>"
  note t' = next_slot [OF D(6)]
  have t: "(unat ?t' + k) mod unat n = (unat (queue_tail q) + Suc k) mod unat n" for k
    unfolding t' by (simp add: mod_add_left_eq)
  have "opr_queue_remove_first q = Some (0, ?q)"
    using D by (cases q) (auto simp: opr_queue_remove_first_def Let_def)
  moreover have "opr_rep n ?q xs"
    unfolding opr_rep_def
  proof (intro conjI allI impI)
    show "unat (queue_head ?q) = (unat (queue_tail ?q) + length xs) mod unat n"
      using D(9) t [of "length xs"] by simp
    show "queue_tail ?q < n" using t' D(8) by (simp add: word_less_nat_alt)
    fix k assume k: "k < length xs"
    show "opr_list ?q ! ((unat (queue_tail ?q) + k) mod unat n) = xs ! k"
      using D(10) [of "Suc k"] k t [of k] by simp
  qed (use D in auto)
  ultimately show ?thesis by blast
qed

interpretation oq: bounded_fifo "opr_rep n" "unat n" opr_queue_put_entry opr_queue_get_first
  opr_queue_remove_first "\<lambda>q. unat (num_entries q)" for n
proof unfold_locales
  show "unat (num_entries q) = length xs \<and> length xs \<le> unat n" if "opr_rep n q xs" for q xs
    using opr_repD(4,5) [OF that] unsigned_less [of n, where ?'a = nat] by (simp add: unat_of_nat_u32)
  show "\<exists>q'. opr_queue_put_entry q e = Some (0, q') \<and> opr_rep n q' (xs @ [e])"
    if "opr_rep n q xs" "length xs < unat n" for q xs e
    using put_entry_room [OF that] .
  show "opr_queue_put_entry q e = Some (-1, q)" if "opr_rep n q xs" "length xs = unat n" for q xs e
    using opr_repD(2,11,12) [OF that(1)] that(2) by (simp add: opr_queue_put_entry_def queue_same)
  show "opr_queue_get_first q = Some (case xs of [] \<Rightarrow> (-1, None, q) | x # _ \<Rightarrow> (0, Some x, q))"
    if "opr_rep n q xs" for q xs
    using opr_repD [OF that] opr_repD(10) [OF that, of 0]
    by (cases xs) (auto simp: opr_queue_get_first_def ld_nth_def queue_same)
  show "\<exists>q'. opr_queue_remove_first q = Some (if xs = [] then (-1, q') else (0, q')) \<and> opr_rep n q' (tl xs)"
    if "opr_rep n q xs" for q xs
  proof (cases xs)
    case Nil
    then show ?thesis
      using that opr_repD(11,13) [OF that] by (simp add: opr_queue_remove_first_def queue_same)
  next
    case (Cons x ys)
    then show ?thesis using remove_first_rep [of n q x ys] that by auto
  qed
qed

lemma create_opr_queue_rep: "0 < n \<Longrightarrow> opr_rep n (create_opr_queue junk n) []"
  by (simp add: opr_rep_def create_opr_queue_def complete_def word_less_nat_alt)

section \<open>Properties\<close>

text \<open>
  C18. The circular queue is a bounded first-in first-out queue: a new queue accepts as
  many operations as it has entries and refuses one more without changing; taking operations
  out returns them in the order they were put in, however often head and tail wrapped around before.
\<close>

theorem opr_queue_fifo:
  assumes "opr_rep n q xs" "length xs + length ys = unat n" "k \<le> unat n"
  shows "\<exists>q' q''. oq.put_all ys q = Some q' \<and> opr_queue_put_entry q' e = Some (-1, q') \<and>
    oq.take_out k q' = Some (take k (xs @ ys), q'') \<and> opr_rep n q'' (drop k (xs @ ys))"
proof -
  obtain q' where q': "oq.put_all ys q = Some q'" "opr_rep n q' (xs @ ys)"
    using oq.put_all_rep [OF assms(1), of ys] assms(2) by auto
  have "opr_queue_put_entry q' e = Some (-1, q')" using oq.put_full [OF q'(2)] assms(2) by simp
  moreover obtain q'' where "oq.take_out k q' = Some (take k (xs @ ys), q'')" "opr_rep n q'' (drop k (xs @ ys))"
    using oq.take_out_order [OF q'(2), of k] assms(2,3) by auto
  ultimately show ?thesis using q'(1) by blast
qed

theorem opr_queue_fifo_witness:
  "\<exists>q' q''. oq.put_all [(OP_READ, Some 1), (OP_PROG, None), (OP_BERS, None), (OP_READ, Some 2)]
      (create_opr_queue (\<lambda>_. (OP_PROG, None)) 4) = Some q' \<and>
    opr_queue_put_entry q' (OP_READ, None) = Some (-1, q') \<and>
    oq.take_out 2 q' = Some ([(OP_READ, Some 1), (OP_PROG, None)], q'')"
proof -
  let ?ys = "[(OP_READ, Some 1), (OP_PROG, None), (OP_BERS, None), (OP_READ, Some 2)] :: fb_operation_t list"
  have r: "opr_rep 4 (create_opr_queue (\<lambda>_. (OP_PROG, None)) 4) []" by (rule create_opr_queue_rep) simp
  have t: "take 2 ([] @ ?ys) = [(OP_READ, Some 1), (OP_PROG, None)]" by simp
  have "\<exists>q' q''. oq.put_all ?ys (create_opr_queue (\<lambda>_. (OP_PROG, None)) 4) = Some q' \<and>
      opr_queue_put_entry q' (OP_READ, None) = Some (-1, q') \<and>
      oq.take_out 2 q' = Some (take 2 ([] @ ?ys), q'') \<and> opr_rep 4 q'' (drop 2 ([] @ ?ys))"
    by (rule opr_queue_fifo [OF r]) simp_all
  then show ?thesis unfolding t by blast
qed

end
