(* ===== verification/FB_Bus.thy ===== *)
theory FB_Bus
  imports FB_Queue FB_Vdevice
begin

text \<open>
  The bus controller, \<open>bus_controller.c\<close>: per chip an operation queue and a busy time, and the
  controller thread that releases chips whose operation is over and starts the next one. Times are
  32-bit microseconds read from a clock; \<open>now\<close> is what the thread reads at the start of a round and
  \<open>clk chip\<close> what it reads when it starts an operation on \<open>chip\<close>. The requests of the block layer
  that operations belong to (\<open>struct fb_bio_t\<close>, from \<open>main.c\<close>) live in a heap; completing one is an event.
\<close>

section \<open>Requests in flight\<close>

record fb_bio_t =
  req_count :: u32
  fbio_lpas :: "u32 list"
  fbio_kpages :: "nat list"
  fbio_bio :: nat
  bio_lock :: completion

text \<open>\<open>fbios\<close> is the heap of \<open>vmalloc\<close>ed requests, \<open>endio\<close> the completed bios in order.\<close>

record io_state =
  fbios :: "bioptr \<Rightarrow> fb_bio_t option"
  endio :: "nat list"

definition dec_bio_req_count :: "fb_bio_t \<Rightarrow> (u32 \<times> fb_bio_t) option" where
  "dec_bio_req_count fbio = do {
     c \<leftarrow> acquire (bio_lock fbio);
     let fbio = fbio\<lparr>bio_lock := c, req_count := req_count fbio - 1\<rparr>;
     Some (req_count fbio, fbio\<lparr>bio_lock := complete (bio_lock fbio)\<rparr>) }"

text \<open>Counting down a request and completing and freeing it at zero, as the read path and the bus thread do.\<close>

definition finish_one :: "bioptr \<Rightarrow> io_state \<Rightarrow> io_state option" where
  "finish_one p io = do {
     fbio \<leftarrow> fbios io p;
     (n, fbio) \<leftarrow> dec_bio_req_count fbio;
     Some (if n = 0 then io\<lparr>fbios := (fbios io)(p := None), endio := endio io @ [fbio_bio fbio]\<rparr>
           else io\<lparr>fbios := (fbios io)(p := Some fbio)\<rparr>) }"

section \<open>Busy chips\<close>

record fb_chip_busy_t =
  wakeup_time_in_us :: u32
  issue_time_in_us :: u32
  chip_busy :: completion
  busy_bio :: "bioptr option"

record fb_bus_controller_t =
  num_bus :: u32
  ptr_opr_queue :: "fb_opr_queue_t list"
  chip_busies :: "fb_chip_busy_t list"
  flag_enable_thread :: u32

definition is_acquired :: "fb_chip_busy_t \<Rightarrow> bool" where
  "is_acquired busy \<longleftrightarrow> wakeup_time_in_us busy \<noteq> 0 \<or> issue_time_in_us busy \<noteq> 0"

definition create_bus_controller :: "(nat \<Rightarrow> fb_operation_t) \<Rightarrow> fb_bus_controller_t \<Rightarrow> u32 \<Rightarrow> fb_bus_controller_t" where
  "create_bus_controller junk_list junk n = junk\<lparr>
     ptr_opr_queue := replicate NUM_CHIPS_PER_BUS (create_opr_queue junk_list n),
     chip_busies := replicate NUM_CHIPS_PER_BUS \<lparr>wakeup_time_in_us = 0, issue_time_in_us = 0,
       chip_busy = complete 0, busy_bio = None\<rparr>\<rparr>"

text \<open>\<open>threads_start\<close> stands for \<open>kthread_run\<close>: whether it returned a valid task.\<close>

definition fb_init_bus_ctrl_thread :: "bool \<Rightarrow> int" where
  "fb_init_bus_ctrl_thread started = (let rc = (if started then 0 else 1) :: int in if rc < 0 then -1 else 0)"

text \<open>
  \<open>fb_bus_controller_init\<close> when the allocations succeed; the controllers of all buses, or \<open>None\<close> for its failure path.
\<close>

definition fb_bus_controller_init ::
  "bool \<Rightarrow> (nat \<Rightarrow> fb_operation_t) \<Rightarrow> fb_bus_controller_t \<Rightarrow> u32 \<Rightarrow> fb_bus_controller_t list option" where
  "fb_bus_controller_init started junk_list junk n =
     (let bcs = map (\<lambda>bus. (create_bus_controller junk_list junk n)\<lparr>flag_enable_thread := 1, num_bus := bus\<rparr>)
        (words_below NUM_BUSES)
      in if \<forall>bc \<in> set bcs. fb_init_bus_ctrl_thread started = 0 then Some bcs else None)"

definition release_busy_lock :: "nat \<Rightarrow> fb_bus_controller_t \<times> io_state \<Rightarrow> (fb_bus_controller_t \<times> io_state) option" where
  "release_busy_lock chip st = (case st of (bc, io) \<Rightarrow> do {
     busy \<leftarrow> ld_nth (chip_busies bc) chip;
     let busy = busy\<lparr>wakeup_time_in_us := 0, issue_time_in_us := 0\<rparr>;
     case busy_bio busy of
       None \<Rightarrow> Some (bc\<lparr>chip_busies := (chip_busies bc)[chip := busy]\<rparr>, io)
     | Some p \<Rightarrow> do {
         io \<leftarrow> finish_one p io;
         Some (bc\<lparr>chip_busies := (chip_busies bc)[chip := busy\<lparr>busy_bio := None\<rparr>]\<rparr>, io) } })"

definition acquire_busy_lock :: "u32 \<Rightarrow> nat \<Rightarrow> fb_operation_t \<Rightarrow> fb_bus_controller_t \<Rightarrow> fb_bus_controller_t option" where
  "acquire_busy_lock time chip entry bc = do {
     busy \<leftarrow> ld_nth (chip_busies bc) chip;
     Some (bc\<lparr>chip_busies := (chip_busies bc)[chip := busy\<lparr>issue_time_in_us := time,
       wakeup_time_in_us := time + operation_time (fst entry), busy_bio := snd entry\<rparr>]\<rparr>) }"

text \<open>\<open>do_gettimeofday\<close> delivers seconds and microseconds; the sum is cut to 32 bits.\<close>

definition timer_get_timestamp_in_us :: "int \<Rightarrow> int \<Rightarrow> u32" where
  "timer_get_timestamp_in_us tv_sec tv_usec = of_int (tv_sec * 1000000 + tv_usec)"

section \<open>The controller thread\<close>

text \<open>The two phases of a round; \<open>None\<close> in the second is a fault, its \<open>-1\<close> the jump to \<open>FINISH\<close>.\<close>

definition release_phase :: "u32 \<Rightarrow> fb_bus_controller_t \<times> io_state \<Rightarrow> (fb_bus_controller_t \<times> io_state) option" where
  "release_phase now = foldM (\<lambda>chip (bc, io). do {
     busy \<leftarrow> ld_nth (chip_busies bc) chip;
     if wakeup_time_in_us busy > 0 \<and> wakeup_time_in_us busy \<le> now then release_busy_lock chip (bc, io)
     else Some (bc, io) }) [0..<NUM_CHIPS_PER_BUS]"

definition start_chip :: "(nat \<Rightarrow> u32) \<Rightarrow> nat \<Rightarrow> fb_bus_controller_t \<Rightarrow> (int option \<times> fb_bus_controller_t) option" where
  "start_chip clk chip bc = do {
     q \<leftarrow> ld_nth (ptr_opr_queue bc) chip;
     busy \<leftarrow> ld_nth (chip_busies bc) chip;
     if num_entries q = 0 \<or> is_acquired busy then Some (None, bc)
     else do {
       (ret, entry, q) \<leftarrow> opr_queue_get_first q;
       let bc = bc\<lparr>ptr_opr_queue := (ptr_opr_queue bc)[chip := q]\<rparr>;
       if ret = -1 then Some (Some (-1), bc)
       else do {
         entry \<leftarrow> entry;
         bc \<leftarrow> acquire_busy_lock (clk chip) chip entry bc;
         (_, q) \<leftarrow> opr_queue_remove_first q;
         Some (None, bc\<lparr>ptr_opr_queue := (ptr_opr_queue bc)[chip := q]\<rparr>) } } }"

definition start_phase :: "(nat \<Rightarrow> u32) \<Rightarrow> fb_bus_controller_t \<Rightarrow> (int option \<times> fb_bus_controller_t) option" where
  "start_phase clk = for_ret (start_chip clk) [0..<NUM_CHIPS_PER_BUS]"

definition fb_bus_ctrl_round ::
  "u32 \<Rightarrow> (nat \<Rightarrow> u32) \<Rightarrow> fb_bus_controller_t \<times> io_state \<Rightarrow> (fb_bus_controller_t \<times> io_state) option" where
  "fb_bus_ctrl_round now clk st = do {
     (bc, io) \<leftarrow> release_phase now st;
     (r, bc) \<leftarrow> start_phase clk bc;
     Some (if r \<noteq> None then bc\<lparr>flag_enable_thread := 0\<rparr> else bc, io) }"

text \<open>The rounds of the thread for a sequence of clock readings, while it is enabled.\<close>

fun fb_bus_ctrl_thread ::
  "(u32 \<times> (nat \<Rightarrow> u32)) list \<Rightarrow> fb_bus_controller_t \<times> io_state \<Rightarrow> (fb_bus_controller_t \<times> io_state) option" where
  "fb_bus_ctrl_thread [] st = Some st"
| "fb_bus_ctrl_thread ((now, clk) # rounds) st =
     (if flag_enable_thread (fst st) = 0 then Some st
      else do { st \<leftarrow> fb_bus_ctrl_round now clk st; fb_bus_ctrl_thread rounds st })"

text \<open>
  \<open>fb_issue_operation\<close> tries to put the operation until the queue takes it; \<open>sched\<close> holds the rounds the
  thread makes after each refused attempt. The result is \<open>None\<close> when the queue is still full at its end.
\<close>

fun fb_issue_operation ::
  "(u32 \<times> (nat \<Rightarrow> u32)) list list \<Rightarrow> nat \<Rightarrow> fb_operation_t \<Rightarrow> fb_bus_controller_t \<times> io_state
    \<Rightarrow> (fb_bus_controller_t \<times> io_state) option" where
  "fb_issue_operation sched chip entry (bc, io) = do {
     q \<leftarrow> ld_nth (ptr_opr_queue bc) chip;
     (ret, q) \<leftarrow> opr_queue_put_entry q entry;
     let bc = bc\<lparr>ptr_opr_queue := (ptr_opr_queue bc)[chip := q]\<rparr>;
     if ret \<noteq> -1 then Some (bc, io)
     else (case sched of
         [] \<Rightarrow> None
       | rounds # sched \<Rightarrow> do {
           st \<leftarrow> fb_bus_ctrl_thread rounds (bc, io);
           fb_issue_operation sched chip entry st }) }"

declare fb_issue_operation.simps [simp del]

section \<open>The queues and busy times of the chips\<close>

definition bus_rep :: "u32 \<Rightarrow> fb_bus_controller_t \<Rightarrow> (nat \<Rightarrow> fb_operation_t list) \<Rightarrow> bool" where
  "bus_rep n bc Q \<longleftrightarrow> length (ptr_opr_queue bc) = NUM_CHIPS_PER_BUS \<and> length (chip_busies bc) = NUM_CHIPS_PER_BUS \<and>
     (\<forall>c < NUM_CHIPS_PER_BUS. opr_rep n (ptr_opr_queue bc ! c) (Q c))"

lemma two_chips: "c < NUM_CHIPS_PER_BUS \<longleftrightarrow> c = 0 \<or> c = (1 :: nat)" "[0..<NUM_CHIPS_PER_BUS] = [0, 1]"
  by (auto simp: NUM_CHIPS_PER_BUS_def upt_rec)

lemma bus_repD:
  assumes "bus_rep n bc Q" "c < NUM_CHIPS_PER_BUS"
  shows "ld_nth (ptr_opr_queue bc) c = Some (ptr_opr_queue bc ! c)" "ld_nth (chip_busies bc) c = Some (chip_busies bc ! c)"
    "opr_rep n (ptr_opr_queue bc ! c) (Q c)" "c < length (chip_busies bc)" "c < length (ptr_opr_queue bc)"
  using assms by (simp_all add: bus_rep_def ld_nth_def)

lemma bus_rep_busy: "bus_rep n bc Q \<Longrightarrow> bus_rep n (bc\<lparr>chip_busies := (chip_busies bc)[c := b]\<rparr>) Q"
  by (simp add: bus_rep_def)

lemma bus_rep_queue:
  assumes "bus_rep n bc Q" "opr_rep n q xs" "c < NUM_CHIPS_PER_BUS"
  shows "bus_rep n (bc\<lparr>ptr_opr_queue := (ptr_opr_queue bc)[c := q]\<rparr>) (Q(c := xs))"
  using assms by (auto simp: bus_rep_def nth_list_update)

text \<open>Starting the oldest operation of a free chip; everything else stays as it is.\<close>

lemma start_chip_spec:
  assumes rep: "bus_rep n bc Q" and c: "c < NUM_CHIPS_PER_BUS"
  shows "\<exists>bc'. start_chip clk c bc = Some (None, bc') \<and> num_bus bc' = num_bus bc \<and>
    flag_enable_thread bc' = flag_enable_thread bc \<and>
    (if Q c = [] \<or> is_acquired (chip_busies bc ! c) then bc' = bc
     else bus_rep n bc' (Q(c := tl (Q c))) \<and>
       chip_busies bc' = (chip_busies bc)[c := (chip_busies bc ! c)\<lparr>issue_time_in_us := clk c,
         wakeup_time_in_us := clk c + operation_time (fst (hd (Q c))), busy_bio := snd (hd (Q c))\<rparr>])"
proof -
  note D = bus_repD [OF rep c]
  have n0: "num_entries (ptr_opr_queue bc ! c) = 0 \<longleftrightarrow> Q c = []" by (rule opr_repD(13) [OF D(3)])
  show ?thesis
  proof (cases "Q c = [] \<or> is_acquired (chip_busies bc ! c)")
    case True
    then show ?thesis using D(1,2) n0 by (simp add: start_chip_def)
  next
    case False
    then obtain e xs where Q: "Q c = e # xs" by (cases "Q c") auto
    obtain q' where q': "opr_queue_remove_first (ptr_opr_queue bc ! c) = Some (0, q')" "opr_rep n q' xs"
      using oq.drop_rep [OF D(3)] Q by auto
    have f: "opr_queue_get_first (ptr_opr_queue bc ! c) = Some (0, Some e, ptr_opr_queue bc ! c)"
      using oq.first_rep [OF D(3)] Q by simp
    have same: "bc\<lparr>ptr_opr_queue := (ptr_opr_queue bc)[c := ptr_opr_queue bc ! c]\<rparr> = bc" by simp
    let ?busies = "(chip_busies bc)[c := (chip_busies bc ! c)\<lparr>issue_time_in_us := clk c,
         wakeup_time_in_us := clk c + operation_time (fst e), busy_bio := snd e\<rparr>]"
    let ?bc = "bc\<lparr>ptr_opr_queue := (ptr_opr_queue bc)[c := q'], chip_busies := ?busies\<rparr>"
    have eq: "start_chip clk c bc = Some (None, ?bc)"
      using D(1,2) n0 False Q f q'(1) same by (simp add: start_chip_def acquire_busy_lock_def Let_def)
    have "bus_rep n ?bc (Q(c := xs))"
      using rep q'(2) c by (auto simp: bus_rep_def nth_list_update)
    then show ?thesis using eq False Q by simp
  qed
qed

lemma started_acquired:
  "is_acquired (busy\<lparr>issue_time_in_us := t, wakeup_time_in_us := t + operation_time op, busy_bio := p\<rparr>)"
proof -
  have "operation_time op \<noteq> 0" by (cases op) simp_all
  then show ?thesis by (auto simp: is_acquired_def)
qed

section \<open>Every request is completed exactly once\<close>

text \<open>The operations of a request that are queued or running.\<close>

definition refs_at :: "(nat \<Rightarrow> fb_operation_t list) \<Rightarrow> fb_chip_busy_t list \<Rightarrow> nat \<Rightarrow> bioptr \<Rightarrow> nat" where
  "refs_at Q bs c p = count_list (map snd (Q c)) (Some p) + (if busy_bio (bs ! c) = Some p then 1 else 0)"

definition refs :: "(nat \<Rightarrow> fb_operation_t list) \<Rightarrow> fb_chip_busy_t list \<Rightarrow> bioptr \<Rightarrow> nat" where
  "refs Q bs p = refs_at Q bs 0 p + refs_at Q bs 1 p"

text \<open>
  \<open>pend p\<close> operations of request \<open>p\<close> are still to be issued. A live request has at least one operation
  outstanding and counts exactly those; a freed one is referenced nowhere.
\<close>

definition live_ok :: "(bioptr \<Rightarrow> nat) \<Rightarrow> (nat \<Rightarrow> fb_operation_t list) \<Rightarrow> fb_chip_busy_t list \<Rightarrow> io_state \<Rightarrow> bool" where
  "live_ok pend Q bs io \<longleftrightarrow> (\<forall>p. case fbios io p of
     None \<Rightarrow> refs Q bs p + pend p = 0
   | Some b \<Rightarrow> unat (req_count b) = refs Q bs p + pend p \<and> 0 < refs Q bs p + pend p \<and> bio_lock b = 1)"

definition bus_inv :: "u32 \<Rightarrow> (bioptr \<Rightarrow> nat) \<Rightarrow> (nat \<Rightarrow> fb_operation_t list) \<Rightarrow> fb_bus_controller_t \<times> io_state \<Rightarrow> bool" where
  "bus_inv n pend Q st \<longleftrightarrow> (case st of (bc, io) \<Rightarrow> bus_rep n bc Q \<and> live_ok pend Q (chip_busies bc) io \<and>
     (\<forall>c < NUM_CHIPS_PER_BUS. \<not> is_acquired (chip_busies bc ! c) \<longrightarrow> busy_bio (chip_busies bc ! c) = None))"

text \<open>The requests completed between two states, each once and in order.\<close>

definition completed :: "io_state \<Rightarrow> io_state \<Rightarrow> bioptr list \<Rightarrow> bool" where
  "completed io io' ps \<longleftrightarrow> distinct ps \<and> set ps = {p. fbios io p \<noteq> None \<and> fbios io' p = None} \<and>
     (\<forall>p. fbios io p = None \<longrightarrow> fbios io' p = None) \<and>
     (\<forall>p b'. fbios io' p = Some b' \<longrightarrow> (\<exists>b. fbios io p = Some b \<and> fbio_bio b' = fbio_bio b \<and>
        fbio_lpas b' = fbio_lpas b \<and> fbio_kpages b' = fbio_kpages b)) \<and>
     endio io' = endio io @ map (\<lambda>p. fbio_bio (the (fbios io p))) ps"

lemma completed_refl: "completed io io []"
  by (auto simp: completed_def)

lemma completed_trans:
  assumes a: "completed io io1 ps" and b: "completed io1 io2 qs"
  shows "completed io io2 (ps @ qs)"
proof -
  have A: "distinct ps" "set ps = {p. fbios io p \<noteq> None \<and> fbios io1 p = None}"
    "\<And>p. fbios io p = None \<Longrightarrow> fbios io1 p = None"
    "\<And>p b. fbios io1 p = Some b \<Longrightarrow> \<exists>b0. fbios io p = Some b0 \<and> fbio_bio b = fbio_bio b0 \<and>
        fbio_lpas b = fbio_lpas b0 \<and> fbio_kpages b = fbio_kpages b0"
    "endio io1 = endio io @ map (\<lambda>p. fbio_bio (the (fbios io p))) ps"
    using a unfolding completed_def by blast+
  have B: "distinct qs" "set qs = {p. fbios io1 p \<noteq> None \<and> fbios io2 p = None}"
    "\<And>p. fbios io1 p = None \<Longrightarrow> fbios io2 p = None"
    "\<And>p b. fbios io2 p = Some b \<Longrightarrow> \<exists>b0. fbios io1 p = Some b0 \<and> fbio_bio b = fbio_bio b0 \<and>
        fbio_lpas b = fbio_lpas b0 \<and> fbio_kpages b = fbio_kpages b0"
    "endio io2 = endio io1 @ map (\<lambda>p. fbio_bio (the (fbios io1 p))) qs"
    using b unfolding completed_def by blast+
  have m: "map (\<lambda>p. fbio_bio (the (fbios io1 p))) qs = map (\<lambda>p. fbio_bio (the (fbios io p))) qs"
  proof (rule map_cong [OF refl])
    fix p assume "p \<in> set qs"
    then obtain b where "fbios io1 p = Some b" using B(2) by auto
    then show "fbio_bio (the (fbios io1 p)) = fbio_bio (the (fbios io p))" using A(4) by fastforce
  qed
  have s: "set (ps @ qs) = {p. fbios io p \<noteq> None \<and> fbios io2 p = None}"
    using A(2,3) B(2,3) by auto
  have "\<exists>b0. fbios io p = Some b0 \<and> fbio_bio b = fbio_bio b0 \<and> fbio_lpas b = fbio_lpas b0 \<and> fbio_kpages b = fbio_kpages b0"
    if "fbios io2 p = Some b" for p b using B(4) [OF that] A(4) by fastforce
  moreover have "distinct (ps @ qs)" using A(1,2) B(1,2) by auto
  ultimately show ?thesis
    unfolding completed_def using s A(3,5) B(3,5) m by simp
qed

lemma finish_one_spec:
  assumes b: "fbios io p = Some b" "bio_lock b = 1" and cnt: "unat (req_count b) = Suc k"
  shows "\<exists>io' ps. finish_one p io = Some io' \<and> completed io io' ps \<and> (\<forall>q. q \<noteq> p \<longrightarrow> fbios io' q = fbios io q) \<and>
    (if k = 0 then fbios io' p = None
     else \<exists>b'. fbios io' p = Some b' \<and> unat (req_count b') = k \<and> bio_lock b' = 1)"
proof -
  have u: "unat (req_count b - 1) = k"
    using cnt by (metis diff_Suc_1 unat_eq_zero unat_minus_one Zero_not_Suc)
  let ?b = "b\<lparr>req_count := req_count b - 1\<rparr>"
  have d: "dec_bio_req_count b = Some (req_count b - 1, ?b)"
    using b(2) by (cases b) (simp add: dec_bio_req_count_def Let_def)
  have z: "req_count b - 1 = 0 \<longleftrightarrow> k = 0" using u by (metis unat_eq_zero)
  let ?io = "if k = 0 then io\<lparr>fbios := (fbios io)(p := None), endio := endio io @ [fbio_bio b]\<rparr>
    else io\<lparr>fbios := (fbios io)(p := Some ?b)\<rparr>"
  have "finish_one p io = Some ?io" using b(1) d z by (auto simp: finish_one_def)
  moreover have "completed io ?io (if k = 0 then [p] else [])"
    using b(1) by (auto simp: completed_def split: if_splits)
  ultimately show ?thesis using b(2) u by (cases "k = 0") (auto intro!: exI [of _ ?io])
qed

section \<open>One round of the thread\<close>

text \<open>
  What a round does to one chip, as a function of its queue and busy entry: an operation whose time
  is over is taken off, and the oldest operation of a free chip is started at time \<open>t\<close>.
\<close>

definition due :: "u32 \<Rightarrow> fb_chip_busy_t \<Rightarrow> bool" where
  "due now b \<longleftrightarrow> 0 < wakeup_time_in_us b \<and> wakeup_time_in_us b \<le> now"

definition freed :: "fb_chip_busy_t \<Rightarrow> fb_chip_busy_t" where
  "freed b = b\<lparr>wakeup_time_in_us := 0, issue_time_in_us := 0, busy_bio := None\<rparr>"

definition started :: "u32 \<Rightarrow> fb_operation_t \<Rightarrow> fb_chip_busy_t \<Rightarrow> fb_chip_busy_t" where
  "started t e b = b\<lparr>issue_time_in_us := t, wakeup_time_in_us := t + operation_time (fst e), busy_bio := snd e\<rparr>"

definition release_if_due :: "u32 \<Rightarrow> fb_chip_busy_t \<Rightarrow> fb_chip_busy_t" where
  "release_if_due now b = (if due now b then freed b else b)"

definition start_if_free :: "u32 \<Rightarrow> fb_operation_t list \<times> fb_chip_busy_t \<Rightarrow> fb_operation_t list \<times> fb_chip_busy_t" where
  "start_if_free t qb = (case qb of (xs, b) \<Rightarrow>
     if xs = [] \<or> is_acquired b then (xs, b) else (tl xs, started t (hd xs) b))"

definition chip_round :: "u32 \<Rightarrow> u32 \<Rightarrow> fb_operation_t list \<times> fb_chip_busy_t \<Rightarrow> fb_operation_t list \<times> fb_chip_busy_t" where
  "chip_round now t qb = start_if_free t (fst qb, release_if_due now (snd qb))"

lemma is_acquired_started [simp]: "is_acquired (started t e b)"
  unfolding started_def by (rule started_acquired)

lemma not_acquired_freed [simp]: "\<not> is_acquired (freed b)" "busy_bio (freed b) = None"
  by (simp_all add: freed_def is_acquired_def)

lemma due_acquired: "due now b \<Longrightarrow> is_acquired b"
  by (auto simp: due_def is_acquired_def)

lemma refs_other: "refs Q (bs[c := b]) p = refs Q bs p"
  if "c < NUM_CHIPS_PER_BUS" "length bs = NUM_CHIPS_PER_BUS" "busy_bio b = busy_bio (bs ! c)"
  using that by (auto simp: refs_def refs_at_def two_chips(1) nth_list_update)

lemma refs_freed:
  assumes "c < NUM_CHIPS_PER_BUS" "length bs = NUM_CHIPS_PER_BUS" "busy_bio b = None"
  shows "refs Q (bs[c := b]) p + (if busy_bio (bs ! c) = Some p then 1 else 0) = refs Q bs p"
  using assms by (auto simp: refs_def refs_at_def two_chips(1) nth_list_update)

lemma refs_started:
  assumes "c < NUM_CHIPS_PER_BUS" "length bs = NUM_CHIPS_PER_BUS" "Q c = e # xs"
    "busy_bio (bs ! c) = None" "busy_bio b = snd e"
  shows "refs (Q(c := xs)) (bs[c := b]) p = refs Q bs p"
  using assms by (auto simp: refs_def refs_at_def two_chips(1) nth_list_update)

lemma refs_put:
  assumes "c < NUM_CHIPS_PER_BUS"
  shows "refs (Q(c := Q c @ [e])) bs p = refs Q bs p + (if snd e = Some p then 1 else 0)"
  using assms by (auto simp: refs_def refs_at_def two_chips(1))

lemma bus_invD:
  assumes "bus_inv n pend Q (bc, io)"
  shows "bus_rep n bc Q" "live_ok pend Q (chip_busies bc) io" "length (chip_busies bc) = NUM_CHIPS_PER_BUS"
    "c < NUM_CHIPS_PER_BUS \<Longrightarrow> \<not> is_acquired (chip_busies bc ! c) \<Longrightarrow> busy_bio (chip_busies bc ! c) = None"
  using assms by (auto simp: bus_inv_def bus_rep_def)

lemma live_ok_cong:
  assumes "\<And>p. refs Q' bs' p + pend' p = refs Q bs p + pend p"
  shows "live_ok pend' Q' bs' io = live_ok pend Q bs io"
  by (simp add: live_ok_def assms cong: option.case_cong)

text \<open>Releasing a chip.\<close>

lemma release_busy_lock_spec:
  assumes inv: "bus_inv n pend Q (bc, io)" and c: "c < NUM_CHIPS_PER_BUS"
  shows "\<exists>io' ps. release_busy_lock c (bc, io) =
      Some (bc\<lparr>chip_busies := (chip_busies bc)[c := freed (chip_busies bc ! c)]\<rparr>, io') \<and>
    bus_inv n pend Q (bc\<lparr>chip_busies := (chip_busies bc)[c := freed (chip_busies bc ! c)]\<rparr>, io') \<and>
    completed io io' ps"
proof -
  note I = bus_invD [OF inv] and D = bus_repD [OF bus_invD(1) [OF inv] c]
  let ?b = "chip_busies bc ! c" and ?bs = "(chip_busies bc)[c := freed (chip_busies bc ! c)]"
  note rf = refs_freed [OF c I(3) not_acquired_freed(2), of Q]
  have rep: "bus_rep n (bc\<lparr>chip_busies := ?bs\<rparr>) Q" using bus_rep_busy [OF I(1)] by simp
  have free: "\<not> is_acquired (?bs ! k) \<Longrightarrow> busy_bio (?bs ! k) = None" if "k < NUM_CHIPS_PER_BUS" for k
    using I(4) [OF that] D(4) by (cases "k = c") auto
  show ?thesis
  proof (cases "busy_bio ?b")
    case None
    have fr: "freed ?b = ?b\<lparr>wakeup_time_in_us := 0, issue_time_in_us := 0\<rparr>"
      using None by (cases ?b) (simp add: freed_def)
    have "refs Q ?bs p = refs Q (chip_busies bc) p" for p using rf [of ?b p] None by simp
    then have "live_ok pend Q ?bs io" using I(2) live_ok_cong [of Q ?bs pend Q "chip_busies bc" pend] by simp
    then show ?thesis
      using None D(2) rep free completed_refl fr by (auto simp: release_busy_lock_def bus_inv_def Let_def)
  next
    case (Some p)
    have ge: "0 < refs Q (chip_busies bc) p" using rf [of ?b p] Some by simp
    obtain r where r: "fbios io p = Some r" "unat (req_count r) = refs Q (chip_busies bc) p + pend p" "bio_lock r = 1"
      using I(2) ge unfolding live_ok_def by (auto split: option.splits dest!: spec [of _ p])
    obtain k where k: "refs Q (chip_busies bc) p + pend p = Suc k" using ge by (cases "refs Q (chip_busies bc) p + pend p") auto
    obtain io' ps where io': "finish_one p io = Some io'" "completed io io' ps" "\<And>q. q \<noteq> p \<Longrightarrow> fbios io' q = fbios io q"
      "if k = 0 then fbios io' p = None else \<exists>r'. fbios io' p = Some r' \<and> unat (req_count r') = k \<and> bio_lock r' = 1"
      using finish_one_spec [OF r(1,3), of k] r(2) k by auto
    have same: "refs Q ?bs q = refs Q (chip_busies bc) q" if "q \<noteq> p" for q using rf [of ?b q] Some that by simp
    have one: "refs Q ?bs p + pend p = k" using rf [of ?b p] Some k by simp
    have "live_ok pend Q ?bs io'"
      unfolding live_ok_def
    proof
      fix q
      show "case fbios io' q of None \<Rightarrow> refs Q ?bs q + pend q = 0
        | Some b \<Rightarrow> unat (req_count b) = refs Q ?bs q + pend q \<and> 0 < refs Q ?bs q + pend q \<and> bio_lock b = 1"
      proof (cases "q = p")
        case True
        then show ?thesis using io'(4) one by (cases "k = 0") auto
      next
        case False
        then show ?thesis using I(2) same [OF False] io'(3) [OF False] by (simp add: live_ok_def cong: option.case_cong)
      qed
    qed
    then show ?thesis
      using Some D(2) rep free io'(1,2) by (auto simp: release_busy_lock_def bus_inv_def freed_def Let_def)
  qed
qed

abbreviation set_busy :: "fb_bus_controller_t \<Rightarrow> nat \<Rightarrow> fb_chip_busy_t \<Rightarrow> fb_bus_controller_t" where
  "set_busy bc c b \<equiv> bc\<lparr>chip_busies := (chip_busies bc)[c := b]\<rparr>"

lemma release_step_spec:
  assumes inv: "bus_inv n pend Q (bc, io)" and c: "c < NUM_CHIPS_PER_BUS"
  shows "\<exists>io' ps. (do {
       busy \<leftarrow> ld_nth (chip_busies bc) c;
       if wakeup_time_in_us busy > 0 \<and> wakeup_time_in_us busy \<le> now then release_busy_lock c (bc, io)
       else Some (bc, io) }) = Some (set_busy bc c (release_if_due now (chip_busies bc ! c)), io') \<and>
    bus_inv n pend Q (set_busy bc c (release_if_due now (chip_busies bc ! c)), io') \<and> completed io io' ps"
proof (cases "due now (chip_busies bc ! c)")
  case True
  then show ?thesis
    using release_busy_lock_spec [OF inv c] bus_repD(2) [OF bus_invD(1) [OF inv] c]
    by (simp add: release_if_due_def due_def)
next
  case False
  then show ?thesis
    using bus_repD(2) [OF bus_invD(1) [OF inv] c] inv completed_refl
    by (auto simp: release_if_due_def due_def)
qed

lemma release_phase_spec:
  assumes inv: "bus_inv n pend Q (bc, io)"
  shows "\<exists>bc' io' ps. release_phase now (bc, io) = Some (bc', io') \<and> bus_inv n pend Q (bc', io') \<and> completed io io' ps \<and>
    bc' = bc\<lparr>chip_busies := map (release_if_due now) (chip_busies bc)\<rparr>"
proof -
  note len = bus_invD(3) [OF inv]
  let ?bc1 = "set_busy bc 0 (release_if_due now (chip_busies bc ! 0))"
  obtain io1 ps where 1: "(do {
       busy \<leftarrow> ld_nth (chip_busies bc) 0;
       if wakeup_time_in_us busy > 0 \<and> wakeup_time_in_us busy \<le> now then release_busy_lock 0 (bc, io)
       else Some (bc, io) }) = Some (?bc1, io1)" "bus_inv n pend Q (?bc1, io1)" "completed io io1 ps"
    using release_step_spec [OF inv, of 0 now] by (auto simp: two_chips(1))
  let ?bc2 = "set_busy ?bc1 1 (release_if_due now (chip_busies ?bc1 ! 1))"
  obtain io2 qs where 2: "(do {
       busy \<leftarrow> ld_nth (chip_busies ?bc1) 1;
       if wakeup_time_in_us busy > 0 \<and> wakeup_time_in_us busy \<le> now then release_busy_lock 1 (?bc1, io1)
       else Some (?bc1, io1) }) = Some (?bc2, io2)" "bus_inv n pend Q (?bc2, io2)" "completed io1 io2 qs"
    using release_step_spec [OF 1(2), of 1 now] by (auto simp: two_chips(1))
  have "?bc2 = bc\<lparr>chip_busies := map (release_if_due now) (chip_busies bc)\<rparr>"
    using len by (cases "chip_busies bc" rule: remdups_adj.cases) (auto simp: NUM_CHIPS_PER_BUS_def)
  moreover have "release_phase now (bc, io) = Some (?bc2, io2)"
    unfolding release_phase_def two_chips(2) foldM.simps prod.case 1(1) bind.bind_lunit 2(1) by simp
  ultimately show ?thesis using 2(2) completed_trans [OF 1(3) 2(3)] by auto
qed

text \<open>Starting the oldest operation of a free chip.\<close>

lemma start_step_spec:
  assumes inv: "bus_inv n pend Q (bc, io)" and c: "c < NUM_CHIPS_PER_BUS"
    and r: "start_if_free (clk c) (Q c, chip_busies bc ! c) = (xs, b)"
  shows "\<exists>bc'. start_chip clk c bc = Some (None, bc') \<and> bus_inv n pend (Q(c := xs)) (bc', io) \<and>
    num_bus bc' = num_bus bc \<and> flag_enable_thread bc' = flag_enable_thread bc \<and>
    chip_busies bc' = (chip_busies bc)[c := b]"
proof -
  note I = bus_invD [OF inv]
  obtain bc' where bc': "start_chip clk c bc = Some (None, bc')" "num_bus bc' = num_bus bc"
    "flag_enable_thread bc' = flag_enable_thread bc"
    "if Q c = [] \<or> is_acquired (chip_busies bc ! c) then bc' = bc
     else bus_rep n bc' (Q(c := tl (Q c))) \<and>
       chip_busies bc' = (chip_busies bc)[c := started (clk c) (hd (Q c)) (chip_busies bc ! c)]"
    using start_chip_spec [OF I(1) c, of clk] unfolding started_def by auto
  show ?thesis
  proof (cases "Q c = [] \<or> is_acquired (chip_busies bc ! c)")
    case True
    then have "xs = Q c" "b = chip_busies bc ! c" using r by (auto simp: start_if_free_def split: if_splits)
    then show ?thesis using True bc' inv by simp
  next
    case False
    then obtain e ys where Q: "Q c = e # ys" by (cases "Q c") auto
    have xb: "xs = ys" "b = started (clk c) e (chip_busies bc ! c)" using r False Q by (auto simp: start_if_free_def)
    have idle: "busy_bio (chip_busies bc ! c) = None" using I(4) [OF c] False by simp
    have "refs (Q(c := xs)) ((chip_busies bc)[c := b]) p = refs Q (chip_busies bc) p" for p
      using refs_started [where Q = Q and c = c, OF c I(3) Q idle, of b] xb by (simp add: started_def)
    then have "live_ok pend (Q(c := xs)) ((chip_busies bc)[c := b]) io"
      using I(2) live_ok_cong [of "Q(c := xs)" "(chip_busies bc)[c := b]" pend Q "chip_busies bc" pend] by simp
    moreover have "\<not> is_acquired ((chip_busies bc)[c := b] ! k) \<Longrightarrow> busy_bio ((chip_busies bc)[c := b] ! k) = None"
      if "k < NUM_CHIPS_PER_BUS" for k using I(4) [OF that] I(3) c xb by (cases "k = c") auto
    ultimately show ?thesis using bc' False Q xb by (auto simp: bus_inv_def)
  qed
qed

lemma start_phase_spec:
  assumes inv: "bus_inv n pend Q (bc, io)"
    and r0: "start_if_free (clk 0) (Q 0, chip_busies bc ! 0) = (xs0, b0)"
    and r1: "start_if_free (clk 1) (Q 1, chip_busies bc ! 1) = (xs1, b1)"
  shows "\<exists>bc'. start_phase clk bc = Some (None, bc') \<and> bus_inv n pend (Q(0 := xs0, 1 := xs1)) (bc', io) \<and>
    num_bus bc' = num_bus bc \<and> flag_enable_thread bc' = flag_enable_thread bc \<and> chip_busies bc' = [b0, b1]"
proof -
  note len = bus_invD(3) [OF inv]
  obtain bc1 where 1: "start_chip clk 0 bc = Some (None, bc1)" "bus_inv n pend (Q(0 := xs0)) (bc1, io)"
    "num_bus bc1 = num_bus bc" "flag_enable_thread bc1 = flag_enable_thread bc" "chip_busies bc1 = (chip_busies bc)[0 := b0]"
    using start_step_spec [where c = 0 and clk = clk, OF inv _ r0] by (auto simp: two_chips(1))
  have r1': "start_if_free (clk 1) ((Q(0 := xs0)) 1, chip_busies bc1 ! 1) = (xs1, b1)" using r1 1(5) by simp
  obtain bc2 where 2: "start_chip clk 1 bc1 = Some (None, bc2)" "bus_inv n pend (Q(0 := xs0, 1 := xs1)) (bc2, io)"
    "num_bus bc2 = num_bus bc1" "flag_enable_thread bc2 = flag_enable_thread bc1" "chip_busies bc2 = (chip_busies bc1)[1 := b1]"
    using start_step_spec [where c = 1 and clk = clk, OF 1(2) _ r1'] two_chips(1) [of 1] by blast
  have "chip_busies bc2 = [b0, b1]"
    using 1(5) 2(5) len by (cases "chip_busies bc" rule: remdups_adj.cases) (auto simp: NUM_CHIPS_PER_BUS_def)
  moreover have "start_phase clk bc = Some (None, bc2)" using 1(1) 2(1) by (simp add: start_phase_def two_chips(2))
  ultimately show ?thesis using 1(3,4) 2(2-4) by simp
qed

text \<open>A whole round never faults, and acts on each chip as \<open>chip_round\<close> says.\<close>

definition chip_state :: "(nat \<Rightarrow> fb_operation_t list) \<Rightarrow> fb_bus_controller_t \<Rightarrow> nat \<Rightarrow> fb_operation_t list \<times> fb_chip_busy_t" where
  "chip_state Q bc c = (Q c, chip_busies bc ! c)"

lemma round_spec:
  assumes inv: "bus_inv n pend Q (bc, io)"
  shows "\<exists>Q' bc' io' ps. fb_bus_ctrl_round now clk (bc, io) = Some (bc', io') \<and> bus_inv n pend Q' (bc', io') \<and>
    completed io io' ps \<and> num_bus bc' = num_bus bc \<and> flag_enable_thread bc' = flag_enable_thread bc \<and>
    (\<forall>c < NUM_CHIPS_PER_BUS. chip_state Q' bc' c = chip_round now (clk c) (chip_state Q bc c))"
proof -
  note len = bus_invD(3) [OF inv]
  let ?bc1 = "bc\<lparr>chip_busies := map (release_if_due now) (chip_busies bc)\<rparr>"
  obtain io1 ps where 1: "release_phase now (bc, io) = Some (?bc1, io1)" "bus_inv n pend Q (?bc1, io1)" "completed io io1 ps"
    using release_phase_spec [OF inv] by blast
  obtain xs0 b0 where r0: "start_if_free (clk 0) (Q 0, chip_busies ?bc1 ! 0) = (xs0, b0)" by fastforce
  obtain xs1 b1 where r1: "start_if_free (clk 1) (Q 1, chip_busies ?bc1 ! 1) = (xs1, b1)" by fastforce
  obtain bc2 where 2: "start_phase clk ?bc1 = Some (None, bc2)" "bus_inv n pend (Q(0 := xs0, 1 := xs1)) (bc2, io1)"
    "num_bus bc2 = num_bus bc" "flag_enable_thread bc2 = flag_enable_thread bc" "chip_busies bc2 = [b0, b1]"
    using start_phase_spec [OF 1(2) r0 r1] by auto
  have l: "0 < length (chip_busies bc)" "1 < length (chip_busies bc)" using len by (simp_all add: NUM_CHIPS_PER_BUS_def)
  have "chip_state (Q(0 := xs0, 1 := xs1)) bc2 c = chip_round now (clk c) (chip_state Q bc c)" if "c < NUM_CHIPS_PER_BUS" for c
    using that r0 r1 2(5) l by (auto simp: two_chips(1) chip_state_def chip_round_def)
  moreover have "fb_bus_ctrl_round now clk (bc, io) = Some (bc2, io1)" using 1(1) 2(1) by (simp add: fb_bus_ctrl_round_def)
  ultimately show ?thesis using 1(3) 2(2-4) by blast
qed

section \<open>Runs of the thread\<close>

definition all_due :: "u32 \<Rightarrow> fb_bus_controller_t \<Rightarrow> bool" where
  "all_due now bc \<longleftrightarrow> (\<forall>b \<in> set (chip_busies bc). is_acquired b \<longrightarrow> due now b)"

text \<open>The rounds of a run that find every running operation over.\<close>

fun late_rounds :: "(u32 \<times> (nat \<Rightarrow> u32)) list \<Rightarrow> fb_bus_controller_t \<times> io_state \<Rightarrow> nat" where
  "late_rounds [] st = 0"
| "late_rounds ((now, clk) # rounds) st = (if all_due now (fst st) then 1 else 0) +
     (case fb_bus_ctrl_round now clk st of None \<Rightarrow> 0 | Some st' \<Rightarrow> late_rounds rounds st')"

text \<open>The work left on a chip: two steps for a queued operation, one for a running one.\<close>

definition work :: "fb_operation_t list \<times> fb_chip_busy_t \<Rightarrow> nat" where
  "work qb = 2 * length (fst qb) + (if is_acquired (snd qb) then 1 else 0)"

lemma work_chip_round:
  "work (chip_round now t qb) \<le> work qb"
  "is_acquired (snd qb) \<Longrightarrow> due now (snd qb) \<Longrightarrow> work (chip_round now t qb) \<le> work qb - 1"
  "\<not> is_acquired (snd qb) \<Longrightarrow> work (chip_round now t qb) \<le> work qb - 1"
  by (cases qb; cases "fst qb";
      auto simp: work_def chip_round_def start_if_free_def release_if_due_def dest: due_acquired)+

lemma chip_round_busy: "fst (chip_round now t qb) \<noteq> [] \<Longrightarrow> is_acquired (snd (chip_round now t qb))"
  by (cases qb) (auto simp: chip_round_def start_if_free_def split: if_splits)

lemma work_0: "work qb = 0 \<longleftrightarrow> fst qb = [] \<and> \<not> is_acquired (snd qb)"
  by (auto simp: work_def)

text \<open>Every run keeps the invariant and completes requests at most once; \<open>k\<close> late rounds do \<open>k\<close> steps of work on every chip.\<close>

lemma thread_spec:
  assumes "bus_inv n pend Q (bc, io)" "flag_enable_thread bc \<noteq> 0"
  shows "\<exists>Q' bc' io' ps. fb_bus_ctrl_thread rounds (bc, io) = Some (bc', io') \<and> bus_inv n pend Q' (bc', io') \<and>
    completed io io' ps \<and> flag_enable_thread bc' \<noteq> 0 \<and> (\<forall>c < NUM_CHIPS_PER_BUS. length (Q' c) \<le> length (Q c) \<and>
      work (chip_state Q' bc' c) \<le> work (chip_state Q bc c) - late_rounds rounds (bc, io) \<and>
      (rounds \<noteq> [] \<longrightarrow> Q' c \<noteq> [] \<longrightarrow> is_acquired (chip_busies bc' ! c)))"
  using assms
proof (induction rounds arbitrary: Q bc io)
  case Nil
  then show ?case by (auto intro!: exI [of _ Q] exI [of _ bc] completed_refl)
next
  case (Cons r rounds)
  obtain now clk where r: "r = (now, clk)" by (cases r)
  obtain Q1 bc1 io1 ps where 1: "fb_bus_ctrl_round now clk (bc, io) = Some (bc1, io1)" "bus_inv n pend Q1 (bc1, io1)"
    "completed io io1 ps" "flag_enable_thread bc1 = flag_enable_thread bc"
    "\<And>c. c < NUM_CHIPS_PER_BUS \<Longrightarrow> chip_state Q1 bc1 c = chip_round now (clk c) (chip_state Q bc c)"
    using round_spec [OF Cons.prems(1), of now clk] by blast
  obtain Q' bc' io' qs where 2: "fb_bus_ctrl_thread rounds (bc1, io1) = Some (bc', io')" "bus_inv n pend Q' (bc', io')"
    "completed io1 io' qs" "flag_enable_thread bc' \<noteq> 0"
    "\<And>c. c < NUM_CHIPS_PER_BUS \<Longrightarrow> length (Q' c) \<le> length (Q1 c) \<and>
      work (chip_state Q' bc' c) \<le> work (chip_state Q1 bc1 c) - late_rounds rounds (bc1, io1) \<and>
      (rounds \<noteq> [] \<longrightarrow> Q' c \<noteq> [] \<longrightarrow> is_acquired (chip_busies bc' ! c))"
    using Cons.IH [OF 1(2)] 1(4) Cons.prems(2) by auto
  have busy: "Q' c \<noteq> [] \<longrightarrow> is_acquired (chip_busies bc' ! c)" if c: "c < NUM_CHIPS_PER_BUS" for c
  proof (cases "rounds = []")
    case True
    moreover have "Q1 c \<noteq> [] \<Longrightarrow> is_acquired (chip_busies bc1 ! c)"
      using 1(5) [OF c] chip_round_busy [of now "clk c" "chip_state Q bc c"]
      unfolding chip_state_def by (metis fst_conv snd_conv)
    ultimately show ?thesis using 2(1) 2(5) [OF c] by (cases "Q1 c = []") auto
  next
    case False
    then show ?thesis using 2(5) [OF c] by simp
  qed
  have step: "length (Q' c) \<le> length (Q c) \<and> work (chip_state Q' bc' c) \<le> work (chip_state Q bc c) - late_rounds (r # rounds) (bc, io)"
    if c: "c < NUM_CHIPS_PER_BUS" for c
  proof -
    let ?qb = "chip_state Q bc c"
    have "fst (chip_state Q1 bc1 c) = fst (chip_round now (clk c) ?qb)" using 1(5) [OF c] by simp
    then have l: "length (Q1 c) \<le> length (Q c)"
      by (auto simp: chip_state_def chip_round_def start_if_free_def split: if_splits)
    have "chip_busies bc ! c \<in> set (chip_busies bc)" using c bus_invD(3) [OF Cons.prems(1)] by simp
    then have "work (chip_state Q1 bc1 c) \<le> work ?qb - (if all_due now bc then 1 else 0)"
      using work_chip_round(2,3) [of ?qb now "clk c"] work_chip_round(1) [of now "clk c" ?qb] 1(5) [OF c]
      by (auto simp: all_due_def chip_state_def)
    then show ?thesis using 2(5) [OF c] l 1(1) r by (auto split: if_splits)
  qed
  show ?case
    using 1(1) 2(1,2,4) completed_trans [OF 1(3) 2(3)] Cons.prems(2) r step busy by auto
qed

text \<open>Handing an operation over: \<open>pend\<close> counts it before, the queue after.\<close>

lemma issue_put:
  assumes inv: "bus_inv n pend Q (bc, io)" and c: "c < NUM_CHIPS_PER_BUS" and room: "length (Q c) < unat n"
    and pend: "\<And>p. pend p = pend' p + (if snd e = Some p then 1 else 0)"
  shows "\<exists>bc'. fb_issue_operation sched c e (bc, io) = Some (bc', io) \<and> bus_inv n pend' (Q(c := Q c @ [e])) (bc', io) \<and>
    flag_enable_thread bc' = flag_enable_thread bc \<and> chip_busies bc' = chip_busies bc"
proof -
  note I = bus_invD [OF inv] and D = bus_repD [OF bus_invD(1) [OF inv] c]
  obtain q where q: "opr_queue_put_entry (ptr_opr_queue bc ! c) e = Some (0, q)" "opr_rep n q (Q c @ [e])"
    using oq.put_room [OF D(3) room] by blast
  let ?bc = "bc\<lparr>ptr_opr_queue := (ptr_opr_queue bc)[c := q]\<rparr>"
  have "live_ok pend' (Q(c := Q c @ [e])) (chip_busies bc) io"
    using I(2) live_ok_cong [of "Q(c := Q c @ [e])" "chip_busies bc" pend' Q "chip_busies bc" pend] pend refs_put [OF c] by simp
  then have "bus_inv n pend' (Q(c := Q c @ [e])) (?bc, io)"
    using I(4) bus_rep_queue [OF I(1) q(2) c] by (simp add: bus_inv_def)
  then show ?thesis using D(1) q(1) by (cases sched) (simp_all add: fb_issue_operation.simps Let_def)
qed

lemma issue_full:
  assumes inv: "bus_inv n pend Q (bc, io)" and c: "c < NUM_CHIPS_PER_BUS" and full: "length (Q c) = unat n"
  shows "fb_issue_operation sched c e (bc, io) = (case sched of [] \<Rightarrow> None
    | rounds # sched \<Rightarrow> do { st \<leftarrow> fb_bus_ctrl_thread rounds (bc, io); fb_issue_operation sched c e st })"
proof -
  note D = bus_repD [OF bus_invD(1) [OF inv] c]
  have "opr_queue_put_entry (ptr_opr_queue bc ! c) e = Some (-1, ptr_opr_queue bc ! c)" by (rule oq.put_full [OF D(3) full])
  moreover have "bc\<lparr>ptr_opr_queue := (ptr_opr_queue bc)[c := ptr_opr_queue bc ! c]\<rparr> = bc" by simp
  ultimately show ?thesis using D(1) by (cases sched) (simp_all add: fb_issue_operation.simps Let_def)
qed

section \<open>Timing\<close>

text \<open>A busy chip whose time is not over at any round is left alone, as is everything queued behind it.\<close>

lemma chip_round_wait: "is_acquired (snd qb) \<Longrightarrow> \<not> due now (snd qb) \<Longrightarrow> chip_round now t qb = qb"
  by (cases qb) (simp add: chip_round_def release_if_due_def start_if_free_def)

lemma thread_waits:
  assumes "bus_inv n pend Q (bc, io)" "c < NUM_CHIPS_PER_BUS" "is_acquired (chip_busies bc ! c)"
    and "\<And>now clk. (now, clk) \<in> set rounds \<Longrightarrow> \<not> due now (chip_busies bc ! c)"
  shows "\<exists>Q' bc' io'. fb_bus_ctrl_thread rounds (bc, io) = Some (bc', io') \<and> bus_inv n pend Q' (bc', io') \<and>
    Q' c = Q c \<and> chip_busies bc' ! c = chip_busies bc ! c"
  using assms
proof (induction rounds arbitrary: Q bc io)
  case (Cons r rounds)
  obtain now clk where r: "r = (now, clk)" by (cases r)
  obtain Q1 bc1 io1 where 1: "fb_bus_ctrl_round now clk (bc, io) = Some (bc1, io1)" "bus_inv n pend Q1 (bc1, io1)"
    "chip_state Q1 bc1 c = chip_round now (clk c) (chip_state Q bc c)"
    using round_spec [OF Cons.prems(1), of now clk] Cons.prems(2) by blast
  have "chip_state Q1 bc1 c = chip_state Q bc c"
    using 1(3) chip_round_wait [of "chip_state Q bc c" now "clk c"] Cons.prems(3) Cons.prems(4) [of now clk] r
    by (simp add: chip_state_def)
  then have e: "Q1 c = Q c" "chip_busies bc1 ! c = chip_busies bc ! c" by (simp_all add: chip_state_def)
  have "\<exists>Q' bc' io'. fb_bus_ctrl_thread rounds (bc1, io1) = Some (bc', io') \<and> bus_inv n pend Q' (bc', io') \<and>
      Q' c = Q1 c \<and> chip_busies bc' ! c = chip_busies bc1 ! c"
    by (rule Cons.IH [OF 1(2) Cons.prems(2)]) (use e Cons.prems(3,4) in auto)
  then show ?case using 1(1) e r Cons.prems(1) by auto
qed auto

section \<open>The controllers at start\<close>

lemma create_bus_controller_inv:
  assumes "0 < n" "fbios io = Map.empty"
  shows "bus_inv n (\<lambda>_. 0) (\<lambda>_. []) ((create_bus_controller junk_list junk n)\<lparr>flag_enable_thread := 1, num_bus := bus\<rparr>, io)"
  using assms create_opr_queue_rep [OF assms(1), of junk_list]
  by (simp add: bus_inv_def bus_rep_def create_bus_controller_def live_ok_def refs_def refs_at_def two_chips(1))

lemma words_below_BUSES: "words_below NUM_BUSES = [0 :: u32]"
  by (simp add: words_below_def NUM_BUSES_def)

section \<open>A small run\<close>

text \<open>A controller with queues of two entries; request 7 has two operations, a read on chip 0 and a program on chip 1.\<close>

definition demo_io :: io_state where
  "demo_io = \<lparr>fbios = (\<lambda>p. if p = 7 then Some \<lparr>req_count = 2, fbio_lpas = [], fbio_kpages = [],
     fbio_bio = 70, bio_lock = 1\<rparr> else None), endio = []\<rparr>"

definition demo_bus :: fb_bus_controller_t where
  "demo_bus = (create_bus_controller (\<lambda>_. (OP_READ, None))
     \<lparr>num_bus = 0, ptr_opr_queue = [], chip_busies = [], flag_enable_thread = 0\<rparr> 2)\<lparr>flag_enable_thread := 1, num_bus := 0\<rparr>"

definition demo_st :: "fb_bus_controller_t \<times> io_state" where
  "demo_st = the (do { st \<leftarrow> fb_issue_operation [] 0 (OP_READ, Some 7) (demo_bus, demo_io);
     fb_issue_operation [] 1 (OP_PROG, Some 7) st })"

definition demo_Q :: "nat \<Rightarrow> fb_operation_t list" where
  "demo_Q = ((\<lambda>_. [])(0 := [(OP_READ, Some 7)]))(1 := [(OP_PROG, Some 7)])"

definition idle_busy :: fb_chip_busy_t where
  "idle_busy = \<lparr>wakeup_time_in_us = 0, issue_time_in_us = 0, chip_busy = 1, busy_bio = None\<rparr>"

lemma idle_busy [simp]: "\<not> is_acquired idle_busy" "\<not> due now idle_busy"
  by (simp_all add: idle_busy_def is_acquired_def due_def)

lemma demo_inv:
  obtains bc where "demo_st = (bc, demo_io)" "bus_inv 2 (\<lambda>_. 0) demo_Q (bc, demo_io)" "flag_enable_thread bc \<noteq> 0"
    "chip_busies bc = [idle_busy, idle_busy]"
proof -
  let ?pend = "\<lambda>k p. if p = (7 :: nat) then k else (0 :: nat)"
  have rep: "opr_rep 2 (create_opr_queue (\<lambda>_. (OP_READ, None)) 2) []" by (rule create_opr_queue_rep) simp
  have 0: "bus_inv 2 (?pend 2) (\<lambda>_. []) (demo_bus, demo_io)"
    using rep by (simp add: bus_inv_def bus_rep_def demo_bus_def demo_io_def create_bus_controller_def live_ok_def
      refs_def refs_at_def two_chips(1))
  have "\<exists>bc1. fb_issue_operation [] 0 (OP_READ, Some 7) (demo_bus, demo_io) = Some (bc1, demo_io) \<and>
      bus_inv 2 (?pend 1) ((\<lambda>_. [])(0 := [] @ [(OP_READ, Some 7)])) (bc1, demo_io) \<and>
      flag_enable_thread bc1 = flag_enable_thread demo_bus \<and> chip_busies bc1 = chip_busies demo_bus"
    by (rule issue_put [OF 0]) (auto simp: two_chips(1))
  then obtain bc1 where 1: "fb_issue_operation [] 0 (OP_READ, Some 7) (demo_bus, demo_io) = Some (bc1, demo_io)"
    "bus_inv 2 (?pend 1) ((\<lambda>_. [])(0 := [(OP_READ, Some 7)])) (bc1, demo_io)"
    "flag_enable_thread bc1 = flag_enable_thread demo_bus" "chip_busies bc1 = chip_busies demo_bus" by auto
  let ?Q1 = "(\<lambda>_. [])(0 := [(OP_READ, Some 7)]) :: nat \<Rightarrow> fb_operation_t list"
  have pd: "?pend 1 p = (\<lambda>_. 0) p + (if snd (OP_PROG, Some 7) = Some p then 1 else 0)" for p :: bioptr by auto
  have "length (?Q1 1) < unat (2 :: u32)" "(1 :: nat) < NUM_CHIPS_PER_BUS" by (simp_all add: two_chips(1))
  from issue_put [where sched = "[]", OF 1(2) this(2) this(1) pd]
  obtain bc2 where 2: "fb_issue_operation [] 1 (OP_PROG, Some 7) (bc1, demo_io) = Some (bc2, demo_io)"
    "bus_inv 2 (\<lambda>_. 0) demo_Q (bc2, demo_io)" "flag_enable_thread bc2 = flag_enable_thread bc1" "chip_busies bc2 = chip_busies bc1"
    by (auto simp: demo_Q_def fun_upd_def)
  have "chip_busies demo_bus = [idle_busy, idle_busy]" "flag_enable_thread demo_bus \<noteq> 0"
    by (simp_all add: demo_bus_def create_bus_controller_def NUM_CHIPS_PER_BUS_def idle_busy_def numeral_2_eq_2)
  then show thesis using that [of bc2] 1(1,3,4) 2 by (simp add: demo_st_def)
qed

text \<open>The state after the round that starts both operations at time \<open>t\<close>.\<close>

lemma demo_started:
  obtains Q bc io where "fb_bus_ctrl_round 0 (\<lambda>_. t) demo_st = Some (bc, io)" "bus_inv 2 (\<lambda>_. 0) Q (bc, io)"
    "chip_busies bc ! 0 = started t (OP_READ, Some 7) idle_busy" "Q 0 = []"
proof -
  obtain bc where d: "demo_st = (bc, demo_io)" "bus_inv 2 (\<lambda>_. 0) demo_Q (bc, demo_io)" "chip_busies bc = [idle_busy, idle_busy]"
    using demo_inv by metis
  obtain Q' bc' io' where r: "fb_bus_ctrl_round 0 (\<lambda>_. t) (bc, demo_io) = Some (bc', io')" "bus_inv 2 (\<lambda>_. 0) Q' (bc', io')"
    "\<And>c. c < NUM_CHIPS_PER_BUS \<Longrightarrow> chip_state Q' bc' c = chip_round 0 t (chip_state demo_Q bc c)"
    using round_spec [OF d(2), of 0 "\<lambda>_. t"] by blast
  have "chip_state demo_Q bc 0 = ([(OP_READ, Some 7)], idle_busy)" by (simp add: chip_state_def demo_Q_def d(3))
  then have "chip_state Q' bc' 0 = ([], started t (OP_READ, Some 7) idle_busy)"
    using r(3) [of 0] by (simp add: two_chips(1) chip_round_def start_if_free_def release_if_due_def)
  then show thesis using that [OF _ r(2)] r(1) d(1) by (simp add: chip_state_def)
qed

section \<open>Properties\<close>

text \<open>
  Every request in flight is completed, and exactly once: a run of the controller thread with
  enough rounds that find the running operations over ends with no request left, each
  bio having been completed once, and no freed request is touched again on the way.
\<close>

theorem bus_completes_every_request:
  assumes inv: "bus_inv n (\<lambda>_. 0) Q (bc, io)" and on: "flag_enable_thread bc \<noteq> 0"
    and long: "\<And>c. c < NUM_CHIPS_PER_BUS \<Longrightarrow> work (chip_state Q bc c) \<le> late_rounds rounds (bc, io)"
  shows "\<exists>bc' io' ps. fb_bus_ctrl_thread rounds (bc, io) = Some (bc', io') \<and> fbios io' = Map.empty \<and>
    distinct ps \<and> set ps = dom (fbios io) \<and> endio io' = endio io @ map (\<lambda>p. fbio_bio (the (fbios io p))) ps"
proof -
  obtain Q' bc' io' ps where r: "fb_bus_ctrl_thread rounds (bc, io) = Some (bc', io')" "bus_inv n (\<lambda>_. 0) Q' (bc', io')"
    "completed io io' ps" and w: "\<And>c. c < NUM_CHIPS_PER_BUS \<Longrightarrow>
      work (chip_state Q' bc' c) \<le> work (chip_state Q bc c) - late_rounds rounds (bc, io)"
    using thread_spec [OF inv on, of rounds] by blast
  have "work (chip_state Q' bc' c) = 0" if "c < NUM_CHIPS_PER_BUS" for c using w [OF that] long [OF that] by simp
  then have idle: "Q' c = []" "\<not> is_acquired (chip_busies bc' ! c)" if "c < NUM_CHIPS_PER_BUS" for c
    using that by (simp_all add: work_0 chip_state_def)
  note I = bus_invD [OF r(2)]
  have "busy_bio (chip_busies bc' ! c) = None" if "c < NUM_CHIPS_PER_BUS" for c using I(4) [OF that idle(2) [OF that]] .
  then have "refs Q' (chip_busies bc') p = 0" for p using idle(1) by (simp add: refs_def refs_at_def two_chips(1))
  then have "fbios io' p = None" for p using I(2) by (auto simp: live_ok_def split: option.splits dest!: spec [of _ p])
  then have e: "fbios io' = Map.empty" by auto
  moreover have "set ps = dom (fbios io)" using r(3) e by (auto simp: completed_def)
  ultimately show ?thesis using r(1,3) by (auto simp: completed_def)
qed

theorem bus_completes_every_request_witness:
  "\<exists>bc io. fb_bus_ctrl_thread [(0, \<lambda>_. 5), (2000, \<lambda>_. 2000)] demo_st = Some (bc, io) \<and> endio io = [70]"
proof -
  let ?rounds = "[(0, \<lambda>_. 5), (2000, \<lambda>_. 2000)] :: (u32 \<times> (nat \<Rightarrow> u32)) list"
  obtain bc where d: "demo_st = (bc, demo_io)" "bus_inv 2 (\<lambda>_. 0) demo_Q (bc, demo_io)" "flag_enable_thread bc \<noteq> 0"
    "chip_busies bc = [idle_busy, idle_busy]" using demo_inv .
  have late: "late_rounds ?rounds (bc, demo_io) = 2" unfolding d(1) [symmetric] by code_simp
  have "\<exists>bc' io' ps. fb_bus_ctrl_thread ?rounds (bc, demo_io) = Some (bc', io') \<and> fbios io' = Map.empty \<and>
      distinct ps \<and> set ps = dom (fbios demo_io) \<and>
      endio io' = endio demo_io @ map (\<lambda>p. fbio_bio (the (fbios demo_io p))) ps"
    by (rule bus_completes_every_request [OF d(2,3)])
      (use late d(4) in \<open>auto simp: two_chips(1) work_def chip_state_def demo_Q_def\<close>)
  then obtain bc' io' ps where r: "fb_bus_ctrl_thread ?rounds (bc, demo_io) = Some (bc', io')" "distinct ps"
    "set ps = dom (fbios demo_io)" "endio io' = endio demo_io @ map (\<lambda>p. fbio_bio (the (fbios demo_io p))) ps" by blast
  have "ps = [7]" using r(2,3) by (cases ps rule: remdups_adj.cases) (auto simp: demo_io_def dom_def split: if_splits)
  then have "endio io' = [70]" using r(4) by (simp add: demo_io_def)
  then show ?thesis unfolding d(1) using r(1) by blast
qed

text \<open>
  \<open>fb_issue_operation\<close> returns as soon as the thread makes one round that finds the running
  operations over, even when the queue is full; it adds the operation behind the queued ones,
  and every request stays accounted for.
\<close>

theorem bus_issue_returns:
  assumes inv: "bus_inv n pend Q (bc, io)" and c: "c < NUM_CHIPS_PER_BUS" and on: "flag_enable_thread bc \<noteq> 0"
    and pend: "\<And>p. pend p = pend' p + (if snd e = Some p then 1 else 0)"
    and late: "0 < late_rounds rounds (bc, io)"
  shows "\<exists>Q' bc' io' ps. fb_issue_operation (rounds # sched) c e (bc, io) = Some (bc', io') \<and>
    bus_inv n pend' (Q'(c := Q' c @ [e])) (bc', io') \<and> completed io io' ps"
proof -
  note D = bus_repD [OF bus_invD(1) [OF inv] c]
  show ?thesis
  proof (cases "length (Q c) < unat n")
    case True
    then show ?thesis using issue_put [OF inv c True pend] completed_refl by blast
  next
    case False
    then have full: "length (Q c) = unat n" using opr_repD(4) [OF D(3)] by simp
    obtain Q1 bc1 io1 ps where 1: "fb_bus_ctrl_thread rounds (bc, io) = Some (bc1, io1)" "bus_inv n pend Q1 (bc1, io1)"
      "completed io io1 ps" "length (Q1 c) \<le> length (Q c)"
      "work (chip_state Q1 bc1 c) \<le> work (chip_state Q bc c) - late_rounds rounds (bc, io)"
      "rounds \<noteq> [] \<longrightarrow> Q1 c \<noteq> [] \<longrightarrow> is_acquired (chip_busies bc1 ! c)"
      using thread_spec [OF inv on, of rounds] c by blast
    have "length (Q1 c) < unat n"
      using 1(4-6) late full opr_repD(8) [OF D(3)] by (auto simp: work_def chip_state_def split: if_splits)
    then obtain bc' where "fb_issue_operation sched c e (bc1, io1) = Some (bc', io1)"
      "bus_inv n pend' (Q1(c := Q1 c @ [e])) (bc', io1)" using issue_put [OF 1(2) c _ pend] by blast
    then show ?thesis using issue_full [OF inv c full] 1(1,3) by auto
  qed
qed

theorem bus_issue_returns_witness:
  "\<exists>st. fb_issue_operation [[(9, \<lambda>_. 9)]] 0 (OP_BERS, None) demo_st = Some st"
proof -
  obtain bc where d: "demo_st = (bc, demo_io)" "bus_inv 2 (\<lambda>_. 0) demo_Q (bc, demo_io)" "flag_enable_thread bc \<noteq> 0"
    using demo_inv by metis
  have late: "0 < late_rounds [(9, \<lambda>_. 9)] (bc, demo_io)" unfolding d(1) [symmetric] by code_simp
  have "\<exists>Q' bc' io' ps. fb_issue_operation [[(9, \<lambda>_. 9)]] 0 (OP_BERS, None) (bc, demo_io) = Some (bc', io') \<and>
      bus_inv 2 (\<lambda>_. 0) (Q'(0 := Q' 0 @ [(OP_BERS, None)])) (bc', io') \<and> completed demo_io io' ps"
    by (rule bus_issue_returns [OF d(2) _ d(3) _ late]) (simp_all add: two_chips(1))
  then show ?thesis using d(1) by auto
qed

text \<open>
  C15. The controller thread implements independent chips: over any run, the queue and the busy
  entry of each chip develop as if it were alone, one \<open>chip_round\<close> per round, and nothing faults.
\<close>

theorem bus_thread_refines:
  assumes "bus_inv n pend Q (bc, io)" "flag_enable_thread bc \<noteq> 0"
  shows "\<exists>Q' bc' io'. fb_bus_ctrl_thread rounds (bc, io) = Some (bc', io') \<and> bus_inv n pend Q' (bc', io') \<and>
    (\<forall>c < NUM_CHIPS_PER_BUS. chip_state Q' bc' c =
      fold (\<lambda>(now, clk). chip_round now (clk c)) rounds (chip_state Q bc c))"
  using assms
proof (induction rounds arbitrary: Q bc io)
  case (Cons r rounds)
  obtain now clk where r: "r = (now, clk)" by (cases r)
  obtain Q1 bc1 io1 where 1: "fb_bus_ctrl_round now clk (bc, io) = Some (bc1, io1)" "bus_inv n pend Q1 (bc1, io1)"
    "flag_enable_thread bc1 = flag_enable_thread bc"
    "\<And>c. c < NUM_CHIPS_PER_BUS \<Longrightarrow> chip_state Q1 bc1 c = chip_round now (clk c) (chip_state Q bc c)"
    using round_spec [OF Cons.prems(1), of now clk] by blast
  then show ?case using Cons.IH [OF 1(2)] Cons.prems(2) r by auto
qed auto

theorem bus_thread_refines_witness:
  "\<exists>Q bc io. fb_bus_ctrl_thread [(0, \<lambda>_. 5), (50, \<lambda>_. 50)] demo_st = Some (bc, io) \<and>
    chip_state Q bc 1 = ([], started 5 (OP_PROG, Some 7) idle_busy)"
proof -
  obtain bc where d: "demo_st = (bc, demo_io)" "bus_inv 2 (\<lambda>_. 0) demo_Q (bc, demo_io)" "flag_enable_thread bc \<noteq> 0"
    "chip_busies bc = [idle_busy, idle_busy]" using demo_inv .
  obtain Q' bc' io' where r: "fb_bus_ctrl_thread [(0, \<lambda>_. 5), (50, \<lambda>_. 50)] (bc, demo_io) = Some (bc', io')"
    "\<And>c. c < NUM_CHIPS_PER_BUS \<Longrightarrow> chip_state Q' bc' c =
      fold (\<lambda>(now, clk). chip_round now (clk c)) [(0, \<lambda>_. 5), (50, \<lambda>_. 50)] (chip_state demo_Q bc c)"
    using bus_thread_refines [OF d(2,3), of "[(0, \<lambda>_. 5), (50, \<lambda>_. 50)]"] by blast
  have "\<not> due 50 (started 5 (OP_PROG, Some 7) idle_busy)" by (simp add: due_def started_def)
  then have "chip_state Q' bc' 1 = ([], started 5 (OP_PROG, Some 7) idle_busy)"
    using r(2) [of 1] d(4)
    by (simp add: two_chips(1) chip_state_def demo_Q_def chip_round_def start_if_free_def release_if_due_def)
  then show ?thesis using r(1) d(1) by auto
qed

text \<open>
  C16. An operation holds its chip for its whole time: started at \<open>t\<close>, and unless the 32-bit clock
  wraps in between, it becomes due exactly \<open>operation_time\<close> microseconds later, and no
  earlier round completes it or starts another operation on the chip.
\<close>

theorem bus_operation_time:
  assumes inv: "bus_inv n pend Q (bc, io)" and c: "c < NUM_CHIPS_PER_BUS"
    and busy: "chip_busies bc ! c = started t e b" and no_wrap: "unat t + unat (operation_time (fst e)) < 2 ^ 32"
    and early: "\<forall>(now, clk) \<in> set rounds. unat now < unat t + unat (operation_time (fst e))"
  shows "(\<forall>now. due now (chip_busies bc ! c) \<longleftrightarrow> unat t + unat (operation_time (fst e)) \<le> unat now) \<and>
    (\<exists>Q' bc' io'. fb_bus_ctrl_thread rounds (bc, io) = Some (bc', io') \<and> bus_inv n pend Q' (bc', io') \<and>
      Q' c = Q c \<and> chip_busies bc' ! c = started t e b)"
proof -
  have u: "unat (t + operation_time (fst e)) = unat t + unat (operation_time (fst e))"
    using no_wrap by (subst unat_add_lem [symmetric]) simp
  have "0 < unat (operation_time (fst e))" using operation_time_pos [of "fst e"] by (simp add: word_less_nat_alt)
  then have d: "due now (chip_busies bc ! c) \<longleftrightarrow> unat t + unat (operation_time (fst e)) \<le> unat now" for now
    using u by (simp add: due_def busy started_def word_less_nat_alt word_le_nat_alt)
  have nd: "\<not> due now (chip_busies bc ! c)" if "(now, clk) \<in> set rounds" for now clk
    using early that by (auto simp: d)
  have "\<exists>Q' bc' io'. fb_bus_ctrl_thread rounds (bc, io) = Some (bc', io') \<and> bus_inv n pend Q' (bc', io') \<and>
      Q' c = Q c \<and> chip_busies bc' ! c = chip_busies bc ! c"
    by (rule thread_waits [OF inv c _ nd]) (simp add: busy)
  then show ?thesis using d busy by simp
qed

theorem bus_operation_time_witness:
  "\<exists>Q bc io Q' bc' io'. fb_bus_ctrl_round 0 (\<lambda>_. 5) demo_st = Some (bc, io) \<and>
    fb_bus_ctrl_thread [(20, \<lambda>_. 20), (84, \<lambda>_. 84)] (bc, io) = Some (bc', io') \<and> bus_inv 2 (\<lambda>_. 0) Q' (bc', io') \<and>
    chip_busies bc' ! 0 = started 5 (OP_READ, Some 7) idle_busy \<and> \<not> due 84 (chip_busies bc ! 0) \<and> due 85 (chip_busies bc ! 0)"
proof -
  obtain Q bc io where s: "fb_bus_ctrl_round 0 (\<lambda>_. 5) demo_st = Some (bc, io)" "bus_inv 2 (\<lambda>_. 0) Q (bc, io)"
    "chip_busies bc ! 0 = started 5 (OP_READ, Some 7) idle_busy" using demo_started .
  have c: "(0 :: nat) < NUM_CHIPS_PER_BUS" by (simp add: two_chips(1))
  note t = bus_operation_time [OF s(2) c s(3), of "[(20, \<lambda>_. 20), (84, \<lambda>_. 84)]"]
  have "\<exists>Q' bc' io'. fb_bus_ctrl_thread [(20, \<lambda>_. 20), (84, \<lambda>_. 84)] (bc, io) = Some (bc', io') \<and>
      bus_inv 2 (\<lambda>_. 0) Q' (bc', io') \<and> Q' 0 = Q 0 \<and> chip_busies bc' ! 0 = started 5 (OP_READ, Some 7) idle_busy"
    "\<not> due 84 (chip_busies bc ! 0)" "due 85 (chip_busies bc ! 0)"
    using t by simp_all
  then show ?thesis using s(1) by blast
qed

text \<open>
  C17. A chip whose wake-up time is 0 because the 32-bit microsecond clock wrapped when its operation
  started is never released: the operation's request stays incomplete and
  everything queued behind it waits, for any number of rounds at any times.
\<close>

theorem bus_wrapped_wakeup_starves:
  assumes inv: "bus_inv n pend Q (bc, io)" and c: "c < NUM_CHIPS_PER_BUS"
    and busy: "chip_busies bc ! c = started t (op, Some p) b" and wrap: "t = - operation_time op"
  shows "\<exists>Q' bc' io'. fb_bus_ctrl_thread rounds (bc, io) = Some (bc', io') \<and> bus_inv n pend Q' (bc', io') \<and>
    Q' c = Q c \<and> chip_busies bc' ! c = chip_busies bc ! c \<and> fbios io' p \<noteq> None"
proof -
  have w: "\<not> due now (chip_busies bc ! c)" for now by (simp add: due_def busy started_def wrap)
  obtain Q' bc' io' where r: "fb_bus_ctrl_thread rounds (bc, io) = Some (bc', io')" "bus_inv n pend Q' (bc', io')"
    "Q' c = Q c" "chip_busies bc' ! c = chip_busies bc ! c"
    using thread_waits [OF inv c _ w, of rounds] busy by auto
  have "busy_bio (chip_busies bc' ! c) = Some p" using r(4) busy by (simp add: started_def)
  then have "0 < refs Q' (chip_busies bc') p" using c by (auto simp: refs_def refs_at_def two_chips(1))
  then have "fbios io' p \<noteq> None"
    using bus_invD(2) [OF r(2)] by (auto simp: live_ok_def split: option.splits dest!: spec [of _ p])
  then show ?thesis using r by blast
qed

theorem bus_wrapped_wakeup_starves_witness:
  "\<exists>bc io bc' io'. fb_bus_ctrl_round 0 (\<lambda>_. 4294967216) demo_st = Some (bc, io) \<and>
    fb_bus_ctrl_thread (replicate 3 (4294967295, \<lambda>_. 0)) (bc, io) = Some (bc', io') \<and> fbios io' 7 \<noteq> None"
proof -
  obtain Q bc io where s: "fb_bus_ctrl_round 0 (\<lambda>_. 4294967216) demo_st = Some (bc, io)" "bus_inv 2 (\<lambda>_. 0) Q (bc, io)"
    "chip_busies bc ! 0 = started 4294967216 (OP_READ, Some 7) idle_busy" using demo_started .
  have c: "(0 :: nat) < NUM_CHIPS_PER_BUS" by (simp add: two_chips(1))
  have "(4294967216 :: u32) = - operation_time OP_READ" by simp
  from bus_wrapped_wakeup_starves [OF s(2) c s(3) this, of "replicate 3 (4294967295, \<lambda>_. 0)"] s(1)
  show ?thesis by blast
qed

text \<open>
  \<open>fb_bus_controller_init\<close> delivers one idle controller for every bus, with empty queues and
  enabled, whether or not the kernel could start the threads: the test for a failed
  start compares a truth value with \<open>< 0\<close>.
\<close>

theorem bus_controllers_created:
  assumes "0 < n" "fbios io = Map.empty"
  shows "\<exists>bcs. fb_bus_controller_init threads_start junk_list junk n = Some bcs \<and> length bcs = NUM_BUSES \<and>
    (\<forall>bc \<in> set bcs. bus_inv n (\<lambda>_. 0) (\<lambda>_. []) (bc, io) \<and> flag_enable_thread bc = 1)"
  using create_bus_controller_inv [OF assms, where junk_list = junk_list and junk = junk]
  by (simp add: fb_bus_controller_init_def fb_init_bus_ctrl_thread_def words_below_BUSES NUM_BUSES_def Let_def)

theorem bus_controllers_created_witness:
  "\<exists>bcs. fb_bus_controller_init False (\<lambda>_. (OP_READ, None)) demo_bus 16 = Some bcs \<and> length bcs = 1"
proof -
  have "\<exists>bcs. fb_bus_controller_init False (\<lambda>_. (OP_READ, None)) demo_bus 16 = Some bcs \<and> length bcs = NUM_BUSES \<and>
      (\<forall>bc \<in> set bcs. bus_inv 16 (\<lambda>_. 0) (\<lambda>_. []) (bc, \<lparr>fbios = Map.empty, endio = []\<rparr>) \<and> flag_enable_thread bc = 1)"
    by (rule bus_controllers_created) simp_all
  then show ?thesis by (auto simp: NUM_BUSES_def)
qed

end
