(* ===== verification/FB_Create.thy ===== *)
theory FB_Create
  imports FB_Ftl
begin

text \<open>
  Creation of the FTL: the \<open>create_\<close> functions of \<open>ftl_algorithm_page_mapping.c\<close> and \<open>create_gc_mngr\<close>
  of \<open>rust/src/gc_page_mapping.rs\<close>, when every memory allocation succeeds. The inner \<open>None\<close> is the null
  pointer they return when a chip has no free block left; the \<open>junk\<close> arguments are the previous
  contents of the allocated memory.
\<close>

section \<open>The managers\<close>

definition create_page_mapping_table :: "page_mapping_table_t \<Rightarrow> page_mapping_table_t option" where
  "create_page_mapping_table junk = do {
     let mt = junk\<lparr>nr_entries := ((NUM_BUSES * NUM_CHIPS_PER_BUS * NUM_BLOCKS_PER_CHIP *
       NUM_PAGES_PER_BLOCK * PHYSICAL_PAGE_SIZE div LOGICAL_PAGE_SIZE) * CFACTOR_PERCENT) div 100\<rparr>;
     foldM (\<lambda>i mt. if i < nr_entries mt then Some (mt\<lparr>mappings := (mappings mt)(i := PAGE_UNMAPPED)\<rparr>) else None)
       (words_below (nr_entries mt)) mt }"

definition act_blk_of_chip ::
  "u32 \<Rightarrow> u32 \<Rightarrow> fb_act_blk_mngr_t \<times> ssd_info \<Rightarrow> (int option \<times> fb_act_blk_mngr_t \<times> ssd_info) option" where
  "act_blk_of_chip bus chip st = (case st of (abm, s) \<Rightarrow> do {
     blki \<leftarrow> get_free_block s bus chip;
     case blki of
       None \<Rightarrow> Some (Some (-1), abm, s)
     | Some p \<Rightarrow> do {
         s \<leftarrow> reset_free_blk s p;
         s \<leftarrow> set_act_blk_flag s p 1;
         xs \<leftarrow> st_nth (act_blks abm) (chip_idx bus chip) blki;
         Some (None, abm\<lparr>act_blks := xs\<rparr>, s) } })"

definition create_act_blk_mngr ::
  "fb_act_blk_mngr_t \<Rightarrow> ssd_info \<Rightarrow> (fb_act_blk_mngr_t option \<times> ssd_info) option" where
  "create_act_blk_mngr junk s = do {
     (r, abm, s) \<leftarrow> for_ret (\<lambda>bus. for_ret (act_blk_of_chip bus) (words_below NUM_CHIPS_PER_BUS))
       (words_below NUM_BUSES) (junk, s);
     case r of
       Some _ \<Rightarrow> Some (None, s)
     | None \<Rightarrow> Some (Some (abm\<lparr>mru_bus := NUM_BUSES - 1, mru_chip := NUM_CHIPS_PER_BUS - 1\<rparr>), s) }"

definition create_del_mngr :: "fb_del_mngr_t \<Rightarrow> fb_del_mngr_t" where
  "create_del_mngr junk = init_delm (junk\<lparr>
     btod := replicate NR_MAX_LPAS_DISCARD None,
     wtod := replicate NR_MAX_LPAS_DISCARD \<lparr>wl_idx = -1, wtod_bus = -1, wtod_chip = -1\<rparr>,
     hash_btod := [], hash_wtod := []\<rparr>)"

definition gc_blk_of_chip ::
  "u32 \<Rightarrow> u32 \<Rightarrow> fb_gc_mngr_t \<times> ssd_info \<Rightarrow> (int option \<times> fb_gc_mngr_t \<times> ssd_info) option" where
  "gc_blk_of_chip bus chip st = (case st of (gcm, s) \<Rightarrow> do {
     blki \<leftarrow> get_free_block s bus chip;
     case blki of
       None \<Rightarrow> Some (Some (-1), gcm, s)
     | Some p \<Rightarrow> do {
         s \<leftarrow> reset_free_blk s p;
         s \<leftarrow> set_rsv_blk_flag s p 1;
         xs \<leftarrow> st_nth (gc_blks gcm) (chip_idx bus chip) blki;
         Some (None, gcm\<lparr>gc_blks := xs\<rparr>, s) } })"

definition create_gc_mngr :: "fb_gc_mngr_t \<Rightarrow> ssd_info \<Rightarrow> (fb_gc_mngr_t option \<times> ssd_info) option" where
  "create_gc_mngr junk s = do {
     (r, gcm, s) \<leftarrow> for_ret (\<lambda>bus. for_ret (gc_blk_of_chip bus) (words_below NUM_CHIPS_PER_BUS))
       (words_below NUM_BUSES) (junk\<lparr>nr_pgs_to_copy := 0\<rparr>, s);
     case r of Some _ \<Rightarrow> Some (None, s) | None \<Rightarrow> Some (Some gcm, s) }"

section \<open>The FTL\<close>

definition create_pg_ftl ::
  "page_mapping_context_t \<Rightarrow> fb_context_t \<Rightarrow> (int \<times> fb_context_t) option" where
  "create_pg_ftl junk fb = do {
     mt \<leftarrow> create_page_mapping_table (ptr_mapping_table junk);
     (abm, s) \<leftarrow> create_act_blk_mngr (ftl_abm junk) (ptr_ssd_info fb);
     case abm of None \<Rightarrow> Some (-1, fb\<lparr>ptr_ssd_info := s\<rparr>) | Some abm \<Rightarrow> do {
     let delm = create_del_mngr (ftl_delm junk);
     (gcm, s) \<leftarrow> create_gc_mngr (ftl_gcm junk) s;
     case gcm of None \<Rightarrow> Some (-1, fb\<lparr>ptr_ssd_info := s\<rparr>) | Some gcm \<Rightarrow>
       Some (0, fb\<lparr>ptr_ssd_info := s, ptr_mapping_context := junk\<lparr>
         ptr_mapping_table := mt, ftl_abm := abm, ftl_delm := delm, ftl_gcm := gcm,
         mapping_context_lock := complete 0\<rparr>\<rparr>) } }"

text \<open>The sizes of the memory the creators allocate.\<close>

definition junk_sizes :: "page_mapping_context_t \<Rightarrow> bool" where
  "junk_sizes junk \<longleftrightarrow> length (act_blks (ftl_abm junk)) = NUM_CHIPS \<and>
     length (gc_blks (ftl_gcm junk)) = NUM_CHIPS \<and> length (vic_blks (ftl_gcm junk)) = NUM_CHIPS \<and>
     length (first_valid_pg (ftl_gcm junk)) = NUM_CHIPS \<and>
     length (lpas_to_copy (ftl_gcm junk)) = NUM_CHIPS * NUM_PAGES_PER_BLOCK * NR_LP_IN_PP \<and>
     length (data_to_copy (ftl_gcm junk)) = 4 * (NUM_CHIPS * NUM_PAGES_PER_BLOCK * NR_LP_IN_PP) \<and>
     length (ppas (ftl_delm junk)) = NR_MAX_LPAS_DISCARD \<and>
     length (lpas_to_discard junk) = NR_MAX_LPAS_DISCARD"

lemma create_page_mapping_table_spec:
  "\<exists>mt. create_page_mapping_table junk = Some mt \<and> nr_entries mt = of_nat NUM_LOG_PAGES \<and>
     (\<forall>lpa. is_valid_address_range lpa \<longrightarrow> mappings mt lpa = PAGE_UNMAPPED)"
proof -
  have n: "((NUM_BUSES * NUM_CHIPS_PER_BUS * NUM_BLOCKS_PER_CHIP * NUM_PAGES_PER_BLOCK *
      PHYSICAL_PAGE_SIZE div LOGICAL_PAGE_SIZE) * CFACTOR_PERCENT) div 100 = (236390 :: u32)"
    by (simp add: geometry_simps PHYSICAL_PAGE_SIZE_def LOGICAL_PAGE_SIZE_def CFACTOR_PERCENT_def)
  let ?f = "\<lambda>i mt :: page_mapping_table_t. if i < nr_entries mt
      then Some (mt\<lparr>mappings := (mappings mt)(i := PAGE_UNMAPPED)\<rparr>) else None"
  let ?I = "\<lambda>done mt. nr_entries mt = 236390 \<and> (\<forall>i \<in> set done. mappings mt i = PAGE_UNMAPPED)"
  have "\<exists>mt. foldM ?f (words_below 236390) (junk\<lparr>nr_entries := 236390\<rparr>) = Some mt \<and> ?I (words_below 236390) mt"
  proof (rule foldM_rule [where I = ?I])
    fix "done" x rest and mt :: page_mapping_table_t
    assume l: "words_below 236390 = done @ x # rest" and I: "?I done mt"
    have "x \<in> set (words_below (236390 :: u32))" by (simp only: l) simp
    then show "\<exists>mt'. ?f x mt = Some mt' \<and> ?I (done @ [x]) mt'" using I by simp
  qed simp
  then show ?thesis
    by (auto simp: create_page_mapping_table_def n is_valid_address_range_def NUM_LOG_PAGES_value)
qed

section \<open>A new FTL satisfies the invariant\<close>

text \<open>While blocks are handed out, every block is blank and on the free list or handed out.\<close>

definition pool :: "ssd_info \<Rightarrow> (u32 \<Rightarrow> u32 \<Rightarrow> blkptr option) \<Rightarrow> (u32 \<Rightarrow> u32 \<Rightarrow> blkptr option) \<Rightarrow> bool" where
  "pool s A G \<longleftrightarrow> ids_ok (blocks s) \<and> (\<forall>p. valid_blk p \<longrightarrow> blank_block (blocks s p)) \<and>
     (\<forall>b c. valid_chip b c \<longrightarrow> chip_part b c (chips s b c) (A b c) (G b c) \<and>
        used_blks (chips s b c) = [] \<and> dirt_blks (chips s b c) = [])"

lemma blank_flags [simp]:
  "blank_block (b\<lparr>is_reserved_block := x\<rparr>) = blank_block b"
  "blank_block (b\<lparr>is_active_block := x\<rparr>) = blank_block b"
  by (simp_all add: blank_block_def)

lemma pool_fresh:
  assumes "\<And>b c. valid_chip b c \<Longrightarrow> fresh_chip b c s"
  shows "pool s (\<lambda>_ _. None) (\<lambda>_ _. None)"
    and "valid_chip b c \<Longrightarrow> length (free_blks (chips s b c)) = 171"
proof -
  have f: "fresh_block (blk_bus p) (blk_chip p) (blk_no p) (blocks s p)" if "valid_blk p" for p
    using assms [OF valid_blk_chip [OF that]] that by (cases p) (auto simp: fresh_chip_def)
  show "pool s (\<lambda>_ _. None) (\<lambda>_ _. None)"
    using f assms by (auto simp: pool_def ids_ok_def fresh_block_def fresh_chip_def chip_part_def
        roles_def NUM_BLOCKS_PER_CHIP_def)
  show "length (free_blks (chips s b c)) = 171" if "valid_chip b c"
    using assms [OF that] by (simp add: fresh_chip_def NUM_BLOCKS_PER_CHIP_def)
qed

lemma pool_take:
  assumes pool: "pool s A G" and vc: "valid_chip b c" and free: "free_blks (chips s b c) = p # ps"
  obtains s1 where "reset_free_blk s p = Some s1" "valid_blk p"
    "A b c = None \<Longrightarrow> \<exists>s2. set_act_blk_flag s1 p 1 = Some s2 \<and>
      pool s2 (A(b := (A b)(c := Some p))) G \<and> free_blks (chips s2 b c) = ps \<and>
      (\<forall>b' c'. (b', c') \<noteq> (b, c) \<longrightarrow> chips s2 b' c' = chips s b' c')"
    "G b c = None \<Longrightarrow> \<exists>s2. set_rsv_blk_flag s1 p 1 = Some s2 \<and>
      pool s2 A (G(b := (G b)(c := Some p))) \<and> free_blks (chips s2 b c) = ps \<and>
      (\<forall>b' c'. (b', c') \<noteq> (b, c) \<longrightarrow> chips s2 b' c' = chips s b' c')"
proof -
  have part: "chip_part b c (chips s b c) (A b c) (G b c)" and ids: "ids_ok (blocks s)"
    using pool vc by (auto simp: pool_def)
  have vp: "valid_blk p" "blk_bus p = b" "blk_chip p = c"
    using chip_part_roles(2) [OF part vc] free by (auto simp: roles_def)
  have pin: "p \<in> set (free_blks (chips s b c))" using free by simp
  let ?ci = "(chips s b c)\<lparr>free_blks := ps, nr_free_blocks := nr_free_blocks (chips s b c) - 1\<rparr>"
  let ?s1 = "set_chip s p ?ci"
  have s1: "reset_free_blk s p = Some ?s1"
    using chip_list_ops(2) [OF vp(1), of s] ids_okD [OF ids vp(1)] pin free vp by simp
  have a: "set_act_blk_flag ?s1 p 1 = Some (set_blk ?s1 p ((blocks s p)\<lparr>is_active_block := 1\<rparr>))"
    using blk_ops_plain(11) [OF vp(1)] by simp
  have r: "set_rsv_blk_flag ?s1 p 1 = Some (set_blk ?s1 p ((blocks s p)\<lparr>is_reserved_block := 1\<rparr>))"
    using vp(1) by (simp add: set_rsv_blk_flag_def st_valid set_blk_def)
  have ids': "ids_ok ((blocks s)(p := (blocks s p)\<lparr>is_active_block := x\<rparr>))"
    "ids_ok ((blocks s)(p := (blocks s p)\<lparr>is_reserved_block := x\<rparr>))" for x
    using ids by (auto simp: ids_ok_def)
  show thesis
  proof (rule that [OF s1 vp(1)])
    assume "A b c = None"
    then have "chip_part b c ?ci (Some p) (G b c)"
      using chip_moves(4) [of b c "chips s b c" "G b c" p] part pin free by simp
    then show "\<exists>s2. set_act_blk_flag ?s1 p 1 = Some s2 \<and>
      pool s2 (A(b := (A b)(c := Some p))) G \<and> free_blks (chips s2 b c) = ps \<and>
      (\<forall>b' c'. (b', c') \<noteq> (b, c) \<longrightarrow> chips s2 b' c' = chips s b' c')"
      using a pool vp ids' by (auto simp: pool_def)
  next
    assume "G b c = None"
    then have "chip_part b c ?ci (A b c) (Some p)"
      using part pin free
      by (auto simp: chip_part_def roles_def)
    then show "\<exists>s2. set_rsv_blk_flag ?s1 p 1 = Some s2 \<and>
      pool s2 A (G(b := (G b)(c := Some p))) \<and> free_blks (chips s2 b c) = ps \<and>
      (\<forall>b' c'. (b', c') \<noteq> (b, c) \<longrightarrow> chips s2 b' c' = chips s b' c')"
      using r pool vp ids' by (auto simp: pool_def)
  qed
qed

lemma act_blk_of_chip_spec:
  assumes pool: "pool s A G" and vc: "valid_chip b c" and "A b c = None"
    and free: "free_blks (chips s b c) \<noteq> []" and len: "length (act_blks abm) = NUM_CHIPS"
  shows "\<exists>p s2. act_blk_of_chip b c (abm, s) =
      Some (None, abm\<lparr>act_blks := (act_blks abm)[chip_idx b c := Some p]\<rparr>, s2) \<and>
    pool s2 (A(b := (A b)(c := Some p))) G \<and> length (free_blks (chips s2 b c)) = length (free_blks (chips s b c)) - 1 \<and>
    (\<forall>b' c'. (b', c') \<noteq> (b, c) \<longrightarrow> chips s2 b' c' = chips s b' c')"
proof -
  obtain p ps where p: "free_blks (chips s b c) = p # ps" using free by (cases "free_blks (chips s b c)") auto
  from pool_take [OF pool vc p] assms(3) obtain s1 s2 where
    "reset_free_blk s p = Some s1" "set_act_blk_flag s1 p 1 = Some s2"
    "pool s2 (A(b := (A b)(c := Some p))) G" "free_blks (chips s2 b c) = ps"
    "\<forall>b' c'. (b', c') \<noteq> (b, c) \<longrightarrow> chips s2 b' c' = chips s b' c'" by metis
  then show ?thesis
    using p len chip_idx_less [OF vc]
    by (auto simp: act_blk_of_chip_def get_free_block_eq [OF vc] list_head_def st_nth_def)
qed

lemma gc_blk_of_chip_spec:
  assumes pool: "pool s A G" and vc: "valid_chip b c" and "G b c = None"
    and free: "free_blks (chips s b c) \<noteq> []" and len: "length (gc_blks gcm) = NUM_CHIPS"
  shows "\<exists>p s2. gc_blk_of_chip b c (gcm, s) =
      Some (None, gcm\<lparr>gc_blks := (gc_blks gcm)[chip_idx b c := Some p]\<rparr>, s2) \<and>
    pool s2 A (G(b := (G b)(c := Some p))) \<and> length (free_blks (chips s2 b c)) = length (free_blks (chips s b c)) - 1 \<and>
    (\<forall>b' c'. (b', c') \<noteq> (b, c) \<longrightarrow> chips s2 b' c' = chips s b' c')"
proof -
  obtain p ps where p: "free_blks (chips s b c) = p # ps" using free by (cases "free_blks (chips s b c)") auto
  from pool_take [OF pool vc p] assms(3) obtain s1 s2 where
    "reset_free_blk s p = Some s1" "set_rsv_blk_flag s1 p 1 = Some s2"
    "pool s2 A (G(b := (G b)(c := Some p)))" "free_blks (chips s2 b c) = ps"
    "\<forall>b' c'. (b', c') \<noteq> (b, c) \<longrightarrow> chips s2 b' c' = chips s b' c'" by metis
  then show ?thesis
    using p len chip_idx_less [OF vc]
    by (auto simp: gc_blk_of_chip_def get_free_block_eq [OF vc] list_head_def st_nth_def)
qed

text \<open>The state of the driver before \<open>create_pg_ftl\<close>.\<close>

definition before_ftl :: "fb_context_t \<Rightarrow> bool" where
  "before_ftl fb \<longleftrightarrow> (\<forall>b c. valid_chip b c \<longrightarrow> fresh_chip b c (ptr_ssd_info fb)) \<and>
     (\<forall>p pg. valid_blk p \<longrightarrow> pg < NUM_PAGES_PER_BLOCK \<longrightarrow>
        length (vdata (ptr_vdevice fb) p pg) = NR_LP_IN_PP)"

lemma chips_01: "valid_chip 0 0" "valid_chip 0 1"
  by (simp_all add: valid_chip_cases)

lemma idx_01: "chip_idx 0 0 = 0" "chip_idx 0 1 = 1"
  by (simp_all add: chip_idx_def geometry_simps)

lemma create_act_blk_mngr_spec:
  assumes pool: "pool s (\<lambda>_ _. None) G" and free: "\<And>b c. valid_chip b c \<Longrightarrow> length (free_blks (chips s b c)) = n" "0 < n"
    and len: "length (act_blks junk) = NUM_CHIPS"
  shows "\<exists>p q s'. create_act_blk_mngr junk s = Some (Some (junk\<lparr>act_blks := [Some p, Some q],
      mru_bus := 0, mru_chip := 1\<rparr>), s') \<and>
    pool s' (\<lambda>b c. if b = 0 \<and> c = 0 then Some p else if b = 0 \<and> c = 1 then Some q else None) G \<and>
    (\<forall>b c. valid_chip b c \<longrightarrow> length (free_blks (chips s' b c)) = n - 1)"
proof -
  note F = free(1) [OF chips_01(1)] free(1) [OF chips_01(2)]
  obtain p s1 where p: "act_blk_of_chip 0 0 (junk, s) = Some (None, junk\<lparr>act_blks := (act_blks junk)[0 := Some p]\<rparr>, s1)"
    "pool s1 ((\<lambda>_ _. None)(0 := (\<lambda>_. None)(0 := Some p))) G" "length (free_blks (chips s1 0 0)) = n - 1"
    "length (free_blks (chips s1 0 1)) = n"
    using act_blk_of_chip_spec [OF pool chips_01(1) _ _ len] F free(2) idx_01 by force
  let ?abm = "junk\<lparr>act_blks := (act_blks junk)[0 := Some p]\<rparr>"
  have f: "free_blks (chips s1 0 1) \<noteq> []" using p(4) free(2) by auto
  obtain q s2 where q: "act_blk_of_chip 0 1 (?abm, s1) = Some (None, ?abm\<lparr>act_blks := (act_blks ?abm)[1 := Some q]\<rparr>, s2)"
    "pool s2 (((\<lambda>_ _. None)(0 := (\<lambda>_. None)(0 := Some p)))(0 := (((\<lambda>_ _. None)(0 := (\<lambda>_. None)(0 := Some p))) 0)(1 := Some q))) G"
    "length (free_blks (chips s2 0 1)) = n - 1" "chips s2 0 0 = chips s1 0 0"
    using act_blk_of_chip_spec [OF p(2) chips_01(2) _ f, of ?abm] len p(4) idx_01 by force
  have e: "(act_blks junk)[0 := Some p, 1 := Some q] = [Some p, Some q]"
    using len by (auto simp: NUM_CHIPS_def NUM_BUSES_def NUM_CHIPS_PER_BUS_def length_Suc_conv numeral_2_eq_2)
  have A: "((\<lambda>_ _. None)(0 := (\<lambda>_. None)(0 := Some p)))(0 := (((\<lambda>_ _. None)(0 := (\<lambda>_. None)(0 := Some p))) 0)(1 := Some q))
      = (\<lambda>b c. if b = (0 :: u32) \<and> c = (0 :: u32) then Some p else if b = 0 \<and> c = 1 then Some q else None)"
    by (auto simp: fun_eq_iff)
  have "create_act_blk_mngr junk s = Some (Some (junk\<lparr>act_blks := [Some p, Some q], mru_bus := 0, mru_chip := 1\<rparr>), s2)"
    unfolding create_act_blk_mngr_def words_below_CHIPS
    using p(1) q(1) e by (simp add: geometry_simps)
  moreover have "length (free_blks (chips s2 b c)) = n - 1" if "valid_chip b c" for b c
    using that p(3) q(3,4) by (auto simp: valid_chip_cases)
  ultimately show ?thesis using q(2) unfolding A by blast
qed

lemma create_gc_mngr_spec:
  assumes pool: "pool s A (\<lambda>_ _. None)" and free: "\<And>b c. valid_chip b c \<Longrightarrow> length (free_blks (chips s b c)) = n" "0 < n"
    and len: "length (gc_blks junk) = NUM_CHIPS"
  shows "\<exists>p q s'. create_gc_mngr junk s = Some (Some (junk\<lparr>nr_pgs_to_copy := 0, gc_blks := [Some p, Some q]\<rparr>), s') \<and>
    pool s' A (\<lambda>b c. if b = 0 \<and> c = 0 then Some p else if b = 0 \<and> c = 1 then Some q else None)"
proof -
  note F = free(1) [OF chips_01(1)] free(1) [OF chips_01(2)]
  let ?junk = "junk\<lparr>nr_pgs_to_copy := 0\<rparr>"
  obtain p s1 where p: "gc_blk_of_chip 0 0 (?junk, s) = Some (None, ?junk\<lparr>gc_blks := (gc_blks junk)[0 := Some p]\<rparr>, s1)"
    "pool s1 A ((\<lambda>_ _. None)(0 := (\<lambda>_. None)(0 := Some p)))" "length (free_blks (chips s1 0 0)) = n - 1"
    "length (free_blks (chips s1 0 1)) = n"
    using gc_blk_of_chip_spec [OF pool chips_01(1), of ?junk] len F free(2) idx_01 by force
  let ?gcm = "?junk\<lparr>gc_blks := (gc_blks junk)[0 := Some p]\<rparr>"
  have f: "free_blks (chips s1 0 1) \<noteq> []" using p(4) free(2) by auto
  obtain q s2 where q: "gc_blk_of_chip 0 1 (?gcm, s1) = Some (None, ?gcm\<lparr>gc_blks := (gc_blks ?gcm)[1 := Some q]\<rparr>, s2)"
    "pool s2 A (((\<lambda>_ _. None)(0 := (\<lambda>_. None)(0 := Some p)))(0 := (((\<lambda>_ _. None)(0 := (\<lambda>_. None)(0 := Some p))) 0)(1 := Some q)))"
    using gc_blk_of_chip_spec [OF p(2) chips_01(2) _ f, of ?gcm] len p(4) idx_01 by force
  have e: "(gc_blks junk)[0 := Some p, 1 := Some q] = [Some p, Some q]"
    using len by (auto simp: NUM_CHIPS_def NUM_BUSES_def NUM_CHIPS_PER_BUS_def length_Suc_conv numeral_2_eq_2)
  have A: "((\<lambda>_ _. None)(0 := (\<lambda>_. None)(0 := Some p)))(0 := (((\<lambda>_ _. None)(0 := (\<lambda>_. None)(0 := Some p))) 0)(1 := Some q))
      = (\<lambda>b c. if b = (0 :: u32) \<and> c = (0 :: u32) then Some p else if b = 0 \<and> c = 1 then Some q else None)"
    by (auto simp: fun_eq_iff)
  have "create_gc_mngr junk s = Some (Some (junk\<lparr>nr_pgs_to_copy := 0, gc_blks := [Some p, Some q]\<rparr>), s2)"
    using p(1) q(1) e by (simp add: create_gc_mngr_def words_below_CHIPS)
  then show ?thesis using q(2) unfolding A by blast
qed

text \<open>Every chip has an active and a GC block; nothing was programmed yet.\<close>

definition fresh_ftl :: "fb_context_t \<Rightarrow> bool" where
  "fresh_ftl fb \<longleftrightarrow> (\<forall>b c. valid_chip b c \<longrightarrow> act_of fb b c \<noteq> None \<and> gc_of fb b c \<noteq> None \<and>
     used_blks (chip_of fb b c) = [] \<and> dirt_blks (chip_of fb b c) = []) \<and>
     (\<forall>p. valid_blk p \<longrightarrow> nr_free_pages (blk_of fb p) = NUM_PAGES_PER_BLOCK)"

text \<open>The victim table and the copy buffers hold what the memory held before.\<close>

definition junk_buffers :: "fb_gc_mngr_t \<Rightarrow> fb_gc_mngr_t \<Rightarrow> bool" where
  "junk_buffers junk g \<longleftrightarrow> vic_blks g = vic_blks junk \<and> first_valid_pg g = first_valid_pg junk \<and>
     lpas_to_copy g = lpas_to_copy junk \<and> data_to_copy g = data_to_copy junk"

lemma create_pg_ftl_spec:
  assumes fb: "before_ftl fb" and junk: "junk_sizes junk"
  shows "\<exists>fb'. create_pg_ftl junk fb = Some (0, fb') \<and> ftl_ok fb' \<and> ftl_data fb' = Map.empty \<and>
    mapping_context_lock (ptr_mapping_context fb') = 1 \<and>
    ptr_vdevice fb' = ptr_vdevice fb \<and> fb_wbuf fb' = fb_wbuf fb \<and>
    length (ppas (ftl_delm (ptr_mapping_context fb'))) = NR_MAX_LPAS_DISCARD \<and>
    length (lpas_to_discard (ptr_mapping_context fb')) = NR_MAX_LPAS_DISCARD \<and>
    fresh_ftl fb' \<and> junk_buffers (ftl_gcm junk) (ftl_gcm (ptr_mapping_context fb'))"
proof -
  have fr: "\<And>b c. valid_chip b c \<Longrightarrow> fresh_chip b c (ptr_ssd_info fb)" using fb by (simp add: before_ftl_def)
  obtain mt where mt: "create_page_mapping_table (ptr_mapping_table junk) = Some mt"
    "nr_entries mt = of_nat NUM_LOG_PAGES" "\<And>lpa. is_valid_address_range lpa \<Longrightarrow> mappings mt lpa = PAGE_UNMAPPED"
    using create_page_mapping_table_spec by blast
  let ?two = "\<lambda>p q b c. if b = (0 :: u32) \<and> c = (0 :: u32) then Some (p :: blkptr) else if b = 0 \<and> c = 1 then Some q else None"
  obtain p q s1 where a: "create_act_blk_mngr (ftl_abm junk) (ptr_ssd_info fb) =
      Some (Some ((ftl_abm junk)\<lparr>act_blks := [Some p, Some q], mru_bus := 0, mru_chip := 1\<rparr>), s1)"
    "pool s1 (?two p q) (\<lambda>_ _. None)" "\<And>b c. valid_chip b c \<Longrightarrow> length (free_blks (chips s1 b c)) = 170"
    using create_act_blk_mngr_spec [OF pool_fresh(1) [OF fr] pool_fresh(2) [OF fr], of "ftl_abm junk"] junk
    by (auto simp: junk_sizes_def)
  obtain p' q' s2 where g: "create_gc_mngr (ftl_gcm junk) s1 =
      Some (Some ((ftl_gcm junk)\<lparr>nr_pgs_to_copy := 0, gc_blks := [Some p', Some q']\<rparr>), s2)"
    "pool s2 (?two p q) (?two p' q')"
    using create_gc_mngr_spec [OF a(2,3), of "ftl_gcm junk"] junk by (auto simp: junk_sizes_def)
  let ?fb = "fb\<lparr>ptr_ssd_info := s2, ptr_mapping_context := junk\<lparr>ptr_mapping_table := mt,
      ftl_abm := (ftl_abm junk)\<lparr>act_blks := [Some p, Some q], mru_bus := 0, mru_chip := 1\<rparr>,
      ftl_delm := create_del_mngr (ftl_delm junk),
      ftl_gcm := (ftl_gcm junk)\<lparr>nr_pgs_to_copy := 0, gc_blks := [Some p', Some q']\<rparr>,
      mapping_context_lock := Suc 0\<rparr>\<rparr>"
  have eq: "create_pg_ftl junk fb = Some (0, ?fb)"
    using mt(1) a(1) g(1) by (simp add: create_pg_ftl_def Let_def)
  have act: "act_of ?fb = ?two p q" and gc: "gc_of ?fb = ?two p' q'"
    by (auto simp: act_of_def gc_of_def fun_eq_iff valid_chip_cases idx_01)
  have l2p: "l2p ?fb lpa = PAGE_UNMAPPED" if "is_valid_address_range lpa" for lpa using mt(3) that by simp
  have free: "bst (blk_of ?fb r) pg i = PAGE_STATUS_FREE"
    if "valid_blk r" "pg < NUM_PAGES_PER_BLOCK" "i < NR_LP_IN_PP" for r pg i
    using g(2) that by (simp add: pool_def blank_block_def blank_page_def)
  have "ftl_ok ?fb"
    unfolding ftl_inv_def
  proof (intro conjI allI impI)
    show "sizes_ok ?fb"
      using junk fb mt(2) by (simp add: sizes_ok_def junk_sizes_def before_ftl_def geometry_simps)
    show "ids_ok (blk_of ?fb)" using g(2) by (simp add: pool_def)
    show "map_ok (blk_of ?fb) (l2p ?fb)" using l2p free by (auto simp: map_ok_def)
    show "blk_wf 0 (blk_of ?fb r)" if "valid_blk r" for r
      using g(2) that by (auto simp: pool_def intro: blk_wf_blank)
    fix b c assume vc: "valid_chip b c"
    show part: "chip_part b c (chip_of ?fb b c) (act_of ?fb b c) (gc_of ?fb b c)"
      unfolding act gc using g(2) vc by (simp add: pool_def)
    have "nr_free_pages (blk_of ?fb r) = NUM_PAGES_PER_BLOCK"
      if "r \<in> set (roles (chip_of ?fb b c) (act_of ?fb b c) (gc_of ?fb b c))" for r
      using chip_part_roles(2) [OF part vc] that g(2) by (auto simp: pool_def blank_block_def)
    moreover have "used_blks (chip_of ?fb b c) = []" "dirt_blks (chip_of ?fb b c) = []"
      using g(2) vc by (simp_all add: pool_def)
    ultimately show "roles_ok (blk_of ?fb) {} (chip_of ?fb b c) (act_of ?fb b c) (gc_of ?fb b c)"
      by (simp add: roles_ok_def roles_def NUM_PAGES_PER_BLOCK_def)
  qed auto
  moreover have "ftl_data ?fb = Map.empty" using l2p by (auto simp: ftl_data_def fun_eq_iff)
  moreover have "length (ppas (create_del_mngr (ftl_delm junk))) = NR_MAX_LPAS_DISCARD"
    using junk by (simp add: create_del_mngr_def init_delm_def junk_sizes_def)
  moreover have "length (lpas_to_discard junk) = NR_MAX_LPAS_DISCARD" using junk by (simp add: junk_sizes_def)
  moreover have "fresh_ftl ?fb"
    unfolding fresh_ftl_def act gc using g(2) by (auto simp: pool_def blank_block_def valid_chip_cases)
  moreover have "junk_buffers (ftl_gcm junk) (ftl_gcm (ptr_mapping_context ?fb))" by (simp add: junk_buffers_def)
  ultimately show ?thesis using eq by (intro exI [of _ ?fb]) simp
qed

end
