(* ===== verification/FB_Main.thy ===== *)
theory FB_Main
  imports FB_Ftl_Spec FB_Bus FB_Create FB_Init
begin

text \<open>
  The block device driver, \<open>main.c\<close>: the request function, the timestamp that starts
  background GC, and module initialisation. What the kernel supplies is an argument: the bio with its segments,
  the address \<open>vmalloc\<close> returns, clock readings, and the outcomes of the calls \<open>fb_init\<close> makes.
\<close>

section \<open>Requests of the block layer\<close>

text \<open>
  A bio as \<open>make_request\<close> sees it: \<open>bi_dir\<close> is \<open>bio_data_dir\<close>, \<open>bi_segs\<close> the page addresses of
  its segments in the order of \<open>bio_for_each_segment\<close>; \<open>bi_id\<close> names it.
\<close>

record bio_t =
  bi_id :: nat
  bi_dir :: int
  bi_preflush :: bool
  bi_discard :: bool
  bi_sector :: u64
  bi_size :: u32
  bi_segs :: "nat list"

definition READ_DIR :: int where "READ_DIR = 0"
definition WRITE_DIR :: int where "WRITE_DIR = 1"

definition NR_MAX_REQ_BIO :: nat where "NR_MAX_REQ_BIO = 256"

text \<open>The driver's global state, the host pages, and the error field of every bio.\<close>

record drv =
  d_fb :: fb_context_t
  d_io :: io_state
  kmem :: "nat \<Rightarrow> lpdata"
  bi_error :: "nat \<Rightarrow> int"

abbreviation upd_fb :: "drv \<Rightarrow> fb_context_t \<Rightarrow> drv" where
  "upd_fb d fb \<equiv> d\<lparr>d_fb := fb\<rparr>"

definition bio_endio :: "nat \<Rightarrow> drv \<Rightarrow> drv" where
  "bio_endio b d = d\<lparr>d_io := (d_io d)\<lparr>endio := endio (d_io d) @ [b]\<rparr>\<rparr>"

definition fb_destroy_bio :: "bioptr option \<Rightarrow> drv \<Rightarrow> drv" where
  "fb_destroy_bio fbio d = (case fbio of None \<Rightarrow> d
     | Some p \<Rightarrow> d\<lparr>d_io := (d_io d)\<lparr>fbios := (fbios (d_io d))(p := None)\<rparr>\<rparr>)"

section \<open>The time of the last request\<close>

definition fb_update_bgc_ts :: "u64 \<Rightarrow> fb_context_t \<Rightarrow> fb_context_t" where
  "fb_update_bgc_ts now fb = fb\<lparr>background_gc_time_stamp := now\<rparr>"

definition fb_is_bgc_ts_expired :: "u64 \<Rightarrow> fb_context_t \<Rightarrow> u64 \<Rightarrow> bool" where
  "fb_is_bgc_ts_expired now fb threshold \<longleftrightarrow> threshold < now - background_gc_time_stamp fb"

section \<open>Building the request\<close>

text \<open>One segment: a page found in the write buffer is copied at once, any other page is noted in the request.\<close>

definition build_segment :: "int \<Rightarrow> nat \<Rightarrow> u64 \<times> fb_bio_t \<times> drv \<Rightarrow> (u64 \<times> fb_bio_t \<times> drv) option" where
  "build_segment rw page st = (case st of (sec_start, fbio, d) \<Rightarrow> do {
     let lpa_curr = drop_bit 3 sec_start;
     (hit, d) \<leftarrow> (if rw = READ_DIR then do {
         (ret, data, wb) \<leftarrow> fb_get_pg_data (fb_wbuf (d_fb d)) (ucast lpa_curr) (kmem d page);
         Some (ret \<noteq> -1, d\<lparr>d_fb := (d_fb d)\<lparr>fb_wbuf := wb\<rparr>, kmem := (kmem d)(page := data)\<rparr>) }
       else Some (False, d));
     if hit then Some (sec_start + 8, fbio, d)
     else do {
       lpas \<leftarrow> st_nth (fbio_lpas fbio) (unat (req_count fbio)) (ucast lpa_curr);
       kpages \<leftarrow> st_nth (fbio_kpages fbio) (unat (req_count fbio)) page;
       Some (sec_start + 8, fbio\<lparr>fbio_lpas := lpas, fbio_kpages := kpages, req_count := req_count fbio + 1\<rparr>, d) } })"

text \<open>\<open>vm\<close> is the result of \<open>vmalloc\<close>, \<open>junk\<close> the previous contents of that memory.\<close>

definition fb_build_bio :: "bioptr option \<Rightarrow> fb_bio_t \<Rightarrow> bio_t \<Rightarrow> drv \<Rightarrow> (bioptr option \<times> drv) option" where
  "fb_build_bio vm junk bio d = (case vm of
     None \<Rightarrow> Some (None, d)
   | Some p \<Rightarrow> do {
       let fbio = junk\<lparr>fbio_bio := bi_id bio, req_count := 0\<rparr>;
       let sec_start = bi_sector bio AND NOT 7;
       (_, fbio, d) \<leftarrow> foldM (build_segment (bi_dir bio)) (bi_segs bio) (sec_start, fbio, d);
       let fbio = fbio\<lparr>bio_lock := complete 0\<rparr>;
       Some (Some p, d\<lparr>d_io := (d_io d)\<lparr>fbios := (fbios (d_io d))(p := Some fbio)\<rparr>\<rparr>) })"

definition fb_del_invalid_data :: "fb_context_t \<Rightarrow> fb_bio_t \<Rightarrow> fb_context_t option" where
  "fb_del_invalid_data fb fbio = del_invalidate_pgs fb (req_count fbio) (fbio_lpas fbio)"

section \<open>Serving the request\<close>

text \<open>One page of a read. The bus thread completes the request when the operations issued for it are over.\<close>

definition read_one :: "bioptr \<Rightarrow> u32 \<Rightarrow> drv \<Rightarrow> drv option" where
  "read_one p loop d = do {
     fbio \<leftarrow> fbios (d_io d) p;
     lpa \<leftarrow> ld_nth (fbio_lpas fbio) (unat loop);
     page \<leftarrow> ld_nth (fbio_kpages fbio) (unat loop);
     (ret, data, fb) \<leftarrow> make_read_request_page_mapping (d_fb d) lpa (kmem d page) (Some p);
     let d = d\<lparr>d_fb := fb, kmem := (kmem d)(page := data)\<rparr>;
     if ret = -1 then map_option (\<lambda>io. d\<lparr>d_io := io\<rparr>) (finish_one p (d_io d))
     else Some d }"

text \<open>
  The loop over the pages of a write, from page \<open>loop\<close> on; \<open>None\<close> is a fault or no end. When the buffer is full
  it is flushed and the same page tried again. \<open>lpas\<close> is the uninitialised local array of \<open>fb_wb_flush\<close>.
\<close>

partial_function (option) write_loop :: "u32 list \<Rightarrow> bioptr \<Rightarrow> u32 \<Rightarrow> u32 \<Rightarrow> drv \<Rightarrow> (int \<times> drv) option" where
  "write_loop lpas p req_cnt loop d = (if loop < req_cnt then do {
     fbio \<leftarrow> fbios (d_io d) p;
     lpa \<leftarrow> ld_nth (fbio_lpas fbio) (unat loop);
     page \<leftarrow> ld_nth (fbio_kpages fbio) (unat loop);
     (ret, wb) \<leftarrow> fb_put_pg (fb_wbuf (d_fb d)) lpa (kmem d page);
     let d = upd_fb d ((d_fb d)\<lparr>fb_wbuf := wb\<rparr>);
     if ret = 0 then write_loop lpas p req_cnt (loop + 1) (upd_fb d (upd_perf (d_fb d) perf_inc_nr_incomming_write))
     else do {
       (ret, fb) \<leftarrow> fb_wb_flush lpas (d_fb d);
       let d = upd_fb d fb;
       if ret = -1 then Some (-1, d) else write_loop lpas p req_cnt (loop - 1 + 1) d } }
   else Some (0, d))"

declare write_loop.simps [code]

text \<open>The exits of \<open>make_request\<close>: the labels \<open>REQ_FINISH\<close> and \<open>FAIL\<close>.\<close>

definition req_finish :: "u64 \<Rightarrow> bio_t \<Rightarrow> bioptr option \<Rightarrow> drv \<Rightarrow> drv" where
  "req_finish now bio fbio d =
     (let d = (if bi_dir bio \<noteq> READ_DIR then fb_destroy_bio fbio (bio_endio (bi_id bio) d) else d);
          fb = fb_update_bgc_ts now (d_fb d)
      in upd_fb d (fb\<lparr>dev_lock := complete (dev_lock fb)\<rparr>))"

definition req_fail :: "u32 \<Rightarrow> bio_t \<Rightarrow> bioptr option \<Rightarrow> drv \<Rightarrow> drv" where
  "req_fail ret_value bio fbio d =
     (let d = upd_fb d ((d_fb d)\<lparr>fb_err := 1\<rparr>);
          d = d\<lparr>bi_error := (bi_error d)(bi_id bio := sint ret_value)\<rparr>;
          d = fb_destroy_bio fbio (bio_endio (bi_id bio) d)
      in upd_fb d ((d_fb d)\<lparr>dev_lock := complete (dev_lock (d_fb d))\<rparr>))"

definition ENODEV :: u32 where "ENODEV = 19"
definition ENOMSG :: u32 where "ENOMSG = 42"

text \<open>The read and write branches, from the built request on.\<close>

definition serve_read :: "u64 \<Rightarrow> bio_t \<Rightarrow> bioptr \<Rightarrow> drv \<Rightarrow> drv option" where
  "serve_read now bio p d = do {
     fbio \<leftarrow> fbios (d_io d) p;
     let req_cnt = req_count fbio;
     if req_cnt = 0
     then Some (req_finish now bio (Some p) (fb_destroy_bio (Some p) (bio_endio (fbio_bio fbio) d)))
     else map_option (req_finish now bio (Some p)) (foldM (read_one p) (words_below req_cnt) d) }"

definition serve_write :: "u32 list \<Rightarrow> u64 \<Rightarrow> bio_t \<Rightarrow> bioptr \<Rightarrow> drv \<Rightarrow> drv option" where
  "serve_write lpas now bio p d = do {
     fbio \<leftarrow> fbios (d_io d) p;
     let req_cnt = req_count fbio;
     fb \<leftarrow> fb_del_invalid_data (d_fb d) fbio;
     (ret, d) \<leftarrow> write_loop lpas p req_cnt 0 (upd_fb d fb);
     Some (if ret = -1 then req_fail 0 bio (Some p) d else req_finish now bio (Some p) d) }"

text \<open>\<open>now1\<close> and \<open>now2\<close> are the two clock readings.\<close>

definition make_request ::
  "bioptr option \<Rightarrow> fb_bio_t \<Rightarrow> u32 list \<Rightarrow> u64 \<Rightarrow> u64 \<Rightarrow> bio_t \<Rightarrow> drv \<Rightarrow> drv option" where
  "make_request vm junk lpas now1 now2 bio d = do {
     c \<leftarrow> acquire (dev_lock (d_fb d));
     let d = upd_fb d (fb_update_bgc_ts now1 ((d_fb d)\<lparr>dev_lock := c\<rparr>));
     if fb_err (d_fb d) \<noteq> 0 then Some (req_fail 0 bio None d)
     else if bi_preflush bio then (let ret = make_flush_request_page_mapping in Some (req_finish now2 bio None d))
     else if bi_discard bio then do {
       (_, fb) \<leftarrow> make_discard_request_page_mapping (d_fb d) (bi_sector bio) (bi_size bio);
       Some (req_finish now2 bio None (upd_fb d fb)) }
     else do {
       (fbio, d) \<leftarrow> fb_build_bio vm junk bio d;
       case fbio of
         None \<Rightarrow> Some (req_fail (- ENODEV) bio None d)
       | Some p \<Rightarrow>
           if bi_dir bio = READ_DIR then serve_read now2 bio p d
           else if bi_dir bio = WRITE_DIR then serve_write lpas now2 bio p d
           else Some (req_fail (- ENOMSG) bio (Some p) d) } }"

section \<open>Sectors and pages\<close>

text \<open>The logical page of the \<open>k\<close>-th segment; segment \<open>k\<close> starts at sector \<open>8 * (start_page s + k)\<close>.\<close>

definition start_page :: "u64 \<Rightarrow> nat" where
  "start_page s = unat (drop_bit 3 s)"

definition lpa_at :: "u64 \<Rightarrow> nat \<Rightarrow> u32" where
  "lpa_at s k = of_nat (start_page s + k)"

lemma sector_start: "s AND NOT 7 = (of_nat (8 * start_page s) :: u64)"
proof -
  have m: "(7 :: u64) = mask 3" by (simp add: mask_eq_exp_minus_1)
  have "s AND NOT (mask 3) = push_bit 3 (drop_bit 3 s)"
    by (rule bit_word_eqI) (auto simp: bit_simps)
  also have "\<dots> = drop_bit 3 s * 8" by (simp add: push_bit_eq_mult)
  also have "\<dots> = of_nat (8 * start_page s)" by (simp add: start_page_def)
  finally show ?thesis by (simp only: m)
qed

lemma sector_page:
  assumes "start_page s + k < 2 ^ 32"
  shows "ucast (drop_bit 3 (of_nat (8 * (start_page s + k)) :: u64)) = lpa_at s k"
proof -
  have "ucast (drop_bit 3 (of_nat (8 * t) :: u64)) = (of_nat t :: u32)" if "t < 2 ^ 32" for t
  proof -
    have "unat (of_nat (8 * t) :: u64) = 8 * t" using that by (intro of_nat_inverse [OF refl]) simp
    then have "unat (drop_bit 3 (of_nat (8 * t) :: u64)) = t" unfolding unat_drop_bit_eq by (simp add: drop_bit_eq_div)
    then show ?thesis using that
      by (simp add: word_unat_eq_iff unsigned_ucast_eq take_bit_nat_eq_self unat_of_nat)
  qed
  from this [OF assms] show ?thesis by (simp only: lpa_at_def)
qed

text \<open>\<open>got V L pages k m0 m\<close>: the first \<open>k\<close> pages of memory \<open>m\<close> hold what \<open>V\<close> has for them, or what they held in \<open>m0\<close>.\<close>

definition got :: "(u32 \<rightharpoonup> lpdata) \<Rightarrow> (nat \<Rightarrow> u32) \<Rightarrow> nat list \<Rightarrow> nat \<Rightarrow> (nat \<Rightarrow> lpdata) \<Rightarrow> (nat \<Rightarrow> lpdata) \<Rightarrow> bool" where
  "got V L pages k m0 m \<longleftrightarrow>
     (\<forall>i < k. m (pages ! i) = (case V (L i) of Some x \<Rightarrow> x | None \<Rightarrow> m0 (pages ! i))) \<and>
     (\<forall>x. x \<notin> set (take k pages) \<longrightarrow> m x = m0 x)"

lemma got_0 [simp]: "got V L pages 0 m m"
  by (simp add: got_def)

lemma got_step:
  assumes g: "got V L pages k m0 m" and k: "k < length pages" and dist: "distinct pages"
  shows "got V L pages (Suc k) m0 (m(pages ! k := (case V (L k) of Some x \<Rightarrow> x | None \<Rightarrow> m (pages ! k))))"
proof -
  have ne: "pages ! i \<noteq> pages ! k" if "i < k" for i using dist k that by (simp add: nth_eq_iff_index_eq)
  have "pages ! k \<notin> set (take k pages)" using dist k by (simp add: take_Suc_conv_app_nth [symmetric] distinct_conv_nth in_set_conv_nth nth_eq_iff_index_eq)
  then have mk: "m (pages ! k) = m0 (pages ! k)" using g by (simp add: got_def)
  show ?thesis
    using g ne mk k by (cases "V (L k)") (auto simp: got_def less_Suc_eq take_Suc_conv_app_nth)
qed

lemma got_empty: "got Map.empty L pages k m0 m \<longleftrightarrow> m = m0"
  by (auto simp: got_def fun_eq_iff in_set_conv_nth) (metis (full_types) in_set_conv_nth length_take min_less_iff_conj nth_take)

section \<open>The request that is built\<close>

text \<open>The segments not served from the write buffer; a write has them all.\<close>

definition misses :: "(u32 \<rightharpoonup> lpdata) \<Rightarrow> u64 \<Rightarrow> nat \<Rightarrow> nat list" where
  "misses V s k = filter (\<lambda>i. V (lpa_at s i) = None) [0..<k]"

definition noted :: "(u32 \<rightharpoonup> lpdata) \<Rightarrow> u64 \<Rightarrow> nat list \<Rightarrow> nat \<Rightarrow> fb_bio_t \<Rightarrow> bool" where
  "noted V s segs k fbio \<longleftrightarrow> length (fbio_lpas fbio) = NR_MAX_REQ_BIO \<and> length (fbio_kpages fbio) = NR_MAX_REQ_BIO \<and>
     req_count fbio = of_nat (length (misses V s k)) \<and>
     take (length (misses V s k)) (fbio_lpas fbio) = map (lpa_at s) (misses V s k) \<and>
     take (length (misses V s k)) (fbio_kpages fbio) = map ((!) segs) (misses V s k)"

lemma misses_Suc: "misses V s (Suc k) = misses V s k @ (if V (lpa_at s k) = None then [k] else [])"
  by (simp add: misses_def)

lemma length_misses: "length (misses V s k) \<le> k"
  by (metis diff_zero length_filter_le length_upt misses_def)

lemma noted_step:
  assumes n: "noted V s segs k fbio" and k: "k < NR_MAX_REQ_BIO" and miss: "V (lpa_at s k) = None"
  shows "st_nth (fbio_lpas fbio) (unat (req_count fbio)) x = Some ((fbio_lpas fbio)[unat (req_count fbio) := x])"
    "st_nth (fbio_kpages fbio) (unat (req_count fbio)) y = Some ((fbio_kpages fbio)[unat (req_count fbio) := y])"
    "noted V s segs (Suc k) (fbio\<lparr>fbio_lpas := (fbio_lpas fbio)[unat (req_count fbio) := lpa_at s k],
      fbio_kpages := (fbio_kpages fbio)[unat (req_count fbio) := segs ! k], req_count := req_count fbio + 1\<rparr>)"
proof -
  let ?m = "length (misses V s k)"
  have m: "?m < NR_MAX_REQ_BIO" using length_misses [of V s k] k by simp
  have u: "unat (req_count fbio) = ?m"
    using n m by (simp add: noted_def unat_of_nat_u32 NR_MAX_REQ_BIO_def)
  show "st_nth (fbio_lpas fbio) (unat (req_count fbio)) x = Some ((fbio_lpas fbio)[unat (req_count fbio) := x])"
    "st_nth (fbio_kpages fbio) (unat (req_count fbio)) y = Some ((fbio_kpages fbio)[unat (req_count fbio) := y])"
    using n m u by (simp_all add: noted_def st_nth_def)
  show "noted V s segs (Suc k) (fbio\<lparr>fbio_lpas := (fbio_lpas fbio)[unat (req_count fbio) := lpa_at s k],
      fbio_kpages := (fbio_kpages fbio)[unat (req_count fbio) := segs ! k], req_count := req_count fbio + 1\<rparr>)"
    using n m u miss by (simp add: noted_def misses_Suc take_Suc_conv_app_nth)
qed

definition wbv :: "int \<Rightarrow> drv \<Rightarrow> u32 \<rightharpoonup> lpdata" where
  "wbv rw d = (if rw = READ_DIR then wb_view (fb_wbuf (d_fb d)) else Map.empty)"

lemma build_segment_spec:
  assumes wf: "wb_wf n (fb_wbuf (d_fb d))" and room: "start_page s + k < 2 ^ 32" and k: "k < length segs" "k < NR_MAX_REQ_BIO"
    and sec: "sec = of_nat (8 * (start_page s + k))" and noted: "noted (wbv rw d) s segs k fbio"
  shows "\<exists>fbio'. build_segment rw (segs ! k) (sec, fbio, d) =
      Some (sec + 8, fbio', d\<lparr>kmem := (kmem d)(segs ! k :=
        (case wbv rw d (lpa_at s k) of Some x \<Rightarrow> x | None \<Rightarrow> kmem d (segs ! k)))\<rparr>) \<and>
    noted (wbv rw d) s segs (Suc k) fbio' \<and> fbio_bio fbio' = fbio_bio fbio"
proof -
  have pg: "ucast (drop_bit 3 sec) = lpa_at s k" unfolding sec by (rule sector_page [OF room])
  have same: "d\<lparr>d_fb := (d_fb d)\<lparr>fb_wbuf := fb_wbuf (d_fb d)\<rparr>, kmem := m\<rparr> = d\<lparr>kmem := m\<rparr>" for m by simp
  show ?thesis
  proof (cases "wbv rw d (lpa_at s k)")
    case (Some x)
    then have rw: "rw = READ_DIR" and v: "wb_view (fb_wbuf (d_fb d)) (lpa_at s k) = Some x"
      by (auto simp: wbv_def split: if_splits)
    have "build_segment rw (segs ! k) (sec, fbio, d) =
      Some (sec + 8, fbio, d\<lparr>kmem := (kmem d)(segs ! k := x)\<rparr>)"
      using rw wb_get_pg_data [OF wf] v pg by (simp add: build_segment_def Let_def)
    moreover have "noted (wbv rw d) s segs (Suc k) fbio" using noted Some by (simp add: noted_def misses_Suc)
    ultimately show ?thesis using Some by simp
  next
    case None
    have hit: "(if rw = READ_DIR then do {
         (ret, data, wb) \<leftarrow> fb_get_pg_data (fb_wbuf (d_fb d)) (lpa_at s k) (kmem d (segs ! k));
         Some (ret \<noteq> -1, d\<lparr>d_fb := (d_fb d)\<lparr>fb_wbuf := wb\<rparr>, kmem := (kmem d)(segs ! k := data)\<rparr>) }
       else Some (False, d)) = Some (False, d)"
      using None wb_get_pg_data [OF wf] by (simp add: wbv_def split: if_splits)
    note st = noted_step [OF noted k(2) None]
    show ?thesis
      using st(3) None unfolding build_segment_def Let_def prod.case pg hit bind.bind_lunit
      by (simp add: st(1) st(2))
  qed
qed

lemma build_bio_spec:
  assumes wf: "wb_wf n (fb_wbuf (d_fb d))" and room: "start_page (bi_sector bio) + length (bi_segs bio) \<le> 2 ^ 32"
    and len: "length (bi_segs bio) \<le> NR_MAX_REQ_BIO" and dist: "bi_dir bio = READ_DIR \<Longrightarrow> distinct (bi_segs bio)"
    and junk: "length (fbio_lpas junk) = NR_MAX_REQ_BIO" "length (fbio_kpages junk) = NR_MAX_REQ_BIO"
  defines "V \<equiv> wbv (bi_dir bio) d" and "s \<equiv> bi_sector bio" and "segs \<equiv> bi_segs bio"
  shows "\<exists>fbio m. fb_build_bio (Some p) junk bio d = Some (Some p, d\<lparr>kmem := m,
      d_io := (d_io d)\<lparr>fbios := (fbios (d_io d))(p := Some fbio)\<rparr>\<rparr>) \<and>
    noted V s segs (length segs) fbio \<and> got V (lpa_at s) segs (length segs) (kmem d) m \<and>
    fbio_bio fbio = bi_id bio \<and> bio_lock fbio = 1"
proof -
  let ?I = "\<lambda>done (sec :: u64, fbio, d'). \<exists>m. sec = of_nat (8 * (start_page s + length done)) \<and> d' = d\<lparr>kmem := m\<rparr> \<and>
    noted V s segs (length done) fbio \<and> got V (lpa_at s) segs (length done) (kmem d) m \<and> fbio_bio fbio = bi_id bio"
  let ?st = "(s AND NOT 7, junk\<lparr>fbio_bio := bi_id bio, req_count := 0\<rparr>, d)"
  have "\<exists>st. foldM (build_segment (bi_dir bio)) segs ?st = Some st \<and> ?I segs st"
  proof (rule foldM_rule [where I = ?I])
    show "?I [] ?st"
      using junk sector_start [of s] by (auto simp: noted_def misses_def intro: exI [of _ "kmem d"])
    fix "done" x rest st
    assume w: "segs = done @ x # rest" and I: "?I done st"
    obtain sec :: u64 and fbio d' where st: "st = (sec, fbio, d')" by (cases st)
    obtain m where m: "sec = of_nat (8 * (start_page s + length done))" "d' = d\<lparr>kmem := m\<rparr>"
      "noted V s segs (length done) fbio" "got V (lpa_at s) segs (length done) (kmem d) m" "fbio_bio fbio = bi_id bio"
      using I st by auto
    let ?k = "length done"
    have k: "?k < length segs" "segs ! ?k = x" using w by simp_all
    have v: "wbv (bi_dir bio) d' = V" using m(2) by (simp add: V_def wbv_def)
    have nd: "noted (wbv (bi_dir bio) d') s segs ?k fbio" using m(3) v by simp
    have wf': "wb_wf n (fb_wbuf (d_fb d'))" using wf m(2) by simp
    have r: "start_page s + ?k < 2 ^ 32" "?k < NR_MAX_REQ_BIO" using k(1) room len by (simp_all add: s_def segs_def)
    let ?d = "d'\<lparr>kmem := (kmem d')(segs ! ?k := (case V (lpa_at s ?k) of Some x \<Rightarrow> x | None \<Rightarrow> kmem d' (segs ! ?k)))\<rparr>"
    obtain fbio' where b: "build_segment (bi_dir bio) (segs ! ?k) (sec, fbio, d') =
      Some (sec + 8, fbio', ?d)" "noted V s segs (Suc ?k) fbio'" "fbio_bio fbio' = fbio_bio fbio"
      using build_segment_spec [OF wf' r(1) k(1) r(2) m(1) nd] unfolding v by blast
    have g: "got V (lpa_at s) segs (Suc ?k) (kmem d) (kmem ?d)"
    proof (cases "bi_dir bio = READ_DIR")
      case True
      then show ?thesis using got_step [OF m(4) k(1) dist [OF True, folded segs_def]] m(2)
        by (simp cong: option.case_cong)
    next
      case False
      then have "V = Map.empty" by (simp add: V_def wbv_def)
      then show ?thesis using m(2,4) by (simp add: got_empty)
    qed
    have "sec + 8 = of_nat (8 * (start_page s + length (done @ [x])))" using m(1) by simp
    then have "?I (done @ [x]) (sec + 8, fbio', ?d)"
      using b(2,3) g m(2,5) by auto
    then show "\<exists>st'. build_segment (bi_dir bio) x st = Some st' \<and> ?I (done @ [x]) st'"
      using b(1) k(2) st by (intro exI [of _ "(sec + 8, fbio', ?d)"]) simp
  qed
  then obtain sec fbio m where "foldM (build_segment (bi_dir bio)) segs ?st = Some (sec, fbio, d\<lparr>kmem := m\<rparr>)"
    "noted V s segs (length segs) fbio" "got V (lpa_at s) segs (length segs) (kmem d) m" "fbio_bio fbio = bi_id bio"
    by auto
  then show ?thesis
    by (intro exI [of _ "fbio\<lparr>bio_lock := 1\<rparr>"] exI [of _ m])
      (simp add: fb_build_bio_def s_def segs_def noted_def Let_def)
qed

section \<open>Reading\<close>

lemma finish_one_eq:
  assumes "fbios io p = Some b" "bio_lock b = Suc 0"
  shows "finish_one p io = Some (if req_count b - 1 = 0
    then io\<lparr>fbios := (fbios io)(p := None), endio := endio io @ [fbio_bio b]\<rparr>
    else io\<lparr>fbios := (fbios io)(p := Some (b\<lparr>req_count := req_count b - 1\<rparr>))\<rparr>)"
proof -
  have "dec_bio_req_count b = Some (req_count b - 1, b\<lparr>req_count := req_count b - 1\<rparr>)"
    using assms(2) by (cases b) (simp add: dec_bio_req_count_def Let_def)
  then show ?thesis using assms(1) by (simp add: finish_one_def)
qed

lemma same_ftl:
  assumes "ptr_ssd_info fb' = ptr_ssd_info fb" "ptr_mapping_context fb' = ptr_mapping_context fb"
    "ptr_vdevice fb' = ptr_vdevice fb"
  shows "ftl_inv pt ex fb' = ftl_inv pt ex fb" "ftl_data fb' = ftl_data fb"
proof -
  have "ftl_inv pt ex fb2" if "ftl_inv pt ex fb1" "ptr_ssd_info fb2 = ptr_ssd_info fb1"
    "ptr_mapping_context fb2 = ptr_mapping_context fb1" "ptr_vdevice fb2 = ptr_vdevice fb1" for fb1 fb2
    using ftl_invD(1) [OF that(1)] that(2-4) by (intro ftl_inv_cong [OF that(1)]) (simp_all add: sizes_ok_def)
  then show "ftl_inv pt ex fb' = ftl_inv pt ex fb" using assms by metis
  show "ftl_data fb' = ftl_data fb" using assms by (intro ftl_data_eqI) simp_all
qed

lemma stamp_fields [simp]:
  "ftl_inv pt ex (fb\<lparr>dev_lock := l\<rparr>) = ftl_inv pt ex fb" "ftl_data (fb\<lparr>dev_lock := l\<rparr>) = ftl_data fb"
  "ftl_inv pt ex (fb\<lparr>fb_err := e\<rparr>) = ftl_inv pt ex fb" "ftl_data (fb\<lparr>fb_err := e\<rparr>) = ftl_data fb"
  "ftl_inv pt ex (fb_update_bgc_ts t fb) = ftl_inv pt ex fb" "ftl_data (fb_update_bgc_ts t fb) = ftl_data fb"
  "ftl_inv pt ex (upd_perf fb f) = ftl_inv pt ex fb" "ftl_data (upd_perf fb f) = ftl_data fb"
  unfolding fb_update_bgc_ts_def upd_perf_def by (rule same_ftl; simp)+

text \<open>What every part of a request keeps of the driver's state.\<close>

definition drv_ok :: "nat \<Rightarrow> drv \<Rightarrow> bool" where
  "drv_ok n d \<longleftrightarrow> ftl_ok (d_fb d) \<and> ftl_lock (d_fb d) = 1 \<and> wb_ready n (d_fb d) \<and> 4 \<le> n \<and>
     length (discards (d_fb d)) = 2048 \<and> nr_ppas (d_fb d) = 2048"

text \<open>The operations of a request: each a read that will count it down.\<close>

definition reads_of :: "bioptr \<Rightarrow> (u8 \<times> u32 \<times> fb_dev_op_t \<times> bioptr option) list \<Rightarrow> bool" where
  "reads_of p ops \<longleftrightarrow> (\<forall>q \<in> set ops. \<exists>bus chip. q = (bus, chip, OP_READ, Some p) \<and> op_for (Some p) q)"

lemma make_read_drv:
  assumes ok: "ftl_ok fb" "ftl_lock fb = 1"
  shows "\<exists>fb' ops. make_read_request_page_mapping fb lpa buf (Some p) =
      Some (if ftl_data fb lpa = None then -1 else 0, case ftl_data fb lpa of None \<Rightarrow> buf | Some x \<Rightarrow> x, fb') \<and>
    ftl_ok fb' \<and> rframe fb fb' \<and> ftl_data fb' = ftl_data fb \<and> fb_wbuf fb' = fb_wbuf fb \<and>
    issued (ptr_vdevice fb') = issued (ptr_vdevice fb) @ ops \<and> reads_of p ops \<and>
    length ops = (if ftl_data fb lpa = None then 0 else 1)"
proof (cases "ftl_data fb lpa")
  case None
  then show ?thesis using make_read_spec [OF ok, of lpa buf "Some p"] ok
    by (intro exI [of _ fb] exI [of _ "[]"]) (simp add: reads_of_def)
next
  case (Some x)
  obtain bus chip where o: "op_for (Some p) (bus, chip, OP_READ, Some p)"
    and r: "make_read_request_page_mapping fb lpa buf (Some p) = Some (0, x,
      fb\<lparr>fb_perf := perf_inc_nr_page_reads (fb_perf fb), ptr_vdevice := issue (ptr_vdevice fb) bus chip OP_READ (Some p)\<rparr>)"
    using make_read_spec [OF ok, of lpa buf "Some p"] Some by auto
  let ?fb = "fb\<lparr>fb_perf := perf_inc_nr_page_reads (fb_perf fb), ptr_vdevice := issue (ptr_vdevice fb) bus chip OP_READ (Some p)\<rparr>"
  have "ftl_ok ?fb"
    using ftl_invD(1) [OF ok(1)] by (intro ftl_inv_cong [OF ok(1)]) (simp_all add: sizes_ok_def issue_def)
  moreover have "ftl_data ?fb = ftl_data fb" by (auto simp: ftl_data_def issue_def)
  ultimately show ?thesis
    using r Some o by (intro exI [of _ ?fb] exI [of _ "[(bus, chip, OP_READ, Some p)]"])
      (simp add: reads_of_def rframe_def issue_def)
qed

text \<open>
  After \<open>j\<close> of the pages \<open>pages\<close> with addresses \<open>ls\<close> have been asked for, \<open>length ops\<close> of them were
  found: the request counts those and the ones still to ask for, and is gone when that is none.
\<close>

definition read_inv :: "bioptr \<Rightarrow> u32 list \<Rightarrow> nat list \<Rightarrow> fb_bio_t \<Rightarrow> drv \<Rightarrow> nat \<Rightarrow> drv \<Rightarrow> bool" where
  "read_inv p ls pages b d0 j d \<longleftrightarrow> ftl_ok (d_fb d) \<and> rframe (d_fb d0) (d_fb d) \<and>
     ftl_data (d_fb d) = ftl_data (d_fb d0) \<and> fb_wbuf (d_fb d) = fb_wbuf (d_fb d0) \<and> bi_error d = bi_error d0 \<and>
     got (ftl_data (d_fb d0)) ((!) ls) pages j (kmem d0) (kmem d) \<and>
     (\<exists>ops. issued (ptr_vdevice (d_fb d)) = issued (ptr_vdevice (d_fb d0)) @ ops \<and> reads_of p ops \<and>
        length ops = length (filter (\<lambda>i. ftl_data (d_fb d0) (ls ! i) \<noteq> None) [0..<j]) \<and>
        (let c = length ops + (length ls - j) in d_io d = (if c = 0
           then (d_io d0)\<lparr>fbios := (fbios (d_io d0))(p := None), endio := endio (d_io d0) @ [fbio_bio b]\<rparr>
           else (d_io d0)\<lparr>fbios := (fbios (d_io d0))(p := Some (b\<lparr>req_count := of_nat c\<rparr>))\<rparr>)))"

lemma read_inv_end:
  assumes "read_inv p ls pages b d0 (length ls) d"
  shows "\<exists>ops. issued (ptr_vdevice (d_fb d)) = issued (ptr_vdevice (d_fb d0)) @ ops \<and> reads_of p ops \<and>
    length ops = length (filter (\<lambda>i. ftl_data (d_fb d0) (ls ! i) \<noteq> None) [0..<length ls]) \<and>
    d_io d = (if length ops = 0
       then (d_io d0)\<lparr>fbios := (fbios (d_io d0))(p := None), endio := endio (d_io d0) @ [fbio_bio b]\<rparr>
       else (d_io d0)\<lparr>fbios := (fbios (d_io d0))(p := Some (b\<lparr>req_count := of_nat (length ops)\<rparr>))\<rparr>)"
  using assms unfolding read_inv_def Let_def by (simp only: diff_self_eq_0 add_0_right)

lemma read_one_spec:
  assumes I: "read_inv p ls pages b d0 j d" and lock: "ftl_lock (d_fb d0) = 1" "bio_lock b = 1"
    and j: "j < length ls" "length pages = length ls" "length ls \<le> NR_MAX_REQ_BIO" and dist: "distinct pages"
    and b: "take (length ls) (fbio_lpas b) = ls" "take (length ls) (fbio_kpages b) = pages"
  shows "\<exists>d'. read_one p (of_nat j) d = Some d' \<and> read_inv p ls pages b d0 (Suc j) d'"
proof -
  let ?V = "ftl_data (d_fb d0)"
  obtain ops where ops: "issued (ptr_vdevice (d_fb d)) = issued (ptr_vdevice (d_fb d0)) @ ops" "reads_of p ops"
    "length ops = length (filter (\<lambda>i. ?V (ls ! i) \<noteq> None) [0..<j])"
    "d_io d = (d_io d0)\<lparr>fbios := (fbios (d_io d0))(p := Some (b\<lparr>req_count := of_nat (length ops + (length ls - j))\<rparr>))\<rparr>"
    using I j(1) by (auto simp: read_inv_def Let_def)
  have R: "ftl_ok (d_fb d)" "rframe (d_fb d0) (d_fb d)" "ftl_data (d_fb d) = ?V" "fb_wbuf (d_fb d) = fb_wbuf (d_fb d0)"
    "bi_error d = bi_error d0" "got ?V ((!) ls) pages j (kmem d0) (kmem d)" using I by (simp_all add: read_inv_def)
  have l: "ftl_lock (d_fb d) = 1" using R(2) lock(1) by (simp add: rframe_def)
  have oj: "length ops \<le> j" unfolding ops(3) by (metis diff_zero length_filter_le length_upt)
  have u: "unat (of_nat j :: u32) = j" using j(1,3) by (simp add: unat_of_nat_u32 NR_MAX_REQ_BIO_def)
  have lens: "length ls \<le> length (fbio_lpas b)" "length ls \<le> length (fbio_kpages b)"
    using b j(2) by (metis length_take min.cobounded1 min.commute)+
  have ld: "ld_nth (fbio_lpas b) j = Some (ls ! j)" "ld_nth (fbio_kpages b) j = Some (pages ! j)"
    using lens j(1) b by (auto simp: ld_nth_def) (metis nth_take)+
  let ?y = "case ?V (ls ! j) of None \<Rightarrow> kmem d (pages ! j) | Some x \<Rightarrow> x"
  obtain fb' os where r: "make_read_request_page_mapping (d_fb d) (ls ! j) (kmem d (pages ! j)) (Some p) =
      Some (if ?V (ls ! j) = None then -1 else 0, ?y, fb')"
    "ftl_ok fb'" "rframe (d_fb d) fb'" "ftl_data fb' = ?V" "fb_wbuf fb' = fb_wbuf (d_fb d0)"
    "issued (ptr_vdevice fb') = issued (ptr_vdevice (d_fb d)) @ os" "reads_of p os"
    "length os = (if ?V (ls ! j) = None then 0 else 1)"
    using make_read_drv [OF R(1) l, of "ls ! j" "kmem d (pages ! j)" p] R(3,4) by auto
  have g: "got ?V ((!) ls) pages (Suc j) (kmem d0) ((kmem d)(pages ! j := ?y))"
    using got_step [OF R(6) _ dist] j(1,2) by simp
  have ops': "reads_of p (ops @ os)" using ops(2) r(7) by (auto simp: reads_of_def)
  have cnt: "length (ops @ os) = length (filter (\<lambda>i. ?V (ls ! i) \<noteq> None) [0..<Suc j])"
    using ops(3) r(8) by simp
  let ?d = "d\<lparr>d_fb := fb', kmem := (kmem d)(pages ! j := ?y)\<rparr>"
  show ?thesis
  proof (cases "?V (ls ! j)")
    case None
    then have os: "os = []" using r(8) by simp
    let ?c = "length ops + (length ls - j)"
    have c1: "of_nat ?c - 1 = (of_nat (length ops + (length ls - Suc j)) :: u32)" using j(1) by (simp add: Suc_diff_Suc [symmetric])
    have c0: "(of_nat (length ops + (length ls - Suc j)) :: u32) = 0 \<longleftrightarrow> length ops + (length ls - Suc j) = 0"
      using of_nat_u32_eq_iff [of "length ops + (length ls - Suc j)" 0] oj j(1,3) by (simp add: NR_MAX_REQ_BIO_def)
    let ?io = "if length ops + (length ls - Suc j) = 0
           then (d_io d0)\<lparr>fbios := (fbios (d_io d0))(p := None), endio := endio (d_io d0) @ [fbio_bio b]\<rparr>
           else (d_io d0)\<lparr>fbios := (fbios (d_io d0))(p := Some (b\<lparr>req_count := of_nat (length ops + (length ls - Suc j))\<rparr>))\<rparr>"
    have fin: "finish_one p (d_io d) = Some ?io"
      using finish_one_eq [of "d_io d" p "b\<lparr>req_count := of_nat ?c\<rparr>"] ops(4) lock(2) c0 by (simp add: c1 del: of_nat_add)
    have "read_one p (of_nat j) d = Some (?d\<lparr>d_io := ?io\<rparr>)"
      using r(1) None ld u ops(4) fin by (simp add: read_one_def Let_def)
    moreover have "read_inv p ls pages b d0 (Suc j) (?d\<lparr>d_io := ?io\<rparr>)"
      using r(2-6) R(5) g ops' cnt ops(1) rframe_trans [OF R(2) r(3)] os None
      by (auto simp: read_inv_def Let_def intro!: exI [of _ ops])
    ultimately show ?thesis by blast
  next
    case (Some x)
    then have os: "length os = 1" using r(8) by simp
    have "read_one p (of_nat j) d = Some ?d"
      using r(1) Some ld u ops(4) by (simp add: read_one_def Let_def)
    moreover have c: "length (ops @ os) + (length ls - Suc j) = length ops + (length ls - j)" using os j(1) by simp
    have "read_inv p ls pages b d0 (Suc j) ?d"
      unfolding read_inv_def Let_def
      using r(2-6) R(5) g ops' cnt ops(1,4) rframe_trans [OF R(2) r(3)] c j(1)
      by (intro conjI exI [of _ "ops @ os"]) (simp_all del: of_nat_add length_append)
    ultimately show ?thesis by blast
  qed
qed

text \<open>Pages found in the write buffer first, the others on the flash: together, what the device holds.\<close>

lemma got_compose:
  assumes W: "got W (lpa_at s) segs (length segs) k0 k1" and dist: "distinct segs"
    and F: "got F ((!) (map (lpa_at s) (misses W s (length segs)))) (map ((!) segs) (misses W s (length segs)))
      (length (misses W s (length segs))) k1 k2"
  shows "got (F ++ W) (lpa_at s) segs (length segs) k0 k2"
proof -
  let ?ms = "misses W s (length segs)"
  have ms: "set ?ms = {i. i < length segs \<and> W (lpa_at s i) = None}" by (auto simp: misses_def)
  have out: "k2 x = k1 x" if "x \<notin> (!) segs ` set ?ms" for x
    using F that by (auto simp: got_def)
  have hit: "k2 (segs ! i) = k1 (segs ! i)" if "i < length segs" "W (lpa_at s i) \<noteq> None" for i
    using that dist by (intro out) (auto simp: ms nth_eq_iff_index_eq)
  have miss: "k2 (segs ! i) = (case F (lpa_at s i) of Some x \<Rightarrow> x | None \<Rightarrow> k1 (segs ! i))"
    if "i < length segs" "W (lpa_at s i) = None" for i
  proof -
    have "i \<in> set ?ms" using that by (simp add: ms)
    then obtain j where "j < length ?ms" "?ms ! j = i" by (auto simp: in_set_conv_nth)
    then show ?thesis using F by (cases "F (lpa_at s i)") (auto simp: got_def)
  qed
  have "k2 (segs ! i) = (case (F ++ W) (lpa_at s i) of Some x \<Rightarrow> x | None \<Rightarrow> k0 (segs ! i))" if "i < length segs" for i
    using W hit [OF that] miss [OF that] that
    by (cases "W (lpa_at s i)"; cases "F (lpa_at s i)") (auto simp: got_def map_add_def)
  moreover have "k2 x = k0 x" if "x \<notin> set segs" for x
  proof -
    have "x \<notin> (!) segs ` set ?ms" using that by (auto simp: ms)
    then show ?thesis using W out that by (simp add: got_def)
  qed
  ultimately show ?thesis by (simp add: got_def)
qed

text \<open>How a read leaves the request: completed when no operation was issued for it, otherwise counting them.\<close>

definition read_outcome :: "bioptr \<Rightarrow> nat \<Rightarrow> (u8 \<times> u32 \<times> fb_dev_op_t \<times> bioptr option) list \<Rightarrow> io_state \<Rightarrow> io_state \<Rightarrow> bool" where
  "read_outcome p bio ops io io' \<longleftrightarrow> reads_of p ops \<and> (if ops = [] then io' = io\<lparr>endio := endio io @ [bio]\<rparr>
     else \<exists>b. io' = io\<lparr>fbios := (fbios io)(p := Some b)\<rparr> \<and> unat (req_count b) = length ops \<and> fbio_bio b = bio \<and> bio_lock b = 1)"

lemma io_fields: "fbios io p = None \<Longrightarrow> io\<lparr>fbios := (fbios io)(p := None), endio := e\<rparr> = io\<lparr>endio := e\<rparr>"
  by (cases io) (auto simp: fun_eq_iff)

lemma read_loop_spec:
  assumes ok: "ftl_ok (d_fb d0)" "ftl_lock (d_fb d0) = 1" and b: "bio_lock b = 1"
    and len: "length pages = length ls" "length ls \<le> NR_MAX_REQ_BIO" "ls \<noteq> []" and dist: "distinct pages"
    and tk: "take (length ls) (fbio_lpas b) = ls" "take (length ls) (fbio_kpages b) = pages"
    and cnt: "req_count b = of_nat (length ls)" and live: "fbios (d_io d0) p = Some b"
  shows "\<exists>d. foldM (read_one p) (words_below (req_count b)) d0 = Some d \<and> read_inv p ls pages b d0 (length ls) d"
proof -
  have u: "unat (req_count b) = length ls" using cnt len(2) by (simp add: unat_of_nat_u32 NR_MAX_REQ_BIO_def)
  have io: "d_io d0 = (d_io d0)\<lparr>fbios := (fbios (d_io d0))(p := Some (b\<lparr>req_count := of_nat (length ls)\<rparr>))\<rparr>"
  proof -
    have "b\<lparr>req_count := of_nat (length ls)\<rparr> = b" using cnt by (cases b) simp
    then show ?thesis using live by (cases "d_io d0") (auto simp: fun_eq_iff)
  qed
  have "\<exists>d. foldM (read_one p) (words_below (req_count b)) d0 = Some d \<and>
      (\<lambda>done. read_inv p ls pages b d0 (length done)) (words_below (req_count b)) d"
  proof (rule foldM_rule [where I = "\<lambda>done. read_inv p ls pages b d0 (length done)"])
    show "read_inv p ls pages b d0 (length []) d0"
      using ok len(3) io by (simp add: read_inv_def reads_of_def)
    fix "done" x rest d
    assume w: "words_below (req_count b) = done @ x # rest" and I: "read_inv p ls pages b d0 (length done) d"
    have l: "length done < length ls" using arg_cong [OF w, of length] u by simp
    have "x = words_below (req_count b) ! length done" using w by simp
    then have x: "x = of_nat (length done)" using nth_words_below [of "length done" "req_count b"] l u by simp
    show "\<exists>d'. read_one p x d = Some d' \<and> read_inv p ls pages b d0 (length (done @ [x])) d'"
      unfolding x using read_one_spec [OF I ok(2) b l len(1,2) dist tk] by simp
  qed
  then show ?thesis using u by simp
qed

lemma serve_read_spec:
  assumes ok: "drv_ok n d" and rd: "bi_dir bio = READ_DIR" and fresh: "fbios io p = None"
    and io: "d_io d = io\<lparr>fbios := (fbios io)(p := Some b)\<rparr>"
    and W: "got (wb_view (fb_wbuf (d_fb d))) (lpa_at s) segs (length segs) k0 (kmem d)" and dist: "distinct segs"
    and nt: "noted (wb_view (fb_wbuf (d_fb d))) s segs (length segs) b" and len: "length segs \<le> NR_MAX_REQ_BIO"
    and b: "bio_lock b = 1" "fbio_bio b = bi_id bio"
  shows "\<exists>d' ops. serve_read now bio p d = Some d' \<and> drv_ok n d' \<and> device_view (d_fb d') = device_view (d_fb d) \<and>
    fb_err (d_fb d') = fb_err (d_fb d) \<and> dev_lock (d_fb d') = complete (dev_lock (d_fb d)) \<and> bi_error d' = bi_error d \<and>
    got (device_view (d_fb d)) (lpa_at s) segs (length segs) k0 (kmem d') \<and>
    issued (ptr_vdevice (d_fb d')) = issued (ptr_vdevice (d_fb d)) @ ops \<and> read_outcome p (bi_id bio) ops io (d_io d')"
proof -
  let ?W = "wb_view (fb_wbuf (d_fb d))"
  let ?ms = "misses ?W s (length segs)"
  let ?ls = "map (lpa_at s) ?ms" and ?pages = "map ((!) segs) ?ms"
  have O: "ftl_ok (d_fb d)" "ftl_lock (d_fb d) = 1" using ok by (simp_all add: drv_ok_def)
  have live: "fbios (d_io d) p = Some b" using io by simp
  have m: "length ?ls \<le> NR_MAX_REQ_BIO" using length_misses [of ?W s "length segs"] len by simp
  have N: "req_count b = of_nat (length ?ls)" "take (length ?ls) (fbio_lpas b) = ?ls" "take (length ?ls) (fbio_kpages b) = ?pages"
    using nt by (simp_all add: noted_def)
  show ?thesis
  proof (cases "?ms = []")
    case True
    then have r0: "req_count b = 0" using N(1) by simp
    let ?d = "req_finish now bio (Some p) (fb_destroy_bio (Some p) (bio_endio (fbio_bio b) d))"
    have dv: "d_fb ?d = (fb_update_bgc_ts now (d_fb d))\<lparr>dev_lock := complete (dev_lock (d_fb d))\<rparr>"
      and di: "d_io ?d = io\<lparr>endio := endio io @ [bi_id bio]\<rparr>" and km: "kmem ?d = kmem d" "bi_error ?d = bi_error d"
      using rd b(2) fresh io
      by (simp_all add: req_finish_def fb_destroy_bio_def bio_endio_def fb_update_bgc_ts_def Let_def)
        (cases io, auto simp: fun_eq_iff)
    have "got (device_view (d_fb d)) (lpa_at s) segs (length segs) k0 (kmem d)"
      unfolding device_view_def using W dist by (rule got_compose) (simp add: True)
    moreover have "serve_read now bio p d = Some ?d" using live r0 by (simp add: serve_read_def)
    ultimately show ?thesis
      using ok dv di km by (intro exI [of _ ?d] exI [of _ "[]"])
        (simp add: read_outcome_def reads_of_def drv_ok_def wb_ready_def device_view_def, simp add: fb_update_bgc_ts_def)
  next
    case False
    have d: "distinct ?pages" using dist by (auto simp: distinct_map misses_def inj_on_def nth_eq_iff_index_eq)
    obtain d1 where l: "foldM (read_one p) (words_below (req_count b)) d = Some d1" "read_inv p ?ls ?pages b d (length ?ls) d1"
      using read_loop_spec [OF O b(1) _ m _ d N(2,3,1) live] False by auto
    let ?d = "req_finish now bio (Some p) d1"
    obtain ops where ops: "issued (ptr_vdevice (d_fb d1)) = issued (ptr_vdevice (d_fb d)) @ ops" "reads_of p ops"
      "length ops = length (filter (\<lambda>i. ftl_data (d_fb d) (?ls ! i) \<noteq> None) [0..<length ?ls])"
      "d_io d1 = (if length ops = 0 then (d_io d)\<lparr>fbios := (fbios (d_io d))(p := None), endio := endio (d_io d) @ [fbio_bio b]\<rparr>
         else (d_io d)\<lparr>fbios := (fbios (d_io d))(p := Some (b\<lparr>req_count := of_nat (length ops)\<rparr>))\<rparr>)"
      using read_inv_end [OF l(2)] by blast
    have "length ops \<le> length ?ls" unfolding ops(3) by (metis diff_zero length_filter_le length_upt)
    then have u: "unat (of_nat (length ops) :: u32) = length ops" using m by (simp add: unat_of_nat_u32 NR_MAX_REQ_BIO_def)
    have out: "read_outcome p (bi_id bio) ops io (d_io d1)"
      using ops(2,4) io b u io_fields [OF fresh]
      by (cases "ops = []") (simp_all add: read_outcome_def, intro exI [of _ "b\<lparr>req_count := of_nat (length ops)\<rparr>"], simp)
    have R: "ftl_ok (d_fb d1)" "rframe (d_fb d) (d_fb d1)" "ftl_data (d_fb d1) = ftl_data (d_fb d)"
      "fb_wbuf (d_fb d1) = fb_wbuf (d_fb d)" "bi_error d1 = bi_error d"
      "got (ftl_data (d_fb d)) ((!) ?ls) ?pages (length ?ls) (kmem d) (kmem d1)" using l(2) by (simp_all add: read_inv_def)
    have g: "got (device_view (d_fb d)) (lpa_at s) segs (length segs) k0 (kmem d1)"
      unfolding device_view_def using W dist by (rule got_compose) (use R(6) in simp)
    have dv: "d_fb ?d = (fb_update_bgc_ts now (d_fb d1))\<lparr>dev_lock := complete (dev_lock (d_fb d1))\<rparr>"
      "d_io ?d = d_io d1" "kmem ?d = kmem d1" "bi_error ?d = bi_error d1"
      using rd by (simp_all add: req_finish_def fb_update_bgc_ts_def Let_def)
    have ok': "drv_ok n ?d"
      using ok R dv(1) by (simp add: drv_ok_def wb_ready_def rframe_def) (simp add: fb_update_bgc_ts_def)
    have "req_count b \<noteq> 0" using N(1) False m of_nat_u32_eq_iff [of "length ?ls" 0] by (simp add: NR_MAX_REQ_BIO_def)
    then have "serve_read now bio p d = Some ?d" using live l(1) by (simp add: serve_read_def)
    then show ?thesis
      using ok' R dv g out ops(1)
      by (intro exI [of _ ?d] exI [of _ ops]) (simp add: device_view_def rframe_def, simp add: fb_update_bgc_ts_def)
  qed
qed

section \<open>Writing\<close>

text \<open>A map after the first \<open>k\<close> pages of a write have been stored in it.\<close>

definition put_pages :: "u64 \<Rightarrow> (nat \<Rightarrow> lpdata) \<Rightarrow> nat \<Rightarrow> (u32 \<rightharpoonup> lpdata) \<Rightarrow> u32 \<rightharpoonup> lpdata" where
  "put_pages s src k m = fold (\<lambda>i m. m(lpa_at s i \<mapsto> src i)) [0..<k] m"

lemma put_pages_Suc: "put_pages s src (Suc k) m = (put_pages s src k m)(lpa_at s k \<mapsto> src k)"
  by (simp add: put_pages_def)

lemma put_pages_0 [simp]: "put_pages s src 0 m = m"
  by (simp add: put_pages_def)

lemma put_pages_add: "put_pages s src k m = m ++ put_pages s src k Map.empty"
proof (induction k)
  case (Suc k)
  show ?case unfolding put_pages_Suc map_add_upd Suc [symmetric] ..
qed simp

lemma dom_put_pages: "dom (put_pages s src k Map.empty) = lpa_at s ` {..<k}"
proof (induction k)
  case (Suc k)
  show ?case unfolding put_pages_Suc dom_fun_upd Suc by (simp add: lessThan_Suc)
qed simp

text \<open>What was invalidated before is stored again: the loop over all pages makes up for it.\<close>

lemma put_pages_restrict:
  assumes "S \<subseteq> lpa_at s ` {..<k}"
  shows "put_pages s src k (m |` (- S) ++ w) = put_pages s src k (m ++ w)"
proof -
  have "((m |` (- S) ++ w) ++ put_pages s src k Map.empty) x = ((m ++ w) ++ put_pages s src k Map.empty) x" for x
  proof (cases "x \<in> S")
    case True
    then have "x \<in> dom (put_pages s src k Map.empty)" using assms by (auto simp: dom_put_pages)
    then show ?thesis by auto
  next
    case False
    then have "(m |` (- S)) x = m x" by simp
    then show ?thesis unfolding map_add_def by (simp split: option.split)
  qed
  then show ?thesis unfolding put_pages_add [of s src k "m |` (- S) ++ w"] put_pages_add [of s src k "m ++ w"] by blast
qed

lemma fb_put_pg_ready:
  assumes ready: "wb_ready n fb" and valid: "is_valid_address_range lpa"
  shows "fb_put_pg (fb_wbuf fb) lpa src = Some (-1, fb_wbuf fb) \<and> free_pgs (fb_wbuf fb) = [] \<or>
    (\<exists>wb. fb_put_pg (fb_wbuf fb) lpa src = Some (0, wb) \<and> wb_ready n (fb\<lparr>fb_wbuf := wb\<rparr>) \<and>
      wb_view wb = (wb_view (fb_wbuf fb))(lpa \<mapsto> src))"
proof -
  let ?wb = "fb_wbuf fb"
  have wf: "wb_wf n ?wb" and w0: "writing_pgs ?wb = []" and val: "\<forall>l \<in> set (buf_lpas ?wb). is_valid_address_range l"
    using ready by (simp_all add: wb_ready_def)
  show ?thesis
  proof (cases "wb_view ?wb lpa")
    case (Some d)
    obtain wb where "fb_put_pg ?wb lpa src = Some (0, wb)" "wb_wf n wb" "wb_view wb = (wb_view ?wb)(lpa \<mapsto> src)"
      "buf_lpas wb = remove1 lpa (buf_lpas ?wb) @ [lpa]" "set (writing_pgs wb) \<subseteq> set (writing_pgs ?wb)"
      using put_again [OF wf Some, of src] by blast
    then show ?thesis using w0 val valid by (auto simp: wb_ready_def dest: notin_set_remove1)
  next
    case None
    show ?thesis
    proof (cases "free_pgs ?wb")
      case Nil
      then show ?thesis using put_full [OF None] by simp
    next
      case (Cons q rest)
      then show ?thesis using put_new [OF wf None Cons, of src] w0 val valid by (auto simp: wb_ready_def)
    qed
  qed
qed

text \<open>After a flush there is room.\<close>

lemma wb_room:
  assumes "wb_ready n fb" "length (buf_lpas (fb_wbuf fb)) < 4" "4 \<le> n"
  shows "free_pgs (fb_wbuf fb) \<noteq> []"
proof
  assume "free_pgs (fb_wbuf fb) = []"
  then have "set (buf_pgs (fb_wbuf fb)) = {..<n}"
    using assms(1) wb_wfD(8) [of n "fb_wbuf fb"] by (simp add: wb_ready_def)
  then have "card (set (buf_pgs (fb_wbuf fb))) = n" by simp
  then show False using assms card_length [of "buf_pgs (fb_wbuf fb)"] by (simp add: buf_lpas_def)
qed

text \<open>What the write loop leaves alone.\<close>

definition wkeep :: "drv \<Rightarrow> drv \<Rightarrow> bool" where
  "wkeep d d' \<longleftrightarrow> kmem d' = kmem d \<and> d_io d' = d_io d \<and> bi_error d' = bi_error d \<and> hframe (d_fb d) (d_fb d')"

lemma wkeep_trans: "wkeep d d1 \<Longrightarrow> wkeep d1 d2 \<Longrightarrow> wkeep d d2"
  by (auto simp: wkeep_def intro: hframe_trans)

lemma drv_ok_keep:
  assumes "drv_ok n d" "wkeep d d'" "ftl_ok (d_fb d')" "wb_ready n (d_fb d')"
  shows "drv_ok n d'"
  using assms by (simp add: drv_ok_def wkeep_def hframe_def)

text \<open>The state a failed flush leaves.\<close>

definition flush_failed :: "nat \<Rightarrow> drv \<Rightarrow> bool" where
  "flush_failed n d \<longleftrightarrow> ftl_ok (d_fb d) \<and> ftl_lock (d_fb d) = 1 \<and> wb_wf n (fb_wbuf (d_fb d))"

text \<open>One page: it ends in the buffer, after a flush if need be, or the flush fails.\<close>

lemma write_put:
  assumes ok: "drv_ok n d" and live: "fbios (d_io d) p = Some b" and j: "unat j < unat cnt"
    and lpa: "ld_nth (fbio_lpas b) (unat j) = Some lpa" and pg: "ld_nth (fbio_kpages b) (unat j) = Some page"
    and valid: "is_valid_address_range lpa" and put: "fb_put_pg (fb_wbuf (d_fb d)) lpa (kmem d page) = Some (0, wb)"
    and wb: "wb_ready n ((d_fb d)\<lparr>fb_wbuf := wb\<rparr>)" "wb_view wb = (wb_view (fb_wbuf (d_fb d)))(lpa \<mapsto> kmem d page)"
  shows "\<exists>d'. write_loop lpas p cnt j d = write_loop lpas p cnt (j + 1) d' \<and> drv_ok n d' \<and> wkeep d d' \<and>
    device_view (d_fb d') = (device_view (d_fb d))(lpa \<mapsto> kmem d page)"
proof -
  let ?d = "upd_fb d (upd_perf ((d_fb d)\<lparr>fb_wbuf := wb\<rparr>) perf_inc_nr_incomming_write)"
  have k: "wkeep d ?d" by (simp add: wkeep_def upd_perf_def hframe_def)
  have "ftl_ok (d_fb ?d)" using ok by (simp add: drv_ok_def)
  moreover have "wb_ready n (d_fb ?d)" using wb(1) by (simp add: wb_ready_def upd_perf_def)
  ultimately have "drv_ok n ?d" by (rule drv_ok_keep [OF ok k])
  moreover have "device_view (d_fb ?d) = (device_view (d_fb d))(lpa \<mapsto> kmem d page)"
    using wb(2) by (simp add: device_view_def) (simp add: upd_perf_def)
  moreover have "write_loop lpas p cnt j d = write_loop lpas p cnt (j + 1) ?d"
    by (subst write_loop.simps) (use live j lpa pg put in \<open>simp add: word_less_nat_alt Let_def\<close>)
  ultimately show ?thesis using k by blast
qed

lemma write_step:
  assumes ok: "drv_ok n d" and live: "fbios (d_io d) p = Some b" and j: "unat j < unat cnt" and l4: "length lpas = 4"
    and lpa: "ld_nth (fbio_lpas b) (unat j) = Some lpa" and pg: "ld_nth (fbio_kpages b) (unat j) = Some page"
    and valid: "is_valid_address_range lpa"
  shows "(\<exists>d'. write_loop lpas p cnt j d = write_loop lpas p cnt (j + 1) d' \<and> drv_ok n d' \<and> wkeep d d' \<and>
      device_view (d_fb d') = (device_view (d_fb d))(lpa \<mapsto> kmem d page)) \<or>
    (\<exists>d'. write_loop lpas p cnt j d = Some (-1, d') \<and> flush_failed n d' \<and> wkeep d d' \<and>
      device_view (d_fb d') = device_view (d_fb d))"
proof -
  have R: "ftl_ok (d_fb d)" "ftl_lock (d_fb d) = 1" "wb_ready n (d_fb d)" "4 \<le> n" using ok by (simp_all add: drv_ok_def)
  consider (full) "fb_put_pg (fb_wbuf (d_fb d)) lpa (kmem d page) = Some (-1, fb_wbuf (d_fb d))" "free_pgs (fb_wbuf (d_fb d)) = []"
    | (room) wb where "fb_put_pg (fb_wbuf (d_fb d)) lpa (kmem d page) = Some (0, wb)" "wb_ready n ((d_fb d)\<lparr>fb_wbuf := wb\<rparr>)"
      "wb_view wb = (wb_view (fb_wbuf (d_fb d)))(lpa \<mapsto> kmem d page)"
    using fb_put_pg_ready [OF R(3) valid, of "kmem d page"] by blast
  then show ?thesis
  proof cases
    case (room wb)
    then show ?thesis using write_put [OF ok live j lpa pg valid] by blast
  next
    case full
    obtain r fb' where f: "wb_flush_loop lpas (d_fb d) = Some (r, fb')" "ftl_ok fb'" "hframe (d_fb d) fb'" "wb_wf n (fb_wbuf fb')"
      "device_view fb' = device_view (d_fb d)" "r = 0 \<and> wb_ready n fb' \<and> length (buf_lpas (fb_wbuf fb')) < 4 \<or> r = -1"
      using wb_flush_loop_spec [OF R(1-3) l4] by blast
    let ?d = "upd_fb d fb'"
    have k: "wkeep d ?d" using f(3) by (simp add: wkeep_def)
    have eq: "write_loop lpas p cnt j d = (if r = -1 then Some (-1, ?d) else write_loop lpas p cnt j ?d)"
      by (subst write_loop.simps) (use live j lpa pg full f(1) in \<open>simp add: word_less_nat_alt fb_wb_flush_def Let_def\<close>)
    show ?thesis
    proof (cases "r = -1")
      case True
      have "flush_failed n ?d" using f(2-4) R(2) by (simp add: flush_failed_def hframe_def)
      then show ?thesis using eq True k f(5) by auto
    next
      case False
      then have rd: "wb_ready n fb'" "length (buf_lpas (fb_wbuf fb')) < 4" using f(6) by auto
      have ok': "drv_ok n ?d" by (rule drv_ok_keep [OF ok k]) (simp_all add: f(2) rd(1))
      obtain wb where wb: "fb_put_pg (fb_wbuf (d_fb ?d)) lpa (kmem ?d page) = Some (0, wb)" "wb_ready n ((d_fb ?d)\<lparr>fb_wbuf := wb\<rparr>)"
        "wb_view wb = (wb_view (fb_wbuf (d_fb ?d)))(lpa \<mapsto> kmem ?d page)"
        using fb_put_pg_ready [OF rd(1) valid, of "kmem d page"] wb_room [OF rd R(4)] by auto
      have live': "fbios (d_io ?d) p = Some b" using live by simp
      obtain d' where "write_loop lpas p cnt j ?d = write_loop lpas p cnt (j + 1) d'" "drv_ok n d'" "wkeep ?d d'"
        "device_view (d_fb d') = (device_view (d_fb ?d))(lpa \<mapsto> kmem ?d page)"
        using write_put [OF ok' live' j lpa pg valid wb] by blast
      then show ?thesis using eq False wkeep_trans [OF k] f(5) by auto
    qed
  qed
qed

lemma write_loop_spec:
  assumes "drv_ok n d" "fbios (d_io d) p = Some b" "length lpas = 4" "m \<le> NR_MAX_REQ_BIO" "j \<le> m"
    and "\<And>i. i < m \<Longrightarrow> ld_nth (fbio_lpas b) i = Some (lpa_at s i)" "\<And>i. i < m \<Longrightarrow> ld_nth (fbio_kpages b) i = Some (segs ! i)"
    and "\<And>i. i < m \<Longrightarrow> is_valid_address_range (lpa_at s i)"
    and "device_view (d_fb d) = put_pages s (\<lambda>i. kmem d (segs ! i)) j M"
  shows "(\<exists>d'. write_loop lpas p (of_nat m) (of_nat j) d = Some (0, d') \<and> drv_ok n d' \<and> wkeep d d' \<and>
      device_view (d_fb d') = put_pages s (\<lambda>i. kmem d (segs ! i)) m M) \<or>
    (\<exists>d' k. k < m \<and> write_loop lpas p (of_nat m) (of_nat j) d = Some (-1, d') \<and> flush_failed n d' \<and> wkeep d d' \<and>
      device_view (d_fb d') = put_pages s (\<lambda>i. kmem d (segs ! i)) k M)"
  using assms
proof (induction "m - j" arbitrary: d j)
  case 0
  then have "j = m" by simp
  then show ?case using "0.prems" by (auto simp: write_loop.simps wkeep_def)
next
  case (Suc x)
  have j: "j < m" using Suc.hyps(2) by simp
  have u: "unat (of_nat j :: u32) = j" "unat (of_nat m :: u32) = m"
    using j Suc.prems(4) by (simp_all add: unat_of_nat_u32 NR_MAX_REQ_BIO_def)
  have uj: "unat (of_nat j :: u32) < unat (of_nat m :: u32)" using u j by simp
  have st: "(of_nat j :: u32) + 1 = of_nat (Suc j)" by simp
  have l: "ld_nth (fbio_lpas b) (unat (of_nat j :: u32)) = Some (lpa_at s j)"
    "ld_nth (fbio_kpages b) (unat (of_nat j :: u32)) = Some (segs ! j)" using Suc.prems(6,7) [OF j] u by simp_all
  consider (step) d1 where "write_loop lpas p (of_nat m) (of_nat j) d = write_loop lpas p (of_nat m) (of_nat (Suc j)) d1"
      "drv_ok n d1" "wkeep d d1" "device_view (d_fb d1) = (device_view (d_fb d))(lpa_at s j \<mapsto> kmem d (segs ! j))"
    | (fail) d1 where "write_loop lpas p (of_nat m) (of_nat j) d = Some (-1, d1)" "flush_failed n d1" "wkeep d d1"
      "device_view (d_fb d1) = device_view (d_fb d)"
    using write_step [OF Suc.prems(1,2) uj Suc.prems(3) l Suc.prems(8) [OF j], unfolded st] by blast
  then show ?case
  proof cases
    case (fail d1)
    then show ?thesis using j Suc.prems(9) by auto
  next
    case (step d1)
    have km: "kmem d1 = kmem d" "d_io d1 = d_io d" using step(3) by (simp_all add: wkeep_def)
    have "(\<exists>d'. write_loop lpas p (of_nat m) (of_nat (Suc j)) d1 = Some (0, d') \<and> drv_ok n d' \<and> wkeep d1 d' \<and>
        device_view (d_fb d') = put_pages s (\<lambda>i. kmem d1 (segs ! i)) m M) \<or>
      (\<exists>d' k. k < m \<and> write_loop lpas p (of_nat m) (of_nat (Suc j)) d1 = Some (-1, d') \<and> flush_failed n d' \<and> wkeep d1 d' \<and>
        device_view (d_fb d') = put_pages s (\<lambda>i. kmem d1 (segs ! i)) k M)"
    proof (rule Suc.hyps(1))
      show "x = m - Suc j" "Suc j \<le> m" using Suc.hyps(2) j by simp_all
      show "drv_ok n d1" "fbios (d_io d1) p = Some b" using step(2) km Suc.prems(2) by simp_all
      show "device_view (d_fb d1) = put_pages s (\<lambda>i. kmem d1 (segs ! i)) (Suc j) M"
        using step(4) Suc.prems(9) km by (simp add: put_pages_Suc)
    qed (use Suc.prems in auto)
    then show ?thesis unfolding step(1) km(1) using wkeep_trans [OF step(3)] by blast
  qed
qed

lemma noted_write:
  assumes nt: "noted Map.empty s segs m b" and m: "m \<le> NR_MAX_REQ_BIO"
  shows "req_count b = of_nat m" "length (fbio_lpas b) = NR_MAX_REQ_BIO" "take m (fbio_lpas b) = map (lpa_at s) [0..<m]"
    "i < m \<Longrightarrow> ld_nth (fbio_lpas b) i = Some (lpa_at s i)" "i < m \<Longrightarrow> ld_nth (fbio_kpages b) i = Some (segs ! i)"
proof -
  have ms: "misses Map.empty s m = [0..<m]" by (simp add: misses_def)
  have N: "req_count b = of_nat m" "length (fbio_lpas b) = NR_MAX_REQ_BIO" "length (fbio_kpages b) = NR_MAX_REQ_BIO"
    "take m (fbio_lpas b) = map (lpa_at s) [0..<m]" "take m (fbio_kpages b) = map ((!) segs) [0..<m]"
    using nt by (simp_all add: noted_def ms)
  then show "req_count b = of_nat m" "length (fbio_lpas b) = NR_MAX_REQ_BIO" "take m (fbio_lpas b) = map (lpa_at s) [0..<m]"
    by simp_all
  show "ld_nth (fbio_lpas b) i = Some (lpa_at s i)" if "i < m"
    using that N(2) m arg_cong [OF N(4), of "\<lambda>xs. xs ! i"] by (simp add: ld_nth_def)
  show "ld_nth (fbio_kpages b) i = Some (segs ! i)" if "i < m"
    using that N(3) m arg_cong [OF N(5), of "\<lambda>xs. xs ! i"] by (simp add: ld_nth_def)
qed

definition valid_pages :: "u64 \<Rightarrow> nat \<Rightarrow> bool" where
  "valid_pages s m \<longleftrightarrow> start_page s + m \<le> NUM_LOG_PAGES"

lemma valid_pagesD:
  assumes "valid_pages s m"
  shows "i < m \<Longrightarrow> is_valid_address_range (lpa_at s i)" "start_page s + m \<le> 2 ^ 32"
proof -
  show "start_page s + m \<le> 2 ^ 32" using assms by (simp add: valid_pages_def NUM_LOG_PAGES_value)
  show "is_valid_address_range (lpa_at s i)" if "i < m"
  proof (rule lpa_range_valid [of "start_page s" m])
    show "start_page s + m \<le> NUM_LOG_PAGES" using assms by (simp add: valid_pages_def)
    have "unat (lpa_at s i) = start_page s + i"
      unfolding lpa_at_def using assms that by (intro unat_of_nat_u32) (simp add: valid_pages_def NUM_LOG_PAGES_value)
    then show "lpa_at s i \<in> lpa_range (start_page s) m" using that by (simp add: lpa_range_def)
  qed
qed

text \<open>The request after its completion: gone, the lock given back, the time stamped.\<close>

definition finished :: "bio_t \<Rightarrow> io_state \<Rightarrow> drv \<Rightarrow> drv \<Rightarrow> bool" where
  "finished bio io d d' \<longleftrightarrow> dev_lock (d_fb d') = complete (dev_lock (d_fb d)) \<and>
     d_io d' = io\<lparr>endio := endio io @ [bi_id bio]\<rparr> \<and> kmem d' = kmem d \<and>
     silent (ptr_vdevice (d_fb d)) (ptr_vdevice (d_fb d'))"

lemma req_finish_write:
  assumes "bi_dir bio \<noteq> READ_DIR" "fbios io p = None" "d_io d = io\<lparr>fbios := (fbios io)(p := Some b)\<rparr>"
  shows "finished bio io d (req_finish now bio (Some p) d)" "bi_error (req_finish now bio (Some p) d) = bi_error d"
    "fb_err (d_fb (req_finish now bio (Some p) d)) = fb_err (d_fb d)"
    "device_view (d_fb (req_finish now bio (Some p) d)) = device_view (d_fb d)"
    "drv_ok n (req_finish now bio (Some p) d) = drv_ok n d"
proof -
  have e: "d_fb (req_finish now bio (Some p) d) = (fb_update_bgc_ts now (d_fb d))\<lparr>dev_lock := complete (dev_lock (d_fb d))\<rparr>"
    by (simp add: req_finish_def fb_destroy_bio_def bio_endio_def fb_update_bgc_ts_def Let_def)
  show "device_view (d_fb (req_finish now bio (Some p) d)) = device_view (d_fb d)"
    unfolding e device_view_def by simp (simp add: fb_update_bgc_ts_def)
  show "drv_ok n (req_finish now bio (Some p) d) = drv_ok n d"
    unfolding drv_ok_def e wb_ready_def by simp (simp add: fb_update_bgc_ts_def)
  show "finished bio io d (req_finish now bio (Some p) d)"
    using assms by (simp add: finished_def req_finish_def fb_destroy_bio_def bio_endio_def fb_update_bgc_ts_def Let_def)
      (cases io, auto simp: fun_eq_iff)
qed (use assms in \<open>simp_all add: req_finish_def fb_destroy_bio_def bio_endio_def fb_update_bgc_ts_def Let_def\<close>)

lemma req_fail_some:
  assumes "fbios io p = None" "d_io d = io\<lparr>fbios := (fbios io)(p := Some b)\<rparr>"
  shows "finished bio io d (req_fail r bio (Some p) d)" "bi_error (req_fail r bio (Some p) d) = (bi_error d)(bi_id bio := sint r)"
    "fb_err (d_fb (req_fail r bio (Some p) d)) = 1"
    "device_view (d_fb (req_fail r bio (Some p) d)) = device_view (d_fb d)"
    "flush_failed n (req_fail r bio (Some p) d) = flush_failed n d"
proof -
  have e: "d_fb (req_fail r bio (Some p) d) = (d_fb d)\<lparr>fb_err := 1, dev_lock := complete (dev_lock (d_fb d))\<rparr>"
    by (simp add: req_fail_def fb_destroy_bio_def bio_endio_def Let_def)
  show "device_view (d_fb (req_fail r bio (Some p) d)) = device_view (d_fb d)" unfolding e device_view_def by simp
  show "flush_failed n (req_fail r bio (Some p) d) = flush_failed n d" unfolding flush_failed_def e by simp
  show "finished bio io d (req_fail r bio (Some p) d)"
    using assms by (simp add: finished_def req_fail_def fb_destroy_bio_def bio_endio_def Let_def)
      (cases io, auto simp: fun_eq_iff)
qed (use assms in \<open>simp_all add: req_fail_def fb_destroy_bio_def bio_endio_def Let_def\<close>)

lemma serve_write_spec:
  assumes ok: "drv_ok n d" and wr: "bi_dir bio \<noteq> READ_DIR" and fresh: "fbios io p = None"
    and io: "d_io d = io\<lparr>fbios := (fbios io)(p := Some b)\<rparr>" and l4: "length lpas = 4"
    and nt: "noted Map.empty s segs m b" and m: "m \<le> NR_MAX_REQ_BIO" and valid: "valid_pages s m"
  defines "src \<equiv> \<lambda>i. kmem d (segs ! i)"
  shows "\<exists>d'. serve_write lpas now bio p d = Some d' \<and> finished bio io d d' \<and>
    (drv_ok n d' \<and> fb_err (d_fb d') = fb_err (d_fb d) \<and> bi_error d' = bi_error d \<and>
       device_view (d_fb d') = put_pages s src m (device_view (d_fb d)) \<or>
     flush_failed n d' \<and> fb_err (d_fb d') = 1 \<and> bi_error d' = (bi_error d)(bi_id bio := 0) \<and>
       (\<exists>k < m. device_view (d_fb d') =
          put_pages s src k (ftl_data (d_fb d) |` (- (lpa_at s ` {..<m})) ++ wb_view (fb_wbuf (d_fb d)))))"
proof -
  have R: "ftl_ok (d_fb d)" "ftl_lock (d_fb d) = 1" "wb_ready n (d_fb d)" "nr_ppas (d_fb d) = 2048"
    using ok by (simp_all add: drv_ok_def)
  note N = noted_write [OF nt m]
  have u: "unat (req_count b) = m" using N(1) m by (simp add: unat_of_nat_u32 NR_MAX_REQ_BIO_def)
  have S: "set (take m (fbio_lpas b)) = lpa_at s ` {..<m}" by (simp add: N(3) atLeast0LessThan)
  obtain fb1 where 1: "del_invalidate_pgs (d_fb d) (req_count b) (fbio_lpas b) = Some fb1" "ftl_ok fb1" "dframe (d_fb d) fb1"
    "ftl_data fb1 = ftl_data (d_fb d) |` (- (lpa_at s ` {..<m}))"
    using del_invalidate_pgs_spec [OF R(1,2), of "req_count b" "fbio_lpas b"] u R(4) N(2) m S valid_pagesD(1) [OF valid]
    by (auto simp: NR_MAX_REQ_BIO_def)
  let ?d1 = "upd_fb d fb1"
  have k1: "wkeep d ?d1" and wb1: "fb_wbuf fb1 = fb_wbuf (d_fb d)" using 1(3) by (simp_all add: wkeep_def dframe_def)
  have ok1: "drv_ok n ?d1"
    using R(3) wb1 1(2) by (intro drv_ok_keep [OF ok k1]) (simp_all add: wb_ready_def)
  let ?M = "ftl_data (d_fb d) |` (- (lpa_at s ` {..<m})) ++ wb_view (fb_wbuf (d_fb d))"
  have M: "device_view (d_fb ?d1) = put_pages s (\<lambda>i. kmem ?d1 (segs ! i)) 0 ?M"
    using 1(4) wb1 by (simp add: device_view_def)
  have live: "fbios (d_io ?d1) p = Some b" using io by simp
  note L = write_loop_spec [OF ok1 live l4 m le0 N(4,5) valid_pagesD(1) [OF valid] M]
  have sv: "serve_write lpas now bio p d = (case write_loop lpas p (of_nat m) 0 ?d1 of None \<Rightarrow> None
      | Some (r, d2) \<Rightarrow> Some (if r = -1 then req_fail 0 bio (Some p) d2 else req_finish now bio (Some p) d2))"
    using live 1(1) N(1) by (simp add: serve_write_def fb_del_invalid_data_def Let_def split: option.split)
  have lk: "dev_lock (d_fb d2) = dev_lock (d_fb d)" "fb_err (d_fb d2) = fb_err (d_fb d)" "bi_error d2 = bi_error d"
    "kmem d2 = kmem d" "d_io d2 = io\<lparr>fbios := (fbios io)(p := Some b)\<rparr>"
    "silent (ptr_vdevice (d_fb d)) (ptr_vdevice (d_fb d2))" if "wkeep ?d1 d2" for d2
    using wkeep_trans [OF k1 that] io by (simp_all add: wkeep_def hframe_def)
  consider (good) d2 where "write_loop lpas p (of_nat m) 0 ?d1 = Some (0, d2)" "drv_ok n d2" "wkeep ?d1 d2"
      "device_view (d_fb d2) = put_pages s src m ?M"
    | (fail) d2 k where "k < m" "write_loop lpas p (of_nat m) 0 ?d1 = Some (-1, d2)" "flush_failed n d2" "wkeep ?d1 d2"
      "device_view (d_fb d2) = put_pages s src k ?M"
    using L by (auto simp: src_def)
  then show ?thesis
  proof cases
    case (good d2)
    have v: "put_pages s src m ?M = put_pages s src m (device_view (d_fb d))"
      unfolding device_view_def by (rule put_pages_restrict) simp
    show ?thesis
      using sv good v lk [OF good(3)] req_finish_write [OF wr fresh lk(5) [OF good(3)], where now = now]
      by (intro exI [of _ "req_finish now bio (Some p) d2"]) (auto simp: finished_def intro: silent_trans)
  next
    case (fail d2 k)
    show ?thesis
      using sv fail lk [OF fail(4)] req_fail_some [OF fresh lk(5) [OF fail(4)], where bio = bio and r = 0]
      by (intro exI [of _ "req_fail 0 bio (Some p) d2"]) (auto simp: finished_def intro: silent_trans)
  qed
qed

end
