(* ===== verification/FB_Bgc.thy ===== *)
theory FB_Bgc
  imports FB_Gc
begin

text \<open>
  Background garbage collection: the \<open>fb_bgc_\<close> functions of \<open>rust/src/gc_page_mapping.rs\<close> and
  \<open>trigger_bg_gc\<close> of \<open>gc_page_mapping.c\<close>, which copies at most one wordline per chip in a call.
\<close>

definition bgc_prepare_one :: "nat \<Rightarrow> fb_context_t \<Rightarrow> (int option \<times> fb_context_t) option" where
  "bgc_prepare_one i fb = do {
     let (bus, chip) = get_next_bus_chip fb;
     blki \<leftarrow> get_curr_gc_block fb (ucast bus) (ucast chip);
     case blki of
       None \<Rightarrow> Some (Some (-1), fb)
     | Some p \<Rightarrow> do {
         fb \<leftarrow> erase_blk fb bus chip p;
         act \<leftarrow> get_curr_active_block fb (ucast bus) (ucast chip);
         fb \<leftarrow> (if act = None then set_curr_active_block fb (ucast bus) (ucast chip) (Some p)
               else ssd_do fb (\<lambda>s. set_free_blk s p));
         blki \<leftarrow> get_dirt_block (get_ssd_inf fb) (ucast bus) (ucast chip);
         fb \<leftarrow> (case blki of None \<Rightarrow> Some fb | Some q \<Rightarrow> ssd_do fb (\<lambda>s. reset_dirt_blk s q));
         fb \<leftarrow> set_curr_gc_block fb (ucast bus) (ucast chip) blki;
         Some (None, set_prev_bus_chip fb bus chip) } }"

definition fb_bgc_prepare_act_blks :: "fb_context_t \<Rightarrow> (int \<times> fb_context_t) option" where
  "fb_bgc_prepare_act_blks fb = do {
     (r, fb) \<leftarrow> for_ret bgc_prepare_one [0..<NUM_CHIPS] fb;
     Some (int_of_ret r, fb) }"

text \<open>A chip short of free and dirty blocks keeps its victim while it has a valid page left, or gets a new one.\<close>

definition bgc_new_vic :: "u8 \<Rightarrow> u8 \<Rightarrow> fb_context_t \<Rightarrow> (int option \<times> fb_context_t) option" where
  "bgc_new_vic bus chip fb = do {
     blki \<leftarrow> select_vic_blk_from_used (get_ssd_inf fb) (ucast bus) (ucast chip);
     case blki of
       None \<Rightarrow> Some (Some (-1), fb)
     | Some p \<Rightarrow> do {
         fb \<leftarrow> set_vic_blk fb (ucast bus) (ucast chip) (Some p);
         pg \<leftarrow> find_first_valid_pg (get_ssd_inf fb) p 0;
         fb \<leftarrow> set_first_valid_pg fb (ucast bus) (ucast chip) pg;
         Some (None, fb) } }"

definition bgc_set_vic_blk :: "u8 \<Rightarrow> u8 \<Rightarrow> fb_context_t \<Rightarrow> (int option \<times> fb_context_t) option" where
  "bgc_set_vic_blk bus chip fb = do {
     let chipi = get_chip_info (ucast bus) (ucast chip);
     nr_dirt \<leftarrow> get_nr_dirt_blks_in_chip (get_ssd_inf fb) chipi;
     nr_free \<leftarrow> get_nr_free_blks_in_chip (get_ssd_inf fb) chipi;
     if nr_dirt + nr_free < BGC_TH_NR_BLKS then do {
       blki \<leftarrow> get_vic_blk fb (ucast bus) (ucast chip);
       case blki of
         None \<Rightarrow> bgc_new_vic bus chip fb
       | Some p \<Rightarrow> do {
           pg \<leftarrow> get_first_valid_pg fb (ucast bus) (ucast chip);
           pg \<leftarrow> find_first_valid_pg (get_ssd_inf fb) p pg;
           fb \<leftarrow> set_first_valid_pg fb (ucast bus) (ucast chip) pg;
           if pg = NUM_PAGES_PER_BLOCK then do {
             fb \<leftarrow> set_vic_blk fb (ucast bus) (ucast chip) None;
             bgc_new_vic bus chip fb }
           else Some (None, fb) } }
     else do {
       fb \<leftarrow> set_vic_blk fb (ucast bus) (ucast chip) None;
       fb \<leftarrow> set_first_valid_pg fb (ucast bus) (ucast chip) 0;
       Some (None, fb) } }"

definition fb_bgc_set_vic_blks :: "fb_context_t \<Rightarrow> (int \<times> fb_context_t) option" where
  "fb_bgc_set_vic_blks fb = do {
     (r, fb) \<leftarrow> for_ret (\<lambda>bus. for_ret (bgc_set_vic_blk bus) (words_below NUM_CHIPS_PER_BUS))
       (words_below NUM_BUSES) fb;
     Some (int_of_ret r, fb) }"

definition bgc_read_one ::
  "nat \<Rightarrow> read_st \<times> fb_context_t \<Rightarrow> (int option \<times> read_st \<times> fb_context_t) option" where
  "bgc_read_one i st = (case st of (l, fb) \<Rightarrow> do {
     let (bus, chip) = get_next_bus_chip fb;
     vic_blki \<leftarrow> get_vic_blk fb (ucast bus) (ucast chip);
     case vic_blki of
       None \<Rightarrow> Some (None, l, set_prev_bus_chip fb bus chip)
     | Some p \<Rightarrow> do {
         pg \<leftarrow> get_first_valid_pg fb (ucast bus) (ucast chip);
         let pgi = get_pgi_from_blki p pg;
         n \<leftarrow> get_nr_invalid_lps (get_ssd_inf fb) pgi;
         let nr_pgs_to_read = NR_LP_IN_PP - n;
         if nr_pgs_to_read = 0 then Some (Some (-1), l, fb)
         else do {
           let fb = upd_gcm fb (\<lambda>g. g\<lparr>nr_pgs_to_copy := nr_pgs_to_copy g + nr_pgs_to_read\<rparr>);
           (l, fb) \<leftarrow> collect_lpas pgi (l, fb);
           let fb = upd_perf fb perf_inc_nr_page_reads;
           (l, fb) \<leftarrow> gc_vdevice_read bus chip p pg (l, fb);
           Some (None, l\<lparr>rd_data := rd_data l + page_span nr_pgs_to_read\<rparr>,
             set_prev_bus_chip fb bus chip) } } })"

definition fb_bgc_read_valid_pgs :: "fb_context_t \<Rightarrow> (int \<times> fb_context_t) option" where
  "fb_bgc_read_valid_pgs fb = do {
     (r, l, fb) \<leftarrow> for_ret bgc_read_one [0..<NUM_CHIPS] (read_start, fb);
     Some (int_of_ret r, fb) }"

definition trigger_bg_gc :: "fb_context_t \<Rightarrow> (int \<times> fb_context_t) option" where
  "trigger_bg_gc fb = do {
     fb \<leftarrow> lock_ftl fb;
     let (bus, chip) = get_prev_bus_chip fb;
     act \<leftarrow> get_curr_active_block fb (ucast bus) (ucast chip);
     if act = None then do {
       (ret, fb) \<leftarrow> fb_bgc_prepare_act_blks fb;
       if ret \<noteq> 0 then Some (-1, unlock_ftl fb)
       else Some (0, unlock_ftl (upd_perf fb perf_inc_nr_gc_trigger_bg)) }
     else do {
       let fb = init_gcm fb;
       (ret, fb) \<leftarrow> fb_bgc_set_vic_blks fb;
       if ret \<noteq> 0 then Some (-1, unlock_ftl fb) else do {
       (ret, fb) \<leftarrow> fb_bgc_read_valid_pgs fb;
       if ret \<noteq> 0 then Some (-1, unlock_ftl fb)
       else if nr_pgs_to_copy (get_gcm (get_ftl fb)) = 0 then Some (0, unlock_ftl fb)
       else do {
         let fb = upd_perf fb perf_inc_nr_gc_trigger_bg;
         (ret, fb) \<leftarrow> prog_valid_pgs_to_gc_blks fb;
         if ret \<noteq> 0 then Some (-1, unlock_ftl fb) else do {
         (ret, fb) \<leftarrow> update_gc_blks fb;
         if ret \<noteq> 0 then Some (-1, unlock_ftl fb) else Some (0, unlock_ftl fb) }}}}}"

end
