(* ===== verification/FB_Module.thy ===== *)
theory FB_Module
  imports FB_Main FB_Bgc
begin

text \<open>
  Loading and unloading the module, \<open>fb_init\<close> and \<open>fb_exit\<close> of \<open>main.c\<close>, with the failure paths, and the
  thread that runs background GC. \<open>init_env\<close> holds the outcomes of the calls \<open>fb_init\<close> makes; the objects it
  holds references to are a list of \<open>resource\<close>s, so that what a failure leaves behind can be seen.
\<close>

section \<open>Loading the module\<close>

datatype resource = Proc_file | Context | Vdevice | Ssd_info | Mapping_context | Req_queue | Blkdev | Disk | Write_buffer

text \<open>Whether each allocation succeeds, the result of \<open>register_blkdev\<close>, and whether \<open>kthread_run\<close> starts the thread.\<close>

record init_env =
  alloc_context :: bool
  alloc_vdevice :: bool
  alloc_ssd_info :: bool
  alloc_mapping :: bool
  alloc_queue :: bool
  register_result :: int
  alloc_gendisk :: bool
  alloc_wb :: bool
  thread_starts :: bool

text \<open>The previous contents of the memory the module allocates.\<close>

record init_junk =
  j_context :: fb_context_t
  j_vdevice :: vdevice_t
  j_ssd_info :: ssd_info
  j_mapping :: page_mapping_context_t
  j_wb :: fb_wb
  j_pg_buf :: "nat \<Rightarrow> lpdata"

definition ENOMEM :: int where "ENOMEM = 12"

text \<open>\<open>IS_ERR\<close> is a truth value, so the test \<open>rc >= 0\<close> always holds.\<close>

definition fb_init_write_buffer_thread :: "bool \<Rightarrow> int" where
  "fb_init_write_buffer_thread runs = (let rc = (if runs then 0 else 1) :: int in if 0 \<le> rc then 0 else -1)"

text \<open>The chain of labels at the end of \<open>fb_init\<close>; each falls through to the next one.\<close>

definition fail_create_vdevice :: "resource list \<Rightarrow> resource list" where
  "fail_create_vdevice held = remove1 Context held"

definition fail_create_ssd_info :: "resource list \<Rightarrow> resource list" where
  "fail_create_ssd_info held = fail_create_vdevice (remove1 Vdevice held)"

definition fail_create_mapping_context :: "resource list \<Rightarrow> resource list" where
  "fail_create_mapping_context held = fail_create_ssd_info (remove1 Ssd_info held)"

definition fail_alloc_bdev_queue :: "resource list \<Rightarrow> resource list" where
  "fail_alloc_bdev_queue held = fail_create_mapping_context (remove1 Mapping_context held)"

definition fail_register_bdev :: "resource list \<Rightarrow> resource list" where
  "fail_register_bdev held = fail_alloc_bdev_queue (remove1 Req_queue held)"

definition fail_alloc_disk :: "resource list \<Rightarrow> resource list" where
  "fail_alloc_disk held = fail_register_bdev (remove1 Blkdev held)"

text \<open>\<open>del_gendisk\<close> takes the disk out of the system; the reference \<open>alloc_disk\<close> gave is dropped by \<open>put_disk\<close> only.\<close>

definition fail_create_write_buffer :: "resource list \<Rightarrow> resource list" where
  "fail_create_write_buffer held = fail_alloc_disk held"

definition fail_write_buffer_thread :: "resource list \<Rightarrow> resource list" where
  "fail_write_buffer_thread held = fail_create_write_buffer (remove1 Write_buffer held)"

text \<open>The result: the return value, the objects still held, and the context when the module is loaded.\<close>

definition fb_init :: "init_env \<Rightarrow> init_junk \<Rightarrow> (int \<times> resource list \<times> fb_context_t option) option" where
  "fb_init env junk = (
     let held = [Proc_file]; fb = (j_context junk)\<lparr>fb_perf := perf_zero\<rparr> in
     if \<not> alloc_context env then Some (- ENOMEM, held, None) else
     let held = Context # held in
     if \<not> alloc_vdevice env then Some (- ENOMEM, fail_create_vdevice held, None) else
     let held = Vdevice # held; fb = fb\<lparr>ptr_vdevice := create_vdevice (j_vdevice junk)\<rparr> in
     if \<not> alloc_ssd_info env then Some (- ENOMEM, fail_create_ssd_info held, None) else do {
     ssdi \<leftarrow> create_ssd_info (j_ssd_info junk);
     let held = Ssd_info # held;
     let fb = fb\<lparr>ptr_ssd_info := ssdi\<rparr>;
     (ret, fb) \<leftarrow> (if alloc_mapping env then create_pg_ftl (j_mapping junk) fb else Some (-1, fb));
     if ret = -1 then Some (- ENOMEM, fail_create_mapping_context held, None) else do {
     let held = Mapping_context # held;
     if \<not> alloc_queue env then Some (- ENOMEM, fail_alloc_bdev_queue held, None) else do {
     let held = Req_queue # held;
     let fb = fb\<lparr>background_gc_time_stamp := 0, dev_lock := complete 0\<rparr>;
     if register_result env < 0 then Some (register_result env, fail_register_bdev held, None) else do {
     let held = Blkdev # held;
     if \<not> alloc_gendisk env then Some (- ENOMEM, fail_alloc_disk held, None) else do {
     let held = Disk # held;
     if \<not> alloc_wb env then Some (- ENOMEM, fail_create_write_buffer held, None) else do {
     wb \<leftarrow> fb_create_write_buffer (j_wb junk) (j_pg_buf junk) NUM_PAGES_IN_WRITE_BUFFER LOGICAL_PAGE_SIZE;
     let held = Write_buffer # held;
     let fb = fb\<lparr>fb_wbuf := wb\<rparr>;
     if fb_init_write_buffer_thread (thread_starts env) = -1 then Some (0, fail_write_buffer_thread held, None)
     else Some (0, held, Some fb) } } } } } })"

text \<open>The number of sectors announced by \<open>set_capacity\<close>.\<close>

definition disk_sectors :: "fb_context_t \<Rightarrow> u64" where
  "disk_sectors fb = logical_capacity (get_vdev fb) div SECTOR_SIZE"

definition fb_exit :: "resource list \<Rightarrow> resource list" where
  "fb_exit held = fold remove1 [Disk, Blkdev, Req_queue, Write_buffer, Mapping_context, Ssd_info, Vdevice, Context, Proc_file] held"

section \<open>The background GC thread\<close>

text \<open>The rounds of \<open>fb_write_buffer_thread\<close> for a sequence of clock readings; \<open>flag\<close> is \<open>flag_enable_wb_thread\<close>.\<close>

fun fb_write_buffer_thread :: "u64 list \<Rightarrow> u32 \<times> fb_context_t \<Rightarrow> (u32 \<times> fb_context_t) option" where
  "fb_write_buffer_thread [] st = Some st"
| "fb_write_buffer_thread (now # clock) (flag, fb) =
     (if flag = 0 then Some (flag, fb)
      else if fb_is_bgc_ts_expired now fb BGC_TH_INTV then do {
        (ret, fb) \<leftarrow> trigger_bg_gc fb;
        if ret = -1 then Some (0, fb) else fb_write_buffer_thread clock (flag, fb) }
      else fb_write_buffer_thread clock (flag, fb))"

section \<open>The module after loading\<close>

text \<open>What the sizes of the allocations make true of the previous contents.\<close>

definition junk_ok :: "init_junk \<Rightarrow> bool" where
  "junk_ok junk \<longleftrightarrow> junk_sizes (j_mapping junk) \<and>
     (\<forall>p pg. valid_blk p \<longrightarrow> pg < NUM_PAGES_PER_BLOCK \<longrightarrow> length (vdata (j_vdevice junk) p pg) = NR_LP_IN_PP)"

definition all_succeed :: "init_env \<Rightarrow> bool" where
  "all_succeed env \<longleftrightarrow> alloc_context env \<and> alloc_vdevice env \<and> alloc_ssd_info env \<and> alloc_mapping env \<and>
     alloc_queue env \<and> 0 \<le> register_result env \<and> alloc_gendisk env \<and> alloc_wb env"

definition everything :: "resource list" where
  "everything = [Write_buffer, Disk, Blkdev, Req_queue, Mapping_context, Ssd_info, Vdevice, Context, Proc_file]"

text \<open>The driver's state when the first request arrives.\<close>

definition drv_start :: "fb_context_t \<Rightarrow> (nat \<Rightarrow> lpdata) \<Rightarrow> drv" where
  "drv_start fb mem = \<lparr>d_fb = fb, d_io = \<lparr>fbios = Map.empty, endio = []\<rparr>, kmem = mem, bi_error = (\<lambda>_. 0)\<rparr>"

lemma create_pg_ftl_frame:
  assumes "create_pg_ftl junk fb = Some (r, fb')"
  shows "fb_err fb' = fb_err fb"
  using assms by (auto simp: create_pg_ftl_def Option.bind_eq_Some_conv Let_def split: option.splits)

lemma start_fields [simp]:
  "ftl_inv pt ex (fb\<lparr>background_gc_time_stamp := t\<rparr>) = ftl_inv pt ex fb"
  "ftl_data (fb\<lparr>background_gc_time_stamp := t\<rparr>) = ftl_data fb"
  by (rule same_ftl; simp)+

lemma fb_init_loaded:
  assumes junk: "junk_ok junk" and env: "all_succeed env"
  shows "\<exists>fb. fb_init env junk = Some (0, everything, Some fb) \<and> drv_ok 8 (drv_start fb mem) \<and>
    dev_lock fb = 1 \<and> fb_err fb = fb_err (j_context junk) \<and> device_view fb = Map.empty \<and>
    ptr_vdevice fb = create_vdevice (j_vdevice junk) \<and> fresh_ftl fb \<and>
    junk_buffers (ftl_gcm (j_mapping junk)) (ftl_gcm (ptr_mapping_context fb))"
proof -
  obtain s where s: "create_ssd_info (j_ssd_info junk) = Some s" "\<And>b c. valid_chip b c \<Longrightarrow> fresh_chip b c s"
    using create_ssd_info_spec [of "j_ssd_info junk"] by blast
  let ?fb1 = "(j_context junk)\<lparr>fb_perf := perf_zero, ptr_vdevice := create_vdevice (j_vdevice junk), ptr_ssd_info := s\<rparr>"
  have "before_ftl ?fb1" "junk_sizes (j_mapping junk)"
    using s(2) junk by (simp_all add: before_ftl_def junk_ok_def create_vdevice_def)
  then obtain fb2 where f: "create_pg_ftl (j_mapping junk) ?fb1 = Some (0, fb2)" "ftl_ok fb2" "ftl_data fb2 = Map.empty"
    "ftl_lock fb2 = 1" "ptr_vdevice fb2 = create_vdevice (j_vdevice junk)" "nr_ppas fb2 = 2048" "length (discards fb2) = 2048"
    "fresh_ftl fb2" "junk_buffers (ftl_gcm (j_mapping junk)) (ftl_gcm (ptr_mapping_context fb2))"
    using create_pg_ftl_spec [of ?fb1 "j_mapping junk"] by (auto simp: NR_MAX_LPAS_DISCARD_def)
  have e: "fb_err fb2 = fb_err (j_context junk)" using create_pg_ftl_frame [OF f(1)] by simp
  have u: "unat (NUM_PAGES_IN_WRITE_BUFFER :: u32) = 8"
    by (simp add: NUM_PAGES_IN_WRITE_BUFFER_def NR_LP_IN_PP_def NUM_CHIPS_def NUM_BUSES_def NUM_CHIPS_PER_BUS_def)
  obtain wb where wb: "fb_create_write_buffer (j_wb junk) (j_pg_buf junk) NUM_PAGES_IN_WRITE_BUFFER LOGICAL_PAGE_SIZE = Some wb"
    "wb_wf 8 wb" "wb_view wb = Map.empty" "writing_pgs wb = []" "buf_pgs wb = []"
    using wb_create_wf [of "j_wb junk" "j_pg_buf junk" NUM_PAGES_IN_WRITE_BUFFER LOGICAL_PAGE_SIZE] u by auto
  let ?fb = "fb2\<lparr>background_gc_time_stamp := 0, dev_lock := 1, fb_wbuf := wb\<rparr>"
  have "fb_init env junk = Some (0, everything, Some ?fb)"
    using env s(1) f(1) wb(1)
    by (simp add: fb_init_def all_succeed_def fb_init_write_buffer_thread_def everything_def Let_def)
  moreover have "drv_ok 8 (drv_start ?fb mem)"
    using f wb by (simp add: drv_ok_def drv_start_def wb_ready_def buf_lpas_def)
  moreover have "device_view ?fb = Map.empty" using f(3) wb(3) by (simp add: device_view_def)
  moreover have "fresh_ftl ?fb" using f(8) by (simp add: fresh_ftl_def act_of_def gc_of_def)
  ultimately show ?thesis using f(5,9) e by (intro exI [of _ ?fb]) simp
qed

end
