(* ===== verification/FB_Driver.thy ===== *)
theory FB_Driver
  imports FB_Module
begin

text \<open>
  The request function end to end: what a read, a write, a discard and a flush do to the contents of the
  device, to the pages of the caller and to the completion of the bio, on any state between requests and on
  every error path. \<open>device_view\<close> is the abstract device, a map from logical pages to their contents.
\<close>

section \<open>The state between requests\<close>

definition drv_idle :: "nat \<Rightarrow> drv \<Rightarrow> bool" where
  "drv_idle n d \<longleftrightarrow> drv_ok n d \<and> dev_lock (d_fb d) = 1 \<and> fb_err (d_fb d) = 0"

text \<open>The state after the lock is taken and the time noted.\<close>

definition opened :: "u64 \<Rightarrow> drv \<Rightarrow> drv" where
  "opened now d = upd_fb d (fb_update_bgc_ts now ((d_fb d)\<lparr>dev_lock := 0\<rparr>))"

lemma opened_fields [simp]:
  "drv_ok n (opened now d) = drv_ok n d" "device_view (d_fb (opened now d)) = device_view (d_fb d)"
  "fb_wbuf (d_fb (opened now d)) = fb_wbuf (d_fb d)" "ftl_data (d_fb (opened now d)) = ftl_data (d_fb d)"
  "kmem (opened now d) = kmem d" "d_io (opened now d) = d_io d" "bi_error (opened now d) = bi_error d"
  "ptr_vdevice (d_fb (opened now d)) = ptr_vdevice (d_fb d)" "fb_err (d_fb (opened now d)) = fb_err (d_fb d)"
  "dev_lock (d_fb (opened now d)) = 0"
  by (simp_all add: opened_def drv_ok_def wb_ready_def device_view_def) (simp_all add: fb_update_bgc_ts_def)

lemma make_request_open:
  assumes "dev_lock (d_fb d) = 1"
  shows "make_request vm junk lpas now1 now2 bio d =
    (if fb_err (d_fb d) \<noteq> 0 then Some (req_fail 0 bio None (opened now1 d))
     else if bi_preflush bio then Some (req_finish now2 bio None (opened now1 d))
     else if bi_discard bio then do {
       (_, fb) \<leftarrow> make_discard_request_page_mapping (d_fb (opened now1 d)) (bi_sector bio) (bi_size bio);
       Some (req_finish now2 bio None (upd_fb (opened now1 d) fb)) }
     else do {
       (fbio, d) \<leftarrow> fb_build_bio vm junk bio (opened now1 d);
       case fbio of
         None \<Rightarrow> Some (req_fail (- ENODEV) bio None d)
       | Some p \<Rightarrow>
           if bi_dir bio = READ_DIR then serve_read now2 bio p d
           else if bi_dir bio = WRITE_DIR then serve_write lpas now2 bio p d
           else Some (req_fail (- ENOMSG) bio (Some p) d) })"
proof -
  have "fb_update_bgc_ts now1 ((d_fb d)\<lparr>dev_lock := 0\<rparr>) = d_fb (opened now1 d)" by (simp add: opened_def)
  then show ?thesis
    using assms opened_fields(9) [of now1 d] by (simp add: make_request_def opened_def Let_def)
qed

text \<open>The exits without a built request.\<close>

lemma req_finish_none:
  assumes "bi_dir bio \<noteq> READ_DIR"
  shows "d_io (req_finish now bio None d) = (d_io d)\<lparr>endio := endio (d_io d) @ [bi_id bio]\<rparr>"
    "kmem (req_finish now bio None d) = kmem d" "bi_error (req_finish now bio None d) = bi_error d"
    "device_view (d_fb (req_finish now bio None d)) = device_view (d_fb d)"
    "drv_ok n (req_finish now bio None d) = drv_ok n d" "fb_err (d_fb (req_finish now bio None d)) = fb_err (d_fb d)"
    "dev_lock (d_fb (req_finish now bio None d)) = complete (dev_lock (d_fb d))"
    "ptr_vdevice (d_fb (req_finish now bio None d)) = ptr_vdevice (d_fb d)"
proof -
  have e: "d_fb (req_finish now bio None d) = (fb_update_bgc_ts now (d_fb d))\<lparr>dev_lock := complete (dev_lock (d_fb d))\<rparr>"
    by (simp add: req_finish_def fb_destroy_bio_def bio_endio_def fb_update_bgc_ts_def Let_def)
  show "device_view (d_fb (req_finish now bio None d)) = device_view (d_fb d)"
    unfolding e device_view_def by simp (simp add: fb_update_bgc_ts_def)
  show "drv_ok n (req_finish now bio None d) = drv_ok n d"
    unfolding drv_ok_def e wb_ready_def by simp (simp add: fb_update_bgc_ts_def)
  show "ptr_vdevice (d_fb (req_finish now bio None d)) = ptr_vdevice (d_fb d)" unfolding e by (simp add: fb_update_bgc_ts_def)
  show "fb_err (d_fb (req_finish now bio None d)) = fb_err (d_fb d)"
    "dev_lock (d_fb (req_finish now bio None d)) = complete (dev_lock (d_fb d))"
    unfolding e by (simp_all add: fb_update_bgc_ts_def)
qed (use assms in \<open>simp_all add: req_finish_def fb_destroy_bio_def bio_endio_def Let_def\<close>)

lemma req_fail_none:
  "d_io (req_fail r bio None d) = (d_io d)\<lparr>endio := endio (d_io d) @ [bi_id bio]\<rparr>"
  "kmem (req_fail r bio None d) = kmem d" "bi_error (req_fail r bio None d) = (bi_error d)(bi_id bio := sint r)"
  "device_view (d_fb (req_fail r bio None d)) = device_view (d_fb d)" "fb_err (d_fb (req_fail r bio None d)) = 1"
  "dev_lock (d_fb (req_fail r bio None d)) = complete (dev_lock (d_fb d))"
  "ptr_vdevice (d_fb (req_fail r bio None d)) = ptr_vdevice (d_fb d)"
  by (simp_all add: req_fail_def fb_destroy_bio_def bio_endio_def device_view_def Let_def)

section \<open>A loaded module\<close>

text \<open>Memory that was zero before, in the sizes the module allocates, and an environment where every call succeeds.\<close>

definition zero_wb :: fb_wb where
  "zero_wb = \<lparr>pg_size = 0, wb_nr_entries = 0, free_pgs = [], writing_pgs = [], buf_pgs = [], hash_pgs = [],
     wb_pgs = (\<lambda>_. \<lparr>wbp_lpa = 0, wbp_data = [], wflag = 0\<rparr>), pg_buf = [], wb_lock = 0\<rparr>"

definition zero_page :: flash_page where
  "zero_page = \<lparr>page_status = (\<lambda>_. PAGE_STATUS_FREE), no_logical_page_addr = (\<lambda>_. 0),
     pg_nr_invalid_log_pages = 0, pg_del_flag = 0\<rparr>"

definition zero_block :: flash_block where
  "zero_block = \<lparr>no_block = 0, no_chip = 0, no_bus = 0, nr_valid_pages = 0, nr_invalid_pages = 0, nr_free_pages = 0,
     nr_valid_log_pages = 0, nr_invalid_log_pages = 0, nr_erase_cnt = 0, is_bad_block = 0, last_modified_time = 0,
     is_reserved_block = 0, is_active_block = 0, list_pages = (\<lambda>_. zero_page), blk_del_flag = 0\<rparr>"

definition zero_ssd_info :: ssd_info where
  "zero_ssd_info = \<lparr>nr_buses = 0, nr_chips_per_bus = 0, nr_blocks_per_chip = 0, nr_pages_per_block = 0,
     chips = (\<lambda>_ _. \<lparr>chip_status = 0, nr_free_blocks = 0, nr_used_blks = 0, nr_dirt_blks = 0, free_blks = [],
       used_blks = [], dirt_blks = [], nr_dirty_blocks = 0\<rparr>), blocks = (\<lambda>_. zero_block)\<rparr>"

definition zero_vdevice :: vdevice_t where
  "zero_vdevice = \<lparr>device_capacity = 0, logical_capacity = 0, vdata = (\<lambda>_ _. replicate NR_LP_IN_PP []), issued = []\<rparr>"

definition zero_mapping :: page_mapping_context_t where
  "zero_mapping = \<lparr>mapping_context_lock = 0, ptr_mapping_table = \<lparr>nr_entries = 0, mappings = (\<lambda>_. 0)\<rparr>,
     ftl_abm = \<lparr>act_blks = replicate NUM_CHIPS None, mru_bus = 0, mru_chip = 0\<rparr>,
     ftl_gcm = \<lparr>gc_blks = replicate NUM_CHIPS None, vic_blks = replicate NUM_CHIPS None, first_valid_pg = replicate NUM_CHIPS 0,
       lpas_to_copy = replicate (NUM_CHIPS * NUM_PAGES_PER_BLOCK * NR_LP_IN_PP) 0,
       data_to_copy = replicate (4 * (NUM_CHIPS * NUM_PAGES_PER_BLOCK * NR_LP_IN_PP)) [], nr_pgs_to_copy = 0\<rparr>,
     ftl_delm = \<lparr>ppas = replicate NR_MAX_LPAS_DISCARD 0, nr_btod = 0, btod = [], hash_btod = [], nr_wtod = 0, wtod = [],
       hash_wtod = [], del_nr_pgs_to_copy = 0, del_lpas_to_copy = [], del_data_to_copy = []\<rparr>,
     lpas_to_discard = replicate NR_MAX_LPAS_DISCARD 0\<rparr>"

definition zero_context :: fb_context_t where
  "zero_context = \<lparr>fb_err = 0, ptr_mapping_context = zero_mapping, ptr_ssd_info = zero_ssd_info, ptr_vdevice = zero_vdevice,
     dev_lock = 0, fb_wbuf = zero_wb, background_gc_time_stamp = 0, fb_perf = perf_zero\<rparr>"

definition zero_junk :: init_junk where
  "zero_junk = \<lparr>j_context = zero_context, j_vdevice = zero_vdevice, j_ssd_info = zero_ssd_info, j_mapping = zero_mapping,
     j_wb = zero_wb, j_pg_buf = (\<lambda>_. [])\<rparr>"

definition good_env :: init_env where
  "good_env = \<lparr>alloc_context = True, alloc_vdevice = True, alloc_ssd_info = True, alloc_mapping = True, alloc_queue = True,
     register_result = 250, alloc_gendisk = True, alloc_wb = True, thread_starts = True\<rparr>"

definition zero_fbio :: fb_bio_t where
  "zero_fbio = \<lparr>req_count = 0, fbio_lpas = replicate NR_MAX_REQ_BIO 0, fbio_kpages = replicate NR_MAX_REQ_BIO 0,
     fbio_bio = 0, bio_lock = 0\<rparr>"

lemma zero_junk_ok: "junk_ok zero_junk" "all_succeed good_env"
  by (simp_all add: junk_ok_def junk_sizes_def zero_junk_def zero_mapping_def zero_vdevice_def all_succeed_def good_env_def)

text \<open>A loaded module; its host memory holds \<open>mem\<close>.\<close>

definition loaded :: "(nat \<Rightarrow> lpdata) \<Rightarrow> drv" where
  "loaded mem = (case fb_init good_env zero_junk of Some (_, _, Some fb) \<Rightarrow> drv_start fb mem | _ \<Rightarrow> drv_start zero_context mem)"

lemma loaded_spec:
  "drv_idle 8 (loaded mem)" "device_view (d_fb (loaded mem)) = Map.empty" "kmem (loaded mem) = mem"
  "fbios (d_io (loaded mem)) = Map.empty" "endio (d_io (loaded mem)) = []" "bi_error (loaded mem) = (\<lambda>_. 0)"
  "issued (ptr_vdevice (d_fb (loaded mem))) = []" "fresh_ftl (d_fb (loaded mem))"
  "junk_buffers (ftl_gcm zero_mapping) (ftl_gcm (ptr_mapping_context (d_fb (loaded mem))))"
proof -
  obtain fb where fb: "fb_init good_env zero_junk = Some (0, everything, Some fb)" "drv_ok 8 (drv_start fb mem)"
    "dev_lock fb = 1" "fb_err fb = fb_err (j_context zero_junk)" "device_view fb = Map.empty"
    "ptr_vdevice fb = create_vdevice (j_vdevice zero_junk)" "fresh_ftl fb"
    "junk_buffers (ftl_gcm (j_mapping zero_junk)) (ftl_gcm (ptr_mapping_context fb))"
    using fb_init_loaded [OF zero_junk_ok, of mem] by blast
  have l: "loaded mem = drv_start fb mem" using fb(1) by (simp add: loaded_def)
  have "fb_err fb = 0" using fb(4) by (simp add: zero_junk_def zero_context_def)
  then show "drv_idle 8 (loaded mem)" using fb(2,3) by (simp add: l drv_idle_def) (simp add: drv_start_def)
  show "device_view (d_fb (loaded mem)) = Map.empty" "kmem (loaded mem) = mem" "fbios (d_io (loaded mem)) = Map.empty"
    "endio (d_io (loaded mem)) = []" "bi_error (loaded mem) = (\<lambda>_. 0)" "issued (ptr_vdevice (d_fb (loaded mem))) = []"
    "fresh_ftl (d_fb (loaded mem))" "junk_buffers (ftl_gcm zero_mapping) (ftl_gcm (ptr_mapping_context (d_fb (loaded mem))))"
    using fb(5-8) by (simp_all add: l drv_start_def create_vdevice_def zero_junk_def)
qed

section \<open>Reads and writes\<close>

text \<open>A read or write of whole pages inside the device, and the memory of a request.\<close>

definition rw_bio :: "int \<Rightarrow> bio_t \<Rightarrow> bool" where
  "rw_bio dir bio \<longleftrightarrow> bi_dir bio = dir \<and> \<not> bi_preflush bio \<and> \<not> bi_discard bio \<and>
     length (bi_segs bio) \<le> NR_MAX_REQ_BIO \<and> valid_pages (bi_sector bio) (length (bi_segs bio)) \<and>
     (dir = READ_DIR \<longrightarrow> distinct (bi_segs bio))"

definition fbio_mem :: "fb_bio_t \<Rightarrow> bool" where
  "fbio_mem junk \<longleftrightarrow> length (fbio_lpas junk) = NR_MAX_REQ_BIO \<and> length (fbio_kpages junk) = NR_MAX_REQ_BIO"

lemma read_request:
  assumes idle: "drv_idle n d" and bio: "rw_bio READ_DIR bio" and fresh: "fbios (d_io d) p = None" and junk: "fbio_mem junk"
  shows "\<exists>d' ops. make_request (Some p) junk lpas now1 now2 bio d = Some d' \<and> drv_idle n d' \<and>
    device_view (d_fb d') = device_view (d_fb d) \<and> bi_error d' = bi_error d \<and>
    got (device_view (d_fb d)) (lpa_at (bi_sector bio)) (bi_segs bio) (length (bi_segs bio)) (kmem d) (kmem d') \<and>
    issued (ptr_vdevice (d_fb d')) = issued (ptr_vdevice (d_fb d)) @ ops \<and>
    read_outcome p (bi_id bio) ops (d_io d) (d_io d')"
proof -
  let ?o = "opened now1 d" and ?s = "bi_sector bio" and ?segs = "bi_segs bio"
  have I: "drv_ok n ?o" "dev_lock (d_fb d) = 1" "fb_err (d_fb d) = 0" using idle by (simp_all add: drv_idle_def)
  have B: "bi_dir bio = READ_DIR" "\<not> bi_preflush bio" "\<not> bi_discard bio" "length ?segs \<le> NR_MAX_REQ_BIO"
    "valid_pages ?s (length ?segs)" "distinct ?segs" using bio by (simp_all add: rw_bio_def)
  have wf: "wb_wf n (fb_wbuf (d_fb ?o))" using I(1) by (simp add: drv_ok_def wb_ready_def)
  have V: "wbv (bi_dir bio) ?o = wb_view (fb_wbuf (d_fb d))" using B(1) by (simp add: wbv_def)
  obtain b m where b: "fb_build_bio (Some p) junk bio ?o = Some (Some p, ?o\<lparr>kmem := m,
      d_io := (d_io d)\<lparr>fbios := (fbios (d_io d))(p := Some b)\<rparr>\<rparr>)"
    "noted (wb_view (fb_wbuf (d_fb d))) ?s ?segs (length ?segs) b"
    "got (wb_view (fb_wbuf (d_fb d))) (lpa_at ?s) ?segs (length ?segs) (kmem d) m" "fbio_bio b = bi_id bio" "bio_lock b = 1"
    using build_bio_spec [OF wf valid_pagesD(2) [OF B(5)] B(4,6), of junk p] junk unfolding V fbio_mem_def by auto
  let ?d1 = "?o\<lparr>kmem := m, d_io := (d_io d)\<lparr>fbios := (fbios (d_io d))(p := Some b)\<rparr>\<rparr>"
  have ok1: "drv_ok n ?d1" using I(1) by (simp add: drv_ok_def)
  obtain d' ops where r: "serve_read now2 bio p ?d1 = Some d'" "drv_ok n d'" "device_view (d_fb d') = device_view (d_fb d)"
    "fb_err (d_fb d') = 0" "dev_lock (d_fb d') = 1" "bi_error d' = bi_error d"
    "got (device_view (d_fb d)) (lpa_at ?s) ?segs (length ?segs) (kmem d) (kmem d')"
    "issued (ptr_vdevice (d_fb d')) = issued (ptr_vdevice (d_fb d)) @ ops" "read_outcome p (bi_id bio) ops (d_io d) (d_io d')"
    using serve_read_spec [OF ok1 B(1) fresh, of b ?s ?segs "kmem d" now2] b B(4,6) I(3) by auto
  have "make_request (Some p) junk lpas now1 now2 bio d = Some d'"
    using make_request_open [OF I(2), of "Some p" junk lpas now1 now2 bio] I(3) B(1-3) b(1) r(1) by simp
  then show ?thesis using r by (auto simp: drv_idle_def)
qed

lemma write_request:
  assumes idle: "drv_idle n d" and bio: "rw_bio WRITE_DIR bio" and fresh: "fbios (d_io d) p = None" and junk: "fbio_mem junk"
    and l4: "length lpas = 4"
  defines "m \<equiv> length (bi_segs bio)" and "s \<equiv> bi_sector bio" and "src \<equiv> \<lambda>i. kmem d (bi_segs bio ! i)"
  shows "\<exists>d'. make_request (Some p) junk lpas now1 now2 bio d = Some d' \<and> dev_lock (d_fb d') = 1 \<and>
    d_io d' = (d_io d)\<lparr>endio := endio (d_io d) @ [bi_id bio]\<rparr> \<and> kmem d' = kmem d \<and>
    silent (ptr_vdevice (d_fb d)) (ptr_vdevice (d_fb d')) \<and>
    (drv_idle n d' \<and> bi_error d' = bi_error d \<and> device_view (d_fb d') = put_pages s src m (device_view (d_fb d)) \<or>
     fb_err (d_fb d') = 1 \<and> flush_failed n d' \<and> bi_error d' = (bi_error d)(bi_id bio := 0) \<and>
       (\<exists>k < m. device_view (d_fb d') =
          put_pages s src k (ftl_data (d_fb d) |` (- (lpa_at s ` {..<m})) ++ wb_view (fb_wbuf (d_fb d)))))"
proof -
  let ?o = "opened now1 d"
  have I: "drv_ok n ?o" "dev_lock (d_fb d) = 1" "fb_err (d_fb d) = 0" using idle by (simp_all add: drv_idle_def)
  have B: "bi_dir bio = WRITE_DIR" "\<not> bi_preflush bio" "\<not> bi_discard bio" "length (bi_segs bio) \<le> NR_MAX_REQ_BIO"
    "valid_pages (bi_sector bio) (length (bi_segs bio))" using bio by (simp_all add: rw_bio_def)
  have ne: "WRITE_DIR \<noteq> READ_DIR" by (simp add: WRITE_DIR_def READ_DIR_def)
  have wf: "wb_wf n (fb_wbuf (d_fb ?o))" using I(1) by (simp add: drv_ok_def wb_ready_def)
  have V: "wbv (bi_dir bio) ?o = Map.empty" using B(1) ne by (simp add: wbv_def)
  have wr: "bi_dir bio \<noteq> READ_DIR" using B(1) ne by simp
  obtain b k where b: "fb_build_bio (Some p) junk bio ?o = Some (Some p, ?o\<lparr>kmem := k,
      d_io := (d_io d)\<lparr>fbios := (fbios (d_io d))(p := Some b)\<rparr>\<rparr>)"
    "noted Map.empty s (bi_segs bio) m b" "got Map.empty (lpa_at s) (bi_segs bio) m (kmem d) k"
    using build_bio_spec [OF wf valid_pagesD(2) [OF B(5)] B(4), of junk p] junk wr unfolding V fbio_mem_def s_def m_def by auto
  have k: "k = kmem d" using b(3) by (simp add: got_empty)
  let ?d1 = "?o\<lparr>kmem := kmem d, d_io := (d_io d)\<lparr>fbios := (fbios (d_io d))(p := Some b)\<rparr>\<rparr>"
  have ok1: "drv_ok n ?d1" using I(1) by (simp add: drv_ok_def)
  obtain d' where w: "serve_write lpas now2 bio p ?d1 = Some d'" "finished bio (d_io d) ?d1 d'"
    "drv_ok n d' \<and> fb_err (d_fb d') = fb_err (d_fb d) \<and> bi_error d' = bi_error d \<and>
       device_view (d_fb d') = put_pages s src m (device_view (d_fb d)) \<or>
     flush_failed n d' \<and> fb_err (d_fb d') = 1 \<and> bi_error d' = (bi_error d)(bi_id bio := 0) \<and>
       (\<exists>k < m. device_view (d_fb d') =
          put_pages s src k (ftl_data (d_fb d) |` (- (lpa_at s ` {..<m})) ++ wb_view (fb_wbuf (d_fb d))))"
    using serve_write_spec [OF ok1 wr fresh _ l4 b(2) B(4) [folded m_def] B(5) [folded m_def s_def], of now2] by (auto simp: src_def)
  have "make_request (Some p) junk lpas now1 now2 bio d = Some d'"
    using make_request_open [OF I(2), of "Some p" junk lpas now1 now2 bio] I(3) B(1-3) b(1) w(1) ne k by simp
  moreover have "dev_lock (d_fb d') = 1" "d_io d' = (d_io d)\<lparr>endio := endio (d_io d) @ [bi_id bio]\<rparr>" "kmem d' = kmem d"
    "silent (ptr_vdevice (d_fb d)) (ptr_vdevice (d_fb d'))"
    using w(2) by (simp_all add: finished_def)
  ultimately show ?thesis using w(3) I(3) by (auto simp: drv_idle_def)
qed

text \<open>The pages of a request are different, so what is stored last is what each of them holds.\<close>

lemma lpa_at_inj:
  assumes "valid_pages s m" "i < m" "j < m" "lpa_at s i = lpa_at s j"
  shows "i = j"
proof -
  have "unat (lpa_at s k) = start_page s + k" if "k < m" for k
    unfolding lpa_at_def using assms(1) that by (intro unat_of_nat_u32) (simp add: valid_pages_def NUM_LOG_PAGES_value)
  from this [OF assms(2)] this [OF assms(3)] have "start_page s + i = start_page s + j" unfolding assms(4) by linarith
  then show ?thesis by simp
qed

lemma put_pages_get:
  assumes v: "valid_pages s m" and i: "i < k" "k \<le> m"
  shows "put_pages s src k M (lpa_at s i) = Some (src i)"
  using i
proof (induction k)
  case (Suc k)
  show ?case
  proof (cases "i = k")
    case True
    then show ?thesis by (simp add: put_pages_Suc)
  next
    case False
    then have "lpa_at s i \<noteq> lpa_at s k" using lpa_at_inj [OF v, of i k] Suc.prems by auto
    then show ?thesis using Suc False by (simp add: put_pages_Suc)
  qed
qed simp

lemma put_pages_other: "x \<notin> lpa_at s ` {..<k} \<Longrightarrow> put_pages s src k M x = M x"
  by (induction k) (auto simp: put_pages_Suc lessThan_Suc)

text \<open>A read leaves the bus controllers exactly the operations it issued to account for.\<close>

lemma read_outcome_bus:
  assumes out: "read_outcome p bio ops io io'" and fresh: "fbios io p = None" and inv: "bus_inv n pend Q (bc, io)"
  shows "bus_inv n (\<lambda>q. pend q + (if q = p then length ops else 0)) Q (bc, io')"
proof -
  have I: "live_ok pend Q (chip_busies bc) io" using bus_invD(2) [OF inv] .
  have zero: "refs Q (chip_busies bc) p + pend p = 0" using I fresh by (auto simp: live_ok_def dest: spec [of _ p])
  have "live_ok (\<lambda>q. pend q + (if q = p then length ops else 0)) Q (chip_busies bc) io'"
  proof (cases "ops = []")
    case True
    then have "fbios io' = fbios io" using out by (simp add: read_outcome_def)
    then have e: "live_ok pend Q (chip_busies bc) io' = live_ok pend Q (chip_busies bc) io" by (simp add: live_ok_def)
    have "(\<lambda>q. pend q + (if q = p then length ops else 0)) = pend" using True by auto
    then show ?thesis using I e by simp
  next
    case False
    then obtain b where b: "fbios io' = (fbios io)(p := Some b)" "unat (req_count b) = length ops" "bio_lock b = 1"
      using out by (auto simp: read_outcome_def)
    show ?thesis unfolding live_ok_def
    proof
      fix q
      show "case fbios io' q of None \<Rightarrow> refs Q (chip_busies bc) q + (pend q + (if q = p then length ops else 0)) = 0
        | Some b \<Rightarrow> unat (req_count b) = refs Q (chip_busies bc) q + (pend q + (if q = p then length ops else 0)) \<and>
            0 < refs Q (chip_busies bc) q + (pend q + (if q = p then length ops else 0)) \<and> bio_lock b = 1"
        using I b zero False by (cases "q = p") (auto simp: live_ok_def cong: option.case_cong)
    qed
  qed
  then show ?thesis using inv by (simp add: bus_inv_def)
qed

section \<open>Properties\<close>

text \<open>A write of two pages to sectors 16 to 31, and a read of them.\<close>

definition demo_write :: bio_t where
  "demo_write = \<lparr>bi_id = 1, bi_dir = WRITE_DIR, bi_preflush = False, bi_discard = False, bi_sector = 16, bi_size = 8192,
     bi_segs = [100, 101]\<rparr>"

definition demo_read :: bio_t where
  "demo_read = demo_write\<lparr>bi_id := 2, bi_dir := READ_DIR, bi_segs := [200, 201]\<rparr>"

lemma demo_bios: "rw_bio WRITE_DIR demo_write" "rw_bio READ_DIR demo_read" "fbio_mem zero_fbio"
  by (simp_all add: rw_bio_def demo_write_def demo_read_def NR_MAX_REQ_BIO_def fbio_mem_def zero_fbio_def valid_pages_def
      start_page_def NUM_LOG_PAGES_value unat_drop_bit_eq drop_bit_eq_div)

text \<open>
  C6. A read never faults: every page of it that the device holds, in the write buffer or on the flash, is delivered, the
  other pages of memory keep their contents, the device does not change, and the request is either completed
  at once, when no flash page was read, or counts exactly the flash reads issued for it.
\<close>

theorem make_request_read:
  assumes "drv_idle n d" "rw_bio READ_DIR bio" "fbios (d_io d) p = None" "fbio_mem junk"
  shows "\<exists>d' ops. make_request (Some p) junk lpas now1 now2 bio d = Some d' \<and> drv_idle n d' \<and>
    device_view (d_fb d') = device_view (d_fb d) \<and> bi_error d' = bi_error d \<and>
    (\<forall>i < length (bi_segs bio). kmem d' (bi_segs bio ! i) =
       (case device_view (d_fb d) (lpa_at (bi_sector bio) i) of Some x \<Rightarrow> x | None \<Rightarrow> kmem d (bi_segs bio ! i))) \<and>
    (\<forall>x. x \<notin> set (bi_segs bio) \<longrightarrow> kmem d' x = kmem d x) \<and>
    issued (ptr_vdevice (d_fb d')) = issued (ptr_vdevice (d_fb d)) @ ops \<and>
    read_outcome p (bi_id bio) ops (d_io d) (d_io d')"
  using read_request [OF assms, of lpas now1 now2] by (auto simp: got_def)

theorem make_request_read_witness:
  "\<exists>d'. make_request (Some 9) zero_fbio [] 10 11 demo_read (loaded (\<lambda>_. [7])) = Some d' \<and> kmem d' 200 = [7]"
proof -
  have f: "fbios (d_io (loaded (\<lambda>_. [7]))) 9 = None" by (simp add: loaded_spec)
  obtain d' where d': "make_request (Some 9) zero_fbio [] 10 11 demo_read (loaded (\<lambda>_. [7])) = Some d'"
    "\<forall>i < length (bi_segs demo_read). kmem d' (bi_segs demo_read ! i) =
       (case device_view (d_fb (loaded (\<lambda>_. [7]))) (lpa_at (bi_sector demo_read) i) of Some x \<Rightarrow> x
        | None \<Rightarrow> kmem (loaded (\<lambda>_. [7])) (bi_segs demo_read ! i))"
    using make_request_read [OF loaded_spec(1) demo_bios(2) f demo_bios(3), of "[]" 10 11] by blast
  have "kmem d' 200 = [7]" using d'(2) [rule_format, of 0] by (simp add: demo_read_def loaded_spec)
  then show ?thesis using d'(1) by blast
qed

text \<open>
  C7. A write never faults and always completes its bio: either the device then holds every page of it and is otherwise
  unchanged, or a flush of the write buffer failed; then the driver refuses everything from then on, the old contents
  of the pages not yet stored are lost where they were on the flash, and yet the bio reports no error.
\<close>

theorem make_request_write:
  assumes "drv_idle n d" "rw_bio WRITE_DIR bio" "fbios (d_io d) p = None" "fbio_mem junk" "length lpas = 4"
  defines "m \<equiv> length (bi_segs bio)" and "s \<equiv> bi_sector bio" and "src \<equiv> \<lambda>i. kmem d (bi_segs bio ! i)"
  shows "\<exists>d'. make_request (Some p) junk lpas now1 now2 bio d = Some d' \<and> dev_lock (d_fb d') = 1 \<and>
    d_io d' = (d_io d)\<lparr>endio := endio (d_io d) @ [bi_id bio]\<rparr> \<and> kmem d' = kmem d \<and>
    (drv_idle n d' \<and> bi_error d' = bi_error d \<and> device_view (d_fb d') = put_pages s src m (device_view (d_fb d)) \<or>
     fb_err (d_fb d') = 1 \<and> bi_error d' = (bi_error d)(bi_id bio := 0) \<and>
       (\<exists>k < m. device_view (d_fb d') =
          put_pages s src k (ftl_data (d_fb d) |` (- (lpa_at s ` {..<m})) ++ wb_view (fb_wbuf (d_fb d)))))"
  using write_request [OF assms(1-5), of now1 now2] unfolding m_def s_def src_def by blast

theorem make_request_write_witness:
  "\<exists>d'. make_request (Some 9) zero_fbio [0, 0, 0, 0] 10 11 demo_write (loaded (\<lambda>_. [7])) = Some d' \<and>
    endio (d_io d') = [1]"
proof -
  have f: "fbios (d_io (loaded (\<lambda>_. [7]))) 9 = None" by (simp add: loaded_spec)
  have l: "length [0, 0, 0, 0 :: u32] = 4" by simp
  obtain d' where "make_request (Some 9) zero_fbio [0, 0, 0, 0] 10 11 demo_write (loaded (\<lambda>_. [7])) = Some d'"
    "d_io d' = (d_io (loaded (\<lambda>_. [7])))\<lparr>endio := endio (d_io (loaded (\<lambda>_. [7]))) @ [bi_id demo_write]\<rparr>"
    using make_request_write [OF loaded_spec(1) demo_bios(1) f demo_bios(3) l, of 10 11] by blast
  then show ?thesis by (simp add: loaded_spec demo_write_def)
qed

text \<open>
  C5. End to end: what a write stores, the next read of the same pages delivers, page by page, unless the
  write failed.
\<close>

theorem write_then_read:
  assumes idle: "drv_idle n d" and w: "rw_bio WRITE_DIR bio" and r: "rw_bio READ_DIR bio'"
    and same: "bi_sector bio' = bi_sector bio" "length (bi_segs bio') = length (bi_segs bio)"
    and fresh: "fbios (d_io d) p = None" and junk: "fbio_mem junk" and l4: "length lpas = 4"
  shows "\<exists>d1. make_request (Some p) junk lpas t1 t2 bio d = Some d1 \<and> (fb_err (d_fb d1) = 1 \<or>
    (\<exists>d2. make_request (Some p) junk lpas t3 t4 bio' d1 = Some d2 \<and> drv_idle n d2 \<and>
       (\<forall>i < length (bi_segs bio). kmem d2 (bi_segs bio' ! i) = kmem d (bi_segs bio ! i))))"
proof -
  let ?m = "length (bi_segs bio)" and ?s = "bi_sector bio"
  obtain d1 where 1: "make_request (Some p) junk lpas t1 t2 bio d = Some d1"
    "d_io d1 = (d_io d)\<lparr>endio := endio (d_io d) @ [bi_id bio]\<rparr>"
    "drv_idle n d1 \<and> device_view (d_fb d1) = put_pages ?s (\<lambda>i. kmem d (bi_segs bio ! i)) ?m (device_view (d_fb d)) \<or>
      fb_err (d_fb d1) = 1"
    using write_request [OF idle w fresh junk l4, of t1 t2] by blast
  have "\<exists>d2. make_request (Some p) junk lpas t3 t4 bio' d1 = Some d2 \<and> drv_idle n d2 \<and>
       (\<forall>i < ?m. kmem d2 (bi_segs bio' ! i) = kmem d (bi_segs bio ! i))"
    if i1: "drv_idle n d1" and v: "device_view (d_fb d1) = put_pages ?s (\<lambda>i. kmem d (bi_segs bio ! i)) ?m (device_view (d_fb d))"
  proof -
    have f1: "fbios (d_io d1) p = None" using 1(2) fresh by simp
    obtain d2 where 2: "make_request (Some p) junk lpas t3 t4 bio' d1 = Some d2" "drv_idle n d2"
      "got (device_view (d_fb d1)) (lpa_at (bi_sector bio')) (bi_segs bio') (length (bi_segs bio')) (kmem d1) (kmem d2)"
      using read_request [OF i1 r f1 junk, of lpas t3 t4] by blast
    have "device_view (d_fb d1) (lpa_at ?s i) = Some (kmem d (bi_segs bio ! i))" if "i < ?m" for i
      unfolding v by (rule put_pages_get [OF _ that order_refl]) (use w in \<open>simp add: rw_bio_def\<close>)
    then have "kmem d2 (bi_segs bio' ! i) = kmem d (bi_segs bio ! i)" if "i < ?m" for i
      using 2(3) that same by (simp add: got_def)
    then show ?thesis using 2(1,2) by blast
  qed
  then show ?thesis using 1(1,3) by blast
qed

theorem write_then_read_witness:
  "\<exists>d1. make_request (Some 9) zero_fbio [0, 0, 0, 0] 1 2 demo_write (loaded (\<lambda>x. [of_nat x])) = Some d1 \<and> (fb_err (d_fb d1) = 1 \<or>
    (\<exists>d2. make_request (Some 9) zero_fbio [0, 0, 0, 0] 3 4 demo_read d1 = Some d2 \<and> kmem d2 201 = [101]))"
proof -
  have f: "fbios (d_io (loaded (\<lambda>x. [of_nat x]))) 9 = None" by (simp add: loaded_spec)
  have e: "bi_sector demo_read = bi_sector demo_write" "length (bi_segs demo_read) = length (bi_segs demo_write)"
    "length [0, 0, 0, 0 :: u32] = 4" by (simp_all add: demo_read_def demo_write_def)
  obtain d1 where d1: "make_request (Some 9) zero_fbio [0, 0, 0, 0] 1 2 demo_write (loaded (\<lambda>x. [of_nat x])) = Some d1"
    "fb_err (d_fb d1) = 1 \<or> (\<exists>d2. make_request (Some 9) zero_fbio [0, 0, 0, 0] 3 4 demo_read d1 = Some d2 \<and>
       (\<forall>i < length (bi_segs demo_write). kmem d2 (bi_segs demo_read ! i) = kmem (loaded (\<lambda>x. [of_nat x])) (bi_segs demo_write ! i)))"
    using write_then_read [OF loaded_spec(1) demo_bios(1,2) e(1,2) f demo_bios(3) e(3), of 1 2 3 4] by blast
  have "kmem d2 201 = [101]" if "\<forall>i < length (bi_segs demo_write).
      kmem d2 (bi_segs demo_read ! i) = kmem (loaded (\<lambda>x. [of_nat x])) (bi_segs demo_write ! i)" for d2
    using that [rule_format, of 1] by (simp add: demo_read_def demo_write_def loaded_spec)
  then show ?thesis using d1 by blast
qed

lemma align_down: "unat (x AND NOT 7 :: u64) = 8 * (unat x div 8)"
proof -
  have s: "x AND NOT 7 = of_nat (8 * start_page x)" by (rule sector_start)
  have "start_page x = unat x div 8" by (simp add: start_page_def unat_drop_bit_eq drop_bit_eq_div unat_div)
  moreover have "8 * (unat x div 8) < 2 ^ 64" using unsigned_less [of x, where ?'a = nat] by simp
  ultimately show ?thesis unfolding s by (subst of_nat_inverse [OF refl]) simp_all
qed

text \<open>The pages of a discard are the whole pages of the sector range; a page is eight sectors.\<close>

definition whole_pages :: "u64 \<Rightarrow> u32 \<Rightarrow> u32 set" where
  "whole_pages sector bytes = {lpa. unat sector \<le> 8 * unat lpa \<and> 8 * unat lpa + 8 \<le> unat sector + unat bytes div 512}"

lemma discard_whole_pages:
  fixes sector :: u64 and bytes :: u32
  assumes "unat sector + unat bytes div 512 \<le> 8 * NUM_LOG_PAGES"
  defines "s \<equiv> unat (drop_bit 3 (discard_start sector))" and "m \<equiv> unat (discard_count sector bytes)"
  shows "s + m \<le> NUM_LOG_PAGES" "lpa_range s m = whole_pages sector bytes"
proof -
  let ?a = "unat sector" and ?b = "unat sector + unat bytes div 512"
  have b: "?b \<le> 1891120" using assms(1) by (simp add: NUM_LOG_PAGES_value)
  have n: "unat (ucast (drop_bit 9 bytes) :: u64) = unat bytes div 512"
    using unsigned_less [of "drop_bit 9 bytes", where ?'a = nat] by (simp add: unsigned_ucast_eq take_bit_nat_eq_self unat_drop_bit_eq drop_bit_eq_div unat_div)
  have st: "unat (discard_start sector) = 8 * ((?a + 7) div 8)"
    unfolding discard_start_def align_down using b by (subst unat_add_lem [THEN iffD1]) simp_all
  have en: "unat (discard_end sector bytes) = 8 * (?b div 8)"
    unfolding discard_end_def align_down using b n by (subst unat_add_lem [THEN iffD1]) simp_all
  have s: "s = (?a + 7) div 8" by (simp add: s_def unat_drop_bit_eq drop_bit_eq_div unat_div st)
  have lt: "discard_start sector < discard_end sector bytes \<longleftrightarrow> (?a + 7) div 8 < ?b div 8"
    by (simp add: word_less_nat_alt st en)
  have m: "m = ?b div 8 - (?a + 7) div 8"
  proof (cases "(?a + 7) div 8 < ?b div 8")
    case True
    then have "discard_start sector \<le> discard_end sector bytes" using lt by (simp add: less_imp_le)
    then have "unat (discard_end sector bytes - discard_start sector) = 8 * (?b div 8) - 8 * ((?a + 7) div 8)"
      using st en by (simp add: unat_sub)
    then show ?thesis using True lt
      by (simp add: m_def discard_count_def Let_def unat_drop_bit_eq drop_bit_eq_div unat_div flip: diff_mult_distrib2)
  next
    case False
    then show ?thesis using lt by (simp add: m_def discard_count_def Let_def)
  qed
  show "s + m \<le> NUM_LOG_PAGES" unfolding s m using b by (simp add: NUM_LOG_PAGES_value)
  have e: "(?a + 7) div 8 \<le> t \<and> t < (?a + 7) div 8 + (?b div 8 - (?a + 7) div 8) \<longleftrightarrow> ?a \<le> 8 * t \<and> 8 * t + 8 \<le> ?b" for t :: nat
    by auto
  show "lpa_range s m = whole_pages sector bytes"
    unfolding lpa_range_def whole_pages_def s m by (auto simp only: e)
qed
lemma discard_request:
  fixes bio :: bio_t
  assumes idle: "drv_idle n d" and bio: "bi_discard bio" "\<not> bi_preflush bio" "bi_dir bio = WRITE_DIR"
    and inside: "unat (bi_sector bio) + unat (bi_size bio) div 512 \<le> 8 * NUM_LOG_PAGES"
  shows "\<exists>d'. make_request vm junk lpas now1 now2 bio d = Some d' \<and> drv_idle n d' \<and> bi_error d' = bi_error d \<and>
    d_io d' = (d_io d)\<lparr>endio := endio (d_io d) @ [bi_id bio]\<rparr> \<and> kmem d' = kmem d \<and>
    silent (ptr_vdevice (d_fb d)) (ptr_vdevice (d_fb d')) \<and>
    device_view (d_fb d') = device_view (d_fb d) |` (- whole_pages (bi_sector bio) (bi_size bio))"
proof -
  let ?o = "opened now1 d"
  have I: "drv_ok n ?o" "dev_lock (d_fb d) = 1" "fb_err (d_fb d) = 0" using idle by (simp_all add: drv_idle_def)
  have O: "ftl_ok (d_fb ?o)" "ftl_lock (d_fb ?o) = 1" "wb_ready n (d_fb ?o)" "length (discards (d_fb ?o)) = 2048" "nr_ppas (d_fb ?o) = 2048"
    using I(1) by (simp_all add: drv_ok_def)
  have wr: "bi_dir bio \<noteq> READ_DIR" using bio(3) by (simp add: WRITE_DIR_def READ_DIR_def)
  obtain fb' where f: "make_discard_request_page_mapping (d_fb ?o) (bi_sector bio) (bi_size bio) = Some (0, fb')"
    "ftl_ok fb'" "hframe (d_fb ?o) fb'" "wb_ready n fb'" "device_view fb' = device_view (d_fb ?o) |` (- whole_pages (bi_sector bio) (bi_size bio))"
    using make_discard_spec [OF O discard_whole_pages(1) [OF inside]] unfolding discard_whole_pages(2) [OF inside] by blast
  let ?d = "upd_fb ?o fb'"
  have "make_request vm junk lpas now1 now2 bio d = Some (req_finish now2 bio None ?d)"
    using make_request_open [OF I(2), of vm junk lpas now1 now2 bio] I(3) bio(1,2) f(1) by simp
  moreover have "drv_ok n ?d"
    by (rule drv_ok_keep [OF I(1)]) (use f in \<open>simp_all add: wkeep_def\<close>)
  moreover have "fb_err fb' = 0" "dev_lock fb' = 0" "silent (ptr_vdevice (d_fb d)) (ptr_vdevice fb')"
    using f(3) I(3) by (simp_all add: hframe_def)
  ultimately show ?thesis
    using req_finish_none [OF wr, where now = now2 and d = ?d] f(5) by (intro exI [of _ "req_finish now2 bio None ?d"]) (simp add: drv_idle_def)
qed

text \<open>
  C8. A discard makes the device forget exactly the pages that lie wholly inside its sector range, whether they wait in
  the write buffer or are on the flash, and completes its bio.
\<close>

theorem make_request_discard:
  fixes bio :: bio_t
  assumes idle: "drv_idle n d" and bio: "bi_discard bio" "\<not> bi_preflush bio" "bi_dir bio = WRITE_DIR"
    and inside: "unat (bi_sector bio) + unat (bi_size bio) div 512 \<le> 8 * NUM_LOG_PAGES"
  shows "\<exists>d'. make_request vm junk lpas now1 now2 bio d = Some d' \<and> drv_idle n d' \<and> bi_error d' = bi_error d \<and>
    d_io d' = (d_io d)\<lparr>endio := endio (d_io d) @ [bi_id bio]\<rparr> \<and> kmem d' = kmem d \<and>
    device_view (d_fb d') = device_view (d_fb d) |` (- whole_pages (bi_sector bio) (bi_size bio))"
  using discard_request [OF assms, of vm junk lpas now1 now2] by blast

definition demo_discard :: bio_t where
  "demo_discard = demo_write\<lparr>bi_id := 3, bi_discard := True, bi_segs := []\<rparr>"

theorem make_request_discard_witness:
  "\<exists>d'. make_request None zero_fbio [] 10 11 demo_discard (loaded (\<lambda>_. [])) = Some d' \<and> endio (d_io d') = [3] \<and>
    device_view (d_fb d') = Map.empty"
proof -
  have b: "bi_discard demo_discard" "\<not> bi_preflush demo_discard" "bi_dir demo_discard = WRITE_DIR"
    "unat (bi_sector demo_discard) + unat (bi_size demo_discard) div 512 \<le> 8 * NUM_LOG_PAGES"
    by (simp_all add: demo_discard_def demo_write_def NUM_LOG_PAGES_value)
  show ?thesis
    using make_request_discard [OF loaded_spec(1) b, of None zero_fbio "[]" 10 11 "\<lambda>_. []"]
    by (auto simp: loaded_spec demo_discard_def demo_write_def)
qed

text \<open>
  C24. Once a flush has failed, every later request is completed without being served: nothing is stored or
  read, and the bio's error field is set to 0, so the caller takes the request for done.
\<close>

theorem make_request_after_failure:
  assumes "dev_lock (d_fb d) = 1" "fb_err (d_fb d) \<noteq> 0"
  shows "\<exists>d'. make_request vm junk lpas now1 now2 bio d = Some d' \<and> fb_err (d_fb d') \<noteq> 0 \<and> dev_lock (d_fb d') = 1 \<and>
    d_io d' = (d_io d)\<lparr>endio := endio (d_io d) @ [bi_id bio]\<rparr> \<and> bi_error d' (bi_id bio) = 0 \<and>
    kmem d' = kmem d \<and> device_view (d_fb d') = device_view (d_fb d)"
  using make_request_open [OF assms(1), of vm junk lpas now1 now2 bio] assms(2) req_fail_none [of 0 bio "opened now1 d"] by simp

theorem make_request_after_failure_witness:
  "\<exists>d'. make_request (Some 9) zero_fbio [] 10 11 demo_write (upd_fb (loaded (\<lambda>_. [])) ((d_fb (loaded (\<lambda>_. [])))\<lparr>fb_err := 1\<rparr>)) = Some d' \<and>
    bi_error d' 1 = 0 \<and> device_view (d_fb d') 2 = None"
proof -
  let ?d = "upd_fb (loaded (\<lambda>_. [])) ((d_fb (loaded (\<lambda>_. [])))\<lparr>fb_err := 1\<rparr>)"
  have l: "dev_lock (d_fb ?d) = 1" using loaded_spec(1) [of "\<lambda>_. []"] by (simp add: drv_idle_def)
  have e: "fb_err (d_fb ?d) \<noteq> 0" by simp
  have v: "device_view (d_fb ?d) = Map.empty" using loaded_spec(2) [of "\<lambda>_. []"] by (simp add: device_view_def)
  obtain d' where "make_request (Some 9) zero_fbio [] 10 11 demo_write ?d = Some d'" "bi_error d' (bi_id demo_write) = 0"
    "device_view (d_fb d') = device_view (d_fb ?d)"
    using make_request_after_failure [OF l e, of "Some 9" zero_fbio "[]" 10 11 demo_write] by blast
  then show ?thesis using v by (simp add: demo_write_def)
qed

text \<open>
  C25. A write request with the preflush flag is completed without error but none of its pages is stored.
\<close>

theorem make_request_preflush:
  assumes "drv_idle n d" "bi_preflush bio" "bi_dir bio = WRITE_DIR"
  shows "\<exists>d'. make_request vm junk lpas now1 now2 bio d = Some d' \<and> drv_idle n d' \<and> bi_error d' = bi_error d \<and>
    d_io d' = (d_io d)\<lparr>endio := endio (d_io d) @ [bi_id bio]\<rparr> \<and> device_view (d_fb d') = device_view (d_fb d)"
proof -
  have I: "drv_ok n (opened now1 d)" "dev_lock (d_fb d) = 1" "fb_err (d_fb d) = 0" using assms(1) by (simp_all add: drv_idle_def)
  have wr: "bi_dir bio \<noteq> READ_DIR" using assms(3) by (simp add: WRITE_DIR_def READ_DIR_def)
  show ?thesis
    using make_request_open [OF I(2), of vm junk lpas now1 now2 bio] I assms(2) req_finish_none [OF wr, where now = now2 and d = "opened now1 d"]
    by (simp add: drv_idle_def)
qed

theorem make_request_preflush_witness:
  "\<exists>d'. make_request (Some 9) zero_fbio [] 10 11 (demo_write\<lparr>bi_preflush := True\<rparr>) (loaded (\<lambda>_. [7])) = Some d' \<and>
    endio (d_io d') = [1] \<and> bi_error d' 1 = 0 \<and> device_view (d_fb d') 2 = None"
proof -
  let ?b = "demo_write\<lparr>bi_preflush := True\<rparr>" and ?l = "loaded (\<lambda>_. [7])"
  have p: "bi_preflush ?b" "bi_dir ?b = WRITE_DIR" by (simp_all add: demo_write_def)
  obtain d' where "make_request (Some 9) zero_fbio [] 10 11 ?b ?l = Some d'" "bi_error d' = bi_error ?l"
    "d_io d' = (d_io ?l)\<lparr>endio := endio (d_io ?l) @ [bi_id ?b]\<rparr>" "device_view (d_fb d') = device_view (d_fb ?l)"
    using make_request_preflush [OF loaded_spec(1) p, of "Some 9" zero_fbio "[]" 10 11] by blast
  then show ?thesis by (simp add: loaded_spec demo_write_def)
qed

text \<open>
  When no memory is left for a request, it fails with \<open>-ENODEV\<close> and the driver goes into its error state for good:
  one failed allocation ends all service.
\<close>

theorem make_request_no_memory:
  assumes "drv_idle n d" "\<not> bi_preflush bio" "\<not> bi_discard bio"
  shows "\<exists>d'. make_request None junk lpas now1 now2 bio d = Some d' \<and> bi_error d' (bi_id bio) = -19 \<and> fb_err (d_fb d') = 1 \<and>
    d_io d' = (d_io d)\<lparr>endio := endio (d_io d) @ [bi_id bio]\<rparr> \<and> device_view (d_fb d') = device_view (d_fb d)"
proof -
  have I: "dev_lock (d_fb d) = 1" "fb_err (d_fb d) = 0" using assms(1) by (simp_all add: drv_idle_def)
  have "sint (- ENODEV) = -19" by (simp add: ENODEV_def)
  then show ?thesis
    using make_request_open [OF I(1), of None junk lpas now1 now2 bio] I(2) assms(2,3) req_fail_none [of "- ENODEV" bio "opened now1 d"]
    by (simp add: fb_build_bio_def)
qed

theorem make_request_no_memory_witness:
  "\<exists>d'. make_request None zero_fbio [] 10 11 demo_read (loaded (\<lambda>_. [7])) = Some d' \<and> bi_error d' 2 = -19"
proof -
  have p: "\<not> bi_preflush demo_read" "\<not> bi_discard demo_read" by (simp_all add: demo_read_def demo_write_def)
  show ?thesis using make_request_no_memory [OF loaded_spec(1) p, of zero_fbio "[]" 10 11 "\<lambda>_. [7]"] by (auto simp: demo_read_def)
qed

text \<open>
  A read hands over to the bus controllers exactly what they need: with the operations it issued counted as
  still to be queued, the controllers' invariant holds again, so that (by the properties of the bus
  controllers) the request is completed once, after its last flash read.
\<close>

theorem make_request_read_bus:
  assumes idle: "drv_idle n d" and bio: "rw_bio READ_DIR bio" and fresh: "fbios (d_io d) p = None" and junk: "fbio_mem junk"
    and bus: "bus_inv k pend Q (bc, d_io d)"
  shows "\<exists>d' ops. make_request (Some p) junk lpas now1 now2 bio d = Some d' \<and>
    issued (ptr_vdevice (d_fb d')) = issued (ptr_vdevice (d_fb d)) @ ops \<and> reads_of p ops \<and>
    bus_inv k (\<lambda>q. pend q + (if q = p then length ops else 0)) Q (bc, d_io d')"
proof -
  obtain d' ops where r: "make_request (Some p) junk lpas now1 now2 bio d = Some d'"
    "issued (ptr_vdevice (d_fb d')) = issued (ptr_vdevice (d_fb d)) @ ops" "read_outcome p (bi_id bio) ops (d_io d) (d_io d')"
    using read_request [OF idle bio fresh junk, of lpas now1 now2] by blast
  then show ?thesis using read_outcome_bus [OF r(3) fresh bus] by (auto simp: read_outcome_def)
qed

theorem make_request_read_bus_witness:
  "\<exists>d' ops. make_request (Some 9) zero_fbio [] 10 11 demo_read (loaded (\<lambda>_. [7])) = Some d' \<and> reads_of 9 ops \<and>
    bus_inv 16 (\<lambda>q. if q = 9 then length ops else 0) (\<lambda>_. [])
      ((create_bus_controller (\<lambda>_. (OP_READ, None)) demo_bus 16)\<lparr>flag_enable_thread := 1, num_bus := 0\<rparr>, d_io d')"
proof -
  have f: "fbios (d_io (loaded (\<lambda>_. [7]))) = Map.empty" "fbios (d_io (loaded (\<lambda>_. [7]))) 9 = None" by (simp_all add: loaded_spec)
  have b: "bus_inv 16 (\<lambda>_. 0) (\<lambda>_. [])
      ((create_bus_controller (\<lambda>_. (OP_READ, None)) demo_bus 16)\<lparr>flag_enable_thread := 1, num_bus := 0\<rparr>, d_io (loaded (\<lambda>_. [7])))"
    by (rule create_bus_controller_inv [OF _ f(1)]) simp
  obtain d' ops where "make_request (Some 9) zero_fbio [] 10 11 demo_read (loaded (\<lambda>_. [7])) = Some d'" "reads_of 9 ops"
    "bus_inv 16 (\<lambda>q. 0 + (if q = 9 then length ops else 0)) (\<lambda>_. [])
      ((create_bus_controller (\<lambda>_. (OP_READ, None)) demo_bus 16)\<lparr>flag_enable_thread := 1, num_bus := 0\<rparr>, d_io d')"
    using make_request_read_bus [OF loaded_spec(1) demo_bios(2) f(2) demo_bios(3) b, of "[]" 10 11] by blast
  then show ?thesis by (intro exI [of _ d'] exI [of _ ops]) simp
qed

section \<open>Properties of loading\<close>





text \<open>
  Every sector the disk announces lies in a logical page that the mapping table has: no request inside the capacity
  can address a page outside the table.
\<close>

theorem disk_capacity_mapped:
  assumes "get_vdev fb = create_vdevice junk" "sector < disk_sectors fb"
  shows "valid_pages sector 1 \<and> is_valid_address_range (lpa_at sector 0)"
proof -
  have "logical_capacity (get_vdev fb) = 968245248"
    by (simp add: assms(1) create_vdevice_def NUM_PAGES_def CFACTOR_PERCENT_def PHYSICAL_PAGE_SIZE_def LOGICAL_PAGE_SIZE_def
        NR_LP_IN_PP_def geometry_simps)
  then have "unat (disk_sectors fb) = 1891104" by (simp add: disk_sectors_def SECTOR_SIZE_def unat_div)
  then have l: "unat sector < 1891104" using assms(2) by (simp add: word_less_nat_alt)
  have v: "valid_pages sector 1"
    using l by (simp add: valid_pages_def start_page_def unat_drop_bit_eq drop_bit_eq_div unat_div NUM_LOG_PAGES_value)
  then show ?thesis using valid_pagesD(1) [OF v, of 0] by simp
qed

theorem disk_capacity_mapped_witness:
  "is_valid_address_range (lpa_at 1891103 0)"
proof -
  let ?fb = "zero_context\<lparr>ptr_vdevice := create_vdevice zero_vdevice\<rparr>"
  have v: "get_vdev ?fb = create_vdevice zero_vdevice" by (simp add: get_vdev_def)
  have "1891103 < disk_sectors ?fb"
    by (simp add: disk_sectors_def get_vdev_def create_vdevice_def SECTOR_SIZE_def NUM_PAGES_def CFACTOR_PERCENT_def
        PHYSICAL_PAGE_SIZE_def LOGICAL_PAGE_SIZE_def NR_LP_IN_PP_def geometry_simps word_less_nat_alt unat_div)
  from disk_capacity_mapped [OF v this] show ?thesis by simp
qed

end
