(* ===== verification/FB_Bgc_Spec.thy ===== *)
theory FB_Bgc_Spec
  imports FB_Bgc FB_Ftl_Spec
begin

text \<open>
  Background garbage collection: preparing blocks never loses data; copying a wordline per chip does not either, as
  long as every recorded victim is a full block of its chip. The victim table does not keep that promise:
  the section on stale victims shows what then happens.
\<close>

section \<open>The round robin over the chips\<close>

abbreviation mru :: "fb_context_t \<Rightarrow> u32 \<times> u32" where
  "mru fb \<equiv> (mru_bus (ftl_abm (ptr_mapping_context fb)), mru_chip (ftl_abm (ptr_mapping_context fb)))"

definition same_vics :: "fb_context_t \<Rightarrow> fb_context_t \<Rightarrow> bool" where
  "same_vics fb fb' \<longleftrightarrow> vic_blks (ftl_gcm (ptr_mapping_context fb')) = vic_blks (ftl_gcm (ptr_mapping_context fb)) \<and>
     first_valid_pg (ftl_gcm (ptr_mapping_context fb')) = first_valid_pg (ftl_gcm (ptr_mapping_context fb))"

lemma same_vics_trans [trans]: "same_vics fb fb' \<Longrightarrow> same_vics fb' fb'' \<Longrightarrow> same_vics fb fb''"
  by (simp add: same_vics_def)

lemma frame_same_vics: "frame fb fb' \<Longrightarrow> same_vics fb fb'"
  by (simp add: same_vics_def frame_def Let_def)

lemma set_prev_step:
  assumes "ftl_ok fb" "valid_chip (ucast bus) (ucast chip)"
  shows "gc_step fb (set_prev_bus_chip fb bus chip)" "same_vics fb (set_prev_bus_chip fb bus chip)"
    "same_bufs fb (set_prev_bus_chip fb bus chip)" "mru (set_prev_bus_chip fb bus chip) = (ucast bus, ucast chip)"
    "act_of (set_prev_bus_chip fb bus chip) = act_of fb" "gc_of (set_prev_bus_chip fb bus chip) = gc_of fb"
    "ptr_ssd_info (set_prev_bus_chip fb bus chip) = ptr_ssd_info fb"
    "ptr_vdevice (set_prev_bus_chip fb bus chip) = ptr_vdevice fb"
proof -
  let ?fb = "set_prev_bus_chip fb bus chip"
  have "sizes_ok ?fb"
    using ftl_invD(1) [OF assms(1)] assms(2) by (simp add: set_prev_bus_chip_def put_defs sizes_ok_def valid_chip_def)
  then have "ftl_ok ?fb"
    by (intro ftl_inv_cong [OF assms(1)]) (simp_all add: set_prev_bus_chip_def put_defs)
  moreover have "ftl_data ?fb = ftl_data fb" "gframe fb ?fb"
    by (intro ftl_data_eqI) (simp_all add: set_prev_bus_chip_def put_defs gframe_def)
  ultimately show "gc_step fb ?fb" by (simp add: gc_step_def)
qed (simp_all add: set_prev_bus_chip_def put_defs same_vics_def same_bufs_def act_of_def gc_of_def fun_eq_iff)

lemma next_of_mru:
  assumes "ftl_ok fb"
  shows "get_next_bus_chip fb = (0, if snd (mru fb) = 0 then 1 else 0)" "mru fb = (0, 0) \<or> mru fb = (0, 1)"
proof -
  have "valid_chip (fst (mru fb)) (snd (mru fb))"
    using ftl_invD(1) [OF assms] by (simp add: sizes_ok_def valid_chip_def)
  then show m: "mru fb = (0, 0) \<or> mru fb = (0, 1)" by (auto simp: valid_chip_cases)
  then show "get_next_bus_chip fb = (0, if snd (mru fb) = 0 then 1 else 0)"
    by (auto simp: get_next_bus_chip_def get_abm_def get_ftl_def geometry_simps Let_def)
qed

section \<open>Preparing blocks\<close>

lemma set_curr_gc_over: "set_curr_gc_block (put_gc fb b c x) b c y = set_curr_gc_block fb b c y"
  by (simp add: set_curr_gc_block_def put_defs st_nth_def)

lemma put_ssd_gc: "put_ssd (put_gc fb b c x) s = put_gc (put_ssd fb s) b c x"
  by (simp add: put_defs)

lemma bgc_refill:
  assumes inv: "ftl_ok (put_gc fb b c None)" and vc: "valid_chip b c"
  defines "fb1 \<equiv> put_gc fb b c None"
  shows "\<exists>fb'. (do {
       blki \<leftarrow> get_dirt_block (ptr_ssd_info fb) b c;
       fb \<leftarrow> (case blki of None \<Rightarrow> Some fb | Some q \<Rightarrow> ssd_do fb (\<lambda>s. reset_dirt_blk s q));
       set_curr_gc_block fb b c blki }) = Some fb' \<and> gc_step fb1 fb' \<and> frame fb1 fb' \<and> act_of fb' = act_of fb1 \<and>
    (\<forall>b' c'. \<not> (b' = b \<and> c' = c) \<longrightarrow> gc_of fb' b' c' = gc_of fb1 b' c') \<and>
    (\<forall>q. nr_free_pages (blk_of fb' q) = nr_free_pages (blk_of fb q))"
proof -
  have s1: "sizes_ok fb1" using ftl_invD(1) [OF inv] by (simp add: fb1_def)
  then have s: "sizes_ok fb" by (simp add: fb1_def put_defs sizes_ok_def)
  have d: "get_dirt_block (ptr_ssd_info fb) b c = Some (list_head (dirt_blks (chip_of fb b c)))"
    by (rule get_dirt_block_eq [OF vc])
  have g1: "gc_of fb1 b c = None" by (simp add: fb1_def gc_of_put_gc [OF s vc])
  show ?thesis
  proof (cases "dirt_blks (chip_of fb b c)")
    case Nil
    then show ?thesis
      using d set_curr_gc_block_None [OF s vc] inv by (auto simp: list_head_def gc_step_refl fb1_def)
  next
    case (Cons q qs)
    obtain t fb' where m: "reset_dirt_blk (ptr_ssd_info fb1) q = Some t" "set_curr_gc_block (put_ssd fb1 t) b c (Some q) = Some fb'"
      "gc_step fb1 fb'" "frame fb1 fb'" "act_of fb' = act_of fb1"
      "gc_of fb' = (\<lambda>b' c'. if b' = b \<and> c' = c then Some q else gc_of fb1 b' c')"
      "blk_of fb' = (blk_of fb1)(q := (blk_of fb1 q)\<lparr>is_reserved_block := 1\<rparr>)"
      using dirt_to_gc [OF inv [folded fb1_def] vc g1, of q qs] Cons by (auto simp: fb1_def)
    have r: "ssd_do fb (\<lambda>s. reset_dirt_blk s q) = Some (put_ssd fb t)"
      using m(1) by (simp add: ssd_do_eq fb1_def)
    have c: "set_curr_gc_block (put_ssd fb t) b c (Some q) = Some fb'"
      using m(2) by (simp add: fb1_def put_ssd_gc set_curr_gc_over)
    have "nr_free_pages (blk_of fb' x) = nr_free_pages (blk_of fb x)" for x
      unfolding m(7) by (simp add: fb1_def)
    then show ?thesis using d Cons r c m(3-6) by (simp add: list_head_def)
  qed
qed

text \<open>The GC block of a chip, erased, becomes its active block or a free block.\<close>

lemma bgc_release:
  fixes bus chip :: u8
  defines "b \<equiv> ucast bus" and "c \<equiv> ucast chip"
  assumes inv: "ftl_ok fb" and vc: "valid_chip b c" and gc: "gc_of fb b c = Some p"
  shows "\<exists>fba. (do {
       fb \<leftarrow> erase_blk fb bus chip p;
       act \<leftarrow> get_curr_active_block fb b c;
       (if act = None then set_curr_active_block fb b c (Some p) else ssd_do fb (\<lambda>s. set_free_blk s p)) }) = Some fba \<and>
    gc_step fb (put_gc fba b c None) \<and> same_vics fb fba \<and> act_of fba b c \<noteq> None \<and>
    (\<forall>b' c'. \<not> (b' = b \<and> c' = c) \<longrightarrow> act_of fba b' c' = act_of fb b' c') \<and>
    (\<forall>b' c'. gc_of (put_gc fba b c None) b' c' = (if b' = b \<and> c' = c then None else gc_of fb b' c')) \<and>
    (\<forall>q. nr_free_pages (blk_of fba q) = (if q = p then NUM_PAGES_PER_BLOCK else nr_free_pages (blk_of fb q)))"
proof -
  note D = ftl_invD [OF inv]
  note g = gc_block_valid [OF inv vc gc]
  note ids = ids_okD [OF D(2) g(1)]
  obtain v where v: "erase_blk fb bus chip p = Some (upd_perf (put_ssd (fb\<lparr>ptr_vdevice := v\<rparr>)
      (set_blk (ptr_ssd_info fb) p (freed_blk (blk_of fb p)))) perf_inc_nr_blk_erasures)"
    "\<And>q pg. q \<noteq> p \<Longrightarrow> vdata v q pg = vdata (ptr_vdevice fb) q pg"
    "\<And>pg. pg < NUM_PAGES_PER_BLOCK \<Longrightarrow> length (vdata v p pg) = NR_LP_IN_PP" "silent (ptr_vdevice fb) v"
    using erase_blk_eq [of p bus chip fb] g ids(3) by (auto simp: b_def c_def freed_blk_def)
  let ?fbe = "upd_perf (put_ssd (fb\<lparr>ptr_vdevice := v\<rparr>) (set_blk (ptr_ssd_info fb) p (freed_blk (blk_of fb p)))) perf_inc_nr_blk_erasures"
  have len1: "length (vdata v q w) = NR_LP_IN_PP" if "valid_blk q" "w < NUM_PAGES_PER_BLOCK" for q w
    using that v(2) [of q w] v(3) [of w] D(1) by (cases "q = p") (simp_all add: sizes_ok_def)
  then have se: "sizes_ok ?fbe" using D(1) by (simp add: sizes_ok_def upd_perf_def put_defs)
  have a: "get_curr_active_block ?fbe b c = Some (act_of fb b c)"
    using get_curr_active_block_eq [OF se vc] by (simp add: act_of_def upd_perf_def put_defs)
  show ?thesis
  proof (cases "act_of fb b c")
    case None
    let ?fba = "put_act (put_ssd ?fbe (set_blk (ptr_ssd_info ?fbe) p ((blk_of ?fbe p)\<lparr>is_active_block := 1\<rparr>))) b c (Some p)"
    have "put_gc ?fba b c None = put_gc (put_act (upd_perf (put_ssd (fb\<lparr>ptr_vdevice := v\<rparr>)
      (set_blk (ptr_ssd_info fb) p (opened_blk (blk_of fb p)))) perf_inc_nr_blk_erasures) b c (Some p)) b c None"
      by (simp add: put_defs upd_perf_def set_blk_def opened_blk_def freed_blk_def)
    note E = erased_state [OF inv vc None gc v(2-4), where f = perf_inc_nr_blk_erasures, folded this]
    have "set_curr_active_block ?fbe b c (Some p) = Some ?fba" by (rule set_curr_active_block_Some [OF se vc g(1)])
    moreover have "same_vics fb ?fba" by (simp add: same_vics_def put_defs upd_perf_def)
    moreover have "nr_free_pages (blk_of ?fba q) = (if q = p then NUM_PAGES_PER_BLOCK else nr_free_pages (blk_of fb q))" for q
      using fun_cong [OF E(2), of q] opened_blk_fields(5) [of "blk_of fb p"] by simp
    moreover have "act_of ?fba = (\<lambda>b' c'. if b' = b \<and> c' = c then Some p else act_of fb b' c')" using E(3) by simp
    ultimately show ?thesis
      using v(1) a None E(1,4) by (intro exI [of _ ?fba]) simp
  next
    case (Some x)
    let ?ci = "(chip_of fb b c)\<lparr>free_blks := free_blks (chip_of fb b c) @ [p], nr_free_blocks := nr_free_blocks (chip_of fb b c) + 1\<rparr>"
    let ?fba = "put_ssd ?fbe (set_chip (ptr_ssd_info ?fbe) p ?ci)"
    have "p \<notin> set (free_blks (chip_of fb b c))"
      using roles_distinct(4) [OF chip_part_roles(1) [OF D(7) [OF vc]], of p] gc by auto
    then have "set_free_blk (ptr_ssd_info ?fbe) p = Some (set_chip (ptr_ssd_info ?fbe) p ?ci)"
      using chip_list_ops(5) [OF g(1), of "ptr_ssd_info ?fbe"] ids freed_blk_fields g
      by (simp add: upd_perf_def)
    then have f: "ssd_do ?fbe (\<lambda>s. set_free_blk s p) = Some ?fba" by (simp add: ssd_do_eq)
    have "put_gc ?fba b c None = put_gc (upd_perf (put_ssd (fb\<lparr>ptr_vdevice := v\<rparr>) (set_chip (set_blk (ptr_ssd_info fb) p
      (freed_blk (blk_of fb p))) p ?ci)) perf_inc_nr_blk_erasures) b c None"
      by (simp add: put_defs upd_perf_def)
    note E = freed_state [OF inv vc gc v(2-4), where f = perf_inc_nr_blk_erasures, folded this]
    have "same_vics fb ?fba" by (simp add: same_vics_def put_defs upd_perf_def)
    moreover have "nr_free_pages (blk_of ?fba q) = (if q = p then NUM_PAGES_PER_BLOCK else nr_free_pages (blk_of fb q))" for q
      using fun_cong [OF E(2), of q] freed_blk_fields(5) [of "blk_of fb p"] by simp
    moreover have "act_of ?fba = act_of fb" using E(3) by simp
    ultimately show ?thesis
      using v(1) a Some f E(1,4) by (intro exI [of _ ?fba]) simp
  qed
qed

lemma bgc_prepare_one_spec:
  assumes inv: "ftl_ok fb"
  defines "c \<equiv> (if snd (mru fb) = 0 then 1 else 0) :: u32"
  shows "gc_of fb 0 c = None \<Longrightarrow> bgc_prepare_one i fb = Some (Some (-1), fb)"
    and "gc_of fb 0 c = Some p \<Longrightarrow> \<exists>fb'. bgc_prepare_one i fb = Some (None, fb') \<and> gc_step fb fb' \<and> same_vics fb fb' \<and>
      mru fb' = (0, c) \<and> act_of fb' 0 c \<noteq> None \<and>
      (\<forall>b' c'. \<not> (b' = 0 \<and> c' = c) \<longrightarrow> act_of fb' b' c' = act_of fb b' c' \<and> gc_of fb' b' c' = gc_of fb b' c') \<and>
      (\<forall>q. nr_free_pages (blk_of fb' q) = (if q = p then NUM_PAGES_PER_BLOCK else nr_free_pages (blk_of fb q)))"
proof -
  define chip where "chip = ((if snd (mru fb) = 0 then 1 else 0) :: u8)"
  have nx: "get_next_bus_chip fb = (0, chip)" unfolding chip_def by (rule next_of_mru(1) [OF inv])
  have u: "ucast chip = c" by (simp add: c_def chip_def)
  have vc: "valid_chip 0 c" by (auto simp: c_def valid_chip_cases)
  have gcb: "get_curr_gc_block fb 0 c = Some (gc_of fb 0 c)" by (rule get_curr_gc_block_eq [OF ftl_invD(1) [OF inv] vc])
  show "bgc_prepare_one i fb = Some (Some (-1), fb)" if "gc_of fb 0 c = None"
    using that gcb nx u by (simp add: bgc_prepare_one_def)
  assume gc: "gc_of fb 0 c = Some p"
  have vc8: "valid_chip (ucast (0 :: u8)) (ucast chip)" using vc u by simp
  obtain fba where a: "(do {
       fb \<leftarrow> erase_blk fb 0 chip p;
       act \<leftarrow> get_curr_active_block fb 0 c;
       (if act = None then set_curr_active_block fb 0 c (Some p) else ssd_do fb (\<lambda>s. set_free_blk s p)) }) = Some fba"
    "gc_step fb (put_gc fba 0 c None)" "same_vics fb fba" "act_of fba 0 c \<noteq> None"
    "\<forall>b' c'. \<not> (b' = 0 \<and> c' = c) \<longrightarrow> act_of fba b' c' = act_of fb b' c'"
    "\<forall>b' c'. gc_of (put_gc fba 0 c None) b' c' = (if b' = 0 \<and> c' = c then None else gc_of fb b' c')"
    "\<forall>q. nr_free_pages (blk_of fba q) = (if q = p then NUM_PAGES_PER_BLOCK else nr_free_pages (blk_of fb q))"
    using bgc_release [OF inv vc8, of p, unfolded u ucast_0] gc by blast
  have i1: "ftl_ok (put_gc fba 0 c None)" using a(2) by (simp add: gc_step_def)
  obtain fb2 where r: "(do {
       blki \<leftarrow> get_dirt_block (ptr_ssd_info fba) 0 c;
       fb \<leftarrow> (case blki of None \<Rightarrow> Some fba | Some q \<Rightarrow> ssd_do fba (\<lambda>s. reset_dirt_blk s q));
       set_curr_gc_block fb 0 c blki }) = Some fb2" "gc_step (put_gc fba 0 c None) fb2" "frame (put_gc fba 0 c None) fb2"
    "act_of fb2 = act_of (put_gc fba 0 c None)"
    "\<forall>b' c'. \<not> (b' = 0 \<and> c' = c) \<longrightarrow> gc_of fb2 b' c' = gc_of (put_gc fba 0 c None) b' c'"
    "\<forall>q. nr_free_pages (blk_of fb2 q) = nr_free_pages (blk_of fba q)"
    using bgc_refill [OF i1 vc] by blast
  have i2: "ftl_ok fb2" using r(2) by (simp add: gc_step_def)
  let ?fb' = "set_prev_bus_chip fb2 0 chip"
  have "valid_chip (ucast (0 :: u8)) (ucast chip)" using vc u by simp
  note P = set_prev_step [OF i2 this]
  have split: "bgc_prepare_one i fb = do {
      fb \<leftarrow> (do {
         fb \<leftarrow> erase_blk fb 0 chip p;
         act \<leftarrow> get_curr_active_block fb 0 c;
         (if act = None then set_curr_active_block fb 0 c (Some p) else ssd_do fb (\<lambda>s. set_free_blk s p)) });
      fb \<leftarrow> (do {
         blki \<leftarrow> get_dirt_block (ptr_ssd_info fb) 0 c;
         fb \<leftarrow> (case blki of None \<Rightarrow> Some fb | Some q \<Rightarrow> ssd_do fb (\<lambda>s. reset_dirt_blk s q));
         set_curr_gc_block fb 0 c blki });
      Some (None, set_prev_bus_chip fb 0 chip) }"
    using nx gc gcb u by (simp add: bgc_prepare_one_def get_ssd_inf_def bind_assoc cong: if_cong)
  have "bgc_prepare_one i fb = Some (None, ?fb')"
    by (simp only: split a(1) r(1) bind.bind_lunit)
  moreover have "gc_step fb ?fb'" by (rule gc_step_trans [OF a(2) gc_step_trans [OF r(2) P(1)]])
  moreover have "same_vics fb ?fb'"
    using a(3) frame_same_vics [OF r(3)] P(2) by (simp add: same_vics_def put_defs)
  moreover have "mru ?fb' = (0, c)" using P(4) u by simp
  ultimately show "\<exists>fb'. bgc_prepare_one i fb = Some (None, fb') \<and> gc_step fb fb' \<and> same_vics fb fb' \<and>
      mru fb' = (0, c) \<and> act_of fb' 0 c \<noteq> None \<and>
      (\<forall>b' c'. \<not> (b' = 0 \<and> c' = c) \<longrightarrow> act_of fb' b' c' = act_of fb b' c' \<and> gc_of fb' b' c' = gc_of fb b' c') \<and>
      (\<forall>q. nr_free_pages (blk_of fb' q) = (if q = p then NUM_PAGES_PER_BLOCK else nr_free_pages (blk_of fb q)))"
    using a(4-7) r(4-6) P(5-7) by (intro exI [of _ ?fb']) simp
qed

lemma bgc_prepare_spec:
  assumes inv: "ftl_ok fb"
  shows "\<exists>r fb'. fb_bgc_prepare_act_blks fb = Some (r, fb') \<and> gc_step fb fb' \<and> same_vics fb fb' \<and> (r = 0 \<or> r = -1) \<and>
    (r = 0 \<longleftrightarrow> gc_of fb 0 0 \<noteq> None \<and> gc_of fb 0 1 \<noteq> None) \<and>
    (r = 0 \<longrightarrow> act_of fb' 0 0 \<noteq> None \<and> act_of fb' 0 1 \<noteq> None \<and>
      (\<forall>c p. gc_of fb 0 c = Some p \<longrightarrow> nr_free_pages (blk_of fb' p) = NUM_PAGES_PER_BLOCK))"
proof -
  define c where "c = ((if snd (mru fb) = 0 then 1 else 0) :: u32)"
  define d where "d = ((if snd (mru fb) = 0 then 0 else 1) :: u32)"
  note one = bgc_prepare_one_spec [where i = 0, OF inv, folded c_def]
  have two: "[0..<NUM_CHIPS] = [0, 1]" by (simp add: geometry_simps upt_rec)
  have cd: "(c = 0 \<and> d = 1) \<or> (c = 1 \<and> d = 0)" "c \<noteq> d" by (auto simp: c_def d_def)
  have chips: "gc_of fb 0 0 \<noteq> None \<and> gc_of fb 0 1 \<noteq> None \<longleftrightarrow> gc_of fb 0 c \<noteq> None \<and> gc_of fb 0 d \<noteq> None"
    using cd by auto
  show ?thesis
  proof (cases "gc_of fb 0 c")
    case None
    then show ?thesis
      using one(1) inv chips by (auto simp: fb_bgc_prepare_act_blks_def two int_of_ret_def gc_step_refl same_vics_def)
  next
    case (Some p)
    obtain fb1 where 1: "bgc_prepare_one 0 fb = Some (None, fb1)" "gc_step fb fb1" "same_vics fb fb1" "mru fb1 = (0, c)"
      "act_of fb1 0 c \<noteq> None" "gc_of fb1 0 d = gc_of fb 0 d"
      "nr_free_pages (blk_of fb1 p) = NUM_PAGES_PER_BLOCK"
      using one(2) [OF Some] cd(2) by auto
    have i1: "ftl_ok fb1" using 1(2) by (simp add: gc_step_def)
    have d: "(if snd (mru fb1) = 0 then 1 else 0) = d" using 1(4) cd by auto
    note two' = bgc_prepare_one_spec [where i = 1, OF i1, unfolded d]
    show ?thesis
    proof (cases "gc_of fb 0 d")
      case None
      then have "bgc_prepare_one 1 fb1 = Some (Some (-1), fb1)" using two'(1) 1(6) by simp
      then show ?thesis
        using None 1(1-3) chips by (auto simp: fb_bgc_prepare_act_blks_def two int_of_ret_def)
    next
      case (Some q)
      obtain fb2 where 2: "bgc_prepare_one 1 fb1 = Some (None, fb2)" "gc_step fb1 fb2" "same_vics fb1 fb2"
        "act_of fb2 0 d \<noteq> None" "act_of fb2 0 c = act_of fb1 0 c"
        "\<forall>x. nr_free_pages (blk_of fb2 x) = (if x = q then NUM_PAGES_PER_BLOCK else nr_free_pages (blk_of fb1 x))"
        using two'(2) Some 1(6) cd(2) by auto
      have act: "act_of fb2 0 0 \<noteq> None \<and> act_of fb2 0 1 \<noteq> None" using 1(5) 2(4,5) cd by auto
      have "nr_free_pages (blk_of fb2 x) = NUM_PAGES_PER_BLOCK" if g: "gc_of fb 0 e = Some x" for e x
      proof -
        have "valid_chip 0 e" using g by (auto simp: gc_of_def split: if_splits)
        then have "e = c \<or> e = d" using cd by (auto simp: valid_chip_cases)
        then show ?thesis using g Some \<open>gc_of fb 0 c = Some p\<close> 1(7) 2(6) by auto
      qed
      then show ?thesis
        using act 1(1) 2(1) Some \<open>gc_of fb 0 c = Some p\<close> chips gc_step_trans [OF 1(2) 2(2)] same_vics_trans [OF 1(3) 2(3)]
        by (auto simp: fb_bgc_prepare_act_blks_def two int_of_ret_def)
    qed
  qed
qed

section \<open>Choosing victims\<close>

abbreviation first_of :: "fb_context_t \<Rightarrow> nat \<Rightarrow> u32" where
  "first_of fb k \<equiv> first_valid_pg (ftl_gcm (ptr_mapping_context fb)) ! k"

text \<open>A victim may be read at its first valid page.\<close>

definition vic_ready :: "fb_context_t \<Rightarrow> u32 \<Rightarrow> u32 \<Rightarrow> blkptr option \<Rightarrow> u32 \<Rightarrow> bool" where
  "vic_ready fb bus chip v pg \<longleftrightarrow> full_vic fb bus chip v \<and> (\<forall>p. v = Some p \<longrightarrow> pg < NUM_PAGES_PER_BLOCK \<and>
     pg_nr_invalid_log_pages (list_pages (blk_of fb p) pg) < NR_LP_IN_PP)"

definition put_vic :: "fb_context_t \<Rightarrow> nat \<Rightarrow> blkptr option \<Rightarrow> u32 \<Rightarrow> fb_context_t" where
  "put_vic fb k v pg = upd_gcm fb (\<lambda>g. g\<lparr>vic_blks := (vic_blks g)[k := v], first_valid_pg := (first_valid_pg g)[k := pg]\<rparr>)"

lemma put_vic_frame: "vic_frame fb (put_vic fb k v pg)"
  unfolding vic_frame_def put_vic_def
  by (rule exI [of _ "(vic_blks (ftl_gcm (ptr_mapping_context fb)))[k := v]"],
      rule exI [of _ "(first_valid_pg (ftl_gcm (ptr_mapping_context fb)))[k := pg]"], rule exI [of _ "nr_copy fb"]) (simp add: put_defs)

lemma put_vic_fields:
  assumes "sizes_ok fb" "valid_chip bus chip" "k = chip_idx bus chip"
  shows "vic_of (put_vic fb k v pg) k = v" "first_of (put_vic fb k v pg) k = pg" "nr_copy (put_vic fb k v pg) = nr_copy fb"
    "j \<noteq> k \<Longrightarrow> vic_of (put_vic fb k v pg) j = vic_of fb j" "j \<noteq> k \<Longrightarrow> first_of (put_vic fb k v pg) j = first_of fb j"
  using assms(1) chip_idx_less [OF assms(2)] by (simp_all add: put_vic_def put_defs sizes_ok_def assms(3))

lemma used_block_first_valid:
  assumes inv: "ftl_ok fb" and vc: "valid_chip bus chip" and p: "p \<in> set (used_blks (chip_of fb bus chip))"
  shows "\<exists>pg. find_first_valid_pg (ptr_ssd_info fb) p 0 = Some pg \<and> vic_ready fb bus chip (Some p) pg"
proof -
  note D = ftl_invD [OF inv]
  have "p \<in> set (roles (chip_of fb bus chip) (act_of fb bus chip) (gc_of fb bus chip))" using p by (simp add: roles_def)
  then have vp: "valid_blk p" "blk_bus p = bus" "blk_chip p = chip"
    using chip_part_roles(2) [OF D(7) [OF vc] vc] by auto
  have u: "nr_free_pages (blk_of fb p) = 0" "\<not> all_dead (blk_of fb p)" using D(8) [OF vc] p by (auto simp: roles_ok_def)
  then obtain q where q: "q < NUM_PAGES_PER_BLOCK" "q \<notin> dead_pages (blk_of fb p)"
    by (auto simp: all_dead_def dead_pages_def)
  let ?n = "\<lambda>w. pg_nr_invalid_log_pages (list_pages (blk_of fb p) w)"
  have "?n q \<noteq> NR_LP_IN_PP" using page_full_count [OF D(4) [OF vp(1)] q(1)] q(2) by simp
  moreover have "?n q \<le> NR_LP_IN_PP"
    unfolding blk_wfD(3) [OF D(4) [OF vp(1)] q(1)] using card_page_invalid_le [of "blk_of fb p" q]
    by (simp add: word_le_nat_alt unat_of_nat_u32 NR_LP_IN_PP_def)
  ultimately have nq: "?n q < NR_LP_IN_PP" by simp
  obtain pg where pg: "find_first_valid_pg (ptr_ssd_info fb) p 0 = Some pg" "pg \<le> NUM_PAGES_PER_BLOCK"
    "pg < NUM_PAGES_PER_BLOCK \<longrightarrow> ?n pg < NR_LP_IN_PP" "\<forall>w. w < pg \<longrightarrow> NR_LP_IN_PP \<le> ?n w"
    using find_first_valid_pg_spec [OF vp(1), of "ptr_ssd_info fb" 0] by auto
  have "pg \<noteq> NUM_PAGES_PER_BLOCK" using pg(4) q(1) nq by (auto simp: not_less [symmetric])
  then have "pg < NUM_PAGES_PER_BLOCK" using pg(2) by simp
  then show ?thesis using pg(1,3) vp u(1) by (auto simp: vic_ready_def full_vic_def)
qed

lemma bgc_new_vic_spec:
  fixes bus chip :: u8
  defines "b \<equiv> ucast bus" and "c \<equiv> ucast chip"
  assumes inv: "ftl_ok fb" and vc: "valid_chip b c"
  shows "bgc_new_vic bus chip fb = Some (Some (-1), fb) \<or>
    (\<exists>p pg. bgc_new_vic bus chip fb = Some (None, put_vic fb (chip_idx b c) (Some p) pg) \<and> vic_ready fb b c (Some p) pg)"
proof -
  note D = ftl_invD [OF inv]
  let ?u = "used_blks (chip_of fb b c)" and ?k = "chip_idx b c"
  have vb: "\<forall>p \<in> set ?u. valid_blk p"
    using chip_part_roles(2) [OF D(7) [OF vc] vc] by (auto simp: roles_def)
  obtain v n where r: "most_invalid (ptr_ssd_info fb) ?u (None, 0) = Some (v, n)" "n = 0 \<longrightarrow> v = None"
    "0 < n \<longrightarrow> (\<exists>p \<in> set ?u. v = Some p)"
    using most_invalid_spec [OF vb, of "ptr_ssd_info fb" None 0] by auto
  have s: "select_vic_blk_from_used (ptr_ssd_info fb) b c = Some v"
    using r(1) vc by (simp add: select_vic_blk_from_used_def st_valid)
  show ?thesis
  proof (cases v)
    case None
    then show ?thesis using s by (simp add: bgc_new_vic_def get_ssd_inf_def b_def c_def)
  next
    case (Some p)
    then have "0 < n" using r(2) by (auto simp: word_gt_0)
    then have "p \<in> set ?u" using r(3) Some by auto
    then obtain pg where pg: "find_first_valid_pg (ptr_ssd_info fb) p 0 = Some pg" "vic_ready fb b c (Some p) pg"
      using used_block_first_valid [OF inv vc] by blast
    let ?fb1 = "upd_gcm fb (\<lambda>g. g\<lparr>vic_blks := (vic_blks g)[?k := Some p]\<rparr>)"
    have s1: "sizes_ok ?fb1" using D(1) by (simp add: sizes_ok_def put_defs)
    have "set_first_valid_pg ?fb1 b c pg = Some (put_vic fb ?k (Some p) pg)"
      unfolding set_vic_blk_eq(2) [OF s1 vc] by (simp add: put_vic_def put_defs)
    moreover have "find_first_valid_pg (get_ssd_inf ?fb1) p 0 = Some pg" using pg(1) by (simp add: put_defs)
    ultimately have "bgc_new_vic bus chip fb = Some (None, put_vic fb ?k (Some p) pg)"
      using s Some set_vic_blk_eq(1) [OF D(1) vc] by (simp add: bgc_new_vic_def b_def c_def get_ssd_inf_def)
    then show ?thesis using pg(2) by blast
  qed
qed

lemma bgc_set_vic_spec:
  fixes bus chip :: u8
  defines "b \<equiv> ucast bus" and "c \<equiv> ucast chip" and "k \<equiv> chip_idx (ucast bus) (ucast chip)"
  assumes inv: "ftl_ok fb" and vc: "valid_chip b c" and full: "full_vic fb b c (vic_of fb k)"
    and first: "vic_of fb k \<noteq> None \<Longrightarrow> first_of fb k \<le> NUM_PAGES_PER_BLOCK"
  shows "\<exists>r v pg. bgc_set_vic_blk bus chip fb = Some (r, put_vic fb k v pg) \<and> (r = None \<or> r = Some (-1)) \<and>
    (r = None \<longrightarrow> vic_ready fb b c v pg)"
proof -
  note D = ftl_invD [OF inv]
  have k: "k = chip_idx b c" "k < length (vic_blks (ftl_gcm (ptr_mapping_context fb)))"
    "k < length (first_valid_pg (ftl_gcm (ptr_mapping_context fb)))"
    using D(1) chip_idx_less [OF vc] by (simp_all add: k_def b_def c_def sizes_ok_def)
  have get: "get_nr_dirt_blks_in_chip (get_ssd_inf fb) (get_chip_info b c) = Some (nr_dirt_blks (chip_of fb b c))"
    "get_nr_free_blks_in_chip (get_ssd_inf fb) (get_chip_info b c) = Some (nr_free_blocks (chip_of fb b c))"
    using vc by (simp_all add: get_nr_dirt_blks_in_chip_def get_nr_free_blks_in_chip_def get_chip_info_def get_ssd_inf_def st_valid)
  have vic: "get_vic_blk fb b c = Some (vic_of fb k)" "get_first_valid_pg fb b c = Some (first_of fb k)"
    using k by (simp_all add: get_vic_blk_def get_first_valid_pg_def ld_nth_def get_gcm_def get_ftl_def)
  have set1: "set_first_valid_pg fb b c pg = Some (put_vic fb k (vic_of fb k) pg)" for pg
    using set_vic_blk_eq(2) [OF D(1) vc] k by (simp add: put_vic_def put_defs)
  have set2: "do { fb \<leftarrow> set_vic_blk fb b c None; set_first_valid_pg fb b c pg } = Some (put_vic fb k None pg)" for pg
  proof -
    have "sizes_ok (upd_gcm fb (\<lambda>g. g\<lparr>vic_blks := (vic_blks g)[k := None]\<rparr>))" using D(1) by (simp add: sizes_ok_def put_defs)
    from set_vic_blk_eq(2) [OF this vc] show ?thesis
      using set_vic_blk_eq(1) [OF D(1) vc] k(1) by (simp add: put_vic_def put_defs)
  qed
  have put_none: "set_vic_blk (put_vic fb k v pg) b c None = Some (put_vic fb k None pg)" for v pg
  proof -
    have "sizes_ok (put_vic fb k v pg)" using D(1) by (simp add: sizes_ok_def put_vic_def put_defs)
    from set_vic_blk_eq(1) [OF this vc] show ?thesis using k(1) by (simp add: put_vic_def put_defs)
  qed
  have new: "\<exists>r v pg. bgc_new_vic bus chip x = Some (r, put_vic fb k v pg) \<and> (r = None \<or> r = Some (-1)) \<and>
      (r = None \<longrightarrow> vic_ready fb b c v pg)" if x: "x = put_vic fb k v0 pg0" for x v0 pg0
  proof -
    have fr: "vic_frame fb x" unfolding x by (rule put_vic_frame)
    have i: "ftl_ok x" by (rule vic_frame_fields(1) [OF fr inv])
    have over: "put_vic x k v pg = put_vic fb k v pg" for v pg by (simp add: x put_vic_def put_defs)
    have rd: "vic_ready x b c v pg = vic_ready fb b c v pg" for v pg
      using full_vic_frame [OF fr] vic_frame_fields(4) [OF fr] by (simp add: vic_ready_def)
    from bgc_new_vic_spec [OF i vc [unfolded b_def c_def]] show ?thesis
    proof (elim disjE exE conjE)
      assume "bgc_new_vic bus chip x = Some (Some (-1), x)"
      then show ?thesis using x by blast
    next
      fix p pg
      assume "bgc_new_vic bus chip x = Some (None, put_vic x (chip_idx (ucast bus) (ucast chip)) (Some p) pg)"
        "vic_ready x (ucast bus) (ucast chip) (Some p) pg"
      then have "bgc_new_vic bus chip x = Some (None, put_vic fb k (Some p) pg)" "vic_ready fb b c (Some p) pg"
        using over rd k(1) by (simp_all add: b_def c_def)
      then show ?thesis by blast
    qed
  qed
  show ?thesis
  proof (cases "nr_dirt_blks (chip_of fb b c) + nr_free_blocks (chip_of fb b c) < BGC_TH_NR_BLKS")
    case False
    then have "bgc_set_vic_blk bus chip fb = Some (None, put_vic fb k None 0)"
      using get set2 [of 0] by (auto simp: bgc_set_vic_blk_def b_def c_def bind_eq_Some_conv)
    moreover have "vic_ready fb b c None 0" by (simp add: vic_ready_def)
    ultimately show ?thesis by blast
  next
    case True
    show ?thesis
    proof (cases "vic_of fb k")
      case None
      have "fb = put_vic fb k None (first_of fb k)" using None k(2,3) by (simp add: put_vic_def put_defs flip: None)
      moreover have "bgc_set_vic_blk bus chip fb = bgc_new_vic bus chip fb"
        using True get vic(1) None by (simp add: bgc_set_vic_blk_def b_def c_def)
      ultimately show ?thesis using new by metis
    next
      case (Some p)
      have vp: "valid_blk p" using full Some by (simp add: full_vic_def)
      obtain pg where pg: "find_first_valid_pg (ptr_ssd_info fb) p (first_of fb k) = Some pg" "pg \<le> NUM_PAGES_PER_BLOCK"
        "pg < NUM_PAGES_PER_BLOCK \<longrightarrow> pg_nr_invalid_log_pages (list_pages (blk_of fb p) pg) < NR_LP_IN_PP"
        using find_first_valid_pg_spec [OF vp, of "ptr_ssd_info fb" "first_of fb k"] first Some by auto
      have eq: "bgc_set_vic_blk bus chip fb = (if pg = NUM_PAGES_PER_BLOCK then bgc_new_vic bus chip (put_vic fb k None pg)
          else Some (None, put_vic fb k (Some p) pg))"
        using True get vic Some pg(1) set1 [of pg] put_none [of "Some p" pg]
        by (cases "pg = NUM_PAGES_PER_BLOCK") (simp_all add: bgc_set_vic_blk_def b_def c_def get_ssd_inf_def)
      show ?thesis
      proof (cases "pg = NUM_PAGES_PER_BLOCK")
        case True
        then show ?thesis using eq new [OF refl] by simp
      next
        case False
        then have "vic_ready fb b c (Some p) pg" using pg full Some by (simp add: vic_ready_def order_less_le)
        then show ?thesis using eq False by auto
      qed
    qed
  qed
qed

definition vics_ok :: "fb_context_t \<Rightarrow> bool" where
  "vics_ok fb \<longleftrightarrow> vics_full fb \<and> (\<forall>k < 2. vic_of fb k \<noteq> None \<longrightarrow> first_of fb k \<le> NUM_PAGES_PER_BLOCK)"

definition vics_ready :: "fb_context_t \<Rightarrow> bool" where
  "vics_ready fb \<longleftrightarrow> vic_ready fb 0 0 (vic_of fb 0) (first_of fb 0) \<and> vic_ready fb 0 1 (vic_of fb 1) (first_of fb 1)"

lemma bgc_set_vic_blks_spec:
  assumes inv: "ftl_ok fb" and vics: "vics_ok fb"
  shows "\<exists>r fb'. fb_bgc_set_vic_blks fb = Some (r, fb') \<and> vic_frame fb fb' \<and> nr_copy fb' = nr_copy fb \<and> mru fb' = mru fb \<and>
    (r = 0 \<or> r = -1) \<and> (r = 0 \<longrightarrow> vics_ready fb')"
proof -
  note D = ftl_invD [OF inv]
  have v0: "full_vic fb 0 0 (vic_of fb 0)" "vic_of fb 0 \<noteq> None \<Longrightarrow> first_of fb 0 \<le> NUM_PAGES_PER_BLOCK"
    and v1: "full_vic fb 0 1 (vic_of fb 1)" "vic_of fb 1 \<noteq> None \<Longrightarrow> first_of fb 1 \<le> NUM_PAGES_PER_BLOCK"
    using vics by (simp_all add: vics_ok_def vics_full_def)
  obtain r1 w1 g1 where 1: "bgc_set_vic_blk 0 0 fb = Some (r1, put_vic fb 0 w1 g1)" "r1 = None \<or> r1 = Some (-1)"
    "r1 = None \<longrightarrow> vic_ready fb 0 0 w1 g1"
    using bgc_set_vic_spec [OF inv, of 0 0] v0 by auto
  let ?fb1 = "put_vic fb 0 w1 g1"
  note f1 = put_vic_frame [of fb 0 w1 g1]
  have p1: "vic_of ?fb1 0 = w1" "first_of ?fb1 0 = g1" "vic_of ?fb1 1 = vic_of fb 1" "first_of ?fb1 1 = first_of fb 1"
    "nr_copy ?fb1 = nr_copy fb"
    using put_vic_fields [OF D(1) chips01(1), of 0] by simp_all
  have full1: "full_vic ?fb1 = full_vic fb" by (rule full_vic_frame [OF f1])
  have i1: "ftl_ok ?fb1" by (rule vic_frame_fields(1) [OF f1 inv])
  obtain r2 w2 g2 where 2: "bgc_set_vic_blk 0 1 ?fb1 = Some (r2, put_vic ?fb1 1 w2 g2)" "r2 = None \<or> r2 = Some (-1)"
    "r2 = None \<longrightarrow> vic_ready ?fb1 0 1 w2 g2"
    using bgc_set_vic_spec [OF i1, of 0 1] v1 p1(3,4) full1 by auto
  let ?fb2 = "put_vic ?fb1 1 w2 g2"
  have f2: "vic_frame fb ?fb2" by (rule vic_frame_trans [OF f1 put_vic_frame])
  have p2: "vic_of ?fb2 0 = w1" "first_of ?fb2 0 = g1" "vic_of ?fb2 1 = w2" "first_of ?fb2 1 = g2" "nr_copy ?fb2 = nr_copy fb"
    using put_vic_fields [OF ftl_invD(1) [OF i1] chips01(2), of 1] p1 by simp_all
  have m: "mru ?fb1 = mru fb" "mru ?fb2 = mru fb" by (simp_all add: put_vic_def put_defs)
  have eq: "fb_bgc_set_vic_blks fb = Some (case r1 of Some e \<Rightarrow> (e, ?fb1) | None \<Rightarrow> (int_of_ret r2, ?fb2))"
    using 1(1) 2(1) by (cases r1; cases r2) (simp_all add: fb_bgc_set_vic_blks_def words_below_CHIPS int_of_ret_def)
  have "vics_ready ?fb2" if "r1 = None" "r2 = None"
  proof -
    have "vic_ready ?fb2 b c v pg = vic_ready fb b c v pg" "vic_ready ?fb1 b c v pg = vic_ready fb b c v pg" for b c v pg
      using full_vic_frame [OF f2] vic_frame_fields(4) [OF f2] full1 vic_frame_fields(4) [OF f1] by (simp_all add: vic_ready_def)
    then show ?thesis using that 1(3) 2(3) unfolding vics_ready_def p2 by simp
  qed
  then show ?thesis
    using eq 1(2) 2(2) f1 f2 p1(5) p2(5) m by (cases r1; cases r2) (auto simp: int_of_ret_def)
qed

section \<open>Copying one wordline per chip\<close>

text \<open>The invariant of the loop over the chips: the pages copied so far, and their count.\<close>

definition bgc_reading :: "fb_context_t \<Rightarrow> (u32 \<times> lpdata) list \<Rightarrow> read_st \<times> fb_context_t \<Rightarrow> bool" where
  "bgc_reading fb0 L st \<longleftrightarrow> (case st of (l, fb) \<Rightarrow> gc_step fb0 fb \<and> same_vics fb0 fb \<and>
     ptr_ssd_info fb = ptr_ssd_info fb0 \<and> copied L (l, fb) \<and> nr_copy fb = of_nat (length L) \<and>
     (\<forall>x \<in> set L. is_valid_address_range (fst x) \<and> ftl_data fb0 (fst x) = Some (snd x)))"

lemma reads_only_step: "reads_only fb fb' \<Longrightarrow> ftl_ok fb \<Longrightarrow> gc_step fb fb'"
  using reads_only_inv [of fb fb'] by (simp add: gc_step_def reads_only_def Let_def)

lemma bgc_read_none:
  assumes inv: "ftl_ok fb"
  defines "c \<equiv> (if snd (mru fb) = 0 then 1 else 0) :: u32"
  assumes none: "vic_of fb (chip_idx 0 c) = None"
  shows "\<exists>fb'. bgc_read_one i (l, fb) = Some (None, l, fb') \<and> gc_step fb fb' \<and> same_vics fb fb' \<and> same_bufs fb fb' \<and>
    mru fb' = (0, c) \<and> act_of fb' = act_of fb \<and> ptr_ssd_info fb' = ptr_ssd_info fb"
proof -
  define chip where "chip = ((if snd (mru fb) = 0 then 1 else 0) :: u8)"
  have nx: "get_next_bus_chip fb = (0, chip)" unfolding chip_def by (rule next_of_mru(1) [OF inv])
  have u: "ucast chip = c" by (simp add: c_def chip_def)
  have vc: "valid_chip 0 c" by (auto simp: c_def valid_chip_cases)
  have vc8: "valid_chip (ucast (0 :: u8)) (ucast chip)" using vc u by simp
  have "get_vic_blk fb 0 c = Some None"
    using ftl_invD(1) [OF inv] chip_idx_less [OF vc] none
    by (simp add: get_vic_blk_def ld_nth_def get_gcm_def get_ftl_def sizes_ok_def)
  then have "bgc_read_one i (l, fb) = Some (None, l, set_prev_bus_chip fb 0 chip)"
    using nx u by (simp add: bgc_read_one_def)
  then show ?thesis using set_prev_step [OF inv vc8] u by auto
qed

text \<open>
  Reading a victim: \<open>m\<close>, what its invalid count leaves of the wordline, is added to the count of pages, while the buffers get
  the valid slots.
\<close>

lemma bgc_read_some:
  assumes inv: "ftl_ok fb"
  defines "c \<equiv> (if snd (mru fb) = 0 then 1 else 0) :: u32"
  defines "pg \<equiv> first_of fb (chip_idx 0 c)"
  assumes vic: "vic_of fb (chip_idx 0 c) = Some p" and p: "valid_blk p" "blk_bus p = 0" "blk_chip p = c" "pg < NUM_PAGES_PER_BLOCK"
    and m: "m = NR_LP_IN_PP - pg_nr_invalid_log_pages (list_pages (blk_of fb p) pg)" "m \<noteq> 0"
    and so: "copied L (l, fb)" and room: "length L + 4 \<le> 1536"
  shows "\<exists>l' fb'. bgc_read_one i (l, fb) = Some (None, l'\<lparr>rd_data := rd_data l + page_span m\<rparr>, fb') \<and>
    gc_step fb fb' \<and> same_vics fb fb' \<and> mru fb' = (0, c) \<and> act_of fb' = act_of fb \<and> ptr_ssd_info fb' = ptr_ssd_info fb \<and>
    nr_copy fb' = nr_copy fb + m \<and>
    copied (L @ slot_pairs fb p pg) (l'\<lparr>rd_data := rd_data l + length (valid_slots (blk_of fb p) pg)\<rparr>, fb') \<and>
    (valid_slots (blk_of fb p) pg = [] \<longrightarrow> cp_lpas fb' = cp_lpas fb \<and> cp_data fb' = cp_data fb)"
proof -
  define chip where "chip = ((if snd (mru fb) = 0 then 1 else 0) :: u8)"
  have nx: "get_next_bus_chip fb = (0, chip)" unfolding chip_def by (rule next_of_mru(1) [OF inv])
  have u: "ucast chip = c" by (simp add: c_def chip_def)
  have vc: "valid_chip 0 c" by (auto simp: c_def valid_chip_cases)
  have vc8: "valid_chip (ucast (0 :: u8)) (ucast chip)" using vc u by simp
  have get: "get_vic_blk fb 0 c = Some (Some p)" "get_first_valid_pg fb 0 c = Some pg"
    using ftl_invD(1) [OF inv] chip_idx_less [OF vc] vic
    by (simp_all add: get_vic_blk_def get_first_valid_pg_def ld_nth_def get_gcm_def get_ftl_def sizes_ok_def pg_def)
  note n = invalid_count_at [OF p(1,4), of fb]
  let ?fb1 = "upd_gcm fb (\<lambda>g. g\<lparr>nr_pgs_to_copy := nr_pgs_to_copy g + m\<rparr>)"
  have f1: "vic_frame fb ?fb1"
    unfolding vic_frame_def
    by (rule exI [of _ "vic_blks (ftl_gcm (ptr_mapping_context fb))"],
        rule exI [of _ "first_valid_pg (ftl_gcm (ptr_mapping_context fb))"], rule exI [of _ "nr_copy fb + m"]) (simp add: put_defs)
  note F = vic_frame_fields [OF f1]
  have i1: "ftl_ok ?fb1" by (rule F(1) [OF inv])
  have s1: "gc_step fb ?fb1" using i1 F(2,3) by (simp add: gc_step_def)
  have c1: "copied L (l, ?fb1)" using so by (simp add: copied_def put_defs)
  have e1: "blk_of ?fb1 = blk_of fb" "slot_pairs ?fb1 p pg = slot_pairs fb p pg" "cp_lpas ?fb1 = cp_lpas fb" "cp_data ?fb1 = cp_data fb"
    by (simp_all add: put_defs slot_pairs_def)
  obtain l' fb2 fb3 where r: "collect_lpas (get_pgi_from_blki p pg) (l, ?fb1) = Some (l', fb2)"
    "gc_vdevice_read 0 chip p pg (l', upd_perf fb2 perf_inc_nr_page_reads) = Some (l', fb3)" "reads_only ?fb1 fb3"
    "rd_data l' = rd_data l" "copied (L @ slot_pairs fb p pg) (l'\<lparr>rd_data := rd_data l + length (valid_slots (blk_of fb p) pg)\<rparr>, fb3)"
    "valid_slots (blk_of fb p) pg = [] \<longrightarrow> cp_lpas fb3 = cp_lpas fb \<and> cp_data fb3 = cp_data fb"
    using copy_wordline [OF i1 p(1) _ _ p(4) c1 room, of 0 chip] p(2,3) u unfolding e1 by auto
  have s3: "gc_step fb fb3" by (rule gc_step_trans [OF s1 reads_only_step [OF r(3) i1]])
  have i3: "ftl_ok fb3" using s3 by (simp add: gc_step_def)
  have o3: "ptr_ssd_info fb3 = ptr_ssd_info fb" "same_vics fb fb3" "nr_copy fb3 = nr_copy fb + m" "act_of fb3 = act_of fb"
    using r(3) by (simp_all add: reads_only_def Let_def put_defs same_vics_def act_of_def fun_eq_iff)
  note P = set_prev_step [OF i3 vc8]
  have "bgc_read_one i (l, fb) = Some (None, l'\<lparr>rd_data := rd_data l + page_span m\<rparr>, set_prev_bus_chip fb3 0 chip)"
    using nx get u n m(2) r(1,2,4) by (simp add: bgc_read_one_def m(1) Let_def)
  moreover have "copied (L @ slot_pairs fb p pg) (l'\<lparr>rd_data := rd_data l + length (valid_slots (blk_of fb p) pg)\<rparr>, set_prev_bus_chip fb3 0 chip)"
    using r(5) P(3) by (simp add: copied_def same_bufs_def)
  ultimately show ?thesis
    using gc_step_trans [OF s3 P(1)] same_vics_trans [OF o3(2) P(2)] P(3-7) o3 r(6) u
    by (intro exI [of _ l'] exI [of _ "set_prev_bus_chip fb3 0 chip"]) (simp add: same_bufs_def)
qed

lemma bgc_read_one_spec:
  assumes I: "bgc_reading fb0 L (l, fb)" and room: "length L + 4 \<le> 1536" and ready: "vics_ready fb0"
  defines "c \<equiv> (if snd (mru fb) = 0 then 1 else 0) :: u32"
  shows "\<exists>L' l' fb'. bgc_read_one i (l, fb) = Some (None, l', fb') \<and> bgc_reading fb0 L' (l', fb') \<and>
    mru fb' = (0, c) \<and> length L' \<le> length L + 4"
proof -
  have st: "gc_step fb0 fb" "same_vics fb0 fb" "ptr_ssd_info fb = ptr_ssd_info fb0" "copied L (l, fb)"
    "nr_copy fb = of_nat (length L)" "\<forall>x \<in> set L. is_valid_address_range (fst x) \<and> ftl_data fb0 (fst x) = Some (snd x)"
    using I by (simp_all add: bgc_reading_def)
  have inv: "ftl_ok fb" and d: "ftl_data fb = ftl_data fb0" using st(1) by (simp_all add: gc_step_def)
  let ?k = "chip_idx 0 c" and ?pg = "first_of fb (chip_idx 0 c)"
  have "valid_chip 0 c" by (auto simp: c_def valid_chip_cases)
  then have r0: "vic_ready fb 0 c (vic_of fb ?k) ?pg"
    using ready st(2,3) by (auto simp: vics_ready_def vic_ready_def full_vic_def same_vics_def valid_chip_cases)
  show ?thesis
  proof (cases "vic_of fb ?k")
    case None
    obtain fb' where r: "bgc_read_one i (l, fb) = Some (None, l, fb')" "gc_step fb fb'" "same_vics fb fb'" "same_bufs fb fb'"
      "mru fb' = (0, c)" "ptr_ssd_info fb' = ptr_ssd_info fb"
      using bgc_read_none [OF inv, folded c_def, OF None] by blast
    have "bgc_reading fb0 L (l, fb')"
      using st r(4,6) gc_step_trans [OF st(1) r(2)] same_vics_trans [OF st(2) r(3)]
      by (simp add: bgc_reading_def same_bufs_def copied_def)
    then show ?thesis using r(1,5) by auto
  next
    case (Some p)
    let ?b = "blk_of fb p"
    have p: "valid_blk p" "blk_bus p = 0" "blk_chip p = c" "?pg < NUM_PAGES_PER_BLOCK" "nr_free_pages ?b = 0"
      "pg_nr_invalid_log_pages (list_pages ?b ?pg) < NR_LP_IN_PP"
      using r0 Some by (auto simp: vic_ready_def full_vic_def)
    let ?m = "length (valid_slots ?b ?pg)"
    note cnt = valid_slots_count [OF ftl_invD(4) [OF inv p(1)] p(5,4)]
    have "of_nat ?m \<noteq> (0 :: u32)" using p(6) unfolding cnt(1) [symmetric] by auto
    then obtain l' fb' where r: "bgc_read_one i (l, fb) = Some (None, l'\<lparr>rd_data := rd_data l + page_span (of_nat ?m)\<rparr>, fb')"
      "gc_step fb fb'" "same_vics fb fb'" "mru fb' = (0, c)" "ptr_ssd_info fb' = ptr_ssd_info fb" "nr_copy fb' = nr_copy fb + of_nat ?m"
      "copied (L @ slot_pairs fb p ?pg) (l'\<lparr>rd_data := rd_data l + ?m\<rparr>, fb')"
      using bgc_read_some [OF inv, folded c_def, OF Some p(1-4) cnt(1) [symmetric] _ st(4) room, of i] by blast
    have "\<forall>x \<in> set (L @ slot_pairs fb p ?pg). is_valid_address_range (fst x) \<and> ftl_data fb0 (fst x) = Some (snd x)"
      using st(6) slot_pairs_data [OF inv p(1,4)] unfolding d by auto
    then have "bgc_reading fb0 (L @ slot_pairs fb p ?pg) (l'\<lparr>rd_data := rd_data l + ?m\<rparr>, fb')"
      using r(5-7) st(3,5) gc_step_trans [OF st(1) r(2)] same_vics_trans [OF st(2) r(3)]
      by (simp add: bgc_reading_def slot_pairs_def)
    then show ?thesis using r(1) [unfolded page_span_small [OF cnt(2)]] r(4) cnt(2) by (intro exI conjI) (auto simp: slot_pairs_def)
  qed
qed

lemma bgc_read_spec:
  assumes inv: "ftl_ok fb" and ready: "vics_ready fb" and z: "nr_copy fb = 0"
  shows "\<exists>N fb'. fb_bgc_read_valid_pgs fb = Some (0, fb') \<and> gc_step fb fb' \<and> nr_copy fb' = of_nat N \<and> N \<le> 8 \<and>
    copies N (ftl_data fb) fb'"
proof -
  have two: "[0..<NUM_CHIPS] = [0, 1]" by (simp add: geometry_simps upt_rec)
  have I0: "bgc_reading fb [] (read_start, fb)"
    using z inv by (simp add: bgc_reading_def gc_step_refl same_vics_def copied_def read_start_def NR_LP_IN_PP_def)
  obtain L1 l1 fb1 where 1: "bgc_read_one 0 (read_start, fb) = Some (None, l1, fb1)" "bgc_reading fb L1 (l1, fb1)"
    "length L1 \<le> 4" using bgc_read_one_spec [OF I0 _ ready, of 0] by auto
  obtain L2 l2 fb2 where 2: "bgc_read_one 1 (l1, fb1) = Some (None, l2, fb2)" "bgc_reading fb L2 (l2, fb2)"
    "length L2 \<le> 8" using bgc_read_one_spec [OF 1(2) _ ready, of 1] 1(3) by fastforce
  have "fb_bgc_read_valid_pgs fb = Some (0, fb2)"
    using 1(1) 2(1) by (simp add: fb_bgc_read_valid_pgs_def two int_of_ret_def)
  moreover have "gc_step fb fb2" "nr_copy fb2 = of_nat (length L2)" using 2(2) by (simp_all add: bgc_reading_def)
  moreover have "copies (length L2) (ftl_data fb) fb2"
    by (rule copied_copies [of _ l2]) (use 2(2,3) in \<open>auto simp: bgc_reading_def\<close>)
  ultimately show ?thesis using 2(3) by blast
qed

lemma prev_of_mru:
  assumes "ftl_ok fb" "get_prev_bus_chip fb = (bus, chip)"
  shows "ucast bus = fst (mru fb)" "ucast chip = snd (mru fb)" "valid_chip (ucast bus) (ucast chip)"
  using next_of_mru(2) [OF assms(1)] assms(2)
  by (auto simp: get_prev_bus_chip_def get_abm_def get_ftl_def Let_def valid_chip_cases)

lemma init_gcm_step:
  assumes "ftl_ok fb"
  shows "gc_step fb (init_gcm fb)" "same_vics fb (init_gcm fb)" "nr_copy (init_gcm fb) = 0" "mru (init_gcm fb) = mru fb"
    "ptr_ssd_info (init_gcm fb) = ptr_ssd_info fb"
proof -
  have "ftl_ok (init_gcm fb)"
    by (rule ftl_inv_cong [OF assms]) (use ftl_invD(1) [OF assms] in \<open>simp_all add: init_gcm_def put_defs sizes_ok_def\<close>)
  moreover have "ftl_data (init_gcm fb) = ftl_data fb" by (intro ftl_data_eqI) (simp_all add: init_gcm_def put_defs)
  ultimately show "gc_step fb (init_gcm fb)" by (simp add: gc_step_def gframe_def init_gcm_def put_defs)
qed (simp_all add: init_gcm_def put_defs same_vics_def)

lemma perf_step: "ftl_ok fb \<Longrightarrow> gc_step fb (upd_perf fb f)"
  using ftl_invD(1) [of "\<lambda>_. 0" "{}" fb]
  by (auto simp: gc_step_def upd_perf_def gframe_def sizes_ok_def intro!: ftl_inv_cong [of _ _ fb] ftl_data_eqI)

text \<open>The steps of one call after the lock is taken, and the call itself.\<close>

definition bg_gc_body :: "fb_context_t \<Rightarrow> (int \<times> fb_context_t) option" where
  "bg_gc_body fb = (let (bus, chip) = get_prev_bus_chip fb in do {
     act \<leftarrow> get_curr_active_block fb (ucast bus) (ucast chip);
     if act = None then do {
       (ret, fb) \<leftarrow> fb_bgc_prepare_act_blks fb;
       if ret \<noteq> 0 then Some (-1, fb) else Some (0, upd_perf fb perf_inc_nr_gc_trigger_bg) }
     else do {
       (ret, fb) \<leftarrow> fb_bgc_set_vic_blks (init_gcm fb);
       if ret \<noteq> 0 then Some (-1, fb) else do {
       (ret, fb) \<leftarrow> fb_bgc_read_valid_pgs fb;
       if ret \<noteq> 0 then Some (-1, fb)
       else if nr_pgs_to_copy (get_gcm (get_ftl fb)) = 0 then Some (0, fb)
       else do {
         (ret, fb) \<leftarrow> prog_valid_pgs_to_gc_blks (upd_perf fb perf_inc_nr_gc_trigger_bg);
         if ret \<noteq> 0 then Some (-1, fb) else do {
         (ret, fb) \<leftarrow> update_gc_blks fb;
         if ret \<noteq> 0 then Some (-1, fb) else Some (0, fb) }}}}})"

lemma bind_if: "Option.bind (if P then x else y) f = (if P then Option.bind x f else Option.bind y f)"
  by simp

lemma trigger_bg_gc_body:
  "trigger_bg_gc fb = do { fb \<leftarrow> lock_ftl fb; (r, fb) \<leftarrow> bg_gc_body fb; Some (r, unlock_ftl fb) }"
  by (simp add: trigger_bg_gc_def bg_gc_body_def Let_def bind_assoc bind_if case_prod_unfold cong: if_cong)

lemma bg_gc_body_spec:
  assumes inv: "ftl_ok fb" and vics: "act_of fb (fst (mru fb)) (snd (mru fb)) \<noteq> None \<Longrightarrow> vics_ok fb"
  shows "\<exists>r fb'. bg_gc_body fb = Some (r, fb') \<and> (r = 0 \<or> r = -1) \<and> gc_step fb fb'"
proof -
  obtain bus chip where bc: "get_prev_bus_chip fb = (bus, chip)" by (cases "get_prev_bus_chip fb")
  note m = prev_of_mru [OF inv bc]
  have act: "get_curr_active_block fb (ucast bus) (ucast chip) = Some (act_of fb (fst (mru fb)) (snd (mru fb)))"
    using get_curr_active_block_eq [OF ftl_invD(1) [OF inv] m(3)] m(1,2) by simp
  show ?thesis
  proof (cases "act_of fb (fst (mru fb)) (snd (mru fb))")
    case None
    obtain r1 fb1 where 1: "fb_bgc_prepare_act_blks fb = Some (r1, fb1)" "gc_step fb fb1" "r1 = 0 \<or> r1 = -1"
      using bgc_prepare_spec [OF inv] by blast
    have "gc_step fb1 (upd_perf fb1 perf_inc_nr_gc_trigger_bg)" using 1(2) by (intro perf_step) (simp add: gc_step_def)
    note s1 = gc_step_trans [OF 1(2) this]
    have "bg_gc_body fb = Some (if r1 \<noteq> 0 then (-1, fb1) else (0, upd_perf fb1 perf_inc_nr_gc_trigger_bg))"
      using act None 1(1) bc by (simp add: bg_gc_body_def)
    then show ?thesis using 1(2) s1 by auto
  next
    case (Some a)
    note S0 = init_gcm_step [OF inv]
    let ?fb0 = "init_gcm fb"
    have i0: "ftl_ok ?fb0" using S0(1) by (simp add: gc_step_def)
    have "vics_ok ?fb0"
      using vics Some S0(2,5) by (simp add: vics_ok_def vics_full_def full_vic_def same_vics_def)
    then obtain r1 fb1 where 1: "fb_bgc_set_vic_blks ?fb0 = Some (r1, fb1)" "vic_frame ?fb0 fb1" "nr_copy fb1 = 0"
      "r1 = 0 \<or> r1 = -1" "r1 = 0 \<longrightarrow> vics_ready fb1"
      using bgc_set_vic_blks_spec [OF i0] S0(3) by auto
    have "gc_step ?fb0 fb1" using vic_frame_fields(1-3) [OF 1(2)] i0 by (simp add: gc_step_def)
    note s1 = gc_step_trans [OF S0(1) this]
    have i1: "ftl_ok fb1" using s1 by (simp add: gc_step_def)
    show ?thesis
    proof (cases "r1 = 0")
      case False
      then have "bg_gc_body fb = Some (-1, fb1)" using act Some 1(1) bc by (simp add: bg_gc_body_def)
      then show ?thesis using s1 by blast
    next
      case True
      obtain N fb2 where 2: "fb_bgc_read_valid_pgs fb1 = Some (0, fb2)" "gc_step fb1 fb2" "nr_copy fb2 = of_nat N" "N \<le> 8"
        "copies N (ftl_data fb1) fb2"
        using bgc_read_spec [OF i1 _ 1(3)] 1(5) True by blast
      note s2 = gc_step_trans [OF s1 2(2)]
      have i2: "ftl_ok fb2" using s2 by (simp add: gc_step_def)
      show ?thesis
      proof (cases "nr_copy fb2 = 0")
        case z: True
        then have "bg_gc_body fb = Some (0, fb2)"
          using act Some 1(1) True 2(1) bc by (simp add: bg_gc_body_def get_gcm_def get_ftl_def)
        then show ?thesis using s2 by blast
      next
        case nz: False
        let ?fb3 = "upd_perf fb2 perf_inc_nr_gc_trigger_bg"
        note p3 = perf_step [OF i2, of perf_inc_nr_gc_trigger_bg]
        have i3: "ftl_ok ?fb3" and d3: "ftl_data ?fb3 = ftl_data fb1" using p3 2(2) by (simp_all add: gc_step_def)
        have c3: "copies N (ftl_data ?fb3) ?fb3" using 2(5) unfolding d3 by (simp add: copies_def upd_perf_def)
        have n3: "sint (nr_copy ?fb3) = int N" using 2(3,4) by (simp add: upd_perf_def sint_of_nat_u32)
        obtain r4 fb4 where 4: "prog_loop (int N - int 0) 0 0 ?fb3 = Some (r4, fb4)" "r4 = 0 \<or> r4 = -1"
          "ftl_ok fb4" "ftl_data fb4 = ftl_data ?fb3" "gframe ?fb3 fb4"
          using prog_loop_spec [OF i3 c3, of 0] by auto
        then have p4: "prog_valid_pgs_to_gc_blks ?fb3 = Some (r4, fb4)"
          by (simp add: prog_valid_pgs_to_gc_blks_def get_gcm_def get_ftl_def n3)
        have "gc_step ?fb3 fb4" using 4 by (simp add: gc_step_def)
        note s4 = gc_step_trans [OF gc_step_trans [OF s2 p3] this]
        obtain r5 fb5 where 5: "update_gc_blks fb4 = Some (r5, fb5)" "gc_step fb4 fb5" "r5 = 0 \<or> r5 = -1"
          using update_gc_blks_spec [OF 4(3)] by auto
        have "bg_gc_body fb = Some (if r4 \<noteq> 0 then (-1, fb4) else if r5 \<noteq> 0 then (-1, fb5) else (0, fb5))"
          using act Some 1(1) True 2(1) nz p4 5(1) bc by (simp add: bg_gc_body_def get_gcm_def get_ftl_def)
        then show ?thesis using s4 gc_step_trans [OF s4 5(2)] by auto
      qed
    qed
  qed
qed

lemma relock_same_vics: "same_vics fb (relock k fb)"
  by (simp add: same_vics_def relock_def put_defs)

lemma trigger_bg_gc_spec:
  assumes inv: "ftl_ok fb" and lock: "ftl_lock fb = 1" and vics: "act_of fb (fst (mru fb)) (snd (mru fb)) \<noteq> None \<Longrightarrow> vics_ok fb"
  shows "\<exists>r fb'. trigger_bg_gc fb = Some (r, fb') \<and> (r = 0 \<or> r = -1) \<and> gc_step fb fb'"
proof -
  let ?fb = "relock 0 fb"
  have m: "mru ?fb = mru fb" by (simp add: relock_def put_defs)
  have v: "vics_ok ?fb" if "act_of ?fb (fst (mru ?fb)) (snd (mru ?fb)) \<noteq> None"
    using that vics relock_same_vics [of fb 0] unfolding m
    by (simp add: vics_ok_def vics_full_def full_vic_def same_vics_def)
  obtain r fb' where b: "bg_gc_body ?fb = Some (r, fb')" "r = 0 \<or> r = -1" "gc_step ?fb fb'"
    using bg_gc_body_spec [OF _ v] inv by auto
  have g: "gframe ?fb fb'" using b(3) by (simp add: gc_step_def)
  note l = relock_gframe [OF g] 
  have "unlock_ftl fb' = relock (Suc 0) fb'" using lock_ops(2) l(1) lock by simp
  then have "trigger_bg_gc fb = Some (r, relock (Suc 0) fb')"
    using lock_ops(1) [of fb] lock b(1) by (simp add: trigger_bg_gc_body)
  moreover have "gc_step fb (relock (Suc 0) fb')" using b(3) l(2) lock by (simp add: gc_step_def)
  ultimately show ?thesis using b(2) by blast
qed

section \<open>Stale victims\<close>

text \<open>
  \<open>fb_bgc_prepare_act_blks\<close> erases GC blocks without looking at the victim table, and a victim that was collected may have
  become the GC block of its chip. The entry then names an erased block, whose wordlines have no invalid slot: four
  pages are counted for each of them but none is put into the copy buffers.
\<close>

lemma blank_wordline:
  assumes "blk_wf 0 b" "nr_free_pages b = NUM_PAGES_PER_BLOCK" "pg < NUM_PAGES_PER_BLOCK"
  shows "valid_slots b pg = []" "pg_nr_invalid_log_pages (list_pages b pg) = 0"
proof -
  have f: "bst b pg i = PAGE_STATUS_FREE" if "i < NR_LP_IN_PP" for i using blank_no_valid [OF assms that] .
  then show "valid_slots b pg = []" by (auto simp: valid_in_def filter_empty_conv)
  have "page_invalid_slots b pg = {}" using f by (auto simp: page_invalid_slots_def)
  then show "pg_nr_invalid_log_pages (list_pages b pg) = 0" by (simp add: blk_wfD(3) [OF assms(1,3)])
qed

lemma bgc_read_erased:
  assumes inv: "ftl_ok fb"
  defines "c \<equiv> (if snd (mru fb) = 0 then 1 else 0) :: u32"
  assumes vic: "vic_of fb (chip_idx 0 c) = Some p" and p: "valid_blk p" "blk_bus p = 0" "blk_chip p = c"
    and pg: "first_of fb (chip_idx 0 c) < NUM_PAGES_PER_BLOCK" and free: "nr_free_pages (blk_of fb p) = NUM_PAGES_PER_BLOCK"
  shows "\<exists>l' fb'. bgc_read_one i (read_start, fb) = Some (None, l', fb') \<and> gc_step fb fb' \<and> same_vics fb fb' \<and>
    mru fb' = (0, c) \<and> act_of fb' = act_of fb \<and> nr_copy fb' = nr_copy fb + 4 \<and> cp_lpas fb' = cp_lpas fb \<and> cp_data fb' = cp_data fb"
proof -
  note b = blank_wordline [OF ftl_invD(4) [OF inv p(1)] free pg]
  have m: "4 = NR_LP_IN_PP - pg_nr_invalid_log_pages (list_pages (blk_of fb p) (first_of fb (chip_idx 0 c)))" "(4 :: u32) \<noteq> 0"
    by (simp_all add: b(2) NR_LP_IN_PP_def)
  have so: "copied [] (read_start, fb)" by (simp add: copied_def read_start_def NR_LP_IN_PP_def)
  show ?thesis
    using bgc_read_some [OF inv, folded c_def, OF vic p pg m so, of i] b(1) by auto
qed

lemma bgc_read_stale:
  assumes inv: "ftl_ok fb" and z: "nr_copy fb = 0" and cd: "c = 0 \<and> d = 1 \<or> c = 1 \<and> d = 0"
    and vic: "vic_of fb (chip_idx 0 c) = Some p" "vic_of fb (chip_idx 0 d) = None"
    and p: "valid_blk p" "blk_bus p = 0" "blk_chip p = c"
    and pg: "first_of fb (chip_idx 0 c) < NUM_PAGES_PER_BLOCK" and free: "nr_free_pages (blk_of fb p) = NUM_PAGES_PER_BLOCK"
  shows "\<exists>fb'. fb_bgc_read_valid_pgs fb = Some (0, fb') \<and> gc_step fb fb' \<and> nr_copy fb' = 4 \<and>
    act_of fb' = act_of fb \<and> cp_lpas fb' = cp_lpas fb \<and> cp_data fb' = cp_data fb"
proof -
  have two: "[0..<NUM_CHIPS] = [0, 1]" by (simp add: geometry_simps upt_rec)
  consider "(if snd (mru fb) = 0 then 1 else 0) = c" | "(if snd (mru fb) = 0 then 1 else 0) = d"
    using cd next_of_mru(2) [OF inv] by auto
  then show ?thesis
  proof cases
    case 1
    obtain l1 fb1 where r1: "bgc_read_one 0 (read_start, fb) = Some (None, l1, fb1)" "gc_step fb fb1" "same_vics fb fb1"
      "mru fb1 = (0, c)" "act_of fb1 = act_of fb" "nr_copy fb1 = nr_copy fb + 4" "cp_lpas fb1 = cp_lpas fb" "cp_data fb1 = cp_data fb"
      using bgc_read_erased [OF inv, unfolded 1, OF vic(1) p pg free, of 0] by blast
    have i1: "ftl_ok fb1" using r1(2) by (simp add: gc_step_def)
    have n: "(if snd (mru fb1) = 0 then 1 else 0) = d" using r1(4) cd by auto
    have "vic_of fb1 (chip_idx 0 d) = None" using r1(3) vic(2) by (simp add: same_vics_def)
    then obtain fb2 where r2: "bgc_read_one 1 (l1, fb1) = Some (None, l1, fb2)" "gc_step fb1 fb2" "same_bufs fb1 fb2"
      "act_of fb2 = act_of fb1"
      using bgc_read_none [OF i1, unfolded n, of 1 l1] by blast
    show ?thesis
      using r1 r2 z gc_step_trans [OF r1(2) r2(2)]
      by (intro exI [of _ fb2]) (simp add: fb_bgc_read_valid_pgs_def two int_of_ret_def same_bufs_def)
  next
    case 2
    obtain fb1 where r1: "bgc_read_one 0 (read_start, fb) = Some (None, read_start, fb1)" "gc_step fb fb1" "same_vics fb fb1"
      "same_bufs fb fb1" "mru fb1 = (0, d)" "act_of fb1 = act_of fb" "ptr_ssd_info fb1 = ptr_ssd_info fb"
      using bgc_read_none [OF inv, unfolded 2, OF vic(2), of 0 read_start] by blast
    have i1: "ftl_ok fb1" using r1(2) by (simp add: gc_step_def)
    have n: "(if snd (mru fb1) = 0 then 1 else 0) = c" using r1(5) cd by auto
    have v1: "vic_of fb1 (chip_idx 0 c) = Some p" "first_of fb1 (chip_idx 0 c) < NUM_PAGES_PER_BLOCK"
      "nr_free_pages (blk_of fb1 p) = NUM_PAGES_PER_BLOCK"
      using r1(3,7) vic(1) pg free by (simp_all add: same_vics_def)
    obtain l2 fb2 where r2: "bgc_read_one 1 (read_start, fb1) = Some (None, l2, fb2)" "gc_step fb1 fb2" "act_of fb2 = act_of fb1"
      "nr_copy fb2 = nr_copy fb1 + 4" "cp_lpas fb2 = cp_lpas fb1" "cp_data fb2 = cp_data fb1"
      using bgc_read_erased [OF i1, unfolded n, OF v1(1) p v1(2,3), of 1] by blast
    show ?thesis
      using r1 r2 z gc_step_trans [OF r1(2) r2(2)]
      by (intro exI [of _ fb2]) (simp add: fb_bgc_read_valid_pgs_def two int_of_ret_def same_bufs_def)
  qed
qed

text \<open>What is then written is whatever an earlier collection left in the buffers.\<close>

lemma prog_stale:
  assumes inv: "ftl_ok fb" and n: "nr_copy fb = 4" and act: "act_of fb 0 0 \<noteq> None" "act_of fb 0 1 \<noteq> None"
    and lpa: "\<And>j. j < 4 \<Longrightarrow> is_valid_address_range (cp_lpas fb ! j)"
  shows "\<exists>fb'. prog_valid_pgs_to_gc_blks fb = Some (0, fb') \<and> ftl_ok fb' \<and>
    ftl_data fb' = wordline_store ((!) (cp_lpas fb)) ((!) (cp_data fb)) (ftl_data fb)"
proof -
  note D = ftl_invD [OF inv]
  obtain bus chip where bc: "get_next_bus_chip fb = (bus, chip)" by (cases "get_next_bus_chip fb")
  note nb = next_bus_chip [OF D(1) bc]
  have a: "act_of fb (ucast bus) (ucast chip) \<noteq> None" using nb(1,2) act by auto
  then obtain p where p: "alloc_new_page fb bus chip = Some (0, Some (blk_no p, of_nat (frontier (blk_of fb p))), fb)"
    "act_of fb (ucast bus) (ucast chip) = Some p"
    using alloc_new_page_spec [OF inv nb(3)] by auto
  let ?fb1 = "upd_perf fb perf_inc_nr_wordline_prog_bg"
  have i1: "ftl_ok ?fb1" and d1: "ftl_data ?fb1 = ftl_data fb" using perf_step [OF inv] by (simp_all add: gc_step_def)
  have e: "act_of ?fb1 (ucast bus) (ucast chip) = Some p" "blk_of ?fb1 = blk_of fb" "ptr_vdevice ?fb1 = ptr_vdevice fb"
    "cp_lpas ?fb1 = cp_lpas fb" "cp_data ?fb1 = cp_data fb"
    using p(2) by (simp_all add: upd_perf_def) (auto simp: act_of_def split: if_splits)
  note len = sizes_lens [OF D(1)]
  have un: "cp_lpas fb ! 0 \<noteq> PAGE_UNMAPPED" using lpa [of 0] by (auto simp: is_valid_address_range_def PAGE_UNMAPPED_def NUM_LOG_PAGES_value)
  obtain v fb2 fb4 where w:
    "vdevice_write (ptr_vdevice fb) bus chip (blk_no p) (of_nat (frontier (blk_of fb p))) (cp_data fb) 0 None = Some v"
    "map_logical_to_physical (?fb1\<lparr>ptr_vdevice := v\<rparr>) (cp_lpas fb) 0 (ucast bus) (ucast chip) (blk_no p)
      (of_nat (frontier (blk_of fb p))) = Some (0, fb2)"
    "update_act_blk (set_prev_bus_chip fb2 bus chip) bus chip = Some fb4" "ftl_ok fb4"
    "ftl_data fb4 = wordline_store ((!) (cp_lpas fb)) ((!) (cp_data fb)) (ftl_data fb)"
    using write_wordline_spec [OF i1 e(1), of 0 "cp_data fb" 0 "cp_lpas fb" 0] len lpa un d1 e by auto
  have c2: "cp_lpas (?fb1\<lparr>ptr_vdevice := v\<rparr>) = cp_lpas fb" by (simp add: upd_perf_def)
  have "prog_one_wordline 4 0 0 fb = Some (0, fb4)"
    using bc p(1) w(1-3) e c2
    by (simp add: prog_one_wordline_def pad_lpas_def NR_LP_IN_PP_def get_gcm_def get_ftl_def get_vdev_def Let_def)
  then have "prog_loop 4 0 0 fb = Some (0, fb4)"
    by (subst prog_loop.simps, simp, subst prog_loop.simps, simp add: NR_LP_IN_PP_def)
  moreover have "sint (nr_copy fb) = 4" using sint_of_nat_u32 [of 4] n by simp
  ultimately show ?thesis using w(4,5) by (simp add: prog_valid_pgs_to_gc_blks_def get_gcm_def get_ftl_def)
qed

end
