(* ===== verification/FB_Collect.thy ===== *)
theory FB_Collect
  imports FB_Driver FB_Bgc_Spec
begin

text \<open>
  The properties of the FTL beneath the request function: writing a wordline, draining the write buffer, foreground
  and background garbage collection, and the thread that starts the latter, each shown to apply to a loaded module.
\<close>

section \<open>The loaded FTL\<close>

abbreviation loaded_fb :: fb_context_t where
  "loaded_fb \<equiv> d_fb (loaded (\<lambda>_. []))"

text \<open>The loaded FTL with another victim table and other copy buffers.\<close>

definition with_buffers :: "blkptr option list \<Rightarrow> u32 list \<Rightarrow> lpdata list \<Rightarrow> fb_context_t" where
  "with_buffers vics ls ds = upd_gcm loaded_fb (\<lambda>g. g\<lparr>vic_blks := vics, lpas_to_copy := ls, data_to_copy := ds, nr_pgs_to_copy := 0\<rparr>)"

lemma loaded_fb_spec:
  "ftl_ok loaded_fb" "ftl_lock loaded_fb = 1" "wb_ready 8 loaded_fb" "device_view loaded_fb = Map.empty"
  "ftl_data loaded_fb = Map.empty" "wb_view (fb_wbuf loaded_fb) = Map.empty"
  "vic_blks (ftl_gcm (ptr_mapping_context loaded_fb)) = [None, None]"
  "first_valid_pg (ftl_gcm (ptr_mapping_context loaded_fb)) = [0, 0]"
proof -
  show "ftl_ok loaded_fb" "ftl_lock loaded_fb = 1" "wb_ready 8 loaded_fb"
    using loaded_spec(1) [of "\<lambda>_. []"] by (simp_all add: drv_idle_def drv_ok_def)
  show v: "device_view loaded_fb = Map.empty" by (rule loaded_spec(2))
  then show "ftl_data loaded_fb = Map.empty" "wb_view (fb_wbuf loaded_fb) = Map.empty"
    by (simp_all add: device_view_def)
  show "vic_blks (ftl_gcm (ptr_mapping_context loaded_fb)) = [None, None]"
    "first_valid_pg (ftl_gcm (ptr_mapping_context loaded_fb)) = [0, 0]"
    using loaded_spec(9) [of "\<lambda>_. []"]
    by (simp_all add: junk_buffers_def zero_mapping_def NUM_CHIPS_def geometry_simps numeral_2_eq_2)
qed

lemma with_buffers_spec:
  assumes "length vics = 2" "length ls = 1536" "1536 \<le> length ds"
  shows "ftl_ok (with_buffers vics ls ds)" "ftl_data (with_buffers vics ls ds) = Map.empty"
    "vic_of (with_buffers vics ls ds) k = vics ! k" "cp_lpas (with_buffers vics ls ds) = ls" "cp_data (with_buffers vics ls ds) = ds"
    "ftl_lock (with_buffers vics ls ds) = 1" "act_of (with_buffers vics ls ds) = act_of loaded_fb"
    "gc_of (with_buffers vics ls ds) = gc_of loaded_fb" "blk_of (with_buffers vics ls ds) = blk_of loaded_fb"
    "first_valid_pg (ftl_gcm (ptr_mapping_context (with_buffers vics ls ds))) = [0, 0]" "nr_copy (with_buffers vics ls ds) = 0"
proof -
  have "sizes_ok (with_buffers vics ls ds)"
    using ftl_invD(1) [OF loaded_fb_spec(1)] assms
    by (simp add: with_buffers_def put_defs sizes_ok_def geometry_simps NUM_CHIPS_def NR_LP_IN_PP_def)
  then show "ftl_ok (with_buffers vics ls ds)"
    by (intro ftl_inv_cong [OF loaded_fb_spec(1)]) (simp_all add: with_buffers_def put_defs)
  have "ftl_data (with_buffers vics ls ds) = ftl_data loaded_fb"
    by (rule ftl_data_eqI) (simp_all add: with_buffers_def put_defs)
  then show "ftl_data (with_buffers vics ls ds) = Map.empty" by (simp add: loaded_fb_spec(5))
qed (simp_all add: with_buffers_def put_defs act_of_def gc_of_def fun_eq_iff loaded_fb_spec(2,8))

section \<open>Writing\<close>

text \<open>A chip that can take a wordline without garbage collection.\<close>

definition has_room :: "fb_context_t \<Rightarrow> u32 \<Rightarrow> bool" where
  "has_room fb c \<longleftrightarrow> (gc_of fb 0 c \<noteq> None \<and> act_of fb 0 c \<noteq> None) \<or> free_blks (chip_of fb 0 c) \<noteq> []"

lemma make_write_room:
  assumes inv: "ftl_ok fb" and lock: "ftl_lock fb = 1" and room: "has_room fb (if snd (mru fb) = 0 then 1 else 0)"
    and src: "4 \<le> length src" and len: "4 \<le> length lpas"
    and lpa: "\<And>j. j < 4 \<Longrightarrow> lpas ! j = PAGE_UNMAPPED \<or> is_valid_address_range (lpas ! j)"
    and some: "j0 < 4" "lpas ! j0 \<noteq> PAGE_UNMAPPED"
  shows "\<exists>fb'. make_write_request_page_mapping fb lpas src = Some (0, fb')"
proof -
  let ?fb = "relock 0 fb" and ?chip = "(if snd (mru fb) = 0 then 1 else 0) :: u8"
  have i0: "ftl_ok ?fb" using inv by simp
  have m: "mru ?fb = mru fb" by (simp add: relock_def put_defs)
  have nx: "get_next_bus_chip ?fb = (0, ?chip)" using next_of_mru(1) [OF i0] unfolding m .
  note nb = next_bus_chip [OF ftl_invD(1) [OF i0] nx]
  have u: "ucast ?chip = ((if snd (mru fb) = 0 then 1 else 0) :: u32)" by simp
  have need: "is_fgc_needed ?fb 0 ?chip = Some False"
    using is_fgc_needed_eq [OF i0 nb(1,2)] room unfolding u by (auto simp: has_room_def)
  have "alloc_new_page ?fb 0 ?chip \<noteq> Some (-1, None, ?fb)"
    using alloc_new_page_spec [OF i0 nb(3)] room unfolding u by (auto simp: has_room_def)
  then obtain page fb1 fb' where w: "alloc_new_page ?fb 0 ?chip = Some (0, Some page, fb1)"
    "write_allocated fb1 lpas src 0 ?chip page = Some (0, relock (Suc 0) fb')"
    using alloc_write_spec [OF i0 nb(3) _ src len lpa some] by auto
  have "lock_ftl fb = Some ?fb" using lock lock_ops(1) by simp
  then show ?thesis using nx need w by (simp add: make_write_request_page_mapping_def)
qed

lemma wordline_write_spec:
  assumes inv: "ftl_ok fb" and lock: "ftl_lock fb = 1" and len: "length lpas = 4" "length src = 4" "distinct lpas"
    and valid: "\<forall>lpa \<in> set lpas. is_valid_address_range lpa"
  shows "\<exists>r fb'. make_write_request_page_mapping fb lpas src = Some (r, fb') \<and> ftl_ok fb' \<and> ftl_lock fb' = 1 \<and>
    fb_wbuf fb' = fb_wbuf fb \<and> (has_room fb (if snd (mru fb) = 0 then 1 else 0) \<longrightarrow> r = 0) \<and>
    (r = 0 \<and> (\<forall>j < 4. ftl_data fb' (lpas ! j) = Some (src ! j)) \<and> (\<forall>lpa. lpa \<notin> set lpas \<longrightarrow> ftl_data fb' lpa = ftl_data fb lpa) \<or>
     r = -1 \<and> ftl_data fb' = ftl_data fb)"
proof -
  have v: "is_valid_address_range (lpas ! j)" if "j < 4" for j using valid len(1) that by simp
  have m: "lpas ! j \<noteq> PAGE_UNMAPPED" if "j < 4" for j
    using v [OF that] by (auto simp: is_valid_address_range_def PAGE_UNMAPPED_def NUM_LOG_PAGES_value)
  have l4: "4 \<le> length src" "4 \<le> length lpas" using len by simp_all
  have vm: "\<And>j. j < 4 \<Longrightarrow> lpas ! j = PAGE_UNMAPPED \<or> is_valid_address_range (lpas ! j)" using v by blast
  note spec = make_write_spec [OF inv lock l4 vm, of 0] make_write_room [OF inv lock _ l4 vm, of 0]
  obtain r fb' where w: "make_write_request_page_mapping fb lpas src = Some (r, fb')" "written lpas src fb (r, fb')"
    using spec(1) m by fastforce
  have inj: "inj_on ((!) lpas) {..<4}" using len by (auto simp: inj_on_def nth_eq_iff_index_eq)
  have im: "(!) lpas ` {..<4} = set lpas" using len(1) by (auto simp: set_conv_nth)
  have "r = 0" if "has_room fb (if snd (mru fb) = 0 then 1 else 0)" using spec(2) [OF that] m w(1) by auto
  moreover have "(\<forall>j < 4. ftl_data fb' (lpas ! j) = Some (src ! j)) \<and> (\<forall>lpa. lpa \<notin> set lpas \<longrightarrow> ftl_data fb' lpa = ftl_data fb lpa)"
    if "r = 0" using w(2) that wordline_store_apply [OF inj m] by (auto simp: written_def im)
  ultimately show ?thesis using w lock by (auto simp: written_def gframe_def)
qed

lemma demo_line:
  "length [4, 5, 6, 7 :: u32] = 4" "length [[1], [2], [3], [4 :: u8]] = 4" "distinct [4, 5, 6, 7 :: u32]"
  "\<forall>lpa \<in> set [4, 5, 6, 7]. is_valid_address_range lpa"
  by (simp_all add: is_valid_address_range_def NUM_LOG_PAGES_value)

lemma loaded_room: "has_room loaded_fb (if snd (mru loaded_fb) = 0 then 1 else 0)"
  using loaded_spec(8) [of "\<lambda>_. []"] by (simp add: has_room_def fresh_ftl_def)

lemma demo_wordline: "\<exists>fb. ftl_ok fb \<and> ftl_data fb ([4, 5, 6, 7] ! 2) = Some ([[1], [2], [3], [4]] ! 2)"
proof -
  have z: "(0 :: int) \<noteq> -1" and two: "(2 :: nat) < 4" by simp_all
  show ?thesis using wordline_write_spec [OF loaded_fb_spec(1,2) demo_line] loaded_room z two by blast
qed

text \<open>
  C19. Writing a wordline of four pages stores exactly these pages, wherever garbage collection moves others, or
  fails and stores nothing; it cannot fail while the next chip has room, and it gives the mapping lock back.
\<close>

theorem wordline_write:
  assumes inv: "ftl_ok fb" and lock: "ftl_lock fb = 1" and len: "length lpas = 4" "length src = 4" "distinct lpas"
    and valid: "\<forall>lpa \<in> set lpas. is_valid_address_range lpa"
  shows "\<exists>r fb'. make_write_request_page_mapping fb lpas src = Some (r, fb') \<and> ftl_ok fb' \<and> ftl_lock fb' = 1 \<and>
    fb_wbuf fb' = fb_wbuf fb \<and> (has_room fb (if snd (mru fb) = 0 then 1 else 0) \<longrightarrow> r = 0) \<and>
    (r = 0 \<and> (\<forall>j < 4. ftl_data fb' (lpas ! j) = Some (src ! j)) \<and> (\<forall>lpa. lpa \<notin> set lpas \<longrightarrow> ftl_data fb' lpa = ftl_data fb lpa) \<or>
     r = -1 \<and> ftl_data fb' = ftl_data fb)"
  by (rule wordline_write_spec [OF assms])

theorem wordline_write_witness:
  "\<exists>fb'. make_write_request_page_mapping loaded_fb [4, 5, 6, 7] [[1], [2], [3], [4]] = Some (0, fb') \<and>
    ftl_data fb' 6 = Some [3] \<and> ftl_data fb' 8 = None"
proof -
  have z: "(0 :: int) \<noteq> -1" and two: "(2 :: nat) < 4" and no: "8 \<notin> set [4, 5, 6, 7 :: u32]" by simp_all
  obtain fb' where w: "make_write_request_page_mapping loaded_fb [4, 5, 6, 7] [[1], [2], [3], [4]] = Some (0, fb')"
    "ftl_data fb' ([4, 5, 6, 7] ! 2) = Some ([[1], [2], [3], [4]] ! 2)" "ftl_data fb' 8 = ftl_data loaded_fb 8"
    using wordline_write [OF loaded_fb_spec(1,2) demo_line] loaded_room z two no by blast
  then show ?thesis by (simp add: loaded_fb_spec(5))
qed



section \<open>Foreground garbage collection\<close>

text \<open>
  C9. Foreground garbage collection returns and, whether it succeeds or fails, keeps the FTL's invariant, the contents of every
  logical page, the write buffer and the locks.
\<close>

theorem gc_keeps_data:
  assumes "ftl_ok fb"
  shows "\<exists>r fb'. trigger_gc_page_mapping fb = Some (r, fb') \<and> (r = 0 \<or> r = -1) \<and> ftl_ok fb' \<and> ftl_data fb' = ftl_data fb \<and>
    fb_wbuf fb' = fb_wbuf fb \<and> ftl_lock fb' = ftl_lock fb \<and> dev_lock fb' = dev_lock fb"
  using trigger_gc_spec [OF assms] by (auto simp: gc_step_def gframe_def)

theorem gc_keeps_data_witness:
  "\<exists>fb r fb'. ftl_data fb 6 = Some [3] \<and> trigger_gc_page_mapping fb = Some (r, fb') \<and> ftl_data fb' 6 = Some [3]"
proof -
  obtain fb where "ftl_ok fb" "ftl_data fb ([4, 5, 6, 7] ! 2) = Some ([[1], [2], [3], [4]] ! 2)"
    using demo_wordline by blast
  then show ?thesis using gc_keeps_data [of fb] by auto
qed

text \<open>
  C23. Victim selection is greedy: a chip without dirty blocks gives up a used block with the most invalid pages,
  and none at all only if none of its blocks has an invalid page.
\<close>

theorem greedy_victim:
  assumes "ftl_ok fb" "valid_chip bus chip"
  shows "\<exists>v. select_vic_blk_greedy (ptr_ssd_info fb) bus chip = Some v \<and>
    (v = None \<longleftrightarrow> dirt_blks (chip_of fb bus chip) = [] \<and>
      (\<forall>p \<in> set (used_blks (chip_of fb bus chip)). nr_invalid_log_pages (blk_of fb p) = 0)) \<and>
    (\<forall>p. v = Some p \<longrightarrow> valid_blk p \<and> blk_bus p = bus \<and> blk_chip p = chip \<and>
      (p \<in> set (dirt_blks (chip_of fb bus chip)) \<or> p \<in> set (used_blks (chip_of fb bus chip)) \<and>
        dirt_blks (chip_of fb bus chip) = [] \<and> (\<forall>q \<in> set (used_blks (chip_of fb bus chip)).
          nr_invalid_log_pages (blk_of fb q) \<le> nr_invalid_log_pages (blk_of fb p))))"
  by (rule select_vic_blk_greedy_spec [OF assms])

theorem greedy_victim_witness:
  "select_vic_blk_greedy (ptr_ssd_info loaded_fb) 0 1 = Some None"
proof -
  have "used_blks (chip_of loaded_fb 0 1) = []" "dirt_blks (chip_of loaded_fb 0 1) = []"
    using loaded_spec(8) [of "\<lambda>_. []"] by (simp_all add: fresh_ftl_def)
  then show ?thesis using greedy_victim [OF loaded_fb_spec(1) chips01(2)] by auto
qed

text \<open>
  The search for the first page to copy ends, and delivers the first page from the given one on that has a slot which is
  not invalid, or the number of pages of a block.
\<close>

theorem first_valid_page:
  assumes "valid_blk p"
  shows "\<exists>pg'. find_first_valid_pg s p pg = Some pg' \<and> pg \<le> pg' \<and>
     (pg \<le> NUM_PAGES_PER_BLOCK \<longrightarrow> pg' \<le> NUM_PAGES_PER_BLOCK) \<and>
     (pg' < NUM_PAGES_PER_BLOCK \<longrightarrow> pg_nr_invalid_log_pages (list_pages (blocks s p) pg') < NR_LP_IN_PP) \<and>
     (\<forall>q. pg \<le> q \<longrightarrow> q < pg' \<longrightarrow> NR_LP_IN_PP \<le> pg_nr_invalid_log_pages (list_pages (blocks s p) q))"
  by (rule find_first_valid_pg_spec [OF assms])

theorem first_valid_page_witness:
  "\<exists>pg'. find_first_valid_pg zero_ssd_info (Blk 0 1 7) 190 = Some pg' \<and> 190 \<le> pg' \<and> pg' \<le> 192"
proof -
  have v: "valid_blk (Blk 0 1 7)" by (simp add: NUM_BLOCKS_PER_CHIP_def)
  show ?thesis using first_valid_page [OF v, of zero_ssd_info 190] by (auto simp: NUM_PAGES_PER_BLOCK_def)
qed

text \<open>
  C21. Whether foreground collection is needed is decided by the chip that is next alone: the two loops over the other chips
  test the same chip each time, so a write never prepares the other chips.
\<close>

theorem fgc_check_one_chip:
  assumes "ftl_ok fb" "bus = 0" "chip = 0 \<or> chip = 1"
  shows "is_fgc_needed fb bus chip =
    Some (gc_of fb (ucast bus) (ucast chip) = None \<and> free_blks (chip_of fb (ucast bus) (ucast chip)) = [])"
  by (rule is_fgc_needed_eq [OF assms])

theorem fgc_check_one_chip_witness: "is_fgc_needed loaded_fb 0 1 = Some False"
proof -
  have "gc_of loaded_fb (ucast (0 :: u8)) (ucast (1 :: u8)) \<noteq> None"
    using loaded_spec(8) [of "\<lambda>_. []"] by (simp add: fresh_ftl_def)
  then show ?thesis using fgc_check_one_chip [OF loaded_fb_spec(1), of 0 1] by simp
qed

section \<open>Background garbage collection\<close>

text \<open>
  C13. A call of background garbage collection returns and keeps the contents of every logical page, as long as it only prepares
  blocks or every recorded victim is a full block of its chip with a page number inside the block.
\<close>

theorem background_gc_keeps_data:
  assumes "ftl_ok fb" "ftl_lock fb = 1" and "act_of fb (fst (mru fb)) (snd (mru fb)) \<noteq> None \<Longrightarrow> vics_ok fb"
  shows "\<exists>r fb'. trigger_bg_gc fb = Some (r, fb') \<and> (r = 0 \<or> r = -1) \<and> ftl_ok fb' \<and> ftl_data fb' = ftl_data fb \<and>
    fb_wbuf fb' = fb_wbuf fb \<and> ftl_lock fb' = 1"
  using trigger_bg_gc_spec [OF assms] assms(2) by (auto simp: gc_step_def gframe_def)

theorem background_gc_keeps_data_witness:
  "\<exists>r fb'. trigger_bg_gc loaded_fb = Some (r, fb') \<and> ftl_data fb' = Map.empty \<and> ftl_lock fb' = 1"
proof -
  have "vic_of loaded_fb k = None" if "k < 2" for k
    using that loaded_fb_spec(7) by (auto simp: less_Suc_eq numeral_2_eq_2)
  from this [of 0] this [of 1] have "vics_ok loaded_fb"
    by (simp add: vics_ok_def vics_full_def full_vic_def loaded_fb_spec(7) less_Suc_eq numeral_2_eq_2)
  then show ?thesis using background_gc_keeps_data [OF loaded_fb_spec(1,2)] loaded_fb_spec(5) by auto
qed

text \<open>
  C12. Preparing blocks breaks that condition: when a collected victim has become the GC block of its chip, it is erased but
  stays in the victim table.
\<close>

theorem erased_victim_is_kept:
  assumes "ftl_ok fb" "gc_of fb 0 0 \<noteq> None" "gc_of fb 0 1 \<noteq> None" "gc_of fb 0 c = Some p" "vic_of fb (chip_idx 0 c) = Some p"
  shows "\<exists>fb'. fb_bgc_prepare_act_blks fb = Some (0, fb') \<and> ftl_ok fb' \<and> ftl_data fb' = ftl_data fb \<and>
    vic_of fb' (chip_idx 0 c) = Some p \<and> nr_free_pages (blk_of fb' p) = NUM_PAGES_PER_BLOCK"
  using bgc_prepare_spec [OF assms(1)] assms(2-5) by (auto simp: gc_step_def same_vics_def)

theorem erased_victim_is_kept_witness:
  "\<exists>p fb'. fb_bgc_prepare_act_blks (with_buffers [Some p, None] (replicate 1536 0) (replicate 1536 [])) = Some (0, fb') \<and>
    vic_of fb' 0 = Some p \<and> nr_free_pages (blk_of fb' p) = 192"
proof -
  have "gc_of loaded_fb 0 0 \<noteq> None" "gc_of loaded_fb 0 1 \<noteq> None"
    using loaded_spec(8) [of "\<lambda>_. []"] by (simp_all add: fresh_ftl_def)
  then obtain p where p: "gc_of loaded_fb 0 0 = Some p" "gc_of loaded_fb 0 1 \<noteq> None" by blast
  let ?fb = "with_buffers [Some p, None] (replicate 1536 0) (replicate 1536 [])"
  note W = with_buffers_spec [of "[Some p, None]" "replicate 1536 0" "replicate 1536 []"]
  have "ftl_ok ?fb" "gc_of ?fb 0 0 \<noteq> None" "gc_of ?fb 0 1 \<noteq> None" "gc_of ?fb 0 0 = Some p" "vic_of ?fb (chip_idx 0 0) = Some p"
    using W p by simp_all
  from erased_victim_is_kept [OF this] show ?thesis by (auto simp: NUM_PAGES_PER_BLOCK_def)
qed

text \<open>
  C11. What a collection then does with an erased victim: it copies no page of it but counts four, and writes four pages that an
  earlier collection left in the copy buffers, addresses and contents: whatever was stored at these addresses
  since is replaced by its old contents.
\<close>

theorem stale_victim_corrupts:
  assumes "ftl_ok fb" "nr_copy fb = 0" and chips: "c = 0 \<and> d = 1 \<or> c = 1 \<and> d = 0" "act_of fb 0 0 \<noteq> None" "act_of fb 0 1 \<noteq> None"
    and vic: "vic_of fb (chip_idx 0 c) = Some p" "vic_of fb (chip_idx 0 d) = None"
    and p: "valid_blk p" "blk_bus p = 0" "blk_chip p = c" "nr_free_pages (blk_of fb p) = NUM_PAGES_PER_BLOCK"
    and pg: "first_of fb (chip_idx 0 c) < NUM_PAGES_PER_BLOCK"
    and old: "\<And>j. j < 4 \<Longrightarrow> is_valid_address_range (cp_lpas fb ! j)" "inj_on ((!) (cp_lpas fb)) {..<4}"
  shows "\<exists>fb1 fb2. fb_bgc_read_valid_pgs fb = Some (0, fb1) \<and> prog_valid_pgs_to_gc_blks fb1 = Some (0, fb2) \<and> ftl_ok fb2 \<and>
    (\<forall>j < 4. ftl_data fb2 (cp_lpas fb ! j) = Some (cp_data fb ! j))"
proof -
  obtain fb1 where 1: "fb_bgc_read_valid_pgs fb = Some (0, fb1)" "gc_step fb fb1" "nr_copy fb1 = 4"
    "act_of fb1 = act_of fb" "cp_lpas fb1 = cp_lpas fb" "cp_data fb1 = cp_data fb"
    using bgc_read_stale [OF assms(1,2) chips(1) vic p(1-3) pg p(4)] by blast
  have i1: "ftl_ok fb1" using 1(2) by (simp add: gc_step_def)
  obtain fb2 where 2: "prog_valid_pgs_to_gc_blks fb1 = Some (0, fb2)" "ftl_ok fb2"
    "ftl_data fb2 = wordline_store ((!) (cp_lpas fb)) ((!) (cp_data fb)) (ftl_data fb1)"
    using prog_stale [OF i1 1(3)] chips(2,3) old(1) unfolding 1(4-6) by blast
  have m: "cp_lpas fb ! j \<noteq> PAGE_UNMAPPED" if "j < 4" for j
    using old(1) [OF that] by (auto simp: is_valid_address_range_def PAGE_UNMAPPED_def NUM_LOG_PAGES_value)
  show ?thesis using 1(1) 2 wordline_store_apply(1) [OF old(2) m] by auto
qed

theorem stale_victim_corrupts_witness:
  "\<exists>fb fb1 fb2. ftl_ok fb \<and> ftl_data fb 6 = None \<and> fb_bgc_read_valid_pgs fb = Some (0, fb1) \<and>
    prog_valid_pgs_to_gc_blks fb1 = Some (0, fb2) \<and> ftl_data fb2 6 = Some [3]"
proof -
  let ?ls = "[4, 5, 6, 7] @ replicate 1532 0 :: u32 list" and ?ds = "[[1], [2], [3], [4]] @ replicate 1532 [] :: lpdata list"
  let ?p = "Blk 0 0 5"
  let ?fb = "with_buffers [Some ?p, None] ?ls ?ds"
  note W = with_buffers_spec [of "[Some ?p, None]" ?ls ?ds]
  have vp: "valid_blk ?p" "blk_bus ?p = 0" "blk_chip ?p = 0" by (simp_all add: NUM_BLOCKS_PER_CHIP_def)
  have fr: "nr_free_pages (blk_of ?fb ?p) = NUM_PAGES_PER_BLOCK" "act_of ?fb 0 0 \<noteq> None" "act_of ?fb 0 1 \<noteq> None"
    using loaded_spec(8) [of "\<lambda>_. []"] vp(1) W(7,9) by (simp_all add: fresh_ftl_def del: valid_blk.simps)
  have z: "nr_copy ?fb = 0" using W(11) by simp
  have four: "j = 0 \<or> j = 1 \<or> j = 2 \<or> j = 3" if "j < (4 :: nat)" for j using that by arith
  have old: "\<And>j. j < 4 \<Longrightarrow> is_valid_address_range (cp_lpas ?fb ! j)" "inj_on ((!) (cp_lpas ?fb)) {..<4}"
    using W(4) by (auto simp: is_valid_address_range_def NUM_LOG_PAGES_value inj_on_def dest!: four)
  have "ftl_ok ?fb" "vic_of ?fb (chip_idx 0 0) = Some ?p" "vic_of ?fb (chip_idx 0 1) = None"
    "first_of ?fb (chip_idx 0 0) < NUM_PAGES_PER_BLOCK"
    using W(1,3,10) by (simp_all add: NUM_PAGES_PER_BLOCK_def)
  from stale_victim_corrupts [OF this(1) z _ fr(2,3) this(2,3) vp fr(1) this(4) old]
  obtain fb1 fb2 where r: "fb_bgc_read_valid_pgs ?fb = Some (0, fb1)" "prog_valid_pgs_to_gc_blks fb1 = Some (0, fb2)"
    "\<forall>j < 4. ftl_data fb2 (cp_lpas ?fb ! j) = Some (cp_data ?fb ! j)" by auto
  have "ftl_data fb2 6 = Some [3]" using r(3) [rule_format, of 2] W(4,5) by simp
  then show ?thesis using r(1,2) W(1,2) by auto
qed

text \<open>
  C22. The background thread collects only when the last request is more than \<open>BGC_TH_INTV\<close> old, and a collection that fails
  ends it for good.
\<close>

theorem background_thread:
  assumes "\<forall>now \<in> set clock. now - background_gc_time_stamp fb \<le> BGC_TH_INTV"
  shows "fb_write_buffer_thread (clock @ rest) (flag, fb) = fb_write_buffer_thread rest (flag, fb) \<and>
    (flag \<noteq> 0 \<longrightarrow> BGC_TH_INTV < now - background_gc_time_stamp fb \<longrightarrow> trigger_bg_gc fb = Some (-1, fb') \<longrightarrow>
      fb_write_buffer_thread (clock @ now # rest) (flag, fb) = Some (0, fb'))"
proof -
  have w: "fb_write_buffer_thread (clock @ rest) (flag, fb) = fb_write_buffer_thread rest (flag, fb)" for rest
    using assms
  proof (induction clock)
    case (Cons now clock)
    have "fb_write_buffer_thread rest (0, fb) = Some (0, fb)" by (cases rest) simp_all
    with Cons show ?case by (simp add: fb_is_bgc_ts_expired_def not_less [symmetric])
  qed simp
  then show ?thesis by (simp add: fb_is_bgc_ts_expired_def)
qed

definition stuck_fb :: fb_context_t where
  "stuck_fb = zero_context\<lparr>ptr_mapping_context := zero_mapping\<lparr>mapping_context_lock := 1\<rparr>\<rparr>"

theorem background_thread_witness:
  "\<exists>fb'. fb_write_buffer_thread ([10, 5000] @ 5001 # [9000]) (1, stuck_fb) = Some (0, fb')"
proof -
  have "trigger_bg_gc stuck_fb = Some (-1, unlock_ftl (relock 0 stuck_fb))"
    by (simp add: trigger_bg_gc_def lock_ftl_def relock_def stuck_fb_def get_prev_bus_chip_def get_next_bus_chip_def
        get_curr_active_block_def get_curr_gc_block_def fb_bgc_prepare_act_blks_def bgc_prepare_one_def zero_context_def
        zero_mapping_def put_defs chip_idx_def ld_nth_def geometry_simps NUM_CHIPS_def upt_rec int_of_ret_def Let_def)
  moreover have "\<forall>now \<in> set [10, 5000]. now - background_gc_time_stamp stuck_fb \<le> BGC_TH_INTV"
    "BGC_TH_INTV < 5001 - background_gc_time_stamp stuck_fb"
    by (simp_all add: stuck_fb_def zero_context_def BGC_TH_INTV_def)
  ultimately show ?thesis using background_thread [of "[10, 5000]" stuck_fb "[9000]" 1 5001] by auto
qed

end
