(* ===== verification/FB_System.thy ===== *)
theory FB_System
  imports FB_Collect
begin

text \<open>
  The whole driver as one transition system: the block layer sends bios and the host changes its memory, the
  bus thread and the background thread take rounds, and the operations a request or a collection starts are handed over to the
  bus controllers one by one in between. It refines \<open>dev_step\<close>, a block device without any of this machinery.
\<close>

section \<open>Runs\<close>

text \<open>The events of a run, oldest first.\<close>

inductive run :: "('s \<Rightarrow> 'e \<Rightarrow> 's \<Rightarrow> bool) \<Rightarrow> 's \<Rightarrow> 'e list \<Rightarrow> 's \<Rightarrow> bool" for step where
  stay: "run step s [] s"
| snoc: "run step s es s' \<Longrightarrow> step s' e s'' \<Longrightarrow> run step s (es @ [e]) s''"

inductive_cases run_NilE: "run step s [] s'"
inductive_cases run_snocE: "run step s (es @ [e]) s'"

lemma run_Nil [simp]: "run step s [] s' \<longleftrightarrow> s' = s"
  by (auto intro: run.stay elim: run_NilE)

lemma run_snoc: "run step s (es @ [e]) s'' \<longleftrightarrow> (\<exists>s'. run step s es s' \<and> step s' e s'')"
  by (auto intro: run.snoc elim: run_snocE)

text \<open>What one step keeps and how it looks from outside carries over to runs.\<close>

locale step_refinement =
  fixes step :: "'s \<Rightarrow> 'e \<Rightarrow> 's \<Rightarrow> bool" and spec :: "'a \<Rightarrow> 'e \<Rightarrow> 'a \<Rightarrow> bool"
    and ok :: "'s \<Rightarrow> bool" and view :: "'s \<Rightarrow> 'a"
  assumes keeps: "ok s \<Longrightarrow> step s e s' \<Longrightarrow> ok s'"
    and simulates: "ok s \<Longrightarrow> step s e s' \<Longrightarrow> spec (view s) e (view s')"
begin

lemma run_ok: "run step s es s' \<Longrightarrow> ok s \<Longrightarrow> ok s'"
  by (induction rule: run.induct) (auto intro: keeps)

lemma run_simulates: "run step s es s' \<Longrightarrow> ok s \<Longrightarrow> run spec (view s) es (view s')"
proof (induction rule: run.induct)
  case (snoc s es s' e s'')
  then show ?case using run_ok [OF snoc.hyps(1)] by (auto simp: run_snoc intro: simulates)
qed (rule run.stay)

end

section \<open>The system\<close>

type_synonym dev_op = "u8 \<times> u32 \<times> fb_dev_op_t \<times> bioptr option"

text \<open>
  \<open>s_todo\<close> are the operations not yet handed to the bus controller, \<open>s_flag\<close> is
  \<open>flag_enable_wb_thread\<close>. The device has one bus.
\<close>

record sys =
  s_drv :: drv
  s_bus :: fb_bus_controller_t
  s_todo :: "dev_op list"
  s_flag :: u32

datatype sys_event = Request bio_t | Host "nat \<Rightarrow> lpdata" | Issue | Round | Collect

text \<open>What the block layer sends: whole pages inside the device, at most 256 of them; flushes are writes.\<close>

definition layer_bio :: "bio_t \<Rightarrow> bool" where
  "layer_bio bio \<longleftrightarrow> rw_bio READ_DIR bio \<or> rw_bio WRITE_DIR bio \<or>
     bi_dir bio = WRITE_DIR \<and> (bi_preflush bio \<or> bi_discard bio \<and>
       unat (bi_sector bio) + unat (bi_size bio) div 512 \<le> 8 * NUM_LOG_PAGES)"

text \<open>The operations started between two states of the driver.\<close>

definition handed :: "fb_context_t \<Rightarrow> fb_context_t \<Rightarrow> dev_op list" where
  "handed fb fb' = drop (length (issued (ptr_vdevice fb))) (issued (ptr_vdevice fb'))"

text \<open>The condition under which background collection is safe (\<open>background_gc_keeps_data\<close>); the code does not check it.\<close>

definition victims_sound :: "fb_context_t \<Rightarrow> bool" where
  "victims_sound fb \<longleftrightarrow> (act_of fb (fst (mru fb)) (snd (mru fb)) \<noteq> None \<longrightarrow> vics_ok fb)"

inductive sys_step :: "sys \<Rightarrow> sys_event \<Rightarrow> sys \<Rightarrow> bool" where
  request: "s_todo s = [] \<Longrightarrow> layer_bio bio \<Longrightarrow> (\<forall>p. vm = Some p \<longrightarrow> fbios (d_io (s_drv s)) p = None) \<Longrightarrow>
     fbio_mem junk \<Longrightarrow> length lpas = 4 \<Longrightarrow> make_request vm junk lpas now1 now2 bio (s_drv s) = Some d \<Longrightarrow>
     sys_step s (Request bio) (s\<lparr>s_drv := d, s_todo := handed (d_fb (s_drv s)) (d_fb d)\<rparr>)"
| host: "sys_step s (Host m) (s\<lparr>s_drv := (s_drv s)\<lparr>kmem := m\<rparr>\<rparr>)"
| issue: "s_todo s = (bus, chip, entry) # ops \<Longrightarrow>
     fb_issue_operation [] (unat chip) entry (s_bus s, d_io (s_drv s)) = Some (bc, io) \<Longrightarrow>
     sys_step s Issue (s\<lparr>s_drv := (s_drv s)\<lparr>d_io := io\<rparr>, s_bus := bc, s_todo := ops\<rparr>)"
| round: "fb_bus_ctrl_thread [(now, clk)] (s_bus s, d_io (s_drv s)) = Some (bc, io) \<Longrightarrow>
     sys_step s Round (s\<lparr>s_drv := (s_drv s)\<lparr>d_io := io\<rparr>, s_bus := bc\<rparr>)"
| collect: "s_todo s = [] \<Longrightarrow> victims_sound (d_fb (s_drv s)) \<Longrightarrow>
     fb_write_buffer_thread [now] (s_flag s, d_fb (s_drv s)) = Some (flag, fb) \<Longrightarrow>
     sys_step s Collect (s\<lparr>s_drv := upd_fb (s_drv s) fb, s_flag := flag, s_todo := handed (d_fb (s_drv s)) fb\<rparr>)"

text \<open>The system after \<open>fb_init\<close>.\<close>

definition booted :: "sys \<Rightarrow> bool" where
  "booted s \<longleftrightarrow> (\<exists>env junk fb mem threads jlist jbus n bc. junk_ok junk \<and> all_succeed env \<and> fb_err (j_context junk) = 0 \<and>
     fb_init env junk = Some (0, everything, Some fb) \<and> 0 < n \<and> fb_bus_controller_init threads jlist jbus n = Some [bc] \<and>
     s = \<lparr>s_drv = drv_start fb mem, s_bus = bc, s_todo = [], s_flag = 1\<rparr>)"

section \<open>The block device it stands for\<close>

text \<open>
  \<open>dev_bios\<close> are the identities of all bios ever sent, \<open>dev_error\<close> the error fields.
\<close>

record dev =
  dev_store :: "u32 \<rightharpoonup> lpdata"
  dev_mem :: "nat \<Rightarrow> lpdata"
  dev_broken :: bool
  dev_error :: "nat \<Rightarrow> int"
  dev_bios :: "nat multiset"

definition took :: "bio_t \<Rightarrow> dev \<Rightarrow> dev" where
  "took bio v = v\<lparr>dev_bios := add_mset (bi_id bio) (dev_bios v)\<rparr>"

text \<open>Copying the stored pages of a read into the memory of its segments.\<close>

definition deliver :: "(u32 \<rightharpoonup> lpdata) \<Rightarrow> u64 \<Rightarrow> nat list \<Rightarrow> (nat \<Rightarrow> lpdata) \<Rightarrow> nat \<Rightarrow> lpdata" where
  "deliver V s segs m = fold (\<lambda>i m. case V (lpa_at s i) of None \<Rightarrow> m | Some x \<Rightarrow> m(segs ! i := x)) [0..<length segs] m"

definition served :: "bio_t \<Rightarrow> dev \<Rightarrow> dev" where
  "served bio v =
     (if bi_preflush bio then v
      else if bi_discard bio then v\<lparr>dev_store := dev_store v |` (- whole_pages (bi_sector bio) (bi_size bio))\<rparr>
      else if bi_dir bio = READ_DIR then v\<lparr>dev_mem := deliver (dev_store v) (bi_sector bio) (bi_segs bio) (dev_mem v)\<rparr>
      else v\<lparr>dev_store := put_pages (bi_sector bio) (\<lambda>i. dev_mem v (bi_segs bio ! i)) (length (bi_segs bio)) (dev_store v)\<rparr>)"

text \<open>
  A request is served, or it breaks the device: when no memory is left, or when a write is given up after \<open>k\<close> of its
  pages, with the old contents of some of its pages lost. A broken device completes requests and does nothing.
\<close>

inductive dev_step :: "dev \<Rightarrow> sys_event \<Rightarrow> dev \<Rightarrow> bool" where
  dev_serve: "\<not> dev_broken v \<Longrightarrow> dev_step v (Request bio) (took bio (served bio v))"
| dev_no_memory: "\<not> dev_broken v \<Longrightarrow> \<not> bi_preflush bio \<Longrightarrow> \<not> bi_discard bio \<Longrightarrow>
     dev_step v (Request bio) (took bio (v\<lparr>dev_broken := True, dev_error := (dev_error v)(bi_id bio := -19)\<rparr>))"
| dev_give_up: "\<not> dev_broken v \<Longrightarrow> rw_bio WRITE_DIR bio \<Longrightarrow> k < length (bi_segs bio) \<Longrightarrow>
     A \<subseteq> lpa_at (bi_sector bio) ` {..<length (bi_segs bio)} \<Longrightarrow>
     dev_step v (Request bio) (took bio (v\<lparr>dev_broken := True, dev_error := (dev_error v)(bi_id bio := 0),
       dev_store := put_pages (bi_sector bio) (\<lambda>i. dev_mem v (bi_segs bio ! i)) k (dev_store v |` (- A))\<rparr>))"
| dev_refuse: "dev_broken v \<Longrightarrow> dev_step v (Request bio) (took bio (v\<lparr>dev_error := (dev_error v)(bi_id bio := 0)\<rparr>))"
| dev_host: "dev_step v (Host m) (v\<lparr>dev_mem := m\<rparr>)"
| dev_quiet: "e = Issue \<or> e = Round \<or> e = Collect \<Longrightarrow> dev_step v e v"

inductive_simps dev_step_others: "dev_step v (Host m) v'" "dev_step v Issue v'" "dev_step v Round v'" "dev_step v Collect v'"

text \<open>The bios a driver has in hand, completed or not.\<close>

definition live_bios :: "io_state \<Rightarrow> nat multiset" where
  "live_bios io = image_mset (\<lambda>p. fbio_bio (the (fbios io p))) (mset_set (dom (fbios io)))"

definition bios_of :: "io_state \<Rightarrow> nat multiset" where
  "bios_of io = mset (endio io) + live_bios io"

definition drv_view :: "drv \<Rightarrow> dev" where
  "drv_view d = \<lparr>dev_store = device_view (d_fb d), dev_mem = kmem d, dev_broken = fb_err (d_fb d) \<noteq> 0,
     dev_error = bi_error d, dev_bios = bios_of (d_io d)\<rparr>"

section \<open>Bios in hand\<close>

lemma bios_of_endio: "bios_of (io\<lparr>endio := endio io @ [b]\<rparr>) = add_mset b (bios_of io)"
  by (simp add: bios_of_def live_bios_def)

lemma completed_bios:
  assumes c: "completed io io' ps" and fin: "finite (dom (fbios io))"
  shows "bios_of io' = bios_of io" "finite (dom (fbios io'))"
proof -
  let ?f = "\<lambda>io p. fbio_bio (the (fbios io p))"
  have C: "distinct ps" "set ps = dom (fbios io) - dom (fbios io')" "dom (fbios io') \<subseteq> dom (fbios io)"
    "endio io' = endio io @ map (?f io) ps"
    using c by (auto simp: completed_def dom_def)
  have same: "\<exists>b. fbios io p = Some b \<and> fbio_bio b' = fbio_bio b" if "fbios io' p = Some b'" for p b'
    using c that unfolding completed_def by blast
  show f': "finite (dom (fbios io'))" using C(3) fin finite_subset by blast
  have "image_mset (?f io') (mset_set (dom (fbios io'))) = image_mset (?f io) (mset_set (dom (fbios io')))"
    using f' same by (intro image_mset_cong) fastforce
  moreover have "mset ps = mset_set (set ps)" using C(1) by (simp add: mset_set_set)
  moreover have "mset_set (dom (fbios io)) = mset_set (set ps) + mset_set (dom (fbios io'))"
  proof -
    have "dom (fbios io) = set ps \<union> dom (fbios io')" "set ps \<inter> dom (fbios io') = {}" using C(2,3) by auto
    then show ?thesis using mset_set_Union [of "set ps" "dom (fbios io')"] f' by simp
  qed
  ultimately show "bios_of io' = bios_of io" using C(4) by (simp add: bios_of_def live_bios_def)
qed

lemma read_outcome_bios:
  assumes out: "read_outcome p bio ops io io'" and fresh: "fbios io p = None" and fin: "finite (dom (fbios io))"
  shows "bios_of io' = add_mset bio (bios_of io)" "finite (dom (fbios io'))"
proof -
  show "finite (dom (fbios io'))" using out fin by (auto simp: read_outcome_def split: if_splits)
  show "bios_of io' = add_mset bio (bios_of io)"
  proof (cases "ops = []")
    case True
    then show ?thesis using out bios_of_endio by (simp add: read_outcome_def)
  next
    case False
    then obtain b where b: "io' = io\<lparr>fbios := (fbios io)(p := Some b)\<rparr>" "fbio_bio b = bio"
      using out by (auto simp: read_outcome_def)
    have n: "p \<notin> dom (fbios io)" using fresh by auto
    have "image_mset (\<lambda>q. fbio_bio (the (((fbios io)(p := Some b)) q))) (mset_set (dom (fbios io))) =
        image_mset (\<lambda>q. fbio_bio (the (fbios io q))) (mset_set (dom (fbios io)))"
      using n fin by (intro image_mset_cong) auto
    then show ?thesis using b n fin by (simp add: bios_of_def live_bios_def)
  qed
qed

section \<open>What every step keeps\<close>

text \<open>The operations of request \<open>p\<close> among those still to be handed over.\<close>

definition todo_of :: "dev_op list \<Rightarrow> bioptr \<Rightarrow> nat" where
  "todo_of ops p = count_list (map (\<lambda>q. snd (snd (snd q))) ops) (Some p)"

text \<open>A driver between requests, in service or in its error state.\<close>

definition drv_rest :: "nat \<Rightarrow> drv \<Rightarrow> bool" where
  "drv_rest n d \<longleftrightarrow> drv_idle n d \<or> fb_err (d_fb d) \<noteq> 0 \<and> dev_lock (d_fb d) = 1 \<and> ftl_ok (d_fb d) \<and> ftl_lock (d_fb d) = 1"

definition sys_ok :: "sys \<Rightarrow> bool" where
  "sys_ok s \<longleftrightarrow> drv_rest 8 (s_drv s) \<and> (\<forall>q \<in> set (s_todo s). \<exists>b. op_for b q) \<and> finite (dom (fbios (d_io (s_drv s)))) \<and>
     flag_enable_thread (s_bus s) \<noteq> 0 \<and> (\<exists>n Q. bus_inv n (todo_of (s_todo s)) Q (s_bus s, d_io (s_drv s)))"

lemma todo_of_simps [simp]:
  "todo_of [] = (\<lambda>_. 0)" "todo_of ((bus, chip, op, b) # ops) p = todo_of ops p + (if b = Some p then 1 else 0)"
  by (auto simp: todo_of_def)

lemma todo_of_reads: "reads_of p ops \<Longrightarrow> todo_of ops = (\<lambda>q. if q = p then length ops else 0)"
  by (induction ops) (auto simp: reads_of_def fun_eq_iff)

lemma todo_of_silent: "\<forall>q \<in> set ops. op_for None q \<Longrightarrow> todo_of ops = (\<lambda>_. 0)"
  by (induction ops) (auto simp: op_for_def fun_eq_iff)

lemma handed_silent:
  assumes "silent (ptr_vdevice fb) (ptr_vdevice fb')"
  shows "\<forall>q \<in> set (handed fb fb'). op_for None q" "todo_of (handed fb fb') = (\<lambda>_. 0)"
proof -
  show "\<forall>q \<in> set (handed fb fb'). op_for None q" using assms by (auto simp: handed_def silent_def)
  then show "todo_of (handed fb fb') = (\<lambda>_. 0)" by (rule todo_of_silent)
qed

lemma bus_inv_fbios: "fbios io' = fbios io \<Longrightarrow> bus_inv n pend Q (bc, io') = bus_inv n pend Q (bc, io)"
  by (simp add: bus_inv_def live_ok_def)

text \<open>A step that completes bios at once and hands over no operation of a request.\<close>

lemma sys_ok_silent:
  assumes ok: "sys_ok s" and todo: "s_todo s = []" and rest: "drv_rest 8 d"
    and sl: "silent (ptr_vdevice (d_fb (s_drv s))) (ptr_vdevice (d_fb d))" and io: "fbios (d_io d) = fbios (d_io (s_drv s))"
  shows "sys_ok (s\<lparr>s_drv := d, s_todo := handed (d_fb (s_drv s)) (d_fb d)\<rparr>)"
  using ok todo rest handed_silent [OF sl] bus_inv_fbios [OF io] io by (auto simp: sys_ok_def)

section \<open>Requests\<close>

lemma deliver_got:
  assumes d: "distinct segs" and g: "got V (lpa_at s) segs (length segs) m m'"
  shows "deliver V s segs m = m'"
proof
  let ?f = "\<lambda>k. fold (\<lambda>i m. case V (lpa_at s i) of None \<Rightarrow> m | Some x \<Rightarrow> m(segs ! i := x)) [0..<k] m"
  have "?f k x = (if x \<in> set (take k segs) then m' x else m x)" if "k \<le> length segs" for k x
    using that
  proof (induction k)
    case (Suc k)
    have k: "k < length segs" using Suc.prems by simp
    have t: "set (take (Suc k) segs) = insert (segs ! k) (set (take k segs))" using k by (simp add: take_Suc_conv_app_nth)
    have n: "segs ! k \<notin> set (take k segs)"
      using d k by (auto simp: in_set_conv_nth nth_eq_iff_index_eq)
    have "m' (segs ! k) = (case V (lpa_at s k) of Some x \<Rightarrow> x | None \<Rightarrow> m (segs ! k))" using g k by (simp add: got_def)
    then show ?case using Suc n by (auto simp: t split: option.split)
  qed simp
  then show "deliver V s segs m x = m' x" for x
    using g by (auto simp: deliver_def got_def)
qed

lemma opened_rest:
  "ftl_ok (d_fb (opened now d)) = ftl_ok (d_fb d)" "ftl_lock (d_fb (opened now d)) = ftl_lock (d_fb d)"
  by (simp_all add: opened_def fb_update_bgc_ts_def)

lemma req_fail_rest:
  "ftl_ok (d_fb (req_fail r bio None d)) = ftl_ok (d_fb d)" "ftl_lock (d_fb (req_fail r bio None d)) = ftl_lock (d_fb d)"
  by (simp_all add: req_fail_def fb_destroy_bio_def bio_endio_def Let_def)

text \<open>A request that was answered: what the device does, and what is left for the bus controllers.\<close>

definition answered :: "bio_t \<Rightarrow> drv \<Rightarrow> drv \<Rightarrow> bool" where
  "answered bio d d' \<longleftrightarrow> drv_rest 8 d' \<and> dev_step (drv_view d) (Request bio) (drv_view d') \<and>
     (silent (ptr_vdevice (d_fb d)) (ptr_vdevice (d_fb d')) \<and> fbios (d_io d') = fbios (d_io d) \<or>
      (\<exists>p ops. fbios (d_io d) p = None \<and> issued (ptr_vdevice (d_fb d')) = issued (ptr_vdevice (d_fb d)) @ ops \<and>
         read_outcome p (bi_id bio) ops (d_io d) (d_io d')))"

lemma answered_done:
  assumes "drv_rest 8 d'" "silent (ptr_vdevice (d_fb d)) (ptr_vdevice (d_fb d'))"
    "d_io d' = (d_io d)\<lparr>endio := endio (d_io d) @ [bi_id bio]\<rparr>"
    "dev_step (drv_view d) (Request bio) (took bio v)" "drv_view d' = took bio v"
  shows "answered bio d d'"
  using assms by (simp add: answered_def)

lemma request_refused:
  assumes "drv_rest 8 d" "fb_err (d_fb d) \<noteq> 0"
  shows "\<exists>d'. make_request vm junk lpas now1 now2 bio d = Some d' \<and> answered bio d d'"
proof -
  have r: "dev_lock (d_fb d) = 1" "ftl_ok (d_fb d)" "ftl_lock (d_fb d) = 1" using assms by (auto simp: drv_rest_def drv_idle_def)
  let ?d = "req_fail 0 bio None (opened now1 d)"
  note f = req_fail_none [of 0 bio "opened now1 d"]
  have "answered bio d ?d"
  proof (rule answered_done)
    show "drv_rest 8 ?d" using r f by (simp add: drv_rest_def req_fail_rest opened_rest)
    show "drv_view ?d = took bio ((drv_view d)\<lparr>dev_error := (dev_error (drv_view d))(bi_id bio := 0)\<rparr>)"
      using f assms(2) by (simp add: drv_view_def took_def bios_of_endio)
    show "dev_step (drv_view d) (Request bio) (took bio ((drv_view d)\<lparr>dev_error := (dev_error (drv_view d))(bi_id bio := 0)\<rparr>))"
      using assms(2) by (intro dev_refuse) (simp add: drv_view_def)
  qed (use f in simp_all)
  then show ?thesis using make_request_open [OF r(1), of vm junk lpas now1 now2 bio] assms(2) by simp
qed

lemma request_no_memory:
  assumes "drv_idle 8 d" "\<not> bi_preflush bio" "\<not> bi_discard bio"
  shows "\<exists>d'. make_request None junk lpas now1 now2 bio d = Some d' \<and> answered bio d d'"
proof -
  have i: "dev_lock (d_fb d) = 1" "fb_err (d_fb d) = 0" and r: "ftl_ok (d_fb d)" "ftl_lock (d_fb d) = 1"
    using assms(1) by (simp_all add: drv_idle_def drv_ok_def)
  let ?d = "req_fail (- ENODEV) bio None (opened now1 d)"
  note f = req_fail_none [of "- ENODEV" bio "opened now1 d"]
  have e: "sint (- ENODEV) = -19" by (simp add: ENODEV_def)
  have "answered bio d ?d"
  proof (rule answered_done)
    show "drv_rest 8 ?d" using i r f by (simp add: drv_rest_def req_fail_rest opened_rest)
    show "drv_view ?d = took bio ((drv_view d)\<lparr>dev_broken := True, dev_error := (dev_error (drv_view d))(bi_id bio := -19)\<rparr>)"
      using f e by (simp add: drv_view_def took_def bios_of_endio)
    show "dev_step (drv_view d) (Request bio)
        (took bio ((drv_view d)\<lparr>dev_broken := True, dev_error := (dev_error (drv_view d))(bi_id bio := -19)\<rparr>))"
      using i assms(2,3) by (intro dev_no_memory) (simp_all add: drv_view_def)
  qed (use f in simp_all)
  then show ?thesis
    using make_request_open [OF i(1), of None junk lpas now1 now2 bio] i(2) assms(2,3) by (simp add: fb_build_bio_def)
qed

text \<open>A request that is completed at once and served.\<close>

lemma answered_served:
  assumes "drv_idle 8 d" "drv_idle 8 d'" "silent (ptr_vdevice (d_fb d)) (ptr_vdevice (d_fb d'))"
    "d_io d' = (d_io d)\<lparr>endio := endio (d_io d) @ [bi_id bio]\<rparr>" "drv_view d' = took bio (served bio (drv_view d))"
  shows "answered bio d d'"
proof (rule answered_done)
  show "dev_step (drv_view d) (Request bio) (took bio (served bio (drv_view d)))"
    using assms(1) by (intro dev_serve) (simp add: drv_view_def drv_idle_def)
qed (use assms in \<open>simp_all add: drv_rest_def\<close>)

lemma request_preflush:
  assumes idle: "drv_idle 8 d" and bio: "bi_preflush bio" "bi_dir bio = WRITE_DIR"
  shows "\<exists>d'. make_request vm junk lpas now1 now2 bio d = Some d' \<and> answered bio d d'"
proof -
  have i: "drv_ok 8 (opened now1 d)" "dev_lock (d_fb d) = 1" "fb_err (d_fb d) = 0" using idle by (simp_all add: drv_idle_def)
  have wr: "bi_dir bio \<noteq> READ_DIR" using bio(2) by (simp add: WRITE_DIR_def READ_DIR_def)
  let ?d = "req_finish now2 bio None (opened now1 d)"
  note f = req_finish_none [OF wr, where now = now2 and d = "opened now1 d"]
  have "answered bio d ?d"
    using idle i f bio by (intro answered_served) (simp_all add: drv_idle_def drv_view_def took_def served_def bios_of_endio)
  then show ?thesis using make_request_open [OF i(2), of vm junk lpas now1 now2 bio] i(3) bio(1) by simp
qed

lemma request_discard:
  assumes idle: "drv_idle 8 d" and bio: "bi_discard bio" "\<not> bi_preflush bio" "bi_dir bio = WRITE_DIR"
    and inside: "unat (bi_sector bio) + unat (bi_size bio) div 512 \<le> 8 * NUM_LOG_PAGES"
  shows "\<exists>d'. make_request vm junk lpas now1 now2 bio d = Some d' \<and> answered bio d d'"
proof -
  obtain d' where d': "make_request vm junk lpas now1 now2 bio d = Some d'" "drv_idle 8 d'" "bi_error d' = bi_error d"
    "d_io d' = (d_io d)\<lparr>endio := endio (d_io d) @ [bi_id bio]\<rparr>" "kmem d' = kmem d"
    "silent (ptr_vdevice (d_fb d)) (ptr_vdevice (d_fb d'))"
    "device_view (d_fb d') = device_view (d_fb d) |` (- whole_pages (bi_sector bio) (bi_size bio))"
    using discard_request [OF idle bio inside, of vm junk lpas now1 now2] by blast
  have "answered bio d d'"
    using idle d' bio by (intro answered_served) (simp_all add: drv_idle_def drv_view_def took_def served_def bios_of_endio)
  then show ?thesis using d'(1) by blast
qed

lemma request_write:
  assumes idle: "drv_idle 8 d" and bio: "rw_bio WRITE_DIR bio" and fresh: "fbios (d_io d) p = None" and junk: "fbio_mem junk"
    and l4: "length lpas = 4"
  shows "\<exists>d'. make_request (Some p) junk lpas now1 now2 bio d = Some d' \<and> answered bio d d'"
proof -
  let ?s = "bi_sector bio" and ?m = "length (bi_segs bio)" and ?src = "\<lambda>i. kmem d (bi_segs bio ! i)"
  let ?L = "lpa_at ?s ` {..<?m}" and ?W = "wb_view (fb_wbuf (d_fb d))"
  have b: "\<not> bi_preflush bio" "\<not> bi_discard bio" "bi_dir bio \<noteq> READ_DIR" using bio by (simp_all add: rw_bio_def WRITE_DIR_def READ_DIR_def)
  obtain d' where d': "make_request (Some p) junk lpas now1 now2 bio d = Some d'" "dev_lock (d_fb d') = 1"
    "d_io d' = (d_io d)\<lparr>endio := endio (d_io d) @ [bi_id bio]\<rparr>" "kmem d' = kmem d" "silent (ptr_vdevice (d_fb d)) (ptr_vdevice (d_fb d'))"
    and cases: "drv_idle 8 d' \<and> bi_error d' = bi_error d \<and> device_view (d_fb d') = put_pages ?s ?src ?m (device_view (d_fb d)) \<or>
     fb_err (d_fb d') = 1 \<and> flush_failed 8 d' \<and> bi_error d' = (bi_error d)(bi_id bio := 0) \<and>
       (\<exists>k < ?m. device_view (d_fb d') = put_pages ?s ?src k (ftl_data (d_fb d) |` (- ?L) ++ ?W))"
    using write_request [OF idle bio fresh junk l4, of now1 now2] by blast
  from cases have "answered bio d d'"
  proof
    assume "drv_idle 8 d' \<and> bi_error d' = bi_error d \<and> device_view (d_fb d') = put_pages ?s ?src ?m (device_view (d_fb d))"
    then show ?thesis
      using idle d' b by (intro answered_served) (simp_all add: drv_idle_def drv_view_def took_def served_def bios_of_endio)
  next
    assume F: "fb_err (d_fb d') = 1 \<and> flush_failed 8 d' \<and> bi_error d' = (bi_error d)(bi_id bio := 0) \<and>
       (\<exists>k < ?m. device_view (d_fb d') = put_pages ?s ?src k (ftl_data (d_fb d) |` (- ?L) ++ ?W))"
    then obtain k where k: "k < ?m" "device_view (d_fb d') = put_pages ?s ?src k (ftl_data (d_fb d) |` (- ?L) ++ ?W)" by blast
    have "ftl_data (d_fb d) |` (- ?L) ++ ?W = device_view (d_fb d) |` (- (?L - dom ?W))"
      by (auto simp: device_view_def fun_eq_iff map_add_def restrict_map_def split: option.split)
    then have v: "device_view (d_fb d') = put_pages ?s ?src k (device_view (d_fb d) |` (- (?L - dom ?W)))" using k(2) by simp
    show ?thesis
    proof (rule answered_done)
      show "drv_rest 8 d'" using F d'(2) by (simp add: drv_rest_def flush_failed_def)
      show "dev_step (drv_view d) (Request bio) (took bio ((drv_view d)\<lparr>dev_broken := True,
          dev_error := (dev_error (drv_view d))(bi_id bio := 0),
          dev_store := put_pages ?s (\<lambda>i. dev_mem (drv_view d) (bi_segs bio ! i)) k (dev_store (drv_view d) |` (- (?L - dom ?W)))\<rparr>))"
        using idle bio k(1) by (intro dev_give_up) (auto simp: drv_view_def drv_idle_def)
    qed (use F d' v in \<open>simp_all add: drv_view_def took_def bios_of_endio\<close>)
  qed
  then show ?thesis using d'(1) by blast
qed

lemma request_read:
  assumes idle: "drv_idle 8 d" and bio: "rw_bio READ_DIR bio" and fresh: "fbios (d_io d) p = None" and junk: "fbio_mem junk"
    and fin: "finite (dom (fbios (d_io d)))"
  shows "\<exists>d'. make_request (Some p) junk lpas now1 now2 bio d = Some d' \<and> answered bio d d'"
proof -
  have b: "\<not> bi_preflush bio" "\<not> bi_discard bio" "bi_dir bio = READ_DIR" "distinct (bi_segs bio)" using bio by (simp_all add: rw_bio_def)
  obtain d' ops where d': "make_request (Some p) junk lpas now1 now2 bio d = Some d'" "drv_idle 8 d'"
    "device_view (d_fb d') = device_view (d_fb d)" "bi_error d' = bi_error d"
    "got (device_view (d_fb d)) (lpa_at (bi_sector bio)) (bi_segs bio) (length (bi_segs bio)) (kmem d) (kmem d')"
    "issued (ptr_vdevice (d_fb d')) = issued (ptr_vdevice (d_fb d)) @ ops" "read_outcome p (bi_id bio) ops (d_io d) (d_io d')"
    using read_request [OF idle bio fresh junk, of lpas now1 now2] by blast
  have "drv_view d' = took bio (served bio (drv_view d))"
    using deliver_got [OF b(4) d'(5)] read_outcome_bios(1) [OF d'(7) fresh fin] d'(2-4) idle b
    by (simp add: drv_view_def took_def served_def drv_idle_def)
  moreover have "dev_step (drv_view d) (Request bio) (took bio (served bio (drv_view d)))"
    using idle by (intro dev_serve) (simp add: drv_view_def drv_idle_def)
  ultimately have "answered bio d d'" using d'(2,6,7) fresh by (auto simp: answered_def drv_rest_def)
  then show ?thesis using d'(1) by blast
qed

lemma request_answered:
  assumes "drv_rest 8 d" "layer_bio bio" "\<forall>p. vm = Some p \<longrightarrow> fbios (d_io d) p = None" "fbio_mem junk" "length lpas = 4"
    "finite (dom (fbios (d_io d)))"
  shows "\<exists>d'. make_request vm junk lpas now1 now2 bio d = Some d' \<and> answered bio d d'"
proof (cases "fb_err (d_fb d) = 0")
  case True
  then have i: "drv_idle 8 d" using assms(1) by (simp add: drv_rest_def)
  consider "bi_preflush bio" "bi_dir bio = WRITE_DIR"
    | "bi_discard bio" "\<not> bi_preflush bio" "bi_dir bio = WRITE_DIR" "unat (bi_sector bio) + unat (bi_size bio) div 512 \<le> 8 * NUM_LOG_PAGES"
    | dir where "rw_bio dir bio" "dir = READ_DIR \<or> dir = WRITE_DIR"
    using assms(2) by (auto simp: layer_bio_def)
  then show ?thesis
  proof cases
    case 1
    then show ?thesis by (rule request_preflush [OF i])
  next
    case 2
    then show ?thesis by (rule request_discard [OF i])
  next
    case (3 dir)
    then have n: "\<not> bi_preflush bio" "\<not> bi_discard bio" by (simp_all add: rw_bio_def)
    show ?thesis
    proof (cases vm)
      case None
      then show ?thesis using request_no_memory [OF i n] by simp
    next
      case (Some p)
      then show ?thesis using 3 assms(3-6) request_read [OF i _ _ assms(4,6)] request_write [OF i _ _ assms(4,5)] by auto
    qed
  qed
qed (rule request_refused [OF assms(1)])

section \<open>Every step keeps the invariant and refines a step of the device\<close>

lemma request_step:
  assumes ok: "sys_ok s" and todo: "s_todo s = []" and a: "answered bio (s_drv s) d"
  shows "sys_ok (s\<lparr>s_drv := d, s_todo := handed (d_fb (s_drv s)) (d_fb d)\<rparr>)"
proof -
  have rest: "drv_rest 8 d" using a by (simp add: answered_def)
  obtain n Q where inv: "bus_inv n (\<lambda>_. 0) Q (s_bus s, d_io (s_drv s))" and fin: "finite (dom (fbios (d_io (s_drv s))))"
    and on: "flag_enable_thread (s_bus s) \<noteq> 0"
    using ok todo by (auto simp: sys_ok_def)
  from a consider "silent (ptr_vdevice (d_fb (s_drv s))) (ptr_vdevice (d_fb d))" "fbios (d_io d) = fbios (d_io (s_drv s))"
    | p ops where "fbios (d_io (s_drv s)) p = None" "issued (ptr_vdevice (d_fb d)) = issued (ptr_vdevice (d_fb (s_drv s))) @ ops"
      "read_outcome p (bi_id bio) ops (d_io (s_drv s)) (d_io d)" by (auto simp: answered_def)
  then show ?thesis
  proof cases
    case 1
    then show ?thesis by (rule sys_ok_silent [OF ok todo rest])
  next
    case (2 p ops)
    have h: "handed (d_fb (s_drv s)) (d_fb d) = ops" using 2(2) by (simp add: handed_def)
    have r: "reads_of p ops" using 2(3) by (simp add: read_outcome_def)
    then have "\<forall>q \<in> set ops. \<exists>b. op_for b q" by (auto simp: reads_of_def)
    moreover have "bus_inv n (todo_of ops) Q (s_bus s, d_io d)"
      using read_outcome_bus [OF 2(3,1) inv] by (simp add: todo_of_reads [OF r])
    ultimately show ?thesis
      using rest on h read_outcome_bios(2) [OF 2(3,1) fin] by (auto simp: sys_ok_def)
  qed
qed

lemma drv_view_io: "bios_of io = bios_of (d_io d) \<Longrightarrow> drv_view (d\<lparr>d_io := io\<rparr>) = drv_view d"
  by (simp add: drv_view_def)

lemma drv_rest_io [simp]: "drv_rest n (d\<lparr>d_io := io\<rparr>) = drv_rest n d" "drv_rest n (d\<lparr>kmem := m\<rparr>) = drv_rest n d"
  by (simp_all add: drv_rest_def drv_idle_def drv_ok_def)

text \<open>An attempt that succeeds leaves the requests alone and puts the operation into its queue.\<close>

lemma issue_room:
  assumes inv: "bus_inv n pend Q (bc, io)" and c: "c < NUM_CHIPS_PER_BUS"
    and r: "fb_issue_operation [] c entry (bc, io) = Some (bc', io')"
    and pend: "\<And>p. pend p = pend' p + (if snd entry = Some p then 1 else 0)"
  shows "io' = io \<and> flag_enable_thread bc' = flag_enable_thread bc \<and> (\<exists>Q'. bus_inv n pend' Q' (bc', io'))"
proof -
  have "length (Q c) < unat n"
  proof (rule ccontr)
    assume "\<not> ?thesis"
    then have "length (Q c) = unat n" using opr_repD(4) [OF bus_repD(3) [OF bus_invD(1) [OF inv] c]] by simp
    then show False using issue_full [OF inv c, of "[]" entry] r by simp
  qed
  from issue_put [OF inv c this pend, of "[]"] r show ?thesis by auto
qed

lemma issue_step:
  assumes ok: "sys_ok s" and todo: "s_todo s = (bus, chip, entry) # ops"
    and r: "fb_issue_operation [] (unat chip) entry (s_bus s, d_io (s_drv s)) = Some (bc, io)"
  shows "sys_ok (s\<lparr>s_drv := (s_drv s)\<lparr>d_io := io\<rparr>, s_bus := bc, s_todo := ops\<rparr>)" "io = d_io (s_drv s)"
proof -
  obtain n Q where inv: "bus_inv n (todo_of (s_todo s)) Q (s_bus s, d_io (s_drv s))" using ok by (auto simp: sys_ok_def)
  have ops: "\<forall>q \<in> set ops. \<exists>b. op_for b q" and c: "unat chip < NUM_CHIPS_PER_BUS"
    using ok todo by (auto simp: sys_ok_def op_for_def)
  have "todo_of (s_todo s) p = todo_of ops p + (if snd entry = Some p then 1 else 0)" for p
    using todo by (cases entry) simp
  from issue_room [OF inv c r this]
  show "sys_ok (s\<lparr>s_drv := (s_drv s)\<lparr>d_io := io\<rparr>, s_bus := bc, s_todo := ops\<rparr>)" "io = d_io (s_drv s)"
    using ok ops by (auto simp: sys_ok_def)
qed

lemma round_step:
  assumes ok: "sys_ok s"
  shows "\<exists>bc io. fb_bus_ctrl_thread rounds (s_bus s, d_io (s_drv s)) = Some (bc, io) \<and>
    sys_ok (s\<lparr>s_drv := (s_drv s)\<lparr>d_io := io\<rparr>, s_bus := bc\<rparr>) \<and> bios_of io = bios_of (d_io (s_drv s))"
proof -
  obtain n Q where inv: "bus_inv n (todo_of (s_todo s)) Q (s_bus s, d_io (s_drv s))" and fin: "finite (dom (fbios (d_io (s_drv s))))"
    and on: "flag_enable_thread (s_bus s) \<noteq> 0" using ok by (auto simp: sys_ok_def)
  obtain Q' bc io ps where r: "fb_bus_ctrl_thread rounds (s_bus s, d_io (s_drv s)) = Some (bc, io)"
    "bus_inv n (todo_of (s_todo s)) Q' (bc, io)" "completed (d_io (s_drv s)) io ps" "flag_enable_thread bc \<noteq> 0"
    using thread_spec [OF inv on, of rounds] by blast
  then show ?thesis using ok completed_bios [OF r(3) fin] by (auto simp: sys_ok_def)
qed

lemma background_step:
  assumes ok: "ftl_ok fb" "ftl_lock fb = 1" and sound: "victims_sound fb"
  shows "\<exists>flag' fb'. fb_write_buffer_thread [now] (flag, fb) = Some (flag', fb') \<and> gc_step fb fb'"
proof -
  obtain r fb' where r: "trigger_bg_gc fb = Some (r, fb')" "gc_step fb fb'"
    using trigger_bg_gc_spec [OF ok] sound by (auto simp: victims_sound_def)
  have "gc_step fb fb" using ok by (simp add: gc_step_def)
  then show ?thesis using r by (cases "flag = 0"; cases "fb_is_bgc_ts_expired now fb BGC_TH_INTV"; cases "r = -1") auto
qed

lemma collect_step:
  assumes ok: "sys_ok s" and todo: "s_todo s = []" and g: "gc_step (d_fb (s_drv s)) fb"
  shows "sys_ok (s\<lparr>s_drv := upd_fb (s_drv s) fb, s_flag := flag, s_todo := handed (d_fb (s_drv s)) fb\<rparr>)"
    "drv_view (upd_fb (s_drv s) fb) = drv_view (s_drv s)"
proof -
  have G: "ftl_ok fb" "ftl_data fb = ftl_data (d_fb (s_drv s))" "gframe (d_fb (s_drv s)) fb" using g by (simp_all add: gc_step_def)
  then show "drv_view (upd_fb (s_drv s) fb) = drv_view (s_drv s)" by (simp add: drv_view_def device_view_def gframe_def)
  have "drv_rest 8 (upd_fb (s_drv s) fb)"
    using ok G by (auto simp: sys_ok_def drv_rest_def drv_idle_def drv_ok_def wb_ready_def gframe_def)
  then have "sys_ok (s\<lparr>s_drv := upd_fb (s_drv s) fb, s_todo := handed (d_fb (s_drv s)) fb\<rparr>)"
    using sys_ok_silent [OF ok todo, of "upd_fb (s_drv s) fb"] G(3) by (simp add: gframe_def)
  then show "sys_ok (s\<lparr>s_drv := upd_fb (s_drv s) fb, s_flag := flag, s_todo := handed (d_fb (s_drv s)) fb\<rparr>)"
    by (simp add: sys_ok_def)
qed

lemma sys_ok_rest: "sys_ok s \<Longrightarrow> drv_rest 8 (s_drv s)" "sys_ok s \<Longrightarrow> finite (dom (fbios (d_io (s_drv s))))"
  "drv_rest n d \<Longrightarrow> ftl_ok (d_fb d)" "drv_rest n d \<Longrightarrow> ftl_lock (d_fb d) = 1"
  by (auto simp: sys_ok_def drv_rest_def drv_idle_def drv_ok_def)

lemma sys_step_sound:
  assumes "sys_step s e s'" "sys_ok s"
  shows "sys_ok s' \<and> dev_step (drv_view (s_drv s)) e (drv_view (s_drv s'))"
  using assms
proof (cases rule: sys_step.cases)
  case (request bio vm junk lpas now1 now2 d)
  then have a: "answered bio (s_drv s) d"
    using request_answered [of "s_drv s" bio vm junk lpas now1 now2] sys_ok_rest(1,2) [OF assms(2)] by auto
  then have "dev_step (drv_view (s_drv s)) (Request bio) (drv_view d)" by (simp add: answered_def)
  then show ?thesis using request(1,2) request_step [OF assms(2) request(3) a] by simp
next
  case (host m)
  then show ?thesis using assms(2) by (auto simp: dev_step_others drv_view_def) (simp add: sys_ok_def)
next
  case (issue bus chip entry ops bc io)
  then show ?thesis using issue_step [OF assms(2) issue(3,4)] by (auto simp: dev_step_others drv_view_io)
next
  case (round now clk bc io)
  then show ?thesis using round_step [OF assms(2), of "[(now, clk)]"] by (auto simp: dev_step_others drv_view_io)
next
  case (collect now flag fb)
  then have g: "gc_step (d_fb (s_drv s)) fb"
    using background_step [OF sys_ok_rest(3,4) [OF sys_ok_rest(1) [OF assms(2)]] collect(4), of now "s_flag s"] by auto
  then show ?thesis using collect collect_step [OF assms(2) collect(3) g] by (simp add: dev_step_others)
qed

interpretation sr: step_refinement sys_step dev_step sys_ok "\<lambda>s. drv_view (s_drv s)"
  by unfold_locales (auto dest: sys_step_sound)

end
