(* ===== verification/FB_Device.thy ===== *)
theory FB_Device
  imports FB_System
begin

text \<open>
  What the driver promises over its whole life, from loading on, whatever requests come and however the bus
  threads and the background thread run in between: it is the block device \<open>dev_step\<close>, it never gets stuck, and it answers every bio
  exactly once.
\<close>

section \<open>The loaded system\<close>






section \<open>Histories\<close>




lemma took_simps [simp]:
  "dev_broken (took bio v) = dev_broken v" "dev_bios (took bio v) = add_mset (bi_id bio) (dev_bios v)"
  "dev_broken (served bio v) = dev_broken v" "dev_bios (served bio v) = dev_bios v"
  by (simp_all add: took_def served_def)






section \<open>A short run\<close>





section \<open>Properties\<close>









end
