(* ===== verification/FB_Interleave.thy ===== *)
theory FB_Interleave
  imports FB_System
begin

text \<open>
  The read loop of \<open>make_request\<close> in small steps. The operation a page needs is handed over before the next page is asked for, and the bus thread
  may complete operations of the same request, and free it, while the loop still runs. The loop reads the request's arrays
  in every iteration; \<open>read_interleaved\<close> says why the request is still there.
\<close>

section \<open>The loop and the bus thread\<close>

record read_loop =
  rd_next :: u32
  rd_drv :: drv
  rd_bus :: fb_bus_controller_t
  rd_todo :: "dev_op list"

datatype read_event = Page | Hand | Tick

inductive read_step :: "bioptr \<Rightarrow> u32 \<Rightarrow> read_loop \<Rightarrow> read_event \<Rightarrow> read_loop \<Rightarrow> bool" for p req_cnt where
  page: "rd_todo r = [] \<Longrightarrow> rd_next r < req_cnt \<Longrightarrow> read_one p (rd_next r) (rd_drv r) = Some d \<Longrightarrow>
     read_step p req_cnt r Page (r\<lparr>rd_next := rd_next r + 1, rd_drv := d, rd_todo := handed (d_fb (rd_drv r)) (d_fb d)\<rparr>)"
| hand: "rd_todo r = (bus, chip, entry) # ops \<Longrightarrow>
     fb_issue_operation [] (unat chip) entry (rd_bus r, d_io (rd_drv r)) = Some (bc, io) \<Longrightarrow>
     read_step p req_cnt r Hand (r\<lparr>rd_drv := (rd_drv r)\<lparr>d_io := io\<rparr>, rd_bus := bc, rd_todo := ops\<rparr>)"
| tick: "fb_bus_ctrl_thread [(now, clk)] (rd_bus r, d_io (rd_drv r)) = Some (bc, io) \<Longrightarrow>
     read_step p req_cnt r Tick (r\<lparr>rd_drv := (rd_drv r)\<lparr>d_io := io\<rparr>, rd_bus := bc\<rparr>)"

section \<open>The invariant\<close>

text \<open>Pages not yet asked for count as operations still to be handed over.\<close>

definition owed :: "bioptr \<Rightarrow> nat \<Rightarrow> bioptr \<Rightarrow> nat" where
  "owed p m q = (if q = p then m else 0)"

text \<open>\<open>j\<close> pages of \<open>ls\<close> were asked for, to be copied to \<open>pages\<close>; \<open>d0\<close> is the state before the loop.\<close>

definition loop_ok :: "bioptr \<Rightarrow> u32 list \<Rightarrow> nat list \<Rightarrow> drv \<Rightarrow> u32 \<Rightarrow> nat \<Rightarrow> read_loop \<Rightarrow> bool" where
  "loop_ok p ls pages d0 n j r \<longleftrightarrow> j \<le> length ls \<and> rd_next r = of_nat j \<and>
     ftl_ok (d_fb (rd_drv r)) \<and> rframe (d_fb d0) (d_fb (rd_drv r)) \<and> ftl_data (d_fb (rd_drv r)) = ftl_data (d_fb d0) \<and>
     fb_wbuf (d_fb (rd_drv r)) = fb_wbuf (d_fb d0) \<and> bi_error (rd_drv r) = bi_error d0 \<and>
     got (ftl_data (d_fb d0)) ((!) ls) pages j (kmem d0) (kmem (rd_drv r)) \<and> reads_of p (rd_todo r) \<and>
     flag_enable_thread (rd_bus r) \<noteq> 0 \<and> finite (dom (fbios (d_io (rd_drv r)))) \<and> bios_of (d_io (rd_drv r)) = bios_of (d_io d0) \<and>
     (\<forall>b. fbios (d_io (rd_drv r)) p = Some b \<longrightarrow> take (length ls) (fbio_lpas b) = ls \<and> take (length ls) (fbio_kpages b) = pages) \<and>
     (\<exists>Q. bus_inv n (owed p (length (rd_todo r) + (length ls - j))) Q (rd_bus r, d_io (rd_drv r)))"

lemma completed_arrays:
  assumes "completed io io' ps" "\<forall>b. fbios io p = Some b \<longrightarrow> P (fbio_lpas b) (fbio_kpages b)"
  shows "\<forall>b. fbios io' p = Some b \<longrightarrow> P (fbio_lpas b) (fbio_kpages b)"
proof (intro allI impI)
  fix b assume "fbios io' p = Some b"
  then obtain b0 where "fbios io p = Some b0" "fbio_lpas b = fbio_lpas b0" "fbio_kpages b = fbio_kpages b0"
    using assms(1) unfolding completed_def by blast
  then show "P (fbio_lpas b) (fbio_kpages b)" using assms(2) by simp
qed

text \<open>Counting down a page that is not on the flash.\<close>

lemma finish_owed:
  assumes inv: "bus_inv n (owed p (Suc m)) Q (bc, io)"
  shows "\<exists>io' ps. finish_one p io = Some io' \<and> bus_inv n (owed p m) Q (bc, io') \<and> completed io io' ps"
proof -
  have I: "live_ok (owed p (Suc m)) Q (chip_busies bc) io" by (rule bus_invD(2) [OF inv])
  let ?R = "refs Q (chip_busies bc)"
  obtain b where b: "fbios io p = Some b" "unat (req_count b) = Suc (?R p + m)" "bio_lock b = 1"
    using I unfolding live_ok_def by (auto simp: owed_def split: option.splits dest!: spec [of _ p])
  obtain io' ps where f: "finish_one p io = Some io'" "completed io io' ps" "\<And>q. q \<noteq> p \<Longrightarrow> fbios io' q = fbios io q"
    "if ?R p + m = 0 then fbios io' p = None else \<exists>b'. fbios io' p = Some b' \<and> unat (req_count b') = ?R p + m \<and> bio_lock b' = 1"
    using finish_one_spec [OF b(1,3,2)] by auto
  have "live_ok (owed p m) Q (chip_busies bc) io'" unfolding live_ok_def
  proof
    fix q
    show "case fbios io' q of None \<Rightarrow> ?R q + owed p m q = 0
      | Some b \<Rightarrow> unat (req_count b) = ?R q + owed p m q \<and> 0 < ?R q + owed p m q \<and> bio_lock b = 1"
    proof (cases "q = p")
      case True
      then show ?thesis using f(4) by (auto simp: owed_def split: if_splits)
    next
      case False
      then have "owed p (Suc m) q = owed p m q" "fbios io' q = fbios io q" using f(3) by (simp_all add: owed_def)
      then show ?thesis using I [unfolded live_ok_def, rule_format, of q] by (simp only:)
    qed
  qed
  then show ?thesis using f(1,2) inv by (auto simp: bus_inv_def)
qed

lemma owed_live:
  assumes inv: "bus_inv n (owed p m) Q (bc, io)" and m: "0 < m"
  obtains b where "fbios io p = Some b"
  using bus_invD(2) [OF inv] m unfolding live_ok_def by (auto simp: owed_def split: option.splits dest!: spec [of _ p])

section \<open>Steps\<close>

lemma loop_page:
  assumes ok: "loop_ok p ls pages d0 n j r" and todo: "rd_todo r = []" and j: "j < length ls"
    and len: "length pages = length ls" "length ls \<le> NR_MAX_REQ_BIO" and dist: "distinct pages" and lock: "ftl_lock (d_fb d0) = 1"
  shows "\<exists>d. read_one p (rd_next r) (rd_drv r) = Some d \<and>
    loop_ok p ls pages d0 n (Suc j) (r\<lparr>rd_next := rd_next r + 1, rd_drv := d, rd_todo := handed (d_fb (rd_drv r)) (d_fb d)\<rparr>)"
proof -
  let ?V = "ftl_data (d_fb d0)" and ?d = "rd_drv r"
  have R: "rd_next r = of_nat j" "ftl_ok (d_fb ?d)" "rframe (d_fb d0) (d_fb ?d)" "ftl_data (d_fb ?d) = ?V" "fb_wbuf (d_fb ?d) = fb_wbuf (d_fb d0)"
    "bi_error ?d = bi_error d0" "got ?V ((!) ls) pages j (kmem d0) (kmem ?d)" "flag_enable_thread (rd_bus r) \<noteq> 0"
    "finite (dom (fbios (d_io ?d)))" "bios_of (d_io ?d) = bios_of (d_io d0)"
    "\<forall>b. fbios (d_io ?d) p = Some b \<longrightarrow> take (length ls) (fbio_lpas b) = ls \<and> take (length ls) (fbio_kpages b) = pages"
    using ok by (simp_all add: loop_ok_def)
  obtain Q where inv: "bus_inv n (owed p (length ls - j)) Q (rd_bus r, d_io ?d)" using ok todo by (auto simp: loop_ok_def)
  obtain b where b: "fbios (d_io ?d) p = Some b" using owed_live [OF inv] j by auto
  have l: "ftl_lock (d_fb ?d) = 1" using R(3) lock by (simp add: rframe_def)
  have u: "unat (of_nat j :: u32) = j" using j len(2) by (simp add: unat_of_nat_u32 NR_MAX_REQ_BIO_def)
  have arr: "take (length ls) (fbio_lpas b) = ls" "take (length ls) (fbio_kpages b) = pages" using R(11) b by auto
  then have lens: "length ls \<le> length (fbio_lpas b)" "length ls \<le> length (fbio_kpages b)"
    using len(1) by (metis length_take min.cobounded1 min.commute)+
  have ld: "ld_nth (fbio_lpas b) j = Some (ls ! j)" "ld_nth (fbio_kpages b) j = Some (pages ! j)"
    using lens j arr by (auto simp: ld_nth_def) (metis nth_take)+
  let ?y = "case ?V (ls ! j) of None \<Rightarrow> kmem ?d (pages ! j) | Some x \<Rightarrow> x"
  obtain fb' os where rd: "make_read_request_page_mapping (d_fb ?d) (ls ! j) (kmem ?d (pages ! j)) (Some p) =
      Some (if ?V (ls ! j) = None then -1 else 0, ?y, fb')"
    "ftl_ok fb'" "rframe (d_fb ?d) fb'" "ftl_data fb' = ?V" "fb_wbuf fb' = fb_wbuf (d_fb d0)"
    "issued (ptr_vdevice fb') = issued (ptr_vdevice (d_fb ?d)) @ os" "reads_of p os"
    "length os = (if ?V (ls ! j) = None then 0 else 1)"
    using make_read_drv [OF R(2) l, of "ls ! j" "kmem ?d (pages ! j)" p] R(4,5) by auto
  have h: "handed (d_fb ?d) fb' = os" using rd(6) by (simp add: handed_def)
  have g: "got ?V ((!) ls) pages (Suc j) (kmem d0) ((kmem ?d)(pages ! j := ?y))"
    using got_step [OF R(7) _ dist] j len(1) by simp
  have s: "length ls - j = Suc (length ls - Suc j)" using j by simp
  let ?d' = "?d\<lparr>d_fb := fb', kmem := (kmem ?d)(pages ! j := ?y)\<rparr>"
  have fr: "rframe (d_fb d0) fb'" by (rule rframe_trans [OF R(3) rd(3)])
  show ?thesis
  proof (cases "?V (ls ! j)")
    case None
    obtain io ps where f: "finish_one p (d_io ?d) = Some io" "bus_inv n (owed p (length ls - Suc j)) Q (rd_bus r, io)"
      "completed (d_io ?d) io ps" using finish_owed [of n p "length ls - Suc j" Q] inv unfolding s by blast
    have one: "read_one p (rd_next r) ?d = Some (?d'\<lparr>d_io := io\<rparr>)"
      using rd(1) None ld u b f(1) R(1) by (simp add: read_one_def Let_def)
    have os: "os = []" using rd(8) None by simp
    have arr': "\<forall>b. fbios io p = Some b \<longrightarrow> take (length ls) (fbio_lpas b) = ls \<and> take (length ls) (fbio_kpages b) = pages"
      by (rule completed_arrays [OF f(3) R(11)])
    show ?thesis unfolding loop_ok_def
      using one f(2) completed_bios [OF f(3) R(9)] R(1,6,8,10) rd(2,4,5,7) g h os fr arr' j
      by (intro exI [of _ "?d'\<lparr>d_io := io\<rparr>"]) auto
  next
    case (Some x)
    have one: "read_one p (rd_next r) ?d = Some ?d'" using rd(1) Some ld u b R(1) by (simp add: read_one_def Let_def)
    have os: "length os + (length ls - Suc j) = length ls - j" using rd(8) Some s by simp
    show ?thesis unfolding loop_ok_def
      using one R(1,6,8-11) rd(2,4,5,7) g h fr j inv by (intro exI [of _ ?d']) (auto simp: os)
  qed
qed

lemma loop_hand:
  assumes ok: "loop_ok p ls pages d0 n j r" and todo: "rd_todo r = (bus, chip, entry) # ops"
    and i: "fb_issue_operation [] (unat chip) entry (rd_bus r, d_io (rd_drv r)) = Some (bc, io)"
  shows "loop_ok p ls pages d0 n j (r\<lparr>rd_drv := (rd_drv r)\<lparr>d_io := io\<rparr>, rd_bus := bc, rd_todo := ops\<rparr>)"
proof -
  have rs: "reads_of p ops" and c: "unat chip < NUM_CHIPS_PER_BUS" and e: "snd entry = Some p"
    using ok todo by (auto simp: loop_ok_def reads_of_def op_for_def)
  obtain Q where inv: "bus_inv n (owed p (length (rd_todo r) + (length ls - j))) Q (rd_bus r, d_io (rd_drv r))"
    using ok by (auto simp: loop_ok_def)
  have pend: "owed p (length (rd_todo r) + (length ls - j)) q = owed p (length ops + (length ls - j)) q + (if snd entry = Some q then 1 else 0)" for q
    using todo e by (auto simp: owed_def)
  from issue_room [OF inv c i pend] obtain Q' where
    "io = d_io (rd_drv r)" "bus_inv n (owed p (length ops + (length ls - j))) Q' (bc, io)" "flag_enable_thread bc = flag_enable_thread (rd_bus r)"
    by blast
  then show ?thesis using ok rs by (auto simp: loop_ok_def)
qed

lemma loop_tick:
  assumes ok: "loop_ok p ls pages d0 n j r"
  shows "\<exists>bc io. fb_bus_ctrl_thread rounds (rd_bus r, d_io (rd_drv r)) = Some (bc, io) \<and>
    loop_ok p ls pages d0 n j (r\<lparr>rd_drv := (rd_drv r)\<lparr>d_io := io\<rparr>, rd_bus := bc\<rparr>)"
proof -
  let ?d = "rd_drv r"
  obtain Q where inv: "bus_inv n (owed p (length (rd_todo r) + (length ls - j))) Q (rd_bus r, d_io ?d)" and on: "flag_enable_thread (rd_bus r) \<noteq> 0"
    and fin: "finite (dom (fbios (d_io ?d)))"
    and arr: "\<forall>b. fbios (d_io ?d) p = Some b \<longrightarrow> take (length ls) (fbio_lpas b) = ls \<and> take (length ls) (fbio_kpages b) = pages"
    using ok by (auto simp: loop_ok_def)
  obtain Q' bc io ps where t: "fb_bus_ctrl_thread rounds (rd_bus r, d_io ?d) = Some (bc, io)"
    "bus_inv n (owed p (length (rd_todo r) + (length ls - j))) Q' (bc, io)" "completed (d_io ?d) io ps" "flag_enable_thread bc \<noteq> 0"
    using thread_spec [OF inv on, of rounds] by blast
  have "\<forall>b. fbios io p = Some b \<longrightarrow> take (length ls) (fbio_lpas b) = ls \<and> take (length ls) (fbio_kpages b) = pages"
    by (rule completed_arrays [OF t(3) arr])
  then show ?thesis using ok t completed_bios [OF t(3) fin] unfolding loop_ok_def by (intro exI [of _ bc] exI [of _ io]) auto
qed

lemma loop_run:
  assumes "run (read_step p (of_nat (length ls))) r0 es r" "loop_ok p ls pages d0 n 0 r0"
    and len: "length pages = length ls" "length ls \<le> NR_MAX_REQ_BIO" and dist: "distinct pages" and lock: "ftl_lock (d_fb d0) = 1"
  shows "\<exists>j. loop_ok p ls pages d0 n j r"
  using assms(1,2)
proof (induction rule: run.induct)
  case (snoc r0 es r1 e r2)
  then obtain j where j: "loop_ok p ls pages d0 n j r1" by blast
  from snoc.hyps(2) show ?case
  proof (cases rule: read_step.cases)
    case (page d)
    have u: "unat (of_nat i :: u32) = i" if "i \<le> length ls" for i
      using that len(2) by (simp add: unat_of_nat_u32 NR_MAX_REQ_BIO_def)
    have "j \<le> length ls" "rd_next r1 = of_nat j" using j by (simp_all add: loop_ok_def)
    then have "j < length ls" using page(4) u [of j] u [of "length ls"] by (simp add: word_less_nat_alt)
    from loop_page [OF j page(3) this len dist lock] show ?thesis using page(2,5) by auto
  next
    case (hand bus chip entry ops bc io)
    then show ?thesis using loop_hand [OF j hand(3,4)] by blast
  next
    case (tick now clk bc io)
    then show ?thesis using loop_tick [OF j, of "[(now, clk)]"] by auto
  qed
qed blast

text \<open>The request as it is when the loop starts.\<close>

lemma loop_start:
  assumes idle: "drv_idle n d" and bio: "rw_bio READ_DIR bio" and fresh: "fbios (d_io d) p = None" and junk: "fbio_mem junk"
    and bus: "bus_inv k (\<lambda>_. 0) Q (bc, d_io d)" "flag_enable_thread bc \<noteq> 0" "finite (dom (fbios (d_io d)))"
    and build: "fb_build_bio (Some p) junk bio (opened now d) = Some (Some p, d1)"
    and b: "fbios (d_io d1) p = Some b" "req_count b \<noteq> 0"
  defines "ms \<equiv> misses (wb_view (fb_wbuf (d_fb d))) (bi_sector bio) (length (bi_segs bio))"
  defines "ls \<equiv> map (lpa_at (bi_sector bio)) ms" and "pages \<equiv> map ((!) (bi_segs bio)) ms"
  shows "loop_ok p ls pages d1 k 0 \<lparr>rd_next = 0, rd_drv = d1, rd_bus = bc, rd_todo = []\<rparr>"
    and "req_count b = of_nat (length ls)" "length pages = length ls" "length ls \<le> NR_MAX_REQ_BIO" "distinct pages" "ftl_lock (d_fb d1) = 1"
    and "bios_of (d_io d1) = add_mset (bi_id bio) (bios_of (d_io d))" "d_fb d1 = d_fb (opened now d)"
    and "got (wb_view (fb_wbuf (d_fb d))) (lpa_at (bi_sector bio)) (bi_segs bio) (length (bi_segs bio)) (kmem d) (kmem d1)"
proof -
  let ?s = "bi_sector bio" and ?segs = "bi_segs bio" and ?o = "opened now d"
  have I: "drv_ok n ?o" using idle by (simp add: drv_idle_def)
  have B: "bi_dir bio = READ_DIR" "length ?segs \<le> NR_MAX_REQ_BIO" "valid_pages ?s (length ?segs)" "distinct ?segs"
    using bio by (simp_all add: rw_bio_def)
  have wf: "wb_wf n (fb_wbuf (d_fb ?o))" using I by (simp add: drv_ok_def wb_ready_def)
  have V: "wbv (bi_dir bio) ?o = wb_view (fb_wbuf (d_fb d))" using B(1) by (simp add: wbv_def)
  obtain b' m where b': "fb_build_bio (Some p) junk bio ?o = Some (Some p, ?o\<lparr>kmem := m,
      d_io := (d_io d)\<lparr>fbios := (fbios (d_io d))(p := Some b')\<rparr>\<rparr>)"
    "noted (wb_view (fb_wbuf (d_fb d))) ?s ?segs (length ?segs) b'"
    "got (wb_view (fb_wbuf (d_fb d))) (lpa_at ?s) ?segs (length ?segs) (kmem d) m" "fbio_bio b' = bi_id bio" "bio_lock b' = 1"
    using build_bio_spec [OF wf valid_pagesD(2) [OF B(3)] B(2,4), of junk p] junk unfolding V fbio_mem_def by auto
  have d1: "d1 = ?o\<lparr>kmem := m, d_io := (d_io d)\<lparr>fbios := (fbios (d_io d))(p := Some b')\<rparr>\<rparr>" using build b'(1) by simp
  then have bb: "b' = b" using b(1) by simp
  have N: "req_count b = of_nat (length ls)" "take (length ls) (fbio_lpas b) = ls" "take (length ls) (fbio_kpages b) = pages"
    using b'(2) by (simp_all add: noted_def ls_def pages_def ms_def bb)
  show "req_count b = of_nat (length ls)" "length pages = length ls" using N(1) by (simp_all add: ls_def pages_def)
  show l: "length ls \<le> NR_MAX_REQ_BIO"
    using length_misses [of "wb_view (fb_wbuf (d_fb d))" ?s "length ?segs"] B(2) by (simp add: ls_def ms_def)
  show "distinct pages" using B(4) by (auto simp: pages_def ms_def distinct_map misses_def inj_on_def nth_eq_iff_index_eq)
  show "d_fb d1 = d_fb ?o" "got (wb_view (fb_wbuf (d_fb d))) (lpa_at ?s) ?segs (length ?segs) (kmem d) (kmem d1)"
    using d1 b'(3) by simp_all
  show lk: "ftl_lock (d_fb d1) = 1" using I d1 by (simp add: drv_ok_def)
  have ne: "ls \<noteq> []" using N(1) b(2) by auto
  have u: "unat (req_count b) = length ls" using N(1) l by (simp add: unat_of_nat_u32 NR_MAX_REQ_BIO_def)
  let ?ops = "replicate (length ls) ((0, 0, OP_READ, Some p) :: dev_op)"
  have rs: "reads_of p ?ops" by (simp add: reads_of_def op_for_def NUM_CHIPS_PER_BUS_def)
  have out: "read_outcome p (bi_id bio) ?ops (d_io d) (d_io d1)"
    using rs ne d1 u b'(4,5) bb by (auto simp: read_outcome_def intro!: exI [of _ b])
  note bs = read_outcome_bios [OF out fresh bus(3)]
  show "bios_of (d_io d1) = add_mset (bi_id bio) (bios_of (d_io d))" by (rule bs(1))
  have inv: "bus_inv k (owed p (length ls)) Q (bc, d_io d1)"
    using read_outcome_bus [OF out fresh bus(1)] unfolding owed_def [abs_def] length_replicate by simp
  have "ftl_ok (d_fb d1)" using I d1 by (simp add: drv_ok_def)
  then show "loop_ok p ls pages d1 k 0 \<lparr>rd_next = 0, rd_drv = d1, rd_bus = bc, rd_todo = []\<rparr>"
    using inv bs(2) bus(2) N(2,3) b(1) by (auto simp: loop_ok_def reads_of_def)
qed

section \<open>The property\<close>

text \<open>
  C14. However the bus thread's rounds fall between the pages of a read, the read never touches a freed request: the
  next page can always be asked for, and the thread never faults. When the loop is over and its operations are handed over, every page is
  delivered, the request counts exactly its queued and running operations, and its bio is completed once or still in hand.
\<close>

theorem read_interleaved:
  assumes "drv_idle n d" "rw_bio READ_DIR bio" "fbios (d_io d) p = None" "fbio_mem junk"
    and "bus_inv k (\<lambda>_. 0) Q (bc, d_io d)" "flag_enable_thread bc \<noteq> 0" "finite (dom (fbios (d_io d)))"
    and "fb_build_bio (Some p) junk bio (opened now d) = Some (Some p, d1)" "fbios (d_io d1) p = Some b" "req_count b \<noteq> 0"
    and "run (read_step p (req_count b)) \<lparr>rd_next = 0, rd_drv = d1, rd_bus = bc, rd_todo = []\<rparr> es r"
  shows "(rd_todo r = [] \<longrightarrow> rd_next r < req_count b \<longrightarrow> (\<exists>d'. read_one p (rd_next r) (rd_drv r) = Some d')) \<and>
    (\<exists>st. fb_bus_ctrl_thread rounds (rd_bus r, d_io (rd_drv r)) = Some st) \<and>
    (rd_todo r = [] \<longrightarrow> rd_next r = req_count b \<longrightarrow>
       (\<exists>Q. bus_inv k (\<lambda>_. 0) Q (rd_bus r, d_io (rd_drv r))) \<and>
       bios_of (d_io (rd_drv r)) = add_mset (bi_id bio) (bios_of (d_io d)) \<and> device_view (d_fb (rd_drv r)) = device_view (d_fb d) \<and>
       kmem (rd_drv r) = deliver (device_view (d_fb d)) (bi_sector bio) (bi_segs bio) (kmem d))"
proof -
  let ?W = "wb_view (fb_wbuf (d_fb d))" and ?s = "bi_sector bio" and ?segs = "bi_segs bio"
  note S = loop_start [OF assms(1-10)]
  let ?ms = "misses ?W ?s (length ?segs)"
  let ?ls = "map (lpa_at ?s) ?ms" and ?pages = "map ((!) ?segs) ?ms"
  obtain j where j: "loop_ok p ?ls ?pages d1 k j r"
    using loop_run [OF assms(11) [unfolded S(2)] S(1,3-6)] by blast
  have J: "j \<le> length ?ls" "rd_next r = of_nat j" using j by (simp_all add: loop_ok_def)
  have u: "unat (of_nat i :: u32) = i" if "i \<le> length ?ls" for i
    using that S(4) by (simp add: unat_of_nat_u32 NR_MAX_REQ_BIO_def)
  have lt: "rd_next r < req_count b \<longleftrightarrow> j < length ?ls" and eq: "rd_next r = req_count b \<longleftrightarrow> j = length ?ls"
    unfolding S(2) J(2) word_less_nat_alt word_unat_eq_iff using u [OF J(1)] u [OF order_refl] by simp_all
  have 1: "\<exists>d'. read_one p (rd_next r) (rd_drv r) = Some d'" if "rd_todo r = []" "rd_next r < req_count b"
    using loop_page [OF j that(1) _ S(3-6)] that(2) lt by blast
  have 2: "\<exists>st. fb_bus_ctrl_thread rounds (rd_bus r, d_io (rd_drv r)) = Some st" using loop_tick [OF j] by blast
  have 3: "(\<exists>Q. bus_inv k (\<lambda>_. 0) Q (rd_bus r, d_io (rd_drv r))) \<and>
       bios_of (d_io (rd_drv r)) = add_mset (bi_id bio) (bios_of (d_io d)) \<and> device_view (d_fb (rd_drv r)) = device_view (d_fb d) \<and>
       kmem (rd_drv r) = deliver (device_view (d_fb d)) ?s ?segs (kmem d)" if t: "rd_todo r = []" "rd_next r = req_count b"
  proof -
    have e: "j = length ?ls" using that eq by simp
    have L: "ftl_data (d_fb (rd_drv r)) = ftl_data (d_fb d)" "fb_wbuf (d_fb (rd_drv r)) = fb_wbuf (d_fb d)"
      "got (ftl_data (d_fb d)) ((!) ?ls) ?pages (length ?ms) (kmem d1) (kmem (rd_drv r))"
      "bios_of (d_io (rd_drv r)) = add_mset (bi_id bio) (bios_of (d_io d))"
      using j S(7) by (simp_all add: loop_ok_def S(8) e)
    have "owed p 0 = (\<lambda>_. 0)" by (simp add: owed_def fun_eq_iff)
    then have inv: "\<exists>Q. bus_inv k (\<lambda>_. 0) Q (rd_bus r, d_io (rd_drv r))" using j t(1) e by (auto simp: loop_ok_def)
    have dist: "distinct ?segs" using assms(2) by (simp add: rw_bio_def)
    have "got (device_view (d_fb d)) (lpa_at ?s) ?segs (length ?segs) (kmem d) (kmem (rd_drv r))"
      unfolding device_view_def by (rule got_compose [OF S(9) dist L(3)])
    then have "kmem (rd_drv r) = deliver (device_view (d_fb d)) ?s ?segs (kmem d)" using deliver_got [OF dist] by simp
    then show ?thesis using inv L by (simp add: device_view_def)
  qed
  show ?thesis using 1 2 3 by blast
qed

text \<open>A read of two pages of the empty device, with the queues of \<open>create_bus_controller\<close>.\<close>

lemma loaded_build:
  "\<exists>d1 b. fb_build_bio (Some 9) zero_fbio demo_read (opened 10 (loaded mem)) = Some (Some 9, d1) \<and>
    fbios (d_io d1) 9 = Some b \<and> req_count b = 2"
proof -
  let ?o = "opened 10 (loaded mem)"
  have W: "wb_view (fb_wbuf (d_fb (loaded mem))) = Map.empty"
    using loaded_spec(2) [of mem] by (simp add: device_view_def)
  have wf: "wb_wf 8 (fb_wbuf (d_fb ?o))" using loaded_spec(1) [of mem] by (simp add: drv_idle_def drv_ok_def wb_ready_def)
  have B: "bi_dir demo_read = READ_DIR" "length (bi_segs demo_read) \<le> NR_MAX_REQ_BIO"
    "valid_pages (bi_sector demo_read) (length (bi_segs demo_read))" "distinct (bi_segs demo_read)"
    using demo_bios(2) by (simp_all add: rw_bio_def)
  have J: "length (fbio_lpas zero_fbio) = NR_MAX_REQ_BIO" "length (fbio_kpages zero_fbio) = NR_MAX_REQ_BIO"
    using demo_bios(3) by (simp_all add: fbio_mem_def)
  have V: "wbv (bi_dir demo_read) ?o = Map.empty" using B(1) W by (simp add: wbv_def)
  obtain b m where b: "fb_build_bio (Some 9) zero_fbio demo_read ?o = Some (Some 9, ?o\<lparr>kmem := m,
      d_io := (d_io ?o)\<lparr>fbios := (fbios (d_io ?o))(9 := Some b)\<rparr>\<rparr>)"
    "noted Map.empty (bi_sector demo_read) (bi_segs demo_read) (length (bi_segs demo_read)) b"
    using build_bio_spec [OF wf valid_pagesD(2) [OF B(3)] B(2,4) J, of 9] unfolding V by blast
  have "misses Map.empty (bi_sector demo_read) (length (bi_segs demo_read)) = [0, 1]"
    by (simp add: misses_def demo_read_def demo_write_def upt_rec)
  then have "req_count b = 2" using b(2) by (simp add: noted_def)
  then show ?thesis using b(1) by simp
qed

theorem read_interleaved_witness:
  "\<exists>d1 d'. fb_build_bio (Some 9) zero_fbio demo_read (opened 10 (loaded (\<lambda>_. [7]))) = Some (Some 9, d1) \<and> read_one 9 0 d1 = Some d'"
proof -
  let ?d = "loaded (\<lambda>_. [7])"
  let ?bc = "(create_bus_controller (\<lambda>_. (OP_READ, None)) demo_bus 16)\<lparr>flag_enable_thread := 1, num_bus := 0\<rparr>"
  have f: "fbios (d_io ?d) = Map.empty" "fbios (d_io ?d) 9 = None" "finite (dom (fbios (d_io ?d)))" by (simp_all add: loaded_spec)
  have bus: "bus_inv 16 (\<lambda>_. 0) (\<lambda>_. []) (?bc, d_io ?d)" "flag_enable_thread ?bc \<noteq> 0"
    using create_bus_controller_inv [OF _ f(1), of 16] by simp_all
  obtain d1 b where b: "fb_build_bio (Some 9) zero_fbio demo_read (opened 10 ?d) = Some (Some 9, d1)" "fbios (d_io d1) 9 = Some b"
    "req_count b = 2" using loaded_build by blast
  have two: "req_count b \<noteq> 0" "(0 :: u32) < req_count b" using b(3) by simp_all
  let ?r = "\<lparr>rd_next = 0, rd_drv = d1, rd_bus = ?bc, rd_todo = []\<rparr>"
  have "run (read_step 9 (req_count b)) ?r [] ?r" by simp
  from read_interleaved [OF loaded_spec(1) demo_bios(2) f(2) demo_bios(3) bus f(3) b(1,2) two(1) this] two(2) b(1)
  show ?thesis by auto
qed

end
