(* ===== verification/FB_Heap.thy ===== *)
theory FB_Heap
  imports FB_Prelude "HOL-Library.Disjoint_Sets"
begin

text \<open>
  The kernel memory that \<open>kmalloc\<close>, \<open>vmalloc\<close> and \<open>kthread_run\<close> hand out, for the creation and
  destruction functions of \<open>FB_Memory\<close>. An object is named by the allocator it came from and the number of the
  call that returned it; the memory of an object holds its pointer fields. Reading or writing a field of
  an object that is not allocated, freeing a pointer twice, freeing it with the wrong function and freeing something that
  never was allocated are undefined (\<open>None\<close>). Memory comes uninitialised: the fields of a new object hold what \<open>cell\<close> held before.

  The locale \<open>memory_owner\<close> is the contract between a structure and those that contain it: what destroying
  it frees depends on nothing but the objects it owns.
\<close>

section \<open>Objects and pointers\<close>

datatype allocator = Kmalloc | Vmalloc | Thread

datatype obj = Obj (kind: allocator) (call: nat)

type_synonym ptr = "obj option"

abbreviation NULL :: ptr where "NULL \<equiv> None"

text \<open>The pointer fields of the structures; an element of an array of pointers is \<open>F_elem\<close>.\<close>

datatype field = F_mappings | F_act_blks | F_hash_btod | F_hash_wtod | F_btod | F_wtod | F_ppas | F_lpas_to_copy
  | F_data_to_copy | F_gc_blks | F_vic_blks | F_first_valid_pg | F_ptr_mapping_table | F_abm | F_delm | F_gcm
  | F_lpas_to_discard | F_list_buses | F_list_chips u32 | F_list_blocks u32 | F_list_pages u32 | F_ptr_vdisk u32
  | F_ptr_bus_controller | F_ptr_opr_queue | F_elem u32 | F_opr_list | F_chip_busies | F_ptr_task | F_data | F_pg_buf
  | F_tbl | F_buckets | F_ptr_vdevice | F_ptr_ssd_info | F_ptr_mapping_context | F_wb | F_ptr_wb_task

text \<open>\<open>answer n\<close> is whether the \<open>n\<close>-th allocation succeeds, \<open>kthreads\<close> whether threads can be started.\<close>

record heap =
  answer :: "nat \<Rightarrow> bool"
  kthreads :: bool
  calls :: nat
  live :: "obj set"
  cell :: "obj \<Rightarrow> field \<Rightarrow> ptr"

section \<open>Operations\<close>

definition allocate :: "allocator \<Rightarrow> heap \<Rightarrow> (ptr \<times> heap) option" where
  "allocate k h = (let n = calls h; h = h\<lparr>calls := n + 1\<rparr> in
     if answer h n then Some (Some (Obj k n), h\<lparr>live := insert (Obj k n) (live h)\<rparr>) else Some (NULL, h))"

definition release :: "allocator \<Rightarrow> ptr \<Rightarrow> heap \<Rightarrow> heap option" where
  "release k p h = (case p of
     None \<Rightarrow> Some h
   | Some x \<Rightarrow> if x \<in> live h \<and> kind x = k then Some (h\<lparr>live := live h - {x}\<rparr>) else None)"

abbreviation kmalloc :: "heap \<Rightarrow> (ptr \<times> heap) option" where "kmalloc \<equiv> allocate Kmalloc"
abbreviation vmalloc :: "heap \<Rightarrow> (ptr \<times> heap) option" where "vmalloc \<equiv> allocate Vmalloc"
abbreviation kfree :: "ptr \<Rightarrow> heap \<Rightarrow> heap option" where "kfree \<equiv> release Kmalloc"
abbreviation vfree :: "ptr \<Rightarrow> heap \<Rightarrow> heap option" where "vfree \<equiv> release Vmalloc"

text \<open>A thread that cannot be started is an error pointer: not \<open>NULL\<close>, but no object either.\<close>

definition kthread_run :: "heap \<Rightarrow> ptr \<times> heap" where
  "kthread_run h = (let n = calls h; h = h\<lparr>calls := n + 1\<rparr> in
     (Some (Obj Thread n), if kthreads h then h\<lparr>live := insert (Obj Thread n) (live h)\<rparr> else h))"

abbreviation kthread_stop :: "ptr \<Rightarrow> heap \<Rightarrow> heap option" where "kthread_stop \<equiv> release Thread"

definition rd :: "ptr \<Rightarrow> field \<Rightarrow> heap \<Rightarrow> ptr option" where
  "rd p f h = (case p of None \<Rightarrow> None | Some x \<Rightarrow> if x \<in> live h then Some (cell h x f) else None)"

definition wr :: "ptr \<Rightarrow> field \<Rightarrow> ptr \<Rightarrow> heap \<Rightarrow> heap option" where
  "wr p f v h = (case p of None \<Rightarrow> None
   | Some x \<Rightarrow> if x \<in> live h then Some (h\<lparr>cell := (cell h)(x := (cell h x)(f := v))\<rparr>) else None)"

text \<open>\<open>p->f = alloc(...)\<close>, with whether the result is not \<open>NULL\<close>; and \<open>if (p->f) { free(p->f); }\<close>.\<close>

definition alloc_field :: "allocator \<Rightarrow> ptr \<Rightarrow> field \<Rightarrow> heap \<Rightarrow> (bool \<times> heap) option" where
  "alloc_field k p f h = do { (q, h) \<leftarrow> allocate k h; h \<leftarrow> wr p f q h; Some (q \<noteq> NULL, h) }"

definition free_field :: "allocator \<Rightarrow> ptr \<Rightarrow> field \<Rightarrow> heap \<Rightarrow> heap option" where
  "free_field k p f h = do { q \<leftarrow> rd p f h; if q \<noteq> NULL then release k q h else Some h }"

section \<open>Frames\<close>

definition heap_wf :: "heap \<Rightarrow> bool" where
  "heap_wf h \<longleftrightarrow> (\<forall>x \<in> live h. call x < calls h)"

text \<open>Allocators that return zeroed memory.\<close>

definition zeroed :: "heap \<Rightarrow> bool" where
  "zeroed h \<longleftrightarrow> (\<forall>x. calls h \<le> call x \<longrightarrow> cell h x = (\<lambda>_. NULL))"

text \<open>\<open>grows X h h' F\<close>: exactly the new objects \<open>F\<close> are allocated, and no old object outside \<open>X\<close> was written.\<close>

definition grows :: "obj set \<Rightarrow> heap \<Rightarrow> heap \<Rightarrow> obj set \<Rightarrow> bool" where
  "grows X h h' F \<longleftrightarrow> answer h' = answer h \<and> kthreads h' = kthreads h \<and> calls h \<le> calls h' \<and> live h' = live h \<union> F \<and>
     (\<forall>x \<in> F. calls h \<le> call x \<and> call x < calls h') \<and> (\<forall>x \<in> live h - X. cell h' x = cell h x) \<and>
     (zeroed h \<longrightarrow> zeroed h')"

lemma grows_refl [simp]: "grows X h h {}"
  by (simp add: grows_def)

lemma growsD:
  assumes "grows X h h' F"
  shows "answer h' = answer h" "kthreads h' = kthreads h" "calls h \<le> calls h'" "live h' = live h \<union> F"
    "x \<in> F \<Longrightarrow> calls h \<le> call x \<and> call x < calls h'" "x \<in> live h \<Longrightarrow> x \<notin> X \<Longrightarrow> cell h' x = cell h x"
    "zeroed h \<Longrightarrow> zeroed h'"
  using assms unfolding grows_def by blast+

lemma grows_wf:
  assumes "grows X h h' F" "heap_wf h"
  shows "heap_wf h'"
  unfolding heap_wf_def
proof
  fix x assume "x \<in> live h'"
  then consider "x \<in> live h" | "x \<in> F" using growsD(4) [OF assms(1)] by blast
  then show "call x < calls h'"
    using growsD(3,5) [OF assms(1)] assms(2) by cases (fastforce simp: heap_wf_def)+
qed

lemma grows_fresh: "grows X h h' F \<Longrightarrow> heap_wf h \<Longrightarrow> F \<inter> live h = {}"
  using growsD(5) by (fastforce simp: heap_wf_def)

lemma grows_trans:
  assumes "grows X h h1 F" "grows Y h1 h2 G" "Y \<inter> live h \<subseteq> X"
  shows "grows X h h2 (F \<union> G)"
proof -
  note A = growsD [OF assms(1)] and B = growsD [OF assms(2)]
  have "cell h2 x = cell h x" if "x \<in> live h" "x \<notin> X" for x
    using A(4,6) B(6) that assms(3) by (metis IntI UnI1 subsetD)
  moreover have "calls h \<le> call x \<and> call x < calls h2" if "x \<in> F \<union> G" for x
    using A(3,5) B(3,5) that by (meson Un_iff le_trans less_le_trans)
  ultimately show ?thesis
    unfolding grows_def using A(1-4,7) B(1-4,7) by (simp add: Un_assoc)
qed

lemma grows_free:
  assumes "grows X h h1 F" "S \<inter> live h = {}"
  shows "grows X h (h1\<lparr>live := live h1 - S\<rparr>) (F - S)"
  using assms by (auto simp: grows_def zeroed_def)

lemma grows_mono: "grows X h h' F \<Longrightarrow> X \<subseteq> Y \<Longrightarrow> grows Y h h' F"
  by (auto simp: grows_def)

lemma allocate_spec:
  assumes "heap_wf h"
  shows "\<exists>p h'. allocate k h = Some (p, h') \<and> grows {} h h' (set_option p) \<and> (p \<noteq> NULL \<longleftrightarrow> answer h (calls h)) \<and>
    (\<forall>x. p = Some x \<longrightarrow> x \<notin> live h \<and> kind x = k \<and> calls h \<le> call x) \<and> cell h' = cell h"
  using assms by (auto simp: allocate_def Let_def grows_def heap_wf_def zeroed_def)

lemma rd_live [simp]: "x \<in> live h \<Longrightarrow> rd (Some x) f h = Some (cell h x f)"
  by (simp add: rd_def)

lemma wr_live [simp]: "x \<in> live h \<Longrightarrow> wr (Some x) f v h = Some (h\<lparr>cell := (cell h)(x := (cell h x)(f := v))\<rparr>)"
  by (simp add: wr_def)

lemma rd_NULL [simp]: "rd NULL f h = None" by (simp add: rd_def)
lemma wr_NULL [simp]: "wr NULL f v h = None" by (simp add: wr_def)
lemma release_NULL [simp]: "release k NULL h = Some h" by (simp add: release_def)

lemma release_live [simp]: "x \<in> live h \<Longrightarrow> kind x = k \<Longrightarrow> release k (Some x) h = Some (h\<lparr>live := live h - {x}\<rparr>)"
  by (simp add: release_def)

lemma grows_wr:
  assumes "heap_wf h" "x \<in> live h"
  shows "grows {x} h (h\<lparr>cell := (cell h)(x := (cell h x)(f := v))\<rparr>) {}"
  using assms by (simp add: grows_def zeroed_def heap_wf_def) (metis not_less)

section \<open>The contract of a structure\<close>

text \<open>
  \<open>own h p F\<close>: destroying what \<open>p\<close> points to frees exactly the objects \<open>F\<close>. It looks at nothing but those objects, so it
  holds as long as they are neither freed nor written.
\<close>

type_synonym own = "heap \<Rightarrow> ptr \<Rightarrow> obj set \<Rightarrow> bool"

locale memory_owner =
  fixes own :: own
    and destroy :: "ptr \<Rightarrow> heap \<Rightarrow> heap option"
  assumes own_NULL [simp]: "own h NULL F \<longleftrightarrow> F = {}"
    and own_live: "own h p F \<Longrightarrow> F \<subseteq> live h"
    and own_cong: "own h p F \<Longrightarrow> \<forall>y \<in> F. cell h' y = cell h y \<Longrightarrow> F \<subseteq> live h' \<Longrightarrow> own h' p F"
    and destroy_own: "own h p F \<Longrightarrow> destroy p h = Some (h\<lparr>live := live h - F\<rparr>)"
begin

lemma own_grows:
  assumes "own h p F" "grows X h h' G" "X \<inter> F = {}"
  shows "own h' p F"
proof (rule own_cong [OF assms(1)])
  show "\<forall>y \<in> F. cell h' y = cell h y"
    using assms(3) own_live [OF assms(1)] growsD(6) [OF assms(2)] by blast
  show "F \<subseteq> live h'" using own_live [OF assms(1)] growsD(4) [OF assms(2)] by blast
qed

lemma own_free:
  assumes "own h p F" "F \<inter> S = {}"
  shows "own (h\<lparr>live := live h - S\<rparr>) p F"
  by (rule own_cong [OF assms(1)]) (use assms own_live [OF assms(1)] in auto)

lemma destroy_new:
  assumes "own h1 p F" "grows X h h1 (F \<union> L)" "F \<inter> L = {}" "heap_wf h"
  shows "\<exists>h2. destroy p h1 = Some h2 \<and> grows X h h2 L"
proof -
  have "F \<union> L - F = L" using assms(3) by auto
  moreover have "F \<inter> live h = {}" using grows_fresh [OF assms(2,4)] by blast
  ultimately show ?thesis using destroy_own [OF assms(1)] grows_free [OF assms(2), of F] by simp
qed

end

text \<open>A single object of allocator \<open>k\<close> without owned fields, and a pointer that must be \<open>NULL\<close>.\<close>

definition plain :: "allocator \<Rightarrow> own" where
  "plain k h p F \<longleftrightarrow> F = set_option p \<and> (\<forall>y \<in> F. y \<in> live h \<and> kind y = k)"

interpretation plain: memory_owner "plain k" "release k"
  by unfold_locales (auto simp: plain_def release_def split: option.splits)

end
