(* ===== verification/FB_Struct.thy ===== *)
theory FB_Struct
  imports FB_Heap
begin

text \<open>
  Structures that own memory through their fields, and functions that build them field by field and clean up when
  an allocation fails. \<open>makes\<close> is the contract of a creation function: for every behaviour of the allocators it either
  returns a structure that owns what it allocated, or returns \<open>NULL\<close> with everything given back but a bounded number of
  leaked objects. \<open>struct_makes\<close> and \<open>extend_makes\<close> prove it for the patterns of the code.
\<close>

section \<open>Structures with owned fields\<close>

definition set_field :: "ptr \<Rightarrow> field \<Rightarrow> (heap \<Rightarrow> (ptr \<times> heap) option) \<Rightarrow> heap \<Rightarrow> (bool \<times> heap) option" where
  "set_field p f create h = do { (q, h) \<leftarrow> create h; h \<leftarrow> wr p f q h; Some (q \<noteq> NULL, h) }"

definition drop_field :: "ptr \<Rightarrow> field \<Rightarrow> (ptr \<Rightarrow> heap \<Rightarrow> heap option) \<Rightarrow> heap \<Rightarrow> heap option" where
  "drop_field p f destroy h = do { q \<leftarrow> rd p f h; destroy q h }"

lemma alloc_field_set: "alloc_field k p f = set_field p f (allocate k)"
  by (rule ext) (simp add: alloc_field_def set_field_def)

lemma free_field_drop: "free_field k p f = drop_field p f (release k)"
proof
  fix h
  show "free_field k p f h = drop_field p f (release k) h"
    by (cases "rd p f h") (auto simp: free_field_def drop_field_def)
qed

text \<open>A field with what it owns and how that is destroyed.\<close>

type_synonym part = "field \<times> own \<times> (ptr \<Rightarrow> heap \<Rightarrow> heap option)"

definition lawful :: "part list \<Rightarrow> bool" where
  "lawful ps \<longleftrightarrow> distinct (map fst ps) \<and> (\<forall>(f, P, d) \<in> set ps. memory_owner P d)"

definition parts :: "part list \<Rightarrow> heap \<Rightarrow> obj \<Rightarrow> (field \<Rightarrow> obj set) \<Rightarrow> bool" where
  "parts ps h x A \<longleftrightarrow> (\<forall>(f, P, d) \<in> set ps. P h (cell h x f) (A f) \<and> x \<notin> A f) \<and>
     disjoint_family_on A (fst ` set ps)"

definition total :: "part list \<Rightarrow> (field \<Rightarrow> obj set) \<Rightarrow> obj set" where
  "total ps A = (\<Union>f \<in> fst ` set ps. A f)"

definition struct :: "allocator \<Rightarrow> part list \<Rightarrow> own" where
  "struct k ps h p F \<longleftrightarrow> (case p of None \<Rightarrow> F = {}
   | Some x \<Rightarrow> x \<in> live h \<and> kind x = k \<and> (\<exists>A. parts ps h x A \<and> F = insert x (total ps A)))"

definition destroy_struct :: "allocator \<Rightarrow> part list \<Rightarrow> ptr \<Rightarrow> heap \<Rightarrow> heap option" where
  "destroy_struct k ps p h = (if p = NULL then Some h else do {
     h \<leftarrow> foldM (\<lambda>(f, P, d). drop_field p f d) ps h;
     release k p h })"

lemma total_simps [simp]: "total [] A = {}" "total (p # ps) A = A (fst p) \<union> total ps A"
  "total (ps @ qs) A = total ps A \<union> total qs A"
  by (auto simp: total_def)

lemma lawful_simps [simp]:
  "lawful []" "lawful ((f, P, d) # ps) \<longleftrightarrow> f \<notin> fst ` set ps \<and> memory_owner P d \<and> lawful ps"
  by (auto simp: lawful_def)

lemma parts_subset:
  assumes "parts ps h x A" "set qs \<subseteq> set ps"
  shows "parts qs h x A"
  using assms disjoint_family_on_mono [of "fst ` set qs" "fst ` set ps" A] unfolding parts_def by blast

lemma parts_notin: "parts ps h x A \<Longrightarrow> x \<notin> total ps A"
  by (fastforce simp: parts_def total_def)

lemma partsD: "parts ps h x A \<Longrightarrow> (f, P, d) \<in> set ps \<Longrightarrow> P h (cell h x f) (A f) \<and> x \<notin> A f"
  by (fastforce simp: parts_def)

lemma parts_Cons:
  "parts ((f, P, d) # ps) h x A \<longleftrightarrow> P h (cell h x f) (A f) \<and> x \<notin> A f \<and> parts ps h x A \<and>
     (f \<notin> fst ` set ps \<longrightarrow> A f \<inter> total ps A = {})"
proof (cases "f \<in> fst ` set ps")
  case True
  then show ?thesis by (auto simp: parts_def insert_absorb)
next
  case False
  then show ?thesis by (auto simp: parts_def total_def disjoint_family_on_insert)
qed

lemma parts_Nil [simp]: "parts [] h x A"
  by (simp add: parts_def disjoint_family_on_def)

lemma total_upd: "f \<notin> fst ` set ps \<Longrightarrow> total ps (A(f := F)) = total ps A"
  by (auto simp: total_def)

lemma parts_upd: "f \<notin> fst ` set ps \<Longrightarrow> parts ps h x (A(f := F)) = parts ps h x A"
proof (induction ps)
  case (Cons p ps)
  obtain g P d where p: "p = (g, P, d)" by (cases p)
  have f: "f \<notin> fst ` set ps" "g \<noteq> f" using Cons.prems p by auto
  show ?case using Cons.IH [OF f(1)] total_upd [OF f(1), of A F] f(2) p by (simp add: parts_Cons del: fun_upd_apply) simp
qed simp

lemma parts_live:
  assumes "lawful ps" "parts ps h x A"
  shows "total ps A \<subseteq> live h"
  using assms
proof (induction ps)
  case (Cons p ps)
  obtain f P d where p: "p = (f, P, d)" by (cases p)
  have "memory_owner P d" using Cons.prems(1) p by simp
  then show ?case using Cons p by (auto simp: parts_Cons dest: memory_owner.own_live)
qed simp

lemma parts_cong:
  assumes "lawful ps" "parts ps h x A" "\<forall>y \<in> total ps A. cell h' y = cell h y" "total ps A \<subseteq> live h'"
    "\<forall>f \<in> fst ` set ps. cell h' x f = cell h x f"
  shows "parts ps h' x A"
  using assms
proof (induction ps)
  case Nil
  then show ?case by simp
next
  case (Cons p ps)
  obtain f P d where p: "p = (f, P, d)" by (cases p)
  have m: "memory_owner P d" using Cons.prems(1) p by simp
  have "P h' (cell h x f) (A f)" by (rule memory_owner.own_cong [OF m]) (use Cons.prems p in \<open>auto simp: parts_Cons\<close>)
  then show ?case using Cons p by (simp add: parts_Cons)
qed

lemma parts_grows:
  assumes "lawful ps" "parts ps h x A" "grows X h h' G" "X \<inter> total ps A = {}"
    "\<forall>f \<in> fst ` set ps. cell h' x f = cell h x f"
  shows "parts ps h' x A"
proof (rule parts_cong [OF assms(1,2)])
  show "\<forall>y \<in> total ps A. cell h' y = cell h y"
    using parts_live [OF assms(1,2)] growsD(6) [OF assms(3)] assms(4) by blast
  show "total ps A \<subseteq> live h'" using parts_live [OF assms(1,2)] growsD(4) [OF assms(3)] by blast
qed (use assms(5) in simp)

lemma drop_parts:
  assumes "lawful ps" "parts ps h x A" "x \<in> live h"
  shows "foldM (\<lambda>(f, P, d). drop_field (Some x) f d) ps h = Some (h\<lparr>live := live h - total ps A\<rparr>)"
  using assms
proof (induction ps arbitrary: h)
  case Nil
  then show ?case by simp
next
  case (Cons p ps)
  obtain f P d where p: "p = (f, P, d)" by (cases p)
  have m: "memory_owner P d" using Cons.prems(1) p by simp
  have P: "P h (cell h x f) (A f)" "x \<notin> A f" "parts ps h x A" "A f \<inter> total ps A = {}" "f \<notin> fst ` set ps" "lawful ps"
    using Cons.prems(1,2) p by (auto simp: parts_Cons total_def)
  let ?h = "h\<lparr>live := live h - A f\<rparr>"
  have "drop_field (Some x) f d h = Some ?h" using memory_owner.destroy_own [OF m P(1)] Cons.prems(3) by (simp add: drop_field_def)
  moreover have "parts ps ?h x A"
    by (rule parts_cong [OF P(6,3)]) (use parts_live [OF P(6,3)] P(4) in auto)
  ultimately show ?case using Cons.IH [of ?h] P Cons.prems(3) p by (simp add: Diff_eq Int_assoc)
qed

lemma struct_owner:
  assumes "lawful ps"
  shows "memory_owner (struct k ps) (destroy_struct k ps)"
proof
  fix h h' p F
  show "struct k ps h NULL F \<longleftrightarrow> F = {}" by (simp add: struct_def)
  assume "struct k ps h p F"
  then consider "p = NULL" "F = {}" | x A where "p = Some x" "x \<in> live h" "kind x = k" "parts ps h x A" "F = insert x (total ps A)"
    by (auto simp: struct_def split: option.splits)
  note cs = this
  show "F \<subseteq> live h" using cs parts_live [OF assms] by cases auto
  show "struct k ps h' p F" if "\<forall>y \<in> F. cell h' y = cell h y" "F \<subseteq> live h'"
    using cs
  proof cases
    case (2 x A)
    then have "parts ps h' x A" using parts_cong [OF assms 2(4), of h'] that by auto
    then show ?thesis using 2 that by (auto simp: struct_def)
  qed (simp add: struct_def)
  show "destroy_struct k ps p h = Some (h\<lparr>live := live h - F\<rparr>)"
    using cs
  proof cases
    case (2 x A)
    have "live h - total ps A - {x} = live h - F" using 2 by auto
    then show ?thesis
      using 2 drop_parts [OF assms 2(4,2)] parts_notin [OF 2(4)] by (simp add: destroy_struct_def)
  qed (simp add: destroy_struct_def)
qed

section \<open>Building a structure field by field\<close>

text \<open>
  A step sets the field \<open>f\<close> of \<open>x\<close>, succeeding with \<open>None\<close> or failing. Either way the field owns what it points to, and
  \<open>L\<close> is allocated but owned by nobody: exactly \<open>ls\<close> objects on success, at most \<open>lf\<close> on failure. When \<open>z\<close> holds, this is promised
  for zeroed memory only; otherwise a failing step is allowed anything.
\<close>

definition may_fail :: "bool \<Rightarrow> heap \<Rightarrow> bool" where
  "may_fail possible h \<longleftrightarrow> \<not> (possible \<and> (\<forall>n. answer h n))"

definition step_ok :: "bool \<Rightarrow> bool \<Rightarrow> nat \<Rightarrow> nat \<Rightarrow> own \<Rightarrow> field \<Rightarrow> obj \<Rightarrow> (heap \<Rightarrow> (int option \<times> heap) option) \<Rightarrow> bool" where
  "step_ok z possible ls lf P f x step \<longleftrightarrow> (\<forall>h. heap_wf h \<longrightarrow> kthreads h \<longrightarrow> x \<in> live h \<longrightarrow>
     (\<exists>r h' F L. step h = Some (r, h') \<and> grows {x} h h' (F \<union> L) \<and> F \<inter> L = {} \<and> P h' (cell h' x f) F \<and>
        (\<forall>g. g \<noteq> f \<longrightarrow> cell h' x g = cell h x g) \<and> finite L \<and>
        (if r = None then card L = ls else card L \<le> lf \<and> may_fail possible h)) \<or>
     z \<and> \<not> zeroed h \<and> may_fail possible h \<and> (\<forall>h'. step h \<noteq> Some (None, h')))"

type_synonym step = "part \<times> nat \<times> nat \<times> (heap \<Rightarrow> (int option \<times> heap) option)"

abbreviation run_steps :: "step list \<Rightarrow> heap \<Rightarrow> (int option \<times> heap) option" where
  "run_steps \<equiv> for_ret (\<lambda>(p, ls, lf, step). step)"

lemma step_okE:
  assumes "step_ok z possible ls lf P f x step" "heap_wf h" "kthreads h" "x \<in> live h"
  obtains (ok) h' F L where "step h = Some (None, h')" "grows {x} h h' (F \<union> L)" "F \<inter> L = {}" "P h' (cell h' x f) F"
      "\<forall>g. g \<noteq> f \<longrightarrow> cell h' x g = cell h x g" "finite L" "card L = ls"
  | (fails) e h' F L where "step h = Some (Some e, h')" "grows {x} h h' (F \<union> L)" "F \<inter> L = {}" "P h' (cell h' x f) F"
      "\<forall>g. g \<noteq> f \<longrightarrow> cell h' x g = cell h x g" "finite L" "card L \<le> lf" "may_fail possible h"
  | (bad) "z" "\<not> zeroed h" "may_fail possible h" "\<And>h'. step h \<noteq> Some (None, h')"
proof -
  from assms have "(\<exists>r h' F L. step h = Some (r, h') \<and> grows {x} h h' (F \<union> L) \<and> F \<inter> L = {} \<and> P h' (cell h' x f) F \<and>
        (\<forall>g. g \<noteq> f \<longrightarrow> cell h' x g = cell h x g) \<and> finite L \<and>
        (if r = None then card L = ls else card L \<le> lf \<and> may_fail possible h)) \<or>
     z \<and> \<not> zeroed h \<and> may_fail possible h \<and> (\<forall>h'. step h \<noteq> Some (None, h'))"
    unfolding step_ok_def by blast
  then show thesis
  proof
    assume "\<exists>r h' F L. step h = Some (r, h') \<and> grows {x} h h' (F \<union> L) \<and> F \<inter> L = {} \<and> P h' (cell h' x f) F \<and>
        (\<forall>g. g \<noteq> f \<longrightarrow> cell h' x g = cell h x g) \<and> finite L \<and>
        (if r = None then card L = ls else card L \<le> lf \<and> may_fail possible h)"
    then obtain r h' F L where s: "step h = Some (r, h')" "grows {x} h h' (F \<union> L)" "F \<inter> L = {}" "P h' (cell h' x f) F"
        "\<forall>g. g \<noteq> f \<longrightarrow> cell h' x g = cell h x g" "finite L"
        "if r = None then card L = ls else card L \<le> lf \<and> may_fail possible h" by blast
    show thesis
    proof (cases r)
      case None
      show thesis by (rule ok [OF s(1) [unfolded None] s(2-6)]) (use s(7) None in simp)
    next
      case (Some e)
      show thesis by (rule fails [OF s(1) [unfolded Some] s(2-6)]) (use s(7) Some in simp_all)
    qed
  qed (use bad in blast)
qed

lemma zeroed_grows: "grows X h h' F \<Longrightarrow> \<not> zeroed h' \<Longrightarrow> \<not> zeroed h"
  using growsD(7) by blast

lemma may_fail_grows: "grows X h h' F \<Longrightarrow> may_fail possible h' = may_fail possible h"
  by (simp add: may_fail_def growsD(1))

text \<open>The state after some steps: the fields of the first \<open>n\<close> parts are set, the others untouched.\<close>

definition built :: "part list \<Rightarrow> nat \<Rightarrow> heap \<Rightarrow> obj \<Rightarrow> heap \<Rightarrow> (field \<Rightarrow> obj set) \<Rightarrow> obj set \<Rightarrow> bool" where
  "built ps n h x h' A L \<longleftrightarrow> n \<le> length ps \<and> grows {x} h h' (total (take n ps) A \<union> L) \<and> total (take n ps) A \<inter> L = {} \<and>
     finite L \<and> parts (take n ps) h' x A \<and> (\<forall>g. g \<notin> fst ` set (take n ps) \<longrightarrow> cell h' x g = cell h x g)"

lemma built_0: "built ps 0 h x h (\<lambda>_. {}) {}"
  by (simp add: built_def)

lemma built_Cons:
  assumes wf: "heap_wf h" "x \<in> live h" and law: "lawful ((f, P, d) # ps)"
    and g: "grows {x} h h1 (F \<union> L)" "F \<inter> L = {}" "P h1 (cell h1 x f) F" "finite L" "\<forall>g. g \<noteq> f \<longrightarrow> cell h1 x g = cell h x g"
    and b: "built ps n h1 x h2 A M"
  shows "built ((f, P, d) # ps) (Suc n) h x h2 (A(f := F)) (L \<union> M)" "L \<inter> M = {}"
proof -
  have m: "memory_owner P d" and f: "f \<notin> fst ` set ps" and lps: "lawful ps" using law by auto
  have wf1: "heap_wf h1" by (rule grows_wf [OF g(1) wf(1)])
  note B = b [unfolded built_def]
  let ?T = "total (take n ps) A"
  have fr: "(F \<union> L) \<inter> live h = {}" "(?T \<union> M) \<inter> live h1 = {}" "F \<union> L \<subseteq> live h1"
    using grows_fresh [OF g(1) wf(1)] grows_fresh [OF _ wf1] B growsD(4) [OF g(1)] by blast+
  have x: "x \<notin> F" using fr(1) wf(2) by blast
  have ft: "f \<notin> fst ` set (take n ps)" using f by (auto dest: in_set_takeD)
  have "parts (take n ps) h2 x (A(f := F))" using B ft by (simp add: parts_upd)
  moreover have "total (take n ps) (A(f := F)) = ?T" using ft by (rule total_upd)
  moreover have "cell h2 x f = cell h1 x f" using B ft by blast
  moreover have "P h2 (cell h1 x f) F"
    by (rule memory_owner.own_grows [OF m g(3)]) (use B x in blast)+
  moreover have "grows {x} h h2 ((F \<union> L) \<union> (?T \<union> M))"
    by (rule grows_trans [OF g(1)]) (use B in auto)
  moreover have "F \<inter> ?T = {}" using fr by blast
  moreover have "(F \<union> ?T) \<inter> (L \<union> M) = {}" using B g(2) fr by blast
  moreover have "(F \<union> ?T) \<union> (L \<union> M) = (F \<union> L) \<union> (?T \<union> M)" by blast
  moreover have "cell h2 x k = cell h x k" if "k \<notin> insert f (fst ` set (take n ps))" for k
    using that B g(5) by (metis insertCI)
  ultimately show "built ((f, P, d) # ps) (Suc n) h x h2 (A(f := F)) (L \<union> M)"
    using B g(4) x by (simp add: built_def parts_Cons del: fun_upd_apply) simp
  show "L \<inter> M = {}" using fr by blast
qed

text \<open>The steps one after the other.\<close>

lemma run_steps_spec:
  assumes "lawful (map fst ss)" "\<forall>((f, P, d), ls, lf, step) \<in> set ss. step_ok z possible ls lf P f x step \<and> ls \<le> lf"
    "heap_wf h" "kthreads h" "x \<in> live h"
  shows "(\<exists>r h' n A L. run_steps ss h = Some (r, h') \<and> built (map fst ss) n h x h' A L \<and>
      (if r = None then n = length ss \<and> card L = (\<Sum>(p, ls, lf, step) \<leftarrow> ss. ls)
       else 0 < n \<and> card L \<le> (\<Sum>(p, ls, lf, step) \<leftarrow> ss. lf) \<and> may_fail possible h)) \<or>
    z \<and> \<not> zeroed h \<and> may_fail possible h \<and> (\<forall>h'. run_steps ss h \<noteq> Some (None, h'))"
  using assms
proof (induction ss arbitrary: h)
  case Nil
  then show ?case using built_0 [of "[]" h x] by fastforce
next
  case (Cons s ss)
  obtain f P d ls lf step where s: "s = ((f, P, d), ls, lf, step)" by (cases s) auto
  have so: "step_ok z possible ls lf P f x step" "ls \<le> lf" using Cons.prems(2) s by auto
  from so(1) Cons.prems(3-5) show ?case
  proof (cases rule: step_okE)
    case (fails e h' F L)
    have "built ((f, P, d) # map fst ss) (Suc 0) h x h' ((\<lambda>_. {})(f := F)) (L \<union> {})"
      by (rule built_Cons(1) [where P = P and d = d, OF Cons.prems(3,5) _ fails(2-4,6,5) built_0]) (use Cons.prems(1) s in simp_all)
    then show ?thesis using fails(1,7,8) s
      by (intro disjI1 exI [of _ "Some e"] exI [of _ h'] exI [of _ "Suc 0"] exI) auto
  next
    case bad
    then show ?thesis using s by (auto split: Option.bind_splits option.splits)
  next
    case (ok h1 F L)
    have h1: "heap_wf h1" "kthreads h1" "x \<in> live h1"
      using grows_wf [OF ok(2) Cons.prems(3)] growsD(2,4) [OF ok(2)] Cons.prems(4,5) by auto
    have law: "lawful ((f, P, d) # map fst ss)" using Cons.prems(1) s by simp
    have rs: "run_steps (s # ss) h = run_steps ss h1" using ok(1) s by simp
    from Cons.IH [OF _ _ h1] consider
      (A) r h' n A M where "run_steps ss h1 = Some (r, h')" "built (map fst ss) n h1 x h' A M"
        "if r = None then n = length ss \<and> card M = (\<Sum>(p, ls, lf, step) \<leftarrow> ss. ls)
         else 0 < n \<and> card M \<le> (\<Sum>(p, ls, lf, step) \<leftarrow> ss. lf) \<and> may_fail possible h1"
      | (B) "z" "\<not> zeroed h1" "may_fail possible h1" "\<forall>h'. run_steps ss h1 \<noteq> Some (None, h')"
      using law Cons.prems(2) by auto
    then show ?thesis
    proof cases
      case (A r h' n A M)
      note b = built_Cons [OF Cons.prems(3,5) law ok(2-4,6,5) A(2)]
      have "finite M" using A(2) by (simp add: built_def)
      then have "card (L \<union> M) = ls + card M" using ok(6,7) b(2) by (simp add: card_Un_disjoint)
      then show ?thesis using A(1,3) b(1) rs so(2) s may_fail_grows [OF ok(2)]
        by (intro disjI1 exI [of _ r] exI [of _ h'] exI [of _ "Suc n"] exI [of _ "A(f := F)"] exI [of _ "L \<union> M"])
          (auto split: if_splits simp del: fun_upd_apply)
    next
      case B
      then show ?thesis using rs may_fail_grows [OF ok(2)] zeroed_grows [OF ok(2)] by auto
    qed
  qed
qed

section \<open>Functions that create a structure\<close>

definition makes :: "bool \<Rightarrow> bool \<Rightarrow> nat \<Rightarrow> nat \<Rightarrow> own \<Rightarrow> (heap \<Rightarrow> (ptr \<times> heap) option) \<Rightarrow> bool" where
  "makes z possible ls lf P create \<longleftrightarrow> (\<forall>h. heap_wf h \<longrightarrow> kthreads h \<longrightarrow>
     (\<exists>q h' F L. create h = Some (q, h') \<and> grows {} h h' (F \<union> L) \<and> F \<inter> L = {} \<and> P h' q F \<and> finite L \<and>
        (if q \<noteq> NULL then card L = ls else card L \<le> lf \<and> may_fail possible h)) \<or>
     z \<and> \<not> zeroed h \<and> may_fail possible h \<and> (\<forall>q h'. create h = Some (q, h') \<longrightarrow> q = NULL))"

lemma makesE:
  assumes "makes z possible ls lf P create" "heap_wf h" "kthreads h"
  obtains (ok) x h' F L where "create h = Some (Some x, h')" "grows {} h h' (F \<union> L)" "F \<inter> L = {}" "P h' (Some x) F"
      "finite L" "card L = ls"
  | (fails) h' F L where "create h = Some (NULL, h')" "grows {} h h' (F \<union> L)" "F \<inter> L = {}" "P h' NULL F"
      "finite L" "card L \<le> lf" "may_fail possible h"
  | (bad) "z" "\<not> zeroed h" "may_fail possible h" "\<And>q h'. create h = Some (q, h') \<Longrightarrow> q = NULL"
proof -
  from assms consider
    q h' F L where "create h = Some (q, h')" "grows {} h h' (F \<union> L)" "F \<inter> L = {}" "P h' q F" "finite L"
      "if q \<noteq> NULL then card L = ls else card L \<le> lf \<and> may_fail possible h"
  | "z" "\<not> zeroed h" "may_fail possible h" "\<And>q h'. create h = Some (q, h') \<Longrightarrow> q = NULL"
    unfolding makes_def by blast
  then show thesis
  proof cases
    case (1 q h' F L)
    show thesis
    proof (cases q)
      case None
      show thesis by (rule fails [OF 1(1-5) [unfolded None]]) (use 1(6) None in simp_all)
    next
      case (Some x)
      show thesis by (rule ok [OF 1(1-5) [unfolded Some]]) (use 1(6) Some in simp)
    qed
  qed (use bad in blast)
qed

lemma allocate_makes: "makes False True 0 0 (plain k) (allocate k)"
  unfolding makes_def
proof (intro allI impI disjI1)
  fix h assume "heap_wf h" "kthreads h"
  from allocate_spec [OF this(1), of k] obtain p h' where
    a: "allocate k h = Some (p, h')" "grows {} h h' (set_option p)" "p \<noteq> NULL \<longleftrightarrow> answer h (calls h)"
      "\<And>x. p = Some x \<Longrightarrow> x \<notin> live h \<and> kind x = k" by blast
  have "plain k h' p (set_option p)" using a(4) growsD(4) [OF a(2)] by (auto simp: plain_def)
  then show "\<exists>q h' F L. allocate k h = Some (q, h') \<and> grows {} h h' (F \<union> L) \<and> F \<inter> L = {} \<and> plain k h' q F \<and> finite L \<and>
      (if q \<noteq> NULL then card L = 0 else card L \<le> 0 \<and> may_fail True h)"
    using a by (intro exI [of _ p] exI [of _ h'] exI [of _ "set_option p"] exI [of _ "{}"]) (auto simp: may_fail_def)
qed

text \<open>\<open>x->f = create(...)\<close> as a step.\<close>

definition set_step :: "ptr \<Rightarrow> field \<Rightarrow> (heap \<Rightarrow> (ptr \<times> heap) option) \<Rightarrow> heap \<Rightarrow> (int option \<times> heap) option" where
  "set_step p f create h = do { (ok, h) \<leftarrow> set_field p f create h; Some (if ok then None else Some (-1), h) }"

lemma set_field_grows:
  assumes own: "memory_owner P d" and wf: "heap_wf h" "x \<in> live h"
    and g: "grows {} h h' (F \<union> L)" "P h' q F"
    and h2_def: "h2 = h'\<lparr>cell := (cell h')(x := (cell h' x)(f := q))\<rparr>"
  shows "wr (Some x) f q h' = Some h2" "grows {x} h h2 (F \<union> L)" "P h2 (cell h2 x f) F" "\<And>g. g \<noteq> f \<Longrightarrow> cell h2 x g = cell h x g"
proof -
  have x: "x \<in> live h'" "x \<notin> F" using growsD(4) [OF g(1)] grows_fresh [OF g(1) wf(1)] wf(2) by auto
  show "wr (Some x) f q h' = Some h2" using x by (simp add: h2_def)
  have w: "grows {x} h' h2 {}" unfolding h2_def by (rule grows_wr [OF grows_wf [OF g(1) wf(1)] x(1)])
  have "grows {x} h h2 ((F \<union> L) \<union> {})" by (rule grows_trans [OF grows_mono [OF g(1)] w]) simp_all
  then show "grows {x} h h2 (F \<union> L)" by simp
  show "P h2 (cell h2 x f) F"
    using memory_owner.own_grows [OF own g(2) w] x(2) by (simp add: h2_def)
  show "cell h2 x g = cell h x g" if "g \<noteq> f" for g
    using that growsD(6) [OF g(1)] wf(2) by (simp add: h2_def)
qed

lemma set_step_ok:
  assumes m: "makes z possible ls lf P create" and own: "memory_owner P d"
  shows "step_ok z possible ls lf P f x (set_step (Some x) f create)"
  unfolding step_ok_def
proof (intro allI impI)
  fix h assume wf: "heap_wf h" "kthreads h" "x \<in> live h"
  let ?G = "\<lambda>r h' F L. set_step (Some x) f create h = Some (r, h') \<and> grows {x} h h' (F \<union> L) \<and> F \<inter> L = {} \<and>
    P h' (cell h' x f) F \<and> (\<forall>g. g \<noteq> f \<longrightarrow> cell h' x g = cell h x g) \<and> finite L \<and>
    (if r = None then card L = ls else card L \<le> lf \<and> may_fail possible h)"
  let ?B = "z \<and> \<not> zeroed h \<and> may_fail possible h \<and> (\<forall>h'. set_step (Some x) f create h \<noteq> Some (None, h'))"
  from m wf(1,2) have "(\<exists>r h' F L. ?G r h' F L) \<or> ?B"
  proof (cases rule: makesE)
    case (ok y h' F L)
    note s = set_field_grows [OF own wf(1,3) ok(2,4) refl, where f = f]
    have "set_step (Some x) f create h = Some (None, h'\<lparr>cell := (cell h')(x := (cell h' x)(f := Some y))\<rparr>)"
      using ok(1) s(1) by (simp add: set_step_def set_field_def del: wr_live)
    then show ?thesis using ok(3,5,6) s(2-4) by (intro disjI1 exI conjI) auto
  next
    case (fails h' F L)
    note s = set_field_grows [OF own wf(1,3) fails(2,4) refl, where f = f]
    have "set_step (Some x) f create h = Some (Some (-1), h'\<lparr>cell := (cell h')(x := (cell h' x)(f := NULL))\<rparr>)"
      using fails(1) s(1) by (simp add: set_step_def set_field_def del: wr_live)
    then show ?thesis using fails(3,5,6,7) s(2-4) by (intro disjI1 exI conjI) auto
  next
    case bad
    then have ?B by (auto simp: set_step_def set_field_def split: Option.bind_splits if_splits)
    then show ?thesis ..
  qed
  then show "(\<exists>r h' F L. ?G r h' F L) \<or> ?B" .
qed

lemma alloc_step_ok: "step_ok False True 0 0 (plain k) f x (set_step (Some x) f (allocate k))"
  by (rule set_step_ok [OF allocate_makes plain.memory_owner_axioms])

lemma step_ok_weaken:
  assumes "step_ok z possible ls lf P f x step" "z \<longrightarrow> z'" "possible' \<longrightarrow> possible"
  shows "step_ok z' possible' ls lf P f x step"
proof -
  have "may_fail possible' h" if "may_fail possible h" for h using that assms(3) by (auto simp: may_fail_def)
  then show ?thesis using assms(1,2) unfolding step_ok_def by (smt (verit))
qed

lemma makes_weaken:
  assumes "makes z possible ls lf P create" "z \<longrightarrow> z'" "possible' \<longrightarrow> possible" "lf \<le> lf'"
  shows "makes z' possible' ls lf' P create"
proof -
  have m: "may_fail possible' h" if "may_fail possible h" for h using that assms(3) by (auto simp: may_fail_def)
  show ?thesis unfolding makes_def
  proof (intro allI impI)
    fix h assume "heap_wf h" "kthreads h"
    with assms(1) show "(\<exists>q h' F L. create h = Some (q, h') \<and> grows {} h h' (F \<union> L) \<and> F \<inter> L = {} \<and> P h' q F \<and> finite L \<and>
        (if q \<noteq> NULL then card L = ls else card L \<le> lf' \<and> may_fail possible' h)) \<or>
      z' \<and> \<not> zeroed h \<and> may_fail possible' h \<and> (\<forall>q h'. create h = Some (q, h') \<longrightarrow> q = NULL)"
    proof (cases rule: makesE)
      case (ok x h' F L)
      then show ?thesis by (intro disjI1 exI [of _ "Some x"] exI [of _ h'] exI [of _ F] exI [of _ L]) simp
    next
      case (fails h' F L)
      then show ?thesis using m assms(4)
        by (intro disjI1 exI [of _ NULL] exI [of _ h'] exI [of _ F] exI [of _ L]) simp
    qed (use m assms(2) in blast)
  qed
qed

text \<open>When the memory was zeroed, the fields that were not reached are \<open>NULL\<close> and own nothing.\<close>

lemma disjoint_extend:
  "disjoint_family_on A S \<Longrightarrow> disjoint_family_on (\<lambda>f. if f \<in> S then A f else {}) T"
  by (auto simp: disjoint_family_on_def)

lemma built_all:
  assumes law: "lawful ps" and b: "built ps n h x h' A L"
    and rest: "n = length ps \<or> (\<forall>f \<in> fst ` set (drop n ps). cell h x f = NULL)"
  shows "\<exists>B. parts ps h' x B \<and> total ps B = total (take n ps) A"
proof (cases "n = length ps")
  case True
  then show ?thesis using b by (intro exI [of _ A]) (simp add: built_def)
next
  case False
  let ?B = "\<lambda>f. if f \<in> fst ` set (take n ps) then A f else {}"
  have d: "fst ` set (take n ps) \<inter> fst ` set (drop n ps) = {}"
    using law distinct_append [of "map fst (take n ps)" "map fst (drop n ps)"]
    by (simp add: lawful_def flip: map_append)
  have P: "P h' (cell h' x f) (?B f) \<and> x \<notin> ?B f" if i: "(f, P, d) \<in> set ps" for f P d
  proof (cases "(f, P, d) \<in> set (take n ps)")
    case True
    then have "f \<in> fst ` set (take n ps)" by force
    then show ?thesis using True b partsD [of "take n ps" h' x A f P d] by (simp add: built_def)
  next
    case no: False
    then have i': "(f, P, d) \<in> set (drop n ps)" using i by (metis Un_iff append_take_drop_id set_append)
    then have f: "f \<in> fst ` set (drop n ps)" by force
    then have "f \<notin> fst ` set (take n ps)" using d by blast
    moreover have "cell h x f = NULL" using rest f False by (metis (no_types))
    moreover have "memory_owner P d" using law i unfolding lawful_def by blast
    ultimately show ?thesis using b by (auto simp: built_def memory_owner.own_NULL)
  qed
  have "disjoint_family_on A (fst ` set (take n ps))" using b by (simp add: built_def parts_def)
  then have "disjoint_family_on ?B (fst ` set ps)" by (rule disjoint_extend)
  moreover have "total ps ?B = total (take n ps) A"
    by (auto simp: total_def dest: in_set_takeD)
  ultimately show ?thesis using P by (intro exI [of _ ?B]) (auto simp: parts_def)
qed

text \<open>
  A function that allocates an object, sets its fields \<open>ps\<close>, and destroys it when a step fails or something else does
  (\<open>extra\<close>). The fields that were not reached are a problem unless there is only one or the memory is zeroed.
\<close>

lemma struct_makes:
  fixes ss :: "obj \<Rightarrow> step list"
  assumes law: "lawful ps" "\<And>x. map fst (ss x) = ps"
    and steps: "\<And>x. \<forall>((f, P, d), ls, lf, step) \<in> set (ss x). step_ok z possible ls lf P f x step \<and> ls \<le> lf"
    and sums: "\<And>x. (\<Sum>(p, ls, lf, step) \<leftarrow> ss x. ls) = ls" "\<And>x. (\<Sum>(p, ls, lf, step) \<leftarrow> ss x. lf) = lf"
    and z: "z \<or> length ps \<le> 1"
    and own: "memory_owner (struct k ps) clean"
    and create: "\<And>h. create h = do { (p, h) \<leftarrow> allocate k h;
      case p of None \<Rightarrow> Some (NULL, h)
      | Some x \<Rightarrow> do { (r, h) \<leftarrow> run_steps (ss x) h;
          if r \<noteq> None \<or> \<not> extra then do { h \<leftarrow> clean p h; Some (NULL, h) } else Some (p, h) } }"
    and le: "ls \<le> lf" and extra: "possible \<longrightarrow> extra"
  shows "makes z possible ls lf (struct k ps) create"
  unfolding makes_def
proof (intro allI impI)
  fix h assume wf: "heap_wf h" "kthreads h"
  let ?G = "\<lambda>q h' F L. create h = Some (q, h') \<and> grows {} h h' (F \<union> L) \<and> F \<inter> L = {} \<and> struct k ps h' q F \<and> finite L \<and>
    (if q \<noteq> NULL then card L = ls else card L \<le> lf \<and> may_fail possible h)"
  let ?B = "z \<and> \<not> zeroed h \<and> may_fail possible h \<and> (\<forall>q h'. create h = Some (q, h') \<longrightarrow> q = NULL)"
  obtain p h1 where a: "allocate k h = Some (p, h1)" "grows {} h h1 (set_option p)" "p \<noteq> NULL \<longleftrightarrow> answer h (calls h)"
      "\<And>x. p = Some x \<Longrightarrow> x \<notin> live h \<and> kind x = k \<and> calls h \<le> call x" "cell h1 = cell h"
    using allocate_spec [OF wf(1), of k] by blast
  show "(\<exists>q h' F L. ?G q h' F L) \<or> ?B"
  proof (cases p)
    case None
    then have "?G NULL h1 {} {}" using a(1-3) by (auto simp: create may_fail_def struct_def)
    then show ?thesis by blast
  next
    case (Some x)
    have x: "x \<in> live h1" "x \<notin> live h" "kind x = k" using growsD(4) [OF a(2)] a(4) [OF Some] Some by auto
    have wf1: "heap_wf h1" "kthreads h1" using grows_wf [OF a(2) wf(1)] growsD(2) [OF a(2)] wf(2) by auto
    have mf: "may_fail possible h1 = may_fail possible h" by (rule may_fail_grows [OF a(2)])
    have c: "create h = do { (r, h) \<leftarrow> run_steps (ss x) h1;
        if r \<noteq> None \<or> \<not> extra then do { h \<leftarrow> clean p h; Some (NULL, h) } else Some (p, h) }"
      unfolding create Some using a(1) Some by simp
    have law': "lawful (map fst (ss x))" using law by simp
    have len: "length (ss x) = length ps" using arg_cong [OF law(2), of length x] by simp
    from run_steps_spec [OF law' steps wf1 x(1)] consider
      (A) r h2 n A L where "run_steps (ss x) h1 = Some (r, h2)" "built ps n h1 x h2 A L"
        "if r = None then n = length ps \<and> card L = ls else 0 < n \<and> card L \<le> lf \<and> may_fail possible h1"
      | (B) "z" "\<not> zeroed h1" "may_fail possible h1" "\<forall>h'. run_steps (ss x) h1 \<noteq> Some (None, h')"
      unfolding law(2) sums len by blast
    then show ?thesis
    proof cases
      case B
      then have ?B using c mf zeroed_grows [OF a(2)] by (auto split: Option.bind_splits if_splits)
      then show ?thesis ..
    next
      case (A r h2 n A L)
      show ?thesis
      proof (cases "n = length ps \<or> zeroed h")
        case True
        have zr: "\<forall>f \<in> fst ` set (drop n ps). cell h1 x f = NULL" if "zeroed h"
          using that a(4) [OF Some] a(5) by (simp add: zeroed_def)
        have "n = length ps \<or> (\<forall>f \<in> fst ` set (drop n ps). cell h1 x f = NULL)"
          using True
        proof
          assume "zeroed h"
          then show ?thesis by (rule disjI2 [OF zr])
        qed (rule disjI1)
        from built_all [OF law(1) A(2) this]
        obtain B where B: "parts ps h2 x B" "total ps B = total (take n ps) A" by (elim exE conjE)
        note b = A(2) [unfolded built_def]
        let ?F = "insert x (total ps B)"
        have own2: "struct k ps h2 p ?F"
          using B(1) x growsD(4) [of "{x}" h1 h2] b Some by (auto simp: struct_def)
        have g: "grows {} h h2 (set_option p \<union> (total ps B \<union> L))"
          by (rule grows_trans [OF a(2)]) (use b B(2) x(2) in auto)
        have F: "?F \<inter> L = {}" "finite L" "grows {} h h2 (?F \<union> L)"
          using b B(2) g Some grows_fresh [of "{x}" h1 h2 "total ps B \<union> L"] wf1 x(1) by auto
        show ?thesis
        proof (cases "r = None \<and> extra")
          case True
          then have "?G p h2 ?F L" using c A own2 F Some by auto
          then show ?thesis by blast
        next
          case False
          obtain h3 where h3: "clean p h2 = Some h3" "grows {} h h3 L"
            using memory_owner.destroy_new [OF own own2 F(3,1) wf(1)] by blast
          have "?G NULL h3 {} L"
            using False A(1,3) c h3 F(2) mf le extra memory_owner.own_NULL [OF own]
            by (auto simp: may_fail_def split: if_splits)
          then show ?thesis by blast
        qed
      next
        case False
        then have "r \<noteq> None" "z" using A(2,3) z by (auto simp: built_def split: if_splits)
        then have ?B using False A(1,3) c mf by (auto split: Option.bind_splits if_splits)
        then show ?thesis ..
      qed
    qed
  qed
qed

lemma alloc_field_new:
  assumes wf: "heap_wf h" "x \<in> live h"
  obtains p h1 where "alloc_field k (Some x) f h = Some (p \<noteq> NULL, h1)" "grows {x} h h1 (set_option p)" "cell h1 x f = p"
    "p \<noteq> NULL \<longleftrightarrow> answer h (calls h)" "\<And>y. p = Some y \<Longrightarrow> y \<notin> live h \<and> kind y = k \<and> calls h \<le> call y"
    "\<forall>g. g \<noteq> f \<longrightarrow> cell h1 x g = cell h x g" "\<And>y. y \<noteq> x \<Longrightarrow> cell h1 y = cell h y"
proof -
  obtain p h0 where a: "allocate k h = Some (p, h0)" "grows {} h h0 (set_option p)" "p \<noteq> NULL \<longleftrightarrow> answer h (calls h)"
      "\<And>y. p = Some y \<Longrightarrow> y \<notin> live h \<and> kind y = k \<and> calls h \<le> call y" "cell h0 = cell h"
    using allocate_spec [OF wf(1), of k] by blast
  define h1 where "h1 = h0\<lparr>cell := (cell h0)(x := (cell h0 x)(f := p))\<rparr>"
  have x0: "x \<in> live h0" using growsD(4) [OF a(2)] wf(2) by auto
  have w: "grows {x} h0 h1 {}" unfolding h1_def by (rule grows_wr [OF grows_wf [OF a(2) wf(1)] x0])
  have g: "grows {x} h h1 (set_option p \<union> {})" by (rule grows_trans [OF grows_mono [OF a(2)] w]) simp_all
  show thesis
    by (rule that [of p h1]) (use a g x0 in \<open>simp_all add: alloc_field_def h1_def\<close>)
qed

text \<open>
  The same for an object that is stored in the field \<open>f\<close> of \<open>x\<close> before \<open>fill\<close> sets its own fields: the whole is one step of \<open>x\<close>.
\<close>

definition fills :: "bool \<Rightarrow> bool \<Rightarrow> allocator \<Rightarrow> own \<Rightarrow> obj \<Rightarrow> (heap \<Rightarrow> (int option \<times> heap) option) \<Rightarrow> bool" where
  "fills z possible k P y fill \<longleftrightarrow> (\<forall>h. heap_wf h \<longrightarrow> kthreads h \<longrightarrow> y \<in> live h \<longrightarrow> kind y = k \<longrightarrow>
     (\<exists>r h' F. fill h = Some (r, h') \<and> grows {y} h h' F \<and> P h' (Some y) (insert y F) \<and> (r \<noteq> None \<longrightarrow> may_fail possible h)) \<or>
     z \<and> \<not> (zeroed h \<and> cell h y = (\<lambda>_. NULL)) \<and> may_fail possible h \<and> (\<forall>h'. fill h \<noteq> Some (None, h')))"

lemma fill_step_ok:
  assumes own: "\<And>h F. P h NULL F \<longleftrightarrow> F = {}"
    and fill: "\<And>y. y \<noteq> x \<Longrightarrow> fills z possible k P y (fill y)"
    and step: "\<And>h. step h = do {
      (ok, h) \<leftarrow> alloc_field k (Some x) f h;
      if \<not> ok then Some (Some (-1), h) else do {
      p \<leftarrow> rd (Some x) f h;
      case p of None \<Rightarrow> None | Some y \<Rightarrow> fill y h } }"
  shows "step_ok z possible 0 0 P f x step"
  unfolding step_ok_def
proof (intro allI impI)
  fix h assume wf: "heap_wf h" "kthreads h" "x \<in> live h"
  let ?G = "\<lambda>r h' F L. step h = Some (r, h') \<and> grows {x} h h' (F \<union> L) \<and> F \<inter> L = {} \<and>
    P h' (cell h' x f) F \<and> (\<forall>g. g \<noteq> f \<longrightarrow> cell h' x g = cell h x g) \<and> finite L \<and>
    (if r = None then card L = 0 else card L \<le> 0 \<and> may_fail possible h)"
  let ?B = "z \<and> \<not> zeroed h \<and> may_fail possible h \<and> (\<forall>h'. step h \<noteq> Some (None, h'))"
  obtain p h1 where al: "alloc_field k (Some x) f h = Some (p \<noteq> NULL, h1)" and g1: "grows {x} h h1 (set_option p)"
    and p: "cell h1 x f = p" "p \<noteq> NULL \<longleftrightarrow> answer h (calls h)" "\<And>y. p = Some y \<Longrightarrow> y \<notin> live h \<and> kind y = k \<and> calls h \<le> call y"
    and c1: "\<forall>g. g \<noteq> f \<longrightarrow> cell h1 x g = cell h x g" "\<And>y. y \<noteq> x \<Longrightarrow> cell h1 y = cell h y"
    by (rule alloc_field_new [OF wf(1,3), of k f]) blast
  have x1: "x \<in> live h1" using growsD(4) [OF g1] wf(3) by auto
  have "(\<exists>r h' F L. ?G r h' F L) \<or> ?B"
  proof (cases p)
    case None
    then have "?G (Some (-1)) h1 {} {}" using al p(1,2) c1(1) g1 by (auto simp: step may_fail_def own)
    then show ?thesis by blast
  next
    case (Some y)
    have y: "y \<in> live h1" "y \<notin> live h" "kind y = k" "y \<noteq> x" using growsD(4) [OF g1] p(3) [OF Some] Some wf(3) by auto
    have wf1: "heap_wf h1" "kthreads h1" using grows_wf [OF g1 wf(1)] growsD(2) [OF g1] wf(2) by auto
    have mf: "may_fail possible h1 = may_fail possible h" by (rule may_fail_grows [OF g1])
    have zr: "zeroed h1 \<and> cell h1 y = (\<lambda>_. NULL)" if "zeroed h"
      using that growsD(7) [OF g1] p(3) [OF Some] c1(2) [OF y(4)] by (simp add: zeroed_def)
    have c: "step h = fill y h1" using al p(1) x1 Some by (simp add: step)
    from fill [OF y(4), unfolded fills_def] wf1 y(1,3) consider
      (A) r h2 F where "fill y h1 = Some (r, h2)" "grows {y} h1 h2 F" "P h2 (Some y) (insert y F)" "r \<noteq> None \<longrightarrow> may_fail possible h1"
      | (B) "z" "\<not> (zeroed h1 \<and> cell h1 y = (\<lambda>_. NULL))" "may_fail possible h1" "\<forall>h'. fill y h1 \<noteq> Some (None, h')"
      by blast
    then show ?thesis
    proof cases
      case B
      then have ?B using c mf zr by auto
      then show ?thesis ..
    next
      case (A r h2 F)
      have g: "grows {x} h h2 (set_option p \<union> F)" by (rule grows_trans [OF g1 A(2)]) (use y in auto)
      have cx: "cell h2 x = cell h1 x" using growsD(6) [OF A(2) x1] y(4) by simp
      have "?G r h2 (insert y F) {}" using c A(1,3,4) cx p(1) c1(1) mf g Some by (auto split: if_splits)
      then show ?thesis by blast
    qed
  qed
  then show "(\<exists>r h' F L. ?G r h' F L) \<or> ?B" .
qed

lemma struct_fills:
  assumes law: "lawful ps" "map fst ss = ps"
    and steps: "\<forall>((f, P, d), ls, lf, step) \<in> set ss. step_ok True possible ls lf P f y step \<and> ls \<le> lf"
    and sums: "(\<Sum>(p, ls, lf, step) \<leftarrow> ss. ls) = 0" "(\<Sum>(p, ls, lf, step) \<leftarrow> ss. lf) = 0"
  shows "fills True possible k (struct k ps) y (run_steps ss)"
  unfolding fills_def
proof (intro allI impI)
  fix h assume wf: "heap_wf h" "kthreads h" and y: "y \<in> live h" "kind y = k"
  let ?G = "\<lambda>r h' F. run_steps ss h = Some (r, h') \<and> grows {y} h h' F \<and> struct k ps h' (Some y) (insert y F) \<and>
    (r \<noteq> None \<longrightarrow> may_fail possible h)"
  let ?B = "True \<and> \<not> (zeroed h \<and> cell h y = (\<lambda>_. NULL)) \<and> may_fail possible h \<and> (\<forall>h'. run_steps ss h \<noteq> Some (None, h'))"
  have law': "lawful (map fst ss)" using law by simp
  have len: "length ss = length ps" using arg_cong [OF law(2), of length] by simp
  from run_steps_spec [OF law' steps wf y(1)] consider
    (A) r h2 n A L where "run_steps ss h = Some (r, h2)" "built ps n h y h2 A L"
      "if r = None then n = length ps \<and> card L = 0 else 0 < n \<and> card L \<le> 0 \<and> may_fail possible h"
    | (B) "\<not> zeroed h" "may_fail possible h" "\<forall>h'. run_steps ss h \<noteq> Some (None, h')"
    unfolding law(2) sums len by blast
  then show "(\<exists>r h' F. ?G r h' F) \<or> ?B"
  proof cases
    case (A r h2 n A L)
    show ?thesis
    proof (cases "n = length ps \<or> zeroed h \<and> cell h y = (\<lambda>_. NULL)")
      case True
      then have "n = length ps \<or> (\<forall>g \<in> fst ` set (drop n ps). cell h y g = NULL)" by (elim disjE) simp_all
      from built_all [OF law(1) A(2) this]
      obtain B where B: "parts ps h2 y B" "total ps B = total (take n ps) A" by (elim exE conjE)
      have "L = {}" using A(2,3) by (auto simp: built_def split: if_splits)
      then have g: "grows {y} h h2 (total ps B)" using A(2) B(2) by (simp add: built_def)
      then have "struct k ps h2 (Some y) (insert y (total ps B))"
        using B(1) y growsD(4) [OF g] by (auto simp: struct_def)
      then have "?G r h2 (total ps B)" using A(1,3) g by (auto split: if_splits)
      then show ?thesis by blast
    next
      case False
      then have "r \<noteq> None" using A(3) by (auto split: if_splits)
      then have ?B using False A(1,3) by (auto split: if_splits)
      then show ?thesis ..
    qed
  qed auto
qed

lemma substruct_step_ok:
  fixes ss :: "obj \<Rightarrow> step list"
  assumes law: "lawful ps" "\<And>x. map fst (ss x) = ps"
    and steps: "\<And>x. \<forall>((f, P, d), ls, lf, step) \<in> set (ss x). step_ok True possible ls lf P f x step \<and> ls \<le> lf"
    and sums: "\<And>x. (\<Sum>(p, ls, lf, step) \<leftarrow> ss x. ls) = 0" "\<And>x. (\<Sum>(p, ls, lf, step) \<leftarrow> ss x. lf) = 0"
    and step: "\<And>h. step h = do {
      (ok, h) \<leftarrow> alloc_field k (Some x) f h;
      if \<not> ok then Some (Some (-1), h) else do {
      p \<leftarrow> rd (Some x) f h;
      case p of None \<Rightarrow> None | Some y \<Rightarrow> run_steps (ss y) h } }"
  shows "step_ok True possible 0 0 (struct k ps) f x step"
  by (rule fill_step_ok [OF _ _ step]) (simp add: struct_def, rule struct_fills [OF law steps sums])

text \<open>One more array, after the rest of the structure.\<close>

lemma extend_makes:
  assumes m: "makes False possible 0 0 (struct k ps) create" and law: "lawful ps" "f \<notin> fst ` set ps"
    and own: "memory_owner (struct k ps) clean"
    and create2: "\<And>h. create2 h = do { (p, h) \<leftarrow> create h;
      if p = NULL then Some (NULL, h) else do {
      (ok, h) \<leftarrow> alloc_field k' p f h;
      if \<not> ok then do { h \<leftarrow> clean p h; Some (NULL, h) } else Some (p, h) } }"
  shows "makes False possible 0 0 (struct k ((f, plain k', release k') # ps)) create2"
  unfolding makes_def
proof (intro allI impI disjI1)
  let ?S = "struct k ((f, plain k', release k') # ps)"
  fix h assume wf: "heap_wf h" "kthreads h"
  let ?G = "\<lambda>q h' F L. create2 h = Some (q, h') \<and> grows {} h h' (F \<union> L) \<and> F \<inter> L = {} \<and> ?S h' q F \<and> finite L \<and>
    (if q \<noteq> NULL then card L = 0 else card L \<le> 0 \<and> may_fail possible h)"
  from m wf have "\<exists>q h' F L. ?G q h' F L"
  proof (cases rule: makesE)
    case (fails h' F L)
    then have "?G NULL h' {} {}" by (simp add: create2 struct_def)
    then show ?thesis by blast
  next
    case (ok x h1 F L)
    have "L = {}" using ok(5,6) by simp
    then have g: "grows {} h h1 F" using ok(2) by simp
    note wf1 = grows_wf [OF g wf(1)]
    obtain A where A: "x \<in> live h1" "kind x = k" "parts ps h1 x A" "F = insert x (total ps A)"
      using ok(4) by (auto simp: struct_def)
    obtain p h2 where al: "alloc_field k' (Some x) f h1 = Some (p \<noteq> NULL, h2)" "cell h2 x f = p" "\<forall>g. g \<noteq> f \<longrightarrow> cell h2 x g = cell h1 x g"
      and g2: "grows {x} h1 h2 (set_option p)" and a: "p \<noteq> NULL \<longleftrightarrow> answer h1 (calls h1)" "\<And>y. p = Some y \<Longrightarrow> y \<notin> live h1 \<and> kind y = k'"
      by (rule alloc_field_new [OF wf1 A(1), of k' f]) blast
    have xh: "x \<notin> live h" using grows_fresh [OF g wf(1)] A(4) by auto
    have g3: "grows {} h h2 (F \<union> set_option p)" by (rule grows_trans [OF g g2]) (use xh in auto)
    have P: "parts ps h2 x A"
      by (rule parts_grows [OF law(1) A(3) g2]) (use parts_notin [OF A(3)] al(3) law(2) in auto)
    have x2: "x \<in> live h2" using growsD(4) [OF g2] A(1) by simp
    show ?thesis
    proof (cases p)
      case None
      have "struct k ps h2 (Some x) F" using P x2 A(2,4) by (auto simp: struct_def)
      then obtain h3 where h3: "clean (Some x) h2 = Some h3" "grows {} h h3 {}"
        using memory_owner.destroy_new [OF own, where L = "{}"] g3 None wf(1) by fastforce
      have "may_fail possible h" using a(1) None growsD(1) [OF g] by (auto simp: may_fail_def)
      then have "?G NULL h3 {} {}" using ok(1) al(1) None h3 by (simp add: create2 struct_def)
      then show ?thesis by blast
    next
      case (Some y)
      have y: "y \<notin> total ps A" "y \<noteq> x" "y \<in> live h2" "kind y = k'"
        using a(2) [OF Some] parts_live [OF law(1) A(3)] A(1) growsD(4) [OF g2] Some by auto
      have "parts ((f, plain k', release k') # ps) h2 x (A(f := {y}))"
        using P y al(2) Some law(2) parts_upd [OF law(2), of h2 x A "{y}"] total_upd [OF law(2), of A "{y}"]
        by (simp add: parts_Cons plain_def del: fun_upd_apply) simp
      moreover have "total ((f, plain k', release k') # ps) (A(f := {y})) = insert y (total ps A)"
        using total_upd [OF law(2), of A "{y}"] by (simp del: fun_upd_apply) simp
      ultimately have "?S h2 (Some x) (insert x (insert y (total ps A)))"
        using x2 A(2) unfolding struct_def by (simp only: option.case) (intro conjI exI; assumption?; simp)
      then have "?G (Some x) h2 (F \<union> {y}) {}"
        using ok(1) al(1) Some g3 A(4) by (simp add: create2 insert_commute)
      then show ?thesis by blast
    qed
  qed simp
  then show "\<exists>q h' F L. ?G q h' F L" .
qed

end
