(* ===== verification/FB_Memory.thy ===== *)
theory FB_Memory
  imports FB_Struct FB_Module
begin

text \<open>
  Who allocates and who frees: the creation and destruction functions of every component, from \<open>fb_init\<close> and
  \<open>fb_exit\<close> down to single arrays, as far as they handle memory and pointers to it. The contents of the structures
  are the subject of the definitions of the same names without \<open>_mem\<close>. Labels at the end of a C function are definitions of
  their own. Whether \<open>get_free_block\<close> finds a block on a chip is the argument \<open>free\<close>; the entries linked into the lists of the
  write buffer are passed as lists.
\<close>

definition failing :: "(heap \<Rightarrow> heap option) \<Rightarrow> heap \<Rightarrow> (ptr \<times> heap) option" where
  "failing cleanup h = do { h \<leftarrow> cleanup h; Some (NULL, h) }"

section \<open>The page-mapping FTL\<close>

definition destroy_mapping_table :: "ptr \<Rightarrow> heap \<Rightarrow> heap option" where
  "destroy_mapping_table mt h =
     (if mt = NULL then Some h else do { h \<leftarrow> free_field Vmalloc mt F_mappings h; kfree mt h })"

definition create_page_mapping_table_mem :: "heap \<Rightarrow> (ptr \<times> heap) option" where
  "create_page_mapping_table_mem h = do {
     (mt, h) \<leftarrow> kmalloc h;
     if mt = NULL then Some (NULL, h) else do {
     (ok, h) \<leftarrow> alloc_field Vmalloc mt F_mappings h;
     if \<not> ok then failing (kfree mt) h else Some (mt, h) } }"

definition destroy_act_blk_mngr :: "ptr \<Rightarrow> heap \<Rightarrow> heap option" where
  "destroy_act_blk_mngr abm h =
     (if abm = NULL then Some h else do { h \<leftarrow> free_field Vmalloc abm F_act_blks h; vfree abm h })"

definition all_free :: "(u32 \<Rightarrow> u32 \<Rightarrow> bool) \<Rightarrow> bool" where
  "all_free free \<longleftrightarrow> list_all (\<lambda>bus. list_all (free bus) (words_below NUM_CHIPS_PER_BUS)) (words_below NUM_BUSES)"

definition create_act_blk_mngr_mem :: "(u32 \<Rightarrow> u32 \<Rightarrow> bool) \<Rightarrow> heap \<Rightarrow> (ptr \<times> heap) option" where
  "create_act_blk_mngr_mem free h = do {
     (abm, h) \<leftarrow> vmalloc h;
     if abm = NULL then failing (destroy_act_blk_mngr abm) h else do {
     (ok, h) \<leftarrow> alloc_field Vmalloc abm F_act_blks h;
     if \<not> ok then failing (destroy_act_blk_mngr abm) h
     else if \<not> all_free free then failing (destroy_act_blk_mngr abm) h
     else Some (abm, h) } }"

text \<open>\<open>HASH_CLEAR\<close> on a head pointer: the table and its buckets are found through the first element.\<close>

definition HASH_CLEAR_mem :: "ptr \<Rightarrow> heap \<Rightarrow> heap option" where
  "HASH_CLEAR_mem head h = (if head = NULL then Some h else do {
     tbl \<leftarrow> rd head F_tbl h;
     buckets \<leftarrow> rd tbl F_buckets h;
     h \<leftarrow> kfree buckets h;
     kfree tbl h })"

definition clear_field :: "ptr \<Rightarrow> field \<Rightarrow> heap \<Rightarrow> heap option" where
  "clear_field p f h = do { h \<leftarrow> drop_field p f HASH_CLEAR_mem h; wr p f NULL h }"

definition destroy_del_mngr :: "ptr \<Rightarrow> heap \<Rightarrow> heap option" where
  "destroy_del_mngr delm h = (if delm = NULL then Some h else do {
     h \<leftarrow> drop_field delm F_hash_btod HASH_CLEAR_mem h;
     h \<leftarrow> drop_field delm F_hash_wtod HASH_CLEAR_mem h;
     h \<leftarrow> free_field Vmalloc delm F_btod h;
     h \<leftarrow> free_field Vmalloc delm F_wtod h;
     h \<leftarrow> free_field Vmalloc delm F_lpas_to_copy h;
     h \<leftarrow> free_field Vmalloc delm F_data_to_copy h;
     vfree delm h })"

definition init_delm_mem :: "ptr \<Rightarrow> heap \<Rightarrow> heap option" where
  "init_delm_mem delm h = do { h \<leftarrow> clear_field delm F_hash_btod h; clear_field delm F_hash_wtod h }"

definition create_del_mngr_mem :: "heap \<Rightarrow> (ptr \<times> heap) option" where
  "create_del_mngr_mem h = do {
     (delm, h) \<leftarrow> vmalloc h;
     if delm = NULL then failing (destroy_del_mngr delm) h else do {
     (ok, h) \<leftarrow> alloc_field Vmalloc delm F_btod h;
     if \<not> ok then failing (destroy_del_mngr delm) h else do {
     (ok, h) \<leftarrow> alloc_field Vmalloc delm F_wtod h;
     if \<not> ok then failing (destroy_del_mngr delm) h else do {
     (ok, h) \<leftarrow> alloc_field Vmalloc delm F_ppas h;
     if \<not> ok then failing (destroy_del_mngr delm) h else do {
     (ok, h) \<leftarrow> alloc_field Vmalloc delm F_lpas_to_copy h;
     if \<not> ok then failing (destroy_del_mngr delm) h else do {
     (ok, h) \<leftarrow> alloc_field Vmalloc delm F_data_to_copy h;
     if \<not> ok then failing (destroy_del_mngr delm) h else do {
     h \<leftarrow> wr delm F_hash_btod NULL h;
     h \<leftarrow> wr delm F_hash_wtod NULL h;
     h \<leftarrow> init_delm_mem delm h;
     Some (delm, h) } } } } } } }"

definition destroy_gc_mngr :: "ptr \<Rightarrow> heap \<Rightarrow> heap option" where
  "destroy_gc_mngr gcm h = (if gcm = NULL then Some h else do {
     h \<leftarrow> free_field Vmalloc gcm F_gc_blks h;
     h \<leftarrow> free_field Vmalloc gcm F_vic_blks h;
     h \<leftarrow> free_field Vmalloc gcm F_lpas_to_copy h;
     h \<leftarrow> free_field Vmalloc gcm F_data_to_copy h;
     vfree gcm h })"

definition create_gc_mngr_mem :: "(u32 \<Rightarrow> u32 \<Rightarrow> bool) \<Rightarrow> heap \<Rightarrow> (ptr \<times> heap) option" where
  "create_gc_mngr_mem free h = do {
     (gcm, h) \<leftarrow> vmalloc h;
     if gcm = NULL then failing (destroy_gc_mngr gcm) h else do {
     (ok, h) \<leftarrow> alloc_field Vmalloc gcm F_gc_blks h;
     if \<not> ok then failing (destroy_gc_mngr gcm) h else do {
     (ok, h) \<leftarrow> alloc_field Vmalloc gcm F_vic_blks h;
     if \<not> ok then failing (destroy_gc_mngr gcm) h else do {
     (ok, h) \<leftarrow> alloc_field Vmalloc gcm F_lpas_to_copy h;
     if \<not> ok then failing (destroy_gc_mngr gcm) h else do {
     (ok, h) \<leftarrow> alloc_field Vmalloc gcm F_data_to_copy h;
     if \<not> ok then failing (destroy_gc_mngr gcm) h else do {
     (ok, h) \<leftarrow> alloc_field Vmalloc gcm F_first_valid_pg h;
     if \<not> ok then failing (destroy_gc_mngr gcm) h
     else if \<not> all_free free then failing (destroy_gc_mngr gcm) h
     else Some (gcm, h) } } } } } }"

definition destroy_pg_ftl :: "ptr \<Rightarrow> heap \<Rightarrow> heap option" where
  "destroy_pg_ftl ftl h = (if ftl = NULL then Some h else do {
     h \<leftarrow> drop_field ftl F_abm destroy_act_blk_mngr h;
     h \<leftarrow> drop_field ftl F_gcm destroy_gc_mngr h;
     h \<leftarrow> drop_field ftl F_ptr_mapping_table destroy_mapping_table h;
     h \<leftarrow> drop_field ftl F_delm destroy_del_mngr h;
     h \<leftarrow> free_field Vmalloc ftl F_lpas_to_discard h;
     vfree ftl h })"

definition create_pg_ftl_mem ::
  "(u32 \<Rightarrow> u32 \<Rightarrow> bool) \<Rightarrow> (u32 \<Rightarrow> u32 \<Rightarrow> bool) \<Rightarrow> heap \<Rightarrow> (ptr \<times> heap) option" where
  "create_pg_ftl_mem free_abm free_gcm h = do {
     (ftl, h) \<leftarrow> vmalloc h;
     if ftl = NULL then failing (destroy_pg_ftl ftl) h else do {
     (ok, h) \<leftarrow> set_field ftl F_ptr_mapping_table create_page_mapping_table_mem h;
     if \<not> ok then failing (destroy_pg_ftl ftl) h else do {
     (ok, h) \<leftarrow> set_field ftl F_abm (create_act_blk_mngr_mem free_abm) h;
     if \<not> ok then failing (destroy_pg_ftl ftl) h else do {
     (ok, h) \<leftarrow> set_field ftl F_delm create_del_mngr_mem h;
     if \<not> ok then failing (destroy_pg_ftl ftl) h else do {
     (ok, h) \<leftarrow> set_field ftl F_gcm (create_gc_mngr_mem free_gcm) h;
     if \<not> ok then failing (destroy_pg_ftl ftl) h else do {
     (ok, h) \<leftarrow> alloc_field Vmalloc ftl F_lpas_to_discard h;
     if \<not> ok then failing (destroy_pg_ftl ftl) h
     else Some (ftl, h) } } } } } }"

section \<open>The bookkeeping of blocks and pages\<close>

definition free_chip_mem :: "ptr \<Rightarrow> u32 \<Rightarrow> heap \<Rightarrow> heap option" where
  "free_chip_mem lc chip h = do {
     lb \<leftarrow> rd lc (F_list_blocks chip) h;
     if lb = NULL then Some h else do {
     h \<leftarrow> foldM (\<lambda>block. free_field Kmalloc lb (F_list_pages block)) (words_below NUM_BLOCKS_PER_CHIP) h;
     kfree lb h } }"

definition free_bus_mem :: "ptr \<Rightarrow> u32 \<Rightarrow> heap \<Rightarrow> heap option" where
  "free_bus_mem lbs bus h = do {
     lc \<leftarrow> rd lbs (F_list_chips bus) h;
     if lc = NULL then Some h else do {
     h \<leftarrow> foldM (free_chip_mem lc) (words_below NUM_CHIPS_PER_BUS) h;
     kfree lc h } }"

definition destroy_ssd_info :: "ptr \<Rightarrow> heap \<Rightarrow> heap option" where
  "destroy_ssd_info si h = (if si = NULL then Some h else do {
     lbs \<leftarrow> rd si F_list_buses h;
     h \<leftarrow> (if lbs = NULL then Some h else do {
       h \<leftarrow> foldM (free_bus_mem lbs) (words_below NUM_BUSES) h;
       kfree lbs h });
     kfree si h })"

text \<open>The code at the label \<open>FAIL_ALLOC_INFOS\<close> of \<open>create_ssd_info\<close>, which falls through to \<open>FAIL_ALLOC_BUS_INFO\<close>.\<close>

definition fail_alloc_bus_info :: "ptr \<Rightarrow> heap \<Rightarrow> heap option" where
  "fail_alloc_bus_info si h = (if si = NULL then Some h else kfree si h)"

definition fail_alloc_infos :: "ptr \<Rightarrow> heap \<Rightarrow> heap option" where
  "fail_alloc_infos si h = do {
     lbs \<leftarrow> rd si F_list_buses h;
     h \<leftarrow> (if lbs = NULL then Some h else do {
       h \<leftarrow> foldM (free_bus_mem lbs) (words_below NUM_BUSES) h;
       kfree lbs h });
     fail_alloc_bus_info si h }"

definition create_block_mem :: "ptr \<Rightarrow> u32 \<Rightarrow> heap \<Rightarrow> (int option \<times> heap) option" where
  "create_block_mem lb block h = do {
     h \<leftarrow> wr lb (F_list_pages block) NULL h;
     (ok, h) \<leftarrow> alloc_field Kmalloc lb (F_list_pages block) h;
     Some (if ok then None else Some (-1), h) }"

definition create_chip_mem :: "ptr \<Rightarrow> u32 \<Rightarrow> heap \<Rightarrow> (int option \<times> heap) option" where
  "create_chip_mem lc chip h = do {
     h \<leftarrow> wr lc (F_list_blocks chip) NULL h;
     (ok, h) \<leftarrow> alloc_field Kmalloc lc (F_list_blocks chip) h;
     if \<not> ok then Some (Some (-1), h) else do {
     lb \<leftarrow> rd lc (F_list_blocks chip) h;
     for_ret (create_block_mem lb) (words_below NUM_BLOCKS_PER_CHIP) h } }"

definition create_bus_mem :: "ptr \<Rightarrow> u32 \<Rightarrow> heap \<Rightarrow> (int option \<times> heap) option" where
  "create_bus_mem lbs bus h = do {
     (ok, h) \<leftarrow> alloc_field Kmalloc lbs (F_list_chips bus) h;
     if \<not> ok then Some (Some (-1), h) else do {
     lc \<leftarrow> rd lbs (F_list_chips bus) h;
     for_ret (create_chip_mem lc) (words_below NUM_CHIPS_PER_BUS) h } }"

definition create_ssd_info_mem :: "heap \<Rightarrow> (ptr \<times> heap) option" where
  "create_ssd_info_mem h = do {
     (si, h) \<leftarrow> kmalloc h;
     if si = NULL then Some (NULL, h) else do {
     (ok, h) \<leftarrow> alloc_field Kmalloc si F_list_buses h;
     if \<not> ok then failing (fail_alloc_bus_info si) h else do {
     lbs \<leftarrow> rd si F_list_buses h;
     (r, h) \<leftarrow> for_ret (create_bus_mem lbs) (words_below NUM_BUSES) h;
     if r \<noteq> None then failing (fail_alloc_infos si) h else Some (si, h) } } }"

section \<open>The bus controllers\<close>

definition destroy_opr_queue :: "ptr \<Rightarrow> heap \<Rightarrow> heap option" where
  "destroy_opr_queue q h = (if q = NULL then Some h else do { h \<leftarrow> free_field Kmalloc q F_opr_list h; kfree q h })"

definition create_opr_queue_mem :: "heap \<Rightarrow> (ptr \<times> heap) option" where
  "create_opr_queue_mem h = do {
     (q, h) \<leftarrow> kmalloc h;
     if q = NULL then Some (NULL, h) else do {
     (ok, h) \<leftarrow> alloc_field Kmalloc q F_opr_list h;
     if \<not> ok then failing (kfree q) h else Some (q, h) } }"

text \<open>The loops that fill an array until an element cannot be created, and that destroy its elements up to the first \<open>NULL\<close>.\<close>

definition fill_array :: "ptr \<Rightarrow> (heap \<Rightarrow> (ptr \<times> heap) option) \<Rightarrow> u32 \<Rightarrow> heap \<Rightarrow> (int option \<times> heap) option" where
  "fill_array a create i h = do {
     (ok, h) \<leftarrow> set_field a (F_elem i) create h;
     Some (if ok then None else Some (-1), h) }"

definition empty_array :: "ptr \<Rightarrow> (ptr \<Rightarrow> heap \<Rightarrow> heap option) \<Rightarrow> u32 \<Rightarrow> heap \<Rightarrow> (int option \<times> heap) option" where
  "empty_array a destroy i h = do {
     p \<leftarrow> rd a (F_elem i) h;
     if p = NULL then Some (Some 0, h) else do { h \<leftarrow> destroy p h; Some (None, h) } }"

definition free_opr_queues :: "ptr \<Rightarrow> heap \<Rightarrow> heap option" where
  "free_opr_queues bc h = do {
     qs \<leftarrow> rd bc F_ptr_opr_queue h;
     if qs = NULL then Some h else do {
     (r, h) \<leftarrow> for_ret (empty_array qs destroy_opr_queue) (words_below NUM_CHIPS_PER_BUS) h;
     kfree qs h } }"

definition destroy_bus_controller :: "ptr \<Rightarrow> heap \<Rightarrow> heap option" where
  "destroy_bus_controller bc h = (if bc = NULL then Some h else do {
     h \<leftarrow> free_field Kmalloc bc F_chip_busies h;
     h \<leftarrow> free_opr_queues bc h;
     kfree bc h })"

definition create_opr_queue_fail :: "ptr \<Rightarrow> heap \<Rightarrow> heap option" where
  "create_opr_queue_fail bc h = do { h \<leftarrow> free_opr_queues bc h; kfree bc h }"

definition create_bus_controller_mem :: "heap \<Rightarrow> (ptr \<times> heap) option" where
  "create_bus_controller_mem h = do {
     (bc, h) \<leftarrow> kmalloc h;
     if bc = NULL then Some (NULL, h) else do {
     (ok, h) \<leftarrow> alloc_field Kmalloc bc F_ptr_opr_queue h;
     if \<not> ok then failing (kfree bc) h else do {
     qs \<leftarrow> rd bc F_ptr_opr_queue h;
     (r, h) \<leftarrow> for_ret (fill_array qs create_opr_queue_mem) (words_below NUM_CHIPS_PER_BUS) h;
     if r \<noteq> None then failing (create_opr_queue_fail bc) h else do {
     (ok, h) \<leftarrow> alloc_field Kmalloc bc F_chip_busies h;
     if \<not> ok then failing (create_opr_queue_fail bc) h else Some (bc, h) } } } }"

definition fb_stop_bus_ctrl_thread :: "ptr \<Rightarrow> heap \<Rightarrow> heap option" where
  "fb_stop_bus_ctrl_thread bc h = do {
     t \<leftarrow> rd bc F_ptr_task h;
     if t = NULL then Some h else kthread_stop t h }"

definition create_bus_ctrl_fail :: "ptr \<Rightarrow> heap \<Rightarrow> heap option" where
  "create_bus_ctrl_fail arr h = (if arr = NULL then Some h else do {
     (r, h) \<leftarrow> for_ret (empty_array arr destroy_bus_controller) (words_below NUM_BUSES) h;
     kfree arr h })"

definition init_bus_ctrl_thread_fail :: "ptr \<Rightarrow> heap \<Rightarrow> heap option" where
  "init_bus_ctrl_thread_fail arr h = do {
     h \<leftarrow> foldM (\<lambda>bus h. drop_field arr (F_elem bus) fb_stop_bus_ctrl_thread h) (words_below NUM_BUSES) h;
     create_bus_ctrl_fail arr h }"

definition fb_init_bus_ctrl_thread_mem :: "ptr \<Rightarrow> heap \<Rightarrow> (int \<times> heap) option" where
  "fb_init_bus_ctrl_thread_mem bc h = do {
     let (t, h) = kthread_run h;
     h \<leftarrow> wr bc F_ptr_task t h;
     Some (fb_init_bus_ctrl_thread (kthreads h), h) }"

definition start_thread_mem :: "ptr \<Rightarrow> u32 \<Rightarrow> heap \<Rightarrow> (int option \<times> heap) option" where
  "start_thread_mem arr bus h = do {
     bc \<leftarrow> rd arr (F_elem bus) h;
     (rc, h) \<leftarrow> fb_init_bus_ctrl_thread_mem bc h;
     Some (if rc = -1 then Some (-1) else None, h) }"

definition fb_bus_controller_init_mem :: "ptr \<Rightarrow> heap \<Rightarrow> (int \<times> heap) option" where
  "fb_bus_controller_init_mem vd h = do {
     (arr, h) \<leftarrow> kmalloc h;
     if arr = NULL then Some (-1, h) else do {
     (r, h) \<leftarrow> for_ret (fill_array arr create_bus_controller_mem) (words_below NUM_BUSES) h;
     if r \<noteq> None then do { h \<leftarrow> create_bus_ctrl_fail arr h; Some (-1, h) } else do {
     (r, h) \<leftarrow> for_ret (start_thread_mem arr) (words_below NUM_BUSES) h;
     if r \<noteq> None then do { h \<leftarrow> init_bus_ctrl_thread_fail arr h; Some (-1, h) } else do {
     h \<leftarrow> wr vd F_ptr_bus_controller arr h;
     Some (0, h) } } } }"

definition fb_bus_controller_destroy :: "ptr \<Rightarrow> heap \<Rightarrow> heap option" where
  "fb_bus_controller_destroy arr h = (if arr = NULL then Some h else do {
     h \<leftarrow> foldM (\<lambda>bus h. do {
       bc \<leftarrow> rd arr (F_elem bus) h;
       if bc = NULL then Some h else fb_stop_bus_ctrl_thread bc h }) (words_below NUM_BUSES) h;
     h \<leftarrow> foldM (\<lambda>bus h. do {
       bc \<leftarrow> rd arr (F_elem bus) h;
       if bc = NULL then Some h else destroy_bus_controller bc h }) (words_below NUM_BUSES) h;
     kfree arr h })"

section \<open>The emulated device\<close>

definition alloc_vdisk :: "ptr \<Rightarrow> u32 \<Rightarrow> heap \<Rightarrow> (int option \<times> heap) option" where
  "alloc_vdisk vd bus h = do {
     (q, h) \<leftarrow> vmalloc h;
     if q = NULL then Some (Some (-1), h) else do { h \<leftarrow> wr vd (F_ptr_vdisk bus) q h; Some (None, h) } }"

definition create_vdevice_mem :: "heap \<Rightarrow> (ptr \<times> heap) option" where
  "create_vdevice_mem h = do {
     (vd, h) \<leftarrow> vmalloc h;
     if vd = NULL then Some (NULL, h) else do {
     (r, h) \<leftarrow> for_ret (alloc_vdisk vd) (words_below NUM_BUSES) h;
     if r \<noteq> None then failing (vfree vd) h else do {
     (rc, h) \<leftarrow> fb_bus_controller_init_mem vd h;
     if rc = -1 then failing (vfree vd) h else Some (vd, h) } } }"

definition destroy_vdevice :: "ptr \<Rightarrow> heap \<Rightarrow> heap option" where
  "destroy_vdevice vd h = (if vd = NULL then Some h else do {
     h \<leftarrow> drop_field vd F_ptr_bus_controller fb_bus_controller_destroy h;
     h \<leftarrow> foldM (\<lambda>bus. free_field Vmalloc vd (F_ptr_vdisk bus)) (words_below NUM_BUSES) h;
     vfree vd h })"

section \<open>The write buffer\<close>

definition fb_destroy_wb_entry :: "ptr \<Rightarrow> heap \<Rightarrow> heap option" where
  "fb_destroy_wb_entry pg h = (if pg = NULL then Some h else do { h \<leftarrow> free_field Vmalloc pg F_data h; vfree pg h })"

definition fb_create_wb_entry_mem :: "heap \<Rightarrow> (ptr \<times> heap) option" where
  "fb_create_wb_entry_mem h = do {
     (pg, h) \<leftarrow> vmalloc h;
     if pg = NULL then failing (fb_destroy_wb_entry pg) h else do {
     (ok, h) \<leftarrow> alloc_field Vmalloc pg F_data h;
     if \<not> ok then failing (fb_destroy_wb_entry pg) h else Some (pg, h) } }"

text \<open>The lists of entries: \<open>free_pgs\<close>, \<open>buf_pgs\<close>, \<open>writing_pgs\<close>.\<close>

type_synonym wb_lists = "obj list \<times> obj list \<times> obj list"

definition fb_destroy_write_buffer :: "ptr \<Rightarrow> wb_lists \<Rightarrow> heap \<Rightarrow> heap option" where
  "fb_destroy_write_buffer wb pgs h = (case pgs of (free, buf, writing) \<Rightarrow>
     if wb = NULL then Some h else do {
     h \<leftarrow> foldM (\<lambda>pg. fb_destroy_wb_entry (Some pg)) free h;
     h \<leftarrow> foldM (\<lambda>pg. fb_destroy_wb_entry (Some pg)) buf h;
     h \<leftarrow> foldM (\<lambda>pg. fb_destroy_wb_entry (Some pg)) writing h;
     vfree wb h })"

definition add_wb_entry :: "nat \<Rightarrow> obj list \<times> heap \<Rightarrow> (int option \<times> obj list \<times> heap) option" where
  "add_wb_entry i st = (case st of (free, h) \<Rightarrow> do {
     (pg, h) \<leftarrow> fb_create_wb_entry_mem h;
     case pg of None \<Rightarrow> Some (Some (-1), free, h) | Some x \<Rightarrow> Some (None, free @ [x], h) })"

definition fb_create_write_buffer_mem :: "nat \<Rightarrow> heap \<Rightarrow> (ptr \<times> obj list \<times> heap) option" where
  "fb_create_write_buffer_mem nr_max_entries h = do {
     (wb, h) \<leftarrow> vmalloc h;
     if wb = NULL then do { h \<leftarrow> fb_destroy_write_buffer wb ([], [], []) h; Some (NULL, [], h) } else do {
     (r, free, h) \<leftarrow> for_ret add_wb_entry [0..<nr_max_entries] ([], h);
     if r \<noteq> None then do { h \<leftarrow> fb_destroy_write_buffer wb (free, [], []) h; Some (NULL, [], h) } else do {
     (ok, h) \<leftarrow> alloc_field Vmalloc wb F_pg_buf h;
     if \<not> ok then do { h \<leftarrow> fb_destroy_write_buffer wb (free, [], []) h; Some (NULL, [], h) }
     else Some (wb, free, h) } } }"

section \<open>Loading and unloading\<close>

definition fail_context_mem :: "ptr \<Rightarrow> heap \<Rightarrow> heap option" where
  "fail_context_mem fb h = (if fb = NULL then Some h else kfree fb h)"

definition fail_create_vdevice_mem :: "ptr \<Rightarrow> heap \<Rightarrow> heap option" where
  "fail_create_vdevice_mem fb h = fail_context_mem fb h"

definition fail_create_ssd_info_mem :: "ptr \<Rightarrow> heap \<Rightarrow> heap option" where
  "fail_create_ssd_info_mem fb h = do { h \<leftarrow> drop_field fb F_ptr_vdevice destroy_vdevice h; fail_create_vdevice_mem fb h }"

definition fail_create_mapping_context_mem :: "ptr \<Rightarrow> heap \<Rightarrow> heap option" where
  "fail_create_mapping_context_mem fb h =
     do { h \<leftarrow> drop_field fb F_ptr_ssd_info destroy_ssd_info h; fail_create_ssd_info_mem fb h }"

definition destroy_mapping_context :: "ptr \<Rightarrow> heap \<Rightarrow> heap option" where
  "destroy_mapping_context fb h = drop_field fb F_ptr_mapping_context destroy_pg_ftl h"

definition fail_alloc_bdev_queue_mem :: "ptr \<Rightarrow> heap \<Rightarrow> heap option" where
  "fail_alloc_bdev_queue_mem fb h = do { h \<leftarrow> destroy_mapping_context fb h; fail_create_mapping_context_mem fb h }"

definition fb_init_mem ::
  "init_env \<Rightarrow> (u32 \<Rightarrow> u32 \<Rightarrow> bool) \<Rightarrow> (u32 \<Rightarrow> u32 \<Rightarrow> bool) \<Rightarrow> heap \<Rightarrow> (int \<times> ptr \<times> obj list \<times> heap) option" where
  "fb_init_mem env free_abm free_gcm h = do {
     (fb, h) \<leftarrow> kmalloc h;
     if fb = NULL then Some (- ENOMEM, NULL, [], h) else do {
     (ok, h) \<leftarrow> set_field fb F_ptr_vdevice create_vdevice_mem h;
     if \<not> ok then do { h \<leftarrow> fail_create_vdevice_mem fb h; Some (- ENOMEM, NULL, [], h) } else do {
     (ok, h) \<leftarrow> set_field fb F_ptr_ssd_info create_ssd_info_mem h;
     if \<not> ok then do { h \<leftarrow> fail_create_ssd_info_mem fb h; Some (- ENOMEM, NULL, [], h) } else do {
     (ok, h) \<leftarrow> set_field fb F_ptr_mapping_context (create_pg_ftl_mem free_abm free_gcm) h;
     if \<not> ok then do { h \<leftarrow> fail_create_mapping_context_mem fb h; Some (- ENOMEM, NULL, [], h) }
     else if \<not> alloc_queue env then do { h \<leftarrow> fail_alloc_bdev_queue_mem fb h; Some (- ENOMEM, NULL, [], h) }
     else if register_result env < 0 then
       do { h \<leftarrow> fail_alloc_bdev_queue_mem fb h; Some (register_result env, NULL, [], h) }
     else if \<not> alloc_gendisk env then do { h \<leftarrow> fail_alloc_bdev_queue_mem fb h; Some (- ENOMEM, NULL, [], h) }
     else do {
     (wb, free, h) \<leftarrow> fb_create_write_buffer_mem (unat (NUM_PAGES_IN_WRITE_BUFFER :: u32)) h;
     h \<leftarrow> wr fb F_wb wb h;
     if wb = NULL then do { h \<leftarrow> fail_alloc_bdev_queue_mem fb h; Some (- ENOMEM, NULL, [], h) } else do {
     let (t, h) = kthread_run h;
     h \<leftarrow> wr fb F_ptr_wb_task t h;
     if fb_init_write_buffer_thread (kthreads h) = -1 then do {
       h \<leftarrow> fb_destroy_write_buffer wb (free, [], []) h;
       h \<leftarrow> fail_alloc_bdev_queue_mem fb h;
       Some (0, NULL, [], h) }
     else Some (0, fb, free, h) } } } } } }"

definition fb_exit_mem :: "ptr \<Rightarrow> wb_lists \<Rightarrow> heap \<Rightarrow> heap option" where
  "fb_exit_mem fb pgs h = do {
     h \<leftarrow> drop_field fb F_ptr_wb_task (\<lambda>t h. if t = NULL then Some h else kthread_stop t h) h;
     h \<leftarrow> drop_field fb F_wb (\<lambda>wb h. if wb = NULL then Some h else fb_destroy_write_buffer wb pgs h) h;
     h \<leftarrow> destroy_mapping_context fb h;
     h \<leftarrow> drop_field fb F_ptr_ssd_info destroy_ssd_info h;
     h \<leftarrow> drop_field fb F_ptr_vdevice destroy_vdevice h;
     if fb = NULL then Some h else kfree fb h }"

end
