(* ===== verification/FB_Memory_Spec.thy ===== *)
theory FB_Memory_Spec
  imports FB_Memory
begin

text \<open>
  What each creation function allocates and each destruction function frees, for every behaviour of the allocators.
  A structure is described by the list of its parts; \<open>struct_makes\<close> of \<open>FB_Struct\<close> does the rest.
\<close>

lemmas run_defs = failing_def set_step_def free_field_drop alloc_field_set

text \<open>A sequence of assignments that stop at the first failure is a loop over steps.\<close>

lemma run_steps_Cons:
  "do { (r, h) \<leftarrow> run_steps ((p, ls, lf, set_step q f create) # ss) h; C r h } =
   do { (ok, h) \<leftarrow> set_field q f create h; if \<not> ok then C (Some (-1)) h else do { (r, h) \<leftarrow> run_steps ss h; C r h } }"
  by (cases "set_field q f create h") (auto simp: set_step_def split: prod.splits)

lemmas foldM_parts = foldM.simps case_prod_conv

section \<open>Structures with one array\<close>

abbreviation leaf :: "allocator \<Rightarrow> field \<Rightarrow> part" where
  "leaf k f \<equiv> (f, plain k, release k)"

abbreviation leaf_step :: "allocator \<Rightarrow> field \<Rightarrow> obj \<Rightarrow> step" where
  "leaf_step k f x \<equiv> (leaf k f, 0, 0, set_step (Some x) f (allocate k))"

lemma lawful_leaf: "memory_owner (plain k) (release k)"
  by (rule plain.memory_owner_axioms)

lemma one_owner:
  assumes "\<And>p h. destroy p h = (if p = NULL then Some h else do { h \<leftarrow> free_field k' p f h; release k p h })"
  shows "memory_owner (struct k [leaf k' f]) destroy"
proof -
  have "destroy = destroy_struct k [leaf k' f]"
    by (intro ext) (simp add: assms destroy_struct_def free_field_drop)
  then show ?thesis using struct_owner [of "[leaf k' f]" k] lawful_leaf by simp
qed

lemma one_makes:
  assumes own: "memory_owner (struct k [leaf k' f]) destroy"
    and create: "\<And>h. create h = do { (p, h) \<leftarrow> allocate k h;
      if p = NULL then Some (NULL, h) else do {
      (ok, h) \<leftarrow> alloc_field k' p f h;
      if \<not> ok \<or> \<not> possible then do { h \<leftarrow> destroy p h; Some (NULL, h) } else Some (p, h) } }"
  shows "makes False possible 0 0 (struct k [leaf k' f]) create"
proof (rule struct_makes [where ss = "\<lambda>x. [leaf_step k' f x]" and clean = destroy and extra = possible])
  show "lawful [leaf k' f]" by (simp add: lawful_leaf)
  show "\<forall>((f, P, d), ls, lf, step) \<in> set [leaf_step k' f x]. step_ok False possible ls lf P f x step \<and> ls \<le> lf" for x
    using step_ok_weaken [OF alloc_step_ok] by simp
  show "create h = do { (p, h) \<leftarrow> allocate k h;
      case p of None \<Rightarrow> Some (NULL, h)
      | Some x \<Rightarrow> do { (r, h) \<leftarrow> run_steps [leaf_step k' f x] h;
          if r \<noteq> None \<or> \<not> possible then do { h \<leftarrow> destroy p h; Some (NULL, h) } else Some (p, h) } }" for h
  proof (cases "allocate k h")
    case (Some a)
    obtain p h1 where a: "a = (p, h1)" by (cases a)
    show ?thesis
      unfolding create Some a by (cases p) (simp_all add: run_steps_Cons alloc_field_set cong: if_cong del: for_ret.simps(2),
        auto intro!: Option.bind_cong)
  qed (simp add: create)
qed (simp_all add: own)

interpretation table: memory_owner "struct Kmalloc [leaf Vmalloc F_mappings]" destroy_mapping_table
  by (rule one_owner) (simp add: destroy_mapping_table_def)

interpretation abm: memory_owner "struct Vmalloc [leaf Vmalloc F_act_blks]" destroy_act_blk_mngr
  by (rule one_owner) (simp add: destroy_act_blk_mngr_def)

interpretation queue: memory_owner "struct Kmalloc [leaf Kmalloc F_opr_list]" destroy_opr_queue
  by (rule one_owner) (simp add: destroy_opr_queue_def)

interpretation entry: memory_owner "struct Vmalloc [leaf Vmalloc F_data]" fb_destroy_wb_entry
  by (rule one_owner) (simp add: fb_destroy_wb_entry_def)


lemma alloc_field_False:
  assumes "alloc_field k (Some x) f h = Some (False, h')"
  shows "free_field k' (Some x) f h' = Some h'"
  using assms by (auto simp: alloc_field_def free_field_def wr_def split: Option.bind_splits if_splits)

text \<open>When the only array cannot be allocated, freeing the structure alone is enough.\<close>

lemma fail_release:
  assumes "\<And>p h. destroy p h = (if p = NULL then Some h else do { h \<leftarrow> free_field k' p f h; release k p h })"
  shows "do { (ok, h) \<leftarrow> alloc_field k' (Some x) f h; if \<not> ok then failing (release k (Some x)) h else C h } =
    do { (ok, h) \<leftarrow> alloc_field k' (Some x) f h; if \<not> ok then do { h \<leftarrow> destroy (Some x) h; Some (NULL, h) } else C h }"
proof (cases "alloc_field k' (Some x) f h")
  case (Some a)
  obtain ok h1 where a: "a = (ok, h1)" by (cases a)
  show ?thesis using Some a alloc_field_False [of k' x f h h1 k'] by (cases ok) (simp_all add: failing_def assms)
qed simp

lemma table_makes: "makes False True 0 0 (struct Kmalloc [leaf Vmalloc F_mappings]) create_page_mapping_table_mem"
proof (rule one_makes [OF table.memory_owner_axioms])
  fix h
  have "create_page_mapping_table_mem h = do {
     (mt, h) \<leftarrow> kmalloc h;
     case mt of None \<Rightarrow> Some (NULL, h) | Some x \<Rightarrow> do {
     (ok, h) \<leftarrow> alloc_field Vmalloc (Some x) F_mappings h;
     if \<not> ok then failing (kfree (Some x)) h else Some (Some x, h) } }"
    unfolding create_page_mapping_table_mem_def by (auto intro!: Option.bind_cong split: option.split)
  then show "create_page_mapping_table_mem h = do { (p, h) \<leftarrow> kmalloc h;
      if p = NULL then Some (NULL, h) else do {
      (ok, h) \<leftarrow> alloc_field Vmalloc p F_mappings h;
      if \<not> ok \<or> \<not> True then do { h \<leftarrow> destroy_mapping_table p h; Some (NULL, h) } else Some (p, h) } }"
    unfolding fail_release [OF destroy_mapping_table_def] by (auto intro!: Option.bind_cong split: option.split)
qed

lemma queue_makes: "makes False True 0 0 (struct Kmalloc [leaf Kmalloc F_opr_list]) create_opr_queue_mem"
proof (rule one_makes [OF queue.memory_owner_axioms])
  fix h
  have "create_opr_queue_mem h = do {
     (q, h) \<leftarrow> kmalloc h;
     case q of None \<Rightarrow> Some (NULL, h) | Some x \<Rightarrow> do {
     (ok, h) \<leftarrow> alloc_field Kmalloc (Some x) F_opr_list h;
     if \<not> ok then failing (kfree (Some x)) h else Some (Some x, h) } }"
    unfolding create_opr_queue_mem_def by (auto intro!: Option.bind_cong split: option.split)
  then show "create_opr_queue_mem h = do { (p, h) \<leftarrow> kmalloc h;
      if p = NULL then Some (NULL, h) else do {
      (ok, h) \<leftarrow> alloc_field Kmalloc p F_opr_list h;
      if \<not> ok \<or> \<not> True then do { h \<leftarrow> destroy_opr_queue p h; Some (NULL, h) } else Some (p, h) } }"
    unfolding fail_release [OF destroy_opr_queue_def] by (auto intro!: Option.bind_cong split: option.split)
qed

lemma abm_makes:
  "makes False (all_free free) 0 0 (struct Vmalloc [leaf Vmalloc F_act_blks]) (create_act_blk_mngr_mem free)"
  by (rule one_makes [OF abm.memory_owner_axioms])
    (auto simp: create_act_blk_mngr_mem_def failing_def destroy_act_blk_mngr_def intro!: Option.bind_cong)

lemma entry_makes: "makes False True 0 0 (struct Vmalloc [leaf Vmalloc F_data]) fb_create_wb_entry_mem"
  by (rule one_makes [OF entry.memory_owner_axioms])
    (auto simp: fb_create_wb_entry_mem_def failing_def fb_destroy_wb_entry_def intro!: Option.bind_cong)

section \<open>Structures with several arrays\<close>

text \<open>A field that nobody frees, and one that must be \<open>NULL\<close>.\<close>

definition nobody :: own where
  "nobody h p F \<longleftrightarrow> F = {}"

definition nothing :: own where
  "nothing h p F \<longleftrightarrow> p = NULL \<and> F = {}"

lemma nobody_owner: "memory_owner nobody (\<lambda>p h. Some h)"
  by unfold_locales (auto simp: nobody_def)

lemma nothing_owner: "memory_owner nothing HASH_CLEAR_mem"
  by unfold_locales (auto simp: nothing_def HASH_CLEAR_mem_def)

lemma leak_step_ok: "step_ok False True 1 1 nobody f x (set_step (Some x) f (allocate k))"
proof (rule set_step_ok [OF _ nobody_owner])
  show "makes False True 1 1 nobody (allocate k)"
    unfolding makes_def
  proof (intro allI impI disjI1)
    fix h assume "heap_wf h" "kthreads h"
    with allocate_makes [of k] show "\<exists>q h' F L. allocate k h = Some (q, h') \<and> grows {} h h' (F \<union> L) \<and> F \<inter> L = {} \<and>
        nobody h' q F \<and> finite L \<and> (if q \<noteq> NULL then card L = 1 else card L \<le> 1 \<and> may_fail True h)"
    proof (cases rule: makesE)
      case (ok y h' F L)
      then have "F = {y}" "L = {}" by (auto simp: plain_def)
      then show ?thesis using ok by (intro exI [of _ "Some y"] exI [of _ h'] exI [of _ "{}"] exI [of _ "{y}"]) (simp add: nobody_def)
    next
      case (fails h' F L)
      then have "F = {}" "L = {}" by (auto simp: plain_def)
      then show ?thesis using fails by (intro exI [of _ NULL] exI [of _ h'] exI [of _ "{}"] exI [of _ "{}"]) (simp add: nobody_def)
    qed simp
  qed
qed

definition null_step :: "ptr \<Rightarrow> field \<Rightarrow> heap \<Rightarrow> (int option \<times> heap) option" where
  "null_step p f h = do { h \<leftarrow> wr p f NULL h; Some (None, h) }"

lemma null_step_ok: "step_ok False True 0 0 nothing f x (null_step (Some x) f)"
  unfolding step_ok_def null_step_def
proof (intro allI impI disjI1)
  fix h assume wf: "heap_wf h" "kthreads h" "x \<in> live h"
  show "\<exists>r h' F L. do { h \<leftarrow> wr (Some x) f NULL h; Some (None, h) } = Some (r, h') \<and> grows {x} h h' (F \<union> L) \<and> F \<inter> L = {} \<and>
      nothing h' (cell h' x f) F \<and> (\<forall>g. g \<noteq> f \<longrightarrow> cell h' x g = cell h x g) \<and> finite L \<and>
      (if r = None then card L = 0 else card L \<le> 0 \<and> may_fail True h)"
    using wf grows_wr [OF wf(1,3), of f NULL]
    by (intro exI [of _ None] exI [of _ "h\<lparr>cell := (cell h)(x := (cell h x)(f := NULL))\<rparr>"] exI [of _ "{}"])
      (simp add: nothing_def)
qed

text \<open>The order of the parts does not matter to what a structure owns.\<close>

lemma parts_perm: "set ps = set qs \<Longrightarrow> parts ps = parts qs \<and> total ps = total qs"
  by (simp add: parts_def total_def fun_eq_iff)

lemma struct_perm: "set ps = set qs \<Longrightarrow> struct k ps = struct k qs"
  using parts_perm [of ps qs] by (intro ext) (simp only: struct_def)

lemma perm_owner:
  assumes "lawful qs" "set ps = set qs" "destroy = destroy_struct k qs"
  shows "memory_owner (struct k ps) destroy"
  using struct_owner [OF assms(1), of k] struct_perm [OF assms(2), of k] assms(3) by simp

lemma skip_field:
  "do { h \<leftarrow> drop_field p f (\<lambda>p h. Some h) h; h \<leftarrow> drop_field p g d h; C h } = do { h \<leftarrow> drop_field p g d h; C h }"
  by (cases p) (simp_all add: drop_field_def rd_def)

abbreviation delm_parts :: "part list" where
  "delm_parts \<equiv> [leaf Vmalloc F_btod, leaf Vmalloc F_wtod, (F_ppas, nobody, \<lambda>p h. Some h), leaf Vmalloc F_lpas_to_copy,
     leaf Vmalloc F_data_to_copy, (F_hash_btod, nothing, HASH_CLEAR_mem), (F_hash_wtod, nothing, HASH_CLEAR_mem)]"

abbreviation delm_order :: "part list" where
  "delm_order \<equiv> [(F_ppas, nobody, \<lambda>p h. Some h), (F_hash_btod, nothing, HASH_CLEAR_mem), (F_hash_wtod, nothing, HASH_CLEAR_mem),
     leaf Vmalloc F_btod, leaf Vmalloc F_wtod, leaf Vmalloc F_lpas_to_copy, leaf Vmalloc F_data_to_copy]"

lemma drop_order:
  "foldM (\<lambda>(f, P, d). drop_field p f d) [] h = Some h"
  "foldM (\<lambda>(f, P, d). drop_field p f d) ((f, P, d) # ps) h =
     do { h \<leftarrow> drop_field p f d h; foldM (\<lambda>(f, P, d). drop_field p f d) ps h }"
  by simp_all

interpretation delm: memory_owner "struct Vmalloc delm_parts" destroy_del_mngr
proof (rule perm_owner [of delm_order])
  show "lawful delm_order" by (simp add: lawful_leaf nobody_owner nothing_owner)
  show "set delm_parts = set delm_order" by auto
  show "destroy_del_mngr = destroy_struct Vmalloc delm_order"
    by (intro ext) (simp add: destroy_del_mngr_def destroy_struct_def free_field_drop skip_field drop_order del: foldM.simps)
qed

abbreviation gcm_parts :: "part list" where
  "gcm_parts \<equiv> [leaf Vmalloc F_gc_blks, leaf Vmalloc F_vic_blks, leaf Vmalloc F_lpas_to_copy,
     leaf Vmalloc F_data_to_copy, (F_first_valid_pg, nobody, \<lambda>p h. Some h)]"

abbreviation gcm_order :: "part list" where
  "gcm_order \<equiv> [(F_first_valid_pg, nobody, \<lambda>p h. Some h), leaf Vmalloc F_gc_blks, leaf Vmalloc F_vic_blks,
     leaf Vmalloc F_lpas_to_copy, leaf Vmalloc F_data_to_copy]"

interpretation gcm: memory_owner "struct Vmalloc gcm_parts" destroy_gc_mngr
proof (rule perm_owner [of gcm_order])
  show "lawful gcm_order" by (simp add: lawful_leaf nobody_owner)
  show "set gcm_parts = set gcm_order" by auto
  show "destroy_gc_mngr = destroy_struct Vmalloc gcm_order"
    by (intro ext) (simp add: destroy_gc_mngr_def destroy_struct_def free_field_drop skip_field drop_order del: foldM.simps)
qed

lemma run_steps_null:
  "do { (r, h) \<leftarrow> run_steps ((p, ls, lf, null_step q f) # ss) h; C r h } =
   do { h \<leftarrow> wr q f NULL h; (r, h) \<leftarrow> run_steps ss h; C r h }"
  by (cases "wr q f NULL h") (auto simp: null_step_def)

lemma init_delm_idle:
  "do { h \<leftarrow> wr p F_hash_btod NULL h; h \<leftarrow> wr p F_hash_wtod NULL h; h \<leftarrow> init_delm_mem p h; C h } =
   do { h \<leftarrow> wr p F_hash_btod NULL h; h \<leftarrow> wr p F_hash_wtod NULL h; C h }"
  by (cases p) (simp_all add: wr_def init_delm_mem_def clear_field_def drop_field_def rd_def HASH_CLEAR_mem_def fun_upd_twist)

abbreviation delm_steps :: "obj \<Rightarrow> step list" where
  "delm_steps x \<equiv> [leaf_step Vmalloc F_btod x, leaf_step Vmalloc F_wtod x,
     ((F_ppas, nobody, \<lambda>p h. Some h), 1, 1, set_step (Some x) F_ppas vmalloc),
     leaf_step Vmalloc F_lpas_to_copy x, leaf_step Vmalloc F_data_to_copy x,
     ((F_hash_btod, nothing, HASH_CLEAR_mem), 0, 0, null_step (Some x) F_hash_btod),
     ((F_hash_wtod, nothing, HASH_CLEAR_mem), 0, 0, null_step (Some x) F_hash_wtod)]"

lemmas steps_weaken = step_ok_weaken [where z = False and z' = True and possible = True]

lemma fail_some: "(if Some e \<noteq> None \<or> b then X else Y) = X" "(if None \<noteq> None \<or> b then X else Y) = (if b then X else Y)"
  by simp_all

lemma delm_makes: "makes True True 1 1 (struct Vmalloc delm_parts) create_del_mngr_mem"
proof (rule struct_makes [where ss = delm_steps and clean = destroy_del_mngr and extra = True])
  show "lawful delm_parts" by (simp add: lawful_leaf nobody_owner nothing_owner)
  show "memory_owner (struct Vmalloc delm_parts) destroy_del_mngr" by (rule delm.memory_owner_axioms)
  show "\<forall>((f, P, d), ls, lf, step) \<in> set (delm_steps x). step_ok True True ls lf P f x step \<and> ls \<le> lf" for x
    using steps_weaken [OF alloc_step_ok] steps_weaken [OF leak_step_ok] steps_weaken [OF null_step_ok] by simp
  show "create_del_mngr_mem h = do { (p, h) \<leftarrow> vmalloc h;
      case p of None \<Rightarrow> Some (NULL, h)
      | Some x \<Rightarrow> do { (r, h) \<leftarrow> run_steps (delm_steps x) h;
          if r \<noteq> None \<or> \<not> True then do { h \<leftarrow> destroy_del_mngr p h; Some (NULL, h) } else Some (p, h) } }" for h
  proof (cases "vmalloc h")
    case (Some a)
    obtain p h1 where a: "a = (p, h1)" by (cases a)
    show ?thesis
      unfolding create_del_mngr_mem_def Some a
      by (cases p) (simp_all only: bind.bind_lunit case_prod_conv option.case simp_thms if_True if_False run_steps_Cons run_steps_null
        init_delm_idle failing_def for_ret.simps(1) fail_some alloc_field_set option.distinct destroy_del_mngr_def)
  qed (simp add: create_del_mngr_mem_def)
qed simp_all

lemma gcm_makes: "makes True (all_free free) 1 1 (struct Vmalloc gcm_parts) (create_gc_mngr_mem free)"
proof (rule struct_makes [where clean = destroy_gc_mngr and extra = "all_free free" and
    ss = "\<lambda>x. [leaf_step Vmalloc F_gc_blks x, leaf_step Vmalloc F_vic_blks x, leaf_step Vmalloc F_lpas_to_copy x,
      leaf_step Vmalloc F_data_to_copy x, ((F_first_valid_pg, nobody, \<lambda>p h. Some h), 1, 1, set_step (Some x) F_first_valid_pg vmalloc)]"])
  show "lawful gcm_parts" by (simp add: lawful_leaf nobody_owner)
  show "memory_owner (struct Vmalloc gcm_parts) destroy_gc_mngr" by (rule gcm.memory_owner_axioms)
  show "\<forall>((f, P, d), ls, lf, step) \<in> set [leaf_step Vmalloc F_gc_blks x, leaf_step Vmalloc F_vic_blks x, leaf_step Vmalloc F_lpas_to_copy x,
      leaf_step Vmalloc F_data_to_copy x, ((F_first_valid_pg, nobody, \<lambda>p h. Some h), 1, 1, set_step (Some x) F_first_valid_pg vmalloc)].
      step_ok True (all_free free) ls lf P f x step \<and> ls \<le> lf" for x
    using steps_weaken [OF alloc_step_ok] steps_weaken [OF leak_step_ok] by simp
  show "create_gc_mngr_mem free h = do { (p, h) \<leftarrow> vmalloc h;
      case p of None \<Rightarrow> Some (NULL, h)
      | Some x \<Rightarrow> do { (r, h) \<leftarrow> run_steps [leaf_step Vmalloc F_gc_blks x, leaf_step Vmalloc F_vic_blks x, leaf_step Vmalloc F_lpas_to_copy x,
      leaf_step Vmalloc F_data_to_copy x, ((F_first_valid_pg, nobody, \<lambda>p h. Some h), 1, 1, set_step (Some x) F_first_valid_pg vmalloc)] h;
          if r \<noteq> None \<or> \<not> all_free free then do { h \<leftarrow> destroy_gc_mngr p h; Some (NULL, h) } else Some (p, h) } }" for h
  proof (cases "vmalloc h")
    case (Some a)
    obtain p h1 where a: "a = (p, h1)" by (cases a)
    show ?thesis
      unfolding create_gc_mngr_mem_def Some a
      by (cases p) (simp_all only: bind.bind_lunit case_prod_conv option.case simp_thms if_True if_False run_steps_Cons
        failing_def for_ret.simps(1) fail_some alloc_field_set option.distinct destroy_gc_mngr_def)
  qed (simp add: create_gc_mngr_mem_def)
qed simp_all

section \<open>The page-mapping FTL\<close>

abbreviation ftl_parts :: "part list" where
  "ftl_parts \<equiv> [(F_ptr_mapping_table, struct Kmalloc [leaf Vmalloc F_mappings], destroy_mapping_table),
     (F_abm, struct Vmalloc [leaf Vmalloc F_act_blks], destroy_act_blk_mngr),
     (F_delm, struct Vmalloc delm_parts, destroy_del_mngr), (F_gcm, struct Vmalloc gcm_parts, destroy_gc_mngr),
     leaf Vmalloc F_lpas_to_discard]"

abbreviation ftl_order :: "part list" where
  "ftl_order \<equiv> [(F_abm, struct Vmalloc [leaf Vmalloc F_act_blks], destroy_act_blk_mngr),
     (F_gcm, struct Vmalloc gcm_parts, destroy_gc_mngr),
     (F_ptr_mapping_table, struct Kmalloc [leaf Vmalloc F_mappings], destroy_mapping_table),
     (F_delm, struct Vmalloc delm_parts, destroy_del_mngr), leaf Vmalloc F_lpas_to_discard]"

abbreviation ftl_steps :: "(u32 \<Rightarrow> u32 \<Rightarrow> bool) \<Rightarrow> (u32 \<Rightarrow> u32 \<Rightarrow> bool) \<Rightarrow> obj \<Rightarrow> step list" where
  "ftl_steps fa fg x \<equiv> [((F_ptr_mapping_table, struct Kmalloc [leaf Vmalloc F_mappings], destroy_mapping_table), 0, 0,
       set_step (Some x) F_ptr_mapping_table create_page_mapping_table_mem),
     ((F_abm, struct Vmalloc [leaf Vmalloc F_act_blks], destroy_act_blk_mngr), 0, 0, set_step (Some x) F_abm (create_act_blk_mngr_mem fa)),
     ((F_delm, struct Vmalloc delm_parts, destroy_del_mngr), 1, 1, set_step (Some x) F_delm create_del_mngr_mem),
     ((F_gcm, struct Vmalloc gcm_parts, destroy_gc_mngr), 1, 1, set_step (Some x) F_gcm (create_gc_mngr_mem fg)),
     leaf_step Vmalloc F_lpas_to_discard x]"

lemma lawful_ftl: "lawful ftl_parts" "lawful ftl_order"
  by (simp_all only: lawful_simps lawful_leaf table.memory_owner_axioms abm.memory_owner_axioms delm.memory_owner_axioms
    gcm.memory_owner_axioms list.set image_insert image_empty fst_conv insert_iff empty_iff field.distinct simp_thms)

interpretation ftl: memory_owner "struct Vmalloc ftl_parts" destroy_pg_ftl
proof (rule perm_owner [of ftl_order])
  show "lawful ftl_order" by (rule lawful_ftl)
  show "set ftl_parts = set ftl_order" by auto
  show "destroy_pg_ftl = destroy_struct Vmalloc ftl_order"
    by (intro ext) (simp add: destroy_pg_ftl_def destroy_struct_def free_field_drop drop_order del: foldM.simps)
qed

lemma ftl_steps_ok:
  "\<forall>((f, P, d), ls, lf, step) \<in> set (ftl_steps fa fg x).
     step_ok True (all_free fa \<and> all_free fg) ls lf P f x step \<and> ls \<le> lf"
  using step_ok_weaken [OF set_step_ok [OF table_makes table.memory_owner_axioms], of True]
    step_ok_weaken [OF set_step_ok [OF abm_makes [of fa] abm.memory_owner_axioms], of True]
    step_ok_weaken [OF set_step_ok [OF delm_makes delm.memory_owner_axioms], of True]
    step_ok_weaken [OF set_step_ok [OF gcm_makes [of fg] gcm.memory_owner_axioms], of True]
    step_ok_weaken [OF alloc_step_ok, of True] by simp

lemma ftl_makes: "makes True (all_free fa \<and> all_free fg) 2 2 (struct Vmalloc ftl_parts) (create_pg_ftl_mem fa fg)"
proof (rule struct_makes [where ss = "ftl_steps fa fg" and clean = destroy_pg_ftl and extra = True])
  show "lawful ftl_parts" by (rule lawful_ftl)
  show "memory_owner (struct Vmalloc ftl_parts) destroy_pg_ftl" by (rule ftl.memory_owner_axioms)
  show "create_pg_ftl_mem fa fg h = do { (p, h) \<leftarrow> vmalloc h;
      case p of None \<Rightarrow> Some (NULL, h)
      | Some x \<Rightarrow> do { (r, h) \<leftarrow> run_steps (ftl_steps fa fg x) h;
          if r \<noteq> None \<or> \<not> True then do { h \<leftarrow> destroy_pg_ftl p h; Some (NULL, h) } else Some (p, h) } }" for h
  proof (cases "vmalloc h")
    case (Some a)
    obtain p h1 where a: "a = (p, h1)" by (cases a)
    show ?thesis
      unfolding create_pg_ftl_mem_def Some a
      by (cases p) (simp_all only: bind.bind_lunit case_prod_conv option.case simp_thms if_True if_False run_steps_Cons
        failing_def for_ret.simps(1) fail_some alloc_field_set option.distinct destroy_pg_ftl_def)
  qed (simp add: create_pg_ftl_mem_def)
qed (use ftl_steps_ok in simp_all)

section \<open>The bookkeeping of blocks and pages\<close>

lemma foldM_map: "foldM g (map f xs) = foldM (\<lambda>x. g (f x)) xs"
  by (induction xs) (simp_all add: fun_eq_iff)

lemma for_ret_map: "for_ret g (map f xs) = for_ret (\<lambda>x. g (f x)) xs"
  by (induction xs) (simp_all add: fun_eq_iff cong: option.case_cong)

definition blocks_parts :: "part list" where
  "blocks_parts = map (\<lambda>b. leaf Kmalloc (F_list_pages b)) (words_below NUM_BLOCKS_PER_CHIP)"

definition chips_parts :: "part list" where
  "chips_parts = map (\<lambda>c. (F_list_blocks c, struct Kmalloc blocks_parts, destroy_struct Kmalloc blocks_parts))
     (words_below NUM_CHIPS_PER_BUS)"

definition buses_parts :: "part list" where
  "buses_parts = map (\<lambda>b. (F_list_chips b, struct Kmalloc chips_parts, destroy_struct Kmalloc chips_parts)) (words_below NUM_BUSES)"

abbreviation ssd_parts :: "part list" where
  "ssd_parts \<equiv> [(F_list_buses, struct Kmalloc buses_parts, destroy_struct Kmalloc buses_parts)]"

lemma lawful_map:
  assumes "inj f" "distinct xs" "memory_owner P d"
  shows "lawful (map (\<lambda>x. (f x, P, d)) xs)"
  using assms by (auto simp: lawful_def distinct_map inj_on_def inj_def comp_def)

lemma lawful_ssd: "lawful blocks_parts" "lawful chips_parts" "lawful buses_parts" "lawful ssd_parts"
proof -
  show b: "lawful blocks_parts" unfolding blocks_parts_def by (rule lawful_map) (auto simp: inj_def lawful_leaf)
  show c: "lawful chips_parts" unfolding chips_parts_def by (rule lawful_map) (auto simp: inj_def struct_owner b)
  show u: "lawful buses_parts" unfolding buses_parts_def by (rule lawful_map) (auto simp: inj_def struct_owner c)
  show "lawful ssd_parts" by (simp add: struct_owner u)
qed

text \<open>The cleaning loops destroy those structures.\<close>

lemma free_chip_eq: "free_chip_mem lc chip = drop_field lc (F_list_blocks chip) (destroy_struct Kmalloc blocks_parts)"
  by (rule ext) (simp add: free_chip_mem_def drop_field_def destroy_struct_def blocks_parts_def foldM_map free_field_drop cong: if_cong)

lemma free_bus_eq: "free_bus_mem lbs bus = drop_field lbs (F_list_chips bus) (destroy_struct Kmalloc chips_parts)"
  by (rule ext) (simp add: free_bus_mem_def drop_field_def destroy_struct_def chips_parts_def foldM_map free_chip_eq [abs_def] cong: if_cong)

interpretation ssd: memory_owner "struct Kmalloc ssd_parts" destroy_ssd_info
proof -
  have "destroy_ssd_info = destroy_struct Kmalloc ssd_parts"
  proof (intro ext)
    fix p h
    have "do { h \<leftarrow> drop_field p F_list_buses (destroy_struct Kmalloc buses_parts) h; kfree p h } = do {
     lbs \<leftarrow> rd p F_list_buses h;
     h \<leftarrow> (if lbs = NULL then Some h else do {
       h \<leftarrow> foldM (free_bus_mem lbs) (words_below NUM_BUSES) h;
       kfree lbs h });
     kfree p h }"
      by (simp add: drop_field_def destroy_struct_def buses_parts_def foldM_map free_bus_eq [abs_def] cong: if_cong)
    then show "destroy_ssd_info p h = destroy_struct Kmalloc ssd_parts p h"
      by (simp add: destroy_ssd_info_def destroy_struct_def)
  qed
  then show "memory_owner (struct Kmalloc ssd_parts) destroy_ssd_info"
    using struct_owner [OF lawful_ssd(4), of Kmalloc] by simp
qed

lemma wr_alloc_field:
  "do { h \<leftarrow> wr (Some x) f NULL h; (ok, h) \<leftarrow> alloc_field k (Some x) f h; C ok h } =
   (if x \<in> live h then do { (ok, h) \<leftarrow> alloc_field k (Some x) f h; C ok h } else None)"
  by (simp add: alloc_field_def allocate_def Let_def wr_def)

lemma step_ok_cong:
  "(\<And>h. x \<in> live h \<Longrightarrow> step h = step' h) \<Longrightarrow> step_ok z possible ls lf P f x step' \<Longrightarrow> step_ok z possible ls lf P f x step"
  unfolding step_ok_def by simp

lemma create_block_ok: "step_ok True True 0 0 (plain Kmalloc) (F_list_pages b) x (create_block_mem (Some x) b)"
proof (rule step_ok_cong)
  show "create_block_mem (Some x) b h = set_step (Some x) (F_list_pages b) kmalloc h" if "x \<in> live h" for h
    unfolding create_block_mem_def wr_alloc_field using that by (simp add: set_step_def alloc_field_set)
  show "step_ok True True 0 0 (plain Kmalloc) (F_list_pages b) x (set_step (Some x) (F_list_pages b) kmalloc)"
    by (rule step_ok_weaken [OF alloc_step_ok]) simp_all
qed

lemma sum_zero: "(\<Sum>(p, ls, lf, step) \<leftarrow> map (\<lambda>b. (g b, 0 :: nat, 0 :: nat, st b)) xs. ls) = 0"
  "(\<Sum>(p, ls, lf, step) \<leftarrow> map (\<lambda>b. (g b, 0 :: nat, 0 :: nat, st b)) xs. lf) = 0"
  by (induction xs) simp_all

lemma create_chip_ok:
  "step_ok True True 0 0 (struct Kmalloc blocks_parts) (F_list_blocks c) x (create_chip_mem (Some x) c)"
proof (rule step_ok_cong)
  let ?ss = "\<lambda>y. map (\<lambda>b. (leaf Kmalloc (F_list_pages b), 0, 0, create_block_mem (Some y) b)) (words_below NUM_BLOCKS_PER_CHIP)"
  let ?step = "\<lambda>h. do {
      (ok, h) \<leftarrow> alloc_field Kmalloc (Some x) (F_list_blocks c) h;
      if \<not> ok then Some (Some (-1), h) else do {
      p \<leftarrow> rd (Some x) (F_list_blocks c) h;
      case p of None \<Rightarrow> None | Some y \<Rightarrow> run_steps (?ss y) h } }"
  show "create_chip_mem (Some x) c h = ?step h" if "x \<in> live h" for h
    unfolding create_chip_mem_def wr_alloc_field for_ret_map
    using that by (auto simp: alloc_field_def allocate_def Let_def)
  show "step_ok True True 0 0 (struct Kmalloc blocks_parts) (F_list_blocks c) x ?step"
  proof (rule substruct_step_ok [where ss = ?ss])
    show "lawful blocks_parts" by (rule lawful_ssd)
    show "map fst (?ss y) = blocks_parts" for y by (simp add: blocks_parts_def comp_def)
    show "\<forall>((f, P, d), ls, lf, step) \<in> set (?ss y). step_ok True True ls lf P f y step \<and> ls \<le> lf" for y
      using create_block_ok by auto
  qed (rule sum_zero refl)+
qed

lemma create_bus_ok:
  "step_ok True True 0 0 (struct Kmalloc chips_parts) (F_list_chips b) x (create_bus_mem (Some x) b)"
proof (rule substruct_step_ok)
  let ?ss = "\<lambda>y. map (\<lambda>c. ((F_list_blocks c, struct Kmalloc blocks_parts, destroy_struct Kmalloc blocks_parts), 0, 0,
    create_chip_mem (Some y) c)) (words_below NUM_CHIPS_PER_BUS)"
  show "lawful chips_parts" by (rule lawful_ssd)
  show "map fst (?ss y) = chips_parts" for y by (simp add: chips_parts_def comp_def)
  show "\<forall>((f, P, d), ls, lf, step) \<in> set (?ss y). step_ok True True ls lf P f y step \<and> ls \<le> lf" for y
    using create_chip_ok by auto
  show "create_bus_mem (Some x) b h = do {
      (ok, h) \<leftarrow> alloc_field Kmalloc (Some x) (F_list_chips b) h;
      if \<not> ok then Some (Some (-1), h) else do {
      p \<leftarrow> rd (Some x) (F_list_chips b) h;
      case p of None \<Rightarrow> None | Some y \<Rightarrow> run_steps (?ss y) h } }" for h
    unfolding create_bus_mem_def for_ret_map by (auto simp: alloc_field_def allocate_def Let_def wr_def)
qed (rule sum_zero)+

definition buses_step :: "obj \<Rightarrow> heap \<Rightarrow> (int option \<times> heap) option" where
  "buses_step x h = do {
     (ok, h) \<leftarrow> alloc_field Kmalloc (Some x) F_list_buses h;
     if \<not> ok then Some (Some (-1), h) else do {
     lbs \<leftarrow> rd (Some x) F_list_buses h;
     for_ret (create_bus_mem lbs) (words_below NUM_BUSES) h } }"

lemma buses_step_ok: "step_ok True True 0 0 (struct Kmalloc buses_parts) F_list_buses x (buses_step x)"
proof (rule substruct_step_ok)
  let ?ss = "\<lambda>y. map (\<lambda>b. ((F_list_chips b, struct Kmalloc chips_parts, destroy_struct Kmalloc chips_parts), 0, 0,
    create_bus_mem (Some y) b)) (words_below NUM_BUSES)"
  show "lawful buses_parts" by (rule lawful_ssd)
  show "map fst (?ss y) = buses_parts" for y by (simp add: buses_parts_def comp_def)
  show "\<forall>((f, P, d), ls, lf, step) \<in> set (?ss y). step_ok True True ls lf P f y step \<and> ls \<le> lf" for y
    using create_bus_ok by auto
  show "buses_step x h = do {
      (ok, h) \<leftarrow> alloc_field Kmalloc (Some x) F_list_buses h;
      if \<not> ok then Some (Some (-1), h) else do {
      p \<leftarrow> rd (Some x) F_list_buses h;
      case p of None \<Rightarrow> None | Some y \<Rightarrow> run_steps (?ss y) h } }" for h
    unfolding buses_step_def for_ret_map by (auto simp: alloc_field_def allocate_def Let_def wr_def)
qed (rule sum_zero)+

lemma ssd_makes: "makes True True 0 0 (struct Kmalloc ssd_parts) create_ssd_info_mem"
proof (rule struct_makes [where clean = destroy_ssd_info and extra = True])
  let ?ss = "\<lambda>x. [((F_list_buses, struct Kmalloc buses_parts, destroy_struct Kmalloc buses_parts), 0, 0, buses_step x)]"
  show "lawful ssd_parts" by (rule lawful_ssd)
  show "memory_owner (struct Kmalloc ssd_parts) destroy_ssd_info" by (rule ssd.memory_owner_axioms)
  show "map fst (?ss x) = ssd_parts" for x by simp
  show "\<forall>((f, P, d), ls, lf, step) \<in> set (?ss x). step_ok True True ls lf P f x step \<and> ls \<le> lf" for x
    using buses_step_ok by simp
  show "create_ssd_info_mem h = do { (p, h) \<leftarrow> kmalloc h;
      case p of None \<Rightarrow> Some (NULL, h)
      | Some x \<Rightarrow> do { (r, h) \<leftarrow> run_steps (?ss x) h;
          if r \<noteq> None \<or> \<not> True then do { h \<leftarrow> destroy_ssd_info p h; Some (NULL, h) } else Some (p, h) } }" for h
  proof (cases "kmalloc h")
    case (Some a)
    obtain p h1 where a: "a = (p, h1)" by (cases a)
    show ?thesis
    proof (cases p)
      case (Some x)
      show ?thesis
      proof (cases "alloc_field Kmalloc p F_list_buses h1")
        case al: (Some b)
        obtain ok h2 where b: "b = (ok, h2)" by (cases b)
        show ?thesis
        proof (cases ok)
          case False
          have "rd p F_list_buses h2 = Some NULL"
            using al b False by (auto simp: alloc_field_def wr_def Some split: Option.bind_splits if_splits)
          then show ?thesis using \<open>kmalloc h = Some a\<close> a al b False Some
            by (simp add: create_ssd_info_mem_def buses_step_def failing_def fail_alloc_bus_info_def destroy_ssd_info_def)
        next
          case True
          show ?thesis using \<open>kmalloc h = Some a\<close> a al b True Some
            by (auto simp: create_ssd_info_mem_def buses_step_def failing_def fail_alloc_infos_def fail_alloc_bus_info_def
                destroy_ssd_info_def intro!: Option.bind_cong split: option.split)
        qed
      qed (use \<open>kmalloc h = Some a\<close> a Some in \<open>simp add: create_ssd_info_mem_def buses_step_def\<close>)
    qed (use Some a in \<open>simp add: create_ssd_info_mem_def\<close>)
  qed (simp add: create_ssd_info_mem_def)
qed simp_all

section \<open>The bus controllers\<close>

abbreviation queue_own :: own where
  "queue_own \<equiv> struct Kmalloc [leaf Kmalloc F_opr_list]"

abbreviation queue_parts :: "part list" where
  "queue_parts \<equiv> [(F_elem 0, queue_own, destroy_opr_queue), (F_elem 1, queue_own, destroy_opr_queue)]"

text \<open>The array of queues is destroyed up to its first \<open>NULL\<close>, so what follows it may be anything.\<close>

definition queues_own :: own where
  "queues_own h p F \<longleftrightarrow> (case p of None \<Rightarrow> F = {}
   | Some x \<Rightarrow> if x \<in> live h \<and> cell h x (F_elem 0) = NULL then kind x = Kmalloc \<and> F = {x} else struct Kmalloc queue_parts h p F)"

definition destroy_queues :: "ptr \<Rightarrow> heap \<Rightarrow> heap option" where
  "destroy_queues qs h = (if qs = NULL then Some h else do {
     (r, h) \<leftarrow> for_ret (empty_array qs destroy_opr_queue) (words_below NUM_CHIPS_PER_BUS) h;
     kfree qs h })"

lemma lawful_queues: "lawful queue_parts"
  by (simp add: queue.memory_owner_axioms)

lemma destroy_queues_own:
  assumes "queues_own h p F"
  shows "destroy_queues p h = Some (h\<lparr>live := live h - F\<rparr>)"
proof (cases p)
  case None
  then show ?thesis using assms by (simp add: queues_own_def destroy_queues_def)
next
  case (Some x)
  show ?thesis
  proof (cases "x \<in> live h \<and> cell h x (F_elem 0) = NULL")
    case True
    then show ?thesis using assms Some
      by (simp add: queues_own_def destroy_queues_def words_below_CHIPS empty_array_def)
  next
    case False
    then obtain A where A: "x \<in> live h" "kind x = Kmalloc" "parts queue_parts h x A" "F = insert x (total queue_parts A)"
      using assms Some by (auto simp: queues_own_def struct_def)
    then have nz: "cell h x (F_elem 0) \<noteq> NULL" using False by simp
    have P: "queue_own h (cell h x (F_elem 0)) (A (F_elem 0))" "queue_own h (cell h x (F_elem 1)) (A (F_elem 1))"
      "x \<notin> A (F_elem 0)" "x \<notin> A (F_elem 1)" "A (F_elem 0) \<inter> A (F_elem 1) = {}"
      using A(3) by (auto simp: parts_Cons)
    let ?h = "h\<lparr>live := live h - A (F_elem 0)\<rparr>"
    have d0: "destroy_opr_queue (cell h x (F_elem 0)) h = Some ?h" by (rule queue.destroy_own [OF P(1)])
    have "queue_own ?h (cell h x (F_elem 1)) (A (F_elem 1))" by (rule queue.own_free [OF P(2)]) (use P(5) in blast)
    then have d1: "destroy_opr_queue (cell h x (F_elem 1)) ?h = Some (?h\<lparr>live := live ?h - A (F_elem 1)\<rparr>)"
      by (rule queue.destroy_own)
    have e1: "A (F_elem 1) = {}" if "cell h x (F_elem 1) = NULL" using P(2) that by (simp add: queue.own_NULL)
    have "live h - F = live h - A (F_elem 0) - A (F_elem 1) - {x}" using A(4) by auto
    then show ?thesis
      using Some nz A(1,2) P(3,4) d0 d1 e1
      by (cases "cell h x (F_elem 0)"; cases "cell h x (F_elem 1)")
        (simp_all add: destroy_queues_def words_below_CHIPS empty_array_def)
  qed
qed

interpretation queues: memory_owner queues_own destroy_queues
proof
  fix h h' p F
  have m: "memory_owner (struct Kmalloc queue_parts) (destroy_struct Kmalloc queue_parts)"
    by (rule struct_owner [OF lawful_queues])
  show "queues_own h NULL F \<longleftrightarrow> F = {}" by (simp add: queues_own_def)
  assume o: "queues_own h p F"
  show "F \<subseteq> live h"
    using o memory_owner.own_live [OF m] by (fastforce simp: queues_own_def split: option.splits if_splits)
  show "destroy_queues p h = Some (h\<lparr>live := live h - F\<rparr>)" by (rule destroy_queues_own [OF o])
  show "queues_own h' p F" if c: "\<forall>y \<in> F. cell h' y = cell h y" and l: "F \<subseteq> live h'"
  proof (cases p)
    case None
    then show ?thesis using o by (simp add: queues_own_def)
  next
    case (Some x)
    show ?thesis
    proof (cases "x \<in> live h \<and> cell h x (F_elem 0) = NULL")
      case True
      then show ?thesis using o Some c l by (simp add: queues_own_def)
    next
      case False
      then have s: "struct Kmalloc queue_parts h p F" using o Some by (auto simp: queues_own_def)
      then have x: "x \<in> F" "x \<in> live h" using Some by (auto simp: struct_def)
      then have "cell h' x (F_elem 0) \<noteq> NULL" using False c by auto
      moreover have "struct Kmalloc queue_parts h' p F" by (rule memory_owner.own_cong [OF m s c l])
      ultimately show ?thesis using Some by (auto simp: queues_own_def)
    qed
  qed
qed

lemma for_ret_one: "for_ret f [a] h = f a h"
  by (cases "f a h") (auto split: option.splits)

lemma for_ret_two: "for_ret f [a, b] h = do { (r, h) \<leftarrow> f a h; case r of None \<Rightarrow> f b h | Some e \<Rightarrow> Some (Some e, h) }"
  unfolding for_ret.simps(2) [of f a] for_ret_one ..

lemma set_step_cell: "set_step (Some x) f create h = Some (r, h') \<Longrightarrow> r = None \<longleftrightarrow> cell h' x f \<noteq> NULL"
  by (auto simp: set_step_def set_field_def wr_def split: Option.bind_splits if_splits)

lemma fill_array_step: "fill_array a create i = set_step a (F_elem i) create"
  by (rule ext) (simp add: fill_array_def set_step_def)

lemma queues_fills: "fills False True Kmalloc queues_own y (for_ret (fill_array (Some y) create_opr_queue_mem) (words_below NUM_CHIPS_PER_BUS))"
  unfolding fills_def
proof (intro allI impI disjI1)
  fix h assume wf: "heap_wf h" "kthreads h" and y: "y \<in> live h" "kind y = Kmalloc"
  let ?run = "for_ret (fill_array (Some y) create_opr_queue_mem) (words_below NUM_CHIPS_PER_BUS) h"
  let ?G = "\<lambda>r h' F. ?run = Some (r, h') \<and> grows {y} h h' F \<and> queues_own h' (Some y) (insert y F) \<and> (r \<noteq> None \<longrightarrow> may_fail True h)"
  let ?step = "\<lambda>i. set_step (Some y) (F_elem i) create_opr_queue_mem"
  have so: "step_ok False True 0 0 queue_own (F_elem i) y (?step i)" for i
    by (rule set_step_ok [OF queue_makes queue.memory_owner_axioms])
  have run: "?run = do { (r, h) \<leftarrow> ?step 0 h; case r of None \<Rightarrow> ?step 1 h | Some e \<Rightarrow> Some (Some e, h) }"
    unfolding words_below_CHIPS for_ret_two fill_array_step ..
  from so [of 0] wf y(1) show "\<exists>r h' F. ?G r h' F"
  proof (cases rule: step_okE)
    case (fails e h1 F L)
    then have z: "cell h1 y (F_elem 0) = NULL" using set_step_cell [OF fails(1)] by simp
    then have "F = {}" "L = {}" using fails(4,6,7) by (simp_all add: queue.own_NULL)
    then have "?G (Some e) h1 {}" using fails(1,2,8) z y growsD(4) [OF fails(2)] by (simp add: run queues_own_def)
    then show ?thesis by blast
  next
    case (ok h1 F L)
    have L: "L = {}" using ok(6,7) by simp
    have z: "cell h1 y (F_elem 0) \<noteq> NULL" using set_step_cell [OF ok(1)] by simp
    have h1: "heap_wf h1" "kthreads h1" "y \<in> live h1"
      using grows_wf [OF ok(2) wf(1)] growsD(2,4) [OF ok(2)] wf(2) y(1) by auto
    have both: "\<exists>A. grows {y} h h2 (total queue_parts A) \<and> queues_own h2 (Some y) (insert y (total queue_parts A))"
      if s2: "grows {y} h1 h2 (G \<union> {})" "G \<inter> {} = {}" "queue_own h2 (cell h2 y (F_elem 1)) G" "finite ({} :: obj set)"
        "\<forall>g. g \<noteq> F_elem 1 \<longrightarrow> cell h2 y g = cell h1 y g" for h2 G
    proof -
      have "built [(F_elem 1, queue_own, destroy_opr_queue)] (Suc 0) h1 y h2 ((\<lambda>_. {})(F_elem 1 := G)) ({} \<union> {})"
        by (rule built_Cons(1) [where P = queue_own and d = destroy_opr_queue, OF h1(1,3) _ s2 built_0]) (simp add: queue.memory_owner_axioms)
      from built_Cons(1) [where P = queue_own and d = destroy_opr_queue, OF wf(1) y(1) lawful_queues ok(2-4,6,5) this]
      obtain A where A: "built queue_parts (Suc (Suc 0)) h y h2 A {}" unfolding L by auto
      then have B: "grows {y} h h2 (total queue_parts A)" "parts queue_parts h2 y A" by (simp_all add: built_def)
      have "cell h2 y (F_elem 0) \<noteq> NULL" using z s2(5) by simp
      then show ?thesis using B y growsD(4) [OF B(1)] by (auto simp: queues_own_def struct_def)
    qed
    have r1: "?run = ?step 1 h1" using ok(1) by (simp add: run)
    from so [of 1] h1 show ?thesis
    proof (cases rule: step_okE)
      case o2: (ok h2 G M)
      have M: "M = {}" using o2(6,7) by simp
      obtain A where "grows {y} h h2 (total queue_parts A)" "queues_own h2 (Some y) (insert y (total queue_parts A))"
        using both [OF o2(2-4,6,5) [unfolded M]] by blast
      then have "?G None h2 (total queue_parts A)" using r1 o2(1) by simp
      then show ?thesis by blast
    next
      case f2: (fails e h2 G M)
      have M: "M = {}" using f2(6,7) by simp
      obtain A where "grows {y} h h2 (total queue_parts A)" "queues_own h2 (Some y) (insert y (total queue_parts A))"
        using both [OF f2(2-4,6,5) [unfolded M]] by blast
      then have "?G (Some e) h2 (total queue_parts A)" using r1 f2(1,8) may_fail_grows [OF ok(2)] by simp
      then show ?thesis by blast
    qed simp
  qed simp
qed

text \<open>One controller: its queues are built first, then its busy times.\<close>

abbreviation queues_part :: part where
  "queues_part \<equiv> (F_ptr_opr_queue, queues_own, destroy_queues)"

abbreviation ctrl_parts :: "part list" where
  "ctrl_parts \<equiv> [leaf Kmalloc F_chip_busies, queues_part]"

abbreviation ctrl_own :: own where
  "ctrl_own \<equiv> struct Kmalloc ctrl_parts"

lemma lawful_ctrl: "lawful ctrl_parts" "lawful [queues_part]"
  by (simp_all add: lawful_leaf queues.memory_owner_axioms)

lemma free_opr_queues_eq: "free_opr_queues bc = drop_field bc F_ptr_opr_queue destroy_queues"
  by (rule ext) (simp add: free_opr_queues_def drop_field_def destroy_queues_def)

lemma create_opr_queue_fail_owner: "memory_owner (struct Kmalloc [queues_part]) (\<lambda>p h. if p = NULL then Some h else create_opr_queue_fail p h)"
proof -
  have "(\<lambda>p h. if p = NULL then Some h else create_opr_queue_fail p h) = destroy_struct Kmalloc [queues_part]"
    by (intro ext) (simp add: create_opr_queue_fail_def destroy_struct_def free_opr_queues_eq)
  then show ?thesis using struct_owner [OF lawful_ctrl(2), of Kmalloc] by simp
qed

interpretation ctrl: memory_owner ctrl_own destroy_bus_controller
proof -
  have "destroy_bus_controller = destroy_struct Kmalloc ctrl_parts"
    by (intro ext) (simp add: destroy_bus_controller_def destroy_struct_def free_opr_queues_eq free_field_drop)
  then show "memory_owner ctrl_own destroy_bus_controller" using struct_owner [OF lawful_ctrl(1), of Kmalloc] by simp
qed

definition queues_step :: "obj \<Rightarrow> heap \<Rightarrow> (int option \<times> heap) option" where
  "queues_step x h = do {
     (ok, h) \<leftarrow> alloc_field Kmalloc (Some x) F_ptr_opr_queue h;
     if \<not> ok then Some (Some (-1), h) else do {
     qs \<leftarrow> rd (Some x) F_ptr_opr_queue h;
     for_ret (fill_array qs create_opr_queue_mem) (words_below NUM_CHIPS_PER_BUS) h } }"

lemma queues_step_ok: "step_ok False True 0 0 queues_own F_ptr_opr_queue x (queues_step x)"
proof (rule fill_step_ok)
  show "queues_step x h = do {
      (ok, h) \<leftarrow> alloc_field Kmalloc (Some x) F_ptr_opr_queue h;
      if \<not> ok then Some (Some (-1), h) else do {
      p \<leftarrow> rd (Some x) F_ptr_opr_queue h;
      case p of None \<Rightarrow> None
      | Some y \<Rightarrow> for_ret (fill_array (Some y) create_opr_queue_mem) (words_below NUM_CHIPS_PER_BUS) h } }" for h
    unfolding queues_step_def by (auto simp: alloc_field_def allocate_def Let_def wr_def)
qed (rule queues.own_NULL, rule queues_fills)

definition ctrl_start :: "heap \<Rightarrow> (ptr \<times> heap) option" where
  "ctrl_start h = do {
     (bc, h) \<leftarrow> kmalloc h;
     case bc of None \<Rightarrow> Some (NULL, h)
     | Some x \<Rightarrow> do { (r, h) \<leftarrow> run_steps [(queues_part, 0, 0, queues_step x)] h;
         if r \<noteq> None \<or> \<not> True then do { h \<leftarrow> (if bc = NULL then Some h else create_opr_queue_fail bc h); Some (NULL, h) }
         else Some (bc, h) } }"

lemma ctrl_start_makes: "makes False True 0 0 (struct Kmalloc [queues_part]) ctrl_start"
  by (rule struct_makes [OF lawful_ctrl(2) _ _ _ _ _ create_opr_queue_fail_owner ctrl_start_def])
    (simp_all add: queues_step_ok)

lemma run_one: "run_steps [(p, ls, lf, step)] h = step h"
  using for_ret_one [of "\<lambda>(p, ls, lf, step). step" "(p, ls, lf, step)" h] by simp

lemma ctrl_makes: "makes False True 0 0 ctrl_own create_bus_controller_mem"
proof (rule extend_makes [OF ctrl_start_makes lawful_ctrl(2) _ create_opr_queue_fail_owner])
  fix h
  let ?fail = "\<lambda>p h. if p = NULL then Some h else create_opr_queue_fail p h"
  show "create_bus_controller_mem h = do { (p, h) \<leftarrow> ctrl_start h;
      if p = NULL then Some (NULL, h) else do {
      (ok, h) \<leftarrow> alloc_field Kmalloc p F_chip_busies h;
      if \<not> ok then do { h \<leftarrow> ?fail p h; Some (NULL, h) } else Some (p, h) } }"
  proof (cases "kmalloc h")
    case (Some a)
    obtain p h1 where a: "kmalloc h = Some (p, h1)" using Some by (cases a) simp
    show ?thesis
    proof (cases p)
      case None
      then show ?thesis using a by (simp add: create_bus_controller_mem_def ctrl_start_def)
    next
      case (Some x)
      show ?thesis
      proof (cases "alloc_field Kmalloc p F_ptr_opr_queue h1")
        case al: (Some b)
        obtain ok h2 where b: "alloc_field Kmalloc p F_ptr_opr_queue h1 = Some (ok, h2)" using al by (cases b) simp
        show ?thesis
        proof (cases ok)
          case False
          have "rd p F_ptr_opr_queue h2 = Some NULL"
            using b False by (auto simp: alloc_field_def wr_def Some split: Option.bind_splits if_splits)
          then show ?thesis using a b False Some
            by (simp add: create_bus_controller_mem_def ctrl_start_def queues_step_def run_one failing_def
                create_opr_queue_fail_def free_opr_queues_def del: for_ret.simps)
        next
          case True
          show ?thesis
          proof (cases "rd p F_ptr_opr_queue h2")
            case qs: (Some q)
            show ?thesis
            proof (cases "for_ret (fill_array q create_opr_queue_mem) (words_below NUM_CHIPS_PER_BUS) h2")
              case fr: (Some c)
              obtain r h3 where "for_ret (fill_array q create_opr_queue_mem) (words_below NUM_CHIPS_PER_BUS) h2 = Some (r, h3)"
                using fr by (cases c) simp
              then show ?thesis using a b True Some qs
                by (cases r; cases "create_opr_queue_fail p h3")
                  (auto simp: create_bus_controller_mem_def ctrl_start_def queues_step_def run_one failing_def
                    simp del: for_ret.simps intro!: Option.bind_cong)
            qed (use a b True Some qs in \<open>simp add: create_bus_controller_mem_def ctrl_start_def queues_step_def run_one del: for_ret.simps\<close>)
          qed (use a b True Some in \<open>simp add: create_bus_controller_mem_def ctrl_start_def queues_step_def run_one del: for_ret.simps\<close>)
        qed
      qed (use a Some in \<open>simp add: create_bus_controller_mem_def ctrl_start_def queues_step_def run_one del: for_ret.simps\<close>)
    qed
  qed (simp add: create_bus_controller_mem_def ctrl_start_def)
qed simp

text \<open>The array of controllers, before and after their threads are started. There is one bus.\<close>

abbreviation arr_parts :: "part list" where
  "arr_parts \<equiv> [(F_elem 0, ctrl_own, destroy_bus_controller)]"

lemma lawful_arr: "lawful arr_parts"
  by (simp add: ctrl.memory_owner_axioms)

lemma create_bus_ctrl_fail_owner: "memory_owner (struct Kmalloc arr_parts) create_bus_ctrl_fail"
proof -
  have "create_bus_ctrl_fail p h = destroy_struct Kmalloc arr_parts p h" for p h
  proof (cases "rd p (F_elem 0) h")
    case (Some q)
    then show ?thesis
      by (cases q) (auto simp: create_bus_ctrl_fail_def destroy_struct_def words_below_CHIPS for_ret_one empty_array_def
          drop_field_def ctrl.destroy_own [of _ NULL "{}", simplified] split: Option.bind_split simp del: for_ret.simps)
  qed (simp add: create_bus_ctrl_fail_def destroy_struct_def words_below_CHIPS for_ret_one empty_array_def drop_field_def
      del: for_ret.simps)
  then have "create_bus_ctrl_fail = destroy_struct Kmalloc arr_parts" by (intro ext)
  then show ?thesis using struct_owner [OF lawful_arr, of Kmalloc] by simp
qed

definition arr_start :: "heap \<Rightarrow> (ptr \<times> heap) option" where
  "arr_start h = do {
     (arr, h) \<leftarrow> kmalloc h;
     case arr of None \<Rightarrow> Some (NULL, h)
     | Some x \<Rightarrow> do { (r, h) \<leftarrow> run_steps [((F_elem 0, ctrl_own, destroy_bus_controller), 0, 0,
           set_step (Some x) (F_elem 0) create_bus_controller_mem)] h;
         if r \<noteq> None \<or> \<not> True then do { h \<leftarrow> create_bus_ctrl_fail arr h; Some (NULL, h) } else Some (arr, h) } }"

lemma arr_start_makes: "makes False True 0 0 (struct Kmalloc arr_parts) arr_start"
  by (rule struct_makes [OF lawful_arr _ _ _ _ _ create_bus_ctrl_fail_owner arr_start_def])
    (use set_step_ok [OF ctrl_makes ctrl.memory_owner_axioms] in simp_all)

definition running_own :: own where
  "running_own h p F \<longleftrightarrow> (case p of None \<Rightarrow> F = {}
   | Some a \<Rightarrow> \<exists>b t G. a \<in> live h \<and> kind a = Kmalloc \<and> cell h a (F_elem 0) = Some b \<and> ctrl_own h (Some b) G \<and> a \<notin> G \<and>
       cell h b F_ptr_task = Some t \<and> t \<in> live h \<and> kind t = Thread \<and> t \<notin> G \<and> F = insert a (insert t G))"

lemma ctrl_self: "ctrl_own h (Some b) G \<Longrightarrow> b \<in> G \<and> b \<in> live h \<and> kind b = Kmalloc"
  by (auto simp: struct_def)

interpretation running: memory_owner running_own fb_bus_controller_destroy
proof
  fix h h' p F
  show "running_own h NULL F \<longleftrightarrow> F = {}" by (simp add: running_own_def)
  assume o: "running_own h p F"
  show "F \<subseteq> live h" using o ctrl.own_live by (fastforce simp: running_own_def split: option.splits)
  show "running_own h' p F" if c: "\<forall>y \<in> F. cell h' y = cell h y" and l: "F \<subseteq> live h'"
  proof (cases p)
    case None
    then show ?thesis using o by (simp add: running_own_def)
  next
    case (Some a)
    then obtain b t G where A: "a \<in> live h" "kind a = Kmalloc" "cell h a (F_elem 0) = Some b" "ctrl_own h (Some b) G" "a \<notin> G"
      "cell h b F_ptr_task = Some t" "t \<in> live h" "kind t = Thread" "t \<notin> G" "F = insert a (insert t G)"
      using o by (auto simp: running_own_def)
    have "ctrl_own h' (Some b) G" by (rule ctrl.own_cong [OF A(4)]) (use c l A(10) in auto)
    moreover have "cell h' a = cell h a" "cell h' b = cell h b" "a \<in> live h'" "t \<in> live h'"
      using c l A(10) ctrl_self [OF A(4)] by auto
    ultimately show ?thesis using A Some unfolding running_own_def
      by (simp only: option.case) (intro exI [of _ b] exI [of _ t] exI [of _ G] conjI; simp)
  qed
  show "fb_bus_controller_destroy p h = Some (h\<lparr>live := live h - F\<rparr>)"
  proof (cases p)
    case None
    then show ?thesis using o by (simp add: running_own_def fb_bus_controller_destroy_def)
  next
    case (Some a)
    then obtain b t G where A: "a \<in> live h" "kind a = Kmalloc" "cell h a (F_elem 0) = Some b" "ctrl_own h (Some b) G" "a \<notin> G"
      "cell h b F_ptr_task = Some t" "t \<in> live h" "kind t = Thread" "t \<notin> G" "F = insert a (insert t G)"
      using o by (auto simp: running_own_def)
    have b: "b \<in> live h" "a \<noteq> t" using ctrl_self [OF A(4)] A(2,8) by auto
    let ?h = "h\<lparr>live := live h - {t}\<rparr>"
    have "ctrl_own ?h (Some b) G" by (rule ctrl.own_free [OF A(4)]) (use A(9) in blast)
    then have d: "destroy_bus_controller (Some b) ?h = Some (?h\<lparr>live := live ?h - G\<rparr>)" by (rule ctrl.destroy_own)
    have "live h - F = live h - {t} - G - {a}" using A(10) by auto
    then show ?thesis
      using A(1-3,5-8) b d Some
      by (simp add: fb_bus_controller_destroy_def words_below_CHIPS fb_stop_bus_ctrl_thread_def)
  qed
qed

lemma struct_single:
  "struct k [(f, P, d)] h (Some x) F \<longleftrightarrow> x \<in> live h \<and> kind x = k \<and> (\<exists>G. P h (cell h x f) G \<and> x \<notin> G \<and> F = insert x G)"
proof
  assume "x \<in> live h \<and> kind x = k \<and> (\<exists>G. P h (cell h x f) G \<and> x \<notin> G \<and> F = insert x G)"
  then obtain G where "x \<in> live h" "kind x = k" "P h (cell h x f) G" "x \<notin> G" "F = insert x G" by blast
  then show "struct k [(f, P, d)] h (Some x) F"
    unfolding struct_def by (simp only: option.case) (intro conjI exI [of _ "\<lambda>_. G"]; simp add: parts_Cons)
qed (auto simp: struct_def parts_Cons)

lemma start_threads:
  assumes wf: "heap_wf h" "kthreads h" and o: "struct Kmalloc arr_parts h (Some a) F" "cell h a (F_elem 0) \<noteq> NULL"
  shows "\<exists>h2 t. for_ret (start_thread_mem (Some a)) (words_below NUM_BUSES) h = Some (None, h2) \<and> grows F h h2 {t} \<and>
    t \<notin> live h \<and> running_own h2 (Some a) (insert t F)"
proof -
  from o(1) [unfolded struct_single] obtain G where g: "a \<in> live h" "kind a = Kmalloc" "ctrl_own h (cell h a (F_elem 0)) G"
    "a \<notin> G" "F = insert a G" by blast
  obtain b where b0: "cell h a (F_elem 0) = Some b" using o(2) by blast
  have A: "a \<in> live h" "kind a = Kmalloc" "cell h a (F_elem 0) = Some b" "ctrl_own h (Some b) G" "a \<notin> G" "F = insert a G"
    using g b0 by simp_all
  note b = ctrl_self [OF A(4)]
  let ?t = "Obj Thread (calls h)"
  let ?h1 = "h\<lparr>calls := calls h + 1, live := insert ?t (live h)\<rparr>"
  let ?h2 = "?h1\<lparr>cell := (cell h)(b := (cell h b)(F_ptr_task := Some ?t))\<rparr>"
  have fr: "?t \<notin> live h" using wf(1) by (force simp: heap_wf_def)
  have ne: "b \<noteq> a" "b \<noteq> ?t" using b A(5) fr by auto
  have "for_ret (start_thread_mem (Some a)) (words_below NUM_BUSES) h = Some (None, ?h2)"
    using A(1,3) b ne wf(2)
    by (simp add: words_below_CHIPS for_ret_one start_thread_mem_def fb_init_bus_ctrl_thread_mem_def kthread_run_def Let_def
        fb_init_bus_ctrl_thread_def del: for_ret.simps)
  moreover have "grows F h ?h2 {?t}"
  proof -
    have "zeroed ?h2" if z: "zeroed h" unfolding zeroed_def
    proof (intro allI impI)
      fix x assume "calls ?h2 \<le> call x"
      moreover have "call b < calls h" using wf(1) b by (simp add: heap_wf_def)
      ultimately show "cell ?h2 x = (\<lambda>_. NULL)" using z by (auto simp: zeroed_def)
    qed
    then show ?thesis using A(6) b fr by (auto simp: grows_def)
  qed
  moreover have "running_own ?h2 (Some a) (insert ?t F)"
  proof -
    have "ctrl_own ?h2 (Some b) G"
    proof -
      obtain B where B: "parts ctrl_parts h b B" "G = insert b (total ctrl_parts B)" using A(4) by (auto simp: struct_def)
      have "parts ctrl_parts ?h2 b B"
      proof (rule parts_cong [OF lawful_ctrl(1) B(1)])
        show "\<forall>y \<in> total ctrl_parts B. cell ?h2 y = cell h y" using parts_notin [OF B(1)] by auto
        show "total ctrl_parts B \<subseteq> live ?h2" using parts_live [OF lawful_ctrl(1) B(1)] by auto
      qed auto
      then show ?thesis using b B(2) by (auto simp: struct_def)
    qed
    moreover have "?t \<notin> G" using ctrl.own_live [OF A(4)] fr by blast
    ultimately show ?thesis using A ne unfolding running_own_def
      by (simp only: option.case) (intro exI [of _ b] exI [of _ ?t] exI [of _ G] conjI; simp add: insert_commute)
  qed
  ultimately show ?thesis using fr by blast
qed

definition ctrls_make :: "heap \<Rightarrow> (ptr \<times> heap) option" where
  "ctrls_make h = do {
     (arr, h) \<leftarrow> arr_start h;
     if arr = NULL then Some (NULL, h) else do {
     (r, h) \<leftarrow> for_ret (start_thread_mem arr) (words_below NUM_BUSES) h;
     if r \<noteq> None then do { h \<leftarrow> init_bus_ctrl_thread_fail arr h; Some (NULL, h) } else Some (arr, h) } }"

lemma arr_start_elem:
  assumes "arr_start h = Some (Some a, h1)"
  shows "cell h1 a (F_elem 0) \<noteq> NULL"
proof -
  obtain h0 where "set_step (Some a) (F_elem 0) create_bus_controller_mem h0 = Some (None, h1)"
    using assms by (auto simp: arr_start_def run_one simp del: for_ret.simps split: Option.bind_splits option.splits if_splits)
  then show ?thesis using set_step_cell by blast
qed

lemma ctrls_makes: "makes False True 0 0 running_own ctrls_make"
  unfolding makes_def
proof (intro allI impI disjI1)
  fix h assume wf: "heap_wf h" "kthreads h"
  let ?G = "\<lambda>q h' F L. ctrls_make h = Some (q, h') \<and> grows {} h h' (F \<union> L) \<and> F \<inter> L = {} \<and> running_own h' q F \<and> finite L \<and>
    (if q \<noteq> NULL then card L = 0 else card L \<le> 0 \<and> may_fail True h)"
  from arr_start_makes wf show "\<exists>q h' F L. ?G q h' F L"
  proof (cases rule: makesE)
    case (fails h' F L)
    then have "?G NULL h' {} {}" by (simp add: ctrls_make_def running_own_def struct_def)
    then show ?thesis by blast
  next
    case (ok a h1 F L)
    have g: "grows {} h h1 F" using ok(2,5,6) by simp
    have w1: "heap_wf h1" "kthreads h1" using grows_wf [OF g wf(1)] growsD(2) [OF g] wf(2) by auto
    obtain h2 t where s: "for_ret (start_thread_mem (Some a)) (words_below NUM_BUSES) h1 = Some (None, h2)" "grows F h1 h2 {t}"
        "running_own h2 (Some a) (insert t F)"
      using start_threads [OF w1 ok(4) arr_start_elem [OF ok(1)]] by blast
    have "grows {} h h2 (F \<union> {t})" by (rule grows_trans [OF g s(2)]) (use grows_fresh [OF g wf(1)] in blast)
    then have "?G (Some a) h2 (insert t F) {}" using ok(1) s(1,3) by (simp add: ctrls_make_def del: for_ret.simps)
    then show ?thesis by blast
  qed simp
qed

lemma fb_bus_controller_init_eq:
  "fb_bus_controller_init_mem vd h = do {
     (p, h) \<leftarrow> ctrls_make h;
     if p = NULL then Some (-1, h) else do { h \<leftarrow> wr vd F_ptr_bus_controller p h; Some (0, h) } }"
proof (cases "kmalloc h")
  case (Some a)
  obtain p h1 where a: "kmalloc h = Some (p, h1)" using Some by (cases a) simp
  have one: "words_below NUM_BUSES = [0 :: u32]" by (rule words_below_CHIPS)
  show ?thesis
  proof (cases p)
    case (Some x)
    show ?thesis
    proof (cases "set_step p (F_elem 0) create_bus_controller_mem h1")
      case (Some b)
      obtain r h2 where b: "set_step p (F_elem 0) create_bus_controller_mem h1 = Some (r, h2)" using Some by (cases b) simp
      show ?thesis
      proof (cases r)
        case None
        show ?thesis
        proof (cases "for_ret (start_thread_mem p) [0] h2")
          case (Some c)
          obtain r2 h3 where "for_ret (start_thread_mem p) [0] h2 = Some (r2, h3)" using Some by (cases c) simp
          then show ?thesis using a b None \<open>p = Some x\<close>
            by (cases r2; cases "init_bus_ctrl_thread_fail p h3")
              (auto simp: fb_bus_controller_init_mem_def ctrls_make_def arr_start_def run_one one for_ret_one fill_array_step
                simp del: for_ret.simps)
        qed (use a b None \<open>p = Some x\<close> in \<open>simp add: fb_bus_controller_init_mem_def ctrls_make_def arr_start_def run_one one
              for_ret_one fill_array_step del: for_ret.simps\<close>)
      next
        case (Some e)
        then show ?thesis using a b \<open>p = Some x\<close>
          by (cases "create_bus_ctrl_fail p h2")
            (auto simp: fb_bus_controller_init_mem_def ctrls_make_def arr_start_def run_one one for_ret_one fill_array_step
              simp del: for_ret.simps)
      qed
    qed (use a Some in \<open>simp add: fb_bus_controller_init_mem_def ctrls_make_def arr_start_def run_one one
          for_ret_one fill_array_step del: for_ret.simps\<close>)
  qed (use a in \<open>simp add: fb_bus_controller_init_mem_def ctrls_make_def arr_start_def\<close>)
qed (simp add: fb_bus_controller_init_mem_def ctrls_make_def arr_start_def)

section \<open>The emulated device\<close>

abbreviation vd_parts :: "part list" where
  "vd_parts \<equiv> [(F_ptr_bus_controller, running_own, fb_bus_controller_destroy), leaf Vmalloc (F_ptr_vdisk 0)]"

lemma lawful_vd: "lawful vd_parts"
  by (simp add: lawful_leaf running.memory_owner_axioms)

interpretation vd: memory_owner "struct Vmalloc vd_parts" destroy_vdevice
proof -
  have "destroy_vdevice = destroy_struct Vmalloc vd_parts"
    by (intro ext) (simp add: destroy_vdevice_def destroy_struct_def words_below_CHIPS free_field_drop)
  then show "memory_owner (struct Vmalloc vd_parts) destroy_vdevice" using struct_owner [OF lawful_vd, of Vmalloc] by simp
qed

text \<open>The disk is leaked when the bus controllers cannot be created.\<close>

lemma vd_makes: "makes False True 0 1 (struct Vmalloc vd_parts) create_vdevice_mem"
  unfolding makes_def
proof (intro allI impI disjI1)
  fix h assume wf: "heap_wf h" "kthreads h"
  let ?G = "\<lambda>q h' F L. create_vdevice_mem h = Some (q, h') \<and> grows {} h h' (F \<union> L) \<and> F \<inter> L = {} \<and>
    struct Vmalloc vd_parts h' q F \<and> finite L \<and> (if q \<noteq> NULL then card L = 0 else card L \<le> 1 \<and> may_fail True h)"
  have one: "words_below NUM_BUSES = [0 :: u32]" by (rule words_below_CHIPS)
  from allocate_makes [of Vmalloc] wf show "\<exists>q h' F L. ?G q h' F L"
  proof (cases rule: makesE)
    case (fails h' F L)
    then have "?G NULL h' {} {}" by (simp add: create_vdevice_mem_def struct_def plain_def)
    then show ?thesis by blast
  next
    case (ok x h1 F1 L1)
    have x: "x \<in> live h1" "kind x = Vmalloc" and g1: "grows {} h h1 {x}"
      using ok(2,4,5,6) by (auto simp: plain_def)
    have w1: "heap_wf h1" "kthreads h1" using grows_wf [OF g1 wf(1)] growsD(2) [OF g1] wf(2) by auto
    have x0: "x \<notin> live h" using grows_fresh [OF g1 wf(1)] by simp
    from allocate_makes [of Vmalloc] w1 show ?thesis
    proof (cases rule: makesE)
      case (fails h2 F2 L2)
      have g2: "grows {} h1 h2 {}" using fails(2,4,5,6) by (simp add: plain_def)
      have g: "grows {} h h2 ({x} \<union> {})" by (rule grows_trans [OF g1 g2]) simp
      have xl: "x \<in> live h2" using growsD(4) [OF g2] x by simp
      have "grows {} h (h2\<lparr>live := live h2 - {x}\<rparr>) ({x} \<union> {} - {x})" by (rule grows_free [OF g]) (use x0 in simp)
      then have "?G NULL (h2\<lparr>live := live h2 - {x}\<rparr>) {} {}"
        using ok(1) fails(1,7) xl x(2) may_fail_grows [OF g1]
        by (simp add: create_vdevice_mem_def one for_ret_one alloc_vdisk_def failing_def struct_def del: for_ret.simps)
      then show ?thesis by blast
    next
      case o2: (ok d h2 F2 L2)
      have d: "d \<in> live h2" "kind d = Vmalloc" and g2: "grows {} h1 h2 {d}"
        using o2(2,4,5,6) by (auto simp: plain_def)
      have dx: "d \<notin> live h1" using grows_fresh [OF g2 w1(1)] by simp
      then have nx: "d \<noteq> x" using x by blast
      define h3 where "h3 = h2\<lparr>cell := (cell h2)(x := (cell h2 x)(F_ptr_vdisk 0 := Some d))\<rparr>"
      have xl: "x \<in> live h2" using growsD(4) [OF g2] x by simp
      have w2: "heap_wf h2" by (rule grows_wf [OF g2 w1(1)])
      have "grows {x} h1 h3 ({d} \<union> {})"
        unfolding h3_def by (rule grows_trans [OF grows_mono [OF g2] grows_wr [OF w2 xl]]) simp_all
      then have g3: "grows {} h h3 ({x} \<union> {d})"
        by (intro grows_trans [OF g1]) (use x0 in auto)
      have vdisk: "for_ret (alloc_vdisk (Some x)) (words_below NUM_BUSES) h1 = Some (None, h3)"
        using o2(1) xl by (simp add: one for_ret_one alloc_vdisk_def h3_def del: for_ret.simps)
      have w3: "heap_wf h3" "kthreads h3" using grows_wf [OF g3 wf(1)] growsD(2) [OF g3] wf(2) by auto
      have x3: "x \<in> live h3" "d \<in> live h3" using growsD(4) [OF g3] by auto
      from ctrls_makes w3 show ?thesis
      proof (cases rule: makesE)
        case (fails h4 F4 L4)
        have g4: "grows {} h3 h4 {}" using fails(2,4,5,6) by (simp add: running_own_def)
        have g: "grows {} h h4 (({x} \<union> {d}) \<union> {})" by (rule grows_trans [OF g3 g4]) simp
        have x4: "x \<in> live h4" using growsD(4) [OF g4] x3 by simp
        have "grows {} h (h4\<lparr>live := live h4 - {x}\<rparr>) (({x} \<union> {d}) \<union> {} - {x})" by (rule grows_free [OF g]) (use x0 in simp)
        then have "?G NULL (h4\<lparr>live := live h4 - {x}\<rparr>) {} {d}"
          using ok(1) vdisk fails(1,7) x4 x(2) may_fail_grows [OF g3] nx
          by (simp add: create_vdevice_mem_def fb_bus_controller_init_eq failing_def struct_def insert_Diff_if del: for_ret.simps)
        then show ?thesis by blast
      next
        case o4: (ok a h4 F4 L4)
        have g4: "grows {} h3 h4 F4" using o4(2,5,6) by simp
        have fr: "F4 \<inter> live h3 = {}" by (rule grows_fresh [OF g4 w3(1)])
        define h5 where "h5 = h4\<lparr>cell := (cell h4)(x := (cell h4 x)(F_ptr_bus_controller := Some a))\<rparr>"
        have x4: "x \<in> live h4" "d \<in> live h4" using growsD(4) [OF g4] x3 by auto
        have w4: "heap_wf h4" by (rule grows_wf [OF g4 w3(1)])
        have w: "grows {x} h4 h5 {}" unfolding h5_def by (rule grows_wr [OF w4 x4(1)])
        have "grows {x} h3 h5 (F4 \<union> {})" by (rule grows_trans [OF grows_mono [OF g4] w]) simp_all
        then have g5: "grows {x} h3 h5 F4" by simp
        have g: "grows {} h h5 (({x} \<union> {d}) \<union> F4)" by (rule grows_trans [OF g3 g5]) (use x0 in auto)
        have run: "running_own h5 (Some a) F4"
          by (rule running.own_grows [OF o4(4) w]) (use fr x3 in blast)
        have c: "cell h5 x F_ptr_bus_controller = Some a" "cell h5 x (F_ptr_vdisk 0) = Some d"
          using growsD(6) [OF g4 x3(1)] by (simp_all add: h5_def h3_def)
        let ?A = "(\<lambda>_. {})(F_ptr_bus_controller := F4, F_ptr_vdisk 0 := {d})"
        have "parts vd_parts h5 x ?A"
          using run c fr x3 nx d growsD(4) [OF g5] by (auto simp: parts_Cons plain_def)
        then have "struct Vmalloc vd_parts h5 (Some x) (insert x (insert d F4))"
          using x4 growsD(4) [OF w] x(2) unfolding struct_def
          by (simp only: option.case) (intro conjI exI [of _ ?A]; simp)
        moreover have "create_vdevice_mem h = Some (Some x, h5)"
          using ok(1) vdisk o4(1) x4 by (simp add: create_vdevice_mem_def fb_bus_controller_init_eq h5_def del: for_ret.simps)
        ultimately have "?G (Some x) h5 (insert x (insert d F4)) {}" using g by (simp add: insert_commute)
        then show ?thesis by blast
      qed simp
    qed simp
  qed simp
qed

end
