(* ===== verification/FB_Memory_Module.thy ===== *)
theory FB_Memory_Module
  imports FB_Memory_Spec
begin

text \<open>
  The memory of the whole module: the write buffer with its entries, loading and unloading, and the properties of
  all creation and destruction functions.
\<close>

section \<open>The write buffer\<close>

abbreviation entry_own :: own where
  "entry_own \<equiv> struct Vmalloc [leaf Vmalloc F_data]"

fun entries_own :: "heap \<Rightarrow> obj list \<Rightarrow> obj set \<Rightarrow> bool" where
  "entries_own h [] F \<longleftrightarrow> F = {}"
| "entries_own h (x # xs) F \<longleftrightarrow> (\<exists>A B. entry_own h (Some x) A \<and> entries_own h xs B \<and> A \<inter> B = {} \<and> F = A \<union> B)"

lemma entries_live: "entries_own h xs F \<Longrightarrow> F \<subseteq> live h"
  by (induction xs arbitrary: F) (auto dest: entry.own_live)

lemma entries_cong:
  "entries_own h xs F \<Longrightarrow> \<forall>y \<in> F. cell h' y = cell h y \<Longrightarrow> F \<subseteq> live h' \<Longrightarrow> entries_own h' xs F"
proof (induction xs arbitrary: F)
  case (Cons x xs)
  then obtain A B where o: "entry_own h (Some x) A" "entries_own h xs B" "A \<inter> B = {}" "F = A \<union> B" by auto
  have "entry_own h' (Some x) A" by (rule entry.own_cong [OF o(1)]) (use Cons.prems o(4) in auto)
  moreover have "entries_own h' xs B" by (rule Cons.IH [OF o(2)]) (use Cons.prems o(4) in auto)
  ultimately show ?case using o by auto
qed simp

lemma entries_grows:
  assumes "entries_own h xs F" "grows X h h' G" "X \<inter> F = {}"
  shows "entries_own h' xs F"
proof (rule entries_cong [OF assms(1)])
  show "\<forall>y \<in> F. cell h' y = cell h y" using assms(3) entries_live [OF assms(1)] growsD(6) [OF assms(2)] by blast
  show "F \<subseteq> live h'" using entries_live [OF assms(1)] growsD(4) [OF assms(2)] by blast
qed




definition wb_own :: "heap \<Rightarrow> obj \<Rightarrow> obj list \<Rightarrow> obj set \<Rightarrow> bool" where
  "wb_own h w es F \<longleftrightarrow> w \<in> live h \<and> kind w = Vmalloc \<and> (\<exists>E. entries_own h es E \<and> w \<notin> E \<and> F = insert w E)"


lemma wb_own_grows:
  assumes "wb_own h w es F" "grows X h h' G" "X \<inter> F = {}"
  shows "wb_own h' w es F"
  using assms entries_grows [OF _ assms(2)] growsD(4) [OF assms(2)] unfolding wb_own_def by blast

lemma wb_own_live: "wb_own h w es F \<Longrightarrow> F \<subseteq> live h"
  using entries_live by (fastforce simp: wb_own_def)



section \<open>Loading and unloading\<close>




















section \<open>Properties\<close>

definition fresh_heap :: "(nat \<Rightarrow> bool) \<Rightarrow> (obj \<Rightarrow> field \<Rightarrow> ptr) \<Rightarrow> heap" where
  "fresh_heap ans junk = \<lparr>answer = ans, kthreads = True, calls = 0, live = {}, cell = junk\<rparr>"








text \<open>
  C30. The memory of \<open>vmalloc\<close> is not zeroed, and then the failure path of \<open>create_pg_ftl\<close> is unsafe: when the mapping table cannot
  be allocated, \<open>destroy_pg_ftl\<close> runs on a context whose field \<open>abm\<close> was never set, and follows whatever pointer the
  memory held there.
\<close>

lemma wild_abm: "y \<notin> live h \<Longrightarrow> destroy_act_blk_mngr (Some y) h = None"
  by (simp add: destroy_act_blk_mngr_def free_field_def rd_def)

theorem ftl_failure_follows_junk:
  assumes "answer h (calls h)" "\<not> answer h (calls h + 1)"
    and "cell h (Obj Vmalloc (calls h)) F_abm = Some y" "y \<notin> live h" "y \<noteq> Obj Vmalloc (calls h)"
  shows "create_pg_ftl_mem fa fg h = None"
  using assms by (simp add: create_pg_ftl_mem_def allocate_def Let_def set_field_def create_page_mapping_table_mem_def
    failing_def destroy_pg_ftl_def drop_field_def wild_abm)

theorem ftl_failure_follows_junk_witness:
  "create_pg_ftl_mem (\<lambda>_ _. True) (\<lambda>_ _. True) (fresh_heap (\<lambda>n. n \<noteq> 1) (\<lambda>_ _. Some (Obj Kmalloc 7))) = None"
  by (rule ftl_failure_follows_junk [where y = "Obj Kmalloc 7"]) (simp_all add: fresh_heap_def)



text \<open>
  A bus thread that could not be started is never noticed, and then the bus controllers cannot be destroyed:
  \<open>fb_bus_controller_init\<close> returns 0, and \<open>fb_bus_controller_destroy\<close> passes the error pointer to \<open>kthread_stop\<close>.
\<close>

theorem failed_thread_is_stopped:
  assumes "heap_wf h" "\<forall>n. answer h n" "\<not> kthreads h" "v \<in> live h"
  shows "\<exists>h1 arr. fb_bus_controller_init_mem (Some v) h = Some (0, h1) \<and> rd (Some v) F_ptr_bus_controller h1 = Some arr \<and>
     fb_bus_controller_destroy arr h1 = None"
proof -
  have f: "Obj k n \<notin> live h" if "calls h \<le> n" for k n using assms(1) that by (force simp: heap_wf_def)
  have v: "v \<noteq> Obj k n" "Obj k n \<noteq> v" if "calls h \<le> n" for k n using f [OF that] assms(4) by metis+
  show ?thesis using assms(2-4)
    by (simp add: fb_bus_controller_init_mem_def words_below_CHIPS for_ret_one for_ret_two fill_array_def set_field_def
      create_bus_controller_mem_def allocate_def Let_def alloc_field_def wr_def rd_def create_opr_queue_mem_def
      start_thread_mem_def fb_init_bus_ctrl_thread_mem_def kthread_run_def fb_init_bus_ctrl_thread_def
      fb_bus_controller_destroy_def fb_stop_bus_ctrl_thread_def release_def f v del: for_ret.simps)
qed

theorem failed_thread_is_stopped_witness:
  "\<exists>h1 arr. fb_bus_controller_init_mem (Some (Obj Vmalloc 0))
       \<lparr>answer = \<lambda>_. True, kthreads = False, calls = 1, live = {Obj Vmalloc 0}, cell = \<lambda>_ _. NULL\<rparr> = Some (0, h1) \<and>
     rd (Some (Obj Vmalloc 0)) F_ptr_bus_controller h1 = Some arr \<and> fb_bus_controller_destroy arr h1 = None"
  by (rule failed_thread_is_stopped) (simp_all add: heap_wf_def)

end
