(* ===== verification/FB_Uthash.thy ===== *)
theory FB_Uthash
  imports FB_Hash FB_Utlist
begin

text \<open>
  \<open>uthash/uthash.h\<close> with its buckets: the hash function, the list of all elements in the order of their insertion, the
  chain of each bucket, and the doubling of the bucket array. \<open>FB_Hash\<close>, which the write buffer is built on, leaves all
  this out; \<open>FB_Uthash_Spec\<close> shows that it may.

  An element is a pointer; its hash handle \<open>hh\<close> lies at a fixed offset in it, so a pointer to the handle names the
  element as well and \<open>ELMT_FROM_HH\<close> is the identity. \<open>fld\<close> is the field of the elements that \<open>HASH_ADD\<close> is told to use as key
  (\<open>lpa\<close>). The table that the handles of all elements point to is \<open>tbl\<close>, \<open>None\<close> when it is freed or was never allocated. Running
  out of memory is \<open>None\<close>: \<open>uthash_fatal\<close> is \<open>printk\<close> in the kernel, and the next statement clears the memory at \<open>NULL\<close>.
\<close>

unbundle bit_operations_syntax

section \<open>The hash function\<close>

definition HASH_JEN_MIX :: "u32 \<Rightarrow> u32 \<Rightarrow> u32 \<Rightarrow> u32 \<times> u32 \<times> u32" where
  "HASH_JEN_MIX a b c = (
     let a = a - b; a = a - c; a = a XOR drop_bit 13 c;
         b = b - c; b = b - a; b = b XOR push_bit 8 a;
         c = c - a; c = c - b; c = c XOR drop_bit 13 b;
         a = a - b; a = a - c; a = a XOR drop_bit 12 c;
         b = b - c; b = b - a; b = b XOR push_bit 16 a;
         c = c - a; c = c - b; c = c XOR drop_bit 5 b;
         a = a - b; a = a - c; a = a XOR drop_bit 3 c;
         b = b - c; b = b - a; b = b XOR push_bit 10 a;
         c = c - a; c = c - b; c = c XOR drop_bit 15 b
     in (a, b, c))"

definition key_byte :: "u8 list \<Rightarrow> nat \<Rightarrow> nat \<Rightarrow> u32" where
  "key_byte key n s = push_bit s (ucast (key ! n))"

text \<open>The loop over blocks of 12 bytes, with the rest of the key as result.\<close>

fun hash_jen_blocks :: "u8 list \<Rightarrow> u32 \<Rightarrow> u32 \<Rightarrow> u32 \<Rightarrow> u8 list \<times> u32 \<times> u32 \<times> u32" where
  "hash_jen_blocks key i j hashv =
     (if 12 \<le> length key then
        let i = i + (key_byte key 0 0 + key_byte key 1 8 + key_byte key 2 16 + key_byte key 3 24);
            j = j + (key_byte key 4 0 + key_byte key 5 8 + key_byte key 6 16 + key_byte key 7 24);
            hashv = hashv + (key_byte key 8 0 + key_byte key 9 8 + key_byte key 10 16 + key_byte key 11 24);
            (i, j, hashv) = HASH_JEN_MIX i j hashv
        in hash_jen_blocks (drop 12 key) i j hashv
      else (key, i, j, hashv))"

declare hash_jen_blocks.simps [simp del]

text \<open>The \<open>switch\<close> without \<open>break\<close>: case \<open>n\<close> adds the bytes below \<open>n\<close>, the highest first.\<close>

definition hash_jen_tail :: "u8 list \<Rightarrow> u32 \<Rightarrow> u32 \<Rightarrow> u32 \<Rightarrow> u32 \<times> u32 \<times> u32" where
  "hash_jen_tail key i j hashv = (
     let k = length key;
         hashv = (if 11 \<le> k then hashv + key_byte key 10 24 else hashv);
         hashv = (if 10 \<le> k then hashv + key_byte key 9 16 else hashv);
         hashv = (if 9 \<le> k then hashv + key_byte key 8 8 else hashv);
         j = (if 8 \<le> k then j + key_byte key 7 24 else j);
         j = (if 7 \<le> k then j + key_byte key 6 16 else j);
         j = (if 6 \<le> k then j + key_byte key 5 8 else j);
         j = (if 5 \<le> k then j + key_byte key 4 0 else j);
         i = (if 4 \<le> k then i + key_byte key 3 24 else i);
         i = (if 3 \<le> k then i + key_byte key 2 16 else i);
         i = (if 2 \<le> k then i + key_byte key 1 8 else i);
         i = (if 1 \<le> k then i + key_byte key 0 0 else i)
     in (i, j, hashv))"

definition HASH_JEN :: "u8 list \<Rightarrow> u32" where
  "HASH_JEN key = (
     let (rest, i, j, hashv) = hash_jen_blocks key 0x9e3779b9 0x9e3779b9 0xfeedbeef;
         hashv = hashv + of_nat (length key);
         (i, j, hashv) = hash_jen_tail rest i j hashv
     in snd (snd (HASH_JEN_MIX i j hashv)))"

definition HASH_TO_BKT :: "u32 \<Rightarrow> u32 \<Rightarrow> u32" where
  "HASH_TO_BKT hashv num_bkts = hashv AND (num_bkts - 1)"

text \<open>The bytes of a \<open>u32\<close> in memory, lowest first.\<close>

definition key_bytes :: "u32 \<Rightarrow> u8 list" where
  "key_bytes k = [ucast k, ucast (drop_bit 8 k), ucast (drop_bit 16 k), ucast (drop_bit 24 k)]"

section \<open>Handles, buckets and the table\<close>

record 'p UT_hash_handle =
  ut_prev :: "'p option"
  ut_next :: "'p option"
  hh_prev :: "'p option"
  hh_next :: "'p option"
  hh_key :: 'p
  keylen :: u32
  hashv :: u32

record 'p UT_hash_bucket =
  hh_head :: "'p option"
  bkt_count :: u32
  expand_mult :: u32

record 'p UT_hash_table =
  buckets :: "'p UT_hash_bucket list"
  num_buckets :: u32
  log2_num_buckets :: u32
  num_items :: u32
  tbl_tail :: 'p
  ideal_chain_maxlen :: u32
  nonideal_items :: u32
  ineff_expands :: u32
  noexpand :: u32

record 'p uthash =
  ut_head :: "'p option"
  tbl :: "'p UT_hash_table option"
  hh :: "'p \<Rightarrow> 'p UT_hash_handle"
  fld :: "'p \<Rightarrow> u32"

definition set_hh :: "'p \<Rightarrow> ('p UT_hash_handle \<Rightarrow> 'p UT_hash_handle) \<Rightarrow> 'p uthash \<Rightarrow> 'p uthash" where
  "set_hh p f t = t\<lparr>hh := (hh t)(p := f (hh t p))\<rparr>"

abbreviation HASH_BKT_CAPACITY_THRESH :: u32 where "HASH_BKT_CAPACITY_THRESH \<equiv> 10"
abbreviation HASH_INITIAL_NUM_BUCKETS :: u32 where "HASH_INITIAL_NUM_BUCKETS \<equiv> 32"
abbreviation HASH_INITIAL_NUM_BUCKETS_LOG2 :: u32 where "HASH_INITIAL_NUM_BUCKETS_LOG2 \<equiv> 5"

definition zero_bucket :: "'p UT_hash_bucket" where
  "zero_bucket = \<lparr>hh_head = None, bkt_count = 0, expand_mult = 0\<rparr>"

text \<open>The allocations of this file; an argument says which of them succeed.\<close>

datatype ut_alloc = New_table | New_buckets | More_buckets

section \<open>Finding an element\<close>

text \<open>The loop of \<open>HASH_FIND_IN_BKT\<close>; \<open>memcmp\<close> compares \<open>keylen_in\<close> bytes.\<close>

partial_function (option) find_in_chain :: "'p uthash \<Rightarrow> u8 list \<Rightarrow> 'p option \<Rightarrow> 'p option option" where
  "find_in_chain t key out =
     (case out of
        None \<Rightarrow> Some None
      | Some p \<Rightarrow>
          if keylen (hh t p) = of_nat (length key) \<and> take (length key) (key_bytes (fld t (hh_key (hh t p)))) = key
          then Some (Some p) else find_in_chain t key (hh_next (hh t p)))"

declare find_in_chain.simps [code]

definition UT_HASH_FIND :: "'p uthash \<Rightarrow> u8 list \<Rightarrow> 'p option option" where
  "UT_HASH_FIND t key =
     (case ut_head t of
        None \<Rightarrow> Some None
      | Some _ \<Rightarrow> do {
          tb \<leftarrow> tbl t;
          b \<leftarrow> ld_nth (buckets tb) (unat (HASH_TO_BKT (HASH_JEN key) (num_buckets tb)));
          find_in_chain t key (hh_head b) })"

section \<open>Doubling the bucket array\<close>

text \<open>Moving the elements of one old chain into the new buckets; the third component counts \<open>nonideal_items\<close>.\<close>

partial_function (option) expand_chain ::
  "u32 \<Rightarrow> u32 \<Rightarrow> 'p option \<Rightarrow> 'p uthash \<times> 'p UT_hash_bucket list \<times> u32 \<Rightarrow> ('p uthash \<times> 'p UT_hash_bucket list \<times> u32) option" where
  "expand_chain nb ideal thh st =
     (case thh of
        None \<Rightarrow> Some st
      | Some p \<Rightarrow> (case st of (t, new, nonideal) \<Rightarrow> do {
          let hh_nxt = hh_next (hh t p);
          let bkt = unat (HASH_TO_BKT (hashv (hh t p)) nb);
          b \<leftarrow> ld_nth new bkt;
          let b = b\<lparr>bkt_count := bkt_count b + 1\<rparr>;
          (b, nonideal) \<leftarrow>
            (if ideal < bkt_count b
             then if ideal = 0 then None
                  else Some (b\<lparr>expand_mult := bkt_count b div ideal\<rparr>, nonideal + 1)
             else Some (b, nonideal));
          let t = set_hh p (\<lambda>x. x\<lparr>hh_prev := None, hh_next := hh_head b\<rparr>) t;
          let t = (case hh_head b of None \<Rightarrow> t | Some q \<Rightarrow> set_hh q (\<lambda>x. x\<lparr>hh_prev := Some p\<rparr>) t);
          new \<leftarrow> st_nth new bkt (b\<lparr>hh_head := Some p\<rparr>);
          expand_chain nb ideal hh_nxt (t, new, nonideal) }))"

declare expand_chain.simps [code]

definition ideal_chain :: "'p UT_hash_table \<Rightarrow> u32" where
  "ideal_chain tb = drop_bit (unat (log2_num_buckets tb + 1)) (num_items tb) +
     (if num_items tb AND (num_buckets tb * 2 - 1) \<noteq> 0 then 1 else 0)"

text \<open>The table after the loop.\<close>

definition expanded :: "'p UT_hash_table \<Rightarrow> 'p UT_hash_bucket list \<Rightarrow> u32 \<Rightarrow> 'p UT_hash_table" where
  "expanded tb new nonideal = (
     let tb = tb\<lparr>nonideal_items := nonideal, num_buckets := num_buckets tb * 2,
           log2_num_buckets := log2_num_buckets tb + 1, buckets := new\<rparr>;
         tb = tb\<lparr>ineff_expands := (if drop_bit 1 (num_items tb) < nonideal_items tb then ineff_expands tb + 1 else 0)\<rparr>
     in if 1 < ineff_expands tb then tb\<lparr>noexpand := 1\<rparr> else tb)"

definition HASH_EXPAND_BUCKETS :: "(ut_alloc \<Rightarrow> bool) \<Rightarrow> 'p uthash \<Rightarrow> 'p uthash option" where
  "HASH_EXPAND_BUCKETS ans t = do {
     tb \<leftarrow> tbl t;
     if \<not> ans More_buckets then None else do {
     let new = replicate (unat (2 * num_buckets tb)) zero_bucket;
     let tb = tb\<lparr>ideal_chain_maxlen := ideal_chain tb, nonideal_items := 0\<rparr>;
     (t, new, nonideal) \<leftarrow> foldM (\<lambda>i st. do {
         b \<leftarrow> ld_nth (buckets tb) (unat i);
         expand_chain (num_buckets tb * 2) (ideal_chain_maxlen tb) (hh_head b) st })
       (words_below (num_buckets tb)) (t, new, 0);
     Some (t\<lparr>tbl := Some (expanded tb new nonideal)\<rparr>) } }"

section \<open>Adding an element\<close>

definition HASH_MAKE_TABLE :: "(ut_alloc \<Rightarrow> bool) \<Rightarrow> 'p \<Rightarrow> 'p uthash \<Rightarrow> 'p uthash option" where
  "HASH_MAKE_TABLE ans head t =
     (if \<not> ans New_table then None
      else if \<not> ans New_buckets then None
      else Some (t\<lparr>tbl := Some \<lparr>buckets = replicate (unat HASH_INITIAL_NUM_BUCKETS) zero_bucket,
        num_buckets = HASH_INITIAL_NUM_BUCKETS, log2_num_buckets = HASH_INITIAL_NUM_BUCKETS_LOG2, num_items = 0,
        tbl_tail = head, ideal_chain_maxlen = 0, nonideal_items = 0, ineff_expands = 0, noexpand = 0\<rparr>\<rparr>))"

definition HASH_ADD_TO_BKT :: "(ut_alloc \<Rightarrow> bool) \<Rightarrow> u32 \<Rightarrow> 'p \<Rightarrow> 'p uthash \<Rightarrow> 'p uthash option" where
  "HASH_ADD_TO_BKT ans bkt addhh t = do {
     tb \<leftarrow> tbl t;
     b \<leftarrow> ld_nth (buckets tb) (unat bkt);
     let b = b\<lparr>bkt_count := bkt_count b + 1\<rparr>;
     let t = set_hh addhh (\<lambda>x. x\<lparr>hh_next := hh_head b, hh_prev := None\<rparr>) t;
     let t = (case hh_head b of None \<Rightarrow> t | Some q \<Rightarrow> set_hh q (\<lambda>x. x\<lparr>hh_prev := Some addhh\<rparr>) t);
     let b = b\<lparr>hh_head := Some addhh\<rparr>;
     bs \<leftarrow> st_nth (buckets tb) (unat bkt) b;
     let t = t\<lparr>tbl := Some (tb\<lparr>buckets := bs\<rparr>)\<rparr>;
     if (expand_mult b + 1) * HASH_BKT_CAPACITY_THRESH \<le> bkt_count b \<and> noexpand tb \<noteq> 1
     then HASH_EXPAND_BUCKETS ans t else Some t }"

text \<open>\<open>HASH_ADD\<close> is \<open>HASH_ADD_KEYPTR\<close> with the address of the element's key field, four bytes long.\<close>

definition UT_HASH_ADD :: "(ut_alloc \<Rightarrow> bool) \<Rightarrow> 'p uthash \<Rightarrow> 'p \<Rightarrow> 'p uthash option" where
  "UT_HASH_ADD ans t add = do {
     let t = set_hh add (\<lambda>x. x\<lparr>ut_next := None, hh_key := add, keylen := 4\<rparr>) t;
     t \<leftarrow> (case ut_head t of
         None \<Rightarrow> HASH_MAKE_TABLE ans add (set_hh add (\<lambda>x. x\<lparr>ut_prev := None\<rparr>) (t\<lparr>ut_head := Some add\<rparr>))
       | Some _ \<Rightarrow> do {
           tb \<leftarrow> tbl t;
           let t = set_hh (tbl_tail tb) (\<lambda>x. x\<lparr>ut_next := Some add\<rparr>) t;
           let t = set_hh add (\<lambda>x. x\<lparr>ut_prev := Some (tbl_tail tb)\<rparr>) t;
           Some (t\<lparr>tbl := Some (tb\<lparr>tbl_tail := add\<rparr>)\<rparr>) });
     tb \<leftarrow> tbl t;
     let tb = tb\<lparr>num_items := num_items tb + 1\<rparr>;
     let v = HASH_JEN (key_bytes (fld t add));
     let t = set_hh add (\<lambda>x. x\<lparr>hashv := v\<rparr>) (t\<lparr>tbl := Some tb\<rparr>);
     HASH_ADD_TO_BKT ans (HASH_TO_BKT v (num_buckets tb)) add t }"

section \<open>Removing an element\<close>

definition HASH_DEL_IN_BKT :: "u32 \<Rightarrow> 'p \<Rightarrow> 'p uthash \<Rightarrow> 'p uthash option" where
  "HASH_DEL_IN_BKT bkt hh_del t = do {
     tb \<leftarrow> tbl t;
     b \<leftarrow> ld_nth (buckets tb) (unat bkt);
     let b = b\<lparr>bkt_count := bkt_count b - 1\<rparr>;
     let b = (if hh_head b = Some hh_del then b\<lparr>hh_head := hh_next (hh t hh_del)\<rparr> else b);
     let t = (case hh_prev (hh t hh_del) of None \<Rightarrow> t
       | Some q \<Rightarrow> set_hh q (\<lambda>x. x\<lparr>hh_next := hh_next (hh t hh_del)\<rparr>) t);
     let t = (case hh_next (hh t hh_del) of None \<Rightarrow> t
       | Some q \<Rightarrow> set_hh q (\<lambda>x. x\<lparr>hh_prev := hh_prev (hh t hh_del)\<rparr>) t);
     bs \<leftarrow> st_nth (buckets tb) (unat bkt) b;
     Some (t\<lparr>tbl := Some (tb\<lparr>buckets := bs\<rparr>)\<rparr>) }"

definition UT_HASH_DELETE :: "'p uthash \<Rightarrow> 'p \<Rightarrow> 'p uthash option" where
  "UT_HASH_DELETE t delptr = do {
     tb \<leftarrow> tbl t;
     if ut_prev (hh t delptr) = None \<and> ut_next (hh t delptr) = None then Some (t\<lparr>ut_head := None, tbl := None\<rparr>)
     else do {
     tb \<leftarrow> (if delptr = tbl_tail tb
        then (case ut_prev (hh t delptr) of None \<Rightarrow> None | Some q \<Rightarrow> Some (tb\<lparr>tbl_tail := q\<rparr>))
        else Some tb);
     let t = t\<lparr>tbl := Some tb\<rparr>;
     let t = (case ut_prev (hh t delptr) of
         None \<Rightarrow> t\<lparr>ut_head := ut_next (hh t delptr)\<rparr>
       | Some q \<Rightarrow> set_hh q (\<lambda>x. x\<lparr>ut_next := ut_next (hh t delptr)\<rparr>) t);
     let t = (case ut_next (hh t delptr) of None \<Rightarrow> t
       | Some q \<Rightarrow> set_hh q (\<lambda>x. x\<lparr>ut_prev := ut_prev (hh t delptr)\<rparr>) t);
     t \<leftarrow> HASH_DEL_IN_BKT (HASH_TO_BKT (hashv (hh t delptr)) (num_buckets tb)) delptr t;
     tb \<leftarrow> tbl t;
     Some (t\<lparr>tbl := Some (tb\<lparr>num_items := num_items tb - 1\<rparr>)\<rparr>) } }"

definition HASH_CLEAR :: "'p uthash \<Rightarrow> 'p uthash option" where
  "HASH_CLEAR t =
     (case ut_head t of None \<Rightarrow> Some t | Some _ \<Rightarrow> do { _ \<leftarrow> tbl t; Some (t\<lparr>ut_head := None, tbl := None\<rparr>) })"

section \<open>The integrity check\<close>

text \<open>
  \<open>HASH_FSCK\<close>, which uthash runs after every addition and removal when it is built with \<open>HASH_DEBUG\<close>. \<open>Some False\<close> is an
  inconsistency (\<open>HASH_OOPS\<close>). Both of its \<open>while\<close> loops follow a doubly linked list and count; their result is \<open>None\<close> inside
  \<open>Some\<close> when a back pointer is wrong.
\<close>

partial_function (option) fsck_walk ::
  "('p \<Rightarrow> 'p option) \<Rightarrow> ('p \<Rightarrow> 'p option) \<Rightarrow> 'p option \<Rightarrow> 'p option \<Rightarrow> u32 \<Rightarrow> u32 option option" where
  "fsck_walk pv nx thh prev n =
     (case thh of
        None \<Rightarrow> Some (Some n)
      | Some p \<Rightarrow> if prev \<noteq> pv p then Some None else fsck_walk pv nx (nx p) (Some p) (n + 1))"

declare fsck_walk.simps [code]

definition fsck_bucket :: "'p uthash \<Rightarrow> 'p UT_hash_table \<Rightarrow> u32 \<Rightarrow> u32 \<Rightarrow> (int option \<times> u32) option" where
  "fsck_bucket t tb bkt_i n = do {
     b \<leftarrow> ld_nth (buckets tb) (unat bkt_i);
     r \<leftarrow> fsck_walk (\<lambda>p. hh_prev (hh t p)) (\<lambda>p. hh_next (hh t p)) (hh_head b) None 0;
     case r of None \<Rightarrow> Some (Some (-1), n)
     | Some bkt_n \<Rightarrow> Some (if bkt_count b \<noteq> bkt_n then Some (-1) else None, n + bkt_n) }"

definition HASH_FSCK :: "'p uthash \<Rightarrow> bool option" where
  "HASH_FSCK t =
     (case ut_head t of
        None \<Rightarrow> Some True
      | Some head \<Rightarrow> do {
          tb \<leftarrow> tbl t;
          (r, n) \<leftarrow> for_ret (fsck_bucket t tb) (words_below (num_buckets tb)) 0;
          if r \<noteq> None \<or> n \<noteq> num_items tb then Some False else do {
          r \<leftarrow> fsck_walk (\<lambda>p. ut_prev (hh t p)) (\<lambda>p. ut_next (hh t p)) (Some head) None 0;
          Some (r = Some (num_items tb)) } })"

end
