(* ===== verification/FB_Uthash_Spec.thy ===== *)
theory FB_Uthash_Spec
  imports FB_Uthash
begin

text \<open>
  What \<open>uthash.h\<close> promises its users: with distinct keys, a table is a finite map from keys to elements, whatever the hash
  function does and however often the bucket array was doubled. The interface \<open>faulting_index\<close> states it; the table with its
  buckets and the plain list of \<open>FB_Hash\<close> both satisfy it, so the second may stand for the first.
\<close>

section \<open>Doubly linked lists that end in \<open>NULL\<close> on both sides\<close>

text \<open>A segment: \<open>q\<close> is what lies before it, \<open>r\<close> what lies behind.\<close>

definition first :: "'p list \<Rightarrow> 'p option \<Rightarrow> 'p option" where
  "first xs r = (case xs of [] \<Rightarrow> r | x # _ \<Rightarrow> Some x)"

definition final :: "'p list \<Rightarrow> 'p option \<Rightarrow> 'p option" where
  "final xs q = (if xs = [] then q else Some (last xs))"

fun seg :: "('p \<Rightarrow> 'p option) \<Rightarrow> ('p \<Rightarrow> 'p option) \<Rightarrow> 'p option \<Rightarrow> 'p list \<Rightarrow> 'p option \<Rightarrow> bool" where
  "seg p n q [] r \<longleftrightarrow> True"
| "seg p n q (x # xs) r \<longleftrightarrow> p x = q \<and> n x = first xs r \<and> seg p n (Some x) xs r"

lemma first_simps [simp]: "first [] r = r" "first (x # xs) r = Some x" "first (xs @ ys) r = first xs (first ys r)"
  by (auto simp: first_def split: list.split)

lemma final_simps [simp]: "final [] q = q" "final (xs @ [x]) q = Some x" "final (x # xs) q = final xs (Some x)"
  by (auto simp: final_def)

lemma first_None [simp]: "first xs None = None \<longleftrightarrow> xs = []"
  by (cases xs) auto

lemma final_None [simp]: "final xs None = None \<longleftrightarrow> xs = []" "final xs (Some x) \<noteq> None"
  by (auto simp: final_def)

lemma first_in: "first xs None = Some x \<Longrightarrow> x \<in> set xs"
  by (cases xs) auto

lemma final_in: "final xs None = Some x \<Longrightarrow> x \<in> set xs"
  by (auto simp: final_def split: if_splits)

lemma seg_append: "seg p n q (xs @ ys) r \<longleftrightarrow> seg p n q xs (first ys r) \<and> seg p n (final xs q) ys r"
  by (induction xs arbitrary: q) auto

lemma seg_cong: "seg p n q xs r \<Longrightarrow> \<forall>x \<in> set xs. p' x = p x \<and> n' x = n x \<Longrightarrow> seg p' n' q xs r"
  by (induction xs arbitrary: q) auto

abbreviation links :: "('p \<Rightarrow> 'p option) \<Rightarrow> ('p \<Rightarrow> 'p option) \<Rightarrow> 'p list \<Rightarrow> bool" where
  "links p n xs \<equiv> seg p n None xs None"

text \<open>Insertion at the front, at the end, and removal.\<close>

lemma links_push:
  assumes "links p n ys" "distinct (x # ys)"
    and "n' x = first ys None" "p' x = None" "\<And>y. first ys None = Some y \<Longrightarrow> p' y = Some x"
    and "\<And>y. y \<in> set ys \<Longrightarrow> n' y = n y" "\<And>y. y \<in> set ys \<Longrightarrow> first ys None \<noteq> Some y \<Longrightarrow> p' y = p y"
  shows "links p' n' (x # ys)"
proof (cases ys)
  case (Cons y zs)
  have "seg p' n' (Some y) zs None"
    by (rule seg_cong [of p n]) (use assms Cons in auto)
  then show ?thesis using assms Cons by auto
qed (use assms in simp)

lemma links_snoc:
  assumes "links p n xs" "distinct (xs @ [x])"
    and "n' x = None" "p' x = final xs None" "\<And>w. final xs None = Some w \<Longrightarrow> n' w = Some x"
    and "\<And>y. y \<in> set xs \<Longrightarrow> final xs None \<noteq> Some y \<Longrightarrow> n' y = n y" "\<And>y. y \<in> set xs \<Longrightarrow> p' y = p y"
  shows "links p' n' (xs @ [x])"
proof (cases xs rule: rev_cases)
  case (snoc ys y)
  have "seg p' n' None ys (Some y)"
    by (rule seg_cong [of p n]) (use assms snoc in \<open>auto simp: seg_append\<close>)
  then show ?thesis using assms snoc by (auto simp: seg_append)
qed (use assms in simp)

lemma links_at: "links p n (ys @ x # zs) \<Longrightarrow> p x = final ys None \<and> n x = first zs None"
  by (simp add: seg_append)

lemma links_remove:
  assumes "links p n (ys @ x # zs)" "distinct (ys @ x # zs)"
    and "\<And>w. p x = Some w \<Longrightarrow> n' w = n x" "\<And>z. n x = Some z \<Longrightarrow> p' z = p x"
    and "\<And>y. y \<in> set (ys @ zs) \<Longrightarrow> p x \<noteq> Some y \<Longrightarrow> n' y = n y"
    and "\<And>y. y \<in> set (ys @ zs) \<Longrightarrow> n x \<noteq> Some y \<Longrightarrow> p' y = p y"
  shows "links p' n' (ys @ zs)"
proof -
  have at: "p x = final ys None" "n x = first zs None" using links_at [OF assms(1)] by auto
  have s: "seg p n None ys (Some x)" "seg p n (Some x) zs None" using assms(1) by (auto simp: seg_append)
  have "seg p' n' None ys (first zs None)"
  proof (cases ys rule: rev_cases)
    case (snoc us w)
    have "seg p' n' None us (Some w)"
      by (rule seg_cong [of p n]) (use assms(2,5,6) at s(1) snoc in \<open>auto simp: seg_append dest: first_in\<close>)
    moreover have "p' w = p w" using assms(2,6) at snoc first_in [of zs w] by auto
    ultimately show ?thesis using s(1) assms(3) at snoc by (simp add: seg_append)
  qed simp
  moreover have "seg p' n' (final ys None) zs None"
  proof (cases zs)
    case (Cons z vs)
    have "seg p' n' (Some z) vs None"
      by (rule seg_cong [of p n]) (use assms(2,5,6) at s(2) Cons in \<open>auto dest: final_in\<close>)
    moreover have "n' z = n z" using assms(2,5) at Cons final_in [of ys z] by auto
    ultimately show ?thesis using s(2) assms(4) at Cons by simp
  qed simp
  ultimately show ?thesis by (simp add: seg_append)
qed

section \<open>Buckets\<close>

lemma HASH_TO_BKT_less: "l < 32 \<Longrightarrow> unat (HASH_TO_BKT v (2 ^ l)) < 2 ^ l"
proof -
  assume l: "l < 32"
  have "(2 ^ l :: u32) - 1 = mask l" by (simp add: mask_eq_exp_minus_1)
  then have "HASH_TO_BKT v (2 ^ l) = take_bit l v" by (simp add: HASH_TO_BKT_def take_bit_eq_mask)
  then show ?thesis using l by (simp add: unsigned_take_bit_eq)
qed

lemma unat_2_power: "l < 32 \<Longrightarrow> unat (2 ^ l :: u32) = 2 ^ l"
  using unat_of_nat_u32 [OF power_strict_increasing [of l 32 2]] by simp

type_synonym 'p handles = "'p \<Rightarrow> 'p UT_hash_handle"

abbreviation bkt_links :: "'p handles \<Rightarrow> 'p list \<Rightarrow> bool" where
  "bkt_links h \<equiv> links (\<lambda>p. hh_prev (h p)) (\<lambda>p. hh_next (h p))"

definition bkt_rep :: "'p handles \<Rightarrow> 'p UT_hash_bucket \<Rightarrow> 'p list \<Rightarrow> bool" where
  "bkt_rep h b ys \<longleftrightarrow> distinct ys \<and> hh_head b = first ys None \<and> bkt_links h ys \<and> bkt_count b = of_nat (length ys)"

abbreviation home :: "'p handles \<Rightarrow> u32 \<Rightarrow> 'p \<Rightarrow> nat" where
  "home h nb p \<equiv> unat (HASH_TO_BKT (hashv (h p)) nb)"

text \<open>Every bucket chains the elements of \<open>S\<close> that hash to it.\<close>

definition buckets_rep :: "'p handles \<Rightarrow> u32 \<Rightarrow> 'p UT_hash_bucket list \<Rightarrow> 'p set \<Rightarrow> bool" where
  "buckets_rep h nb bs S \<longleftrightarrow> length bs = unat nb \<and>
     (\<forall>i < length bs. \<exists>ys. bkt_rep h (bs ! i) ys \<and> set ys = {p \<in> S. home h nb p = i})"

text \<open>Only the chains of the buckets may differ.\<close>

definition order_eq :: "'p handles \<Rightarrow> 'p handles \<Rightarrow> bool" where
  "order_eq h h' \<longleftrightarrow> (\<forall>p. ut_prev (h' p) = ut_prev (h p) \<and> ut_next (h' p) = ut_next (h p) \<and> hh_key (h' p) = hh_key (h p) \<and>
     keylen (h' p) = keylen (h p) \<and> hashv (h' p) = hashv (h p))"

lemma order_eq_refl [simp]: "order_eq h h"
  by (simp add: order_eq_def)

lemma order_eq_trans: "order_eq h h' \<Longrightarrow> order_eq h' h'' \<Longrightarrow> order_eq h h''"
  by (simp add: order_eq_def)

lemma bkt_rep_cong:
  "bkt_rep h b ys \<Longrightarrow> \<forall>p \<in> set ys. hh_prev (h' p) = hh_prev (h p) \<and> hh_next (h' p) = hh_next (h p) \<Longrightarrow> bkt_rep h' b ys"
  unfolding bkt_rep_def by (auto intro: seg_cong)

lemma buckets_rep_cong:
  assumes "buckets_rep h nb bs S"
    and "\<And>p. p \<in> S \<Longrightarrow> hh_prev (h' p) = hh_prev (h p) \<and> hh_next (h' p) = hh_next (h p) \<and> hashv (h' p) = hashv (h p)"
  shows "buckets_rep h' nb bs S"
  unfolding buckets_rep_def
proof (intro conjI allI impI)
  show "length bs = unat nb" using assms(1) by (simp add: buckets_rep_def)
  fix i assume "i < length bs"
  then obtain ys where ys: "bkt_rep h (bs ! i) ys" "set ys = {p \<in> S. home h nb p = i}"
    using assms(1) by (auto simp: buckets_rep_def)
  have "{p \<in> S. home h' nb p = i} = {p \<in> S. home h nb p = i}" using assms(2) by auto
  moreover have "bkt_rep h' (bs ! i) ys" by (rule bkt_rep_cong [OF ys(1)]) (use ys(2) assms(2) in auto)
  ultimately show "\<exists>ys. bkt_rep h' (bs ! i) ys \<and> set ys = {p \<in> S. home h' nb p = i}" using ys(2) by auto
qed

text \<open>Linking \<open>p\<close> in front of the bucket \<open>b\<close>, as \<open>HASH_ADD_TO_BKT\<close> and the doubling do.\<close>

definition push_hh :: "'p option \<Rightarrow> 'p \<Rightarrow> 'p uthash \<Rightarrow> 'p uthash" where
  "push_hh front p t = (let t = set_hh p (\<lambda>x. x\<lparr>hh_prev := None, hh_next := front\<rparr>) t in
     case front of None \<Rightarrow> t | Some q \<Rightarrow> set_hh q (\<lambda>x. x\<lparr>hh_prev := Some p\<rparr>) t)"

lemma push_hh_swap: "x\<lparr>hh_next := a, hh_prev := b\<rparr> = x\<lparr>hh_prev := b, hh_next := a\<rparr>" for x :: "'p UT_hash_handle"
  by simp

lemma push_hh_frame [simp]:
  "ut_head (push_hh front p t) = ut_head t" "tbl (push_hh front p t) = tbl t" "fld (push_hh front p t) = fld t"
  "order_eq (hh t) (hh (push_hh front p t))"
  by (auto simp: push_hh_def Let_def set_hh_def order_eq_def split: option.split)

lemma push_hh_next: "q \<noteq> p \<Longrightarrow> hh_next (hh (push_hh front p t) q) = hh_next (hh t q)"
  by (auto simp: push_hh_def Let_def set_hh_def split: option.split)

lemma bkt_push:
  assumes "bkt_rep (hh t) b ys" "p \<notin> set ys" "hh_head b' = Some p" "bkt_count b' = bkt_count b + 1"
  shows "bkt_rep (hh (push_hh (hh_head b) p t)) b' (p # ys)"
proof -
  have b: "distinct ys" "hh_head b = first ys None" "bkt_links (hh t) ys" "bkt_count b = of_nat (length ys)"
    using assms(1) by (auto simp: bkt_rep_def)
  have "bkt_links (hh (push_hh (hh_head b) p t)) (p # ys)"
    by (rule links_push [OF b(3)])
      (use b assms(2) in \<open>auto simp: push_hh_def Let_def set_hh_def split: option.split dest: first_in\<close>)
  then show ?thesis using b assms by (simp add: bkt_rep_def)
qed

lemma push_other:
  assumes "\<forall>q \<in> S. q \<noteq> p \<and> front \<noteq> Some q" "q \<in> S"
  shows "hh_prev (hh (push_hh front p t) q) = hh_prev (hh t q)" "hh_next (hh (push_hh front p t) q) = hh_next (hh t q)"
  using assms by (auto simp: push_hh_def Let_def set_hh_def split: option.split)

lemma order_eq_home: "order_eq h h' \<Longrightarrow> home h' nb p = home h nb p"
  by (simp add: order_eq_def)

lemma buckets_push:
  assumes rep: "buckets_rep (hh t) nb bs S" and p: "p \<notin> S" and i: "home (hh t) nb p = i" "i < length bs"
    and b': "hh_head b' = Some p" "bkt_count b' = bkt_count (bs ! i) + 1"
  shows "buckets_rep (hh (push_hh (hh_head (bs ! i)) p t)) nb (bs[i := b']) (insert p S)"
  unfolding buckets_rep_def
proof (intro conjI allI impI)
  let ?h = "hh (push_hh (hh_head (bs ! i)) p t)"
  note H = order_eq_home [OF push_hh_frame(4)]
  show "length (bs[i := b']) = unat nb" using rep by (simp add: buckets_rep_def)
  obtain zs where zs: "bkt_rep (hh t) (bs ! i) zs" "set zs = {p \<in> S. home (hh t) nb p = i}"
    using rep i(2) by (auto simp: buckets_rep_def)
  fix j assume j: "j < length (bs[i := b'])"
  then obtain ys where ys: "bkt_rep (hh t) (bs ! j) ys" "set ys = {p \<in> S. home (hh t) nb p = j}"
    using rep by (auto simp: buckets_rep_def)
  show "\<exists>ys. bkt_rep ?h (bs[i := b'] ! j) ys \<and> set ys = {q \<in> insert p S. home ?h nb q = j}"
  proof (cases "j = i")
    case True
    have "bkt_rep ?h b' (p # zs)" by (rule bkt_push [OF zs(1)]) (use zs(2) p b' in auto)
    moreover have "set (p # zs) = {q \<in> insert p S. home ?h nb q = j}" using zs(2) i(1) True by (auto simp: H)
    ultimately show ?thesis using True i(2) by auto
  next
    case False
    have inz: "hh_head (bs ! i) = Some q \<Longrightarrow> q \<in> set zs" for q using zs(1) first_in [of zs q] by (simp add: bkt_rep_def)
    have d: "\<forall>q \<in> set ys. q \<noteq> p \<and> hh_head (bs ! i) \<noteq> Some q" using ys(2) zs(2) p False inz by auto
    have "bkt_rep ?h (bs ! j) ys" by (rule bkt_rep_cong [OF ys(1)]) (use push_other [OF d] in auto)
    moreover have "set ys = {q \<in> insert p S. home ?h nb q = j}" using ys(2) i(1) False by (auto simp: H)
    ultimately show ?thesis using False by auto
  qed
qed

section \<open>Doubling the bucket array\<close>

text \<open>
  While the chains are moved: the elements \<open>D\<close> are in the new buckets, all others still have the links of \<open>h0\<close>.
\<close>

definition moved :: "'p uthash \<Rightarrow> u32 \<Rightarrow> 'p set \<Rightarrow> 'p uthash \<Rightarrow> 'p UT_hash_bucket list \<Rightarrow> bool" where
  "moved t0 nb D t new \<longleftrightarrow> buckets_rep (hh t) nb new D \<and> (\<forall>p. p \<notin> D \<longrightarrow> hh_next (hh t p) = hh_next (hh t0 p)) \<and>
     order_eq (hh t0) (hh t) \<and> ut_head t = ut_head t0 \<and> tbl t = tbl t0 \<and> fld t = fld t0"

lemma move_one:
  assumes m: "moved t0 nb D t new" and p: "p \<notin> D" and l: "nb = 2 ^ l" "l < 32" and ideal: "ideal \<noteq> 0"
  shows "\<exists>t' new' non'. expand_chain nb ideal (Some p) (t, new, non) = expand_chain nb ideal (hh_next (hh t0 p)) (t', new', non') \<and>
    moved t0 nb (insert p D) t' new'"
proof -
  let ?i = "home (hh t) nb p" and ?b = "new ! home (hh t) nb p"
  have rep: "buckets_rep (hh t) nb new D" using m by (simp add: moved_def)
  have i: "?i < length new" using rep HASH_TO_BKT_less [OF l(2)] by (simp add: buckets_rep_def l unat_2_power)
  define b non' where "b = (if ideal < bkt_count ?b + 1 then (?b\<lparr>bkt_count := bkt_count ?b + 1\<rparr>)\<lparr>expand_mult := (bkt_count ?b + 1) div ideal\<rparr>
    else ?b\<lparr>bkt_count := bkt_count ?b + 1\<rparr>)" and "non' = (if ideal < bkt_count ?b + 1 then non + 1 else non)"
  have b: "hh_head b = hh_head ?b" "bkt_count b = bkt_count ?b + 1" by (simp_all add: b_def)
  have "expand_chain nb ideal (Some p) (t, new, non) =
      expand_chain nb ideal (hh_next (hh t p)) (push_hh (hh_head ?b) p t, new[?i := b\<lparr>hh_head := Some p\<rparr>], non')"
    by (subst expand_chain.simps) (use i ideal in \<open>simp add: ld_nth_def st_nth_def push_hh_def Let_def b_def non'_def cong: option.case_cong\<close>)
  moreover have "moved t0 nb (insert p D) (push_hh (hh_head ?b) p t) (new[?i := b\<lparr>hh_head := Some p\<rparr>])"
    unfolding moved_def
  proof (intro conjI allI impI)
    show "buckets_rep (hh (push_hh (hh_head ?b) p t)) nb (new[?i := b\<lparr>hh_head := Some p\<rparr>]) (insert p D)"
      by (rule buckets_push [OF rep p refl i]) (use b in simp_all)
    show "order_eq (hh t0) (hh (push_hh (hh_head ?b) p t))"
      by (rule order_eq_trans [OF _ push_hh_frame(4)]) (use m in \<open>simp add: moved_def\<close>)
    show "hh_next (hh (push_hh (hh_head ?b) p t) q) = hh_next (hh t0 q)" if "q \<notin> insert p D" for q
      using that m by (simp add: push_hh_next moved_def)
  qed (use m in \<open>simp_all add: moved_def\<close>)
  moreover have "hh_next (hh t p) = hh_next (hh t0 p)" using m p by (simp add: moved_def)
  ultimately show ?thesis by metis
qed

lemma move_chain:
  assumes "moved t0 nb D t new" "seg pv (\<lambda>p. hh_next (hh t0 p)) q zs None" "distinct zs" "set zs \<inter> D = {}"
    and l: "nb = 2 ^ l" "l < 32" and ideal: "ideal \<noteq> 0"
  shows "\<exists>t' new' non'. expand_chain nb ideal (first zs None) (t, new, non) = Some (t', new', non') \<and>
    moved t0 nb (D \<union> set zs) t' new'"
  using assms(1-4)
proof (induction zs arbitrary: q D t new non)
  case Nil
  then show ?case by (simp add: expand_chain.simps)
next
  case (Cons p zs)
  obtain t1 new1 non1 where s: "expand_chain nb ideal (Some p) (t, new, non) = expand_chain nb ideal (hh_next (hh t0 p)) (t1, new1, non1)"
    "moved t0 nb (insert p D) t1 new1"
    using move_one [OF Cons.prems(1) _ l ideal, of p non] Cons.prems(4) by auto
  have "hh_next (hh t0 p) = first zs None" "seg pv (\<lambda>p. hh_next (hh t0 p)) (Some p) zs None" using Cons.prems(2) by auto
  with Cons.IH [OF s(2) this(2), of non1] s(1) Cons.prems(3,4) show ?case by auto
qed

definition ideal_nonzero :: "'p UT_hash_table \<Rightarrow> bool" where
  "ideal_nonzero tb \<longleftrightarrow> num_items tb \<noteq> 0 \<and> num_buckets tb = 2 ^ unat (log2_num_buckets tb) \<and> log2_num_buckets tb < 31"

lemma ideal_chain_nonzero:
  assumes "ideal_nonzero tb"
  shows "ideal_chain tb \<noteq> 0"
proof
  assume z: "ideal_chain tb = 0"
  let ?l = "Suc (unat (log2_num_buckets tb))"
  have l: "unat (log2_num_buckets tb + 1) = ?l" "?l < 32"
    using assms by (simp_all add: ideal_nonzero_def word_less_nat_alt unat_word_ariths)
  have nb: "num_buckets tb * 2 - 1 = mask ?l"
    using assms by (simp add: ideal_nonzero_def mask_eq_exp_minus_1)
  have ch: "ideal_chain tb = drop_bit ?l (num_items tb) + (if take_bit ?l (num_items tb) \<noteq> 0 then 1 else 0)"
    unfolding ideal_chain_def l(1) nb by (simp add: take_bit_eq_mask)
  show False
  proof (cases "take_bit ?l (num_items tb) = 0")
    case True
    have "num_items tb = push_bit ?l (drop_bit ?l (num_items tb)) + take_bit ?l (num_items tb)"
      by (rule bits_ident [symmetric])
    then show ?thesis using True ch z assms by (simp add: ideal_nonzero_def)
  next
    case False
    then have "drop_bit ?l (num_items tb) = - 1" using ch z by (simp add: eq_neg_iff_add_eq_0)
    then have "bit (drop_bit ?l (num_items tb)) 31" by simp
    then show ?thesis using bit_imp_le_length [of "num_items tb" "?l + 31"] by (simp add: bit_drop_bit_eq)
  qed
qed

text \<open>The whole of \<open>HASH_EXPAND_BUCKETS\<close>: same elements in the same order, twice as many buckets.\<close>

definition table_rep :: "'p handles \<Rightarrow> 'p UT_hash_table \<Rightarrow> 'p list \<Rightarrow> bool" where
  "table_rep h tb xs \<longleftrightarrow> xs \<noteq> [] \<and> log2_num_buckets tb < 32 \<and> num_buckets tb = 2 ^ unat (log2_num_buckets tb) \<and>
     num_items tb = of_nat (length xs) \<and> tbl_tail tb = last xs \<and> buckets_rep h (num_buckets tb) (buckets tb) (set xs)"

lemma buckets_rep_empty: "buckets_rep h nb (replicate (unat nb) zero_bucket) {}"
  by (auto simp: buckets_rep_def bkt_rep_def zero_bucket_def intro: exI [of _ "[]"])

lemma expanded_fields:
  "buckets (expanded tb new non) = new" "num_buckets (expanded tb new non) = num_buckets tb * 2"
  "log2_num_buckets (expanded tb new non) = log2_num_buckets tb + 1" "num_items (expanded tb new non) = num_items tb"
  "tbl_tail (expanded tb new non) = tbl_tail tb"
  by (simp_all add: expanded_def Let_def)

lemma expand_spec:
  assumes tb: "tbl t = Some tb" and rep: "table_rep (hh t) tb xs" and len: "length xs < 2 ^ 32"
    and room: "ans More_buckets" "log2_num_buckets tb < 31"
  shows "\<exists>t' tb'. HASH_EXPAND_BUCKETS ans t = Some t' \<and> tbl t' = Some tb' \<and> table_rep (hh t') tb' xs \<and>
    order_eq (hh t) (hh t') \<and> ut_head t' = ut_head t \<and> fld t' = fld t \<and> log2_num_buckets tb' = log2_num_buckets tb + 1"
proof -
  let ?nb = "num_buckets tb * 2" and ?l = "Suc (unat (log2_num_buckets tb))"
  let ?tb = "tb\<lparr>ideal_chain_maxlen := ideal_chain tb, nonideal_items := 0\<rparr>"
  let ?body = "\<lambda>i st. do { b \<leftarrow> ld_nth (buckets ?tb) (unat i); expand_chain ?nb (ideal_chain_maxlen ?tb) (hh_head b) st }"
  let ?done = "\<lambda>is. {p \<in> set xs. HASH_TO_BKT (hashv (hh t p)) (num_buckets tb) \<in> set is}"
  have R: "xs \<noteq> []" "num_buckets tb = 2 ^ unat (log2_num_buckets tb)" "num_items tb = of_nat (length xs)" "tbl_tail tb = last xs"
    "buckets_rep (hh t) (num_buckets tb) (buckets tb) (set xs)" using rep by (auto simp: table_rep_def)
  have l: "?l < 32" "?nb = 2 ^ ?l" using room(2) R(2) by (simp_all add: word_less_nat_alt)
  have sl: "unat (log2_num_buckets tb + 1) = ?l" using l(1) by (simp add: unat_word_ariths)
  then have l': "log2_num_buckets tb + 1 < 32" "num_buckets tb * 2 = 2 ^ unat (log2_num_buckets tb + 1)"
    using l by (simp_all add: word_less_nat_alt)
  have "num_items tb \<noteq> 0" using R(1,3) len of_nat_u32_eq_iff [of "length xs" 0] by simp
  then have ideal: "ideal_chain tb \<noteq> 0" using R(2) room(2) by (intro ideal_chain_nonzero) (simp add: ideal_nonzero_def)
  have "\<exists>st. foldM ?body (words_below (num_buckets tb)) (t, replicate (unat ?nb) zero_bucket, 0) = Some st \<and>
      (case st of (t', new, non) \<Rightarrow> moved t ?nb (?done (words_below (num_buckets tb))) t' new)"
  proof (rule foldM_rule [where I = "\<lambda>is st. case st of (t', new, non) \<Rightarrow> moved t ?nb (?done is) t' new"])
    show "case (t, replicate (unat ?nb) zero_bucket, 0) of (t', new, non) \<Rightarrow> moved t ?nb (?done []) t' new"
      by (simp add: moved_def buckets_rep_empty)
    fix "is" i rest and st :: "'a uthash \<times> 'a UT_hash_bucket list \<times> u32"
    assume w: "words_below (num_buckets tb) = is @ i # rest" and I: "case st of (t', new, non) \<Rightarrow> moved t ?nb (?done is) t' new"
    obtain t1 new non where st: "st = (t1, new, non)" by (cases st)
    have "i \<in> set (words_below (num_buckets tb))" "i \<notin> set is" using w distinct_words_below [of "num_buckets tb"] by simp_all
    then have i: "unat i < length (buckets tb)" "i \<notin> set is" using R(5) by (auto simp: buckets_rep_def word_less_nat_alt)
    then obtain ys where ys: "bkt_rep (hh t) (buckets tb ! unat i) ys" "set ys = {p \<in> set xs. home (hh t) (num_buckets tb) p = unat i}"
      using R(5) by (auto simp: buckets_rep_def)
    have y: "distinct ys" "hh_head (buckets tb ! unat i) = first ys None" "bkt_links (hh t) ys"
      using ys(1) by (auto simp: bkt_rep_def)
    have set_ys: "set ys = {p \<in> set xs. HASH_TO_BKT (hashv (hh t p)) (num_buckets tb) = i}"
      using ys(2) by (simp add: word_unat_eq_iff)
    then have "set ys \<inter> ?done is = {}" using i(2) by auto
    from move_chain [OF _ y(3,1) this l(2,1) ideal, of t1 new non] I st
    obtain t2 new2 non2 where m: "expand_chain ?nb (ideal_chain tb) (first ys None) (t1, new, non) = Some (t2, new2, non2)"
      "moved t ?nb (?done is \<union> set ys) t2 new2" by auto
    moreover have "?done is \<union> set ys = ?done (is @ [i])" using set_ys by auto
    ultimately show "\<exists>s'. ?body i st = Some s' \<and> (case s' of (t', new, non) \<Rightarrow> moved t ?nb (?done (is @ [i])) t' new)"
      using i(1) y(2) st by (simp add: ld_nth_def)
  qed
  then obtain t1 new non where f: "foldM ?body (words_below (num_buckets tb)) (t, replicate (unat ?nb) zero_bucket, 0) = Some (t1, new, non)"
    "moved t ?nb (?done (words_below (num_buckets tb))) t1 new" by auto
  have "?done (words_below (num_buckets tb)) = set xs"
    using HASH_TO_BKT_less room(2) R(2) by (auto simp: word_less_nat_alt unat_2_power)
  then have m: "buckets_rep (hh t1) ?nb new (set xs)" "order_eq (hh t) (hh t1)" "ut_head t1 = ut_head t" "fld t1 = fld t"
    using f(2) by (simp_all add: moved_def)
  show ?thesis using tb room(1) f(1) m R(1,3,4) l'
    by (simp add: HASH_EXPAND_BUCKETS_def Let_def table_rep_def expanded_fields mult.commute [of 2])
qed

section \<open>Adding an element\<close>

definition handles_rep :: "'p uthash \<Rightarrow> 'p list \<Rightarrow> bool" where
  "handles_rep t xs \<longleftrightarrow> distinct xs \<and> length xs < 2 ^ 32 \<and> ut_head t = first xs None \<and>
     links (\<lambda>p. ut_prev (hh t p)) (\<lambda>p. ut_next (hh t p)) xs \<and>
     (\<forall>p \<in> set xs. hh_key (hh t p) = p \<and> keylen (hh t p) = 4 \<and> hashv (hh t p) = HASH_JEN (key_bytes (fld t p)))"

definition ut_rep :: "'p uthash \<Rightarrow> 'p list \<Rightarrow> bool" where
  "ut_rep t xs \<longleftrightarrow> handles_rep t xs \<and>
     (if xs = [] then tbl t = None else \<exists>tb. tbl t = Some tb \<and> table_rep (hh t) tb xs)"

text \<open>No bucket has more than ten elements, or there is memory for more buckets and a number for them.\<close>

definition ut_room :: "(ut_alloc \<Rightarrow> bool) \<Rightarrow> 'p uthash \<Rightarrow> bool" where
  "ut_room ans t \<longleftrightarrow> ans New_table \<and> ans New_buckets \<and> ans More_buckets \<and>
     (case tbl t of None \<Rightarrow> True | Some tb \<Rightarrow> log2_num_buckets tb < 31 \<and> num_items tb + 1 \<noteq> 0)"

lemma handles_cong:
  assumes "handles_rep t xs" "order_eq (hh t) (hh t')" "ut_head t' = ut_head t" "fld t' = fld t"
  shows "handles_rep t' xs"
proof -
  have "links (\<lambda>p. ut_prev (hh t' p)) (\<lambda>p. ut_next (hh t' p)) xs"
    by (rule seg_cong [where p = "\<lambda>p. ut_prev (hh t p)" and n = "\<lambda>p. ut_next (hh t p)"])
      (use assms(1,2) in \<open>auto simp: handles_rep_def order_eq_def\<close>)
  then show ?thesis using assms by (simp add: handles_rep_def order_eq_def)
qed

lemma add_to_bkt:
  assumes tb: "tbl t = Some tb" "log2_num_buckets tb < 32" "num_buckets tb = 2 ^ unat (log2_num_buckets tb)"
    and rep: "buckets_rep (hh t) (num_buckets tb) (buckets tb) S" "p \<notin> S"
  defines "i \<equiv> home (hh t) (num_buckets tb) p"
  shows "\<exists>b t1. bkt_count b = bkt_count (buckets tb ! i) + 1 \<and> expand_mult b = expand_mult (buckets tb ! i) \<and> i < length (buckets tb) \<and>
     HASH_ADD_TO_BKT ans (HASH_TO_BKT (hashv (hh t p)) (num_buckets tb)) p t =
       (if (expand_mult b + 1) * 10 \<le> bkt_count b \<and> noexpand tb \<noteq> 1 then HASH_EXPAND_BUCKETS ans t1 else Some t1) \<and>
     tbl t1 = Some (tb\<lparr>buckets := (buckets tb)[i := b]\<rparr>) \<and> buckets_rep (hh t1) (num_buckets tb) ((buckets tb)[i := b]) (insert p S) \<and>
     order_eq (hh t) (hh t1) \<and> ut_head t1 = ut_head t \<and> fld t1 = fld t"
proof -
  have i: "i < length (buckets tb)"
    using rep(1) HASH_TO_BKT_less tb(2,3) by (simp add: buckets_rep_def i_def unat_2_power word_less_nat_alt)
  let ?b = "(buckets tb ! i)\<lparr>bkt_count := bkt_count (buckets tb ! i) + 1, hh_head := Some p\<rparr>"
  let ?t = "(push_hh (hh_head (buckets tb ! i)) p t)\<lparr>tbl := Some (tb\<lparr>buckets := (buckets tb)[i := ?b]\<rparr>)\<rparr>"
  have "HASH_ADD_TO_BKT ans (HASH_TO_BKT (hashv (hh t p)) (num_buckets tb)) p t =
      (if (expand_mult ?b + 1) * 10 \<le> bkt_count ?b \<and> noexpand tb \<noteq> 1 then HASH_EXPAND_BUCKETS ans ?t else Some ?t)"
    using tb(1) i unfolding i_def
    by (simp add: HASH_ADD_TO_BKT_def ld_nth_def st_nth_def push_hh_def push_hh_swap Let_def cong: option.case_cong)
  moreover have "buckets_rep (hh ?t) (num_buckets tb) ((buckets tb)[i := ?b]) (insert p S)"
    using buckets_push [OF rep refl i [unfolded i_def], of ?b] by (simp add: i_def)
  ultimately show ?thesis using i by (intro exI [of _ ?b] exI [of _ ?t]) simp
qed

text \<open>Before \<open>HASH_ADD_TO_BKT\<close>: the element is the last one, but in no bucket yet.\<close>

definition appended :: "'p uthash \<Rightarrow> 'p list \<Rightarrow> 'p \<Rightarrow> 'p uthash \<Rightarrow> 'p UT_hash_table \<Rightarrow> bool" where
  "appended t xs p t1 tb1 \<longleftrightarrow> handles_rep t1 (xs @ [p]) \<and> tbl t1 = Some tb1 \<and> fld t1 = fld t \<and> log2_num_buckets tb1 < 32 \<and>
     num_buckets tb1 = 2 ^ unat (log2_num_buckets tb1) \<and> num_items tb1 = of_nat (length (xs @ [p])) \<and> tbl_tail tb1 = p \<and>
     buckets_rep (hh t1) (num_buckets tb1) (buckets tb1) (set xs) \<and>
     (case tbl t of None \<Rightarrow> log2_num_buckets tb1 = 5 \<and> buckets tb1 = replicate 32 zero_bucket
       | Some tb \<Rightarrow> log2_num_buckets tb1 = log2_num_buckets tb \<and> buckets tb1 = buckets tb)"

lemma add_first:
  assumes rep: "ut_rep t []" and ans: "ans New_table" "ans New_buckets"
  shows "\<exists>t1 tb1. UT_HASH_ADD ans t p = HASH_ADD_TO_BKT ans (HASH_TO_BKT (hashv (hh t1 p)) (num_buckets tb1)) p t1 \<and> appended t [] p t1 tb1"
proof -
  have t: "ut_head t = None" "tbl t = None" using rep by (auto simp: ut_rep_def handles_rep_def)
  let ?v = "HASH_JEN (key_bytes (fld t p))"
  let ?tb = "\<lparr>buckets = replicate 32 zero_bucket, num_buckets = 32, log2_num_buckets = 5, num_items = 1, tbl_tail = p,
    ideal_chain_maxlen = 0, nonideal_items = 0, ineff_expands = 0, noexpand = 0\<rparr> :: 'a UT_hash_table"
  let ?t = "(set_hh p (\<lambda>x. x\<lparr>ut_next := None, hh_key := p, keylen := 4, ut_prev := None, hashv := ?v\<rparr>) t)
    \<lparr>ut_head := Some p, tbl := Some ?tb\<rparr>"
  have "UT_HASH_ADD ans t p = HASH_ADD_TO_BKT ans (HASH_TO_BKT (hashv (hh ?t p)) (num_buckets ?tb)) p ?t"
    using t ans by (cases t) (simp add: UT_HASH_ADD_def HASH_MAKE_TABLE_def set_hh_def Let_def)
  moreover have "appended t [] p ?t ?tb"
    using t buckets_rep_empty [of "hh ?t" 32] by (simp add: appended_def handles_rep_def set_hh_def)
  ultimately show ?thesis by blast
qed

lemma add_last:
  assumes rep: "ut_rep t xs" and xs: "xs \<noteq> []" "p \<notin> set xs" and len: "length (xs @ [p]) < 2 ^ 32"
  shows "\<exists>t1 tb1. UT_HASH_ADD ans t p = HASH_ADD_TO_BKT ans (HASH_TO_BKT (hashv (hh t1 p)) (num_buckets tb1)) p t1 \<and> appended t xs p t1 tb1"
proof -
  obtain tb where tb: "tbl t = Some tb" "table_rep (hh t) tb xs" and H: "handles_rep t xs"
    using rep xs(1) by (auto simp: ut_rep_def)
  have T: "log2_num_buckets tb < 32" "num_buckets tb = 2 ^ unat (log2_num_buckets tb)" "num_items tb = of_nat (length xs)"
    "tbl_tail tb = last xs" "buckets_rep (hh t) (num_buckets tb) (buckets tb) (set xs)" using tb(2) by (auto simp: table_rep_def)
  have h: "ut_head t = first xs None" "distinct xs" "length xs < 2 ^ 32" "links (\<lambda>p. ut_prev (hh t p)) (\<lambda>p. ut_next (hh t p)) xs"
    using H by (auto simp: handles_rep_def)
  obtain q where q: "first xs None = Some q" using xs(1) by (cases xs) auto
  have l: "last xs \<noteq> p" "final xs None = Some (last xs)" using xs by (auto simp: final_def)
  let ?v = "HASH_JEN (key_bytes (fld t p))"
  let ?tb = "tb\<lparr>tbl_tail := p, num_items := num_items tb + 1\<rparr>"
  let ?t1 = "set_hh p (\<lambda>x. x\<lparr>ut_next := None, hh_key := p, keylen := 4\<rparr>) t"
  let ?t2 = "set_hh (last xs) (\<lambda>x. x\<lparr>ut_next := Some p\<rparr>) ?t1"
  let ?t = "(set_hh p (\<lambda>x. x\<lparr>ut_prev := Some (last xs), hashv := ?v\<rparr>) ?t2)\<lparr>tbl := Some ?tb\<rparr>"
  have "UT_HASH_ADD ans t p = HASH_ADD_TO_BKT ans (HASH_TO_BKT (hashv (hh ?t p)) (num_buckets ?tb)) p ?t"
    using h(1) q tb(1) T(4) l by (cases t) (simp add: UT_HASH_ADD_def set_hh_def Let_def)
  moreover have "buckets_rep (hh ?t) (num_buckets ?tb) (buckets ?tb) (set xs)"
    using xs(2) by (simp, intro buckets_rep_cong [OF T(5)]) (auto simp: set_hh_def)
  moreover have "links (\<lambda>q. ut_prev (hh ?t q)) (\<lambda>q. ut_next (hh ?t q)) (xs @ [p])"
    by (rule links_snoc [OF h(4)]) (use h(2) xs l in \<open>auto simp: set_hh_def\<close>)
  moreover have "\<forall>q \<in> set (xs @ [p]). hh_key (hh ?t q) = q \<and> keylen (hh ?t q) = 4 \<and> hashv (hh ?t q) = HASH_JEN (key_bytes (fld ?t q))"
    using H xs(2) by (auto simp: handles_rep_def set_hh_def)
  moreover have "ut_head ?t = first (xs @ [p]) None" using h(1) q by (cases xs) (auto simp: set_hh_def)
  ultimately have "appended t xs p ?t ?tb"
    using T(1-3) tb(1) len h(2) xs(2) unfolding appended_def handles_rep_def by (simp add: set_hh_def)
  then show ?thesis using \<open>UT_HASH_ADD ans t p = _\<close> by blast
qed

lemma ut_room_length:
  assumes rep: "ut_rep t xs" and room: "ut_room ans t"
  shows "length xs + 1 < 2 ^ 32"
proof (rule ccontr)
  assume "\<not> ?thesis"
  moreover have "length xs < 2 ^ 32" using rep by (simp add: ut_rep_def handles_rep_def)
  ultimately have l: "length xs + 1 = 2 ^ 32" by simp
  then obtain tb where "tbl t = Some tb" "num_items tb = of_nat (length xs)"
    using rep by (auto simp: ut_rep_def table_rep_def split: if_splits)
  moreover have "(of_nat (length xs + 1) :: u32) = 0" using l by simp
  ultimately show False using room by (simp add: ut_room_def add.commute)
qed

lemma ut_add:
  assumes rep: "ut_rep t xs" and p: "p \<notin> set xs" and room: "ut_room ans t"
  shows "\<exists>t'. UT_HASH_ADD ans t p = Some t' \<and> ut_rep t' (xs @ [p]) \<and> fld t' = fld t"
proof -
  obtain t1 tb1 where a: "UT_HASH_ADD ans t p = HASH_ADD_TO_BKT ans (HASH_TO_BKT (hashv (hh t1 p)) (num_buckets tb1)) p t1"
    "appended t xs p t1 tb1"
    using add_first [of t ans p] add_last [OF rep _ p, of ans] ut_room_length [OF rep room] rep room
    by (cases "xs = []") (auto simp: ut_room_def)
  have A: "handles_rep t1 (xs @ [p])" "tbl t1 = Some tb1" "fld t1 = fld t" "log2_num_buckets tb1 < 32"
    "num_buckets tb1 = 2 ^ unat (log2_num_buckets tb1)" "num_items tb1 = of_nat (length (xs @ [p]))" "tbl_tail tb1 = p"
    "buckets_rep (hh t1) (num_buckets tb1) (buckets tb1) (set xs)" using a(2) by (auto simp: appended_def)
  have small: "log2_num_buckets tb1 < 31" using a(2) room by (auto simp: appended_def ut_room_def split: option.splits)
  let ?i = "home (hh t1) (num_buckets tb1) p"
  obtain b t2 where b: "HASH_ADD_TO_BKT ans (HASH_TO_BKT (hashv (hh t1 p)) (num_buckets tb1)) p t1 =
       (if (expand_mult b + 1) * 10 \<le> bkt_count b \<and> noexpand tb1 \<noteq> 1 then HASH_EXPAND_BUCKETS ans t2 else Some t2)"
     "tbl t2 = Some (tb1\<lparr>buckets := (buckets tb1)[?i := b]\<rparr>)" "buckets_rep (hh t2) (num_buckets tb1) ((buckets tb1)[?i := b]) (insert p (set xs))"
     "order_eq (hh t1) (hh t2)" "ut_head t2 = ut_head t1" "fld t2 = fld t1"
    using add_to_bkt [OF A(2,4,5,8) p, of ans] by blast
  have H: "handles_rep t2 (xs @ [p])" by (rule handles_cong [OF A(1) b(4-6)])
  have T: "table_rep (hh t2) (tb1\<lparr>buckets := (buckets tb1)[?i := b]\<rparr>) (xs @ [p])"
    using A(4-7) b(3) by (simp add: table_rep_def)
  show ?thesis
  proof (cases "(expand_mult b + 1) * 10 \<le> bkt_count b \<and> noexpand tb1 \<noteq> 1")
    case True
    have "length (xs @ [p]) < 2 ^ 32" using A(1) by (simp add: handles_rep_def)
    from expand_spec [OF b(2) T this, of ans] small room obtain t3 tb3 where e: "HASH_EXPAND_BUCKETS ans t2 = Some t3" "tbl t3 = Some tb3"
      "table_rep (hh t3) tb3 (xs @ [p])" "order_eq (hh t2) (hh t3)" "ut_head t3 = ut_head t2" "fld t3 = fld t2"
      by (auto simp: ut_room_def)
    have "handles_rep t3 (xs @ [p])" by (rule handles_cong [OF H e(4-6)])
    then show ?thesis using a(1) b(1,6) e A(3) True by (simp add: ut_rep_def)
  next
    case False
    then have "UT_HASH_ADD ans t p = Some t2" using a(1) b(1) by argo
    then show ?thesis using H T b(2,6) A(3) by (simp add: ut_rep_def)
  qed
qed

section \<open>Removing an element\<close>

text \<open>What both lists do: the neighbours of \<open>p\<close> are linked to each other.\<close>

definition unlink_hh :: "'p \<Rightarrow> 'p uthash \<Rightarrow> 'p uthash" where
  "unlink_hh p t = (
     let t = (case hh_prev (hh t p) of None \<Rightarrow> t | Some q \<Rightarrow> set_hh q (\<lambda>x. x\<lparr>hh_next := hh_next (hh t p)\<rparr>) t)
     in case hh_next (hh t p) of None \<Rightarrow> t | Some q \<Rightarrow> set_hh q (\<lambda>x. x\<lparr>hh_prev := hh_prev (hh t p)\<rparr>) t)"

lemma unlink_hh_frame [simp]:
  "ut_head (unlink_hh p t) = ut_head t" "tbl (unlink_hh p t) = tbl t" "fld (unlink_hh p t) = fld t"
  "order_eq (hh t) (hh (unlink_hh p t))"
  by (auto simp: unlink_hh_def Let_def set_hh_def order_eq_def split: option.split)

lemma bkt_unlink:
  assumes rep: "bkt_rep (hh t) b (ys @ p # zs)"
    and b': "hh_head b' = (if hh_head b = Some p then hh_next (hh t p) else hh_head b)" "bkt_count b' = bkt_count b - 1"
  shows "bkt_rep (hh (unlink_hh p t)) b' (ys @ zs)"
    and "q \<notin> set (ys @ p # zs) \<Longrightarrow> hh_prev (hh (unlink_hh p t) q) = hh_prev (hh t q) \<and> hh_next (hh (unlink_hh p t) q) = hh_next (hh t q)"
proof -
  have b: "distinct (ys @ p # zs)" "hh_head b = first (ys @ p # zs) None" "bkt_links (hh t) (ys @ p # zs)"
    "bkt_count b = of_nat (length (ys @ p # zs))" using rep by (auto simp: bkt_rep_def)
  have at: "hh_prev (hh t p) = final ys None" "hh_next (hh t p) = first zs None" using links_at [OF b(3)] by auto
  have np: "final ys None \<noteq> Some p" "first zs None \<noteq> Some p" using b(1) first_in [of zs p] final_in [of ys p] by auto
  have ne: "first zs None \<noteq> Some q" if "final ys None = Some q" for q using that b(1) first_in [of zs q] final_in [of ys q] by auto
  have "bkt_links (hh (unlink_hh p t)) (ys @ zs)"
    by (rule links_remove [OF b(3,1)])
      (use at np ne in \<open>auto simp: unlink_hh_def Let_def set_hh_def split: option.split\<close>)
  moreover have "hh_head b' = first (ys @ zs) None"
    using b' b(1,2) at by (cases ys) auto
  ultimately show "bkt_rep (hh (unlink_hh p t)) b' (ys @ zs)" using b b' by (simp add: bkt_rep_def)
  show "hh_prev (hh (unlink_hh p t) q) = hh_prev (hh t q) \<and> hh_next (hh (unlink_hh p t) q) = hh_next (hh t q)"
    if "q \<notin> set (ys @ p # zs)"
    using that at np first_in [of zs q] final_in [of ys q] by (auto simp: unlink_hh_def Let_def set_hh_def split: option.split)
qed

lemma del_in_bkt:
  assumes tb: "tbl t = Some tb" "log2_num_buckets tb < 32" "num_buckets tb = 2 ^ unat (log2_num_buckets tb)"
    and rep: "buckets_rep (hh t) (num_buckets tb) (buckets tb) S" "p \<in> S"
  defines "i \<equiv> home (hh t) (num_buckets tb) p"
  shows "\<exists>b t1. expand_mult b = expand_mult (buckets tb ! i) \<and> i < length (buckets tb) \<and>
     HASH_DEL_IN_BKT (HASH_TO_BKT (hashv (hh t p)) (num_buckets tb)) p t = Some t1 \<and>
     tbl t1 = Some (tb\<lparr>buckets := (buckets tb)[i := b]\<rparr>) \<and> buckets_rep (hh t1) (num_buckets tb) ((buckets tb)[i := b]) (S - {p}) \<and>
     order_eq (hh t) (hh t1) \<and> ut_head t1 = ut_head t \<and> fld t1 = fld t"
proof -
  have i: "i < length (buckets tb)"
    using rep(1) HASH_TO_BKT_less tb(2,3) by (simp add: buckets_rep_def i_def unat_2_power word_less_nat_alt)
  obtain ws where ws: "bkt_rep (hh t) (buckets tb ! i) ws" "set ws = {q \<in> S. home (hh t) (num_buckets tb) q = i}"
    using rep(1) i by (auto simp: buckets_rep_def)
  then have "p \<in> set ws" using rep(2) by (simp add: i_def)
  then obtain ys zs where yz: "ws = ys @ p # zs" by (auto simp: in_set_conv_decomp)
  let ?b = "(buckets tb ! i)\<lparr>bkt_count := bkt_count (buckets tb ! i) - 1,
    hh_head := if hh_head (buckets tb ! i) = Some p then hh_next (hh t p) else hh_head (buckets tb ! i)\<rparr>"
  let ?t = "(unlink_hh p t)\<lparr>tbl := Some (tb\<lparr>buckets := (buckets tb)[i := ?b]\<rparr>)\<rparr>"
  have h: "distinct ws" using ws(1) by (simp add: bkt_rep_def)
  have "HASH_DEL_IN_BKT (HASH_TO_BKT (hashv (hh t p)) (num_buckets tb)) p t = Some ?t"
    using tb(1) i unfolding i_def
    by (cases "hh_head (buckets tb ! i) = Some p")
      (simp_all add: HASH_DEL_IN_BKT_def ld_nth_def st_nth_def unlink_hh_def Let_def i_def)
  moreover have "buckets_rep (hh ?t) (num_buckets tb) ((buckets tb)[i := ?b]) (S - {p})"
    unfolding buckets_rep_def
  proof (intro conjI allI impI)
    show "length ((buckets tb)[i := ?b]) = unat (num_buckets tb)" using rep(1) by (simp add: buckets_rep_def)
    fix j assume "j < length ((buckets tb)[i := ?b])"
    then obtain vs where vs: "bkt_rep (hh t) (buckets tb ! j) vs" "set vs = {q \<in> S. home (hh t) (num_buckets tb) q = j}"
      using rep(1) by (auto simp: buckets_rep_def)
    note H = order_eq_home [OF unlink_hh_frame(4)]
    show "\<exists>ys. bkt_rep (hh ?t) ((buckets tb)[i := ?b] ! j) ys \<and> set ys = {q \<in> S - {p}. home (hh ?t) (num_buckets tb) q = j}"
    proof (cases "j = i")
      case True
      have "bkt_rep (hh ?t) ?b (ys @ zs)" using bkt_unlink(1) [OF ws(1) [unfolded yz], of ?b] by simp
      moreover have "set (ys @ zs) = {q \<in> S - {p}. home (hh ?t) (num_buckets tb) q = j}"
        using ws(2) h True by (auto simp: H yz)
      ultimately show ?thesis using True i by auto
    next
      case False
      have "bkt_rep (hh ?t) (buckets tb ! j) vs"
        by (rule bkt_rep_cong [OF vs(1)]) (use bkt_unlink(2) [OF ws(1) [unfolded yz], of ?b] ws(2) vs(2) False in \<open>auto simp: yz\<close>)
      moreover have "set vs = {q \<in> S - {p}. home (hh ?t) (num_buckets tb) q = j}"
        using vs(2) False by (auto simp: H i_def)
      ultimately show ?thesis using False by auto
    qed
  qed
  ultimately show ?thesis using i by (intro exI [of _ ?b] exI [of _ ?t]) simp
qed

lemma ut_delete_only:
  "ut_rep t [p] \<Longrightarrow> UT_HASH_DELETE t p = Some (t\<lparr>ut_head := None, tbl := None\<rparr>) \<and> ut_rep (t\<lparr>ut_head := None, tbl := None\<rparr>) []"
  by (auto simp: ut_rep_def handles_rep_def UT_HASH_DELETE_def)

text \<open>The statements of \<open>HASH_DELETE\<close> before the bucket is touched.\<close>

definition unlink_ut :: "'p \<Rightarrow> 'p UT_hash_table \<Rightarrow> 'p uthash \<Rightarrow> 'p uthash" where
  "unlink_ut p tb t = (
     let t = t\<lparr>tbl := Some tb\<rparr>;
         t = (case ut_prev (hh t p) of
           None \<Rightarrow> t\<lparr>ut_head := ut_next (hh t p)\<rparr> | Some q \<Rightarrow> set_hh q (\<lambda>x. x\<lparr>ut_next := ut_next (hh t p)\<rparr>) t)
     in case ut_next (hh t p) of None \<Rightarrow> t | Some q \<Rightarrow> set_hh q (\<lambda>x. x\<lparr>ut_prev := ut_prev (hh t p)\<rparr>) t)"

lemma unlink_ut_frame:
  "tbl (unlink_ut p tb t) = Some tb" "fld (unlink_ut p tb t) = fld t"
  "hh_prev (hh (unlink_ut p tb t) q) = hh_prev (hh t q)" "hh_next (hh (unlink_ut p tb t) q) = hh_next (hh t q)"
  "hashv (hh (unlink_ut p tb t) q) = hashv (hh t q)" "hh_key (hh (unlink_ut p tb t) q) = hh_key (hh t q)"
  "keylen (hh (unlink_ut p tb t) q) = keylen (hh t q)"
  by (auto simp: unlink_ut_def Let_def set_hh_def split: option.split)

lemma unlink_ut_rep:
  assumes H: "handles_rep t (ys @ p # zs)" and ne: "ys @ zs \<noteq> []"
  shows "handles_rep (unlink_ut p tb t) (ys @ zs)"
proof -
  let ?t = "unlink_ut p tb t"
  have h: "distinct (ys @ p # zs)" "ut_head t = first (ys @ p # zs) None" "links (\<lambda>p. ut_prev (hh t p)) (\<lambda>p. ut_next (hh t p)) (ys @ p # zs)"
    using H by (auto simp: handles_rep_def)
  have at: "ut_prev (hh t p) = final ys None" "ut_next (hh t p) = first zs None" using links_at [OF h(3)] by auto
  have np: "final ys None \<noteq> Some p" "first zs None \<noteq> Some p" using h(1) first_in [of zs p] final_in [of ys p] by auto
  have dj: "first zs None \<noteq> Some q" if "final ys None = Some q" for q using that h(1) first_in [of zs q] final_in [of ys q] by auto
  have "links (\<lambda>p. ut_prev (hh ?t p)) (\<lambda>p. ut_next (hh ?t p)) (ys @ zs)"
    by (rule links_remove [OF h(3,1)])
      (use at np dj in \<open>auto simp: unlink_ut_def Let_def set_hh_def split: option.split\<close>)
  moreover have "ut_head ?t = first (ys @ zs) None"
    using h(2) at np by (cases ys) (auto simp: unlink_ut_def Let_def set_hh_def split: option.split)
  ultimately show ?thesis using H unlink_ut_frame [of p tb t] by (simp add: handles_rep_def)
qed

text \<open>The number of buckets stays, and so do their thresholds.\<close>

definition same_shape :: "'p uthash \<Rightarrow> 'p uthash \<Rightarrow> bool" where
  "same_shape t t' \<longleftrightarrow> (\<forall>tb'. tbl t' = Some tb' \<longrightarrow> (\<exists>tb. tbl t = Some tb \<and> log2_num_buckets tb' = log2_num_buckets tb \<and>
     expand_mult ` set (buckets tb') \<subseteq> expand_mult ` set (buckets tb)))"

lemma same_mults:
  assumes "expand_mult b = expand_mult (bs ! i)" "i < length bs"
  shows "expand_mult ` set (bs[i := b]) \<subseteq> expand_mult ` set bs"
proof -
  have "map expand_mult (bs[i := b]) = map expand_mult bs"
    using assms by (simp add: map_update list_update_same_conv)
  then show ?thesis by (metis image_set order_refl)
qed

lemma ut_delete:
  assumes rep: "ut_rep t xs" and p: "p \<in> set xs"
  shows "\<exists>t'. UT_HASH_DELETE t p = Some t' \<and> ut_rep t' (remove1 p xs) \<and> fld t' = fld t \<and> same_shape t t'"
proof -
  obtain ys zs where xs: "xs = ys @ p # zs" "p \<notin> set ys" using p by (metis split_list_first)
  have r: "remove1 p xs = ys @ zs" using xs by (simp add: remove1_append)
  show ?thesis
  proof (cases "ys @ zs = []")
    case True
    then show ?thesis using ut_delete_only [of t p] rep xs by (auto simp: same_shape_def intro!: exI [of _ "t\<lparr>ut_head := None, tbl := None\<rparr>"])
  next
    case False
    obtain tb where tb: "tbl t = Some tb" "table_rep (hh t) tb xs" and H: "handles_rep t xs"
      using rep xs by (auto simp: ut_rep_def)
    have T: "log2_num_buckets tb < 32" "num_buckets tb = 2 ^ unat (log2_num_buckets tb)" "num_items tb = of_nat (length xs)"
      "tbl_tail tb = last xs" "buckets_rep (hh t) (num_buckets tb) (buckets tb) (set xs)" using tb(2) by (auto simp: table_rep_def)
    have d: "distinct xs" "links (\<lambda>p. ut_prev (hh t p)) (\<lambda>p. ut_next (hh t p)) xs" using H by (auto simp: handles_rep_def)
    have at: "ut_prev (hh t p) = final ys None" "ut_next (hh t p) = first zs None" using links_at [OF d(2) [unfolded xs(1)]] by auto
    let ?tb = "tb\<lparr>tbl_tail := last (ys @ zs)\<rparr>"
    have "(if p = tbl_tail tb then (case ut_prev (hh t p) of None \<Rightarrow> None | Some q \<Rightarrow> Some (tb\<lparr>tbl_tail := q\<rparr>)) else Some tb) = Some ?tb"
    proof (cases "zs = []")
      case True
      then show ?thesis using False T(4) at(1) xs by (simp add: final_def)
    next
      case nz: False
      then have "last zs \<noteq> p" using d(1) xs last_in_set [of zs] by auto
      then show ?thesis using nz T(4) xs by simp
    qed
    then have del: "UT_HASH_DELETE t p = do {
        t \<leftarrow> HASH_DEL_IN_BKT (HASH_TO_BKT (hashv (hh (unlink_ut p ?tb t) p)) (num_buckets ?tb)) p (unlink_ut p ?tb t);
        tb \<leftarrow> tbl t;
        Some (t\<lparr>tbl := Some (tb\<lparr>num_items := num_items tb - 1\<rparr>)\<rparr>) }"
      using False at tb(1) by (auto simp: UT_HASH_DELETE_def unlink_ut_def Let_def)
    have B: "buckets_rep (hh (unlink_ut p ?tb t)) (num_buckets ?tb) (buckets ?tb) (set xs)"
      by (simp, rule buckets_rep_cong [OF T(5)]) (simp add: unlink_ut_frame)
    obtain b t1 where t1: "HASH_DEL_IN_BKT (HASH_TO_BKT (hashv (hh (unlink_ut p ?tb t) p)) (num_buckets ?tb)) p (unlink_ut p ?tb t) = Some t1"
      "tbl t1 = Some (?tb\<lparr>buckets := b\<rparr>)" "expand_mult ` set b \<subseteq> expand_mult ` set (buckets tb)" "buckets_rep (hh t1) (num_buckets ?tb) b (set xs - {p})"
      "order_eq (hh (unlink_ut p ?tb t)) (hh t1)" "ut_head t1 = ut_head (unlink_ut p ?tb t)" "fld t1 = fld (unlink_ut p ?tb t)"
      using del_in_bkt [OF unlink_ut_frame(1) _ _ B p] T(1,2) same_mults [where bs = "buckets tb"] by fastforce
    have H1: "handles_rep t1 (ys @ zs)"
      by (rule handles_cong [OF unlink_ut_rep [OF H [unfolded xs] False] t1(5-7)])
    have s: "set xs - {p} = set (ys @ zs)" using d(1) xs by auto
    have n: "num_items tb - 1 = of_nat (length (ys @ zs))" using T(3) xs by simp
    have "ut_rep (t1\<lparr>tbl := Some (?tb\<lparr>buckets := b, num_items := num_items tb - 1\<rparr>)\<rparr>) (ys @ zs)"
      using H1 T(1,2) t1(4) n False unfolding ut_rep_def handles_rep_def table_rep_def by (simp add: s)
    moreover have "same_shape t (t1\<lparr>tbl := Some (?tb\<lparr>buckets := b, num_items := num_items tb - 1\<rparr>)\<rparr>)"
      using tb(1) t1(3) by (simp add: same_shape_def)
    ultimately show ?thesis using del t1(1,2,7) r by (simp add: unlink_ut_frame)
  qed
qed

section \<open>Finding an element\<close>

lemma key_bytes_length [simp]: "length (key_bytes k) = 4"
  by (simp add: key_bytes_def)

lemma unat_key_bytes:
  "unat (ucast k :: u8) + 256 * unat (ucast (drop_bit 8 k) :: u8) + 65536 * unat (ucast (drop_bit 16 k) :: u8) +
     16777216 * unat (ucast (drop_bit 24 k) :: u8) = unat k" for k :: u32
proof -
  have "n mod 256 + 256 * (n div 256 mod 256) + 65536 * (n div 65536 mod 256) + 16777216 * (n div 16777216 mod 256) = n"
    if "n < 4294967296" for n :: nat
  proof -
    let ?a = "n div 256" and ?b = "n div 65536" and ?c = "n div 16777216"
    have "?b = ?a div 256" "?c = ?b div 256" by (simp_all add: div_mult2_eq [symmetric])
    moreover have "?c mod 256 = ?c" using that by (simp add: less_mult_imp_div_less)
    ultimately show ?thesis
      using div_mult_mod_eq [of n 256] div_mult_mod_eq [of ?a 256] div_mult_mod_eq [of ?b 256] by linarith
  qed
  moreover have "unat k < 4294967296" using unsigned_less [of k] by simp
  ultimately show ?thesis by (simp add: unsigned_ucast_eq take_bit_eq_mod unsigned_drop_bit_eq drop_bit_eq_div unat_div)
qed

lemma key_bytes_inj: "key_bytes k = key_bytes k' \<longleftrightarrow> k = k'"
proof
  assume "key_bytes k = key_bytes k'"
  then have "unat k = unat k'" using unat_key_bytes [of k] unat_key_bytes [of k'] by (simp add: key_bytes_def)
  then show "k = k'" by (simp only: word_unat_eq_iff)
qed simp

text \<open>A 4-byte key takes one round of mixing, with the key itself in the first word.\<close>

lemma key_word:
  "ucast (ucast k :: u8) + push_bit 8 (ucast (ucast (drop_bit 8 k) :: u8)) + push_bit 16 (ucast (ucast (drop_bit 16 k) :: u8)) +
     push_bit 24 (ucast (ucast (drop_bit 24 k) :: u8)) = k" for k :: u32
proof -
  have c: "(ucast w :: u32) = of_nat (unat w)" for w :: u8 by simp
  have "of_nat (unat (ucast k :: u8) + 256 * unat (ucast (drop_bit 8 k) :: u8) + 65536 * unat (ucast (drop_bit 16 k) :: u8) +
     16777216 * unat (ucast (drop_bit 24 k) :: u8)) = k" unfolding unat_key_bytes by simp
  then show ?thesis by (simp only: c of_nat_add of_nat_mult push_bit_eq_mult) (simp add: mult.commute)
qed

lemma find_in_chain_spec:
  assumes "seg pv (\<lambda>p. hh_next (hh t p)) q ys None" "\<forall>p \<in> set ys. hh_key (hh t p) = p \<and> keylen (hh t p) = 4"
  shows "find_in_chain t (key_bytes k) (first ys None) = Some (find (\<lambda>p. fld t p = k) ys)"
  using assms
proof (induction ys arbitrary: q)
  case Nil
  then show ?case by (simp add: find_in_chain.simps)
next
  case (Cons p ys)
  then have n: "hh_next (hh t p) = first ys None" "hh_key (hh t p) = p" "keylen (hh t p) = 4" by auto
  have "find_in_chain t (key_bytes k) (Some p) =
      (if fld t p = k then Some (Some p) else find_in_chain t (key_bytes k) (first ys None))"
    by (subst find_in_chain.simps) (simp add: n key_bytes_inj)
  moreover have "find_in_chain t (key_bytes k) (first ys None) = Some (find (\<lambda>p. fld t p = k) ys)"
    using Cons.prems by (intro Cons.IH [of "Some p"]) auto
  ultimately show ?case by simp
qed

lemma find_unique: "p \<in> set ys \<Longrightarrow> P p \<Longrightarrow> \<forall>q \<in> set ys. P q \<longrightarrow> q = p \<Longrightarrow> find P ys = Some p"
  by (cases "find P ys") (use find_Some_iff [of P ys] find_None_iff [of P ys] nth_mem in metis)+

lemma ut_find:
  assumes rep: "ut_rep t xs" and inj: "inj_on (fld t) (set xs)"
  shows "UT_HASH_FIND t (key_bytes k) = Some (map_of (map (\<lambda>p. (fld t p, p)) xs) k)"
proof (cases "xs = []")
  case True
  then show ?thesis using rep by (simp add: ut_rep_def handles_rep_def UT_HASH_FIND_def)
next
  case False
  obtain tb where tb: "tbl t = Some tb" "table_rep (hh t) tb xs" and H: "handles_rep t xs"
    using rep False by (auto simp: ut_rep_def)
  have T: "log2_num_buckets tb < 32" "num_buckets tb = 2 ^ unat (log2_num_buckets tb)"
    "buckets_rep (hh t) (num_buckets tb) (buckets tb) (set xs)" using tb(2) by (auto simp: table_rep_def)
  let ?i = "unat (HASH_TO_BKT (HASH_JEN (key_bytes k)) (num_buckets tb))"
  have i: "?i < length (buckets tb)"
    using T HASH_TO_BKT_less by (simp add: buckets_rep_def unat_2_power word_less_nat_alt)
  obtain ys where ys: "bkt_rep (hh t) (buckets tb ! ?i) ys" "set ys = {p \<in> set xs. home (hh t) (num_buckets tb) p = ?i}"
    using T(3) i by (auto simp: buckets_rep_def)
  have K: "\<forall>p \<in> set xs. hh_key (hh t p) = p \<and> keylen (hh t p) = 4 \<and> hashv (hh t p) = HASH_JEN (key_bytes (fld t p))"
    using H by (simp add: handles_rep_def)
  obtain h where h: "ut_head t = Some h" using H False by (cases xs) (auto simp: handles_rep_def)
  have "UT_HASH_FIND t (key_bytes k) = find_in_chain t (key_bytes k) (first ys None)"
    using h tb(1) i ys(1) by (simp add: UT_HASH_FIND_def ld_nth_def bkt_rep_def)
  also have "\<dots> = Some (find (\<lambda>p. fld t p = k) ys)"
    by (rule find_in_chain_spec) (use ys K in \<open>auto simp: bkt_rep_def\<close>)
  also have "find (\<lambda>p. fld t p = k) ys = map_of (map (\<lambda>p. (fld t p, p)) xs) k"
  proof (cases "\<exists>p \<in> set xs. fld t p = k")
    case True
    then obtain p where p: "p \<in> set xs" "fld t p = k" by blast
    have u: "q = p" if "q \<in> set xs" "fld t q = k" for q using inj that p by (auto dest: inj_onD)
    have "p \<in> set ys" using p K ys(2) by simp
    then have "find (\<lambda>p. fld t p = k) ys = Some p" using p(2) u ys(2) by (intro find_unique) auto
    moreover have "map_of (map (\<lambda>p. (fld t p, p)) xs) k = Some p"
    proof -
      have "map_of (map (\<lambda>p. (fld t p, p)) xs) k \<noteq> None" using p by (auto simp: map_of_eq_None_iff image_image)
      then obtain q where "map_of (map (\<lambda>p. (fld t p, p)) xs) k = Some q" by blast
      then show ?thesis using u map_of_SomeD by fastforce
    qed
    ultimately show ?thesis by simp
  next
    case False
    then have "find (\<lambda>p. fld t p = k) ys = None" using ys(2) by (auto simp: find_None_iff)
    moreover have "map_of (map (\<lambda>p. (fld t p, p)) xs) k = None" using False by (auto simp: map_of_eq_None_iff)
    ultimately show ?thesis by simp
  qed
  finally show ?thesis .
qed

lemma option_eqI: "(\<And>q. x = Some q \<longleftrightarrow> y = Some q) \<Longrightarrow> x = y"
  by (cases x; cases y) auto

section \<open>The interface\<close>

text \<open>
  An index whose operations may fault and that may run out of room. \<open>view\<close> is the finite map it represents.
\<close>

locale faulting_index =
  fixes find :: "'t \<Rightarrow> 'k \<Rightarrow> 'p option option"
    and add :: "'t \<Rightarrow> 'k \<Rightarrow> 'p \<Rightarrow> 't option"
    and del :: "'t \<Rightarrow> 'p \<Rightarrow> 't option"
    and view :: "'t \<Rightarrow> 'k \<Rightarrow> 'p option"
    and ok :: "'t \<Rightarrow> bool"
    and room :: "'t \<Rightarrow> bool"
  assumes find_view: "ok t \<Longrightarrow> find t k = Some (view t k)"
    and add_view: "ok t \<Longrightarrow> room t \<Longrightarrow> view t k = None \<Longrightarrow> p \<notin> ran (view t) \<Longrightarrow>
      \<exists>t'. add t k p = Some t' \<and> ok t' \<and> view t' = (view t)(k \<mapsto> p)"
    and del_view: "ok t \<Longrightarrow> view t k = Some p \<Longrightarrow> \<exists>t'. del t p = Some t' \<and> ok t' \<and> view t' = (view t)(k := None)"
begin

lemma find_add:
  assumes "ok t" "room t" "find t k = Some None" "p \<notin> ran (view t)"
  shows "\<exists>t'. add t k p = Some t' \<and> ok t' \<and> find t' k' = (if k' = k then Some (Some p) else find t k')"
proof -
  have "view t k = None" using assms(3) find_view [OF assms(1), of k] by simp
  from add_view [OF assms(1,2) this assms(4)] obtain t' where "add t k p = Some t'" "ok t'" "view t' = (view t)(k \<mapsto> p)" by blast
  then show ?thesis using find_view [of t' k'] find_view [OF assms(1), of k'] by auto
qed

lemma find_del:
  assumes "ok t" "find t k = Some (Some p)"
  shows "\<exists>t'. del t p = Some t' \<and> ok t' \<and> find t' k' = (if k' = k then Some None else find t k')"
proof -
  have "view t k = Some p" using assms(2) find_view [OF assms(1), of k] by simp
  from del_view [OF assms(1) this] obtain t' where "del t p = Some t'" "ok t'" "view t' = (view t)(k := None)" by blast
  then show ?thesis using find_view [of t' k'] find_view [OF assms(1), of k'] by auto
qed

text \<open>What was added can be taken out again, and then all is as before.\<close>

lemma add_del:
  assumes "ok t" "room t" "view t k = None" "p \<notin> ran (view t)"
  shows "\<exists>t1 t2. add t k p = Some t1 \<and> del t1 p = Some t2 \<and> ok t2 \<and> view t2 = view t"
proof -
  obtain t1 where t1: "add t k p = Some t1" "ok t1" "view t1 = (view t)(k \<mapsto> p)" using add_view [OF assms] by blast
  moreover obtain t2 where "del t1 p = Some t2" "ok t2" "view t2 = (view t1)(k := None)"
    using del_view [OF t1(2), of k p] t1(3) by auto
  ultimately show ?thesis using assms(3) by (auto simp: fun_eq_iff)
qed

end

text \<open>An index that never fails is one.\<close>

sublocale key_index \<subseteq> never_full: faulting_index "\<lambda>t k. Some (find t k)" "\<lambda>t k p. Some (add t k p)" del find ok "\<lambda>_. True"
  by unfold_locales (use find_add ok_add find_del in auto)

definition uth_find :: "'p uthash \<Rightarrow> u32 \<Rightarrow> 'p option option" where
  "uth_find t k = UT_HASH_FIND t (key_bytes k)"

text \<open>The user of the table sets the key field before it adds the element.\<close>

definition uth_add :: "'p uthash \<Rightarrow> u32 \<Rightarrow> 'p \<Rightarrow> 'p uthash option" where
  "uth_add t k p = UT_HASH_ADD (\<lambda>_. True) (t\<lparr>fld := (fld t)(p := k)\<rparr>) p"

definition ut_ok :: "'p uthash \<Rightarrow> bool" where
  "ut_ok t \<longleftrightarrow> (\<exists>xs. ut_rep t xs \<and> inj_on (fld t) (set xs))"

definition ut_view :: "'p uthash \<Rightarrow> u32 \<Rightarrow> 'p option" where
  "ut_view t k = (case uth_find t k of None \<Rightarrow> None | Some r \<Rightarrow> r)"

lemma ut_view_eq:
  assumes "ut_rep t xs" "inj_on (fld t) (set xs)"
  shows "ut_view t k = Some p \<longleftrightarrow> p \<in> set xs \<and> fld t p = k"
proof -
  have d: "distinct (map fst (map (\<lambda>p. (fld t p, p)) xs))"
    using assms by (simp add: comp_def distinct_map ut_rep_def handles_rep_def)
  show ?thesis using map_of_eq_Some_iff [OF d, of k p] ut_find [OF assms, of k]
    by (auto simp: ut_view_def uth_find_def)
qed

lemma ut_rep_fld:
  "ut_rep t xs \<Longrightarrow> \<forall>p \<in> set xs. f p = fld t p \<Longrightarrow> ut_rep (t\<lparr>fld := f\<rparr>) xs"
  by (auto simp: ut_rep_def handles_rep_def)

interpretation utb: faulting_index uth_find uth_add UT_HASH_DELETE ut_view ut_ok "ut_room (\<lambda>_. True)"
proof unfold_locales
  fix t :: "'p uthash" and k :: u32 and p :: 'p
  assume ok: "ut_ok t"
  then obtain xs where xs: "ut_rep t xs" "inj_on (fld t) (set xs)" by (auto simp: ut_ok_def)
  note V = ut_view_eq [OF xs]
  have ran: "ran (ut_view t) = set xs" using V by (auto simp: ran_def)
  show "uth_find t k = Some (ut_view t k)" using ut_find [OF xs, of k] by (simp add: ut_view_def uth_find_def)
  show "\<exists>t'. uth_add t k p = Some t' \<and> ut_ok t' \<and> ut_view t' = (ut_view t)(k \<mapsto> p)"
    if room: "ut_room (\<lambda>_. True) t" and new: "ut_view t k = None" "p \<notin> ran (ut_view t)"
  proof -
    let ?t = "t\<lparr>fld := (fld t)(p := k)\<rparr>"
    have p: "p \<notin> set xs" using new(2) ran by simp
    have "ut_rep ?t xs" by (rule ut_rep_fld [OF xs(1)]) (use p in auto)
    moreover have "ut_room (\<lambda>_. True) ?t" using room by (simp add: ut_room_def)
    ultimately obtain t' where t': "UT_HASH_ADD (\<lambda>_. True) ?t p = Some t'" "ut_rep t' (xs @ [p])" "fld t' = fld ?t"
      using ut_add [of ?t xs p] p by blast
    have "fld t q \<noteq> k" if "q \<in> set xs" for q using V [of k q] new(1) that by auto
    then have inj: "inj_on (fld t') (set (xs @ [p]))" using xs(2) p t'(3) by (auto simp: inj_on_def)
    have "ut_view t' j = ((ut_view t)(k \<mapsto> p)) j" for j
    proof (rule option_eqI)
      show "ut_view t' j = Some q \<longleftrightarrow> ((ut_view t)(k \<mapsto> p)) j = Some q" for q
        using ut_view_eq [OF t'(2) inj, of j q] V [of j q] V [of k] new p t'(3) by auto
    qed
    then show ?thesis using t' inj by (auto simp: uth_add_def ut_ok_def)
  qed
  show "\<exists>t'. UT_HASH_DELETE t p = Some t' \<and> ut_ok t' \<and> ut_view t' = (ut_view t)(k := None)" if "ut_view t k = Some p"
  proof -
    have p: "p \<in> set xs" "fld t p = k" using that V by auto
    obtain t' where t': "UT_HASH_DELETE t p = Some t'" "ut_rep t' (remove1 p xs)" "fld t' = fld t"
      using ut_delete [OF xs(1) p(1)] by blast
    have d: "distinct xs" using xs(1) by (simp add: ut_rep_def handles_rep_def)
    have inj: "inj_on (fld t') (set (remove1 p xs))" using xs(2) t'(3) d by (auto simp: inj_on_def)
    have "ut_view t' j = ((ut_view t)(k := None)) j" for j
    proof (rule option_eqI)
      show "ut_view t' j = Some q \<longleftrightarrow> ((ut_view t)(k := None)) j = Some q" for q
        using ut_view_eq [OF t'(2) inj, of j q] V [of j q] p xs(2) t'(3) d by (auto dest: inj_onD)
    qed
    then show ?thesis using t' inj by (auto simp: ut_ok_def)
  qed
qed

section \<open>Few elements\<close>

text \<open>A table with at most \<open>n\<close> elements whose bucket array was never doubled.\<close>

definition ut_small :: "nat \<Rightarrow> 'p uthash \<Rightarrow> 'p list \<Rightarrow> bool" where
  "ut_small n t xs \<longleftrightarrow> ut_rep t xs \<and> length xs \<le> n \<and>
     (case tbl t of None \<Rightarrow> True | Some tb \<Rightarrow> log2_num_buckets tb = 5 \<and> (\<forall>b \<in> set (buckets tb). expand_mult b = 0))"

lemma small_count:
  assumes "buckets_rep h nb bs (set xs)" "i < length bs" "length xs < 10" "distinct xs"
  shows "bkt_count (bs ! i) < 10 \<and> unat (bkt_count (bs ! i)) \<le> length xs"
proof -
  obtain ys where ys: "bkt_rep h (bs ! i) ys" "set ys \<subseteq> set xs" using assms(1,2) by (auto simp: buckets_rep_def)
  then have "length ys \<le> length xs" using assms(4)
    by (metis bkt_rep_def card_mono distinct_card finite_set)
  moreover have "bkt_count (bs ! i) = of_nat (length ys)" using ys(1) by (simp add: bkt_rep_def)
  ultimately show ?thesis using assms(3) by (simp add: word_less_nat_alt unat_of_nat_u32)
qed

lemma small_add:
  assumes small: "ut_small n t xs" and n: "length xs < n" "n < 10" and p: "p \<notin> set xs"
    and mem: "xs = [] \<Longrightarrow> ans New_table \<and> ans New_buckets"
  shows "\<exists>t'. UT_HASH_ADD ans t p = Some t' \<and> ut_small n t' (xs @ [p]) \<and> fld t' = fld t"
proof -
  have rep: "ut_rep t xs" using small by (simp add: ut_small_def)
  obtain t1 tb1 where a: "UT_HASH_ADD ans t p = HASH_ADD_TO_BKT ans (HASH_TO_BKT (hashv (hh t1 p)) (num_buckets tb1)) p t1"
    "appended t xs p t1 tb1"
    using add_first [of t ans p] add_last [OF rep _ p, of ans] rep mem n by (cases "xs = []") auto
  have A: "handles_rep t1 (xs @ [p])" "tbl t1 = Some tb1" "fld t1 = fld t" "log2_num_buckets tb1 < 32"
    "num_buckets tb1 = 2 ^ unat (log2_num_buckets tb1)" "num_items tb1 = of_nat (length (xs @ [p]))" "tbl_tail tb1 = p"
    "buckets_rep (hh t1) (num_buckets tb1) (buckets tb1) (set xs)" using a(2) by (auto simp: appended_def)
  have five: "log2_num_buckets tb1 = 5" "\<forall>b \<in> set (buckets tb1). expand_mult b = 0"
    using a(2) small by (auto simp: appended_def ut_small_def zero_bucket_def split: option.splits)
  let ?i = "home (hh t1) (num_buckets tb1) p"
  obtain b t2 where b: "bkt_count b = bkt_count (buckets tb1 ! ?i) + 1" "expand_mult b = expand_mult (buckets tb1 ! ?i)" "?i < length (buckets tb1)"
     "HASH_ADD_TO_BKT ans (HASH_TO_BKT (hashv (hh t1 p)) (num_buckets tb1)) p t1 =
       (if (expand_mult b + 1) * 10 \<le> bkt_count b \<and> noexpand tb1 \<noteq> 1 then HASH_EXPAND_BUCKETS ans t2 else Some t2)"
     "tbl t2 = Some (tb1\<lparr>buckets := (buckets tb1)[?i := b]\<rparr>)" "buckets_rep (hh t2) (num_buckets tb1) ((buckets tb1)[?i := b]) (insert p (set xs))"
     "order_eq (hh t1) (hh t2)" "ut_head t2 = ut_head t1" "fld t2 = fld t1"
    using add_to_bkt [OF A(2,4,5,8) p, of ans] by blast
  have H: "handles_rep t2 (xs @ [p])" by (rule handles_cong [OF A(1) b(7-9)])
  have T: "table_rep (hh t2) (tb1\<lparr>buckets := (buckets tb1)[?i := b]\<rparr>) (xs @ [p])"
    using A(4-7) b(6) by (simp add: table_rep_def)
  have m: "expand_mult b = 0" using b(2,3) five(2) by simp
  have "distinct xs" using A(1) by (simp add: handles_rep_def)
  then have "unat (bkt_count (buckets tb1 ! ?i)) < 9" using small_count [OF A(8) b(3)] n by simp
  then have "unat (bkt_count b) < 10" using b(1) by (simp add: unat_word_ariths)
  then have "\<not> (expand_mult b + 1) * 10 \<le> bkt_count b" using m by (simp add: word_le_nat_alt)
  then have "UT_HASH_ADD ans t p = Some t2" using a(1) b(4) by argo
  moreover have "ut_small n t2 (xs @ [p])"
    using H T b(5) five m n by (auto simp: ut_small_def ut_rep_def dest: set_update_subset_insert [THEN subsetD])
  ultimately show ?thesis using b(9) A(3) by simp
qed

lemma small_delete:
  assumes small: "ut_small n t xs" and p: "p \<in> set xs"
  shows "\<exists>t'. UT_HASH_DELETE t p = Some t' \<and> ut_small n t' (remove1 p xs) \<and> fld t' = fld t"
proof -
  obtain t' where t': "UT_HASH_DELETE t p = Some t'" "ut_rep t' (remove1 p xs)" "fld t' = fld t" "same_shape t t'"
    using ut_delete [OF _ p, of t] small by (auto simp: ut_small_def)
  have "case tbl t' of None \<Rightarrow> True | Some tb \<Rightarrow> log2_num_buckets tb = 5 \<and> (\<forall>b \<in> set (buckets tb). expand_mult b = 0)"
  proof (cases "tbl t'")
    case (Some tb')
    then obtain tb where tb: "tbl t = Some tb" "log2_num_buckets tb' = log2_num_buckets tb"
      "expand_mult ` set (buckets tb') \<subseteq> expand_mult ` set (buckets tb)" using t'(4) by (auto simp: same_shape_def)
    then have "expand_mult ` set (buckets tb') \<subseteq> {0}" using small by (auto simp: ut_small_def)
    then show ?thesis using Some tb small by (auto simp: ut_small_def)
  qed simp
  moreover have "length (remove1 p xs) \<le> n" using small by (auto simp: ut_small_def length_remove1)
  ultimately show ?thesis using t' by (auto simp: ut_small_def)
qed

lemma small_add_no_memory:
  assumes "ut_small n t []" "\<not> (ans New_table \<and> ans New_buckets)"
  shows "UT_HASH_ADD ans t p = None"
  using assms by (auto simp: ut_small_def ut_rep_def handles_rep_def UT_HASH_ADD_def HASH_MAKE_TABLE_def set_hh_def Let_def)

section \<open>The integrity check\<close>

lemma fsck_walk_spec: "seg pv nx q ys None \<Longrightarrow> fsck_walk pv nx (first ys None) q n = Some (Some (n + of_nat (length ys)))"
proof (induction ys arbitrary: q n)
  case Nil
  then show ?case by (simp add: fsck_walk.simps)
next
  case (Cons y ys)
  then have y: "pv y = q" "nx y = first ys None" "seg pv nx (Some y) ys None" by simp_all
  have "fsck_walk pv nx (Some y) q n = fsck_walk pv nx (first ys None) (Some y) (n + 1)"
    by (subst fsck_walk.simps) (simp add: y)
  then show ?case using Cons.IH [OF y(3), of "n + 1"] by (simp add: add.assoc)
qed

lemma fsck_spec:
  assumes rep: "ut_rep t xs"
  shows "HASH_FSCK t = Some True"
proof (cases "xs = []")
  case True
  then show ?thesis using rep by (simp add: ut_rep_def handles_rep_def HASH_FSCK_def)
next
  case False
  obtain tb where tb: "tbl t = Some tb" "table_rep (hh t) tb xs" and H: "handles_rep t xs"
    using rep False by (auto simp: ut_rep_def)
  have T: "log2_num_buckets tb < 32" "num_buckets tb = 2 ^ unat (log2_num_buckets tb)" "num_items tb = of_nat (length xs)"
    "buckets_rep (hh t) (num_buckets tb) (buckets tb) (set xs)" using tb(2) by (auto simp: table_rep_def)
  let ?done = "\<lambda>is. {p \<in> set xs. HASH_TO_BKT (hashv (hh t p)) (num_buckets tb) \<in> set is}"
  have "\<exists>r n. for_ret (fsck_bucket t tb) (words_below (num_buckets tb)) 0 = Some (r, n) \<and>
      (case r of None \<Rightarrow> n = of_nat (card (?done (words_below (num_buckets tb)))) | Some e \<Rightarrow> False)"
  proof (rule for_ret_rule [where I = "\<lambda>is n. n = of_nat (card (?done is))"])
    fix "is" rest :: "u32 list" and i n :: u32
    assume w: "words_below (num_buckets tb) = is @ i # rest" and n: "n = of_nat (card (?done is))"
    have "i \<in> set (words_below (num_buckets tb))" "i \<notin> set is" using w distinct_words_below [of "num_buckets tb"] by simp_all
    then have i: "unat i < length (buckets tb)" "i \<notin> set is" using T(4) by (auto simp: buckets_rep_def word_less_nat_alt)
    then obtain ys where ys: "bkt_rep (hh t) (buckets tb ! unat i) ys" "set ys = {p \<in> set xs. home (hh t) (num_buckets tb) p = unat i}"
      using T(4) by (auto simp: buckets_rep_def)
    have set_ys: "set ys = {p \<in> set xs. HASH_TO_BKT (hashv (hh t p)) (num_buckets tb) = i}"
      using ys(2) by (simp add: word_unat_eq_iff)
    have "?done (is @ [i]) = ?done is \<union> set ys" "?done is \<inter> set ys = {}" using set_ys i(2) by auto
    then have "card (?done (is @ [i])) = card (?done is) + length ys"
      using ys(1) by (simp add: card_Un_disjoint distinct_card bkt_rep_def)
    moreover have "fsck_bucket t tb i n = Some (None, n + of_nat (length ys))"
      using ys(1) i(1) fsck_walk_spec [of "\<lambda>p. hh_prev (hh t p)" "\<lambda>p. hh_next (hh t p)" None ys 0]
      by (simp add: fsck_bucket_def ld_nth_def bkt_rep_def)
    ultimately show "\<exists>r n'. fsck_bucket t tb i n = Some (r, n') \<and>
        (case r of None \<Rightarrow> n' = of_nat (card (?done (is @ [i]))) | Some e \<Rightarrow> False)" using n by simp
  qed simp
  then obtain n where f: "for_ret (fsck_bucket t tb) (words_below (num_buckets tb)) 0 = Some (None, n)"
    "n = of_nat (card (?done (words_below (num_buckets tb))))" by (auto split: option.splits)
  have "?done (words_below (num_buckets tb)) = set xs"
    using HASH_TO_BKT_less T(1,2) by (auto simp: word_less_nat_alt unat_2_power)
  moreover have h: "distinct xs" "ut_head t = first xs None" "links (\<lambda>p. ut_prev (hh t p)) (\<lambda>p. ut_next (hh t p)) xs"
    using H by (auto simp: handles_rep_def)
  ultimately have n: "n = num_items tb" using f(2) T(3) by (simp add: distinct_card)
  obtain q where q: "first xs None = Some q" using False by (cases xs) auto
  show ?thesis using fsck_walk_spec [OF h(3), of 0] f(1) n h(2) q tb(1) T(3) by (simp add: HASH_FSCK_def)
qed

lemma ut_clear: "ut_rep t xs \<Longrightarrow> \<exists>t'. HASH_CLEAR t = Some t' \<and> ut_rep t' []"
  by (cases xs) (auto simp: ut_rep_def handles_rep_def HASH_CLEAR_def)

section \<open>Properties\<close>

definition empty_ut :: "'p handles \<Rightarrow> ('p \<Rightarrow> u32) \<Rightarrow> 'p uthash" where
  "empty_ut h f = \<lparr>ut_head = None, tbl = None, hh = h, fld = f\<rparr>"

lemma empty_ut [simp]: "ut_rep (empty_ut h f) []" "ut_small n (empty_ut h f) []" "ut_room (\<lambda>_. True) (empty_ut h f)"
  by (simp_all add: empty_ut_def ut_rep_def handles_rep_def ut_small_def ut_room_def)

text \<open>
  The hash of a page number: the byte-wise function of Jenkins, with its loop and its \<open>switch\<close>, comes down to a single
  round of mixing whose first word is the number itself.
\<close>

theorem hash_of_page_number:
  "HASH_JEN (key_bytes k) = snd (snd (HASH_JEN_MIX (0x9e3779b9 + k) 0x9e3779b9 (0xfeedbeef + 4)))"
proof -
  have s: "hash_jen_blocks (key_bytes k) i j v = (key_bytes k, i, j, v)" for i j v by (subst hash_jen_blocks.simps) simp
  let ?b = "\<lambda>n. push_bit (8 * n) (ucast (ucast (drop_bit (8 * n) k) :: u8)) :: u32"
  have t: "hash_jen_tail (key_bytes k) i j v = (i + ?b 3 + ?b 2 + ?b 1 + ?b 0, j, v)" for i j v
    by (simp add: hash_jen_tail_def key_bytes_def key_byte_def Let_def)
  have "(i :: u32) + ?b 3 + ?b 2 + ?b 1 + ?b 0 = i + (?b 0 + ?b 1 + ?b 2 + ?b 3)" for i by (simp only: ac_simps)
  also have "i + (?b 0 + ?b 1 + ?b 2 + ?b 3) = i + k" for i :: u32 using key_word [of k] by simp
  finally show ?thesis unfolding HASH_JEN_def by (simp only: s t Let_def case_prod_conv key_bytes_length) simp
qed

text \<open>
  C36. The table with its buckets can take the place of the plain list that the model of the write buffer uses: as long as both
  find the same, they still do after an element was added under a new key, also when that doubles the bucket array, and
  after an element was removed. Neither operation can fail while there is memory and the table has fewer than 2 to the 31 buckets.
\<close>

theorem uthash_refines_list:
  assumes "ut_ok t" "table_ok lt" "\<forall>k. UT_HASH_FIND t (key_bytes k) = Some (HASH_FIND lt k)"
  shows "(ut_room (\<lambda>_. True) t \<and> HASH_FIND lt k = None \<and> p \<notin> ran (HASH_FIND lt) \<longrightarrow>
      (\<exists>t'. UT_HASH_ADD (\<lambda>_. True) (t\<lparr>fld := (fld t)(p := k)\<rparr>) p = Some t' \<and> ut_ok t' \<and>
        (\<forall>j. UT_HASH_FIND t' (key_bytes j) = Some (HASH_FIND (HASH_ADD lt k p) j)))) \<and>
    (HASH_FIND lt k = Some p \<longrightarrow>
      (\<exists>t' lt'. UT_HASH_DELETE t p = Some t' \<and> HASH_DEL lt p = Some lt' \<and> ut_ok t' \<and>
        (\<forall>j. UT_HASH_FIND t' (key_bytes j) = Some (HASH_FIND lt' j))))"
proof -
  have v: "ut_view t = HASH_FIND lt" using assms(3) by (auto simp: ut_view_def uth_find_def fun_eq_iff)
  show ?thesis
  proof (intro conjI impI; (elim conjE)?)
    assume a: "ut_room (\<lambda>_. True) t" "HASH_FIND lt k = None" "p \<notin> ran (HASH_FIND lt)"
    from utb.add_view [OF assms(1) a(1), of k p] a(2,3) v obtain t' where t': "uth_add t k p = Some t'" "ut_ok t'"
      "ut_view t' = (HASH_FIND lt)(k \<mapsto> p)" by auto
    then show "\<exists>t'. UT_HASH_ADD (\<lambda>_. True) (t\<lparr>fld := (fld t)(p := k)\<rparr>) p = Some t' \<and> ut_ok t' \<and>
        (\<forall>j. UT_HASH_FIND t' (key_bytes j) = Some (HASH_FIND (HASH_ADD lt k p) j))"
      using utb.find_view [OF t'(2)] uth.find_add [OF assms(2) a(2), of p] by (simp add: uth_add_def uth_find_def)
  next
    assume a: "HASH_FIND lt k = Some p"
    from utb.del_view [OF assms(1), of k p] a v obtain t' where t': "UT_HASH_DELETE t p = Some t'" "ut_ok t'"
      "ut_view t' = (HASH_FIND lt)(k := None)" by auto
    moreover obtain lt' where "HASH_DEL lt p = Some lt'" "HASH_FIND lt' = (HASH_FIND lt)(k := None)"
      using uth.find_del [OF assms(2) a] by blast
    ultimately show "\<exists>t' lt'. UT_HASH_DELETE t p = Some t' \<and> HASH_DEL lt p = Some lt' \<and> ut_ok t' \<and>
        (\<forall>j. UT_HASH_FIND t' (key_bytes j) = Some (HASH_FIND lt' j))"
      using utb.find_view [OF t'(2)] by (simp add: uth_find_def)
  qed
qed

theorem uthash_refines_list_witness:
  "\<forall>h f. \<exists>t'. UT_HASH_ADD (\<lambda>_. True) ((empty_ut h f)\<lparr>fld := f(7 := 9)\<rparr>) 7 = Some t' \<and>
     UT_HASH_FIND t' (key_bytes 9) = Some (Some (7 :: nat)) \<and> UT_HASH_FIND t' (key_bytes 41) = Some None"
proof (intro allI)
  fix h :: "nat handles" and f :: "nat \<Rightarrow> u32"
  let ?nil = "[] :: nat hash_table"
  have e: "HASH_FIND ?nil = Map.empty" by (simp add: fun_eq_iff HASH_FIND_def)
  then have "\<forall>k. UT_HASH_FIND (empty_ut h f) (key_bytes k) = Some (HASH_FIND ?nil k)"
    using ut_find [OF empty_ut(1), of h f] by simp
  moreover have "ut_ok (empty_ut h f)" unfolding ut_ok_def by (rule exI [of _ "[]"]) simp
  moreover have "table_ok ?nil" by (simp add: table_ok_def)
  ultimately have "\<exists>t'. UT_HASH_ADD (\<lambda>_. True) ((empty_ut h f)\<lparr>fld := (fld (empty_ut h f))(7 := 9)\<rparr>) 7 = Some t' \<and> ut_ok t' \<and>
      (\<forall>j. UT_HASH_FIND t' (key_bytes j) = Some (HASH_FIND (HASH_ADD ?nil 9 7) j))"
    using uthash_refines_list [of "empty_ut h f" ?nil 9 7] e by simp
  then show "\<exists>t'. UT_HASH_ADD (\<lambda>_. True) ((empty_ut h f)\<lparr>fld := f(7 := 9)\<rparr>) 7 = Some t' \<and>
     UT_HASH_FIND t' (key_bytes 9) = Some (Some (7 :: nat)) \<and> UT_HASH_FIND t' (key_bytes 41) = Some None"
    by (auto simp: empty_ut_def HASH_FIND_def HASH_ADD_def)
qed

text \<open>
  C38. The hash table of the write buffer, which never holds more than eight pages, asks for memory only when its first page is
  added and never doubles its buckets, so all later additions succeed. Without memory at the first page the driver
  writes through a null pointer. When the last page is removed, the table is freed.
\<close>

theorem write_buffer_hash_memory:
  assumes "ut_small 8 t xs"
  shows "(length xs < 8 \<and> p \<notin> set xs \<longrightarrow> (if xs = [] \<and> \<not> (ans New_table \<and> ans New_buckets) then UT_HASH_ADD ans t p = None
      else \<exists>t'. UT_HASH_ADD ans t p = Some t' \<and> ut_small 8 t' (xs @ [p]) \<and> fld t' = fld t)) \<and>
    (p \<in> set xs \<longrightarrow> (\<exists>t'. UT_HASH_DELETE t p = Some t' \<and> ut_small 8 t' (remove1 p xs) \<and> (xs = [p] \<longrightarrow> tbl t' = None)))"
proof (intro conjI impI; (elim conjE)?)
  assume "length xs < 8" "p \<notin> set xs"
  then show "if xs = [] \<and> \<not> (ans New_table \<and> ans New_buckets) then UT_HASH_ADD ans t p = None
      else \<exists>t'. UT_HASH_ADD ans t p = Some t' \<and> ut_small 8 t' (xs @ [p]) \<and> fld t' = fld t"
    using small_add [OF assms, of p ans] small_add_no_memory [of 8 t ans p] assms by auto
next
  assume "p \<in> set xs"
  from small_delete [OF assms this] obtain t' where t': "UT_HASH_DELETE t p = Some t'" "ut_small 8 t' (remove1 p xs)" by blast
  then show "\<exists>t'. UT_HASH_DELETE t p = Some t' \<and> ut_small 8 t' (remove1 p xs) \<and> (xs = [p] \<longrightarrow> tbl t' = None)"
    by (auto simp: ut_small_def ut_rep_def)
qed

theorem write_buffer_hash_memory_witness:
  "\<forall>h f. UT_HASH_ADD (\<lambda>a. a \<noteq> New_buckets) (empty_ut h f) (0 :: nat) = None \<and>
   (\<exists>t'. UT_HASH_ADD (\<lambda>a. a \<noteq> More_buckets) (empty_ut h f) 0 = Some t' \<and> ut_small 8 t' [0 :: nat])"
proof (intro allI)
  fix h :: "nat handles" and f :: "nat \<Rightarrow> u32"
  show "UT_HASH_ADD (\<lambda>a. a \<noteq> New_buckets) (empty_ut h f) 0 = None \<and>
      (\<exists>t'. UT_HASH_ADD (\<lambda>a. a \<noteq> More_buckets) (empty_ut h f) 0 = Some t' \<and> ut_small 8 t' [0])"
    using write_buffer_hash_memory [OF empty_ut(2) [of 8 h f], of 0 "\<lambda>a. a \<noteq> New_buckets"]
      write_buffer_hash_memory [OF empty_ut(2) [of 8 h f], of 0 "\<lambda>a. a \<noteq> More_buckets"] by auto
qed

end
