(* ===== verification/FB_Slab.thy ===== *)
theory FB_Slab
  imports FB_Prelude
begin

text \<open>
  The global allocator of the Rust half (\<open>rust/src/alloc.rs\<close>). \<open>kmalloc\<close> gives blocks aligned to 8 bytes; for larger alignments \<open>alloc\<close>
  asks for more, aligns the pointer inside the block, and keeps the address of the block in the eight bytes behind the
  memory it hands out, where \<open>dealloc\<close> looks it up.

  Memory is a map from addresses to bytes. What \<open>__kmalloc\<close> returns is an argument, as a function of the size it is
  asked for; 0 is the null pointer. \<open>None\<close> is undefined behaviour: a violated \<open>assume!\<close>, a misaligned access, or one outside of
  the block that \<open>__kmalloc\<close> returned.
\<close>

unbundle bit_operations_syntax

record layout =
  layout_size :: u64
  layout_align :: u64

type_synonym memory = "u64 \<Rightarrow> u8"

abbreviation KMALLOC_ALIGN :: u64 where "KMALLOC_ALIGN \<equiv> 8"

text \<open>The bytes of a \<open>usize\<close>, lowest first, and access to one at an address.\<close>

definition usize_bytes :: "u64 \<Rightarrow> u8 list" where
  "usize_bytes v = map (\<lambda>i. ucast (drop_bit (8 * i) v)) [0..<8]"

definition usize_of_bytes :: "u8 list \<Rightarrow> u64" where
  "usize_of_bytes bs = foldr (\<lambda>b v. ucast b OR push_bit 8 v) bs 0"

definition write_usize :: "u64 \<Rightarrow> u64 \<Rightarrow> memory \<Rightarrow> memory" where
  "write_usize a v m = (\<lambda>x. if x - a < 8 then usize_bytes v ! unat (x - a) else m x)"

definition read_usize :: "u64 \<Rightarrow> memory \<Rightarrow> u64" where
  "read_usize a m = usize_of_bytes (map (\<lambda>i. m (a + of_nat i)) [0..<8])"

text \<open>The eight bytes at \<open>a\<close> lie in the block of \<open>n\<close> bytes at \<open>addr\<close>, and the access is aligned.\<close>

definition usize_in_block :: "u64 \<Rightarrow> u64 \<Rightarrow> u64 \<Rightarrow> bool" where
  "usize_in_block addr n a \<longleftrightarrow> addr \<noteq> 0 \<and> a mod 8 = 0 \<and> addr \<le> a \<and> 8 \<le> n \<and> a - addr \<le> n - 8"

definition slab_alloc :: "(u64 \<Rightarrow> u64) \<Rightarrow> layout \<Rightarrow> memory \<Rightarrow> (u64 \<times> memory) option" where
  "slab_alloc kmalloc layout m =
     (if layout_size layout = 0 then None
      else let size = layout_size layout; align = layout_align layout in
      if align \<le> KMALLOC_ALIGN then
        let ptr = kmalloc size in if ptr mod KMALLOC_ALIGN \<noteq> 0 then None else Some (ptr, m)
      else
        let pad = align - KMALLOC_ALIGN + 8;
            addr = kmalloc (size + pad);
            aligned = (addr + align - 1) AND NOT (align - 1) in
        if aligned mod align \<noteq> 0 then None
        else if \<not> usize_in_block addr (size + pad) (aligned + size) then None
        else Some (aligned, write_usize (aligned + size) addr m))"

text \<open>The result is the address that is given to \<open>kfree\<close>.\<close>

definition slab_dealloc :: "u64 \<Rightarrow> layout \<Rightarrow> memory \<Rightarrow> u64 option" where
  "slab_dealloc ptr layout m =
     (if ptr = 0 \<or> layout_size layout = 0 then None
      else if layout_align layout \<le> KMALLOC_ALIGN then Some ptr
      else if (ptr + layout_size layout) mod 8 \<noteq> 0 then None
      else Some (read_usize (ptr + layout_size layout) m))"

section \<open>Words in memory\<close>

lemma low_byte: "ucast (ucast v :: u8) OR push_bit 8 (take_bit n (drop_bit 8 v)) = take_bit (8 + n) v" for v :: u64
proof (rule bit_word_eqI)
  fix i assume "i < LENGTH(64)"
  then show "bit (ucast (ucast v :: u8) OR push_bit 8 (take_bit n (drop_bit 8 v))) i = bit (take_bit (8 + n) v) i"
    by (cases "i < 8") (auto simp: bit_simps)
qed

lemma bytes_take_bit:
  "foldr (\<lambda>b v. ucast b OR push_bit 8 v) (map (\<lambda>i. ucast (drop_bit (8 * i) v) :: u8) [0..<n]) 0 = take_bit (8 * n) v" for v :: u64
proof (induction n arbitrary: v)
  case (Suc n)
  have e: "map (\<lambda>i. ucast (drop_bit (8 * Suc i) v) :: u8) [0..<n] = map (\<lambda>i. ucast (drop_bit (8 * i) (drop_bit 8 v))) [0..<n]"
    by (simp add: add.commute)
  have "foldr (\<lambda>b v. ucast b OR push_bit 8 v) (map (\<lambda>i. ucast (drop_bit (8 * Suc i) v) :: u8) [0..<n]) 0 = take_bit (8 * n) (drop_bit 8 v)"
    unfolding e by (rule Suc.IH)
  then show ?case using low_byte [of v "8 * n"] unfolding map_upt_Suc by simp
qed simp

lemma usize_of_bytes_bytes: "usize_of_bytes (usize_bytes v) = v"
  unfolding usize_of_bytes_def usize_bytes_def bytes_take_bit by (simp add: take_bit_word_eq_self)

lemma read_write_usize:
  assumes "\<forall>x. x - a < 8 \<longrightarrow> m' x = write_usize a v m x"
  shows "read_usize a m' = v"
proof -
  have "m' (a + of_nat i) = usize_bytes v ! i" if "i < 8" for i
  proof -
    have "unat (of_nat i :: u64) = i" by (rule of_nat_inverse [OF refl]) (use that in simp)
    moreover from this have "(of_nat i :: u64) < 8" using that by (simp add: word_less_nat_alt)
    ultimately show ?thesis using assms by (simp add: write_usize_def)
  qed
  then have "map (\<lambda>i. m' (a + of_nat i)) [0..<8] = usize_bytes v"
    by (intro nth_equalityI) (simp_all add: usize_bytes_def)
  then show ?thesis by (simp add: read_usize_def usize_of_bytes_bytes)
qed

section \<open>Alignment\<close>

lemma unat_add_u64: "unat x + unat y < 2 ^ 64 \<Longrightarrow> unat (x + y) = unat x + unat y" for x y :: u64
  by (simp add: unat_word_ariths)

lemma unat_numeral_8: "unat (8 :: u64) = 8"
  by simp

lemma slab_align_down: "w AND NOT (2 ^ k - 1) = push_bit k (drop_bit k w)" for w :: u64
proof -
  have "(2 ^ k :: u64) - 1 = mask k" by (simp add: mask_eq_exp_minus_1)
  then show ?thesis by (auto intro!: bit_word_eqI simp: bit_simps)
qed

lemma unat_align_down: "unat (w AND NOT (2 ^ k - 1)) = unat w div 2 ^ k * 2 ^ k" for w :: u64
proof -
  have "unat w div 2 ^ k * 2 ^ k < 2 ^ 64"
    by (rule order_le_less_trans [OF div_times_less_eq_dividend]) (use unsigned_less [of w] in simp)
  moreover have "unat (push_bit k (drop_bit k w)) = take_bit 64 (push_bit k (drop_bit k (unat w)))"
    by (simp add: unsigned_push_bit_eq unat_drop_bit_eq)
  ultimately show ?thesis unfolding slab_align_down
    by (simp only: push_bit_eq_mult [where 'a = nat] drop_bit_eq_div [where 'a = nat] take_bit_eq_mod mod_less)
qed

text \<open>
  The block that \<open>alloc\<close> asks for, aligned: \<open>a\<close> is its address, \<open>n\<close> the size that is handed out, \<open>k\<close> the logarithm of the alignment.
\<close>

lemma aligned_in_block:
  fixes a n :: u64
  assumes k: "3 < k" "k < 63" and n: "n mod 8 = 0" and a: "a \<noteq> 0" "a mod 8 = 0" and room: "unat a + unat n + 2 ^ k \<le> 2 ^ 64"
  defines "p \<equiv> (a + 2 ^ k - 1) AND NOT (2 ^ k - 1)"
  shows "unat p mod 2 ^ k = 0" "unat a \<le> unat p" "unat p + unat n + 8 \<le> unat a + (unat n + 2 ^ k)" "unat (p + n) = unat p + unat n"
    "unat (p + n) mod 8 = 0" "p \<noteq> 0"
proof -
  let ?A = "unat a" and ?N = "unat n" and ?K = "2 ^ k :: nat"
  have K: "unat (2 ^ k :: u64) = ?K" using k(2) of_nat_inverse [of ?K "2 ^ k :: u64"] power_strict_increasing [of k 64 "2 :: nat"] by simp
  have "(2 :: nat) ^ 3 dvd ?K" by (rule le_imp_power_dvd) (use k in simp)
  then have K8: "8 dvd ?K" by simp
  have A8: "8 dvd ?A" using a(2) by (metis dvd_eq_mod_eq_0 unat_0 unat_mod unat_numeral_8)
  have N8: "8 dvd ?N" using n by (metis dvd_eq_mod_eq_0 unat_0 unat_mod unat_numeral_8)
  have A0: "0 < ?A" using a(1) by (simp add: unat_gt_0)
  let ?m = "?A + ?K - 1"
  have "a + 2 ^ k - 1 = (of_nat ?m :: u64)" using A0 by (simp add: of_nat_diff)
  moreover have m: "?m < 2 ^ 64" using room A0 by simp
  ultimately have um: "unat (a + 2 ^ k - 1) = ?m" using of_nat_inverse [of ?m "a + 2 ^ k - 1"] by simp
  let ?P = "?m div ?K * ?K"
  have P: "unat p = ?P" unfolding p_def unat_align_down um ..
  have le: "?P \<le> ?m" by simp
  have "?m < ?P + ?K" using dividend_less_div_times [of ?K ?m] by simp
  then have ge: "?A \<le> ?P" by simp
  have P8: "8 dvd ?P" using K8 by simp
  have "8 dvd (?A + ?K) - ?P" using A8 K8 P8 by (intro dvd_diff_nat dvd_add)
  moreover have "0 < (?A + ?K) - ?P" using le A0 by linarith
  ultimately have "8 \<le> (?A + ?K) - ?P" by (rule dvd_imp_le)
  then have fit: "?P + 8 \<le> ?A + ?K" using le by simp
  show "unat p mod 2 ^ k = 0" unfolding P by simp
  show "unat a \<le> unat p" unfolding P by (rule ge)
  show "unat p + unat n + 8 \<le> unat a + (unat n + 2 ^ k)" unfolding P using fit by simp
  have "?P + ?N < 2 ^ 64" using fit room by simp
  then show pn: "unat (p + n) = unat p + unat n" unfolding P [symmetric] by (simp add: unat_word_ariths)
  show "unat (p + n) mod 8 = 0" unfolding pn P using P8 N8 by (metis dvd_add dvd_eq_mod_eq_0)
  show "p \<noteq> 0" using P ge A0 by auto
qed

section \<open>Properties\<close>

text \<open>
  C39. Memory with a large alignment: when \<open>__kmalloc\<close> delivers, the pointer is aligned, the memory it points to lies in the block, and
  whatever its user writes there, \<open>dealloc\<close> finds the address of the block and gives exactly that to \<open>kfree\<close>.
\<close>

theorem slab_alloc_dealloc:
  assumes align: "layout_align l = 2 ^ k" "3 < k" "k < 63" and size: "layout_size l = n" "n \<noteq> 0" "n mod 8 = 0"
    and block: "kmalloc (n + 2 ^ k) = a" "a \<noteq> 0" "a mod 8 = 0" "unat a + unat n + 2 ^ k \<le> 2 ^ 64"
  shows "\<exists>p m1. slab_alloc kmalloc l m = Some (p, m1) \<and> p mod 2 ^ k = 0 \<and> unat a \<le> unat p \<and> unat p + unat n \<le> unat a + unat (n + 2 ^ k) \<and>
    (\<forall>m2. (\<forall>x. \<not> (unat p \<le> unat x \<and> unat x < unat p + unat n) \<longrightarrow> m2 x = m1 x) \<longrightarrow> slab_dealloc p l m2 = Some a)"
proof -
  let ?p = "(a + 2 ^ k - 1) AND NOT (2 ^ k - 1)"
  note P = aligned_in_block [OF align(2,3) size(3) block(2-4)]
  have K: "unat (2 ^ k :: u64) = 2 ^ k" using align(3) of_nat_inverse [of "2 ^ k" "2 ^ k :: u64"] power_strict_increasing [of k 64 "2 :: nat"] by simp
  have "(2 :: nat) ^ 3 < 2 ^ k" by (rule power_strict_increasing) (use align in simp_all)
  then have big: "(8 :: u64) < 2 ^ k" "\<not> 2 ^ k \<le> (8 :: u64)" by (simp_all add: word_less_nat_alt word_le_nat_alt K)
  have A0: "0 < unat a" using block(2) by (simp add: unat_gt_0)
  have nk: "unat (n + 2 ^ k) = unat n + 2 ^ k" using block(4) A0 by (simp add: unat_word_ariths K)
  have m: "?p mod 2 ^ k = 0" by (simp only: word_unat_eq_iff unat_mod K P(1)) simp
  have m8: "(?p + n) mod 8 = 0" by (simp only: word_unat_eq_iff unat_mod unat_numeral_8 P(5)) simp
  have u: "unat (?p + n - a) = unat ?p + unat n - unat a" using P(2,4) by (simp add: unat_sub word_le_nat_alt)
  have "unat (n + 2 ^ k - 8) = unat n + 2 ^ k - 8" using big by (simp add: unat_sub word_le_nat_alt nk K word_less_nat_alt)
  then have "usize_in_block a (n + 2 ^ k) (?p + n)"
    using block(2) m8 P(2,3,4) big u by (auto simp: usize_in_block_def word_le_nat_alt word_less_nat_alt nk K)
  then have al: "slab_alloc kmalloc l m = Some (?p, write_usize (?p + n) a m)"
    by (simp only: slab_alloc_def Let_def size(1,2) align(1) diff_add_cancel big block(1) m if_False not_True_eq_False refl)
  have de: "slab_dealloc ?p l m2 = Some a"
    if w: "\<forall>x. \<not> (unat ?p \<le> unat x \<and> unat x < unat ?p + unat n) \<longrightarrow> m2 x = write_usize (?p + n) a m x" for m2
  proof -
    have "m2 x = write_usize (?p + n) a m x" if x: "x - (?p + n) < 8" for x
    proof -
      let ?j = "x - (?p + n)"
      have "x = (?p + n) + ?j" by simp
      moreover have "unat (?p + n) + unat ?j < 2 ^ 64" using x P(3,4) block(4) by (simp add: word_less_nat_alt)
      ultimately have "unat x = unat (?p + n) + unat ?j" by (metis unat_add_u64)
      then show ?thesis using w P(4) by simp
    qed
    then have "read_usize (?p + n) m2 = a" by (intro read_write_usize) blast
    then show ?thesis using size align(1) big m8 P(6) by (simp add: slab_dealloc_def)
  qed
  show ?thesis using al m P(2,3) nk de by (intro exI [of _ ?p] exI [of _ "write_usize (?p + n) a m"]) auto
qed

text \<open>A page-aligned allocation of 4096 bytes in a block at an odd multiple of 8.\<close>

theorem slab_alloc_dealloc_witness:
  "\<exists>p m1. slab_alloc (\<lambda>_. 0xffff888000001008) \<lparr>layout_size = 4096, layout_align = 4096\<rparr> (\<lambda>_. 0) = Some (p, m1) \<and> p mod 4096 = 0 \<and>
     slab_dealloc p \<lparr>layout_size = 4096, layout_align = 4096\<rparr> m1 = Some 0xffff888000001008"
proof -
  have "\<exists>p m1. slab_alloc (\<lambda>_. 0xffff888000001008) \<lparr>layout_size = 4096, layout_align = 4096\<rparr> (\<lambda>_. 0) = Some (p, m1) \<and> p mod 2 ^ 12 = 0 \<and>
      unat (0xffff888000001008 :: u64) \<le> unat p \<and> unat p + unat (4096 :: u64) \<le> unat (0xffff888000001008 :: u64) + unat (4096 + 2 ^ 12 :: u64) \<and>
      (\<forall>m2. (\<forall>x. \<not> (unat p \<le> unat x \<and> unat x < unat p + unat (4096 :: u64)) \<longrightarrow> m2 x = m1 x) \<longrightarrow>
         slab_dealloc p \<lparr>layout_size = 4096, layout_align = 4096\<rparr> m2 = Some 0xffff888000001008)"
    by (rule slab_alloc_dealloc) simp_all
  then obtain p m1 where p: "slab_alloc (\<lambda>_. 0xffff888000001008) \<lparr>layout_size = 4096, layout_align = 4096\<rparr> (\<lambda>_. 0) = Some (p, m1)"
    "p mod 2 ^ 12 = 0" "\<forall>m2. (\<forall>x. \<not> (unat p \<le> unat x \<and> unat x < unat p + unat (4096 :: u64)) \<longrightarrow> m2 x = m1 x) \<longrightarrow>
         slab_dealloc p \<lparr>layout_size = 4096, layout_align = 4096\<rparr> m2 = Some 0xffff888000001008"
    by (elim exE conjE) (rule that)
  have "slab_dealloc p \<lparr>layout_size = 4096, layout_align = 4096\<rparr> m1 = Some 0xffff888000001008" by (rule p(3) [rule_format]) simp
  moreover have "(2 :: u64) ^ 12 = 4096" by simp
  then have "p mod 4096 = 0" using p(2) by (simp only:)
  ultimately show ?thesis using p(1) by (intro exI [of _ p] exI [of _ m1] conjI)
qed

text \<open>
  \<open>alloc\<close> must return the null pointer when there is no memory. With a large alignment it does not: it writes the null pointer's
  \<open>header\<close> to an address near 0. A size that is no multiple of eight makes the access to the header misaligned.
\<close>

theorem slab_alloc_faults:
  assumes "layout_align l = 2 ^ k" "3 < k" "k < 63"
    and "kmalloc (layout_size l + 2 ^ k) = 0 \<or> layout_size l mod 8 \<noteq> 0"
  shows "slab_alloc kmalloc l m = None"
proof -
  have K: "unat (2 ^ k :: u64) = 2 ^ k" using assms(3) of_nat_inverse [of "2 ^ k" "2 ^ k :: u64"] power_strict_increasing [of k 64 "2 :: nat"] by simp
  have "(2 :: nat) ^ 3 < 2 ^ k" by (rule power_strict_increasing) (use assms in simp_all)
  then have big: "(8 :: u64) < 2 ^ k" "\<not> 2 ^ k \<le> (8 :: u64)" by (simp_all add: word_less_nat_alt word_le_nat_alt K)
  let ?a = "kmalloc (layout_size l + 2 ^ k)"
  let ?p = "(?a + 2 ^ k - 1) AND NOT (2 ^ k - 1)"
  have p: "take_bit 3 ?p = 0" unfolding slab_align_down using assms(2) by (auto intro!: bit_word_eqI simp: bit_simps)
  have "(x + y) mod 8 = y mod 8" if "take_bit 3 x = 0" for x y :: u64
  proof -
    have "unat (take_bit 3 x) = unat x mod 8" by (simp add: unat_mod take_bit_eq_mod)
    then have "(unat x + unat y) mod 8 = unat y mod 8" using that by (simp add: mod_add_eq [symmetric] del: mod_add_eq)
    moreover have "unat (x + y) mod 8 = (unat x + unat y) mod 8" by (simp add: unat_word_ariths mod_mod_cancel)
    ultimately show ?thesis by (simp only: word_unat_eq_iff unat_mod unat_numeral_8)
  qed
  from this [OF p] have "(?p + layout_size l) mod 8 = layout_size l mod 8" .
  then have "\<not> usize_in_block ?a (layout_size l + 2 ^ k) (?p + layout_size l)" using assms(4) unfolding usize_in_block_def by metis
  then show ?thesis
    by (simp only: slab_alloc_def Let_def assms(1) diff_add_cancel big if_False not_False_eq_True if_True if_cancel)
qed

theorem slab_alloc_faults_witness:
  "slab_alloc (\<lambda>_. 0) \<lparr>layout_size = 4096, layout_align = 4096\<rparr> (\<lambda>_. 0) = None \<and>
   slab_alloc (\<lambda>_. 0xffff888000001000) \<lparr>layout_size = 20, layout_align = 16\<rparr> (\<lambda>_. 0) = None"
  using slab_alloc_faults [of "\<lparr>layout_size = 4096, layout_align = 4096\<rparr>" 12 "\<lambda>_. 0" "\<lambda>_. 0"]
    slab_alloc_faults [of "\<lparr>layout_size = 20, layout_align = 16\<rparr>" 4 "\<lambda>_. 0xffff888000001000" "\<lambda>_. 0"] by simp

end
