(* ===== verification/FB_Report.thy ===== *)
theory FB_Report
  imports FB_Ftl FB_Ftl_Inv
begin

text \<open>
  \<open>print_blk_mgmt\<close> (\<open>ftl_algorithm_page_mapping.c\<close>), which the garbage collector calls when it finds no block: the values it prints,
  without the text around them. The callers in \<open>FB_Gc\<close> and \<open>FB_Bgc\<close> leave the call out, as it changes nothing.
\<close>

text \<open>One line: the free pages of the active block, if there is one, whether there is a GC block, and the lengths of the lists.\<close>

record blk_status =
  bs_bus :: u8
  bs_chip :: u8
  bs_act :: "u32 option"
  bs_gc :: bool
  bs_free :: u32
  bs_used :: u32
  bs_dirt :: u32

definition blk_status :: "fb_context_t \<Rightarrow> u8 \<Rightarrow> u8 \<Rightarrow> blk_status option" where
  "blk_status fb chip bus = do {
     let s = get_ssd_inf fb;
     let chip_info = get_chip_info (ucast bus) (ucast chip);
     active_block \<leftarrow> get_curr_active_block fb (ucast bus) (ucast chip);
     act \<leftarrow> (case active_block of None \<Rightarrow> Some None | Some p \<Rightarrow> map_option Some (get_nr_free_pgs s p));
     gc_block \<leftarrow> get_curr_gc_block fb (ucast bus) (ucast chip);
     free \<leftarrow> get_nr_free_blks_in_chip s chip_info;
     used \<leftarrow> get_nr_used_blks_in_chip s chip_info;
     dirt \<leftarrow> get_nr_dirt_blks_in_chip s chip_info;
     Some \<lparr>bs_bus = bus, bs_chip = chip, bs_act = act, bs_gc = (gc_block \<noteq> None),
       bs_free = free, bs_used = used, bs_dirt = dirt\<rparr> }"

definition print_blk_mgmt :: "fb_context_t \<Rightarrow> ((u8 \<times> u8) \<times> blk_status list) option" where
  "print_blk_mgmt fb = do {
     lines \<leftarrow> foldM (\<lambda>chip lines. foldM (\<lambda>bus lines. do {
         l \<leftarrow> blk_status fb chip bus; Some (lines @ [l]) }) (words_below NUM_BUSES) lines)
       (words_below NUM_CHIPS_PER_BUS) [];
     Some (get_next_bus_chip fb, lines) }"

text \<open>A line that accounts for all blocks of its chip.\<close>

definition complete_status :: "blk_status \<Rightarrow> bool" where
  "complete_status l \<longleftrightarrow>
     unat (bs_free l) + unat (bs_used l) + unat (bs_dirt l) + (if bs_act l = None then 0 else 1) + (if bs_gc l then 1 else 0)
       = NUM_BLOCKS_PER_CHIP \<and>
     (case bs_act l of None \<Rightarrow> True | Some n \<Rightarrow> 0 < n \<and> n \<le> NUM_PAGES_PER_BLOCK)"

lemma u8_below: "words_below NUM_BUSES = [0 :: u8]" "words_below NUM_CHIPS_PER_BUS = [0 :: u8, 1]"
  by (simp_all add: words_below_def geometry_simps upt_rec)

lemma blk_status_complete:
  assumes ok: "ftl_ok fb" and v: "valid_chip (ucast bus) (ucast chip)"
  shows "\<exists>l. blk_status fb chip bus = Some l \<and> bs_bus l = bus \<and> bs_chip l = chip \<and> complete_status l"
proof -
  let ?b = "ucast bus :: u32" and ?c = "ucast chip :: u32"
  let ?ci = "chip_of fb ?b ?c" and ?a = "act_of fb ?b ?c" and ?g = "gc_of fb ?b ?c"
  have s: "sizes_ok fb" and p: "chip_part ?b ?c ?ci ?a ?g" and r: "roles_ok (blk_of fb) {} ?ci ?a ?g"
    and wf: "\<And>p. valid_blk p \<Longrightarrow> blk_wf 0 (blk_of fb p)"
    using ok v by (auto simp: ftl_inv_def)
  have m: "mset (roles ?ci ?a ?g) = mset (map (Blk ?b ?c) (words_below NUM_BLOCKS_PER_CHIP))" using p by (simp add: chip_part_def)
  then have len: "length (free_blks ?ci) + length (used_blks ?ci) + length (dirt_blks ?ci) +
      (if ?a = None then 0 else 1) + (if ?g = None then 0 else 1) = 171"
    using mset_eq_length [OF m] by (simp add: roles_def olist_def NUM_BLOCKS_PER_CHIP_def split: option.splits)
  have act: "valid_blk q \<and> 0 < nr_free_pages (blk_of fb q)" if "?a = Some q" for q
  proof -
    have "q \<in> set (roles ?ci ?a ?g)" using that by (simp add: roles_def olist_def)
    then have "q \<in> Blk ?b ?c ` {w. w < NUM_BLOCKS_PER_CHIP}" using mset_eq_setD [OF m] by simp
    then show ?thesis using v r that by (auto simp: roles_ok_def)
  qed
  have le: "n \<le> NUM_PAGES_PER_BLOCK" if "?a = Some q" "n = nr_free_pages (blk_of fb q)" for q n
    using wf [of q] act [OF that(1)] that(2) by (simp add: blk_wf_def word_le_nat_alt NUM_PAGES_PER_BLOCK_def)
  show ?thesis
    using get_curr_active_block_eq [OF s v] get_curr_gc_block_eq [OF s v] v act le len p
    by (cases ?a) (auto simp: blk_status_def complete_status_def get_chip_info_def get_nr_free_pgs_def get_nr_free_blks_in_chip_def
      get_nr_used_blks_in_chip_def get_nr_dirt_blks_in_chip_def ld_chip_def ld_blk_def get_ssd_inf_def Let_def chip_part_def
      unat_of_nat_u32 NUM_BLOCKS_PER_CHIP_def)
qed

text \<open>
  While the invariant of the FTL holds, the status report follows no wild pointer and each of its lines accounts for
  every block of its chip: free, used and dirty blocks, the active block, which has free pages, and the GC block add up to 171.
\<close>

theorem status_report_complete:
  assumes "ftl_ok fb"
  shows "\<exists>l0 l1. print_blk_mgmt fb = Some (get_next_bus_chip fb, [l0, l1]) \<and> complete_status l0 \<and> complete_status l1 \<and>
    bs_chip l0 = 0 \<and> bs_chip l1 = 1"
proof -
  have "valid_chip (ucast (0 :: u8)) (ucast (0 :: u8))" "valid_chip (ucast (0 :: u8)) (ucast (1 :: u8))"
    by (simp_all add: valid_chip_cases)
  with blk_status_complete [OF assms] obtain l0 l1 where
    "blk_status fb 0 0 = Some l0" "blk_status fb 1 0 = Some l1" "complete_status l0" "complete_status l1" "bs_chip l0 = 0" "bs_chip l1 = 1"
    by metis
  then show ?thesis by (simp add: print_blk_mgmt_def u8_below)
qed

end
