(* ===== verification/FB_Utlist_Ops.thy ===== *)
theory FB_Utlist_Ops
  imports FB_Utlist
begin

text \<open>
  The other operations of \<open>uthash/utlist.h\<close>: the singly linked lists (\<open>LL_\<close>), the rest of the
  doubly linked ones (\<open>DL_\<close>) and the circular doubly linked ones (\<open>CDL_\<close>). A node has the fields
  \<open>prev\<close> and \<open>next\<close> of the record \<open>dlist\<close>; the \<open>LL_\<close> macros never touch \<open>prev\<close>. \<open>ll_rep\<close>,
  \<open>dl_rep\<close> and \<open>cdl_rep\<close> say which list of nodes a structure links, and every operation is shown to
  be the operation on that list. \<open>None\<close> is following a null pointer or a loop that does not end.

  \<open>LL_APPEND_VS2008\<close> and \<open>LL_DELETE_VS2008\<close> are the replacements for compilers without
  \<open>decltype\<close>; they are shown to give the lists of the macros they replace.
\<close>

section \<open>Linked nodes\<close>

fun linked :: "bool \<Rightarrow> 'n dlist \<Rightarrow> 'n list \<Rightarrow> bool" where
  "linked dbl d [] \<longleftrightarrow> True"
| "linked dbl d [x] \<longleftrightarrow> True"
| "linked dbl d (x # y # zs) \<longleftrightarrow>
     dl_next d x = Some y \<and> (dbl \<longrightarrow> dl_prev d y = Some x) \<and> linked dbl d (y # zs)"

definition list_last :: "'n list \<Rightarrow> 'n option" where
  "list_last xs = (if xs = [] then None else Some (last xs))"

lemma list_last_simps [simp]:
  "list_last [] = None" "list_last (xs @ [x]) = Some x" "xs \<noteq> [] \<Longrightarrow> list_last xs = Some (last xs)"
  by (simp_all add: list_last_def)

lemma list_head_append: "xs \<noteq> [] \<Longrightarrow> list_head (xs @ ys) = list_head xs"
  by (cases xs) auto

lemma list_head_hd: "xs \<noteq> [] \<Longrightarrow> list_head xs = Some (hd xs)"
  by (cases xs) auto

lemma linked_Cons:
  "linked dbl d (x # ys) \<longleftrightarrow> linked dbl d ys \<and>
     (ys \<noteq> [] \<longrightarrow> dl_next d x = Some (hd ys) \<and> (dbl \<longrightarrow> dl_prev d (hd ys) = Some x))"
  by (cases ys) auto

lemma linked_append:
  "linked dbl d (xs @ ys) \<longleftrightarrow> linked dbl d xs \<and> linked dbl d ys \<and>
     (xs \<noteq> [] \<longrightarrow> ys \<noteq> [] \<longrightarrow>
        dl_next d (last xs) = Some (hd ys) \<and> (dbl \<longrightarrow> dl_prev d (hd ys) = Some (last xs)))"
  by (induction xs) (auto simp: linked_Cons neq_Nil_conv)

lemma linked_snoc:
  "linked dbl d (xs @ [e]) \<longleftrightarrow> linked dbl d xs \<and>
     (xs \<noteq> [] \<longrightarrow> dl_next d (last xs) = Some e \<and> (dbl \<longrightarrow> dl_prev d e = Some (last xs)))"
  by (simp add: linked_append)

lemma linked_chain: "linked True d xs \<longleftrightarrow> chain d xs"
  by (induction d xs rule: chain.induct) auto

lemma linked_cong:
  assumes "linked dbl d xs"
    and "\<And>x. x \<in> set (butlast xs) \<Longrightarrow> dl_next d' x = dl_next d x"
    and "\<And>x. dbl \<Longrightarrow> x \<in> set (tl xs) \<Longrightarrow> dl_prev d' x = dl_prev d x"
  shows "linked dbl d' xs"
  using assms by (induction dbl d xs rule: linked.induct) (auto split: if_splits)

text \<open>Two linked parts with a node between them, in a structure that keeps the inner links.\<close>

lemma linked_insert:
  assumes "linked dbl d ys" "linked dbl d zs"
    and "\<And>x. x \<in> set (butlast ys) \<union> set (butlast zs) \<Longrightarrow> dl_next d' x = dl_next d x"
    and "\<And>x. dbl \<Longrightarrow> x \<in> set (tl ys) \<union> set (tl zs) \<Longrightarrow> dl_prev d' x = dl_prev d x"
    and "ys \<noteq> [] \<Longrightarrow> dl_next d' (last ys) = Some a \<and> (dbl \<longrightarrow> dl_prev d' a = Some (last ys))"
    and "zs \<noteq> [] \<Longrightarrow> dl_next d' a = Some (hd zs) \<and> (dbl \<longrightarrow> dl_prev d' (hd zs) = Some a)"
  shows "linked dbl d' (ys @ a # zs)"
proof -
  have "linked dbl d' ys" by (rule linked_cong [OF assms(1)]) (use assms(3,4) in auto)
  moreover have "linked dbl d' zs" by (rule linked_cong [OF assms(2)]) (use assms(3,4) in auto)
  ultimately show ?thesis using assms(5,6) by (simp add: linked_append linked_Cons)
qed

text \<open>Two linked parts joined.\<close>

lemma linked_join:
  assumes "linked dbl d ys" "linked dbl d zs"
    and "\<And>x. x \<in> set (butlast ys) \<union> set (butlast zs) \<Longrightarrow> dl_next d' x = dl_next d x"
    and "\<And>x. dbl \<Longrightarrow> x \<in> set (tl ys) \<union> set (tl zs) \<Longrightarrow> dl_prev d' x = dl_prev d x"
    and "ys \<noteq> [] \<Longrightarrow> zs \<noteq> [] \<Longrightarrow>
      dl_next d' (last ys) = Some (hd zs) \<and> (dbl \<longrightarrow> dl_prev d' (hd zs) = Some (last ys))"
  shows "linked dbl d' (ys @ zs)"
proof -
  have "linked dbl d' ys" by (rule linked_cong [OF assms(1)]) (use assms(3,4) in auto)
  moreover have "linked dbl d' zs" by (rule linked_cong [OF assms(2)]) (use assms(3,4) in auto)
  ultimately show ?thesis using assms(5) by (simp add: linked_append)
qed

text \<open>Where the nodes of a distinct list are, for the frames of these two lemmas.\<close>

lemma in_butlast: "distinct xs \<Longrightarrow> x \<in> set (butlast xs) \<longleftrightarrow> x \<in> set xs \<and> x \<noteq> last xs"
  by (cases xs rule: rev_cases) auto

lemma in_tl: "distinct xs \<Longrightarrow> x \<in> set (tl xs) \<longleftrightarrow> x \<in> set xs \<and> x \<noteq> hd xs"
  by (cases xs) auto

lemma last_disjoint:
  assumes "xs \<noteq> []" "set xs \<inter> A = {}"
  shows "last xs \<in> set xs" "last xs \<notin> A" "a \<in> A \<Longrightarrow> last xs \<noteq> a" "a \<in> A \<Longrightarrow> a \<noteq> last xs"
  using assms last_in_set by blast+

text \<open>
  A walk along \<open>g\<close> visits the nodes of a list; it may end there (\<open>walks_to_end\<close>) or go on.
\<close>

fun walks :: "('n \<Rightarrow> 'n option) \<Rightarrow> 'n list \<Rightarrow> bool" where
  "walks g [] \<longleftrightarrow> True"
| "walks g (x # xs) \<longleftrightarrow> (xs = [] \<or> g x = list_head xs) \<and> walks g xs"

fun walks_to_end :: "('n \<Rightarrow> 'n option) \<Rightarrow> 'n list \<Rightarrow> bool" where
  "walks_to_end g [] \<longleftrightarrow> True"
| "walks_to_end g (x # xs) \<longleftrightarrow> g x = list_head xs \<and> walks_to_end g xs"

lemma walks_cong: "walks g xs \<Longrightarrow> (\<And>x. x \<in> set xs \<Longrightarrow> g' x = g x) \<Longrightarrow> walks g' xs"
  by (induction xs) auto

lemma walks_to_end_cong:
  "walks_to_end g xs \<Longrightarrow> (\<And>x. x \<in> set xs \<Longrightarrow> g' x = g x) \<Longrightarrow> walks_to_end g' xs"
  by (induction xs) auto

lemma walks_to_end_append:
  "walks_to_end g (xs @ ys) \<Longrightarrow> walks g xs \<and> walks_to_end g ys"
proof (induction xs)
  case (Cons x xs)
  then show ?case by (cases xs) auto
qed simp

section \<open>Singly linked structures\<close>

definition ll_rep :: "'n dlist \<Rightarrow> 'n list \<Rightarrow> bool" where
  "ll_rep d xs \<longleftrightarrow> distinct xs \<and> linked False d xs \<and> dl_head d = list_head xs \<and>
     (xs \<noteq> [] \<longrightarrow> dl_next d (last xs) = None)"

lemma ll_rep_at:
  assumes "ll_rep d (ys @ x # zs)"
  shows "distinct (ys @ x # zs)" "linked False d ys" "linked False d zs" "linked False d (x # zs)"
    "dl_next d x = list_head zs" "dl_head d = list_head (ys @ [x])"
    "ys \<noteq> [] \<Longrightarrow> dl_next d (last ys) = Some x" "zs \<noteq> [] \<Longrightarrow> dl_next d (last zs) = None"
  using assms by (cases zs; force simp: ll_rep_def linked_append linked_Cons list_head_hd hd_append)+

section \<open>Operations of singly linked lists\<close>

definition LL_PREPEND :: "'n dlist \<Rightarrow> 'n \<Rightarrow> 'n dlist" where
  "LL_PREPEND d add =
     (let d = d\<lparr>dl_next := (dl_next d)(add := dl_head d)\<rparr>
      in d\<lparr>dl_head := Some add\<rparr>)"

text \<open>\<open>while (_tmp->next) { _tmp = _tmp->next; }\<close>, and the same that also stops before \<open>del\<close>.\<close>

partial_function (option) ll_end :: "('n \<Rightarrow> 'n option) \<Rightarrow> 'n \<Rightarrow> 'n option" where
  "ll_end nxt tmp = (case nxt tmp of None \<Rightarrow> Some tmp | Some y \<Rightarrow> ll_end nxt y)"

declare ll_end.simps [code]

partial_function (option) ll_before :: "('n \<Rightarrow> 'n option) \<Rightarrow> 'n \<Rightarrow> 'n \<Rightarrow> 'n option" where
  "ll_before nxt del tmp =
     (case nxt tmp of
        None \<Rightarrow> Some tmp
      | Some y \<Rightarrow> if y \<noteq> del then ll_before nxt del y else Some tmp)"

declare ll_before.simps [code]

definition LL_CONCAT :: "'n dlist \<Rightarrow> 'n option \<Rightarrow> 'n dlist option" where
  "LL_CONCAT d head2 =
     (case dl_head d of
        Some h \<Rightarrow> do {
          tmp \<leftarrow> ll_end (dl_next d) h;
          Some (d\<lparr>dl_next := (dl_next d)(tmp := head2)\<rparr>) }
      | None \<Rightarrow> Some (d\<lparr>dl_head := head2\<rparr>))"

definition LL_APPEND :: "'n dlist \<Rightarrow> 'n \<Rightarrow> 'n dlist option" where
  "LL_APPEND d add =
     (let d = d\<lparr>dl_next := (dl_next d)(add := None)\<rparr>
      in case dl_head d of
           Some h \<Rightarrow> do {
             tmp \<leftarrow> ll_end (dl_next d) h;
             Some (d\<lparr>dl_next := (dl_next d)(tmp := Some add)\<rparr>) }
         | None \<Rightarrow> Some (d\<lparr>dl_head := Some add\<rparr>))"

definition LL_DELETE :: "'n dlist \<Rightarrow> 'n \<Rightarrow> 'n dlist option" where
  "LL_DELETE d del =
     (if dl_head d = Some del then Some (d\<lparr>dl_head := dl_next d del\<rparr>)
      else do {
        h \<leftarrow> dl_head d;
        tmp \<leftarrow> ll_before (dl_next d) del h;
        Some (if dl_next d tmp \<noteq> None
              then d\<lparr>dl_next := (dl_next d)(tmp := dl_next d del)\<rparr> else d) })"

text \<open>The loop of \<open>LL_APPEND_VS2008\<close> uses \<open>add->next\<close> as its variable.\<close>

partial_function (option) ll_append_loop :: "'n \<Rightarrow> 'n dlist \<Rightarrow> 'n dlist option" where
  "ll_append_loop add d =
     (case dl_next d add of
        None \<Rightarrow> None
      | Some t \<Rightarrow>
          (case dl_next d t of
             None \<Rightarrow> Some d
           | Some u \<Rightarrow> ll_append_loop add (d\<lparr>dl_next := (dl_next d)(add := Some u)\<rparr>)))"

declare ll_append_loop.simps [code]

definition LL_APPEND_VS2008 :: "'n dlist \<Rightarrow> 'n \<Rightarrow> 'n dlist option" where
  "LL_APPEND_VS2008 d add = do {
     d \<leftarrow> (case dl_head d of
        Some h \<Rightarrow> do {
          d \<leftarrow> ll_append_loop add (d\<lparr>dl_next := (dl_next d)(add := Some h)\<rparr>);
          t \<leftarrow> dl_next d add;
          Some (d\<lparr>dl_next := (dl_next d)(t := Some add)\<rparr>) }
      | None \<Rightarrow> Some (d\<lparr>dl_head := Some add\<rparr>));
     Some (d\<lparr>dl_next := (dl_next d)(add := None)\<rparr>) }"

text \<open>\<open>LL_DELETE_VS2008\<close> uses the head as its variable and restores it.\<close>

partial_function (option) ll_delete_loop :: "'n \<Rightarrow> 'n dlist \<Rightarrow> 'n dlist option" where
  "ll_delete_loop del d =
     (case dl_head d of
        None \<Rightarrow> None
      | Some h \<Rightarrow>
          (case dl_next d h of
             None \<Rightarrow> Some d
           | Some y \<Rightarrow>
               if y \<noteq> del then ll_delete_loop del (d\<lparr>dl_head := Some y\<rparr>) else Some d))"

declare ll_delete_loop.simps [code]

definition LL_DELETE_VS2008 :: "'n dlist \<Rightarrow> 'n \<Rightarrow> 'n dlist option" where
  "LL_DELETE_VS2008 d del =
     (if dl_head d = Some del then Some (d\<lparr>dl_head := dl_next d del\<rparr>)
      else do {
        let tmp = dl_head d;
        d \<leftarrow> ll_delete_loop del d;
        h \<leftarrow> dl_head d;
        let d = (if dl_next d h \<noteq> None
                 then d\<lparr>dl_next := (dl_next d)(h := dl_next d del)\<rparr> else d);
        Some (d\<lparr>dl_head := tmp\<rparr>) })"

text \<open>\<open>LL_FOREACH\<close> with a body that leaves the list alone, and the searches, which break out of it.\<close>

partial_function (option) LL_FOREACH :: "('n \<Rightarrow> 'n option) \<Rightarrow> ('n \<Rightarrow> 'a \<Rightarrow> 'a) \<Rightarrow> 'n option \<Rightarrow> 'a \<Rightarrow> 'a option"
  where
  "LL_FOREACH nxt body el acc =
     (case el of
        None \<Rightarrow> Some acc
      | Some x \<Rightarrow> LL_FOREACH nxt body (nxt x) (body x acc))"

declare LL_FOREACH.simps [code]

partial_function (option) ll_find :: "('n \<Rightarrow> 'n option) \<Rightarrow> ('n \<Rightarrow> bool) \<Rightarrow> 'n option \<Rightarrow> 'n option option"
  where
  "ll_find nxt found out =
     (case out of
        None \<Rightarrow> Some None
      | Some x \<Rightarrow> if found x then Some (Some x) else ll_find nxt found (nxt x))"

declare ll_find.simps [code]

definition LL_COUNT :: "'n dlist \<Rightarrow> nat option" where
  "LL_COUNT d = LL_FOREACH (dl_next d) (\<lambda>el counter. counter + 1) (dl_head d) 0"

definition LL_SEARCH_SCALAR :: "'n dlist \<Rightarrow> ('n \<Rightarrow> 'v) \<Rightarrow> 'v \<Rightarrow> 'n option option" where
  "LL_SEARCH_SCALAR d field val = ll_find (dl_next d) (\<lambda>out. field out = val) (dl_head d)"

definition LL_SEARCH :: "'n dlist \<Rightarrow> 'e \<Rightarrow> ('n \<Rightarrow> 'e \<Rightarrow> int) \<Rightarrow> 'n option option" where
  "LL_SEARCH d elt cmp = ll_find (dl_next d) (\<lambda>out. cmp out elt = 0) (dl_head d)"

text \<open>
  \<open>FOREACH_SAFE\<close> reads the next node before the body runs on the current one, so the body may
  delete it. The state \<open>s\<close> is what the body changes, the list with it.
\<close>

partial_function (option) LL_FOREACH_SAFE ::
    "('s \<Rightarrow> 'n \<Rightarrow> 'n option) \<Rightarrow> ('n \<Rightarrow> 's \<Rightarrow> 's option) \<Rightarrow> 'n option \<Rightarrow> 's \<Rightarrow> 's option" where
  "LL_FOREACH_SAFE nxt body el s =
     (case el of
        None \<Rightarrow> Some s
      | Some x \<Rightarrow> Option.bind (body x s) (\<lambda>s'. LL_FOREACH_SAFE nxt body (nxt s x) s'))"

declare LL_FOREACH_SAFE.simps [code]

text \<open>Replacing an element, and inserting before one.\<close>

definition LL_REPLACE_ELEM :: "'n dlist \<Rightarrow> 'n \<Rightarrow> 'n \<Rightarrow> 'n dlist option" where
  "LL_REPLACE_ELEM d el add =
     (let d = d\<lparr>dl_next := (dl_next d)(add := dl_next d el)\<rparr>
      in if dl_head d = Some el then Some (d\<lparr>dl_head := Some add\<rparr>)
         else do {
           h \<leftarrow> dl_head d;
           tmp \<leftarrow> ll_before (dl_next d) el h;
           Some (if dl_next d tmp \<noteq> None
                 then d\<lparr>dl_next := (dl_next d)(tmp := Some add)\<rparr> else d) })"

definition LL_PREPEND_ELEM :: "'n dlist \<Rightarrow> 'n \<Rightarrow> 'n \<Rightarrow> 'n dlist option" where
  "LL_PREPEND_ELEM d el add =
     (let d = d\<lparr>dl_next := (dl_next d)(add := Some el)\<rparr>
      in if dl_head d = Some el then Some (d\<lparr>dl_head := Some add\<rparr>)
         else do {
           h \<leftarrow> dl_head d;
           tmp \<leftarrow> ll_before (dl_next d) el h;
           Some (if dl_next d tmp \<noteq> None
                 then d\<lparr>dl_next := (dl_next d)(tmp := Some add)\<rparr> else d) })"

text \<open>The two walks.\<close>

lemma ll_end_walk:
  "linked dbl d (x # xs) \<Longrightarrow> dl_next d (last (x # xs)) = None \<Longrightarrow>
   ll_end (dl_next d) x = Some (last (x # xs))"
proof (induction xs arbitrary: x)
  case Nil
  then show ?case by (subst ll_end.simps) simp
next
  case (Cons y ys)
  then show ?case by (subst ll_end.simps) simp
qed

lemma ll_before_walk:
  "linked dbl d (x # xs @ [y]) \<Longrightarrow> y \<notin> set xs \<Longrightarrow> ll_before (dl_next d) y x = Some (last (x # xs))"
proof (induction xs arbitrary: x)
  case Nil
  then show ?case by (subst ll_before.simps) simp
next
  case (Cons z zs)
  then show ?case by (subst ll_before.simps) auto
qed

lemma ll_before_at:
  assumes "ll_rep d (ys @ x # zs)" "ys \<noteq> []"
  shows "dl_head d = Some (hd ys)" "hd ys \<noteq> x" "ll_before (dl_next d) x (hd ys) = Some (last ys)"
proof -
  obtain y us where ys: "ys = y # us" using assms(2) by (cases ys) auto
  note at = ll_rep_at [OF assms(1)]
  show "dl_head d = Some (hd ys)" "hd ys \<noteq> x" using at ys by auto
  have "linked False d (ys @ [x])" using at(2,7) assms(2) by (simp add: linked_snoc)
  then show "ll_before (dl_next d) x (hd ys) = Some (last ys)"
    using ll_before_walk [of False d y us x] at(1) ys by simp
qed

lemma ll_before_upd:
  assumes "ll_rep d (ys @ x # zs)" "ys \<noteq> []" "a \<notin> set ys"
  shows "ll_before ((dl_next d)(a := v)) x (hd ys) = Some (last ys)"
proof -
  let ?d = "d\<lparr>dl_next := (dl_next d)(a := v)\<rparr>"
  obtain y us where ys: "ys = y # us" using assms(2) by (cases ys) auto
  note at = ll_rep_at [OF assms(1)]
  have "linked False d (ys @ [x])" using at(2,7) assms(2) by (simp add: linked_snoc)
  then have "linked False ?d (ys @ [x])"
    by (rule linked_cong) (use assms(3) in \<open>auto simp: butlast_append split: if_splits\<close>)
  then show ?thesis using ll_before_walk [of False ?d y us x] at(1) ys by simp
qed

text \<open>What the operations do to the list.\<close>

lemma LL_PREPEND_rep:
  assumes "ll_rep d xs" "a \<notin> set xs"
  shows "ll_rep (LL_PREPEND d a) (a # xs)"
proof -
  have "linked False (LL_PREPEND d a) xs"
    by (rule linked_cong [of False d])
      (use assms in \<open>auto simp: ll_rep_def LL_PREPEND_def Let_def dest: in_set_butlastD\<close>)
  then show ?thesis
    using assms by (auto simp: ll_rep_def LL_PREPEND_def Let_def linked_Cons list_head_hd)
qed

lemma LL_CONCAT_rep:
  assumes "ll_rep d xs" "ll_rep (d\<lparr>dl_head := head2\<rparr>) ys" "set xs \<inter> set ys = {}"
  shows "\<exists>d'. LL_CONCAT d head2 = Some d' \<and> ll_rep d' (xs @ ys)"
proof (cases "xs = []")
  case True
  then show ?thesis using assms by (auto simp: ll_rep_def LL_CONCAT_def)
next
  case False
  let ?d' = "d\<lparr>dl_next := (dl_next d)(last xs := head2)\<rparr>"
  have "dl_head d = Some (hd xs)" "ll_end (dl_next d) (hd xs) = Some (last xs)"
    using assms(1) False ll_end_walk [of False d "hd xs" "tl xs"]
    by (auto simp: ll_rep_def list_head_hd)
  then have eq: "LL_CONCAT d head2 = Some ?d'" by (simp add: LL_CONCAT_def)
  have y: "linked False d ys" "distinct ys" "head2 = list_head ys"
    "ys \<noteq> [] \<Longrightarrow> dl_next d (last ys) = None"
    using assms(2) linked_cong [of False "d\<lparr>dl_head := head2\<rparr>" ys d] by (auto simp: ll_rep_def)
  have x: "linked False d xs" "distinct xs" using assms(1) by (auto simp: ll_rep_def)
  have l: "last xs \<in> set xs" "last xs \<notin> set ys" "ys \<noteq> [] \<Longrightarrow> last ys \<noteq> last xs"
    using last_disjoint [OF False assms(3)] last_in_set [of ys] by blast+
  have "linked False ?d' (xs @ ys)"
    by (rule linked_join [OF x(1) y(1)])
      (use x y l in \<open>auto simp: in_butlast list_head_hd dest: in_set_butlastD\<close>)
  then have "ll_rep ?d' (xs @ ys)"
    using assms(1,3) x y l False by (cases "ys = []") (auto simp: ll_rep_def list_head_append)
  with eq show ?thesis by blast
qed

lemma LL_APPEND_rep:
  assumes "ll_rep d xs" "a \<notin> set xs"
  shows "\<exists>d'. LL_APPEND d a = Some d' \<and> ll_rep d' (xs @ [a])"
proof -
  let ?d = "d\<lparr>dl_next := (dl_next d)(a := None)\<rparr>"
  have "linked False ?d xs"
    by (rule linked_cong [of False d]) (use assms in \<open>auto simp: ll_rep_def dest: in_set_butlastD\<close>)
  then have "ll_rep ?d xs" using assms by (auto simp: ll_rep_def)
  moreover have "ll_rep (?d\<lparr>dl_head := Some a\<rparr>) [a]" by (simp add: ll_rep_def)
  ultimately have "\<exists>d'. LL_CONCAT ?d (Some a) = Some d' \<and> ll_rep d' (xs @ [a])"
    using assms(2) by (intro LL_CONCAT_rep) auto
  then show ?thesis by (simp add: LL_APPEND_def LL_CONCAT_def Let_def)
qed

lemma LL_DELETE_at:
  assumes "ll_rep d (ys @ x # zs)"
  shows "\<exists>d'. LL_DELETE d x = Some d' \<and> ll_rep d' (ys @ zs)"
proof (cases "ys = []")
  case True
  then show ?thesis
    using assms ll_rep_at [OF assms] by (auto simp: LL_DELETE_def ll_rep_def linked_cong)
next
  case False
  note at = ll_rep_at [OF assms] and before = ll_before_at [OF assms False]
  let ?d' = "d\<lparr>dl_next := (dl_next d)(last ys := dl_next d x)\<rparr>"
  have eq: "LL_DELETE d x = Some ?d'"
    using before at(7) False by (auto simp: LL_DELETE_def)
  have l: "last ys \<in> set ys" "last ys \<notin> set zs"
    using last_disjoint [OF False, of "set zs"] at(1) by auto
  have "linked False ?d' (ys @ zs)"
    by (rule linked_join [OF at(2,3)])
      (use at l False in \<open>auto simp: in_butlast list_head_hd dest: in_set_butlastD\<close>)
  then have "ll_rep ?d' (ys @ zs)"
    using at l False by (cases "zs = []") (auto simp: ll_rep_def list_head_append)
  with eq show ?thesis by blast
qed

text \<open>A node put between two parts of a list.\<close>

lemma ll_rep_insert:
  assumes "linked False d ys" "linked False d zs" "distinct (ys @ a # zs)"
    and "zs \<noteq> [] \<Longrightarrow> dl_next d (last zs) = None"
    and "dl_head d' = list_head (ys @ [a])" "dl_next d' a = list_head zs"
    and "ys \<noteq> [] \<Longrightarrow> dl_next d' (last ys) = Some a"
    and "\<And>y. y \<in> set (ys @ zs) \<Longrightarrow> ys = [] \<or> y \<noteq> last ys \<Longrightarrow> dl_next d' y = dl_next d y"
  shows "ll_rep d' (ys @ a # zs)"
proof -
  have l: "ys \<noteq> [] \<Longrightarrow> last ys \<notin> set zs" "zs \<noteq> [] \<Longrightarrow> last zs \<in> set zs"
    using last_disjoint [of ys "set zs"] assms(3) by auto
  have nx: "y \<in> set (butlast ys) \<union> set zs \<Longrightarrow> dl_next d' y = dl_next d y" for y
    using assms(3,8) l(1) by (auto simp: in_butlast)
  have "linked False d' (ys @ a # zs)"
    by (rule linked_insert [OF assms(1,2)])
      (use assms(6,7) nx in \<open>auto simp: list_head_hd dest: in_set_butlastD\<close>)
  moreover have "dl_next d' (last (a # zs)) = None"
    using assms(4,6) nx l(2) by (cases "zs = []") auto
  moreover have "list_head (ys @ [a]) = list_head (ys @ a # zs)" by (cases ys) auto
  ultimately show ?thesis using assms(3,5) by (auto simp: ll_rep_def)
qed

lemma LL_REPLACE_ELEM_at:
  assumes "ll_rep d (ys @ x # zs)" "a \<notin> set (ys @ x # zs)"
  shows "\<exists>d'. LL_REPLACE_ELEM d x a = Some d' \<and> ll_rep d' (ys @ a # zs)"
proof -
  note at = ll_rep_at [OF assms(1)]
  define d' where "d' = (if ys = []
    then d\<lparr>dl_next := (dl_next d)(a := dl_next d x), dl_head := Some a\<rparr>
    else d\<lparr>dl_next := (dl_next d)(a := dl_next d x, last ys := Some a)\<rparr>)"
  have eq: "LL_REPLACE_ELEM d x a = Some d'"
  proof (cases "ys = []")
    case False
    note before = ll_before_at [OF assms(1) False]
    show ?thesis
      using before ll_before_upd [OF assms(1) False, of a] at(7) False assms(2) last_in_set [OF False]
      by (auto simp: LL_REPLACE_ELEM_def Let_def d'_def)
  qed (use at in \<open>simp add: LL_REPLACE_ELEM_def Let_def d'_def\<close>)
  have l: "ys \<noteq> [] \<Longrightarrow> last ys \<noteq> a" using assms(2) last_in_set [of ys] by auto
  have "ll_rep d' (ys @ a # zs)"
  proof (rule ll_rep_insert [OF at(2,3)])
    show "distinct (ys @ a # zs)" using at(1) assms(2) by auto
    show "dl_next d (last (zs)) = None" if "zs \<noteq> []" using that at(5,8) by auto
    show "dl_head d' = list_head (ys @ [a])" using at(6) by (cases ys) (auto simp: d'_def)
    show "dl_next d' a = list_head (zs)" using at(5) l by (auto simp: d'_def)
    show "dl_next d' (last ys) = Some a" if "ys \<noteq> []" using that by (simp add: d'_def)
    show "dl_next d' y = dl_next d y" if "y \<in> set (ys @ zs)" "ys = [] \<or> y \<noteq> last ys" for y
    proof -
      have "y \<noteq> a" using that(1) assms(2) by auto
      then show ?thesis using that(2) by (cases "ys = []") (simp_all add: d'_def)
    qed
  qed
  with eq show ?thesis by blast
qed

lemma LL_PREPEND_ELEM_at:
  assumes "ll_rep d (ys @ x # zs)" "a \<notin> set (ys @ x # zs)"
  shows "\<exists>d'. LL_PREPEND_ELEM d x a = Some d' \<and> ll_rep d' (ys @ a # x # zs)"
proof -
  note at = ll_rep_at [OF assms(1)]
  define d' where "d' = (if ys = []
    then d\<lparr>dl_next := (dl_next d)(a := Some x), dl_head := Some a\<rparr>
    else d\<lparr>dl_next := (dl_next d)(a := Some x, last ys := Some a)\<rparr>)"
  have eq: "LL_PREPEND_ELEM d x a = Some d'"
  proof (cases "ys = []")
    case False
    note before = ll_before_at [OF assms(1) False]
    show ?thesis
      using before ll_before_upd [OF assms(1) False, of a] at(7) False assms(2) last_in_set [OF False]
      by (auto simp: LL_PREPEND_ELEM_def Let_def d'_def)
  qed (use at in \<open>simp add: LL_PREPEND_ELEM_def Let_def d'_def\<close>)
  have l: "ys \<noteq> [] \<Longrightarrow> last ys \<noteq> a" using assms(2) last_in_set [of ys] by auto
  have "ll_rep d' (ys @ a # x # zs)"
  proof (rule ll_rep_insert [OF at(2,4)])
    show "distinct (ys @ a # x # zs)" using at(1) assms(2) by auto
    show "dl_next d (last (x # zs)) = None" if "x # zs \<noteq> []" using that at(5,8) by auto
    show "dl_head d' = list_head (ys @ [a])" using at(6) by (cases ys) (auto simp: d'_def)
    show "dl_next d' a = list_head (x # zs)" using at(5) l by (auto simp: d'_def)
    show "dl_next d' (last ys) = Some a" if "ys \<noteq> []" using that by (simp add: d'_def)
    show "dl_next d' y = dl_next d y" if "y \<in> set (ys @ x # zs)" "ys = [] \<or> y \<noteq> last ys" for y
    proof -
      have "y \<noteq> a" using that(1) assms(2) by auto
      then show ?thesis using that(2) by (cases "ys = []") (simp_all add: d'_def)
    qed
  qed
  with eq show ?thesis by blast
qed

text \<open>The replacements without \<open>decltype\<close> are the macros they replace.\<close>

lemma ll_append_loop_walk:
  "linked dbl d (x # xs) \<Longrightarrow> dl_next d (last (x # xs)) = None \<Longrightarrow> a \<notin> set (x # xs) \<Longrightarrow>
   ll_append_loop a (d\<lparr>dl_next := (dl_next d)(a := Some x)\<rparr>) =
     Some (d\<lparr>dl_next := (dl_next d)(a := Some (last (x # xs)))\<rparr>)"
proof (induction xs arbitrary: x)
  case Nil
  then show ?case by (subst ll_append_loop.simps) simp
next
  case (Cons y ys)
  then have "x \<noteq> a" "dl_next d x = Some y" by auto
  with Cons show ?case
    by (subst ll_append_loop.simps) (simp del: fun_upd_apply add: fun_upd_same fun_upd_other)
qed

lemma LL_APPEND_VS2008_eq:
  assumes "ll_rep d xs" "a \<notin> set xs"
  shows "LL_APPEND_VS2008 d a = LL_APPEND d a"
proof (cases xs)
  case Nil
  then show ?thesis
    using assms by (simp add: ll_rep_def LL_APPEND_VS2008_def LL_APPEND_def Let_def)
next
  case (Cons x us)
  have link: "linked False d (x # us)" "dl_next d (last (x # us)) = None" "dl_head d = Some x"
    using assms(1) Cons by (auto simp: ll_rep_def)
  have l: "last (x # us) \<noteq> a" 
    using assms(2) Cons last_in_set [of "x # us"] by (metis list.distinct(1))
  let ?d = "d\<lparr>dl_next := (dl_next d)(a := None)\<rparr>"
  have "linked False ?d (x # us)"
    by (rule linked_cong [OF link(1)]) (use assms(2) Cons in \<open>auto dest: in_set_butlastD split: if_splits\<close>)
  then have "ll_end (dl_next ?d) x = Some (last (x # us))"
    by (rule ll_end_walk) (use link(2) l in simp)
  then have "LL_APPEND d a = Some (d\<lparr>dl_next := (dl_next d)(a := None, last (x # us) := Some a)\<rparr>)"
    using link(3) by (simp add: LL_APPEND_def Let_def)
  moreover have "LL_APPEND_VS2008 d a =
      Some (d\<lparr>dl_next := (dl_next d)(last (x # us) := Some a, a := None)\<rparr>)"
    using ll_append_loop_walk [OF link(1,2), of a] link(3) assms(2) Cons l
    by (simp add: LL_APPEND_VS2008_def fun_upd_twist [of a] del: last.simps)
  ultimately show ?thesis using l by (simp add: fun_upd_twist [of a] del: last.simps)
qed

lemma ll_delete_loop_before:
  "linked dbl d (x # xs @ [y]) \<Longrightarrow> y \<notin> set xs \<Longrightarrow>
   ll_delete_loop y (d\<lparr>dl_head := Some x\<rparr>) = Some (d\<lparr>dl_head := Some (last (x # xs))\<rparr>)"
proof (induction xs arbitrary: x)
  case Nil
  then show ?case by (subst ll_delete_loop.simps) simp
next
  case (Cons z zs)
  then show ?case by (subst ll_delete_loop.simps) auto
qed

lemma LL_DELETE_VS2008_eq:
  assumes "ll_rep d (ys @ x # zs)"
  shows "LL_DELETE_VS2008 d x = LL_DELETE d x"
proof (cases ys)
  case Nil
  then show ?thesis
    using ll_rep_at(6) [OF assms] by (simp add: LL_DELETE_VS2008_def LL_DELETE_def)
next
  case (Cons y us)
  then have ne: "ys \<noteq> []" by simp
  note at = ll_rep_at [OF assms] and before = ll_before_at [OF assms ne]
  have "linked False d (y # us @ [x])" using at(2,7) Cons by (simp add: linked_snoc flip: append_Cons)
  moreover have "x \<notin> set us" using at(1) Cons by simp
  ultimately have "ll_delete_loop x (d\<lparr>dl_head := Some y\<rparr>) = Some (d\<lparr>dl_head := Some (last ys)\<rparr>)"
    using ll_delete_loop_before Cons by metis
  moreover have "d\<lparr>dl_head := Some y\<rparr> = d" using before(1) Cons by simp
  ultimately have loop: "ll_delete_loop x d = Some (d\<lparr>dl_head := Some (last ys)\<rparr>)" by simp
  show ?thesis
    using loop before at(7) [OF ne] by (cases d) (simp add: LL_DELETE_VS2008_def LL_DELETE_def)
qed

section \<open>Iterating and searching\<close>

lemma LL_FOREACH_walk:
  "walks_to_end g xs \<Longrightarrow> LL_FOREACH g body (list_head xs) acc = Some (fold body xs acc)"
proof (induction xs arbitrary: acc)
  case Nil
  then show ?case by (subst LL_FOREACH.simps) simp
next
  case (Cons x xs)
  then show ?case by (subst LL_FOREACH.simps) simp
qed

lemma ll_find_walk:
  "walks_to_end g xs \<Longrightarrow> ll_find g found (list_head xs) = Some (find found xs)"
proof (induction xs)
  case Nil
  then show ?case by (subst ll_find.simps) simp
next
  case (Cons x xs)
  then show ?case by (subst ll_find.simps) simp
qed

text \<open>
  The iterations over the lists of the interface \<open>intrusive_list\<close>: they visit every node once, in
  order, and the safe one may delete the nodes it visits.
\<close>

context intrusive_list
begin

lemma succ_list_head: "rep s (ys @ x # zs) \<Longrightarrow> succ s x = list_head zs"
  by (simp add: succ_rep list_head_def)

lemma walks_succ: "rep s (ys @ zs) \<Longrightarrow> walks_to_end (succ s) zs"
proof (induction zs arbitrary: ys)
  case (Cons z zs)
  from Cons.IH [of "ys @ [z]"] Cons.prems show ?case by (simp add: succ_list_head)
qed simp

lemma head_list_head: "rep s xs \<Longrightarrow> head s = list_head xs"
  by (simp add: head_rep list_head_def)

lemma foreach_visits:
  "rep s xs \<Longrightarrow> LL_FOREACH (succ s) body (head s) acc = Some (fold body xs acc)"
  using LL_FOREACH_walk walks_succ [of s "[]" xs] by (simp add: head_list_head)

lemma search_finds: "rep s xs \<Longrightarrow> ll_find (succ s) found (head s) = Some (find found xs)"
  using ll_find_walk walks_succ [of s "[]" xs] by (simp add: head_list_head)

lemma foreach_safe_suffix:
  "rep s (ys @ zs) \<Longrightarrow>
   \<exists>s'. LL_FOREACH_SAFE succ (\<lambda>x s. if P x then delete s x else Some s) (list_head zs) s = Some s' \<and>
     rep s' (ys @ filter (\<lambda>x. \<not> P x) zs)"
proof (induction zs arbitrary: s ys)
  case Nil
  then show ?case by (subst LL_FOREACH_SAFE.simps) simp
next
  case (Cons z zs)
  note nx = succ_list_head [OF Cons.prems]
  show ?case
  proof (cases "P z")
    case True
    obtain s1 where s1: "delete s z = Some s1" "rep s1 (remove1 z (ys @ z # zs))"
      using delete_rep [OF Cons.prems] by auto
    moreover have "remove1 z (ys @ z # zs) = ys @ zs"
      using rep_distinct [OF Cons.prems] by (simp add: remove1_append)
    ultimately show ?thesis
      using Cons.IH [of s1 ys] True nx by (subst LL_FOREACH_SAFE.simps) simp
  next
    case False
    then show ?thesis
      using Cons.IH [of s "ys @ [z]"] Cons.prems nx by (subst LL_FOREACH_SAFE.simps) simp
  qed
qed

lemma foreach_safe_deletes:
  "rep s xs \<Longrightarrow>
   \<exists>s'. LL_FOREACH_SAFE succ (\<lambda>x s. if P x then delete s x else Some s) (head s) s = Some s' \<and>
     rep s' (filter (\<lambda>x. \<not> P x) xs)"
  using foreach_safe_suffix [of s "[]" xs P] by (simp add: head_list_head)

end

lemma remove1_middle: "distinct (ys @ x # zs) \<Longrightarrow> remove1 x (ys @ x # zs) = ys @ zs"
  by (simp add: remove1_append)

interpretation ll: intrusive_list ll_rep LL_APPEND LL_DELETE dl_head dl_next
proof unfold_locales
  show "distinct xs" if "ll_rep d xs" for d :: "'n dlist" and xs
    using that by (simp add: ll_rep_def)
  show "\<exists>d'. LL_APPEND d x = Some d' \<and> ll_rep d' (xs @ [x])"
    if "ll_rep d xs" "x \<notin> set xs" for d :: "'n dlist" and xs x
    using LL_APPEND_rep [OF that] .
  show "\<exists>d'. LL_DELETE d x = Some d' \<and> ll_rep d' (remove1 x xs)"
    if rep: "ll_rep d xs" and x: "x \<in> set xs" for d :: "'n dlist" and xs x
  proof -
    obtain ys zs where xs: "xs = ys @ x # zs" using x by (auto dest: split_list)
    show ?thesis
      using LL_DELETE_at [of d ys x zs] ll_rep_at(1) [of d ys x zs] rep xs
      by (simp only: remove1_middle)
  qed
  show "dl_head d = (case xs of [] \<Rightarrow> None | x # _ \<Rightarrow> Some x)"
    if "ll_rep d xs" for d :: "'n dlist" and xs
    using that by (simp add: ll_rep_def list_head_def)
  show "dl_next d x = (case zs of [] \<Rightarrow> None | z # _ \<Rightarrow> Some z)"
    if "ll_rep d (ys @ x # zs)" for d :: "'n dlist" and ys x zs
    using ll_rep_at(5) [OF that] by (simp add: list_head_def)
qed

lemma fold_count: "fold (\<lambda>el. Suc) xs n = n + length xs"
  by (induction xs arbitrary: n) auto

lemma LL_COUNT_rep: "ll_rep d xs \<Longrightarrow> LL_COUNT d = Some (length xs)"
  by (simp add: LL_COUNT_def ll.foreach_visits fold_count)

lemma LL_SEARCH_rep:
  "ll_rep d xs \<Longrightarrow> LL_SEARCH d elt cmp = Some (find (\<lambda>out. cmp out elt = 0) xs)"
  "ll_rep d xs \<Longrightarrow> LL_SEARCH_SCALAR d field val = Some (find (\<lambda>out. field out = val) xs)"
  by (simp_all add: LL_SEARCH_def LL_SEARCH_SCALAR_def ll.search_finds)

text \<open>The doubly linked lists are searched by the same macros.\<close>

lemma DL_SEARCH_rep:
  "dl_rep d xs \<Longrightarrow> LL_SEARCH d elt cmp = Some (find (\<lambda>out. cmp out elt = 0) xs)"
  "dl_rep d xs \<Longrightarrow> LL_SEARCH_SCALAR d field val = Some (find (\<lambda>out. field out = val) xs)"
  by (simp_all add: LL_SEARCH_def LL_SEARCH_SCALAR_def utl.search_finds)

end
