(* ===== verification/FB_Utlist_Double.thy ===== *)
theory FB_Utlist_Double
  imports FB_Utlist_Ops
begin

text \<open>
  The remaining operations of the doubly linked lists of \<open>uthash/utlist.h\<close> (\<open>DL_\<close>) and the circular
  ones (\<open>CDL_\<close>). The two structures differ in the \<open>next\<close> of the last node only, so one
  representation, \<open>ring_rep\<close>, covers both, and one lemma covers every way of putting a node into a
  list.
\<close>

section \<open>Operations\<close>

definition DL_PREPEND :: "'n dlist \<Rightarrow> 'n \<Rightarrow> 'n dlist" where
  "DL_PREPEND d add =
     (let d = d\<lparr>dl_next := (dl_next d)(add := dl_head d)\<rparr>;
          d = (case dl_head d of
            Some h \<Rightarrow>
              let d = d\<lparr>dl_prev := (dl_prev d)(add := dl_prev d h)\<rparr>
              in d\<lparr>dl_prev := (dl_prev d)(h := Some add)\<rparr>
          | None \<Rightarrow> d\<lparr>dl_prev := (dl_prev d)(add := Some add)\<rparr>)
      in d\<lparr>dl_head := Some add\<rparr>)"

definition DL_CONCAT :: "'n dlist \<Rightarrow> 'n option \<Rightarrow> 'n dlist option" where
  "DL_CONCAT d head2 =
     (case head2 of
        Some h2 \<Rightarrow>
          (case dl_head d of
             Some h1 \<Rightarrow> do {
               let tmp = dl_prev d h2;
               let d = d\<lparr>dl_prev := (dl_prev d)(h2 := dl_prev d h1)\<rparr>;
               t \<leftarrow> dl_prev d h1;
               let d = d\<lparr>dl_next := (dl_next d)(t := Some h2)\<rparr>;
               Some (d\<lparr>dl_prev := (dl_prev d)(h1 := tmp)\<rparr>) }
           | None \<Rightarrow> Some (d\<lparr>dl_head := head2\<rparr>))
      | None \<Rightarrow> Some d)"

definition DL_COUNT :: "'n dlist \<Rightarrow> nat option" where
  "DL_COUNT d = LL_FOREACH (dl_next d) (\<lambda>el counter. counter + 1) (dl_head d) 0"

definition DL_REPLACE_ELEM :: "'n dlist \<Rightarrow> 'n \<Rightarrow> 'n \<Rightarrow> 'n dlist option" where
  "DL_REPLACE_ELEM d el add =
     (if dl_head d = Some el then do {
        let d = d\<lparr>dl_head := Some add\<rparr>;
        let d = d\<lparr>dl_next := (dl_next d)(add := dl_next d el)\<rparr>;
        if dl_next d el = None then Some (d\<lparr>dl_prev := (dl_prev d)(add := Some add)\<rparr>)
        else do {
          let d = d\<lparr>dl_prev := (dl_prev d)(add := dl_prev d el)\<rparr>;
          n \<leftarrow> dl_next d add;
          Some (d\<lparr>dl_prev := (dl_prev d)(n := Some add)\<rparr>) } }
      else do {
        let d = d\<lparr>dl_next := (dl_next d)(add := dl_next d el)\<rparr>;
        let d = d\<lparr>dl_prev := (dl_prev d)(add := dl_prev d el)\<rparr>;
        p \<leftarrow> dl_prev d add;
        let d = d\<lparr>dl_next := (dl_next d)(p := Some add)\<rparr>;
        if dl_next d el = None then do {
          h \<leftarrow> dl_head d;
          Some (d\<lparr>dl_prev := (dl_prev d)(h := Some add)\<rparr>) }
        else do {
          n \<leftarrow> dl_next d add;
          Some (d\<lparr>dl_prev := (dl_prev d)(n := Some add)\<rparr>) } })"

definition DL_PREPEND_ELEM :: "'n dlist \<Rightarrow> 'n \<Rightarrow> 'n \<Rightarrow> 'n dlist option" where
  "DL_PREPEND_ELEM d el add = do {
     let d = d\<lparr>dl_next := (dl_next d)(add := Some el)\<rparr>;
     let d = d\<lparr>dl_prev := (dl_prev d)(add := dl_prev d el)\<rparr>;
     let d = d\<lparr>dl_prev := (dl_prev d)(el := Some add)\<rparr>;
     if dl_head d = Some el then Some (d\<lparr>dl_head := Some add\<rparr>)
     else do {
       p \<leftarrow> dl_prev d add;
       Some (d\<lparr>dl_next := (dl_next d)(p := Some add)\<rparr>) } }"

definition CDL_PREPEND :: "'n dlist \<Rightarrow> 'n \<Rightarrow> 'n dlist option" where
  "CDL_PREPEND d add = do {
     d \<leftarrow> (case dl_head d of
        Some h \<Rightarrow> do {
          let d = d\<lparr>dl_prev := (dl_prev d)(add := dl_prev d h)\<rparr>;
          let d = d\<lparr>dl_next := (dl_next d)(add := Some h)\<rparr>;
          let d = d\<lparr>dl_prev := (dl_prev d)(h := Some add)\<rparr>;
          p \<leftarrow> dl_prev d add;
          Some (d\<lparr>dl_next := (dl_next d)(p := Some add)\<rparr>) }
      | None \<Rightarrow> Some (d\<lparr>dl_prev := (dl_prev d)(add := Some add),
          dl_next := (dl_next d)(add := Some add)\<rparr>));
     Some (d\<lparr>dl_head := Some add\<rparr>) }"

definition CDL_DELETE :: "'n dlist \<Rightarrow> 'n \<Rightarrow> 'n dlist option" where
  "CDL_DELETE d del =
     (if dl_head d = Some del \<and> dl_next d del = Some del then Some (d\<lparr>dl_head := None\<rparr>)
      else do {
        n \<leftarrow> dl_next d del;
        let d = d\<lparr>dl_prev := (dl_prev d)(n := dl_prev d del)\<rparr>;
        p \<leftarrow> dl_prev d del;
        let d = d\<lparr>dl_next := (dl_next d)(p := dl_next d del)\<rparr>;
        Some (if dl_head d = Some del then d\<lparr>dl_head := dl_next d del\<rparr> else d) })"

definition CDL_REPLACE_ELEM :: "'n dlist \<Rightarrow> 'n \<Rightarrow> 'n \<Rightarrow> 'n dlist option" where
  "CDL_REPLACE_ELEM d el add =
     (if dl_next d el = Some el then
        Some (d\<lparr>dl_next := (dl_next d)(add := Some add), dl_prev := (dl_prev d)(add := Some add),
          dl_head := Some add\<rparr>)
      else do {
        let d = d\<lparr>dl_next := (dl_next d)(add := dl_next d el)\<rparr>;
        let d = d\<lparr>dl_prev := (dl_prev d)(add := dl_prev d el)\<rparr>;
        n \<leftarrow> dl_next d add;
        let d = d\<lparr>dl_prev := (dl_prev d)(n := Some add)\<rparr>;
        p \<leftarrow> dl_prev d add;
        let d = d\<lparr>dl_next := (dl_next d)(p := Some add)\<rparr>;
        Some (if dl_head d = Some el then d\<lparr>dl_head := Some add\<rparr> else d) })"

definition CDL_PREPEND_ELEM :: "'n dlist \<Rightarrow> 'n \<Rightarrow> 'n \<Rightarrow> 'n dlist option" where
  "CDL_PREPEND_ELEM d el add = do {
     let d = d\<lparr>dl_next := (dl_next d)(add := Some el)\<rparr>;
     let d = d\<lparr>dl_prev := (dl_prev d)(add := dl_prev d el)\<rparr>;
     let d = d\<lparr>dl_prev := (dl_prev d)(el := Some add)\<rparr>;
     p \<leftarrow> dl_prev d add;
     let d = d\<lparr>dl_next := (dl_next d)(p := Some add)\<rparr>;
     Some (if dl_head d = Some el then d\<lparr>dl_head := Some add\<rparr> else d) }"

text \<open>The iteration of a circular list stops before the head.\<close>

definition cdl_step :: "'n dlist \<Rightarrow> 'n \<Rightarrow> 'n option" where
  "cdl_step d el = (if dl_next d el = dl_head d then None else dl_next d el)"

definition CDL_COUNT :: "'n dlist \<Rightarrow> nat option" where
  "CDL_COUNT d = LL_FOREACH (cdl_step d) (\<lambda>el counter. counter + 1) (dl_head d) 0"

definition CDL_SEARCH_SCALAR :: "'n dlist \<Rightarrow> ('n \<Rightarrow> 'v) \<Rightarrow> 'v \<Rightarrow> 'n option option" where
  "CDL_SEARCH_SCALAR d field val = ll_find (cdl_step d) (\<lambda>out. field out = val) (dl_head d)"

definition CDL_SEARCH :: "'n dlist \<Rightarrow> 'e \<Rightarrow> ('n \<Rightarrow> 'e \<Rightarrow> int) \<Rightarrow> 'n option option" where
  "CDL_SEARCH d elt cmp = ll_find (cdl_step d) (\<lambda>out. cmp out elt = 0) (dl_head d)"

text \<open>
  \<open>CDL_FOREACH_SAFE\<close> remembers the last node, \<open>tmp1\<close>, when it starts, and stops after it.
\<close>

partial_function (option) cdl_safe_loop ::
    "('n \<Rightarrow> 'n dlist \<Rightarrow> 'n dlist option) \<Rightarrow> 'n option \<Rightarrow> 'n option \<Rightarrow> 'n dlist \<Rightarrow> 'n dlist option" where
  "cdl_safe_loop body tmp1 el d =
     (case el of
        None \<Rightarrow> Some d
      | Some x \<Rightarrow> Option.bind (body x d) (\<lambda>d'.
          cdl_safe_loop body tmp1 (if el = tmp1 then None else dl_next d x) d'))"

declare cdl_safe_loop.simps [code]

definition CDL_FOREACH_SAFE :: "('n \<Rightarrow> 'n dlist \<Rightarrow> 'n dlist option) \<Rightarrow> 'n dlist \<Rightarrow> 'n dlist option" where
  "CDL_FOREACH_SAFE body d =
     cdl_safe_loop body (case dl_head d of Some h \<Rightarrow> dl_prev d h | None \<Rightarrow> None) (dl_head d) d"

definition DL_FOREACH_SAFE :: "('n \<Rightarrow> 'n dlist \<Rightarrow> 'n dlist option) \<Rightarrow> 'n dlist \<Rightarrow> 'n dlist option" where
  "DL_FOREACH_SAFE body d = LL_FOREACH_SAFE dl_next body (dl_head d) d"

section \<open>Doubly linked structures\<close>

definition ring_rep :: "bool \<Rightarrow> 'n dlist \<Rightarrow> 'n list \<Rightarrow> bool" where
  "ring_rep circ d xs \<longleftrightarrow> distinct xs \<and> linked True d xs \<and> dl_head d = list_head xs \<and>
     (xs \<noteq> [] \<longrightarrow> dl_prev d (hd xs) = Some (last xs) \<and>
        dl_next d (last xs) = (if circ then Some (hd xs) else None))"

abbreviation cdl_rep :: "'n dlist \<Rightarrow> 'n list \<Rightarrow> bool" where
  "cdl_rep \<equiv> ring_rep True"

lemma dl_rep_ring: "dl_rep d xs = ring_rep False d xs"
  by (auto simp: dl_rep_def ring_rep_def linked_chain list_head_hd)

lemma ring_rep_at:
  assumes "ring_rep circ d (ys @ x # zs)"
  shows "distinct (ys @ x # zs)" "linked True d ys" "linked True d zs" "linked True d (x # zs)"
    "dl_next d x = (if zs = [] then if circ then Some (hd (ys @ [x])) else None else Some (hd zs))"
    "dl_head d = Some (hd (ys @ [x]))"
    "dl_prev d x = Some (if ys = [] then last (x # zs) else last ys)"
    "ys \<noteq> [] \<Longrightarrow> dl_next d (last ys) = Some x"
    "zs \<noteq> [] \<Longrightarrow> dl_prev d (hd zs) = Some x"
    "ys \<noteq> [] \<Longrightarrow> dl_prev d (hd ys) = Some (last (x # zs))"
    "zs \<noteq> [] \<Longrightarrow> dl_next d (last zs) = (if circ then Some (hd (ys @ [x])) else None)"
  using assms
  by (cases zs; force simp: ring_rep_def linked_append linked_Cons list_head_hd hd_append)+

text \<open>The ends of the two parts are in them and nowhere else.\<close>

lemma part_ends:
  assumes "distinct (ys @ zs)"
  shows "ys \<noteq> [] \<Longrightarrow> last ys \<in> set ys" "ys \<noteq> [] \<Longrightarrow> hd ys \<in> set ys"
    "zs \<noteq> [] \<Longrightarrow> last zs \<in> set zs" "zs \<noteq> [] \<Longrightarrow> hd zs \<in> set zs"
    "ys \<noteq> [] \<Longrightarrow> last ys \<notin> set zs" "ys \<noteq> [] \<Longrightarrow> hd ys \<notin> set zs"
    "zs \<noteq> [] \<Longrightarrow> last zs \<notin> set ys" "zs \<noteq> [] \<Longrightarrow> hd zs \<notin> set ys"
    "y \<in> set (butlast ys) \<union> set (butlast zs) \<Longrightarrow> y \<in> set (ys @ zs) \<and>
      (ys \<noteq> [] \<longrightarrow> y \<noteq> last ys) \<and> (zs \<noteq> [] \<longrightarrow> y \<noteq> last zs)"
    "y \<in> set (tl ys) \<union> set (tl zs) \<Longrightarrow> y \<in> set (ys @ zs) \<and>
      (ys \<noteq> [] \<longrightarrow> y \<noteq> hd ys) \<and> (zs \<noteq> [] \<longrightarrow> y \<noteq> hd zs)"
proof -
  have d: "distinct ys" "distinct zs" "set ys \<inter> set zs = {}" using assms by auto
  show "ys \<noteq> [] \<Longrightarrow> last ys \<in> set ys" "ys \<noteq> [] \<Longrightarrow> hd ys \<in> set ys"
    "zs \<noteq> [] \<Longrightarrow> last zs \<in> set zs" "zs \<noteq> [] \<Longrightarrow> hd zs \<in> set zs"
    "ys \<noteq> [] \<Longrightarrow> last ys \<notin> set zs" "ys \<noteq> [] \<Longrightarrow> hd ys \<notin> set zs"
    "zs \<noteq> [] \<Longrightarrow> last zs \<notin> set ys" "zs \<noteq> [] \<Longrightarrow> hd zs \<notin> set ys"
    using d(3) last_in_set hd_in_set by blast+
  then show "y \<in> set (butlast ys) \<union> set (butlast zs) \<Longrightarrow> y \<in> set (ys @ zs) \<and>
      (ys \<noteq> [] \<longrightarrow> y \<noteq> last ys) \<and> (zs \<noteq> [] \<longrightarrow> y \<noteq> last zs)"
    "y \<in> set (tl ys) \<union> set (tl zs) \<Longrightarrow> y \<in> set (ys @ zs) \<and>
      (ys \<noteq> [] \<longrightarrow> y \<noteq> hd ys) \<and> (zs \<noteq> [] \<longrightarrow> y \<noteq> hd zs)"
    using d(1,2) by (auto simp: in_butlast in_tl)
qed

text \<open>A node put between two parts.\<close>

lemma ring_rep_insert:
  assumes "linked True d ys" "linked True d zs" "distinct (ys @ a # zs)"
    and "dl_head d' = Some (hd (ys @ [a]))"
    and "dl_next d' a = (if zs = [] then if circ then Some (hd (ys @ [a])) else None else Some (hd zs))"
    and "dl_prev d' a = Some (if ys = [] then last (a # zs) else last ys)"
    and "ys \<noteq> [] \<Longrightarrow> dl_next d' (last ys) = Some a \<and> dl_prev d' (hd ys) = Some (last (a # zs))"
    and "zs \<noteq> [] \<Longrightarrow> dl_prev d' (hd zs) = Some a \<and>
      dl_next d' (last zs) = (if circ then Some (hd (ys @ [a])) else None)"
    and "\<And>y. y \<in> set (ys @ zs) \<Longrightarrow> ys = [] \<or> y \<noteq> last ys \<Longrightarrow> zs = [] \<or> y \<noteq> last zs \<Longrightarrow>
      dl_next d' y = dl_next d y"
    and "\<And>y. y \<in> set (ys @ zs) \<Longrightarrow> ys = [] \<or> y \<noteq> hd ys \<Longrightarrow> zs = [] \<or> y \<noteq> hd zs \<Longrightarrow>
      dl_prev d' y = dl_prev d y"
  shows "ring_rep circ d' (ys @ a # zs)"
proof -
  have dist: "distinct (ys @ zs)" using assms(3) by auto
  have frame: "y \<in> set (butlast ys) \<union> set (butlast zs) \<Longrightarrow> dl_next d' y = dl_next d y"
    "y \<in> set (tl ys) \<union> set (tl zs) \<Longrightarrow> dl_prev d' y = dl_prev d y" for y
    using assms(9,10) part_ends(9,10) [OF dist, of y] by blast+
  have "linked True d' (ys @ a # zs)"
    by (rule linked_insert [OF assms(1,2) frame]) (use assms(5-8) in auto)
  then show ?thesis
    using assms(3-8) by (cases "ys = []"; cases "zs = []") (auto simp: ring_rep_def list_head_hd)
qed

lemma ring_rep_distinct: "ring_rep circ d xs \<Longrightarrow> distinct xs"
  by (simp add: ring_rep_def)

text \<open>The operations modelled with the pointer structure, on its ring.\<close>

lemma DL_APPEND_ring:
  "ring_rep False d xs \<Longrightarrow> a \<notin> set xs \<Longrightarrow>
   \<exists>d'. DL_APPEND d a = Some d' \<and> ring_rep False d' (xs @ [a])"
  using utl.append_rep [of d xs a] by (simp add: dl_rep_ring)

lemma DL_DELETE_ring:
  assumes "ring_rep False d (ys @ x # zs)"
  shows "\<exists>d'. DL_DELETE d x = Some d' \<and> ring_rep False d' (ys @ zs)"
  using utl.delete_rep [of d "ys @ x # zs" x] assms
    remove1_middle [OF ring_rep_distinct [OF assms]] by (simp add: dl_rep_ring)

text \<open>Two parts joined.\<close>

lemma ring_rep_join:
  assumes "linked True d ys" "linked True d zs" "distinct (ys @ zs)" "ys @ zs \<noteq> []"
    and "dl_head d' = Some (hd (ys @ zs))"
    and "dl_prev d' (hd (ys @ zs)) = Some (last (ys @ zs))"
    and "dl_next d' (last (ys @ zs)) = (if circ then Some (hd (ys @ zs)) else None)"
    and "ys \<noteq> [] \<Longrightarrow> zs \<noteq> [] \<Longrightarrow> dl_next d' (last ys) = Some (hd zs) \<and> dl_prev d' (hd zs) = Some (last ys)"
    and "\<And>y. y \<in> set (ys @ zs) \<Longrightarrow> ys = [] \<or> y \<noteq> last ys \<Longrightarrow> zs = [] \<or> y \<noteq> last zs \<Longrightarrow>
      dl_next d' y = dl_next d y"
    and "\<And>y. y \<in> set (ys @ zs) \<Longrightarrow> ys = [] \<or> y \<noteq> hd ys \<Longrightarrow> zs = [] \<or> y \<noteq> hd zs \<Longrightarrow>
      dl_prev d' y = dl_prev d y"
  shows "ring_rep circ d' (ys @ zs)"
proof -
  have frame: "y \<in> set (butlast ys) \<union> set (butlast zs) \<Longrightarrow> dl_next d' y = dl_next d y"
    "y \<in> set (tl ys) \<union> set (tl zs) \<Longrightarrow> dl_prev d' y = dl_prev d y" for y
    using assms(9,10) part_ends(9,10) [OF assms(3), of y] by blast+
  have "linked True d' (ys @ zs)"
    by (rule linked_join [OF assms(1,2) frame]) (use assms(8) in auto)
  then show ?thesis using assms(3-7) by (simp add: ring_rep_def list_head_hd)
qed

lemma DL_PREPEND_rep:
  assumes "ring_rep False d xs" "a \<notin> set xs"
  shows "ring_rep False (DL_PREPEND d a) (a # xs)"
proof (cases xs)
  case Nil
  then show ?thesis using assms by (auto simp: ring_rep_def DL_PREPEND_def Let_def)
next
  case (Cons x us)
  have at: "linked True d xs" "distinct xs" "dl_head d = Some x" "dl_prev d x = Some (last xs)"
    "dl_next d (last xs) = None"
    using assms(1) Cons by (auto simp: ring_rep_def)
  let ?d = "d\<lparr>dl_next := (dl_next d)(a := Some x), dl_prev := (dl_prev d)(a := Some (last xs), x := Some a),
    dl_head := Some a\<rparr>"
  have eq: "DL_PREPEND d a = ?d" using at Cons by (simp add: DL_PREPEND_def Let_def)
  have "ring_rep False ?d ([] @ a # xs)"
    using at assms(2) part_ends(1-8) [of "[]" xs] Cons
    by (intro ring_rep_insert [of d]) auto
  then show ?thesis using eq by simp
qed

lemma DL_REPLACE_ELEM_at:
  assumes "ring_rep False d (ys @ x # zs)" "a \<notin> set (ys @ x # zs)"
  shows "\<exists>d'. DL_REPLACE_ELEM d x a = Some d' \<and> ring_rep False d' (ys @ a # zs)"
proof -
  note at = ring_rep_at [OF assms(1)]
  have "distinct (ys @ zs)" using at(1) by auto
  note ends = part_ends(1-8) [OF this]
  let ?next = "(dl_next d)(a := dl_next d x)"
  let ?d = "d\<lparr>dl_head := Some (hd (ys @ [a])),
    dl_next := if ys = [] then ?next else ?next(last ys := Some a),
    dl_prev := (dl_prev d)(a := if ys = [] \<and> zs = [] then Some a else dl_prev d x,
      (if zs = [] then hd (ys @ [a]) else hd zs) := Some a)\<rparr>"
  have "DL_REPLACE_ELEM d x a = Some ?d"
    using at assms(2) ends
    by (cases "ys = []"; cases "zs = []") (auto simp: DL_REPLACE_ELEM_def Let_def)
  moreover have "ring_rep False ?d (ys @ a # zs)"
  proof (rule ring_rep_insert [OF at(2,3)])
    have na: "y \<noteq> a" if "y \<in> set (ys @ zs)" for y using that assms(2) by auto
    show "dl_next ?d y = dl_next d y"
      if "y \<in> set (ys @ zs)" "ys = [] \<or> y \<noteq> last ys" "zs = [] \<or> y \<noteq> last zs" for y
      using that(2,3) na [OF that(1)] by (cases "ys = []"; cases "zs = []"; auto)
    show "dl_prev ?d y = dl_prev d y"
      if "y \<in> set (ys @ zs)" "ys = [] \<or> y \<noteq> hd ys" "zs = [] \<or> y \<noteq> hd zs" for y
      using that(2,3) na [OF that(1)] by (cases "ys = []"; cases "zs = []"; auto)
    show "distinct (ys @ a # zs)" using at(1) assms(2) by auto
  qed (cases "ys = []"; cases "zs = []"; use at(5,7,10,11) ends assms(2) in auto)+
  ultimately show ?thesis by blast
qed

lemma DL_PREPEND_ELEM_at:
  assumes "ring_rep False d (ys @ x # zs)" "a \<notin> set (ys @ x # zs)"
  shows "\<exists>d'. DL_PREPEND_ELEM d x a = Some d' \<and> ring_rep False d' (ys @ a # x # zs)"
proof -
  note at = ring_rep_at [OF assms(1)]
  note ends = part_ends(1-8) [OF at(1)]
  let ?next = "(dl_next d)(a := Some x)"
  let ?d = "d\<lparr>dl_head := Some (hd (ys @ [a])),
    dl_next := if ys = [] then ?next else ?next(last ys := Some a),
    dl_prev := (dl_prev d)(a := dl_prev d x, x := Some a)\<rparr>"
  have "DL_PREPEND_ELEM d x a = Some ?d"
    using at assms(2) ends
    by (cases "ys = []") (auto simp: DL_PREPEND_ELEM_def Let_def)
  moreover have "ring_rep False ?d (ys @ a # x # zs)"
  proof (rule ring_rep_insert [OF at(2,4)])
    have na: "y \<noteq> a" if "y \<in> set (ys @ x # zs)" for y using that assms(2) by auto
    show "dl_next ?d y = dl_next d y"
      if "y \<in> set (ys @ x # zs)" "ys = [] \<or> y \<noteq> last ys" "x # zs = [] \<or> y \<noteq> last (x # zs)" for y
      using that(2,3) na [OF that(1)] by (cases "ys = []"; cases "zs = []"; auto)
    show "dl_prev ?d y = dl_prev d y"
      if "y \<in> set (ys @ x # zs)" "ys = [] \<or> y \<noteq> hd ys" "x # zs = [] \<or> y \<noteq> hd (x # zs)" for y
      using that(2,3) na [OF that(1)] by (cases "ys = []"; cases "zs = []"; auto)
    show "distinct (ys @ a # x # zs)" using at(1) assms(2) by auto
  qed (cases "ys = []"; cases "zs = []"; use at(5,7,10,11) ends assms(2) in auto)+
  ultimately show ?thesis by blast
qed

lemma CDL_REPLACE_ELEM_at:
  assumes "cdl_rep d (ys @ x # zs)" "a \<notin> set (ys @ x # zs)"
  shows "\<exists>d'. CDL_REPLACE_ELEM d x a = Some d' \<and> cdl_rep d' (ys @ a # zs)"
proof (cases "ys = [] \<and> zs = []")
  case True
  then show ?thesis
    using ring_rep_at [OF assms(1)] by (auto simp: CDL_REPLACE_ELEM_def ring_rep_def)
next
  case False
  note at = ring_rep_at [OF assms(1)]
  have "distinct (ys @ zs)" using at(1) by auto
  note ends = part_ends(1-8) [OF this]
  let ?d = "d\<lparr>dl_head := Some (hd (ys @ [a])),
    dl_next := (dl_next d)(a := dl_next d x, (if ys = [] then last zs else last ys) := Some a),
    dl_prev := (dl_prev d)(a := dl_prev d x, (if zs = [] then hd ys else hd zs) := Some a)\<rparr>"
  have "CDL_REPLACE_ELEM d x a = Some ?d"
    using at assms(2) ends False
    by (cases "ys = []"; cases "zs = []") (auto simp: CDL_REPLACE_ELEM_def Let_def)
  moreover have "cdl_rep ?d (ys @ a # zs)"
  proof (rule ring_rep_insert [OF at(2,3)])
    have na: "y \<noteq> a" if "y \<in> set (ys @ zs)" for y using that assms(2) by auto
    show "dl_next ?d y = dl_next d y"
      if "y \<in> set (ys @ zs)" "ys = [] \<or> y \<noteq> last ys" "zs = [] \<or> y \<noteq> last zs" for y
      using that(2,3) na [OF that(1)] False by (cases "ys = []"; cases "zs = []"; auto)
    show "dl_prev ?d y = dl_prev d y"
      if "y \<in> set (ys @ zs)" "ys = [] \<or> y \<noteq> hd ys" "zs = [] \<or> y \<noteq> hd zs" for y
      using that(2,3) na [OF that(1)] False by (cases "ys = []"; cases "zs = []"; auto)
    show "distinct (ys @ a # zs)" using at(1) assms(2) by auto
  qed (cases "ys = []"; cases "zs = []"; use at(5,7,10,11) ends assms(2) False in auto)+
  ultimately show ?thesis by blast
qed

lemma CDL_PREPEND_ELEM_at:
  assumes "cdl_rep d (ys @ x # zs)" "a \<notin> set (ys @ x # zs)"
  shows "\<exists>d'. CDL_PREPEND_ELEM d x a = Some d' \<and> cdl_rep d' (ys @ a # x # zs)"
proof -
  note at = ring_rep_at [OF assms(1)]
  note ends = part_ends(1-8) [OF at(1)]
  let ?d = "d\<lparr>dl_head := Some (hd (ys @ [a])),
    dl_next := (dl_next d)(a := Some x, (if ys = [] then last (x # zs) else last ys) := Some a),
    dl_prev := (dl_prev d)(a := dl_prev d x, x := Some a)\<rparr>"
  have "CDL_PREPEND_ELEM d x a = Some ?d"
    using at assms(2) ends
    by (cases "ys = []") (auto simp: CDL_PREPEND_ELEM_def Let_def)
  moreover have "cdl_rep ?d (ys @ a # x # zs)"
  proof (rule ring_rep_insert [OF at(2,4)])
    have na: "y \<noteq> a" if "y \<in> set (ys @ x # zs)" for y using that assms(2) by auto
    show "dl_next ?d y = dl_next d y"
      if "y \<in> set (ys @ x # zs)" "ys = [] \<or> y \<noteq> last ys" "x # zs = [] \<or> y \<noteq> last (x # zs)" for y
      using that(2,3) na [OF that(1)] by (cases "ys = []"; cases "zs = []"; auto)
    show "dl_prev ?d y = dl_prev d y"
      if "y \<in> set (ys @ x # zs)" "ys = [] \<or> y \<noteq> hd ys" "x # zs = [] \<or> y \<noteq> hd (x # zs)" for y
      using that(2,3) na [OF that(1)] by (cases "ys = []"; cases "zs = []"; auto)
    show "distinct (ys @ a # x # zs)" using at(1) assms(2) by auto
  qed (cases "ys = []"; cases "zs = []"; use at(5,7,10,11) ends assms(2) in auto)+
  ultimately show ?thesis by blast
qed

text \<open>\<open>CDL_PREPEND\<close> on a list that is not empty is the insertion before its head.\<close>

lemma CDL_PREPEND_rep:
  assumes "cdl_rep d xs" "a \<notin> set xs"
  shows "\<exists>d'. CDL_PREPEND d a = Some d' \<and> cdl_rep d' (a # xs)"
proof (cases xs)
  case Nil
  then show ?thesis using assms by (auto simp: ring_rep_def CDL_PREPEND_def)
next
  case (Cons x us)
  then have "CDL_PREPEND d a = CDL_PREPEND_ELEM d x a"
    using assms by (auto simp: ring_rep_def CDL_PREPEND_def CDL_PREPEND_ELEM_def Let_def)
  then show ?thesis using CDL_PREPEND_ELEM_at [of d "[]" x us a] assms Cons by simp
qed

lemma CDL_DELETE_at:
  assumes "cdl_rep d (ys @ x # zs)"
  shows "\<exists>d'. CDL_DELETE d x = Some d' \<and> cdl_rep d' (ys @ zs)"
proof (cases "ys = [] \<and> zs = []")
  case True
  then show ?thesis using ring_rep_at [OF assms] by (auto simp: CDL_DELETE_def ring_rep_def)
next
  case False
  note at = ring_rep_at [OF assms]
  have dist: "distinct (ys @ zs)" using at(1) by auto
  note ends = part_ends(1-8) [OF dist]
  let ?d = "d\<lparr>dl_head := Some (hd (ys @ zs)),
    dl_next := (dl_next d)((if ys = [] then last zs else last ys) := dl_next d x),
    dl_prev := (dl_prev d)((if zs = [] then hd ys else hd zs) := dl_prev d x)\<rparr>"
  have "CDL_DELETE d x = Some ?d"
    using at ends False
    by (cases "ys = []"; cases "zs = []") (auto simp: CDL_DELETE_def Let_def)
  moreover have "cdl_rep ?d (ys @ zs)"
  proof (rule ring_rep_join [OF at(2,3) dist])
    show "dl_next ?d y = dl_next d y"
      if "y \<in> set (ys @ zs)" "ys = [] \<or> y \<noteq> last ys" "zs = [] \<or> y \<noteq> last zs" for y
      using that(2,3) False by (cases "ys = []"; cases "zs = []"; auto)
    show "dl_prev ?d y = dl_prev d y"
      if "y \<in> set (ys @ zs)" "ys = [] \<or> y \<noteq> hd ys" "zs = [] \<or> y \<noteq> hd zs" for y
      using that(2,3) False by (cases "ys = []"; cases "zs = []"; auto)
  qed (cases "ys = []"; cases "zs = []"; use at(5,7,10,11) ends False in auto)+
  ultimately show ?thesis by blast
qed

lemma DL_CONCAT_rep:
  assumes "ring_rep False d xs" "ring_rep False (d\<lparr>dl_head := head2\<rparr>) zs" "set xs \<inter> set zs = {}"
  shows "\<exists>d'. DL_CONCAT d head2 = Some d' \<and> ring_rep False d' (xs @ zs)"
proof (cases "xs = [] \<or> zs = []")
  case True
  have "linked True d zs" if "linked True (d\<lparr>dl_head := head2\<rparr>) zs"
    using linked_cong [OF that, of d] by simp
  then show ?thesis
    using assms True by (cases zs) (auto simp: ring_rep_def DL_CONCAT_def linked_cong)
next
  case False
  have dist: "distinct (xs @ zs)" using assms by (auto simp: ring_rep_def)
  note ends = part_ends(1-8) [OF dist]
  have z: "linked True d zs" "head2 = Some (hd zs)" "dl_prev d (hd zs) = Some (last zs)"
    "dl_next d (last zs) = None"
    using assms(2) False linked_cong [of True "d\<lparr>dl_head := head2\<rparr>" zs d]
    by (auto simp: ring_rep_def list_head_hd)
  have x: "linked True d xs" "dl_head d = Some (hd xs)" "dl_prev d (hd xs) = Some (last xs)"
    using assms(1) False by (auto simp: ring_rep_def list_head_hd)
  let ?d = "d\<lparr>dl_next := (dl_next d)(last xs := Some (hd zs)),
    dl_prev := (dl_prev d)(hd zs := Some (last xs), hd xs := Some (last zs))\<rparr>"
  have "DL_CONCAT d head2 = Some ?d"
    using x z ends False by (auto simp: DL_CONCAT_def Let_def)
  moreover have "ring_rep False ?d (xs @ zs)"
    by (rule ring_rep_join [OF x(1) z(1) dist]) (use x z ends False in auto)
  ultimately show ?thesis by blast
qed

section \<open>Iteration\<close>

lemma linked_walks: "linked dbl d xs \<Longrightarrow> walks (dl_next d) xs"
proof (induction xs)
  case (Cons x xs)
  then show ?case by (cases "xs = []") (auto simp: linked_Cons list_head_hd)
qed simp

lemma walks_end_iff: "walks_to_end g xs \<longleftrightarrow> walks g xs \<and> (xs \<noteq> [] \<longrightarrow> g (last xs) = None)"
  by (induction xs) auto

lemma linear_walk: "ll_rep d xs \<or> ring_rep False d xs \<Longrightarrow> walks_to_end (dl_next d) xs"
  by (auto simp: walks_end_iff ll_rep_def ring_rep_def dest: linked_walks)

lemma walks_stop:
  "walks g xs \<Longrightarrow> h \<notin> set (tl xs) \<Longrightarrow> walks (\<lambda>x. if g x = Some h then None else g x) xs"
proof (induction xs)
  case (Cons x xs)
  then show ?case by (cases xs) auto
qed simp

lemma circular_walk:
  assumes "cdl_rep d xs"
  shows "walks_to_end (\<lambda>x. if dl_next d x = dl_head d then None else dl_next d x) xs"
proof (cases xs)
  case (Cons x us)
  then have "walks (dl_next d) xs" "x \<notin> set (tl xs)" "dl_head d = Some x"
    "dl_next d (last xs) = Some x"
    using assms by (auto simp: ring_rep_def dest: linked_walks)
  then show ?thesis using walks_stop [of "dl_next d" xs x] by (simp add: walks_end_iff)
qed simp

lemma cdl_step_walk: "cdl_rep d xs \<Longrightarrow> walks_to_end (cdl_step d) xs"
  using circular_walk by (simp add: cdl_step_def [abs_def])

lemma DL_COUNT_rep: "dl_rep d xs \<Longrightarrow> DL_COUNT d = Some (length xs)"
  by (simp add: DL_COUNT_def utl.foreach_visits fold_count)

lemma CDL_COUNT_rep: "cdl_rep d xs \<Longrightarrow> CDL_COUNT d = Some (length xs)"
  using ring_rep_def [of True d xs]
  by (simp add: CDL_COUNT_def fold_count LL_FOREACH_walk [OF cdl_step_walk])

lemma CDL_SEARCH_rep:
  "cdl_rep d xs \<Longrightarrow> CDL_SEARCH d elt cmp = Some (find (\<lambda>out. cmp out elt = 0) xs)"
  "cdl_rep d xs \<Longrightarrow> CDL_SEARCH_SCALAR d field val = Some (find (\<lambda>out. field out = val) xs)"
  using ll_find_walk [OF cdl_step_walk, of d xs] ring_rep_def [of True d xs]
  by (simp_all add: CDL_SEARCH_def CDL_SEARCH_SCALAR_def)

text \<open>
  Deleting from a circular list while iterating: the loop ends at the node that was the last one
  when it started, whatever has been deleted before it.
\<close>

lemma cdl_safe_suffix:
  "cdl_rep d (ys @ zs) \<Longrightarrow> zs \<noteq> [] \<Longrightarrow>
   \<exists>d'. cdl_safe_loop (\<lambda>x d. if P x then CDL_DELETE d x else Some d)
       (list_last zs) (list_head zs) d = Some d' \<and>
     cdl_rep d' (ys @ filter (\<lambda>x. \<not> P x) zs)"
proof (induction zs arbitrary: d ys)
  case (Cons z zs)
  note at = ring_rep_at [OF Cons.prems(1)]
  obtain d1 where d1: "(if P z then CDL_DELETE d z else Some d) = Some d1"
    "cdl_rep d1 (if P z then ys @ zs else (ys @ [z]) @ zs)"
    using CDL_DELETE_at [OF Cons.prems(1)] Cons.prems(1) by (cases "P z") auto
  show ?case
  proof (cases "zs = []")
    case True
    then show ?thesis using d1
      by (subst cdl_safe_loop.simps) (auto simp: cdl_safe_loop.simps split: if_splits)
  next
    case False
    have l: "Some z \<noteq> list_last (z # zs)" "list_last (z # zs) = list_last zs"
      using False at(1) last_in_set [OF False] by (auto simp: list_last_def)
    have nx: "dl_next d z = list_head zs" using at(5) False by (simp add: list_head_hd)
    obtain d2 where "cdl_safe_loop (\<lambda>x d. if P x then CDL_DELETE d x else Some d)
        (list_last zs) (list_head zs) d1 = Some d2"
      "cdl_rep d2 ((if P z then ys else ys @ [z]) @ filter (\<lambda>x. \<not> P x) zs)"
      using Cons.IH [of d1 "if P z then ys else ys @ [z]"] d1(2) False by (auto split: if_splits)
    then show ?thesis
      using d1(1) l nx by (subst cdl_safe_loop.simps) (auto split: if_splits)
  qed
qed simp

lemma CDL_FOREACH_SAFE_deletes:
  assumes "cdl_rep d xs"
  shows "\<exists>d'. CDL_FOREACH_SAFE (\<lambda>x d. if P x then CDL_DELETE d x else Some d) d = Some d' \<and>
    cdl_rep d' (filter (\<lambda>x. \<not> P x) xs)"
proof (cases "xs = []")
  case True
  then show ?thesis using assms
    by (simp add: CDL_FOREACH_SAFE_def cdl_safe_loop.simps ring_rep_def)
next
  case False
  then have "dl_head d = list_head xs" "dl_prev d (hd xs) = list_last xs"
    using assms by (auto simp: ring_rep_def)
  then show ?thesis
    using cdl_safe_suffix [of d "[]" xs P] assms False
    by (simp add: CDL_FOREACH_SAFE_def list_head_hd)
qed

lemma DL_FOREACH_SAFE_deletes:
  "dl_rep d xs \<Longrightarrow>
   \<exists>d'. DL_FOREACH_SAFE (\<lambda>x d. if P x then DL_DELETE d x else Some d) d = Some d' \<and>
     dl_rep d' (filter (\<lambda>x. \<not> P x) xs)"
  unfolding DL_FOREACH_SAFE_def by (rule utl.foreach_safe_deletes)

section \<open>Histories of operations\<close>

text \<open>
  The operations that change a list, as values, and what each does to the list of nodes. A node
  that is put in must not be linked yet, and the element an operation refers to must be; otherwise
  the operation is undefined. There is no \<open>CDL_APPEND\<close>.
\<close>

datatype 'n list_op =
    Op_Prepend 'n
  | Op_Append 'n
  | Op_Delete 'n
  | Op_Replace 'n 'n
  | Op_Insert 'n 'n

fun insert_before :: "'n \<Rightarrow> 'n \<Rightarrow> 'n list \<Rightarrow> 'n list" where
  "insert_before el a [] = []"
| "insert_before el a (x # xs) = (if x = el then a # x # xs else x # insert_before el a xs)"

fun apply_op :: "'n list \<Rightarrow> 'n list_op \<Rightarrow> 'n list option" where
  "apply_op xs (Op_Prepend a) = (if a \<in> set xs then None else Some (a # xs))"
| "apply_op xs (Op_Append a) = (if a \<in> set xs then None else Some (xs @ [a]))"
| "apply_op xs (Op_Delete x) = (if x \<in> set xs then Some (remove1 x xs) else None)"
| "apply_op xs (Op_Replace x a) =
     (if x \<in> set xs \<and> a \<notin> set xs then Some (map (\<lambda>y. if y = x then a else y) xs) else None)"
| "apply_op xs (Op_Insert x a) =
     (if x \<in> set xs \<and> a \<notin> set xs then Some (insert_before x a xs) else None)"

fun ll_op :: "'n dlist \<Rightarrow> 'n list_op \<Rightarrow> 'n dlist option" where
  "ll_op d (Op_Prepend a) = Some (LL_PREPEND d a)"
| "ll_op d (Op_Append a) = LL_APPEND d a"
| "ll_op d (Op_Delete x) = LL_DELETE d x"
| "ll_op d (Op_Replace x a) = LL_REPLACE_ELEM d x a"
| "ll_op d (Op_Insert x a) = LL_PREPEND_ELEM d x a"

fun dl_op :: "'n dlist \<Rightarrow> 'n list_op \<Rightarrow> 'n dlist option" where
  "dl_op d (Op_Prepend a) = Some (DL_PREPEND d a)"
| "dl_op d (Op_Append a) = DL_APPEND d a"
| "dl_op d (Op_Delete x) = DL_DELETE d x"
| "dl_op d (Op_Replace x a) = DL_REPLACE_ELEM d x a"
| "dl_op d (Op_Insert x a) = DL_PREPEND_ELEM d x a"

fun cdl_op :: "'n dlist \<Rightarrow> 'n list_op \<Rightarrow> 'n dlist option" where
  "cdl_op d (Op_Prepend a) = CDL_PREPEND d a"
| "cdl_op d (Op_Append a) = None"
| "cdl_op d (Op_Delete x) = CDL_DELETE d x"
| "cdl_op d (Op_Replace x a) = CDL_REPLACE_ELEM d x a"
| "cdl_op d (Op_Insert x a) = CDL_PREPEND_ELEM d x a"

fun run_ops :: "('s \<Rightarrow> 'o \<Rightarrow> 's option) \<Rightarrow> 's \<Rightarrow> 'o list \<Rightarrow> 's option" where
  "run_ops f s [] = Some s"
| "run_ops f s (op # ops) = Option.bind (f s op) (\<lambda>s'. run_ops f s' ops)"

text \<open>A simulation of single operations is one of histories.\<close>

lemma run_ops_simulates:
  assumes "\<And>d xs op xs'. op \<in> set ops \<Longrightarrow> rep d xs \<Longrightarrow> apply_op xs op = Some xs' \<Longrightarrow>
      \<exists>d'. f d op = Some d' \<and> rep d' xs'"
  shows "rep d xs \<Longrightarrow> run_ops apply_op xs ops = Some xs' \<Longrightarrow>
    \<exists>d'. run_ops f d ops = Some d' \<and> rep d' xs'"
  using assms
proof (induction ops arbitrary: d xs)
  case (Cons op ops)
  from Cons.prems(2) obtain xs1 where xs1: "apply_op xs op = Some xs1"
    "run_ops apply_op xs1 ops = Some xs'"
    by (auto split: bind_splits)
  then obtain d1 where "f d op = Some d1" "rep d1 xs1"
    using Cons.prems(3) [of op d xs xs1] Cons.prems(1) by auto
  with Cons.IH [of d1 xs1] xs1(2) Cons.prems(3) show ?case by auto
qed simp

text \<open>An element of a distinct list splits it, and the list operations act at the split.\<close>

lemma list_op_split:
  assumes "distinct (ys @ x # zs)"
  shows "remove1 x (ys @ x # zs) = ys @ zs"
    "map (\<lambda>y. if y = x then a else y) (ys @ x # zs) = ys @ a # zs"
    "insert_before x a (ys @ x # zs) = ys @ a # x # zs"
proof -
  have n: "x \<notin> set ys" "x \<notin> set zs" using assms by auto
  show "remove1 x (ys @ x # zs) = ys @ zs" using n by (simp add: remove1_append)
  show "map (\<lambda>y. if y = x then a else y) (ys @ x # zs) = ys @ a # zs"
    using n by (auto intro: map_idI)
  show "insert_before x a (ys @ x # zs) = ys @ a # x # zs"
    using n(1) by (induction ys) auto
qed

text \<open>
  What a kind of list promises: each operation at a place of the list. \<open>has\<close> says which operations
  the kind has.
\<close>

locale list_operations =
  fixes rep :: "'s \<Rightarrow> 'n list \<Rightarrow> bool"
    and f :: "'s \<Rightarrow> 'n list_op \<Rightarrow> 's option"
    and has :: "'n list_op \<Rightarrow> bool"
  assumes rep_distinct: "rep d xs \<Longrightarrow> distinct xs"
    and prepend: "has (Op_Prepend a) \<Longrightarrow> rep d xs \<Longrightarrow> a \<notin> set xs \<Longrightarrow>
      \<exists>d'. f d (Op_Prepend a) = Some d' \<and> rep d' (a # xs)"
    and append: "has (Op_Append a) \<Longrightarrow> rep d xs \<Longrightarrow> a \<notin> set xs \<Longrightarrow>
      \<exists>d'. f d (Op_Append a) = Some d' \<and> rep d' (xs @ [a])"
    and delete: "has (Op_Delete x) \<Longrightarrow> rep d (ys @ x # zs) \<Longrightarrow>
      \<exists>d'. f d (Op_Delete x) = Some d' \<and> rep d' (ys @ zs)"
    and replace: "has (Op_Replace x a) \<Longrightarrow> rep d (ys @ x # zs) \<Longrightarrow> a \<notin> set (ys @ x # zs) \<Longrightarrow>
      \<exists>d'. f d (Op_Replace x a) = Some d' \<and> rep d' (ys @ a # zs)"
    and insert: "has (Op_Insert x a) \<Longrightarrow> rep d (ys @ x # zs) \<Longrightarrow> a \<notin> set (ys @ x # zs) \<Longrightarrow>
      \<exists>d'. f d (Op_Insert x a) = Some d' \<and> rep d' (ys @ a # x # zs)"
begin

lemma at_element:
  assumes "rep d xs" "x \<in> set xs"
  obtains ys zs where "xs = ys @ x # zs" "remove1 x xs = ys @ zs"
    "\<And>a. map (\<lambda>y. if y = x then a else y) xs = ys @ a # zs"
    "\<And>a. insert_before x a xs = ys @ a # x # zs"
proof -
  obtain ys zs where "xs = ys @ x # zs" using assms(2) by (auto dest: split_list)
  with list_op_split [of ys x zs] rep_distinct [OF assms(1)] show thesis by (intro that) auto
qed

lemma simulates:
  assumes "has op" "rep d xs" "apply_op xs op = Some xs'"
  shows "\<exists>d'. f d op = Some d' \<and> rep d' xs'"
proof (cases op)
  case (Op_Prepend a)
  then show ?thesis using assms prepend [of a d xs] by (auto split: if_splits)
next
  case (Op_Append a)
  then show ?thesis using assms append [of a d xs] by (auto split: if_splits)
next
  case (Op_Delete x)
  then have x: "x \<in> set xs" using assms(3) by (auto split: if_splits)
  obtain ys zs where "xs = ys @ x # zs" "remove1 x xs = ys @ zs"
    using at_element [OF assms(2) x] by metis
  then show ?thesis using Op_Delete assms delete [of x d ys zs] x by simp
next
  case (Op_Replace x a)
  then have x: "x \<in> set xs" "a \<notin> set xs" using assms(3) by (auto split: if_splits)
  obtain ys zs where "xs = ys @ x # zs" "map (\<lambda>y. if y = x then a else y) xs = ys @ a # zs"
    using at_element [OF assms(2) x(1)] by metis
  then show ?thesis using Op_Replace assms replace [of x a d ys zs] x by simp
next
  case (Op_Insert x a)
  then have x: "x \<in> set xs" "a \<notin> set xs" using assms(3) by (auto split: if_splits)
  obtain ys zs where "xs = ys @ x # zs" "insert_before x a xs = ys @ a # x # zs"
    using at_element [OF assms(2) x(1)] by metis
  then show ?thesis using Op_Insert assms insert [of x a d ys zs] x by simp
qed

lemma histories:
  assumes "rep d xs" "list_all has ops" "run_ops apply_op xs ops = Some xs'"
  shows "\<exists>d'. run_ops f d ops = Some d' \<and> rep d' xs'"
proof (rule run_ops_simulates [where rep = rep, OF _ assms(1,3)])
  show "\<exists>d'. f d op = Some d' \<and> rep d' xs'"
    if "op \<in> set ops" "rep d xs" "apply_op xs op = Some xs'" for d xs op xs'
    using simulates [OF _ that(2,3)] that(1) assms(2) by (auto simp: list_all_iff)
qed

end

fun not_append :: "'n list_op \<Rightarrow> bool" where
  "not_append (Op_Append a) \<longleftrightarrow> False"
| "not_append op \<longleftrightarrow> True"

interpretation llo: list_operations ll_rep ll_op "\<lambda>op. True"
  by unfold_locales
    (simp_all add: LL_PREPEND_rep LL_APPEND_rep LL_DELETE_at LL_REPLACE_ELEM_at
      LL_PREPEND_ELEM_at ll.rep_distinct)

interpretation dlo: list_operations dl_rep dl_op "\<lambda>op. True"
  by unfold_locales
    (simp_all add: ring_rep_distinct DL_APPEND_ring DL_DELETE_ring dl_rep_ring DL_PREPEND_rep
      DL_REPLACE_ELEM_at DL_PREPEND_ELEM_at)

interpretation cdlo: list_operations cdl_rep cdl_op not_append
  by unfold_locales
    (simp_all add: ring_rep_distinct CDL_PREPEND_rep CDL_DELETE_at CDL_REPLACE_ELEM_at
      CDL_PREPEND_ELEM_at)

section \<open>Properties\<close>

text \<open>
  C34. The pointer lists of utlist implement lists: take a structure that links the nodes \<open>xs\<close> and
  any sequence of operations that is defined on \<open>xs\<close> (a node put in is not linked yet, a node
  referred to is). Then the macros follow no null pointer, their loops end, and the structure
  links the list that the operations give: for the singly linked lists, the doubly linked ones
  and the circular ones.
\<close>

theorem utlist_implements_lists:
  assumes "run_ops apply_op xs ops = Some xs'"
  shows "(ll_rep d xs \<longrightarrow> (\<exists>d'. run_ops ll_op d ops = Some d' \<and> ll_rep d' xs')) \<and>
    (dl_rep d xs \<longrightarrow> (\<exists>d'. run_ops dl_op d ops = Some d' \<and> dl_rep d' xs')) \<and>
    (cdl_rep d xs \<longrightarrow> list_all not_append ops \<longrightarrow>
      (\<exists>d'. run_ops cdl_op d ops = Some d' \<and> cdl_rep d' xs'))"
  using llo.histories [OF _ _ assms] dlo.histories [OF _ _ assms] cdlo.histories [OF _ _ assms]
  by (auto simp: list_all_iff)

theorem utlist_implements_lists_witness:
  "\<exists>d. run_ops dl_op \<lparr>dl_head = None, dl_prev = Map.empty, dl_next = Map.empty\<rparr>
      [Op_Append 1, Op_Prepend 0, Op_Insert 1 5, Op_Replace 0 7, Op_Delete (1::nat)] = Some d \<and>
    dl_rep d [7, 5]"
  using utlist_implements_lists
    [of "[]" "[Op_Append 1, Op_Prepend 0, Op_Insert 1 5, Op_Replace 0 7, Op_Delete (1::nat)]" "[7, 5]"
      "\<lparr>dl_head = None, dl_prev = Map.empty, dl_next = Map.empty\<rparr>"]
  by (simp add: dl_rep_def [of _ "[]"])

end
