(* ===== verification/FB_Utlist_Sort.thy ===== *)
theory FB_Utlist_Sort
  imports FB_Utlist_Double "HOL-Library.Multiset"
begin

text \<open>
  The sort macros of \<open>uthash/utlist.h\<close>: \<open>LL_SORT\<close>, \<open>DL_SORT\<close> and \<open>CDL_SORT\<close>, the bottom-up merge
  sort that relinks the nodes in place. The three macros are the same text up to how a walk
  recognises the end of the list, whether \<open>prev\<close> is written, and how a pass closes the list;
  the shared loops take these as arguments. The interface \<open>sortable_list\<close> states what the loops
  need of a kind of list; it is interpreted for the singly linked, the doubly linked and the
  circular lists, and the sort is proved once to be the stable sort of the library.

  The counters of the macros are \<open>int\<close>. \<open>insize\<close> is doubled in every pass and \<open>nmerges\<close> counted
  up: a value beyond \<open>INT_MAX\<close> is the undefined behaviour \<open>None\<close>. The others never exceed \<open>insize\<close>.
\<close>

section \<open>The loops\<close>

abbreviation INT_MAX :: nat where
  "INT_MAX \<equiv> 2147483647"

definition int_count :: "nat \<Rightarrow> nat option" where
  "int_count n = (if n \<le> INT_MAX then Some n else None)"

text \<open>
  \<open>_NEXT\<close>, and the comparison with \<open>_ls_oldhead\<close> that ends a walk of a circular list. The linear
  lists have no old head: their walk ends at \<open>NULL\<close>.
\<close>

definition ls_next :: "'n option \<Rightarrow> 'n dlist \<Rightarrow> 'n \<Rightarrow> 'n option" where
  "ls_next oldhead d x = (if dl_next d x = oldhead then None else dl_next d x)"

text \<open>The \<open>for\<close> loop that steps \<open>q\<close> over the run of \<open>p\<close>.\<close>

fun ls_split :: "('n \<Rightarrow> 'n option) \<Rightarrow> nat \<Rightarrow> 'n \<Rightarrow> nat \<Rightarrow> nat \<times> 'n option" where
  "ls_split nxt 0 q psize = (psize, Some q)"
| "ls_split nxt (Suc i) q psize =
     (case nxt q of
        None \<Rightarrow> (psize + 1, None)
      | Some q' \<Rightarrow> ls_split nxt i q' (psize + 1))"

text \<open>Linking the element \<open>e\<close> behind the tail, or as the head.\<close>

definition ls_link :: "bool \<Rightarrow> 'n dlist \<Rightarrow> 'n option \<Rightarrow> 'n \<Rightarrow> 'n dlist" where
  "ls_link dbl d tail e =
     (let d = (case tail of
          Some t \<Rightarrow> d\<lparr>dl_next := (dl_next d)(t := Some e)\<rparr>
        | None \<Rightarrow> d\<lparr>dl_head := Some e\<rparr>)
      in if dbl then d\<lparr>dl_prev := (dl_prev d)(e := tail)\<rparr> else d)"

text \<open>
  The loop that merges the run of \<open>p\<close> with the run of \<open>q\<close>. Every turn takes an element from one of
  them, so it ends; \<open>None\<close> is following a null pointer.
\<close>

function ls_merge :: "'n option \<Rightarrow> bool \<Rightarrow> ('n \<Rightarrow> 'n \<Rightarrow> int) \<Rightarrow> 'n dlist \<Rightarrow> 'n option \<Rightarrow> nat \<Rightarrow>
    'n option \<Rightarrow> nat \<Rightarrow> 'n option \<Rightarrow> ('n dlist \<times> 'n option \<times> 'n option) option" where
  "ls_merge oldhead dbl cmp d p psize q qsize tail =
     (if psize = 0 \<and> (qsize = 0 \<or> q = None) then Some (d, q, tail)
      else if psize = 0 then do {
        e \<leftarrow> q;
        ls_merge oldhead dbl cmp (ls_link dbl d tail e) p psize (ls_next oldhead d e) (qsize - 1)
          (Some e) }
      else if qsize = 0 \<or> q = None then do {
        e \<leftarrow> p;
        ls_merge oldhead dbl cmp (ls_link dbl d tail e) (ls_next oldhead d e) (psize - 1) q qsize
          (Some e) }
      else do {
        a \<leftarrow> p;
        b \<leftarrow> q;
        if cmp a b \<le> 0
        then ls_merge oldhead dbl cmp (ls_link dbl d tail a) (ls_next oldhead d a) (psize - 1) q
          qsize (Some a)
        else ls_merge oldhead dbl cmp (ls_link dbl d tail b) p psize (ls_next oldhead d b)
          (qsize - 1) (Some b) })"
  by pat_completeness auto

termination
  by (relation "measure (\<lambda>(oldhead, dbl, cmp, d, p, psize, q, qsize, tail). psize + qsize)") auto

declare ls_merge.simps [simp del]

text \<open>One pass over the list, merging the runs in pairs, and the passes with doubled runs, which
  leave the list and its tail. \<open>cnt\<close> is
  the type of the two counters that grow with the list.\<close>

partial_function (option) ls_pass :: "(nat \<Rightarrow> nat option) \<Rightarrow> 'n option \<Rightarrow> bool \<Rightarrow> ('n \<Rightarrow> 'n \<Rightarrow> int) \<Rightarrow> nat \<Rightarrow> 'n dlist \<Rightarrow>
    'n option \<Rightarrow> 'n option \<Rightarrow> nat \<Rightarrow> ('n dlist \<times> 'n option \<times> nat) option" where
  "ls_pass cnt oldhead dbl cmp insize d p tail nmerges =
     (case p of
        None \<Rightarrow> Some (d, tail, nmerges)
      | Some x \<Rightarrow>
          Option.bind (cnt (nmerges + 1)) (\<lambda>nmerges.
          case ls_split (ls_next oldhead d) insize x 0 of (psize, q) \<Rightarrow>
          Option.bind (ls_merge oldhead dbl cmp d p psize q insize tail) (\<lambda>(d, q, tail).
            ls_pass cnt oldhead dbl cmp insize d q tail nmerges)))"

declare ls_pass.simps [code]

partial_function (option) ls_passes :: "(nat \<Rightarrow> nat option) \<Rightarrow> ('n option \<Rightarrow> 'n option) \<Rightarrow> bool \<Rightarrow>
    ('n dlist \<Rightarrow> 'n option \<Rightarrow> 'n dlist option) \<Rightarrow> ('n \<Rightarrow> 'n \<Rightarrow> int) \<Rightarrow> nat \<Rightarrow> 'n dlist \<Rightarrow>
    ('n dlist \<times> 'n option) option" where
  "ls_passes cnt old dbl close cmp insize d =
     Option.bind
       (ls_pass cnt (old (dl_head d)) dbl cmp insize (d\<lparr>dl_head := None\<rparr>) (dl_head d) None 0)
       (\<lambda>(d, tail, nmerges).
     Option.bind (close d tail) (\<lambda>d.
     Option.bind (cnt (insize * 2)) (\<lambda>insize.
       if nmerges \<le> 1 then Some (d, tail) else ls_passes cnt old dbl close cmp insize d)))"

declare ls_passes.simps [code]

text \<open>How a pass closes the list, for each kind of list.\<close>

definition ls_close_LL :: "'n dlist \<Rightarrow> 'n option \<Rightarrow> 'n dlist option" where
  "ls_close_LL d tail =
     Some (case tail of Some t \<Rightarrow> d\<lparr>dl_next := (dl_next d)(t := None)\<rparr> | None \<Rightarrow> d)"

definition ls_close_DL :: "'n dlist \<Rightarrow> 'n option \<Rightarrow> 'n dlist option" where
  "ls_close_DL d tail = do {
     h \<leftarrow> dl_head d;
     let d = d\<lparr>dl_prev := (dl_prev d)(h := tail)\<rparr>;
     t \<leftarrow> tail;
     Some (d\<lparr>dl_next := (dl_next d)(t := None)\<rparr>) }"

definition ls_close_CDL :: "'n dlist \<Rightarrow> 'n option \<Rightarrow> 'n dlist option" where
  "ls_close_CDL d tail = do {
     h \<leftarrow> dl_head d;
     let d = d\<lparr>dl_prev := (dl_prev d)(h := tail)\<rparr>;
     t \<leftarrow> tail;
     Some (d\<lparr>dl_next := (dl_next d)(t := dl_head d)\<rparr>) }"

definition LL_SORT :: "('n \<Rightarrow> 'n \<Rightarrow> int) \<Rightarrow> 'n dlist \<Rightarrow> 'n dlist option" where
  "LL_SORT cmp d =
     (if dl_head d \<noteq> None then
        map_option fst (ls_passes int_count (\<lambda>list. None) False ls_close_LL cmp 1 d)
      else Some d)"

definition DL_SORT :: "('n \<Rightarrow> 'n \<Rightarrow> int) \<Rightarrow> 'n dlist \<Rightarrow> 'n dlist option" where
  "DL_SORT cmp d =
     (if dl_head d \<noteq> None then
        map_option fst (ls_passes int_count (\<lambda>list. None) True ls_close_DL cmp 1 d)
      else Some d)"

definition CDL_SORT :: "('n \<Rightarrow> 'n \<Rightarrow> int) \<Rightarrow> 'n dlist \<Rightarrow> 'n dlist option" where
  "CDL_SORT cmp d =
     (if dl_head d \<noteq> None then
        map_option fst (ls_passes int_count (\<lambda>list. list) True ls_close_CDL cmp 1 d)
      else Some d)"

section \<open>The sort on lists\<close>

text \<open>What a merge and a pass do to the sequence of nodes.\<close>

fun merge_by :: "('n \<Rightarrow> 'n \<Rightarrow> int) \<Rightarrow> 'n list \<Rightarrow> 'n list \<Rightarrow> 'n list" where
  "merge_by cmp [] ys = ys"
| "merge_by cmp xs [] = xs"
| "merge_by cmp (x # xs) (y # ys) =
     (if cmp x y \<le> 0 then x # merge_by cmp xs (y # ys) else y # merge_by cmp (x # xs) ys)"

function merge_runs :: "('n \<Rightarrow> 'n \<Rightarrow> int) \<Rightarrow> nat \<Rightarrow> 'n list \<Rightarrow> 'n list" where
  "merge_runs cmp n xs =
     (if xs = [] \<or> n = 0 then xs
      else merge_by cmp (take n xs) (take n (drop n xs)) @ merge_runs cmp n (drop (2 * n) xs))"
  by pat_completeness auto

termination
  by (relation "measure (\<lambda>(cmp, n, xs). length xs)") auto

function runs_sorted :: "('n \<Rightarrow> 'k::linorder) \<Rightarrow> nat \<Rightarrow> 'n list \<Rightarrow> bool" where
  "runs_sorted f n xs \<longleftrightarrow>
     (if xs = [] \<or> n = 0 then True
      else sorted (map f (take n xs)) \<and> runs_sorted f n (drop n xs))"
  by pat_completeness auto

termination
  by (relation "measure (\<lambda>(f, n, xs). length xs)") (auto simp: diff_less)

declare merge_runs.simps [simp del] runs_sorted.simps [simp del]

lemma merge_by_Nil [simp]: "merge_by cmp xs [] = xs"
  by (cases xs) auto

lemma mset_merge_by [simp]: "mset (merge_by cmp xs ys) = mset xs + mset ys"
  by (induction cmp xs ys rule: merge_by.induct) auto

lemma set_merge_by [simp]: "set (merge_by cmp xs ys) = set xs \<union> set ys"
  by (induction cmp xs ys rule: merge_by.induct) auto

lemma length_merge_by [simp]: "length (merge_by cmp xs ys) = length xs + length ys"
  by (induction cmp xs ys rule: merge_by.induct) auto

text \<open>A comparison function that orders the nodes by a key.\<close>

definition orders :: "('n \<Rightarrow> 'n \<Rightarrow> int) \<Rightarrow> ('n \<Rightarrow> 'k::linorder) \<Rightarrow> bool" where
  "orders cmp f \<longleftrightarrow> (\<forall>x y. cmp x y \<le> 0 \<longleftrightarrow> f x \<le> f y)"

lemma ordersD: "orders cmp f \<Longrightarrow> cmp x y \<le> 0 \<longleftrightarrow> f x \<le> f y"
  by (simp add: orders_def)

lemma sorted_merge_by:
  assumes "orders cmp f" "sorted (map f xs)" "sorted (map f ys)"
  shows "sorted (map f (merge_by cmp xs ys))"
  using assms
proof (induction cmp xs ys rule: merge_by.induct)
  case (3 cmp x xs y ys)
  note le = ordersD [OF "3.prems"(1), of x y]
  show ?case
  proof (cases "cmp x y \<le> 0")
    case True
    with le have "\<forall>z\<in>set ys. f x \<le> f z" using "3.prems"(3) by (auto intro: order_trans)
    then show ?thesis using True le 3 by (auto simp: ball_Un)
  next
    case False
    with le have "f y \<le> f x" by simp
    then have "\<forall>z\<in>set xs. f y \<le> f z" using "3.prems"(2) by (auto intro: order_trans)
    then show ?thesis using False \<open>f y \<le> f x\<close> 3 by (auto simp: ball_Un)
  qed
qed auto

text \<open>A merge takes equal elements from the left run first.\<close>

lemma stable_merge_by:
  assumes "orders cmp f" "sorted (map f xs)" "sorted (map f ys)"
  shows "filter (\<lambda>x. k = f x) (merge_by cmp xs ys) =
    filter (\<lambda>x. k = f x) xs @ filter (\<lambda>x. k = f x) ys"
  using assms
proof (induction cmp xs ys rule: merge_by.induct)
  case (3 cmp x xs y ys)
  show ?case
  proof (cases "cmp x y \<le> 0")
    case False
    then have "f y < f x" using ordersD [OF "3.prems"(1), of x y] by (simp add: not_le)
    then have "k = f y \<Longrightarrow> filter (\<lambda>x. k = f x) (x # xs) = []"
      using "3.prems"(2) by (auto simp: filter_empty_conv)
    then show ?thesis using False 3 by auto
  qed (use 3 in auto)
qed auto

text \<open>The loops unfold under their conditions only.\<close>

lemma merge_runs_Nil [simp]: "merge_runs cmp n [] = []"
  by (simp add: merge_runs.simps)

lemma merge_runs_step:
  "0 < n \<Longrightarrow> xs \<noteq> [] \<Longrightarrow>
   merge_runs cmp n xs =
     merge_by cmp (take n xs) (take n (drop n xs)) @ merge_runs cmp n (drop (2 * n) xs)"
  by (subst merge_runs.simps) simp

lemma runs_sorted_Nil [simp]: "runs_sorted f n []"
  by (simp add: runs_sorted.simps)

lemma runs_sorted_step:
  "0 < n \<Longrightarrow> xs \<noteq> [] \<Longrightarrow>
   runs_sorted f n xs \<longleftrightarrow> sorted (map f (take n xs)) \<and> runs_sorted f n (drop n xs)"
  by (subst runs_sorted.simps) simp

lemma merge_runs_induct [consumes 1, case_names Nil step]:
  assumes "0 < n" "P []"
    and "\<And>xs. xs \<noteq> [] \<Longrightarrow> P (drop (2 * n) xs) \<Longrightarrow> P xs"
  shows "P xs"
proof (induction xs rule: length_induct)
  case (1 xs)
  show ?case
  proof (cases "xs = []")
    case False
    with assms(1) have "length (drop (2 * n) xs) < length xs" by simp
    with 1 have "P (drop (2 * n) xs)" by blast
    with False show ?thesis by (rule assms(3))
  qed (simp add: assms(2))
qed

lemma take_take_drop: "take n xs @ take n (drop n xs) @ drop (2 * n) xs = xs"
  by (metis append_take_drop_id drop_drop mult_2)

lemma mset_merge_runs:
  assumes n: "0 < n"
  shows "mset (merge_runs cmp n xs) = mset xs"
  using n
proof (induction xs rule: merge_runs_induct)
  case (step xs)
  have "mset (take n xs @ take n (drop n xs) @ drop (2 * n) xs) = mset xs"
    by (simp only: take_take_drop)
  then show ?case using step n by (simp add: merge_runs_step add.assoc)
qed simp

lemma length_merge_runs: "0 < n \<Longrightarrow> length (merge_runs cmp n xs) = length xs"
  by (rule mset_eq_length [OF mset_merge_runs])

lemma set_merge_runs: "0 < n \<Longrightarrow> set (merge_runs cmp n xs) = set xs"
  by (rule mset_eq_setD [OF mset_merge_runs])

lemma distinct_merge_runs: "0 < n \<Longrightarrow> distinct (merge_runs cmp n xs) = distinct xs"
  by (rule mset_eq_imp_distinct_iff [OF mset_merge_runs])

lemma runs_sorted_short:
  "runs_sorted f n xs \<Longrightarrow> 0 < n \<Longrightarrow> length xs \<le> n \<Longrightarrow> sorted (map f xs)"
  by (cases "xs = []") (auto simp: runs_sorted_step)

lemma runs_sorted_one: "runs_sorted f 1 xs"
  by (induction xs) (auto simp: runs_sorted_step)

lemma runs_sorted_pair:
  assumes "0 < n" "xs \<noteq> []" "runs_sorted f n xs"
  shows "sorted (map f (take n xs))" "sorted (map f (take n (drop n xs)))"
    "runs_sorted f n (drop (2 * n) xs)"
proof -
  have d: "runs_sorted f n (drop n xs)" "drop (2 * n) xs = drop n (drop n xs)"
    using assms by (simp_all add: runs_sorted_step mult_2)
  show "sorted (map f (take n xs))" using assms by (simp add: runs_sorted_step)
  show "sorted (map f (take n (drop n xs)))" "runs_sorted f n (drop (2 * n) xs)"
    using d assms(1) runs_sorted_step [of n "drop n xs" f]
    by (cases "drop n xs = []"; simp)+
qed

lemma merge_runs_sorted:
  assumes cmp: "orders cmp f" and n: "0 < n"
  shows "runs_sorted f n xs \<Longrightarrow> runs_sorted f (2 * n) (merge_runs cmp n xs)"
  using n
proof (induction xs rule: merge_runs_induct)
  case (step xs)
  let ?m = "merge_by cmp (take n xs) (take n (drop n xs))"
  note pair = runs_sorted_pair [OF n step(1,3)]
  have m: "sorted (map f ?m)" by (rule sorted_merge_by [OF cmp pair(1,2)])
  have eq: "merge_runs cmp n xs = ?m @ merge_runs cmp n (drop (2 * n) xs)"
    using n step(1) by (rule merge_runs_step)
  have ne: "?m @ zs \<noteq> []" for zs
    using n step(1) by (metis append_is_Nil_conv length_greater_0_conv length_merge_by
        length_0_conv add_is_0 length_take min_0R min_def not_less_zero take_eq_Nil)
  show ?case
  proof (cases "length xs \<le> 2 * n")
    case True
    then have "length ?m \<le> 2 * n" "drop (2 * n) xs = []" by auto
    then show ?thesis using m n ne [of "[]"] by (simp add: eq runs_sorted_step)
  next
    case False
    then have "length ?m = 2 * n" by simp
    then show ?thesis using m n ne step.IH [OF pair(3)] by (simp add: eq runs_sorted_step)
  qed
qed simp

lemma merge_runs_stable:
  assumes cmp: "orders cmp f" and n: "0 < n"
  shows "runs_sorted f n xs \<Longrightarrow> filter (\<lambda>x. k = f x) (merge_runs cmp n xs) = filter (\<lambda>x. k = f x) xs"
  using n
proof (induction xs rule: merge_runs_induct)
  case (step xs)
  note pair = runs_sorted_pair [OF n step(1,3)]
  have "filter (\<lambda>x. k = f x) (take n xs @ take n (drop n xs) @ drop (2 * n) xs) =
    filter (\<lambda>x. k = f x) xs"
    by (simp only: take_take_drop)
  then show ?case
    using step.IH [OF pair(3)] stable_merge_by [OF cmp pair(1,2), of k] n step(1)
    by (simp add: merge_runs_step)
qed simp

section \<open>The loops on the nodes\<close>

text \<open>The part of the list that is built so far in a pass.\<close>

definition built :: "bool \<Rightarrow> 'n dlist \<Rightarrow> 'n list \<Rightarrow> bool" where
  "built dbl d out \<longleftrightarrow> dl_head d = list_head out \<and> linked dbl d out \<and>
     (dbl \<longrightarrow> out \<noteq> [] \<longrightarrow> dl_prev d (hd out) = None)"

definition same_links :: "'n set \<Rightarrow> 'n dlist \<Rightarrow> 'n dlist \<Rightarrow> bool" where
  "same_links A d d' \<longleftrightarrow> (\<forall>x. x \<notin> A \<longrightarrow> dl_next d' x = dl_next d x \<and> dl_prev d' x = dl_prev d x)"

lemma same_links_refl [simp]: "same_links A d d"
  by (simp add: same_links_def)

lemma same_links_trans:
  "same_links A d d' \<Longrightarrow> same_links B d' d'' \<Longrightarrow> A \<subseteq> C \<Longrightarrow> B \<subseteq> C \<Longrightarrow> same_links C d d''"
  unfolding same_links_def by (metis subsetD)

lemma ls_next_cong: "dl_next d' x = dl_next d x \<Longrightarrow> ls_next oh d' x = ls_next oh d x"
  by (simp add: ls_next_def)

lemma built_link:
  assumes "built dbl d out" "distinct (out @ [e])"
  shows "built dbl (ls_link dbl d (list_last out) e) (out @ [e])"
proof (cases out rule: rev_cases)
  case Nil
  then show ?thesis by (simp add: built_def ls_link_def Let_def)
next
  case (snoc us t)
  let ?d = "ls_link dbl d (list_last out) e"
  have "linked dbl ?d out"
    by (rule linked_cong [of dbl d])
      (use assms snoc in \<open>auto simp: built_def ls_link_def Let_def dest: list.set_sel(2) [rotated]\<close>)
  moreover have "dl_next ?d (last out) = Some e" "dbl \<Longrightarrow> dl_prev ?d e = Some (last out)"
    "dl_head ?d = dl_head d"
    using snoc by (auto simp: ls_link_def Let_def)
  moreover have out: "out \<noteq> []" using snoc by simp
  moreover have "hd out \<noteq> e" using assms(2) hd_in_set [OF out] by auto
  then have "dl_prev ?d (hd out) = dl_prev d (hd out)" by (simp add: ls_link_def Let_def split: option.splits)
  ultimately show ?thesis
    using assms(1) by (cases dbl) (simp_all add: built_def linked_snoc list_head_append)
qed

lemma same_links_link:
  "out \<noteq> [] \<longrightarrow> last out \<in> A \<Longrightarrow> e \<in> A \<Longrightarrow>
   same_links A d (ls_link dbl d (list_last out) e)"
  by (auto simp: same_links_def ls_link_def Let_def list_last_def)

lemma ls_next_link:
  "out = [] \<or> x \<noteq> last out \<Longrightarrow> ls_next oh (ls_link dbl d (list_last out) e) x = ls_next oh d x"
  by (rule ls_next_cong) (auto simp: ls_link_def Let_def list_last_def)

lemma ls_split_walk:
  "walks_to_end g (x # xs) \<Longrightarrow>
   ls_split g n x k = (k + length (take n (x # xs)), list_head (drop n (x # xs)))"
proof (induction n arbitrary: x xs k)
  case (Suc n)
  show ?case
  proof (cases xs)
    case (Cons y ys)
    with Suc.prems Suc.IH [of y ys "k + 1"] show ?thesis by simp
  qed (use Suc.prems in simp)
qed simp

lemma merge_induct [case_names Nil right left both]:
  assumes "P [] []"
    and "\<And>y ys. P [] ys \<Longrightarrow> P [] (y # ys)"
    and "\<And>x xs. P xs [] \<Longrightarrow> P (x # xs) []"
    and "\<And>x xs y ys. (c x y \<Longrightarrow> P xs (y # ys)) \<Longrightarrow> (\<not> c x y \<Longrightarrow> P (x # xs) ys) \<Longrightarrow>
      P (x # xs) (y # ys)"
  shows "P xs ys"
  using assms by induction_schema (pat_completeness, lexicographic_order)

text \<open>The four branches of the merging loop.\<close>

lemma ls_merge_branches:
  "psize = 0 \<Longrightarrow> qsize = 0 \<or> q = None \<Longrightarrow>
     ls_merge oh dbl cmp d p psize q qsize tail = Some (d, q, tail)"
  "psize = 0 \<Longrightarrow> 0 < qsize \<Longrightarrow> q = Some e \<Longrightarrow>
     ls_merge oh dbl cmp d p psize q qsize tail =
     ls_merge oh dbl cmp (ls_link dbl d tail e) p psize (ls_next oh d e) (qsize - 1) (Some e)"
  "0 < psize \<Longrightarrow> qsize = 0 \<or> q = None \<Longrightarrow> p = Some e \<Longrightarrow>
     ls_merge oh dbl cmp d p psize q qsize tail =
     ls_merge oh dbl cmp (ls_link dbl d tail e) (ls_next oh d e) (psize - 1) q qsize (Some e)"
  "0 < psize \<Longrightarrow> 0 < qsize \<Longrightarrow> p = Some a \<Longrightarrow> q = Some b \<Longrightarrow> cmp a b \<le> 0 \<Longrightarrow>
     ls_merge oh dbl cmp d p psize q qsize tail =
     ls_merge oh dbl cmp (ls_link dbl d tail a) (ls_next oh d a) (psize - 1) q qsize (Some a)"
  "0 < psize \<Longrightarrow> 0 < qsize \<Longrightarrow> p = Some a \<Longrightarrow> q = Some b \<Longrightarrow> \<not> cmp a b \<le> 0 \<Longrightarrow>
     ls_merge oh dbl cmp d p psize q qsize tail =
     ls_merge oh dbl cmp (ls_link dbl d tail b) p psize (ls_next oh d b) (qsize - 1) (Some b)"
  by (subst ls_merge.simps; simp)+

text \<open>
  What holds at the head of the merging loop: the nodes \<open>out\<close> are built, \<open>p\<close> is at the nodes \<open>xs\<close> of
  its run, \<open>q\<close> at the nodes \<open>ys\<close> of its own and the rest of the list behind them.
\<close>

definition merging :: "'n option \<Rightarrow> bool \<Rightarrow> 'n dlist \<Rightarrow> 'n list \<Rightarrow> 'n list \<Rightarrow> 'n list \<Rightarrow> 'n list \<Rightarrow> bool" where
  "merging oh dbl d out xs ys rest \<longleftrightarrow> built dbl d out \<and> distinct (out @ xs @ ys @ rest) \<and>
     walks (ls_next oh d) xs \<and> walks_to_end (ls_next oh d) (ys @ rest)"

lemma merging_link:
  assumes "merging oh dbl d out xs ys rest"
  shows "xs = e # xs' \<Longrightarrow>
      merging oh dbl (ls_link dbl d (list_last out) e) (out @ [e]) xs' ys rest"
    and "ys = e # ys' \<Longrightarrow>
      merging oh dbl (ls_link dbl d (list_last out) e) (out @ [e]) xs ys' rest"
proof -
  let ?d = "ls_link dbl d (list_last out) e"
  have nx: "x \<in> set (xs @ ys @ rest) \<Longrightarrow> ls_next oh ?d x = ls_next oh d x" for x
    by (rule ls_next_link) (use assms in \<open>auto simp: merging_def dest: last_in_set\<close>)
  show "xs = e # xs' \<Longrightarrow> merging oh dbl ?d (out @ [e]) xs' ys rest"
    "ys = e # ys' \<Longrightarrow> merging oh dbl ?d (out @ [e]) xs ys' rest"
    using assms nx by (auto simp: merging_def intro: built_link elim!: walks_cong walks_to_end_cong)
qed

lemma ls_merge_spec:
  assumes "merging oh dbl d out xs ys rest"
    and "xs = [] \<or> p = list_head xs"
    and "length ys = qsize \<or> rest = [] \<and> length ys \<le> qsize"
  shows "\<exists>d'. ls_merge oh dbl cmp d p (length xs) (list_head (ys @ rest)) qsize (list_last out) =
      Some (d', list_head rest, list_last (out @ merge_by cmp xs ys)) \<and>
    merging oh dbl d' (out @ merge_by cmp xs ys) [] [] rest \<and>
    same_links (set (out @ xs @ ys)) d d'"
  using assms
proof (induction xs ys arbitrary: d out p qsize rule: merge_induct [where c = "\<lambda>x y. cmp x y \<le> 0"])
  case Nil
  then have "qsize = 0 \<or> list_head rest = None" by auto
  with Nil show ?case by (auto simp: ls_merge_branches)
next
  case (right y ys)
  let ?d = "ls_link dbl d (list_last out) y"
  have "ls_next oh d y = list_head (ys @ rest)"
    using right.prems(1) by (simp add: merging_def)
  moreover have "length ys = qsize - 1 \<or> rest = [] \<and> length ys \<le> qsize - 1" "0 < qsize"
    using right.prems(3) by auto
  ultimately show ?case
    using right.IH [OF merging_link(2) [OF right.prems(1) refl], of p "qsize - 1"]
      same_links_link [of out "set (out @ [] @ y # ys)" y d dbl]
    by (fastforce simp: ls_merge_branches(2) intro: same_links_trans)
next
  case (left x xs)
  let ?d = "ls_link dbl d (list_last out) x"
  have "xs = [] \<or> ls_next oh d x = list_head xs"
    using left.prems(1) by (simp add: merging_def)
  moreover have "qsize = 0 \<or> list_head rest = None" "p = Some x"
    using left.prems by auto
  ultimately show ?case
    using left.IH [OF merging_link(1) [OF left.prems(1) refl] _ left.prems(3), of "ls_next oh d x"]
      same_links_link [of out "set (out @ (x # xs) @ [])" x d dbl]
    by (fastforce simp: ls_merge_branches(3) intro: same_links_trans)
next
  case (both x xs y ys)
  let ?d = "\<lambda>e. ls_link dbl d (list_last out) e"
  have nx: "xs = [] \<or> ls_next oh d x = list_head xs" "ls_next oh d y = list_head (ys @ rest)"
    using both.prems(1) by (simp_all add: merging_def)
  have q: "length ys = qsize - 1 \<or> rest = [] \<and> length ys \<le> qsize - 1" "0 < qsize" "p = Some x"
    using both.prems by auto
  show ?case
  proof (cases "cmp x y \<le> 0")
    case True
    with both.IH(1) [OF True merging_link(1) [OF both.prems(1) refl] nx(1) both.prems(3)] nx q
      same_links_link [of out "set (out @ (x # xs) @ y # ys)" x d dbl]
    show ?thesis
      by (fastforce simp: ls_merge_branches(4) intro: same_links_trans)
  next
    case False
    with both.IH(2) [OF False merging_link(2) [OF both.prems(1) refl], of p "qsize - 1"] nx q
      same_links_link [of out "set (out @ (x # xs) @ y # ys)" y d dbl]
    show ?thesis
      by (fastforce simp: ls_merge_branches(5) intro: same_links_trans)
  qed
qed

text \<open>A pass merges the runs in pairs and counts the pairs.\<close>

lemma pairs_step:
  fixes n l :: nat
  assumes "0 < n" "0 < l"
  shows "(l + 2 * n - 1) div (2 * n) = Suc ((l - 2 * n + 2 * n - 1) div (2 * n))"
proof -
  have "(l + 2 * n - 1) div (2 * n) = ((l - 1) + 2 * n) div (2 * n)"
    using assms by (intro arg_cong [where f = "\<lambda>a. a div (2 * n)"]) simp
  also have "\<dots> = (l - 1) div (2 * n) + 1" using assms by (intro div_add_self2) simp
  also have "(l - 1) div (2 * n) = (l - 2 * n + 2 * n - 1) div (2 * n)"
    using assms by (cases "2 * n \<le> l") auto
  finally show ?thesis by simp
qed

lemma ls_pass_spec:
  assumes "0 < n"
  shows "built dbl d out \<Longrightarrow> distinct (out @ xs) \<Longrightarrow> walks_to_end (ls_next oh d) xs \<Longrightarrow>
    (\<And>m. m \<le> k + length xs \<Longrightarrow> cnt m = Some m) \<Longrightarrow>
    \<exists>d'. ls_pass cnt oh dbl cmp n d (list_head xs) (list_last out) k =
        Some (d', list_last (out @ merge_runs cmp n xs), k + (length xs + 2 * n - 1) div (2 * n)) \<and>
      built dbl d' (out @ merge_runs cmp n xs) \<and> same_links (set (out @ xs)) d d'"
  using assms
proof (induction xs arbitrary: d out k rule: merge_runs_induct)
  case Nil
  then show ?case using assms by (subst ls_pass.simps) auto
next
  case (step xs)
  let ?ps = "take n xs" and ?qs = "take n (drop n xs)" and ?rest = "drop (2 * n) xs"
  let ?m = "merge_by cmp ?ps ?qs"
  obtain x zs where xs: "xs = x # zs" using step.hyps by (cases xs) auto
  have "merging oh dbl d out ?ps ?qs ?rest"
    using step.prems(1-3) walks_to_end_append [of "ls_next oh d" ?ps "?qs @ ?rest"]
    by (simp add: merging_def take_take_drop)
  moreover have "?ps = [] \<or> list_head xs = list_head ?ps"
    using \<open>0 < n\<close> xs by (cases n) auto
  moreover have "length ?qs = n \<or> ?rest = [] \<and> length ?qs \<le> n" by auto
  ultimately obtain d1 where d1:
    "ls_merge oh dbl cmp d (list_head xs) (length ?ps) (list_head (?qs @ ?rest)) n (list_last out) =
       Some (d1, list_head ?rest, list_last (out @ ?m))"
    "merging oh dbl d1 (out @ ?m) [] [] ?rest" "same_links (set (out @ ?ps @ ?qs)) d d1"
    using ls_merge_spec [of oh dbl d out ?ps ?qs ?rest "list_head xs" n cmp] by auto
  have split: "ls_split (ls_next oh d) n x 0 = (length ?ps, list_head (?qs @ ?rest))"
    using ls_split_walk [of "ls_next oh d" x zs n 0] step.prems(3) xs
    by (metis add_0 append_take_drop_id drop_drop mult_2)
  have cnt: "cnt (k + 1) = Some (Suc k)" using step.prems(4) [of "k + 1"] xs by simp
  have "\<exists>d'. ls_pass cnt oh dbl cmp n d1 (list_head ?rest) (list_last (out @ ?m)) (Suc k) =
      Some (d', list_last ((out @ ?m) @ merge_runs cmp n ?rest),
        Suc k + (length ?rest + 2 * n - 1) div (2 * n)) \<and>
    built dbl d' ((out @ ?m) @ merge_runs cmp n ?rest) \<and> same_links (set ((out @ ?m) @ ?rest)) d1 d'"
  proof (rule step.IH)
    show "built dbl d1 (out @ ?m)" "distinct ((out @ ?m) @ ?rest)"
      "walks_to_end (ls_next oh d1) ?rest"
      using d1(2) by (auto simp: merging_def)
    show "cnt m = Some m" if "m \<le> Suc k + length ?rest" for m
      using that step.prems(4) [of m] xs \<open>0 < n\<close> by simp
  qed
  then obtain d2 where d2:
    "ls_pass cnt oh dbl cmp n d1 (list_head ?rest) (list_last (out @ ?m)) (Suc k) =
      Some (d2, list_last (out @ merge_runs cmp n xs), k + (length xs + 2 * n - 1) div (2 * n))"
    "built dbl d2 (out @ merge_runs cmp n xs)" "same_links (set ((out @ ?m) @ ?rest)) d1 d2"
    using pairs_step [OF \<open>0 < n\<close>, of "length xs"] xs step.hyps \<open>0 < n\<close>
    by (auto simp: merge_runs_step)
  have sub: "set ?ps \<subseteq> set xs" "set ?qs \<subseteq> set xs" "set ?rest \<subseteq> set xs"
    by (meson set_take_subset set_drop_subset subset_trans)+
  then have "same_links (set (out @ xs)) d d2"
    by (intro same_links_trans [OF d1(3) d2(3)]) auto
  moreover have "ls_pass cnt oh dbl cmp n d (list_head xs) (list_last out) k =
      ls_pass cnt oh dbl cmp n d1 (list_head ?rest) (list_last (out @ ?m)) (Suc k)"
    using cnt split d1(1) xs by (subst ls_pass.simps) simp
  ultimately show ?case using d2 by auto
qed

section \<open>The passes sort\<close>

lemma sort_key_merge_runs:
  assumes "orders cmp f" "0 < n" "runs_sorted f n xs"
  shows "sort_key f (merge_runs cmp n xs) = sort_key f xs"
proof (rule properties_for_sort_key [symmetric])
  show "mset (sort_key f (merge_runs cmp n xs)) = mset xs"
    using mset_merge_runs [OF assms(2)] by simp
  show "sorted (map f (sort_key f (merge_runs cmp n xs)))" by simp
  show "filter (\<lambda>x. f k = f x) (sort_key f (merge_runs cmp n xs)) = filter (\<lambda>x. f k = f x) xs" for k
    using sort_key_stable [of f "f k" "merge_runs cmp n xs"] merge_runs_stable [OF assms, of "f k"]
    by (simp add: eq_commute [of "f k"])
qed

lemma merge_runs_done:
  assumes "orders cmp f" "0 < n" "runs_sorted f n xs" "length xs \<le> 2 * n"
  shows "merge_runs cmp n xs = sort_key f xs"
proof -
  have "sorted (map f (merge_runs cmp n xs))"
    using assms(2,4)
    by (intro runs_sorted_short [OF merge_runs_sorted [OF assms(1-3)]])
      (simp_all add: length_merge_runs)
  then have "sort_key f (merge_runs cmp n xs) = merge_runs cmp n xs"
    by (rule sort_key_id_if_sorted)
  then show ?thesis using sort_key_merge_runs [OF assms(1-3)] by simp
qed

lemma one_pair_iff:
  fixes n l :: nat
  assumes "0 < n" "0 < l"
  shows "(l + 2 * n - 1) div (2 * n) \<le> 1 \<longleftrightarrow> l \<le> 2 * n"
proof -
  let ?m = "l - 2 * n + 2 * n - 1"
  have "(l + 2 * n - 1) div (2 * n) \<le> 1 \<longleftrightarrow> ?m div (2 * n) = 0"
    by (simp only: pairs_step [OF assms]) simp
  also have "\<dots> \<longleftrightarrow> ?m < 2 * n" using assms by (simp only: div_eq_0_iff) simp
  also have "\<dots> \<longleftrightarrow> l \<le> 2 * n" using assms by arith
  finally show ?thesis .
qed

text \<open>
  What the loops need of a kind of list: a walk that stops at its old head visits its nodes, and
  closing the nodes that a pass has built gives such a list.
\<close>

locale sortable_list =
  fixes rep :: "'n dlist \<Rightarrow> 'n list \<Rightarrow> bool"
    and dbl :: bool
    and old :: "'n option \<Rightarrow> 'n option"
    and close :: "'n dlist \<Rightarrow> 'n option \<Rightarrow> 'n dlist option"
  assumes rep_distinct: "rep d xs \<Longrightarrow> distinct xs"
    and rep_head: "rep d xs \<Longrightarrow> dl_head d = list_head xs"
    and rep_walk: "rep d xs \<Longrightarrow> walks_to_end (ls_next (old (dl_head d)) d) xs"
    and close_rep: "xs \<noteq> [] \<Longrightarrow> distinct xs \<Longrightarrow> built dbl d xs \<Longrightarrow>
      \<exists>d'. close d (list_last xs) = Some d' \<and> rep d' xs \<and> same_links (set xs) d d'"
begin

lemma pass_rep:
  assumes "rep d xs" "xs \<noteq> []" "0 < n" "\<And>m. m \<le> length xs \<Longrightarrow> cnt m = Some m"
  obtains d1 d' where
    "ls_pass cnt (old (dl_head d)) dbl cmp n (d\<lparr>dl_head := None\<rparr>) (dl_head d) None 0 =
      Some (d1, list_last (merge_runs cmp n xs), (length xs + 2 * n - 1) div (2 * n))"
    "close d1 (list_last (merge_runs cmp n xs)) = Some d'"
    "rep d' (merge_runs cmp n xs)" "same_links (set xs) d d'"
proof -
  let ?d = "d\<lparr>dl_head := None\<rparr>"
  have "walks_to_end (ls_next (old (dl_head d)) ?d) xs"
    by (rule walks_to_end_cong [OF rep_walk [OF assms(1)]]) (simp add: ls_next_def)
  then obtain d1 where d1:
    "ls_pass cnt (old (dl_head d)) dbl cmp n ?d (dl_head d) None 0 =
      Some (d1, list_last (merge_runs cmp n xs), (length xs + 2 * n - 1) div (2 * n))"
    "built dbl d1 (merge_runs cmp n xs)" "same_links (set xs) ?d d1"
    using ls_pass_spec [of n dbl ?d "[]" xs "old (dl_head d)" 0 cnt cmp] assms
      rep_distinct [OF assms(1)] rep_head [OF assms(1)]
    by (auto simp: built_def)
  have "merge_runs cmp n xs \<noteq> []"
    using length_merge_runs [OF assms(3), of cmp xs] assms(2) by auto
  then obtain d' where d': "close d1 (list_last (merge_runs cmp n xs)) = Some d'"
    "rep d' (merge_runs cmp n xs)" "same_links (set (merge_runs cmp n xs)) d1 d'"
    using close_rep [OF _ _ d1(2)] rep_distinct [OF assms(1)] distinct_merge_runs [OF assms(3)]
    by metis
  have "same_links (set xs) d ?d" by (simp add: same_links_def)
  then have "same_links (set xs) d d'"
    using d1(3) d'(3) by (auto simp: set_merge_runs [OF assms(3)] elim!: same_links_trans)
  with d1(1) d'(1,2) show thesis by (rule that)
qed

lemma passes_sort:
  assumes "rep d xs" "xs \<noteq> []" "0 < n" "n \<le> length xs" "orders cmp f" "runs_sorted f n xs"
    and cnt: "\<And>m. m \<le> 2 * length xs \<Longrightarrow> cnt m = Some m"
  shows "\<exists>d'. ls_passes cnt old dbl close cmp n d = Some (d', list_last (sort_key f xs)) \<and>
    rep d' (sort_key f xs) \<and> same_links (set xs) d d'"
  using assms(1-6) cnt
proof (induction "length xs - n" arbitrary: d xs n rule: less_induct)
  case less
  let ?ys = "merge_runs cmp n xs"
  obtain d1 d' where pass:
    "ls_pass cnt (old (dl_head d)) dbl cmp n (d\<lparr>dl_head := None\<rparr>) (dl_head d) None 0 =
      Some (d1, list_last ?ys, (length xs + 2 * n - 1) div (2 * n))"
    "close d1 (list_last ?ys) = Some d'" "rep d' ?ys" "same_links (set xs) d d'"
    using pass_rep [OF less.prems(1-3), of cnt cmp] less.prems(7) by auto
  have c: "cnt (n * 2) = Some (n * 2)" using less.prems(4,7) by simp
  have step: "ls_passes cnt old dbl close cmp n d =
    (if length xs \<le> 2 * n then Some (d', list_last ?ys)
     else ls_passes cnt old dbl close cmp (n * 2) d')"
    using pass(1,2) c one_pair_iff [OF less.prems(3), of "length xs"] less.prems(2)
    by (subst ls_passes.simps) simp
  show ?case
  proof (cases "length xs \<le> 2 * n")
    case True
    then show ?thesis using step pass(3,4) merge_runs_done [OF less.prems(5,3,6)] by auto
  next
    case False
    have len: "length ?ys = length xs" "set ?ys = set xs"
      using less.prems(3) by (simp_all add: length_merge_runs set_merge_runs)
    have "\<exists>d''. ls_passes cnt old dbl close cmp (n * 2) d' =
          Some (d'', list_last (sort_key f ?ys)) \<and> rep d'' (sort_key f ?ys) \<and> same_links (set ?ys) d' d''"
      using less.prems False len merge_runs_sorted [OF less.prems(5,3,6)] pass(3)
      by (intro less.hyps) (auto simp: mult.commute)
    then show ?thesis
      using step False pass(4) len(2) sort_key_merge_runs [OF less.prems(5,3,6)]
      by (auto elim!: same_links_trans)
  qed
qed

text \<open>The macros: a list that is not empty is sorted by the passes from runs of one node.\<close>

lemma sort_rep:
  assumes "rep d xs" "orders cmp f" "\<And>m. m \<le> 2 * length xs \<Longrightarrow> cnt m = Some m"
  shows "\<exists>d'. (if dl_head d \<noteq> None then
        map_option fst (ls_passes cnt old dbl close cmp 1 d) else Some d) = Some d' \<and>
    rep d' (sort_key f xs) \<and> same_links (set xs) d d'"
proof (cases "xs = []")
  case True
  then show ?thesis using assms(1) rep_head [OF assms(1)] by simp
next
  case False
  then have "1 \<le> length xs" by (cases xs) auto
  then show ?thesis
    using passes_sort [OF assms(1) False _ _ assms(2) runs_sorted_one assms(3)]
      rep_head [OF assms(1)] False by (cases xs) auto
qed

end

section \<open>The three kinds of list\<close>

lemma ls_next_linear [simp]: "ls_next None d = dl_next d"
  by (auto simp: ls_next_def)

text \<open>Closing the nodes that are built changes the ends of the list only.\<close>

lemma linked_close:
  assumes "linked dbl d xs" "distinct xs" "xs \<noteq> []"
    and "\<And>y. y \<noteq> last xs \<Longrightarrow> dl_next d' y = dl_next d y" "\<And>y. y \<noteq> hd xs \<Longrightarrow> dl_prev d' y = dl_prev d y"
  shows "linked dbl d' xs" "same_links (set xs) d d'"
proof -
  show "linked dbl d' xs"
    by (rule linked_cong [OF assms(1)]) (use assms in \<open>auto simp: in_butlast in_tl\<close>)
  have "last xs \<in> set xs" "hd xs \<in> set xs" using assms(3) by auto
  then show "same_links (set xs) d d'"
    using assms(4,5) unfolding same_links_def by metis
qed

interpretation lls: sortable_list ll_rep False "\<lambda>list. None" ls_close_LL
proof unfold_locales
  show "distinct xs" "dl_head d = list_head xs" "walks_to_end (ls_next None d) xs"
    if "ll_rep d xs" for d :: "'n dlist" and xs
    using that linear_walk [of d xs] by (simp_all add: ll_rep_def)
  show "\<exists>d'. ls_close_LL d (list_last xs) = Some d' \<and> ll_rep d' xs \<and> same_links (set xs) d d'"
    if "xs \<noteq> []" "distinct xs" "built False d xs" for d :: "'n dlist" and xs
    using that linked_close [of False d xs "d\<lparr>dl_next := (dl_next d)(last xs := None)\<rparr>"]
    by (auto simp: ls_close_LL_def ll_rep_def built_def)
qed

interpretation dls: sortable_list dl_rep True "\<lambda>list. None" ls_close_DL
proof unfold_locales
  show "distinct xs" "dl_head d = list_head xs" "walks_to_end (ls_next None d) xs"
    if "dl_rep d xs" for d :: "'n dlist" and xs
    using that linear_walk [of d xs] by (simp_all add: dl_rep_ring ring_rep_def)
  show "\<exists>d'. ls_close_DL d (list_last xs) = Some d' \<and> dl_rep d' xs \<and> same_links (set xs) d d'"
    if "xs \<noteq> []" "distinct xs" "built True d xs" for d :: "'n dlist" and xs
    using that linked_close [of True d xs "d\<lparr>dl_prev := (dl_prev d)(hd xs := Some (last xs)),
      dl_next := (dl_next d)(last xs := None)\<rparr>"]
    by (auto simp: ls_close_DL_def dl_rep_ring ring_rep_def built_def list_head_hd)
qed

interpretation cdls: sortable_list cdl_rep True "\<lambda>list. list" ls_close_CDL
proof unfold_locales
  show "distinct xs" "dl_head d = list_head xs"
    if "cdl_rep d xs" for d :: "'n dlist" and xs
    using that by (simp_all add: ring_rep_def)
  show "walks_to_end (ls_next (dl_head d) d) xs" if "cdl_rep d xs" for d :: "'n dlist" and xs
    using circular_walk [OF that] by (simp add: ls_next_def [abs_def])
  show "\<exists>d'. ls_close_CDL d (list_last xs) = Some d' \<and> cdl_rep d' xs \<and> same_links (set xs) d d'"
    if "xs \<noteq> []" "distinct xs" "built True d xs" for d :: "'n dlist" and xs
    using that linked_close [of True d xs "d\<lparr>dl_prev := (dl_prev d)(hd xs := Some (last xs)),
      dl_next := (dl_next d)(last xs := Some (hd xs))\<rparr>"]
    by (auto simp: ls_close_CDL_def ring_rep_def built_def list_head_hd)
qed

lemma int_count_bound: "2 * n \<le> INT_MAX \<Longrightarrow> m \<le> 2 * n \<Longrightarrow> int_count m = Some m"
  by (simp add: int_count_def)

section \<open>Properties\<close>

text \<open>
  C35. The sort macros are the stable sort: for a comparison that orders the nodes by a key, and a
  list of at most half of \<open>INT_MAX\<close> nodes, \<open>LL_SORT\<close>, \<open>DL_SORT\<close> and \<open>CDL_SORT\<close> end, follow no null
  pointer, overflow no counter, and relink the nodes to the list that \<open>sort_key\<close> of the library
  gives: sorted, with the same nodes, equal keys in their old order. The links of other nodes
  do not change.
\<close>

theorem utlist_sort_is_stable_sort:
  assumes "\<And>x y. cmp x y \<le> 0 \<longleftrightarrow> f x \<le> (f y :: 'k::linorder)" "2 * length xs \<le> INT_MAX"
  shows "(ll_rep d xs \<longrightarrow> (\<exists>d'. LL_SORT cmp d = Some d' \<and> ll_rep d' (sort_key f xs) \<and>
      same_links (set xs) d d')) \<and>
    (dl_rep d xs \<longrightarrow> (\<exists>d'. DL_SORT cmp d = Some d' \<and> dl_rep d' (sort_key f xs) \<and>
      same_links (set xs) d d')) \<and>
    (cdl_rep d xs \<longrightarrow> (\<exists>d'. CDL_SORT cmp d = Some d' \<and> cdl_rep d' (sort_key f xs) \<and>
      same_links (set xs) d d'))"
proof -
  have cmp: "orders cmp f" using assms(1) by (simp add: orders_def)
  note cnt = int_count_bound [OF assms(2)]
  show ?thesis
    using lls.sort_rep [OF _ cmp cnt] dls.sort_rep [OF _ cmp cnt] cdls.sort_rep [OF _ cmp cnt]
    unfolding LL_SORT_def DL_SORT_def CDL_SORT_def by blast
qed

theorem utlist_sort_is_stable_sort_witness:
  "\<exists>d. DL_SORT (\<lambda>x y. int (x div 10) - int (y div 10))
      \<lparr>dl_head = Some 31, dl_prev = [31 \<mapsto> 12, 10 \<mapsto> 31, 12 \<mapsto> 10], dl_next = [31 \<mapsto> 10, 10 \<mapsto> (12::nat)]\<rparr> =
      Some d \<and> dl_rep d [10, 12, 31]"
  using utlist_sort_is_stable_sort [of "\<lambda>x y. int (x div 10) - int (y div 10)" "\<lambda>x. x div 10"
      "[31, 10, 12]" "\<lparr>dl_head = Some 31, dl_prev = [31 \<mapsto> 12, 10 \<mapsto> 31, 12 \<mapsto> 10],
        dl_next = [31 \<mapsto> 10, 10 \<mapsto> (12::nat)]\<rparr>"]
  by (auto simp: dl_rep_def [of _ "[31, 10, 12]"])

end
