(* ===== verification/FB_Uthash_More.thy ===== *)
theory FB_Uthash_More
  imports FB_Uthash_Spec FB_Utlist_Sort
begin

text \<open>
  The operations of \<open>uthash/uthash.h\<close> beyond those the driver uses: sorting, replacing, counting, iterating,
  selecting into another table, and the Bloom filter of \<open>HASH_BLOOM\<close>. The sort runs the loops of
  \<open>FB_Utlist_Sort\<close> on the list of all elements, with \<open>unsigned\<close> counters, and so is the stable sort of the
  library.
\<close>

unbundle bit_operations_syntax

section \<open>Sorting\<close>

text \<open>The list of all elements (\<open>hh.prev\<close>, \<open>hh.next\<close>) as the structure the sort loops work on.\<close>

definition app_order :: "'p uthash \<Rightarrow> 'p option \<Rightarrow> 'p dlist" where
  "app_order t list = \<lparr>dl_head = list, dl_prev = (\<lambda>p. ut_prev (hh t p)), dl_next = (\<lambda>p. ut_next (hh t p))\<rparr>"

definition set_app_order :: "'p dlist \<Rightarrow> 'p uthash \<Rightarrow> 'p uthash" where
  "set_app_order d t = t\<lparr>hh := (\<lambda>p. (hh t p)\<lparr>ut_prev := dl_prev d p, ut_next := dl_next d p\<rparr>)\<rparr>"

definition unsigned_count :: "nat \<Rightarrow> nat option" where
  "unsigned_count n = Some (n mod 2 ^ 32)"

text \<open>
  The guards \<open>if (_hs_p)\<close> and \<open>if (_hs_e)\<close> of the macro are for a run that is shorter than \<open>_hs_psize\<close> says, which the
  loops below treat as undefined; the theorem shows that it does not happen.
\<close>

definition HASH_SRT :: "('p \<Rightarrow> 'p \<Rightarrow> int) \<Rightarrow> 'p uthash \<Rightarrow> 'p uthash option" where
  "HASH_SRT cmpfcn t =
     (case ut_head t of
        None \<Rightarrow> Some t
      | Some head \<Rightarrow> do {
          tb \<leftarrow> tbl t;
          (list, hs_tail) \<leftarrow> ls_passes unsigned_count (\<lambda>list. None) True ls_close_LL cmpfcn 1 (app_order t (Some head));
          hs_tail \<leftarrow> hs_tail;
          let t = (set_app_order list t)\<lparr>tbl := Some (tb\<lparr>tbl_tail := hs_tail\<rparr>)\<rparr>;
          Some (t\<lparr>ut_head := dl_head list\<rparr>) })"

definition app_rep :: "'n dlist \<Rightarrow> 'n list \<Rightarrow> bool" where
  "app_rep d xs \<longleftrightarrow> distinct xs \<and> dl_head d = list_head xs \<and> links (dl_prev d) (dl_next d) xs"

lemma seg_linked:
  "seg (dl_prev d) (dl_next d) q (x # xs) r \<longleftrightarrow>
     dl_prev d x = q \<and> linked True d (x # xs) \<and> dl_next d (last (x # xs)) = r"
proof (induction xs arbitrary: q x)
  case (Cons y ys)
  show ?case using Cons.IH [of "Some x" y] by auto
qed auto

lemma app_rep_linked:
  "app_rep d xs \<longleftrightarrow> distinct xs \<and> dl_head d = list_head xs \<and> linked True d xs \<and>
     (xs \<noteq> [] \<longrightarrow> dl_prev d (hd xs) = None \<and> dl_next d (last xs) = None)"
  by (cases xs) (auto simp: app_rep_def seg_linked simp del: seg.simps(2))

interpretation hss: sortable_list app_rep True "\<lambda>list. None" ls_close_LL
proof unfold_locales
  show "distinct xs" "dl_head d = list_head xs" if "app_rep d xs" for d :: "'n dlist" and xs
    using that by (simp_all add: app_rep_def)
  show "walks_to_end (ls_next None d) xs" if "app_rep d xs" for d :: "'n dlist" and xs
    using that linked_walks [of True d xs] by (simp add: walks_end_iff app_rep_linked)
  show "\<exists>d'. ls_close_LL d (list_last xs) = Some d' \<and> app_rep d' xs \<and> same_links (set xs) d d'"
    if "xs \<noteq> []" "distinct xs" "built True d xs" for d :: "'n dlist" and xs
    using that linked_close [of True d xs "d\<lparr>dl_next := (dl_next d)(last xs := None)\<rparr>"]
    by (auto simp: ls_close_LL_def app_rep_linked built_def)
qed

lemma unsigned_count_bound: "2 * n < 2 ^ 32 \<Longrightarrow> m \<le> 2 * n \<Longrightarrow> unsigned_count m = Some m"
  by (simp add: unsigned_count_def)

lemma first_list_head: "first xs None = list_head xs"
  by (cases xs) auto

lemma ut_sort:
  assumes rep: "ut_rep t xs" and cmp: "orders cmp f" and len: "2 * length xs < 2 ^ 32"
  shows "\<exists>t'. HASH_SRT cmp t = Some t' \<and> ut_rep t' (sort_key f xs) \<and> fld t' = fld t"
proof (cases "xs = []")
  case True
  then show ?thesis using rep by (simp add: HASH_SRT_def ut_rep_def handles_rep_def)
next
  case False
  then obtain h zs where xs: "xs = h # zs" by (cases xs) auto
  obtain tb where tb: "tbl t = Some tb" "table_rep (hh t) tb xs" and H: "handles_rep t xs"
    using rep False by (auto simp: ut_rep_def)
  have head: "ut_head t = Some h" using H xs by (simp add: handles_rep_def)
  have "app_rep (app_order t (Some h)) xs"
    using H xs by (simp add: app_rep_def app_order_def handles_rep_def)
  from hss.passes_sort [OF this False _ _ cmp runs_sorted_one, of unsigned_count]
  obtain d where d: "ls_passes unsigned_count (\<lambda>list. None) True ls_close_LL cmp 1 (app_order t (Some h)) =
      Some (d, list_last (sort_key f xs))" "app_rep d (sort_key f xs)"
    using unsigned_count_bound [OF len] xs by auto
  have ne: "sort_key f xs \<noteq> []" using False by (metis length_0_conv length_sort)
  let ?tb = "tb\<lparr>tbl_tail := last (sort_key f xs)\<rparr>"
  let ?t = "(set_app_order d t)\<lparr>tbl := Some ?tb, ut_head := dl_head d\<rparr>"
  have "HASH_SRT cmp t = Some ?t"
    using head tb(1) d(1) ne by (simp add: HASH_SRT_def)
  moreover have "handles_rep ?t (sort_key f xs)"
    using H d(2) by (simp add: handles_rep_def app_rep_def set_app_order_def first_list_head)
  moreover have "table_rep (hh ?t) ?tb (sort_key f xs)"
    using tb(2) ne by (auto simp: table_rep_def set_app_order_def intro: buckets_rep_cong)
  ultimately show ?thesis using ne by (simp add: ut_rep_def set_app_order_def)
qed

section \<open>Replacing and counting\<close>

definition UT_HASH_REPLACE :: "(ut_alloc \<Rightarrow> bool) \<Rightarrow> 'p uthash \<Rightarrow> 'p \<Rightarrow> ('p option \<times> 'p uthash) option" where
  "UT_HASH_REPLACE ans t add = do {
     replaced \<leftarrow> UT_HASH_FIND t (key_bytes (fld t add));
     t \<leftarrow> (case replaced of None \<Rightarrow> Some t | Some r \<Rightarrow> UT_HASH_DELETE t r);
     t \<leftarrow> UT_HASH_ADD ans t add;
     Some (replaced, t) }"

definition HASH_CNT :: "'p uthash \<Rightarrow> u32 option" where
  "HASH_CNT t = (case ut_head t of None \<Rightarrow> Some 0 | Some _ \<Rightarrow> map_option num_items (tbl t))"

lemma ut_count: "ut_rep t xs \<Longrightarrow> HASH_CNT t = Some (of_nat (length xs))"
  by (cases xs) (auto simp: HASH_CNT_def ut_rep_def handles_rep_def table_rep_def)

lemma ut_room_delete:
  assumes "ut_rep t xs" "ut_room ans t" "ut_rep t' (remove1 p xs)" "p \<in> set xs" "same_shape t t'"
  shows "ut_room ans t'"
proof (cases "tbl t'")
  case (Some tb')
  obtain tb where tb: "tbl t = Some tb" "log2_num_buckets tb' = log2_num_buckets tb"
    using assms(5) Some by (auto simp: same_shape_def)
  have "length xs < 2 ^ 32" "0 < length xs"
    using assms(1,4) by (auto simp: ut_rep_def handles_rep_def)
  moreover have "num_items tb' = of_nat (length xs - 1)"
    using assms(3,4) Some by (auto simp: ut_rep_def table_rep_def length_remove1 split: if_splits)
  then have "num_items tb' + 1 = of_nat (length xs)" using calculation(2)
    by (metis Suc_pred' of_nat_Suc add.commute)
  ultimately have "num_items tb' + 1 \<noteq> 0" using unat_of_nat_u32 [of "length xs"] by auto
  then show ?thesis using assms(2) tb Some by (simp add: ut_room_def)
qed (use assms(2) in \<open>simp add: ut_room_def\<close>)

text \<open>The replaced element is the one with the key of the new one, which the table holds in its stead.\<close>

lemma ut_replace:
  assumes rep: "ut_rep t xs" and inj: "inj_on (fld t) (set xs)" and room: "ut_room ans t"
    and p: "p \<notin> set xs"
  shows "\<exists>r t'. UT_HASH_REPLACE ans t p = Some (r, t') \<and> fld t' = fld t \<and>
    (r = None \<longleftrightarrow> (\<forall>q \<in> set xs. fld t q \<noteq> fld t p)) \<and> (\<forall>q. r = Some q \<longrightarrow> q \<in> set xs \<and> fld t q = fld t p) \<and>
    ut_rep t' ((case r of None \<Rightarrow> xs | Some q \<Rightarrow> remove1 q xs) @ [p]) \<and>
    inj_on (fld t') (set ((case r of None \<Rightarrow> xs | Some q \<Rightarrow> remove1 q xs) @ [p]))"
proof -
  have dist: "distinct xs" using rep by (simp add: ut_rep_def handles_rep_def)
  let ?r = "map_of (map (\<lambda>p. (fld t p, p)) xs) (fld t p)"
  have find: "UT_HASH_FIND t (key_bytes (fld t p)) = Some ?r" by (rule ut_find [OF rep inj])
  show ?thesis
  proof (cases ?r)
    case None
    then have new: "\<forall>q \<in> set xs. fld t q \<noteq> fld t p" by (auto simp: map_of_eq_None_iff image_iff)
    obtain t' where "UT_HASH_ADD ans t p = Some t'" "ut_rep t' (xs @ [p])" "fld t' = fld t"
      using ut_add [OF rep p room] by blast
    moreover have "inj_on (fld t) (set (xs @ [p]))" using inj new by (auto simp: inj_on_def)
    ultimately show ?thesis using find None new by (intro exI [of _ None] exI [of _ t']) (simp add: UT_HASH_REPLACE_def)
  next
    case (Some q)
    then have q: "q \<in> set xs" "fld t q = fld t p" by (auto dest!: map_of_SomeD)
    obtain t1 where t1: "UT_HASH_DELETE t q = Some t1" "ut_rep t1 (remove1 q xs)" "fld t1 = fld t"
      "same_shape t t1" using ut_delete [OF rep q(1)] by blast
    have "p \<notin> set (remove1 q xs)" using p notin_set_remove1 by metis
    then obtain t' where "UT_HASH_ADD ans t1 p = Some t'" "ut_rep t' (remove1 q xs @ [p])" "fld t' = fld t1"
      using ut_add [OF t1(2) _ ut_room_delete [OF rep room t1(2) q(1) t1(4)]] by blast
    moreover have "inj_on (fld t) (set (remove1 q xs @ [p]))"
      using inj q dist by (auto simp: inj_on_def)
    ultimately show ?thesis using find Some q t1(1,3)
      by (intro exI [of _ "Some q"] exI [of _ t']) (auto simp: UT_HASH_REPLACE_def)
  qed
qed

section \<open>Iterating\<close>

text \<open>\<open>HASH_ITER\<close> keeps the next element in \<open>tmp\<close>, so the body may delete the current one.\<close>

partial_function (option) hash_iter ::
    "('p \<Rightarrow> 'p uthash \<Rightarrow> 'p uthash option) \<Rightarrow> 'p option \<Rightarrow> 'p option \<Rightarrow> 'p uthash \<Rightarrow> 'p uthash option" where
  "hash_iter body el tmp t =
     (case el of
        None \<Rightarrow> Some t
      | Some p \<Rightarrow> Option.bind (body p t) (\<lambda>t.
          hash_iter body tmp (case tmp of None \<Rightarrow> None | Some q \<Rightarrow> ut_next (hh t q)) t))"

declare hash_iter.simps [code]

definition HASH_ITER :: "('p \<Rightarrow> 'p uthash \<Rightarrow> 'p uthash option) \<Rightarrow> 'p uthash \<Rightarrow> 'p uthash option" where
  "HASH_ITER body t =
     hash_iter body (ut_head t) (case ut_head t of None \<Rightarrow> None | Some h \<Rightarrow> ut_next (hh t h)) t"

lemma hash_iter_deletes:
  "ut_rep t (ys @ zs) \<Longrightarrow>
   \<exists>t'. hash_iter (\<lambda>p t. if P p then UT_HASH_DELETE t p else Some t) (first zs None) (first (tl zs) None) t = Some t' \<and>
     ut_rep t' (ys @ filter (\<lambda>p. \<not> P p) zs)"
proof (induction zs arbitrary: t ys)
  case Nil
  then show ?case by (subst hash_iter.simps) simp
next
  case (Cons p zs)
  have "distinct (ys @ p # zs)" using Cons.prems by (simp add: ut_rep_def handles_rep_def)
  then have r: "remove1 p (ys @ p # zs) = ys @ zs" by (rule remove1_middle)
  obtain t1 where t1: "(if P p then UT_HASH_DELETE t p else Some t) = Some t1"
    "ut_rep t1 ((if P p then ys else ys @ [p]) @ zs)"
    using ut_delete [OF Cons.prems, of p] Cons.prems r by (cases "P p") auto
  have nx: "(case first zs None of None \<Rightarrow> None | Some q \<Rightarrow> ut_next (hh t1 q)) = first (tl zs) None"
  proof (cases zs)
    case (Cons z us)
    then have "ut_next (hh t1 z) = first us None"
      using t1(2) links_at [of "\<lambda>p. ut_prev (hh t1 p)" "\<lambda>p. ut_next (hh t1 p)" "if P p then ys else ys @ [p]" z us]
      by (simp add: ut_rep_def handles_rep_def)
    then show ?thesis using Cons by simp
  qed simp
  have "hash_iter (\<lambda>p t. if P p then UT_HASH_DELETE t p else Some t) (first (p # zs) None) (first (tl (p # zs)) None) t =
      hash_iter (\<lambda>p t. if P p then UT_HASH_DELETE t p else Some t) (first zs None) (first (tl zs) None) t1"
    using t1(1) nx by (subst hash_iter.simps) simp
  then show ?case using Cons.IH [OF t1(2)] by (cases "P p") auto
qed

lemma HASH_ITER_deletes:
  assumes "ut_rep t xs"
  shows "\<exists>t'. HASH_ITER (\<lambda>p t. if P p then UT_HASH_DELETE t p else Some t) t = Some t' \<and>
    ut_rep t' (filter (\<lambda>p. \<not> P p) xs)"
proof -
  have "ut_head t = first xs None" "links (\<lambda>p. ut_prev (hh t p)) (\<lambda>p. ut_next (hh t p)) xs"
    using assms by (simp_all add: ut_rep_def handles_rep_def)
  then have "(case ut_head t of None \<Rightarrow> None | Some h \<Rightarrow> ut_next (hh t h)) = first (tl xs) None"
    by (cases xs) auto
  then show ?thesis
    using hash_iter_deletes [of t "[]" xs P] assms \<open>ut_head t = first xs None\<close> by (simp add: HASH_ITER_def)
qed

section \<open>Integrity\<close>

text \<open>
  C37. A hash table stays well-formed as the library's own integrity check \<open>HASH_FSCK\<close> understands it: every chain and the list of
  all elements are linked in both directions, and every counter is exact, after any addition, also one that doubles
  the buckets, and any removal. Sorting it by \<open>HASH_SRT\<close> ends, changes nothing but the order of the elements, and this to the stable sort
  of the library; an iteration by \<open>HASH_ITER\<close> whose body deletes elements visits every element once and ends.
\<close>

theorem hash_table_integrity:
  fixes f :: "'p \<Rightarrow> 'k :: linorder"
  assumes "ut_rep t xs"
  shows "HASH_FSCK t = Some True \<and>
    (p \<notin> set xs \<and> ut_room ans t \<longrightarrow> (\<exists>t'. UT_HASH_ADD ans t p = Some t' \<and> ut_rep t' (xs @ [p]) \<and> HASH_FSCK t' = Some True)) \<and>
    (p \<in> set xs \<longrightarrow> (\<exists>t'. UT_HASH_DELETE t p = Some t' \<and> ut_rep t' (remove1 p xs) \<and> HASH_FSCK t' = Some True)) \<and>
    (orders cmp f \<and> 2 * length xs < 2 ^ 32 \<longrightarrow>
      (\<exists>t'. HASH_SRT cmp t = Some t' \<and> ut_rep t' (sort_key f xs) \<and> HASH_FSCK t' = Some True)) \<and>
    (\<exists>t'. HASH_ITER (\<lambda>q t. if P q then UT_HASH_DELETE t q else Some t) t = Some t' \<and>
      ut_rep t' (filter (\<lambda>q. \<not> P q) xs) \<and> HASH_FSCK t' = Some True)"
proof (intro conjI impI)
  show "\<exists>t'. HASH_SRT cmp t = Some t' \<and> ut_rep t' (sort_key f xs) \<and> HASH_FSCK t' = Some True"
    if "orders cmp f \<and> 2 * length xs < 2 ^ 32"
    using ut_sort [OF assms, of cmp f] that fsck_spec by blast
qed (use fsck_spec [OF assms] ut_add [OF assms, of p ans] ut_delete [OF assms, of p] HASH_ITER_deletes [OF assms, of P]
      fsck_spec in blast)+

theorem hash_table_integrity_witness:
  "\<forall>h f. \<exists>t' t''. UT_HASH_ADD (\<lambda>_. True) (empty_ut h f) (5 :: nat) = Some t' \<and>
    HASH_SRT (\<lambda>a b. int a - int b) t' = Some t'' \<and> ut_rep t'' [5] \<and> HASH_FSCK t'' = Some True"
proof (intro allI)
  fix h :: "nat handles" and f :: "nat \<Rightarrow> u32"
  have "\<exists>t'. UT_HASH_ADD (\<lambda>_. True) (empty_ut h f) 5 = Some t' \<and> ut_rep t' [5]"
    using hash_table_integrity [OF empty_ut(1) [of h f], of 5 "\<lambda>_. True"] by simp blast
  then obtain t' where t': "UT_HASH_ADD (\<lambda>_. True) (empty_ut h f) 5 = Some t'" "ut_rep t' [5]" by blast
  have "orders (\<lambda>a b. int a - int b) (\<lambda>n. n)" by (simp add: orders_def)
  then have "\<exists>t''. HASH_SRT (\<lambda>a b. int a - int b) t' = Some t'' \<and> ut_rep t'' (sort_key (\<lambda>n. n) [5]) \<and> HASH_FSCK t'' = Some True"
    using hash_table_integrity [OF t'(2), of 5 "\<lambda>_. True" "\<lambda>a b. int a - int b" "\<lambda>n. n"] by simp
  then show "\<exists>t' t''. UT_HASH_ADD (\<lambda>_. True) (empty_ut h f) 5 = Some t' \<and>
      HASH_SRT (\<lambda>a b. int a - int b) t' = Some t'' \<and> ut_rep t'' [5] \<and> HASH_FSCK t'' = Some True"
    using t'(1) by auto
qed

section \<open>The Bloom filter\<close>

text \<open>
  With \<open>HASH_BLOOM\<close> defined as \<open>n\<close>, a table has \<open>2 ^ n\<close> bits; adding an element sets the bit of its hash, and an
  element whose bit is not set is not searched for. Deleting clears nothing.
\<close>

definition HASH_BLOOM_BYTELEN :: "nat \<Rightarrow> nat" where
  "HASH_BLOOM_BYTELEN n = 2 ^ n div 8 + (if 2 ^ n mod 8 \<noteq> (0::nat) then 1 else 0)"

definition HASH_BLOOM_MAKE :: "nat \<Rightarrow> bool \<Rightarrow> u8 list option" where
  "HASH_BLOOM_MAKE n allocated = (if allocated then Some (replicate (HASH_BLOOM_BYTELEN n) 0) else None)"

definition bloom_index :: "nat \<Rightarrow> u32 \<Rightarrow> u32" where
  "bloom_index n v = v AND ucast ((push_bit n 1 :: u64) - 1)"

definition HASH_BLOOM_BITSET :: "u8 list \<Rightarrow> u32 \<Rightarrow> u8 list option" where
  "HASH_BLOOM_BITSET bv idx = do {
     b \<leftarrow> ld_nth bv (unat (idx div 8));
     st_nth bv (unat (idx div 8)) (ucast ((ucast b :: u32) OR push_bit (unat (idx mod 8)) 1)) }"

definition HASH_BLOOM_BITTEST :: "u8 list \<Rightarrow> u32 \<Rightarrow> bool option" where
  "HASH_BLOOM_BITTEST bv idx = do {
     b \<leftarrow> ld_nth bv (unat (idx div 8));
     Some ((ucast b :: u32) AND push_bit (unat (idx mod 8)) 1 \<noteq> 0) }"

definition HASH_BLOOM_ADD :: "nat \<Rightarrow> u32 \<Rightarrow> u8 list \<Rightarrow> u8 list option" where
  "HASH_BLOOM_ADD n v bv = HASH_BLOOM_BITSET bv (bloom_index n v)"

definition HASH_BLOOM_TEST :: "nat \<Rightarrow> u32 \<Rightarrow> u8 list \<Rightarrow> bool option" where
  "HASH_BLOOM_TEST n v bv = HASH_BLOOM_BITTEST bv (bloom_index n v)"

text \<open>\<open>HASH_FIND\<close> with the filter.\<close>

definition bloom_find :: "nat \<Rightarrow> u8 list \<Rightarrow> 'p uthash \<Rightarrow> u8 list \<Rightarrow> 'p option option" where
  "bloom_find n bv t key =
     (case ut_head t of
        None \<Rightarrow> Some None
      | Some _ \<Rightarrow> do {
          r \<leftarrow> HASH_BLOOM_TEST n (HASH_JEN key) bv;
          if r then UT_HASH_FIND t key else Some None })"

definition bloom_set :: "nat \<Rightarrow> u8 list \<Rightarrow> u32 \<Rightarrow> bool" where
  "bloom_set n bv v \<longleftrightarrow> bit (bv ! unat (bloom_index n v div 8)) (unat (bloom_index n v mod 8))"

lemma bloom_index_byte:
  assumes "n \<le> 32"
  shows "unat (bloom_index n v div 8) < HASH_BLOOM_BYTELEN n"
proof -
  have "(push_bit n 1 :: u64) - 1 = mask n" by (simp add: mask_eq_exp_minus_1 push_bit_eq_mult)
  then have "(ucast ((push_bit n 1 :: u64) - 1) :: u32) = mask n"
    using assms by (intro bit_word_eqI) (auto simp: bit_simps)
  then have "bloom_index n v = take_bit n v" by (simp add: bloom_index_def take_bit_eq_mask)
  then have "unat (bloom_index n v) < 2 ^ n"
    by (simp add: unsigned_take_bit_eq)
  then have "unat (bloom_index n v div 8) < 2 ^ n div 8 + (if 2 ^ n mod 8 \<noteq> (0 :: nat) then 1 else 0)"
    by (simp add: unat_div) (auto simp: div_less_iff_less_mult)
  then show ?thesis by (simp add: HASH_BLOOM_BYTELEN_def)
qed

lemma bit_of_byte: "k < 8 \<Longrightarrow> ((ucast (b :: u8) :: u32) AND 2 ^ k \<noteq> 0) = bit b k"
  by (simp add: and_exp_eq_0_iff_not_bit bit_simps)

lemma set_bit_of_byte:
  "k < 8 \<Longrightarrow> bit (ucast ((ucast (b :: u8) :: u32) OR push_bit k 1) :: u8) j = (bit b j \<or> j = k)"
  using bit_imp_le_length [of b j] by (auto simp: bit_simps)

lemma mod_8_less: "unat (v mod 8 :: u32) < 8"
  by (simp add: unat_mod)

lemma bloom_test:
  assumes "n \<le> 32" "length bv = HASH_BLOOM_BYTELEN n"
  shows "HASH_BLOOM_TEST n v bv = Some (bloom_set n bv v)"
  using bloom_index_byte [OF assms(1), of v] assms(2)
  by (simp add: HASH_BLOOM_TEST_def HASH_BLOOM_BITTEST_def ld_nth_def bloom_set_def
      bit_of_byte [OF mod_8_less])

lemma word_parts: "unat (v div 8 :: u32) = unat (w div 8) \<Longrightarrow> unat (v mod 8) = unat (w mod 8) \<Longrightarrow> v = w"
  by (metis div_mult_mod_eq word_unat_eq_iff)

lemma bloom_add:
  assumes "n \<le> 32" "length bv = HASH_BLOOM_BYTELEN n"
  shows "\<exists>bv'. HASH_BLOOM_ADD n v bv = Some bv' \<and> length bv' = HASH_BLOOM_BYTELEN n \<and>
    (\<forall>w. bloom_set n bv' w \<longleftrightarrow> bloom_set n bv w \<or> bloom_index n w = bloom_index n v)"
proof -
  let ?i = "unat (bloom_index n v div 8)" and ?k = "unat (bloom_index n v mod 8)"
  let ?b = "ucast ((ucast (bv ! ?i) :: u32) OR push_bit ?k 1) :: u8"
  have i: "?i < length bv" using bloom_index_byte [OF assms(1)] assms(2) by simp
  have "bloom_set n (bv[?i := ?b]) w \<longleftrightarrow> bloom_set n bv w \<or> bloom_index n w = bloom_index n v" for w
  proof (cases "unat (bloom_index n w div 8) = ?i")
    case True
    then show ?thesis
      using i set_bit_of_byte [OF mod_8_less] word_parts [of "bloom_index n w" "bloom_index n v"]
      by (auto simp: bloom_set_def)
  next
    case False
    then show ?thesis by (auto simp: bloom_set_def)
  qed
  moreover have "HASH_BLOOM_ADD n v bv = Some (bv[?i := ?b])"
    using i by (simp add: HASH_BLOOM_ADD_def HASH_BLOOM_BITSET_def ld_nth_def st_nth_def)
  ultimately show ?thesis using assms(2) by auto
qed

text \<open>
  A filter that has the bits of all elements changes no search: what it lets through is searched for as before, and what it
  holds back is not there. Adding an element keeps it so, and removing one too.
\<close>

definition bloom_covers :: "nat \<Rightarrow> u8 list \<Rightarrow> 'p uthash \<Rightarrow> 'p list \<Rightarrow> bool" where
  "bloom_covers n bv t xs \<longleftrightarrow> length bv = HASH_BLOOM_BYTELEN n \<and> (\<forall>p \<in> set xs. bloom_set n bv (hashv (hh t p)))"

lemma bloom_find_eq:
  assumes rep: "ut_rep t xs" and inj: "inj_on (fld t) (set xs)" and n: "n \<le> 32" and bv: "bloom_covers n bv t xs"
  shows "bloom_find n bv t (key_bytes k) = UT_HASH_FIND t (key_bytes k)"
proof (cases "bloom_set n bv (HASH_JEN (key_bytes k))")
  case True
  then show ?thesis using bloom_test [OF n] bv
    by (auto simp: bloom_find_def bloom_covers_def UT_HASH_FIND_def split: option.split)
next
  case False
  have "\<forall>p \<in> set xs. fld t p \<noteq> k"
    using False bv rep by (auto simp: bloom_covers_def ut_rep_def handles_rep_def)
  then have "map_of (map (\<lambda>p. (fld t p, p)) xs) k = None" by (auto simp: map_of_eq_None_iff)
  then show ?thesis using bloom_test [OF n] bv False ut_find [OF rep inj, of k]
    by (auto simp: bloom_find_def bloom_covers_def UT_HASH_FIND_def split: option.split)
qed

lemma bloom_covers_add:
  assumes "bloom_covers n bv t xs" "n \<le> 32" "ut_rep t xs" "ut_rep t' (xs @ [p])" "fld t' = fld t"
  shows "\<exists>bv'. HASH_BLOOM_ADD n (hashv (hh t' p)) bv = Some bv' \<and> bloom_covers n bv' t' (xs @ [p])"
proof -
  have "\<forall>q \<in> set xs. hashv (hh t' q) = hashv (hh t q)"
    using assms(3-5) by (simp add: ut_rep_def handles_rep_def)
  then show ?thesis using bloom_add [OF assms(2), of bv "hashv (hh t' p)"] assms(1)
    by (auto simp: bloom_covers_def)
qed

lemma bloom_make: "HASH_BLOOM_MAKE n True = Some bv \<Longrightarrow> ut_rep t [] \<Longrightarrow> bloom_covers n bv t []"
  by (auto simp: HASH_BLOOM_MAKE_def bloom_covers_def)

section \<open>Selecting\<close>

text \<open>
  \<open>HASH_SELECT\<close> puts the elements of \<open>src\<close> that satisfy \<open>cond\<close> into \<open>dst\<close> too, through a second handle in each
  element: \<open>src\<close> and \<open>dst\<close> are the tables of the two handles. \<open>last_elt\<close> is the element selected last.
\<close>

definition select_one ::
  "(ut_alloc \<Rightarrow> bool) \<Rightarrow> 'p uthash \<Rightarrow> 'p \<Rightarrow> 'p uthash \<times> 'p option \<Rightarrow> ('p uthash \<times> 'p option) option" where
  "select_one ans src elt st = (case st of (dst, last_elt) \<Rightarrow> do {
     let dst = set_hh elt (\<lambda>x. x\<lparr>hh_key := hh_key (hh src elt), keylen := keylen (hh src elt),
           hashv := hashv (hh src elt), ut_prev := last_elt, ut_next := None\<rparr>) dst;
     let dst = (case last_elt of None \<Rightarrow> dst | Some q \<Rightarrow> set_hh q (\<lambda>x. x\<lparr>ut_next := Some elt\<rparr>) dst);
     dst \<leftarrow> (case ut_head dst of
         None \<Rightarrow> HASH_MAKE_TABLE ans elt (dst\<lparr>ut_head := Some elt\<rparr>)
       | Some _ \<Rightarrow> Some dst);
     tb \<leftarrow> tbl dst;
     dst \<leftarrow> HASH_ADD_TO_BKT ans (HASH_TO_BKT (hashv (hh dst elt)) (num_buckets tb)) elt dst;
     tb \<leftarrow> tbl dst;
     Some (dst\<lparr>tbl := Some (tb\<lparr>num_items := num_items tb + 1\<rparr>)\<rparr>, Some elt) })"

partial_function (option) select_chain ::
  "(ut_alloc \<Rightarrow> bool) \<Rightarrow> ('p \<Rightarrow> bool) \<Rightarrow> 'p uthash \<Rightarrow> 'p option \<Rightarrow> 'p uthash \<times> 'p option \<Rightarrow> ('p uthash \<times> 'p option) option" where
  "select_chain ans cond src src_hh st =
     (case src_hh of
        None \<Rightarrow> Some st
      | Some p \<Rightarrow> Option.bind (if cond p then select_one ans src p st else Some st)
          (select_chain ans cond src (hh_next (hh src p))))"

declare select_chain.simps [code]

definition HASH_SELECT :: "(ut_alloc \<Rightarrow> bool) \<Rightarrow> 'p uthash \<Rightarrow> 'p uthash \<Rightarrow> ('p \<Rightarrow> bool) \<Rightarrow> 'p uthash option" where
  "HASH_SELECT ans dst src cond =
     (case ut_head src of
        None \<Rightarrow> Some dst
      | Some _ \<Rightarrow> do {
          tb \<leftarrow> tbl src;
          (dst, last_elt) \<leftarrow> foldM (\<lambda>src_bkt st. do {
              b \<leftarrow> ld_nth (buckets tb) (unat src_bkt);
              select_chain ans cond src (hh_head b) st })
            (words_below (num_buckets tb)) (dst, None);
          Some dst })"

text \<open>
  The table that \<open>HASH_SELECT\<close> makes has its first element as its tail, and selecting more does not move it. So the
  next \<open>HASH_ADD\<close> links its element behind the first one: of three elements, two selected and one added, the list of
  all elements has lost the second.
\<close>

lemma add_to_fresh_bucket:
  assumes "tbl t = Some tb" "num_buckets tb = 32" "length (buckets tb) = 32"
    and "\<And>b. b \<in> set (buckets tb) \<Longrightarrow> expand_mult b = 0 \<and> bkt_count b < n" "n \<le> 9"
  shows "\<exists>t' bs. HASH_ADD_TO_BKT ans (HASH_TO_BKT v 32) p t = Some t' \<and>
    tbl t' = Some (tb\<lparr>buckets := bs\<rparr>) \<and> length bs = 32 \<and>
    (\<forall>b \<in> set bs. expand_mult b = 0 \<and> bkt_count b < n + 1) \<and>
    order_eq (hh t) (hh t') \<and> ut_head t' = ut_head t \<and> fld t' = fld t"
proof -
  let ?i = "unat (HASH_TO_BKT v 32)"
  have i: "?i < length (buckets tb)" using HASH_TO_BKT_less [of 5 v] assms(3) by simp
  let ?b = "buckets tb ! ?i"
  let ?b' = "?b\<lparr>bkt_count := bkt_count ?b + 1, hh_head := Some p\<rparr>"
  let ?t = "(push_hh (hh_head ?b) p t)\<lparr>tbl := Some (tb\<lparr>buckets := (buckets tb)[?i := ?b']\<rparr>)\<rparr>"
  have b: "expand_mult ?b = 0" "bkt_count ?b < n" using assms(4) [OF nth_mem [OF i]] by auto
  then have "bkt_count ?b < 9" using assms(5) by (rule_tac less_le_trans)
  then have "\<not> 10 \<le> bkt_count ?b + 1" by (simp add: word_le_nat_alt word_less_nat_alt unat_word_ariths)
  then have "HASH_ADD_TO_BKT ans (HASH_TO_BKT v 32) p t = Some ?t"
    using assms(1) i b(1)
    by (simp add: HASH_ADD_TO_BKT_def ld_nth_def st_nth_def push_hh_def push_hh_swap Let_def cong: option.case_cong)
  moreover have "bkt_count ?b + 1 < n + 1"
    using b(2) assms(5) by (simp add: word_le_nat_alt word_less_nat_alt unat_word_ariths)
  then have "\<forall>b \<in> set ((buckets tb)[?i := ?b']). expand_mult b = 0 \<and> bkt_count b < n + 1"
  proof -
    have less: "bkt_count x < n + 1" if "bkt_count x < n" for x :: "'a UT_hash_bucket"
      using that assms(5) by (simp add: word_le_nat_alt word_less_nat_alt unat_word_ariths)
    show ?thesis
      using assms(4) b less \<open>bkt_count ?b + 1 < n + 1\<close> set_update_subset_insert [of "buckets tb" ?i ?b']
      by fastforce
  qed
  ultimately show ?thesis using assms(3) by (intro exI [of _ ?t]) auto
qed

lemma select_one_first:
  assumes "ut_head dst = None"
  shows "\<exists>d tb. select_one (\<lambda>_. True) src p (dst, None) = Some (d, Some p) \<and> tbl d = Some tb \<and>
    ut_head d = Some p \<and> tbl_tail tb = p \<and> num_buckets tb = 32 \<and> length (buckets tb) = 32 \<and>
    (\<forall>b \<in> set (buckets tb). expand_mult b = 0 \<and> bkt_count b < 2)"
proof -
  let ?tb = "\<lparr>buckets = replicate 32 zero_bucket, num_buckets = 32, log2_num_buckets = 5, num_items = 0, tbl_tail = p,
    ideal_chain_maxlen = 0, nonideal_items = 0, ineff_expands = 0, noexpand = 0\<rparr> :: 'a UT_hash_table"
  let ?d = "(set_hh p (\<lambda>x. x\<lparr>hh_key := hh_key (hh src p), keylen := keylen (hh src p),
      hashv := hashv (hh src p), ut_prev := None, ut_next := None\<rparr>) dst)\<lparr>ut_head := Some p, tbl := Some ?tb\<rparr>"
  obtain d bs where "HASH_ADD_TO_BKT (\<lambda>_. True) (HASH_TO_BKT (hashv (hh ?d p)) 32) p ?d = Some d"
    "tbl d = Some (?tb\<lparr>buckets := bs\<rparr>)" "length bs = 32" "\<forall>b \<in> set bs. expand_mult b = 0 \<and> bkt_count b < 1 + 1"
    "ut_head d = ut_head ?d"
    using add_to_fresh_bucket [of ?d ?tb 1 "\<lambda>_. True" "hashv (hh ?d p)" p] by (auto simp: zero_bucket_def)
  then show ?thesis
    using assms by (simp add: select_one_def HASH_MAKE_TABLE_def set_hh_def)
qed

lemma select_one_next:
  assumes "tbl dst = Some tb" "ut_head dst = Some h" "num_buckets tb = 32" "length (buckets tb) = 32" "p \<noteq> q"
    and "\<forall>b \<in> set (buckets tb). expand_mult b = 0 \<and> bkt_count b < 2"
  shows "\<exists>d tb'. select_one (\<lambda>_. True) src q (dst, Some p) = Some (d, Some q) \<and> tbl d = Some tb' \<and>
    ut_head d = Some h \<and> tbl_tail tb' = tbl_tail tb \<and> num_buckets tb' = 32 \<and> length (buckets tb') = 32 \<and>
    (\<forall>b \<in> set (buckets tb'). expand_mult b = 0 \<and> bkt_count b < 3) \<and> ut_next (hh d p) = Some q"
proof -
  let ?d = "set_hh p (\<lambda>x. x\<lparr>ut_next := Some q\<rparr>) (set_hh q (\<lambda>x. x\<lparr>hh_key := hh_key (hh src q),
      keylen := keylen (hh src q), hashv := hashv (hh src q), ut_prev := Some p, ut_next := None\<rparr>) dst)"
  obtain d bs where "HASH_ADD_TO_BKT (\<lambda>_. True) (HASH_TO_BKT (hashv (hh ?d q)) 32) q ?d = Some d"
    "tbl d = Some (tb\<lparr>buckets := bs\<rparr>)" "length bs = 32" "\<forall>b \<in> set bs. expand_mult b = 0 \<and> bkt_count b < 2 + 1"
    "ut_head d = ut_head ?d" "order_eq (hh ?d) (hh d)"
    using add_to_fresh_bucket [of ?d tb 2 "\<lambda>_. True" "hashv (hh ?d q)" q] assms by (auto simp: set_hh_def)
  moreover from this have "ut_next (hh d p) = Some q" by (simp add: order_eq_def set_hh_def)
  ultimately show ?thesis using assms by (simp add: select_one_def set_hh_def)
qed

lemma add_after_tail:
  assumes "tbl d = Some tb" "ut_head d = Some h" "num_buckets tb = 32" "length (buckets tb) = 32" "r \<noteq> tbl_tail tb"
    and "\<forall>b \<in> set (buckets tb). expand_mult b = 0 \<and> bkt_count b < 3"
  shows "\<exists>d'. UT_HASH_ADD (\<lambda>_. True) d r = Some d' \<and> ut_head d' = Some h \<and>
    ut_next (hh d' (tbl_tail tb)) = Some r \<and> ut_next (hh d' r) = None"
proof -
  let ?tb = "tb\<lparr>tbl_tail := r, num_items := num_items tb + 1\<rparr>"
  let ?v = "HASH_JEN (key_bytes (fld d r))"
  let ?d = "(set_hh r (\<lambda>x. x\<lparr>hashv := ?v\<rparr>) (set_hh r (\<lambda>x. x\<lparr>ut_prev := Some (tbl_tail tb)\<rparr>)
      (set_hh (tbl_tail tb) (\<lambda>x. x\<lparr>ut_next := Some r\<rparr>)
        (set_hh r (\<lambda>x. x\<lparr>ut_next := None, hh_key := r, keylen := 4\<rparr>) d))))\<lparr>tbl := Some ?tb\<rparr>"
  obtain d' where d': "HASH_ADD_TO_BKT (\<lambda>_. True) (HASH_TO_BKT ?v 32) r ?d = Some d'"
    "ut_head d' = ut_head ?d" "order_eq (hh ?d) (hh d')"
    using add_to_fresh_bucket [of ?d ?tb 3 "\<lambda>_. True" ?v r] assms by auto
  have "UT_HASH_ADD (\<lambda>_. True) d r = HASH_ADD_TO_BKT (\<lambda>_. True) (HASH_TO_BKT ?v 32) r ?d"
    using assms(1-3) by (cases d) (simp add: UT_HASH_ADD_def set_hh_def Let_def)
  then show ?thesis using d' assms(2,5) by (auto simp: order_eq_def set_hh_def)
qed

lemma select_then_add_loses_element:
  assumes "ut_head dst = None" "p \<noteq> q" "r \<noteq> p"
  shows "\<exists>d1 d2 d3. select_one (\<lambda>_. True) src p (dst, None) = Some (d1, Some p) \<and>
    select_one (\<lambda>_. True) src q (d1, Some p) = Some (d2, Some q) \<and> ut_next (hh d2 p) = Some q \<and>
    UT_HASH_ADD (\<lambda>_. True) d2 r = Some d3 \<and>
    ut_head d3 = Some p \<and> ut_next (hh d3 p) = Some r \<and> ut_next (hh d3 r) = None"
proof -
  obtain d1 tb1 where d1: "select_one (\<lambda>_. True) src p (dst, None) = Some (d1, Some p)" "tbl d1 = Some tb1"
    "ut_head d1 = Some p" "tbl_tail tb1 = p" "num_buckets tb1 = 32" "length (buckets tb1) = 32"
    "\<forall>b \<in> set (buckets tb1). expand_mult b = 0 \<and> bkt_count b < 2"
    using select_one_first [OF assms(1), of src p] by blast
  obtain d2 tb2 where d2: "select_one (\<lambda>_. True) src q (d1, Some p) = Some (d2, Some q)" "tbl d2 = Some tb2"
    "ut_head d2 = Some p" "tbl_tail tb2 = p" "num_buckets tb2 = 32" "length (buckets tb2) = 32"
    "\<forall>b \<in> set (buckets tb2). expand_mult b = 0 \<and> bkt_count b < 3" "ut_next (hh d2 p) = Some q"
    using select_one_next [OF d1(2,3,5,6) assms(2) d1(7), of src] d1(4) by auto
  have "r \<noteq> tbl_tail tb2" using d2(4) assms(3) by simp
  from add_after_tail [OF d2(2,3,5,6) this d2(7)] show ?thesis using d1(1) d2(1,4,8) by auto
qed

end
