(* ===== verification/FB_Hash_Functions.thy ===== *)
theory FB_Hash_Functions
  imports FB_Uthash
begin

text \<open>
  The hash functions of \<open>uthash/uthash.h\<close> that \<open>HASH_FUNCTION\<close> may choose instead of \<open>HASH_JEN\<close>. A key is
  the list of its bytes; the result is \<open>hashv\<close>, and the bucket is \<open>HASH_TO_BKT\<close> of it. Where the code reads
  the key as \<open>char\<close>, \<open>ch\<close> is the conversion of a byte to \<open>unsigned\<close>: sign extension where \<open>char\<close> is signed,
  zero extension where it is not.

  The last part is \<open>MUR_GETBLOCK\<close>, the block read of \<open>HASH_MUR\<close> for processors that cannot read unaligned words. Its
  shifts and masks put the right bytes together, but for an unaligned key it ignores the number of the block.
\<close>

unbundle bit_operations_syntax

section \<open>Byte by byte\<close>

definition HASH_BER :: "(u8 \<Rightarrow> u32) \<Rightarrow> u8 list \<Rightarrow> u32" where
  "HASH_BER ch key = fold (\<lambda>c hashv. hashv * 33 + ch c) key 0"

definition HASH_SAX :: "(u8 \<Rightarrow> u32) \<Rightarrow> u8 list \<Rightarrow> u32" where
  "HASH_SAX ch key =
     fold (\<lambda>c hashv. hashv XOR (push_bit 5 hashv + drop_bit 2 hashv + ch c)) key 0"

definition HASH_FNV :: "(u8 \<Rightarrow> u32) \<Rightarrow> u8 list \<Rightarrow> u32" where
  "HASH_FNV ch key = fold (\<lambda>c hashv. (hashv * 16777619) XOR ch c) key 2166136261"

definition HASH_OAT :: "(u8 \<Rightarrow> u32) \<Rightarrow> u8 list \<Rightarrow> u32" where
  "HASH_OAT ch key = (
     let hashv = fold (\<lambda>c hashv.
           let hashv = hashv + ch c;
               hashv = hashv + push_bit 10 hashv
           in hashv XOR drop_bit 6 hashv) key 0;
         hashv = hashv + push_bit 3 hashv;
         hashv = hashv XOR drop_bit 11 hashv
     in hashv + push_bit 15 hashv)"

section \<open>The function of Paul Hsieh\<close>

definition get16bits :: "u8 list \<Rightarrow> nat \<Rightarrow> u32" where
  "get16bits key n = push_bit 8 (ucast (key ! (n + 1))) + ucast (key ! n)"

text \<open>The main loop over blocks of four bytes, with the rest of the key as result.\<close>

fun hash_sfh_blocks :: "u8 list \<Rightarrow> u32 \<Rightarrow> u8 list \<times> u32" where
  "hash_sfh_blocks key hv =
     (if 4 \<le> length key then
        let hashv = hv + get16bits key 0;
            sfh_tmp = push_bit 11 (get16bits key 2) XOR hashv;
            hashv = push_bit 16 hashv XOR sfh_tmp;
            hashv = hashv + drop_bit 11 hashv
        in hash_sfh_blocks (drop 4 key) hashv
      else (key, hv))"

declare hash_sfh_blocks.simps [simp del]

definition hash_sfh_rest :: "u8 list \<Rightarrow> u32 \<Rightarrow> u32" where
  "hash_sfh_rest key hv =
     (if length key = 3 then
        let hashv = hv + get16bits key 0;
            hashv = hashv XOR push_bit 16 hashv;
            hashv = hashv XOR push_bit 18 (ucast (key ! 2))
        in hashv + drop_bit 11 hashv
      else if length key = 2 then
        let hashv = hv + get16bits key 0;
            hashv = hashv XOR push_bit 11 hashv
        in hashv + drop_bit 17 hashv
      else if length key = 1 then
        let hashv = hv + ucast (key ! 0);
            hashv = hashv XOR push_bit 10 hashv
        in hashv + drop_bit 1 hashv
      else hv)"

definition HASH_SFH :: "u8 list \<Rightarrow> u32" where
  "HASH_SFH key = (
     let (rest, hashv) = hash_sfh_blocks key 0xcafebabe;
         hashv = hash_sfh_rest rest hashv;
         hashv = hashv XOR push_bit 3 hashv;
         hashv = hashv + drop_bit 5 hashv;
         hashv = hashv XOR push_bit 4 hashv;
         hashv = hashv + drop_bit 17 hashv;
         hashv = hashv XOR push_bit 25 hashv
     in hashv + drop_bit 6 hashv)"

section \<open>MurmurHash\<close>

definition MUR_ROTL32 :: "u32 \<Rightarrow> nat \<Rightarrow> u32" where
  "MUR_ROTL32 x r = push_bit r x OR drop_bit (32 - r) x"

definition MUR_FMIX :: "u32 \<Rightarrow> u32" where
  "MUR_FMIX h = (
     let h = h XOR drop_bit 16 h;
         h = h * 0x85ebca6b;
         h = h XOR drop_bit 13 h;
         h = h * 0xc2b2ae35
     in h XOR drop_bit 16 h)"

definition mur_k1 :: "u32 \<Rightarrow> u32" where
  "mur_k1 k1 = MUR_ROTL32 (k1 * 0xcc9e2d51) 15 * 0x1b873593"

text \<open>
  \<open>getblock k\<close> is the block number \<open>k\<close> from the start of the key, \<open>MUR_GETBLOCK(_mur_blocks, _mur_i)\<close> with
  \<open>_mur_i = k - nblocks\<close>; \<open>tail\<close> are the bytes behind the blocks.
\<close>

definition HASH_MUR :: "(nat \<Rightarrow> u32) \<Rightarrow> (nat \<Rightarrow> u8) \<Rightarrow> nat \<Rightarrow> u32" where
  "HASH_MUR getblock tail len = (
     let h1 = fold (\<lambda>k h1.
           let h1 = h1 XOR mur_k1 (getblock k);
               h1 = MUR_ROTL32 h1 13
           in h1 * 5 + 0xe6546b64) [0..<len div 4] 0xf88D5353;
         rem = len mod 4;
         k1 = 0;
         k1 = (if 3 \<le> rem then k1 XOR push_bit 16 (ucast (tail 2)) else k1);
         k1 = (if 2 \<le> rem then k1 XOR push_bit 8 (ucast (tail 1)) else k1);
         h1 = (if 1 \<le> rem then h1 XOR mur_k1 (k1 XOR ucast (tail 0)) else h1);
         h1 = h1 XOR of_nat len
     in MUR_FMIX h1)"

text \<open>A little-endian word in the bytes of memory, and \<open>MUR_GETBLOCK\<close> on a processor that reads unaligned words.\<close>

definition le32 :: "(nat \<Rightarrow> u8) \<Rightarrow> nat \<Rightarrow> u32" where
  "le32 mem p = ucast (mem p) OR push_bit 8 (ucast (mem (p + 1))) OR
     push_bit 16 (ucast (mem (p + 2))) OR push_bit 24 (ucast (mem (p + 3)))"

definition hash_mur_intel :: "(nat \<Rightarrow> u8) \<Rightarrow> nat \<Rightarrow> nat \<Rightarrow> u32" where
  "hash_mur_intel mem key len =
     HASH_MUR (\<lambda>k. le32 mem (key + 4 * k)) (\<lambda>i. mem (key + 4 * (len div 4) + i)) len"

text \<open>\<open>*(WP(p) + j)\<close>: the aligned word at or before \<open>p\<close>, and the next one.\<close>

definition WP :: "(nat \<Rightarrow> u8) \<Rightarrow> nat \<Rightarrow> nat \<Rightarrow> u32" where
  "WP mem p j = le32 mem (p - p mod 4 + 4 * j)"

definition MUR_THREE_ONE :: "(nat \<Rightarrow> u8) \<Rightarrow> nat \<Rightarrow> u32" where
  "MUR_THREE_ONE mem p = drop_bit 8 (WP mem p 0 AND 0xffffff00) OR push_bit 24 (WP mem p 1 AND 0x000000ff)"

definition MUR_TWO_TWO :: "(nat \<Rightarrow> u8) \<Rightarrow> nat \<Rightarrow> u32" where
  "MUR_TWO_TWO mem p = drop_bit 16 (WP mem p 0 AND 0xffff0000) OR push_bit 16 (WP mem p 1 AND 0x0000ffff)"

definition MUR_ONE_THREE :: "(nat \<Rightarrow> u8) \<Rightarrow> nat \<Rightarrow> u32" where
  "MUR_ONE_THREE mem p = drop_bit 24 (WP mem p 0 AND 0xff000000) OR push_bit 8 (WP mem p 1 AND 0x00ffffff)"

text \<open>\<open>MUR_GETBLOCK(p, i)\<close> of the other little-endian processors; \<open>i\<close> is negative, \<open>p[i]\<close> lies before \<open>p\<close>.\<close>

definition MUR_GETBLOCK :: "(nat \<Rightarrow> u8) \<Rightarrow> nat \<Rightarrow> int \<Rightarrow> u32" where
  "MUR_GETBLOCK mem p i =
     (if p mod 4 = 0 then le32 mem (nat (int p + 4 * i))
      else if p mod 4 = 1 then MUR_THREE_ONE mem p
      else if p mod 4 = 2 then MUR_TWO_TWO mem p
      else MUR_ONE_THREE mem p)"

definition hash_mur_aligned :: "(nat \<Rightarrow> u8) \<Rightarrow> nat \<Rightarrow> nat \<Rightarrow> u32" where
  "hash_mur_aligned mem key len = (
     let nblocks = len div 4;
         blocks = key + nblocks * 4
     in HASH_MUR (\<lambda>k. MUR_GETBLOCK mem blocks (int k - int nblocks)) (\<lambda>i. mem (blocks + i)) len)"

section \<open>Lemmas\<close>

text \<open>Published values of the one-at-a-time function and of FNV-1.\<close>

lemma hash_vectors: "HASH_OAT ucast [97] = 0xca2e9442" "HASH_FNV ucast [97] = 0x050c5d7e"
  by code_simp+

text \<open>The masks and shifts put together the four bytes at an unaligned address.\<close>

lemma byte_bits: "bit (x :: u8) n \<Longrightarrow> n < 8"
  using bit_imp_le_length [of x n] by simp

lemma le32_bit:
  assumes "r < 8"
  shows "bit (le32 mem p) r = bit (mem p) r" "bit (le32 mem p) (8 + r) = bit (mem (p + 1)) r"
    "bit (le32 mem p) (16 + r) = bit (mem (p + 2)) r" "bit (le32 mem p) (24 + r) = bit (mem (p + 3)) r"
  using assms by (auto simp: le32_def bit_simps dest: byte_bits)

lemma byte_cases:
  fixes n :: nat
  assumes "n < 32"
  obtains r where "r < 8" "n = r" | r where "r < 8" "n = 8 + r"
    | r where "r < 8" "n = 16 + r" | r where "r < 8" "n = 24 + r"
proof -
  have "n < 8 \<or> n - 8 < 8 \<and> n = 8 + (n - 8) \<or> n - 16 < 8 \<and> n = 16 + (n - 16) \<or>
    n - 24 < 8 \<and> n = 24 + (n - 24)"
    using assms by arith
  then show thesis using that by blast
qed

lemma le32_eqI:
  fixes w :: u32
  assumes "\<And>r. r < 8 \<Longrightarrow> bit w r = bit (mem p) r \<and> bit w (8 + r) = bit (mem (p + 1)) r \<and>
      bit w (16 + r) = bit (mem (p + 2)) r \<and> bit w (24 + r) = bit (mem (p + 3)) r"
  shows "w = le32 mem p"
proof (rule bit_word_eqI)
  fix n
  assume "n < LENGTH(32)"
  then have "n < 32" by simp
  then show "bit w n = bit (le32 mem p) n"
    by (cases rule: byte_cases) (simp_all only: assms le32_bit)
qed

lemma masks:
  "(0xffffff00 :: u32) = push_bit 8 (mask 24)" "(0xffff0000 :: u32) = push_bit 16 (mask 16)"
  "(0xff000000 :: u32) = push_bit 24 (mask 8)" "(0x000000ff :: u32) = mask 8"
  "(0x0000ffff :: u32) = mask 16" "(0x00ffffff :: u32) = mask 24"
  by (simp_all add: mask_eq_exp_minus_1)

lemma le32_shifted:
  "drop_bit 8 (le32 mem a AND 0xffffff00) OR push_bit 24 (le32 mem (a + 4) AND 0x000000ff) = le32 mem (a + 1)"
  "drop_bit 16 (le32 mem a AND 0xffff0000) OR push_bit 16 (le32 mem (a + 4) AND 0x0000ffff) = le32 mem (a + 2)"
  "drop_bit 24 (le32 mem a AND 0xff000000) OR push_bit 8 (le32 mem (a + 4) AND 0x00ffffff) = le32 mem (a + 3)"
  unfolding masks
  by (rule le32_eqI; simp add: bit_simps le32_bit; simp add: Suc3_eq_add_3 ac_simps)+

lemma mur_unaligned_word:
  "p mod 4 = 1 \<Longrightarrow> MUR_THREE_ONE mem p = le32 mem p"
  "p mod 4 = 2 \<Longrightarrow> MUR_TWO_TWO mem p = le32 mem p"
  "p mod 4 = 3 \<Longrightarrow> MUR_ONE_THREE mem p = le32 mem p"
proof -
  have p: "p - p mod 4 + r = p" if "p mod 4 = r" for r using that mod_less_eq_dividend [of p 4] by simp
  show "p mod 4 = 1 \<Longrightarrow> MUR_THREE_ONE mem p = le32 mem p"
    using p [of 1] le32_shifted(1) [of mem "p - p mod 4"] by (simp only: MUR_THREE_ONE_def WP_def mult_0_right mult_1_right add_0_right)
  show "p mod 4 = 2 \<Longrightarrow> MUR_TWO_TWO mem p = le32 mem p"
    using p [of 2] le32_shifted(2) [of mem "p - p mod 4"] by (simp only: MUR_TWO_TWO_def WP_def mult_0_right mult_1_right add_0_right)
  show "p mod 4 = 3 \<Longrightarrow> MUR_ONE_THREE mem p = le32 mem p"
    using p [of 3] le32_shifted(3) [of mem "p - p mod 4"] by (simp only: MUR_ONE_THREE_def WP_def mult_0_right mult_1_right add_0_right)
qed

lemma HASH_MUR_cong:
  assumes "\<And>k. k < len div 4 \<Longrightarrow> getblock k = getblock' k" "\<And>i. i < len mod 4 \<Longrightarrow> tail i = tail' i"
  shows "HASH_MUR getblock tail len = HASH_MUR getblock' tail' len"
proof -
  have "fold (\<lambda>k h1. MUR_ROTL32 (h1 XOR mur_k1 (getblock k)) 13 * 5 + 0xe6546b64) [0..<len div 4] h =
      fold (\<lambda>k h1. MUR_ROTL32 (h1 XOR mur_k1 (getblock' k)) 13 * 5 + 0xe6546b64) [0..<len div 4] h" for h
    by (rule fold_cong) (use assms(1) in auto)
  moreover have "3 \<le> len mod 4 \<Longrightarrow> tail 2 = tail' 2" "2 \<le> len mod 4 \<Longrightarrow> tail 1 = tail' 1"
    "1 \<le> len mod 4 \<Longrightarrow> tail 0 = tail' 0"
    using assms(2) by auto
  ultimately show ?thesis by (simp add: HASH_MUR_def Let_def)
qed

text \<open>Of an aligned key the second variant is the hash of the first.\<close>

lemma mur_aligned:
  assumes "key mod 4 = 0"
  shows "hash_mur_aligned mem key len = hash_mur_intel mem key len"
proof -
  have "MUR_GETBLOCK mem (key + len div 4 * 4) (int k - int (len div 4)) = le32 mem (key + 4 * k)"
    if "k < len div 4" for k
  proof -
    have "(key + len div 4 * 4) mod 4 = 0" using assms by simp
    moreover have "nat (int (key + len div 4 * 4) + 4 * (int k - int (len div 4))) = key + 4 * k" by simp
    ultimately show ?thesis by (simp add: MUR_GETBLOCK_def)
  qed
  then show ?thesis
    unfolding hash_mur_aligned_def hash_mur_intel_def Let_def
    by (intro HASH_MUR_cong) (simp_all add: mult.commute)
qed

text \<open>
  Of an unaligned key it reads, instead of every block of the key, the four bytes behind the last
  one.
\<close>

lemma mur_unaligned_block: "p mod 4 \<noteq> 0 \<Longrightarrow> MUR_GETBLOCK mem p i = le32 mem p"
proof -
  assume "p mod 4 \<noteq> 0"
  moreover have "p mod 4 < 4" by simp
  ultimately have "p mod 4 = 1 \<or> p mod 4 = 2 \<or> p mod 4 = 3" by linarith
  then show ?thesis using mur_unaligned_word [of p mem] by (auto simp: MUR_GETBLOCK_def)
qed

lemma mur_unaligned:
  assumes "key mod 4 \<noteq> 0"
  shows "hash_mur_aligned mem key len =
    HASH_MUR (\<lambda>k. le32 mem (key + len div 4 * 4)) (\<lambda>i. mem (key + len div 4 * 4 + i)) len"
proof -
  have "(key + len div 4 * 4) mod 4 \<noteq> 0" using assms by simp
  then show ?thesis by (simp add: hash_mur_aligned_def Let_def mur_unaligned_block)
qed

text \<open>
  So the hash of an unaligned key of whole blocks does not depend on the key at all, but on the memory behind it. An
  aligned and an unaligned copy of a key have different hashes in general, and the second is not
  found in a table that holds the first.
\<close>

lemma mur_unaligned_ignores_key:
  assumes "key mod 4 \<noteq> 0" "len mod 4 = 0" "\<And>p. key + len \<le> p \<Longrightarrow> mem p = mem' p"
  shows "hash_mur_aligned mem key len = hash_mur_aligned mem' key len"
proof -
  have len: "len div 4 * 4 = len" using assms(2) by (simp add: mod_0_imp_dvd dvd_div_mult_self)
  have "le32 mem (key + len) = le32 mem' (key + len)" using assms(3) by (simp add: le32_def)
  then show ?thesis
    unfolding mur_unaligned [OF assms(1)] len by (intro HASH_MUR_cong) (simp_all add: assms(3))
qed

end
