(* ===== verification/FB_Full_Chip.thy ===== *)
theory FB_Full_Chip
  imports FB_Collect
begin

text \<open>
  When does a write fail? The chips are written in turn, whatever they hold, and a collection wants a victim on every chip that
  has no active block. So a chip that is full of valid pages stops all writes, even while the other one has room. This
  theory shows that a host gets there by writing a little more than half of the logical pages, some of them often. The argument counts
  the pages mapped to a chip (\<open>on_chip\<close>) and its free wordlines (\<open>free_in\<close>).
\<close>

section \<open>A chip full of valid pages\<close>

definition chip_blks :: "u32 \<Rightarrow> blkptr set" where
  "chip_blks c = {p. valid_blk p \<and> blk_bus p = 0 \<and> blk_chip p = c}"

definition on_chip :: "fb_context_t \<Rightarrow> u32 \<Rightarrow> u32 set" where
  "on_chip fb c = {lpa. is_valid_address_range lpa \<and> l2p fb lpa \<noteq> PAGE_UNMAPPED \<and>
     blk_chip (fst (ppa_slot (l2p fb lpa))) = c}"

lemma chip_blks_card:
  assumes "valid_chip 0 c"
  shows "finite (chip_blks c)" "card (chip_blks c) = 171"
proof -
  have e: "chip_blks c = set (map (Blk 0 c) (words_below NUM_BLOCKS_PER_CHIP))"
    using chip_blocks [OF assms] by (simp add: chip_blks_def)
  show "finite (chip_blks c)" unfolding e by simp
  have "distinct (map (Blk 0 c) (words_below (NUM_BLOCKS_PER_CHIP :: u32)))"
    by (simp add: distinct_map inj_on_def)
  then show "card (chip_blks c) = 171"
    unfolding e by (simp only: distinct_card length_map length_words_below) (simp add: geometry_simps)
qed

lemma chip_blks_roles:
  assumes "ftl_ok fb" "valid_chip 0 c"
  shows "chip_blks c = set (roles (chip_of fb 0 c) (act_of fb 0 c) (gc_of fb 0 c))"
  using chip_part_roles(2) [OF ftl_invD(7) [OF assms] assms(2)] by (simp add: chip_blks_def)

text \<open>Every page mapped to a chip has a valid slot of its own there.\<close>

lemma on_chip_slots:
  assumes inv: "ftl_ok fb" and vc: "valid_chip 0 c"
  shows "card (on_chip fb c) \<le> (\<Sum>p \<in> chip_blks c. card (slots_with PAGE_STATUS_VALID (blk_of fb p)))"
proof -
  let ?S = "Sigma (chip_blks c) (\<lambda>p. slots_with PAGE_STATUS_VALID (blk_of fb p))"
  have slot: "ppa_slot (l2p fb lpa) \<in> ?S \<and> (case ppa_slot (l2p fb lpa) of (p, pg, i) \<Rightarrow> blpa (blk_of fb p) pg i) = lpa"
    if l: "lpa \<in> on_chip fb c" for lpa
  proof -
    obtain p pg i where p: "valid_blk p" "pg < NUM_PAGES_PER_BLOCK" "i < NR_LP_IN_PP" "l2p fb lpa = slot_ppa p pg i"
      "bst (blk_of fb p) pg i = PAGE_STATUS_VALID" "blpa (blk_of fb p) pg i = lpa"
      using map_okD(1) [OF ftl_invD(3) [OF inv], of lpa] l unfolding on_chip_def by blast
    then have s: "ppa_slot (l2p fb lpa) = (p, pg, i)" by (simp add: ppa_slot_slot_ppa)
    moreover have "blk_chip p = c" using l s by (simp add: on_chip_def)
    moreover have "blk_bus p = 0" using valid_blk_chip [OF p(1)] by (auto simp: valid_chip_cases)
    ultimately show ?thesis using p by (simp add: chip_blks_def slots_with_def)
  qed
  have inj: "inj_on (\<lambda>lpa. ppa_slot (l2p fb lpa)) (on_chip fb c)"
    by (rule inj_on_inverseI [where g = "\<lambda>(p, pg, i). blpa (blk_of fb p) pg i"]) (use slot in blast)
  have sub: "(\<lambda>lpa. ppa_slot (l2p fb lpa)) ` on_chip fb c \<subseteq> ?S" using slot by blast
  have fin: "\<forall>p \<in> chip_blks c. finite (slots_with PAGE_STATUS_VALID (blk_of fb p))" by simp
  then have "finite ?S" using chip_blks_card(1) [OF vc] by (simp add: finite_SigmaI)
  with inj sub have "card (on_chip fb c) \<le> card ?S" by (rule card_inj_on_le)
  then show ?thesis using card_SigmaI [OF chip_blks_card(1) [OF vc] fin] by simp
qed

text \<open>When as many are mapped as fit into all blocks but one, and that one has no valid slot, the others have no other.\<close>

lemma others_full:
  assumes inv: "ftl_ok fb" and vc: "valid_chip 0 c" and q: "q \<in> chip_blks c" "slots_with PAGE_STATUS_VALID (blk_of fb q) = {}"
    and n: "170 * 768 \<le> card (on_chip fb c)" and p: "p \<in> chip_blks c" "p \<noteq> q"
  shows "card (slots_with PAGE_STATUS_VALID (blk_of fb p)) = 768"
proof (rule ccontr)
  let ?v = "\<lambda>p. card (slots_with PAGE_STATUS_VALID (blk_of fb p))"
  note fin = chip_blks_card [OF vc]
  assume "?v p \<noteq> 768"
  then have less: "?v p < 768" using card_slots_le [of PAGE_STATUS_VALID "blk_of fb p"] by simp
  have "(\<Sum>p \<in> chip_blks c. ?v p) = (\<Sum>p \<in> chip_blks c - {q}. ?v p)"
    using fin(1) q by (subst sum.remove [of _ q]) simp_all
  also have "\<dots> < (\<Sum>p \<in> chip_blks c - {q}. 768)"
    by (rule sum_strict_mono_ex1) (use fin(1) p less card_slots_le in auto)
  also have "\<dots> = 170 * 768" using fin q(1) by simp
  finally show False using on_chip_slots [OF inv vc] n by simp
qed

lemma all_slots_valid:
  assumes wf: "blk_wf 0 b" and n: "card (slots_with PAGE_STATUS_VALID b) = 768"
  shows "nr_free_pages b = 0" "nr_invalid_log_pages b = 0" "\<not> all_dead b"
proof -
  let ?U = "{(pg :: u32, i :: u8). pg < NUM_PAGES_PER_BLOCK \<and> i < NR_LP_IN_PP}"
  have "finite ?U" by simp
  moreover have "slots_with PAGE_STATUS_VALID b \<subseteq> ?U" by (auto simp: slots_with_def)
  ultimately have "slots_with PAGE_STATUS_VALID b = ?U" using n slot_universe by (metis card_subset_eq)
  then have v: "bst b pg i = PAGE_STATUS_VALID" if "pg < NUM_PAGES_PER_BLOCK" "i < NR_LP_IN_PP" for pg i
    using that by (auto simp: slots_with_def set_eq_iff)
  have z: "(0 :: u32) < NUM_PAGES_PER_BLOCK" "(0 :: u8) < NR_LP_IN_PP" by (simp_all add: geometry_simps)
  show "nr_free_pages b = 0"
  proof (rule ccontr)
    assume "nr_free_pages b \<noteq> 0"
    then have f: "0 < nr_free_pages b" by (simp add: word_gt_0)
    show False using blk_wfD(7) [OF wf frontier_less(3) [OF f] z(2)] v [OF frontier_less(3) [OF f] z(2)]
        frontier_less(2) [OF f] by simp
  qed
  have "slots_with PAGE_STATUS_INVALID b = {}" using v by (auto simp: slots_with_def)
  then show "nr_invalid_log_pages b = 0" using blk_wfD(2) [OF wf] by simp
  show "\<not> all_dead b"
  proof
    assume "all_dead b"
    then have "bst b 0 0 = PAGE_STATUS_INVALID" using z unfolding all_dead_def by blast
    then show False using v [OF z] by simp
  qed
qed

text \<open>
  So the GC block of such a chip is its only block with room, and once that is the active block, there is no victim.
\<close>

lemma full_chip_no_room:
  assumes inv: "ftl_ok fb" and vc: "valid_chip 0 c" and gc: "gc_of fb 0 c = Some q" and n: "170 * 768 \<le> card (on_chip fb c)"
  shows "act_of fb 0 c = None" "free_blks (chip_of fb 0 c) = []"
proof -
  note D = ftl_invD [OF inv] and R = chip_blks_roles [OF inv vc]
  note dist = roles_distinct [OF chip_part_roles(1) [OF D(7) [OF vc]]]
  have q: "q \<in> chip_blks c" unfolding R using gc by (simp add: roles_def)
  have "slots_with PAGE_STATUS_VALID (blk_of fb q) = {}"
    using gc_block_no_valid [OF inv vc gc] by (auto simp: slots_with_def)
  note full = others_full [OF inv vc q this n]
  have used: "nr_free_pages (blk_of fb p) = 0" if "p \<in> chip_blks c" "p \<noteq> q" for p
    using all_slots_valid(1) [OF D(4) full [OF that]] that by (simp add: chip_blks_def)
  show "act_of fb 0 c = None"
  proof (rule ccontr)
    assume "act_of fb 0 c \<noteq> None"
    then obtain p where p: "act_of fb 0 c = Some p" by blast
    then have "p \<in> chip_blks c" "p \<noteq> q" unfolding R using dist(7) [of p] gc by (auto simp: roles_def)
    then show False using used D(8) [OF vc] p by (auto simp: roles_ok_def)
  qed
  show "free_blks (chip_of fb 0 c) = []"
  proof (rule ccontr)
    assume "free_blks (chip_of fb 0 c) \<noteq> []"
    then obtain p where p: "p \<in> set (free_blks (chip_of fb 0 c))" by (metis list.set_intros(1) neq_Nil_conv)
    then have "p \<in> chip_blks c" "p \<noteq> q" unfolding R using dist(4) [of p] gc by (auto simp: roles_def)
    then show False using used D(8) [OF vc] p by (auto simp: roles_ok_def NUM_PAGES_PER_BLOCK_def)
  qed
qed

lemma full_chip_no_victim:
  assumes inv: "ftl_ok fb" and vc: "valid_chip 0 c" and act: "act_of fb 0 c = Some q"
    and blank: "nr_free_pages (blk_of fb q) = NUM_PAGES_PER_BLOCK" and n: "170 * 768 \<le> card (on_chip fb c)"
  shows "select_vic_blk_greedy (ptr_ssd_info fb) 0 c = Some None"
proof -
  note D = ftl_invD [OF inv] and R = chip_blks_roles [OF inv vc]
  note dist = roles_distinct [OF chip_part_roles(1) [OF D(7) [OF vc]]]
  have q: "q \<in> chip_blks c" unfolding R using act by (simp add: roles_def)
  have "slots_with PAGE_STATUS_VALID (blk_of fb q) = {}"
    using blank_no_valid [OF D(4) blank] q by (auto simp: slots_with_def chip_blks_def)
  note full = others_full [OF inv vc q this n]
  have "dirt_blks (chip_of fb 0 c) = []"
  proof (rule ccontr)
    assume "dirt_blks (chip_of fb 0 c) \<noteq> []"
    then obtain p where p: "p \<in> set (dirt_blks (chip_of fb 0 c))" by (metis list.set_intros(1) neq_Nil_conv)
    then have c: "p \<in> chip_blks c" "p \<noteq> q" unfolding R using dist(6) [of p] act by (auto simp: roles_def)
    then have "\<not> all_dead (blk_of fb p)" using all_slots_valid(3) [OF D(4) full [OF c]] by (simp add: chip_blks_def)
    then show False using D(8) [OF vc] p by (auto simp: roles_ok_def)
  qed
  moreover have "nr_invalid_log_pages (blk_of fb p) = 0" if "p \<in> set (used_blks (chip_of fb 0 c))" for p
  proof -
    have c: "p \<in> chip_blks c" "p \<noteq> q" unfolding R using that dist(5) [of p] act by (auto simp: roles_def)
    then show ?thesis using all_slots_valid(2) [OF D(4) full [OF c]] by (simp add: chip_blks_def)
  qed
  ultimately show ?thesis using select_vic_blk_greedy_spec [OF inv vc] by auto
qed

section \<open>The collection and the write that fail\<close>

lemma on_chip_cong: "l2p fb' = l2p fb \<Longrightarrow> on_chip fb' = on_chip fb"
  by (simp add: on_chip_def fun_eq_iff)

lemma no_victim_fails:
  assumes inv: "ftl_ok fb" and z: "nr_copy fb = 0" and c: "c = 0 \<or> c = 1"
    and gc: "gc_of fb 0 c = None" and none: "select_vic_blk_greedy (ptr_ssd_info fb) 0 c = Some None"
  shows "\<exists>fb'. set_vic_blks fb = Some (-1, fb')"
proof -
  have fails: "set_vic_blks_chip 0 c f = Some (Some (-1), f)"
    if f: "ftl_ok f" "gc_of f = gc_of fb" "ptr_ssd_info f = ptr_ssd_info fb" for f
  proof -
    have vc: "valid_chip 0 c" using c by (auto simp: valid_chip_cases)
    show ?thesis
      using get_curr_gc_block_eq [OF ftl_invD(1) [OF f(1)] vc] get_curr_active_block_eq [OF ftl_invD(1) [OF f(1)] vc]
        f(2,3) gc none by (simp add: set_vic_blks_chip_def get_ssd_inf_def)
  qed
  obtain r1 fb1 where 1: "set_vic_blks_chip 0 0 fb = Some (r1, fb1)" "vic_frame fb fb1" "r1 = None \<or> r1 = Some (-1)"
    using set_vic_blks_chip_spec [OF inv, of 0 0] by auto
  note f1 = vic_frame_fields [OF 1(2)]
  show ?thesis
  proof (cases r1)
    case (Some e)
    then show ?thesis using 1(1,3) by (simp add: set_vic_blks_def words_below_CHIPS int_of_ret_def)
  next
    case None
    then have "c = 1" using c fails [OF inv] 1(1) by auto
    then have "set_vic_blks_chip 0 1 fb1 = Some (Some (-1), fb1)" using fails [OF f1(1) [OF inv] f1(6,4)] by simp
    then show ?thesis using 1(1) None by (simp add: set_vic_blks_def words_below_CHIPS int_of_ret_def)
  qed
qed

text \<open>Before it looks for victims, the collection makes the GC block of a chip without an active block its active block.\<close>

lemma prepare_opens:
  assumes inv: "ftl_ok fb" and c: "c = 0 \<or> c = 1" and act: "act_of fb 0 c = None" and gc: "gc_of fb 0 c = Some q"
  shows "\<exists>r fb'. prepare_act_blks fb = Some (r, fb') \<and> ftl_ok fb' \<and> nr_copy fb' = nr_copy fb \<and> l2p fb' = l2p fb \<and>
    (r = 0 \<longrightarrow> act_of fb' 0 c = Some q \<and> gc_of fb' 0 c = None \<and> nr_free_pages (blk_of fb' q) = NUM_PAGES_PER_BLOCK)"
proof -
  obtain r1 fb1 where 1: "prepare_act_blk 0 0 fb = Some (r1, fb1)" "ftl_ok fb1" "nr_copy fb1 = nr_copy fb"
    "act_of fb1 0 1 = act_of fb 0 1" "gc_of fb1 0 1 = gc_of fb 0 1" "l2p fb1 = l2p fb"
    "\<forall>p. act_of fb 0 0 = None \<and> gc_of fb 0 0 = Some p \<longrightarrow> r1 = None \<and> act_of fb1 0 0 = Some p \<and>
      gc_of fb1 0 0 = None \<and> nr_free_pages (blk_of fb1 p) = NUM_PAGES_PER_BLOCK" "r1 = None \<or> r1 = Some (-1)"
    using prepare_act_blk_spec [OF inv, of 0 0] by auto
  obtain r2 fb2 where 2: "prepare_act_blk 1 0 fb1 = Some (r2, fb2)" "ftl_ok fb2" "nr_copy fb2 = nr_copy fb1"
    "act_of fb2 0 0 = act_of fb1 0 0" "gc_of fb2 0 0 = gc_of fb1 0 0" "l2p fb2 = l2p fb1"
    "\<forall>p. gc_of fb1 0 1 \<noteq> Some p \<longrightarrow> blk_of fb2 p = blk_of fb1 p"
    "\<forall>p. act_of fb1 0 1 = None \<and> gc_of fb1 0 1 = Some p \<longrightarrow> r2 = None \<and> act_of fb2 0 1 = Some p \<and>
      gc_of fb2 0 1 = None \<and> nr_free_pages (blk_of fb2 p) = NUM_PAGES_PER_BLOCK"
    using prepare_act_blk_spec [OF 1(2), of 0 1] by auto
  have eq: "prepare_act_blks fb = Some (case r1 of Some e \<Rightarrow> (e, fb1) | None \<Rightarrow> (int_of_ret r2, fb2))"
    using 1(1) 2(1) by (cases r1; cases r2) (simp_all add: prepare_act_blks_def words_below_CHIPS int_of_ret_def)
  show ?thesis
  proof (cases "c = 0")
    case True
    then have "gc_of fb1 0 1 \<noteq> Some q"
      using gc_block_valid(3) [OF 1(2), of 0 1 q] gc_block_valid(3) [OF inv, of 0 0 q] gc by auto
    then show ?thesis using True eq act gc 1(2,3,6,7) 2(2-7) by (cases r1) auto
  next
    case False
    then have "c = 1" using c by simp
    then show ?thesis using eq act gc 1 2 by (cases r1) auto
  qed
qed

lemma trigger_fails:
  assumes inv: "ftl_ok fb" and c: "c = 0 \<or> c = 1" and gc: "gc_of fb 0 c = Some q" and n: "170 * 768 \<le> card (on_chip fb c)"
  shows "\<exists>fb'. trigger_gc_page_mapping fb = Some (-1, fb')"
proof -
  have vc: "valid_chip 0 c" using c by (auto simp: valid_chip_cases)
  let ?fb0 = "init_gcm fb"
  have i0: "ftl_ok ?fb0"
    by (rule ftl_inv_cong [OF inv]) (use ftl_invD(1) [OF inv] in \<open>simp_all add: init_gcm_def put_defs sizes_ok_def\<close>)
  have e0: "nr_copy ?fb0 = 0" "l2p ?fb0 = l2p fb" "act_of ?fb0 = act_of fb" "gc_of ?fb0 = gc_of fb"
    by (simp_all add: init_gcm_def put_defs act_of_def gc_of_def fun_eq_iff)
  obtain r1 fb1 where 1: "prepare_act_blks ?fb0 = Some (r1, fb1)" "ftl_ok fb1" "nr_copy fb1 = 0" "l2p fb1 = l2p fb"
    "r1 = 0 \<longrightarrow> act_of fb1 0 c = Some q \<and> gc_of fb1 0 c = None \<and> nr_free_pages (blk_of fb1 q) = NUM_PAGES_PER_BLOCK"
    using prepare_opens [OF i0 c, of q] full_chip_no_room(1) [OF inv vc gc n] gc e0 by auto
  show ?thesis
  proof (cases "r1 = 0")
    case False
    then show ?thesis using 1(1) by (simp add: trigger_gc_page_mapping_def)
  next
    case True
    have "170 * 768 \<le> card (on_chip fb1 c)" using n on_chip_cong [OF 1(4)] by simp
    then have none: "select_vic_blk_greedy (ptr_ssd_info fb1) 0 c = Some None"
      using full_chip_no_victim [OF 1(2) vc] 1(5) True by blast
    have "gc_of fb1 0 c = None" using 1(5) True by simp
    from no_victim_fails [OF 1(2,3) c this none] obtain fb2 where "set_vic_blks fb1 = Some (-1, fb2)" ..
    then show ?thesis using 1(1) True by (simp add: trigger_gc_page_mapping_def)
  qed
qed

text \<open>The chip a write turns to.\<close>

definition turn :: "fb_context_t \<Rightarrow> u32" where
  "turn fb = (if snd (mru fb) = 0 then 1 else 0)"

lemma turn_chip: "turn fb = 0 \<or> turn fb = 1" "valid_chip 0 (turn fb)"
  by (simp_all add: turn_def valid_chip_cases)

lemma full_chip_write_fails:
  assumes inv: "ftl_ok fb" and lock: "ftl_lock fb = 1" and gc: "gc_of fb 0 (turn fb) \<noteq> None"
    and n: "170 * 768 \<le> card (on_chip fb (turn fb))"
  shows "\<exists>fb'. make_write_request_page_mapping fb lpas src = Some (-1, fb')"
proof -
  let ?fb = "relock 0 fb" and ?chip = "(if snd (mru fb) = 0 then 1 else 0) :: u8"
  obtain q where q: "gc_of fb 0 (turn fb) = Some q" using gc by blast
  have i0: "ftl_ok ?fb" using inv by simp
  have m: "mru ?fb = mru fb" by (simp add: relock_def put_defs)
  have nx: "get_next_bus_chip ?fb = (0, ?chip)" using next_of_mru(1) [OF i0] unfolding m .
  note nb = next_bus_chip [OF ftl_invD(1) [OF i0] nx]
  have u: "ucast ?chip = turn fb" by (simp add: turn_def)
  note none = full_chip_no_room [OF inv turn_chip(2) q n]
  have need: "is_fgc_needed ?fb 0 ?chip = Some False"
    using is_fgc_needed_eq [OF i0 nb(1,2)] q unfolding u by simp
  have alloc: "alloc_new_page ?fb 0 ?chip = Some (-1, None, ?fb)"
    using alloc_new_page_spec [OF i0 nb(3)] none unfolding u by auto
  have "on_chip ?fb = on_chip fb" by (rule on_chip_cong) simp
  then obtain fb1 where "trigger_gc_page_mapping ?fb = Some (-1, fb1)"
    using trigger_fails [OF i0 turn_chip(1), of fb q] q n by auto
  moreover have "lock_ftl fb = Some ?fb" using lock lock_ops(1) by simp
  ultimately show ?thesis using nx need alloc by (simp add: make_write_request_page_mapping_def)
qed

section \<open>The writes that succeed\<close>

definition free_in :: "fb_context_t \<Rightarrow> u32 \<Rightarrow> nat" where
  "free_in fb c = (\<Sum>p \<in> chip_blks c. unat (nr_free_pages (blk_of fb p)))"

lemma free_in_cong: "nr_free_pages \<circ> blk_of fb' = nr_free_pages \<circ> blk_of fb \<Longrightarrow> free_in fb' = free_in fb"
  by (simp add: free_in_def fun_eq_iff)

lemma all_dead_full:
  assumes "blk_wf 0 b" "all_dead b"
  shows "nr_free_pages b = 0"
  using open_not_dead [OF assms(1)] assms(2) by (auto simp: word_gt_0)

lemma room_when_free:
  assumes inv: "ftl_ok fb" and vc: "valid_chip 0 c" and gc: "gc_of fb 0 c = Some q" and free: "192 < free_in fb c"
  shows "has_room fb c"
proof (rule ccontr)
  note D = ftl_invD [OF inv] and R = chip_blks_roles [OF inv vc]
  assume "\<not> has_room fb c"
  then have none: "act_of fb 0 c = None" "free_blks (chip_of fb 0 c) = []" using gc by (auto simp: has_room_def)
  have q: "q \<in> chip_blks c" unfolding R using gc by (simp add: roles_def)
  have "nr_free_pages (blk_of fb p) = 0" if p: "p \<in> chip_blks c" "p \<noteq> q" for p
  proof -
    have "p \<in> set (used_blks (chip_of fb 0 c)) \<or> p \<in> set (dirt_blks (chip_of fb 0 c))"
      using p none gc unfolding R by (auto simp: roles_def)
    then show ?thesis
      using D(8) [OF vc] all_dead_full [OF D(4)] p(1) by (auto simp: roles_ok_def chip_blks_def)
  qed
  then have "free_in fb c = unat (nr_free_pages (blk_of fb q))"
    unfolding free_in_def using chip_blks_card(1) [OF vc] q by (subst sum.remove [of _ q]) auto
  moreover have "unat (nr_free_pages (blk_of fb q)) \<le> 192" using blk_wfD(5) [OF D(4)] q by (simp add: chip_blks_def)
  ultimately show False using free by simp
qed

lemma free_in_program:
  assumes vd: "valid_chip 0 d" and p: "p \<in> chip_blks c" "0 < nr_free_pages (blk_of fb p)"
    and f: "nr_free_pages \<circ> blk_of fb' = (nr_free_pages \<circ> blk_of fb)(p := nr_free_pages (blk_of fb p) - 1)"
  shows "free_in fb d = free_in fb' d + (if d = c then 1 else 0)"
proof -
  have f': "nr_free_pages (blk_of fb' q) = (if q = p then nr_free_pages (blk_of fb p) - 1 else nr_free_pages (blk_of fb q))" for q
    using fun_cong [OF f, of q] by simp
  have dec: "unat (nr_free_pages (blk_of fb p) - 1) + 1 = unat (nr_free_pages (blk_of fb p))"
    using p(2) by (simp add: unat_minus_one word_gt_0 unat_gt_0)
  show ?thesis
  proof (cases "d = c")
    case True
    then show ?thesis
      unfolding free_in_def using chip_blks_card(1) [OF vd] p(1) dec
      by (simp add: sum.remove [of _ p] f')
  next
    case False
    then have "p \<notin> chip_blks d" using p(1) by (auto simp: chip_blks_def)
    then show ?thesis using False unfolding free_in_def by (auto simp: f' intro!: sum.cong)
  qed
qed

lemma write_effect:
  assumes inv: "ftl_ok fb" and lock: "ftl_lock fb = 1" and room: "has_room fb (turn fb)"
    and len: "4 \<le> length src" "length lpas = 4" and lpa: "\<forall>lpa \<in> set lpas. is_valid_address_range lpa"
  shows "\<exists>fb' p pg. make_write_request_page_mapping fb lpas src = Some (0, fb') \<and> ftl_ok fb' \<and> ftl_lock fb' = 1 \<and>
    snd (mru fb') = turn fb \<and> gc_kept fb fb' \<and> p \<in> chip_blks (turn fb) \<and> pg < NUM_PAGES_PER_BLOCK \<and>
    l2p fb' = wordline_map p pg ((!) lpas) (l2p fb) \<and>
    (\<forall>d. valid_chip 0 d \<longrightarrow> free_in fb d = free_in fb' d + (if d = turn fb then 1 else 0))"
proof -
  let ?fb = "relock 0 fb" and ?chip = "(if snd (mru fb) = 0 then 1 else 0) :: u8"
  have i0: "ftl_ok ?fb" using inv by simp
  have m: "mru ?fb = mru fb" by (simp add: relock_def put_defs)
  have nx: "get_next_bus_chip ?fb = (0, ?chip)" using next_of_mru(1) [OF i0] unfolding m .
  note nb = next_bus_chip [OF ftl_invD(1) [OF i0] nx]
  have u: "ucast ?chip = turn fb" by (simp add: turn_def)
  have need: "is_fgc_needed ?fb 0 ?chip = Some False"
    using is_fgc_needed_eq [OF i0 nb(1,2)] room unfolding u by (auto simp: has_room_def)
  have "alloc_new_page ?fb 0 ?chip \<noteq> Some (-1, None, ?fb)"
    using alloc_new_page_spec [OF i0 nb(3)] room unfolding u by (auto simp: has_room_def)
  then obtain p fb1 where a: "alloc_new_page ?fb 0 ?chip = Some (0, Some (blk_no p, of_nat (frontier (blk_of fb1 p))), fb1)"
    "ftl_ok fb1" "frame ?fb fb1" "l2p fb1 = l2p ?fb" "act_of fb1 (ucast (0 :: u8)) (ucast ?chip) = Some p"
    "gc_of fb1 = gc_of ?fb" "same_frontiers ?fb fb1"
    using alloc_new_page_spec [OF i0 nb(3)] by blast
  let ?fb2 = "upd_perf fb1 perf_inc_nr_wordline_prog_fg"
  have e: "ptr_ssd_info ?fb2 = ptr_ssd_info fb1" "act_of ?fb2 = act_of fb1" "gc_of ?fb2 = gc_of fb1" "l2p ?fb2 = l2p fb1"
    "ftl_lock ?fb2 = 0"
    using a(3) by (simp_all add: upd_perf_def act_of_def gc_of_def fun_eq_iff frame_def Let_def)
  have i2: "ftl_ok ?fb2"
    using ftl_invD(1) [OF a(2)] by (intro ftl_inv_cong [OF a(2)]) (simp_all add: upd_perf_def sizes_ok_def)
  have act2: "act_of ?fb2 (ucast (0 :: u8)) (ucast ?chip) = Some p" using a(5) e by simp
  have v: "is_valid_address_range (lpas ! j)" if "j < 4" for j using lpa len(2) that by simp
  obtain w fb3 fb4 where w:
    "vdevice_write (ptr_vdevice ?fb2) 0 ?chip (blk_no p) (of_nat (frontier (blk_of ?fb2 p))) src 0 None = Some w"
    "map_logical_to_physical (?fb2\<lparr>ptr_vdevice := w\<rparr>) lpas 0 (ucast (0 :: u8)) (ucast ?chip) (blk_no p)
      (of_nat (frontier (blk_of ?fb2 p))) = Some (0, fb3)"
    "update_act_blk (set_prev_bus_chip fb3 0 ?chip) 0 ?chip = Some fb4" "ftl_ok fb4" "gframe ?fb2 fb4"
    "snd (mru fb4) = ucast ?chip" "gc_kept ?fb2 fb4"
    "l2p fb4 = wordline_map p (of_nat (frontier (blk_of ?fb2 p))) ((!) lpas) (l2p ?fb2)"
    "nr_free_pages \<circ> blk_of fb4 = (nr_free_pages \<circ> blk_of ?fb2)(p := nr_free_pages (blk_of ?fb2 p) - 1)"
    using write_wordline_spec [OF i2 act2, of 0 src 0 lpas, OF _ _ _ zero_less_numeral] len lpa_mapped v by auto
  have lk: "ftl_lock fb4 = 0" using w(5) e(5) by (simp add: gframe_def)
  have "write_allocated fb1 lpas src 0 ?chip (blk_no p, of_nat (frontier (blk_of fb1 p))) = Some (0, relock (Suc 0) fb4)"
    using w(1-3) lock_ops(2) [OF lk] e by (simp add: write_allocated_def get_vdev_def Let_def)
  then have wr: "make_write_request_page_mapping fb lpas src = Some (0, relock (Suc 0) fb4)"
    using nx need a(1) lock lock_ops(1) [of fb] by (simp add: make_write_request_page_mapping_def)
  note pv = act_block_valid [OF a(2,5)]
  have pc: "p \<in> chip_blks (turn fb)" using pv u by (simp add: chip_blks_def)
  have pf: "0 < nr_free_pages (blk_of fb1 p)"
    using ftl_invD(8) [OF a(2) pv(1)] a(5) by (auto simp: roles_ok_def)
  have "free_in fb d = free_in (relock (Suc 0) fb4) d + (if d = turn fb then 1 else 0)" if "valid_chip 0 d" for d
  proof -
    have "free_in fb1 d = free_in fb d" using a(7) by (simp add: free_in_def same_frontiers_def)
    moreover have "free_in fb1 d = free_in fb4 d + (if d = turn fb then 1 else 0)"
      by (rule free_in_program [OF that pc pf]) (use w(9) e in simp)
    ultimately show ?thesis by (simp add: free_in_def)
  qed
  moreover have "gc_kept fb (relock (Suc 0) fb4)" using w(7) e(3) a(6) by (simp add: gc_kept_def)
  moreover have "snd (mru (relock (Suc 0) fb4)) = turn fb" using w(6) u by (simp add: relock_def put_defs)
  moreover have "l2p (relock (Suc 0) fb4) = wordline_map p (of_nat (frontier (blk_of fb1 p))) ((!) lpas) (l2p fb)"
    using w(8) e a(4) by simp
  ultimately show ?thesis using wr w(4) pc frontier_less(3) [OF pf] by auto
qed

lemma wordline_map_slot:
  assumes "length lpas = 4" "\<forall>lpa \<in> set lpas. lpa \<noteq> PAGE_UNMAPPED"
  shows "lpa \<in> set lpas \<Longrightarrow> \<exists>i < NR_LP_IN_PP. wordline_map p pg ((!) lpas) m lpa = slot_ppa p pg i"
    and "lpa \<notin> set lpas \<Longrightarrow> wordline_map p pg ((!) lpas) m lpa = m lpa"
proof -
  obtain a b c d where l: "lpas = [a, b, c, d]"
    using assms(1) by (auto simp: length_Suc_conv numeral_eq_Suc)
  show "\<exists>i < NR_LP_IN_PP. wordline_map p pg ((!) lpas) m lpa = slot_ppa p pg i" if "lpa \<in> set lpas"
  proof -
    have "wordline_map p pg ((!) lpas) m lpa \<in> {slot_ppa p pg 0, slot_ppa p pg 1, slot_ppa p pg 2, slot_ppa p pg 3}"
      using that assms(2) unfolding l by (auto simp: wordline_map_def slot_map_apply)
    then show ?thesis using slots4(1-4) by blast
  qed
  show "wordline_map p pg ((!) lpas) m lpa = m lpa" if "lpa \<notin> set lpas"
    using that unfolding l by (auto simp: wordline_map_def slot_map_apply)
qed

text \<open>A write puts its pages on the chip whose turn it is, and moves no other.\<close>

lemma on_chip_write:
  assumes l2p: "l2p fb' = wordline_map p pg ((!) lpas) (l2p fb)" and len: "length lpas = 4"
    and lpa: "\<forall>lpa \<in> set lpas. is_valid_address_range lpa" and p: "p \<in> chip_blks c" "pg < NUM_PAGES_PER_BLOCK"
  shows "set lpas \<subseteq> on_chip fb' c" "on_chip fb d - set lpas \<subseteq> on_chip fb' d"
    "dom (ftl_data fb') \<subseteq> dom (ftl_data fb) \<union> set lpas"
proof -
  have m: "\<forall>lpa \<in> set lpas. lpa \<noteq> PAGE_UNMAPPED" using lpa lpa_mapped by blast
  note W = wordline_map_slot [OF len m, where p = p and pg = pg and m = "l2p fb"]
  have vp: "valid_blk p" "blk_chip p = c" using p(1) by (simp_all add: chip_blks_def)
  show "set lpas \<subseteq> on_chip fb' c"
  proof
    fix x assume x: "x \<in> set lpas"
    then obtain i where "i < NR_LP_IN_PP" "l2p fb' x = slot_ppa p pg i" using W(1) l2p by auto
    then show "x \<in> on_chip fb' c"
      using lpa x vp p(2) slot_ppa_mapped [of p pg i] by (simp add: on_chip_def ppa_slot_slot_ppa)
  qed
  show "on_chip fb d - set lpas \<subseteq> on_chip fb' d" using W(2) l2p by (auto simp: on_chip_def)
  show "dom (ftl_data fb') \<subseteq> dom (ftl_data fb) \<union> set lpas"
    using W(2) l2p by (auto simp: ftl_data_at split: if_splits)
qed

section \<open>A host that fills one chip\<close>

text \<open>
  The first, third, fifth wordline the host writes are pages it has not written before, the second, fourth, sixth are
  the pages 0 to 3 again. As the chips take turns, the former all go to one chip and stay there, and the latter make the other
  chip's pages invalid.
\<close>

definition skewed :: "nat \<Rightarrow> u32 list" where
  "skewed n = map (\<lambda>j. if even n then of_nat (2 * n + 4 + j) else of_nat j) [0..<4]"

definition write_all :: "(nat \<Rightarrow> u32 list) \<Rightarrow> (nat \<Rightarrow> lpdata list) \<Rightarrow> nat \<Rightarrow> fb_context_t \<Rightarrow> fb_context_t option" where
  "write_all lpas src n fb = foldM (\<lambda>k fb. do {
       (ret, fb) \<leftarrow> make_write_request_page_mapping fb (lpas k) (src k);
       if ret = 0 then Some fb else None }) [0..<n] fb"

lemma skewed_pages:
  "length (skewed n) = 4"
  "odd n \<Longrightarrow> set (skewed n) = {0, 1, 2, 3}"
  "even n \<Longrightarrow> set (skewed n) = of_nat ` {2 * n + 4..<2 * n + 8}"
  "n \<le> 65280 \<Longrightarrow> lpa \<in> set (skewed n) \<Longrightarrow> unat lpa < 2 * n + 8 \<and> is_valid_address_range lpa"
proof -
  show "length (skewed n) = 4" by (simp add: skewed_def)
  show "set (skewed n) = {0, 1, 2, 3}" if "odd n" using that by (auto simp: skewed_def upt_rec)
  show e: "set (skewed n) = of_nat ` {2 * n + 4..<2 * n + 8}" if "even n"
  proof -
    have "{2 * n + 4..<2 * n + 8} = (+) (2 * n + 4) ` {0..<4}" by (simp add: ac_simps)
    then show ?thesis using that by (simp only: skewed_def image_image set_map set_upt if_True)
  qed
  assume n: "n \<le> 65280" "lpa \<in> set (skewed n)"
  have "set (skewed n) \<subseteq> of_nat ` {..<2 * n + 8}"
  proof (cases "even n")
    case True
    then show ?thesis using e by auto
  next
    case False
    then show ?thesis by (auto simp: skewed_def simp del: upt_rec)
  qed
  then obtain m where m: "lpa = of_nat m" "m < 2 * n + 8" using n(2) by auto
  then have "unat lpa = m" using n(1) by (simp add: unat_of_nat_u32)
  then show "unat lpa < 2 * n + 8 \<and> is_valid_address_range lpa"
    using m n(1) by (simp add: is_valid_address_range_def NUM_LOG_PAGES_value word_less_nat_alt)
qed

text \<open>After \<open>n\<close> wordlines, the first of which went to chip \<open>f\<close>.\<close>

definition skew_inv :: "u32 \<Rightarrow> nat \<Rightarrow> fb_context_t \<Rightarrow> bool" where
  "skew_inv f n fb \<longleftrightarrow> ftl_ok fb \<and> ftl_lock fb = 1 \<and> turn fb = (if even n then f else 1 - f) \<and>
     gc_of fb 0 0 \<noteq> None \<and> gc_of fb 0 1 \<noteq> None \<and>
     free_in fb f + (n + 1) div 2 = 171 * 192 \<and> free_in fb (1 - f) + n div 2 = 171 * 192 \<and>
     of_nat ` {4..<4 * ((n + 1) div 2) + 4} \<subseteq> on_chip fb f \<and>
     (\<forall>lpa \<in> dom (ftl_data fb). unat lpa < 4 * ((n + 1) div 2) + 4)"

lemma skew_step:
  assumes I: "skew_inv f n fb" and f: "f = 0 \<or> f = 1" and n: "n < 65280" and src: "4 \<le> length src"
  shows "\<exists>fb'. make_write_request_page_mapping fb (skewed n) src = Some (0, fb') \<and> skew_inv f (Suc n) fb'"
proof -
  let ?c = "turn fb"
  have inv: "ftl_ok fb" "ftl_lock fb = 1" and turn: "?c = (if even n then f else 1 - f)"
    and gc: "gc_of fb 0 0 \<noteq> None" "gc_of fb 0 1 \<noteq> None"
    and free: "free_in fb f + (n + 1) div 2 = 171 * 192" "free_in fb (1 - f) + n div 2 = 171 * 192"
    and on: "of_nat ` {4..<4 * ((n + 1) div 2) + 4} \<subseteq> on_chip fb f"
    and dom: "\<forall>lpa \<in> dom (ftl_data fb). unat lpa < 4 * ((n + 1) div 2) + 4"
    using I by (simp_all add: skew_inv_def)
  have vf: "valid_chip 0 f" "valid_chip 0 (1 - f)" "1 - f \<noteq> f" using f by (auto simp: valid_chip_cases)
  obtain q where q: "gc_of fb 0 ?c = Some q" using gc turn_chip(1) [of fb] by auto
  have "192 < free_in fb ?c" using free n unfolding turn by auto
  note room = room_when_free [OF inv(1) turn_chip(2) q this]
  have lpa: "\<forall>lpa \<in> set (skewed n). is_valid_address_range lpa" using skewed_pages(4) [of n] n by simp
  obtain fb' p pg where w: "make_write_request_page_mapping fb (skewed n) src = Some (0, fb')" "ftl_ok fb'" "ftl_lock fb' = 1"
    "snd (mru fb') = ?c" "gc_kept fb fb'" "p \<in> chip_blks ?c" "pg < NUM_PAGES_PER_BLOCK"
    "l2p fb' = wordline_map p pg ((!) (skewed n)) (l2p fb)"
    "\<And>d. valid_chip 0 d \<Longrightarrow> free_in fb d = free_in fb' d + (if d = ?c then 1 else 0)"
    using write_effect [OF inv room src skewed_pages(1) lpa] by blast
  note W = on_chip_write [OF w(8) skewed_pages(1) lpa w(6,7)]
  have half: "(Suc n + 1) div 2 = (if even n then (n + 1) div 2 + 1 else (n + 1) div 2)"
    "Suc n div 2 = (if even n then n div 2 else n div 2 + 1)" by auto
  have "turn fb' = (if even (Suc n) then f else 1 - f)" using w(4) f turn by (auto simp: turn_def)
  moreover have "gc_of fb' 0 0 \<noteq> None" "gc_of fb' 0 1 \<noteq> None" using gc w(5) by (auto simp: gc_kept_def)
  moreover have "free_in fb' f + (Suc n + 1) div 2 = 171 * 192" "free_in fb' (1 - f) + Suc n div 2 = 171 * 192"
    using free w(9) [OF vf(1)] w(9) [OF vf(2)] vf(3) unfolding half turn by (auto split: if_splits)
  moreover have "of_nat ` {4..<4 * ((Suc n + 1) div 2) + 4} \<subseteq> on_chip fb' f"
  proof (cases "even n")
    case True
    then have "{4..<4 * ((Suc n + 1) div 2) + 4} = {4..<4 * ((n + 1) div 2) + 4} \<union> {2 * n + 4..<2 * n + 8}"
      by (auto elim!: evenE)
    moreover have new: "set (skewed n) \<subseteq> on_chip fb' f" using W(1) turn True by simp
    then have "on_chip fb f \<subseteq> on_chip fb' f" using W(2) [of f] by blast
    ultimately show ?thesis using on new skewed_pages(3) [OF True] by (auto simp only: image_Un)
  next
    case False
    have old: "of_nat m \<notin> {0, 1, 2, 3 :: u32}" if "m \<in> {4..<4 * ((n + 1) div 2) + 4}" for m
    proof -
      have "m < 2 ^ 32" using that n by simp linarith
      then have "unat (of_nat m :: u32) = m" by (rule unat_of_nat_u32)
      then show ?thesis using that by auto
    qed
    have "(Suc n + 1) div 2 = (n + 1) div 2" using half(1) False by simp
    moreover have "of_nat m \<in> on_chip fb' f" if "m \<in> {4..<4 * ((n + 1) div 2) + 4}" for m
    proof -
      have "of_nat m \<in> on_chip fb f" using on that by blast
      then show ?thesis using W(2) [of f] old [OF that] unfolding skewed_pages(2) [OF False] by blast
    qed
    ultimately show ?thesis by auto
  qed
  moreover have "unat lpa < 4 * ((Suc n + 1) div 2) + 4" if "lpa \<in> dom (ftl_data fb')" for lpa
  proof -
    have "lpa \<in> dom (ftl_data fb) \<or> lpa \<in> set (skewed n)" using W(3) that by blast
    then show ?thesis
    proof
      assume "lpa \<in> dom (ftl_data fb)"
      then have "unat lpa < 4 * ((n + 1) div 2) + 4" using dom by blast
      moreover have "(n + 1) div 2 \<le> (Suc n + 1) div 2" by simp
      ultimately show ?thesis by linarith
    next
      assume l: "lpa \<in> set (skewed n)"
      show ?thesis
      proof (cases "even n")
        case True
        then show ?thesis using skewed_pages(4) [OF _ l] n by (auto elim!: evenE)
      next
        case False
        then have "unat lpa < 4" using skewed_pages(2) [OF False] l by auto
        then show ?thesis by simp
      qed
    qed
  qed
  ultimately show ?thesis using w(1-3) by (auto simp: skew_inv_def)
qed

lemma skew_run:
  assumes "skew_inv f 0 fb" "f = 0 \<or> f = 1" "\<forall>n. 4 \<le> length (src n)" "n \<le> 65280"
  shows "\<exists>fb'. write_all skewed src n fb = Some fb' \<and> skew_inv f n fb'"
  using assms(4)
proof (induction n)
  case 0
  then show ?case using assms(1) by (simp add: write_all_def)
next
  case (Suc n)
  then obtain fb1 where 1: "write_all skewed src n fb = Some fb1" "skew_inv f n fb1" by auto
  obtain fb2 where "make_write_request_page_mapping fb1 (skewed n) (src n) = Some (0, fb2)" "skew_inv f (Suc n) fb2"
    using skew_step [OF 1(2) assms(2)] Suc.prems assms(3) by fastforce
  then show ?case using 1(1) by (simp add: write_all_def foldM_append)
qed

lemma fresh_skew:
  assumes inv: "ftl_ok fb" and lock: "ftl_lock fb = 1" and fresh: "fresh_ftl fb" and empty: "ftl_data fb = Map.empty"
  shows "skew_inv (turn fb) 0 fb"
proof -
  have free: "free_in fb c = 171 * 192" if "valid_chip 0 c" for c
  proof -
    have "free_in fb c = (\<Sum>p \<in> chip_blks c. 192)"
      unfolding free_in_def using fresh
      by (intro sum.cong) (simp_all add: fresh_ftl_def chip_blks_def NUM_PAGES_PER_BLOCK_def)
    then show ?thesis using chip_blks_card(2) [OF that] by simp
  qed
  have "valid_chip 0 (1 - turn fb)" using turn_chip(1) [of fb] by (auto simp: valid_chip_cases)
  then show ?thesis
    using inv lock fresh empty free turn_chip(2) [of fb] by (simp add: skew_inv_def fresh_ftl_def)
qed

text \<open>
  C10. A write can fail although the host stays within the device and nearly half of it is unused. On a fresh FTL the host
  writes the wordlines \<open>skewed\<close>, all of pages inside the exported range. The first 65280 succeed, and then the device holds at
  most 130564 of the 236390 pages it exports. But 130560 of them fill every block of one chip except its GC block, and the next write,
  whose turn that chip is, fails, because the collection finds no victim there; the other chip, nearly all of
  whose pages are invalid, does not help. The request that wrote them then puts the driver in its error state.
\<close>

theorem full_chip_stops_device:
  assumes "ftl_ok fb" "ftl_lock fb = 1" "fresh_ftl fb" "ftl_data fb = Map.empty" "\<forall>n. 4 \<le> length (src n)"
  shows "(\<forall>n \<le> 65280. \<forall>lpa \<in> set (skewed n). is_valid_address_range lpa) \<and>
    (\<exists>fb1 fb2. write_all skewed src 65280 fb = Some fb1 \<and> card (dom (ftl_data fb1)) \<le> 130564 \<and>
      make_write_request_page_mapping fb1 (skewed 65280) (src 65280) = Some (-1, fb2))"
proof -
  obtain fb1 where 1: "write_all skewed src 65280 fb = Some fb1" "skew_inv (turn fb) 65280 fb1"
    using skew_run [OF fresh_skew [OF assms(1-4)] turn_chip(1) assms(5), of 65280] by blast
  then have I: "ftl_ok fb1" "ftl_lock fb1 = 1" "turn fb1 = turn fb" "gc_of fb1 0 0 \<noteq> None" "gc_of fb1 0 1 \<noteq> None"
    "of_nat ` {4..<130564} \<subseteq> on_chip fb1 (turn fb1)" "\<forall>lpa \<in> dom (ftl_data fb1). unat lpa < 130564"
    by (simp_all add: skew_inv_def)
  have "inj_on (of_nat :: nat \<Rightarrow> u32) {4..<130564}"
    by (rule inj_on_inverseI [where g = unat]) (simp add: unat_of_nat_u32)
  then have "card (of_nat ` {4..<130564} :: u32 set) = 130560" by (simp add: card_image)
  moreover have "card (of_nat ` {4..<130564} :: u32 set) \<le> card (on_chip fb1 (turn fb1))"
    using I(6) by (intro card_mono) simp_all
  ultimately have n: "170 * 768 \<le> card (on_chip fb1 (turn fb1))" by simp
  have "gc_of fb1 0 (turn fb1) \<noteq> None" using I(4,5) turn_chip(1) [of fb1] by auto
  from full_chip_write_fails [OF I(1,2) this n] obtain fb2 where
    2: "make_write_request_page_mapping fb1 (skewed 65280) (src 65280) = Some (-1, fb2)" by blast
  have "unat ` dom (ftl_data fb1) \<subseteq> {..<130564}" using I(7) by auto
  then have "card (unat ` dom (ftl_data fb1)) \<le> 130564" using card_mono [of "{..<130564 :: nat}"] by fastforce
  moreover have "inj_on unat (dom (ftl_data fb1))" by (rule inj_onI) (simp add: word_unat_eq_iff)
  ultimately have "card (dom (ftl_data fb1)) \<le> 130564" by (simp add: card_image)
  then show ?thesis using 1(1) 2 skewed_pages(4) by blast
qed

theorem full_chip_stops_device_witness:
  "\<exists>fb1 fb2. write_all skewed (\<lambda>_. [[1], [2], [3], [4]]) 65280 loaded_fb = Some fb1 \<and> card (dom (ftl_data fb1)) \<le> 130564 \<and>
    make_write_request_page_mapping fb1 (skewed 65280) [[1], [2], [3], [4]] = Some (-1, fb2)"
  using full_chip_stops_device [OF loaded_fb_spec(1,2) loaded_spec(8) loaded_fb_spec(5), of "\<lambda>_. [[1], [2], [3], [4]]"]
  by simp

end
